(* ===== verification/Prelude.thy ===== *)
theory Prelude
  imports Complex_Main "HOL-Library.Multiset" "HOL-Library.Word"
begin

text \<open>
  Shared vocabulary of the development: the collections of facts the component theories
  declare into, and the lemmas on lists, maps and machine integers that more than one
  component needs.

  The collection \<open>table_simps\<close> holds the facts about bucket arrays, \<open>automata_simps\<close> the
  unfolding facts about arcs, states and transducers, and \<open>path_intros\<close> the introduction
  rules for paths.
\<close>

unbundle bit_operations_syntax

named_theorems table_simps
named_theorems automata_simps
named_theorems path_intros

section \<open>C++ unsigned integers\<close>

text \<open>
  State numbers, symbol ids and group ids are \<open>unsigned\<close> in the source. They are
  modelled as natural numbers; the one sentinel the code uses, \<open>(unsigned)-1\<close>, is named here.
\<close>

definition uint_minus1 :: nat where
  "uint_minus1 = 4294967295"

abbreviation uint_wrap :: "nat \<Rightarrow> nat" where
  "uint_wrap n \<equiv> n mod 4294967296"

lemma uint_minus1_neq_0 [simp]: "uint_minus1 \<noteq> 0" "0 \<noteq> uint_minus1" "0 < uint_minus1"
  by (simp_all add: uint_minus1_def)

section \<open>Lists\<close>

lemma mset_concat_update_Cons [table_simps]:
  "i < length xss \<Longrightarrow> mset (concat (xss[i := y # xss ! i])) = add_mset y (mset (concat xss))"
proof (induction xss arbitrary: i)
  case (Cons xs xss)
  then show ?case by (cases i) auto
qed simp

lemma mset_concat_update:
  "i < length xss \<Longrightarrow> mset (concat (xss[i := ys])) + mset (xss ! i) = mset (concat xss) + mset ys"
proof (induction xss arbitrary: i)
  case (Cons xs xss)
  then show ?case by (cases i) auto
qed simp

lemma length_concat_sum: "length (concat xss) = sum_list (map length xss)"
  by (induction xss) auto

lemma in_set_concat_nth: "i < length xss \<Longrightarrow> x \<in> set (xss ! i) \<Longrightarrow> x \<in> set (concat xss)"
  by auto

lemma distinct_fst_mset:
  assumes "mset xs = mset ys" "distinct (map fst ys)"
  shows "distinct (map fst xs)"
proof -
  have "mset (map fst xs) = mset (map fst ys)" using assms(1) by (metis mset_map)
  then show ?thesis using assms(2) by (metis mset_eq_imp_distinct_iff)
qed

lemma map_of_eq_Some_distinct:
  "distinct (map fst xs) \<Longrightarrow> map_of xs k = Some v \<longleftrightarrow> (k, v) \<in> set xs"
  by (rule map_of_eq_Some_iff)

lemma foldl_add_sum_list: "foldl (\<lambda>s x. s + f x) (a::'a::comm_monoid_add) xs = a + (\<Sum>x\<leftarrow>xs. f x)"
  by (induction xs arbitrary: a) (simp_all add: add.assoc)

end
