(* ===== verification/HashTab.thy ===== *)
theory HashTab
  imports Prelude
begin

text \<open>
  The power-of-two hash table of \<open>graehl/shared/2hash.h\<close> (class \<open>HashTable\<close>, the map every
  part of carmel uses) and the integer and string hash functions of
  \<open>graehl/shared/hash_functions.hpp\<close>.  The template parameter \<open>H\<close> (the hasher) is an argument
  \<open>hf\<close>; a bucket is the list of its chain's entries, in chain order.  The locale \<open>dict\<close> states
  what clients rely on, and \<open>HashTable\<close> is proved to provide it.
\<close>

section \<open>Hash functions\<close>

definition golden_ratio_fraction_32 :: "32 word" where
  "golden_ratio_fraction_32 = 2654435769"

definition uint32_hash :: "32 word \<Rightarrow> 32 word" where
  "uint32_hash a0 = (let a = a0 * golden_ratio_fraction_32 in a XOR drop_bit 16 a)"

text \<open>\<open>std::size_t\<close> is 64 bits and \<open>char\<close> is signed on the platforms the program is built for.\<close>

definition cstr_hash :: "string \<Rightarrow> 64 word" where
  "cstr_hash p = foldl (\<lambda>h c. 31 * h + scast (of_char c :: 8 word)) 0 p"

section \<open>The table\<close>

fun pow2Bound_loop :: "nat \<Rightarrow> nat \<Rightarrow> nat \<Rightarrow> nat" where
  "pow2Bound_loop 0 m request = m"
| "pow2Bound_loop (Suc fuel) m request =
     (if m < request then pow2Bound_loop fuel (2 * m) request else m)"

definition pow2Bound :: "nat \<Rightarrow> nat" where
  "pow2Bound request = pow2Bound_loop request 2 request"

record ('k, 'v) HashTable =
  siz :: nat
  cnt :: nat
  growAt :: nat
  table :: "('k \<times> 'v) list list"

text \<open>A load factor is the exact value of the \<open>float\<close>, as numerator and denominator; \<open>0.9f\<close> is
  \<open>15099494 / 2^24\<close>.  Its product with a power of two is exact in \<open>float\<close>.\<close>

type_synonym load = "nat \<times> nat"

definition DEFAULTHASHLOAD :: load where
  "DEFAULTHASHLOAD = (15099494, 16777216)"

definition DEFAULTHASHSIZE :: nat where "DEFAULTHASHSIZE = 8"
definition MINHASHSIZE :: nat where "MINHASHSIZE = 4"

definition load_times :: "load \<Rightarrow> nat \<Rightarrow> nat" where
  "load_times mLoad n = fst mLoad * n div snd mLoad"

definition ht_init :: "nat \<Rightarrow> load \<Rightarrow> ('k, 'v) HashTable" where
  "ht_init sz mLoad =
     (let s = (if sz < MINHASHSIZE then MINHASHSIZE else pow2Bound sz);
          g = load_times mLoad s;
          g = (if g < 2 then 2 else g)
      in \<lparr>siz = s - 1, cnt = 0, growAt = g, table = replicate s []\<rparr>)"

definition ht_new :: "nat \<Rightarrow> ('k, 'v) HashTable" where
  "ht_new sz = ht_init sz DEFAULTHASHLOAD"

definition bucket_count :: "('k, 'v) HashTable \<Rightarrow> nat" where
  "bucket_count t = siz t + 1"

definition hashToPos :: "('k, 'v) HashTable \<Rightarrow> nat \<Rightarrow> nat" where
  "hashToPos t hashVal = (hashVal AND siz t)"

definition bucket :: "('k \<Rightarrow> nat) \<Rightarrow> ('k, 'v) HashTable \<Rightarrow> 'k \<Rightarrow> nat" where
  "bucket hf t first = hashToPos t (hf first)"

definition push_entry :: "nat \<Rightarrow> 'k \<times> 'v \<Rightarrow> ('k \<times> 'v) list list \<Rightarrow> ('k \<times> 'v) list list" where
  "push_entry i e tb = tb[i := e # tb ! i]"

definition rehash_pow2 :: "('k \<Rightarrow> nat) \<Rightarrow> nat \<Rightarrow> ('k, 'v) HashTable \<Rightarrow> ('k, 'v) HashTable" where
  "rehash_pow2 hf request t =
     (let oldSiz = siz t; siz' = request - 1;
          tb = fold (\<lambda>p. push_entry (hf (fst p) AND siz') p) (concat (table t)) (replicate request [])
      in t\<lparr>siz := siz', table := tb, growAt := growAt t * (siz' + 1) div (oldSiz + 1) + 1\<rparr>)"

definition grow :: "('k \<Rightarrow> nat) \<Rightarrow> ('k, 'v) HashTable \<Rightarrow> ('k, 'v) HashTable" where
  "grow hf t = rehash_pow2 hf (2 * bucket_count t) t"

definition rehash :: "('k \<Rightarrow> nat) \<Rightarrow> nat \<Rightarrow> ('k, 'v) HashTable \<Rightarrow> ('k, 'v) HashTable" where
  "rehash hf request t = rehash_pow2 hf (pow2Bound request) t"

definition ht_clear :: "('k, 'v) HashTable \<Rightarrow> ('k, 'v) HashTable" where
  "ht_clear t = t\<lparr>table := replicate (siz t + 1) [], cnt := 0\<rparr>"

text \<open>\<open>add\<close> does not look for the key first.\<close>

definition ht_add :: "('k \<Rightarrow> nat) \<Rightarrow> 'k \<Rightarrow> 'v \<Rightarrow> ('k, 'v) HashTable \<Rightarrow> ('k, 'v) HashTable" where
  "ht_add hf first second t0 =
     (let t1 = t0\<lparr>cnt := cnt t0 + 1\<rparr>;
          t2 = (if cnt t1 \<ge> growAt t1 then grow hf t1 else t1);
          i = bucket hf t2 first
      in t2\<lparr>table := push_entry i (first, second) (table t2)\<rparr>)"

text \<open>The result of \<open>insert\<close>: the table, the value now stored under the key
  (\<open>it.first->second\<close>) and whether the insertion was performed (\<open>it.second\<close>).\<close>

definition ht_insert ::
  "('k \<Rightarrow> nat) \<Rightarrow> 'k \<Rightarrow> 'v \<Rightarrow> ('k, 'v) HashTable \<Rightarrow> ('k, 'v) HashTable \<times> 'v \<times> bool" where
  "ht_insert hf first second t0 =
     (let hv = hf first; b = hashToPos t0 hv
      in case map_of (table t0 ! b) first of
           Some v \<Rightarrow> (t0, v, False)
         | None \<Rightarrow>
             (let t1 = t0\<lparr>cnt := cnt t0 + 1\<rparr>;
                  t2 = (if cnt t1 \<ge> growAt t1 then grow hf t1 else t1);
                  b = hashToPos t2 hv
              in (t2\<lparr>table := push_entry b (first, second) (table t2)\<rparr>, second, True)))"

definition ht_find :: "('k \<Rightarrow> nat) \<Rightarrow> ('k, 'v) HashTable \<Rightarrow> 'k \<Rightarrow> ('k \<times> 'v) option" where
  "ht_find hf t first = List.find (\<lambda>p. fst p = first) (table t ! bucket hf t first)"

definition find_second :: "('k \<Rightarrow> nat) \<Rightarrow> ('k, 'v) HashTable \<Rightarrow> 'k \<Rightarrow> 'v option" where
  "find_second hf t first = map_option snd (ht_find hf t first)"

text \<open>\<open>operator[]\<close> inserts the default value when the key is absent and returns a reference;
  \<open>ht_update\<close> is \<open>ht[first] = f(ht[first])\<close> for the default value \<open>d\<close>.\<close>

fun assoc_set :: "'k \<Rightarrow> 'v \<Rightarrow> ('k \<times> 'v) list \<Rightarrow> ('k \<times> 'v) list" where
  "assoc_set k v [] = []"
| "assoc_set k v (p # ps) = (if fst p = k then (k, v) # ps else p # assoc_set k v ps)"

definition ht_update ::
  "('k \<Rightarrow> nat) \<Rightarrow> 'v \<Rightarrow> 'k \<Rightarrow> ('v \<Rightarrow> 'v) \<Rightarrow> ('k, 'v) HashTable \<Rightarrow> ('k, 'v) HashTable" where
  "ht_update hf d first f t0 =
     (let (t, v, ins) = ht_insert hf first d t0; b = bucket hf t first
      in t\<lparr>table := (table t)[b := assoc_set first (f v) (table t ! b)]\<rparr>)"

fun chain_erase :: "'k \<Rightarrow> ('k \<times> 'v) list \<Rightarrow> ('k \<times> 'v) list option" where
  "chain_erase k [] = None"
| "chain_erase k (p # ps) =
     (if fst p = k then Some ps else map_option (Cons p) (chain_erase k ps))"

definition ht_erase :: "('k \<Rightarrow> nat) \<Rightarrow> 'k \<Rightarrow> ('k, 'v) HashTable \<Rightarrow> ('k, 'v) HashTable \<times> bool" where
  "ht_erase hf first t =
     (let i = bucket hf t first
      in case chain_erase first (table t ! i) of
           None \<Rightarrow> (t, False)
         | Some c \<Rightarrow> (t\<lparr>table := (table t)[i := c], cnt := cnt t - 1\<rparr>, True))"

definition max_load_factor :: "load \<Rightarrow> ('k, 'v) HashTable \<Rightarrow> ('k, 'v) HashTable" where
  "max_load_factor mLoad t =
     (let g = load_times mLoad (bucket_count t) in t\<lparr>growAt := (if g < 2 then 2 else g)\<rparr>)"

definition bucket_size :: "('k, 'v) HashTable \<Rightarrow> nat \<Rightarrow> nat" where
  "bucket_size t i = length (table t ! i)"

definition visit_key_val :: "('k \<Rightarrow> 'v \<Rightarrow> 's \<Rightarrow> 's) \<Rightarrow> ('k, 'v) HashTable \<Rightarrow> 's \<Rightarrow> 's" where
  "visit_key_val f t = fold (\<lambda>c. fold (\<lambda>p. f (fst p) (snd p)) c) (table t)"

section \<open>Iterators\<close>

text \<open>
  \<open>HashIter\<close> holds a pointer to the next bucket, the end of the buckets and the current entry.
  Here: the index of the next bucket and the rest of the current chain (\<open>[]\<close> is \<open>entry == NULL\<close>).
\<close>

record ('k, 'v) HashIter =
  it_bucket :: nat
  it_end :: nat
  it_chain :: "('k \<times> 'v) list"

fun skip_empty :: "('k \<times> 'v) list list \<Rightarrow> nat \<Rightarrow> nat \<times> ('k \<times> 'v) list" where
  "skip_empty [] b = (b, [])"
| "skip_empty (c # cs) b = (if c = [] then skip_empty cs (Suc b) else (Suc b, c))"

definition it_init :: "('k, 'v) HashTable \<Rightarrow> ('k, 'v) HashIter" where
  "it_init t =
     (if cnt t > 0
      then let (b, c) = skip_empty (table t) 0 in \<lparr>it_bucket = b, it_end = bucket_count t, it_chain = c\<rparr>
      else \<lparr>it_bucket = 0, it_end = 0, it_chain = []\<rparr>)"

definition it_next :: "('k, 'v) HashTable \<Rightarrow> ('k, 'v) HashIter \<Rightarrow> ('k, 'v) HashIter" where
  "it_next t it =
     (case it_chain it of
        [] \<Rightarrow> it
      | e # c \<Rightarrow>
          (if c \<noteq> [] then it\<lparr>it_chain := c\<rparr>
           else let (b, c') = skip_empty (drop (it_bucket it) (take (it_end it) (table t))) (it_bucket it)
                in it\<lparr>it_bucket := b, it_chain := c'\<rparr>))"

fun it_run :: "nat \<Rightarrow> ('k, 'v) HashTable \<Rightarrow> ('k, 'v) HashIter \<Rightarrow> ('k \<times> 'v) list" where
  "it_run 0 t it = []"
| "it_run (Suc fuel) t it =
     (case it_chain it of [] \<Rightarrow> [] | e # _ \<Rightarrow> e # it_run fuel t (it_next t it))"


section \<open>Invariant\<close>

abbreviation entries :: "('k, 'v) HashTable \<Rightarrow> ('k \<times> 'v) list" where
  "entries t \<equiv> concat (table t)"

definition buckets_ok :: "('k \<Rightarrow> nat) \<Rightarrow> nat \<Rightarrow> ('k \<times> 'v) list list \<Rightarrow> bool" where
  "buckets_ok hf s tb \<longleftrightarrow>
     length tb = Suc s \<and> (\<forall>i < length tb. \<forall>p \<in> set (tb ! i). (hf (fst p) AND s) = i)"

definition is_pow2 :: "nat \<Rightarrow> bool" where
  "is_pow2 n \<longleftrightarrow> (\<exists>k. n = 2 ^ k)"

definition ht_wf :: "('k \<Rightarrow> nat) \<Rightarrow> ('k, 'v) HashTable \<Rightarrow> bool" where
  "ht_wf hf t \<longleftrightarrow>
     is_pow2 (Suc (siz t)) \<and> buckets_ok hf (siz t) (table t) \<and> distinct (map fst (entries t))"

definition ht_inv :: "('k \<Rightarrow> nat) \<Rightarrow> ('k, 'v) HashTable \<Rightarrow> bool" where
  "ht_inv hf t \<longleftrightarrow> ht_wf hf t \<and> cnt t = length (entries t)"

lemma and_pow2_minus_1: "is_pow2 (Suc s) \<Longrightarrow> (x AND s) = x mod Suc s" for x s :: nat
proof -
  assume "is_pow2 (Suc s)"
  then obtain k where k: "Suc s = 2 ^ k" by (auto simp: is_pow2_def)
  then have "s = mask k" by (simp add: mask_eq_exp_minus_1 flip: k)
  then have "(x AND s) = take_bit k x" by (simp add: take_bit_eq_mask)
  then show ?thesis by (simp add: take_bit_eq_mod k)
qed

lemma and_pow2_less: "is_pow2 (Suc s) \<Longrightarrow> (x AND s) < Suc s" for x s :: nat
  by (simp add: and_pow2_minus_1)

lemma is_pow2_double [simp]: "is_pow2 n \<Longrightarrow> is_pow2 (2 * n)"
  by (auto simp: is_pow2_def) (metis power_Suc)

lemma is_pow2_pos: "is_pow2 n \<Longrightarrow> 0 < n"
  by (auto simp: is_pow2_def)

lemma is_pow2_4 [simp]: "is_pow2 4" and is_pow2_2 [simp]: "is_pow2 2"
  unfolding is_pow2_def by (rule exI [of _ 2], simp, rule exI [of _ 1], simp)

lemma pow2Bound_loop_pow2: "is_pow2 m \<Longrightarrow> is_pow2 (pow2Bound_loop fuel m request)"
  by (induction fuel m request rule: pow2Bound_loop.induct) auto

lemma pow2Bound_loop_ge: "request \<le> m * 2 ^ fuel \<Longrightarrow> request \<le> pow2Bound_loop fuel m request"
  by (induction fuel m request rule: pow2Bound_loop.induct) (auto simp: algebra_simps)

lemma pow2Bound_is_pow2 [simp]: "is_pow2 (pow2Bound n)"
  by (simp add: pow2Bound_def pow2Bound_loop_pow2)

lemma pow2Bound_ge: "n \<le> pow2Bound n"
proof -
  have "n \<le> 2 * 2 ^ n" using less_exp [of n] by linarith
  then show ?thesis by (simp add: pow2Bound_def pow2Bound_loop_ge)
qed

lemma bucket_less: "ht_wf hf t \<Longrightarrow> bucket hf t k < length (table t)"
  by (simp add: ht_wf_def buckets_ok_def bucket_def hashToPos_def and_pow2_less)

lemma buckets_ok_bucketD:
  "buckets_ok hf s tb \<Longrightarrow> p \<in> set (concat tb) \<Longrightarrow> p \<in> set (tb ! (hf (fst p) AND s))"
  by (auto simp: buckets_ok_def dest!: in_set_conv_nth [of _ tb, THEN iffD1])

lemma find_map_of: "map_option snd (List.find (\<lambda>p. fst p = k) xs) = map_of xs k"
  by (induction xs) auto

lemma find_second_bucket: "find_second hf t k = map_of (table t ! bucket hf t k) k"
  by (simp add: find_second_def ht_find_def find_map_of)

lemma distinct_map_fst_bucket:
  "distinct (map fst (concat tb)) \<Longrightarrow> i < length tb \<Longrightarrow> distinct (map fst (tb ! i))"
proof (induction tb arbitrary: i)
  case (Cons c tb)
  then show ?case by (cases i) auto
qed simp

lemma find_second_entries:
  assumes inv: "ht_wf hf t"
  shows "find_second hf t k = map_of (entries t) k"
proof -
  let ?c = "table t ! bucket hf t k"
  have b: "bucket hf t k < length (table t)" by (rule bucket_less [OF inv])
  have d: "distinct (map fst (entries t))" and ok: "buckets_ok hf (siz t) (table t)"
    using inv by (auto simp: ht_wf_def)
  have "(k, v) \<in> set ?c \<longleftrightarrow> (k, v) \<in> set (entries t)" for v
    using buckets_ok_bucketD [OF ok, of "(k, v)"] b
    by (auto simp: bucket_def hashToPos_def intro: nth_mem)
  then have "map_of ?c k = Some v \<longleftrightarrow> map_of (entries t) k = Some v" for v
    using distinct_map_fst_bucket [OF d b] d by simp
  then show ?thesis
    by (metis find_second_bucket not_Some_eq)
qed

lemma find_second_Some_iff:
  "ht_wf hf t \<Longrightarrow> find_second hf t k = Some v \<longleftrightarrow> (k, v) \<in> set (entries t)"
  by (simp add: find_second_entries ht_wf_def del: set_concat)

lemma find_second_None_iff:
  "ht_wf hf t \<Longrightarrow> find_second hf t k = None \<longleftrightarrow> k \<notin> fst ` set (entries t)"
  by (simp add: find_second_entries map_of_eq_None_iff del: set_concat)

section \<open>Operations keep the invariant\<close>

lemma buckets_ok_push:
  "buckets_ok hf s tb \<Longrightarrow> (hf (fst e) AND s) = i \<Longrightarrow> buckets_ok hf s (push_entry i e tb)"
  unfolding buckets_ok_def push_entry_def
  by (metis length_list_update nth_list_update_eq nth_list_update_neq set_ConsD)

lemma length_push_entry [simp]: "length (push_entry i e tb) = length tb"
  by (simp add: push_entry_def)

lemma mset_push_entry [table_simps]:
  "i < length tb \<Longrightarrow> mset (concat (push_entry i e tb)) = add_mset e (mset (concat tb))"
  by (simp add: push_entry_def mset_concat_update_Cons)

lemma fold_push:
  fixes hf :: "'k \<Rightarrow> nat" and tb :: "('k \<times> 'v) list list"
  assumes "is_pow2 (Suc s)" "buckets_ok hf s tb"
  defines "place \<equiv> fold (\<lambda>p. push_entry (hf (fst p) AND s) p)"
  shows "buckets_ok hf s (place ps tb)" "mset (concat (place ps tb)) = mset (concat tb) + mset ps"
  using assms(2)
proof (induction ps arbitrary: tb)
  case Nil
  case 1 then show ?case by (simp add: place_def)
  case 2 show ?case by (simp add: place_def)
next
  case (Cons p ps)
  have len: "(hf (fst p) AND s) < length tb" if "buckets_ok hf s tb" for tb :: "('k \<times> 'v) list list"
    using that and_pow2_less [OF assms(1)] by (simp add: buckets_ok_def)
  case 1
  then show ?case using Cons(1) by (simp add: place_def buckets_ok_push)
  case 2
  then show ?case using Cons(2) len by (simp add: place_def buckets_ok_push mset_push_entry)
qed

lemma buckets_ok_empty: "buckets_ok hf s (replicate (Suc s) [])"
  by (auto simp: buckets_ok_def nth_Cons split: nat.splits)

lemma concat_replicate_Nil [simp]: "concat (replicate n []) = []"
  by (induction n) auto

lemma rehash_pow2_props:
  assumes inv: "ht_wf hf t" and p2: "is_pow2 request"
  shows "Suc (siz (rehash_pow2 hf request t)) = request"
    "buckets_ok hf (siz (rehash_pow2 hf request t)) (table (rehash_pow2 hf request t))"
    "mset (entries (rehash_pow2 hf request t)) = mset (entries t)"
    "cnt (rehash_pow2 hf request t) = cnt t"
proof -
  have pos: "request = Suc (request - 1)" using is_pow2_pos [OF p2] by simp
  have ok: "buckets_ok hf (request - 1) (replicate request [])"
    using buckets_ok_empty [of hf "request - 1"] pos by metis
  have p2': "is_pow2 (Suc (request - 1))" using p2 pos by metis
  show "Suc (siz (rehash_pow2 hf request t)) = request"
    using pos by (simp add: rehash_pow2_def Let_def)
  show "cnt (rehash_pow2 hf request t) = cnt t" by (simp add: rehash_pow2_def Let_def)
  show "buckets_ok hf (siz (rehash_pow2 hf request t)) (table (rehash_pow2 hf request t))"
    using fold_push(1) [OF p2' ok] by (simp add: rehash_pow2_def Let_def)
  show "mset (entries (rehash_pow2 hf request t)) = mset (entries t)"
    using fold_push(2) [OF p2' ok, of "entries t"] by (simp add: rehash_pow2_def Let_def)
qed

lemma rehash_pow2_wf:
  assumes inv: "ht_wf hf t" and p2: "is_pow2 request"
  shows "ht_wf hf (rehash_pow2 hf request t)"
proof -
  note rp = rehash_pow2_props [OF inv p2]
  have "distinct (map fst (entries (rehash_pow2 hf request t)))"
    by (rule distinct_fst_mset [OF rp(3)]) (use inv in \<open>simp add: ht_wf_def\<close>)
  then show ?thesis using rp(1,2) p2 by (simp add: ht_wf_def)
qed

lemma find_second_mset_cong:
  assumes "ht_wf hf t" "ht_wf hf t'" "mset (entries t) = mset (entries t')"
  shows "find_second hf t k = find_second hf t' k"
  using assms find_second_Some_iff find_second_None_iff
  by (metis mset_eq_setD not_Some_eq)

lemma find_second_rehash:
  "ht_wf hf t \<Longrightarrow> is_pow2 request \<Longrightarrow> find_second hf (rehash_pow2 hf request t) k = find_second hf t k"
  by (intro find_second_mset_cong rehash_pow2_wf rehash_pow2_props)

lemma find_second_eq_map_of: "ht_wf hf t \<Longrightarrow> find_second hf t = map_of (entries t)"
  by (rule ext) (rule find_second_entries)

lemma map_of_add_mset:
  assumes "mset xs = add_mset (k, v) (mset ys)" "distinct (map fst xs)"
  shows "map_of xs = (map_of ys)(k \<mapsto> v)"
proof -
  have "mset xs = mset ((k, v) # ys)" using assms(1) by simp
  then have "map_of xs = map_of ((k, v) # ys)"
    using assms(2) by (metis map_of_inject_set distinct_fst_mset mset_eq_setD)
  then show ?thesis by simp
qed

lemma bucket_update_cnt [simp]: "bucket hf (t\<lparr>cnt := n\<rparr>) k = bucket hf t k"
  by (simp add: bucket_def hashToPos_def)

lemma bucket_update_table [simp]: "bucket hf (t\<lparr>table := tb\<rparr>) k = bucket hf t k"
  by (simp add: bucket_def hashToPos_def)

lemma ht_wf_update_cnt [simp]: "ht_wf hf (t\<lparr>cnt := n\<rparr>) = ht_wf hf t"
  by (simp add: ht_wf_def)

text \<open>The counter is raised first, then the table grows if the load is reached.\<close>

definition count_up :: "('k \<Rightarrow> nat) \<Rightarrow> ('k, 'v) HashTable \<Rightarrow> ('k, 'v) HashTable" where
  "count_up hf t0 =
     (let t1 = t0\<lparr>cnt := cnt t0 + 1\<rparr> in if cnt t1 \<ge> growAt t1 then grow hf t1 else t1)"

lemma count_up_props:
  assumes "ht_wf hf t"
  shows "ht_wf hf (count_up hf t)" "mset (entries (count_up hf t)) = mset (entries t)"
    "cnt (count_up hf t) = Suc (cnt t)"
proof -
  have p2: "is_pow2 (2 * bucket_count t)" if "ht_wf hf t" for t :: "('a, 'b) HashTable"
    using that is_pow2_double [of "Suc (siz t)"] by (simp add: ht_wf_def bucket_count_def)
  let ?t1 = "t\<lparr>cnt := Suc (cnt t)\<rparr>"
  have wf1: "ht_wf hf ?t1" using assms by simp
  have "bucket_count ?t1 = bucket_count t" by (simp add: bucket_count_def)
  note rp = rehash_pow2_props [OF wf1 p2 [OF wf1]] rehash_pow2_wf [OF wf1 p2 [OF wf1]]
  show "ht_wf hf (count_up hf t)" using rp wf1 by (simp add: count_up_def grow_def Let_def)
  show "mset (entries (count_up hf t)) = mset (entries t)"
    using rp by (simp add: count_up_def grow_def Let_def)
  show "cnt (count_up hf t) = Suc (cnt t)" using rp by (simp add: count_up_def grow_def Let_def)
qed

lemma push_new:
  fixes t :: "('k, 'v) HashTable" and v :: 'v
  assumes wf: "ht_wf hf t" and new: "k \<notin> fst ` set (entries t)"
  defines "t' \<equiv> t\<lparr>table := push_entry (bucket hf t k) (k, v) (table t)\<rparr>"
  shows "ht_wf hf t'" "mset (entries t') = add_mset (k, v) (mset (entries t))" "cnt t' = cnt t"
proof -
  have b: "bucket hf t k < length (table t)" by (rule bucket_less [OF wf])
  show m: "mset (entries t') = add_mset (k, v) (mset (entries t))"
    using b by (simp add: t'_def mset_push_entry)
  show "cnt t' = cnt t" by (simp add: t'_def)
  have "distinct (map fst ((k, v) # entries t))"
    using wf new by (simp add: ht_wf_def del: set_concat)
  then have "distinct (map fst (entries t'))"
    by (rule distinct_fst_mset [rotated]) (simp add: m)
  moreover have "buckets_ok hf (siz t) (table t')"
    using wf by (auto simp: t'_def ht_wf_def bucket_def hashToPos_def intro!: buckets_ok_push)
  ultimately show "ht_wf hf t'" using wf by (simp add: t'_def ht_wf_def)
qed

lemma ht_insert_alt:
  "ht_insert hf k v t =
     (case find_second hf t k of
        Some w \<Rightarrow> (t, w, False)
      | None \<Rightarrow> (let t2 = count_up hf t
                 in (t2\<lparr>table := push_entry (bucket hf t2 k) (k, v) (table t2)\<rparr>, v, True)))"
  by (simp add: ht_insert_def find_second_bucket bucket_def count_up_def Let_def split: option.split)

lemma ht_add_alt:
  "ht_add hf k v t =
     (let t2 = count_up hf t in t2\<lparr>table := push_entry (bucket hf t2 k) (k, v) (table t2)\<rparr>)"
  by (simp add: ht_add_def count_up_def Let_def)

lemma ht_add_props:
  assumes "ht_inv hf t" "find_second hf t k = None"
  shows "ht_inv hf (ht_add hf k v t)"
    "mset (entries (ht_add hf k v t)) = add_mset (k, v) (mset (entries t))"
    "find_second hf (ht_add hf k v t) = (find_second hf t)(k \<mapsto> v)"
    "cnt (ht_add hf k v t) = Suc (cnt t)"
proof -
  have wf: "ht_wf hf t" using assms(1) by (simp add: ht_inv_def)
  note cu = count_up_props [OF wf]
  have new: "k \<notin> fst ` set (entries (count_up hf t))"
    using assms(2) wf find_second_None_iff cu(2) by (metis mset_eq_setD)
  note pn = push_new [OF cu(1) new, of v]
  show m: "mset (entries (ht_add hf k v t)) = add_mset (k, v) (mset (entries t))"
    using pn(2) cu(2) by (simp add: ht_add_alt Let_def)
  have wf': "ht_wf hf (ht_add hf k v t)" using pn(1) by (simp add: ht_add_alt Let_def)
  show c: "cnt (ht_add hf k v t) = Suc (cnt t)" using cu(3) by (simp add: ht_add_alt Let_def)
  have "length (entries (ht_add hf k v t)) = Suc (length (entries t))"
    using m by (metis size_mset size_add_mset)
  then show "ht_inv hf (ht_add hf k v t)"
    using wf' c assms(1) by (simp add: ht_inv_def)
  show "find_second hf (ht_add hf k v t) = (find_second hf t)(k \<mapsto> v)"
    unfolding find_second_eq_map_of [OF wf'] find_second_eq_map_of [OF wf]
    by (rule map_of_add_mset [OF m]) (use wf' in \<open>simp add: ht_wf_def\<close>)
qed

lemma ht_insert_present:
  "find_second hf t k = Some w \<Longrightarrow> ht_insert hf k v t = (t, w, False)"
  by (simp add: ht_insert_alt)

lemma ht_insert_absent:
  "find_second hf t k = None \<Longrightarrow> ht_insert hf k v t = (ht_add hf k v t, v, True)"
  by (simp add: ht_insert_alt ht_add_alt Let_def)

lemma chain_erase_None: "chain_erase k c = None \<longleftrightarrow> map_of c k = None"
  by (induction c) auto

lemma chain_erase_Some:
  "chain_erase k c = Some c' \<Longrightarrow> \<exists>v. map_of c k = Some v \<and> mset c = add_mset (k, v) (mset c')"
proof (induction c arbitrary: c')
  case (Cons p c)
  then show ?case by (cases p) (auto split: if_splits)
qed simp

lemma ht_erase_absent: "find_second hf t k = None \<Longrightarrow> ht_erase hf k t = (t, False)"
  by (simp add: ht_erase_def Let_def find_second_bucket chain_erase_None [THEN iffD2])

lemma ht_erase_present:
  assumes inv: "ht_inv hf t" and f: "find_second hf t k = Some v"
  shows "\<exists>t'. ht_erase hf k t = (t', True) \<and> ht_inv hf t' \<and>
    find_second hf t' = (find_second hf t)(k := None) \<and> Suc (cnt t') = cnt t"
proof -
  let ?i = "bucket hf t k"
  have wf: "ht_wf hf t" using inv by (simp add: ht_inv_def)
  have b: "?i < length (table t)" by (rule bucket_less [OF wf])
  obtain c where c: "chain_erase k (table t ! ?i) = Some c"
    using f by (metis chain_erase_None find_second_bucket not_Some_eq)
  then have mc: "mset (table t ! ?i) = add_mset (k, v) (mset c)"
    using chain_erase_Some [OF c] f by (simp add: find_second_bucket)
  define t' where "t' = t\<lparr>table := (table t)[?i := c], cnt := cnt t - 1\<rparr>"
  have e: "ht_erase hf k t = (t', True)" by (simp add: ht_erase_def Let_def c t'_def)
  have "mset (entries t') + mset (table t ! ?i) = mset (entries t) + mset c"
    using mset_concat_update [OF b, of c] by (simp add: t'_def)
  then have m: "mset (entries t) = add_mset (k, v) (mset (entries t'))" using mc by simp
  then have "mset ((k, v) # entries t') = mset (entries t)" by simp
  then have d: "distinct (map fst ((k, v) # entries t'))"
    by (rule distinct_fst_mset) (use wf in \<open>unfold ht_wf_def, blast\<close>)
  have "set (table t ! ?i) = insert (k, v) (set c)"
    using mc by (metis set_mset_add_mset_insert set_mset_mset)
  then have sub: "set c \<subseteq> set (table t ! ?i)" by blast
  have "buckets_ok hf (siz t) (table t')"
    unfolding buckets_ok_def t'_def
  proof (intro conjI allI ballI impI)
    show "length (table (t\<lparr>table := (table t)[?i := c], cnt := cnt t - 1\<rparr>)) = Suc (siz t)"
      using wf by (simp add: ht_wf_def buckets_ok_def)
    fix j p assume "j < length (table (t\<lparr>table := (table t)[?i := c], cnt := cnt t - 1\<rparr>))"
      and "p \<in> set (table (t\<lparr>table := (table t)[?i := c], cnt := cnt t - 1\<rparr>) ! j)"
    then show "(hf (fst p) AND siz t) = j"
      using wf sub by (cases "j = ?i") (auto simp: ht_wf_def buckets_ok_def)
  qed
  then have wf': "ht_wf hf t'" using wf d by (simp add: ht_wf_def t'_def)
  have len: "length (entries t) = Suc (length (entries t'))" using m by (metis size_mset size_add_mset)
  have "ht_inv hf t'" using wf' len inv by (simp add: ht_inv_def t'_def)
  moreover have "Suc (cnt t') = cnt t" using len inv by (simp add: ht_inv_def t'_def)
  moreover have "find_second hf t' = (find_second hf t)(k := None)"
  proof -
    have "find_second hf t = (find_second hf t')(k \<mapsto> v)"
      unfolding find_second_eq_map_of [OF wf'] find_second_eq_map_of [OF wf]
      by (rule map_of_add_mset [OF m]) (use wf in \<open>simp add: ht_wf_def\<close>)
    moreover have "find_second hf t' k = None"
      using d by (simp add: find_second_eq_map_of [OF wf'] map_of_eq_None_iff del: set_concat)
    ultimately show ?thesis by auto
  qed
  ultimately show ?thesis using e by blast
qed

lemma assoc_set_mset:
  "map_of c k = Some v \<Longrightarrow> add_mset (k, v) (mset (assoc_set k w c)) = add_mset (k, w) (mset c)"
proof (induction c)
  case (Cons p c)
  then show ?case by (cases p) (auto split: if_splits)
qed simp

lemma map_of_assoc_set:
  "map_of (assoc_set k w c) = (if map_of c k = None then map_of c else (map_of c)(k \<mapsto> w))"
  by (induction c) (auto simp: fun_eq_iff)

lemma fst_assoc_set [simp]: "map fst (assoc_set k w c) = map fst c"
  by (induction c) auto

lemma map_fst_concat_update:
  "map fst ys = map fst (xss ! i) \<Longrightarrow> map fst (concat (xss[i := ys])) = map fst (concat xss)"
proof (induction xss arbitrary: i)
  case (Cons c xss)
  then show ?case by (cases i) auto
qed simp

text \<open>Writing through the reference \<open>insert\<close> or \<open>find\<close> return.\<close>

lemma ht_set_present:
  fixes t :: "('k, 'v) HashTable" and w :: 'v
  assumes inv: "ht_inv hf t" and f: "find_second hf t k = Some v"
  defines "t' \<equiv> t\<lparr>table := (table t)[bucket hf t k := assoc_set k w (table t ! bucket hf t k)]\<rparr>"
  shows "ht_inv hf t'" "find_second hf t' = (find_second hf t)(k \<mapsto> w)" "cnt t' = cnt t"
proof -
  let ?i = "bucket hf t k"
  have wf: "ht_wf hf t" using inv by (simp add: ht_inv_def)
  have b: "?i < length (table t)" by (rule bucket_less [OF wf])
  have keys: "map fst (entries t') = map fst (entries t)"
    by (simp add: t'_def map_fst_concat_update)
  have fsts: "fst ` set (assoc_set k w c) = fst ` set c" for c :: "('k \<times> 'v) list"
    by (metis fst_assoc_set set_map)
  have "buckets_ok hf (siz t) (table t')"
    unfolding buckets_ok_def
  proof (intro conjI allI ballI impI)
    show "length (table t') = Suc (siz t)" using wf by (simp add: t'_def ht_wf_def buckets_ok_def)
    fix j p assume j: "j < length (table t')" and p: "p \<in> set (table t' ! j)"
    then have "fst p \<in> fst ` set (table t ! j)"
      using fsts b by (cases "j = ?i") (force simp: t'_def)+
    then obtain q where q: "q \<in> set (table t ! j)" "fst p = fst q" by force
    then have "(hf (fst q) AND siz t) = j"
      using wf j by (simp add: ht_wf_def buckets_ok_def t'_def)
    then show "(hf (fst p) AND siz t) = j" using q by simp
  qed
  then have wf': "ht_wf hf t'" using wf keys by (simp add: ht_wf_def t'_def)
  show cnt: "cnt t' = cnt t" by (simp add: t'_def)
  have "length (entries t') = length (entries t)" using keys by (metis length_map)
  then show "ht_inv hf t'" using inv cnt wf' by (simp add: ht_inv_def)
  show "find_second hf t' = (find_second hf t)(k \<mapsto> w)"
  proof
    fix x
    show "find_second hf t' x = ((find_second hf t)(k \<mapsto> w)) x"
      using b f by (cases "bucket hf t x = ?i")
        (auto simp: find_second_bucket t'_def map_of_assoc_set split: if_splits)
  qed
qed

lemma ht_update_props:
  assumes inv: "ht_inv hf t"
  shows "ht_inv hf (ht_update hf d k f t)"
    "find_second hf (ht_update hf d k f t) =
       (find_second hf t)(k \<mapsto> f (case find_second hf t k of None \<Rightarrow> d | Some v \<Rightarrow> v))"
proof -
  have "ht_inv hf (ht_update hf d k f t) \<and> find_second hf (ht_update hf d k f t) =
       (find_second hf t)(k \<mapsto> f (case find_second hf t k of None \<Rightarrow> d | Some v \<Rightarrow> v))"
  proof (cases "find_second hf t k")
    case None
    note ap = ht_add_props [OF inv None, of d]
    have "find_second hf (ht_add hf k d t) k = Some d" using ap(3) by simp
    note sp = ht_set_present [OF ap(1) this, of "f d"]
    show ?thesis using sp ap(3) None
      by (simp add: ht_update_def ht_insert_absent Let_def)
  next
    case (Some v)
    note sp = ht_set_present [OF inv Some, of "f v"]
    show ?thesis using sp Some by (simp add: ht_update_def ht_insert_present Let_def)
  qed
  then show "ht_inv hf (ht_update hf d k f t)"
    "find_second hf (ht_update hf d k f t) =
       (find_second hf t)(k \<mapsto> f (case find_second hf t k of None \<Rightarrow> d | Some v \<Rightarrow> v))"
    by auto
qed

lemma ht_init_inv: "ht_inv hf (ht_init sz l)"
proof -
  have p: "is_pow2 (if sz < MINHASHSIZE then MINHASHSIZE else pow2Bound sz)" (is "is_pow2 ?s")
    by (simp add: MINHASHSIZE_def)
  then have "Suc (?s - 1) = ?s" using is_pow2_pos [OF p] by simp
  then have "buckets_ok hf (?s - 1) (replicate ?s [])" using buckets_ok_empty [of hf "?s - 1"] by metis
  with \<open>Suc (?s - 1) = ?s\<close> p show ?thesis
    by (simp add: ht_inv_def ht_wf_def ht_init_def Let_def)
qed

lemma ht_init_find: "find_second hf (ht_init sz l) = Map.empty"
proof -
  have "entries (ht_init sz l) = []" by (simp add: ht_init_def Let_def)
  then show ?thesis using ht_init_inv [of hf sz l]
    unfolding ht_inv_def by (metis find_second_eq_map_of map_of.simps(1))
qed

lemma ht_clear_inv: "ht_inv hf t \<Longrightarrow> ht_inv hf (ht_clear t)"
  using buckets_ok_empty [of hf "siz t"]
  by (simp add: ht_inv_def ht_wf_def ht_clear_def)

lemma ht_clear_find: "ht_inv hf t \<Longrightarrow> find_second hf (ht_clear t) = Map.empty"
proof -
  assume "ht_inv hf t"
  then have "ht_wf hf (ht_clear t)" using ht_clear_inv [of hf t] unfolding ht_inv_def by blast
  moreover have "entries (ht_clear t) = []" by (simp add: ht_clear_def)
  ultimately show ?thesis by (metis find_second_eq_map_of map_of.simps(1))
qed

lemma ht_new_empty [simp]:
  "ht_inv hf (ht_new sz)" "find_second hf (ht_new sz) k = None" "cnt (ht_new sz) = 0"
  "cnt (ht_new sz) < growAt (ht_new sz)"
  by (simp_all add: ht_new_def ht_init_inv ht_init_find) (simp_all add: ht_init_def Let_def)

section \<open>Iteration visits every entry once\<close>

definition it_rest :: "('k, 'v) HashTable \<Rightarrow> ('k, 'v) HashIter \<Rightarrow> ('k \<times> 'v) list" where
  "it_rest t it = it_chain it @ concat (drop (it_bucket it) (take (it_end it) (table t)))"

definition it_ok :: "('k, 'v) HashTable \<Rightarrow> ('k, 'v) HashIter \<Rightarrow> bool" where
  "it_ok t it \<longleftrightarrow> (it_chain it = [] \<longrightarrow> it_rest t it = [])"

lemma skip_empty_spec:
  "skip_empty cs b = (b', c) \<Longrightarrow>
     b \<le> b' \<and> c @ concat (drop (b' - b) cs) = concat cs \<and> (c = [] \<longrightarrow> concat cs = [])"
proof (induction cs b arbitrary: b' c rule: skip_empty.induct)
  case (2 d cs b)
  then show ?case
  proof (cases "d = []")
    case True
    with "2.prems" have s: "skip_empty cs (Suc b) = (b', c)" by simp
    from "2.IH" [OF True s] have IH: "Suc b \<le> b'" "c @ concat (drop (b' - Suc b) cs) = concat cs"
      "c = [] \<longrightarrow> concat cs = []" by auto
    then have "b' - b = Suc (b' - Suc b)" by simp
    with IH True show ?thesis by (simp del: concat_eq_Nil_conv)
  qed auto
qed auto

lemma it_next_spec:
  assumes "it_chain it = e # c"
  shows "it_rest t (it_next t it) = c @ concat (drop (it_bucket it) (take (it_end it) (table t)))"
    and "it_ok t (it_next t it)"
proof -
  let ?d = "drop (it_bucket it) (take (it_end it) (table t))"
  obtain b c' where s: "skip_empty ?d (it_bucket it) = (b, c')" by fastforce
  note sp = skip_empty_spec [OF s]
  have "drop (b - it_bucket it) ?d = drop b (take (it_end it) (table t))" using sp by simp
  then show "it_rest t (it_next t it) = c @ concat ?d" and "it_ok t (it_next t it)"
    using sp s assms by (auto simp: it_next_def it_rest_def it_ok_def simp del: concat_eq_Nil_conv)
qed

lemma it_run_take: "it_ok t it \<Longrightarrow> it_run fuel t it = take fuel (it_rest t it)"
proof (induction fuel arbitrary: it)
  case (Suc fuel)
  show ?case
  proof (cases "it_chain it")
    case Nil
    with Suc.prems show ?thesis by (simp add: it_ok_def)
  next
    case (Cons e c)
    have "it_run fuel t (it_next t it) = take fuel (it_rest t (it_next t it))"
      by (rule Suc.IH) (rule it_next_spec(2) [OF Cons])
    moreover have "it_rest t it = e # it_rest t (it_next t it)"
      by (simp only: it_rest_def [of t it] Cons it_next_spec(1) [OF Cons] append_Cons)
    ultimately show ?thesis using Cons by simp
  qed
qed simp

lemma it_init_spec:
  assumes "ht_inv hf t"
  shows "it_ok t (it_init t)" "it_rest t (it_init t) = entries t"
proof -
  obtain b c where s: "skip_empty (table t) 0 = (b, c)" by fastforce
  note sp = skip_empty_spec [OF s]
  have len: "length (table t) = bucket_count t"
    using assms by (simp add: ht_inv_def ht_wf_def buckets_ok_def bucket_count_def)
  have "cnt t = 0 \<longleftrightarrow> entries t = []" using assms by (simp add: ht_inv_def)
  then show "it_ok t (it_init t)" "it_rest t (it_init t) = entries t"
    using sp s len by (auto simp: it_init_def it_ok_def it_rest_def simp del: concat_eq_Nil_conv)
qed

lemma fold_fold_concat: "fold (\<lambda>c. fold f c) cs s = fold f (concat cs) s"
  by (induction cs arbitrary: s) simp_all

lemma visit_key_val_fold: "visit_key_val f t = fold (\<lambda>p. f (fst p) (snd p)) (entries t)"
  by (rule ext) (simp only: visit_key_val_def fold_fold_concat)

section \<open>What clients rely on\<close>

text \<open>
  The contract of the map as carmel uses it: \<open>lookup\<close> is \<open>find_second\<close>, \<open>insert_new\<close> is
  \<open>insert\<close>, \<open>remove\<close> is \<open>erase\<close>, \<open>count\<close> is \<open>size()\<close>.
\<close>

locale dict =
  fixes lookup :: "'m \<Rightarrow> 'k \<Rightarrow> 'v option"
    and insert_new :: "'k \<Rightarrow> 'v \<Rightarrow> 'm \<Rightarrow> 'm \<times> 'v \<times> bool"
    and remove :: "'k \<Rightarrow> 'm \<Rightarrow> 'm \<times> bool"
    and count :: "'m \<Rightarrow> nat"
    and inv :: "'m \<Rightarrow> bool"
  assumes insert_present: "inv m \<Longrightarrow> lookup m k = Some w \<Longrightarrow> insert_new k v m = (m, w, False)"
    and insert_absent: "inv m \<Longrightarrow> lookup m k = None \<Longrightarrow>
      \<exists>m'. insert_new k v m = (m', v, True) \<and> inv m' \<and> lookup m' = (lookup m)(k \<mapsto> v)"
    and remove_absent: "inv m \<Longrightarrow> lookup m k = None \<Longrightarrow> remove k m = (m, False)"
    and remove_present: "inv m \<Longrightarrow> lookup m k = Some v \<Longrightarrow>
      \<exists>m'. remove k m = (m', True) \<and> inv m' \<and> lookup m' = (lookup m)(k := None)"
    and count_dom: "inv m \<Longrightarrow> finite (dom (lookup m)) \<and> card (dom (lookup m)) = count m"
begin

lemma insert_new_cases:
  assumes "inv m" "insert_new k v m = (m', w, b)"
  shows "inv m'" "lookup m' = (lookup m)(k \<mapsto> w)"
    "w = (case lookup m k of None \<Rightarrow> v | Some w' \<Rightarrow> w')" "b = (lookup m k = None)"
proof -
  have "inv m' \<and> lookup m' = (lookup m)(k \<mapsto> w) \<and>
    w = (case lookup m k of None \<Rightarrow> v | Some w' \<Rightarrow> w') \<and> b = (lookup m k = None)"
    using insert_present [OF assms(1), of k] insert_absent [OF assms(1), of k v] assms
    by (cases "lookup m k") (auto simp: fun_upd_idem)
  then show "inv m'" "lookup m' = (lookup m)(k \<mapsto> w)"
    "w = (case lookup m k of None \<Rightarrow> v | Some w' \<Rightarrow> w')" "b = (lookup m k = None)" by auto
qed

lemma insert_then_insert:
  assumes "inv m" "insert_new k v m = (m', w, b)"
  shows "insert_new k v' m' = (m', w, False)"
  by (rule insert_present) (use insert_new_cases [OF assms] in simp_all)

definition insert_all :: "('k \<times> 'v) list \<Rightarrow> 'm \<Rightarrow> 'm" where
  "insert_all = fold (\<lambda>p m. fst (insert_new (fst p) (snd p) m))"

lemma insert_all_inv: "inv m \<Longrightarrow> inv (insert_all ps m)"
proof (induction ps arbitrary: m)
  case (Cons p ps)
  obtain m' w b where "insert_new (fst p) (snd p) m = (m', w, b)" by (metis surj_pair)
  with Cons insert_new_cases(1) [OF Cons.prems this] show ?case by (simp add: insert_all_def)
qed (simp add: insert_all_def)

text \<open>The first binding of a key wins, and keys already present keep their value.\<close>

lemma lookup_insert_all: "inv m \<Longrightarrow> lookup (insert_all ps m) = map_of ps ++ lookup m"
proof (induction ps arbitrary: m)
  case (Cons p ps)
  obtain m' w b where i: "insert_new (fst p) (snd p) m = (m', w, b)" by (metis surj_pair)
  note c = insert_new_cases [OF Cons.prems i]
  have "lookup (insert_all (p # ps) m) = lookup (insert_all ps m')" by (simp add: insert_all_def i)
  also have "\<dots> = map_of ps ++ (lookup m)(fst p \<mapsto> w)" by (simp only: Cons.IH [OF c(1)] c(2))
  also have "\<dots> = map_of (p # ps) ++ lookup m"
  proof
    fix x
    show "(map_of ps ++ (lookup m)(fst p \<mapsto> w)) x = (map_of (p # ps) ++ lookup m) x"
      using c(3) by (cases p; cases "x = fst p"; cases "lookup m (fst p)")
        (auto simp: map_add_def split: option.splits)
  qed
  finally show ?case .
qed (simp add: insert_all_def)

lemma count_insert_new:
  assumes "inv m" "insert_new k v m = (m', w, b)"
  shows "count m' = count m + (if b then 1 else 0)"
proof -
  note c = insert_new_cases [OF assms]
  have d: "dom (lookup m') = insert k (dom (lookup m))" using c(2) by simp
  show ?thesis using count_dom [OF assms(1)] count_dom [OF c(1)] c(4)
    by (auto simp: d card_insert_if domIff)
qed

lemma remove_then_lookup:
  assumes "inv m" "remove k m = (m', b)"
  shows "inv m'" "lookup m' = (lookup m)(k := None)" "b = (lookup m k \<noteq> None)"
proof -
  have "inv m' \<and> lookup m' = (lookup m)(k := None) \<and> b = (lookup m k \<noteq> None)"
  proof (cases "lookup m k")
    case None
    with assms remove_absent have "m' = m" "\<not> b" by auto
    with None assms(1) show ?thesis by (simp add: fun_upd_idem)
  next
    case (Some v)
    with assms remove_present [OF assms(1) Some] show ?thesis by auto
  qed
  then show "inv m'" "lookup m' = (lookup m)(k := None)" "b = (lookup m k \<noteq> None)" by auto
qed

lemma count_remove:
  assumes "inv m" "remove k m = (m', b)"
  shows "count m = count m' + (if b then 1 else 0)"
proof -
  note r = remove_then_lookup [OF assms]
  have d: "dom (lookup m') = dom (lookup m) - {k}" using r(2) by simp
  have "b \<Longrightarrow> card (dom (lookup m)) = Suc (card (dom (lookup m) - {k}))"
    using r(3) count_dom [OF assms(1)] by (metis card_Suc_Diff1 domIff)
  then show ?thesis using count_dom [OF assms(1)] count_dom [OF r(1)] r(3) d
    by (cases b) (auto simp: domIff)
qed

end

lemma ht_count_dom:
  assumes "ht_inv hf t"
  shows "finite (dom (find_second hf t)) \<and> card (dom (find_second hf t)) = cnt t"
proof -
  have wf: "ht_wf hf t" and d: "distinct (map fst (entries t))"
    using assms by (auto simp: ht_inv_def ht_wf_def)
  have dm: "dom (find_second hf t) = set (map fst (entries t))"
    unfolding find_second_eq_map_of [OF wf] dom_map_of_conv_image_fst by simp
  have "card (set (map fst (entries t))) = length (entries t)"
    using distinct_card [OF d] by (metis length_map)
  then show ?thesis using assms by (simp add: dm ht_inv_def del: set_map set_concat)
qed

interpretation ht: dict "find_second hf" "ht_insert hf" "ht_erase hf" cnt "ht_inv hf" for hf
proof (unfold_locales, goal_cases)
  case (2 m k v)
  then show ?case using ht_add_props(1,3) ht_insert_absent by metis
next
  case (4 m k v)
  from ht_erase_present [OF 4] show ?case by (elim exE conjE) (intro exI conjI; assumption)
qed (simp_all add: ht_insert_present ht_erase_absent ht_count_dom)

section \<open>Load\<close>

text \<open>The counter stays below the growth threshold.\<close>

lemma growAt_grow: "ht_wf hf t \<Longrightarrow> growAt (grow hf t) = Suc (2 * growAt t)"
proof -
  assume "ht_wf hf t"
  have "growAt t * (2 * Suc (siz t)) div Suc (siz t) = 2 * growAt t * Suc (siz t) div Suc (siz t)"
    by (simp only: ac_simps)
  also have "\<dots> = 2 * growAt t" by (rule nonzero_mult_div_cancel_right) simp
  finally show ?thesis by (simp add: grow_def rehash_pow2_def bucket_count_def Let_def)
qed

lemma count_up_load: "ht_wf hf t \<Longrightarrow> cnt t < growAt t \<Longrightarrow> cnt (count_up hf t) < growAt (count_up hf t)"
  using growAt_grow [of hf "t\<lparr>cnt := Suc (cnt t)\<rparr>"] count_up_props(3) [of hf t]
  by (auto simp: count_up_def Let_def)

lemma ht_insert_load:
  assumes "ht_inv hf t" "cnt t < growAt t" "ht_insert hf k v t = (t', w, b)"
  shows "cnt t' < growAt t'"
  using assms count_up_load [of hf t]
  by (auto simp: ht_insert_alt ht_inv_def Let_def split: option.splits)

section \<open>Properties\<close>

text \<open>C26: \<open>insert\<close> on both branches: an existing key keeps its value and is reported, a new key is
  stored (growing the table when the load is reached); all other keys keep their values, the
  counter follows, and it stays below the growth threshold.\<close>

theorem HashTable_insert_spec:
  assumes "ht_inv hf t" "cnt t < growAt t" "ht_insert hf k v t = (t', w, b)"
  shows "ht_inv hf t' \<and> find_second hf t' = (find_second hf t)(k \<mapsto> w) \<and>
    w = (case find_second hf t k of None \<Rightarrow> v | Some w' \<Rightarrow> w') \<and>
    b = (find_second hf t k = None) \<and> cnt t' = cnt t + (if b then 1 else 0) \<and> cnt t' < growAt t'"
  using ht.insert_new_cases [OF assms(1,3)] ht.count_insert_new [OF assms(1,3)] ht_insert_load [OF assms]
  by simp

theorem HashTable_insert_spec_witness:
  "let t = ht_new 0; (t', w, b) = ht_insert (\<lambda>n. n) (3::nat) (7::nat) t
   in ht_inv (\<lambda>n. n) t' \<and> w = 7 \<and> b \<and> find_second (\<lambda>n. n) t' 3 = Some 7 \<and> cnt t' = 1"
proof -
  obtain t' w b where i: "ht_insert (\<lambda>n. n) (3::nat) (7::nat) (ht_new 0) = (t', w, b)"
    by (metis surj_pair)
  show ?thesis using HashTable_insert_spec [OF ht_new_empty(1,4) i] by (simp add: i)
qed

text \<open>C27: \<open>erase\<close> removes exactly the given key, reports whether it was there, and keeps the
  invariant and the counter exact.\<close>

theorem HashTable_erase_spec:
  assumes "ht_inv hf t" "ht_erase hf k t = (t', b)"
  shows "ht_inv hf t' \<and> find_second hf t' = (find_second hf t)(k := None) \<and>
    b = (find_second hf t k \<noteq> None) \<and> cnt t = cnt t' + (if b then 1 else 0)"
  by (intro conjI ht.remove_then_lookup [OF assms] ht.count_remove [OF assms])

theorem HashTable_erase_spec_witness:
  "let t = fst (ht_insert (\<lambda>n. n) (3::nat) (7::nat) (ht_new 0)); (t', b) = ht_erase (\<lambda>n. n) 3 t
   in ht_inv (\<lambda>n. n) t' \<and> b \<and> cnt t' = 0"
proof -
  obtain t w c where i: "ht_insert (\<lambda>n. n) (3::nat) (7::nat) (ht_new 0) = (t, w, c)" by (metis surj_pair)
  obtain t' b where e: "ht_erase (\<lambda>n. n) 3 t = (t', b)" by (metis surj_pair)
  note c = ht.insert_new_cases [OF ht_new_empty(1) i] ht.count_insert_new [OF ht_new_empty(1) i]
  have "b" "cnt t = cnt t' + (if b then 1 else 0)" "ht_inv (\<lambda>n. n) t'"
    using HashTable_erase_spec [OF c(1) e] c(2,3) by simp_all
  then show ?thesis using c(4,5) by (simp add: i e)
qed

text \<open>Incrementing an iterator \<open>size()\<close> times from \<open>begin()\<close> visits every binding of the table
  exactly once and nothing else, whatever the distribution over the buckets.\<close>

theorem HashTable_iterator_visits_all:
  assumes "ht_inv hf t"
  shows "set (it_run (cnt t) t (it_init t)) = {(k, v). find_second hf t k = Some v} \<and>
    distinct (map fst (it_run (cnt t) t (it_init t)))"
proof -
  have "it_run (cnt t) t (it_init t) = entries t"
    using it_run_take [OF it_init_spec(1) [OF assms], of "cnt t"] it_init_spec(2) [OF assms] assms
    by (simp add: ht_inv_def)
  then show ?thesis using assms find_second_Some_iff [of hf t]
    by (auto simp: ht_inv_def ht_wf_def simp del: set_concat)
qed

theorem HashTable_iterator_visits_all_witness:
  "let t = ht_add (\<lambda>n. n) 5 (1::nat) (ht_add (\<lambda>n. n) (1::nat) 2 (ht_new 0))
   in set (it_run (cnt t) t (it_init t)) = {(k, v). find_second (\<lambda>n. n) t k = Some v}"
proof -
  note a = ht_add_props [where hf = "\<lambda>n. n" and k = 1 and v = "2::nat", OF ht_new_empty(1,2) [where sz = 0]]
  have "find_second (\<lambda>n. n) (ht_add (\<lambda>n. n) (1::nat) (2::nat) (ht_new 0)) 5 = None"
    using a(3) by simp
  note b = ht_add_props(1) [OF a(1) this, of 1]
  show ?thesis using HashTable_iterator_visits_all [OF b] by (simp only: Let_def)
qed

text \<open>\<open>rehash\<close> gives a power-of-two number of buckets, at least the number requested, and
  changes neither the bindings nor the counter.\<close>

theorem HashTable_rehash_spec:
  assumes "ht_inv hf t"
  shows "ht_inv hf (rehash hf n t) \<and> find_second hf (rehash hf n t) = find_second hf t \<and>
    cnt (rehash hf n t) = cnt t \<and> is_pow2 (bucket_count (rehash hf n t)) \<and>
    n \<le> bucket_count (rehash hf n t)"
proof -
  have wf: "ht_wf hf t" using assms by (simp add: ht_inv_def)
  note rp = rehash_pow2_props [OF wf pow2Bound_is_pow2 [of n]]
  have "length (entries (rehash hf n t)) = length (entries t)"
    using rp(3) by (metis rehash_def size_mset)
  then show ?thesis
    using rp rehash_pow2_wf [OF wf pow2Bound_is_pow2 [of n]] pow2Bound_ge [of n] assms
      find_second_rehash [OF wf pow2Bound_is_pow2 [of n]]
    by (auto simp: rehash_def ht_inv_def bucket_count_def)
qed

theorem HashTable_rehash_spec_witness:
  "bucket_count (rehash (\<lambda>n. n) 9 (ht_new 0 :: (nat, nat) HashTable)) = 16 \<and>
   ht_inv (\<lambda>n. n) (rehash (\<lambda>n. n) 9 (ht_new 0 :: (nat, nat) HashTable))"
  using HashTable_rehash_spec [of "\<lambda>n. n" "ht_new 0 :: (nat, nat) HashTable" 9]
  by (simp add: rehash_def rehash_pow2_def bucket_count_def Let_def pow2Bound_def numeral_eq_Suc)

end
