(* ===== verification/Indices.thy ===== *)
theory Indices
  imports Prelude
begin

text \<open>
  Removing marked elements from arrays: \<open>graehl/shared/indices_after.hpp\<close> (the old-to-new
  index tables) and the in-place removals of \<open>graehl/shared/array.hpp\<close>.  Arrays are lists,
  \<open>bool marked[]\<close> is a list of booleans of the same length, an output iterator is the list of
  what was written, and \<open>REMOVED\<close> is \<open>(unsigned)-1\<close>.
\<close>

abbreviation REMOVED :: nat where "REMOVED \<equiv> uint_minus1"

section \<open>Index tables\<close>

fun iarm_loop :: "bool list \<Rightarrow> nat \<Rightarrow> nat list \<times> nat" where
  "iarm_loop [] f = ([], f)"
| "iarm_loop (m # marked) f =
     (if m then let (o', f') = iarm_loop marked f in (REMOVED # o', f')
      else let (o', f') = iarm_loop marked (f + 1) in (f # o', f'))"

definition indices_after_remove_marked :: "bool list \<Rightarrow> nat list \<times> nat" where
  "indices_after_remove_marked marked = iarm_loop marked 0"

fun new_indices_loop :: "bool list \<Rightarrow> nat \<Rightarrow> nat list \<times> nat" where
  "new_indices_loop [] f = ([], f)"
| "new_indices_loop (i # is) f =
     (let v = (if i then REMOVED else f); f' = (if i then f else f + 1);
          (o', n) = new_indices_loop is f'
      in (v # o', n))"

definition new_indices :: "bool list \<Rightarrow> nat list \<times> nat" where
  "new_indices remove = new_indices_loop remove 0"

fun new_indices_keep_loop :: "bool list \<Rightarrow> bool \<Rightarrow> nat \<Rightarrow> nat list \<times> nat" where
  "new_indices_keep_loop [] means_keep f = ([], f)"
| "new_indices_keep_loop (i # is) means_keep f =
     (let keep = (i = means_keep); v = (if keep then f else REMOVED);
          (o', n) = new_indices_keep_loop is means_keep (if keep then f + 1 else f)
      in (v # o', n))"

definition new_indices_keep :: "bool list \<Rightarrow> bool \<Rightarrow> nat list \<times> nat" where
  "new_indices_keep keep means_keep = new_indices_keep_loop keep means_keep 0"

definition copy_perm_to :: "'a list \<Rightarrow> nat list \<Rightarrow> 'a list" where
  "copy_perm_to v perm = map (nth v) perm"

record indices_after =
  ia_map :: "nat list"
  n_kept :: nat

definition ia_init :: "bool list \<Rightarrow> bool \<Rightarrow> indices_after" where
  "ia_init a mk = (let (m, n) = new_indices_keep a mk in \<lparr>ia_map = m, n_kept = n\<rparr>)"

text \<open>The constructors of \<open>indices_after\<close> ignore their \<open>mk\<close> argument for a range and use it for
  a container; \<open>indices_after_removing\<close> passes its own through.\<close>

definition indices_after_range :: "bool list \<Rightarrow> bool \<Rightarrow> indices_after" where
  "indices_after_range a mk = ia_init a True"

definition indices_after_container :: "bool list \<Rightarrow> bool \<Rightarrow> indices_after" where
  "indices_after_container a mk = ia_init a mk"

definition indices_after_removing :: "bool list \<Rightarrow> indices_after" where
  "indices_after_removing a = ia_init a False"

definition init_inverse_order :: "nat \<Rightarrow> nat list \<Rightarrow> indices_after" where
  "init_inverse_order from_sz order =
     \<lparr>ia_map = order @ replicate (from_sz - length order) REMOVED, n_kept = length order\<rparr>"

definition init_const :: "nat \<Rightarrow> nat \<Rightarrow> indices_after" where
  "init_const n map_all_to =
     \<lparr>ia_map = replicate n map_all_to, n_kept = (if map_all_to = REMOVED then 0 else n)\<rparr>"

definition init_keep_none :: "nat \<Rightarrow> indices_after" where
  "init_keep_none n = (init_const n REMOVED)\<lparr>n_kept := 0\<rparr>"

definition removing :: "indices_after \<Rightarrow> nat \<Rightarrow> bool" where
  "removing ia i = (ia_map ia ! i = REMOVED)"

definition keeping :: "indices_after \<Rightarrow> nat \<Rightarrow> bool" where
  "keeping ia i = (ia_map ia ! i \<noteq> REMOVED)"

fun first_removed :: "indices_after \<Rightarrow> nat \<Rightarrow> nat \<Rightarrow> nat" where
  "first_removed ia 0 i = i"
| "first_removed ia (Suc n) i = (if keeping ia i then first_removed ia n (Suc i) else i)"

fun move_loop :: "indices_after \<Rightarrow> nat list \<Rightarrow> 'a list \<Rightarrow> 'a list" where
  "move_loop ia [] v = v"
| "move_loop ia (i # is) v =
     move_loop ia is (if keeping ia i then v[ia_map ia ! i := v ! i] else v)"

definition do_moves :: "indices_after \<Rightarrow> 'a list \<Rightarrow> 'a list" where
  "do_moves ia v =
     (let i = first_removed ia (length v) 0 in take (n_kept ia) (move_loop ia [i..<length v] v))"

definition array_swap :: "nat \<Rightarrow> nat \<Rightarrow> 'a list \<Rightarrow> 'a list" where
  "array_swap i j v = v[i := v ! j, j := v ! i]"

fun move_swap_loop :: "indices_after \<Rightarrow> nat list \<Rightarrow> 'a list \<Rightarrow> 'a list" where
  "move_swap_loop ia [] v = v"
| "move_swap_loop ia (i # is) v =
     move_swap_loop ia is (if keeping ia i then array_swap (ia_map ia ! i) i v else v)"

definition do_moves_swap :: "indices_after \<Rightarrow> 'a list \<Rightarrow> 'a list" where
  "do_moves_swap ia v =
     (let i = first_removed ia (length v) 0 in take (n_kept ia) (move_swap_loop ia [i..<length v] v))"

definition reindex :: "indices_after \<Rightarrow> nat list \<Rightarrow> nat list" where
  "reindex ia is = filter (\<lambda>m. m \<noteq> REMOVED) (map (nth (ia_map ia)) is)"

section \<open>In-place removal\<close>

fun first_marked :: "bool list \<Rightarrow> nat \<Rightarrow> nat \<Rightarrow> nat" where
  "first_marked marked 0 i = i"
| "first_marked marked (Suc n) i = (if marked ! i then i else first_marked marked n (Suc i))"

fun rms_loop :: "bool list \<Rightarrow> nat list \<Rightarrow> nat \<Rightarrow> 'a list \<Rightarrow> 'a list \<times> nat" where
  "rms_loop marked [] to v = (v, to)"
| "rms_loop marked (i # is) to v =
     (if \<not> marked ! i then rms_loop marked is (to + 1) (array_swap to i v)
      else rms_loop marked is to v)"

definition remove_marked_swap :: "'a list \<Rightarrow> bool list \<Rightarrow> 'a list" where
  "remove_marked_swap v marked =
     (let sz = length v
      in if sz = 0 then v
         else let i = first_marked marked sz 0; (v', to) = rms_loop marked [i..<sz] i v
              in take to v')"

text \<open>\<open>shuffle_removing\<close> rewrites a kept element with \<open>rw\<close> and a removed one with \<open>rwdel\<close>, and
  returns the number of elements kept; removed elements end up after them.\<close>

fun shuffle_loop ::
  "('a \<Rightarrow> 'a) \<Rightarrow> ('a \<Rightarrow> 'a) \<Rightarrow> indices_after \<Rightarrow> nat list \<Rightarrow> nat \<Rightarrow> 'a list \<Rightarrow> 'a list \<times> nat" where
  "shuffle_loop rw rwdel ia [] to v = (v, to)"
| "shuffle_loop rw rwdel ia (i # is) to v =
     (if removing ia i then shuffle_loop rw rwdel ia is to (v[i := rwdel (v ! i)])
      else shuffle_loop rw rwdel ia is (to + 1) (array_swap to i (v[i := rw (v ! i)])))"

definition shuffle_removing ::
  "('a \<Rightarrow> 'a) \<Rightarrow> ('a \<Rightarrow> 'a) \<Rightarrow> indices_after \<Rightarrow> 'a list \<Rightarrow> 'a list \<times> nat" where
  "shuffle_removing rw rwdel ia v =
     (let sz = length (ia_map ia); i = first_removed ia sz 0
      in shuffle_loop rw rwdel ia [i..<sz] i (map rw (take i v) @ drop i v))"

fun first_pred :: "('a \<Rightarrow> bool) \<Rightarrow> 'a list \<Rightarrow> nat \<Rightarrow> nat \<Rightarrow> nat" where
  "first_pred pred v 0 i = i"
| "first_pred pred v (Suc n) i = (if pred (v ! i) then i else first_pred pred v n (Suc i))"

fun ris_loop :: "('a \<Rightarrow> bool) \<Rightarrow> nat list \<Rightarrow> nat \<Rightarrow> 'a list \<Rightarrow> 'a list \<times> nat" where
  "ris_loop pred [] to v = (v, to)"
| "ris_loop pred (i # is) to v =
     (if pred (v ! i) then ris_loop pred is (to + 1) (array_swap to i v)
      else ris_loop pred is to v)"

definition remove_if_swap :: "'a list \<Rightarrow> ('a \<Rightarrow> bool) \<Rightarrow> 'a list" where
  "remove_if_swap v pred =
     (let sz = length v
      in if sz = 0 then v
         else let i = first_pred pred v sz 0; (v', to) = ris_loop pred [i..<sz] i v
              in take to v')"

section \<open>Lemmas\<close>

text \<open>What the removals keep.\<close>

definition unmarked :: "'a list \<Rightarrow> bool list \<Rightarrow> 'a list" where
  "unmarked v marked = map fst (filter (\<lambda>p. \<not> snd p) (zip v marked))"

lemma unmarked_simps [simp]:
  "unmarked [] ms = []" "unmarked xs [] = []"
  "unmarked (x # xs) (m # ms) = (if m then unmarked xs ms else x # unmarked xs ms)"
  by (auto simp: unmarked_def)

lemma unmarked_append:
  "length xs = length ms \<Longrightarrow> unmarked (xs @ ys) (ms @ ns) = unmarked xs ms @ unmarked ys ns"
  by (simp add: unmarked_def)

lemma length_unmarked_le: "length (unmarked v marked) \<le> length v"
  by (induction v arbitrary: marked) (simp, case_tac marked, auto simp: le_SucI)

lemma unmarked_take_Suc:
  assumes "i < length v" "i < length ms"
  shows "unmarked (take (Suc i) v) (take (Suc i) ms) =
    unmarked (take i v) (take i ms) @ (if ms ! i then [] else [v ! i])"
  using assms by (simp add: take_Suc_conv_app_nth unmarked_append)

lemma length_array_swap [simp]: "length (array_swap i j v) = length v"
  by (simp add: array_swap_def)

lemma rms_loop_spec:
  assumes "length marked = n" "length v = n" "to \<le> i" "i \<le> n"
    "take to v = unmarked (take i v0) (take i marked)" "drop i v = drop i v0" "length v0 = n"
    "to = length (unmarked (take i v0) (take i marked))"
    "rms_loop marked [i..<n] to v = (v', to')"
  shows "take to' v' = unmarked v0 marked"
  using assms
proof (induction "n - i" arbitrary: i to v)
  case 0
  then show ?case by simp
next
  case (Suc d)
  then have i: "i < n" and d: "d = n - Suc i" by auto
  then have upt: "[i..<n] = i # [Suc i..<n]" by (simp add: upt_conv_Cons)
  have vi: "v ! i = v0 ! i"
    using Suc.prems(2,6,7) i by (metis hd_drop_conv_nth)
  have dS: "drop (Suc i) v = drop (Suc i) v0"
    using Suc.prems(6) by (metis drop_Suc tl_drop)
  note us = unmarked_take_Suc [of i v0 marked]
  show ?case
  proof (cases "marked ! i")
    case True
    show ?thesis
    proof (rule Suc.hyps(1) [OF d, of v to])
      show "rms_loop marked [Suc i..<n] to v = (v', to')" using Suc.prems(9) upt True by simp
    qed (use Suc.prems i dS us True in auto)
  next
    case False
    let ?w = "array_swap to i v"
    have un: "unmarked (take (Suc i) v0) (take (Suc i) marked) =
      unmarked (take i v0) (take i marked) @ [v0 ! i]"
      using us Suc.prems i False by simp
    have tk: "take (Suc to) ?w = take to v @ [v ! i]"
      using Suc.prems(2,3) i by (simp add: array_swap_def take_Suc_conv_app_nth nth_list_update)
    show ?thesis
    proof (rule Suc.hyps(1) [OF d, of ?w "Suc to"])
      show "rms_loop marked [Suc i..<n] (Suc to) ?w = (v', to')" using Suc.prems(9) upt False by simp
      show "take (Suc to) ?w = unmarked (take (Suc i) v0) (take (Suc i) marked)"
        using tk un Suc.prems(5) vi by simp
      show "Suc to = length (unmarked (take (Suc i) v0) (take (Suc i) marked))"
        using un Suc.prems(8) by simp
      show "drop (Suc i) ?w = drop (Suc i) v0"
        using dS Suc.prems(3) by (simp add: array_swap_def)
    qed (use Suc.prems i in auto)
  qed
qed

lemma first_marked_spec:
  assumes "i + n = length marked" "\<forall>j < i. \<not> marked ! j"
  shows "first_marked marked n i \<le> length marked \<and> (\<forall>j < first_marked marked n i. \<not> marked ! j)"
  using assms
proof (induction n arbitrary: i)
  case (Suc n)
  show ?case
  proof (cases "marked ! i")
    case True
    with Suc.prems show ?thesis by simp
  next
    case False
    with Suc.prems have "\<forall>j < Suc i. \<not> marked ! j" by (simp add: All_less_Suc)
    with Suc.IH [of "Suc i"] Suc.prems False show ?thesis by simp
  qed
qed auto

lemma unmarked_none: "length v = length ms \<Longrightarrow> \<forall>j < length ms. \<not> ms ! j \<Longrightarrow> unmarked v ms = v"
  by (induction v ms rule: list_induct2) (auto simp: All_less_Suc2)

lemma remove_marked_swap_unmarked:
  assumes "length v = length marked"
  shows "remove_marked_swap v marked = unmarked v marked"
proof (cases "v = []")
  case True
  then show ?thesis by (simp add: remove_marked_swap_def)
next
  case False
  let ?i = "first_marked marked (length v) 0"
  obtain v' to' where r: "rms_loop marked [?i..<length v] ?i v = (v', to')" by fastforce
  have fm: "?i \<le> length marked" "\<forall>j < ?i. \<not> marked ! j"
    using first_marked_spec [of 0 "length v" marked] assms by auto
  have un: "unmarked (take ?i v) (take ?i marked) = take ?i v"
    using fm assms by (intro unmarked_none) auto
  have "take to' v' = unmarked v marked"
    by (rule rms_loop_spec [OF _ _ _ _ _ _ _ _ r]) (use assms fm un in auto)
  then show ?thesis using False r by (simp add: remove_marked_swap_def Let_def)
qed

lemma iarm_loop_count:
  "iarm_loop marked f = (o', f') \<Longrightarrow> f' = f + length (unmarked v marked) \<and> length o' = length marked"
  if "length v = length marked"
  using that
proof (induction marked arbitrary: v f o' f')
  case (Cons m ms)
  then obtain x xs where v: "v = x # xs" "length xs = length ms" by (cases v) auto
  with Cons show ?case by (fastforce split: if_splits prod.splits)
qed simp

lemma iarm_loop_nth:
  assumes "iarm_loop marked f = (o', f')" "i < length marked" "length v = length marked"
  shows "(marked ! i \<longrightarrow> o' ! i = REMOVED) \<and>
    (\<not> marked ! i \<longrightarrow> (\<exists>j. o' ! i = f + j \<and> j < length (unmarked v marked) \<and> unmarked v marked ! j = v ! i))"
  using assms
proof (induction marked arbitrary: v f o' f' i)
  case (Cons m ms)
  then obtain x xs where v: "v = x # xs" "length xs = length ms" by (cases v) auto
  obtain o1 f1 where r: "iarm_loop ms (if m then f else Suc f) = (o1, f1)" by fastforce
  show ?case
  proof (cases i)
    case 0
    then show ?thesis using Cons.prems(1) v r by (auto split: if_splits)
  next
    case (Suc k)
    then have k: "k < length ms" using Cons.prems(2) by simp
    note IH = Cons.IH [OF r k v(2)]
    have o': "o' ! i = o1 ! k" using Cons.prems(1) r Suc by (auto split: if_splits)
    show ?thesis
    proof (intro conjI impI)
      assume "(m # ms) ! i" then show "o' ! i = REMOVED" using IH o' Suc by simp
    next
      assume "\<not> (m # ms) ! i"
      then obtain j where j: "o1 ! k = (if m then f else Suc f) + j" "j < length (unmarked xs ms)"
        "unmarked xs ms ! j = xs ! k" using IH Suc by auto
      show "\<exists>j. o' ! i = f + j \<and> j < length (unmarked v (m # ms)) \<and> unmarked v (m # ms) ! j = v ! i"
        using j o' v Suc by (intro exI [of _ "if m then j else Suc j"]) auto
    qed
  qed
qed simp


lemma first_removed_le: "first_removed ia n i \<le> i + n"
  by (induction ia n i rule: first_removed.induct) auto

section \<open>Properties\<close>

text \<open>\<open>remove_marked_swap\<close> keeps exactly the unmarked elements, in their order.\<close>

theorem remove_marked_swap_keeps_unmarked:
  assumes "length v = length marked"
  shows "remove_marked_swap v marked = map fst (filter (\<lambda>(x, m). \<not> m) (zip v marked))"
  using remove_marked_swap_unmarked [OF assms] by (simp add: unmarked_def case_prod_unfold)

theorem remove_marked_swap_keeps_unmarked_witness:
  "remove_marked_swap [10, 11, 12, 13 :: nat] [False, True, True, False] = [10, 13]"
  using remove_marked_swap_keeps_unmarked [of "[10, 11, 12, 13 :: nat]" "[False, True, True, False]"]
  by simp

text \<open>C28: The index table of \<open>indices_after_remove_marked\<close> is the renumbering that
  \<open>remove_marked_swap\<close> performs: a marked index maps to the sentinel, an unmarked one to the place
  its element has afterwards, and the count is the new length.\<close>

theorem index_table_matches_removal:
  assumes "length v = length marked" "indices_after_remove_marked marked = (tab, n)"
  shows "length tab = length v \<and> n = length (remove_marked_swap v marked) \<and>
    (\<forall>i < length v. if marked ! i then tab ! i = REMOVED
       else tab ! i < n \<and> remove_marked_swap v marked ! (tab ! i) = v ! i)"
proof -
  have l: "iarm_loop marked 0 = (tab, n)" using assms(2) by (simp add: indices_after_remove_marked_def)
  show ?thesis
    unfolding remove_marked_swap_unmarked [OF assms(1)]
    using iarm_loop_count [OF assms(1) l] iarm_loop_nth [OF l _ assms(1)] assms(1) by auto
qed

theorem index_table_matches_removal_witness:
  "indices_after_remove_marked [False, True, False] = ([0, REMOVED, 1], 2) \<and>
   remove_marked_swap ''abc'' [False, True, False] ! 1 = CHR ''c''"
proof -
  have t: "indices_after_remove_marked [False, True, False] = ([0, REMOVED, 1], 2)"
    by (simp add: indices_after_remove_marked_def)
  show ?thesis using index_table_matches_removal [OF _ t, of "''abc''"] t by (simp add: All_less_Suc)
qed

text \<open>\<open>remove_if_swap\<close> does not do what its name says: from the first match on, the elements
  that satisfy the predicate are the ones it keeps.\<close>

theorem remove_if_swap_keeps_matches:
  "remove_if_swap [1, 2, 3, 4 :: nat] (\<lambda>x. 2 < x) = [1, 2, 3, 4] \<and>
   indices_after_range [True, False] False = indices_after_container [True, False] True"
  by (simp add: remove_if_swap_def array_swap_def numeral_eq_Suc upt_rec indices_after_range_def
    indices_after_container_def)

end
