(* ===== verification/Digits.thy ===== *)
theory Digits
  imports Prelude
begin

text \<open>
  Decimal, hexadecimal and octal conversion of machine integers:
  \<open>graehl/shared/itoa.hpp\<close> and \<open>graehl/shared/atoi_fast.hpp\<close>.  An integer type is a word of any
  width \<open>'a\<close>, signed operations read it as two's complement; a character range is a string and an
  advanced iterator is the rest of the string.  A thrown \<open>string_to_exception\<close> is \<open>Inl\<close>.  The signed parsers
  are those of a type that is not promoted (\<open>int\<close> or wider): \<open>None\<close> is signed overflow, which C++ leaves undefined.
\<close>

section \<open>Characters\<close>

abbreviation char_code :: "char \<Rightarrow> nat" where "char_code c \<equiv> of_char c"

definition digit_char :: "char \<Rightarrow> bool" where
  "digit_char c \<longleftrightarrow> 48 \<le> char_code c \<and> char_code c \<le> 57"

definition digit_to_char :: "nat \<Rightarrow> char" where
  "digit_to_char d = char_of (48 + d)"

abbreviation digit_val :: "char \<Rightarrow> nat" where "digit_val c \<equiv> char_code c - 48"

section \<open>Integer to text\<close>

lemma unat_div10_less: "n \<noteq> 0 \<Longrightarrow> unat (n div 10) < unat n" for n :: "'a::len word"
proof (cases "unat (10 :: 'a word) = 0")
  case n: True
  assume "n \<noteq> 0"
  then show ?thesis using n by (simp add: unat_div unat_gt_0)
next
  case False
  assume n: "n \<noteq> 0"
  have "even (unat (10 :: 'a word))" by (simp add: unsigned_numeral even_take_bit_eq)
  with False have "1 < unat (10 :: 'a word)" by (metis One_nat_def Suc_lessI neq0_conv odd_one)
  then show ?thesis using n by (simp add: unat_div unat_gt_0)
qed

text \<open>\<open>utoa\<close> writes backwards from \<open>buf\<close>; the result is the text written in front of what is
  already there.\<close>

function utoa_loop :: "'a::len word \<Rightarrow> string \<Rightarrow> string" where
  "utoa_loop n buf =
     (if n = 0 then buf
      else let q = n div 10; rem = n - 10 * q in utoa_loop q (digit_to_char (unat rem) # buf))"
  by pat_completeness auto
termination by (relation "measure (unat \<circ> fst)") (simp_all add: unat_div10_less)

declare utoa_loop.simps [simp del]

definition utoa :: "'a::len word \<Rightarrow> string \<Rightarrow> string" where
  "utoa n buf = (if n = 0 then digit_to_char 0 # buf else utoa_loop n buf)"

definition left_pad :: "nat \<Rightarrow> char \<Rightarrow> string \<Rightarrow> string" where
  "left_pad width pad r = replicate (width - length r) pad @ r"

definition utoa_left_pad :: "nat \<Rightarrow> 'a::len word \<Rightarrow> char \<Rightarrow> string" where
  "utoa_left_pad width n pad = left_pad width pad (utoa n [])"

function drop_trailing_0_loop :: "'a::len word \<Rightarrow> nat \<Rightarrow> (string \<times> nat) option" where
  "drop_trailing_0_loop n n_skipped =
     (if n = 0 then None
      else let q = n div 10; rem = n - 10 * q
           in if rem \<noteq> 0 then Some (utoa_loop q [digit_to_char (unat rem)], n_skipped)
              else drop_trailing_0_loop q (n_skipped + 1))"
  by pat_completeness auto
termination by (relation "measure (unat \<circ> fst)") (simp_all add: unat_div10_less)

declare drop_trailing_0_loop.simps [simp del]

text \<open>\<open>None\<close> is the \<open>assert(0)\<close> at the end of the function.\<close>

definition utoa_drop_trailing_0 :: "'a::len word \<Rightarrow> (string \<times> nat) option" where
  "utoa_drop_trailing_0 n = (if n = 0 then Some ([digit_to_char 0], 0) else drop_trailing_0_loop n 0)"

definition itoa :: "'a::len word \<Rightarrow> bool \<Rightarrow> string" where
  "itoa i positive_sign =
     (let neg = (sint i < 0); n = (if neg then - i else i); ret = utoa n []
      in if neg then CHR ''-'' # ret else if positive_sign then CHR ''+'' # ret else ret)"

text \<open>Without a sign to write the first character of the buffer stays what it is, \<open>old\<close>.\<close>

definition itoa_left_pad :: "char \<Rightarrow> nat \<Rightarrow> 'a::len word \<Rightarrow> bool \<Rightarrow> char \<Rightarrow> string" where
  "itoa_left_pad old width i positive_sign pad =
     (let neg = (sint i < 0); n = (if neg then - i else i);
          r = left_pad (width - 1) pad (utoa n [])
      in (if neg then CHR ''-'' else if positive_sign then CHR ''+'' else old) # r)"

definition itos :: "'a::len word \<Rightarrow> string" where
  "itos n = itoa n False"

definition utos :: "'a::len word \<Rightarrow> string" where
  "utos n = utoa n []"

section \<open>Text to integer\<close>

datatype string_to_exception =
    Extra_chars
  | Overflow_mul
  | Overflow_add
  | Expected_hexdigit
  | Read_past_end

fun atou_fast_advance :: "'a::len word \<Rightarrow> string \<Rightarrow> 'a word \<times> string" where
  "atou_fast_advance x [] = (x, [])"
| "atou_fast_advance x (c # cs) =
     (if \<not> digit_char c then (x, c # cs)
      else atou_fast_advance (x * 10 + of_nat (digit_val c)) cs)"

definition atou_fast :: "string \<Rightarrow> 'a::len word" where
  "atou_fast s = fst (atou_fast_advance 0 s)"

definition atou_fast_complete :: "string \<Rightarrow> string_to_exception + 'a::len word" where
  "atou_fast_complete s =
     (let (r, rest) = atou_fast_advance 0 s in if rest \<noteq> [] then Inl Extra_chars else Inr r)"

fun nooverflow_loop ::
  "'a::len word \<Rightarrow> string \<Rightarrow> string_to_exception + ('a word \<times> string)" where
  "nooverflow_loop x [] = Inr (x, [])"
| "nooverflow_loop x (c # cs) =
     (if \<not> digit_char c then Inr (x, c # cs)
      else if x > (- 1) div 10 then Inl Overflow_mul
      else let prev = x * 10; x' = prev + of_nat (digit_val c)
           in if x' < prev then Inl Overflow_add else nooverflow_loop x' cs)"

definition atou_fast_advance_nooverflow ::
  "string \<Rightarrow> string_to_exception + ('a::len word \<times> string)" where
  "atou_fast_advance_nooverflow s = nooverflow_loop 0 s"

text \<open>\<open>x\<close> after one more digit, unless a step overflows.\<close>

definition signed_fits :: "'a::len itself \<Rightarrow> int \<Rightarrow> bool" where
  "signed_fits _ v \<longleftrightarrow> - (2 ^ (LENGTH('a) - 1)) \<le> v \<and> v < 2 ^ (LENGTH('a) - 1)"

definition signed_digit :: "'a::len word \<Rightarrow> char \<Rightarrow> 'a word option" where
  "signed_digit x c =
     (if signed_fits TYPE('a) (sint x * 10) \<and> signed_fits TYPE('a) (sint x * 10 + int (digit_val c))
      then Some (x * 10 + of_nat (digit_val c)) else None)"

fun atoi_loop :: "'a::len word \<Rightarrow> string \<Rightarrow> ('a word \<times> string) option" where
  "atoi_loop x [] = Some (x, [])"
| "atoi_loop x (c # cs) =
     (if \<not> digit_char c then Some (x, c # cs) else Option.bind (signed_digit x c) (\<lambda>x. atoi_loop x cs))"

definition atoi_fast_advance :: "string \<Rightarrow> ('a::len word \<times> string) option" where
  "atoi_fast_advance s =
     (case s of
        [] \<Rightarrow> Some (0, [])
      | c # cs \<Rightarrow>
          (if c = CHR ''-'' then map_option (\<lambda>(x, rest). (- x, rest)) (atoi_loop 0 cs) else atoi_loop 0 s))"

definition atoi_fast :: "string \<Rightarrow> 'a::len word option" where
  "atoi_fast s = map_option fst (atoi_fast_advance s)"

definition atoi_fast_complete :: "string \<Rightarrow> (string_to_exception + 'a::len word) option" where
  "atoi_fast_complete s =
     map_option (\<lambda>(r, rest). if rest \<noteq> [] then Inl Extra_chars else Inr r) (atoi_fast_advance s)"

definition hex_val :: "char \<Rightarrow> nat option" where
  "hex_val c =
     (let k = char_code c
      in if 48 \<le> k \<and> k \<le> 57 then Some (k - 48)
         else if 97 \<le> k \<and> k \<le> 102 then Some (10 + k - 97)
         else if 65 \<le> k \<and> k \<le> 70 then Some (10 + k - 65)
         else None)"

definition hexdigit :: "char \<Rightarrow> string_to_exception + nat" where
  "hexdigit c = (case hex_val c of Some d \<Rightarrow> Inr d | None \<Rightarrow> Inl Expected_hexdigit)"

text \<open>\<open>hextou\<close> and \<open>octaltou\<close> read the first character before they look at \<open>end\<close>.\<close>

fun hextou_loop :: "'a::len word \<Rightarrow> string \<Rightarrow> bool \<Rightarrow> string_to_exception + 'a word" where
  "hextou_loop x [] whole = Inl Read_past_end"
| "hextou_loop x (c # cs) whole =
     (case hex_val c of
        Some d \<Rightarrow>
          (let x' = x * 16 + of_nat d in if cs = [] then Inr x' else hextou_loop x' cs whole)
      | None \<Rightarrow> if whole then Inl Extra_chars else Inr x)"

definition hextou :: "string \<Rightarrow> bool \<Rightarrow> string_to_exception + 'a::len word" where
  "hextou s whole = hextou_loop 0 s whole"

fun octaltou_loop :: "'a::len word \<Rightarrow> string \<Rightarrow> bool \<Rightarrow> string_to_exception + 'a word" where
  "octaltou_loop x [] whole = Inl Read_past_end"
| "octaltou_loop x (c # cs) whole =
     (if 48 \<le> char_code c \<and> char_code c \<le> 55
      then (let x' = x * 8 + of_nat (char_code c - 48)
            in if cs = [] then Inr x' else octaltou_loop x' cs whole)
      else if whole then Inl Extra_chars else Inr x)"

definition octaltou :: "string \<Rightarrow> bool \<Rightarrow> string_to_exception + 'a::len word" where
  "octaltou s whole = octaltou_loop 0 s whole"

section \<open>The value of a digit string\<close>

definition digits_from :: "nat \<Rightarrow> string \<Rightarrow> nat" where
  "digits_from x s = foldl (\<lambda>x c. x * 10 + digit_val c) x (takeWhile digit_char s)"

abbreviation digits_value :: "string \<Rightarrow> nat" where
  "digits_value \<equiv> digits_from 0"

lemma digits_from_simps [simp]:
  "digits_from x [] = x"
  "digits_from x (c # cs) = (if digit_char c then digits_from (x * 10 + digit_val c) cs else x)"
  by (simp_all add: digits_from_def)

lemma digits_from_ge: "x \<le> digits_from x s"
proof (induction s arbitrary: x)
  case (Cons c cs)
  show ?case using Cons [of "x * 10 + digit_val c"] by simp
qed simp

lemma atou_fast_advance_value:
  "atou_fast_advance (of_nat x :: 'a::len word) s = (of_nat (digits_from x s), dropWhile digit_char s)"
proof (induction s arbitrary: x)
  case (Cons c cs)
  show ?case using Cons [of "x * 10 + digit_val c"] by simp
qed simp

lemma char_code_digit: "d < 10 \<Longrightarrow> char_code (digit_to_char d) = 48 + d"
  by (simp add: digit_to_char_def)

lemma digit_to_char_props [simp]:
  "d < 10 \<Longrightarrow> digit_char (digit_to_char d)" "d < 10 \<Longrightarrow> digit_val (digit_to_char d) = d"
  by (simp_all add: digit_char_def char_code_digit)

lemma digits_from_digits: "list_all digit_char s \<Longrightarrow>
  digits_from x (s @ t) = digits_from (digits_from x s) t"
  by (induction s arbitrary: x) auto

lemma unat_10: "4 \<le> LENGTH('a) \<Longrightarrow> unat (10 :: 'a::len word) = 10"
proof -
  assume "4 \<le> LENGTH('a)"
  then have "(2::nat) ^ 4 \<le> 2 ^ LENGTH('a)" by (rule power_increasing) simp
  then show ?thesis by (simp add: unsigned_numeral take_bit_eq_mod)
qed

lemma unat_rem10:
  assumes "4 \<le> LENGTH('a)"
  shows "unat (n - 10 * (n div 10) :: 'a::len word) = unat n mod 10"
proof -
  have "n - 10 * (n div 10) = n mod 10" by (metis minus_mult_div_eq_mod)
  then have "unat (n - 10 * (n div 10)) = unat n mod unat (10 :: 'a word)" by (simp only: unat_mod_distrib)
  then show ?thesis by (simp only: unat_10 [OF assms])
qed

lemma utoa_loop_value:
  fixes n :: "'a::len word"
  assumes w: "4 \<le> LENGTH('a)"
  shows "\<exists>ds. utoa_loop n buf = ds @ buf \<and> list_all digit_char ds \<and> digits_value ds = unat n"
proof (induction n buf rule: utoa_loop.induct)
  case (1 n buf)
  show ?case
  proof (cases "n = 0")
    case True
    then show ?thesis by (subst utoa_loop.simps) simp
  next
    case False
    let ?q = "n div 10" and ?c = "digit_to_char (unat (n - 10 * (n div 10)))"
    obtain ds where ds: "utoa_loop ?q (?c # buf) = ds @ ?c # buf" "list_all digit_char ds"
      "digits_value ds = unat ?q" using 1 [OF False refl refl] by blast
    have "digits_value (ds @ [?c]) = unat n"
      using ds unat_10 [OF w] by (simp add: digits_from_digits unat_rem10 [OF w] unat_div)
    then show ?thesis using ds False unat_rem10 [OF w, of n]
      by (subst utoa_loop.simps) (auto simp: Let_def intro!: exI [of _ "ds @ [?c]"])
  qed
qed

lemma utoa_value:
  fixes n :: "'a::len word"
  assumes w: "4 \<le> LENGTH('a)"
  shows "\<exists>ds. utoa n buf = ds @ buf \<and> list_all digit_char ds \<and> digits_value ds = unat n \<and> ds \<noteq> []"
proof (cases "n = 0")
  case True
  then show ?thesis by (intro exI [of _ "[digit_to_char 0]"]) (simp add: utoa_def)
next
  case False
  obtain ds where ds: "utoa_loop n buf = ds @ buf" "list_all digit_char ds" "digits_value ds = unat n"
    using utoa_loop_value [OF w, of n buf] by blast
  then have "ds \<noteq> []" using False by (auto simp: unat_eq_zero)
  then show ?thesis using ds False by (auto simp: utoa_def)
qed

lemma all_digits_advance:
  "list_all digit_char ds \<Longrightarrow>
    atou_fast_advance (0 :: 'a::len word) ds = (of_nat (digits_value ds), [])"
proof -
  assume "list_all digit_char ds"
  then have "dropWhile digit_char ds = []" by (simp add: list_all_iff dropWhile_eq_Nil_conv)
  then show "atou_fast_advance (0 :: 'a::len word) ds = (of_nat (digits_value ds), [])"
    using atou_fast_advance_value [where 'a = 'a and x = 0 and s = ds] by simp
qed

lemma minus_not_digit: "\<not> digit_char CHR ''-''" "\<not> digit_char CHR ''+''"
  by (simp_all add: digit_char_def)

lemma nooverflow_loop_spec:
  fixes x :: "'a::len word"
  assumes w: "4 \<le> LENGTH('a)"
  shows "(case nooverflow_loop x s of
     Inr (y, rest) \<Rightarrow> unat y = digits_from (unat x) s \<and> rest = dropWhile digit_char s
   | Inl e \<Rightarrow> 2 ^ LENGTH('a) \<le> digits_from (unat x) s)"
proof (induction x s rule: nooverflow_loop.induct)
  case (2 x c cs)
  let ?d = "digit_val c" and ?m = "2 ^ LENGTH('a) :: nat"
  have "(2::nat) ^ 4 \<le> 2 ^ LENGTH('a)" by (rule power_increasing [OF w]) simp
  then have p4: "16 \<le> ?m" by simp
  have mx: "unat ((- 1 :: 'a word) div 10) = (?m - 1) div 10"
    by (simp only: unat_div_distrib unat_10 [OF w]) (simp add: unsigned_minus_1_eq_mask mask_eq_exp_minus_1)
  show ?case
  proof (cases "digit_char c")
    case False
    then show ?thesis by simp
  next
    case dc: True
    then have d: "?d < 10" "?d < ?m" using p4 by (auto simp: digit_char_def)
    show ?thesis
    proof (cases "x > (- 1) div 10")
      case True
      then have "(?m - 1) div 10 < unat x" using mx by (simp add: word_less_nat_alt)
      then have "?m \<le> unat x * 10" by linarith
      then show ?thesis using True dc digits_from_ge [of "unat x * 10 + ?d" cs] by simp
    next
      case False
      then have "unat x \<le> (?m - 1) div 10" using mx by (simp add: word_less_nat_alt)
      then have "unat x * 10 \<le> (?m - 1) div 10 * 10" by simp
      also have "\<dots> \<le> ?m - 1" by simp
      finally have lt: "unat x * 10 < ?m" using p4 by linarith
      have prev: "unat (x * 10) = unat x * 10"
        by (simp only: unat_word_ariths unat_10 [OF w] mod_less [OF lt])
      have dn: "unat (of_nat ?d :: 'a word) = ?d" using d(2) by (simp only: unat_of_nat mod_less)
      have sum: "unat (x * 10 + of_nat ?d) = (unat x * 10 + ?d) mod ?m"
        by (simp only: unat_word_ariths(1) prev dn)
      show ?thesis
      proof (cases "x * 10 + of_nat ?d < x * 10")
        case ov: True
        have "?m \<le> unat x * 10 + ?d"
        proof (rule ccontr)
          assume "\<not> ?m \<le> unat x * 10 + ?d"
          then show False using ov sum prev by (simp add: word_less_nat_alt)
        qed
        then show ?thesis using False dc ov digits_from_ge [of "unat x * 10 + ?d" cs]
          by (simp add: Let_def del: of_nat_diff)
      next
        case nov: False
        have "unat x * 10 + ?d < ?m"
        proof (rule ccontr)
          assume ge: "\<not> unat x * 10 + ?d < ?m"
          then have "(unat x * 10 + ?d) mod ?m = unat x * 10 + ?d - ?m"
            using lt d by (subst le_mod_geq) auto
          then have "unat (x * 10 + of_nat ?d) < unat (x * 10)"
            unfolding sum prev using lt d(2) ge by (simp only: not_less)
          then show False using nov by (metis word_less_nat_alt)
        qed
        then have e: "unat (x * 10 + of_nat ?d) = unat x * 10 + ?d" using sum by simp
        have step: "nooverflow_loop x (c # cs) = nooverflow_loop (x * 10 + of_nat ?d) cs"
          using dc False nov by (simp add: Let_def del: of_nat_diff)
        have "\<not> \<not> digit_char c" using dc by simp
        note IH = 2 [OF this False refl refl nov, unfolded e]
        have "digits_from (unat x) (c # cs) = digits_from (unat x * 10 + ?d) cs"
          "dropWhile digit_char (c # cs) = dropWhile digit_char cs" using dc by simp_all
        then show ?thesis unfolding step using IH by (simp only:)
      qed
    qed
  qed
qed simp

section \<open>Signed numbers\<close>

lemma sint_of_nat_small:
  assumes "x < 2 ^ (LENGTH('a) - 1)"
  shows "sint (of_nat x :: 'a::len word) = int x"
proof -
  have lt: "int x < 2 ^ (LENGTH('a) - 1)" using assms by (metis of_nat_less_iff of_nat_numeral of_nat_power)
  have "sint (of_nat x :: 'a word) = signed_take_bit (LENGTH('a) - 1) (int x)"
    by (simp add: signed_of_nat)
  also have "\<dots> = int x" by (rule signed_take_bit_int_eq_self) (use lt in \<open>auto intro: order.trans [of _ 0]\<close>)
  finally show ?thesis .
qed

lemma atoi_loop_value:
  assumes "list_all digit_char s" "x < 2 ^ (LENGTH('a) - 1)"
  shows "atoi_loop (of_nat x :: 'a::len word) s =
    (if digits_from x s < 2 ^ (LENGTH('a) - 1) then Some (of_nat (digits_from x s), []) else None)"
  using assms
proof (induction s arbitrary: x)
  case (Cons c cs)
  let ?m = "2 ^ (LENGTH('a) - 1) :: nat" and ?y = "x * 10 + digit_val c"
  have c: "digit_char c" "list_all digit_char cs" using Cons.prems(1) by simp_all
  have sx: "sint (of_nat x :: 'a word) = int x" by (rule sint_of_nat_small [OF Cons.prems(2)])
  have lt: "int y < 2 ^ (LENGTH('a) - 1) \<longleftrightarrow> y < ?m" for y by (metis of_nat_less_iff of_nat_numeral of_nat_power)
  have fits: "signed_fits TYPE('a) (int y) \<longleftrightarrow> y < ?m" for y
    using lt [of y] by (simp add: signed_fits_def) (smt (verit) of_nat_0_le_iff zero_le_power)
  have e: "sint (of_nat x :: 'a word) * 10 = int (x * 10)" "sint (of_nat x :: 'a word) * 10 + int (digit_val c) = int ?y"
    by (simp_all only: sx of_nat_add of_nat_mult of_nat_numeral)
  have d: "signed_digit (of_nat x :: 'a word) c = (if ?y < ?m then Some (of_nat ?y) else None)"
  proof -
    have "of_nat x * 10 + of_nat (digit_val c) = (of_nat ?y :: 'a word)" by (simp only: of_nat_add of_nat_mult of_nat_numeral)
    moreover have "x * 10 < ?m \<and> ?y < ?m \<longleftrightarrow> ?y < ?m" by linarith
    ultimately show ?thesis unfolding signed_digit_def e(1) of_nat_add [symmetric] fits by (simp only:)
  qed
  show ?case
  proof (cases "?y < ?m")
    case True
    then show ?thesis using Cons.IH [OF c(2) True] c(1) d by (simp del: of_nat_diff of_nat_add)
  next
    case False
    then have "\<not> digits_from ?y cs < ?m" using digits_from_ge [of ?y cs] by linarith
    then show ?thesis using False c(1) d by simp
  qed
qed simp

lemma unat_magnitude:
  fixes i :: "'a::len word"
  shows "unat (if sint i < 0 then - i else i) < 2 ^ (LENGTH('a) - 1) \<longleftrightarrow> sint i \<noteq> - (2 ^ (LENGTH('a) - 1))"
proof -
  let ?k = "sint i" and ?h = "2 ^ (LENGTH('a) - 1) :: int"
  have k: "- ?h \<le> ?k" "?k < ?h" using sint_ge [of i] sint_lt [of i] by simp_all
  have "0 < LENGTH('a)" by simp
  then have two: "(2 :: int) ^ LENGTH('a) = 2 * ?h" by (metis power_eq_if gr_implies_not0)
  have un: "unat (of_int v :: 'a word) = nat v" if "0 \<le> v" "v \<le> ?h" for v
  proof -
    have "0 < ?h" by simp
    then have "v < 2 ^ LENGTH('a)" using that two by linarith
    then have "uint (of_int v :: 'a word) = v" using that(1) by (simp add: unsigned_of_int take_bit_int_eq_self)
    then show ?thesis by (simp only: unat_eq_nat_uint)
  qed
  have "(if ?k < 0 then - i else i) = of_int \<bar>?k\<bar>" by (simp add: abs_if)
  then have "unat (if ?k < 0 then - i else i) = nat \<bar>?k\<bar>" using un [of "\<bar>?k\<bar>"] k by auto
  moreover have "nat \<bar>?k\<bar> < 2 ^ (LENGTH('a) - 1) \<longleftrightarrow> \<bar>?k\<bar> < ?h"
    by (metis abs_ge_zero nat_less_numeral_power_cancel_iff)
  ultimately show ?thesis using k by linarith
qed

section \<open>Properties\<close>

text \<open>C29: \<open>atoi_fast\<close> and \<open>atoi_fast_complete\<close> read back every integer that \<open>itoa\<close> prints, at every width of at
  least four bits, the most negative one apart: on the text of that one the signed accumulator overflows.\<close>

theorem atoi_itoa_roundtrip:
  fixes i :: "'a::len word"
  assumes "4 \<le> LENGTH('a)"
  shows "atoi_fast (itoa i False) = (if sint i = - (2 ^ (LENGTH('a) - 1)) then None else Some i) \<and>
    atoi_fast_complete (itoa i False) = (if sint i = - (2 ^ (LENGTH('a) - 1)) then None else Some (Inr i))"
proof -
  let ?n = "if sint i < 0 then - i else i" and ?m = "2 ^ (LENGTH('a) - 1) :: nat"
  obtain ds where ds: "utoa ?n [] = ds" "list_all digit_char ds" "digits_value ds = unat ?n" "ds \<noteq> []"
    using utoa_value [OF assms, of ?n "[]"] by auto
  obtain c cs where c: "ds = c # cs" using ds(4) by (cases ds) auto
  then have nm: "c \<noteq> CHR ''-''" using ds(2) minus_not_digit by auto
  have a: "atoi_loop (0 :: 'a word) ds = (if unat ?n < ?m then Some (?n, []) else None)"
    using atoi_loop_value [OF ds(2), where 'a = 'a and x = 0] ds(3) by simp
  have adv: "atoi_fast_advance (itoa i False) = (if unat ?n < ?m then Some (i, []) else None)"
    using a nm c ds(1) by (cases "sint i < 0") (simp_all add: itoa_def atoi_fast_advance_def Let_def)
  have "unat ?n < ?m \<longleftrightarrow> sint i \<noteq> - (2 ^ (LENGTH('a) - 1))" by (rule unat_magnitude)
  then show ?thesis using adv by (simp add: atoi_fast_def atoi_fast_complete_def)
qed

theorem atoi_itoa_roundtrip_witness:
  "atoi_fast (itoa (- 127 :: 8 word) False) = Some (- 127 :: 8 word) \<and> (atoi_fast (itoa (- 128 :: 8 word) False) :: 8 word option) = None"
  using atoi_itoa_roundtrip [of "- 127 :: 8 word"] atoi_itoa_roundtrip [of "- 128 :: 8 word"] by simp

text \<open>C30: \<open>atou_fast_advance_nooverflow\<close> throws exactly when the digits denote a number that does not
  fit the word; otherwise it returns that number and stops at the first non-digit.\<close>

theorem atou_nooverflow_exact:
  fixes s :: string
  assumes "4 \<le> LENGTH('a)"
  shows "(case (atou_fast_advance_nooverflow s :: string_to_exception + ('a::len word \<times> string)) of
     Inr (y, rest) \<Rightarrow> unat y = digits_value s \<and> rest = dropWhile digit_char s
   | Inl e \<Rightarrow> 2 ^ LENGTH('a) \<le> digits_value s)"
  using nooverflow_loop_spec [OF assms, of 0 s, unfolded unsigned_0] by (simp add: atou_fast_advance_nooverflow_def)

theorem atou_nooverflow_exact_witness:
  "(case (atou_fast_advance_nooverflow ''256'' :: string_to_exception + (8 word \<times> string)) of
     Inr (y, rest) \<Rightarrow> False | Inl e \<Rightarrow> True)"
proof -
  have v: "digits_value ''256'' = 256" by (simp add: digit_char_def)
  note e = atou_nooverflow_exact [where 'a = 8, of "''256''", unfolded v]
  show ?thesis
  proof (cases "atou_fast_advance_nooverflow ''256'' :: string_to_exception + (8 word \<times> string)")
    case (Inr p)
    obtain y r where "p = (y, r)" by fastforce
    then have "unat y = 256" using e Inr by simp
    then show ?thesis using unsigned_less [of y, where 'a = nat] by simp
  qed simp
qed

end
