(* ===== verification/Alphabet.thy ===== *)
theory Alphabet
  imports HashTab Indices Digits
begin

text \<open>
  Symbol tables: class \<open>Alphabet\<close> of \<open>graehl/shared/strhash.h\<close>, a growing array of names with a
  \<open>HashTable\<close> from name to position, and the reference counting \<open>StringPool\<close> beside it.  A
  \<open>StringKey\<close> is its text; the default key is the empty text.  The template's default pool
  (\<open>NoStringPool\<close>) is the one modelled in \<open>Alphabet\<close>: it returns every name unchanged.
\<close>

definition key_hash :: "string \<Rightarrow> nat" where
  "key_hash s = unat (cstr_hash s)"

section \<open>StringPool\<close>

type_synonym pool = "(string, nat) HashTable"

definition borrow :: "pool \<Rightarrow> string \<Rightarrow> pool" where
  "borrow counts s =
     (if s = '''' then counts
      else case ht_insert key_hash s 1 counts of
             (c, n, True) \<Rightarrow> c
           | (c, n, False) \<Rightarrow> ht_update key_hash 0 s (\<lambda>n. n + 1) c)"

text \<open>Giving back a name that is not in the pool dereferences a null pointer: \<open>None\<close>.\<close>

definition giveBack :: "pool \<Rightarrow> string \<Rightarrow> pool option" where
  "giveBack counts s =
     (if s = '''' then Some counts
      else case find_second key_hash counts s of
             None \<Rightarrow> None
           | Some n \<Rightarrow>
               (let c = ht_update key_hash 0 s (\<lambda>n. n - 1) counts
                in if n - 1 = 0 then Some (fst (ht_erase key_hash s c)) else Some c))"

section \<open>Alphabet\<close>

record Alphabet =
  names :: "string list"
  sym_ht :: "(string, nat) HashTable"

definition alph_empty :: "Alphabet" where
  "alph_empty = \<lparr>names = [], sym_ht = ht_new DEFAULTHASHSIZE\<rparr>"

definition alph_add_at :: "string \<Rightarrow> Alphabet \<Rightarrow> Alphabet" where
  "alph_add_at s a = a\<lparr>sym_ht := ht_add key_hash s (length (names a)) (sym_ht a), names := names a @ [s]\<rparr>"

definition alph_add :: "string \<Rightarrow> Alphabet \<Rightarrow> Alphabet \<times> nat" where
  "alph_add s a = (let ret = length (names a) in (alph_add_at s a, ret))"

definition alph_new1 :: "string \<Rightarrow> Alphabet" where
  "alph_new1 c = alph_add_at c alph_empty"

definition alph_new2 :: "string \<Rightarrow> string \<Rightarrow> Alphabet" where
  "alph_new2 c d = alph_add_at d (alph_add_at c alph_empty)"

definition alph_copy :: "Alphabet \<Rightarrow> Alphabet" where
  "alph_copy a = foldl (\<lambda>b s. alph_add_at s b) alph_empty (names a)"

definition alph_find :: "Alphabet \<Rightarrow> string \<Rightarrow> nat option" where
  "alph_find a name = find_second key_hash (sym_ht a) name"

definition alph_have :: "Alphabet \<Rightarrow> string \<Rightarrow> bool" where
  "alph_have a s = (alph_find a s \<noteq> None)"

text \<open>The random characters drawn are an argument; \<open>None\<close> is running out of them.\<close>

fun unique_loop :: "Alphabet \<Rightarrow> string \<Rightarrow> string \<Rightarrow> string option" where
  "unique_loop a b [] = (if alph_have a b then None else Some b)"
| "unique_loop a b (r # rs) = (if alph_have a b then unique_loop a (b @ [r]) rs else Some b)"

definition add_make_unique :: "string \<Rightarrow> string \<Rightarrow> Alphabet \<Rightarrow> (Alphabet \<times> nat) option" where
  "add_make_unique random s a =
     (if \<not> alph_have a s then Some (alph_add s a)
      else map_option (\<lambda>b. alph_add b a) (unique_loop a s random))"

definition is_index :: "Alphabet \<Rightarrow> nat \<Rightarrow> bool" where
  "is_index a pos \<longleftrightarrow> pos < length (names a)"

definition indexOf :: "string \<Rightarrow> Alphabet \<Rightarrow> Alphabet \<times> nat" where
  "indexOf s a =
     (case ht_insert key_hash s (length (names a)) (sym_ht a) of
        (h, i, True) \<Rightarrow> (a\<lparr>sym_ht := h, names := names a @ [s]\<rparr>, i)
      | (h, i, False) \<Rightarrow> (a\<lparr>sym_ht := h\<rparr>, i))"

definition at_grow :: "nat \<Rightarrow> string list \<Rightarrow> string list" where
  "at_grow i xs = xs @ replicate (Suc i - length xs) ''''"

text \<open>\<open>operator()\<close>: the name at a position, a decimal number when there is none yet.\<close>

definition alph_name :: "nat \<Rightarrow> Alphabet \<Rightarrow> Alphabet \<times> string" where
  "alph_name iNum a =
     (let ns = at_grow iNum (names a)
      in if ns ! iNum = ''''
         then let k = utoa (of_nat iNum :: 32 word) []
              in (a\<lparr>names := ns[iNum := k], sym_ht := ht_update key_hash 0 k (\<lambda>_. iNum) (sym_ht a)\<rparr>, k)
         else (a\<lparr>names := ns\<rparr>, ns ! iNum))"

text \<open>\<open>removeMarked\<close>: \<open>None\<close> when it would read past \<open>marked\<close> or \<open>oldToNew\<close>, or look at the entry of
  a name that is not in the table.\<close>

fun remove_loop ::
  "bool list \<Rightarrow> nat list \<Rightarrow> nat \<Rightarrow> nat \<Rightarrow> string list \<Rightarrow> (string, nat) HashTable
    \<Rightarrow> (string, nat) HashTable option" where
  "remove_loop marked oldToNew N i [] h = Some h"
| "remove_loop marked oldToNew N i (s # ns) h =
     (if i \<ge> length marked then None
      else if marked ! i \<or> i \<ge> N
      then remove_loop marked oldToNew N (Suc i) ns (fst (ht_erase key_hash s h))
      else case find_second key_hash h s of
             None \<Rightarrow> None
           | Some rI \<Rightarrow>
               if rI \<ge> length oldToNew then None
               else remove_loop marked oldToNew N (Suc i) ns
                      (ht_update key_hash 0 s (\<lambda>r. oldToNew ! r) h))"

definition alph_removeMarked :: "bool list \<Rightarrow> nat list \<Rightarrow> nat \<Rightarrow> Alphabet \<Rightarrow> Alphabet option" where
  "alph_removeMarked marked oldToNew N a =
     (case remove_loop marked oldToNew N 0 (names a) (sym_ht a) of
        None \<Rightarrow> None
      | Some h \<Rightarrow> Some (a\<lparr>sym_ht := h, names := remove_marked_swap (names a) marked\<rparr>))"

definition alph_clear :: "Alphabet \<Rightarrow> Alphabet" where
  "alph_clear a = (if length (names a) > 0 then a\<lparr>names := [], sym_ht := ht_clear (sym_ht a)\<rparr> else a)"

definition computeMap :: "Alphabet \<Rightarrow> Alphabet \<Rightarrow> nat list" where
  "computeMap a other =
     map (\<lambda>s. case alph_find other s of Some ip \<Rightarrow> ip | None \<Rightarrow> uint_minus1) (names a)"

definition alph_size :: "Alphabet \<Rightarrow> nat" where
  "alph_size a = length (names a)"

section \<open>Invariant\<close>

text \<open>Table and array agree: a name is bound to \<open>i\<close> exactly when it stands at position \<open>i\<close>.  Hence
  no name occurs twice.\<close>

definition alph_ok :: "Alphabet \<Rightarrow> bool" where
  "alph_ok a \<longleftrightarrow> ht_inv key_hash (sym_ht a) \<and>
     (\<forall>s i. s \<noteq> '''' \<longrightarrow> (alph_find a s = Some i \<longleftrightarrow> i < length (names a) \<and> names a ! i = s))"

lemma alph_ok_iff:
  "alph_ok a \<Longrightarrow> s \<noteq> '''' \<Longrightarrow> alph_find a s = Some i \<longleftrightarrow> i < length (names a) \<and> names a ! i = s"
  by (simp add: alph_ok_def)

lemma alph_okD: "alph_ok a \<Longrightarrow> ht_inv key_hash (sym_ht a)"
  by (simp add: alph_ok_def)

lemma alph_empty_ok [simp]:
  "alph_ok alph_empty" "alph_find alph_empty s = None" "names alph_empty = []"
  by (simp_all add: alph_ok_def alph_empty_def alph_find_def)

lemma alph_ok_append:
  assumes ok: "alph_ok a" and new: "alph_find a s = None" and h: "ht_inv key_hash h"
    and f: "find_second key_hash h = (find_second key_hash (sym_ht a))(s \<mapsto> length (names a))"
  shows "alph_ok (a\<lparr>sym_ht := h, names := names a @ [s]\<rparr>)"
  unfolding alph_ok_def
proof (intro conjI allI impI)
  show "ht_inv key_hash (sym_ht (a\<lparr>sym_ht := h, names := names a @ [s]\<rparr>))" using h by simp
  fix t :: string and i assume t: "t \<noteq> ''''"
  let ?b = "a\<lparr>sym_ht := h, names := names a @ [s]\<rparr>"
  have f': "alph_find ?b s = Some (length (names a))" "t \<noteq> s \<Longrightarrow> alph_find ?b t = alph_find a t"
    using f by (simp_all add: alph_find_def)
  have no: "s \<noteq> '''' \<Longrightarrow> j < length (names a) \<Longrightarrow> names a ! j \<noteq> s" for j
    using alph_ok_iff [OF ok, of s j] new by auto
  show "(alph_find ?b t = Some i) = (i < length (names ?b) \<and> names ?b ! i = t)"
    using alph_ok_iff [OF ok t, of i] no t
    by (cases "t = s"; cases "i < length (names a)") (auto simp: f' nth_append less_Suc_eq)
qed

lemma alph_add_at_ok:
  assumes "alph_ok a" "alph_find a s = None"
  shows "alph_ok (alph_add_at s a)"
proof -
  note p = ht_add_props [OF alph_okD [OF assms(1)] assms(2) [unfolded alph_find_def]]
  show ?thesis unfolding alph_add_at_def by (rule alph_ok_append [OF assms p(1,3)])
qed

lemma alph_find_add_at:
  "alph_ok a \<Longrightarrow> alph_find a s = None \<Longrightarrow>
    alph_find (alph_add_at s a) t = (if t = s then Some (length (names a)) else alph_find a t)"
  using ht_add_props(3) [of key_hash "sym_ht a" s "length (names a)"] alph_okD [of a]
  by (simp add: alph_find_def alph_add_at_def)

lemma names_add_at [simp]: "names (alph_add_at s a) = names a @ [s]"
  by (simp add: alph_add_at_def)

lemma indexOf_cases:
  assumes ok: "alph_ok a" and i: "indexOf s a = (a', i)"
  shows "(alph_find a s = Some i \<and> a' = a) \<or>
    (alph_find a s = None \<and> i = length (names a) \<and> names a' = names a @ [s] \<and> alph_ok a')"
proof -
  obtain h j b where hi: "ht_insert key_hash s (length (names a)) (sym_ht a) = (h, j, b)" by (metis surj_pair)
  note c = ht.insert_new_cases [OF alph_okD [OF ok] hi]
  show ?thesis
  proof (cases "alph_find a s")
    case (Some k)
    then have "ht_insert key_hash s (length (names a)) (sym_ht a) = (sym_ht a, k, False)"
      by (intro ht_insert_present) (simp add: alph_find_def)
    then show ?thesis using i Some by (simp add: indexOf_def)
  next
    case None
    then have b: "b" "j = length (names a)" using c by (simp_all add: alph_find_def)
    then have "a' = a\<lparr>sym_ht := h, names := names a @ [s]\<rparr>" "i = length (names a)"
      using i hi by (simp_all add: indexOf_def)
    moreover have "alph_ok (a\<lparr>sym_ht := h, names := names a @ [s]\<rparr>)"
      by (rule alph_ok_append [OF ok None c(1)]) (use c(2) b in simp)
    ultimately show ?thesis using None by simp
  qed
qed

text \<open>No positions without a name (\<open>operator()\<close> can leave some).\<close>

definition no_holes :: "Alphabet \<Rightarrow> bool" where
  "no_holes a \<longleftrightarrow> '''' \<notin> set (names a)"

lemma alph_ok_distinct:
  assumes "alph_ok a" "no_holes a"
  shows "distinct (names a)"
  unfolding distinct_conv_nth
proof (intro allI impI)
  fix i j assume ij: "i < length (names a)" "j < length (names a)" "i \<noteq> j"
  then have "names a ! i \<noteq> ''''" using assms(2) by (metis no_holes_def nth_mem)
  then show "names a ! i \<noteq> names a ! j"
    using alph_ok_iff [OF assms(1)] ij by (metis option.inject)
qed

lemma find_update_other:
  "ht_inv key_hash h \<Longrightarrow> find_second key_hash h s = Some v \<Longrightarrow>
    find_second key_hash (ht_update key_hash d s f h) t =
      (if t = s then Some (f v) else find_second key_hash h t)"
  by (simp add: ht_update_props(2))

lemma find_erase_other:
  "ht_inv key_hash h \<Longrightarrow>
    find_second key_hash (fst (ht_erase key_hash s h)) t =
      (if t = s then None else find_second key_hash h t)"
  "ht_inv key_hash h \<Longrightarrow> ht_inv key_hash (fst (ht_erase key_hash s h))"
  using ht.remove_then_lookup [of key_hash h s] by (metis fun_upd_apply prod.collapse)+

lemma remove_loop_spec:
  assumes "ht_inv key_hash h" "distinct ns" "length marked = i + length ns"
    "length tab = length marked" "N = length marked"
    "\<forall>j < length ns. find_second key_hash h (ns ! j) = Some (i + j)"
  shows "\<exists>h'. remove_loop marked tab N i ns h = Some h' \<and> ht_inv key_hash h' \<and>
    (\<forall>j < length ns. find_second key_hash h' (ns ! j) =
       (if marked ! (i + j) then None else Some (tab ! (i + j)))) \<and>
    (\<forall>s. s \<notin> set ns \<longrightarrow> find_second key_hash h' s = find_second key_hash h s)"
  using assms
proof (induction ns arbitrary: i h)
  case (Cons s ns)
  define h1 where "h1 = (if marked ! i then fst (ht_erase key_hash s h)
    else ht_update key_hash 0 s (\<lambda>r. tab ! r) h)"
  have fs: "find_second key_hash h s = Some i" using Cons.prems(6) by (metis add_0_right length_greater_0_conv
    list.distinct(1) nth_Cons_0)
  have step: "remove_loop marked tab N i (s # ns) h = remove_loop marked tab N (Suc i) ns h1"
    using Cons.prems fs by (simp add: h1_def)
  have inv1: "ht_inv key_hash h1"
    using Cons.prems(1) by (simp add: h1_def find_erase_other(2) ht_update_props(1))
  have f1: "find_second key_hash h1 t = (if t = s then (if marked ! i then None else Some (tab ! i))
      else find_second key_hash h t)" for t
    using Cons.prems(1) fs by (simp add: h1_def find_erase_other(1) find_update_other)
  have "\<forall>j < length ns. find_second key_hash h1 (ns ! j) = Some (Suc i + j)"
  proof (intro allI impI)
    fix j assume j: "j < length ns"
    then have "ns ! j \<noteq> s" using Cons.prems(2) by (metis distinct.simps(2) nth_mem)
    then show "find_second key_hash h1 (ns ! j) = Some (Suc i + j)"
      using Cons.prems(6) [rule_format, of "Suc j"] j f1 by simp
  qed
  from Cons.IH [OF inv1 _ _ _ _ this] Cons.prems obtain h' where
    h': "remove_loop marked tab N (Suc i) ns h1 = Some h'" "ht_inv key_hash h'"
    "\<forall>j < length ns. find_second key_hash h' (ns ! j) =
       (if marked ! (Suc i + j) then None else Some (tab ! (Suc i + j)))"
    "\<forall>t. t \<notin> set ns \<longrightarrow> find_second key_hash h' t = find_second key_hash h1 t" by auto
  have "find_second key_hash h' ((s # ns) ! j) = (if marked ! (i + j) then None else Some (tab ! (i + j)))"
    if "j < length (s # ns)" for j
    using that h'(3,4) f1 Cons.prems(2) by (cases j) auto
  moreover have "find_second key_hash h' t = find_second key_hash h t" if "t \<notin> set (s # ns)" for t
    using that h'(4) f1 by simp
  ultimately show ?case using step h'(1,2) by metis
qed simp

lemma set_unmarked: "length v = length ms \<Longrightarrow> set (unmarked v ms) = {v ! j |j. j < length v \<and> \<not> ms ! j}"
  by (force simp: unmarked_def set_zip image_iff)

lemma set_unmarked_subset: "set (unmarked v ms) \<subseteq> set v"
  by (auto simp: unmarked_def dest: set_zip_leftD)

lemma distinct_unmarked: "distinct v \<Longrightarrow> length v = length ms \<Longrightarrow> distinct (unmarked v ms)"
proof (induction v arbitrary: ms)
  case (Cons x v)
  then obtain m ms' where "ms = m # ms'" by (cases ms) auto
  moreover have "x \<notin> set (unmarked v ms')"
    using Cons.prems(1) by (auto simp: unmarked_def dest: set_zip_leftD)
  ultimately show ?case using Cons by auto
qed simp

lemma alph_removeMarked_ok:
  assumes ok: "alph_ok a" "no_holes a" and len: "length (names a) = length marked"
    and tab: "indices_after_remove_marked marked = (tab, n)"
  shows "\<exists>a'. alph_removeMarked marked tab (length marked) a = Some a' \<and> alph_ok a' \<and> no_holes a' \<and>
    names a' = unmarked (names a) marked \<and>
    (\<forall>i < length (names a). \<not> marked ! i \<longrightarrow> alph_find a' (names a ! i) = Some (tab ! i))"
proof -
  note d = alph_ok_distinct [OF ok]
  have l: "iarm_loop marked 0 = (tab, n)" using tab by (simp add: indices_after_remove_marked_def)
  note tc = iarm_loop_count [OF len l] and tn = iarm_loop_nth [OF l _ len]
  have nz: "names a ! j \<noteq> ''''" if "j < length (names a)" for j
    using that ok(2) by (metis no_holes_def nth_mem)
  have "\<forall>j < length (names a). find_second key_hash (sym_ht a) (names a ! j) = Some (0 + j)"
    using alph_ok_iff [OF ok(1) nz] by (simp add: alph_find_def)
  from remove_loop_spec [OF alph_okD [OF ok(1)] d _ _ refl this, of marked tab] tc len
  obtain h' where h': "remove_loop marked tab (length marked) 0 (names a) (sym_ht a) = Some h'"
    "ht_inv key_hash h'"
    "\<forall>j < length (names a). find_second key_hash h' (names a ! j) =
       (if marked ! j then None else Some (tab ! j))"
    "\<forall>s. s \<notin> set (names a) \<longrightarrow> find_second key_hash h' s = find_second key_hash (sym_ht a) s" by auto
  let ?u = "unmarked (names a) marked"
  define a' where "a' = a\<lparr>sym_ht := h', names := ?u\<rparr>"
  have rm: "alph_removeMarked marked tab (length marked) a = Some a'"
    using h'(1) len by (simp add: alph_removeMarked_def a'_def remove_marked_swap_unmarked)
  have u: "distinct ?u" by (rule distinct_unmarked [OF d len])
  have at: "tab ! j < length ?u \<and> ?u ! (tab ! j) = names a ! j"
    if "j < length (names a)" "\<not> marked ! j" for j
    using tn [of j] that len by auto
  have "alph_ok a'"
    unfolding alph_ok_def
  proof (intro conjI allI impI)
    show "ht_inv key_hash (sym_ht a')" using h'(2) by (simp add: a'_def)
    fix s :: string and k assume s: "s \<noteq> ''''"
    show "(alph_find a' s = Some k) = (k < length (names a') \<and> names a' ! k = s)"
    proof (cases "s \<in> set (names a)")
      case True
      then obtain j where j: "j < length (names a)" "names a ! j = s" by (metis in_set_conv_nth)
      then have f: "alph_find a' s = (if marked ! j then None else Some (tab ! j))"
        using h'(3) by (auto simp: alph_find_def a'_def)
      show ?thesis
      proof (cases "marked ! j")
        case True
        have "s \<notin> set ?u"
          using d j True len by (auto simp: set_unmarked nth_eq_iff_index_eq)
        then show ?thesis using f True by (auto simp: a'_def)
      next
        case False
        then show ?thesis using f at [OF j(1) False] u j by (auto simp: a'_def) (metis nth_eq_iff_index_eq)
      qed
    next
      case False
      then have "alph_find a s = None" using alph_ok_iff [OF ok(1) s] by (metis not_Some_eq nth_mem)
      moreover have "s \<notin> set ?u" using False len by (auto simp: set_unmarked)
      ultimately show ?thesis using h'(4) False by (auto simp: alph_find_def a'_def)
    qed
  qed
  moreover have "no_holes a'" using ok(2) set_unmarked_subset [of "names a" marked] by (auto simp: no_holes_def a'_def)
  moreover have "\<forall>i < length (names a). \<not> marked ! i \<longrightarrow> alph_find a' (names a ! i) = Some (tab ! i)"
    using h'(3) by (simp add: alph_find_def a'_def)
  ultimately show ?thesis using rm by (simp add: a'_def)
qed

section \<open>StringPool counts\<close>

lemma borrow_props:
  assumes "ht_inv key_hash c" "s \<noteq> ''''"
  shows "ht_inv key_hash (borrow c s)"
    "find_second key_hash (borrow c s) =
      (find_second key_hash c)(s \<mapsto> (case find_second key_hash c s of None \<Rightarrow> 1 | Some n \<Rightarrow> Suc n))"
proof -
  obtain h j b where i: "ht_insert key_hash s 1 c = (h, j, b)" by (metis surj_pair)
  note ic = ht.insert_new_cases [OF assms(1) i]
  have "ht_inv key_hash (borrow c s) \<and> find_second key_hash (borrow c s) =
      (find_second key_hash c)(s \<mapsto> (case find_second key_hash c s of None \<Rightarrow> 1 | Some n \<Rightarrow> Suc n))"
  proof (cases "find_second key_hash c s")
    case None
    then show ?thesis using ic i assms(2) by (simp add: borrow_def)
  next
    case (Some n)
    then have "ht_insert key_hash s 1 c = (c, n, False)" by (rule ht_insert_present)
    then show ?thesis using ht_update_props [OF assms(1), of 0 s "\<lambda>n. n + 1"] Some assms(2)
      by (simp add: borrow_def)
  qed
  then show "ht_inv key_hash (borrow c s)"
    "find_second key_hash (borrow c s) =
      (find_second key_hash c)(s \<mapsto> (case find_second key_hash c s of None \<Rightarrow> 1 | Some n \<Rightarrow> Suc n))"
    by blast+
qed

lemma giveBack_props:
  assumes "ht_inv key_hash c" "s \<noteq> ''''" "find_second key_hash c s = Some n"
  shows "\<exists>c'. giveBack c s = Some c' \<and> ht_inv key_hash c' \<and>
    find_second key_hash c' = (find_second key_hash c)(s := (if n \<le> 1 then None else Some (n - 1)))"
proof -
  let ?c = "ht_update key_hash 0 s (\<lambda>n. n - 1) c"
  note up = ht_update_props [OF assms(1), of 0 s "\<lambda>n. n - 1"]
  obtain e b where e: "ht_erase key_hash s ?c = (e, b)" by fastforce
  note er = ht.remove_then_lookup [OF up(1) e]
  show ?thesis
  proof (cases "n \<le> 1")
    case True
    then have "giveBack c s = Some e" using assms e by (simp add: giveBack_def Let_def)
    moreover have "find_second key_hash e = (find_second key_hash c)(s := None)"
      unfolding er(2) up(2) by simp
    ultimately show ?thesis using er(1) True by simp
  next
    case False
    then show ?thesis using assms up by (simp add: giveBack_def Let_def)
  qed
qed

text \<open>The pool's counts are exactly the names borrowed and not yet given back.\<close>

definition pool_holds :: "pool \<Rightarrow> (string \<Rightarrow> nat) \<Rightarrow> bool" where
  "pool_holds c B \<longleftrightarrow> ht_inv key_hash c \<and>
     (\<forall>s. s \<noteq> '''' \<longrightarrow> find_second key_hash c s = (if B s = 0 then None else Some (B s)))"

lemma pool_borrow: "pool_holds c B \<Longrightarrow> pool_holds (borrow c s) (B(s := Suc (B s)))"
proof (cases "s = ''''")
  case False
  assume "pool_holds c B"
  then show ?thesis using borrow_props [of c s] False by (auto simp: pool_holds_def)
next
  case True
  assume "pool_holds c B"
  then show ?thesis using True by (auto simp: pool_holds_def borrow_def)
qed

lemma pool_giveBack:
  assumes "pool_holds c (B(s := Suc (B s)))"
  shows "\<exists>c'. giveBack c s = Some c' \<and> pool_holds c' B"
proof (cases "s = ''''")
  case True
  then show ?thesis using assms by (auto simp: pool_holds_def giveBack_def)
next
  case False
  then have inv: "ht_inv key_hash c" and f: "find_second key_hash c s = Some (Suc (B s))"
    using assms by (auto simp: pool_holds_def)
  from giveBack_props [OF inv False f] obtain c' where c': "giveBack c s = Some c'"
    "ht_inv key_hash c'" "find_second key_hash c' =
      (find_second key_hash c)(s := (if Suc (B s) \<le> 1 then None else Some (Suc (B s) - 1)))"
    by blast
  have "find_second key_hash c' t = (if B t = 0 then None else Some (B t))" if "t \<noteq> ''''" for t
    using c'(3) that assms False by (cases "t = s") (auto simp: pool_holds_def)
  then show ?thesis using c' by (auto simp: pool_holds_def)
qed

lemma pool_empty: "pool_holds (ht_new n) (\<lambda>_. 0)"
  by (simp add: pool_holds_def)

section \<open>Properties\<close>

text \<open>C23: \<open>indexOf\<close> interns: it returns the position of the name, keeps every position given out before,
  adds the name only when it is new, and leaves table and array in agreement; asking again changes
  nothing.\<close>

theorem Alphabet_indexOf_spec:
  assumes "alph_ok a" "s \<noteq> ''''" "indexOf s a = (a', i)"
  shows "alph_ok a' \<and> i < length (names a') \<and> names a' ! i = s \<and> alph_find a' s = Some i \<and>
    names a' = (if alph_find a s = None then names a @ [s] else names a) \<and> indexOf s a' = (a', i)"
proof -
  have r: "alph_ok a' \<and> i < length (names a') \<and> names a' ! i = s \<and>
    names a' = (if alph_find a s = None then names a @ [s] else names a)"
    using indexOf_cases [OF assms(1,3)]
  proof (elim disjE conjE)
    assume "alph_find a s = Some i" "a' = a"
    then show ?thesis using alph_ok_iff [OF assms(1,2), of i] assms(1) by simp
  next
    assume "alph_find a s = None" "i = length (names a)" "names a' = names a @ [s]" "alph_ok a'"
    then show ?thesis by simp
  qed
  then have f: "alph_find a' s = Some i" using alph_ok_iff [OF _ assms(2), of a' i] by blast
  then have "ht_insert key_hash s (length (names a')) (sym_ht a') = (sym_ht a', i, False)"
    by (intro ht_insert_present) (simp add: alph_find_def)
  then have "indexOf s a' = (a', i)" by (simp add: indexOf_def)
  then show ?thesis using r f by blast
qed

theorem Alphabet_indexOf_spec_witness:
  "let (a, i) = indexOf ''cat'' (alph_new1 ''*e*'') in i = 1 \<and> names a = [''*e*'', ''cat'']"
proof -
  have ok: "alph_ok (alph_new1 ''*e*'')" unfolding alph_new1_def
    by (rule alph_add_at_ok) simp_all
  have f: "alph_find (alph_new1 ''*e*'') ''cat'' = None"
    using alph_find_add_at [of alph_empty "''*e*''" "''cat''"] by (simp add: alph_new1_def)
  obtain a i where i: "indexOf ''cat'' (alph_new1 ''*e*'') = (a, i)" by fastforce
  have n: "names (alph_new1 ''*e*'') = [''*e*'']" by (simp add: alph_new1_def)
  have r: "i < length (names a)" "names a ! i = ''cat''" "names a = [''*e*'', ''cat'']"
    using Alphabet_indexOf_spec [OF ok _ i] f n by (blast, blast, simp)
  then have "i = 0 \<or> i = 1" by (simp add: less_Suc_eq)
  then show ?thesis using i r(2,3) by auto
qed

text \<open>C24: \<open>removeMarked\<close>, given the index table computed from the same marks, keeps exactly the unmarked
  names in order, renumbers their table entries accordingly, drops the others, and never reads an
  absent entry.\<close>

theorem Alphabet_removeMarked_spec:
  assumes "alph_ok a" "no_holes a" "length (names a) = length marked"
    "indices_after_remove_marked marked = (tab, n)"
  shows "\<exists>a'. alph_removeMarked marked tab (length marked) a = Some a' \<and> alph_ok a' \<and>
    names a' = map fst (filter (\<lambda>(s, m). \<not> m) (zip (names a) marked)) \<and>
    (\<forall>i < length (names a). alph_find a' (names a ! i) = (if marked ! i then None else Some (tab ! i)))"
proof -
  obtain a' where a': "alph_removeMarked marked tab (length marked) a = Some a'" "alph_ok a'"
    "no_holes a'" "names a' = unmarked (names a) marked"
    "\<forall>i < length (names a). \<not> marked ! i \<longrightarrow> alph_find a' (names a ! i) = Some (tab ! i)"
    using alph_removeMarked_ok [OF assms] by blast
  have "alph_find a' (names a ! i) = None" if i: "i < length (names a)" "marked ! i" for i
  proof -
    have nz: "names a ! i \<noteq> ''''" using i assms(2) by (metis no_holes_def nth_mem)
    have "names a ! i \<notin> set (names a')"
      using alph_ok_distinct [OF assms(1,2)] i assms(3)
      by (auto simp: a'(4) set_unmarked nth_eq_iff_index_eq)
    then show ?thesis using alph_ok_iff [OF a'(2) nz] by (metis not_Some_eq nth_mem)
  qed
  then show ?thesis using a' by (auto simp: unmarked_def case_prod_unfold)
qed

theorem Alphabet_removeMarked_spec_witness:
  "\<exists>a'. alph_removeMarked [True, False] [REMOVED, 0] 2 (alph_new2 ''a'' ''b'') = Some a' \<and>
    names a' = [''b''] \<and> alph_find a' ''b'' = Some 0 \<and> alph_find a' ''a'' = None"
proof -
  have ok1: "alph_ok (alph_add_at ''a'' alph_empty)"
    by (rule alph_add_at_ok) simp_all
  have "alph_find (alph_add_at ''a'' alph_empty) ''b'' = None"
    using alph_find_add_at [of alph_empty "''a''" "''b''"] by simp
  then have ok: "alph_ok (alph_new2 ''a'' ''b'')" unfolding alph_new2_def by (rule alph_add_at_ok [OF ok1])
  have n: "names (alph_new2 ''a'' ''b'') = [''a'', ''b'']" by (simp add: alph_new2_def)
  have "indices_after_remove_marked [True, False] = ([REMOVED, 0], 1)"
    by (simp add: indices_after_remove_marked_def)
  then have "\<exists>a'. alph_removeMarked [True, False] [REMOVED, 0] (length [True, False]) (alph_new2 ''a'' ''b'') = Some a' \<and>
      alph_ok a' \<and> names a' = map fst (filter (\<lambda>(s, m). \<not> m) (zip (names (alph_new2 ''a'' ''b'')) [True, False])) \<and>
      (\<forall>i < length (names (alph_new2 ''a'' ''b'')). alph_find a' (names (alph_new2 ''a'' ''b'') ! i) =
        (if [True, False] ! i then None else Some ([REMOVED, 0] ! i)))"
    by (intro Alphabet_removeMarked_spec [OF ok]) (simp_all add: no_holes_def n)
  then obtain a' where a':
    "alph_removeMarked [True, False] [REMOVED, 0] (length [True, False]) (alph_new2 ''a'' ''b'') = Some a'"
    "names a' = map fst (filter (\<lambda>(s, m). \<not> m) (zip [''a'', ''b''] [True, False]))"
    "\<forall>i < length [''a'', ''b'']. alph_find a' ([''a'', ''b''] ! i) =
      (if [True, False] ! i then None else Some ([REMOVED, 0] ! i))"
    unfolding n by (elim exE conjE) (rule that)
  have "alph_find a' ''b'' = Some 0" using a'(3) [rule_format, of 1] by simp
  moreover have "alph_find a' ''a'' = None" using a'(3) [rule_format, of 0] by simp
  ultimately show ?thesis using a'(1,2) by (intro exI [of _ a']) (simp add: numeral_2_eq_2)
qed

text \<open>C25: The string pool counts exactly the outstanding borrows: borrowing adds one, giving back a
  borrowed name removes one, never touches an absent entry, and drops the name with its last use.\<close>

theorem StringPool_refcounts:
  assumes "pool_holds c B"
  shows "pool_holds (borrow c s) (B(s := Suc (B s))) \<and>
    (0 < B s \<longrightarrow> (\<exists>c'. giveBack c s = Some c' \<and> pool_holds c' (B(s := B s - 1))))"
  using pool_borrow [OF assms] pool_giveBack [of c "B(s := B s - 1)" s] assms by simp

theorem StringPool_refcounts_witness:
  "\<exists>c'. giveBack (borrow (ht_new 8) ''x'') ''x'' = Some c' \<and> pool_holds c' (\<lambda>_. 0)"
  using StringPool_refcounts [OF pool_borrow [OF pool_empty [where n = 8], where s = "''x''"], where s = "''x''"]
  by (simp add: fun_upd_idem)

end
