(* ===== verification/FstState.thy ===== *)
theory FstState
  imports HashTab
begin

text \<open>
  Arcs and states: \<open>graehl/shared/arc.h\<close> and \<open>carmel/src/state.h\<close>.  A weight is an element of an
  ordered field (\<open>Weight\<close> represents a nonnegative real by its logarithm; rounding is not
  modelled).  A state's arc list is read front first; a \<open>HalfArc\<close> (pointer to an arc) is the
  arc's position in its state's list.
\<close>

section \<open>Arcs\<close>

datatype LabelType = kInput | kOutput | kNone

definition opposite :: "LabelType \<Rightarrow> LabelType" where
  "opposite dir = (if dir = kInput then kOutput else kInput)"

abbreviation (input) epsilon :: nat where "epsilon \<equiv> 0"
abbreviation (input) wildcard :: nat where "wildcard \<equiv> 1"

definition no_group :: nat where "no_group = uint_minus1"
definition locked_group :: nat where "locked_group = 0"

record 'w FSTArc =
  arc_in :: nat
  arc_out :: nat
  arc_dest :: nat
  arc_weight :: 'w
  groupId :: nat

definition mk_arc :: "nat \<Rightarrow> nat \<Rightarrow> nat \<Rightarrow> 'w \<Rightarrow> 'w FSTArc" where
  "mk_arc i u d w = \<lparr>arc_in = i, arc_out = u, arc_dest = d, arc_weight = w, groupId = no_group\<rparr>"

definition arc_symbol :: "LabelType \<Rightarrow> 'w FSTArc \<Rightarrow> nat" where
  "arc_symbol dir a = (if dir \<noteq> kInput then arc_out a else arc_in a)"

definition is_epsilon :: "LabelType \<Rightarrow> 'w FSTArc \<Rightarrow> bool" where
  "is_epsilon dir a \<longleftrightarrow> arc_symbol dir a = epsilon"

definition clear_group :: "'w FSTArc \<Rightarrow> 'w FSTArc" where
  "clear_group a = a\<lparr>groupId := no_group\<rparr>"

definition isNormal :: "nat \<Rightarrow> bool" where "isNormal g \<longleftrightarrow> g = no_group"
definition isLocked :: "nat \<Rightarrow> bool" where "isLocked g \<longleftrightarrow> g = locked_group"
definition isTied :: "nat \<Rightarrow> bool" where "isTied g \<longleftrightarrow> \<not> isLocked g \<and> \<not> isNormal g"
definition isTiedOrLocked :: "nat \<Rightarrow> bool" where "isTiedOrLocked g \<longleftrightarrow> \<not> isNormal g"

definition setGroup :: "nat \<Rightarrow> 'w FSTArc \<Rightarrow> 'w FSTArc" where
  "setGroup g a = a\<lparr>groupId := g\<rparr>"

definition setLocked :: "'w FSTArc \<Rightarrow> 'w FSTArc" where
  "setLocked a = setGroup locked_group a"

lemma group_kinds: "isNormal g \<or> isLocked g \<or> isTied g"
  "\<not> (isNormal g \<and> isLocked g)" "isTied g \<longleftrightarrow> g \<noteq> 0 \<and> g \<noteq> no_group"
  by (auto simp: isNormal_def isLocked_def isTied_def no_group_def locked_group_def)

section \<open>Hash functions of keys\<close>

definition uint_hash :: "nat \<Rightarrow> nat" where
  "uint_hash i = unat (uint32_hash (of_nat i))"

definition unarc_hash :: "nat \<times> nat \<times> nat \<Rightarrow> nat" where
  "unarc_hash u = (case u of (i, q, d) \<Rightarrow> unat (uint32_hash (of_nat (i * 193 + q * 6151 + d))))"

definition iopair_hash :: "nat \<times> nat \<Rightarrow> nat" where
  "iopair_hash p = (case p of (i, q) \<Rightarrow> unat (uint32_hash (of_nat (1543 * q + i))))"

section \<open>States\<close>

type_synonym Index = "(nat, nat list) HashTable"

record 'w State =
  arcs :: "'w FSTArc list"
  state_size :: nat
  state_index :: "Index option"

definition state_new :: "'w State" where
  "state_new = \<lparr>arcs = [], state_size = 0, state_index = None\<rparr>"

definition state_copy :: "'w State \<Rightarrow> 'w State" where
  "state_copy s = \<lparr>arcs = arcs s, state_size = state_size s, state_index = None\<rparr>"

definition visit_arcs :: "(nat \<Rightarrow> 'w FSTArc \<Rightarrow> 's \<Rightarrow> 'w FSTArc \<times> 's) \<Rightarrow> nat \<Rightarrow> 'w State \<Rightarrow> 's
    \<Rightarrow> 'w State \<times> 's" where
  "visit_arcs v src s acc =
     (let (as, acc') = foldl (\<lambda>(as, x) a. let (a', x') = v src a x in (as @ [a'], x')) ([], acc) (arcs s)
      in (s\<lparr>arcs := as\<rparr>, acc'))"

text \<open>\<open>modify_parameter_once<F>\<close>: \<open>f\<close> changes a weight and the functor's own state; the functor also
  carries the table of the weights already given to tied groups.\<close>

definition modify_parameter_once ::
  "('w \<Rightarrow> 'f \<Rightarrow> 'w \<times> 'f) \<Rightarrow> nat \<Rightarrow> ('w::zero) FSTArc \<Rightarrow> (nat, 'w) HashTable \<times> 'f
    \<Rightarrow> 'w FSTArc \<times> (nat, 'w) HashTable \<times> 'f" where
  "modify_parameter_once f src a st =
     (let (tied, fs) = st
      in if isLocked (groupId a) then (a, tied, fs)
         else if isNormal (groupId a)
         then (let (w, fs') = f (arc_weight a) fs in (a\<lparr>arc_weight := w\<rparr>, tied, fs'))
         else case ht_insert uint_hash (groupId a) 0 tied of
                (t, v, True) \<Rightarrow>
                  (let (w, fs') = f (arc_weight a) fs
                   in (a\<lparr>arc_weight := w\<rparr>, ht_update uint_hash 0 (groupId a) (\<lambda>_. w) t, fs'))
              | (t, v, False) \<Rightarrow> (a\<lparr>arc_weight := v\<rparr>, t, fs))"

definition flush :: "'w State \<Rightarrow> 'w State" where
  "flush s = s\<lparr>state_index := None\<rparr>"

definition raisePower :: "('w \<Rightarrow> 'w) \<Rightarrow> 'w State \<Rightarrow> 'w State" where
  "raisePower pow s = s\<lparr>arcs := map (\<lambda>l. l\<lparr>arc_weight := pow (arc_weight l)\<rparr>) (arcs s)\<rparr>"

definition state_project :: "LabelType \<Rightarrow> bool \<Rightarrow> 'w State \<Rightarrow> 'w State" where
  "state_project dir identity_fsa s =
     (let s = flush s
      in s\<lparr>arcs := map (\<lambda>l. if dir = kInput then l\<lparr>arc_out := (if identity_fsa then arc_in l else 0)\<rparr>
                          else l\<lparr>arc_in := (if identity_fsa then arc_out l else 0)\<rparr>) (arcs s)\<rparr>)"

text \<open>\<open>(*index)[l->in].push_front(&*l)\<close> for every arc in list order.\<close>

definition index_arc :: "(nat \<Rightarrow> nat) \<Rightarrow> nat \<Rightarrow> Index \<Rightarrow> Index" where
  "index_arc key p ix = ht_update uint_hash [] (key p) (\<lambda>l. p # l) ix"

definition indexBy :: "LabelType \<Rightarrow> 'w State \<Rightarrow> 'w State" where
  "indexBy dir s =
     (if dir \<noteq> kInput
      then (case state_index s of
              Some ix \<Rightarrow> s
            | None \<Rightarrow> s\<lparr>state_index := Some (fold (index_arc (\<lambda>p. arc_out (arcs s ! p)))
                         [0..<length (arcs s)] (ht_new (state_size s)))\<rparr>)
      else (case state_index s of
              Some ix \<Rightarrow> s
            | None \<Rightarrow> s\<lparr>state_index := Some (fold (index_arc (\<lambda>p. arc_in (arcs s ! p)))
                         [0..<length (arcs s)] (ht_new (state_size s)))\<rparr>))"

definition index_io :: "'w State \<Rightarrow> (nat \<times> nat, nat list) HashTable \<Rightarrow> (nat \<times> nat, nat list) HashTable" where
  "index_io s m =
     fold (\<lambda>p. ht_update iopair_hash [] (arc_in (arcs s ! p), arc_out (arcs s ! p)) (\<lambda>l. l @ [p]))
       [0..<length (arcs s)] m"

definition addArc :: "'w FSTArc \<Rightarrow> 'w State \<Rightarrow> 'w State" where
  "addArc a s = s\<lparr>arcs := a # arcs s, state_size := state_size s + 1\<rparr>"

text \<open>\<open>arc_adder\<close> remembers for each state where it inserted last: after \<open>n\<close> calls for a state the
  arcs it added stand in call order at the front.\<close>

definition arc_adder :: "nat \<Rightarrow> 'w FSTArc \<Rightarrow> 'w State list \<times> (nat \<Rightarrow> nat) \<Rightarrow> 'w State list \<times> (nat \<Rightarrow> nat)" where
  "arc_adder i a st =
     (let (states, bi) = st; s = states ! i; b = bi i
      in (states[i := s\<lparr>arcs := take b (arcs s) @ a # drop b (arcs s), state_size := state_size s + 1\<rparr>],
          bi(i := Suc b)))"

definition combine_arc_weight :: "('w::linordered_field) \<Rightarrow> 'w \<Rightarrow> bool \<Rightarrow> bool \<Rightarrow> 'w" where
  "combine_arc_weight w d dosum clamp =
     (if dosum then (let w' = w + d in if clamp \<and> w' > 1 then 1 else w')
      else (if d > w then d else w))"

definition arc_key :: "'w FSTArc \<Rightarrow> nat \<times> nat \<times> nat" where
  "arc_key l = (arc_in l, arc_out l, arc_dest l)"

text \<open>The loop of \<open>reduce\<close>: the arcs kept so far, the table from label and destination to the position of
  the arc kept for it, the arcs still to visit, and \<open>size\<close>.\<close>

fun reduce_loop ::
  "bool \<Rightarrow> bool \<Rightarrow> ('w::linordered_field) FSTArc list \<Rightarrow> (nat \<times> nat \<times> nat, nat) HashTable \<Rightarrow> nat
    \<Rightarrow> 'w FSTArc list \<Rightarrow> 'w FSTArc list \<times> nat" where
  "reduce_loop dosum clamp kept hWeights sz [] = (kept, sz)"
| "reduce_loop dosum clamp kept hWeights sz (l # ls) =
     (if arc_weight l = 0 then reduce_loop dosum clamp kept hWeights (sz - 1) ls
      else case find_second unarc_hash hWeights (arc_key l) of
             Some p \<Rightarrow>
               reduce_loop dosum clamp
                 (kept[p := (kept ! p)\<lparr>arc_weight := combine_arc_weight (arc_weight (kept ! p)) (arc_weight l) dosum clamp\<rparr>])
                 hWeights (sz - 1) ls
           | None \<Rightarrow>
               reduce_loop dosum clamp (kept @ [l])
                 (ht_update unarc_hash 0 (arc_key l) (\<lambda>_. length kept) hWeights) sz ls)"

definition state_reduce :: "bool \<Rightarrow> bool \<Rightarrow> ('w::linordered_field) State \<Rightarrow> 'w State" where
  "state_reduce dosum clamp s0 =
     (let s = flush s0;
          (as, n) = reduce_loop dosum clamp [] (ht_new DEFAULTHASHSIZE) (state_size s) (arcs s)
      in s\<lparr>arcs := as, state_size := n\<rparr>)"

text \<open>\<open>remove\<close> on every arc that satisfies a condition, the others kept.\<close>

definition erase_if :: "('w FSTArc \<Rightarrow> bool) \<Rightarrow> 'w State \<Rightarrow> 'w State" where
  "erase_if P s =
     s\<lparr>arcs := filter (\<lambda>a. \<not> P a) (arcs s), state_size := state_size s - length (filter P (arcs s))\<rparr>"

definition remove_epsilons_to :: "nat \<Rightarrow> 'w State \<Rightarrow> 'w State" where
  "remove_epsilons_to dst s =
     erase_if (\<lambda>a. arc_in a = 0 \<and> arc_out a = 0 \<and> arc_dest a = dst) (flush s)"

definition state_prune :: "('w::linorder) \<Rightarrow> 'w State \<Rightarrow> 'w State" where
  "state_prune thresh s = erase_if (\<lambda>l. arc_weight l < thresh) s"

definition renumberDestinations :: "nat list \<Rightarrow> 'w State \<Rightarrow> 'w State" where
  "renumberDestinations oldToNew s0 =
     (let s = erase_if (\<lambda>l. oldToNew ! arc_dest l = uint_minus1) (flush s0)
      in s\<lparr>arcs := map (\<lambda>l. l\<lparr>arc_dest := oldToNew ! arc_dest l\<rparr>) (arcs s)\<rparr>)"

definition state_swap :: "'w State \<times> 'w State \<Rightarrow> 'w State \<times> 'w State" where
  "state_swap p = (snd p, fst p)"

section \<open>Invariant\<close>

text \<open>\<open>size\<close> is the number of arcs, and an index that is present lists the arcs by the symbol on the
  indexed side, last arc first.\<close>

definition positions :: "('a \<Rightarrow> bool) \<Rightarrow> 'a list \<Rightarrow> nat list" where
  "positions P xs = filter (\<lambda>p. P (xs ! p)) [0..<length xs]"

definition index_ok :: "LabelType \<Rightarrow> 'w FSTArc list \<Rightarrow> Index \<Rightarrow> bool" where
  "index_ok dir as ix \<longleftrightarrow> ht_inv uint_hash ix \<and>
     (\<forall>x. find_second uint_hash ix x =
        (let ps = rev (positions (\<lambda>a. arc_symbol dir a = x) as) in if ps = [] then None else Some ps))"

definition size_ok :: "'w State \<Rightarrow> bool" where
  "size_ok s \<longleftrightarrow> state_size s = length (arcs s)"

lemma size_ok_simps [automata_simps]:
  "size_ok state_new" "size_ok (flush s) = size_ok s" "size_ok (addArc a s) = size_ok s"
  "size_ok (state_copy s) = size_ok s" "size_ok (raisePower f s) = size_ok s"
  "size_ok (state_project d b s) = size_ok s"
  by (simp_all add: size_ok_def state_new_def flush_def addArc_def state_copy_def raisePower_def
      state_project_def Let_def)

lemma erase_if_ok [automata_simps]: "size_ok s \<Longrightarrow> size_ok (erase_if P s)"
  using sum_length_filter_compl [of P "arcs s"] by (simp add: erase_if_def size_ok_def)

lemma size_ok_map [automata_simps]: "size_ok (s\<lparr>arcs := map f (arcs s)\<rparr>) = size_ok s"
  by (simp add: size_ok_def)

lemma size_ok_ops [automata_simps]:
  "size_ok s \<Longrightarrow> size_ok (remove_epsilons_to d s)" "size_ok s \<Longrightarrow> size_ok (renumberDestinations m s)"
  by (simp_all add: remove_epsilons_to_def renumberDestinations_def Let_def automata_simps)

lemma size_ok_prune [automata_simps]: "size_ok s \<Longrightarrow> size_ok (state_prune t s)"
  by (simp add: state_prune_def automata_simps)

section \<open>The index\<close>

lemma fold_index_arc:
  assumes "ht_inv uint_hash ix"
  shows "ht_inv uint_hash (fold (index_arc key) ps ix)"
    "find_second uint_hash (fold (index_arc key) ps ix) x =
      (let qs = rev (filter (\<lambda>p. key p = x) ps)
       in case find_second uint_hash ix x of
            None \<Rightarrow> if qs = [] then None else Some qs
          | Some l \<Rightarrow> Some (qs @ l))"
  using assms
proof (induction ps arbitrary: ix)
  case Nil
  case 1 then show ?case by simp
  case 2 then show ?case by (simp split: option.split)
next
  case (Cons p ps)
  case 1
  then have "ht_inv uint_hash (index_arc key p ix)" unfolding index_arc_def by (rule ht_update_props(1))
  then show ?case using Cons(1) by simp
  case 2
  then have "ht_inv uint_hash (index_arc key p ix)" unfolding index_arc_def by (rule ht_update_props(1))
  note IH = Cons(2) [OF this]
  have "find_second uint_hash (index_arc key p ix) x = (if key p = x
      then Some (p # (case find_second uint_hash ix x of None \<Rightarrow> [] | Some l \<Rightarrow> l))
      else find_second uint_hash ix x)"
    using 2 by (simp add: index_arc_def ht_update_props(2))
  then show ?case using IH by (simp add: Let_def split: option.split)
qed

lemma indexBy_ok:
  assumes "state_index s = None"
  shows "\<exists>ix. indexBy dir s = s\<lparr>state_index := Some ix\<rparr> \<and>
    index_ok (if dir \<noteq> kInput then kOutput else kInput) (arcs s) ix"
  using assms fold_index_arc [OF ht_new_empty(1), where ps = "[0..<length (arcs s)]"]
  by (auto simp: indexBy_def index_ok_def positions_def arc_symbol_def Let_def)

section \<open>reduce\<close>

fun combine_all :: "bool \<Rightarrow> bool \<Rightarrow> ('w::linordered_field) list \<Rightarrow> 'w" where
  "combine_all dosum clamp [] = 0"
| "combine_all dosum clamp (w # ws) = foldl (\<lambda>w d. combine_arc_weight w d dosum clamp) w ws"

lemma combine_all_append1:
  "ws \<noteq> [] \<Longrightarrow> combine_all ds cl (ws @ [d]) = combine_arc_weight (combine_all ds cl ws) d ds cl"
  by (cases ws) auto

lemma combine_all_sum: "combine_all True False ws = sum_list ws"
proof (cases ws)
  case (Cons w ws')
  have "foldl (\<lambda>w d. combine_arc_weight w d True False) w ws' = w + sum_list ws'"
    using foldl_add_sum_list [of "\<lambda>x. x" w ws'] by (simp add: combine_arc_weight_def)
  then show ?thesis using Cons by simp
qed simp

lemma combine_max: "combine_arc_weight w d False cl = max w d"
  by (simp add: combine_arc_weight_def max_def)

lemma combine_all_max: "ws \<noteq> [] \<Longrightarrow> combine_all False cl ws = Max (set ws)"
proof (induction ws rule: rev_induct)
  case (snoc d ws)
  then show ?case
    by (cases "ws = []") (simp_all add: combine_all_append1 combine_max max.commute)
qed simp

text \<open>The weights of the arcs with a given label and destination that count.\<close>

definition weights_at :: "('w::linordered_field) FSTArc list \<Rightarrow> nat \<times> nat \<times> nat \<Rightarrow> 'w list" where
  "weights_at as k = map arc_weight (filter (\<lambda>a. arc_key a = k \<and> arc_weight a \<noteq> 0) as)"

definition red_inv where
  "red_inv ds cl seen kept h \<longleftrightarrow> ht_inv unarc_hash h \<and>
     (\<forall>k p. find_second unarc_hash h k = Some p \<longleftrightarrow> p < length kept \<and> arc_key (kept ! p) = k) \<and>
     arc_key ` set kept = arc_key ` {a \<in> set seen. arc_weight a \<noteq> 0} \<and>
     (\<forall>a \<in> set kept. arc_weight a = combine_all ds cl (weights_at seen (arc_key a)))"

lemma red_inv_distinct: "red_inv ds cl seen kept h \<Longrightarrow> distinct (map arc_key kept)"
proof -
  assume r: "red_inv ds cl seen kept h"
  have "p = q" if "p < length kept" "q < length kept" "arc_key (kept ! p) = arc_key (kept ! q)" for p q
    using r that unfolding red_inv_def by (metis option.inject)
  then show ?thesis by (auto simp: distinct_conv_nth)
qed

lemma weights_at_append:
  "weights_at (as @ [l]) k = weights_at as k @ (if arc_key l = k \<and> arc_weight l \<noteq> 0 then [arc_weight l] else [])"
  by (simp add: weights_at_def)

lemma red_inv_zero:
  "red_inv ds cl seen kept h \<Longrightarrow> arc_weight l = 0 \<Longrightarrow> red_inv ds cl (seen @ [l]) kept h"
  by (auto simp: red_inv_def weights_at_append)

lemma red_inv_merge:
  assumes r: "red_inv ds cl seen kept h" and w: "arc_weight l \<noteq> 0"
    and f: "find_second unarc_hash h (arc_key l) = Some p"
  shows "red_inv ds cl (seen @ [l])
    (kept[p := (kept ! p)\<lparr>arc_weight := combine_arc_weight (arc_weight (kept ! p)) (arc_weight l) ds cl\<rparr>]) h"
    (is "red_inv ds cl _ ?kept h")
proof -
  have p: "p < length kept" "arc_key (kept ! p) = arc_key l" using r f unfolding red_inv_def by metis+
  have key: "arc_key (?kept ! q) = arc_key (kept ! q)" if "q < length kept" for q
    using that p by (cases "q = p") (auto simp: arc_key_def)
  then have keys: "map arc_key ?kept = map arc_key kept" by (simp add: list_eq_iff_nth_eq)
  have "arc_weight a = combine_all ds cl (weights_at (seen @ [l]) (arc_key a))" if a: "a \<in> set ?kept" for a
  proof -
    obtain q where q: "q < length kept" "a = ?kept ! q" using a by (metis in_set_conv_nth length_list_update)
    have old: "arc_weight (kept ! q) = combine_all ds cl (weights_at seen (arc_key (kept ! q)))"
      using r q(1) by (simp add: red_inv_def)
    show ?thesis
    proof (cases "q = p")
      case True
      have "arc_key (kept ! p) \<in> arc_key ` {a \<in> set seen. arc_weight a \<noteq> 0}"
        using r p(1) unfolding red_inv_def by (metis (no_types, lifting) imageI nth_mem)
      then have "weights_at seen (arc_key l) \<noteq> []"
        using p by (auto simp: weights_at_def filter_empty_conv)
      then show ?thesis using True q p w old key [OF q(1)]
        by (simp add: weights_at_append combine_all_append1)
    next
      case False
      have "arc_key (kept ! q) \<noteq> arc_key l"
        using r f q(1) False unfolding red_inv_def by (metis option.inject)
      then show ?thesis using False q old by (simp add: weights_at_append)
    qed
  qed
  moreover have "arc_key ` set ?kept = arc_key ` {a \<in> set (seen @ [l]). arc_weight a \<noteq> 0}"
  proof -
    have "arc_key ` set ?kept = arc_key ` set kept" using keys by (metis set_map)
    moreover have "arc_key l \<in> arc_key ` set kept" using p by (metis imageI nth_mem)
    moreover have "arc_key ` set kept = arc_key ` {a \<in> set seen. arc_weight a \<noteq> 0}"
      using r unfolding red_inv_def by blast
    moreover have "{a \<in> set (seen @ [l]). arc_weight a \<noteq> 0} = insert l {a \<in> set seen. arc_weight a \<noteq> 0}"
      using w by auto
    ultimately show ?thesis by (simp only: image_insert insert_absorb)
  qed
  moreover have "find_second unarc_hash h k = Some q \<longleftrightarrow> q < length ?kept \<and> arc_key (?kept ! q) = k" for k q
    using r key [of q] unfolding red_inv_def by (metis length_list_update)
  moreover have "ht_inv unarc_hash h" using r by (simp only: red_inv_def)
  ultimately show ?thesis unfolding red_inv_def by blast
qed

lemma red_inv_new:
  assumes r: "red_inv ds cl seen kept h" and w: "arc_weight l \<noteq> 0"
    and f: "find_second unarc_hash h (arc_key l) = None"
  shows "red_inv ds cl (seen @ [l]) (kept @ [l]) (ht_update unarc_hash 0 (arc_key l) (\<lambda>_. length kept) h)"
proof -
  have inv: "ht_inv unarc_hash h" using r by (simp add: red_inv_def)
  note up = ht_update_props [OF inv, of 0 "arc_key l" "\<lambda>_. length kept"]
  have no: "arc_key (kept ! p) \<noteq> arc_key l" if "p < length kept" for p
    using r f that unfolding red_inv_def by (metis option.distinct(1))
  have no': "arc_key a \<noteq> arc_key l" if "a \<in> set kept" for a
    using no that by (metis in_set_conv_nth)
  have "arc_key l \<notin> arc_key ` {a \<in> set seen. arc_weight a \<noteq> 0}"
    using r no' unfolding red_inv_def by (metis imageE)
  then have "\<not> (arc_key a = arc_key l \<and> arc_weight a \<noteq> 0)" if "a \<in> set seen" for a
    using that by (metis (mono_tags, lifting) image_eqI mem_Collect_eq)
  then have e: "weights_at seen (arc_key l) = []" by (simp add: weights_at_def filter_empty_conv)
  have find: "find_second unarc_hash (ht_update unarc_hash 0 (arc_key l) (\<lambda>_. length kept) h) k = Some p
      \<longleftrightarrow> p < length (kept @ [l]) \<and> arc_key ((kept @ [l]) ! p) = k" for k p
  proof (cases "k = arc_key l")
    case True
    then show ?thesis using no up(2) by (auto simp: nth_append less_Suc_eq)
  next
    case False
    then have "find_second unarc_hash h k = Some p \<longleftrightarrow> p < length kept \<and> arc_key (kept ! p) = k"
      using r unfolding red_inv_def by blast
    then show ?thesis using False up(2) by (auto simp: nth_append less_Suc_eq)
  qed
  have "arc_weight a = combine_all ds cl (weights_at (seen @ [l]) (arc_key a))" if "a \<in> set (kept @ [l])" for a
  proof (cases "a \<in> set kept")
    case True
    then have "arc_weight a = combine_all ds cl (weights_at seen (arc_key a))" "arc_key l \<noteq> arc_key a"
      using r no' unfolding red_inv_def by (blast, metis)
    then show ?thesis by (simp add: weights_at_append)
  next
    case False
    then have "a = l" using that by simp
    then show ?thesis using e w by (simp add: weights_at_append)
  qed
  moreover have "arc_key ` set (kept @ [l]) = arc_key ` {a \<in> set (seen @ [l]). arc_weight a \<noteq> 0}"
  proof -
    have "arc_key ` set kept = arc_key ` {a \<in> set seen. arc_weight a \<noteq> 0}"
      using r unfolding red_inv_def by blast
    moreover have "{a \<in> set (seen @ [l]). arc_weight a \<noteq> 0} = insert l {a \<in> set seen. arc_weight a \<noteq> 0}"
      using w by auto
    moreover have "set (kept @ [l]) = insert l (set kept)" by simp
    ultimately show ?thesis by (simp only: image_insert)
  qed
  ultimately show ?thesis using find up(1) unfolding red_inv_def by blast
qed

lemma reduce_loop_spec:
  assumes "red_inv ds cl seen kept h" "n = length kept + length ls"
    "reduce_loop ds cl kept h n ls = (as, m)"
  shows "(\<exists>h'. red_inv ds cl (seen @ ls) as h') \<and> m = length as"
  using assms
proof (induction ds cl kept h n ls arbitrary: seen rule: reduce_loop.induct)
  case (2 ds cl kept h n l ls)
  show ?case
  proof (cases "arc_weight l = 0")
    case True
    show ?thesis using 2(1) [OF True red_inv_zero [OF "2.prems"(1) True]] "2.prems" True by simp
  next
    case w: False
    show ?thesis
    proof (cases "find_second unarc_hash h (arc_key l)")
      case None
      show ?thesis using 2(2) [OF w None red_inv_new [OF "2.prems"(1) w None]] "2.prems" w None by simp
    next
      case (Some p)
      show ?thesis using 2(3) [OF w Some red_inv_merge [OF "2.prems"(1) w Some]] "2.prems" w Some by simp
    qed
  qed
qed auto

lemma state_reduce_spec:
  assumes "size_ok s"
  shows "distinct (map arc_key (arcs (state_reduce ds cl s)))"
    "arc_key ` set (arcs (state_reduce ds cl s)) = arc_key ` {a \<in> set (arcs s). arc_weight a \<noteq> 0}"
    "\<And>a. a \<in> set (arcs (state_reduce ds cl s)) \<Longrightarrow>
       arc_weight a = combine_all ds cl (weights_at (arcs s) (arc_key a))"
    "size_ok (state_reduce ds cl s)"
proof -
  obtain as m where l: "reduce_loop ds cl [] (ht_new DEFAULTHASHSIZE) (state_size (flush s)) (arcs (flush s)) = (as, m)"
    by fastforce
  have "red_inv ds cl [] [] (ht_new DEFAULTHASHSIZE)" by (simp add: red_inv_def)
  from reduce_loop_spec [OF this _ l] assms obtain h where r: "red_inv ds cl (arcs s) as h" "m = length as"
    by (auto simp: flush_def size_ok_def)
  have a: "arcs (state_reduce ds cl s) = as" "state_size (state_reduce ds cl s) = m"
    using l by (simp_all add: state_reduce_def Let_def)
  show "distinct (map arc_key (arcs (state_reduce ds cl s)))" using red_inv_distinct [OF r(1)] a by simp
  show "arc_key ` set (arcs (state_reduce ds cl s)) = arc_key ` {a \<in> set (arcs s). arc_weight a \<noteq> 0}"
    "size_ok (state_reduce ds cl s)"
    using r a by (simp_all add: red_inv_def size_ok_def)
  show "arc_weight b = combine_all ds cl (weights_at (arcs s) (arc_key b))"
    if "b \<in> set (arcs (state_reduce ds cl s))" for b
    using that r a by (simp add: red_inv_def)
qed

section \<open>Properties\<close>

text \<open>\<open>indexBy\<close> on a state without an index: the index maps each symbol of the chosen side to the
  arcs that carry it, each once, the last arc of the list first, and has no entry for other
  symbols.  A state that already has an index keeps it whatever side it was built on.\<close>

theorem State_indexBy_spec:
  "(\<exists>ix. indexBy dir (flush s) = (flush s)\<lparr>state_index := Some ix\<rparr> \<and> ht_inv uint_hash ix \<and>
     (\<forall>x. find_second uint_hash ix x =
       (let ps = rev (filter (\<lambda>p. arc_symbol dir (arcs s ! p) = x) [0..<length (arcs s)])
        in if ps = [] then None else Some ps))) \<and>
   indexBy kInput (indexBy kOutput (flush s)) = indexBy kOutput (flush s)"
proof -
  have n: "state_index (flush s) = None" by (simp add: flush_def)
  have "arc_symbol (if dir \<noteq> kInput then kOutput else kInput) a = arc_symbol dir a" for a :: "'a FSTArc"
    by (simp add: arc_symbol_def)
  moreover have "arcs (flush s) = arcs s" by (simp add: flush_def)
  moreover have "indexBy kInput (indexBy kOutput (flush s)) = indexBy kOutput (flush s)"
    using indexBy_ok [OF n, of kOutput] by (auto simp: indexBy_def)
  ultimately show ?thesis using indexBy_ok [OF n, of dir] by (simp add: index_ok_def positions_def)
qed

text \<open>C18: \<open>reduce\<close> leaves one arc for each label and destination that had an arc of nonzero weight, gives
  it the combined weight of those arcs (their sum, or their maximum), and keeps \<open>size\<close> right.\<close>

theorem State_reduce_spec:
  assumes "size_ok s"
  shows "distinct (map arc_key (arcs (state_reduce dosum False s))) \<and>
    arc_key ` set (arcs (state_reduce dosum False s)) = arc_key ` {a \<in> set (arcs s). arc_weight a \<noteq> 0} \<and>
    (\<forall>a \<in> set (arcs (state_reduce dosum False s)).
       let ws = map arc_weight (filter (\<lambda>b. arc_key b = arc_key a \<and> arc_weight b \<noteq> 0) (arcs s))
       in arc_weight a = (if dosum then sum_list ws else Max (set ws))) \<and>
    size_ok (state_reduce dosum False s)"
proof -
  note r = state_reduce_spec [OF assms, where ds = dosum and cl = False]
  have "arc_weight a = (if dosum then sum_list (weights_at (arcs s) (arc_key a))
      else Max (set (weights_at (arcs s) (arc_key a))))" if a: "a \<in> set (arcs (state_reduce dosum False s))" for a
  proof (cases dosum)
    case True
    then show ?thesis using r(3) [OF a] by (simp add: combine_all_sum)
  next
    case False
    have "arc_key a \<in> arc_key ` {a \<in> set (arcs s). arc_weight a \<noteq> 0}" using a r(2) by blast
    then have "weights_at (arcs s) (arc_key a) \<noteq> []" by (auto simp: weights_at_def filter_empty_conv)
    then show ?thesis using r(3) [OF a] False by (simp add: combine_all_max)
  qed
  then show ?thesis using r(1,2,4) by (simp add: weights_at_def Let_def)
qed

theorem State_reduce_spec_witness:
  "let s = state_reduce True False (addArc (mk_arc 1 2 0 (1/4)) (addArc (mk_arc 3 3 0 0)
             (addArc (mk_arc 1 2 0 (1/2)) state_new)))
   in (\<forall>a \<in> set (arcs s). arc_weight a = (3/4::rat))"
proof -
  let ?s = "addArc (mk_arc 1 2 0 (1/4)) (addArc (mk_arc 3 3 0 0) (addArc (mk_arc 1 2 0 (1/2::rat)) state_new))"
  have arcs: "arcs ?s = [mk_arc 1 2 0 (1/4), mk_arc 3 3 0 0, mk_arc 1 2 0 (1/2)]"
    by (simp add: addArc_def state_new_def)
  have "size_ok ?s" by (simp add: automata_simps)
  note r = State_reduce_spec [OF this, of True, unfolded arcs]
  have "arc_weight a = 3/4" if a: "a \<in> set (arcs (state_reduce True False ?s))" for a
  proof -
    have "{a \<in> set [mk_arc 1 2 0 (1/4), mk_arc 3 3 0 0, mk_arc 1 2 0 (1/2::rat)]. arc_weight a \<noteq> 0} =
        {mk_arc 1 2 0 (1/4), mk_arc 1 2 0 (1/2)}" by (auto simp: mk_arc_def)
    then have k: "arc_key ` set (arcs (state_reduce True False ?s)) = {(1, 2, 0)}"
      using r by (simp add: mk_arc_def arc_key_def del: arcs)
    then have "arc_key a = (1, 2, 0)" using a by blast
    moreover have "arc_weight a = (let ws = map arc_weight (filter (\<lambda>b. arc_key b = arc_key a \<and> arc_weight b \<noteq> 0)
        [mk_arc 1 2 0 (1/4), mk_arc 3 3 0 0, mk_arc 1 2 0 (1/2)]) in sum_list ws)"
      using r a unfolding Let_def if_True by blast
    ultimately show ?thesis by (simp add: mk_arc_def arc_key_def)
  qed
  then show ?thesis by (simp add: Let_def)
qed

end
