(* ===== verification/Graph.thy ===== *)
theory Graph
  imports Indices
begin

text \<open>
  Directed graphs: \<open>graehl/shared/graph.h\<close> and \<open>graph.cc\<close>.  A graph is the list of its states'
  arc lists, front first (\<open>nStates\<close> is its length); \<open>bool *\<close> arrays are lists of booleans.  The
  \<open>data\<close> pointer of an arc is a value of the client's, or, in a reversed graph that points to the
  forward arcs, the source and position of the forward arc.  Recursive searches carry fuel: one more
  than the number of states is proved to be enough.
\<close>

section \<open>Graphs\<close>

datatype 'd arc_data = Data 'd | Forward_arc nat nat

record ('w, 'd) GraphArc =
  src :: nat
  dest :: nat
  weight :: 'w
  data :: "'d arc_data"

type_synonym ('w, 'd) GraphState = "('w, 'd) GraphArc list"
type_synonym ('w, 'd) Graph = "('w, 'd) GraphState list"

definition gs_add :: "('w, 'd) GraphArc \<Rightarrow> ('w, 'd) GraphState \<Rightarrow> ('w, 'd) GraphState" where
  "gs_add a s = a # s"

definition outdegree :: "('w, 'd) GraphState \<Rightarrow> nat" where
  "outdegree s = length s"

definition setwt :: "(('w, 'd) GraphArc \<Rightarrow> 'w) \<Rightarrow> ('w, 'd) Graph \<Rightarrow> ('w, 'd) Graph" where
  "setwt w g = map (map (\<lambda>a. a\<lparr>weight := w a\<rparr>)) g"

definition graph_save_weights :: "('w, 'd) Graph \<Rightarrow> 'w list \<Rightarrow> 'w list" where
  "graph_save_weights g s = s @ concat (map (map weight) g)"

fun gs_restore_weights :: "'w list \<Rightarrow> ('w, 'd) GraphState \<Rightarrow> nat \<Rightarrow> ('w, 'd) GraphState \<times> nat" where
  "gs_restore_weights s [] start = ([], start)"
| "gs_restore_weights s (a # as) start =
     (let (as', start') = gs_restore_weights s as (start + 1)
      in (a\<lparr>weight := s ! start\<rparr> # as', start'))"

fun graph_restore_weights :: "'w list \<Rightarrow> ('w, 'd) Graph \<Rightarrow> nat \<Rightarrow> ('w, 'd) Graph \<times> nat" where
  "graph_restore_weights s [] start = ([], start)"
| "graph_restore_weights s (st # g) start =
     (let (st', start') = gs_restore_weights s st start; (g', start'') = graph_restore_weights s g start'
      in (st' # g', start''))"

text \<open>One arc of \<open>add_reversed_arcs\<close>: \<open>i\<close> is the state being read and \<open>p\<close> the position of the arc.\<close>

definition add_reversed_arc :: "bool \<Rightarrow> nat \<Rightarrow> nat \<Rightarrow> ('w, 'd) GraphArc \<Rightarrow> ('w, 'd) Graph \<Rightarrow> ('w, 'd) Graph" where
  "add_reversed_arc data_point_to_forward i p l rg =
     rg[dest l := \<lparr>src = dest l, dest = src l, weight = weight l,
                    data = (if data_point_to_forward then Forward_arc i p else data l)\<rparr> # rg ! dest l]"

definition add_reversed_arcs :: "('w, 'd) Graph \<Rightarrow> ('w, 'd) Graph \<Rightarrow> nat \<Rightarrow> bool \<Rightarrow> ('w, 'd) Graph" where
  "add_reversed_arcs rg g n data_point_to_forward =
     fold (\<lambda>i rv. fold (\<lambda>(p, l). add_reversed_arc data_point_to_forward i p l) (enumerate 0 (g ! i)) rv)
       [0..<n] rg"

definition reverseGraph :: "('w, 'd) Graph \<Rightarrow> bool \<Rightarrow> ('w, 'd) Graph" where
  "reverseGraph g data_point_to_forward =
     add_reversed_arcs (replicate (length g) []) g (length g) data_point_to_forward"

section \<open>Depth-first search\<close>

definition DFS_NO_PREDECESSOR :: nat where "DFS_NO_PREDECESSOR = uint_minus1"

text \<open>The visited array and the calls of \<open>dfsFunc\<close> made so far.\<close>

primrec dfsRec :: "nat \<Rightarrow> ('w, 'd) Graph \<Rightarrow> nat \<Rightarrow> nat \<Rightarrow> bool list \<times> (nat \<times> nat) list
    \<Rightarrow> bool list \<times> (nat \<times> nat) list" where
  "dfsRec 0 g s pred st = st"
| "dfsRec (Suc fuel) g s pred st =
     (if fst st ! s then st
      else fold (\<lambda>l. dfsRec fuel g (dest l) s) (g ! s) ((fst st)[s := True], snd st @ [(s, pred)]))"

definition depthFirstSearch :: "('w, 'd) Graph \<Rightarrow> nat \<Rightarrow> bool list \<Rightarrow> bool list \<times> (nat \<times> nat) list" where
  "depthFirstSearch g startState visited =
     dfsRec (Suc (length g)) g startState DFS_NO_PREDECESSOR (visited, [])"

section \<open>Topological order\<close>

record topo_state =
  begun :: "bool list"
  done_ts :: "bool list"
  order_ts :: "nat list"
  n_back_edges :: nat

definition topo_new :: "('w, 'd) Graph \<Rightarrow> topo_state" where
  "topo_new g = \<lparr>begun = replicate (length g) False, done_ts = replicate (length g) False,
                 order_ts = [], n_back_edges = 0\<rparr>"

text \<open>\<open>TopoSort\<close> writes through a front inserter.\<close>

primrec order_from :: "nat \<Rightarrow> ('w, 'd) Graph \<Rightarrow> nat \<Rightarrow> topo_state \<Rightarrow> topo_state" where
  "order_from 0 g s t = t"
| "order_from (Suc fuel) g s t =
     (if done_ts t ! s then t
      else if begun t ! s then t\<lparr>n_back_edges := n_back_edges t + 1\<rparr>
      else let t1 = fold (\<lambda>l. order_from fuel g (dest l)) (g ! s) (t\<lparr>begun := (begun t)[s := True]\<rparr>)
           in t1\<lparr>done_ts := (done_ts t1)[s := True], order_ts := s # order_ts t1\<rparr>)"

definition topo_order_from :: "('w, 'd) Graph \<Rightarrow> nat \<Rightarrow> topo_state \<Rightarrow> topo_state" where
  "topo_order_from g s t = order_from (Suc (length g)) g s t"

definition topo_order :: "('w, 'd) Graph \<Rightarrow> bool \<Rightarrow> topo_state \<Rightarrow> topo_state" where
  "topo_order g all t =
     fold (\<lambda>i t. if all \<or> g ! i \<noteq> [] then topo_order_from g i t else t) [0..<length g] t"

text \<open>\<open>reverse_topo_order\<close> calls its output function where \<open>TopoSort\<close> inserts in front, so the
  sequence it writes is the reverse.\<close>

definition reverse_topo_order_from :: "('w, 'd) Graph \<Rightarrow> nat \<Rightarrow> nat list" where
  "reverse_topo_order_from g s = rev (order_ts (topo_order_from g s (topo_new g)))"

section \<open>Counting and summing paths\<close>

definition propagate_paths_in_order ::
  "('x, 'd) Graph \<Rightarrow> nat list \<Rightarrow> (('x, 'd) GraphArc \<Rightarrow> 'w::comm_semiring_1) \<Rightarrow> 'w list \<Rightarrow> 'w list" where
  "propagate_paths_in_order g order getwt w =
     fold (\<lambda>s w. fold (\<lambda>a w. w[dest a := w ! dest a + w ! s * getwt a]) (g ! s) w) order w"

definition propagate_paths ::
  "('x, 'd) Graph \<Rightarrow> (('x, 'd) GraphArc \<Rightarrow> 'w::comm_semiring_1) \<Rightarrow> 'w list \<Rightarrow> nat \<Rightarrow> 'w list" where
  "propagate_paths g getwt w start =
     propagate_paths_in_order g (rev (reverse_topo_order_from g start)) getwt w"

definition countNoCyclePaths :: "('x, 'd) Graph \<Rightarrow> nat \<Rightarrow> ('w::comm_semiring_1) list \<times> nat" where
  "countNoCyclePaths g s =
     (let t = topo_order_from g s (topo_new g);
          nPaths = (replicate (length g) 0)[s := 1]
      in (fold (\<lambda>u w. fold (\<lambda>a w. w[dest a := w ! dest a + w ! u]) (g ! u) w) (order_ts t) nPaths,
          n_back_edges t))"

section \<open>Removing states\<close>

text \<open>The numbering loop of \<open>removeStates\<close> does not advance past a marked state; \<open>None\<close> is running
  out of fuel.\<close>

fun removeStates_number :: "nat \<Rightarrow> nat \<Rightarrow> bool list \<Rightarrow> nat \<Rightarrow> nat \<Rightarrow> nat list \<Rightarrow> (nat list \<times> nat) option" where
  "removeStates_number 0 nStates marked i f oldToNew = None"
| "removeStates_number (Suc fuel) nStates marked i f oldToNew =
     (if i < nStates
      then if \<not> marked ! i then removeStates_number fuel nStates marked (i + 1) (f + 1) (oldToNew[i := f])
           else removeStates_number fuel nStates marked i f oldToNew
      else Some (oldToNew, f))"

text \<open>It also passes the new destination as the source of the copied arc.\<close>

definition removeStates :: "nat \<Rightarrow> ('w, 'd) Graph \<Rightarrow> bool list \<Rightarrow> ('w, 'd) Graph option" where
  "removeStates fuel g marked =
     (case removeStates_number fuel (length g) marked 0 0 (replicate (length g) 0) of
        None \<Rightarrow> None
      | Some (oldToNew, f) \<Rightarrow>
          Some (fold (\<lambda>i red. if \<not> marked ! i
                  then red[oldToNew ! i := fold (\<lambda>oldArc st.
                         if \<not> marked ! dest oldArc
                         then gs_add \<lparr>src = oldToNew ! dest oldArc, dest = oldToNew ! src oldArc,
                                      weight = weight oldArc, data = data oldArc\<rparr> st
                         else st) (g ! i) (red ! (oldToNew ! i))]
                  else red)
                [0..<length g] (replicate f [])))"

text \<open>\<open>removeStates_inplace\<close> with \<open>rewrite_GraphState\<close>.\<close>

definition rewrite_GraphState :: "indices_after \<Rightarrow> ('w, 'd) GraphState \<Rightarrow> ('w, 'd) GraphState" where
  "rewrite_GraphState t s =
     map (\<lambda>a. a\<lparr>src := ia_map t ! src a, dest := ia_map t ! dest a\<rparr>)
       (filter (\<lambda>a. ia_map t ! dest a \<noteq> REMOVED) s)"

definition removeStates_inplace :: "('w, 'd) Graph \<Rightarrow> bool list \<Rightarrow> ('w, 'd) Graph \<times> nat" where
  "removeStates_inplace g marked =
     (let ttable = indices_after_removing marked
      in shuffle_removing (rewrite_GraphState ttable) (\<lambda>s. []) ttable g)"

section \<open>Reachability\<close>

definition graph_ok :: "('w, 'd) Graph \<Rightarrow> bool" where
  "graph_ok g \<longleftrightarrow> (\<forall>i < length g. \<forall>a \<in> set (g ! i). src a = i \<and> dest a < length g)"

definition edge :: "('w, 'd) Graph \<Rightarrow> nat \<Rightarrow> nat \<Rightarrow> bool" where
  "edge g u v \<longleftrightarrow> u < length g \<and> (\<exists>a \<in> set (g ! u). dest a = v)"

abbreviation reach :: "('w, 'd) Graph \<Rightarrow> nat \<Rightarrow> nat \<Rightarrow> bool" where
  "reach g \<equiv> (edge g)\<^sup>*\<^sup>*"

definition unset :: "bool list \<Rightarrow> nat" where
  "unset bs = length (filter Not bs)"

lemma unset_update: "i < length bs \<Longrightarrow> \<not> bs ! i \<Longrightarrow> unset bs = Suc (unset (bs[i := True]))"
proof (induction bs arbitrary: i)
  case (Cons b bs)
  then show ?case by (cases i) (auto simp: unset_def)
qed simp

lemma unset_le: "length bs = length cs \<Longrightarrow> (\<And>i. i < length bs \<Longrightarrow> bs ! i \<Longrightarrow> cs ! i) \<Longrightarrow> unset cs \<le> unset bs"
proof (induction bs cs rule: list_induct2)
  case (Cons b bs c cs)
  have "unset cs \<le> unset bs" using Cons.IH Cons.prems [of "Suc i" for i] by auto
  then show ?case using Cons.prems [of 0] by (auto simp: unset_def)
qed simp

text \<open>What one call of \<open>dfsRec\<close> guarantees.\<close>

definition dfs_grows :: "bool list \<Rightarrow> bool list \<Rightarrow> bool" where
  "dfs_grows vis vis' \<longleftrightarrow> length vis' = length vis \<and> (\<forall>i < length vis. vis ! i \<longrightarrow> vis' ! i)"

lemma dfs_grows_refl [simp]: "dfs_grows v v"
  and dfs_grows_trans: "dfs_grows u v \<Longrightarrow> dfs_grows v w \<Longrightarrow> dfs_grows u w"
  by (auto simp: dfs_grows_def)

lemma dfs_grows_set: "dfs_grows (v[i := True]) w \<Longrightarrow> dfs_grows v w"
  unfolding dfs_grows_def by (metis length_list_update nth_list_update_eq nth_list_update_neq)

definition dfs_closed :: "('w, 'd) Graph \<Rightarrow> bool list \<Rightarrow> bool list \<Rightarrow> bool" where
  "dfs_closed g vis vis' \<longleftrightarrow>
     (\<forall>u v. u < length vis \<longrightarrow> vis' ! u \<longrightarrow> \<not> vis ! u \<longrightarrow> edge g u v \<longrightarrow> vis' ! v)"

lemma dfs_rec_spec:
  fixes g :: "('w, 'd) Graph"
  assumes ok: "graph_ok g"
  shows "length vis = length g \<Longrightarrow> s < length g \<Longrightarrow> unset vis < fuel \<Longrightarrow>
    dfs_grows vis (fst (dfsRec fuel g s pred (vis, lg))) \<and>
    fst (dfsRec fuel g s pred (vis, lg)) ! s \<and> dfs_closed g vis (fst (dfsRec fuel g s pred (vis, lg)))"
proof (induction fuel arbitrary: vis s pred lg)
  case (Suc n)
  show ?case
  proof (cases "vis ! s")
    case True
    then show ?thesis by (simp add: dfs_closed_def)
  next
    case False
    let ?v1 = "vis[s := True]"
    have u1: "unset ?v1 < n" using unset_update [of s vis] Suc.prems False by simp
    have fold: "dfs_grows v (fst (fold (\<lambda>l. dfsRec n g (dest l) s) ls (v, lg'))) \<and>
        dfs_closed g v (fst (fold (\<lambda>l. dfsRec n g (dest l) s) ls (v, lg'))) \<and>
        (\<forall>l \<in> set ls. fst (fold (\<lambda>l. dfsRec n g (dest l) s) ls (v, lg')) ! dest l)"
      if "set ls \<subseteq> set (g ! s)" "length v = length g" "unset v < n" for ls v lg'
      using that
    proof (induction ls arbitrary: v lg')
      case Nil
      then show ?case by (simp add: dfs_closed_def)
    next
      case (Cons l ls)
      obtain v2 lg2 where r: "dfsRec n g (dest l) s (v, lg') = (v2, lg2)" by fastforce
      have dl: "dest l < length g" using Cons.prems(1) ok Suc.prems(2) by (auto simp: graph_ok_def)
      note h = Suc.IH [OF Cons.prems(2) dl Cons.prems(3), of s lg', unfolded r fst_conv]
      have len2: "length v2 = length g" using h Cons.prems(2) by (simp add: dfs_grows_def)
      have "unset v2 \<le> unset v" using h by (intro unset_le) (auto simp: dfs_grows_def)
      then have u2: "unset v2 < n" using Cons.prems(3) by simp
      have sub: "set ls \<subseteq> set (g ! s)" using Cons.prems(1) by simp
      note IH = Cons.IH [OF sub len2 u2, of lg2]
      let ?w = "fst (fold (\<lambda>l. dfsRec n g (dest l) s) ls (v2, lg2))"
      have g2: "dfs_grows v2 ?w" using IH by blast
      have "dfs_closed g v ?w"
        unfolding dfs_closed_def
      proof (intro allI impI)
        fix u x assume u: "u < length v" "?w ! u" "\<not> v ! u" "edge g u x"
        have ux: "x < length g" using u(4) ok by (auto simp: edge_def graph_ok_def)
        show "?w ! x"
        proof (cases "v2 ! u")
          case True
          then have "v2 ! x" using h u by (simp add: dfs_closed_def)
          then show ?thesis using g2 ux len2 by (simp add: dfs_grows_def)
        next
          case False
          then show ?thesis using IH u len2 Cons.prems(2) by (simp add: dfs_closed_def)
        qed
      qed
      moreover have "dfs_grows v ?w" using h g2 dfs_grows_trans by blast
      moreover have "?w ! dest l" using h g2 dl len2 by (simp add: dfs_grows_def)
      ultimately show ?case using IH r by simp
    qed
    have len1: "length ?v1 = length g" using Suc.prems(1) by simp
    note f = fold [OF subset_refl len1 u1, of "lg @ [(s, pred)]"]
    let ?w = "fst (fold (\<lambda>l. dfsRec n g (dest l) s) (g ! s) (?v1, lg @ [(s, pred)]))"
    have e: "fst (dfsRec (Suc n) g s pred (vis, lg)) = ?w" using False by simp
    have gr: "dfs_grows ?v1 ?w" using f by blast
    have ws: "?w ! s" using gr Suc.prems by (simp add: dfs_grows_def)
    have "dfs_closed g vis ?w"
      unfolding dfs_closed_def
    proof (intro allI impI)
      fix u x assume u: "u < length vis" "?w ! u" "\<not> vis ! u" "edge g u x"
      show "?w ! x"
      proof (cases "u = s")
        case True
        then show ?thesis using f u(4) by (auto simp: edge_def)
      next
        case False
        then show ?thesis using f u by (simp add: dfs_closed_def)
      qed
    qed
    then show ?thesis using e gr ws dfs_grows_set by metis
  qed
qed simp

lemma dfs_rec_sound:
  fixes g :: "('w, 'd) Graph"
  assumes ok: "graph_ok g"
  shows "length vis = length g \<Longrightarrow> s < length g \<Longrightarrow>
    length (fst (dfsRec fuel g s pred (vis, lg))) = length g \<and>
    (\<forall>t < length g. fst (dfsRec fuel g s pred (vis, lg)) ! t \<longrightarrow> vis ! t \<or> reach g s t)"
proof (induction fuel arbitrary: vis s pred lg)
  case (Suc n)
  have fold: "length (fst (fold (\<lambda>l. dfsRec n g (dest l) s) ls (v, lg'))) = length g \<and>
      (\<forall>t < length g. fst (fold (\<lambda>l. dfsRec n g (dest l) s) ls (v, lg')) ! t \<longrightarrow> v ! t \<or> reach g s t)"
    if "set ls \<subseteq> set (g ! s)" "length v = length g" for ls v lg'
    using that
  proof (induction ls arbitrary: v lg')
    case (Cons l ls)
    obtain v2 lg2 where r: "dfsRec n g (dest l) s (v, lg') = (v2, lg2)" by fastforce
    have dl: "dest l < length g" using Cons.prems(1) ok Suc.prems(2) by (auto simp: graph_ok_def)
    have e: "edge g s (dest l)" using Cons.prems(1) Suc.prems(2) by (auto simp: edge_def)
    note h = Suc.IH [OF Cons.prems(2) dl, of s lg', unfolded r fst_conv]
    have sub: "set ls \<subseteq> set (g ! s)" using Cons.prems(1) by simp
    have len2: "length v2 = length g" using h by blast
    show ?case using Cons.IH [OF sub len2, of lg2] h r e
      by (auto intro: converse_rtranclp_into_rtranclp)
  qed simp
  have len1: "length (vis[s := True]) = length g" using Suc.prems(1) by simp
  show ?case using fold [OF subset_refl len1, of "lg @ [(s, pred)]"] Suc.prems
    by (auto simp: nth_list_update split: if_splits)
qed simp

lemma depthFirstSearch_reach:
  assumes ok: "graph_ok g" and s: "s < length g" and t: "t < length g"
  shows "fst (depthFirstSearch g s (replicate (length g) False)) ! t \<longleftrightarrow> reach g s t"
proof -
  let ?v = "replicate (length g) False"
  let ?w = "fst (depthFirstSearch g s ?v)"
  have "unset ?v < Suc (length g)" by (simp add: unset_def le_imp_less_Suc)
  then have sp: "dfs_grows ?v ?w" "?w ! s" "dfs_closed g ?v ?w"
    using dfs_rec_spec [OF ok, of ?v s "Suc (length g)" DFS_NO_PREDECESSOR "[]"] s
    by (simp_all add: depthFirstSearch_def del: dfsRec.simps)
  show ?thesis
  proof
    assume "?w ! t"
    then show "reach g s t"
      using dfs_rec_sound [OF ok, of ?v s "Suc (length g)" DFS_NO_PREDECESSOR "[]"] s t
      by (simp add: depthFirstSearch_def del: dfsRec.simps)
  next
    assume "reach g s t"
    then show "?w ! t"
    proof induction
      case (step u v)
      then show ?case using sp(3) by (auto simp: dfs_closed_def edge_def)
    qed (rule sp(2))
  qed
qed

section \<open>Topological order\<close>

fun topo_sorted :: "('w, 'd) Graph \<Rightarrow> nat list \<Rightarrow> bool" where
  "topo_sorted g [] \<longleftrightarrow> True"
| "topo_sorted g (u # us) \<longleftrightarrow> (\<forall>a \<in> set (g ! u). dest a \<in> set us) \<and> topo_sorted g us"

definition topo_inv :: "('w, 'd) Graph \<Rightarrow> topo_state \<Rightarrow> bool" where
  "topo_inv g t \<longleftrightarrow> length (begun t) = length g \<and> length (done_ts t) = length g \<and>
     distinct (order_ts t) \<and> set (order_ts t) = {u. u < length g \<and> done_ts t ! u} \<and>
     (\<forall>u < length g. done_ts t ! u \<longrightarrow> begun t ! u) \<and>
     (n_back_edges t = 0 \<longrightarrow> topo_sorted g (order_ts t))"

text \<open>From before to after a call: what was done stays done, the states in progress are the same, and
  whatever became done had not been begun.\<close>

definition topo_le :: "nat \<Rightarrow> topo_state \<Rightarrow> topo_state \<Rightarrow> bool" where
  "topo_le N t t' \<longleftrightarrow> n_back_edges t \<le> n_back_edges t' \<and>
     (\<forall>u < N. (begun t ! u \<longrightarrow> begun t' ! u) \<and> (done_ts t ! u \<longrightarrow> done_ts t' ! u) \<and>
       (done_ts t' ! u \<and> \<not> done_ts t ! u \<longrightarrow> \<not> begun t ! u) \<and>
       (begun t' ! u \<and> \<not> done_ts t' ! u \<longleftrightarrow> begun t ! u \<and> \<not> done_ts t ! u))"

lemma topo_le_refl: "topo_le N t t"
  by (simp add: topo_le_def)

lemma topo_le_trans: "topo_le N t u \<Longrightarrow> topo_le N u v \<Longrightarrow> topo_le N t v"
  unfolding topo_le_def by (meson le_trans)

lemma topo_le_unset:
  "topo_le (length g) t t' \<Longrightarrow> topo_inv g t \<Longrightarrow> topo_inv g t' \<Longrightarrow> unset (begun t') \<le> unset (begun t)"
  by (intro unset_le) (auto simp: topo_le_def topo_inv_def)

definition in_progress_reach :: "('w, 'd) Graph \<Rightarrow> topo_state \<Rightarrow> nat \<Rightarrow> bool" where
  "in_progress_reach g t s \<longleftrightarrow> (\<forall>u < length g. begun t ! u \<and> \<not> done_ts t ! u \<longrightarrow> reach g u s)"

definition cycle_from :: "('w, 'd) Graph \<Rightarrow> nat \<Rightarrow> bool" where
  "cycle_from g s \<longleftrightarrow> (\<exists>u. reach g s u \<and> (edge g)\<^sup>+\<^sup>+ u u)"

lemma cycle_from_edge: "edge g s v \<Longrightarrow> cycle_from g v \<Longrightarrow> cycle_from g s"
  unfolding cycle_from_def by (meson converse_rtranclp_into_rtranclp)

lemma topo_begin:
  assumes t: "topo_inv g t" and s: "s < length g" "\<not> begun t ! s"
  defines "t1 \<equiv> t\<lparr>begun := (begun t)[s := True]\<rparr>"
  shows "topo_inv g t1" "unset (begun t) = Suc (unset (begun t1))" "n_back_edges t1 = n_back_edges t"
    "in_progress_reach g t s \<Longrightarrow> in_progress_reach g t1 s"
proof -
  show "topo_inv g t1"
    using t s unfolding topo_inv_def t1_def
    by (auto simp: nth_list_update)
  show "unset (begun t) = Suc (unset (begun t1))"
    using unset_update [of s "begun t"] t s by (simp add: topo_inv_def t1_def)
  show "in_progress_reach g t s \<Longrightarrow> in_progress_reach g t1 s"
    using t s by (auto simp: in_progress_reach_def t1_def nth_list_update topo_inv_def)
qed (simp add: t1_def)

lemma topo_finish:
  assumes t: "topo_inv g t" and s: "s < length g" "\<not> begun t ! s"
  defines "t1 \<equiv> t\<lparr>begun := (begun t)[s := True]\<rparr>"
  assumes t2: "topo_inv g t2" "topo_le (length g) t1 t2"
    and dn: "n_back_edges t2 = 0 \<Longrightarrow> \<forall>l \<in> set (g ! s). done_ts t2 ! dest l" and ok: "graph_ok g"
  defines "t' \<equiv> t2\<lparr>done_ts := (done_ts t2)[s := True], order_ts := s # order_ts t2\<rparr>"
  shows "topo_inv g t'" "topo_le (length g) t t'" "done_ts t' ! s"
proof -
  have len: "length (begun t) = length g" "length (done_ts t2) = length g" "length (begun t2) = length g"
    using t t2(1) by (auto simp: topo_inv_def)
  have nd: "\<not> done_ts t ! s" using t s by (auto simp: topo_inv_def)
  have b1: "begun t1 ! s" using s len by (simp add: t1_def)
  have ns: "\<not> done_ts t2 ! s" "begun t2 ! s"
    using t2(2) b1 nd s(1) by (auto simp: topo_le_def t1_def)
  then have notin: "s \<notin> set (order_ts t2)" using t2(1) by (simp add: topo_inv_def)
  have "{u. u < length g \<and> done_ts t' ! u} = insert s {u. u < length g \<and> done_ts t2 ! u}"
    using s len by (auto simp: t'_def nth_list_update)
  then have set': "set (order_ts t') = {u. u < length g \<and> done_ts t' ! u}"
    using t2(1) by (simp add: topo_inv_def t'_def)
  have "topo_sorted g (order_ts t')" if z: "n_back_edges t' = 0"
  proof -
    have z2: "n_back_edges t2 = 0" using z by (simp add: t'_def)
    have "dest a \<in> set (order_ts t2)" if "a \<in> set (g ! s)" for a
      using dn [OF z2] that ok s(1) t2(1) by (auto simp: topo_inv_def graph_ok_def)
    then show ?thesis using z2 t2(1) by (simp add: t'_def topo_inv_def)
  qed
  moreover have "\<forall>u < length g. done_ts t' ! u \<longrightarrow> begun t' ! u"
  proof (intro allI impI)
    fix u assume u: "u < length g" "done_ts t' ! u"
    show "begun t' ! u"
    proof (cases "u = s")
      case True
      then show ?thesis using ns(2) by (simp add: t'_def)
    next
      case False
      then show ?thesis using u t2(1) by (simp add: t'_def topo_inv_def)
    qed
  qed
  ultimately show "topo_inv g t'"
    using set' notin t2(1) by (simp add: topo_inv_def t'_def)
  show "done_ts t' ! s" using s len by (simp add: t'_def)
  show "topo_le (length g) t t'"
    unfolding topo_le_def
  proof (intro conjI allI impI)
    show "n_back_edges t \<le> n_back_edges t'" using t2(2) by (simp add: topo_le_def t1_def t'_def)
  next
    fix u assume u: "u < length g"
    have b1u: "begun t1 ! u = (u = s \<or> begun t ! u)" "done_ts t1 ! u = done_ts t ! u"
      using u s(1) len by (auto simp: t1_def nth_list_update)
    have d'u: "done_ts t' ! u = (u = s \<or> done_ts t2 ! u)" "begun t' ! u = begun t2 ! u"
      using u s(1) len by (auto simp: t'_def nth_list_update)
    have le: "begun t1 ! u \<longrightarrow> begun t2 ! u" "done_ts t1 ! u \<longrightarrow> done_ts t2 ! u"
      "done_ts t2 ! u \<and> \<not> done_ts t1 ! u \<longrightarrow> \<not> begun t1 ! u"
      "begun t2 ! u \<and> \<not> done_ts t2 ! u \<longleftrightarrow> begun t1 ! u \<and> \<not> done_ts t1 ! u"
      using t2(2) u unfolding topo_le_def by blast+
    show "begun t ! u \<Longrightarrow> begun t' ! u" "done_ts t ! u \<Longrightarrow> done_ts t' ! u"
      "done_ts t' ! u \<and> \<not> done_ts t ! u \<Longrightarrow> \<not> begun t ! u"
      "(begun t' ! u \<and> \<not> done_ts t' ! u) = (begun t ! u \<and> \<not> done_ts t ! u)"
      using le b1u d'u s(2) nd ns by (cases "u = s"; simp)+
  qed
qed

lemma order_from_spec:
  assumes ok: "graph_ok g"
  shows "topo_inv g t \<Longrightarrow> s < length g \<Longrightarrow> unset (begun t) < fuel \<Longrightarrow> in_progress_reach g t s \<Longrightarrow>
    topo_inv g (order_from fuel g s t) \<and> topo_le (length g) t (order_from fuel g s t) \<and>
    (n_back_edges (order_from fuel g s t) = 0 \<longrightarrow> done_ts (order_from fuel g s t) ! s) \<and>
    (n_back_edges t < n_back_edges (order_from fuel g s t) \<longrightarrow>
       cycle_from g s \<or> (begun t ! s \<and> \<not> done_ts t ! s))"
proof (induction fuel arbitrary: s t)
  case (Suc n)
  consider (d) "done_ts t ! s" | (b) "\<not> done_ts t ! s" "begun t ! s" | (new) "\<not> done_ts t ! s" "\<not> begun t ! s"
    by blast
  then show ?case
  proof cases
    case d
    then show ?thesis using Suc.prems by (simp add: topo_le_refl)
  next
    case b
    then show ?thesis using Suc.prems by (auto simp: topo_inv_def topo_le_def)
  next
    case new
    let ?t1 = "t\<lparr>begun := (begun t)[s := True]\<rparr>"
    note tb = topo_begin [OF Suc.prems(1,2) new(2)]
    have fold: "topo_inv g (fold (\<lambda>l. order_from n g (dest l)) ls v) \<and>
        topo_le (length g) v (fold (\<lambda>l. order_from n g (dest l)) ls v) \<and>
        (n_back_edges (fold (\<lambda>l. order_from n g (dest l)) ls v) = 0 \<longrightarrow>
           (\<forall>l \<in> set ls. done_ts (fold (\<lambda>l. order_from n g (dest l)) ls v) ! dest l)) \<and>
        (n_back_edges v < n_back_edges (fold (\<lambda>l. order_from n g (dest l)) ls v) \<longrightarrow> cycle_from g s)"
      if "set ls \<subseteq> set (g ! s)" "topo_inv g v" "unset (begun v) < n" "in_progress_reach g v s" for ls v
      using that
    proof (induction ls arbitrary: v)
      case Nil
      then show ?case by (simp add: topo_le_refl)
    next
      case (Cons l ls)
      let ?v2 = "order_from n g (dest l) v"
      let ?w = "fold (\<lambda>l. order_from n g (dest l)) ls ?v2"
      have dl: "dest l < length g" using Cons.prems(1) ok Suc.prems(2) by (auto simp: graph_ok_def)
      have e: "edge g s (dest l)" using Cons.prems(1) Suc.prems(2) by (auto simp: edge_def)
      have ip: "in_progress_reach g v (dest l)"
        using Cons.prems(4) e unfolding in_progress_reach_def by (meson rtranclp.rtrancl_into_rtrancl)
      note h = Suc.IH [OF Cons.prems(2) dl Cons.prems(3) ip]
      have inv2: "topo_inv g ?v2" and le2: "topo_le (length g) v ?v2" using h by blast+
      have u2: "unset (begun ?v2) < n"
        using topo_le_unset [OF le2 Cons.prems(2) inv2] Cons.prems(3) by linarith
      have ip2: "in_progress_reach g ?v2 s"
        using Cons.prems(4) le2 unfolding in_progress_reach_def topo_le_def by blast
      have sub: "set ls \<subseteq> set (g ! s)" using Cons.prems(1) by simp
      note IH = Cons.IH [OF sub inv2 u2 ip2]
      have lew: "topo_le (length g) ?v2 ?w" using IH by blast
      have cyc: "cycle_from g s" if "n_back_edges v < n_back_edges ?v2"
      proof -
        from h that have "cycle_from g (dest l) \<or> (begun v ! dest l \<and> \<not> done_ts v ! dest l)" by blast
        then show ?thesis
        proof
          assume "begun v ! dest l \<and> \<not> done_ts v ! dest l"
          then have "reach g (dest l) s" using Cons.prems(4) dl by (simp add: in_progress_reach_def)
          then show ?thesis using e unfolding cycle_from_def by (meson rtranclp.rtrancl_refl rtranclp_into_tranclp2)
        qed (rule cycle_from_edge [OF e])
      qed
      have nb: "n_back_edges v \<le> n_back_edges ?v2" "n_back_edges ?v2 \<le> n_back_edges ?w"
        using le2 lew by (auto simp: topo_le_def)
      have "done_ts ?w ! dest l" if "n_back_edges ?w = 0"
        using h lew dl nb that by (auto simp: topo_le_def)
      moreover have "n_back_edges v < n_back_edges ?w \<longrightarrow> cycle_from g s"
        using cyc IH nb by linarith
      ultimately show ?case using IH topo_le_trans [OF le2 lew] by simp
    qed
    have u1: "unset (begun ?t1) < n" using tb(2) Suc.prems(3) by simp
    let ?t2 = "fold (\<lambda>l. order_from n g (dest l)) (g ! s) ?t1"
    note f = fold [OF subset_refl tb(1) u1 tb(4) [OF Suc.prems(4)]]
    have f1: "topo_inv g ?t2" and f2: "topo_le (length g) ?t1 ?t2"
      and f3: "n_back_edges ?t2 = 0 \<Longrightarrow> \<forall>l \<in> set (g ! s). done_ts ?t2 ! dest l"
      and f4: "n_back_edges t < n_back_edges ?t2 \<longrightarrow> cycle_from g s" using f by simp_all
    note tf = topo_finish [OF Suc.prems(1,2) new(2) f1 f2 f3 ok]
    have e: "order_from (Suc n) g s t =
        ?t2\<lparr>done_ts := (done_ts ?t2)[s := True], order_ts := s # order_ts ?t2\<rparr>"
      using new by (simp add: Let_def)
    show ?thesis unfolding e using tf f4 by simp
  qed
qed simp

lemma topo_new_inv: "topo_inv g (topo_new g)" "in_progress_reach g (topo_new g) s"
  by (simp_all add: topo_inv_def topo_new_def in_progress_reach_def)

lemma topo_order_from_spec:
  assumes "graph_ok g" "s < length g"
  defines "t \<equiv> topo_order_from g s (topo_new g)"
  shows "topo_inv g t" "n_back_edges t = 0 \<Longrightarrow> s \<in> set (order_ts t)" "n_back_edges t \<noteq> 0 \<Longrightarrow> cycle_from g s"
proof -
  have "unset (begun (topo_new g)) < Suc (length g)" by (simp add: unset_def topo_new_def le_imp_less_Suc)
  note sp = order_from_spec [OF assms(1) topo_new_inv(1) assms(2) this topo_new_inv(2)]
  show i: "topo_inv g t" using sp by (simp add: t_def topo_order_from_def del: order_from.simps)
  have z: "n_back_edges (topo_new g) = 0" "\<not> begun (topo_new g) ! s"
    using assms(2) by (simp_all add: topo_new_def)
  show "n_back_edges t = 0 \<Longrightarrow> s \<in> set (order_ts t)"
    using sp i assms(2) by (simp add: t_def topo_order_from_def topo_inv_def del: order_from.simps)
  show "n_back_edges t \<noteq> 0 \<Longrightarrow> cycle_from g s"
    using sp z by (simp add: t_def topo_order_from_def del: order_from.simps)
qed

lemma topo_sorted_succ:
  "topo_sorted g (xs @ u # ys) \<Longrightarrow> a \<in> set (g ! u) \<Longrightarrow> dest a \<in> set ys"
  by (induction xs) auto

lemma topo_sorted_closed: "topo_sorted g us \<Longrightarrow> u \<in> set us \<Longrightarrow> edge g u v \<Longrightarrow> v \<in> set us"
  by (induction us) (auto simp: edge_def)

lemma topo_sorted_no_cycle:
  "(edge g)\<^sup>+\<^sup>+ u v \<Longrightarrow> topo_sorted g us \<Longrightarrow> distinct us \<Longrightarrow> us = xs @ u # ys \<Longrightarrow> v \<in> set ys"
proof (induction rule: tranclp_induct)
  case (base v)
  then show ?case using topo_sorted_succ [of g xs u ys] by (auto simp: edge_def)
next
  case (step v w)
  then have "v \<in> set ys" by blast
  moreover have "topo_sorted g ys" using step.prems by (induction xs arbitrary: us) auto
  ultimately show ?case using step.hyps(2) topo_sorted_closed by metis
qed

lemma n_back_edges_iff_cycle:
  assumes ok: "graph_ok g" and s: "s < length g"
  shows "n_back_edges (topo_order_from g s (topo_new g)) = 0 \<longleftrightarrow> \<not> cycle_from g s"
proof
  let ?t = "topo_order_from g s (topo_new g)"
  note sp = topo_order_from_spec [OF ok s]
  assume z: "n_back_edges ?t = 0"
  have srt: "topo_sorted g (order_ts ?t)" "distinct (order_ts ?t)" using sp(1) z by (auto simp: topo_inv_def)
  show "\<not> cycle_from g s"
  proof
    assume "cycle_from g s"
    then obtain u where u: "reach g s u" "(edge g)\<^sup>+\<^sup>+ u u" by (auto simp: cycle_from_def)
    from u(1) have "u \<in> set (order_ts ?t)"
      by induction (use sp(2) [OF z] topo_sorted_closed [OF srt(1)] in auto)
    then obtain xs ys where e: "order_ts ?t = xs @ u # ys" by (meson split_list)
    have "u \<in> set ys" by (rule topo_sorted_no_cycle [OF u(2) srt e])
    then show False using srt(2) e by simp
  qed
next
  assume "\<not> cycle_from g s"
  then show "n_back_edges (topo_order_from g s (topo_new g)) = 0"
    using topo_order_from_spec(3) [OF ok s] by blast
qed

section \<open>Sums over walks\<close>

definition step_weight :: "('x, 'd) Graph \<Rightarrow> (('x, 'd) GraphArc \<Rightarrow> 'w::comm_semiring_1) \<Rightarrow> nat \<Rightarrow> nat \<Rightarrow> 'w" where
  "step_weight g getwt u v = (\<Sum>a\<leftarrow>filter (\<lambda>a. dest a = v) (g ! u). getwt a)"

text \<open>The weights of all walks of exactly \<open>k\<close> arcs from \<open>s\<close> to \<open>t\<close>, summed.\<close>

fun walk_sum ::
  "('x, 'd) Graph \<Rightarrow> (('x, 'd) GraphArc \<Rightarrow> 'w::comm_semiring_1) \<Rightarrow> nat \<Rightarrow> nat \<Rightarrow> nat \<Rightarrow> 'w" where
  "walk_sum g getwt 0 s t = (if s = t then 1 else 0)"
| "walk_sum g getwt (Suc k) s t = (\<Sum>u < length g. walk_sum g getwt k s u * step_weight g getwt u t)"

lemma push_arcs:
  assumes "\<forall>a \<in> set as. dest a < length w \<and> dest a \<noteq> s" "s < length w"
  shows "length (fold (\<lambda>a w. w[dest a := w ! dest a + w ! s * getwt a]) as w) = length w \<and>
    (\<forall>t < length w. fold (\<lambda>a w. w[dest a := w ! dest a + w ! s * getwt a]) as w ! t =
      (w ! t + w ! s * (\<Sum>a\<leftarrow>filter (\<lambda>a. dest a = t) as. getwt a) :: 'w::comm_semiring_1))"
  using assms
proof (induction as arbitrary: w)
  case (Cons a as)
  let ?w = "w[dest a := w ! dest a + w ! s * getwt a]"
  have "?w ! s = w ! s" using Cons.prems by simp
  with Cons.IH [of ?w] Cons.prems show ?case by (auto simp: algebra_simps nth_list_update)
qed simp

lemma propagate_spec:
  fixes getwt :: "('x, 'd) GraphArc \<Rightarrow> 'w::comm_semiring_1"
  assumes "topo_sorted g us" "distinct us" "graph_ok g" "set us \<subseteq> {..<length g}" "length w = length g"
  defines "r \<equiv> propagate_paths_in_order g us getwt w"
  shows "length r = length g \<and>
    (\<forall>t < length g. r ! t = w ! t + (\<Sum>u\<leftarrow>us. r ! u * step_weight g getwt u t))"
  using assms(1-5) unfolding r_def
proof (induction us arbitrary: w)
  case Nil
  then show ?case by (simp add: propagate_paths_in_order_def)
next
  case (Cons s us)
  let ?w = "fold (\<lambda>a w. w[dest a := w ! dest a + w ! s * getwt a]) (g ! s) w"
  let ?r = "propagate_paths_in_order g us getwt ?w"
  have s: "s < length g" "s \<notin> set us" using Cons.prems by auto
  have "\<forall>a \<in> set (g ! s). dest a < length w \<and> dest a \<noteq> s"
    using Cons.prems s by (auto simp: graph_ok_def)
  note pa = push_arcs [OF this, of getwt] 
  have len: "length ?w = length g" and w: "\<And>t. t < length g \<Longrightarrow> ?w ! t = w ! t + w ! s * step_weight g getwt s t"
    using pa s Cons.prems(5) by (simp_all add: step_weight_def)
  have IH: "length ?r = length g" "\<And>t. t < length g \<Longrightarrow>
      ?r ! t = ?w ! t + (\<Sum>u\<leftarrow>us. ?r ! u * step_weight g getwt u t)"
    using Cons.IH [OF _ _ Cons.prems(3) _ len] Cons.prems by auto
  have no_in: "step_weight g getwt u s = 0" if "u \<in> set (s # us)" for u
  proof -
    have "\<forall>a \<in> set (g ! u). dest a \<noteq> s"
    proof
      fix a assume a: "a \<in> set (g ! u)"
      have "edge g u (dest a)" using a that Cons.prems(4) by (auto simp: edge_def)
      show "dest a \<noteq> s"
      proof (cases "u = s")
        case True
        then show ?thesis using a Cons.prems(1) s by auto
      next
        case False
        then have "u \<in> set us" using that by simp
        then show ?thesis using topo_sorted_closed [OF _ _ \<open>edge g u (dest a)\<close>] Cons.prems(1) s by auto
      qed
    qed
    then show ?thesis by (simp add: step_weight_def filter_False)
  qed
  have z: "(\<Sum>u\<leftarrow>us. ?r ! u * step_weight g getwt u s) = (\<Sum>u\<leftarrow>us. 0)"
    by (rule arg_cong [where f = sum_list], rule map_cong [OF refl]) (simp add: no_in)
  have rs: "?r ! s = w ! s" using IH(2) [OF s(1)] w [OF s(1)] z no_in [of s] by simp
  have e: "propagate_paths_in_order g (s # us) getwt w = ?r"
    by (simp add: propagate_paths_in_order_def)
  show ?case unfolding e using IH w rs by (simp add: add.assoc)
qed

text \<open>A list of states that can be relied on as an order of propagation from \<open>s\<close>.\<close>

definition walk_order :: "('x, 'd) Graph \<Rightarrow> nat list \<Rightarrow> nat \<Rightarrow> bool" where
  "walk_order g us s \<longleftrightarrow> topo_sorted g us \<and> distinct us \<and> graph_ok g \<and> set us \<subseteq> {..<length g} \<and> s \<in> set us"

lemma walk_orderD:
  assumes "walk_order g us s"
  shows "topo_sorted g us" "distinct us" "graph_ok g" "set us \<subseteq> {..<length g}" "s \<in> set us"
  using assms by (auto simp: walk_order_def)

lemma step_weight_before:
  assumes wo: "walk_order g us s" and "step_weight g getwt u t \<noteq> 0" "u \<in> set us" "us = xs @ t # ys"
  shows "u \<in> set xs"
proof -
  note srt = walk_orderD(1) [OF wo] and dst = walk_orderD(2) [OF wo]
  have "\<exists>a \<in> set (g ! u). dest a = t"
  proof (rule ccontr)
    assume "\<not> (\<exists>a \<in> set (g ! u). dest a = t)"
    then have "filter (\<lambda>a. dest a = t) (g ! u) = []" by (simp add: filter_empty_conv)
    then show False using assms(2) by (simp add: step_weight_def)
  qed
  then obtain a where a: "a \<in> set (g ! u)" "dest a = t" by blast
  obtain as bs where u: "us = as @ u # bs" using assms(3) by (meson split_list)
  have t: "t \<in> set bs" using topo_sorted_succ [of g as u bs] srt u a by auto
  show ?thesis
  proof (rule ccontr)
    assume "u \<notin> set xs"
    moreover have "u \<noteq> t" using t u dst by auto
    ultimately have "u \<in> set ys" using assms(3,4) by auto
    then obtain cs ds where "ys = cs @ u # ds" by (meson split_list)
    then have e: "us = (xs @ t # cs) @ u # ds" using assms(4) by simp
    have "u \<notin> set as" using dst unfolding u by simp
    moreover have "u \<notin> set (xs @ t # cs)" using dst unfolding e by auto
    moreover have "u \<notin> set bs" using dst unfolding u by simp
    ultimately have "bs = ds" using u e append_Cons_eq_iff [of u as bs "xs @ t # cs" ds] by metis
    then show False using t e dst by auto
  qed
qed

lemma step_weight_outside: "walk_order g us s \<Longrightarrow> u \<in> set us \<Longrightarrow> t \<notin> set us \<Longrightarrow> step_weight g getwt u t = 0"
proof -
  assume wo: "walk_order g us s" and u: "u \<in> set us" "t \<notin> set us"
  have "dest a \<noteq> t" if "a \<in> set (g ! u)" for a
    using topo_sorted_closed [OF walk_orderD(1) [OF wo] u(1), of t] that u walk_orderD(4) [OF wo] by (auto simp: edge_def)
  then show ?thesis by (simp add: step_weight_def filter_False)
qed

lemma walk_sum_outside: "walk_order g us s \<Longrightarrow> t \<notin> set us \<Longrightarrow> walk_sum g getwt k s t = 0"
proof (induction k arbitrary: t)
  case 0
  then show ?case using walk_orderD(5) by auto
next
  case (Suc k)
  have "walk_sum g getwt k s u * step_weight g getwt u t = 0" for u
    using Suc.IH [OF Suc.prems(1)] step_weight_outside [OF Suc.prems(1) _ Suc.prems(2), of u getwt]
    by (cases "u \<in> set us") simp_all
  then show ?case by simp
qed

lemma walk_sum_long: "walk_order g us s \<Longrightarrow> us = xs @ t # ys \<Longrightarrow> length xs < k \<Longrightarrow> walk_sum g getwt k s t = 0"
proof (induction k arbitrary: t xs ys)
  case (Suc k)
  have "walk_sum g getwt k s u * step_weight g getwt u t = 0" for u
  proof (cases "u \<in> set us \<and> step_weight g getwt u t \<noteq> 0")
    case True
    then have "u \<in> set xs" using step_weight_before Suc.prems(1,2) by blast
    then obtain as bs where "xs = as @ u # bs" by (meson split_list)
    then have "us = as @ u # (bs @ t # ys)" "length as < k" using Suc.prems by simp_all
    then show ?thesis using Suc.IH [OF Suc.prems(1)] by simp
  next
    case False
    then show ?thesis by (auto simp: walk_sum_outside [OF Suc.prems(1)])
  qed
  then show ?case by simp
qed simp

lemma walk_total_rec:
  assumes wo: "walk_order g us s" and n: "length us \<le> n"
  shows "(\<Sum>k \<le> n. walk_sum g getwt k s t) =
    (if s = t then 1 else 0) + (\<Sum>u\<leftarrow>us. (\<Sum>k \<le> n. walk_sum g getwt k s u) * step_weight g getwt u t)"
proof -
  have last0: "walk_sum g getwt n s u = 0" for u
  proof (cases "u \<in> set us")
    case True
    then obtain as bs where "us = as @ u # bs" by (meson split_list)
    moreover from this have "length as < n" using n by simp
    ultimately show ?thesis by (rule walk_sum_long [OF wo])
  qed (rule walk_sum_outside [OF wo])
  have tot: "(\<Sum>k \<le> n. walk_sum g getwt k s u) = (\<Sum>k < n. walk_sum g getwt k s u)" for u
    unfolding lessThan_Suc_atMost [symmetric] sum.lessThan_Suc last0 by simp
  have "(\<Sum>k \<le> n. walk_sum g getwt k s t) =
      walk_sum g getwt 0 s t + (\<Sum>k < n. walk_sum g getwt (Suc k) s t)"
    unfolding lessThan_Suc_atMost [symmetric] by (rule sum.lessThan_Suc_shift)
  also have "(\<Sum>k < n. walk_sum g getwt (Suc k) s t) =
      (\<Sum>u < length g. (\<Sum>k < n. walk_sum g getwt k s u) * step_weight g getwt u t)"
    by (simp add: sum_distrib_right sum.swap [of _ "{..<length g}" "{..<n}"])
  also have "\<dots> = (\<Sum>u \<in> set us. (\<Sum>k < n. walk_sum g getwt k s u) * step_weight g getwt u t)"
    by (rule sum.mono_neutral_right) (use walk_orderD(4) [OF wo] in \<open>auto simp: walk_sum_outside [OF wo]\<close>)
  also have "\<dots> = (\<Sum>u\<leftarrow>us. (\<Sum>k < n. walk_sum g getwt k s u) * step_weight g getwt u t)"
    by (simp add: sum_list_distinct_conv_sum_set [OF walk_orderD(2) [OF wo]])
  finally show ?thesis by (simp add: tot)
qed

lemma propagate_walks:
  assumes wo: "walk_order g us s" and n: "length us \<le> n" and r: "\<And>t. t < length g \<Longrightarrow>
      r ! t = (if s = t then c else 0) + (\<Sum>u\<leftarrow>us. r ! u * step_weight g getwt u t)"
    and t: "t < length g"
  shows "r ! t = c * (\<Sum>k \<le> n. walk_sum g getwt k s t)"
proof -
  have base: "(\<Sum>u\<leftarrow>us. r ! u * step_weight g getwt u t) =
      c * (\<Sum>u\<leftarrow>us. (\<Sum>k \<le> n. walk_sum g getwt k s u) * step_weight g getwt u t)"
    if "\<And>u. u \<in> set us \<Longrightarrow> step_weight g getwt u t \<noteq> 0 \<Longrightarrow> r ! u = c * (\<Sum>k \<le> n. walk_sum g getwt k s u)" for t
  proof -
    have "map (\<lambda>u. r ! u * step_weight g getwt u t) us =
        map (\<lambda>u. c * ((\<Sum>k \<le> n. walk_sum g getwt k s u) * step_weight g getwt u t)) us"
    proof (intro map_cong refl)
      fix u assume u: "u \<in> set us"
      show "r ! u * step_weight g getwt u t =
          c * ((\<Sum>k \<le> n. walk_sum g getwt k s u) * step_weight g getwt u t)"
        using that [OF u] by (cases "step_weight g getwt u t = 0") (simp_all add: mult.assoc)
    qed
    then show ?thesis by (simp only: sum_list_const_mult)
  qed
  have inside: "r ! v = c * (\<Sum>k \<le> n. walk_sum g getwt k s v)" if "us = xs @ v # ys" for v xs ys
    using that
  proof (induction "length xs" arbitrary: xs v ys rule: less_induct)
    case less
    have v: "v < length g" using less.prems walk_orderD(4) [OF wo] by auto
    have "r ! u = c * (\<Sum>k \<le> n. walk_sum g getwt k s u)"
      if u: "u \<in> set us" "step_weight g getwt u v \<noteq> 0" for u
    proof -
      have "u \<in> set xs" using step_weight_before [OF wo] u less.prems by blast
      then obtain as bs where "xs = as @ u # bs" by (meson split_list)
      then have "us = as @ u # (bs @ v # ys)" "length as < length xs" using less.prems by simp_all
      then show ?thesis using less.hyps by blast
    qed
    then have b: "(\<Sum>u\<leftarrow>us. r ! u * step_weight g getwt u v) =
      c * (\<Sum>u\<leftarrow>us. (\<Sum>k \<le> n. walk_sum g getwt k s u) * step_weight g getwt u v)" by (rule base)
    show ?case unfolding r [OF v] b by (subst walk_total_rec [OF wo n]) (simp add: distrib_left)
  qed
  have "r ! u = c * (\<Sum>k \<le> n. walk_sum g getwt k s u)" if "u \<in> set us" for u
    using that inside by (meson split_list)
  then have b: "(\<Sum>u\<leftarrow>us. r ! u * step_weight g getwt u t) =
    c * (\<Sum>u\<leftarrow>us. (\<Sum>k \<le> n. walk_sum g getwt k s u) * step_weight g getwt u t)" by (rule base)
  show ?thesis unfolding r [OF t] b by (subst walk_total_rec [OF wo n]) (simp add: distrib_left)
qed

section \<open>Reversal\<close>

definition located_arcs :: "('w, 'd) Graph \<Rightarrow> (nat \<times> nat \<times> ('w, 'd) GraphArc) list" where
  "located_arcs g = concat (map (\<lambda>i. map (\<lambda>(p, l). (i, p, l)) (enumerate 0 (g ! i))) [0..<length g])"

definition reversed_arc :: "bool \<Rightarrow> nat \<times> nat \<times> ('w, 'd) GraphArc \<Rightarrow> ('w, 'd) GraphArc" where
  "reversed_arc fwd x = (case x of (i, p, l) \<Rightarrow>
     \<lparr>src = dest l, dest = src l, weight = weight l, data = (if fwd then Forward_arc i p else data l)\<rparr>)"

lemma fold_concat_map: "fold f (concat (map h xs)) s = fold (\<lambda>x. fold f (h x)) xs s"
  by (induction xs arbitrary: s) auto

lemma add_reversed_arcs_flat:
  "add_reversed_arcs rg g (length g) fwd =
     fold (\<lambda>(i, p, l). add_reversed_arc fwd i p l) (located_arcs g) rg"
  by (simp add: add_reversed_arcs_def located_arcs_def fold_concat_map fold_map comp_def case_prod_unfold)

lemma fold_add_reversed:
  assumes "\<forall>x \<in> set xs. dest (snd (snd x)) < length rg"
  shows "length (fold (\<lambda>(i, p, l). add_reversed_arc fwd i p l) xs rg) = length rg \<and>
    (\<forall>v < length rg. fold (\<lambda>(i, p, l). add_reversed_arc fwd i p l) xs rg ! v =
      map (reversed_arc fwd) (rev (filter (\<lambda>x. dest (snd (snd x)) = v) xs)) @ rg ! v)"
  using assms
proof (induction xs arbitrary: rg)
  case (Cons x xs)
  obtain i p l where x: "x = (i, p, l)" by (cases x)
  have len: "length (add_reversed_arc fwd i p l rg) = length rg" by (simp add: add_reversed_arc_def)
  have "add_reversed_arc fwd i p l rg ! v = (if dest l = v then [reversed_arc fwd x] else []) @ rg ! v"
    if "v < length rg" for v
    using that by (simp add: add_reversed_arc_def reversed_arc_def x nth_list_update)
  then show ?case using Cons.IH [of "add_reversed_arc fwd i p l rg"] Cons.prems by (auto simp: x len)
qed simp

lemma in_located_arcs:
  "(i, p, l) \<in> set (located_arcs g) \<longleftrightarrow> i < length g \<and> p < length (g ! i) \<and> g ! i ! p = l"
  by (auto simp: located_arcs_def in_set_enumerate_eq image_iff)

lemma reverseGraph_nth:
  assumes "graph_ok g"
  shows "length (reverseGraph g fwd) = length g"
    "v < length g \<Longrightarrow> reverseGraph g fwd ! v =
       map (reversed_arc fwd) (rev (filter (\<lambda>x. dest (snd (snd x)) = v) (located_arcs g)))"
proof -
  have "\<forall>x \<in> set (located_arcs g). dest (snd (snd x)) < length (replicate (length g) [])"
    using assms by (auto simp: in_located_arcs graph_ok_def)
  note f = fold_add_reversed [OF this, of fwd]
  show "length (reverseGraph g fwd) = length g"
    "v < length g \<Longrightarrow> reverseGraph g fwd ! v =
       map (reversed_arc fwd) (rev (filter (\<lambda>x. dest (snd (snd x)) = v) (located_arcs g)))"
    using f by (simp_all add: reverseGraph_def add_reversed_arcs_flat)
qed

lemma reverseGraph_edge:
  assumes ok: "graph_ok g"
  shows "graph_ok (reverseGraph g fwd)" "edge (reverseGraph g fwd) u v \<longleftrightarrow> edge g v u"
proof -
  note r = reverseGraph_nth [OF ok, where fwd = fwd]
  have mem: "a \<in> set (reverseGraph g fwd ! u) \<longleftrightarrow>
      (\<exists>i p. i < length g \<and> p < length (g ! i) \<and> dest (g ! i ! p) = u \<and> a = reversed_arc fwd (i, p, g ! i ! p))"
    if "u < length g" for u a
    using r(2) [OF that] by (auto simp: in_located_arcs image_iff)
  have src: "src (g ! i ! p) = i" if "i < length g" "p < length (g ! i)" for i p
    using ok that by (simp add: graph_ok_def)
  show "graph_ok (reverseGraph g fwd)"
    unfolding graph_ok_def r(1)
  proof (intro allI impI ballI)
    fix u a assume u: "u < length g" and a: "a \<in> set (reverseGraph g fwd ! u)"
    then show "src a = u \<and> dest a < length g" using mem [OF u] src by (auto simp: reversed_arc_def)
  qed
  show "edge (reverseGraph g fwd) u v \<longleftrightarrow> edge g v u"
  proof
    assume "edge (reverseGraph g fwd) u v"
    then obtain a where "u < length g" "a \<in> set (reverseGraph g fwd ! u)" "dest a = v"
      using r(1) by (auto simp: edge_def)
    then show "edge g v u" using mem src by (auto simp: reversed_arc_def edge_def)
  next
    assume e: "edge g v u"
    then obtain p where p: "v < length g" "p < length (g ! v)" "dest (g ! v ! p) = u"
      by (auto simp: edge_def in_set_conv_nth)
    have u: "u < length g" using e ok by (auto simp: edge_def graph_ok_def)
    have "reversed_arc fwd (v, p, g ! v ! p) \<in> set (reverseGraph g fwd ! u)" using mem [OF u] p by blast
    moreover have "dest (reversed_arc fwd (v, p, g ! v ! p)) = v" using src p by (simp add: reversed_arc_def)
    ultimately show "edge (reverseGraph g fwd) u v" using u r(1) by (auto simp: edge_def)
  qed
qed

lemma reverseGraph_reach:
  assumes "graph_ok g"
  shows "reach (reverseGraph g fwd) u v \<longleftrightarrow> reach g v u"
proof -
  have "edge (reverseGraph g fwd) = (edge g)\<inverse>\<inverse>"
    by (rule ext)+ (simp add: reverseGraph_edge(2) [OF assms])
  then show ?thesis by (simp add: rtranclp_conversep)
qed

section \<open>Properties\<close>

text \<open>C19: \<open>depthFirstSearch\<close> from an unmarked array marks exactly the states reachable from its start,
  and on the reversed graph exactly the states that reach it; the fuel is enough.\<close>

theorem depthFirstSearch_marks_reachable:
  assumes "graph_ok g" "s < length g" "t < length g"
  shows "(fst (depthFirstSearch g s (replicate (length g) False)) ! t \<longleftrightarrow> (edge g)\<^sup>*\<^sup>* s t) \<and>
    (fst (depthFirstSearch (reverseGraph g fwd) s (replicate (length g) False)) ! t \<longleftrightarrow> (edge g)\<^sup>*\<^sup>* t s)"
proof -
  note r = reverseGraph_edge(1) [OF assms(1), where fwd = fwd] reverseGraph_nth(1) [OF assms(1), where fwd = fwd]
  show ?thesis
    using depthFirstSearch_reach [OF assms] depthFirstSearch_reach [OF r(1), of s t] assms r(2)
    by (simp add: reverseGraph_reach)
qed

definition example_graph :: "(int, unit) Graph" where
  "example_graph =
     [[\<lparr>src = 0, dest = 1, weight = 2, data = Data ()\<rparr>, \<lparr>src = 0, dest = 1, weight = 3, data = Data ()\<rparr>],
      [\<lparr>src = 1, dest = 2, weight = 5, data = Data ()\<rparr>], []]"

lemma example_graph_ok: "graph_ok example_graph" "length example_graph = 3"
  by (auto simp: graph_ok_def example_graph_def less_Suc_eq numeral_3_eq_3)

theorem depthFirstSearch_marks_reachable_witness: "\<not> (edge example_graph)\<^sup>*\<^sup>* 1 0"
  using depthFirstSearch_marks_reachable [OF example_graph_ok(1), of 1 0] example_graph_ok(2)
  by (simp add: depthFirstSearch_def numeral_3_eq_3) (simp add: example_graph_def)

text \<open>C20: \<open>TopoSort\<close> reports no back edge exactly when no cycle can be reached from the start; then its
  list has each state once, contains the start, and puts every state before all its successors.\<close>

theorem TopoSort_spec:
  assumes "graph_ok g" "s < length g"
  shows "let t = topo_order_from g s (topo_new g)
    in (n_back_edges t = 0 \<longleftrightarrow> \<not> (\<exists>u. (edge g)\<^sup>*\<^sup>* s u \<and> (edge g)\<^sup>+\<^sup>+ u u)) \<and>
       (n_back_edges t = 0 \<longrightarrow> s \<in> set (order_ts t) \<and> distinct (order_ts t) \<and> topo_sorted g (order_ts t))"
  using n_back_edges_iff_cycle [OF assms] topo_order_from_spec(1,2) [OF assms]
  by (simp add: Let_def cycle_from_def topo_inv_def)

theorem TopoSort_spec_witness: "\<not> (\<exists>u. (edge example_graph)\<^sup>*\<^sup>* 0 u \<and> (edge example_graph)\<^sup>+\<^sup>+ u u)"
proof -
  have "n_back_edges (topo_order_from example_graph 0 (topo_new example_graph)) = 0"
    unfolding topo_order_from_def example_graph_ok(2) numeral_3_eq_3
    by (simp add: topo_new_def example_graph_def)
  then show ?thesis
    using TopoSort_spec [OF example_graph_ok(1), of 0] example_graph_ok(2) by (simp add: Let_def)
qed

lemma walk_order_topo:
  assumes "graph_ok g" "s < length g" "n_back_edges (topo_order_from g s (topo_new g)) = 0"
  shows "walk_order g (order_ts (topo_order_from g s (topo_new g))) s"
    "length (order_ts (topo_order_from g s (topo_new g))) \<le> length g"
proof -
  let ?t = "topo_order_from g s (topo_new g)"
  note sp = topo_order_from_spec [OF assms(1,2)]
  have sub: "set (order_ts ?t) \<subseteq> {..<length g}" and d: "distinct (order_ts ?t)"
    using sp(1) by (auto simp: topo_inv_def)
  show "walk_order g (order_ts ?t) s" using sp assms sub by (simp add: walk_order_def topo_inv_def)
  show "length (order_ts ?t) \<le> length g"
    using card_mono [OF _ sub] distinct_card [OF d] by simp
qed

lemma propagate_paths_walks:
  fixes getwt :: "('x, 'd) GraphArc \<Rightarrow> 'w::comm_semiring_1"
  assumes ok: "graph_ok g" and s: "s < length g" and nb: "n_back_edges (topo_order_from g s (topo_new g)) = 0"
    and t: "t < length g"
  shows "propagate_paths g getwt ((replicate (length g) 0)[s := c]) s ! t =
    c * (\<Sum>k \<le> length g. walk_sum g getwt k s t)"
proof -
  let ?us = "order_ts (topo_order_from g s (topo_new g))"
  note wo = walk_order_topo [OF ok s nb]
  let ?w = "(replicate (length g) 0)[s := c]"
  have len: "length ?w = length g" by simp
  note sp = propagate_spec [OF walk_orderD(1,2,3,4) [OF wo(1)] len, where getwt = getwt]
  have e: "propagate_paths g getwt ?w s = propagate_paths_in_order g ?us getwt ?w"
    by (simp add: propagate_paths_def reverse_topo_order_from_def)
  show ?thesis unfolding e
    by (rule propagate_walks [OF wo(1,2) _ t]) (use sp in \<open>simp add: nth_list_update\<close>)
qed

text \<open>C21: On a graph without cycles below the start, \<open>propagate_paths\<close> leaves in each state the start's
  weight times the sum, over all walks from the start to the state, of the product of the arc
  weights; \<open>countNoCyclePaths\<close> counts these walks.\<close>

theorem propagate_paths_sums_walks:
  fixes getwt :: "('x, 'd) GraphArc \<Rightarrow> 'w::comm_semiring_1"
  assumes "graph_ok g" "s < length g" "\<not> (\<exists>u. (edge g)\<^sup>*\<^sup>* s u \<and> (edge g)\<^sup>+\<^sup>+ u u)" "t < length g"
  shows "propagate_paths g getwt ((replicate (length g) 0)[s := c]) s ! t =
      c * (\<Sum>k \<le> length g. walk_sum g getwt k s t) \<and>
    fst (countNoCyclePaths g s) ! t = (\<Sum>k \<le> length g. walk_sum g (\<lambda>_. 1 :: 'w) k s t) \<and>
    snd (countNoCyclePaths g s :: 'w list \<times> nat) = 0"
proof -
  have nb: "n_back_edges (topo_order_from g s (topo_new g)) = 0"
    using n_back_edges_iff_cycle [OF assms(1,2)] assms(3) by (simp add: cycle_from_def)
  have c: "fst (countNoCyclePaths g s) = propagate_paths g (\<lambda>_. 1 :: 'w) ((replicate (length g) 0)[s := 1]) s"
    by (simp add: countNoCyclePaths_def propagate_paths_def propagate_paths_in_order_def
        reverse_topo_order_from_def Let_def)
  show ?thesis
    using propagate_paths_walks [OF assms(1,2) nb assms(4), of getwt c]
      propagate_paths_walks [OF assms(1,2) nb assms(4), of "\<lambda>_. 1 :: 'w" 1] nb
    by (simp add: c) (simp add: countNoCyclePaths_def Let_def)
qed

theorem propagate_paths_sums_walks_witness:
  "propagate_paths example_graph weight [1, 0, 0] 0 ! 2 = (\<Sum>k \<le> 3. walk_sum example_graph weight k 0 2)"
proof -
  have "\<not> (\<exists>u. (edge example_graph)\<^sup>*\<^sup>* 0 u \<and> (edge example_graph)\<^sup>+\<^sup>+ u u)"
  proof -
    have "n_back_edges (topo_order_from example_graph 0 (topo_new example_graph)) = 0"
      unfolding topo_order_from_def example_graph_ok(2) numeral_3_eq_3
      by (simp add: topo_new_def example_graph_def)
    then show ?thesis
      using n_back_edges_iff_cycle [OF example_graph_ok(1), of 0] example_graph_ok(2)
      by (simp add: cycle_from_def)
  qed
  from propagate_paths_sums_walks [OF example_graph_ok(1) _ this, of 2 weight 1] example_graph_ok(2)
  show ?thesis by (simp add: numeral_3_eq_3)
qed

lemma removeStates_number_stuck:
  "i < n \<Longrightarrow> (\<exists>j. i \<le> j \<and> j < n \<and> marked ! j) \<Longrightarrow> removeStates_number fuel n marked i f m = None"
proof (induction fuel arbitrary: i f m)
  case (Suc k)
  obtain j where j: "i \<le> j" "j < n" "marked ! j" using Suc.prems by blast
  show ?case
  proof (cases "marked ! i")
    case True
    then show ?thesis using Suc by auto
  next
    case False
    then have "Suc i \<le> j" using j by (metis Suc_leI le_neq_implies_less)
    then show ?thesis using Suc.IH [of "Suc i"] Suc.prems(1) False j by auto
  qed
qed simp

text \<open>C22: \<open>removeStates\<close> does not return when any state is marked: its numbering loop stays at the first
  marked state, whatever the fuel.\<close>

theorem removeStates_diverges:
  assumes "i < length g" "marked ! i"
  shows "removeStates fuel g marked = None"
proof -
  have "removeStates_number fuel (length g) marked 0 0 (replicate (length g) 0) = None"
    by (rule removeStates_number_stuck) (use assms in auto)
  then show ?thesis by (simp add: removeStates_def)
qed

theorem removeStates_diverges_witness: "removeStates 1000 example_graph [False, True, False] = None"
  by (rule removeStates_diverges [of 1]) (simp_all add: example_graph_ok(2))

end
