(* ===== verification/Wfst.thy ===== *)
theory Wfst
  imports FstState Alphabet Graph
begin

text \<open>
  Weighted finite-state transducers: class \<open>WFST\<close> of \<open>carmel/src/fst.h\<close> and its operations in
  \<open>fst.h\<close> and \<open>fst.cc\<close>.  The input and output alphabets are objects that transducers may share:
  \<open>alph\<close> holds their addresses in a heap that is passed explicitly.  State 0 is the start.
\<close>

section \<open>The transducer\<close>

type_synonym alph_heap = "Alphabet option list"

record 'w WFST =
  owner_alph :: "LabelType \<Rightarrow> bool"
  alph :: "LabelType \<Rightarrow> nat option"
  named_states :: bool
  stateNames :: Alphabet
  final :: nat
  states :: "'w State list"
  indexed_by :: LabelType

definition EPSILON_SYMBOL :: string where "EPSILON_SYMBOL = ''*e*''"
definition WILDCARD_SYMBOL :: string where "WILDCARD_SYMBOL = ''*w*''"
definition epsilon_index :: nat where "epsilon_index = 0"
definition wildcard_index :: nat where "wildcard_index = 1"
definition start_normal_index :: nat where "start_normal_index = 2"
definition invalid_state :: nat where "invalid_state = uint_minus1"

abbreviation numStates :: "'w WFST \<Rightarrow> nat" where
  "numStates M \<equiv> length (states M)"

definition initAlphabet :: "LabelType \<Rightarrow> 'w WFST \<times> alph_heap \<Rightarrow> 'w WFST \<times> alph_heap" where
  "initAlphabet dir mh =
     (let (M, h) = mh
      in (M\<lparr>owner_alph := (owner_alph M)(dir := True), alph := (alph M)(dir := Some (length h))\<rparr>,
          h @ [Some (alph_new2 EPSILON_SYMBOL WILDCARD_SYMBOL)]))"

definition wfst_new :: "alph_heap \<Rightarrow> 'w WFST \<times> alph_heap" where
  "wfst_new h =
     initAlphabet kOutput (initAlphabet kInput
       (\<lparr>owner_alph = \<lambda>_. False, alph = \<lambda>_. None, named_states = False, stateNames = alph_empty,
         final = 0, states = [state_new], indexed_by = kNone\<rparr>, h))"

definition deleteAlphabet :: "LabelType \<Rightarrow> 'w WFST \<times> alph_heap \<Rightarrow> 'w WFST \<times> alph_heap" where
  "deleteAlphabet dir mh =
     (let (M, h) = mh;
          h' = (case alph M dir of
                  Some p \<Rightarrow> if owner_alph M dir then h[p := None] else h
                | None \<Rightarrow> h)
      in (M\<lparr>owner_alph := (owner_alph M)(dir := False), alph := (alph M)(dir := None)\<rparr>, h'))"

definition identity_alphabet_from :: "LabelType \<Rightarrow> 'w WFST \<times> alph_heap \<Rightarrow> 'w WFST \<times> alph_heap" where
  "identity_alphabet_from dir mh =
     (let to = opposite dir; (M, h) = deleteAlphabet to mh in (M\<lparr>alph := (alph M)(to := alph M dir)\<rparr>, h))"

definition ownAlphabet :: "LabelType \<Rightarrow> 'w WFST \<times> alph_heap \<Rightarrow> 'w WFST \<times> alph_heap" where
  "ownAlphabet dir mh =
     (let (M, h) = mh
      in case alph M dir of
           None \<Rightarrow> (M, h)
         | Some p \<Rightarrow>
             if owner_alph M dir then (M, h)
             else (M\<lparr>alph := (alph M)(dir := Some (length h)), owner_alph := (owner_alph M)(dir := True)\<rparr>,
                   h @ [map_option alph_copy (h ! p)]))"

definition stealAlphabet ::
  "'w WFST \<Rightarrow> LabelType \<Rightarrow> 'w WFST \<times> alph_heap \<Rightarrow> 'w WFST \<times> 'w WFST \<times> alph_heap" where
  "stealAlphabet src_m dir mh =
     (let (M, h) = mh
      in if owner_alph src_m dir \<and> alph M dir = alph src_m dir
         then (src_m\<lparr>owner_alph := (owner_alph src_m)(dir := False)\<rparr>,
               M\<lparr>owner_alph := (owner_alph M)(dir := True)\<rparr>, h)
         else (src_m, ownAlphabet dir mh))"

definition unNameStates :: "'w WFST \<Rightarrow> 'w WFST" where
  "unNameStates M = (if named_states M then M\<lparr>named_states := False, stateNames := alph_empty\<rparr> else M)"

definition wfst_clear :: "'w WFST \<times> alph_heap \<Rightarrow> 'w WFST \<times> alph_heap" where
  "wfst_clear mh =
     (let (M, h) = mh; M = unNameStates (M\<lparr>final := invalid_state\<rparr>)
      in deleteAlphabet kOutput (deleteAlphabet kInput (M\<lparr>states := []\<rparr>, h)))"

definition valid :: "'w WFST \<Rightarrow> bool" where
  "valid M \<longleftrightarrow> final M \<noteq> invalid_state"

definition wfst_size :: "'w WFST \<Rightarrow> nat" where
  "wfst_size M = (if valid M then numStates M else 0)"

definition numArcs :: "'w WFST \<Rightarrow> nat" where
  "numArcs M = foldl (\<lambda>a s. a + state_size s) 0 (states M)"

definition isFinal :: "'w WFST \<Rightarrow> nat \<Rightarrow> bool" where
  "isFinal M s \<longleftrightarrow> s = final M"

section \<open>Index and projection\<close>

definition wfst_index :: "LabelType \<Rightarrow> 'w WFST \<Rightarrow> 'w WFST" where
  "wfst_index dir M =
     (if indexed_by M \<noteq> dir
      then M\<lparr>indexed_by := dir, states := map (\<lambda>s. indexBy dir (flush s)) (states M)\<rparr>
      else M)"

definition indexInput :: "'w WFST \<Rightarrow> 'w WFST" where
  "indexInput M = wfst_index kInput M"

definition indexOutput :: "'w WFST \<Rightarrow> 'w WFST" where
  "indexOutput M = wfst_index kOutput M"

definition indexFlush :: "'w WFST \<Rightarrow> 'w WFST" where
  "indexFlush M = M\<lparr>indexed_by := kNone, states := map flush (states M)\<rparr>"

definition wfst_project :: "LabelType \<Rightarrow> bool \<Rightarrow> 'w WFST \<times> alph_heap \<Rightarrow> 'w WFST \<times> alph_heap" where
  "wfst_project dir identity_fsa mh =
     (let (M, h) = (if identity_fsa then identity_alphabet_from dir mh else mh)
      in (M\<lparr>states := map (state_project dir identity_fsa) (states M)\<rparr>, h))"

text \<open>\<open>invert\<close> exchanges the contents of the two alphabet objects, not the pointers to them.\<close>

definition swap_alphabets :: "nat option \<Rightarrow> nat option \<Rightarrow> alph_heap \<Rightarrow> alph_heap" where
  "swap_alphabets p1 p2 h =
     (case (p1, p2) of (Some i, Some q) \<Rightarrow> h[i := h ! q, q := h ! i] | _ \<Rightarrow> h)"

definition invert_arc :: "'w FSTArc \<Rightarrow> 'w FSTArc" where
  "invert_arc a = a\<lparr>arc_in := arc_out a, arc_out := arc_in a\<rparr>"

definition invert :: "'w WFST \<times> alph_heap \<Rightarrow> 'w WFST \<times> alph_heap" where
  "invert mh =
     (let (M, h) = mh
      in (M\<lparr>states := map (\<lambda>s. flush (s\<lparr>arcs := map invert_arc (arcs s)\<rparr>)) (states M)\<rparr>,
          swap_alphabets (alph M kInput) (alph M kOutput) h))"

definition letter :: "'w WFST \<Rightarrow> alph_heap \<Rightarrow> nat \<Rightarrow> LabelType \<Rightarrow> string option" where
  "letter M h i dir =
     (case alph M dir of None \<Rightarrow> None | Some p \<Rightarrow> map_option (\<lambda>a. names a ! i) (h ! p))"

section \<open>Adding states, whole-transducer operations\<close>

definition add_state :: "string \<Rightarrow> string \<Rightarrow> 'w WFST \<Rightarrow> ('w WFST \<times> nat) option" where
  "add_state random name M =
     (let r = numStates M; M1 = M\<lparr>states := states M @ [state_new]\<rparr>
      in if named_states M
         then map_option (\<lambda>(nm, _). (M1\<lparr>stateNames := nm\<rparr>, r)) (add_make_unique random name (stateNames M))
         else Some (M1, r))"

definition ensure_final_sink :: "string \<Rightarrow> ('w::one) WFST \<Rightarrow> 'w WFST option" where
  "ensure_final_sink random M =
     (if state_size (states M ! final M) = 0 then Some M
      else map_option (\<lambda>(M1, f).
             M1\<lparr>final := f,
                states := (states M1)[final M := addArc (mk_arc epsilon_index epsilon_index f 1) (states M1 ! final M)]\<rparr>)
           (add_state random ''FINAL_SINK'' M))"

definition wfst_raisePower :: "('w \<Rightarrow> 'w) \<Rightarrow> bool \<Rightarrow> 'w WFST \<Rightarrow> 'w WFST" where
  "wfst_raisePower pow exponent_is_1 M =
     (if exponent_is_1 then M else M\<lparr>states := map (raisePower pow) (states M)\<rparr>)"

definition pruneArcs :: "('w::linorder) \<Rightarrow> 'w WFST \<Rightarrow> 'w WFST" where
  "pruneArcs thresh M = M\<lparr>states := map (state_prune thresh) (states M)\<rparr>"

definition consolidateArcs :: "bool \<Rightarrow> bool \<Rightarrow> ('w::linordered_field) WFST \<Rightarrow> 'w WFST" where
  "consolidateArcs dosum clamp M = M\<lparr>states := map (state_reduce dosum clamp) (states M)\<rparr>"

definition map_arcs :: "('w FSTArc \<Rightarrow> 'w FSTArc) \<Rightarrow> 'w WFST \<Rightarrow> 'w WFST" where
  "map_arcs f M = M\<lparr>states := map (\<lambda>s. s\<lparr>arcs := map f (arcs s)\<rparr>) (states M)\<rparr>"

definition unTieGroups :: "'w WFST \<Rightarrow> 'w WFST" where
  "unTieGroups M = map_arcs (\<lambda>a. a\<lparr>groupId := no_group\<rparr>) M"

definition clear_groups :: "'w WFST \<Rightarrow> 'w WFST" where
  "clear_groups M = map_arcs clear_group M"

definition lockArcs :: "'w WFST \<Rightarrow> 'w WFST" where
  "lockArcs M = map_arcs (\<lambda>a. a\<lparr>groupId := 0\<rparr>) M"

text \<open>\<open>visit_arcs\<close> of the transducer: every state in order, every arc front to back.\<close>

definition wfst_visit_arcs ::
  "(nat \<Rightarrow> 'w FSTArc \<Rightarrow> 's \<Rightarrow> 'w FSTArc \<times> 's) \<Rightarrow> 'w WFST \<Rightarrow> 's \<Rightarrow> 'w WFST \<times> 's" where
  "wfst_visit_arcs v M acc =
     (let (ss, acc') = foldl (\<lambda>(ss, x) (i, s). let (s', x') = visit_arcs v i s x in (ss @ [s'], x'))
          ([], acc) (enumerate 0 (states M))
      in (M\<lparr>states := ss\<rparr>, acc'))"

definition numberArcsFrom :: "nat \<Rightarrow> 'w WFST \<Rightarrow> 'w WFST \<times> nat" where
  "numberArcsFrom label M = wfst_visit_arcs (\<lambda>i a l. (a\<lparr>groupId := l\<rparr>, l + 1)) M label"

definition changeEachParameter ::
  "('w \<Rightarrow> 'f \<Rightarrow> 'w \<times> 'f) \<Rightarrow> 'f \<Rightarrow> ('w::zero) WFST \<Rightarrow> 'w WFST \<times> 'f" where
  "changeEachParameter f fs M =
     (let (M', tied, fs') = wfst_visit_arcs (modify_parameter_once f) M (ht_new DEFAULTHASHSIZE, fs)
      in (M', fs'))"

definition set_constant_weights :: "'w \<Rightarrow> ('w::zero) WFST \<Rightarrow> 'w WFST" where
  "set_constant_weights w M = fst (changeEachParameter (\<lambda>_ _. (w, ())) () M)"

definition zero_arcs :: "('w::zero) WFST \<Rightarrow> 'w WFST" where
  "zero_arcs M = set_constant_weights 0 M"

definition save_weights :: "'w WFST \<Rightarrow> 'w list \<Rightarrow> 'w list" where
  "save_weights M sv = snd (wfst_visit_arcs (\<lambda>i a sv. (a, sv @ [arc_weight a])) M sv)"

text \<open>The iterator of \<open>restore_weights\<close> is the rest of the saved list.\<close>

definition restore_weights :: "'w list \<Rightarrow> 'w WFST \<Rightarrow> 'w WFST \<times> 'w list" where
  "restore_weights sv M = wfst_visit_arcs (\<lambda>i a sv. (a\<lparr>arc_weight := hd sv\<rparr>, tl sv)) M sv"

text \<open>\<open>assignWeights\<close> erases from the list itself, not through \<open>State::remove\<close>.\<close>

definition source_group_weights :: "('w::zero) WFST \<Rightarrow> (nat, 'w) HashTable" where
  "source_group_weights source =
     fold (\<lambda>s. fold (\<lambda>a t. if isTied (groupId a)
            then ht_update uint_hash 0 (groupId a) (\<lambda>_. arc_weight a) t else t) (arcs s))
       (states source) (ht_new DEFAULTHASHSIZE)"

definition assignWeights :: "('w::zero) WFST \<Rightarrow> 'w WFST \<Rightarrow> 'w WFST" where
  "assignWeights source M =
     (let groupWeight = source_group_weights source
      in M\<lparr>states := map (\<lambda>s0. let s = flush s0
             in s\<lparr>arcs := map (\<lambda>a. if isTied (groupId a)
                    then a\<lparr>arc_weight := the (find_second uint_hash groupWeight (groupId a))\<rparr> else a)
                  (filter (\<lambda>a. isTied (groupId a) \<longrightarrow> find_second uint_hash groupWeight (groupId a) \<noteq> None)
                     (arcs s))\<rparr>) (states M)\<rparr>)"

section \<open>Graphs of a transducer and removing states\<close>

text \<open>\<open>cost\<close> is \<open>getCost\<close>; \<open>data\<close> points back to the arc, here its state and position.\<close>

definition makeGraph :: "('w \<Rightarrow> 'c) \<Rightarrow> 'w WFST \<Rightarrow> ('c, nat \<times> nat) Graph" where
  "makeGraph cost M =
     map (\<lambda>i. fold (\<lambda>(p, l) gs. gs_add \<lparr>src = i, dest = arc_dest l, weight = cost (arc_weight l),
                                      data = Data (i, p)\<rparr> gs)
              (enumerate 0 (arcs (states M ! i))) []) [0..<numStates M]"

definition makeEGraph :: "('w \<Rightarrow> 'c) \<Rightarrow> 'w WFST \<Rightarrow> ('c, nat \<times> nat) Graph" where
  "makeEGraph cost M =
     map (\<lambda>i. fold (\<lambda>(p, l) gs. if arc_in l = 0 \<and> arc_out l = 0
              then gs_add \<lparr>src = i, dest = arc_dest l, weight = cost (arc_weight l), data = Data (i, p)\<rparr> gs
              else gs)
              (enumerate 0 (arcs (states M ! i))) []) [0..<numStates M]"

text \<open>\<open>None\<close>: the state names could not be renumbered (\<open>Alphabet::removeMarked\<close>).\<close>

definition removeMarkedStates :: "bool list \<Rightarrow> 'w WFST \<Rightarrow> 'w WFST option" where
  "removeMarkedStates marked M =
     (let n_pre = numStates M; (oldToNew, n_post) = indices_after_remove_marked marked
      in if n_pre \<noteq> n_post
         then case alph_removeMarked marked oldToNew n_pre (stateNames M) of
                None \<Rightarrow> None
              | Some nm \<Rightarrow>
                  Some (M\<lparr>stateNames := nm,
                          states := map (renumberDestinations oldToNew) (remove_marked_swap (states M) marked),
                          final := (if oldToNew ! final M = uint_minus1 then invalid_state
                                    else oldToNew ! final M)\<rparr>)
         else Some M)"

definition wfst_reduce :: "'w WFST \<times> alph_heap \<Rightarrow> ('w WFST \<times> alph_heap) option" where
  "wfst_reduce mh =
     (let (M, h) = mh
      in if \<not> valid M then Some (wfst_clear mh)
         else
           (let g = makeGraph (\<lambda>_. ()) M; n = numStates M; revG = reverseGraph g True;
                visitedForward = fst (depthFirstSearch g 0 (replicate n False));
                visitedBackward = fst (depthFirstSearch revG (final M) (replicate n False));
                discard = map2 (\<lambda>f b. \<not> (f \<and> b)) visitedForward visitedBackward
            in case removeMarkedStates discard M of
                 None \<Rightarrow> None
               | Some M1 \<Rightarrow>
                   Some (M1\<lparr>states := map (\<lambda>(i, s). remove_epsilons_to i s) (enumerate 0 (states M1))\<rparr>, h)))"

section \<open>Pairs of symbols\<close>

text \<open>\<open>as_pairs_fsa\<close>: the constructor numbers the pairs of input and output symbol, the destructor
  restores them.\<close>

definition as_pairs_start :: "bool \<Rightarrow> (nat \<times> nat, nat) HashTable \<times> (nat \<times> nat) list" where
  "as_pairs_start keep_epsilon =
     ((if keep_epsilon then ht_add iopair_hash (0, 0) 0 (ht_new DEFAULTHASHSIZE) else ht_new DEFAULTHASHSIZE),
      [(0, 0)])"

definition as_pairs_arc ::
  "nat \<Rightarrow> 'w FSTArc \<Rightarrow> (nat \<times> nat, nat) HashTable \<times> (nat \<times> nat) list
    \<Rightarrow> 'w FSTArc \<times> (nat \<times> nat, nat) HashTable \<times> (nat \<times> nat) list" where
  "as_pairs_arc i l st =
     (let (to, syms) = st; s = (arc_in l, arc_out l);
          (to', id, new) = ht_insert iopair_hash s (length syms) to
      in (l\<lparr>arc_in := id, arc_out := id\<rparr>, to', if new then syms @ [s] else syms))"

definition as_pairs_fsa :: "bool \<Rightarrow> 'w WFST \<Rightarrow> 'w WFST \<times> (nat \<times> nat) list" where
  "as_pairs_fsa keep_epsilon M =
     (let (M', to, syms) = wfst_visit_arcs as_pairs_arc M (as_pairs_start keep_epsilon) in (M', syms))"

definition as_pairs_restore :: "(nat \<times> nat) list \<Rightarrow> 'w WFST \<Rightarrow> 'w WFST" where
  "as_pairs_restore syms M =
     map_arcs (\<lambda>l. l\<lparr>arc_in := fst (syms ! arc_in l), arc_out := snd (syms ! arc_in l)\<rparr>) M"

section \<open>OpenFst conversion\<close>

text \<open>The interface used of an \<open>ExpandedFst\<close>: number of states, start, final weights (0 for a state
  that is not final) and each state's arcs as input label, output label, next state and weight.\<close>

definition to_openfst :: "'w WFST \<Rightarrow> (nat \<times> nat \<times> nat \<times> 'w) list list \<times> nat \<times> nat" where
  "to_openfst M =
     (map (\<lambda>s. map (\<lambda>a. (arc_in a, arc_out a, arc_dest a, arc_weight a)) (arcs s)) (states M), 0, final M)"

definition openfst_renumber :: "nat \<Rightarrow> nat \<Rightarrow> nat" where
  "openfst_renumber o_start q = (if q = o_start then 0 else if q < o_start then q + 1 else q)"

definition from_openfst ::
  "nat \<Rightarrow> nat \<Rightarrow> ('w::{zero_neq_one}) list \<Rightarrow> (nat \<times> nat \<times> nat \<times> 'w) list list
    \<Rightarrow> 'w WFST \<times> alph_heap \<Rightarrow> 'w WFST \<times> alph_heap" where
  "from_openfst o_n o_start fin_w o_arcs mh =
     (let (M, h) = mh;
          finals = filter (\<lambda>i. fin_w ! i \<noteq> 0) [0..<o_n]; n_final = length finals
      in if n_final = 0 then wfst_clear mh
         else
           (let max_final = last finals;
                need_extra_final = (n_final > 1 \<or> fin_w ! max_final \<noteq> 1);
                ns = o_n + (if need_extra_final then 1 else 0);
                M = unNameStates M;
                (ss, bi) = fold (\<lambda>q. fold (\<lambda>(i, u, nx, w).
                        arc_adder (openfst_renumber o_start q) (mk_arc i u (openfst_renumber o_start nx) w))
                      (o_arcs ! q)) [0..<o_n] (replicate ns state_new, \<lambda>_. 0)
            in if \<not> need_extra_final then (M\<lparr>states := ss, final := max_final\<rparr>, h)
               else
                 (let f = ns - 1;
                      ss = fold (\<lambda>i ss. if fin_w ! i \<noteq> 0
                             then ss[i := addArc (mk_arc epsilon_index epsilon_index f (fin_w ! i)) (ss ! i)]
                             else ss) [0..<Suc max_final] ss
                  in (M\<lparr>states := ss, final := f\<rparr>, h))))"

section \<open>Visiting arcs\<close>

fun accum :: "('a \<Rightarrow> 's \<Rightarrow> 'b \<times> 's) \<Rightarrow> 'a list \<Rightarrow> 's \<Rightarrow> 'b list \<times> 's" where
  "accum f [] acc = ([], acc)"
| "accum f (x # xs) acc = (let (y, a) = f x acc; (ys, a') = accum f xs a in (y # ys, a'))"

lemma foldl_accum:
  "foldl (\<lambda>(ys, a) x. let (y, a') = f x a in (ys @ [y], a')) (zs, acc) xs =
    (zs @ fst (accum f xs acc), snd (accum f xs acc))"
  by (induction xs arbitrary: zs acc) (auto simp: Let_def split: prod.splits)

lemma visit_arcs_accum:
  "visit_arcs v i s acc = (s\<lparr>arcs := fst (accum (v i) (arcs s) acc)\<rparr>, snd (accum (v i) (arcs s) acc))"
proof -
  have "foldl (\<lambda>(as, x) a. let (a', x') = v i a x in (as @ [a'], x')) ([], acc) (arcs s) =
      ([] @ fst (accum (v i) (arcs s) acc), snd (accum (v i) (arcs s) acc))" by (rule foldl_accum)
  then show ?thesis by (simp add: visit_arcs_def case_prod_unfold Let_def)
qed

definition visit_state :: "(nat \<Rightarrow> 'w FSTArc \<Rightarrow> 's \<Rightarrow> 'w FSTArc \<times> 's) \<Rightarrow> nat \<times> 'w State \<Rightarrow> 's \<Rightarrow> 'w State \<times> 's" where
  "visit_state v x acc = visit_arcs v (fst x) (snd x) acc"

lemma wfst_visit_arcs_accum:
  "wfst_visit_arcs v M acc =
    (M\<lparr>states := fst (accum (visit_state v) (enumerate 0 (states M)) acc)\<rparr>,
     snd (accum (visit_state v) (enumerate 0 (states M)) acc))"
proof -
  have "foldl (\<lambda>(ss, x) (i, s). let (s', x') = visit_arcs v i s x in (ss @ [s'], x')) ([], acc) (enumerate 0 (states M)) =
      ([] @ fst (accum (visit_state v) (enumerate 0 (states M)) acc),
       snd (accum (visit_state v) (enumerate 0 (states M)) acc))"
    using foldl_accum [of "visit_state v" "[]" acc "enumerate 0 (states M)"]
    by (simp add: visit_state_def case_prod_unfold Let_def)
  then show ?thesis by (simp add: wfst_visit_arcs_def case_prod_unfold Let_def)
qed

lemma accum_length [simp]: "length (fst (accum f xs acc)) = length xs"
  by (induction xs arbitrary: acc) (simp_all add: Let_def case_prod_unfold)

text \<open>An invariant of the accumulator and a relation between each element and its image that the later
  steps keep.\<close>

lemma accum_rel:
  assumes "I acc" "\<And>x a y a'. x \<in> set xs \<Longrightarrow> I a \<Longrightarrow> f x a = (y, a') \<Longrightarrow> I a' \<and> G a a' \<and> R x y a'"
    and "\<And>a. G a a" "\<And>a b c. G a b \<Longrightarrow> G b c \<Longrightarrow> G a c" "\<And>x y a a'. R x y a \<Longrightarrow> G a a' \<Longrightarrow> I a' \<Longrightarrow> R x y a'"
  shows "I (snd (accum f xs acc)) \<and> G acc (snd (accum f xs acc)) \<and>
    list_all2 (\<lambda>x y. R x y (snd (accum f xs acc))) xs (fst (accum f xs acc))"
  using assms(1,2)
proof (induction xs arbitrary: acc)
  case Nil
  then show ?case using assms(3) by simp
next
  case (Cons x xs)
  obtain y a where f: "f x acc = (y, a)" by fastforce
  obtain ys a' where r: "accum f xs a = (ys, a')" by fastforce
  have h: "I a" "G acc a" "R x y a" using Cons.prems f by auto
  have IH: "I a'" "G a a'" "list_all2 (\<lambda>x y. R x y a') xs ys"
    using Cons.IH [OF h(1)] Cons.prems(2) r by auto
  then show ?case using h f r assms(4,5) by auto
qed

definition same_states :: "('w FSTArc \<Rightarrow> 'w FSTArc \<Rightarrow> bool) \<Rightarrow> 'w State \<Rightarrow> 'w State \<Rightarrow> bool" where
  "same_states R s s' \<longleftrightarrow> (\<exists>as. s' = s\<lparr>arcs := as\<rparr> \<and> list_all2 R (arcs s) as)"

lemma wfst_visit_rel:
  assumes "I acc" "\<And>i x a y a'. I a \<Longrightarrow> v i x a = (y, a') \<Longrightarrow> I a' \<and> G a a' \<and> R x y a'"
    and G: "\<And>a. G a a" "\<And>a b c. G a b \<Longrightarrow> G b c \<Longrightarrow> G a c" "\<And>x y a a'. R x y a \<Longrightarrow> G a a' \<Longrightarrow> I a' \<Longrightarrow> R x y a'"
    and w: "wfst_visit_arcs v M acc = (M', acc')"
  shows "I acc' \<and> (\<exists>ss. M' = M\<lparr>states := ss\<rparr> \<and> list_all2 (same_states (\<lambda>x y. R x y acc')) (states M) ss)"
proof -
  let ?xs = "enumerate 0 (states M)"
  have "I (snd (accum (visit_state v) ?xs acc)) \<and> G acc (snd (accum (visit_state v) ?xs acc)) \<and>
      list_all2 (\<lambda>x y. same_states (\<lambda>x' y'. R x' y' (snd (accum (visit_state v) ?xs acc))) (snd x) y) ?xs
        (fst (accum (visit_state v) ?xs acc))"
  proof (rule accum_rel [where I = I and G = G and R = "\<lambda>x y a. same_states (\<lambda>x' y'. R x' y' a) (snd x) y"])
    fix x a y a' assume a: "I a" and f: "visit_state v x a = (y, a')"
    have "I (snd (accum (v (fst x)) (arcs (snd x)) a)) \<and> G a (snd (accum (v (fst x)) (arcs (snd x)) a)) \<and>
      list_all2 (\<lambda>x' y'. R x' y' (snd (accum (v (fst x)) (arcs (snd x)) a))) (arcs (snd x))
        (fst (accum (v (fst x)) (arcs (snd x)) a))"
      by (rule accum_rel [where I = I and G = G and R = R, OF a]) (use assms(2) G in blast)+
    then show "I a' \<and> G a a' \<and> same_states (\<lambda>x' y'. R x' y' a') (snd x) y"
      using f by (auto simp: visit_state_def visit_arcs_accum same_states_def)
  next
    fix x y a a' assume "same_states (\<lambda>x' y'. R x' y' a) (snd x) y" "G a a'" "I a'"
    then show "same_states (\<lambda>x' y'. R x' y' a') (snd x) y"
      using G(3) by (auto simp: same_states_def elim!: list_all2_mono)
  qed (use assms(1) G in blast)+
  then have "I acc'" and l: "list_all2 (\<lambda>x y. same_states (\<lambda>x' y'. R x' y' acc') (snd x) y) ?xs
      (fst (accum (visit_state v) ?xs acc))"
    using w by (simp_all add: wfst_visit_arcs_accum)
  from l have "list_all2 (same_states (\<lambda>x' y'. R x' y' acc')) (map snd ?xs) (fst (accum (visit_state v) ?xs acc))"
    unfolding list_all2_map1 .
  then have "list_all2 (same_states (\<lambda>x' y'. R x' y' acc')) (states M) (fst (accum (visit_state v) ?xs acc))"
    by simp
  then show ?thesis using w \<open>I acc'\<close> by (auto simp: wfst_visit_arcs_accum)
qed

lemma same_states_map: "same_states (\<lambda>x y. f y = x) s s' \<Longrightarrow> s'\<lparr>arcs := map f (arcs s')\<rparr> = s"
proof -
  assume "same_states (\<lambda>x y. f y = x) s s'"
  then obtain as where s': "s' = s\<lparr>arcs := as\<rparr>" "list_all2 (\<lambda>x y. f y = x) (arcs s) as"
    by (auto simp: same_states_def)
  then have "map f as = arcs s" by (intro nth_equalityI) (auto simp: list_all2_conv_all_nth)
  then show ?thesis using s'(1) by simp
qed

lemma map_arcs_back:
  "list_all2 (same_states (\<lambda>x y. f y = x)) (states M) ss \<Longrightarrow> map_arcs f (M\<lparr>states := ss\<rparr>) = M"
proof -
  assume l: "list_all2 (same_states (\<lambda>x y. f y = x)) (states M) ss"
  have "map (\<lambda>s. s\<lparr>arcs := map f (arcs s)\<rparr>) ss = states M"
    using l by (intro nth_equalityI) (auto simp: list_all2_conv_all_nth same_states_map)
  then show ?thesis by (simp add: map_arcs_def)
qed

section \<open>as_pairs\<close>

definition pairs_inv :: "(nat \<times> nat, nat) HashTable \<times> (nat \<times> nat) list \<Rightarrow> bool" where
  "pairs_inv st \<longleftrightarrow> ht_inv iopair_hash (fst st) \<and>
     (\<forall>s id. find_second iopair_hash (fst st) s = Some id \<longrightarrow> id < length (snd st) \<and> snd st ! id = s)"

lemma pairs_start_inv: "pairs_inv (as_pairs_start k)"
  using ht_add_props [OF ht_new_empty(1,2), where hf = iopair_hash and k = "(0, 0)" and v = "0::nat"]
  by (auto simp: pairs_inv_def as_pairs_start_def split: if_splits)

lemma as_pairs_arc_step:
  assumes "pairs_inv st" "as_pairs_arc i l st = (l', st')"
  shows "pairs_inv st' \<and> (\<exists>zs. snd st' = snd st @ zs) \<and>
    arc_in l' < length (snd st') \<and> l = l'\<lparr>arc_in := fst (snd st' ! arc_in l'), arc_out := snd (snd st' ! arc_in l')\<rparr>"
proof -
  obtain to syms where st: "st = (to, syms)" by (cases st)
  let ?s = "(arc_in l, arc_out l)"
  obtain to' id new where ins: "ht_insert iopair_hash ?s (length syms) to = (to', id, new)" by (metis surj_pair)
  have inv: "ht_inv iopair_hash to" using assms(1) by (simp add: pairs_inv_def st)
  note c = ht.insert_new_cases [OF inv ins]
  have e: "l' = l\<lparr>arc_in := id, arc_out := id\<rparr>" "st' = (to', if new then syms @ [?s] else syms)"
    using assms(2) ins by (simp_all add: as_pairs_arc_def st)
  have id: "id < length (snd st') \<and> snd st' ! id = ?s"
    using c e assms(1) by (cases "find_second iopair_hash to ?s") (auto simp: pairs_inv_def st)
  have "pairs_inv st'"
    unfolding pairs_inv_def
  proof (intro conjI allI impI)
    show "ht_inv iopair_hash (fst st')" using c(1) e(2) by simp
    fix s j assume f: "find_second iopair_hash (fst st') s = Some j"
    have "j < length (snd st') \<and> snd st' ! j = s"
    proof (cases "s = ?s")
      case True
      then show ?thesis using f c(2) e(2) id by simp
    next
      case False
      then have "find_second iopair_hash to s = Some j" using f c(2) e(2) by simp
      then have "j < length syms \<and> syms ! j = s"
        using assms(1) unfolding pairs_inv_def st fst_conv snd_conv by blast
      then show ?thesis using e(2) by (simp add: nth_append)
    qed
    then show "j < length (snd st')" "snd st' ! j = s" by blast+
  qed
  then show ?thesis using id e st by auto
qed

lemma as_pairs_fsa_restore:
  "as_pairs_restore (snd (as_pairs_fsa k M)) (fst (as_pairs_fsa k M)) = M"
proof -
  obtain M' to syms where w: "wfst_visit_arcs as_pairs_arc M (as_pairs_start k) = (M', to, syms)"
    by (metis surj_pair)
  let ?R = "\<lambda>x y st. arc_in y < length (snd st) \<and>
    y\<lparr>arc_in := fst (snd st ! arc_in y), arc_out := snd (snd st ! arc_in y)\<rparr> = (x :: 'a FSTArc)"
  let ?G = "\<lambda>a b :: (nat \<times> nat, nat) HashTable \<times> (nat \<times> nat) list. \<exists>zs. snd b = snd a @ zs"
  have "pairs_inv (to, syms) \<and>
      (\<exists>ss. M' = M\<lparr>states := ss\<rparr> \<and> list_all2 (same_states (\<lambda>x y. ?R x y (to, syms))) (states M) ss)"
  proof (rule wfst_visit_rel [where I = pairs_inv and G = ?G and R = ?R, OF pairs_start_inv _ _ _ _ w])
    fix i and x :: "'a FSTArc" and a y a'
    assume "pairs_inv a" "as_pairs_arc i x a = (y, a')"
    from as_pairs_arc_step [OF this] show "pairs_inv a' \<and> ?G a a' \<and> ?R x y a'" by simp
  next
    fix x y :: "'a FSTArc" and a a' :: "(nat \<times> nat, nat) HashTable \<times> (nat \<times> nat) list"
    assume "?R x y a" "?G a a'"
    then show "?R x y a'" by (auto simp: nth_append)
  qed auto
  then obtain ss where M': "M' = M\<lparr>states := ss\<rparr>"
    and l: "list_all2 (same_states (\<lambda>x y. ?R x y (to, syms))) (states M) ss" by blast
  have "list_all2 (same_states (\<lambda>x y. y\<lparr>arc_in := fst (syms ! arc_in y), arc_out := snd (syms ! arc_in y)\<rparr> = x))
      (states M) ss"
    using l by (rule list_all2_mono) (auto simp: same_states_def elim!: list_all2_mono)
  then show ?thesis using w M' by (simp add: as_pairs_fsa_def as_pairs_restore_def map_arcs_back)
qed

section \<open>Weights of labelled paths\<close>

definition state_arcs :: "'w WFST \<Rightarrow> nat \<Rightarrow> 'w FSTArc list" where
  "state_arcs M p = (if p < numStates M then arcs (states M ! p) else [])"

text \<open>The summed weight of the accepting paths from \<open>p\<close> whose arcs carry, in order, the given pairs of
  input and output symbol (epsilons included).\<close>

fun seq_weight :: "('w::comm_semiring_1) WFST \<Rightarrow> nat \<Rightarrow> (nat \<times> nat) list \<Rightarrow> 'w" where
  "seq_weight M p [] = (if p = final M then 1 else 0)"
| "seq_weight M p (l # ls) =
     (\<Sum>a\<leftarrow>filter (\<lambda>a. (arc_in a, arc_out a) = l) (state_arcs M p). arc_weight a * seq_weight M (arc_dest a) ls)"

lemma sum_list_group:
  assumes "finite K" "key ` set xs \<subseteq> K"
  shows "(\<Sum>x\<leftarrow>xs. h x) = (\<Sum>k \<in> K. \<Sum>x\<leftarrow>filter (\<lambda>x. key x = k) xs. (h x :: 'w::comm_monoid_add))"
  using assms(2)
proof (induction xs)
  case (Cons x xs)
  have "(\<Sum>k \<in> K. \<Sum>y\<leftarrow>filter (\<lambda>y. key y = k) (x # xs). h y) =
      (\<Sum>k \<in> K. (if key x = k then h x else 0) + (\<Sum>y\<leftarrow>filter (\<lambda>y. key y = k) xs. h y))"
    by (rule sum.cong) auto
  also have "\<dots> = h x + (\<Sum>k \<in> K. \<Sum>y\<leftarrow>filter (\<lambda>y. key y = k) xs. h y)"
    using Cons.prems assms(1) by (simp add: sum.distrib)
  finally show ?case using Cons by simp
qed simp

lemma filter_key_distinct:
  "distinct (map key xs) \<Longrightarrow> x \<in> set xs \<Longrightarrow> filter (\<lambda>y. key y = key x) xs = [x]"
proof (induction xs)
  case (Cons y xs)
  show ?case
  proof (cases "x = y")
    case True
    have "key z \<noteq> key y" if "z \<in> set xs" for z using Cons.prems(1) that by (metis distinct.simps(2) image_eqI list.simps(9) set_map)
    then have "filter (\<lambda>z. key z = key y) xs = []" by (simp add: filter_empty_conv)
    then show ?thesis using True by simp
  next
    case False
    then have "x \<in> set xs" using Cons.prems(2) by simp
    then have "key y \<noteq> key x" using Cons.prems(1) by auto
    then show ?thesis using Cons \<open>x \<in> set xs\<close> by simp
  qed
qed simp

text \<open>A sum over the arcs of a label that looks only at weights and destinations, grouped by the key the
  arcs are merged on: before \<open>reduce\<close> each group contributes the sum of its weights, after it their
  combination.\<close>

definition label_keys :: "'w FSTArc list \<Rightarrow> nat \<times> nat \<Rightarrow> (nat \<times> nat \<times> nat) set" where
  "label_keys as l = {k \<in> arc_key ` set as. (fst k, fst (snd k)) = l}"

lemma label_sum_grouped:
  fixes xs ys :: "('w::linordered_field) FSTArc list"
  assumes "arc_key ` set xs \<subseteq> arc_key ` set ys"
  shows "(\<Sum>a\<leftarrow>filter (\<lambda>a. (arc_in a, arc_out a) = l) xs. arc_weight a * f (arc_dest a)) =
    (\<Sum>k \<in> label_keys ys l. sum_list (weights_at xs k) * f (snd (snd k)))"
proof -
  let ?lab = "\<lambda>a :: 'w FSTArc. (arc_in a, arc_out a) = l"
  let ?h = "\<lambda>a. arc_weight a * f (arc_dest a)"
  have lab: "?lab a \<longleftrightarrow> (fst (arc_key a), fst (snd (arc_key a))) = l" for a by (simp add: arc_key_def)
  have fin: "finite (label_keys ys l)" by (simp add: label_keys_def)
  have sub: "arc_key ` set (filter ?lab xs) \<subseteq> label_keys ys l" using assms by (auto simp: label_keys_def lab)
  have "(\<Sum>a\<leftarrow>filter (\<lambda>a. arc_key a = k) (filter ?lab xs). ?h a) =
      sum_list (weights_at xs k) * f (snd (snd k))" if k: "k \<in> label_keys ys l" for k
  proof -
    have fl: "filter (\<lambda>a. arc_key a = k) (filter ?lab xs) = filter (\<lambda>a. arc_key a = k) xs"
      using k by (auto simp: label_keys_def lab intro!: filter_cong)
    have dst: "map ?h (filter (\<lambda>a. arc_key a = k) xs) =
        map (\<lambda>a. arc_weight a * f (snd (snd k))) (filter (\<lambda>a. arc_key a = k) xs)"
      by (rule map_cong) (auto simp: arc_key_def)
    have nz: "sum_list (map arc_weight (filter (\<lambda>a. arc_key a = k) xs)) = sum_list (weights_at xs k)"
      unfolding weights_at_def by (induction xs) auto
    show ?thesis unfolding fl dst by (simp add: sum_list_mult_const nz)
  qed
  then have "(\<Sum>k \<in> label_keys ys l. \<Sum>a\<leftarrow>filter (\<lambda>a. arc_key a = k) (filter ?lab xs). ?h a) =
      (\<Sum>k \<in> label_keys ys l. sum_list (weights_at xs k) * f (snd (snd k)))"
    by (rule sum.cong [OF refl])
  then show ?thesis unfolding sum_list_group [OF fin sub, of ?h] .
qed

lemma state_reduce_grouped:
  fixes s :: "('w::linordered_field) State"
  assumes "size_ok s"
  shows "(\<Sum>a\<leftarrow>filter (\<lambda>a. (arc_in a, arc_out a) = l) (arcs (state_reduce ds cl s)). arc_weight a * f (arc_dest a)) =
    (\<Sum>k \<in> label_keys (arcs s) l. combine_all ds cl (weights_at (arcs s) k) * f (snd (snd k)))"
proof -
  let ?A = "arcs s" and ?B = "arcs (state_reduce ds cl s)"
  note r = state_reduce_spec [OF assms, where ds = ds and cl = cl]
  have sub: "arc_key ` set ?B \<subseteq> arc_key ` set ?A" using r(2) by blast
  have "sum_list (weights_at ?B k) = combine_all ds cl (weights_at ?A k)" for k
  proof (cases "k \<in> arc_key ` set ?B")
    case True
    then obtain b where b: "b \<in> set ?B" "arc_key b = k" by blast
    have "filter (\<lambda>a. arc_key a = k \<and> arc_weight a \<noteq> 0) ?B = filter (\<lambda>a. arc_weight a \<noteq> 0) [b]"
      using filter_key_distinct [OF r(1) b(1)] b(2) by (metis filter_filter)
    then show ?thesis using r(3) [OF b(1)] b(2) by (simp add: weights_at_def)
  next
    case False
    then have "weights_at ?B k = []" "weights_at ?A k = []"
      using r(2) by (auto simp: weights_at_def filter_empty_conv)
    then show ?thesis by simp
  qed
  then show ?thesis unfolding label_sum_grouped [OF sub] by simp
qed

text \<open>What the weights of merged arcs become. Nothing is clamped where nothing is merged.\<close>

definition merged_weight :: "bool \<Rightarrow> bool \<Rightarrow> ('w::linordered_field) list \<Rightarrow> 'w" where
  "merged_weight dosum clamp ws =
     (if \<not> dosum then Max (set ws)
      else if clamp \<and> 1 < length ws then min 1 (sum_list ws) else sum_list ws)"

lemma combine_all_merged:
  assumes "ws \<noteq> []" "\<forall>w \<in> set ws. 0 \<le> w"
  shows "combine_all ds cl ws = merged_weight ds cl ws"
proof (cases "ds \<and> cl")
  case True
  have "combine_all True True ws = (if 1 < length ws then min 1 (sum_list ws) else sum_list ws)"
    using assms
  proof (induction ws rule: rev_induct)
    case (snoc d ws)
    show ?case
    proof (cases "ws = []")
      case False
      then have "combine_all True True (ws @ [d]) = min 1 (combine_all True True ws + d)"
        by (simp add: combine_all_append1 combine_arc_weight_def Let_def min_def)
      moreover have "length ws \<noteq> 0" "0 \<le> d" using False snoc.prems by auto
      ultimately show ?thesis using snoc False by (auto simp: min_def)
    qed simp
  qed simp
  then show ?thesis using True by (simp add: merged_weight_def)
next
  case False
  then show ?thesis using assms combine_all_max [of ws cl]
    by (cases ds) (auto simp: merged_weight_def combine_all_sum)
qed

lemma merged_weight_le:
  assumes "\<forall>w \<in> set ws. 0 \<le> w" "ws \<noteq> []"
  shows "0 \<le> merged_weight ds cl ws" "merged_weight ds cl ws \<le> sum_list ws"
    "ds \<Longrightarrow> cl \<Longrightarrow> sum_list ws \<le> 1 \<Longrightarrow> merged_weight ds cl ws = sum_list ws"
proof -
  have s: "0 \<le> sum_list ws" "\<forall>w \<in> set ws. w \<le> sum_list ws"
    using assms(1) by (auto intro: sum_list_nonneg member_le_sum_list)
  have "Max (set ws) \<in> set ws" using assms(2) by simp
  then show "0 \<le> merged_weight ds cl ws" "merged_weight ds cl ws \<le> sum_list ws"
    using s assms by (auto simp: merged_weight_def)
  show "merged_weight ds cl ws = sum_list ws" if "ds" "cl" "sum_list ws \<le> 1"
    using that by (simp add: merged_weight_def)
qed

lemma consolidate_seq_weight:
  assumes "\<forall>s \<in> set (states M). size_ok s"
    and same: "\<And>s k. s \<in> set (states M) \<Longrightarrow> combine_all ds cl (weights_at (arcs s) k) = sum_list (weights_at (arcs s) k)"
  shows "seq_weight (consolidateArcs ds cl M) p ls = seq_weight M p ls"
proof (induction ls arbitrary: p)
  case Nil
  then show ?case by (simp add: consolidateArcs_def)
next
  case (Cons l ls)
  show ?case
  proof (cases "p < numStates M")
    case True
    then have "size_ok (states M ! p)" using assms by simp
    from state_reduce_grouped [OF this, where l = l and ds = ds and cl = cl and f = "\<lambda>q. seq_weight M q ls"]
      label_sum_grouped [OF subset_refl, where l = l and f = "\<lambda>q. seq_weight M q ls" and xs = "arcs (states M ! p)"] same [OF nth_mem [OF True]]
    show ?thesis using True Cons.IH by (simp add: state_arcs_def) (simp add: consolidateArcs_def)
  next
    case False
    then show ?thesis by (simp add: state_arcs_def consolidateArcs_def)
  qed
qed

lemma consolidate_seq_weight_le:
  assumes "\<forall>s \<in> set (states M). size_ok s" "\<forall>s \<in> set (states M). \<forall>a \<in> set (arcs s). 0 \<le> arc_weight a"
  shows "0 \<le> seq_weight (consolidateArcs ds cl M) p ls \<and> seq_weight (consolidateArcs ds cl M) p ls \<le> seq_weight M p ls"
proof (induction ls arbitrary: p)
  case Nil
  then show ?case by (simp add: consolidateArcs_def)
next
  case (Cons l ls)
  let ?M' = "consolidateArcs ds cl M"
  show ?case
  proof (cases "p < numStates M")
    case True
    let ?A = "arcs (states M ! p)"
    have s: "size_ok (states M ! p)" "states M ! p \<in> set (states M)" using assms(1) True by auto
    have nn: "\<forall>w \<in> set (weights_at ?A k). 0 \<le> w" for k using assms(2) s(2) by (auto simp: weights_at_def)
    have c: "0 \<le> combine_all ds cl (weights_at ?A k)" "combine_all ds cl (weights_at ?A k) \<le> sum_list (weights_at ?A k)" for k
      using combine_all_merged [OF _ nn, of k ds cl] merged_weight_le [OF nn, of k ds cl]
      by (cases "weights_at ?A k = []"; simp)+
    have e: "seq_weight ?M' p (l # ls) =
        (\<Sum>k \<in> label_keys ?A l. combine_all ds cl (weights_at ?A k) * seq_weight ?M' (snd (snd k)) ls)"
      using state_reduce_grouped [OF s(1), where l = l and ds = ds and cl = cl and f = "\<lambda>q. seq_weight ?M' q ls"] True
      by (simp add: state_arcs_def) (simp add: consolidateArcs_def)
    have o: "seq_weight M p (l # ls) =
        (\<Sum>k \<in> label_keys ?A l. sum_list (weights_at ?A k) * seq_weight M (snd (snd k)) ls)"
      using label_sum_grouped [OF subset_refl, where l = l and f = "\<lambda>q. seq_weight M q ls" and xs = ?A] True by (simp add: state_arcs_def)
    have "0 \<le> (\<Sum>k \<in> label_keys ?A l. combine_all ds cl (weights_at ?A k) * seq_weight ?M' (snd (snd k)) ls)"
      using c(1) Cons.IH by (intro sum_nonneg mult_nonneg_nonneg) auto
    moreover have "(\<Sum>k \<in> label_keys ?A l. combine_all ds cl (weights_at ?A k) * seq_weight ?M' (snd (snd k)) ls) \<le>
        (\<Sum>k \<in> label_keys ?A l. sum_list (weights_at ?A k) * seq_weight M (snd (snd k)) ls)"
      using c Cons.IH by (intro sum_mono mult_mono) (auto intro: order_trans [OF c(1) c(2)])
    ultimately show ?thesis unfolding e o by blast
  next
    case False
    then show ?thesis by (simp add: state_arcs_def consolidateArcs_def)
  qed
qed

section \<open>Removing states\<close>

definition wfst_ok :: "'w WFST \<Rightarrow> bool" where
  "wfst_ok M \<longleftrightarrow> (\<forall>s \<in> set (states M). size_ok s \<and> (\<forall>a \<in> set (arcs s). arc_dest a < numStates M)) \<and>
     final M < numStates M \<and> numStates M < uint_minus1 \<and>
     alph_ok (stateNames M) \<and> no_holes (stateNames M) \<and>
     length (names (stateNames M)) = (if named_states M then numStates M else 0)"

definition arc_step :: "'w WFST \<Rightarrow> nat \<Rightarrow> nat \<Rightarrow> bool" where
  "arc_step M p q \<longleftrightarrow> (\<exists>a \<in> set (state_arcs M p). arc_dest a = q)"

lemma fold_gs_add: "fold (\<lambda>x gs. gs_add (h x) gs) xs acc = rev (map h xs) @ acc"
  by (induction xs arbitrary: acc) (auto simp: gs_add_def)

lemma makeGraph_nth:
  "i < numStates M \<Longrightarrow> makeGraph cost M ! i =
    rev (map (\<lambda>(p, l). \<lparr>src = i, dest = arc_dest l, weight = cost (arc_weight l), data = Data (i, p)\<rparr>)
      (enumerate 0 (arcs (states M ! i))))"
  using fold_gs_add [of "\<lambda>(p, l). \<lparr>src = i, dest = arc_dest l, weight = cost (arc_weight l), data = Data (i, p)\<rparr>"
      "enumerate 0 (arcs (states M ! i))" "[]"]
  by (simp add: makeGraph_def case_prod_unfold)

lemma makeGraph_edge:
  "length (makeGraph cost M) = numStates M" "edge (makeGraph cost M) p q \<longleftrightarrow> arc_step M p q"
proof -
  show len: "length (makeGraph cost M) = numStates M" by (simp add: makeGraph_def)
  show "edge (makeGraph cost M) p q \<longleftrightarrow> arc_step M p q"
  proof (cases "p < numStates M")
    case True
    have "dest ` set (makeGraph cost M ! p) = arc_dest ` set (arcs (states M ! p))"
    proof -
      have "map dest (makeGraph cost M ! p) = rev (map (arc_dest \<circ> snd) (enumerate 0 (arcs (states M ! p))))"
        by (simp add: makeGraph_nth [OF True] rev_map case_prod_unfold comp_def)
      also have "\<dots> = rev (map arc_dest (arcs (states M ! p)))" by (metis map_map map_snd_enumerate)
      finally show ?thesis by (metis set_map set_rev)
    qed
    then show ?thesis using True by (auto simp: edge_def len arc_step_def state_arcs_def image_iff set_eq_iff) metis+
  qed (simp add: edge_def len arc_step_def state_arcs_def)
qed

lemma makeGraph_ok: "wfst_ok M \<Longrightarrow> graph_ok (makeGraph cost M)"
  unfolding graph_ok_def makeGraph_edge(1)
proof (intro allI impI ballI)
  fix i a assume M: "wfst_ok M" and i: "i < numStates M" and a: "a \<in> set (makeGraph cost M ! i)"
  then obtain p where p: "p < length (arcs (states M ! i))" "src a = i"
    "dest a = arc_dest (arcs (states M ! i) ! p)"
    by (auto simp: makeGraph_nth in_set_enumerate_eq)
  have "states M ! i \<in> set (states M)" "arcs (states M ! i) ! p \<in> set (arcs (states M ! i))"
    using i p(1) by simp_all
  then show "src a = i \<and> dest a < numStates M" using M p(2,3) unfolding wfst_ok_def by metis
qed

lemma iarm_loop_removed:
  "iarm_loop marked f = (o', f') \<Longrightarrow> f + length marked < uint_minus1 \<Longrightarrow> i < length marked \<Longrightarrow>
    o' ! i = REMOVED \<longleftrightarrow> marked ! i"
proof (induction marked arbitrary: f o' f' i)
  case (Cons m ms)
  obtain o1 f1 where r: "iarm_loop ms (if m then f else Suc f) = (o1, f1)" by fastforce
  have "o' = (if m then REMOVED else f) # o1" using Cons.prems(1) r by (auto split: if_splits)
  then show ?case using Cons.IH [OF r] Cons.prems by (cases i) (auto split: if_splits)
qed simp

lemma iarm_loop_none:
  "iarm_loop marked f = (o', f') \<Longrightarrow> f' = f + length marked \<Longrightarrow> i < length marked \<Longrightarrow>
    o' ! i = f + i \<and> \<not> marked ! i"
proof (induction marked arbitrary: f o' f' i)
  case (Cons m ms)
  obtain o1 f1 where r: "iarm_loop ms (if m then f else Suc f) = (o1, f1)" by fastforce
  have le: "f1 \<le> (if m then f else Suc f) + length ms"
  proof -
    have "f1 = (if m then f else Suc f) + length (unmarked (replicate (length ms) ()) ms)"
      using iarm_loop_count [OF _ r, of "replicate (length ms) ()"] by simp
    then show ?thesis using length_unmarked_le [of "replicate (length ms) ()" ms] by simp
  qed
  have m: "\<not> m" using Cons.prems(1,2) r le by (auto split: if_splits)
  then have "f1 = Suc f + length ms" "o' = f # o1" using Cons.prems(1,2) r by auto
  then show ?case using Cons.IH [OF r] m Cons.prems(3) by (cases i) auto
qed simp

definition index_table :: "bool list \<Rightarrow> nat list" where
  "index_table marked = fst (indices_after_remove_marked marked)"

lemma index_table_spec:
  assumes "length v = length marked" "i < length marked"
  shows "length (index_table marked) = length marked"
    "\<not> marked ! i \<Longrightarrow> index_table marked ! i < length (unmarked v marked)"
    "\<not> marked ! i \<Longrightarrow> unmarked v marked ! (index_table marked ! i) = v ! i"
    "length marked < uint_minus1 \<Longrightarrow> index_table marked ! i = REMOVED \<longleftrightarrow> marked ! i"
proof -
  obtain tab n where l: "iarm_loop marked 0 = (tab, n)" by fastforce
  then have t: "index_table marked = tab" by (simp add: index_table_def indices_after_remove_marked_def)
  show "length (index_table marked) = length marked"
    "\<not> marked ! i \<Longrightarrow> index_table marked ! i < length (unmarked v marked)"
    "\<not> marked ! i \<Longrightarrow> unmarked v marked ! (index_table marked ! i) = v ! i"
    "length marked < uint_minus1 \<Longrightarrow> index_table marked ! i = REMOVED \<longleftrightarrow> marked ! i"
    using iarm_loop_count [OF assms(1) l] iarm_loop_nth [OF l assms(2,1)] iarm_loop_removed [OF l _ assms(2)] t
    by auto
qed

lemma index_table_inj:
  assumes "i < length marked" "j < length marked" "\<not> marked ! i" "\<not> marked ! j"
    "index_table marked ! i = index_table marked ! j"
  shows "i = j"
proof -
  let ?v = "[0..<length marked]"
  have len: "length ?v = length marked" by simp
  have "unmarked ?v marked ! (index_table marked ! i) = i"
    using index_table_spec(3) [OF len assms(1) assms(3)] assms(1) by simp
  moreover have "unmarked ?v marked ! (index_table marked ! j) = j"
    using index_table_spec(3) [OF len assms(2) assms(4)] assms(2) by simp
  ultimately show ?thesis using assms(5) by metis
qed

lemma index_table_0: "\<not> marked ! 0 \<Longrightarrow> 0 < length marked \<Longrightarrow> index_table marked ! 0 = 0"
  by (cases marked) (auto simp: index_table_def indices_after_remove_marked_def Let_def split: prod.splits)

lemma removeMarked_nil:
  "names a = [] \<Longrightarrow> alph_ok a \<Longrightarrow> \<exists>a'. alph_removeMarked m t n a = Some a' \<and> a' = a"
  by (simp add: alph_removeMarked_def remove_marked_swap_def)

lemma removeMarkedStates_spec:
  assumes ok: "wfst_ok M" and len: "length marked = numStates M"
  shows "\<exists>M'. removeMarkedStates marked M = Some M' \<and>
    numStates M' = length (unmarked (states M) marked) \<and>
    final M' = (if marked ! final M then invalid_state else index_table marked ! final M) \<and>
    (\<forall>p < numStates M. \<not> marked ! p \<longrightarrow>
      state_arcs M' (index_table marked ! p) =
        map (\<lambda>a. a\<lparr>arc_dest := index_table marked ! arc_dest a\<rparr>)
          (filter (\<lambda>a. \<not> marked ! arc_dest a) (state_arcs M p)) \<and>
      size_ok (states M' ! (index_table marked ! p)))"
proof -
  obtain tab n where l: "iarm_loop marked 0 = (tab, n)" by fastforce
  then have t: "index_table marked = tab" and ia: "indices_after_remove_marked marked = (tab, n)"
    by (simp_all add: index_table_def indices_after_remove_marked_def)
  have lens: "length (states M) = length marked" using len by simp
  note tc = iarm_loop_count [OF lens l]
  have small: "length marked < uint_minus1" using ok len by (simp add: wfst_ok_def)
  have fin: "final M < length marked" using ok len by (simp add: wfst_ok_def)
  have dests: "arc_dest a < length marked" if "p < numStates M" "a \<in> set (arcs (states M ! p))" for p a
    using ok that len by (auto simp: wfst_ok_def)
  note it = index_table_spec [OF lens]
  show ?thesis
  proof (cases "numStates M = n")
    case True
    then have all: "tab ! i = i \<and> \<not> marked ! i" if "i < length marked" for i
      using iarm_loop_none [OF l _ that] len by simp
    have e: "removeMarkedStates marked M = Some M" using ia True by (simp add: removeMarkedStates_def)
    have "state_arcs M p = map (\<lambda>a. a\<lparr>arc_dest := tab ! arc_dest a\<rparr>)
        (filter (\<lambda>a. \<not> marked ! arc_dest a) (state_arcs M p))" if "p < numStates M" for p
    proof -
      have "filter (\<lambda>a. \<not> marked ! arc_dest a) (state_arcs M p) = state_arcs M p"
        using that dests all by (auto simp: state_arcs_def filter_id_conv)
      moreover have "map (\<lambda>a. a\<lparr>arc_dest := tab ! arc_dest a\<rparr>) (state_arcs M p) = state_arcs M p"
        using that dests all by (intro map_idI) (auto simp: state_arcs_def)
      ultimately show ?thesis by simp
    qed
    moreover have "size_ok (states M ! p)" if "p < numStates M" for p using ok that by (simp add: wfst_ok_def)
    ultimately show ?thesis using e True all fin tc t len by auto
  next
    case False
    have "\<exists>nm. alph_removeMarked marked tab (numStates M) (stateNames M) = Some nm"
    proof (cases "named_states M")
      case True
      then have "length (names (stateNames M)) = length marked" using ok len by (simp add: wfst_ok_def)
      from alph_removeMarked_ok [OF _ _ this ia] ok len show ?thesis by (auto simp: wfst_ok_def)
    next
      case False
      then show ?thesis using ok removeMarked_nil by (fastforce simp: wfst_ok_def)
    qed
    then obtain nm where nm: "alph_removeMarked marked tab (numStates M) (stateNames M) = Some nm" ..
    define M' where "M' = M\<lparr>stateNames := nm,
        states := map (renumberDestinations tab) (unmarked (states M) marked),
        final := (if tab ! final M = uint_minus1 then invalid_state else tab ! final M)\<rparr>"
    have e: "removeMarkedStates marked M = Some M'"
      using ia False nm remove_marked_swap_unmarked [OF lens] by (simp add: removeMarkedStates_def M'_def)
    have "state_arcs M' (tab ! p) = map (\<lambda>a. a\<lparr>arc_dest := tab ! arc_dest a\<rparr>)
        (filter (\<lambda>a. \<not> marked ! arc_dest a) (state_arcs M p)) \<and> size_ok (states M' ! (tab ! p))"
      if p: "p < numStates M" "\<not> marked ! p" for p
    proof -
      have i: "tab ! p < length (unmarked (states M) marked)" "unmarked (states M) marked ! (tab ! p) = states M ! p"
        using it(2,3) [of p] p t len by auto
      then have s': "states M' ! (tab ! p) = renumberDestinations tab (states M ! p)" by (simp add: M'_def)
      have "filter (\<lambda>l. tab ! arc_dest l \<noteq> uint_minus1) (arcs (states M ! p)) =
          filter (\<lambda>a. \<not> marked ! arc_dest a) (arcs (states M ! p))"
        using it(4) small dests [OF p(1)] t by (intro filter_cong refl) auto
      moreover have "size_ok (states M ! p)" using ok p(1) by (simp add: wfst_ok_def)
      then have "size_ok (states M' ! (tab ! p))" unfolding s' by (simp add: automata_simps)
      ultimately show ?thesis using i(1) p(1) s'
        by (simp add: state_arcs_def M'_def renumberDestinations_def erase_if_def flush_def Let_def)
    qed
    moreover have "final M' = (if marked ! final M then invalid_state else tab ! final M)"
      using it(4) [OF fin] small t by (simp add: M'_def)
    moreover have "numStates M' = length (unmarked (states M) marked)" by (simp add: M'_def)
    ultimately show ?thesis using e t by blast
  qed
qed

lemma sum_list_filter_zero:
  "(\<And>a. a \<in> set xs \<Longrightarrow> \<not> P a \<Longrightarrow> h a = 0) \<Longrightarrow> (\<Sum>a\<leftarrow>xs. h a) = (\<Sum>a\<leftarrow>filter P xs. (h a :: 'w::comm_monoid_add))"
  by (induction xs) auto

text \<open>Renumbered states with the arcs into removed states dropped give the same weights when nothing is
  accepted from the removed states.\<close>

lemma seq_weight_renumber:
  fixes N M' :: "('w::comm_semiring_1) WFST"
  assumes arcs: "\<And>p. p < numStates N \<Longrightarrow> \<not> marked ! p \<Longrightarrow>
      state_arcs M' (tab ! p) = map (\<lambda>a. a\<lparr>arc_dest := tab ! arc_dest a\<rparr>)
        (filter (\<lambda>a. \<not> marked ! arc_dest a) (state_arcs N p))"
    and dests: "\<And>p a. a \<in> set (state_arcs N p) \<Longrightarrow> arc_dest a < numStates N"
    and useless: "\<And>p a ls. p < numStates N \<Longrightarrow> \<not> marked ! p \<Longrightarrow> a \<in> set (state_arcs N p) \<Longrightarrow>
      marked ! arc_dest a \<Longrightarrow> seq_weight N (arc_dest a) ls = 0"
    and fin: "\<And>p. p < numStates N \<Longrightarrow> \<not> marked ! p \<Longrightarrow> tab ! p = final M' \<longleftrightarrow> p = final N"
    and p: "p < numStates N" "\<not> marked ! p"
  shows "seq_weight M' (tab ! p) ls = seq_weight N p ls"
  using p
proof (induction ls arbitrary: p)
  case Nil
  then show ?case using fin by simp
next
  case (Cons l ls)
  let ?L = "\<lambda>a :: 'w FSTArc. (arc_in a, arc_out a) = l"
  let ?h = "\<lambda>a. arc_weight a * seq_weight N (arc_dest a) ls"
  have "seq_weight M' (tab ! p) (l # ls) =
      (\<Sum>a\<leftarrow>filter ?L (filter (\<lambda>a. \<not> marked ! arc_dest a) (state_arcs N p)).
         arc_weight a * seq_weight M' (tab ! arc_dest a) ls)"
    by (simp add: arcs [OF Cons.prems] filter_map comp_def)
  also have "\<dots> = (\<Sum>a\<leftarrow>filter ?L (filter (\<lambda>a. \<not> marked ! arc_dest a) (state_arcs N p)). ?h a)"
    using Cons.IH dests by (intro arg_cong [where f = sum_list] map_cong refl) auto
  also have "\<dots> = (\<Sum>a\<leftarrow>filter (\<lambda>a. \<not> marked ! arc_dest a) (filter ?L (state_arcs N p)). ?h a)"
    by (simp add: conj_commute)
  also have "\<dots> = (\<Sum>a\<leftarrow>filter ?L (state_arcs N p). ?h a)"
    by (rule sum_list_filter_zero [symmetric]) (use useless [OF Cons.prems] in auto)
  finally show ?case by simp
qed

lemma seq_weight_reaches:
  "seq_weight M p ls \<noteq> 0 \<Longrightarrow> (arc_step M)\<^sup>*\<^sup>* p (final M)"
proof (induction ls arbitrary: p)
  case Nil
  then show ?case by (simp split: if_splits)
next
  case (Cons l ls)
  obtain a where a: "a \<in> set (state_arcs M p)" "seq_weight M (arc_dest a) ls \<noteq> 0"
  proof (rule ccontr)
    assume "\<not> thesis"
    then have "\<forall>a \<in> set (state_arcs M p). seq_weight M (arc_dest a) ls = 0" using that by blast
    then have "seq_weight M p (l # ls) = (\<Sum>a\<leftarrow>filter (\<lambda>a. (arc_in a, arc_out a) = l) (state_arcs M p). 0)"
      unfolding seq_weight.simps by (intro arg_cong [where f = sum_list] map_cong refl) auto
    then show False using Cons.prems by simp
  qed
  then show ?case using Cons.IH [OF a(2)] by (meson converse_rtranclp_into_rtranclp arc_step_def)
qed

lemma unmarked_upt: "unmarked [0..<length marked] marked = filter (\<lambda>i. \<not> marked ! i) [0..<length marked]"
proof -
  have "zip [0..<length marked] marked = map (\<lambda>i. (i, marked ! i)) [0..<length marked]"
    by (rule nth_equalityI) simp_all
  then show ?thesis by (simp add: unmarked_def filter_map comp_def)
qed

lemma index_table_onto:
  assumes "q < length (unmarked [0..<length marked] marked)"
  obtains i where "i < length marked" "\<not> marked ! i" "index_table marked ! i = q"
proof -
  let ?v = "[0..<length marked]"
  have len: "length ?v = length marked" by simp
  define i where "i = unmarked ?v marked ! q"
  have "i \<in> set (unmarked ?v marked)" using assms by (simp add: i_def)
  then have i: "i < length marked" "\<not> marked ! i" by (simp_all add: unmarked_upt)
  have "unmarked ?v marked ! (index_table marked ! i) = unmarked ?v marked ! q"
    using index_table_spec(3) [OF len i] i(1) by (simp add: i_def)
  moreover have "distinct (unmarked ?v marked)" by (simp add: unmarked_upt)
  ultimately have "index_table marked ! i = q"
    using assms index_table_spec(2) [OF len i] by (simp add: nth_eq_iff_index_eq)
  then show ?thesis using i that by blast
qed

lemma length_unmarked_any:
  assumes "length v = length m" "length w = length m"
  shows "length (unmarked v m) = length (unmarked w m)"
proof -
  have "length (unmarked v m) = length (filter (\<lambda>x. \<not> x) m)" if "length v = length m" for v :: "'c list"
    using that by (induction v m rule: list_induct2) (simp_all add: unmarked_def)
  moreover have "length (unmarked w m) = length (filter (\<lambda>x. \<not> x) m)" if "length w = length m" for w :: "'d list"
    using that by (induction w m rule: list_induct2) (simp_all add: unmarked_def)
  ultimately show ?thesis
    by (metis assms length_filter_map length_map)
qed

definition epsilon_loop :: "nat \<Rightarrow> 'w FSTArc \<Rightarrow> bool" where
  "epsilon_loop i a \<longleftrightarrow> arc_in a = 0 \<and> arc_out a = 0 \<and> arc_dest a = i"

text \<open>The transducer without its epsilon self-loops, before any renumbering.\<close>

definition without_loops :: "'w WFST \<Rightarrow> 'w WFST" where
  "without_loops M = M\<lparr>states := map (\<lambda>(i, s). remove_epsilons_to i s) (enumerate 0 (states M))\<rparr>"

lemma without_loops_simps:
  "numStates (without_loops M) = numStates M" "final (without_loops M) = final M"
  "state_arcs (without_loops M) p = filter (\<lambda>a. \<not> epsilon_loop p a) (state_arcs M p)"
  by (auto simp: without_loops_def state_arcs_def nth_enumerate_eq remove_epsilons_to_def erase_if_def
      flush_def epsilon_loop_def intro!: filter_cong)

lemma without_loops_steps: "arc_step (without_loops M) p q \<Longrightarrow> arc_step M p q"
  by (auto simp: arc_step_def without_loops_simps)

lemma without_loops_useless:
  assumes "\<not> (arc_step M)\<^sup>*\<^sup>* p (final M)"
  shows "seq_weight (without_loops M) p ls = 0"
proof (rule ccontr)
  assume "seq_weight (without_loops M) p ls \<noteq> 0"
  then have "(arc_step (without_loops M))\<^sup>*\<^sup>* p (final M)"
    using seq_weight_reaches by (metis without_loops_simps(2))
  then have "(arc_step M)\<^sup>*\<^sup>* p (final M)" by (rule mono_rtranclp [THEN mp, rotated]) (simp add: without_loops_steps)
  then show False using assms by simp
qed

text \<open>The marks \<open>reduce\<close> computes: states not on a path from the start to the final state.\<close>

definition reduce_marks :: "'w WFST \<Rightarrow> bool list" where
  "reduce_marks M =
     (let g = makeGraph (\<lambda>_. ()) M; n = numStates M
      in map2 (\<lambda>f b. \<not> (f \<and> b)) (fst (depthFirstSearch g 0 (replicate n False)))
           (fst (depthFirstSearch (reverseGraph g True) (final M) (replicate n False))))"

lemma depthFirstSearch_length:
  assumes "graph_ok g" "s < length g"
  shows "length (fst (depthFirstSearch g s (replicate (length g) False))) = length g"
proof -
  let ?v = "replicate (length g) False"
  have "unset ?v < Suc (length g)" by (simp add: unset_def le_imp_less_Suc)
  then have "dfs_grows ?v (fst (depthFirstSearch g s ?v))"
    using dfs_rec_spec [OF assms(1), of ?v s "Suc (length g)" DFS_NO_PREDECESSOR "[]"] assms(2)
    by (simp add: depthFirstSearch_def del: dfsRec.simps)
  then show ?thesis by (simp add: dfs_grows_def)
qed

lemma reduce_marks_spec:
  assumes "wfst_ok M"
  shows "length (reduce_marks M) = numStates M"
    "p < numStates M \<Longrightarrow> \<not> reduce_marks M ! p \<longleftrightarrow> (arc_step M)\<^sup>*\<^sup>* 0 p \<and> (arc_step M)\<^sup>*\<^sup>* p (final M)"
proof -
  let ?g = "makeGraph (\<lambda>_. ()) M"
  have ok: "graph_ok ?g" "length ?g = numStates M" "edge ?g = arc_step M"
    by (simp_all add: makeGraph_ok [OF assms] makeGraph_edge fun_eq_iff)
  have rg: "graph_ok (reverseGraph ?g True)" "length (reverseGraph ?g True) = numStates M"
    using reverseGraph_edge(1) [OF ok(1)] reverseGraph_nth(1) [OF ok(1)] ok(2) by auto
  have fin: "final M < numStates M" "0 < numStates M" using assms by (auto simp: wfst_ok_def)
  have len: "length (fst (depthFirstSearch g s (replicate (length g) False))) = length g"
    if "graph_ok g" "s < length g" for g :: "(unit, nat \<times> nat) Graph" and s
    by (rule depthFirstSearch_length [OF that])
  have l: "length (fst (depthFirstSearch ?g 0 (replicate (numStates M) False))) = numStates M"
      "length (fst (depthFirstSearch (reverseGraph ?g True) (final M) (replicate (numStates M) False))) = numStates M"
    using len [OF ok(1)] len [OF rg(1)] ok(2) rg(2) fin by simp_all
  then show "length (reduce_marks M) = numStates M" by (simp add: reduce_marks_def Let_def)
  assume p: "p < numStates M"
  have "fst (depthFirstSearch ?g 0 (replicate (numStates M) False)) ! p \<longleftrightarrow> (arc_step M)\<^sup>*\<^sup>* 0 p"
    using depthFirstSearch_reach [OF ok(1), of 0 p] ok(2,3) p fin by simp
  moreover have "fst (depthFirstSearch (reverseGraph ?g True) (final M) (replicate (numStates M) False)) ! p
      \<longleftrightarrow> (arc_step M)\<^sup>*\<^sup>* p (final M)"
    using depthFirstSearch_reach [OF rg(1), of "final M" p] reverseGraph_reach [OF ok(1)] ok(3) rg(2) p fin by simp
  ultimately show "\<not> reduce_marks M ! p \<longleftrightarrow> (arc_step M)\<^sup>*\<^sup>* 0 p \<and> (arc_step M)\<^sup>*\<^sup>* p (final M)"
    using p l by (simp add: reduce_marks_def Let_def)
qed

lemma wfst_reduce_eq:
  assumes "valid M"
  shows "wfst_reduce (M, h) = map_option (\<lambda>M1. (without_loops M1, h)) (removeMarkedStates (reduce_marks M) M)"
  using assms by (simp add: wfst_reduce_def reduce_marks_def without_loops_def Let_def split: option.split)

text \<open>One kept state after \<open>removeMarkedStates\<close> and the removal of epsilon loops.\<close>

lemma kept_state_arcs:
  assumes dests: "\<And>a. a \<in> set (state_arcs M p) \<Longrightarrow> arc_dest a < length marked"
    and p: "p < length marked" "\<not> marked ! p"
    and eq: "state_arcs M1 (index_table marked ! p) = map (\<lambda>a. a\<lparr>arc_dest := index_table marked ! arc_dest a\<rparr>)
      (filter (\<lambda>a. \<not> marked ! arc_dest a) (state_arcs M p))"
  shows "state_arcs (without_loops M1) (index_table marked ! p) =
    map (\<lambda>a. a\<lparr>arc_dest := index_table marked ! arc_dest a\<rparr>)
      (filter (\<lambda>a. \<not> marked ! arc_dest a) (state_arcs (without_loops M) p))"
proof -
  let ?t = "index_table marked"
  have "epsilon_loop (?t ! p) (a\<lparr>arc_dest := ?t ! arc_dest a\<rparr>) \<longleftrightarrow> epsilon_loop p a"
    if "a \<in> set (state_arcs M p)" "\<not> marked ! arc_dest a" for a
    using index_table_inj [OF dests [OF that(1)] p(1) that(2) p(2)] by (auto simp: epsilon_loop_def)
  then show ?thesis
    unfolding without_loops_simps eq filter_map comp_def filter_filter
    by (intro arg_cong [where f = "map _"] filter_cong refl) auto
qed

lemma reduce_result:
  fixes M :: "('w::comm_semiring_1) WFST"
  assumes ok: "wfst_ok M"
  obtains M' where "wfst_reduce (M, h) = Some (M', h)"
    "numStates M' = length (unmarked (states M) (reduce_marks M))"
    "final M' = (if reduce_marks M ! final M then invalid_state else index_table (reduce_marks M) ! final M)"
    "\<And>p. p < numStates M \<Longrightarrow> \<not> reduce_marks M ! p \<Longrightarrow>
      state_arcs M' (index_table (reduce_marks M) ! p) =
        map (\<lambda>a. a\<lparr>arc_dest := index_table (reduce_marks M) ! arc_dest a\<rparr>)
          (filter (\<lambda>a. \<not> reduce_marks M ! arc_dest a) (state_arcs (without_loops M) p))"
proof -
  let ?m = "reduce_marks M" and ?t = "index_table (reduce_marks M)"
  note mk = reduce_marks_spec [OF ok]
  obtain M1 where M1: "removeMarkedStates ?m M = Some M1" "numStates M1 = length (unmarked (states M) ?m)"
    "final M1 = (if ?m ! final M then invalid_state else ?t ! final M)"
    "\<And>p. p < numStates M \<Longrightarrow> \<not> ?m ! p \<Longrightarrow> state_arcs M1 (?t ! p) =
        map (\<lambda>a. a\<lparr>arc_dest := ?t ! arc_dest a\<rparr>) (filter (\<lambda>a. \<not> ?m ! arc_dest a) (state_arcs M p))"
    using removeMarkedStates_spec [OF ok mk(1)] by blast
  have v: "valid M" using ok by (auto simp: valid_def wfst_ok_def invalid_state_def)
  show ?thesis
  proof (rule that)
    show "wfst_reduce (M, h) = Some (without_loops M1, h)" using wfst_reduce_eq [OF v] M1(1) by simp
    fix p assume p: "p < numStates M" "\<not> ?m ! p"
    have d: "arc_dest a < length ?m" if "a \<in> set (state_arcs M p)" for a
      using that ok mk(1) p(1) by (auto simp: state_arcs_def wfst_ok_def)
    show "state_arcs (without_loops M1) (?t ! p) = map (\<lambda>a. a\<lparr>arc_dest := ?t ! arc_dest a\<rparr>)
        (filter (\<lambda>a. \<not> ?m ! arc_dest a) (state_arcs (without_loops M) p))"
      by (rule kept_state_arcs [OF d _ p(2) M1(4) [OF p]]) (use p(1) mk(1) in auto)
  qed (simp_all add: without_loops_simps M1)
qed

lemma reduce_steps:
  assumes ok: "wfst_ok M" and arcs: "\<And>p. p < numStates M \<Longrightarrow> \<not> reduce_marks M ! p \<Longrightarrow>
      state_arcs M' (index_table (reduce_marks M) ! p) =
        map (\<lambda>a. a\<lparr>arc_dest := index_table (reduce_marks M) ! arc_dest a\<rparr>)
          (filter (\<lambda>a. \<not> reduce_marks M ! arc_dest a) (state_arcs (without_loops M) p))"
    and path: "(arc_step M)\<^sup>*\<^sup>* p q" "(arc_step M)\<^sup>*\<^sup>* 0 p" "(arc_step M)\<^sup>*\<^sup>* q (final M)"
  shows "(arc_step M')\<^sup>*\<^sup>* (index_table (reduce_marks M) ! p) (index_table (reduce_marks M) ! q)"
  using path
proof (induction rule: rtranclp_induct)
  case (step r s)
  let ?t = "index_table (reduce_marks M)"
  have r: "(arc_step M)\<^sup>*\<^sup>* r (final M)" using step.hyps(2) step.prems(2) by (rule converse_rtranclp_into_rtranclp)
  then have IH: "(arc_step M')\<^sup>*\<^sup>* (?t ! p) (?t ! r)" using step.IH step.prems(1) by blast
  obtain a where a: "a \<in> set (state_arcs M r)" "arc_dest a = s" using step.hyps(2) by (auto simp: arc_step_def)
  then have lt: "r < numStates M" "s < numStates M"
    using ok by (auto simp: state_arcs_def wfst_ok_def split: if_splits)
  have um: "\<not> reduce_marks M ! r" "\<not> reduce_marks M ! s"
    using reduce_marks_spec(2) [OF ok] lt step r by (metis rtranclp.rtrancl_into_rtrancl rtranclp_trans)+
  show ?case
  proof (cases "epsilon_loop r a")
    case True
    then show ?thesis using IH a(2) by (simp add: epsilon_loop_def)
  next
    case False
    then have "a \<in> set (state_arcs (without_loops M) r)" using a(1) by (simp add: without_loops_simps)
    then have "arc_step M' (?t ! r) (?t ! s)"
      using a(2) um arcs [OF lt(1) um(1)] by (force simp: arc_step_def)
    then show ?thesis using IH by simp
  qed
qed simp

lemma reduce_unreachable:
  assumes ok: "wfst_ok M" and un: "\<not> (arc_step M)\<^sup>*\<^sup>* 0 (final M)"
    and n: "numStates M' = length (unmarked (states M) (reduce_marks M))"
    and f: "final M' = (if reduce_marks M ! final M then invalid_state else q)"
  shows "numStates M' = 0 \<and> final M' = invalid_state"
proof -
  note mk = reduce_marks_spec [OF ok]
  have fin: "final M < numStates M" using ok by (simp add: wfst_ok_def)
  have all: "reduce_marks M ! p" if "p < numStates M" for p using mk(2) [OF that] un by (meson rtranclp_trans)
  have "reduce_marks M = replicate (numStates M) True" using mk(1) all by (auto intro: nth_equalityI)
  moreover have "unmarked v (replicate (length v) True) = []" for v :: "'a State list"
    by (induction v) (auto simp: unmarked_def)
  ultimately have "numStates M' = 0" using n by simp
  then show ?thesis using f all [OF fin] by simp
qed

text \<open>The states \<open>reduce\<close> is to keep: those on a path from the start to the final state. The index table
  numbers exactly these, each once, from 0 to the new number of states.\<close>

definition useful_state :: "'w WFST \<Rightarrow> nat \<Rightarrow> bool" where
  "useful_state M p \<longleftrightarrow> p < numStates M \<and> (arc_step M)\<^sup>*\<^sup>* 0 p \<and> (arc_step M)\<^sup>*\<^sup>* p (final M)"

lemma useful_marks: "wfst_ok M \<Longrightarrow> useful_state M p \<longleftrightarrow> p < numStates M \<and> \<not> reduce_marks M ! p"
  using reduce_marks_spec(2) by (auto simp: useful_state_def)

lemma reduce_numbers_useful:
  assumes ok: "wfst_ok M" and n: "numStates M' = length (unmarked (states M) (reduce_marks M))"
  shows "bij_betw (nth (index_table (reduce_marks M))) {p. useful_state M p} {..<numStates M'}"
proof (rule bij_betwI')
  let ?m = "reduce_marks M" and ?t = "index_table (reduce_marks M)"
  note um = useful_marks [OF ok] and len = reduce_marks_spec(1) [OF ok]
  fix p assume p: "p \<in> {p. useful_state M p}"
  show "?t ! p = ?t ! q \<longleftrightarrow> p = q" if "q \<in> {p. useful_state M p}" for q
    using index_table_inj [of p ?m q] p that um len by auto
  show "?t ! p \<in> {..<numStates M'}" using index_table_spec(2) [of "states M" ?m p] p um len n by simp
next
  let ?m = "reduce_marks M" and ?t = "index_table (reduce_marks M)"
  note um = useful_marks [OF ok] and len = reduce_marks_spec(1) [OF ok]
  fix q assume "q \<in> {..<numStates M'}"
  then have "q < length (unmarked [0..<length ?m] ?m)"
    using length_unmarked_any [of "states M" ?m "[0..<length ?m]"] len n by simp
  then obtain p where "p < length ?m" "\<not> ?m ! p" "?t ! p = q" by (rule index_table_onto)
  then show "\<exists>p \<in> {p. useful_state M p}. q = ?t ! p" using um len by auto
qed

lemma reduce_arcs_useful:
  assumes ok: "wfst_ok M" and p: "useful_state M p"
  shows "filter (\<lambda>a. \<not> reduce_marks M ! arc_dest a) (state_arcs (without_loops M) p) =
    filter (\<lambda>a. useful_state M (arc_dest a)) (state_arcs (without_loops M) p)"
proof (rule filter_cong [OF refl])
  fix a assume "a \<in> set (state_arcs (without_loops M) p)"
  then have "a \<in> set (state_arcs M p)" by (simp add: without_loops_simps)
  then have "arc_dest a < numStates M" using ok p by (auto simp: useful_state_def state_arcs_def wfst_ok_def)
  then show "\<not> reduce_marks M ! arc_dest a \<longleftrightarrow> useful_state M (arc_dest a)" using useful_marks [OF ok] by simp
qed

text \<open>C15: \<open>WFST::reduce\<close> of a well-formed transducer keeps exactly the useful states, those on a path from
  the start to the final state: they are renumbered one to one onto the states of the result, each with its
  own arcs in order, less the epsilon self-loops and the arcs to states that are not kept. So in the result
  every state is on a path from the start to the final state, and every sequence of input and output pairs
  has the weight it had before, up to the epsilon self-loops. When the final state cannot be reached the
  result is empty and not valid.\<close>

theorem WFST_reduce_trims:
  fixes M :: "('w::comm_semiring_1) WFST"
  assumes "wfst_ok M"
  shows "\<exists>M' r. wfst_reduce (M, h) = Some (M', h) \<and>
    bij_betw r {p. useful_state M p} {..<numStates M'} \<and>
    (useful_state M 0 \<longrightarrow> r 0 = 0 \<and> final M' = r (final M)) \<and>
    (\<forall>p. useful_state M p \<longrightarrow> state_arcs M' (r p) =
       map (\<lambda>a. a\<lparr>arc_dest := r (arc_dest a)\<rparr>)
         (filter (\<lambda>a. useful_state M (arc_dest a)) (state_arcs (without_loops M) p))) \<and>
    (\<forall>q < numStates M'. (arc_step M')\<^sup>*\<^sup>* 0 q \<and> (arc_step M')\<^sup>*\<^sup>* q (final M')) \<and>
    (\<forall>ls. seq_weight M' 0 ls = seq_weight (without_loops M) 0 ls) \<and>
    (valid M' \<longleftrightarrow> (arc_step M)\<^sup>*\<^sup>* 0 (final M)) \<and> (\<not> valid M' \<longrightarrow> states M' = [])"
proof -
  let ?m = "reduce_marks M" and ?t = "index_table (reduce_marks M)"
  note mk = reduce_marks_spec [OF assms]
  have fin: "final M < numStates M" "numStates M < uint_minus1" "states M \<noteq> []"
    using assms by (auto simp: wfst_ok_def)
  obtain M' where M': "wfst_reduce (M, h) = Some (M', h)" "numStates M' = length (unmarked (states M) ?m)"
    "final M' = (if ?m ! final M then invalid_state else ?t ! final M)"
    and arcs: "\<And>p. p < numStates M \<Longrightarrow> \<not> ?m ! p \<Longrightarrow> state_arcs M' (?t ! p) =
        map (\<lambda>a. a\<lparr>arc_dest := ?t ! arc_dest a\<rparr>) (filter (\<lambda>a. \<not> ?m ! arc_dest a) (state_arcs (without_loops M) p))"
    by (rule reduce_result [OF assms, of h]) (rule that)
  have bij: "bij_betw (nth ?t) {p. useful_state M p} {..<numStates M'}" by (rule reduce_numbers_useful [OF assms M'(2)])
  have own: "\<forall>p. useful_state M p \<longrightarrow> state_arcs M' (?t ! p) = map (\<lambda>a. a\<lparr>arc_dest := ?t ! arc_dest a\<rparr>)
      (filter (\<lambda>a. useful_state M (arc_dest a)) (state_arcs (without_loops M) p))"
    using arcs reduce_arcs_useful [OF assms] useful_marks [OF assms] by simp
  have "\<exists>M'. wfst_reduce (M, h) = Some (M', h) \<and>
    bij_betw (nth ?t) {p. useful_state M p} {..<numStates M'} \<and>
    (useful_state M 0 \<longrightarrow> ?t ! 0 = 0 \<and> final M' = ?t ! final M) \<and>
    (\<forall>p. useful_state M p \<longrightarrow> state_arcs M' (?t ! p) = map (\<lambda>a. a\<lparr>arc_dest := ?t ! arc_dest a\<rparr>)
      (filter (\<lambda>a. useful_state M (arc_dest a)) (state_arcs (without_loops M) p))) \<and>
    (\<forall>q < numStates M'. (arc_step M')\<^sup>*\<^sup>* 0 q \<and> (arc_step M')\<^sup>*\<^sup>* q (final M')) \<and>
    (\<forall>ls. seq_weight M' 0 ls = seq_weight (without_loops M) 0 ls) \<and>
    (valid M' \<longleftrightarrow> (arc_step M)\<^sup>*\<^sup>* 0 (final M)) \<and> (\<not> valid M' \<longrightarrow> states M' = [])"
  proof (cases "(arc_step M)\<^sup>*\<^sup>* 0 (final M)")
    case False
    from reduce_unreachable [OF assms False M'(2,3)] have e: "numStates M' = 0" "final M' = invalid_state" by auto
    have "seq_weight M' 0 ls = seq_weight (without_loops M) 0 ls" for ls
    proof -
      have "seq_weight M' 0 ls = 0" using e by (cases ls) (auto simp: state_arcs_def invalid_state_def)
      then show ?thesis using without_loops_useless [OF False] by simp
    qed
    moreover have "\<not> useful_state M 0" using False by (simp add: useful_state_def)
    ultimately show ?thesis using M'(1) e False bij own by (auto simp: valid_def)
  next
    case True
    have k: "\<not> ?m ! 0" "\<not> ?m ! final M" using mk(2) [of 0] mk(2) [of "final M"] True fin by (cases "states M"; auto)+
    have t0: "?t ! 0 = 0" using index_table_0 [OF k(1)] mk(1) fin by simp
    have f: "final M' = ?t ! final M" using M'(3) k by simp
    have lens: "length (states M) = length ?m" using mk(1) by simp
    have dests: "arc_dest a < numStates (without_loops M)" if "a \<in> set (state_arcs (without_loops M) p)" for a p
    proof -
      have "a \<in> set (state_arcs M p)" using that by (simp add: without_loops_simps)
      then show ?thesis using assms by (auto simp: without_loops_simps(1) state_arcs_def wfst_ok_def split: if_splits)
    qed
    have w: "seq_weight M' (?t ! 0) ls = seq_weight (without_loops M) 0 ls" for ls
    proof (rule seq_weight_renumber [where marked = ?m])
      fix p a assume a: "a \<in> set (state_arcs (without_loops M) p)"
      then show "arc_dest a < numStates (without_loops M)"
        by (rule dests)
    next
      fix p a ls assume p: "p < numStates (without_loops M)" "\<not> ?m ! p"
        and a: "a \<in> set (state_arcs (without_loops M) p)" "?m ! arc_dest a"
      have step: "arc_step M p (arc_dest a)" using a(1) by (auto simp: arc_step_def without_loops_simps)
      have "arc_dest a < numStates M" using dests [OF a(1)] by (simp add: without_loops_simps(1))
      moreover have "(arc_step M)\<^sup>*\<^sup>* 0 p" using mk(2) p by (simp add: without_loops_simps(1))
      then have "(arc_step M)\<^sup>*\<^sup>* 0 (arc_dest a)" using step by (rule rtranclp.rtrancl_into_rtrancl)
      ultimately have "\<not> (arc_step M)\<^sup>*\<^sup>* (arc_dest a) (final M)" using mk(2) a(2) by blast
      then show "seq_weight (without_loops M) (arc_dest a) ls = 0" by (rule without_loops_useless)
    next
      fix p assume p: "p < numStates (without_loops M)" "\<not> ?m ! p"
      show "?t ! p = final M' \<longleftrightarrow> p = final (without_loops M)"
        using index_table_inj [of p ?m "final M"] p k fin mk(1) f by (auto simp: without_loops_simps)
    qed (use arcs k fin in \<open>simp_all add: without_loops_simps\<close>)
    have trim: "(arc_step M')\<^sup>*\<^sup>* 0 q \<and> (arc_step M')\<^sup>*\<^sup>* q (final M')" if "q < numStates M'" for q
    proof -
      have "q < length (unmarked [0..<length ?m] ?m)"
        using that M'(2) length_unmarked_any [OF lens, of "[0..<length ?m]"] by simp
      then obtain p where p: "p < numStates M" "\<not> ?m ! p" "?t ! p = q"
        using index_table_onto mk(1) by metis
      then have "(arc_step M)\<^sup>*\<^sup>* 0 p" "(arc_step M)\<^sup>*\<^sup>* p (final M)" using mk(2) by auto
      then show ?thesis
        using reduce_steps [OF assms arcs, of 0 p] reduce_steps [OF assms arcs, of p "final M"] t0 f p(3) by simp
    qed
    have "?t ! final M < length (unmarked (states M) ?m)"
      using index_table_spec(2) [OF lens _ k(2)] fin mk(1) by simp
    moreover have "length (unmarked (states M) ?m) \<le> numStates M" by (rule length_unmarked_le)
    ultimately have "valid M'" using f fin by (simp add: valid_def invalid_state_def)
    then show ?thesis using M'(1) trim w True t0 f bij own by auto
  qed
  then show ?thesis by blast
qed

definition example_wfst :: "rat WFST" where
  "example_wfst = \<lparr>owner_alph = \<lambda>_. False, alph = \<lambda>_. None, named_states = False, stateNames = alph_empty,
     final = 3,
     states = [fold addArc [mk_arc 0 0 0 1, mk_arc 2 3 1 (1/2), mk_arc 2 2 2 (1/3)] state_new, state_new,
       fold addArc [mk_arc 4 0 3 (1/5), mk_arc 4 0 3 (2/5)] state_new, state_new],
     indexed_by = kNone\<rparr>"

lemma example_wfst_ok: "wfst_ok example_wfst"
  by (simp add: wfst_ok_def example_wfst_def addArc_def state_new_def mk_arc_def size_ok_def
      uint_minus1_def no_holes_def)

theorem WFST_reduce_trims_witness:
  "\<exists>M'. wfst_reduce (example_wfst, []) = Some (M', []) \<and> seq_weight M' 0 [(2, 2), (4, 0)] = 1/5 \<and> valid M'"
proof -
  obtain M' :: "rat WFST" where M': "wfst_reduce (example_wfst, []) = Some (M', [])"
    "\<forall>ls. seq_weight M' 0 ls = seq_weight (without_loops example_wfst) 0 ls"
    "valid M' \<longleftrightarrow> (arc_step example_wfst)\<^sup>*\<^sup>* 0 (final example_wfst)"
    using WFST_reduce_trims [OF example_wfst_ok, of "[]"] by blast
  have "seq_weight (without_loops example_wfst) 0 [(2, 2), (4, 0)] = 1/5"
      "seq_weight example_wfst 0 [(2, 2), (4, 0)] = 1/5"
    unfolding seq_weight.simps without_loops_simps
    by (simp_all add: example_wfst_def state_arcs_def addArc_def state_new_def mk_arc_def epsilon_loop_def)
  moreover from this have "(arc_step example_wfst)\<^sup>*\<^sup>* 0 (final example_wfst)"
    by (intro seq_weight_reaches [of _ _ "[(2, 2), (4, 0)]"]) (simp del: seq_weight.simps)
  ultimately show ?thesis using M' by (auto simp del: seq_weight.simps)
qed

lemma weights_at_nonneg:
  "\<forall>a \<in> set as. 0 \<le> arc_weight a \<Longrightarrow> \<forall>w \<in> set (weights_at as k). 0 \<le> w"
  by (auto simp: weights_at_def)

lemma consolidate_arc_weight:
  assumes "size_ok s" "\<forall>a \<in> set (arcs s). 0 \<le> arc_weight a" "a \<in> set (arcs (state_reduce ds cl s))"
  shows "arc_weight a = merged_weight ds cl (weights_at (arcs s) (arc_key a))"
proof -
  note r = state_reduce_spec [OF assms(1), where ds = ds and cl = cl]
  have "arc_key a \<in> arc_key ` {a \<in> set (arcs s). arc_weight a \<noteq> 0}" using assms(3) r(2) by blast
  then have "weights_at (arcs s) (arc_key a) \<noteq> []" by (auto simp: weights_at_def filter_empty_conv)
  then show ?thesis
    using r(3) [OF assms(3)] combine_all_merged weights_at_nonneg [OF assms(2)] by metis
qed

text \<open>C16: \<open>consolidateArcs\<close>, summing or not and clamping or not, leaves in every state exactly one arc for each
  label and destination that has an arc of weight other than zero, counts them, and touches nothing but the states. When no weight is
  negative, that arc's weight is what \<open>merged_weight\<close> says: the maximum of the merged weights, or their sum,
  and with \<open>clamp\<close> one if two or more arcs sum to more than one (a single arc is never clamped). The weight
  of a sequence of input and output pairs never grows; when summing it is as before if nothing is clamped or
  no sum of arcs with the same label and destination is above one.\<close>

theorem WFST_consolidateArcs_spec:
  fixes M :: "('w::linordered_field) WFST"
  assumes "\<forall>s \<in> set (states M). size_ok s" "\<forall>s \<in> set (states M). \<forall>a \<in> set (arcs s). 0 \<le> arc_weight a"
  shows "(\<exists>ss. consolidateArcs dosum clamp M = M\<lparr>states := ss\<rparr> \<and> length ss = numStates M \<and>
      (\<forall>p < numStates M. size_ok (ss ! p) \<and> distinct (map arc_key (arcs (ss ! p))) \<and>
         arc_key ` set (arcs (ss ! p)) = arc_key ` {a \<in> set (arcs (states M ! p)). arc_weight a \<noteq> 0} \<and>
         (\<forall>a \<in> set (arcs (ss ! p)). arc_weight a =
            merged_weight dosum clamp (weights_at (arcs (states M ! p)) (arc_key a))))) \<and>
    (\<forall>p ls. seq_weight (consolidateArcs dosum clamp M) p ls \<le> seq_weight M p ls) \<and>
    (dosum \<and> (clamp \<longrightarrow> (\<forall>s \<in> set (states M). \<forall>k. sum_list (weights_at (arcs s) k) \<le> 1)) \<longrightarrow>
      (\<forall>p ls. seq_weight (consolidateArcs dosum clamp M) p ls = seq_weight M p ls))"
proof (intro conjI)
  have keep: "size_ok (state_reduce dosum clamp s)" "distinct (map arc_key (arcs (state_reduce dosum clamp s)))"
      "arc_key ` set (arcs (state_reduce dosum clamp s)) = arc_key ` {a \<in> set (arcs s). arc_weight a \<noteq> 0}"
      "\<forall>a \<in> set (arcs (state_reduce dosum clamp s)).
         arc_weight a = merged_weight dosum clamp (weights_at (arcs s) (arc_key a))"
    if "s \<in> set (states M)" for s
    using state_reduce_spec(1,2,4) [of s, where ds = dosum and cl = clamp] consolidate_arc_weight [of s] assms that
    by blast+
  show "\<exists>ss. consolidateArcs dosum clamp M = M\<lparr>states := ss\<rparr> \<and> length ss = numStates M \<and>
      (\<forall>p < numStates M. size_ok (ss ! p) \<and> distinct (map arc_key (arcs (ss ! p))) \<and>
         arc_key ` set (arcs (ss ! p)) = arc_key ` {a \<in> set (arcs (states M ! p)). arc_weight a \<noteq> 0} \<and>
         (\<forall>a \<in> set (arcs (ss ! p)). arc_weight a =
            merged_weight dosum clamp (weights_at (arcs (states M ! p)) (arc_key a))))"
    using keep by (intro exI [of _ "map (state_reduce dosum clamp) (states M)"]) (simp add: consolidateArcs_def)
  show "\<forall>p ls. seq_weight (consolidateArcs dosum clamp M) p ls \<le> seq_weight M p ls"
    using consolidate_seq_weight_le [OF assms] by blast
  show "dosum \<and> (clamp \<longrightarrow> (\<forall>s \<in> set (states M). \<forall>k. sum_list (weights_at (arcs s) k) \<le> 1)) \<longrightarrow>
      (\<forall>p ls. seq_weight (consolidateArcs dosum clamp M) p ls = seq_weight M p ls)"
  proof (intro impI allI consolidate_seq_weight [OF assms(1)])
    fix s k assume d: "dosum \<and> (clamp \<longrightarrow> (\<forall>s \<in> set (states M). \<forall>k. sum_list (weights_at (arcs s) k) \<le> 1))"
      and s: "s \<in> set (states M)"
    let ?ws = "weights_at (arcs s) k"
    have nn: "\<forall>w \<in> set ?ws. 0 \<le> w" using weights_at_nonneg assms(2) s by blast
    show "combine_all dosum clamp ?ws = sum_list ?ws"
    proof (cases clamp)
      case True
      then have "sum_list ?ws \<le> 1" using d s by blast
      then show ?thesis using combine_all_merged [OF _ nn] merged_weight_le(3) [OF nn] d True by (cases "?ws = []") simp_all
    next
      case False
      then show ?thesis using d by (simp add: combine_all_sum)
    qed
  qed
qed

theorem WFST_consolidateArcs_spec_witness:
  "seq_weight (consolidateArcs True True example_wfst) 2 [(4, 0)] \<le> 3/5 \<and>
   seq_weight (consolidateArcs True False example_wfst) 2 [(4, 0)] = 3/5"
proof -
  have ok: "\<forall>s \<in> set (states example_wfst). size_ok s" using example_wfst_ok by (simp add: wfst_ok_def)
  have nn: "\<forall>s \<in> set (states example_wfst). \<forall>a \<in> set (arcs s). 0 \<le> arc_weight a"
    by (simp add: example_wfst_def addArc_def state_new_def mk_arc_def)
  have "seq_weight example_wfst 2 [(4, 0)] = 3/5"
    by (simp add: example_wfst_def state_arcs_def addArc_def state_new_def mk_arc_def)
  then show ?thesis
    using WFST_consolidateArcs_spec [OF ok nn, of True True] WFST_consolidateArcs_spec [OF ok nn, of True False]
    by metis
qed

end
