(* ===== verification/WfstOps.thy ===== *)
theory WfstOps
  imports Wfst
begin

text \<open>
  What the arc visitors of a transducer do: pairs of symbols as one symbol (\<open>as_pairs_fsa\<close>), saving and
  restoring weights, changing tied parameters once (\<open>changeEachParameter\<close>), assigning the weights of another
  transducer (\<open>assignWeights\<close>), exchanging the tapes (\<open>invert\<close>) and the conversion from and to OpenFst.
\<close>

section \<open>Changing weights\<close>

lemma wfst_visit_same:
  assumes "\<And>i x a. fst (v i x a) = f x"
  shows "fst (wfst_visit_arcs v M acc) = map_arcs f M"
proof -
  have a: "fst (accum (v i) xs a) = map f xs" for i xs a
    using assms by (induction xs arbitrary: a) (simp_all add: case_prod_unfold Let_def)
  have "fst (accum (visit_state v) (enumerate n ss) b) = map (\<lambda>s. s\<lparr>arcs := map f (arcs s)\<rparr>) ss" for n ss b
    by (induction ss arbitrary: n b) (simp_all add: case_prod_unfold Let_def visit_state_def visit_arcs_accum a)
  then show ?thesis by (simp add: wfst_visit_arcs_accum map_arcs_def)
qed

definition all_weights :: "'w WFST \<Rightarrow> 'w list" where
  "all_weights M = concat (map (\<lambda>s. map arc_weight (arcs s)) (states M))"

lemma save_weights_all: "save_weights M sv = sv @ all_weights M"
proof -
  let ?v = "\<lambda>i a sv. (a, sv @ [arc_weight a])"
  have a: "snd (accum (?v i) xs a) = a @ map arc_weight xs" for i :: nat and xs :: "'a FSTArc list" and a
    by (induction xs arbitrary: a) (simp_all add: case_prod_unfold Let_def)
  have "snd (accum (visit_state ?v) (enumerate n ss) b) = b @ concat (map (\<lambda>s. map arc_weight (arcs s)) ss)"
    for n and ss :: "'a State list" and b
    by (induction ss arbitrary: n b) (simp_all add: case_prod_unfold Let_def visit_state_def visit_arcs_accum a)
  then show ?thesis by (simp add: save_weights_def wfst_visit_arcs_accum all_weights_def)
qed

text \<open>Restoring is one pass over the saved list, state by state.\<close>

lemma restore_arcs:
  "length ws = length xs \<Longrightarrow>
    accum (\<lambda>a sv. (a\<lparr>arc_weight := hd sv\<rparr>, tl sv)) xs (ws @ sv) = (map2 (\<lambda>a w. a\<lparr>arc_weight := w\<rparr>) xs ws, sv)"
  by (induction ws xs rule: list_induct2) simp_all

definition reweighted :: "'w FSTArc \<Rightarrow> 'w FSTArc \<Rightarrow> bool" where
  "reweighted x y \<longleftrightarrow> y = x\<lparr>arc_weight := arc_weight y\<rparr>"

lemma reweighted_restore:
  "list_all2 reweighted xs ys \<Longrightarrow> map2 (\<lambda>a w. a\<lparr>arc_weight := w\<rparr>) ys (map arc_weight xs) = xs"
proof (induction rule: list_all2_induct)
  case (Cons x xs y ys)
  obtain w where y: "y = x\<lparr>arc_weight := w\<rparr>" using Cons.hyps(1) unfolding reweighted_def by blast
  show ?case using Cons.IH unfolding y by simp
qed simp

lemma restore_weights_reweighted:
  assumes "list_all2 (same_states reweighted) (states M) ss"
  shows "restore_weights (save_weights M [] @ sv) (M\<lparr>states := ss\<rparr>) = (M, sv)"
proof -
  let ?v = "\<lambda>i a sv. (a\<lparr>arc_weight := hd sv\<rparr>, tl sv)"
  have "accum (visit_state ?v) (enumerate n ts) (concat (map (\<lambda>s. map arc_weight (arcs s)) rs) @ sv) = (rs, sv)"
    if "list_all2 (same_states reweighted) rs ts" for n and rs ts :: "'a State list"
    using that
  proof (induction arbitrary: n rule: list_all2_induct)
    case (Cons r rs t ts)
    obtain as where as: "t = r\<lparr>arcs := as\<rparr>" "list_all2 reweighted (arcs r) as"
      using Cons.hyps(1) by (auto simp: same_states_def)
    have "length as = length (arcs r)" using as(2) by (simp add: list_all2_lengthD)
    then have "accum (?v n) as (map arc_weight (arcs r) @ rest) = (arcs r, rest)" for rest
      using restore_arcs [of "map arc_weight (arcs r)" as rest] reweighted_restore [OF as(2)] by simp
    then show ?case using Cons.IH [of "Suc n"] as(1)
      by (simp add: visit_state_def visit_arcs_accum)
  qed simp
  from this [OF assms, of 0] show ?thesis
    by (simp add: restore_weights_def wfst_visit_arcs_accum save_weights_all all_weights_def)
qed

definition change_rel :: "('w::zero) FSTArc \<Rightarrow> 'w FSTArc \<Rightarrow> (nat, 'w) HashTable \<times> 'f \<Rightarrow> bool" where
  "change_rel x y st \<longleftrightarrow> reweighted x y \<and> (isLocked (groupId x) \<longrightarrow> y = x) \<and>
     (isTied (groupId x) \<longrightarrow> find_second uint_hash (fst st) (groupId x) = Some (arc_weight y))"

definition keeps_bindings :: "(nat, 'w) HashTable \<times> 'f \<Rightarrow> (nat, 'w) HashTable \<times> 'f \<Rightarrow> bool" where
  "keeps_bindings a b \<longleftrightarrow> find_second uint_hash (fst a) \<subseteq>\<^sub>m find_second uint_hash (fst b)"

lemma modify_parameter_once_step:
  assumes inv: "ht_inv uint_hash (fst st)" and m: "modify_parameter_once f i x st = (y, st')"
  shows "ht_inv uint_hash (fst st') \<and> keeps_bindings st st' \<and> change_rel x y st'"
proof -
  obtain tied fs where st: "st = (tied, fs)" by fastforce
  consider "isLocked (groupId x)" | "isNormal (groupId x)" "\<not> isLocked (groupId x)"
    | "isTied (groupId x)" "\<not> isNormal (groupId x)" "\<not> isLocked (groupId x)"
    using group_kinds by blast
  then show ?thesis
  proof cases
    case 1
    then have "\<not> isTied (groupId x)" by (simp add: isLocked_def isTied_def no_group_def locked_group_def)
    then show ?thesis using m inv 1 by (auto simp: modify_parameter_once_def st change_rel_def keeps_bindings_def reweighted_def)
  next
    case 2
    then have "\<not> isTied (groupId x)" by (simp add: isNormal_def isTied_def no_group_def)
    then show ?thesis using m inv 2
      by (auto simp: modify_parameter_once_def st change_rel_def keeps_bindings_def reweighted_def split: prod.splits)
  next
    case 3
    obtain t v new where ins: "ht_insert uint_hash (groupId x) 0 tied = (t, v, new)" by (metis surj_pair)
    have inv': "ht_inv uint_hash tied" using inv by (simp add: st)
    note c = ht.insert_new_cases [OF inv' ins]
    show ?thesis
    proof (cases new)
      case True
      obtain w fs' where w: "f (arc_weight x) fs = (w, fs')" by fastforce
      have e: "y = x\<lparr>arc_weight := w\<rparr>" "st' = (ht_update uint_hash 0 (groupId x) (\<lambda>_. w) t, fs')"
        using m 3 ins True w by (simp_all add: modify_parameter_once_def st)
      note u = ht_update_props [OF c(1), of 0 "groupId x" "\<lambda>_. w"]
      have "find_second uint_hash tied (groupId x) = None" using c(4) True by simp
      then show ?thesis using e u c(2) 3
        by (auto simp: change_rel_def keeps_bindings_def reweighted_def st map_le_def)
    next
      case False
      have e: "y = x\<lparr>arc_weight := v\<rparr>" "st' = (t, fs)"
        using m 3 ins False by (simp_all add: modify_parameter_once_def st)
      then show ?thesis using c False 3
        by (auto simp: change_rel_def keeps_bindings_def reweighted_def st map_le_def)
    qed
  qed
qed

lemma changeEachParameter_spec:
  fixes M :: "('w::zero) WFST"
  assumes "changeEachParameter f fs M = (M', fs')"
  obtains tied ss where "M' = M\<lparr>states := ss\<rparr>"
    "list_all2 (same_states (\<lambda>x y. change_rel x y (tied, fs'))) (states M) ss"
proof -
  obtain tied where w: "wfst_visit_arcs (modify_parameter_once f) M (ht_new DEFAULTHASHSIZE, fs) = (M', tied, fs')"
    using assms by (auto simp: changeEachParameter_def split: prod.splits)
  have "ht_inv uint_hash (fst (tied, fs')) \<and> (\<exists>ss. M' = M\<lparr>states := ss\<rparr> \<and>
      list_all2 (same_states (\<lambda>x y. change_rel x y (tied, fs'))) (states M) ss)"
  proof (rule wfst_visit_rel [where I = "\<lambda>st. ht_inv uint_hash (fst st)" and G = keeps_bindings and R = change_rel,
        OF _ _ _ _ _ w])
    show "ht_inv uint_hash (fst (ht_new DEFAULTHASHSIZE, fs))" by simp
    show "ht_inv uint_hash (fst a') \<and> keeps_bindings a a' \<and> change_rel x y a'"
      if "ht_inv uint_hash (fst a)" "modify_parameter_once f i x a = (y, a')" for i x a y a'
      by (rule modify_parameter_once_step [OF that])
    show "change_rel x y a'" if "change_rel x y a" "keeps_bindings a a'" for x y :: "'w FSTArc" and a a'
      using that by (auto simp: change_rel_def keeps_bindings_def map_le_def dom_def)
    show "keeps_bindings a c" if "keeps_bindings a b" "keeps_bindings b c" for a b c :: "(nat, 'w) HashTable \<times> 'f"
      using that map_le_trans unfolding keeps_bindings_def by blast
  qed (simp_all add: keeps_bindings_def)
  then show ?thesis using that by blast
qed

definition all_arcs :: "'w WFST \<Rightarrow> 'w FSTArc list" where
  "all_arcs M = concat (map arcs (states M))"

lemma same_states_all_arcs:
  assumes "list_all2 (same_states R) ss ts"
  shows "list_all2 R (concat (map arcs ss)) (concat (map arcs ts))"
  using assms by (induction rule: list_all2_induct) (auto simp: same_states_def intro!: list_all2_appendI)

lemma list_all2_in2: "list_all2 R xs ys \<Longrightarrow> y \<in> set ys \<Longrightarrow> \<exists>x \<in> set xs. R x y"
  by (induction rule: list_all2_induct) auto

lemma list_all2_filter_same:
  "list_all2 R xs ys \<Longrightarrow> (\<And>x y. R x y \<Longrightarrow> P x = P y \<and> (P x \<longrightarrow> x = y)) \<Longrightarrow> filter P xs = filter P ys"
  by (induction rule: list_all2_induct) auto

lemma reweighted_group: "reweighted x y \<Longrightarrow> groupId y = groupId x"
proof -
  assume "reweighted x y"
  then have "groupId y = groupId (x\<lparr>arc_weight := arc_weight y\<rparr>)" unfolding reweighted_def by (rule arg_cong)
  then show ?thesis by simp
qed

lemma changeEachParameter_facts:
  fixes M :: "('w::zero) WFST"
  assumes "changeEachParameter f fs M = (M', fs')"
  shows "restore_weights (save_weights M [] @ sv) M' = (M, sv)"
    "filter (isLocked \<circ> groupId) (all_arcs M') = filter (isLocked \<circ> groupId) (all_arcs M)"
    "{y, z} \<subseteq> set (all_arcs M') \<Longrightarrow> isTied (groupId y) \<Longrightarrow> groupId z = groupId y \<Longrightarrow> arc_weight y = arc_weight z"
proof -
  obtain tied ss where M': "M' = M\<lparr>states := ss\<rparr>"
    and l: "list_all2 (same_states (\<lambda>x y. change_rel x y (tied, fs'))) (states M) ss"
    by (rule changeEachParameter_spec [OF assms]) (rule that)
  have "list_all2 (same_states reweighted) (states M) ss"
    using l by (rule list_all2_mono) (auto simp: same_states_def change_rel_def elim!: list_all2_mono)
  then show "restore_weights (save_weights M [] @ sv) M' = (M, sv)"
    unfolding M' by (rule restore_weights_reweighted)
  have l': "list_all2 (\<lambda>x y. change_rel x y (tied, fs')) (all_arcs M) (all_arcs M')"
    using same_states_all_arcs [OF l] by (simp add: all_arcs_def M')
  show "filter (isLocked \<circ> groupId) (all_arcs M') = filter (isLocked \<circ> groupId) (all_arcs M)"
    by (rule list_all2_filter_same [OF l', symmetric]) (auto simp: change_rel_def reweighted_group)
  have td: "find_second uint_hash tied (groupId y) = Some (arc_weight y)"
    if "y \<in> set (all_arcs M')" "isTied (groupId y)" for y
    using list_all2_in2 [OF l' that(1)] that(2) by (auto simp: change_rel_def reweighted_group)
  show "arc_weight y = arc_weight z"
    if "{y, z} \<subseteq> set (all_arcs M')" "isTied (groupId y)" "groupId z = groupId y"
    using td [of y] td [of z] that by simp
qed

text \<open>C17: \<open>changeEachParameter\<close> with any function changes nothing but weights (saving before and restoring
  after gives back the original transducer and consumes exactly the saved list), leaves the locked arcs as
  they were and gives all arcs of one tie group the same weight.\<close>

theorem WFST_changeEachParameter_ties:
  fixes M :: "('w::zero) WFST"
  assumes "changeEachParameter f fs M = (M', fs')"
  shows "restore_weights (save_weights M [] @ sv) M' = (M, sv) \<and>
    filter (isLocked \<circ> groupId) (all_arcs M') = filter (isLocked \<circ> groupId) (all_arcs M) \<and>
    ({y, z} \<subseteq> set (all_arcs M') \<and> isTied (groupId y) \<and> groupId z = groupId y \<longrightarrow> arc_weight y = arc_weight z)"
  using changeEachParameter_facts [OF assms] by blast

text \<open>Arcs numbered 5, 0 (locked), 5 and unnumbered; the function replaces the n-th weight it sees by n.\<close>

definition grouped_wfst :: "int WFST" where
  "grouped_wfst = \<lparr>owner_alph = \<lambda>_. False, alph = \<lambda>_. None, named_states = False, stateNames = alph_empty,
     final = 1,
     states = [\<lparr>arcs = map (\<lambda>(g, w). \<lparr>arc_in = 2, arc_out = 2, arc_dest = 1, arc_weight = w, groupId = g\<rparr>)
         [(5, 10), (0, 20), (5, 30), (no_group, 40)], state_size = 4, state_index = None\<rparr>, state_new],
     indexed_by = kNone\<rparr>"

theorem WFST_changeEachParameter_ties_witness:
  "restore_weights [10, 20, 30, 40] (fst (changeEachParameter (\<lambda>w n. (n, n + 1)) 7 grouped_wfst)) = (grouped_wfst, []) \<and>
   map arc_weight (filter (isLocked \<circ> groupId) (all_arcs (fst (changeEachParameter (\<lambda>w n. (n, n + 1)) 7 grouped_wfst)))) = [20]"
proof -
  have w: "save_weights grouped_wfst [] = [10, 20, 30, 40]"
      "map arc_weight (filter (isLocked \<circ> groupId) (all_arcs grouped_wfst)) = [20]"
    by (simp_all add: save_weights_all all_weights_def grouped_wfst_def state_new_def all_arcs_def isLocked_def
        locked_group_def no_group_def uint_minus1_def)
  show ?thesis
    using WFST_changeEachParameter_ties [OF prod.collapse [symmetric], where sv = "[]" and M = grouped_wfst
        and f = "\<lambda>w n. (n, n + 1)" and fs = "7::int"] w
    by simp
qed

end
