(* ===== verification/Cascade.thy ===== *)
theory Cascade
  imports WfstOps
begin

text \<open>
  The parameters of a composition cascade: \<open>cascade_parameters\<close> of \<open>carmel/src/cascade.h\<close>.  The transducers
  of the cascade are a list \<open>cas\<close> that the operations take and return; a parameter (\<open>FSTArc*\<close>) is the
  position of an arc in it.  A chain is the list of the parameters it links; the groups of a composed arc
  are indices into \<open>chains\<close>.
\<close>

section \<open>State\<close>

type_synonym param = "nat \<times> nat \<times> nat"

record 'w cascade_parameters =
  trivial :: bool
  is_chain_first :: bool
  is_chain_second :: bool
  chains :: "param list list"
  chain_weights :: "'w list"
  epsilon_chains :: "param \<Rightarrow> nat option"

definition nil_chain :: nat where "nil_chain = 0"

definition cascade_new :: "bool \<Rightarrow> 'w cascade_parameters" where
  "cascade_new remember_cascade =
     \<lparr>trivial = (\<not> remember_cascade), is_chain_first = False, is_chain_second = False,
      chains = (if remember_cascade then [[]] else []), chain_weights = [], epsilon_chains = Map.empty\<rparr>"

definition set_trivial :: "'w cascade_parameters \<Rightarrow> 'w cascade_parameters" where
  "set_trivial c = c\<lparr>chain_weights := [], epsilon_chains := Map.empty, trivial := True\<rparr>"

definition prepare_compose_chains :: "bool \<Rightarrow> bool \<Rightarrow> 'w cascade_parameters \<Rightarrow> 'w cascade_parameters" where
  "prepare_compose_chains first second c = c\<lparr>is_chain_first := first, is_chain_second := second\<rparr>"

definition prepare_compose :: "'w cascade_parameters \<Rightarrow> 'w cascade_parameters" where
  "prepare_compose c = prepare_compose_chains False False c"

definition prepare_compose_assoc :: "bool \<Rightarrow> 'w cascade_parameters \<Rightarrow> 'w cascade_parameters" where
  "prepare_compose_assoc right_assoc c =
     (if right_assoc then prepare_compose_chains False True c else prepare_compose_chains True False c)"

definition deref :: "'w WFST list \<Rightarrow> param \<Rightarrow> 'w FSTArc" where
  "deref cas p = (case p of (t, s, i) \<Rightarrow> arcs (states (cas ! t) ! s) ! i)"

definition set_weight :: "param \<Rightarrow> 'w \<Rightarrow> 'w WFST list \<Rightarrow> 'w WFST list" where
  "set_weight p w cas =
     (case p of (t, s, i) \<Rightarrow>
        let M = cas ! t; st = states M ! s
        in cas[t := M\<lparr>states := (states M)[s := st\<lparr>arcs := (arcs st)[i := (arcs st ! i)\<lparr>arc_weight := w\<rparr>]\<rparr>]\<rparr>])"

section \<open>Recording composed arcs\<close>

definition is_locked_1 :: "('w::one) FSTArc \<Rightarrow> bool" where
  "is_locked_1 e \<longleftrightarrow> isLocked (groupId e) \<and> arc_weight e = 1"

definition locked_1_groupid :: "'w cascade_parameters \<Rightarrow> nat" where
  "locked_1_groupid c = (if trivial c then locked_group else nil_chain)"

definition original_id :: "('w::one) FSTArc \<Rightarrow> nat" where
  "original_id e = (if is_locked_1 e then nil_chain else groupId e)"

text \<open>An arc handed to \<open>record\<close> is given with its address.\<close>

definition cons :: "param \<times> ('w::one) FSTArc \<Rightarrow> param list \<Rightarrow> param list" where
  "cons e cdr = (if is_locked_1 (snd e) then cdr else fst e # cdr)"

definition cons_chains :: "('w::one) WFST list \<Rightarrow> param list \<Rightarrow> param list \<Rightarrow> param list" where
  "cons_chains cas a b = foldl (\<lambda>b p. cons (p, deref cas p) b) b a"

definition cons_chain ::
  "('w::one) WFST list \<Rightarrow> 'w cascade_parameters \<Rightarrow> param \<times> 'w FSTArc \<Rightarrow> param \<times> 'w FSTArc \<Rightarrow> param list" where
  "cons_chain cas c a b =
     (if is_chain_first c
      then (let ca = chains c ! groupId (snd a)
            in if is_chain_second c then cons_chains cas ca (chains c ! groupId (snd b)) else cons b ca)
      else if is_chain_second c then cons a (chains c ! groupId (snd b))
      else cons a (cons b []))"

definition record_eps ::
  "param \<times> ('w::one) FSTArc \<Rightarrow> bool \<Rightarrow> 'w cascade_parameters \<Rightarrow> nat \<times> 'w cascade_parameters" where
  "record_eps e chain c =
     (if trivial c then (groupId (snd e), c)
      else if chain then (original_id (snd e), c)
      else case epsilon_chains c (fst e) of
             Some i \<Rightarrow> (i, c)
           | None \<Rightarrow>
               (let n = length (chains c); v = cons e []
                in if v = [] then (nil_chain, c\<lparr>epsilon_chains := (epsilon_chains c)(fst e \<mapsto> nil_chain)\<rparr>)
                   else (n, c\<lparr>epsilon_chains := (epsilon_chains c)(fst e \<mapsto> n), chains := chains c @ [v]\<rparr>)))"

definition record1 :: "param \<times> ('w::one) FSTArc \<Rightarrow> 'w cascade_parameters \<Rightarrow> nat \<times> 'w cascade_parameters" where
  "record1 e c = record_eps e (is_chain_first c) c"

definition record2 :: "param \<times> ('w::one) FSTArc \<Rightarrow> 'w cascade_parameters \<Rightarrow> nat \<times> 'w cascade_parameters" where
  "record2 e c = record_eps e (is_chain_second c) c"

definition record_pair ::
  "('w::one) WFST list \<Rightarrow> param \<times> 'w FSTArc \<Rightarrow> param \<times> 'w FSTArc \<Rightarrow> 'w cascade_parameters
    \<Rightarrow> nat \<times> 'w cascade_parameters" where
  "record_pair cas a b c =
     (if trivial c then (no_group, c)
      else (let v = cons_chain cas c a b
            in if v = [] then (nil_chain, c) else (length (chains c), c\<lparr>chains := chains c @ [v]\<rparr>)))"

section \<open>Weights and counts\<close>

definition accumulate_chain :: "('w::comm_semiring_1) WFST list \<Rightarrow> 'w \<Rightarrow> param list \<Rightarrow> 'w" where
  "accumulate_chain cas w p = foldl (\<lambda>w q. w * arc_weight (deref cas q)) w p"

definition calculate_chain_weights ::
  "('w::comm_semiring_1) WFST list \<Rightarrow> 'w cascade_parameters \<Rightarrow> 'w cascade_parameters" where
  "calculate_chain_weights cas c = c\<lparr>chain_weights := map (accumulate_chain cas 1) (chains c)\<rparr>"

definition update_composed_arc :: "'w cascade_parameters \<Rightarrow> 'w FSTArc \<Rightarrow> 'w FSTArc" where
  "update_composed_arc c a = a\<lparr>arc_weight := chain_weights c ! groupId a\<rparr>"

definition cascade_update ::
  "('w::comm_semiring_1) WFST list \<Rightarrow> 'w cascade_parameters \<times> 'w WFST \<Rightarrow> 'w cascade_parameters \<times> 'w WFST" where
  "cascade_update cas cm =
     (let (c, M) = cm
      in if trivial c then (c, M)
         else (let c' = calculate_chain_weights cas c in (c', map_arcs (update_composed_arc c') M)))"

definition clear_counts :: "('w::zero) WFST list \<Rightarrow> 'w WFST list" where
  "clear_counts cas = map zero_arcs cas"

definition distribute_counts_arc :: "('w::plus) \<Rightarrow> param \<Rightarrow> 'w WFST list \<Rightarrow> 'w WFST list" where
  "distribute_counts_arc counts p cas =
     (if isLocked (groupId (deref cas p)) then cas
      else set_weight p (arc_weight (deref cas p) + counts) cas)"

definition distribute_chain_counts :: "param list \<Rightarrow> ('w::plus) \<Rightarrow> 'w WFST list \<Rightarrow> 'w WFST list" where
  "distribute_chain_counts p counts cas = fold (distribute_counts_arc counts) p cas"

definition distribute_counts ::
  "'w cascade_parameters \<Rightarrow> 'w WFST \<Rightarrow> ('w::{zero,plus}) WFST list \<Rightarrow> 'w WFST list" where
  "distribute_counts c composed cas =
     (if trivial c then cas
      else fold (\<lambda>s. fold (\<lambda>a. distribute_chain_counts (chains c ! groupId a) (arc_weight a)) (arcs s))
             (states composed) (clear_counts cas))"

definition cascade_save_weights :: "'w WFST list \<Rightarrow> 'w list \<Rightarrow> 'w list" where
  "cascade_save_weights cas sv = fold save_weights cas sv"

definition cascade_restore_weights ::
  "'w list \<Rightarrow> ('w::comm_semiring_1) WFST list \<Rightarrow> 'w cascade_parameters \<times> 'w WFST
    \<Rightarrow> 'w WFST list \<times> 'w cascade_parameters \<times> 'w WFST" where
  "cascade_restore_weights sv cas cm =
     (let cas' = fst (foldl (\<lambda>(done, si) M. let (M', si') = restore_weights si M in (done @ [M'], si')) ([], sv) cas)
      in (cas', cascade_update cas' cm))"

definition cascade_clear_groups :: "'w WFST list \<Rightarrow> 'w WFST list" where
  "cascade_clear_groups cas = map clear_groups cas"

text \<open>Numbering all arcs of the cascade in visiting order.\<close>

definition number_from :: "nat \<Rightarrow> 'w WFST list \<Rightarrow> 'w WFST list" where
  "number_from start cas =
     fst (foldl (\<lambda>(done, n) M. let (M', n') = wfst_visit_arcs (\<lambda>i a l. (a\<lparr>groupId := l\<rparr>, l + 1)) M n
                               in (done @ [M'], n')) ([], start) cas)"

section \<open>Compressing the chains\<close>

definition find_used :: "'w WFST \<Rightarrow> bool list \<Rightarrow> bool list" where
  "find_used M rm =
     fold (\<lambda>s. fold (\<lambda>a r. if isLocked (groupId a) then r else r[groupId a := False]) (arcs s)) (states M) rm"

definition rewrite_group :: "indices_after \<Rightarrow> 'w FSTArc \<Rightarrow> 'w FSTArc" where
  "rewrite_group newids a = (if isLocked (groupId a) then a else a\<lparr>groupId := ia_map newids ! groupId a\<rparr>)"

definition compress_chains :: "'w cascade_parameters \<times> 'w WFST \<Rightarrow> 'w cascade_parameters \<times> 'w WFST" where
  "compress_chains cm =
     (let (c, M) = cm;
          rm = find_used M ((replicate (length (chains c)) True)[nil_chain := False]);
          newids = indices_after_removing rm
      in (c\<lparr>chains := do_moves newids (chains c), chain_weights := []\<rparr>, map_arcs (rewrite_group newids) M))"

definition done_composing :: "bool \<Rightarrow> 'w cascade_parameters \<times> 'w WFST \<Rightarrow> 'w cascade_parameters \<times> 'w WFST" where
  "done_composing compress_removed_arcs cm =
     (let (c, M) = cm
      in if trivial c then (c, M)
         else (let c = c\<lparr>epsilon_chains := Map.empty\<rparr>
               in if compress_removed_arcs then compress_chains (c, M) else (c, M)))"

section \<open>Chain weights\<close>

definition chain_product :: "('w::comm_semiring_1) WFST list \<Rightarrow> param list \<Rightarrow> 'w" where
  "chain_product cas p = (\<Prod>q\<leftarrow>p. arc_weight (deref cas q))"

lemma accumulate_chain_product: "accumulate_chain cas w p = w * chain_product cas p"
  by (induction p arbitrary: w) (simp_all add: accumulate_chain_def chain_product_def mult.assoc)

lemma chain_product_simps [simp]:
  "chain_product cas [] = 1" "chain_product cas (q # p) = arc_weight (deref cas q) * chain_product cas p"
  by (simp_all add: chain_product_def)

lemma chain_product_cons:
  "deref cas (fst e) = snd e \<Longrightarrow> chain_product cas (cons e p) = arc_weight (snd e) * chain_product cas p"
  by (simp add: cons_def is_locked_1_def)

lemma chain_product_cons_chains:
  "chain_product cas (cons_chains cas a b) = chain_product cas a * chain_product cas b"
  by (induction a arbitrary: b) (simp_all add: cons_chains_def chain_product_cons mult.assoc mult.left_commute)

text \<open>What a composed weight means: the group of the arc names a chain with that product.\<close>

definition has_chain :: "('w::comm_semiring_1) WFST list \<Rightarrow> 'w cascade_parameters \<Rightarrow> nat \<Rightarrow> 'w \<Rightarrow> bool" where
  "has_chain cas c g w \<longleftrightarrow> g < length (chains c) \<and> chain_product cas (chains c ! g) = w"

definition cascade_ok :: "('w::comm_semiring_1) WFST list \<Rightarrow> 'w cascade_parameters \<Rightarrow> bool" where
  "cascade_ok cas c \<longleftrightarrow> \<not> trivial c \<and> chains c \<noteq> [] \<and> chains c ! nil_chain = [] \<and>
     (\<forall>p g. epsilon_chains c p = Some g \<longrightarrow> has_chain cas c g (arc_weight (deref cas p)))"

lemma cascade_ok_epsilon:
  "cascade_ok cas c \<Longrightarrow> epsilon_chains c p = Some g \<Longrightarrow> has_chain cas c g (arc_weight (deref cas p))"
  unfolding cascade_ok_def by blast

text \<open>An arc that is offered to \<open>record\<close> is an arc of the cascade, or of a composition that is recorded.\<close>

definition recordable :: "('w::comm_semiring_1) WFST list \<Rightarrow> 'w cascade_parameters \<Rightarrow> bool \<Rightarrow> param \<times> 'w FSTArc \<Rightarrow> bool" where
  "recordable cas c chain e \<longleftrightarrow>
     (if chain then has_chain cas c (groupId (snd e)) (arc_weight (snd e)) else deref cas (fst e) = snd e)"

definition extends_chains :: "'w cascade_parameters \<Rightarrow> 'w cascade_parameters \<Rightarrow> bool" where
  "extends_chains c c' \<longleftrightarrow> (\<exists>zs. chains c' = chains c @ zs) \<and>
     is_chain_first c' = is_chain_first c \<and> is_chain_second c' = is_chain_second c"

lemma extends_chains_refl [simp]: "extends_chains c c"
  by (simp add: extends_chains_def)

lemma extends_chains_trans: "extends_chains a b \<Longrightarrow> extends_chains b c \<Longrightarrow> extends_chains a c"
  by (auto simp: extends_chains_def)

lemma has_chain_extends: "has_chain cas c g w \<Longrightarrow> extends_chains c c' \<Longrightarrow> has_chain cas c' g w"
  by (auto simp: has_chain_def extends_chains_def nth_append)

lemma recordable_extends: "recordable cas c ch e \<Longrightarrow> extends_chains c c' \<Longrightarrow> recordable cas c' ch e"
  by (auto simp: recordable_def has_chain_extends)

lemma has_chain_nil: "cascade_ok cas c \<Longrightarrow> has_chain cas c nil_chain 1"
  by (simp add: cascade_ok_def has_chain_def nil_chain_def)

lemma cascade_ok_new: "cascade_ok cas (cascade_new True)"
  by (simp add: cascade_ok_def cascade_new_def nil_chain_def)

lemma cascade_ok_push:
  assumes "cascade_ok cas c" "chains c' = chains c @ [v]" "trivial c' = trivial c"
    "is_chain_first c' = is_chain_first c" "is_chain_second c' = is_chain_second c"
    "\<And>p g. epsilon_chains c' p = Some g \<Longrightarrow>
      epsilon_chains c p = Some g \<or> g = length (chains c) \<and> chain_product cas v = arc_weight (deref cas p)"
  shows "cascade_ok cas c' \<and> extends_chains c c' \<and> has_chain cas c' (length (chains c)) (chain_product cas v)"
proof -
  have e: "extends_chains c c'" using assms(2,4,5) by (simp add: extends_chains_def)
  have n: "has_chain cas c' (length (chains c)) (chain_product cas v)" using assms(2) by (simp add: has_chain_def)
  have "has_chain cas c' g (arc_weight (deref cas p))" if "epsilon_chains c' p = Some g" for p g
    using assms(6) [OF that] has_chain_extends [OF cascade_ok_epsilon [OF assms(1), of p g] e] n by auto
  then show ?thesis using assms(1-3) e n by (auto simp: cascade_ok_def nth_append nil_chain_def)
qed

lemma record_eps_spec:
  assumes ok: "cascade_ok cas c" and e: "recordable cas c chain e" and r: "record_eps e chain c = (g, c')"
  shows "cascade_ok cas c' \<and> extends_chains c c' \<and> has_chain cas c' g (arc_weight (snd e))"
proof -
  have nt: "\<not> trivial c" using ok by (simp add: cascade_ok_def)
  consider "chain" | i where "\<not> chain" "epsilon_chains c (fst e) = Some i"
    | "\<not> chain" "epsilon_chains c (fst e) = None" by fastforce
  then show ?thesis
  proof cases
    case 1
    then show ?thesis using r nt e ok has_chain_nil [OF ok]
      by (auto simp: record_eps_def original_id_def recordable_def is_locked_1_def)
  next
    case 2
    then show ?thesis using r nt e ok cascade_ok_epsilon [OF ok 2(2)] by (auto simp: record_eps_def recordable_def)
  next
    case 3
    have d: "deref cas (fst e) = snd e" using e 3(1) by (simp add: recordable_def)
    have p: "chain_product cas (cons e []) = arc_weight (snd e)" using chain_product_cons [OF d] by simp
    show ?thesis
    proof (cases "cons e [] = []")
      case True
      then have w: "arc_weight (snd e) = 1" using p by simp
      have c': "g = nil_chain" "c' = c\<lparr>epsilon_chains := (epsilon_chains c)(fst e \<mapsto> nil_chain)\<rparr>"
        using r nt 3 True by (auto simp: record_eps_def)
      have "extends_chains c c'" using c' by (simp add: extends_chains_def)
      then show ?thesis using c' w d ok has_chain_nil [OF ok]
        by (auto simp: cascade_ok_def has_chain_def)
    next
      case False
      have c': "g = length (chains c)"
        "c' = c\<lparr>epsilon_chains := (epsilon_chains c)(fst e \<mapsto> length (chains c)), chains := chains c @ [cons e []]\<rparr>"
        using r nt 3 False by (auto simp: record_eps_def Let_def)
      have "cascade_ok cas c' \<and> extends_chains c c' \<and>
          has_chain cas c' (length (chains c)) (chain_product cas (cons e []))"
        by (rule cascade_ok_push [OF ok]) (use c' d p in \<open>auto split: if_splits\<close>)
      then show ?thesis using c' p by simp
    qed
  qed
qed

lemma cons_chain_product:
  assumes "recordable cas c (is_chain_first c) a" "recordable cas c (is_chain_second c) b"
  shows "chain_product cas (cons_chain cas c a b) = arc_weight (snd a) * arc_weight (snd b)"
  using assms
  by (auto simp: cons_chain_def recordable_def has_chain_def chain_product_cons_chains chain_product_cons
      mult.commute Let_def split: if_splits)

lemma record_pair_spec:
  assumes ok: "cascade_ok cas c" and ab: "recordable cas c (is_chain_first c) a" "recordable cas c (is_chain_second c) b"
    and r: "record_pair cas a b c = (g, c')"
  shows "cascade_ok cas c' \<and> extends_chains c c' \<and> has_chain cas c' g (arc_weight (snd a) * arc_weight (snd b))"
proof -
  have nt: "\<not> trivial c" using ok by (simp add: cascade_ok_def)
  note p = cons_chain_product [OF ab]
  show ?thesis
  proof (cases "cons_chain cas c a b = []")
    case True
    then have "has_chain cas c nil_chain (arc_weight (snd a) * arc_weight (snd b))"
      using p has_chain_nil [OF ok] by simp
    then show ?thesis using r nt True ok by (auto simp: record_pair_def)
  next
    case False
    have c': "g = length (chains c)" "c' = c\<lparr>chains := chains c @ [cons_chain cas c a b]\<rparr>"
      using r nt False by (auto simp: record_pair_def Let_def)
    have "cascade_ok cas c' \<and> extends_chains c c' \<and>
        has_chain cas c' (length (chains c)) (chain_product cas (cons_chain cas c a b))"
      by (rule cascade_ok_push [OF ok]) (use c' in auto)
    then show ?thesis using c' p by simp
  qed
qed

section \<open>Counts\<close>

definition constant_weight :: "'w \<Rightarrow> 'w FSTArc \<Rightarrow> 'w FSTArc" where
  "constant_weight w x = (if isLocked (groupId x) then x else x\<lparr>arc_weight := w\<rparr>)"

lemma set_constant_step:
  assumes inv: "ht_inv uint_hash (fst st) \<and> ran (find_second uint_hash (fst st)) \<subseteq> {w}"
    and m: "modify_parameter_once (\<lambda>_ _. (w, ())) i x st = (y, st')"
  shows "(ht_inv uint_hash (fst st') \<and> ran (find_second uint_hash (fst st')) \<subseteq> {w}) \<and> y = constant_weight w x"
proof -
  obtain tied where st: "st = (tied, ())" by (cases st) auto
  obtain t v new where ins: "ht_insert uint_hash (groupId x) 0 tied = (t, v, new)" by (metis surj_pair)
  have inv': "ht_inv uint_hash tied" "ran (find_second uint_hash tied) \<subseteq> {w}" using inv by (simp_all add: st)
  note c = ht.insert_new_cases [OF inv'(1) ins]
  note u = ht_update_props [OF c(1), of 0 "groupId x" "\<lambda>_. w"]
  have ran: "ran (find_second uint_hash (ht_update uint_hash 0 (groupId x) (\<lambda>_. w) t)) \<subseteq> {w}"
    using u(2) c(2) inv'(2) by (auto simp: ran_def split: if_splits)
  have old: "\<not> new \<Longrightarrow> v = w \<and> find_second uint_hash t = find_second uint_hash tied"
    using c inv'(2) by (auto simp: ran_def)
  show ?thesis using m inv' u(1) c(1) ran old ins
    by (auto simp: modify_parameter_once_def st constant_weight_def split: if_splits bool.splits)
qed

lemma set_constant_weights_map: "set_constant_weights w M = map_arcs (constant_weight w) M"
proof -
  obtain M' tied where r: "wfst_visit_arcs (modify_parameter_once (\<lambda>_ _. (w, ()))) M (ht_new DEFAULTHASHSIZE, ()) = (M', tied, ())"
    by (metis surj_pair unit.exhaust)
  let ?I = "\<lambda>st :: (nat, 'a) HashTable \<times> unit.
    ht_inv uint_hash (fst st) \<and> ran (find_second uint_hash (fst st)) \<subseteq> {w}"
  have "?I (tied, ()) \<and> (\<exists>ss. M' = M\<lparr>states := ss\<rparr> \<and>
      list_all2 (same_states (\<lambda>x y. y = constant_weight w x)) (states M) ss)"
  proof (rule wfst_visit_rel [where I = ?I and G = "\<lambda>_ _. True" and R = "\<lambda>x y _. y = constant_weight w x", OF _ _ _ _ _ r])
    show "?I (ht_new DEFAULTHASHSIZE, ())" by (simp add: ran_def)
    show "?I a' \<and> True \<and> y = constant_weight w x"
      if "?I a" "modify_parameter_once (\<lambda>_ _. (w, ())) i x a = (y, a')" for i x a y a'
      using set_constant_step [OF that] by blast
  qed auto
  then obtain ss where ss: "M' = M\<lparr>states := ss\<rparr>"
    "list_all2 (same_states (\<lambda>x y. y = constant_weight w x)) (states M) ss" by blast
  have eq: "list_all2 (\<lambda>x y. y = f x) xs ys \<longleftrightarrow> ys = map f xs" for f :: "'c \<Rightarrow> 'd" and xs ys
    by (auto simp: list_all2_conv_all_nth intro: nth_equalityI)
  have "same_states (\<lambda>x y. y = constant_weight w x) = (\<lambda>s t. t = s\<lparr>arcs := map (constant_weight w) (arcs s)\<rparr>)"
    by (intro ext) (auto simp: same_states_def eq)
  then have "ss = map (\<lambda>s. s\<lparr>arcs := map (constant_weight w) (arcs s)\<rparr>) (states M)"
    using ss(2) by (simp only: eq)
  then show ?thesis using r ss(1) by (simp add: set_constant_weights_def changeEachParameter_def map_arcs_def)
qed

definition valid_param :: "'w WFST list \<Rightarrow> param \<Rightarrow> bool" where
  "valid_param cas p = (case p of (t, s, i) \<Rightarrow>
     t < length cas \<and> s < numStates (cas ! t) \<and> i < length (arcs (states (cas ! t) ! s)))"

lemma deref_clear_counts:
  "valid_param cas p \<Longrightarrow> deref (clear_counts cas) p = constant_weight 0 (deref cas p)"
  by (cases p) (simp add: valid_param_def deref_def clear_counts_def zero_arcs_def set_constant_weights_map map_arcs_def)

lemma valid_param_clear [simp]: "valid_param (clear_counts cas) p = valid_param cas p"
  by (cases p) (auto simp: valid_param_def clear_counts_def zero_arcs_def set_constant_weights_map map_arcs_def)

lemma deref_set_weight:
  "valid_param cas p \<Longrightarrow> deref (set_weight p w cas) q = (if q = p then (deref cas p)\<lparr>arc_weight := w\<rparr> else deref cas q)"
  by (cases p; cases q) (auto simp: valid_param_def deref_def set_weight_def Let_def nth_list_update)

lemma valid_param_set_weight [simp]:
  "valid_param cas p \<Longrightarrow> valid_param (set_weight p w cas) q = valid_param cas q"
  by (cases p; cases q) (auto simp: valid_param_def set_weight_def Let_def nth_list_update split: if_splits)

lemma fold_distribute:
  fixes cas :: "('w::comm_semiring_1) WFST list"
  assumes "\<forall>x \<in> set xs. valid_param cas (fst x)" "valid_param cas q"
  shows "deref (fold (\<lambda>x. distribute_counts_arc (snd x) (fst x)) xs cas) q =
    (if isLocked (groupId (deref cas q)) then deref cas q
     else (deref cas q)\<lparr>arc_weight := arc_weight (deref cas q) + (\<Sum>x\<leftarrow>filter (\<lambda>x. fst x = q) xs. snd x)\<rparr>)"
  using assms
proof (induction xs arbitrary: cas)
  case (Cons x xs)
  let ?c = "distribute_counts_arc (snd x) (fst x) cas"
  have v: "valid_param ?c p = valid_param cas p" for p
    using Cons.prems(1) by (simp add: distribute_counts_arc_def)
  have d: "deref ?c q = (if fst x = q \<and> \<not> isLocked (groupId (deref cas q))
      then (deref cas q)\<lparr>arc_weight := arc_weight (deref cas q) + snd x\<rparr> else deref cas q)"
    using Cons.prems(1) by (auto simp: distribute_counts_arc_def deref_set_weight)
  show ?case using Cons.IH [of ?c] Cons.prems by (simp add: v d add.assoc)
qed simp

definition chain_uses :: "'w cascade_parameters \<Rightarrow> 'w WFST \<Rightarrow> (param \<times> 'w) list" where
  "chain_uses c M = concat (map (\<lambda>a. map (\<lambda>p. (p, arc_weight a)) (chains c ! groupId a)) (all_arcs M))"

lemma distribute_counts_flat:
  "\<not> trivial c \<Longrightarrow> distribute_counts c M cas =
    fold (\<lambda>x. distribute_counts_arc (snd x) (fst x)) (chain_uses c M) (clear_counts cas)"
proof -
  assume nt: "\<not> trivial c"
  have inner: "distribute_chain_counts p w = fold (\<lambda>x. distribute_counts_arc (snd x) (fst x)) (map (\<lambda>q. (q, w)) p)"
    for p and w :: 'a
    by (intro ext) (simp add: distribute_chain_counts_def fold_map comp_def)
  show ?thesis
    using nt by (simp add: distribute_counts_def chain_uses_def all_arcs_def inner fold_concat_map comp_def)
qed

lemma filter_chain_uses:
  "(\<Sum>x\<leftarrow>filter (\<lambda>x. fst x = q) (concat (map (\<lambda>a. map (\<lambda>p. (p, w a)) (f a)) as)). snd x) =
    (\<Sum>a\<leftarrow>as. of_nat (count_list (f a) q) * (w a :: 'w::comm_semiring_1))"
proof (induction as)
  case (Cons a as)
  have "(\<Sum>x\<leftarrow>filter (\<lambda>x. fst x = q) (map (\<lambda>p. (p, w a)) ps). snd x) = of_nat (count_list ps q) * w a" for ps
    by (induction ps) (simp_all add: distrib_right)
  then show ?case using Cons by simp
qed simp

lemma distribute_counts_sums:
  fixes cas :: "('w::comm_semiring_1) WFST list"
  assumes "\<not> trivial c" "\<forall>a \<in> set (all_arcs M). \<forall>p \<in> set (chains c ! groupId a). valid_param cas p" "valid_param cas q"
  shows "deref (distribute_counts c M cas) q =
    constant_weight (\<Sum>a\<leftarrow>all_arcs M. of_nat (count_list (chains c ! groupId a) q) * arc_weight a) (deref cas q)"
proof -
  have "\<forall>x \<in> set (chain_uses c M). valid_param (clear_counts cas) (fst x)"
    using assms(2) by (auto simp: chain_uses_def)
  from fold_distribute [OF this, of q] show ?thesis
    using assms(3) filter_chain_uses [of q "\<lambda>a. arc_weight a" "\<lambda>a. chains c ! groupId a" "all_arcs M"]
    by (simp add: distribute_counts_flat [OF assms(1)] deref_clear_counts constant_weight_def chain_uses_def)
qed

section \<open>Compression\<close>

lemma new_indices_keep_loop_iarm: "new_indices_keep_loop a False f = iarm_loop a f"
  by (induction a arbitrary: f) (simp_all add: Let_def)

lemma indices_after_removing_table:
  "indices_after_removing a = \<lparr>ia_map = index_table a, n_kept = length (filter Not a)\<rparr>"
proof -
  obtain tab n where l: "iarm_loop a 0 = (tab, n)" by fastforce
  have "length (unmarked (replicate (length a) ()) a) = length (filter Not a)"
    by (induction a) auto
  then have "n = length (filter Not a)"
    using iarm_loop_count [OF _ l, of "replicate (length a) ()"] by simp
  then show ?thesis using l
    by (simp add: indices_after_removing_def ia_init_def new_indices_keep_def new_indices_keep_loop_iarm
        index_table_def indices_after_remove_marked_def)
qed

lemma indices_after_removing_sel:
  "ia_map (indices_after_removing a) = index_table a" "n_kept (indices_after_removing a) = length (filter Not a)"
  by (simp_all add: indices_after_removing_table)

lemma iarm_loop_position:
  "iarm_loop a f = (o', n) \<Longrightarrow> i < length a \<Longrightarrow> \<not> a ! i \<Longrightarrow> o' ! i = f + length (filter Not (take i a))"
proof (induction a arbitrary: f o' n i)
  case (Cons m ms)
  obtain o1 f1 where r: "iarm_loop ms (if m then f else Suc f) = (o1, f1)" by fastforce
  show ?case using Cons.prems Cons.IH [OF r] r by (cases i) (auto split: if_splits)
qed simp

lemma index_table_position:
  "i < length a \<Longrightarrow> \<not> a ! i \<Longrightarrow> index_table a ! i = length (filter Not (take i a))"
  using iarm_loop_position [of a 0 "index_table a" "snd (indices_after_remove_marked a)"]
  by (simp add: index_table_def indices_after_remove_marked_def)

lemma keeping_table:
  "length a < uint_minus1 \<Longrightarrow> i < length a \<Longrightarrow> keeping (indices_after_removing a) i \<longleftrightarrow> \<not> a ! i"
  using index_table_spec(4) [of "replicate (length a) ()" a i]
  by (simp add: keeping_def indices_after_removing_table)

lemma move_loop_unmarked:
  fixes v0 :: "'a list"
  assumes "length v0 = length a" "length a < uint_minus1"
  shows "i \<le> length a \<Longrightarrow> length v = length a \<Longrightarrow>
    take (length (filter Not (take i a))) v = unmarked (take i v0) (take i a) \<Longrightarrow> drop i v = drop i v0 \<Longrightarrow>
    take (length (filter Not a)) (move_loop (indices_after_removing a) [i..<length a] v) = unmarked v0 a"
proof (induction "length a - i" arbitrary: i v)
  case 0
  then show ?case using assms by simp
next
  case (Suc d)
  then have i: "i < length a" by simp
  let ?n = "length (filter Not (take i a))"
  let ?v = "if keeping (indices_after_removing a) i then v[index_table a ! i := v ! i] else v"
  have split: "[i..<length a] = i # [Suc i..<length a]" using i by (simp add: upt_conv_Cons)
  have vi: "v ! i = v0 ! i" using Suc.prems(2,4) i by (metis hd_drop_conv_nth assms(1))
  have n: "?n \<le> i" using length_filter_le [of Not "take i a"] i by simp
  have un: "unmarked (take (Suc i) v0) (take (Suc i) a) = unmarked (take i v0) (take i a) @ (if a ! i then [] else [v0 ! i])"
    using i assms(1) by (intro unmarked_take_Suc) auto
  have tk: "length (filter Not (take (Suc i) a)) = ?n + (if a ! i then 0 else 1)"
    using i by (simp add: take_Suc_conv_app_nth)
  have step: "take (length (filter Not (take (Suc i) a))) ?v = unmarked (take (Suc i) v0) (take (Suc i) a)"
  proof (cases "a ! i")
    case True
    then show ?thesis using Suc.prems(3) keeping_table [OF assms(2) i] by (simp add: un tk)
  next
    case False
    have "take (Suc ?n) (v[?n := v ! i]) = take ?n v @ [v ! i]"
      using n i Suc.prems(2) by (simp add: take_Suc_conv_app_nth take_update_cancel)
    then show ?thesis using False Suc.prems(3) keeping_table [OF assms(2) i] index_table_position [OF i False] vi
      by (simp add: un tk)
  qed
  have dr: "drop (Suc i) ?v = drop (Suc i) v0"
  proof -
    have "drop (Suc i) ?v = drop (Suc i) v"
      using n index_table_position [OF i] keeping_table [OF assms(2) i] by auto
    then show ?thesis using Suc.prems(4) by (metis drop_drop plus_1_eq_Suc)
  qed
  have "take (length (filter Not a)) (move_loop (indices_after_removing a) [Suc i..<length a] ?v) = unmarked v0 a"
    by (rule Suc.hyps(1)) (use Suc.hyps(2) Suc.prems(2) i step dr in auto)
  then show ?case unfolding split move_loop.simps indices_after_removing_sel .
qed

lemma first_removed_prefix:
  "j \<ge> i \<Longrightarrow> j < first_removed ia n i \<Longrightarrow> keeping ia j"
proof (induction ia n i rule: first_removed.induct)
  case (2 ia n i)
  then show ?case by (cases "j = i") (auto split: if_splits)
qed simp

lemma do_moves_unmarked:
  assumes "length v = length a" "length a < uint_minus1"
  shows "do_moves (indices_after_removing a) v = unmarked v a"
proof -
  let ?i = "first_removed (indices_after_removing a) (length v) 0"
  have i: "?i \<le> length a" using first_removed_le [of "indices_after_removing a" "length v" 0] assms(1) by simp
  have all: "\<not> a ! j" if "j < ?i" for j
    using first_removed_prefix [OF _ that] that keeping_table [OF assms(2), of j] i by simp
  have un: "unmarked (take ?i v) (take ?i a) = take ?i v"
    using all i assms(1) by (intro unmarked_none) auto
  have "filter Not (take ?i a) = take ?i a"
    using all i by (auto simp: filter_id_conv in_set_conv_nth)
  then have len: "length (filter Not (take ?i a)) = ?i" using i by simp
  have "take (length (filter Not a)) (move_loop (indices_after_removing a) [?i..<length a] v) = unmarked v a"
    by (rule move_loop_unmarked [OF assms i]) (use assms un len in simp_all)
  then show ?thesis using assms(1) by (simp add: do_moves_def Let_def indices_after_removing_sel)
qed

lemma find_used_flat:
  "find_used M rm = fold (\<lambda>a r. if isLocked (groupId a) then r else r[groupId a := False]) (all_arcs M) rm"
  by (simp add: find_used_def all_arcs_def fold_concat_map)

lemma fold_unset:
  fixes as :: "'w FSTArc list"
  defines "f \<equiv> \<lambda>(a :: 'w FSTArc) r. if isLocked (groupId a) then r else r[groupId a := False]"
  shows "length (fold f as rm) = length rm"
    "g < length rm \<Longrightarrow> fold f as rm ! g \<longleftrightarrow> rm ! g \<and> \<not> (\<exists>a \<in> set as. \<not> isLocked (groupId a) \<and> groupId a = g)"
proof -
  show "length (fold f as rm) = length rm" by (induction as arbitrary: rm) (simp_all add: f_def)
  assume "g < length rm"
  then show "fold f as rm ! g \<longleftrightarrow> rm ! g \<and> \<not> (\<exists>a \<in> set as. \<not> isLocked (groupId a) \<and> groupId a = g)"
  proof (induction as arbitrary: rm)
    case (Cons a as)
    then show ?case by (cases "groupId a = g") (auto simp: f_def)
  qed simp
qed

definition unused_chains :: "'w cascade_parameters \<Rightarrow> 'w WFST \<Rightarrow> bool list" where
  "unused_chains c M = find_used M ((replicate (length (chains c)) True)[nil_chain := False])"

lemma unused_chains_spec:
  assumes "chains c \<noteq> []"
  shows "length (unused_chains c M) = length (chains c)"
    "g < length (chains c) \<Longrightarrow>
      unused_chains c M ! g \<longleftrightarrow> g \<noteq> 0 \<and> \<not> (\<exists>a \<in> set (all_arcs M). \<not> isLocked (groupId a) \<and> groupId a = g)"
  using assms
  by (auto simp: unused_chains_def find_used_flat fold_unset nil_chain_def nth_list_update)

lemma all_arcs_map: "all_arcs (map_arcs f M) = map f (all_arcs M)"
  by (simp add: all_arcs_def map_arcs_def map_concat comp_def)

lemma compress_chains_arc:
  assumes c: "chains c \<noteq> []" "length (chains c) < uint_minus1" and g: "groupId a < length (chains c)"
    and a: "a \<in> set (all_arcs M)"
  shows "let ia = indices_after_removing (unused_chains c M)
    in do_moves ia (chains c) ! groupId (rewrite_group ia a) = chains c ! groupId a"
proof -
  let ?u = "unused_chains c M"
  note u = unused_chains_spec [OF c(1)]
  have len: "length (chains c) = length ?u" "length ?u < uint_minus1" using u(1) c(2) by simp_all
  have mv: "do_moves (indices_after_removing ?u) (chains c) = unmarked (chains c) ?u"
    by (rule do_moves_unmarked [OF len])
  have k: "\<not> ?u ! groupId a" using u(2) [OF g] a by (auto simp: isLocked_def locked_group_def)
  have at: "unmarked (chains c) ?u ! (index_table ?u ! groupId a) = chains c ! groupId a"
    by (rule index_table_spec(3) [OF len(1) _ k]) (use g u(1) in simp)
  have "isLocked (groupId a) \<Longrightarrow> index_table ?u ! groupId a = groupId a"
    using index_table_0 [of ?u] k g u(1) by (simp add: isLocked_def locked_group_def)
  then have "groupId (rewrite_group (indices_after_removing ?u) a) = index_table ?u ! groupId a"
    by (simp add: rewrite_group_def indices_after_removing_sel)
  then show ?thesis using at mv by simp
qed

section \<open>Properties\<close>

text \<open>C13: after \<open>distribute_counts\<close> an unlocked arc of the cascade has as weight the sum, over the arcs of
  the composed transducer, of their counts times the number of times their chain names the arc; a locked
  arc keeps its weight.\<close>

theorem cascade_distribute_counts_sums:
  fixes cas :: "('w::comm_semiring_1) WFST list"
  assumes "\<not> trivial c" "\<forall>a \<in> set (all_arcs M). \<forall>p \<in> set (chains c ! groupId a). valid_param cas p"
    and "valid_param cas q"
  shows "deref (distribute_counts c M cas) q =
    (if isLocked (groupId (deref cas q)) then deref cas q
     else (deref cas q)\<lparr>arc_weight := \<Sum>a\<leftarrow>all_arcs M. of_nat (count_list (chains c ! groupId a) q) * arc_weight a\<rparr>)"
  using distribute_counts_sums [OF assms] by (simp add: constant_weight_def)

definition example_composed :: "(nat \<times> rat) list \<Rightarrow> rat WFST" where
  "example_composed gs = \<lparr>owner_alph = \<lambda>_. False, alph = \<lambda>_. None, named_states = False, stateNames = alph_empty,
     final = 0, states = [\<lparr>arcs = map (\<lambda>(g, w). \<lparr>arc_in = 2, arc_out = 2, arc_dest = 0, arc_weight = w, groupId = g\<rparr>) gs,
       state_size = length gs, state_index = None\<rparr>], indexed_by = kNone\<rparr>"

definition example_chains :: "rat cascade_parameters" where
  "example_chains = (cascade_new True)\<lparr>chains := [[], [(0, 0, 0)], [(0, 0, 1), (0, 0, 0)], [(0, 0, 2)]]\<rparr>"

theorem cascade_distribute_counts_sums_witness:
  "arc_weight (deref (distribute_counts example_chains (example_composed [(1, 1/2), (2, 1/4), (0, 1)])
     [example_composed [(no_group, 7), (5, 7)]]) (0, 0, 0)) = 3/4"
proof -
  let ?M = "example_composed [(1, 1/2), (2, 1/4), (0, 1)]" and ?cas = "[example_composed [(no_group, 7), (5, 7)]]"
  have a: "\<not> trivial example_chains"
    "\<forall>a \<in> set (all_arcs ?M). \<forall>p \<in> set (chains example_chains ! groupId a). valid_param ?cas p"
    "valid_param ?cas (0, 0, 0)"
    by (simp_all add: example_chains_def cascade_new_def example_composed_def all_arcs_def valid_param_def)
  show ?thesis using cascade_distribute_counts_sums [OF a]
    by (simp add: example_composed_def example_chains_def all_arcs_def deref_def isLocked_def no_group_def
        locked_group_def uint_minus1_def)
qed

text \<open>C14: \<open>compress_chains\<close> renumbers the groups of the composed transducer and the chains together: every
  arc still names the same chain, nothing else of it changes, and of the other chains only the nil chain is
  left.\<close>

theorem cascade_compress_chains_spec:
  assumes "compress_chains (c, M) = (c', M')" "chains c \<noteq> []" "length (chains c) < uint_minus1"
    "\<forall>a \<in> set (all_arcs M). groupId a < length (chains c)"
  shows "list_all2 (\<lambda>a a'. a' = a\<lparr>groupId := groupId a'\<rparr> \<and> chains c' ! groupId a' = chains c ! groupId a)
      (all_arcs M) (all_arcs M') \<and>
    length (chains c') = card ({0} \<union> groupId ` {a \<in> set (all_arcs M). \<not> isLocked (groupId a)})"
proof -
  let ?u = "unused_chains c M" and ?ia = "indices_after_removing (unused_chains c M)"
  note u = unused_chains_spec [OF assms(2), where M = M]
  have e: "chains c' = do_moves ?ia (chains c)" "all_arcs M' = map (rewrite_group ?ia) (all_arcs M)"
    using assms(1) by (auto simp: compress_chains_def unused_chains_def Let_def all_arcs_map)
  have "list_all2 (\<lambda>a a'. a' = a\<lparr>groupId := groupId a'\<rparr> \<and> chains c' ! groupId a' = chains c ! groupId a)
      (all_arcs M) (map (rewrite_group ?ia) (all_arcs M))"
    using compress_chains_arc [OF assms(2,3)] assms(4)
    by (auto simp: list_all2_conv_all_nth e(1) Let_def rewrite_group_def)
  moreover have "length (chains c') = card ({0} \<union> groupId ` {a \<in> set (all_arcs M). \<not> isLocked (groupId a)})"
  proof -
    have "length (chains c') = length (unmarked (chains c) ?u)"
      using e(1) do_moves_unmarked [of "chains c" ?u] u(1) assms(3) by simp
    also have "\<dots> = card {g. g < length (chains c) \<and> \<not> ?u ! g}"
    proof -
      have "length (unmarked (chains c) ?u) = length (unmarked [0..<length ?u] ?u)"
        using u(1) by (intro length_unmarked_any) simp_all
      also have "\<dots> = card {g. g < length (chains c) \<and> \<not> ?u ! g}"
        unfolding unmarked_upt by (simp add: distinct_length_filter Int_def u(1) conj_commute)
      finally show ?thesis .
    qed
    also have "{g. g < length (chains c) \<and> \<not> ?u ! g} =
        {0} \<union> groupId ` {a \<in> set (all_arcs M). \<not> isLocked (groupId a)}"
      using u(2) assms(2,4) by auto
    finally show ?thesis .
  qed
  ultimately show ?thesis using e(2) by simp
qed

theorem cascade_compress_chains_spec_witness:
  "length (chains (fst (compress_chains (example_chains, example_composed [(3, 1/2), (0, 1), (3, 5)])))) = 2"
proof -
  have a: "chains example_chains \<noteq> []" "length (chains example_chains) < uint_minus1"
    "\<forall>a \<in> set (all_arcs (example_composed [(3, 1/2), (0, 1), (3, 5)])). groupId a < length (chains example_chains)"
    by (simp_all add: example_chains_def example_composed_def all_arcs_def uint_minus1_def)
  have "card ({0} \<union> groupId ` {a \<in> set (all_arcs (example_composed [(3, 1/2), (0, 1), (3, 5)])).
      \<not> isLocked (groupId a)}) = card {0, 3 :: nat}"
    unfolding set_filter [symmetric]
    by (rule arg_cong [where f = card]) (auto simp: example_composed_def all_arcs_def isLocked_def locked_group_def)
  then show ?thesis using cascade_compress_chains_spec [OF prod.collapse [symmetric] a] by simp
qed

end
