(* ===== verification/Compose.thy ===== *)
theory Compose
  imports Cascade Digits
begin

text \<open>
  Composition of two transducers: \<open>WFST::set_compose\<close> of \<open>carmel/src/compose.cc\<close> with the keys and hashes of
  \<open>compose.h\<close> and the names of composed states (\<open>TrioNamer\<close>).  A composed state is a trio of a state of each
  operand and the state of the epsilon filter; trios are numbered in the order they are first seen.  The
  operands are passed and returned because their states get an index while they are composed.
\<close>

section \<open>Keys\<close>

datatype TrioKey = TrioKey (trio_qa: nat) (trio_qb: nat) (trio_filter: nat)

datatype HalfArcState = HalfArcState (l_dest: nat) (r_source: nat) (l_hiddenLetter: nat)

definition trio_hash :: "nat \<Rightarrow> nat \<Rightarrow> TrioKey \<Rightarrow> nat" where
  "trio_hash gAStates gBStates t =
     unat (uint32_hash (of_nat (gBStates * (trio_filter t * gAStates + trio_qa t) + trio_qb t)))"

definition half_arc_hash :: "nat \<Rightarrow> nat \<Rightarrow> HalfArcState \<Rightarrow> nat" where
  "half_arc_hash gAStates gBStates s =
     unat (uint32_hash (of_nat (gBStates * (l_hiddenLetter s * gAStates + l_dest s) + r_source s)))"

section \<open>Names of composed states\<close>

datatype compose_error = state_name_too_long | special_out_of_bounds | no_fuel

fun bind_error :: "'e + 'a \<Rightarrow> ('a \<Rightarrow> 'e + 'b) \<Rightarrow> 'e + 'b" where
  "bind_error (Inl e) f = Inl e"
| "bind_error (Inr x) f = f x"

fun fold_error :: "('a \<Rightarrow> 's \<Rightarrow> 'e + 's) \<Rightarrow> 'a list \<Rightarrow> 's \<Rightarrow> 'e + 's" where
  "fold_error f [] s = Inr s"
| "fold_error f (x # xs) s = bind_error (f x s) (fold_error f xs)"

text \<open>A character above 127 is negative, and is an index past the end of the table \<open>special\<close>.  \<open>capacity\<close> is \<open>MAX_STATENAME_LEN + 1\<close> and the limit of the buffer 6 less.\<close>

definition MAX_STATENAME_LEN :: nat where "MAX_STATENAME_LEN = 15000"

definition namer_limit :: nat where "namer_limit = MAX_STATENAME_LEN + 1 - 6"

definition append_safe :: "string \<Rightarrow> string \<Rightarrow> compose_error + string" where
  "append_safe p str =
     (if \<exists>c \<in> set (take (namer_limit - length p) str). 128 \<le> char_code c then Inl special_out_of_bounds
      else if length str \<le> namer_limit - length p then Inr (p @ str) else Inl state_name_too_long)"

definition should_quote :: "string \<Rightarrow> bool" where
  "should_quote buf \<longleftrightarrow>
     (buf \<noteq> [] \<and> hd buf = CHR 0x22) \<or> (\<exists>c \<in> set buf. c = CHR ''('' \<or> c = CHR '')'' \<or> c = CHR '' '')"

definition namer_finish :: "string \<Rightarrow> string" where
  "namer_finish buf =
     (if should_quote buf
      then [CHR 0x22] @ concat (map (\<lambda>c. if c = CHR 0x22 \<or> c = CHR 0x5C then [CHR 0x5C, c] else [c]) buf) @ [CHR 0x22]
      else buf)"

definition stateName :: "'w WFST \<Rightarrow> nat \<Rightarrow> string" where
  "stateName M i = (if named_states M then names (stateNames M) ! i else utoa (of_nat i :: 32 word) [])"

definition namer_make :: "'w WFST \<Rightarrow> 'w WFST \<Rightarrow> TrioKey \<Rightarrow> compose_error + string" where
  "namer_make a b t =
     bind_error (append_safe [] (stateName a (trio_qa t)))
       (\<lambda>p. bind_error (append_safe (p @ [CHR ''|'', char_of (trio_filter t + 48), CHR ''|'']) (stateName b (trio_qb t)))
         (\<lambda>p. Inr (namer_finish p)))"

definition namer_make_mediate :: "'w WFST \<Rightarrow> 'w WFST \<Rightarrow> alph_heap \<Rightarrow> HalfArcState \<Rightarrow> compose_error + string" where
  "namer_make_mediate a b h m =
     bind_error (append_safe [] (stateName b (r_source m)))
       (\<lambda>p. bind_error (append_safe (p @ '','') (the (letter a h (l_hiddenLetter m) kOutput)))
         (\<lambda>p. bind_error (append_safe (p @ ''->'') (stateName a (l_dest m)))
           (\<lambda>p. Inr (namer_finish p))))"

section \<open>State of the construction\<close>

record 'w compose_state =
  c_a :: "'w WFST"
  c_b :: "'w WFST"
  c_states :: "'w State list"
  c_names :: Alphabet
  stateMap :: "(TrioKey, nat) HashTable"
  arcStateMap :: "(HalfArcState, nat) HashTable"
  c_queue :: "(nat \<times> TrioKey) list"
  c_cascade :: "'w cascade_parameters"

text \<open>What stays fixed: the names are kept or not, the interface maps, the heap of alphabets, the transducers
  of the cascade and the addresses of the operands in it.\<close>

record 'w compose_env =
  e_named :: bool
  e_map :: "nat list"
  e_revMap :: "nat list"
  e_alphs :: alph_heap
  e_cascade :: "'w WFST list"
  e_addr_a :: nat
  e_addr_b :: nat

datatype 'w recorded =
  Record1 "param \<times> 'w FSTArc" | Record2 "param \<times> 'w FSTArc" | Record "param \<times> 'w FSTArc" "param \<times> 'w FSTArc"

text \<open>One arc of the composition before it is numbered: the values of \<open>in\<close>, \<open>out\<close>, \<open>weight\<close> and \<open>triDest\<close>
  at \<open>COMPOSEARC_GROUP\<close> and what is recorded for it.\<close>

record 'w move =
  m_in :: nat
  m_out :: nat
  m_weight :: 'w
  m_dest :: TrioKey
  m_rec :: "'w recorded"

definition record_group ::
  "('w::one) WFST list \<Rightarrow> 'w recorded \<Rightarrow> 'w cascade_parameters \<Rightarrow> nat \<times> 'w cascade_parameters" where
  "record_group cas r c =
     (case r of Record1 l \<Rightarrow> record1 l c | Record2 x \<Rightarrow> record2 x c | Record l x \<Rightarrow> record_pair cas l x c)"

definition compose_arc ::
  "('w::one) compose_env \<Rightarrow> nat \<Rightarrow> 'w move \<Rightarrow> 'w compose_state \<Rightarrow> compose_error + 'w compose_state" where
  "compose_arc env sourceState m st =
     (let n = length (c_states st);
          hf = trio_hash (numStates (c_a st)) (numStates (c_b st));
          (sm, num, new) = ht_insert hf (m_dest m) n (stateMap st)
      in bind_error
           (if new
            then bind_error (if e_named env then map_sum id (\<lambda>s. alph_add_at s (c_names st)) (namer_make (c_a st) (c_b st) (m_dest m))
                             else Inr (c_names st))
                   (\<lambda>nm. Inr (st\<lparr>stateMap := sm, c_queue := (n, m_dest m) # c_queue st,
                                 c_states := c_states st @ [state_new], c_names := nm\<rparr>))
            else Inr (st\<lparr>stateMap := sm\<rparr>))
           (\<lambda>st. let (g, cas) = record_group (e_cascade env) (m_rec m) (c_cascade st)
                  in Inr (st\<lparr>c_cascade := cas,
                            c_states := (c_states st)[sourceState :=
                              addArc \<lparr>arc_in = m_in m, arc_out = m_out m, arc_dest = num, arc_weight = m_weight m, groupId = g\<rparr>
                                (c_states st ! sourceState)]\<rparr>)))"

section \<open>The arcs of one trio, three state filter\<close>

text \<open>The arcs of a state with their addresses, and the ones an index gives for a symbol.\<close>

definition arcs_of :: "nat \<Rightarrow> 'w WFST \<Rightarrow> nat \<Rightarrow> (param \<times> 'w FSTArc) list" where
  "arcs_of addr M q = map (\<lambda>(i, x). ((addr, q, i), x)) (enumerate 0 (arcs (states M ! q)))"

definition matches_of :: "nat \<Rightarrow> 'w WFST \<Rightarrow> nat \<Rightarrow> nat \<Rightarrow> (param \<times> 'w FSTArc) list" where
  "matches_of addr M q sy =
     (case find_second uint_hash (the (state_index (states M ! q))) sy of
        None \<Rightarrow> []
      | Some ps \<Rightarrow> map (\<lambda>p. ((addr, q, p), arcs (states M ! q) ! p)) ps)"

definition move_l :: "TrioKey \<Rightarrow> param \<times> 'w FSTArc \<Rightarrow> 'w move" where
  "move_l t l = \<lparr>m_in = arc_in (snd l), m_out = epsilon_index, m_weight = arc_weight (snd l),
     m_dest = TrioKey (arc_dest (snd l)) (trio_qb t) 1, m_rec = Record1 l\<rparr>"

definition move_r :: "TrioKey \<Rightarrow> param \<times> 'w FSTArc \<Rightarrow> 'w move" where
  "move_r t x = \<lparr>m_in = epsilon_index, m_out = arc_out (snd x), m_weight = arc_weight (snd x),
     m_dest = TrioKey (trio_qa t) (arc_dest (snd x)) 2, m_rec = Record2 x\<rparr>"

definition move_lr :: "param \<times> ('w::times) FSTArc \<Rightarrow> param \<times> 'w FSTArc \<Rightarrow> 'w move" where
  "move_lr l x = \<lparr>m_in = arc_in (snd l), m_out = arc_out (snd x), m_weight = arc_weight (snd l) * arc_weight (snd x),
     m_dest = TrioKey (arc_dest (snd l)) (arc_dest (snd x)) 0, m_rec = Record l x\<rparr>"

text \<open>The right state is the larger one and is indexed.\<close>

definition moves_large_b :: "('w::times) compose_env \<Rightarrow> 'w WFST \<Rightarrow> 'w WFST \<Rightarrow> TrioKey \<Rightarrow> 'w move list" where
  "moves_large_b env a b t =
     concat (map (\<lambda>l.
       if arc_out (snd l) = epsilon_index
       then (if trio_filter t \<noteq> 2 then [move_l t l] else []) @
            (if trio_filter t = 0
             then map (move_lr l) (matches_of (e_addr_b env) b (trio_qb t) epsilon_index) else [])
       else map (move_lr l) (matches_of (e_addr_b env) b (trio_qb t) (e_map env ! arc_out (snd l))))
       (arcs_of (e_addr_a env) a (trio_qa t))) @
     (if trio_filter t \<noteq> 1 then map (move_r t) (matches_of (e_addr_b env) b (trio_qb t) epsilon_index) else [])"

text \<open>The left state is the larger one and is indexed.\<close>

definition moves_large_a :: "('w::times) compose_env \<Rightarrow> 'w WFST \<Rightarrow> 'w WFST \<Rightarrow> TrioKey \<Rightarrow> 'w move list" where
  "moves_large_a env a b t =
     concat (map (\<lambda>x.
       if arc_in (snd x) = epsilon_index
       then (if trio_filter t \<noteq> 1 then [move_r t x] else []) @
            (if trio_filter t = 0
             then map (\<lambda>l. move_lr l x) (matches_of (e_addr_a env) a (trio_qa t) epsilon_index) else [])
       else map (\<lambda>l. move_lr l x) (matches_of (e_addr_a env) a (trio_qa t) (e_revMap env ! arc_in (snd x))))
       (arcs_of (e_addr_b env) b (trio_qb t))) @
     (if trio_filter t \<noteq> 2 then map (move_l t) (matches_of (e_addr_a env) a (trio_qa t) epsilon_index) else [])"

text \<open>Neither is indexed.\<close>

definition moves_small :: "('w::times) compose_env \<Rightarrow> 'w WFST \<Rightarrow> 'w WFST \<Rightarrow> TrioKey \<Rightarrow> 'w move list" where
  "moves_small env a b t =
     (let rs = arcs_of (e_addr_b env) b (trio_qb t)
      in concat (map (\<lambda>l.
           if arc_out (snd l) = epsilon_index
           then (if trio_filter t \<noteq> 2 then [move_l t l] else []) @
                (if trio_filter t = 0
                 then map (move_lr l) (filter (\<lambda>x. arc_in (snd x) = epsilon_index) rs) else [])
           else map (move_lr l) (filter (\<lambda>x. e_map env ! arc_out (snd l) = arc_in (snd x)) rs))
           (arcs_of (e_addr_a env) a (trio_qa t))) @
         (if trio_filter t \<noteq> 1 then map (move_r t) (filter (\<lambda>x. arc_in (snd x) = epsilon_index) rs) else []))"

definition indexThreshold :: nat where "indexThreshold = 12"

definition index_state :: "LabelType \<Rightarrow> nat \<Rightarrow> 'w WFST \<Rightarrow> 'w WFST" where
  "index_state dir q M = M\<lparr>states := (states M)[q := indexBy dir (states M ! q)]\<rparr>"

definition compose_moves :: "('w::times) compose_env \<Rightarrow> TrioKey \<Rightarrow> 'w compose_state \<Rightarrow> 'w move list \<times> 'w compose_state" where
  "compose_moves env t st =
     (let na = state_size (states (c_a st) ! trio_qa t); nb = state_size (states (c_b st) ! trio_qb t);
          larger_a = na > nb
      in if (if larger_a then na else nb) > indexThreshold
         then if \<not> larger_a
              then (let b = index_state kInput (trio_qb t) (c_b st)
                    in (moves_large_b env (c_a st) b t, st\<lparr>c_b := b\<rparr>))
              else (let a = index_state kOutput (trio_qa t) (c_a st)
                    in (moves_large_a env a (c_b st) t, st\<lparr>c_a := a\<rparr>))
         else (moves_small env (c_a st) (c_b st) t, st))"

definition compose_trio ::
  "('w::{one,times}) compose_env \<Rightarrow> nat \<times> TrioKey \<Rightarrow> 'w compose_state \<Rightarrow> compose_error + 'w compose_state" where
  "compose_trio env qi st = (let (ms, st) = compose_moves env (snd qi) st in fold_error (compose_arc env (fst qi)) ms st)"

section \<open>Two state filter, keeping groups\<close>

definition move_group_l :: "TrioKey \<Rightarrow> param \<times> 'w FSTArc \<Rightarrow> 'w move" where
  "move_group_l t l = \<lparr>m_in = arc_in (snd l), m_out = epsilon_index, m_weight = arc_weight (snd l),
     m_dest = TrioKey (arc_dest (snd l)) (trio_qb t) 0, m_rec = Record1 l\<rparr>"

definition move_group_r :: "nat \<Rightarrow> nat \<Rightarrow> param \<times> 'w FSTArc \<Rightarrow> 'w move" where
  "move_group_r qa f x = \<lparr>m_in = epsilon_index, m_out = arc_out (snd x), m_weight = arc_weight (snd x),
     m_dest = TrioKey qa (arc_dest (snd x)) f, m_rec = Record2 x\<rparr>"

text \<open>One arc of the left operand with an output letter that the right state reads: its composed arc leads
  to a mediate state that reads the letter in the right operand.\<close>

definition compose_mediate ::
  "('w::{one,times}) compose_env \<Rightarrow> nat \<times> TrioKey \<Rightarrow> (param \<times> 'w FSTArc) list \<Rightarrow> nat \<Rightarrow> param \<times> 'w FSTArc
    \<Rightarrow> 'w compose_state \<Rightarrow> compose_error + 'w compose_state" where
  "compose_mediate env qi matches sy la st =
     (let mediate = HalfArcState (arc_dest (snd la)) (trio_qb (snd qi)) sy;
          n = length (c_states st);
          hf = half_arc_hash (numStates (c_a st)) (numStates (c_b st));
          (am, mediateState, new) = ht_insert hf mediate n (arcStateMap st);
          st = st\<lparr>arcStateMap := am\<rparr>
      in bind_error
           (if new
            then bind_error (if e_named env
                             then map_sum id (\<lambda>s. alph_add_at s (c_names st))
                                    (namer_make_mediate (c_a st) (c_b st) (e_alphs env) mediate)
                             else Inr (c_names st))
                   (\<lambda>nm. fold_error (compose_arc env mediateState)
                           (map (move_group_r (l_dest mediate) 0) matches)
                           (st\<lparr>c_states := c_states st @ [state_new], c_names := nm\<rparr>))
            else Inr st)
           (\<lambda>st. let (g, cas) = record1 la (c_cascade st)
                  in Inr (st\<lparr>c_cascade := cas,
                            c_states := (c_states st)[fst qi :=
                              addArc \<lparr>arc_in = arc_in (snd la), arc_out = epsilon_index, arc_dest = mediateState,
                                      arc_weight = arc_weight (snd la), groupId = g\<rparr>
                                (c_states st ! fst qi)]\<rparr>)))"

definition compose_letter ::
  "('w::{one,times}) compose_env \<Rightarrow> nat \<times> TrioKey \<Rightarrow> nat \<times> nat list \<Rightarrow> 'w compose_state
    \<Rightarrow> compose_error + 'w compose_state" where
  "compose_letter env qi ll st =
     (let t = snd qi; las = map (\<lambda>p. ((e_addr_a env, trio_qa t, p), arcs (states (c_a st) ! trio_qa t) ! p)) (snd ll)
      in if fst ll = epsilon_index
         then (if trio_filter t = 0 then fold_error (compose_arc env (fst qi)) (map (move_group_l t) las) st else Inr st)
         else (let matches = matches_of (e_addr_b env) (c_b st) (trio_qb t) (e_map env ! fst ll)
               in if matches = [] then Inr st else fold_error (compose_mediate env qi matches (fst ll)) las st))"

definition compose_trio_groups ::
  "('w::{one,times}) compose_env \<Rightarrow> nat \<times> TrioKey \<Rightarrow> 'w compose_state \<Rightarrow> compose_error + 'w compose_state" where
  "compose_trio_groups env qi st0 =
     (let t = snd qi;
          st = st0\<lparr>c_a := index_state kOutput (trio_qa t) (c_a st0), c_b := index_state kInput (trio_qb t) (c_b st0)\<rparr>;
          aindex = the (state_index (states (c_a st) ! trio_qa t))
      in bind_error (fold_error (compose_letter env qi) (entries aindex) st)
           (fold_error (compose_arc env (fst qi))
              (map (move_group_r (trio_qa t) 1) (matches_of (e_addr_b env) (c_b st) (trio_qb t) epsilon_index))))"

section \<open>The queue and the final state\<close>

text \<open>\<open>queue\<close> is used at its front only.  Fuel bounds the number of trios taken from it.\<close>

fun compose_loop ::
  "(nat \<times> TrioKey \<Rightarrow> 'w compose_state \<Rightarrow> compose_error + 'w compose_state) \<Rightarrow> nat \<Rightarrow> 'w compose_state
    \<Rightarrow> compose_error + 'w compose_state" where
  "compose_loop f 0 st = (if c_queue st = [] then Inr st else Inl no_fuel)"
| "compose_loop f (Suc fuel) st =
     (case c_queue st of
        [] \<Rightarrow> Inr st
      | qi # q \<Rightarrow> bind_error (f qi (st\<lparr>c_queue := q\<rparr>)) (compose_loop f fuel))"

definition final_trios :: "'w compose_state \<Rightarrow> nat list" where
  "final_trios st =
     concat (map (\<lambda>f. case find_second (trio_hash (numStates (c_a st)) (numStates (c_b st))) (stateMap st)
                             (TrioKey (final (c_a st)) (final (c_b st)) f) of
                        None \<Rightarrow> [] | Some p \<Rightarrow> [p]) [0, 1, 2])"

definition compose_start :: "bool \<Rightarrow> 'w WFST \<Rightarrow> 'w WFST \<Rightarrow> 'w cascade_parameters \<Rightarrow> compose_error + 'w compose_state" where
  "compose_start namedStates a b cas =
     (let n = 2 * (numStates a + numStates b); hf = trio_hash (numStates a) (numStates b); t = TrioKey 0 0 0
      in bind_error (if namedStates then map_sum id (\<lambda>s. alph_add_at s alph_empty) (namer_make a b t) else Inr alph_empty)
           (\<lambda>nm. Inr \<lparr>c_a = a, c_b = b, c_states = [state_new], c_names = nm,
                      stateMap = ht_update hf 0 t (\<lambda>_. 0) (ht_new n), arcStateMap = ht_new n,
                      c_queue = [(0, t)], c_cascade = cas\<rparr>))"

text \<open>With several final trios a new final state is reached from each by a locked epsilon arc of weight 1.\<close>

definition compose_finish :: "('w::one) compose_env \<Rightarrow> 'w compose_state \<Rightarrow> ('w State list \<times> Alphabet \<times> nat) option" where
  "compose_finish env st =
     (let ps = final_trios st
      in if ps = [] then None
         else if length ps = 1 then Some (c_states st, c_names st, last ps)
         else (let f = length (c_states st);
                   a = \<lparr>arc_in = epsilon_index, arc_out = epsilon_index, arc_dest = f, arc_weight = 1,
                        groupId = locked_1_groupid (c_cascade st)\<rparr>
               in Some (fold (\<lambda>p ss. ss[p := addArc a (ss ! p)]) ps (c_states st @ [state_new]),
                        (if e_named env then alph_add_at ''final'' (c_names st) else c_names st), f)))"

definition compose_env_of ::
  "bool \<Rightarrow> alph_heap \<Rightarrow> 'w WFST list \<Rightarrow> nat \<Rightarrow> nat \<Rightarrow> 'w WFST \<Rightarrow> 'w WFST \<Rightarrow> 'w compose_env" where
  "compose_env_of namedStates h casc addr_a addr_b a b =
     (let aout = the (h ! the (alph a kOutput)); bin = the (h ! the (alph b kInput))
      in \<lparr>e_named = namedStates, e_map = computeMap aout bin, e_revMap = computeMap bin aout, e_alphs = h,
          e_cascade = casc, e_addr_a = addr_a, e_addr_b = addr_b\<rparr>)"

definition compose_fuel :: "'w WFST \<Rightarrow> 'w WFST \<Rightarrow> nat" where
  "compose_fuel a b = Suc (3 * numStates a * numStates b)"

text \<open>\<open>set_compose\<close> on the object \<open>M\<close>: the composition, its operands and the cascade afterwards.\<close>

definition set_compose ::
  "bool \<Rightarrow> bool \<Rightarrow> 'w WFST list \<Rightarrow> nat \<Rightarrow> nat \<Rightarrow> ('w::{one,times}) WFST \<Rightarrow> 'w WFST \<Rightarrow> 'w cascade_parameters
    \<Rightarrow> 'w WFST \<times> alph_heap \<Rightarrow> compose_error + ('w WFST \<times> alph_heap \<times> 'w WFST \<times> 'w WFST \<times> 'w cascade_parameters)" where
  "set_compose namedStates preserveGroups casc addr_a addr_b a b cas mh =
     (let (M, h) = deleteAlphabet kOutput (deleteAlphabet kInput mh);
          M = M\<lparr>owner_alph := \<lambda>_. False, alph := (alph M)(kInput := alph a kInput, kOutput := alph b kOutput)\<rparr>
      in if \<not> (valid a \<and> valid b)
         then (let (M, h) = wfst_clear (M, h) in Inr (M, h, a, b, cas))
         else
           (let env = compose_env_of namedStates h casc addr_a addr_b a b
            in bind_error (compose_start namedStates a b cas)
                 (\<lambda>st. bind_error
                    (compose_loop (if preserveGroups then compose_trio_groups env else compose_trio env) (compose_fuel a b) st)
                    (\<lambda>st. let M = M\<lparr>named_states := namedStates,
                                    stateNames := (if namedStates then c_names st else stateNames M)\<rparr>
                           in case compose_finish env st of
                                None \<Rightarrow> (let (M, h) = wfst_clear (M\<lparr>states := c_states st\<rparr>, h)
                                         in Inr (M, h, c_a st, c_b st, c_cascade st))
                              | Some (ss, nm, f) \<Rightarrow>
                                  Inr (M\<lparr>states := ss, final := f,
                                         stateNames := (if namedStates then nm else stateNames M)\<rparr>,
                                       h, c_a st, c_b st, c_cascade st)))))"

text \<open>The constructor \<open>WFST(a, b, namedStates, preserveGroups)\<close>: a trivial cascade.\<close>

definition wfst_compose ::
  "bool \<Rightarrow> bool \<Rightarrow> ('w::{one,times}) WFST \<Rightarrow> 'w WFST \<Rightarrow> alph_heap
    \<Rightarrow> compose_error + ('w WFST \<times> alph_heap \<times> 'w WFST \<times> 'w WFST \<times> 'w cascade_parameters)" where
  "wfst_compose namedStates preserveGroups a b h =
     set_compose namedStates preserveGroups [] 0 1 a b (cascade_new False)
       (\<lparr>owner_alph = \<lambda>_. False, alph = \<lambda>_. None, named_states = False, stateNames = alph_empty,
         final = 0, states = [], indexed_by = kNone\<rparr>, h)"

section \<open>The branches agree\<close>

definition index_fits :: "LabelType \<Rightarrow> 'w WFST \<Rightarrow> bool" where
  "index_fits dir M \<longleftrightarrow> (\<forall>s \<in> set (states M). \<forall>ix. state_index s = Some ix \<longrightarrow> index_ok dir (arcs s) ix)"

definition interface_ok :: "'w compose_env \<Rightarrow> 'w WFST \<Rightarrow> 'w WFST \<Rightarrow> bool" where
  "interface_ok env a b \<longleftrightarrow>
     (\<forall>l \<in> set (all_arcs a). \<forall>x \<in> set (all_arcs b).
        (e_map env ! arc_out l = arc_in x \<longleftrightarrow> e_revMap env ! arc_in x = arc_out l) \<and>
        (e_map env ! arc_out l = arc_in x \<longrightarrow> (arc_out l = epsilon_index \<longleftrightarrow> arc_in x = epsilon_index)))"

lemma snd_arcs_of: "map snd (arcs_of addr M q) = arcs (states M ! q)"
  by (simp add: arcs_of_def case_prod_unfold comp_def)

lemma matches_of_index:
  assumes "state_index (states M ! q) = Some ix" "index_ok dir (arcs (states M ! q)) ix"
  shows "matches_of addr M q sy = rev (filter (\<lambda>x. arc_symbol dir (snd x) = sy) (arcs_of addr M q))"
proof -
  let ?as = "arcs (states M ! q)"
  let ?f = "\<lambda>p. ((addr, q, p), ?as ! p)"
  have "arcs_of addr M q = map ?f [0..<length ?as]"
    by (rule nth_equalityI) (simp_all add: arcs_of_def nth_enumerate_eq)
  then have "filter (\<lambda>x. arc_symbol dir (snd x) = sy) (arcs_of addr M q) =
      map ?f (positions (\<lambda>a. arc_symbol dir a = sy) ?as)"
    by (simp add: positions_def filter_map comp_def)
  then show ?thesis using assms by (auto simp: matches_of_def index_ok_def Let_def rev_map)
qed

text \<open>Both sides of a loop over pairs of arcs as a sum of singletons.\<close>

definition pair_moves :: "('a \<Rightarrow> 'b \<Rightarrow> bool) \<Rightarrow> ('a \<Rightarrow> 'b \<Rightarrow> 'm) \<Rightarrow> 'a list \<Rightarrow> 'b list \<Rightarrow> 'm multiset" where
  "pair_moves P g ls rs = (\<Sum>l\<leftarrow>ls. image_mset (g l) (filter_mset (P l) (mset rs)))"

lemma pair_moves_swap: "pair_moves P g ls rs = pair_moves (\<lambda>x l. P l x) (\<lambda>x l. g l x) rs ls"
proof (induction ls)
  case Nil
  then show ?case by (simp add: pair_moves_def)
next
  case (Cons l ls)
  have "pair_moves (\<lambda>x l. P l x) (\<lambda>x l. g l x) rs (l # ls) =
      image_mset (g l) (filter_mset (P l) (mset rs)) + pair_moves (\<lambda>x l. P l x) (\<lambda>x l. g l x) rs ls"
    by (induction rs) (auto simp: pair_moves_def)
  then show ?case using Cons.IH by (simp add: pair_moves_def)
qed

lemma pair_moves_cong:
  "(\<And>l x. l \<in> set ls \<Longrightarrow> x \<in> set rs \<Longrightarrow> P l x = Q l x) \<Longrightarrow> pair_moves P g ls rs = pair_moves Q g ls rs"
  unfolding pair_moves_def
  by (intro arg_cong [where f = sum_list] map_cong arg_cong [where f = "image_mset _"] filter_mset_cong) auto

definition pair_ok :: "'w compose_env \<Rightarrow> TrioKey \<Rightarrow> param \<times> 'w FSTArc \<Rightarrow> param \<times> 'w FSTArc \<Rightarrow> bool" where
  "pair_ok env t l x \<longleftrightarrow>
     (if arc_out (snd l) = epsilon_index then trio_filter t = 0 \<and> arc_in (snd x) = epsilon_index
      else e_map env ! arc_out (snd l) = arc_in (snd x))"

definition single_moves :: "bool \<Rightarrow> ('a \<Rightarrow> 'm) \<Rightarrow> ('a \<Rightarrow> bool) \<Rightarrow> 'a list \<Rightarrow> 'm multiset" where
  "single_moves c g P xs = (if c then image_mset g (filter_mset P (mset xs)) else {#})"

definition trio_moves :: "('w::times) compose_env \<Rightarrow> 'w WFST \<Rightarrow> 'w WFST \<Rightarrow> TrioKey \<Rightarrow> 'w move multiset" where
  "trio_moves env a b t =
     (let ls = arcs_of (e_addr_a env) a (trio_qa t); rs = arcs_of (e_addr_b env) b (trio_qb t)
      in single_moves (trio_filter t \<noteq> 2) (move_l t) (\<lambda>l. arc_out (snd l) = epsilon_index) ls +
         single_moves (trio_filter t \<noteq> 1) (move_r t) (\<lambda>x. arc_in (snd x) = epsilon_index) rs +
         pair_moves (pair_ok env t) move_lr ls rs)"

lemma mset_concat_map_split:
  "mset (concat (map (\<lambda>l. if e l then (if c then [g l] else []) @ h l else k l) ls)) =
    single_moves c g e ls + (\<Sum>l\<leftarrow>ls. mset (if e l then h l else k l))"
  by (induction ls) (auto simp: single_moves_def)

lemma moves_small_mset: "mset (moves_small env a b t) = trio_moves env a b t"
proof -
  have pm: "(\<Sum>l\<leftarrow>ls. mset (if e l then if c then map (g l) (filter P rs) else [] else map (g l) (filter (Q l) rs))) =
      pair_moves (\<lambda>l x. if e l then c \<and> P x else Q l x) g ls rs" for ls e c g P and rs :: "(param \<times> 'a FSTArc) list" and Q
    unfolding pair_moves_def by (intro arg_cong [where f = sum_list] map_cong refl) auto
  have pair: "(\<lambda>l x. if arc_out (snd l) = epsilon_index then trio_filter t = 0 \<and> arc_in (snd x) = epsilon_index
      else e_map env ! arc_out (snd l) = arc_in (snd x)) = pair_ok env t"
    by (intro ext) (simp add: pair_ok_def)
  show ?thesis
    unfolding moves_small_def trio_moves_def Let_def mset_append mset_concat_map_split pm pair
    by (simp add: single_moves_def)
qed

lemma moves_large_b_mset:
  assumes "state_index (states b ! trio_qb t) = Some ix" "index_ok kInput (arcs (states b ! trio_qb t)) ix"
  shows "mset (moves_large_b env a b t) = trio_moves env a b t"
proof -
  note m = matches_of_index [OF assms, unfolded arc_symbol_def, simplified]
  have pm: "(\<Sum>l\<leftarrow>ls. mset (if e l then if c then map (g l) (rev (filter P rs)) else [] else map (g l) (rev (filter (Q l) rs)))) =
      pair_moves (\<lambda>l x. if e l then c \<and> P x else Q l x) g ls rs" for ls e c g P and rs :: "(param \<times> 'a FSTArc) list" and Q
    unfolding pair_moves_def by (intro arg_cong [where f = sum_list] map_cong refl) auto
  have pair: "(\<lambda>l x. if arc_out (snd l) = epsilon_index then trio_filter t = 0 \<and> arc_in (snd x) = epsilon_index
      else arc_in (snd x) = e_map env ! arc_out (snd l)) = pair_ok env t"
    by (intro ext) (auto simp: pair_ok_def)
  show ?thesis
    unfolding moves_large_b_def trio_moves_def Let_def mset_append mset_concat_map_split m pm pair
    by (simp add: single_moves_def)
qed

lemma moves_large_a_mset:
  assumes "state_index (states a ! trio_qa t) = Some ix" "index_ok kOutput (arcs (states a ! trio_qa t)) ix"
    and io: "interface_ok env a b" and q: "trio_qa t < numStates a" "trio_qb t < numStates b"
  shows "mset (moves_large_a env a b t) = trio_moves env a b t"
proof -
  note m = matches_of_index [OF assms(1,2), unfolded arc_symbol_def, simplified]
  have pm: "(\<Sum>l\<leftarrow>ls. mset (if e l then if c then map (g l) (rev (filter P rs)) else [] else map (g l) (rev (filter (Q l) rs)))) =
      pair_moves (\<lambda>l x. if e l then c \<and> P x else Q l x) g ls rs" for ls e c g P and rs :: "(param \<times> 'a FSTArc) list" and Q
    unfolding pair_moves_def by (intro arg_cong [where f = sum_list] map_cong refl) auto
  let ?ls = "arcs_of (e_addr_a env) a (trio_qa t)" and ?rs = "arcs_of (e_addr_b env) b (trio_qb t)"
  have all: "snd l \<in> set (all_arcs a)" "snd x \<in> set (all_arcs b)" if "l \<in> set ?ls" "x \<in> set ?rs" for l x
  proof -
    have "snd l \<in> set (arcs (states a ! trio_qa t))" "snd x \<in> set (arcs (states b ! trio_qb t))"
      using that by (metis image_eqI set_map snd_arcs_of)+
    then show "snd l \<in> set (all_arcs a)" "snd x \<in> set (all_arcs b)" using q by (auto simp: all_arcs_def)
  qed
  have "pair_moves (\<lambda>x l. if arc_in (snd x) = epsilon_index then trio_filter t = 0 \<and> arc_out (snd l) = epsilon_index
        else arc_out (snd l) = e_revMap env ! arc_in (snd x)) (\<lambda>x l. move_lr l x) ?rs ?ls =
      pair_moves (\<lambda>l x. if arc_in (snd x) = epsilon_index then trio_filter t = 0 \<and> arc_out (snd l) = epsilon_index
        else arc_out (snd l) = e_revMap env ! arc_in (snd x)) move_lr ?ls ?rs"
    by (rule pair_moves_swap [symmetric])
  also have "\<dots> = pair_moves (pair_ok env t) move_lr ?ls ?rs"
  proof (rule pair_moves_cong)
    fix l x assume "l \<in> set ?ls" "x \<in> set ?rs"
    from all [OF this] io show "(if arc_in (snd x) = epsilon_index then trio_filter t = 0 \<and> arc_out (snd l) = epsilon_index
        else arc_out (snd l) = e_revMap env ! arc_in (snd x)) = pair_ok env t l x"
      unfolding interface_ok_def pair_ok_def by metis
  qed
  finally have pair: "pair_moves (\<lambda>x l. if arc_in (snd x) = epsilon_index then trio_filter t = 0 \<and> arc_out (snd l) = epsilon_index
        else arc_out (snd l) = e_revMap env ! arc_in (snd x)) (\<lambda>x l. move_lr l x) ?rs ?ls =
      pair_moves (pair_ok env t) move_lr ?ls ?rs" .
  show ?thesis
    unfolding moves_large_a_def trio_moves_def Let_def mset_append mset_concat_map_split m pm pair
    by (simp add: single_moves_def)
qed

section \<open>Numbering the trios\<close>

text \<open>\<open>num st\<close> is the numbering so far.  \<open>P\<close> records, for each trio, the moves already turned into arcs.\<close>

definition num :: "'w compose_state \<Rightarrow> TrioKey \<Rightarrow> nat option" where
  "num st = find_second (trio_hash (numStates (c_a st)) (numStates (c_b st))) (stateMap st)"

definition arc_of_move :: "(TrioKey \<Rightarrow> nat option) \<Rightarrow> 'w move \<Rightarrow> 'w FSTArc \<Rightarrow> bool" where
  "arc_of_move nm m x \<longleftrightarrow> arc_in x = m_in m \<and> arc_out x = m_out m \<and> arc_weight x = m_weight m \<and>
     nm (m_dest m) = Some (arc_dest x)"

definition trio_in :: "nat \<Rightarrow> nat \<Rightarrow> TrioKey \<Rightarrow> bool" where
  "trio_in na nb t \<longleftrightarrow> trio_qa t < na \<and> trio_qb t < nb \<and> trio_filter t < 3"

definition numbering_ok :: "(TrioKey \<Rightarrow> nat option) \<Rightarrow> nat \<Rightarrow> bool" where
  "numbering_ok nm n \<longleftrightarrow> (\<forall>t i. nm t = Some i \<longrightarrow> i < n) \<and> inj_on nm (dom nm) \<and> (\<forall>i < n. \<exists>t. nm t = Some i)"

definition trios_ok :: "nat \<Rightarrow> nat \<Rightarrow> 'w compose_state \<Rightarrow> bool" where
  "trios_ok na nb st \<longleftrightarrow>
     ht_inv (trio_hash (numStates (c_a st)) (numStates (c_b st))) (stateMap st) \<and>
     numbering_ok (num st) (length (c_states st)) \<and> (\<forall>t \<in> dom (num st). trio_in na nb t) \<and>
     (\<forall>s \<in> set (c_states st). size_ok s) \<and>
     (\<forall>qi \<in> set (c_queue st). num st (snd qi) = Some (fst qi)) \<and> distinct (map snd (c_queue st))"

definition arcs_done :: "(TrioKey \<Rightarrow> 'w move list) \<Rightarrow> 'w compose_state \<Rightarrow> bool" where
  "arcs_done P st \<longleftrightarrow> (\<forall>t. case num st t of
      None \<Rightarrow> P t = []
    | Some i \<Rightarrow> list_all2 (arc_of_move (num st)) (rev (P t)) (arcs (c_states st ! i)))"

lemma numbering_ok_new:
  assumes "numbering_ok nm n" "nm t = None"
  shows "numbering_ok (nm(t \<mapsto> n)) (Suc n)"
proof -
  have lt: "\<And>t i. nm t = Some i \<Longrightarrow> i < n" and inj: "inj_on nm (dom nm)" and onto: "\<And>i. i < n \<Longrightarrow> \<exists>t. nm t = Some i"
    using assms(1) by (auto simp: numbering_ok_def)
  have "(nm(t \<mapsto> n)) u = Some i \<Longrightarrow> i < Suc n" for u i using lt [of u i] by (auto split: if_splits)
  moreover have "inj_on (nm(t \<mapsto> n)) (dom (nm(t \<mapsto> n)))"
  proof (rule inj_onI)
    fix u v assume u: "u \<in> dom (nm(t \<mapsto> n))" "v \<in> dom (nm(t \<mapsto> n))" "(nm(t \<mapsto> n)) u = (nm(t \<mapsto> n)) v"
    have nn: "nm w \<noteq> Some n" for w using lt [of w n] by auto
    show "u = v"
    proof (cases "u = t \<or> v = t")
      case True
      then show ?thesis using u(3) nn [of u] nn [of v] by (auto split: if_splits)
    next
      case False
      then show ?thesis using u inj_onD [OF inj, of u v] by (auto split: if_splits)
    qed
  qed
  moreover have "\<exists>u. (nm(t \<mapsto> n)) u = Some i" if "i < Suc n" for i
  proof (cases "i = n")
    case False
    then have "i < n" using that by simp
    then obtain u where "nm u = Some i" using onto by blast
    then show ?thesis using assms(2) by (intro exI [of _ u]) auto
  qed (auto intro: exI [of _ t])
  ultimately show ?thesis by (auto simp: numbering_ok_def)
qed

lemma numbering_ok_inj: "numbering_ok nm n \<Longrightarrow> nm t = Some i \<Longrightarrow> nm u = Some i \<Longrightarrow> t = u"
  unfolding numbering_ok_def by (metis domI inj_onD)

text \<open>What one \<open>COMPOSEARC\<close> leaves as it was, and what it adds.\<close>

definition composes :: "'w compose_state \<Rightarrow> 'w compose_state \<Rightarrow> bool" where
  "composes st st' \<longleftrightarrow> c_a st' = c_a st \<and> c_b st' = c_b st \<and> num st \<subseteq>\<^sub>m num st' \<and>
     (\<exists>q. c_queue st' = q @ c_queue st \<and> dom (num st') = dom (num st) \<union> snd ` set q \<and> snd ` set q \<inter> dom (num st) = {})"

lemma composes_refl [simp]: "composes st st"
  by (auto simp: composes_def)

lemma composes_trans: "composes a b \<Longrightarrow> composes b c \<Longrightarrow> composes a c"
  unfolding composes_def
proof (intro conjI)
  assume ab: "c_a b = c_a a \<and> c_b b = c_b a \<and> num a \<subseteq>\<^sub>m num b \<and>
     (\<exists>q. c_queue b = q @ c_queue a \<and> dom (num b) = dom (num a) \<union> snd ` set q \<and> snd ` set q \<inter> dom (num a) = {})"
    and bc: "c_a c = c_a b \<and> c_b c = c_b b \<and> num b \<subseteq>\<^sub>m num c \<and>
     (\<exists>q. c_queue c = q @ c_queue b \<and> dom (num c) = dom (num b) \<union> snd ` set q \<and> snd ` set q \<inter> dom (num b) = {})"
  from ab obtain q where "c_queue b = q @ c_queue a" "dom (num b) = dom (num a) \<union> snd ` set q"
    "snd ` set q \<inter> dom (num a) = {}" by (elim conjE exE)
  moreover from bc obtain p where "c_queue c = p @ c_queue b" "dom (num c) = dom (num b) \<union> snd ` set p"
    "snd ` set p \<inter> dom (num b) = {}" by (elim conjE exE)
  ultimately show "\<exists>q. c_queue c = q @ c_queue a \<and> dom (num c) = dom (num a) \<union> snd ` set q \<and> snd ` set q \<inter> dom (num a) = {}"
    by (intro exI [of _ "p @ q"]) auto
qed (auto intro: map_le_trans)

lemma arc_of_move_mono: "arc_of_move nm m x \<Longrightarrow> nm \<subseteq>\<^sub>m nm' \<Longrightarrow> arc_of_move nm' m x"
  by (auto simp: arc_of_move_def map_le_def dom_def)

lemma nth_add_new:
  assumes "i < length ss" "j \<le> length ss"
  shows "((ss @ [state_new])[i := addArc x ((ss @ [state_new]) ! i)]) ! j =
    (if j = i then addArc x (ss ! i) else if j < length ss then ss ! j else state_new)"
  using assms by (auto simp: nth_list_update nth_append)

lemma size_ok_state_new [simp]: "size_ok state_new" "arcs state_new = []"
  by (simp_all add: size_ok_def state_new_def)

definition new_arc :: "'w move \<Rightarrow> nat \<Rightarrow> nat \<Rightarrow> 'w FSTArc" where
  "new_arc m d g = \<lparr>arc_in = m_in m, arc_out = m_out m, arc_dest = d, arc_weight = m_weight m, groupId = g\<rparr>"

text \<open>\<open>COMPOSEARC\<close> without names, by whether the destination is new.\<close>

lemma compose_arc_cases:
  assumes "\<not> e_named env" "ht_inv (trio_hash (numStates (c_a st)) (numStates (c_b st))) (stateMap st)"
    and r: "record_group (e_cascade env) (m_rec m) (c_cascade st) = (g, cas)"
  obtains sm where "ht_inv (trio_hash (numStates (c_a st)) (numStates (c_b st))) sm"
    "(case num st (m_dest m) of
       Some d \<Rightarrow> find_second (trio_hash (numStates (c_a st)) (numStates (c_b st))) sm = num st \<and>
         compose_arc env i m st = Inr (st\<lparr>stateMap := sm, c_cascade := cas,
           c_states := (c_states st)[i := addArc (new_arc m d g) (c_states st ! i)]\<rparr>)
     | None \<Rightarrow> find_second (trio_hash (numStates (c_a st)) (numStates (c_b st))) sm =
           (num st)(m_dest m \<mapsto> length (c_states st)) \<and>
         compose_arc env i m st = Inr (st\<lparr>stateMap := sm, c_queue := (length (c_states st), m_dest m) # c_queue st,
           c_cascade := cas, c_states := (c_states st @ [state_new])[i :=
             addArc (new_arc m (length (c_states st)) g) ((c_states st @ [state_new]) ! i)]\<rparr>))"
proof -
  let ?hf = "trio_hash (numStates (c_a st)) (numStates (c_b st))"
  obtain sm d new where ins: "ht_insert ?hf (m_dest m) (length (c_states st)) (stateMap st) = (sm, d, new)"
    by (metis surj_pair)
  note c = ht.insert_new_cases [OF assms(2) ins]
  have n: "num st = find_second ?hf (stateMap st)" by (simp add: num_def)
  show ?thesis
  proof (rule that [OF c(1)])
    show "(case num st (m_dest m) of
       Some d \<Rightarrow> find_second ?hf sm = num st \<and>
         compose_arc env i m st = Inr (st\<lparr>stateMap := sm, c_cascade := cas,
           c_states := (c_states st)[i := addArc (new_arc m d g) (c_states st ! i)]\<rparr>)
     | None \<Rightarrow> find_second ?hf sm = (num st)(m_dest m \<mapsto> length (c_states st)) \<and>
         compose_arc env i m st = Inr (st\<lparr>stateMap := sm, c_queue := (length (c_states st), m_dest m) # c_queue st,
           c_cascade := cas, c_states := (c_states st @ [state_new])[i :=
             addArc (new_arc m (length (c_states st)) g) ((c_states st @ [state_new]) ! i)]\<rparr>))"
    proof (cases "num st (m_dest m)")
      case None
      then show ?thesis using c ins r assms(1) n by (simp add: compose_arc_def Let_def new_arc_def)
    next
      case (Some e)
      then have "find_second ?hf sm = num st" "d = e" "\<not> new" using c n by (simp_all add: fun_upd_idem)
      then show ?thesis using Some ins r assms(1) by (simp add: compose_arc_def Let_def new_arc_def)
    qed
  qed
qed

lemma arcs_done_step:
  assumes P: "arcs_done P st" and le: "num st \<subseteq>\<^sub>m num st'" and i: "num st ti = Some i"
    and inj: "\<And>t u j. num st' t = Some j \<Longrightarrow> num st' u = Some j \<Longrightarrow> t = u"
    and old: "\<And>t j. num st t = Some j \<Longrightarrow> arcs (c_states st' ! j) =
      (if j = i then x # arcs (c_states st ! j) else arcs (c_states st ! j))"
    and new: "\<And>t j. num st t = None \<Longrightarrow> num st' t = Some j \<Longrightarrow> arcs (c_states st' ! j) = []"
    and x: "arc_of_move (num st') m x"
  shows "arcs_done (P(ti := P ti @ [m])) st'"
  unfolding arcs_done_def
proof (intro allI)
  fix t
  have mono: "list_all2 (arc_of_move (num st)) as xs \<Longrightarrow> list_all2 (arc_of_move (num st')) as xs" for as xs
    by (erule list_all2_mono) (rule arc_of_move_mono [OF _ le])
  show "case num st' t of None \<Rightarrow> (P(ti := P ti @ [m])) t = []
      | Some j \<Rightarrow> list_all2 (arc_of_move (num st')) (rev ((P(ti := P ti @ [m])) t)) (arcs (c_states st' ! j))"
  proof (cases "num st t")
    case None
    then have Pt: "P t = []" "t \<noteq> ti" using P [unfolded arcs_done_def, rule_format, of t] i by auto
    then show ?thesis using new [OF None] by (auto split: option.split)
  next
    case (Some j)
    then have j: "num st' t = Some j" using le by (auto simp: map_le_def dom_def)
    have l: "list_all2 (arc_of_move (num st')) (rev (P t)) (arcs (c_states st ! j))"
    proof (rule mono)
      show "list_all2 (arc_of_move (num st)) (rev (P t)) (arcs (c_states st ! j))"
        using P [unfolded arcs_done_def, rule_format, of t] Some by simp
    qed
    have i': "num st' ti = Some i" using i le by (auto simp: map_le_def dom_def)
    show ?thesis
    proof (cases "t = ti")
      case True
      then have "j = i" using i Some by simp
      then show ?thesis using j l old [OF Some] x True by simp
    next
      case False
      then have "j \<noteq> i" using inj [OF j] i' by blast
      then show ?thesis using j l old [OF Some] False by simp
    qed
  qed
qed

lemma compose_arc_spec:
  assumes nm: "\<not> e_named env" and ok: "trios_ok na nb st" and i: "num st ti = Some i"
    and dest: "trio_in na nb (m_dest m)" and P: "arcs_done P st"
  shows "\<exists>st'. compose_arc env i m st = Inr st' \<and> trios_ok na nb st' \<and> composes st st' \<and>
    arcs_done (P(ti := P ti @ [m])) st' \<and>
    c_cascade st' = snd (record_group (e_cascade env) (m_rec m) (c_cascade st)) \<and>
    (\<forall>s \<in> set (c_states st'). \<forall>x \<in> set (arcs s). (\<exists>s0 \<in> set (c_states st). x \<in> set (arcs s0)) \<or>
       groupId x = fst (record_group (e_cascade env) (m_rec m) (c_cascade st)) \<and> arc_weight x = m_weight m)"
proof -
  let ?hf = "trio_hash (numStates (c_a st)) (numStates (c_b st))"
  obtain g cas where r: "record_group (e_cascade env) (m_rec m) (c_cascade st) = (g, cas)" by fastforce
  have inv: "ht_inv ?hf (stateMap st)" and nok: "numbering_ok (num st) (length (c_states st))"
    and sz: "\<forall>s \<in> set (c_states st). size_ok s" and rng: "\<forall>t \<in> dom (num st). trio_in na nb t"
    and q: "\<forall>qi \<in> set (c_queue st). num st (snd qi) = Some (fst qi)" "distinct (map snd (c_queue st))"
    using ok by (auto simp: trios_ok_def)
  have lt: "num st t = Some j \<Longrightarrow> j < length (c_states st)" for t j using nok by (auto simp: numbering_ok_def)
  obtain sm where sm: "ht_inv ?hf sm" and cs: "(case num st (m_dest m) of
       Some d \<Rightarrow> find_second ?hf sm = num st \<and>
         compose_arc env i m st = Inr (st\<lparr>stateMap := sm, c_cascade := cas,
           c_states := (c_states st)[i := addArc (new_arc m d g) (c_states st ! i)]\<rparr>)
     | None \<Rightarrow> find_second ?hf sm = (num st)(m_dest m \<mapsto> length (c_states st)) \<and>
         compose_arc env i m st = Inr (st\<lparr>stateMap := sm, c_queue := (length (c_states st), m_dest m) # c_queue st,
           c_cascade := cas, c_states := (c_states st @ [state_new])[i :=
             addArc (new_arc m (length (c_states st)) g) ((c_states st @ [state_new]) ! i)]\<rparr>))"
    by (rule compose_arc_cases [OF nm inv r])
  have szi: "size_ok (addArc x s)" if "size_ok s" for x and s :: "'a State" using that by (simp add: automata_simps)
  show ?thesis
  proof (cases "num st (m_dest m)")
    case (Some d)
    define st' where "st' = st\<lparr>stateMap := sm, c_cascade := cas,
        c_states := (c_states st)[i := addArc (new_arc m d g) (c_states st ! i)]\<rparr>"
    have e: "compose_arc env i m st = Inr st'" and n: "num st' = num st"
      using cs Some by (simp_all add: st'_def num_def)
    have old: "\<exists>s0 \<in> set (c_states st). x \<in> set (arcs s0)"
      if "s \<in> set (c_states st')" "x \<in> set (arcs s)" "x \<noteq> new_arc m d g" for s x
      using that lt [OF i] by (auto simp: st'_def addArc_def dest!: set_update_subset_insert [THEN subsetD])
    have "trios_ok na nb st'"
      unfolding trios_ok_def n using sm nok rng q sz szi lt [OF i]
      by (auto simp: st'_def dest!: set_update_subset_insert [THEN subsetD])
    moreover have "composes st st'" unfolding composes_def n
      by (intro conjI exI [of _ "[]"]) (simp_all add: st'_def)
    moreover have "arcs_done (P(ti := P ti @ [m])) st'"
    proof (rule arcs_done_step [OF P _ i, where x = "new_arc m d g"])
      show "num st \<subseteq>\<^sub>m num st'" by (simp add: n)
      show "num st' t = Some j \<Longrightarrow> num st' u = Some j \<Longrightarrow> t = u" for t u j
        unfolding n by (rule numbering_ok_inj [OF nok])
      show "arcs (c_states st' ! j) = (if j = i then new_arc m d g # arcs (c_states st ! j) else arcs (c_states st ! j))"
        if "num st t = Some j" for t j using lt [OF that] lt [OF i] by (simp add: st'_def addArc_def nth_list_update)
      show "arc_of_move (num st') m (new_arc m d g)" unfolding n using Some by (simp add: arc_of_move_def new_arc_def)
      show "arcs (c_states st' ! j) = []" if "num st t = None" "num st' t = Some j" for t j using that by (simp add: n)
    qed
    moreover have "\<forall>s \<in> set (c_states st'). \<forall>x \<in> set (arcs s). (\<exists>s0 \<in> set (c_states st). x \<in> set (arcs s0)) \<or>
        groupId x = g \<and> arc_weight x = m_weight m"
    proof (intro ballI)
      fix s x assume sx: "s \<in> set (c_states st')" "x \<in> set (arcs s)"
      show "(\<exists>s0 \<in> set (c_states st). x \<in> set (arcs s0)) \<or> groupId x = g \<and> arc_weight x = m_weight m"
        by (cases "x = new_arc m d g") (use old [OF sx] in \<open>simp_all add: new_arc_def\<close>)
    qed
    moreover have "c_cascade st' = cas" by (simp add: st'_def)
    ultimately show ?thesis unfolding r fst_conv snd_conv using e by blast
  next
    case None
    let ?n = "length (c_states st)"
    define st' where "st' = st\<lparr>stateMap := sm, c_queue := (?n, m_dest m) # c_queue st, c_cascade := cas,
        c_states := (c_states st @ [state_new])[i := addArc (new_arc m ?n g) ((c_states st @ [state_new]) ! i)]\<rparr>"
    have e: "compose_arc env i m st = Inr st'" and n: "num st' = (num st)(m_dest m \<mapsto> ?n)"
      using cs None by (simp_all add: st'_def num_def)
    have nok': "numbering_ok (num st') (Suc ?n)" unfolding n by (rule numbering_ok_new [OF nok None])
    have at: "c_states st' ! j = (if j = i then addArc (new_arc m ?n g) (c_states st ! i)
        else if j < ?n then c_states st ! j else state_new)" if "j \<le> ?n" for j
      using nth_add_new [OF lt [OF i] that] by (simp add: st'_def)
    have ndest: "m_dest m \<notin> snd ` set (c_queue st)" using q(1) None by auto
    have old: "\<exists>s0 \<in> set (c_states st). x \<in> set (arcs s0)"
      if "s \<in> set (c_states st')" "x \<in> set (arcs s)" "x \<noteq> new_arc m ?n g" for s x
      using that lt [OF i]
      by (auto simp: st'_def addArc_def nth_append dest!: set_update_subset_insert [THEN subsetD])
    have "trios_ok na nb st'"
      unfolding trios_ok_def
    proof (intro conjI)
      show "ht_inv (trio_hash (numStates (c_a st')) (numStates (c_b st'))) (stateMap st')" using sm by (simp add: st'_def)
      show "numbering_ok (num st') (length (c_states st'))" using nok' by (simp add: st'_def)
      show "\<forall>t \<in> dom (num st'). trio_in na nb t" using rng dest by (auto simp: n)
      show "\<forall>s \<in> set (c_states st'). size_ok s"
        using sz szi lt [OF i]
        by (auto simp: st'_def nth_append dest!: set_update_subset_insert [THEN subsetD])
      show "\<forall>qi \<in> set (c_queue st'). num st' (snd qi) = Some (fst qi)" using q(1) None by (auto simp: n) (auto simp: st'_def)
      show "distinct (map snd (c_queue st'))" using q(2) ndest by (simp add: st'_def)
    qed
    moreover have "composes st st'" unfolding composes_def
    proof (intro conjI exI [of _ "[(?n, m_dest m)]"])
      show "num st \<subseteq>\<^sub>m num st'" unfolding n using None by (auto simp: map_le_def)
      show "dom (num st') = dom (num st) \<union> snd ` set [(?n, m_dest m)]" unfolding n by auto
      show "snd ` set [(?n, m_dest m)] \<inter> dom (num st) = {}" using None by auto
    qed (simp_all add: st'_def)
    moreover have "arcs_done (P(ti := P ti @ [m])) st'"
    proof (rule arcs_done_step [OF P _ i, where x = "new_arc m ?n g"])
      show "num st \<subseteq>\<^sub>m num st'" using None by (auto simp: n map_le_def)
      show "num st' t = Some j \<Longrightarrow> num st' u = Some j \<Longrightarrow> t = u" for t u j by (rule numbering_ok_inj [OF nok'])
      show "arcs (c_states st' ! j) = (if j = i then new_arc m ?n g # arcs (c_states st ! j) else arcs (c_states st ! j))"
        if "num st t = Some j" for t j using lt [OF that] at by (simp add: addArc_def)
      show "arc_of_move (num st') m (new_arc m ?n g)" by (simp add: n arc_of_move_def new_arc_def)
      show "arcs (c_states st' ! j) = []" if "num st t = None" "num st' t = Some j" for t j
        using that at [of ?n] lt [OF i] by (auto simp: n split: if_splits)
    qed
    moreover have "\<forall>s \<in> set (c_states st'). \<forall>x \<in> set (arcs s). (\<exists>s0 \<in> set (c_states st). x \<in> set (arcs s0)) \<or>
        groupId x = g \<and> arc_weight x = m_weight m"
    proof (intro ballI)
      fix s x assume sx: "s \<in> set (c_states st')" "x \<in> set (arcs s)"
      show "(\<exists>s0 \<in> set (c_states st). x \<in> set (arcs s0)) \<or> groupId x = g \<and> arc_weight x = m_weight m"
        by (cases "x = new_arc m ?n g") (use old [OF sx] in \<open>simp_all add: new_arc_def\<close>)
    qed
    moreover have "c_cascade st' = cas" by (simp add: st'_def)
    ultimately show ?thesis unfolding r fst_conv snd_conv using e by blast
  qed
qed

definition move_recordable :: "('w::comm_semiring_1) WFST list \<Rightarrow> 'w cascade_parameters \<Rightarrow> 'w move \<Rightarrow> bool" where
  "move_recordable cas c m \<longleftrightarrow>
     (case m_rec m of
        Record1 l \<Rightarrow> recordable cas c (is_chain_first c) l \<and> m_weight m = arc_weight (snd l)
      | Record2 x \<Rightarrow> recordable cas c (is_chain_second c) x \<and> m_weight m = arc_weight (snd x)
      | Record l x \<Rightarrow> recordable cas c (is_chain_first c) l \<and> recordable cas c (is_chain_second c) x \<and>
          m_weight m = arc_weight (snd l) * arc_weight (snd x))"

lemma record_group_spec:
  assumes "cascade_ok cas c" "move_recordable cas c m" "record_group cas (m_rec m) c = (g, c')"
  shows "cascade_ok cas c' \<and> extends_chains c c' \<and> has_chain cas c' g (m_weight m)"
proof (cases "m_rec m")
  case (Record1 l)
  then show ?thesis using record_eps_spec [OF assms(1), of "is_chain_first c" l g c'] assms(2,3)
    by (simp add: move_recordable_def record_group_def record1_def)
next
  case (Record2 x)
  then show ?thesis using record_eps_spec [OF assms(1), of "is_chain_second c" x g c'] assms(2,3)
    by (simp add: move_recordable_def record_group_def record2_def)
next
  case (Record l x)
  then show ?thesis using record_pair_spec [OF assms(1), of l x g c'] assms(2,3)
    by (simp add: move_recordable_def record_group_def)
qed

definition groups_ok :: "('w::comm_semiring_1) compose_env \<Rightarrow> 'w compose_state \<Rightarrow> bool" where
  "groups_ok env st \<longleftrightarrow> cascade_ok (e_cascade env) (c_cascade st) \<and>
     (\<forall>s \<in> set (c_states st). \<forall>x \<in> set (arcs s). has_chain (e_cascade env) (c_cascade st) (groupId x) (arc_weight x))"

lemma move_recordable_extends: "move_recordable cas c m \<Longrightarrow> extends_chains c c' \<Longrightarrow> move_recordable cas c' m"
  by (auto simp: move_recordable_def extends_chains_def recordable_def has_chain_def nth_append split: recorded.splits)

lemma compose_moves_fold:
  fixes env :: "('w::comm_semiring_1) compose_env"
  assumes "\<not> e_named env" "trios_ok na nb st" "num st ti = Some i" "\<forall>m \<in> set ms. trio_in na nb (m_dest m)" "arcs_done P st"
  shows "\<exists>st'. fold_error (compose_arc env i) ms st = Inr st' \<and> trios_ok na nb st' \<and> composes st st' \<and>
    arcs_done (P(ti := P ti @ ms)) st' \<and>
    (groups_ok env st \<and> (\<forall>m \<in> set ms. move_recordable (e_cascade env) (c_cascade st) m) \<longrightarrow>
       groups_ok env st' \<and> extends_chains (c_cascade st) (c_cascade st'))"
  using assms(2-)
proof (induction ms arbitrary: st P)
  case Nil
  then show ?case by (simp add: fun_upd_idem)
next
  case (Cons m ms)
  obtain g cas where r: "record_group (e_cascade env) (m_rec m) (c_cascade st) = (g, cas)" by fastforce
  have "trio_in na nb (m_dest m)" using Cons.prems(3) by simp
  from compose_arc_spec [OF assms(1) Cons.prems(1,2) this Cons.prems(4)]
  obtain s1 where s1: "compose_arc env i m st = Inr s1" "trios_ok na nb s1" "composes st s1"
    "arcs_done (P(ti := P ti @ [m])) s1" "c_cascade s1 = cas"
    and arcs: "\<forall>s \<in> set (c_states s1). \<forall>x \<in> set (arcs s). (\<exists>s0 \<in> set (c_states st). x \<in> set (arcs s0)) \<or>
       groupId x = g \<and> arc_weight x = m_weight m"
    unfolding r fst_conv snd_conv by blast
  have "num s1 ti = Some i" using s1(3) Cons.prems(2) by (auto simp: composes_def map_le_def dom_def)
  moreover have "\<forall>m \<in> set ms. trio_in na nb (m_dest m)" using Cons.prems(3) by simp
  moreover have "(P(ti := P ti @ [m]))(ti := (P(ti := P ti @ [m])) ti @ ms) = P(ti := P ti @ (m # ms))" by simp
  ultimately obtain s2 where s2: "fold_error (compose_arc env i) ms s1 = Inr s2" "trios_ok na nb s2" "composes s1 s2"
    "arcs_done (P(ti := P ti @ (m # ms))) s2"
    and gs: "groups_ok env s1 \<and> (\<forall>m \<in> set ms. move_recordable (e_cascade env) (c_cascade s1) m) \<longrightarrow>
       groups_ok env s2 \<and> extends_chains (c_cascade s1) (c_cascade s2)"
    using Cons.IH [OF s1(2) _ _ s1(4)] by metis
  have "groups_ok env s2 \<and> extends_chains (c_cascade st) (c_cascade s2)"
    if g0: "groups_ok env st" and rec: "\<forall>m \<in> set (m # ms). move_recordable (e_cascade env) (c_cascade st) m"
  proof -
    have "cascade_ok (e_cascade env) (c_cascade st)" using g0 by (simp add: groups_ok_def)
    from record_group_spec [OF this _ r] rec
    have c: "cascade_ok (e_cascade env) cas" "extends_chains (c_cascade st) cas" "has_chain (e_cascade env) cas g (m_weight m)"
      by auto
    have "has_chain (e_cascade env) cas (groupId x) (arc_weight x)" if "s \<in> set (c_states s1)" "x \<in> set (arcs s)" for s x
      using arcs that g0 c(2,3) has_chain_extends unfolding groups_ok_def by metis
    then have "groups_ok env s1" using c(1) s1(5) by (simp add: groups_ok_def)
    moreover have "\<forall>m \<in> set ms. move_recordable (e_cascade env) (c_cascade s1) m"
      using rec s1(5) move_recordable_extends [OF _ c(2), of "e_cascade env"] by auto
    ultimately show ?thesis using gs c(2) s1(5) extends_chains_trans by metis
  qed
  moreover have "composes st s2" using s1(3) s2(3) by (rule composes_trans)
  moreover have "fold_error (compose_arc env i) (m # ms) st = Inr s2" using s1(1) s2(1) by simp
  ultimately show ?case using s2(2,4) by blast
qed

section \<open>One trio\<close>

text \<open>The operands keep their arcs while they get indices.\<close>

definition same_machine :: "'w WFST \<Rightarrow> 'w WFST \<Rightarrow> bool" where
  "same_machine M M' \<longleftrightarrow> numStates M' = numStates M \<and> final M' = final M \<and>
     (\<forall>q < numStates M. arcs (states M' ! q) = arcs (states M ! q) \<and>
        state_size (states M' ! q) = state_size (states M ! q))"

definition operands_ok :: "'w compose_env \<Rightarrow> 'w WFST \<Rightarrow> 'w WFST \<Rightarrow> 'w compose_state \<Rightarrow> bool" where
  "operands_ok env a b st \<longleftrightarrow> same_machine a (c_a st) \<and> same_machine b (c_b st) \<and>
     index_fits kOutput (c_a st) \<and> index_fits kInput (c_b st)"

lemma index_state_spec:
  assumes "same_machine M M'" "index_fits dir M'" "dir \<noteq> kNone" "q < numStates M"
  shows "same_machine M (index_state dir q M')" "index_fits dir (index_state dir q M')"
    "\<exists>ix. state_index (states (index_state dir q M') ! q) = Some ix \<and> index_ok dir (arcs (states M ! q)) ix"
proof -
  have q: "q < numStates M'" "arcs (states M' ! q) = arcs (states M ! q)" using assms(1,4) by (auto simp: same_machine_def)
  have d: "(if dir \<noteq> kInput then kOutput else kInput) = dir" using assms(3) by (cases dir) auto
  obtain ix where ix: "indexBy dir (states M' ! q) = (states M' ! q)\<lparr>state_index := Some ix\<rparr>"
    "index_ok dir (arcs (states M' ! q)) ix"
  proof (cases "state_index (states M' ! q)")
    case None
    then show ?thesis using indexBy_ok [OF None, of dir] d that by auto
  next
    case (Some ix)
    then have "index_ok dir (arcs (states M' ! q)) ix" using assms(2) q(1) by (auto simp: index_fits_def)
    then show ?thesis using Some that [of ix] by (auto simp: indexBy_def)
  qed
  show "same_machine M (index_state dir q M')"
    using assms(1) q ix(1) by (auto simp: same_machine_def index_state_def nth_list_update)
  show "index_fits dir (index_state dir q M')"
    using assms(2) ix by (auto simp: index_fits_def index_state_def dest!: set_update_subset_insert [THEN subsetD])
  show "\<exists>ix. state_index (states (index_state dir q M') ! q) = Some ix \<and> index_ok dir (arcs (states M ! q)) ix"
    using q ix by (simp add: index_state_def)
qed

lemma same_machine_arcs_of:
  "same_machine M M' \<Longrightarrow> q < numStates M \<Longrightarrow> arcs_of addr M' q = arcs_of addr M q"
  by (simp add: same_machine_def arcs_of_def)

lemma same_machine_trio_moves:
  assumes "same_machine a a'" "same_machine b b'" "trio_qa t < numStates a" "trio_qb t < numStates b"
  shows "trio_moves env a' b' t = trio_moves env a b t"
  using assms by (simp add: trio_moves_def same_machine_arcs_of)

lemma same_machine_all_arcs: "same_machine M M' \<Longrightarrow> all_arcs M' = all_arcs M"
proof -
  assume s: "same_machine M M'"
  then have "map arcs (states M') = map arcs (states M)"
    by (intro nth_equalityI) (auto simp: same_machine_def)
  then show ?thesis by (simp add: all_arcs_def)
qed

definition arcs_in_range :: "'w WFST \<Rightarrow> bool" where
  "arcs_in_range M \<longleftrightarrow> (\<forall>x \<in> set (all_arcs M). arc_dest x < numStates M)"

lemma arcs_of_in_all: "q < numStates M \<Longrightarrow> e \<in> set (arcs_of addr M q) \<Longrightarrow> snd e \<in> set (all_arcs M)"
proof -
  assume "q < numStates M" "e \<in> set (arcs_of addr M q)"
  then have "states M ! q \<in> set (states M)" "snd e \<in> set (arcs (states M ! q))"
    by (simp_all add: snd_arcs_of [symmetric, of M q addr] del: map_map)
  then show ?thesis by (auto simp: all_arcs_def)
qed

lemma in_trio_moves:
  "m \<in># trio_moves env a b t \<longleftrightarrow>
    (let ls = set (arcs_of (e_addr_a env) a (trio_qa t)); rs = set (arcs_of (e_addr_b env) b (trio_qb t))
     in (trio_filter t \<noteq> 2 \<and> (\<exists>l \<in> ls. arc_out (snd l) = epsilon_index \<and> m = move_l t l)) \<or>
        (trio_filter t \<noteq> 1 \<and> (\<exists>x \<in> rs. arc_in (snd x) = epsilon_index \<and> m = move_r t x)) \<or>
        (\<exists>l \<in> ls. \<exists>x \<in> rs. pair_ok env t l x \<and> m = move_lr l x))"
proof -
  have "m \<in># pair_moves P g ls rs \<longleftrightarrow> (\<exists>l \<in> set ls. \<exists>x \<in> set rs. P l x \<and> m = g l x)" for P g and ls rs :: "(param \<times> 'a FSTArc) list"
    by (induction ls) (auto simp: pair_moves_def)
  then show ?thesis by (auto simp: trio_moves_def Let_def single_moves_def)
qed

lemma trio_moves_range:
  assumes "m \<in># trio_moves env a b t" "arcs_in_range a" "arcs_in_range b" "trio_in (numStates a) (numStates b) t"
  shows "trio_in (numStates a) (numStates b) (m_dest m)"
proof -
  have d: "arc_dest (snd l) < numStates a" if "l \<in> set (arcs_of (e_addr_a env) a (trio_qa t))" for l
    using arcs_of_in_all [OF _ that] assms(2,4) by (auto simp: arcs_in_range_def trio_in_def)
  have e: "arc_dest (snd x) < numStates b" if "x \<in> set (arcs_of (e_addr_b env) b (trio_qb t))" for x
    using arcs_of_in_all [OF _ that] assms(3,4) by (auto simp: arcs_in_range_def trio_in_def)
  show ?thesis using assms(1,4) d e
    by (auto simp: in_trio_moves Let_def trio_in_def move_l_def move_r_def move_lr_def)
qed

definition all_recordable :: "('w::comm_semiring_1) WFST list \<Rightarrow> 'w cascade_parameters \<Rightarrow> bool \<Rightarrow> nat \<Rightarrow> 'w WFST \<Rightarrow> bool" where
  "all_recordable cas c chain addr M \<longleftrightarrow> (\<forall>q < numStates M. \<forall>e \<in> set (arcs_of addr M q). recordable cas c chain e)"

lemma trio_moves_recordable:
  assumes "m \<in># trio_moves env a b t" "trio_in (numStates a) (numStates b) t"
    and "all_recordable (e_cascade env) c (is_chain_first c) (e_addr_a env) a"
      "all_recordable (e_cascade env) c (is_chain_second c) (e_addr_b env) b"
  shows "move_recordable (e_cascade env) c m"
  using assms
  by (auto simp: in_trio_moves Let_def trio_in_def move_l_def move_r_def move_lr_def move_recordable_def all_recordable_def)

lemma all_recordable_extends: "all_recordable cas c ch addr M \<Longrightarrow> extends_chains c c' \<Longrightarrow> all_recordable cas c' ch addr M"
  unfolding all_recordable_def using recordable_extends by blast

lemma compose_moves_spec:
  assumes op: "operands_ok env a b st" and io: "interface_ok env a b" and t: "trio_in (numStates a) (numStates b) t"
  obtains ms a' b' where "compose_moves env t st = (ms, st\<lparr>c_a := a', c_b := b'\<rparr>)" "mset ms = trio_moves env a b t"
    "operands_ok env a b (st\<lparr>c_a := a', c_b := b'\<rparr>)" "numStates a' = numStates (c_a st)" "numStates b' = numStates (c_b st)"
proof -
  have sa: "same_machine a (c_a st)" and sb: "same_machine b (c_b st)"
    and fa: "index_fits kOutput (c_a st)" and fb: "index_fits kInput (c_b st)"
    using op by (auto simp: operands_ok_def)
  have q: "trio_qa t < numStates a" "trio_qb t < numStates b" using t by (auto simp: trio_in_def)
  let ?A = "index_state kOutput (trio_qa t) (c_a st)" and ?B = "index_state kInput (trio_qb t) (c_b st)"
  have ra: "same_machine a ?A" "index_fits kOutput ?A"
      "\<exists>ix. state_index (states ?A ! trio_qa t) = Some ix \<and> index_ok kOutput (arcs (states a ! trio_qa t)) ix"
    using index_state_spec [OF sa fa _ q(1)] by simp_all
  have rb: "same_machine b ?B" "index_fits kInput ?B"
      "\<exists>ix. state_index (states ?B ! trio_qb t) = Some ix \<and> index_ok kInput (arcs (states b ! trio_qb t)) ix"
    using index_state_spec [OF sb fb _ q(2)] by simp_all
  have nn: "numStates ?A = numStates (c_a st)" "numStates ?B = numStates (c_b st)" by (simp_all add: index_state_def)
  let ?na = "state_size (states (c_a st) ! trio_qa t)" and ?nb = "state_size (states (c_b st) ! trio_qb t)"
  consider "(if ?na > ?nb then ?na else ?nb) > indexThreshold" "\<not> ?na > ?nb"
    | "(if ?na > ?nb then ?na else ?nb) > indexThreshold" "?na > ?nb"
    | "\<not> (if ?na > ?nb then ?na else ?nb) > indexThreshold" by blast
  then show ?thesis
  proof cases
    case 1
    have e: "arcs (states ?B ! trio_qb t) = arcs (states b ! trio_qb t)" using rb(1) q by (simp add: same_machine_def)
    have "mset (moves_large_b env (c_a st) ?B t) = trio_moves env (c_a st) ?B t"
      using moves_large_b_mset rb(3) e by metis
    also have "\<dots> = trio_moves env a b t" by (rule same_machine_trio_moves [OF sa rb(1) q])
    finally show ?thesis using 1 that [of "moves_large_b env (c_a st) ?B t" ?B "c_a st"] rb sa fa nn
      by (simp add: compose_moves_def Let_def operands_ok_def)
  next
    case 2
    have e: "arcs (states ?A ! trio_qa t) = arcs (states a ! trio_qa t)" using ra(1) q by (simp add: same_machine_def)
    have io': "interface_ok env ?A (c_b st)"
      using io same_machine_all_arcs [OF ra(1)] same_machine_all_arcs [OF sb] by (simp add: interface_ok_def)
    have "mset (moves_large_a env ?A (c_b st) t) = trio_moves env ?A (c_b st) t"
    proof -
      obtain ix where "state_index (states ?A ! trio_qa t) = Some ix" "index_ok kOutput (arcs (states ?A ! trio_qa t)) ix"
        using ra(3) e by auto
      then show ?thesis
        by (rule moves_large_a_mset [OF _ _ io']) (use q ra(1) sb in \<open>auto simp: same_machine_def\<close>)
    qed
    also have "\<dots> = trio_moves env a b t" by (rule same_machine_trio_moves [OF ra(1) sb q])
    finally show ?thesis using 2 that [of "moves_large_a env ?A (c_b st) t" "c_b st" ?A] ra sb fb nn
      by (simp add: compose_moves_def Let_def operands_ok_def)
  next
    case 3
    have "mset (moves_small env (c_a st) (c_b st) t) = trio_moves env a b t"
      using moves_small_mset same_machine_trio_moves [OF sa sb q] by metis
    then show ?thesis using 3 that [of "moves_small env (c_a st) (c_b st) t" "c_b st" "c_a st"] op
      by (simp add: compose_moves_def Let_def operands_ok_def)
  qed
qed

section \<open>The loop\<close>

definition loop_inv :: "('w::comm_semiring_1) compose_env \<Rightarrow> 'w WFST \<Rightarrow> 'w WFST \<Rightarrow> (TrioKey \<Rightarrow> 'w move list) \<Rightarrow> 'w compose_state \<Rightarrow> bool" where
  "loop_inv env a b P st \<longleftrightarrow> operands_ok env a b st \<and> trios_ok (numStates a) (numStates b) st \<and> arcs_done P st \<and>
     num st (TrioKey 0 0 0) = Some 0 \<and>
     (\<forall>t \<in> dom (num st). if t \<in> snd ` set (c_queue st) then P t = [] else mset (P t) = trio_moves env a b t)"

definition processed :: "'w compose_state \<Rightarrow> TrioKey set" where
  "processed st = dom (num st) - snd ` set (c_queue st)"

definition composable :: "'w compose_env \<Rightarrow> 'w WFST \<Rightarrow> 'w WFST \<Rightarrow> bool" where
  "composable env a b \<longleftrightarrow> interface_ok env a b \<and> arcs_in_range a \<and> arcs_in_range b \<and> \<not> e_named env"

text \<open>The cascade part of the invariant, and what it needs of the operands.\<close>

definition cascade_inv :: "('w::comm_semiring_1) compose_env \<Rightarrow> 'w WFST \<Rightarrow> 'w WFST \<Rightarrow> 'w compose_state \<Rightarrow> bool" where
  "cascade_inv env a b st \<longleftrightarrow> groups_ok env st \<and>
     all_recordable (e_cascade env) (c_cascade st) (is_chain_first (c_cascade st)) (e_addr_a env) a \<and>
     all_recordable (e_cascade env) (c_cascade st) (is_chain_second (c_cascade st)) (e_addr_b env) b"

lemma loop_step:
  fixes env :: "('w::comm_semiring_1) compose_env"
  assumes ok: "composable env a b" and inv: "loop_inv env a b P st" and q: "c_queue st = qi # rest"
  shows "\<exists>st' ms. compose_trio env qi (st\<lparr>c_queue := rest\<rparr>) = Inr st' \<and> loop_inv env a b (P(snd qi := ms)) st' \<and>
    processed st' = insert (snd qi) (processed st) \<and> snd qi \<notin> processed st \<and> num st \<subseteq>\<^sub>m num st' \<and>
    (cascade_inv env a b st \<longrightarrow> cascade_inv env a b st')"
proof -
  obtain i t where qi: "qi = (i, t)" by fastforce
  let ?s0 = "st\<lparr>c_queue := rest\<rparr>" and ?na = "numStates a" and ?nb = "numStates b"
  have i: "num st t = Some i" and tr: "trios_ok ?na ?nb st" and op: "operands_ok env a b st"
    and P: "arcs_done P st"
    and Pq: "\<forall>t \<in> dom (num st). if t \<in> snd ` set (c_queue st) then P t = [] else mset (P t) = trio_moves env a b t"
    and n0: "num st (TrioKey 0 0 0) = Some 0"
    using inv q by (auto simp: loop_inv_def trios_ok_def qi)
  have tin: "trio_in ?na ?nb t" using tr i by (auto simp: trios_ok_def)
  have tq: "t \<notin> snd ` set rest" using tr q qi by (auto simp: trios_ok_def)
  have op0: "operands_ok env a b ?s0" using op by (simp add: operands_ok_def)
  have io: "interface_ok env a b" using ok by (simp add: composable_def)
  obtain ms a' b' where mv: "compose_moves env t ?s0 = (ms, ?s0\<lparr>c_a := a', c_b := b'\<rparr>)" "mset ms = trio_moves env a b t"
    "operands_ok env a b (?s0\<lparr>c_a := a', c_b := b'\<rparr>)" "numStates a' = numStates (c_a ?s0)" "numStates b' = numStates (c_b ?s0)"
    by (rule compose_moves_spec [OF op0 io tin])
  define s1 where "s1 = ?s0\<lparr>c_a := a', c_b := b'\<rparr>"
  have n1: "num s1 = num st" using mv(4,5) by (simp add: s1_def num_def)
  have tr1: "trios_ok ?na ?nb s1"
    using tr q n1 mv(4,5) by (simp add: trios_ok_def) (simp add: s1_def)
  have cs1: "c_states s1 = c_states st" by (simp add: s1_def)
  have P1: "arcs_done P s1" using P unfolding arcs_done_def n1 cs1 .
  have Pt: "P t = []" using Pq i q qi by force
  have rng: "\<forall>m \<in> set ms. trio_in ?na ?nb (m_dest m)"
    using trio_moves_range [OF _ _ _ tin, where env = env] mv(2) ok by (metis composable_def set_mset_mset)
  have "num s1 t = Some i" using i n1 by simp
  from compose_moves_fold [OF _ tr1 this rng P1] ok Pt
  obtain s2 where s2: "fold_error (compose_arc env i) ms s1 = Inr s2" "trios_ok ?na ?nb s2" "composes s1 s2"
    "arcs_done (P(t := ms)) s2"
    and gs: "groups_ok env s1 \<and> (\<forall>m \<in> set ms. move_recordable (e_cascade env) (c_cascade s1) m) \<longrightarrow>
       groups_ok env s2 \<and> extends_chains (c_cascade s1) (c_cascade s2)"
    unfolding composable_def append_Nil by (metis append_Nil)
  obtain nq where nq: "c_queue s2 = nq @ c_queue s1" "dom (num s2) = dom (num s1) \<union> snd ` set nq"
    "snd ` set nq \<inter> dom (num s1) = {}" and le: "num s1 \<subseteq>\<^sub>m num s2" and ab: "c_a s2 = c_a s1" "c_b s2 = c_b s1"
    using s2(3) by (auto simp: composes_def)
  have q1: "c_queue s1 = rest" by (simp add: s1_def)
  have "loop_inv env a b (P(t := ms)) s2"
    unfolding loop_inv_def
  proof (intro conjI ballI)
    show "operands_ok env a b s2" using mv(3) ab by (simp add: operands_ok_def s1_def)
    show "num s2 (TrioKey 0 0 0) = Some 0" using n0 le n1 unfolding map_le_def by (metis domI)
    fix u assume u: "u \<in> dom (num s2)"
    have old: "v \<in> dom (num st) \<Longrightarrow> v \<notin> snd ` set nq" for v using nq(3) n1 by (metis disjoint_iff)
    have tn: "t \<notin> snd ` set nq" using old [of t] i by (simp add: domI)
    show "if u \<in> snd ` set (c_queue s2) then (P(t := ms)) u = [] else mset ((P(t := ms)) u) = trio_moves env a b u"
    proof (cases "u = t")
      case True
      then show ?thesis using tn tq nq(1) q1 mv(2) by auto
    next
      case False
      show ?thesis
      proof (cases "u \<in> dom (num st)")
        case True
        then have "u \<notin> snd ` set nq" by (rule old)
        moreover have "snd ` set (c_queue s2) = snd ` set nq \<union> snd ` set rest" "snd ` set (c_queue st) = insert t (snd ` set rest)"
          using nq(1) q1 q qi by (simp_all add: image_Un)
        ultimately show ?thesis using bspec [OF Pq True] False by simp
      next
        case unew: False
        then have "u \<in> snd ` set nq" using u unfolding nq(2) n1 by (metis UnE)
        moreover have "P u = []" using P [unfolded arcs_done_def, rule_format, of u] unew by (auto simp: domIff)
        ultimately show ?thesis using False nq(1) by auto
      qed
    qed
  qed (use s2 in auto)
  moreover have "processed s2 = insert t (processed st)" "t \<notin> processed st"
    using nq q1 n1 q qi i tq by (auto simp: processed_def)
  moreover have "compose_trio env qi ?s0 = Inr s2" using mv(1) s2(1) by (simp add: compose_trio_def qi s1_def)
  moreover have "cascade_inv env a b s2" if c: "cascade_inv env a b st"
  proof -
    have c1: "c_cascade s1 = c_cascade st" by (simp add: s1_def)
    have "groups_ok env s1" using c by (simp add: cascade_inv_def groups_ok_def) (simp add: s1_def)
    moreover have "\<forall>m \<in> set ms. move_recordable (e_cascade env) (c_cascade s1) m"
      using trio_moves_recordable [OF _ tin, where env = env and c = "c_cascade st"] mv(2) c c1
      by (metis cascade_inv_def set_mset_mset)
    ultimately have g: "groups_ok env s2" "extends_chains (c_cascade st) (c_cascade s2)" using gs c1 by auto
    then show ?thesis using c all_recordable_extends [OF _ g(2)] by (auto simp: cascade_inv_def extends_chains_def)
  qed
  moreover have "num st \<subseteq>\<^sub>m num s2" using le n1 by simp
  ultimately show ?thesis by (intro exI [of _ s2] exI [of _ ms]) (simp add: qi)
qed

lemma trios_finite: "finite {t. trio_in na nb t}" "card {t. trio_in na nb t} = 3 * na * nb"
proof -
  have e: "{t. trio_in na nb t} = (\<lambda>(p, q, f). TrioKey p q f) ` ({..<na} \<times> {..<nb} \<times> {..<3})"
  proof (intro set_eqI iffI)
    fix t assume "t \<in> {t. trio_in na nb t}"
    then show "t \<in> (\<lambda>(p, q, f). TrioKey p q f) ` ({..<na} \<times> {..<nb} \<times> {..<3})"
      by (cases t) (force simp: trio_in_def)
  qed (auto simp: trio_in_def)
  show "finite {t. trio_in na nb t}" unfolding e by simp
  have "inj_on (\<lambda>(p, q, f). TrioKey p q f) ({..<na} \<times> {..<nb} \<times> {..<3})" by (auto simp: inj_on_def)
  from card_image [OF this] show "card {t. trio_in na nb t} = 3 * na * nb"
    unfolding e by (simp add: card_cartesian_product)
qed

lemma processed_bound:
  assumes "loop_inv env a b P st"
  shows "finite (processed st)" "card (processed st) \<le> 3 * numStates a * numStates b"
    "c_queue st \<noteq> [] \<Longrightarrow> card (processed st) < 3 * numStates a * numStates b"
proof -
  let ?T = "{t. trio_in (numStates a) (numStates b) t}"
  have sub: "dom (num st) \<subseteq> ?T" using assms by (auto simp: loop_inv_def trios_ok_def)
  then have p: "processed st \<subseteq> ?T" by (auto simp: processed_def)
  show "finite (processed st)" using p trios_finite(1) by (rule finite_subset)
  show "card (processed st) \<le> 3 * numStates a * numStates b"
    using card_mono [OF trios_finite(1) p] by (simp add: trios_finite(2))
  assume "c_queue st \<noteq> []"
  then obtain qi q where q: "c_queue st = qi # q" by (cases "c_queue st") auto
  then have "snd qi \<in> dom (num st)" using assms by (auto simp: loop_inv_def trios_ok_def)
  then have "snd qi \<in> ?T" "snd qi \<notin> processed st" using sub q by (auto simp: processed_def)
  then have "processed st \<subset> ?T" using p by blast
  from psubset_card_mono [OF trios_finite(1) this] show "card (processed st) < 3 * numStates a * numStates b"
    by (simp add: trios_finite(2))
qed

lemma compose_loop_spec:
  fixes env :: "('w::comm_semiring_1) compose_env"
  assumes ok: "composable env a b" and "loop_inv env a b P st"
    and "3 * numStates a * numStates b \<le> fuel + card (processed st)"
  shows "\<exists>st' P'. compose_loop (compose_trio env) fuel st = Inr st' \<and> loop_inv env a b P' st' \<and> c_queue st' = [] \<and>
    (cascade_inv env a b st \<longrightarrow> cascade_inv env a b st')"
  using assms(2,3)
proof (induction fuel arbitrary: st P)
  case 0
  then have "c_queue st = []" using processed_bound(3) [OF 0(1)] by force
  then show ?case using 0 by auto
next
  case (Suc fuel)
  show ?case
  proof (cases "c_queue st")
    case Nil
    then show ?thesis using Suc.prems by auto
  next
    case (Cons qi q)
    from loop_step [OF ok Suc.prems(1) Cons] obtain st1 ms where s1: "compose_trio env qi (st\<lparr>c_queue := q\<rparr>) = Inr st1"
      "loop_inv env a b (P(snd qi := ms)) st1" "processed st1 = insert (snd qi) (processed st)" "snd qi \<notin> processed st"
      "cascade_inv env a b st \<longrightarrow> cascade_inv env a b st1" by blast
    have "card (processed st1) = Suc (card (processed st))"
      using s1(3,4) processed_bound(1) [OF Suc.prems(1)] by simp
    then have "3 * numStates a * numStates b \<le> fuel + card (processed st1)" using Suc.prems(2) by simp
    from Suc.IH [OF s1(2) this] s1(1,5) Cons show ?thesis by auto
  qed
qed

lemma compose_start_inv:
  fixes env :: "('w::comm_semiring_1) compose_env"
  assumes "0 < numStates a" "0 < numStates b" "index_fits kOutput a" "index_fits kInput b"
  obtains st where "compose_start False a b cas = Inr st" "loop_inv env a b (\<lambda>_. []) st" "c_cascade st = cas"
    "c_states st = [state_new]"
proof -
  let ?n = "2 * (numStates a + numStates b)" and ?hf = "trio_hash (numStates a) (numStates b)" and ?t = "TrioKey 0 0 0"
  define st where "st = \<lparr>c_a = a, c_b = b, c_states = [state_new :: 'w State], c_names = alph_empty,
      stateMap = ht_update ?hf 0 ?t (\<lambda>_. 0) (ht_new ?n), arcStateMap = ht_new ?n,
      c_queue = [(0, ?t)], c_cascade = cas\<rparr>"
  note u = ht_update_props [OF ht_new_empty(1), where hf = ?hf and k = ?t and d = "0::nat" and f = "\<lambda>_. 0"]
  have n: "num st = [?t \<mapsto> 0]" by (simp add: num_def st_def u(2) fun_eq_iff)
  have "loop_inv env a b (\<lambda>_. []) st"
    unfolding loop_inv_def
  proof (intro conjI)
    show "operands_ok env a b st" using assms by (simp add: operands_ok_def st_def same_machine_def)
    show "trios_ok (numStates a) (numStates b) st"
      unfolding trios_ok_def n using assms(1,2) u(1)
      by (auto simp: st_def numbering_ok_def trio_in_def split: if_splits)
    show "arcs_done (\<lambda>_. []) st" by (simp add: arcs_done_def n) (simp add: st_def)
    show "num st ?t = Some 0" by (simp add: n)
    show "\<forall>t \<in> dom (num st). if t \<in> snd ` set (c_queue st) then [] = [] else mset [] = trio_moves env a b t"
      by (simp add: n) (simp add: st_def)
  qed
  then show ?thesis using that [of st] by (simp add: compose_start_def st_def Let_def)
qed

section \<open>The interface of the alphabets\<close>

definition symbols_ok :: "Alphabet \<Rightarrow> bool" where
  "symbols_ok al \<longleftrightarrow> alph_ok al \<and> no_holes al \<and> names al \<noteq> [] \<and> hd (names al) = EPSILON_SYMBOL \<and>
     length (names al) < uint_minus1"

lemma computeMap_nth:
  assumes "symbols_ok al" "symbols_ok al'" "x < length (names al)" "y < length (names al')"
  shows "computeMap al al' ! x = y \<longleftrightarrow> names al' ! y = names al ! x"
proof -
  have s: "names al ! x \<noteq> ''''" using assms(1) nth_mem [OF assms(3)] unfolding symbols_ok_def no_holes_def by metis
  have f: "alph_find al' (names al ! x) = Some i \<longleftrightarrow> i < length (names al') \<and> names al' ! i = names al ! x" for i
    using assms(2) s by (intro alph_ok_iff) (auto simp: symbols_ok_def)
  have "y \<noteq> uint_minus1" using assms(2,4) by (auto simp: symbols_ok_def)
  then show ?thesis using f [of y] assms(3,4)
    by (cases "alph_find al' (names al ! x)") (auto simp: computeMap_def)
qed

lemma computeMap_interface:
  assumes "symbols_ok al" "symbols_ok al'" "x < length (names al)" "y < length (names al')"
  shows "computeMap al al' ! x = y \<longleftrightarrow> computeMap al' al ! y = x"
    "computeMap al al' ! x = y \<Longrightarrow> x = 0 \<longleftrightarrow> y = 0"
proof -
  note xy = computeMap_nth [OF assms] and yx = computeMap_nth [OF assms(2,1,4,3)]
  show "computeMap al al' ! x = y \<longleftrightarrow> computeMap al' al ! y = x" unfolding xy yx by auto
  assume "computeMap al al' ! x = y"
  then have e: "names al' ! y = names al ! x" unfolding xy .
  have d: "distinct (names al)" "distinct (names al')" using assms(1,2) alph_ok_distinct by (auto simp: symbols_ok_def)
  have z: "names al ! 0 = EPSILON_SYMBOL" "names al' ! 0 = EPSILON_SYMBOL" "0 < length (names al)" "0 < length (names al')"
    using assms(1,2) by (auto simp: symbols_ok_def hd_conv_nth)
  show "x = 0 \<longleftrightarrow> y = 0"
    using e z nth_eq_iff_index_eq [OF d(1) assms(3) z(3)] nth_eq_iff_index_eq [OF d(2) assms(4) z(4)] by auto
qed

text \<open>Operands \<open>a\<close> and \<open>b\<close> that share a heap of alphabets and can be composed.\<close>

definition operand_ok :: "LabelType \<Rightarrow> 'w WFST \<Rightarrow> alph_heap \<Rightarrow> bool" where
  "operand_ok dir M h \<longleftrightarrow> wfst_ok M \<and> index_fits dir M \<and>
     (\<exists>p al. alph M dir = Some p \<and> h ! p = Some al \<and> symbols_ok al \<and>
        (\<forall>x \<in> set (all_arcs M). arc_symbol dir x < length (names al)))"

lemma operand_ok_composable:
  assumes "operand_ok kOutput a h" "operand_ok kInput b h"
  shows "composable (compose_env_of False h casc pa pb a b) a b"
    "0 < numStates a" "0 < numStates b" "valid a" "valid b" "index_fits kOutput a" "index_fits kInput b"
proof -
  obtain p al q al' where al: "alph a kOutput = Some p" "h ! p = Some al" "symbols_ok al"
      "\<forall>x \<in> set (all_arcs a). arc_out x < length (names al)"
    and al': "alph b kInput = Some q" "h ! q = Some al'" "symbols_ok al'"
      "\<forall>x \<in> set (all_arcs b). arc_in x < length (names al')"
    using assms by (auto simp: operand_ok_def arc_symbol_def)
  have w: "wfst_ok a" "wfst_ok b" using assms by (auto simp: operand_ok_def)
  have "interface_ok (compose_env_of False h casc pa pb a b) a b"
    using computeMap_interface [OF al(3) al'(3)] al al'
    by (auto simp: interface_ok_def compose_env_of_def epsilon_index_def)
  moreover have "arcs_in_range M" if "wfst_ok M" for M :: "'a WFST"
    using that by (auto simp: arcs_in_range_def wfst_ok_def all_arcs_def)
  ultimately show "composable (compose_env_of False h casc pa pb a b) a b"
    using w by (simp add: composable_def) (simp add: compose_env_of_def Let_def)
  show "0 < numStates a" "0 < numStates b" "valid a" "valid b" "index_fits kOutput a" "index_fits kInput b"
    using w assms by (auto simp: wfst_ok_def valid_def invalid_state_def operand_ok_def)
qed

section \<open>The final state\<close>

definition composition_of ::
  "('w::comm_semiring_1) compose_env \<Rightarrow> 'w WFST \<Rightarrow> 'w WFST \<Rightarrow> (TrioKey \<Rightarrow> nat option) \<Rightarrow> 'w State list \<Rightarrow> bool" where
  "composition_of env a b nm ss \<longleftrightarrow> numbering_ok nm (length ss) \<and> nm (TrioKey 0 0 0) = Some 0 \<and>
     (\<forall>s \<in> set ss. size_ok s) \<and>
     (\<forall>t i. nm t = Some i \<longrightarrow> trio_in (numStates a) (numStates b) t \<and>
        (\<exists>ms. mset ms = trio_moves env a b t \<and> list_all2 (arc_of_move nm) ms (arcs (ss ! i))))"

lemma loop_inv_composition:
  assumes "loop_inv env a b P st" "c_queue st = []"
  shows "composition_of env a b (num st) (c_states st)"
  unfolding composition_of_def
proof (intro conjI allI impI)
  show "numbering_ok (num st) (length (c_states st))" "num st (TrioKey 0 0 0) = Some 0" "\<forall>s \<in> set (c_states st). size_ok s"
    using assms by (auto simp: loop_inv_def trios_ok_def)
  fix t i assume t: "num st t = Some i"
  show "trio_in (numStates a) (numStates b) t" using assms t by (auto simp: loop_inv_def trios_ok_def)
  have ad: "arcs_done P st" and Pm: "mset (P t) = trio_moves env a b t" using assms t by (auto simp: loop_inv_def)
  have "list_all2 (arc_of_move (num st)) (rev (P t)) (arcs (c_states st ! i))"
    using ad [unfolded arcs_done_def, rule_format, of t] t by simp
  then show "\<exists>ms. mset ms = trio_moves env a b t \<and> list_all2 (arc_of_move (num st)) ms (arcs (c_states st ! i))"
    using Pm by (intro exI [of _ "rev (P t)"]) simp
qed

definition final_numbers :: "'w WFST \<Rightarrow> 'w WFST \<Rightarrow> (TrioKey \<Rightarrow> nat option) \<Rightarrow> nat list" where
  "final_numbers a b nm = List.map_filter (\<lambda>f. nm (TrioKey (final a) (final b) f)) [0, 1, 2]"

lemma final_trios_numbers:
  "operands_ok env a b st \<Longrightarrow> final_trios st = final_numbers a b (num st)"
  by (auto simp: final_trios_def final_numbers_def num_def operands_ok_def same_machine_def List.map_filter_def
      split: option.split)

lemma final_numbers_distinct:
  assumes "numbering_ok nm n"
  shows "distinct (final_numbers a b nm)" "set (final_numbers a b nm) \<subseteq> {..<n}"
proof -
  note inj = numbering_ok_inj [OF assms]
  have ne: "nm (TrioKey p q f) = Some i \<Longrightarrow> nm (TrioKey p q g) = Some i \<Longrightarrow> f = g" for p q f g i
    using inj [of "TrioKey p q f" i "TrioKey p q g"] by simp
  show "distinct (final_numbers a b nm)"
    using ne [of _ _ 0 _ 1] ne [of _ _ 0 _ 2] ne [of _ _ 1 _ 2]
    by (auto simp: final_numbers_def List.map_filter_def split: option.split)
  show "set (final_numbers a b nm) \<subseteq> {..<n}"
    using assms by (auto simp: final_numbers_def List.map_filter_def numbering_ok_def split: option.split)
qed

lemma fold_addArc_nth:
  "distinct ps \<Longrightarrow> set ps \<subseteq> {..<length ss} \<Longrightarrow> i < length ss \<Longrightarrow>
    fold (\<lambda>p ss. ss[p := addArc x (ss ! p)]) ps ss ! i = (if i \<in> set ps then addArc x (ss ! i) else ss ! i) \<and>
    length (fold (\<lambda>p ss. ss[p := addArc x (ss ! p)]) ps ss) = length ss"
proof (induction ps arbitrary: ss)
  case (Cons p ps)
  then show ?case by (cases "i = p") (auto simp: nth_list_update)
qed simp

definition final_epsilon :: "nat \<Rightarrow> nat \<Rightarrow> ('w::one) FSTArc" where
  "final_epsilon f g = \<lparr>arc_in = epsilon_index, arc_out = epsilon_index, arc_dest = f, arc_weight = 1, groupId = g\<rparr>"

text \<open>How the composed transducer arises from the states of the loop and the numbers of the final trios.\<close>

definition finished :: "nat \<Rightarrow> nat list \<Rightarrow> ('w::one) State list \<Rightarrow> 'w WFST \<Rightarrow> bool" where
  "finished g ps ss M \<longleftrightarrow>
     (if ps = [] then \<not> valid M \<and> states M = []
      else if length ps = 1 then states M = ss \<and> final M = hd ps
      else final M = length ss \<and> numStates M = Suc (length ss) \<and> states M ! length ss = state_new \<and>
        (\<forall>i < length ss. states M ! i =
           (if i \<in> set ps then addArc (final_epsilon (length ss) g) (ss ! i) else ss ! i)))"

lemma compose_finish_spec:
  assumes "loop_inv env a b P st" "\<not> e_named env"
  shows "case compose_finish env st of
      None \<Rightarrow> final_numbers a b (num st) = []
    | Some (ss, nm, f) \<Rightarrow> final_numbers a b (num st) \<noteq> [] \<and>
        (\<forall>M. finished (locked_1_groupid (c_cascade st)) (final_numbers a b (num st)) (c_states st)
               (M\<lparr>states := ss, final := f\<rparr>))"
proof -
  let ?ps = "final_numbers a b (num st)"
  have op: "operands_ok env a b st" and nok: "numbering_ok (num st) (length (c_states st))"
    using assms(1) by (auto simp: loop_inv_def trios_ok_def)
  note d = final_numbers_distinct [OF nok, of a b]
  have ft: "final_trios st = ?ps" by (rule final_trios_numbers [OF op])
  consider "?ps = []" | p where "?ps = [p]" | "?ps \<noteq> []" "length ?ps \<noteq> 1"
    by (metis One_nat_def length_0_conv length_Suc_conv)
  then show ?thesis
  proof cases
    case 3
    let ?n = "length (c_states st)" and ?x = "final_epsilon (length (c_states st)) (locked_1_groupid (c_cascade st))"
    have sub: "set ?ps \<subseteq> {..<length (c_states st @ [state_new])}" using d(2) by auto
    note f = fold_addArc_nth [OF d(1) sub, where x = ?x]
    have "?n \<notin> set ?ps" using d(2) by auto
    then show ?thesis using 3 f [of ?n] f
      by (auto simp: compose_finish_def ft Let_def finished_def final_epsilon_def [symmetric] nth_append)
  qed (simp_all add: compose_finish_def ft Let_def finished_def)
qed

lemma deleteAlphabet_unowned:
  "\<not> owner_alph M dir \<Longrightarrow> deleteAlphabet dir (M, h) =
    (M\<lparr>owner_alph := (owner_alph M)(dir := False), alph := (alph M)(dir := None)\<rparr>, h)"
  by (simp add: deleteAlphabet_def split: option.split)

lemma wfst_clear_unowned:
  assumes "owner_alph M = (\<lambda>_. False)"
  shows "\<exists>M'. wfst_clear (M, h) = (M', h) \<and> \<not> valid M' \<and> states M' = []"
  using assms by (simp add: wfst_clear_def Let_def unNameStates_def deleteAlphabet_unowned valid_def)

lemma set_compose_spec:
  fixes a b :: "('w::comm_semiring_1) WFST"
  assumes a: "operand_ok kOutput a h" and b: "operand_ok kInput b h" and own: "owner_alph M = (\<lambda>_. False)"
    and env_def: "env = compose_env_of False h casc pa pb a b"
  shows "\<exists>M' a' b' cas' nm ss. set_compose False False casc pa pb a b cas (M, h) = Inr (M', h, a', b', cas') \<and>
    composition_of env a b nm ss \<and> finished (locked_1_groupid cas') (final_numbers a b nm) ss M' \<and>
    same_machine a a' \<and> same_machine b b' \<and>
    (cascade_ok casc cas \<and> all_recordable casc cas (is_chain_first cas) pa a \<and>
     all_recordable casc cas (is_chain_second cas) pb b \<longrightarrow>
       cascade_ok casc cas' \<and>
       (\<forall>s \<in> set ss. \<forall>x \<in> set (arcs s). has_chain casc cas' (groupId x) (arc_weight x)))"
proof -
  note op = operand_ok_composable [OF a b]
  have cp: "composable env a b" unfolding env_def by (rule op(1))
  obtain st where st: "compose_start False a b cas = Inr st" "loop_inv env a b (\<lambda>_. []) st" "c_cascade st = cas"
    "c_states st = [state_new]"
    by (rule compose_start_inv [OF op(2,3,6,7)])
  have "3 * numStates a * numStates b \<le> compose_fuel a b + card (processed st)" by (simp add: compose_fuel_def)
  from compose_loop_spec [OF cp st(2) this] obtain st' P' where st': "compose_loop (compose_trio env) (compose_fuel a b) st = Inr st'"
    "loop_inv env a b P' st'" "c_queue st' = []" and ci: "cascade_inv env a b st \<longrightarrow> cascade_inv env a b st'"
    by blast
  have "\<not> e_named env" using cp by (simp add: composable_def)
  note fin = compose_finish_spec [OF st'(2) this]
  define M1 where "M1 = M\<lparr>owner_alph := \<lambda>_. False,
      alph := (alph M)(kInput := alph a kInput, kOutput := alph b kOutput), named_states := False\<rparr>"
  obtain M' where M': "set_compose False False casc pa pb a b cas (M, h) = Inr (M', h, c_a st', c_b st', c_cascade st')"
    "finished (locked_1_groupid (c_cascade st')) (final_numbers a b (num st')) (c_states st') M'"
  proof (cases "compose_finish env st'")
    case None
    obtain M2 where M2: "wfst_clear (M1\<lparr>states := c_states st'\<rparr>, h) = (M2, h)" "\<not> valid M2" "states M2 = []"
      using wfst_clear_unowned [of "M1\<lparr>states := c_states st'\<rparr>" h] by (auto simp: M1_def)
    have "set_compose False False casc pa pb a b cas (M, h) = Inr (M2, h, c_a st', c_b st', c_cascade st')"
      using None st(1) st'(1) own M2(1) op(4,5)
      by (simp add: set_compose_def deleteAlphabet_unowned env_def [symmetric] M1_def Let_def)
    then show ?thesis using that [of M2] fin None M2 by (simp add: finished_def)
  next
    case (Some r)
    obtain ss nm f where r: "r = (ss, nm, f)" by (cases r)
    let ?M = "M1\<lparr>states := ss, final := f\<rparr>"
    have "set_compose False False casc pa pb a b cas (M, h) = Inr (?M, h, c_a st', c_b st', c_cascade st')"
      using Some st(1) st'(1) own op(4,5) r
      by (simp add: set_compose_def deleteAlphabet_unowned env_def [symmetric] M1_def Let_def)
    then show ?thesis using that [of ?M] fin Some r by simp
  qed
  have env: "e_cascade env = casc" "e_addr_a env = pa" "e_addr_b env = pb" by (simp_all add: env_def compose_env_of_def Let_def)
  have "cascade_inv env a b st"
    if "cascade_ok casc cas" "all_recordable casc cas (is_chain_first cas) pa a" "all_recordable casc cas (is_chain_second cas) pb b"
    using that st(3,4) by (simp add: cascade_inv_def groups_ok_def env)
  then have cas: "cascade_ok casc cas \<and> all_recordable casc cas (is_chain_first cas) pa a \<and>
     all_recordable casc cas (is_chain_second cas) pb b \<longrightarrow>
       cascade_ok casc (c_cascade st') \<and>
       (\<forall>s \<in> set (c_states st'). \<forall>x \<in> set (arcs s). has_chain casc (c_cascade st') (groupId x) (arc_weight x))"
    using ci by (simp add: cascade_inv_def groups_ok_def env)
  have "same_machine a (c_a st')" "same_machine b (c_b st')" using st'(2) by (auto simp: loop_inv_def operands_ok_def)
  then show ?thesis using M' loop_inv_composition [OF st'(2,3)] cas by blast
qed

section \<open>Runs of the composition and pairs of paths\<close>

fun trio_run :: "('w::times) compose_env \<Rightarrow> 'w WFST \<Rightarrow> 'w WFST \<Rightarrow> TrioKey \<Rightarrow> 'w move list \<Rightarrow> TrioKey \<Rightarrow> bool" where
  "trio_run env a b t [] u \<longleftrightarrow> t = u"
| "trio_run env a b t (m # ms) u \<longleftrightarrow> m \<in># trio_moves env a b t \<and> trio_run env a b (m_dest m) ms u"

fun machine_path :: "nat \<Rightarrow> 'w WFST \<Rightarrow> nat \<Rightarrow> (param \<times> 'w FSTArc) list \<Rightarrow> nat \<Rightarrow> bool" where
  "machine_path addr M p [] q \<longleftrightarrow> p = q"
| "machine_path addr M p (e # es) q \<longleftrightarrow>
     e \<in> set (arcs_of addr M p) \<and> machine_path addr M (arc_dest (snd e)) es q"

definition lefts :: "'w move \<Rightarrow> (param \<times> 'w FSTArc) list" where
  "lefts m = (case m_rec m of Record1 l \<Rightarrow> [l] | Record2 x \<Rightarrow> [] | Record l x \<Rightarrow> [l])"

definition rights :: "'w move \<Rightarrow> (param \<times> 'w FSTArc) list" where
  "rights m = (case m_rec m of Record1 l \<Rightarrow> [] | Record2 x \<Rightarrow> [x] | Record l x \<Rightarrow> [x])"

definition left_path :: "'w move list \<Rightarrow> (param \<times> 'w FSTArc) list" where
  "left_path ms = concat (map lefts ms)"

definition right_path :: "'w move list \<Rightarrow> (param \<times> 'w FSTArc) list" where
  "right_path ms = concat (map rights ms)"

definition visible :: "nat list \<Rightarrow> nat list" where
  "visible = filter (\<lambda>s. s \<noteq> epsilon_index)"

definition outputs :: "(param \<times> 'w FSTArc) list \<Rightarrow> nat list" where
  "outputs p = visible (map (arc_out \<circ> snd) p)"

definition inputs :: "(param \<times> 'w FSTArc) list \<Rightarrow> nat list" where
  "inputs p = visible (map (arc_in \<circ> snd) p)"

definition path_weight :: "(param \<times> ('w::comm_semiring_1) FSTArc) list \<Rightarrow> 'w" where
  "path_weight p = (\<Prod>e\<leftarrow>p. arc_weight (snd e))"

lemmas path_defs = left_path_def right_path_def lefts_def rights_def outputs_def inputs_def visible_def path_weight_def

lemma move_parts [simp]:
  "lefts (move_l t l) = [l]" "rights (move_l t l) = []" "m_dest (move_l t l) = TrioKey (arc_dest (snd l)) (trio_qb t) 1"
  "lefts (move_r t x) = []" "rights (move_r t x) = [x]" "m_dest (move_r t x) = TrioKey (trio_qa t) (arc_dest (snd x)) 2"
  "lefts (move_lr l x) = [l]" "rights (move_lr l x) = [x]" "m_dest (move_lr l x) = TrioKey (arc_dest (snd l)) (arc_dest (snd x)) 0"
  by (simp_all add: lefts_def rights_def move_l_def move_r_def move_lr_def)

text \<open>What a filter state rules out: in state 1 the right operand does not go on with an epsilon, in state 2
  the left one does not.\<close>

definition viable :: "nat \<Rightarrow> (param \<times> 'w FSTArc) list \<Rightarrow> (param \<times> 'w FSTArc) list \<Rightarrow> bool" where
  "viable f p r \<longleftrightarrow> (f = 1 \<longrightarrow> r = [] \<or> arc_in (snd (hd r)) \<noteq> epsilon_index) \<and>
     (f = 2 \<longrightarrow> p = [] \<or> arc_out (snd (hd p)) \<noteq> epsilon_index)"

text \<open>The only order in which two paths can be interleaved.\<close>

function canonical :: "TrioKey \<Rightarrow> (param \<times> ('w::times) FSTArc) list \<Rightarrow> (param \<times> 'w FSTArc) list \<Rightarrow> 'w move list" where
  "canonical t [] [] = []"
| "canonical t (l # p) [] = move_l t l # canonical (m_dest (move_l t l)) p []"
| "canonical t [] (x # r) = move_r t x # canonical (m_dest (move_r t x)) [] r"
| "canonical t (l # p) (x # r) =
     (if (arc_out (snd l) = epsilon_index) = (arc_in (snd x) = epsilon_index)
      then move_lr l x # canonical (m_dest (move_lr l x)) p r
      else if arc_out (snd l) = epsilon_index then move_l t l # canonical (m_dest (move_l t l)) p (x # r)
      else move_r t x # canonical (m_dest (move_r t x)) (l # p) r)"
  by pat_completeness auto
termination by (relation "measure (\<lambda>(t, p, r). size p + size r)") auto

lemma run_canonical:
  assumes io: "interface_ok env a b" and ra: "arcs_in_range a" "arcs_in_range b"
  shows "trio_in (numStates a) (numStates b) t \<Longrightarrow> trio_run env a b t ms u \<Longrightarrow>
    ms = canonical t (left_path ms) (right_path ms) \<and> viable (trio_filter t) (left_path ms) (right_path ms)"
proof (induction ms arbitrary: t)
  case Nil
  then show ?case by (simp add: path_defs viable_def)
next
  case (Cons m ms)
  have m: "m \<in># trio_moves env a b t" and run: "trio_run env a b (m_dest m) ms u" using Cons.prems(2) by auto
  have tin: "trio_in (numStates a) (numStates b) (m_dest m)" by (rule trio_moves_range [OF m ra Cons.prems(1)])
  have lp: "left_path (m # ms) = lefts m @ left_path ms" "right_path (m # ms) = rights m @ right_path ms"
    by (simp_all add: left_path_def right_path_def)
  note IH = Cons.IH [OF tin run]
  have q: "trio_qa t < numStates a" "trio_qb t < numStates b" using Cons.prems(1) by (auto simp: trio_in_def)
  from m consider (L) l where "trio_filter t \<noteq> 2" "arc_out (snd l) = epsilon_index" "m = move_l t l"
    | (R) x where "trio_filter t \<noteq> 1" "arc_in (snd x) = epsilon_index" "m = move_r t x"
    | (LR) l x where "l \<in> set (arcs_of (e_addr_a env) a (trio_qa t))" "x \<in> set (arcs_of (e_addr_b env) b (trio_qb t))"
        "pair_ok env t l x" "m = move_lr l x"
    unfolding in_trio_moves Let_def by blast
  then show ?case
  proof cases
    case L
    have v: "viable 1 (left_path ms) (right_path ms)" using IH L(3) by simp
    then show ?thesis using IH L lp
      by (cases "right_path ms") (auto simp: viable_def)
  next
    case R
    have v: "viable 2 (left_path ms) (right_path ms)" using IH R(3) by simp
    then show ?thesis using IH R lp
      by (cases "left_path ms") (auto simp: viable_def)
  next
    case LR
    have "snd l \<in> set (all_arcs a)" "snd x \<in> set (all_arcs b)"
      using arcs_of_in_all [OF q(1) LR(1)] arcs_of_in_all [OF q(2) LR(2)] by simp_all
    then have "e_map env ! arc_out (snd l) = arc_in (snd x) \<Longrightarrow>
        arc_out (snd l) = epsilon_index \<longleftrightarrow> arc_in (snd x) = epsilon_index"
      using io unfolding interface_ok_def by blast
    then have "arc_out (snd l) = epsilon_index \<longleftrightarrow> arc_in (snd x) = epsilon_index"
      using LR(3) by (cases "arc_out (snd l) = epsilon_index") (simp_all add: pair_ok_def)
    moreover from this have "arc_out (snd l) = epsilon_index \<Longrightarrow> trio_filter t = 0"
      using LR(3) by (simp add: pair_ok_def)
    ultimately show ?thesis using IH LR(4) lp by (auto simp: viable_def)
  qed
qed

lemma canonical_run:
  assumes "machine_path (e_addr_a env) a (trio_qa t) p qa" "machine_path (e_addr_b env) b (trio_qb t) r qb"
    and "map (nth (e_map env)) (outputs p) = inputs r" "viable (trio_filter t) p r" "trio_filter t < 3"
  shows "(\<exists>f < 3. trio_run env a b t (canonical t p r) (TrioKey qa qb f)) \<and>
    left_path (canonical t p r) = p \<and> right_path (canonical t p r) = r"
  using assms
proof (induction t p r rule: canonical.induct)
  case (1 t)
  then show ?case by (cases t) (auto simp: path_defs)
next
  case (2 t l p)
  have o: "arc_out (snd l) = epsilon_index" "map (nth (e_map env)) (outputs p) = inputs []"
    using 2(4) by (auto simp: path_defs split: if_splits)
  then have "trio_filter t \<noteq> 2" using 2(5) by (simp add: viable_def)
  then have m: "move_l t l \<in># trio_moves env a b t" using 2(2) o(1) by (auto simp: in_trio_moves Let_def)
  show ?case using 2(1) 2(2,3) o(2) m by (auto simp: viable_def left_path_def right_path_def)
next
  case (3 t x r)
  have o: "arc_in (snd x) = epsilon_index" "map (nth (e_map env)) (outputs []) = inputs r"
    using 3(4) by (auto simp: path_defs split: if_splits)
  then have "trio_filter t \<noteq> 1" using 3(5) by (simp add: viable_def)
  then have m: "move_r t x \<in># trio_moves env a b t" using 3(3) o(1) by (auto simp: in_trio_moves Let_def)
  show ?case using 3(1) 3(2,3) o(2) m by (auto simp: viable_def left_path_def right_path_def)
next
  case (4 t l p x r)
  have lx: "l \<in> set (arcs_of (e_addr_a env) a (trio_qa t))" "x \<in> set (arcs_of (e_addr_b env) b (trio_qb t))"
    using "4.prems"(1,2) by simp_all
  consider (LR) "(arc_out (snd l) = epsilon_index) = (arc_in (snd x) = epsilon_index)"
    | (L) "arc_out (snd l) = epsilon_index" "arc_in (snd x) \<noteq> epsilon_index"
    | (R) "arc_out (snd l) \<noteq> epsilon_index" "arc_in (snd x) = epsilon_index" by blast
  then show ?case
  proof cases
    case LR
    have "pair_ok env t l x"
      using LR "4.prems"(3-5) by (auto simp: pair_ok_def viable_def path_defs less_Suc_eq numeral_3_eq_3 split: if_splits)
    then have m: "move_lr l x \<in># trio_moves env a b t" using lx by (auto simp: in_trio_moves Let_def)
    have "map (nth (e_map env)) (outputs p) = inputs r" using LR "4.prems"(3) by (auto simp: path_defs split: if_splits)
    then show ?thesis using "4.IH"(1) [OF LR] "4.prems"(1,2) LR m by (auto simp: viable_def left_path_def right_path_def)
  next
    case L
    then have "trio_filter t \<noteq> 2" using "4.prems"(4) by (simp add: viable_def)
    then have m: "move_l t l \<in># trio_moves env a b t" using lx L by (auto simp: in_trio_moves Let_def)
    have "map (nth (e_map env)) (outputs p) = inputs (x # r)" using L "4.prems"(3) by (simp add: path_defs)
    then show ?thesis using "4.IH"(2) "4.prems"(1,2) L m by (auto simp: viable_def left_path_def right_path_def)
  next
    case R
    then have "trio_filter t \<noteq> 1" using "4.prems"(4) by (simp add: viable_def)
    then have m: "move_r t x \<in># trio_moves env a b t" using lx R by (auto simp: in_trio_moves Let_def)
    have "map (nth (e_map env)) (outputs (l # p)) = inputs r" using R "4.prems"(3) by (simp add: path_defs)
    then show ?thesis using "4.IH"(3) "4.prems"(1,2) R m by (auto simp: viable_def left_path_def right_path_def)
  qed
qed

lemma run_projects:
  assumes io: "interface_ok env a b" and ra: "arcs_in_range a" "arcs_in_range b"
  shows "trio_in (numStates a) (numStates b) t \<Longrightarrow> trio_run env a b t ms u \<Longrightarrow>
    machine_path (e_addr_a env) a (trio_qa t) (left_path ms) (trio_qa u) \<and>
    machine_path (e_addr_b env) b (trio_qb t) (right_path ms) (trio_qb u) \<and>
    map (nth (e_map env)) (outputs (left_path ms)) = inputs (right_path ms) \<and>
    visible (map m_in ms) = inputs (left_path ms) \<and> visible (map m_out ms) = outputs (right_path ms) \<and>
    (\<Prod>m\<leftarrow>ms. m_weight m) = path_weight (left_path ms) * path_weight (right_path ms)"
proof (induction ms arbitrary: t)
  case Nil
  then show ?case by (simp add: path_defs)
next
  case (Cons m ms)
  have m: "m \<in># trio_moves env a b t" and run: "trio_run env a b (m_dest m) ms u" using Cons.prems(2) by auto
  have tin: "trio_in (numStates a) (numStates b) (m_dest m)" by (rule trio_moves_range [OF m ra Cons.prems(1)])
  note IH = Cons.IH [OF tin run]
  have lp: "left_path (m # ms) = lefts m @ left_path ms" "right_path (m # ms) = rights m @ right_path ms"
    by (simp_all add: left_path_def right_path_def)
  have cons: "outputs (e # es) = (if arc_out (snd e) = epsilon_index then [] else [arc_out (snd e)]) @ outputs es"
    "inputs (e # es) = (if arc_in (snd e) = epsilon_index then [] else [arc_in (snd e)]) @ inputs es"
    "path_weight (e # es) = arc_weight (snd e) * path_weight es"
    "visible (s # ss) = (if s = epsilon_index then [] else [s]) @ visible ss" for e es and s ss
    by (simp_all add: outputs_def inputs_def visible_def path_weight_def)
  have q: "trio_qa t < numStates a" "trio_qb t < numStates b" using Cons.prems(1) by (auto simp: trio_in_def)
  from m consider (L) l where "l \<in> set (arcs_of (e_addr_a env) a (trio_qa t))" "arc_out (snd l) = epsilon_index" "m = move_l t l"
    | (R) x where "x \<in> set (arcs_of (e_addr_b env) b (trio_qb t))" "arc_in (snd x) = epsilon_index" "m = move_r t x"
    | (LR) l x where "l \<in> set (arcs_of (e_addr_a env) a (trio_qa t))" "x \<in> set (arcs_of (e_addr_b env) b (trio_qb t))"
        "pair_ok env t l x" "m = move_lr l x"
    unfolding in_trio_moves Let_def by blast
  then show ?case
  proof cases
    case L
    have f: "m_in m = arc_in (snd l)" "m_out m = epsilon_index" "m_weight m = arc_weight (snd l)"
      by (simp_all add: L(3) move_l_def)
    show ?thesis unfolding lp using IH L f by (simp add: cons mult_ac)
  next
    case R
    have f: "m_in m = epsilon_index" "m_out m = arc_out (snd x)" "m_weight m = arc_weight (snd x)"
      by (simp_all add: R(3) move_r_def)
    show ?thesis unfolding lp using IH R f by (simp add: cons mult_ac)
  next
    case LR
    have f: "m_in m = arc_in (snd l)" "m_out m = arc_out (snd x)" "m_weight m = arc_weight (snd l) * arc_weight (snd x)"
      by (simp_all add: LR(4) move_lr_def)
    have "snd l \<in> set (all_arcs a)" "snd x \<in> set (all_arcs b)"
      using arcs_of_in_all [OF q(1) LR(1)] arcs_of_in_all [OF q(2) LR(2)] by simp_all
    then have "e_map env ! arc_out (snd l) = arc_in (snd x) \<Longrightarrow>
        arc_out (snd l) = epsilon_index \<longleftrightarrow> arc_in (snd x) = epsilon_index"
      using io unfolding interface_ok_def by blast
    then have "(arc_out (snd l) = epsilon_index \<and> arc_in (snd x) = epsilon_index) \<or>
        (arc_out (snd l) \<noteq> epsilon_index \<and> arc_in (snd x) \<noteq> epsilon_index \<and> e_map env ! arc_out (snd l) = arc_in (snd x))"
      using LR(3) by (cases "arc_out (snd l) = epsilon_index") (simp_all add: pair_ok_def)
    then show ?thesis unfolding lp using IH LR(1,2,4) f by (auto simp: cons mult_ac)
  qed
qed

text \<open>Runs of the moves that \<open>compose_moves\<close> makes of each trio, from the operands and indices of \<open>st\<close>.\<close>

fun moves_run :: "('w::times) compose_env \<Rightarrow> 'w compose_state \<Rightarrow> TrioKey \<Rightarrow> 'w move list \<Rightarrow> TrioKey \<Rightarrow> bool" where
  "moves_run env st t [] u \<longleftrightarrow> t = u"
| "moves_run env st t (m # ms) u \<longleftrightarrow> m \<in> set (fst (compose_moves env t st)) \<and> moves_run env st (m_dest m) ms u"

lemma moves_run_trio:
  assumes "composable env a b" "operands_ok env a b st"
  shows "trio_in (numStates a) (numStates b) t \<Longrightarrow> moves_run env st t ms u \<longleftrightarrow> trio_run env a b t ms u"
proof (induction ms arbitrary: t)
  case (Cons m ms)
  have io: "interface_ok env a b" "arcs_in_range a" "arcs_in_range b" using assms(1) by (auto simp: composable_def)
  obtain ns a' b' where "compose_moves env t st = (ns, st\<lparr>c_a := a', c_b := b'\<rparr>)" "mset ns = trio_moves env a b t"
    by (rule compose_moves_spec [OF assms(2) io(1) Cons.prems])
  then have "m \<in> set (fst (compose_moves env t st)) \<longleftrightarrow> m \<in># trio_moves env a b t" by (metis fst_conv set_mset_mset)
  then show ?case using Cons.IH trio_moves_range [OF _ io(2,3) Cons.prems] by auto
qed simp

lemma trio_run_interleaving:
  fixes a b :: "('w::comm_semiring_1) WFST"
  assumes "composable env a b" "0 < numStates a" "0 < numStates b"
  shows "(machine_path (e_addr_a env) a 0 p (final a) \<and> machine_path (e_addr_b env) b 0 r (final b) \<and>
      map (nth (e_map env)) (outputs p) = inputs r \<longleftrightarrow>
      (\<exists>!ms. (\<exists>f < 3. trio_run env a b (TrioKey 0 0 0) ms (TrioKey (final a) (final b) f)) \<and>
             left_path ms = p \<and> right_path ms = r)) \<and>
    (\<forall>ms t. trio_run env a b (TrioKey 0 0 0) ms t \<longrightarrow>
      visible (map m_in ms) = inputs (left_path ms) \<and> visible (map m_out ms) = outputs (right_path ms) \<and>
      (\<Prod>m\<leftarrow>ms. m_weight m) = path_weight (left_path ms) * path_weight (right_path ms))"
proof -
  have io: "interface_ok env a b" and ra: "arcs_in_range a" "arcs_in_range b" using assms by (auto simp: composable_def)
  have t0: "trio_in (numStates a) (numStates b) (TrioKey 0 0 0)" using assms by (simp add: trio_in_def)
  note uniq = run_canonical [OF io ra t0] and proj = run_projects [OF io ra t0]
  have "(\<exists>f < 3. trio_run env a b (TrioKey 0 0 0) (canonical (TrioKey 0 0 0) p r) (TrioKey (final a) (final b) f)) \<and>
      left_path (canonical (TrioKey 0 0 0) p r) = p \<and> right_path (canonical (TrioKey 0 0 0) p r) = r"
    if "machine_path (e_addr_a env) a 0 p (final a)" "machine_path (e_addr_b env) b 0 r (final b)"
      "map (nth (e_map env)) (outputs p) = inputs r"
    by (rule canonical_run) (use that in \<open>simp_all add: viable_def\<close>)
  moreover have "ms = canonical (TrioKey 0 0 0) p r"
    if "\<exists>f < 3. trio_run env a b (TrioKey 0 0 0) ms (TrioKey (final a) (final b) f)" "left_path ms = p" "right_path ms = r" for ms
    using that uniq by blast
  moreover have "machine_path (e_addr_a env) a 0 p (final a) \<and> machine_path (e_addr_b env) b 0 r (final b) \<and>
      map (nth (e_map env)) (outputs p) = inputs r"
    if "\<exists>f < 3. trio_run env a b (TrioKey 0 0 0) ms (TrioKey (final a) (final b) f)" "left_path ms = p" "right_path ms = r" for ms
    using that proj by fastforce
  ultimately have "machine_path (e_addr_a env) a 0 p (final a) \<and> machine_path (e_addr_b env) b 0 r (final b) \<and>
      map (nth (e_map env)) (outputs p) = inputs r \<longleftrightarrow>
      (\<exists>!ms. (\<exists>f < 3. trio_run env a b (TrioKey 0 0 0) ms (TrioKey (final a) (final b) f)) \<and>
             left_path ms = p \<and> right_path ms = r)"
    by (metis (no_types, lifting))
  then show ?thesis using proj by blast
qed

section \<open>The relation of a transducer\<close>

fun states_path :: "'w State list \<Rightarrow> nat \<Rightarrow> 'w FSTArc list \<Rightarrow> nat \<Rightarrow> bool" where
  "states_path ss p [] q \<longleftrightarrow> p = q"
| "states_path ss p (x # xs) q \<longleftrightarrow> p < length ss \<and> x \<in> set (arcs (ss ! p)) \<and> states_path ss (arc_dest x) xs q"

definition arcs_spell :: "('w::comm_semiring_1) FSTArc list \<Rightarrow> nat list \<Rightarrow> nat list \<Rightarrow> 'w \<Rightarrow> bool" where
  "arcs_spell xs i u w \<longleftrightarrow> visible (map arc_in xs) = i \<and> visible (map arc_out xs) = u \<and> (\<Prod>x\<leftarrow>xs. arc_weight x) = w"

text \<open>\<open>M\<close> transduces \<open>i\<close> to \<open>u\<close> with weight \<open>w\<close> on some accepting path.\<close>

definition transduces :: "('w::comm_semiring_1) WFST \<Rightarrow> nat list \<Rightarrow> nat list \<Rightarrow> 'w \<Rightarrow> bool" where
  "transduces M i u w \<longleftrightarrow> valid M \<and> (\<exists>xs. states_path (states M) 0 xs (final M) \<and> arcs_spell xs i u w)"

lemma machine_path_states:
  assumes "arcs_in_range M" "p < numStates M"
  shows "machine_path addr M p es q \<Longrightarrow> states_path (states M) p (map snd es) q"
    "states_path (states M) p xs q \<Longrightarrow> \<exists>es. map snd es = xs \<and> machine_path addr M p es q"
proof -
  have rng: "arc_dest (snd e) < numStates M" if "p < numStates M" "e \<in> set (arcs_of addr M p)" for p e
    using arcs_of_in_all [OF that] assms(1) by (auto simp: arcs_in_range_def)
  have mem: "(\<exists>e \<in> set (arcs_of addr M p). snd e = x) \<longleftrightarrow> x \<in> set (arcs (states M ! p))" for p x
    by (metis (no_types, lifting) image_iff set_map snd_arcs_of)
  show "machine_path addr M p es q \<Longrightarrow> states_path (states M) p (map snd es) q" using assms(2)
  proof (induction es arbitrary: p)
    case (Cons e es)
    then show ?case using mem rng by auto
  qed simp
  show "states_path (states M) p xs q \<Longrightarrow> \<exists>es. map snd es = xs \<and> machine_path addr M p es q" using assms(2)
  proof (induction xs arbitrary: p)
    case (Cons x xs)
    then have "x \<in> set (arcs (states M ! p))" by simp
    then obtain e where e: "e \<in> set (arcs_of addr M p)" "snd e = x" using mem by metis
    then have "arc_dest x < numStates M" using rng [OF Cons.prems(2) e(1)] by simp
    then obtain es where "map snd es = xs" "machine_path addr M (arc_dest x) es q" using Cons by auto
    then show ?case using e by (intro exI [of _ "e # es"]) simp
  qed simp
qed

lemma run_states:
  assumes comp: "composition_of env a b nm ss" and t: "nm t = Some i"
  shows "trio_run env a b t ms u \<Longrightarrow> \<exists>j xs. nm u = Some j \<and> states_path ss i xs j \<and>
      arcs_spell xs (visible (map m_in ms)) (visible (map m_out ms)) (\<Prod>m\<leftarrow>ms. m_weight m)"
    "states_path ss i xs j \<Longrightarrow> \<exists>u ms. nm u = Some j \<and> trio_run env a b t ms u \<and>
      arcs_spell xs (visible (map m_in ms)) (visible (map m_out ms)) (\<Prod>m\<leftarrow>ms. m_weight m)"
proof -
  have lt: "nm t = Some i \<Longrightarrow> i < length ss" for t i using comp by (auto simp: composition_of_def numbering_ok_def)
  have arcs: "\<exists>ms. mset ms = trio_moves env a b t \<and> list_all2 (arc_of_move nm) ms (arcs (ss ! i))" if "nm t = Some i" for t i
    using comp that by (auto simp: composition_of_def)
  have one: "\<exists>x \<in> set (arcs (ss ! i)). arc_of_move nm m x" if nt: "nm t = Some i" and m: "m \<in># trio_moves env a b t" for t i m
  proof -
    obtain ms where ms: "mset ms = trio_moves env a b t" "list_all2 (arc_of_move nm) ms (arcs (ss ! i))"
      using arcs [OF nt] by blast
    have "m \<in> set ms" using m ms(1) by (metis set_mset_mset)
    then show ?thesis using ms(2) by (metis in_set_conv_nth list_all2_conv_all_nth nth_mem)
  qed
  have bwd: "\<exists>m. m \<in># trio_moves env a b t \<and> arc_of_move nm m x" if nt: "nm t = Some i" and x: "x \<in> set (arcs (ss ! i))" for t i x
  proof -
    obtain ms where ms: "mset ms = trio_moves env a b t" "list_all2 (arc_of_move nm) ms (arcs (ss ! i))"
      using arcs [OF nt] by blast
    obtain m where "m \<in> set ms" "arc_of_move nm m x" using list_all2_in2 [OF ms(2) x] by blast
    then show ?thesis using ms(1) by (metis set_mset_mset)
  qed
  have spell: "arcs_spell (x # xs) (visible (map m_in (m # ms))) (visible (map m_out (m # ms))) (\<Prod>m\<leftarrow>m # ms. m_weight m)"
    if "arc_of_move nm m x" "arcs_spell xs (visible (map m_in ms)) (visible (map m_out ms)) (\<Prod>m\<leftarrow>ms. m_weight m)" for x xs m ms
    using that by (simp add: arcs_spell_def arc_of_move_def visible_def)
  show "trio_run env a b t ms u \<Longrightarrow> \<exists>j xs. nm u = Some j \<and> states_path ss i xs j \<and>
      arcs_spell xs (visible (map m_in ms)) (visible (map m_out ms)) (\<Prod>m\<leftarrow>ms. m_weight m)"
    using t
  proof (induction ms arbitrary: t i)
    case Nil
    then show ?case by (auto simp: arcs_spell_def visible_def intro!: exI [of _ "[]"])
  next
    case (Cons m ms)
    obtain x where x: "x \<in> set (arcs (ss ! i))" "arc_of_move nm m x" using one [OF Cons.prems(2)] Cons.prems(1) by auto
    then have "nm (m_dest m) = Some (arc_dest x)" by (simp add: arc_of_move_def)
    from Cons.IH [OF _ this] Cons.prems(1) obtain j xs where r: "nm u = Some j" "states_path ss (arc_dest x) xs j"
      "arcs_spell xs (visible (map m_in ms)) (visible (map m_out ms)) (\<Prod>m\<leftarrow>ms. m_weight m)" by auto
    have "states_path ss i (x # xs) j" using r(2) x(1) lt [OF Cons.prems(2)] by simp
    then show ?case using r(1) spell [OF x(2) r(3)] by blast
  qed
  show "states_path ss i xs j \<Longrightarrow> \<exists>u ms. nm u = Some j \<and> trio_run env a b t ms u \<and>
      arcs_spell xs (visible (map m_in ms)) (visible (map m_out ms)) (\<Prod>m\<leftarrow>ms. m_weight m)"
    using t
  proof (induction xs arbitrary: t i)
    case Nil
    then show ?case by (auto simp: arcs_spell_def visible_def intro!: exI [of _ t] exI [of _ "[]"])
  next
    case (Cons x xs)
    have "x \<in> set (arcs (ss ! i))" using Cons.prems(1) by simp
    then obtain m where m: "m \<in># trio_moves env a b t" "arc_of_move nm m x" using bwd [OF Cons.prems(2)] by blast
    then have "nm (m_dest m) = Some (arc_dest x)" by (simp add: arc_of_move_def)
    from Cons.IH [OF _ this] Cons.prems(1) obtain u ms where r: "nm u = Some j" "trio_run env a b (m_dest m) ms u"
      "arcs_spell xs (visible (map m_in ms)) (visible (map m_out ms)) (\<Prod>m\<leftarrow>ms. m_weight m)" by auto
    have "trio_run env a b t (m # ms) u" using r(2) m(1) by simp
    then show ?case using r(1) spell [OF m(2) r(3)] by blast
  qed
qed

lemma composition_dests:
  assumes "composition_of env a b nm ss" "i < length ss" "x \<in> set (arcs (ss ! i))"
  shows "arc_dest x < length ss"
proof -
  obtain t where t: "nm t = Some i" using assms(1,2) by (auto simp: composition_of_def numbering_ok_def)
  then obtain ms where ms: "list_all2 (arc_of_move nm) ms (arcs (ss ! i))"
    using assms(1) unfolding composition_of_def by blast
  obtain m where "arc_of_move nm m x" using list_all2_in2 [OF ms assms(3)] by blast
  then have "nm (m_dest m) = Some (arc_dest x)" by (simp add: arc_of_move_def)
  then show ?thesis using assms(1) by (auto simp: composition_of_def numbering_ok_def)
qed

lemma finished_paths:
  assumes dests: "\<And>i x. i < length ss \<Longrightarrow> x \<in> set (arcs (ss ! i)) \<Longrightarrow> arc_dest x < length ss"
    and n: "length ts = Suc (length ss)" "ts ! length ss = state_new"
    and at: "\<And>i. i < length ss \<Longrightarrow> ts ! i = (if i \<in> set ps then addArc (final_epsilon (length ss) g) (ss ! i) else ss ! i)"
    and i: "i < length ss"
  shows "states_path ts i xs (length ss) \<longleftrightarrow>
    (\<exists>ys. \<exists>j \<in> set ps. j < length ss \<and> xs = ys @ [final_epsilon (length ss) g] \<and> states_path ss i ys j)"
  using i
proof (induction xs arbitrary: i)
  case Nil
  then show ?case by auto
next
  case (Cons x xs)
  let ?e = "final_epsilon (length ss) g"
  have stop: "states_path ts (length ss) xs (length ss) \<longleftrightarrow> xs = []" by (cases xs) (auto simp: n)
  have e: "arc_dest ?e = length ss" by (simp add: final_epsilon_def)
  have arcs_i: "set (arcs (ts ! i)) = (if i \<in> set ps then insert ?e (set (arcs (ss ! i))) else set (arcs (ss ! i)))"
    using at [OF Cons.prems] by (simp add: addArc_def)
  show ?case
  proof (cases "x \<in> set (arcs (ss ! i))")
    case True
    then have d: "arc_dest x < length ss" using dests [OF Cons.prems] by simp
    then have "x \<noteq> ?e" by (auto simp: final_epsilon_def)
    have "states_path ts i (x # xs) (length ss) \<longleftrightarrow> states_path ts (arc_dest x) xs (length ss)"
      using Cons.prems n True arcs_i by auto
    also have "\<dots> \<longleftrightarrow> (\<exists>ys. \<exists>j \<in> set ps. j < length ss \<and> xs = ys @ [?e] \<and> states_path ss (arc_dest x) ys j)"
      by (rule Cons.IH [OF d])
    also have "\<dots> \<longleftrightarrow> (\<exists>ys. \<exists>j \<in> set ps. j < length ss \<and> x # xs = ys @ [?e] \<and> states_path ss i ys j)"
    proof
      assume "\<exists>ys. \<exists>j \<in> set ps. j < length ss \<and> xs = ys @ [?e] \<and> states_path ss (arc_dest x) ys j"
      then obtain ys j where "j \<in> set ps" "j < length ss" "xs = ys @ [?e]" "states_path ss (arc_dest x) ys j" by blast
      then show "\<exists>ys. \<exists>j \<in> set ps. j < length ss \<and> x # xs = ys @ [?e] \<and> states_path ss i ys j"
        using True Cons.prems by (intro exI [of _ "x # ys"]) auto
    next
      assume "\<exists>ys. \<exists>j \<in> set ps. j < length ss \<and> x # xs = ys @ [?e] \<and> states_path ss i ys j"
      then obtain ys j where ys: "j \<in> set ps" "j < length ss" "x # xs = ys @ [?e]" "states_path ss i ys j" by blast
      then obtain zs where "ys = x # zs" using \<open>x \<noteq> ?e\<close> by (cases ys) auto
      then show "\<exists>ys. \<exists>j \<in> set ps. j < length ss \<and> xs = ys @ [?e] \<and> states_path ss (arc_dest x) ys j" using ys by auto
    qed
    finally show ?thesis .
  next
    case False
    have "states_path ts i (x # xs) (length ss) \<longleftrightarrow> i \<in> set ps \<and> x = ?e \<and> xs = []"
      using Cons.prems n False arcs_i stop e by auto
    also have "\<dots> \<longleftrightarrow> (\<exists>ys. \<exists>j \<in> set ps. j < length ss \<and> x # xs = ys @ [?e] \<and> states_path ss i ys j)"
    proof
      assume "\<exists>ys. \<exists>j \<in> set ps. j < length ss \<and> x # xs = ys @ [?e] \<and> states_path ss i ys j"
      then obtain ys j where ys: "j \<in> set ps" "x # xs = ys @ [?e]" "states_path ss i ys j" by blast
      then have "ys = []" using False by (cases ys) auto
      then show "i \<in> set ps \<and> x = ?e \<and> xs = []" using ys by auto
    qed (use Cons.prems in \<open>auto intro!: exI [of _ "[]"]\<close>)
    finally show ?thesis .
  qed
qed

lemma finished_transduces:
  assumes comp: "composition_of env a b nm ss" and fin: "finished g (final_numbers a b nm) ss M"
    and small: "length ss < uint_minus1"
  shows "transduces M i u w \<longleftrightarrow>
    (\<exists>j \<in> set (final_numbers a b nm). \<exists>xs. states_path ss 0 xs j \<and> arcs_spell xs i u w)"
proof -
  let ?ps = "final_numbers a b nm"
  have nok: "numbering_ok nm (length ss)" and n0: "nm (TrioKey 0 0 0) = Some 0" using comp by (auto simp: composition_of_def)
  have l0: "0 < length ss" using nok n0 by (auto simp: numbering_ok_def)
  have sub: "set ?ps \<subseteq> {..<length ss}" by (rule final_numbers_distinct(2) [OF nok])
  consider "?ps = []" | p where "?ps = [p]" | "?ps \<noteq> []" "length ?ps \<noteq> 1"
    by (metis One_nat_def length_0_conv length_Suc_conv)
  then show ?thesis
  proof cases
    case 1
    then show ?thesis using fin by (simp add: finished_def transduces_def)
  next
    case 2
    then have "states M = ss" "final M = p" using fin by (simp_all add: finished_def)
    moreover have "valid M" using 2 sub small calculation by (simp add: valid_def invalid_state_def)
    ultimately show ?thesis using 2 by (simp add: transduces_def)
  next
    case 3
    then have f: "final M = length ss" "length (states M) = Suc (length ss)" "states M ! length ss = state_new"
      "\<And>i. i < length ss \<Longrightarrow> states M ! i = (if i \<in> set ?ps then addArc (final_epsilon (length ss) g) (ss ! i) else ss ! i)"
      using fin by (auto simp: finished_def)
    have v: "valid M" using f(1) small by (simp add: valid_def invalid_state_def)
    have fp: "states_path (states M) 0 xs (length ss) \<longleftrightarrow> (\<exists>ys. \<exists>j \<in> set ?ps. j < length ss \<and>
        xs = ys @ [final_epsilon (length ss) g] \<and> states_path ss 0 ys j)" for xs
    proof (rule finished_paths [OF _ f(2,3) _ l0])
      show "arc_dest x < length ss" if "i < length ss" "x \<in> set (arcs (ss ! i))" for i x
        by (rule composition_dests [OF comp that])
    qed (rule f(4))
    have sp: "arcs_spell (ys @ [final_epsilon (length ss) g]) i u w \<longleftrightarrow> arcs_spell ys i u w" for ys
      by (simp add: arcs_spell_def final_epsilon_def visible_def epsilon_index_def)
    show ?thesis
      unfolding transduces_def f(1) fp using v sub sp by blast
  qed
qed

lemma composition_relation:
  fixes a b :: "('w::comm_semiring_1) WFST"
  assumes cp: "composable env a b" and comp: "composition_of env a b nm ss"
    and ok: "wfst_ok a" "wfst_ok b"
  shows "(\<exists>j \<in> set (final_numbers a b nm). \<exists>xs. states_path ss 0 xs j \<and> arcs_spell xs i u w) \<longleftrightarrow>
    (\<exists>s w1 w2. transduces a i s w1 \<and> transduces b (map (nth (e_map env)) s) u w2 \<and> w = w1 * w2)"
proof -
  have io: "interface_ok env a b" and ra: "arcs_in_range a" "arcs_in_range b" using cp by (auto simp: composable_def)
  have n0: "nm (TrioKey 0 0 0) = Some 0" using comp by (simp add: composition_of_def)
  have pos: "0 < numStates a" "0 < numStates b" "valid a" "valid b"
    using ok by (auto simp: wfst_ok_def valid_def invalid_state_def)
  have t0: "trio_in (numStates a) (numStates b) (TrioKey 0 0 0)" using pos by (simp add: trio_in_def)
  have spell: "arcs_spell (map snd es) (inputs es) (outputs es) (path_weight es)" for es :: "(param \<times> 'w FSTArc) list"
    by (simp add: arcs_spell_def inputs_def outputs_def path_weight_def comp_def)
  have spelt: "arcs_spell (map snd es) i u w \<longleftrightarrow> i = inputs es \<and> u = outputs es \<and> w = path_weight es"
    for es :: "(param \<times> 'w FSTArc) list" and i u w
    by (auto simp: arcs_spell_def inputs_def outputs_def path_weight_def comp_def)
  show ?thesis
  proof
    assume "\<exists>j \<in> set (final_numbers a b nm). \<exists>xs. states_path ss 0 xs j \<and> arcs_spell xs i u w"
    then obtain j xs where j: "j \<in> set (final_numbers a b nm)" and xs: "states_path ss 0 xs j" "arcs_spell xs i u w" by blast
    from j obtain f where f: "nm (TrioKey (final a) (final b) f) = Some j"
      by (auto simp: final_numbers_def List.map_filter_def split: if_splits option.splits)
    from run_states(2) [OF comp n0 xs(1)] obtain t ms where r: "nm t = Some j" "trio_run env a b (TrioKey 0 0 0) ms t"
      "arcs_spell xs (visible (map m_in ms)) (visible (map m_out ms)) (\<Prod>m\<leftarrow>ms. m_weight m)" by blast
    have "numbering_ok nm (length ss)" using comp by (simp add: composition_of_def)
    then have t: "t = TrioKey (final a) (final b) f" using r(1) f numbering_ok_inj by metis
    note pr = run_projects [OF io ra t0 r(2)]
    have "states_path (states a) 0 (map snd (left_path ms)) (final a)"
        "states_path (states b) 0 (map snd (right_path ms)) (final b)"
      using pr t machine_path_states(1) [OF ra(1) pos(1)] machine_path_states(1) [OF ra(2) pos(2)] by auto
    then have "transduces a (inputs (left_path ms)) (outputs (left_path ms)) (path_weight (left_path ms))"
        "transduces b (inputs (right_path ms)) (outputs (right_path ms)) (path_weight (right_path ms))"
      using spell pos by (auto simp: transduces_def)
    moreover have "i = inputs (left_path ms)" "u = outputs (right_path ms)"
      "w = path_weight (left_path ms) * path_weight (right_path ms)"
      using r(3) xs(2) pr by (auto simp: arcs_spell_def)
    ultimately show "\<exists>s w1 w2. transduces a i s w1 \<and> transduces b (map (nth (e_map env)) s) u w2 \<and> w = w1 * w2"
      using pr by metis
  next
    assume "\<exists>s w1 w2. transduces a i s w1 \<and> transduces b (map (nth (e_map env)) s) u w2 \<and> w = w1 * w2"
    then obtain s w1 w2 xs ys where w: "w = w1 * w2" and xs: "states_path (states a) 0 xs (final a)" "arcs_spell xs i s w1"
      and ys: "states_path (states b) 0 ys (final b)" "arcs_spell ys (map (nth (e_map env)) s) u w2"
      by (auto simp: transduces_def)
    obtain p where p: "map snd p = xs" "machine_path (e_addr_a env) a 0 p (final a)"
      using machine_path_states(2) [OF ra(1) pos(1) xs(1)] by blast
    obtain r where r: "map snd r = ys" "machine_path (e_addr_b env) b 0 r (final b)"
      using machine_path_states(2) [OF ra(2) pos(2) ys(1)] by blast
    have sp: "i = inputs p" "s = outputs p" "w1 = path_weight p" "map (nth (e_map env)) s = inputs r" "u = outputs r" "w2 = path_weight r"
      using xs(2) ys(2) p(1) r(1) spelt by auto
    let ?ms = "canonical (TrioKey 0 0 0) p r"
    have "(\<exists>f < 3. trio_run env a b (TrioKey 0 0 0) ?ms (TrioKey (final a) (final b) f)) \<and> left_path ?ms = p \<and> right_path ?ms = r"
      by (rule canonical_run) (use p r sp in \<open>simp_all add: viable_def\<close>)
    then obtain f where f: "f < 3" "trio_run env a b (TrioKey 0 0 0) ?ms (TrioKey (final a) (final b) f)"
      "left_path ?ms = p" "right_path ?ms = r" by blast
    from run_states(1) [OF comp n0 f(2)] obtain j xs where j: "nm (TrioKey (final a) (final b) f) = Some j" "states_path ss 0 xs j"
      "arcs_spell xs (visible (map m_in ?ms)) (visible (map m_out ?ms)) (\<Prod>m\<leftarrow>?ms. m_weight m)" by blast
    have "f = 0 \<or> f = 1 \<or> f = 2" using f(1) by auto
    then have "j \<in> set (final_numbers a b nm)" using j(1) by (auto simp: final_numbers_def List.map_filter_def)
    then show "\<exists>j \<in> set (final_numbers a b nm). \<exists>xs. states_path ss 0 xs j \<and> arcs_spell xs i u w"
      using j(2,3) run_projects [OF io ra t0 f(2)] f(3,4) sp w by auto
  qed
qed

lemma composition_size:
  assumes "composition_of env a b nm ss"
  shows "length ss \<le> 3 * numStates a * numStates b"
proof -
  have nok: "numbering_ok nm (length ss)" using assms by (simp add: composition_of_def)
  have "dom nm \<subseteq> {t. trio_in (numStates a) (numStates b) t}" using assms by (auto simp: composition_of_def)
  then have c: "card (dom nm) \<le> 3 * numStates a * numStates b" "finite (dom nm)"
    using card_mono [OF trios_finite(1)] finite_subset [OF _ trios_finite(1)] by (auto simp: trios_finite(2))
  have "{..<length ss} \<subseteq> (\<lambda>t. the (nm t)) ` dom nm"
  proof
    fix i assume "i \<in> {..<length ss}"
    then obtain t where "nm t = Some i" using nok by (auto simp: numbering_ok_def)
    then show "i \<in> (\<lambda>t. the (nm t)) ` dom nm" by force
  qed
  then have "length ss \<le> card ((\<lambda>t. the (nm t)) ` dom nm)" using card_mono c(2) by (metis card_lessThan finite_imageI)
  also have "\<dots> \<le> card (dom nm)" by (rule card_image_le [OF c(2)])
  finally show ?thesis using c(1) by simp
qed

lemma all_recordable_original: "casc ! addr = M \<Longrightarrow> all_recordable casc c False addr M"
  by (auto simp: all_recordable_def recordable_def arcs_of_def deref_def in_set_enumerate_eq)

lemma map_arcs_id:
  assumes "\<And>x. x \<in> set (all_arcs M) \<Longrightarrow> f x = x"
  shows "map_arcs f M = M"
proof -
  have "map (\<lambda>s. s\<lparr>arcs := map f (arcs s)\<rparr>) (states M) = states M"
  proof (rule map_idI)
    fix s assume "s \<in> set (states M)"
    then have "map f (arcs s) = arcs s" using assms by (intro map_idI) (auto simp: all_arcs_def)
    then show "s\<lparr>arcs := map f (arcs s)\<rparr> = s" by simp
  qed
  then show ?thesis by (simp add: map_arcs_def)
qed

lemma finished_arcs:
  assumes "finished g ps ss M" "x \<in> set (all_arcs M)"
  shows "(\<exists>s \<in> set ss. x \<in> set (arcs s)) \<or> x = final_epsilon (length ss) g"
proof -
  obtain s where "s \<in> set (states M)" "x \<in> set (arcs s)" using assms(2) by (auto simp: all_arcs_def)
  then obtain i where i: "i < numStates M" "x \<in> set (arcs (states M ! i))" by (metis in_set_conv_nth)
  show ?thesis
  proof (cases "ps = [] \<or> length ps = 1")
    case True
    then show ?thesis using assms(1) i nth_mem by (fastforce simp: finished_def split: if_splits)
  next
    case False
    then have f: "numStates M = Suc (length ss)" "states M ! length ss = state_new"
      "\<And>i. i < length ss \<Longrightarrow> states M ! i = (if i \<in> set ps then addArc (final_epsilon (length ss) g) (ss ! i) else ss ! i)"
      using assms(1) by (auto simp: finished_def)
    then have "i < length ss" using i by (cases "i = length ss") auto
    then show ?thesis using f(3) [of i] i(2) nth_mem [of i ss] by (auto simp: addArc_def split: if_splits)
  qed
qed

section \<open>A concrete composition\<close>

definition letters :: alph_heap where
  "letters = [Some (alph_new2 EPSILON_SYMBOL WILDCARD_SYMBOL)]"

text \<open>One arc from the start to the final state, reading \<open>i\<close> and writing \<open>u\<close>.\<close>

definition arrow :: "nat \<Rightarrow> nat \<Rightarrow> rat \<Rightarrow> rat WFST" where
  "arrow i u w = \<lparr>owner_alph = \<lambda>_. False, alph = \<lambda>_. Some 0, named_states = False, stateNames = alph_empty,
     final = 1, states = [\<lparr>arcs = [\<lparr>arc_in = i, arc_out = u, arc_dest = 1, arc_weight = w, groupId = no_group\<rparr>],
                          state_size = 1, state_index = None\<rparr>, state_new],
     indexed_by = kNone\<rparr>"

lemma letters_ok: "symbols_ok (alph_new2 EPSILON_SYMBOL WILDCARD_SYMBOL)"
proof -
  have ok1: "alph_ok (alph_add_at EPSILON_SYMBOL alph_empty)" by (rule alph_add_at_ok) simp_all
  have "alph_find (alph_add_at EPSILON_SYMBOL alph_empty) WILDCARD_SYMBOL = None"
    using alph_find_add_at [of alph_empty EPSILON_SYMBOL WILDCARD_SYMBOL] by (simp add: EPSILON_SYMBOL_def WILDCARD_SYMBOL_def)
  then have "alph_ok (alph_new2 EPSILON_SYMBOL WILDCARD_SYMBOL)" unfolding alph_new2_def by (rule alph_add_at_ok [OF ok1])
  then show ?thesis
    by (simp add: symbols_ok_def alph_new2_def no_holes_def uint_minus1_def EPSILON_SYMBOL_def WILDCARD_SYMBOL_def)
qed

lemma arrow_ok: "i < 2 \<Longrightarrow> u < 2 \<Longrightarrow> dir \<noteq> kNone \<Longrightarrow> operand_ok dir (arrow i u w) letters"
  using letters_ok
  by (cases dir)
    (auto simp: operand_ok_def wfst_ok_def arrow_def index_fits_def all_arcs_def size_ok_def state_new_def
      uint_minus1_def no_holes_def letters_def arc_symbol_def alph_new2_def)

lemma arrow_spells:
  "arcs_spell [\<lparr>arc_in = 1, arc_out = 1, arc_dest = 1, arc_weight = w, groupId = no_group\<rparr>] [1] [1] (w :: rat)"
  by (simp add: arcs_spell_def visible_def epsilon_index_def)

lemma arrow_transduces: "transduces (arrow 1 1 w) [1] [1] w"
proof -
  have "states_path (states (arrow 1 1 w)) 0 [\<lparr>arc_in = 1, arc_out = 1, arc_dest = 1, arc_weight = w, groupId = no_group\<rparr>] 1"
    by (simp add: arrow_def)
  moreover have "final (arrow 1 1 w) = 1" "valid (arrow 1 1 w)"
    by (simp_all add: arrow_def valid_def invalid_state_def uint_minus1_def)
  ultimately show ?thesis
    unfolding transduces_def
    by (metis (no_types, lifting) arrow_spells)
qed

definition example_start :: "rat WFST \<Rightarrow> rat WFST \<Rightarrow> rat compose_state" where
  "example_start a b = \<lparr>c_a = a, c_b = b, c_states = [], c_names = alph_empty, stateMap = ht_new 0,
     arcStateMap = ht_new 0, c_queue = [], c_cascade = cascade_new False\<rparr>"

section \<open>Properties\<close>

text \<open>C5: composing two well-formed transducers with the three state filter returns, and the composition
  relates a string to another with a weight exactly when the left transducer relates the first string to some
  middle string and the right one relates that, read in its own alphabet, to the second, the weights
  multiplying to the weight. The operands keep their arcs, and the number of states is at most three for each
  pair of states, plus one.\<close>

theorem wfst_compose_relation:
  fixes a b :: "('w::comm_semiring_1) WFST"
  assumes "operand_ok kOutput a h" "operand_ok kInput b h" "3 * numStates a * numStates b < uint_minus1"
  shows "\<exists>M a' b' c. wfst_compose False False a b h = Inr (M, h, a', b', c) \<and>
    same_machine a a' \<and> same_machine b b' \<and> numStates M \<le> 3 * numStates a * numStates b + 1 \<and>
    (\<forall>i u w. transduces M i u w \<longleftrightarrow>
      (\<exists>s w1 w2. transduces a i s w1 \<and>
         transduces b (map (nth (computeMap (the (h ! the (alph a kOutput))) (the (h ! the (alph b kInput))))) s) u w2 \<and>
         w = w1 * w2))"
proof -
  let ?env = "compose_env_of False h [] 0 1 a b"
  obtain M a' b' c nm ss where r: "wfst_compose False False a b h = Inr (M, h, a', b', c)"
    "composition_of ?env a b nm ss" "finished (locked_1_groupid c) (final_numbers a b nm) ss M"
    "same_machine a a'" "same_machine b b'"
    using set_compose_spec [OF assms(1,2) _ refl, of _ "[]" 0 1 "cascade_new False"]
    unfolding wfst_compose_def by (metis (no_types, lifting) WFST.select_convs(1))
  have ok: "wfst_ok a" "wfst_ok b" using assms by (auto simp: operand_ok_def)
  have m: "e_map ?env = computeMap (the (h ! the (alph a kOutput))) (the (h ! the (alph b kInput)))"
    by (simp add: compose_env_of_def Let_def)
  have sz: "length ss \<le> 3 * numStates a * numStates b" by (rule composition_size [OF r(2)])
  then have "length ss < uint_minus1" using assms(3) by simp
  note tr = finished_transduces [OF r(2,3) this]
    composition_relation [OF operand_ok_composable(1) [OF assms(1,2)] r(2) ok, unfolded m]
  have "numStates M \<le> 3 * numStates a * numStates b + 1"
    using r(3) sz by (auto simp: finished_def split: if_splits)
  moreover have "transduces M i u w \<longleftrightarrow>
      (\<exists>s w1 w2. transduces a i s w1 \<and>
         transduces b (map (nth (computeMap (the (h ! the (alph a kOutput))) (the (h ! the (alph b kInput))))) s) u w2 \<and>
         w = w1 * w2)" for i u w
    unfolding tr(1) by (rule tr(2))
  ultimately show ?thesis using r(1,4,5) by (intro exI conjI allI)
qed

theorem wfst_compose_relation_witness:
  "\<exists>M a' b' c. wfst_compose False False (arrow 1 1 (1/2)) (arrow 1 1 (1/3)) letters = Inr (M, letters, a', b', c) \<and>
    transduces M [1] [1] (1/6)"
proof -
  have n: "numStates (arrow i u w) = 2" for i u w by (simp add: arrow_def)
  have al: "the (letters ! the (alph (arrow i u w) d)) = alph_new2 EPSILON_SYMBOL WILDCARD_SYMBOL" for i u w d
    by (simp add: arrow_def letters_def)
  have mp: "computeMap (alph_new2 EPSILON_SYMBOL WILDCARD_SYMBOL) (alph_new2 EPSILON_SYMBOL WILDCARD_SYMBOL) ! 1 = 1"
    using computeMap_nth [OF letters_ok letters_ok, of 1 1] by (simp add: alph_new2_def)
  obtain M a' b' c where r: "wfst_compose False False (arrow 1 1 (1/2)) (arrow 1 1 (1/3)) letters = Inr (M, letters, a', b', c)"
    and t: "\<forall>i u w. transduces M i u w \<longleftrightarrow> (\<exists>s w1 w2. transduces (arrow 1 1 (1/2)) i s w1 \<and>
         transduces (arrow 1 1 (1/3)) (map (nth (computeMap (alph_new2 EPSILON_SYMBOL WILDCARD_SYMBOL)
            (alph_new2 EPSILON_SYMBOL WILDCARD_SYMBOL))) s) u w2 \<and> w = w1 * w2)"
    using wfst_compose_relation [OF arrow_ok arrow_ok, of 1 1 1 1 "1/2" "1/3"] unfolding al n
    by (auto simp: uint_minus1_def)
  have "transduces M [1] [1] (1/2 * (1/3))"
    using t arrow_transduces [of "1/2"] arrow_transduces [of "1/3"] mp
    by (intro iffD2 [OF t [rule_format]] exI [of _ "[1]"] exI [of _ "1/2"] exI [of _ "1/3"]) simp
  then show ?thesis using r by auto
qed

text \<open>C6: however the pairs of states that a run goes through are joined (with an index or without), every pair
  of accepting paths of the operands whose outputs and inputs match is interleaved by exactly one run of the
  moves of \<open>compose_moves\<close> from the start trio to a final trio, so no weight is counted twice; and every such run
  comes from a matching pair, spells its input and output and has the product of its weights.\<close>

theorem compose_unique_interleaving:
  fixes a b :: "('w::comm_semiring_1) WFST"
  assumes "composable env a b" "0 < numStates a" "0 < numStates b" "operands_ok env a b st"
  shows "(machine_path (e_addr_a env) a 0 p (final a) \<and> machine_path (e_addr_b env) b 0 r (final b) \<and>
      map (nth (e_map env)) (outputs p) = inputs r \<longleftrightarrow>
      (\<exists>!ms. (\<exists>f < 3. moves_run env st (TrioKey 0 0 0) ms (TrioKey (final a) (final b) f)) \<and>
             left_path ms = p \<and> right_path ms = r)) \<and>
    (\<forall>ms t. moves_run env st (TrioKey 0 0 0) ms t \<longrightarrow>
      visible (map m_in ms) = inputs (left_path ms) \<and> visible (map m_out ms) = outputs (right_path ms) \<and>
      (\<Prod>m\<leftarrow>ms. m_weight m) = path_weight (left_path ms) * path_weight (right_path ms))"
proof -
  have "trio_in (numStates a) (numStates b) (TrioKey 0 0 0)" using assms(2,3) by (simp add: trio_in_def)
  then have "moves_run env st (TrioKey 0 0 0) ms t \<longleftrightarrow> trio_run env a b (TrioKey 0 0 0) ms t" for ms t
    by (rule moves_run_trio [OF assms(1,4)])
  then show ?thesis using trio_run_interleaving [OF assms(1-3)] by simp
qed

theorem compose_unique_interleaving_witness:
  "\<exists>!ms. (\<exists>f < 3. moves_run (compose_env_of False letters [] 0 1 (arrow 1 0 (1/2)) (arrow 0 1 (1/3)))
        (example_start (arrow 1 0 (1/2)) (arrow 0 1 (1/3))) (TrioKey 0 0 0) ms (TrioKey 1 1 f)) \<and>
      left_path ms = arcs_of 0 (arrow 1 0 (1/2)) 0 \<and> right_path ms = arcs_of 1 (arrow 0 1 (1/3)) 0"
proof -
  let ?a = "arrow 1 0 (1/2)" and ?b = "arrow 0 1 (1/3)"
  let ?env = "compose_env_of False letters [] 0 1 ?a ?b"
  have o: "operand_ok kOutput ?a letters" "operand_ok kInput ?b letters" by (simp_all add: arrow_ok)
  have c: "composable ?env ?a ?b" "0 < numStates ?a" "0 < numStates ?b"
    using operand_ok_composable(1) [OF o, of "[]" 0 1] operand_ok_composable(2,3) [OF o] by auto
  have op: "operands_ok ?env ?a ?b (example_start ?a ?b)"
    using operand_ok_composable(6,7) [OF o] by (simp add: operands_ok_def example_start_def same_machine_def)
  have e: "e_addr_a ?env = 0" "e_addr_b ?env = 1" by (simp_all add: compose_env_of_def Let_def)
  have "machine_path 0 ?a 0 (arcs_of 0 ?a 0) 1" "machine_path 1 ?b 0 (arcs_of 1 ?b 0) 1"
      "map (nth (e_map ?env)) (outputs (arcs_of 0 ?a 0)) = inputs (arcs_of 1 ?b 0)" "final ?a = 1" "final ?b = 1"
    by (simp_all add: arrow_def arcs_of_def outputs_def inputs_def visible_def epsilon_index_def)
  then show ?thesis using compose_unique_interleaving [OF c op, of "arcs_of 0 ?a 0" "arcs_of 1 ?b 0"] e by simp
qed

text \<open>C12: whichever of the three branches a pair of states takes (right state indexed, left state indexed,
  neither), it makes the arcs of the plain double loop over both states' arcs, each the same number of times.\<close>

theorem compose_branches_agree:
  fixes env :: "('w::times) compose_env"
  assumes "operands_ok env a b st" "interface_ok env a b" "trio_in (numStates a) (numStates b) t"
  shows "mset (fst (compose_moves env t st)) = mset (moves_small env a b t)"
  using compose_moves_spec [OF assms] moves_small_mset by (metis fst_conv)

theorem compose_branches_agree_witness:
  "mset (fst (compose_moves (compose_env_of False letters [] 0 1 (arrow 1 1 2) (arrow 1 1 3)) (TrioKey 0 0 0)
       (example_start (arrow 1 1 2) (arrow 1 1 3)))) =
     mset (moves_small (compose_env_of False letters [] 0 1 (arrow 1 1 2) (arrow 1 1 3)) (arrow 1 1 2) (arrow 1 1 3) (TrioKey 0 0 0))"
proof (rule compose_branches_agree)
  let ?env = "compose_env_of False letters [] 0 1 (arrow 1 1 2) (arrow 1 1 3)"
  have o: "operand_ok kOutput (arrow 1 1 2) letters" "operand_ok kInput (arrow 1 1 3) letters"
    by (simp_all add: arrow_ok)
  show "interface_ok ?env (arrow 1 1 2) (arrow 1 1 3)"
    using operand_ok_composable(1) [OF o, of "[]" 0 1] by (simp add: composable_def)
  show "operands_ok ?env (arrow 1 1 2) (arrow 1 1 3) (example_start (arrow 1 1 2) (arrow 1 1 3))"
    using operand_ok_composable(6,7) [OF o] by (simp add: operands_ok_def example_start_def same_machine_def)
  show "trio_in (numStates (arrow 1 1 2)) (numStates (arrow 1 1 3)) (TrioKey 0 0 0)" by (simp add: trio_in_def arrow_def)
qed

text \<open>C7: composing with a remembered cascade returns, and gives every arc a group that names a chain of
  parameters whose weights multiply to the weight of the arc, so \<open>update\<close>, which sets each weight from its chain,
  leaves the fresh composition as it is.\<close>

theorem cascade_compose_weights:
  fixes a b :: "('w::comm_semiring_1) WFST"
  assumes "operand_ok kOutput a h" "operand_ok kInput b h" "owner_alph M = (\<lambda>_. False)"
    and "cascade_ok casc cas" "all_recordable casc cas (is_chain_first cas) pa a"
      "all_recordable casc cas (is_chain_second cas) pb b"
  shows "\<exists>M' a' b' cas'. set_compose False False casc pa pb a b cas (M, h) = Inr (M', h, a', b', cas') \<and>
    (\<forall>x \<in> set (all_arcs M'). groupId x < length (chains cas') \<and>
      (\<Prod>p\<leftarrow>chains cas' ! groupId x. arc_weight (deref casc p)) = arc_weight x) \<and>
    snd (cascade_update casc (cas', M')) = M'"
proof -
  obtain M' a' b' cas' nm ss where r: "set_compose False False casc pa pb a b cas (M, h) = Inr (M', h, a', b', cas')"
    and s: "composition_of (compose_env_of False h casc pa pb a b) a b nm ss"
    "finished (locked_1_groupid cas') (final_numbers a b nm) ss M'" and ok: "cascade_ok casc cas'"
    and hc: "\<forall>s \<in> set ss. \<forall>x \<in> set (arcs s). has_chain casc cas' (groupId x) (arc_weight x)"
    using set_compose_spec [OF assms(1-3) refl, of casc pa pb cas] assms(4-6) by auto
  have nil: "locked_1_groupid cas' = nil_chain" using ok by (simp add: locked_1_groupid_def cascade_ok_def)
  have all: "has_chain casc cas' (groupId x) (arc_weight x)" if "x \<in> set (all_arcs M')" for x
    using finished_arcs [OF s(2) that] hc has_chain_nil [OF ok] nil by (auto simp: final_epsilon_def)
  have "update_composed_arc (calculate_chain_weights casc cas') x = x" if "x \<in> set (all_arcs M')" for x
    using all [OF that] by (simp add: update_composed_arc_def calculate_chain_weights_def has_chain_def accumulate_chain_product)
  then have "map_arcs (update_composed_arc (calculate_chain_weights casc cas')) M' = M'"
    by (rule map_arcs_id)
  moreover have "\<not> trivial cas'" using ok by (simp add: cascade_ok_def)
  ultimately have "snd (cascade_update casc (cas', M')) = M'" by (simp add: cascade_update_def Let_def)
  then show ?thesis using r all by (auto simp: has_chain_def chain_product_def)
qed

theorem cascade_compose_weights_witness:
  "\<exists>M a' b' c. set_compose False False [arrow 1 1 2, arrow 1 1 3] 0 1 (arrow 1 1 2) (arrow 1 1 3) (cascade_new True)
      (arrow 0 0 1, letters) = Inr (M, letters, a', b', c) \<and>
    snd (cascade_update [arrow 1 1 2, arrow 1 1 3] (c, M)) = M"
proof -
  let ?c = "[arrow 1 1 2, arrow 1 1 3]"
  have o: "operand_ok kOutput (arrow 1 1 2) letters" "operand_ok kInput (arrow 1 1 3) letters"
    and w: "owner_alph (arrow 0 0 1) = (\<lambda>_. False)"
    by (simp_all add: arrow_ok) (simp add: arrow_def)
  have ch: "is_chain_first (cascade_new True) = False" "is_chain_second (cascade_new True) = False"
    by (simp_all add: cascade_new_def)
  have ra: "all_recordable ?c (cascade_new True) (is_chain_first (cascade_new True)) 0 (arrow 1 1 2)"
    unfolding ch by (rule all_recordable_original) simp
  have rb: "all_recordable ?c (cascade_new True) (is_chain_second (cascade_new True)) 1 (arrow 1 1 3)"
    unfolding ch by (rule all_recordable_original) simp
  show ?thesis using cascade_compose_weights [OF o w cascade_ok_new ra rb] by blast
qed

end
