(* ===== verification/Normalize.thy ===== *)
theory Normalize
  imports WfstOps
begin

text \<open>
  Normalization of arc weights: \<open>NormalizeMethod\<close> and \<open>NormGroupIter\<close> of \<open>carmel/src/fst.h\<close> and
  \<open>WFST::normalize\<close> of \<open>carmel/src/fst.cc\<close>.  An arc is addressed by the number of its state and its position
  there.  \<open>mean_field_scale\<close> is the function \<open>norm_scale\<close> of the method, the identity by default.
\<close>

section \<open>Methods\<close>

datatype norm_group_by = CONDITIONAL | JOINT | NONE

datatype prior_group_by = FIXED | SINGLE | LOCAL

record 'w NormalizeMethod =
  priorgroup :: prior_group_by
  norm_group :: norm_group_by
  norm_scale :: "'w \<Rightarrow> 'w"
  add_count :: 'w

definition method_default :: "('w::zero) NormalizeMethod" where
  "method_default = \<lparr>priorgroup = SINGLE, norm_group = CONDITIONAL, norm_scale = (\<lambda>x. x), add_count = 0\<rparr>"

definition parse_group :: "char \<Rightarrow> 'w NormalizeMethod \<Rightarrow> 'w NormalizeMethod" where
  "parse_group c m =
     m\<lparr>norm_group := (if c = CHR ''j'' \<or> c = CHR ''J'' then JOINT
                      else if c = CHR ''c'' \<or> c = CHR ''C'' then CONDITIONAL else NONE)\<rparr>"

text \<open>\<open>None\<close> where the code throws.\<close>

definition parse_priorgroup :: "char \<Rightarrow> 'w NormalizeMethod \<Rightarrow> 'w NormalizeMethod option" where
  "parse_priorgroup c m =
     (if c = CHR ''0'' then Some (m\<lparr>priorgroup := FIXED\<rparr>)
      else if c = CHR ''1'' then Some (m\<lparr>priorgroup := SINGLE\<rparr>)
      else if c = CHR ''2'' then Some (m\<lparr>priorgroup := LOCAL\<rparr>)
      else None)"

section \<open>Iterating the normalization groups\<close>

text \<open>The number of the state and, for conditional normalization, the position in the index of that state.
  \<open>Ci\<close> is not initialised before the first state that has arcs.\<close>

record norm_iter =
  ni_state :: nat
  ni_Ci :: "(nat, nat list) HashIter"

definition ni_index :: "'w WFST \<Rightarrow> norm_iter \<Rightarrow> Index" where
  "ni_index M it = the (state_index (states M ! ni_state it))"

definition empty_state :: "'w WFST \<Rightarrow> norm_iter \<Rightarrow> bool" where
  "empty_state M it \<longleftrightarrow> state_size (states M ! ni_state it) = 0"

definition beginState :: "norm_group_by \<Rightarrow> 'w WFST \<Rightarrow> norm_iter \<Rightarrow> norm_iter" where
  "beginState meth M it =
     (if meth = CONDITIONAL \<and> \<not> empty_state M it then it\<lparr>ni_Ci := it_init (ni_index M it)\<rparr> else it)"

definition norm_iter_new :: "norm_group_by \<Rightarrow> 'w WFST \<Rightarrow> norm_iter" where
  "norm_iter_new meth M =
     beginState meth M \<lparr>ni_state = 0, ni_Ci = \<lparr>it_bucket = 0, it_end = 0, it_chain = []\<rparr>\<rparr>"

definition moreGroups :: "'w WFST \<Rightarrow> norm_iter \<Rightarrow> bool" where
  "moreGroups M it \<longleftrightarrow> ni_state it \<noteq> numStates M"

text \<open>The arcs from \<open>beginArcs\<close> by \<open>nextArc\<close> until \<open>moreArcs\<close> is false.\<close>

definition group_arcs :: "norm_group_by \<Rightarrow> 'w WFST \<Rightarrow> norm_iter \<Rightarrow> (nat \<times> nat) list" where
  "group_arcs meth M it =
     (if meth = CONDITIONAL
      then if empty_state M it then [] else map (Pair (ni_state it)) (snd (hd (it_chain (ni_Ci it))))
      else map (Pair (ni_state it)) [0..<length (arcs (states M ! ni_state it))])"

function skip_states :: "'w WFST \<Rightarrow> norm_iter \<Rightarrow> norm_iter" where
  "skip_states M it =
     (if ni_state it < numStates M \<and> (empty_state M it \<or> it_chain (ni_Ci it) = [])
      then (let it = it\<lparr>ni_state := ni_state it + 1\<rparr>
            in if moreGroups M it then skip_states M (beginState CONDITIONAL M it) else it)
      else it)"
  by auto
termination
  by (relation "measure (\<lambda>(M, it). numStates M - ni_state it)") (auto simp: beginState_def)

declare skip_states.simps [simp del]

definition nextGroup :: "norm_group_by \<Rightarrow> 'w WFST \<Rightarrow> norm_iter \<Rightarrow> norm_iter" where
  "nextGroup meth M it =
     (if meth = CONDITIONAL
      then skip_states M (if empty_state M it then it else it\<lparr>ni_Ci := it_next (ni_index M it) (ni_Ci it)\<rparr>)
      else it\<lparr>ni_state := ni_state it + 1\<rparr>)"

text \<open>\<open>for (NormGroupIter g(group, *this); g.moreGroups(); g.nextGroup())\<close>\<close>

partial_function (option) for_groups ::
  "norm_group_by \<Rightarrow> ((nat \<times> nat) list \<Rightarrow> 's \<times> 'w WFST \<Rightarrow> 's \<times> 'w WFST) \<Rightarrow> norm_iter \<Rightarrow> 's \<times> 'w WFST
    \<Rightarrow> ('s \<times> 'w WFST) option" where
  "for_groups meth body it sm =
     (if moreGroups (snd sm) it
      then (let sm' = body (group_arcs meth (snd sm) it) sm
            in for_groups meth body (nextGroup meth (snd sm') it) sm')
      else Some sm)"

section \<open>The two passes\<close>

definition arc_at :: "'w WFST \<Rightarrow> nat \<times> nat \<Rightarrow> 'w FSTArc" where
  "arc_at M p = arcs (states M ! fst p) ! snd p"

definition put_weight :: "nat \<times> nat \<Rightarrow> 'w \<Rightarrow> 'w WFST \<Rightarrow> 'w WFST" where
  "put_weight p w M =
     M\<lparr>states := (states M)[fst p :=
       (states M ! fst p)\<lparr>arcs := (arcs (states M ! fst p))[snd p := (arc_at M p)\<lparr>arc_weight := w\<rparr>]\<rparr>]\<rparr>"

type_synonym 'w group_table = "(nat, 'w) HashTable"

text \<open>Pass 1 on one group: add the count to every arc and sum up; then add to the totals of the tied arcs.\<close>

definition add_and_sum :: "('w::linordered_field) \<Rightarrow> (nat \<times> nat) list \<Rightarrow> 'w WFST \<Rightarrow> 'w \<times> 'w \<times> 'w WFST" where
  "add_and_sum addc g M =
     foldl (\<lambda>(arc_sum, locked_sum, M) p.
       let w = arc_weight (arc_at M p) + addc; M = put_weight p w M
       in if isLocked (groupId (arc_at M p)) then (arc_sum, locked_sum + w, M) else (arc_sum + w, locked_sum, M))
       (0, 0, M) g"

definition add_totals ::
  "('w::linordered_field) WFST \<Rightarrow> 'w \<Rightarrow> 'w \<Rightarrow> nat \<times> nat \<Rightarrow> 'w group_table \<times> 'w group_table \<times> 'w group_table
    \<Rightarrow> 'w group_table \<times> 'w group_table \<times> 'w group_table" where
  "add_totals M arc_sum locked_sum p tabs =
     (let (groupArcTotal, groupStateTotal, groupMaxLockedSum) = tabs; a = arc_at M p; pGroup = groupId a
      in if isTied pGroup
         then (ht_update uint_hash 0 pGroup (\<lambda>x. x + arc_weight a) groupArcTotal,
               ht_update uint_hash 0 pGroup (\<lambda>x. x + arc_sum) groupStateTotal,
               ht_update uint_hash 0 pGroup (\<lambda>m. if locked_sum > m then locked_sum else m) groupMaxLockedSum)
         else tabs)"

definition pass1 ::
  "('w::linordered_field) \<Rightarrow> (nat \<times> nat) list \<Rightarrow> ('w group_table \<times> 'w group_table \<times> 'w group_table) \<times> 'w WFST
    \<Rightarrow> ('w group_table \<times> 'w group_table \<times> 'w group_table) \<times> 'w WFST" where
  "pass1 addc g tm =
     (let (tabs, M) = tm; (arc_sum, locked_sum, M) = add_and_sum addc g M
      in (fold (add_totals M arc_sum locked_sum) g tabs, M))"

text \<open>The weight of the arcs of a tied group.  When \<open>gmax\<close> is 1, \<open>groupNorm /= (one - gmax)\<close> is infinite
  and the quotient by it is 0.\<close>

definition tied_weight :: "('w \<Rightarrow> 'w) \<Rightarrow> ('w::linordered_field) \<Rightarrow> 'w \<Rightarrow> 'w \<Rightarrow> 'w" where
  "tied_weight scale groupTotal groupNorm gmax =
     (if gmax > 1 then 0
      else if groupTotal = 0 then 0
      else if gmax = 1 then 0
      else scale groupTotal / scale (if gmax \<noteq> 0 then groupNorm / (1 - gmax) else groupNorm))"

text \<open>Pass 2a and 2b on one group.  Subtraction of weights stops at zero.\<close>

definition assign_tied ::
  "('w \<Rightarrow> 'w) \<Rightarrow> ('w::linordered_field) group_table \<times> 'w group_table \<times> 'w group_table \<Rightarrow> (nat \<times> nat) list \<Rightarrow> 'w WFST
    \<Rightarrow> 'w \<times> 'w \<times> 'w WFST" where
  "assign_tied scale tabs g M =
     foldl (\<lambda>(normal_sum, reserved, M) p.
       let a = arc_at M p; pGroup = groupId a; (groupArcTotal, groupStateTotal, groupMaxLockedSum) = tabs
       in if isTied pGroup
          then (let w = tied_weight scale (the (find_second uint_hash groupArcTotal pGroup))
                          (the (find_second uint_hash groupStateTotal pGroup))
                          (the (find_second uint_hash groupMaxLockedSum pGroup))
                in (normal_sum, reserved + w, put_weight p w M))
          else if isLocked pGroup then (normal_sum, reserved + arc_weight a, M)
          else (normal_sum + arc_weight a, reserved, M))
       (0, 0, M) g"

definition assign_normal :: "('w \<Rightarrow> 'w) \<Rightarrow> (nat \<times> nat) list \<Rightarrow> 'w \<times> 'w \<times> ('w::linordered_field) WFST \<Rightarrow> 'w WFST" where
  "assign_normal scale g nrm =
     (let (normal_sum, reserved, M) = nrm;
          fraction_remain = max 0 (1 - reserved)
      in if fraction_remain \<noteq> 0 \<and> normal_sum \<noteq> 0
         then (let scaled_sum = scale normal_sum
               in foldl (\<lambda>M p. let a = arc_at M p
                         in if isNormal (groupId a)
                            then put_weight p (fraction_remain * scale (arc_weight a) / scaled_sum) M else M) M g)
         else foldl (\<lambda>M p. if isNormal (groupId (arc_at M p)) then put_weight p 0 M else M) M g)"

definition pass2 ::
  "('w \<Rightarrow> 'w) \<Rightarrow> ('w::linordered_field) group_table \<times> 'w group_table \<times> 'w group_table \<Rightarrow> (nat \<times> nat) list
    \<Rightarrow> unit \<times> 'w WFST \<Rightarrow> unit \<times> 'w WFST" where
  "pass2 scale tabs g um = ((), assign_normal scale g (assign_tied scale tabs g (snd um)))"

text \<open>\<open>uniform_zero_normgroups\<close> keeps its default \<open>false\<close>: no caller sets it.\<close>

definition normalize_with :: "('w::linordered_field) NormalizeMethod \<Rightarrow> 'w WFST \<Rightarrow> 'w WFST option" where
  "normalize_with m M =
     (let grp = norm_group m
      in if grp = NONE then Some M
         else (let M = (if grp = CONDITIONAL then indexInput M else M);
                   t = ht_new DEFAULTHASHSIZE
               in case for_groups grp (pass1 (add_count m)) (norm_iter_new grp M) ((t, t, t), M) of
                    None \<Rightarrow> None
                  | Some (tabs, M) \<Rightarrow>
                      (case for_groups grp (pass2 (norm_scale m) tabs) (norm_iter_new grp M) ((), M) of
                         None \<Rightarrow> None
                       | Some (u, M) \<Rightarrow> Some (if grp = CONDITIONAL then indexFlush M else M))))"

section \<open>What the passes keep\<close>

definition shape :: "('w::zero) WFST \<Rightarrow> 'w WFST" where
  "shape M = M\<lparr>states := map (\<lambda>s. s\<lparr>arcs := map (\<lambda>a. a\<lparr>arc_weight := 0\<rparr>) (arcs s)\<rparr>) (states M)\<rparr>"

definition valid_pos :: "'w WFST \<Rightarrow> nat \<times> nat \<Rightarrow> bool" where
  "valid_pos M p \<longleftrightarrow> fst p < numStates M \<and> snd p < length (arcs (states M ! fst p))"

lemma arc_at_put:
  "valid_pos M p \<Longrightarrow> arc_at (put_weight p w M) q = (if q = p then (arc_at M p)\<lparr>arc_weight := w\<rparr> else arc_at M q)"
  by (cases p; cases q) (auto simp: valid_pos_def arc_at_def put_weight_def nth_list_update)

lemma valid_pos_put [simp]: "valid_pos (put_weight p w M) q = valid_pos M q"
proof -
  have "length (arcs ((states (put_weight p w M)) ! s)) = length (arcs (states M ! s))" for s
    by (cases "fst p < numStates M") (auto simp: put_weight_def nth_list_update list_update_beyond)
  moreover have "numStates (put_weight p w M) = numStates M" by (simp add: put_weight_def)
  ultimately show ?thesis by (simp add: valid_pos_def)
qed

lemma map_list_update_same: "f y = f (xs ! i) \<Longrightarrow> map f (xs[i := y]) = map f xs"
  by (metis length_map list_update_beyond list_update_id map_update not_le nth_map)

lemma shape_put [simp]: "shape (put_weight p w M) = shape M"
proof -
  have "map (\<lambda>s. s\<lparr>arcs := map (\<lambda>a. a\<lparr>arc_weight := 0\<rparr>) (arcs s)\<rparr>) (states (put_weight p w M)) =
      map (\<lambda>s. s\<lparr>arcs := map (\<lambda>a. a\<lparr>arc_weight := 0\<rparr>) (arcs s)\<rparr>) (states M)"
    by (simp add: put_weight_def arc_at_def map_list_update_same)
  then show ?thesis by (simp add: shape_def) (simp add: put_weight_def)
qed

lemma shapeD:
  assumes "shape M = shape M'"
  shows "numStates M = numStates M'"
    "s < numStates M \<Longrightarrow> state_size (states M ! s) = state_size (states M' ! s)"
    "s < numStates M \<Longrightarrow> state_index (states M ! s) = state_index (states M' ! s)"
    "s < numStates M \<Longrightarrow> length (arcs (states M ! s)) = length (arcs (states M' ! s))"
    "valid_pos M p \<longleftrightarrow> valid_pos M' p"
    "valid_pos M p \<Longrightarrow> (arc_at M p)\<lparr>arc_weight := 0\<rparr> = (arc_at M' p)\<lparr>arc_weight := 0\<rparr>"
proof -
  let ?f = "\<lambda>s. s\<lparr>arcs := map (\<lambda>a. a\<lparr>arc_weight := 0\<rparr>) (arcs s)\<rparr>"
  have m: "map ?f (states M) = map ?f (states M')"
    using arg_cong [OF assms, of states] by (simp add: shape_def)
  then show n: "numStates M = numStates M'" by (rule map_eq_imp_length_eq)
  have e: "?f (states M ! i) = ?f (states M' ! i)" if "i < numStates M" for i
    using arg_cong [OF m, of "\<lambda>xs. xs ! i"] that n by simp
  show "s < numStates M \<Longrightarrow> state_size (states M ! s) = state_size (states M' ! s)"
    using arg_cong [OF e, of s state_size] by simp
  show "s < numStates M \<Longrightarrow> state_index (states M ! s) = state_index (states M' ! s)"
    using arg_cong [OF e, of s state_index] by simp
  have a: "map (\<lambda>a. a\<lparr>arc_weight := 0\<rparr>) (arcs (states M ! i)) = map (\<lambda>a. a\<lparr>arc_weight := 0\<rparr>) (arcs (states M' ! i))"
    if "i < numStates M" for i
    using arg_cong [OF e [OF that], of arcs] by simp
  then show l: "s < numStates M \<Longrightarrow> length (arcs (states M ! s)) = length (arcs (states M' ! s))" for s
    using map_eq_imp_length_eq by blast
  then show v: "valid_pos M p \<longleftrightarrow> valid_pos M' p" for p using n by (auto simp: valid_pos_def)
  show "valid_pos M p \<Longrightarrow> (arc_at M p)\<lparr>arc_weight := 0\<rparr> = (arc_at M' p)\<lparr>arc_weight := 0\<rparr>"
    using arg_cong [OF a, of "fst p" "\<lambda>xs. xs ! snd p"] v [of p] by (auto simp: valid_pos_def arc_at_def)
qed

lemma shape_group: "shape M = shape M' \<Longrightarrow> valid_pos M p \<Longrightarrow> groupId (arc_at M p) = groupId (arc_at M' p)"
  using arg_cong [OF shapeD(6), of M M' p groupId] by simp

section \<open>The groups the iterator visits\<close>

definition indexed_input :: "'w WFST \<Rightarrow> bool" where
  "indexed_input M \<longleftrightarrow> (\<forall>s \<in> set (states M). size_ok s \<and>
     (\<exists>ix. state_index s = Some ix \<and> index_ok kInput (arcs s) ix))"

definition entry_groups :: "nat \<Rightarrow> (nat \<times> nat list) list \<Rightarrow> (nat \<times> nat) list list" where
  "entry_groups s es = map (\<lambda>e. map (Pair s) (snd e)) es"

definition state_groups :: "norm_group_by \<Rightarrow> 'w WFST \<Rightarrow> nat \<Rightarrow> (nat \<times> nat) list list" where
  "state_groups meth M s =
     (if meth = CONDITIONAL then entry_groups s (entries (the (state_index (states M ! s))))
      else [map (Pair s) [0..<length (arcs (states M ! s))]])"

definition later_groups :: "norm_group_by \<Rightarrow> 'w WFST \<Rightarrow> nat \<Rightarrow> (nat \<times> nat) list list" where
  "later_groups meth M s = concat (map (state_groups meth M) [s..<numStates M])"

definition pending :: "'w WFST \<Rightarrow> norm_iter \<Rightarrow> (nat \<times> nat) list list" where
  "pending M it = (if empty_state M it then [] else entry_groups (ni_state it) (it_rest (ni_index M it) (ni_Ci it))) @
     later_groups CONDITIONAL M (Suc (ni_state it))"

definition rest_groups :: "norm_group_by \<Rightarrow> 'w WFST \<Rightarrow> norm_iter \<Rightarrow> (nat \<times> nat) list list" where
  "rest_groups meth M it =
     (if ni_state it < numStates M
      then if meth = CONDITIONAL then (if empty_state M it then [[]] else []) @ pending M it
           else later_groups meth M (ni_state it)
      else [])"

definition iter_ok :: "norm_group_by \<Rightarrow> 'w WFST \<Rightarrow> norm_iter \<Rightarrow> bool" where
  "iter_ok meth M it \<longleftrightarrow> ni_state it \<le> numStates M \<and>
     (meth = CONDITIONAL \<and> ni_state it < numStates M \<and> \<not> empty_state M it \<longrightarrow>
        it_ok (ni_index M it) (ni_Ci it) \<and> it_chain (ni_Ci it) \<noteq> [])"

lemma later_groups_step: "s < numStates M \<Longrightarrow> later_groups meth M s = state_groups meth M s @ later_groups meth M (Suc s)"
  by (simp add: later_groups_def upt_rec [of s])

lemma later_groups_end: "numStates M \<le> s \<Longrightarrow> later_groups meth M s = []"
  by (simp add: later_groups_def)

lemma iter_same_state [simp]:
  "empty_state M (it\<lparr>ni_Ci := c\<rparr>) = empty_state M it" "ni_index M (it\<lparr>ni_Ci := c\<rparr>) = ni_index M it"
  by (simp_all add: empty_state_def ni_index_def)

lemma positions_nil: "positions P xs = [] \<longleftrightarrow> (\<forall>x \<in> set xs. \<not> P x)"
proof
  assume "positions P xs = []"
  then have "\<not> P (xs ! i)" if "i < length xs" for i using that by (auto simp: positions_def filter_empty_conv)
  then show "\<forall>x \<in> set xs. \<not> P x" by (metis in_set_conv_nth)
qed (auto simp: positions_def filter_empty_conv)

lemma index_entries:
  assumes "index_ok dir as ix"
  shows "(x, ps) \<in> set (entries ix) \<longleftrightarrow> ps \<noteq> [] \<and> ps = rev (positions (\<lambda>a. arc_symbol dir a = x) as)"
    "entries ix = [] \<longleftrightarrow> as = []"
proof -
  have inv: "ht_wf uint_hash ix"
    and f: "find_second uint_hash ix x =
      (let ps = rev (positions (\<lambda>a. arc_symbol dir a = x) as) in if ps = [] then None else Some ps)" for x
    using assms by (auto simp: index_ok_def ht_inv_def)
  show e: "(x, ps) \<in> set (entries ix) \<longleftrightarrow> ps \<noteq> [] \<and> ps = rev (positions (\<lambda>a. arc_symbol dir a = x) as)" for x ps
    unfolding find_second_Some_iff [OF inv, symmetric] f by (auto simp: Let_def)
  show "entries ix = [] \<longleftrightarrow> as = []"
  proof
    assume n: "entries ix = []"
    have "positions (\<lambda>a. arc_symbol dir a = x) as = []" for x using e [of x "rev (positions (\<lambda>a. arc_symbol dir a = x) as)"] n by simp
    then show "as = []" unfolding positions_nil by (cases as) auto
  next
    assume "as = []"
    then have "(x, ps) \<notin> set (entries ix)" for x ps unfolding e by (simp add: positions_def)
    then show "entries ix = []" by (metis last_in_set surj_pair)
  qed
qed

lemma index_of_state:
  assumes "indexed_input M" "s < numStates M"
  shows "index_ok kInput (arcs (states M ! s)) (the (state_index (states M ! s)))"
    "state_size (states M ! s) = length (arcs (states M ! s))"
proof -
  have s: "states M ! s \<in> set (states M)" using assms(2) by simp
  then show "index_ok kInput (arcs (states M ! s)) (the (state_index (states M ! s)))"
    "state_size (states M ! s) = length (arcs (states M ! s))"
    using assms(1) unfolding indexed_input_def size_ok_def by force+
qed

lemma begin_state_ok:
  assumes "indexed_input M" "ni_state it < numStates M"
  shows "iter_ok CONDITIONAL M (beginState CONDITIONAL M it)"
    "rest_groups CONDITIONAL M (beginState CONDITIONAL M it) =
       (if empty_state M it then [[]] else []) @ later_groups CONDITIONAL M (ni_state it)"
proof -
  let ?ix = "ni_index M it"
  have ix: "index_ok kInput (arcs (states M ! ni_state it)) ?ix"
    and sz: "empty_state M it \<longleftrightarrow> arcs (states M ! ni_state it) = []"
    using index_of_state [OF assms] by (simp_all add: ni_index_def empty_state_def)
  have i: "it_ok ?ix (it_init ?ix)" "it_rest ?ix (it_init ?ix) = entries ?ix"
    using it_init_spec ix by (auto simp: index_ok_def)
  have st: "ni_state (beginState CONDITIONAL M it) = ni_state it"
    "empty_state M (beginState CONDITIONAL M it) = empty_state M it"
    "ni_index M (beginState CONDITIONAL M it) = ?ix"
    by (simp_all add: beginState_def empty_state_def ni_index_def)
  have ne: "entries ?ix \<noteq> [] \<longleftrightarrow> \<not> empty_state M it" using index_entries(2) [OF ix] sz by simp
  show "iter_ok CONDITIONAL M (beginState CONDITIONAL M it)"
    using assms(2) i ne by (auto simp: iter_ok_def st beginState_def it_ok_def simp del: concat_eq_Nil_conv)
  have "entry_groups (ni_state it) (entries ?ix) = state_groups CONDITIONAL M (ni_state it)"
    by (simp add: state_groups_def ni_index_def)
  then show "rest_groups CONDITIONAL M (beginState CONDITIONAL M it) =
       (if empty_state M it then [[]] else []) @ later_groups CONDITIONAL M (ni_state it)"
    using assms(2) i(2) ne
    by (auto simp: rest_groups_def pending_def st later_groups_step entry_groups_def beginState_def simp del: concat_eq_Nil_conv)
qed

lemma skip_states_ok:
  assumes "indexed_input M" "ni_state it < numStates M" "\<not> empty_state M it \<Longrightarrow> it_ok (ni_index M it) (ni_Ci it)"
  shows "iter_ok CONDITIONAL M (skip_states M it) \<and> rest_groups CONDITIONAL M (skip_states M it) = pending M it"
  using assms
proof (induction M it rule: skip_states.induct)
  case (1 M it)
  let ?n = "it\<lparr>ni_state := ni_state it + 1\<rparr>"
  show ?case
  proof (cases "empty_state M it \<or> it_chain (ni_Ci it) = []")
    case True
    have p: "pending M it = later_groups CONDITIONAL M (Suc (ni_state it))"
      using True "1.prems"(3) by (auto simp: pending_def it_ok_def entry_groups_def)
    show ?thesis
    proof (cases "moreGroups M ?n")
      case more: True
      then have l: "ni_state ?n < numStates M" using "1.prems"(2) by (simp add: moreGroups_def)
      let ?b = "beginState CONDITIONAL M ?n"
      note b = begin_state_ok [OF "1.prems"(1) l]
      have st: "ni_state ?b = ni_state ?n" "empty_state M ?b = empty_state M ?n" "ni_index M ?b = ni_index M ?n"
        by (simp_all add: beginState_def empty_state_def ni_index_def)
      have "iter_ok CONDITIONAL M (skip_states M ?b) \<and> rest_groups CONDITIONAL M (skip_states M ?b) = pending M ?b"
        using "1.IH" [of ?n] "1.prems"(1,2) True more l b(1) st by (simp add: iter_ok_def)
      moreover have "pending M ?b = later_groups CONDITIONAL M (Suc (ni_state it))"
        using b(2) l st by (simp add: rest_groups_def)
      moreover have "skip_states M it = skip_states M ?b"
        using True more "1.prems"(2) by (subst skip_states.simps) (simp add: Let_def)
      ultimately show ?thesis using p by simp
    next
      case False
      then have s: "Suc (ni_state it) = numStates M" by (simp add: moreGroups_def)
      have "skip_states M it = ?n"
        using True False "1.prems"(2) by (subst skip_states.simps) (simp add: Let_def)
      with s show ?thesis using p by (simp add: iter_ok_def rest_groups_def later_groups_def)
    qed
  next
    case False
    then have "skip_states M it = it" by (subst skip_states.simps) auto
    with False "1.prems" show ?thesis by (simp add: iter_ok_def rest_groups_def)
  qed
qed

lemma next_group_ok:
  assumes "meth \<noteq> CONDITIONAL \<or> indexed_input M" "iter_ok meth M it" "moreGroups M it"
  shows "rest_groups meth M it = group_arcs meth M it # rest_groups meth M (nextGroup meth M it)"
    "iter_ok meth M (nextGroup meth M it)"
proof -
  have l: "ni_state it < numStates M" using assms(2,3) by (simp add: iter_ok_def moreGroups_def)
  have "rest_groups meth M it = group_arcs meth M it # rest_groups meth M (nextGroup meth M it) \<and>
    iter_ok meth M (nextGroup meth M it)"
  proof (cases "meth = CONDITIONAL")
    case True
    then have ix: "indexed_input M" using assms(1) by simp
    show ?thesis
    proof (cases "empty_state M it")
      case empty: True
      then show ?thesis using skip_states_ok [OF ix l] l True
        by (simp add: nextGroup_def rest_groups_def group_arcs_def)
    next
      case False
      let ?i = "it\<lparr>ni_Ci := it_next (ni_index M it) (ni_Ci it)\<rparr>"
      obtain e c where c: "it_chain (ni_Ci it) = e # c"
        using assms(2) True l False by (auto simp: iter_ok_def neq_Nil_conv)
      have st: "empty_state M ?i = empty_state M it" "ni_index M ?i = ni_index M it"
        by (simp_all add: empty_state_def ni_index_def)
      note nx = it_next_spec [OF c, of "ni_index M it"]
      have "iter_ok CONDITIONAL M (skip_states M ?i) \<and> rest_groups CONDITIONAL M (skip_states M ?i) = pending M ?i"
        using skip_states_ok [OF ix, of ?i] l st nx(2) by simp
      moreover have "pending M it = group_arcs meth M it # pending M ?i"
        using False True st nx(1) c by (simp add: pending_def entry_groups_def group_arcs_def it_rest_def)
      ultimately show ?thesis using True False l by (simp add: nextGroup_def rest_groups_def)
    qed
  next
    case False
    then show ?thesis using l assms(2)
      by (auto simp: nextGroup_def rest_groups_def group_arcs_def iter_ok_def later_groups_step state_groups_def later_groups_end)
  qed
  then show "rest_groups meth M it = group_arcs meth M it # rest_groups meth M (nextGroup meth M it)"
    "iter_ok meth M (nextGroup meth M it)" by simp_all
qed

lemma skip_states_shape:
  "shape M = shape M' \<Longrightarrow> skip_states M' it = skip_states M it"
proof (induction M it rule: skip_states.induct)
  case (1 M it)
  note sh = shapeD [OF "1.prems"]
  have e: "empty_state M' i = empty_state M i" "ni_index M' i = ni_index M i" if "ni_state i < numStates M" for i
    using sh(2,3) [OF that] by (simp_all add: empty_state_def ni_index_def)
  show ?case
  proof (cases "ni_state it < numStates M \<and> (empty_state M it \<or> it_chain (ni_Ci it) = []) \<and>
      moreGroups M (it\<lparr>ni_state := ni_state it + 1\<rparr>)")
    case True
    let ?n = "it\<lparr>ni_state := ni_state it + 1\<rparr>"
    have l: "ni_state ?n < numStates M" using True by (simp add: moreGroups_def)
    then have "beginState CONDITIONAL M' ?n = beginState CONDITIONAL M ?n" by (simp add: beginState_def e)
    then show ?thesis using "1.IH" [OF _ refl] "1.prems" True sh(1) e
      by (subst (1 2) skip_states.simps) (simp add: Let_def moreGroups_def)
  next
    case False
    then show ?thesis using sh(1) e by (subst (1 2) skip_states.simps) (auto simp: Let_def moreGroups_def)
  qed
qed

lemma iter_shape:
  assumes "shape M = shape M'" "moreGroups M it" "iter_ok meth M it"
  shows "moreGroups M' it" "group_arcs meth M' it = group_arcs meth M it" "nextGroup meth M' it = nextGroup meth M it"
proof -
  note sh = shapeD [OF assms(1)]
  have l: "ni_state it < numStates M" using assms by (simp add: iter_ok_def moreGroups_def)
  show "moreGroups M' it" "group_arcs meth M' it = group_arcs meth M it" "nextGroup meth M' it = nextGroup meth M it"
    using sh l assms skip_states_shape [OF assms(1)]
    by (auto simp: moreGroups_def group_arcs_def nextGroup_def empty_state_def ni_index_def)
qed

lemma for_groups_fold:
  assumes "meth \<noteq> CONDITIONAL \<or> indexed_input M" "iter_ok meth M it"
    and "\<And>g s M'. shape M' = shape M \<Longrightarrow> shape (snd (body g (s, M'))) = shape M"
    and "shape M' = shape M"
  shows "for_groups meth body it (s, M') = Some (fold body (rest_groups meth M it) (s, M'))"
  using assms(2,4)
proof (induction "rest_groups meth M it" arbitrary: it s M')
  case Nil
  then have "\<not> moreGroups M it" using next_group_ok [OF assms(1)] by (metis list.distinct(1))
  moreover have "numStates M' = numStates M" using shapeD(1) [OF Nil.prems(2)] .
  ultimately show ?case using Nil.hyps by (subst for_groups.simps) (simp add: moreGroups_def)
next
  case (Cons g gs)
  have m: "moreGroups M it" using Cons.hyps(2) Cons.prems(1)
    by (auto simp: moreGroups_def rest_groups_def)
  note nx = next_group_ok [OF assms(1) Cons.prems(1) m]
  note sh = iter_shape [OF Cons.prems(2) [symmetric] m Cons.prems(1)]
  obtain s2 M2 where b: "body (group_arcs meth M it) (s, M') = (s2, M2)" by fastforce
  have sh2: "shape M2 = shape M" using assms(3) [OF Cons.prems(2), of "group_arcs meth M it" s] b by simp
  have "for_groups meth body it (s, M') = for_groups meth body (nextGroup meth M it) (s2, M2)"
    using sh b iter_shape(3) [OF sh2 [symmetric] m Cons.prems(1)]
    by (subst for_groups.simps) (simp add: Let_def)
  moreover have "gs = rest_groups meth M (nextGroup meth M it)" using nx(1) Cons.hyps(2) by simp
  ultimately show ?case using Cons.hyps(1) [OF _ nx(2) sh2] nx(1) b by simp
qed

section \<open>The groups partition the arcs\<close>

definition norm_key :: "norm_group_by \<Rightarrow> 'w WFST \<Rightarrow> nat \<times> nat \<Rightarrow> nat \<times> nat option" where
  "norm_key meth M p = (fst p, if meth = CONDITIONAL then Some (arc_in (arc_at M p)) else None)"

definition group_of :: "norm_group_by \<Rightarrow> 'w WFST \<Rightarrow> nat \<times> nat \<Rightarrow> (nat \<times> nat) set" where
  "group_of meth M p = {q. valid_pos M q \<and> norm_key meth M q = norm_key meth M p}"

definition all_groups :: "norm_group_by \<Rightarrow> 'w WFST \<Rightarrow> (nat \<times> nat) list list" where
  "all_groups meth M = rest_groups meth M (norm_iter_new meth M)"

lemma distinct_concat_map:
  assumes "distinct xs" "\<And>x. x \<in> set xs \<Longrightarrow> distinct (f x)"
    and "\<And>x y z. x \<in> set xs \<Longrightarrow> y \<in> set xs \<Longrightarrow> z \<in> set (f x) \<Longrightarrow> z \<in> set (f y) \<Longrightarrow> x = y"
  shows "distinct (concat (map f xs))"
  using assms
proof (induction xs)
  case (Cons x xs)
  have "distinct (concat (map f xs))" using Cons.prems by (intro Cons.IH) auto
  moreover have "set (f x) \<inter> set (concat (map f xs)) = {}"
  proof (rule ccontr)
    assume "set (f x) \<inter> set (concat (map f xs)) \<noteq> {}"
    then obtain z y where "z \<in> set (f x)" "y \<in> set xs" "z \<in> set (f y)" by auto
    then have "x = y" using Cons.prems(3) by auto
    with \<open>y \<in> set xs\<close> Cons.prems(1) show False by simp
  qed
  ultimately show ?case using Cons.prems(2) by auto
qed simp

lemma concat_concat_map: "concat (concat (map f xs)) = concat (map (\<lambda>x. concat (f x)) xs)"
  by (induction xs) simp_all

lemma state_groups_partition:
  assumes "meth \<noteq> CONDITIONAL \<or> indexed_input M" "s < numStates M"
  shows "distinct (concat (state_groups meth M s))"
    "g \<in> set (state_groups meth M s) \<Longrightarrow> p \<in> set g \<Longrightarrow> valid_pos M p \<and> fst p = s \<and> set g = group_of meth M p"
    "valid_pos M p \<Longrightarrow> fst p = s \<Longrightarrow> p \<in> set (concat (state_groups meth M s))"
proof -
  let ?as = "arcs (states M ! s)"
  have "distinct (concat (state_groups meth M s)) \<and>
    (\<forall>g \<in> set (state_groups meth M s). \<forall>p \<in> set g. valid_pos M p \<and> fst p = s \<and> set g = group_of meth M p) \<and>
    (\<forall>p. valid_pos M p \<and> fst p = s \<longrightarrow> p \<in> set (concat (state_groups meth M s)))"
  proof (cases "meth = CONDITIONAL")
    case True
    let ?es = "entries (the (state_index (states M ! s)))"
    have ix: "index_ok kInput ?as (the (state_index (states M ! s)))"
      using assms True index_of_state by blast
    note e = index_entries(1) [OF ix]
    have d: "distinct (map fst ?es)" using ix by (simp add: index_ok_def ht_inv_def ht_wf_def)
    have ps: "i \<in> set ps \<longleftrightarrow> i < length ?as \<and> arc_in (?as ! i) = x" if "(x, ps) \<in> set ?es" for x ps i
      using that unfolding e by (auto simp: positions_def arc_symbol_def)
    have dp: "distinct ps" if "(x, ps) \<in> set ?es" for x ps
      using that unfolding e by (simp add: positions_def)
    have sg: "state_groups meth M s = map (\<lambda>e. map (Pair s) (snd e)) ?es"
      using True by (simp add: state_groups_def entry_groups_def)
    have "distinct (concat (map (\<lambda>e. map (Pair s) (snd e)) ?es))"
    proof (rule distinct_concat_map)
      show "distinct ?es" using d distinct_map by blast
      show "distinct (map (Pair s) (snd e))" if "e \<in> set ?es" for e
        using dp [of "fst e" "snd e"] that by (simp add: distinct_map inj_on_def)
      show "x = y" if h: "x \<in> set ?es" "y \<in> set ?es" "z \<in> set (map (Pair s) (snd x))" "z \<in> set (map (Pair s) (snd y))" for x y z
      proof -
        obtain i where "i \<in> set (snd x)" "i \<in> set (snd y)" using h(3,4) by auto
        then have "fst x = fst y" using ps [of "fst x" "snd x" i] ps [of "fst y" "snd y" i] h(1,2) by simp
        then show "x = y" using d h(1,2) by (metis eq_key_imp_eq_value prod.collapse)
      qed
    qed
    moreover have "valid_pos M p \<and> fst p = s \<and> set g = group_of meth M p"
      if h: "g \<in> set (map (\<lambda>e. map (Pair s) (snd e)) ?es)" "p \<in> set g" for g p
    proof -
      obtain e where "e \<in> set ?es" "g = map (Pair s) (snd e)" using h(1) unfolding set_map by blast
      then obtain x ns where x: "(x, ns) \<in> set ?es" "g = map (Pair s) ns" by (metis prod.collapse)
      then obtain i where i: "i \<in> set ns" "p = (s, i)" using h(2) by auto
      have "set g = {(s, j) |j. j < length ?as \<and> arc_in (?as ! j) = x}" using x ps [OF x(1)] by auto
      also have "\<dots> = group_of meth M p"
        using i ps [OF x(1), of i] assms(2) True
        by (auto simp: group_of_def norm_key_def valid_pos_def arc_at_def)
      finally show ?thesis using i ps [OF x(1), of i] assms(2) by (simp add: valid_pos_def)
    qed
    moreover have "p \<in> set (concat (map (\<lambda>e. map (Pair s) (snd e)) ?es))" if "valid_pos M p" "fst p = s" for p
    proof -
      have i: "snd p < length ?as" using that by (auto simp: valid_pos_def)
      let ?x = "arc_in (?as ! snd p)" and ?ps = "rev (positions (\<lambda>a. arc_symbol kInput a = arc_in (?as ! snd p)) ?as)"
      have m: "snd p \<in> set ?ps" using i by (simp add: positions_def arc_symbol_def)
      then have "(?x, ?ps) \<in> set ?es" unfolding e by (metis empty_iff list.set(1))
      then have "map (Pair s) ?ps \<in> set (map (\<lambda>e. map (Pair s) (snd e)) ?es)" by force
      moreover have "p \<in> set (map (Pair s) ?ps)" using m that(2) by (cases p) auto
      ultimately show ?thesis unfolding set_concat by blast
    qed
    ultimately show ?thesis unfolding sg by blast
  next
    case False
    then have "state_groups meth M s = [map (Pair s) [0..<length ?as]]" by (simp add: state_groups_def)
    then show ?thesis using assms(2) False
      by (auto simp: group_of_def norm_key_def valid_pos_def distinct_map inj_on_def image_iff)
  qed
  then show "distinct (concat (state_groups meth M s))"
    "g \<in> set (state_groups meth M s) \<Longrightarrow> p \<in> set g \<Longrightarrow> valid_pos M p \<and> fst p = s \<and> set g = group_of meth M p"
    "valid_pos M p \<Longrightarrow> fst p = s \<Longrightarrow> p \<in> set (concat (state_groups meth M s))" by blast+
qed

lemma all_groups_partition:
  assumes "meth \<noteq> CONDITIONAL \<or> indexed_input M" "0 < numStates M"
  shows "iter_ok meth M (norm_iter_new meth M)" "distinct (concat (all_groups meth M))"
    "set (concat (all_groups meth M)) = {p. valid_pos M p}"
    "g \<in> set (all_groups meth M) \<Longrightarrow> p \<in> set g \<Longrightarrow> set g = group_of meth M p"
proof -
  let ?i = "\<lparr>ni_state = 0, ni_Ci = \<lparr>it_bucket = 0, it_end = 0, it_chain = []\<rparr>\<rparr> :: norm_iter"
  have "iter_ok meth M (norm_iter_new meth M) \<and>
      (\<exists>E. concat E = [] \<and> all_groups meth M = E @ later_groups meth M 0)"
  proof (cases "meth = CONDITIONAL")
    case True
    then show ?thesis using begin_state_ok [of M ?i] assms
      by (auto simp: norm_iter_new_def all_groups_def)
  next
    case False
    then have "norm_iter_new meth M = ?i" by (simp add: norm_iter_new_def beginState_def)
    then show ?thesis using False assms(2) by (auto simp: all_groups_def rest_groups_def iter_ok_def)
  qed
  then obtain E where it: "iter_ok meth M (norm_iter_new meth M)" and E: "concat E = []"
    "all_groups meth M = E @ later_groups meth M 0" by blast
  show "iter_ok meth M (norm_iter_new meth M)" by (rule it)
  have c: "concat (all_groups meth M) = concat (map (\<lambda>s. concat (state_groups meth M s)) [0..<numStates M])"
    using E by (simp add: later_groups_def concat_concat_map)
  note sp = state_groups_partition [OF assms(1)]
  show "distinct (concat (all_groups meth M))" unfolding c
  proof (rule distinct_concat_map)
    show "x = y" if "x \<in> set [0..<numStates M]" "y \<in> set [0..<numStates M]"
      "z \<in> set (concat (state_groups meth M x))" "z \<in> set (concat (state_groups meth M y))" for x y z
      using that sp(2) [of x _ z] sp(2) [of y _ z] by auto
  qed (use sp(1) in simp_all)
  show "set (concat (all_groups meth M)) = {p. valid_pos M p}"
  proof -
    have "p \<in> set (concat (all_groups meth M)) \<longleftrightarrow> valid_pos M p" for p
    proof
      assume "p \<in> set (concat (all_groups meth M))"
      then obtain s g where "s < numStates M" "g \<in> set (state_groups meth M s)" "p \<in> set g" unfolding c by auto
      then show "valid_pos M p" using sp(2) by blast
    next
      assume v: "valid_pos M p"
      then have "fst p < numStates M" by (simp add: valid_pos_def)
      then show "p \<in> set (concat (all_groups meth M))" unfolding c using sp(3) [OF _ v refl] by auto
    qed
    then show ?thesis by blast
  qed
  show "set g = group_of meth M p" if g: "g \<in> set (all_groups meth M)" "p \<in> set g"
  proof -
    have "g \<notin> set E" using E(1) g(2) by auto
    then obtain s where "s < numStates M" "g \<in> set (state_groups meth M s)"
      using g(1) E(2) by (auto simp: later_groups_def)
    then show ?thesis using sp(2) g(2) by blast
  qed
qed

section \<open>Pass 1\<close>

abbreviation wt :: "'w WFST \<Rightarrow> nat \<times> nat \<Rightarrow> 'w" where
  "wt M p \<equiv> arc_weight (arc_at M p)"

abbreviation grp :: "'w WFST \<Rightarrow> nat \<times> nat \<Rightarrow> nat" where
  "grp M p \<equiv> groupId (arc_at M p)"

lemma add_and_sum_spec:
  assumes "distinct g" "\<forall>p \<in> set g. valid_pos M p"
  shows "\<exists>M'. add_and_sum addc g M =
      (\<Sum>p\<leftarrow>filter (\<lambda>p. \<not> isLocked (grp M p)) g. wt M p + addc,
       \<Sum>p\<leftarrow>filter (\<lambda>p. isLocked (grp M p)) g. wt M p + addc, M') \<and>
    shape M' = shape M \<and> (\<forall>p. wt M' p = wt M p + (if p \<in> set g then addc else 0))"
  using assms
proof (induction g rule: rev_induct)
  case (snoc p g)
  then obtain M' where M': "add_and_sum addc g M =
      (\<Sum>p\<leftarrow>filter (\<lambda>p. \<not> isLocked (grp M p)) g. wt M p + addc,
       \<Sum>p\<leftarrow>filter (\<lambda>p. isLocked (grp M p)) g. wt M p + addc, M')"
    "shape M' = shape M" "\<forall>p. wt M' p = wt M p + (if p \<in> set g then addc else 0)" by auto
  have v: "valid_pos M p" "valid_pos M' p" using snoc.prems(2) shapeD(5) [OF M'(2)] by auto
  have w: "wt M' p = wt M p" "grp M' p = grp M p" using snoc.prems(1) M'(3) [rule_format, of p] shape_group [OF M'(2) v(2)] by simp_all
  let ?M = "put_weight p (wt M p + addc) M'"
  have "add_and_sum addc (g @ [p]) M =
      (\<Sum>p\<leftarrow>filter (\<lambda>p. \<not> isLocked (grp M p)) (g @ [p]). wt M p + addc,
       \<Sum>p\<leftarrow>filter (\<lambda>p. isLocked (grp M p)) (g @ [p]). wt M p + addc, ?M)"
    using M'(1) w v by (auto simp: add_and_sum_def Let_def arc_at_put)
  moreover have "shape ?M = shape M" using M'(2) by simp
  moreover have "\<forall>q. wt ?M q = wt M q + (if q \<in> set (g @ [p]) then addc else 0)"
    using M'(3) w v by (simp add: arc_at_put)
  ultimately show ?case by blast
qed (simp add: add_and_sum_def)

definition table_val :: "('w::zero) group_table \<Rightarrow> nat \<Rightarrow> 'w" where
  "table_val t x = (case find_second uint_hash t x of None \<Rightarrow> 0 | Some v \<Rightarrow> v)"

text \<open>What the tables hold: sums over the tied arcs met so far, and the largest locked sum beside one of them.\<close>

definition tabs_hold ::
  "('w::linordered_field) group_table \<times> 'w group_table \<times> 'w group_table \<Rightarrow> nat
    \<Rightarrow> 'w list \<times> 'w list \<times> 'w list \<Rightarrow> bool" where
  "tabs_hold tabs x ls =
     (case (tabs, ls) of ((ta, st, mx), (ws, ns, lk)) \<Rightarrow>
        ht_inv uint_hash ta \<and> ht_inv uint_hash st \<and> ht_inv uint_hash mx \<and>
        table_val ta x = sum_list ws \<and> table_val st x = sum_list ns \<and> table_val mx x = foldl max 0 lk \<and>
        (ws \<noteq> [] \<longrightarrow> find_second uint_hash ta x \<noteq> None \<and> find_second uint_hash st x \<noteq> None \<and>
           find_second uint_hash mx x \<noteq> None))"

definition tied_in :: "'w WFST \<Rightarrow> nat \<Rightarrow> (nat \<times> nat) list \<Rightarrow> (nat \<times> nat) list" where
  "tied_in M x g = filter (\<lambda>p. isTied (grp M p) \<and> grp M p = x) g"

lemma add_totals_hold:
  assumes "tabs_hold tabs x (ws, ns, lk)"
  shows "tabs_hold (add_totals M n l p tabs) x
    (if isTied (grp M p) \<and> grp M p = x then (ws @ [wt M p], ns @ [n], lk @ [l]) else (ws, ns, lk))"
proof -
  obtain ta st mx where t: "tabs = (ta, st, mx)" by (cases tabs)
  have i: "ht_inv uint_hash ta" "ht_inv uint_hash st" "ht_inv uint_hash mx"
    using assms by (auto simp: tabs_hold_def t)
  note u = ht_update_props [OF i(1)] ht_update_props [OF i(2)] ht_update_props [OF i(3)]
  show ?thesis using assms
    by (auto simp: tabs_hold_def t add_totals_def Let_def u table_val_def max_def split: option.splits if_splits)
qed

lemma fold_add_totals_hold:
  assumes "tabs_hold tabs x (ws, ns, lk)"
  shows "tabs_hold (fold (add_totals M n l) g tabs) x
    (ws @ map (wt M) (tied_in M x g), ns @ map (\<lambda>_. n) (tied_in M x g), lk @ map (\<lambda>_. l) (tied_in M x g))"
  using assms
proof (induction g arbitrary: tabs ws ns lk)
  case (Cons p g)
  show ?case
  proof (cases "isTied (grp M p) \<and> grp M p = x")
    case True
    then have "tabs_hold (add_totals M n l p tabs) x (ws @ [wt M p], ns @ [n], lk @ [l])"
      using add_totals_hold [OF Cons.prems, of M n l p] unfolding if_P [OF True] by blast
    from Cons.IH [OF this] True show ?thesis by (auto simp: tied_in_def)
  next
    case False
    then have "tabs_hold (add_totals M n l p tabs) x (ws, ns, lk)"
      using add_totals_hold [OF Cons.prems, of M n l p] by auto
    from Cons.IH [OF this] False show ?thesis by (auto simp: tied_in_def)
  qed
qed (simp add: tied_in_def)

text \<open>The lists of a whole pass over the groups \<open>G\<close>.\<close>

definition pass1_lists :: "'w WFST \<Rightarrow> ('w::linordered_field) \<Rightarrow> (nat \<times> nat) list list \<Rightarrow> nat \<Rightarrow> 'w list \<times> 'w list \<times> 'w list" where
  "pass1_lists M addc G x =
     (concat (map (\<lambda>g. map (\<lambda>p. wt M p + addc) (tied_in M x g)) G),
      concat (map (\<lambda>g. map (\<lambda>_. \<Sum>p\<leftarrow>filter (\<lambda>p. \<not> isLocked (grp M p)) g. wt M p + addc) (tied_in M x g)) G),
      concat (map (\<lambda>g. map (\<lambda>_. \<Sum>p\<leftarrow>filter (\<lambda>p. isLocked (grp M p)) g. wt M p + addc) (tied_in M x g)) G))"

lemma pass1_spec:
  assumes "distinct (concat G)" "\<forall>p \<in> set (concat G). valid_pos M p" "\<forall>x. tabs_hold tabs x ([], [], [])"
  shows "\<exists>tabs' M'. fold (pass1 addc) G (tabs, M) = (tabs', M') \<and> shape M' = shape M \<and>
    (\<forall>p. wt M' p = wt M p + (if p \<in> set (concat G) then addc else 0)) \<and>
    (\<forall>x. tabs_hold tabs' x (pass1_lists M addc G x))"
  using assms(1,2)
proof (induction G rule: rev_induct)
  case Nil
  then show ?case using assms(3) by (simp add: pass1_lists_def)
next
  case (snoc g G)
  then obtain tabs' M' where r: "fold (pass1 addc) G (tabs, M) = (tabs', M')" "shape M' = shape M"
    "\<forall>p. wt M' p = wt M p + (if p \<in> set (concat G) then addc else 0)"
    "\<forall>x. tabs_hold tabs' x (pass1_lists M addc G x)" by auto
  have g: "distinct g" "\<forall>p \<in> set g. valid_pos M' p" and ng: "\<forall>p \<in> set g. p \<notin> set (concat G)"
    using snoc.prems shapeD(5) [OF r(2)] by auto
  have same: "wt M' p = wt M p" "grp M' p = grp M p" if "p \<in> set g" for p
    using r(3) [rule_format, of p] ng that shape_group [OF r(2)] g(2) by (simp_all del: set_concat)
  obtain M'' where a: "add_and_sum addc g M' =
      (\<Sum>p\<leftarrow>filter (\<lambda>p. \<not> isLocked (grp M' p)) g. wt M' p + addc,
       \<Sum>p\<leftarrow>filter (\<lambda>p. isLocked (grp M' p)) g. wt M' p + addc, M'')"
    and sh: "shape M'' = shape M'" and w: "\<forall>p. wt M'' p = wt M' p + (if p \<in> set g then addc else 0)"
    using add_and_sum_spec [OF g] by blast
  let ?n = "\<Sum>p\<leftarrow>filter (\<lambda>p. \<not> isLocked (grp M p)) g. wt M p + addc"
  let ?l = "\<Sum>p\<leftarrow>filter (\<lambda>p. isLocked (grp M p)) g. wt M p + addc"
  have f: "filter (\<lambda>p. \<not> isLocked (grp M' p)) g = filter (\<lambda>p. \<not> isLocked (grp M p)) g"
    "filter (\<lambda>p. isLocked (grp M' p)) g = filter (\<lambda>p. isLocked (grp M p)) g"
    using same by (auto intro: filter_cong)
  have m: "map (\<lambda>p. wt M' p + addc) (filter P g) = map (\<lambda>p. wt M p + addc) (filter P g)" for P
    using same by auto
  have "fold (pass1 addc) (G @ [g]) (tabs, M) = (fold (add_totals M'' ?n ?l) g tabs', M'')"
    using r(1) a by (simp add: pass1_def f m)
  moreover have "shape M'' = shape M" using sh r(2) by simp
  moreover have "\<forall>p. wt M'' p = wt M p + (if p \<in> set (concat (G @ [g])) then addc else 0)"
    using w r(3) ng by (simp del: set_concat)
  moreover have "tabs_hold (fold (add_totals M'' ?n ?l) g tabs') x (pass1_lists M addc (G @ [g]) x)" for x
  proof -
    have "grp M'' p = grp M p" if "p \<in> set g" for p
      using shape_group [OF sh] g(2) shapeD(5) [OF sh] same(2) that by auto
    then have t: "tied_in M'' x g = tied_in M x g" by (auto simp: tied_in_def intro: filter_cong)
    have mw: "map (wt M'') (tied_in M x g) = map (\<lambda>p. wt M p + addc) (tied_in M x g)"
      using w same(1) by (auto simp: tied_in_def)
    show ?thesis
      using fold_add_totals_hold [where M = M'' and n = "?n" and l = "?l" and g = g, OF r(4) [rule_format, of x, unfolded pass1_lists_def]]
      by (simp add: t mw pass1_lists_def)
  qed
  ultimately show ?case by blast
qed

section \<open>Pass 2\<close>

definition tied_of ::
  "('w \<Rightarrow> 'w) \<Rightarrow> ('w::linordered_field) group_table \<times> 'w group_table \<times> 'w group_table \<Rightarrow> nat \<Rightarrow> 'w" where
  "tied_of scale tabs x =
     (case tabs of (ta, st, mx) \<Rightarrow>
        tied_weight scale (the (find_second uint_hash ta x)) (the (find_second uint_hash st x)) (the (find_second uint_hash mx x)))"

lemma assign_tied_spec:
  assumes "distinct g" "\<forall>p \<in> set g. valid_pos M p"
  shows "\<exists>M'. assign_tied scale tabs g M =
      (\<Sum>p\<leftarrow>filter (\<lambda>p. isNormal (grp M p)) g. wt M p,
       \<Sum>p\<leftarrow>filter (\<lambda>p. \<not> isNormal (grp M p)) g. if isTied (grp M p) then tied_of scale tabs (grp M p) else wt M p, M') \<and>
    shape M' = shape M \<and>
    (\<forall>p. wt M' p = (if p \<in> set g \<and> isTied (grp M p) then tied_of scale tabs (grp M p) else wt M p))"
  using assms
proof (induction g rule: rev_induct)
  case (snoc p g)
  obtain ta st mx where tb: "tabs = (ta, st, mx)" by (cases tabs)
  obtain M' where M': "assign_tied scale tabs g M =
      (\<Sum>p\<leftarrow>filter (\<lambda>p. isNormal (grp M p)) g. wt M p,
       \<Sum>p\<leftarrow>filter (\<lambda>p. \<not> isNormal (grp M p)) g. if isTied (grp M p) then tied_of scale tabs (grp M p) else wt M p, M')"
    "shape M' = shape M"
    "\<forall>p. wt M' p = (if p \<in> set g \<and> isTied (grp M p) then tied_of scale tabs (grp M p) else wt M p)"
    using snoc by auto
  have v: "valid_pos M p" "valid_pos M' p" using snoc.prems(2) shapeD(5) [OF M'(2)] by auto
  have w: "wt M' p = wt M p" "grp M' p = grp M p"
    using snoc.prems(1) M'(3) [rule_format, of p] shape_group [OF M'(2) v(2)] by simp_all
  let ?M = "if isTied (grp M p) then put_weight p (tied_of scale tabs (grp M p)) M' else M'"
  have k: "isTied x \<Longrightarrow> \<not> isNormal x" "isLocked x \<Longrightarrow> \<not> isNormal x" "\<not> isTied x \<Longrightarrow> \<not> isLocked x \<Longrightarrow> isNormal x" for x
    using group_kinds by (auto simp: isTied_def)
  have "assign_tied scale tabs (g @ [p]) M =
      (\<Sum>p\<leftarrow>filter (\<lambda>p. isNormal (grp M p)) (g @ [p]). wt M p,
       \<Sum>p\<leftarrow>filter (\<lambda>p. \<not> isNormal (grp M p)) (g @ [p]). if isTied (grp M p) then tied_of scale tabs (grp M p) else wt M p, ?M)"
    using M'(1) w k unfolding assign_tied_def by (simp add: Let_def tb tied_of_def)
  moreover have "shape ?M = shape M" using M'(2) by simp
  moreover have "\<forall>q. wt ?M q = (if q \<in> set (g @ [p]) \<and> isTied (grp M q) then tied_of scale tabs (grp M q) else wt M q)"
    using M'(3) w v by (auto simp: arc_at_put simp del: split_paired_All)
  ultimately show ?case by blast
qed (simp add: assign_tied_def)

lemma update_normal_spec:
  assumes "distinct g" "\<forall>p \<in> set g. valid_pos M p"
  shows "shape (foldl (\<lambda>M p. if isNormal (grp M p) then put_weight p (f (wt M p)) M else M) M g) = shape M \<and>
    (\<forall>p. wt (foldl (\<lambda>M p. if isNormal (grp M p) then put_weight p (f (wt M p)) M else M) M g) p =
      (if p \<in> set g \<and> isNormal (grp M p) then f (wt M p) else wt M p))"
  using assms
proof (induction g rule: rev_induct)
  case (snoc p g)
  let ?M = "foldl (\<lambda>M p. if isNormal (grp M p) then put_weight p (f (wt M p)) M else M) M g"
  have IH: "shape ?M = shape M" "\<forall>p. wt ?M p = (if p \<in> set g \<and> isNormal (grp M p) then f (wt M p) else wt M p)"
    using snoc by auto
  have v: "valid_pos M p" "valid_pos ?M p" using snoc.prems(2) shapeD(5) [OF IH(1)] by auto
  have w: "wt ?M p = wt M p" "grp ?M p = grp M p"
    using snoc.prems(1) IH(2) [rule_format, of p] shape_group [OF IH(1) v(2)] by simp_all
  have ng: "p \<notin> set g" using snoc.prems(1) by simp
  show ?case using IH w v ng by (simp add: arc_at_put del: split_paired_All)
qed simp

lemma assign_normal_spec:
  assumes "distinct g" "\<forall>p \<in> set g. valid_pos M p"
  shows "shape (assign_normal scale g (n, r, M)) = shape M"
    "wt (assign_normal scale g (n, r, M)) p =
      (if p \<in> set g \<and> isNormal (grp M p) then (if r < 1 \<and> n \<noteq> 0 then (1 - r) * scale (wt M p) / scale n else 0)
       else wt M p)"
proof -
  have f: "max 0 (1 - r) \<noteq> 0 \<longleftrightarrow> r < 1" by (auto simp: max_def)
  have e: "assign_normal scale g (n, r, M) =
      foldl (\<lambda>M p. if isNormal (grp M p) then put_weight p ((\<lambda>w. if r < 1 \<and> n \<noteq> 0 then (1 - r) * scale w / scale n else 0) (wt M p)) M else M) M g"
  proof (cases "r < 1 \<and> n \<noteq> 0")
    case True
    then have m: "max 0 (1 - r) = 1 - r" by simp
    show ?thesis unfolding if_P [OF True] assign_normal_def Let_def prod.case m using True by simp
  next
    case False
    then have nn: "\<not> (max 0 (1 - r) \<noteq> 0 \<and> n \<noteq> 0)" using f by blast
    show ?thesis unfolding if_not_P [OF False] assign_normal_def Let_def prod.case if_not_P [OF nn] by (rule refl)
  qed
  note u = update_normal_spec [OF assms, of "\<lambda>w. if r < 1 \<and> n \<noteq> 0 then (1 - r) * scale w / scale n else 0"]
  show "shape (assign_normal scale g (n, r, M)) = shape M" unfolding e by (rule u [THEN conjunct1])
  show "wt (assign_normal scale g (n, r, M)) p =
      (if p \<in> set g \<and> isNormal (grp M p) then (if r < 1 \<and> n \<noteq> 0 then (1 - r) * scale (wt M p) / scale n else 0)
       else wt M p)"
    unfolding e by (rule u [THEN conjunct2, rule_format])
qed

text \<open>The new weight of an arc of the group \<open>g\<close>.\<close>

definition group_weight ::
  "('w \<Rightarrow> 'w) \<Rightarrow> (nat \<Rightarrow> 'w) \<Rightarrow> ('w::linordered_field) WFST \<Rightarrow> (nat \<times> nat) list \<Rightarrow> nat \<times> nat \<Rightarrow> 'w" where
  "group_weight scale tw M g p =
     (if isTied (grp M p) then tw (grp M p)
      else if isLocked (grp M p) then wt M p
      else (let n = \<Sum>q\<leftarrow>filter (\<lambda>q. isNormal (grp M q)) g. wt M q;
                r = \<Sum>q\<leftarrow>filter (\<lambda>q. \<not> isNormal (grp M q)) g. if isTied (grp M q) then tw (grp M q) else wt M q
            in if r < 1 \<and> n \<noteq> 0 then (1 - r) * scale (wt M p) / scale n else 0))"

lemma pass2_group:
  assumes "distinct g" "\<forall>p \<in> set g. valid_pos M p"
  shows "shape (snd (pass2 scale tabs g (u, M))) = shape M"
    "wt (snd (pass2 scale tabs g (u, M))) p = (if p \<in> set g then group_weight scale (tied_of scale tabs) M g p else wt M p)"
proof -
  let ?n = "\<Sum>q\<leftarrow>filter (\<lambda>q. isNormal (grp M q)) g. wt M q"
  let ?r = "\<Sum>q\<leftarrow>filter (\<lambda>q. \<not> isNormal (grp M q)) g. if isTied (grp M q) then tied_of scale tabs (grp M q) else wt M q"
  obtain M' where M': "assign_tied scale tabs g M = (?n, ?r, M')" "shape M' = shape M"
    "\<forall>p. wt M' p = (if p \<in> set g \<and> isTied (grp M p) then tied_of scale tabs (grp M p) else wt M p)"
    using assign_tied_spec [OF assms] by blast
  have v: "\<forall>p \<in> set g. valid_pos M' p" using assms(2) shapeD(5) [OF M'(2)] by simp
  have e: "snd (pass2 scale tabs g (u, M)) = assign_normal scale g (?n, ?r, M')" by (simp add: pass2_def M'(1))
  note an = assign_normal_spec [OF assms(1) v]
  show "shape (snd (pass2 scale tabs g (u, M))) = shape M" using an(1) M'(2) e by simp
  have k: "isTied x \<Longrightarrow> \<not> isNormal x" "isLocked x \<Longrightarrow> \<not> isNormal x" "\<not> isTied x \<Longrightarrow> \<not> isLocked x \<Longrightarrow> isNormal x" for x
    using group_kinds by (auto simp: isTied_def)
  have g: "grp M' p = grp M p" if "p \<in> set g" using shape_group [OF M'(2)] v that by simp
  show "wt (snd (pass2 scale tabs g (u, M))) p = (if p \<in> set g then group_weight scale (tied_of scale tabs) M g p else wt M p)"
    unfolding e an(2) using M'(3) [rule_format, of p] g k by (simp add: group_weight_def Let_def)
qed

lemma pass2_spec:
  assumes "distinct (concat G)" "\<forall>p \<in> set (concat G). valid_pos M p"
  shows "shape (snd (fold (pass2 scale tabs) G ((), M))) = shape M \<and>
    (\<forall>p. wt (snd (fold (pass2 scale tabs) G ((), M))) p =
       (case List.find (\<lambda>g. p \<in> set g) G of None \<Rightarrow> wt M p | Some g \<Rightarrow> group_weight scale (tied_of scale tabs) M g p))"
  using assms
proof (induction G arbitrary: M)
  case (Cons g G)
  have g: "distinct g" "\<forall>p \<in> set g. valid_pos M p" using Cons.prems by auto
  let ?M = "snd (pass2 scale tabs g ((), M))"
  note pg = pass2_group [OF g, of scale tabs "()"]
  have v: "\<forall>p \<in> set (concat G). valid_pos ?M p" using Cons.prems(2) shapeD(5) [OF pg(1)] by simp
  have IH: "shape (snd (fold (pass2 scale tabs) G ((), ?M))) = shape ?M"
    "\<forall>p. wt (snd (fold (pass2 scale tabs) G ((), ?M))) p =
       (case List.find (\<lambda>g. p \<in> set g) G of None \<Rightarrow> wt ?M p | Some h \<Rightarrow> group_weight scale (tied_of scale tabs) ?M h p)"
    using Cons.IH [OF _ v] Cons.prems(1) by auto
  have f: "fold (pass2 scale tabs) (g # G) ((), M) = fold (pass2 scale tabs) G ((), ?M)"
    by (simp add: pass2_def)
  have "(case List.find (\<lambda>g. p \<in> set g) G of None \<Rightarrow> wt ?M p | Some h \<Rightarrow> group_weight scale (tied_of scale tabs) ?M h p) =
      (case List.find (\<lambda>g. p \<in> set g) (g # G) of None \<Rightarrow> wt M p | Some h \<Rightarrow> group_weight scale (tied_of scale tabs) M h p)" for p
  proof (cases "List.find (\<lambda>g. p \<in> set g) G")
    case None
    then show ?thesis using pg(2) by simp
  next
    case (Some h)
    then have h: "h \<in> set G" "p \<in> set h" by (auto simp: find_Some_iff)
    have "set g \<inter> set h = {}" using Cons.prems(1) h(1) by auto
    then have same: "wt ?M q = wt M q" "grp ?M q = grp M q" if "q \<in> set h" for q
      using pg(2) [of q] shape_group [OF pg(1), of q] v h(1) that by auto
    have "group_weight scale (tied_of scale tabs) ?M h p = group_weight scale (tied_of scale tabs) M h p"
    proof -
      have f: "filter (\<lambda>q. isNormal (grp ?M q)) h = filter (\<lambda>q. isNormal (grp M q)) h"
        "filter (\<lambda>q. \<not> isNormal (grp ?M q)) h = filter (\<lambda>q. \<not> isNormal (grp M q)) h"
        using same by (auto intro: filter_cong)
      have m: "map (wt ?M) (filter P h) = map (wt M) (filter P h)"
        "map (\<lambda>q. if isTied (grp ?M q) then tied_of scale tabs (grp ?M q) else wt ?M q) (filter P h) =
         map (\<lambda>q. if isTied (grp M q) then tied_of scale tabs (grp M q) else wt M q) (filter P h)" for P
        using same by auto
      show ?thesis unfolding group_weight_def Let_def f m same [OF h(2)] by (rule refl)
    qed
    moreover have "p \<notin> set g" using \<open>set g \<inter> set h = {}\<close> h(2) by blast
    ultimately show ?thesis using Some by simp
  qed
  then show ?case using IH pg(1) unfolding f by simp
qed simp

section \<open>The weights after normalization\<close>

text \<open>Counts of a normalization group: all arcs but the locked ones, and the locked ones; and the weight
  every arc of a tied group gets.\<close>

definition free_count :: "norm_group_by \<Rightarrow> 'w WFST \<Rightarrow> ('w::linordered_field) \<Rightarrow> nat \<times> nat \<Rightarrow> 'w" where
  "free_count meth M addc p = (\<Sum>q | q \<in> group_of meth M p \<and> \<not> isLocked (grp M q). wt M q + addc)"

definition locked_count :: "norm_group_by \<Rightarrow> 'w WFST \<Rightarrow> ('w::linordered_field) \<Rightarrow> nat \<times> nat \<Rightarrow> 'w" where
  "locked_count meth M addc p = (\<Sum>q | q \<in> group_of meth M p \<and> isLocked (grp M q). wt M q + addc)"

definition tie_arcs :: "'w WFST \<Rightarrow> nat \<Rightarrow> (nat \<times> nat) set" where
  "tie_arcs M x = {q. valid_pos M q \<and> grp M q = x}"

definition tie_weight :: "norm_group_by \<Rightarrow> 'w WFST \<Rightarrow> ('w::linordered_field) \<Rightarrow> nat \<Rightarrow> 'w" where
  "tie_weight meth M addc x =
     (let gmax = Max (locked_count meth M addc ` tie_arcs M x)
      in if gmax < 1
         then (\<Sum>q\<in>tie_arcs M x. wt M q + addc) * (1 - gmax) / (\<Sum>q\<in>tie_arcs M x. free_count meth M addc q)
         else 0)"

text \<open>What tied and locked arcs keep of the mass of a group, and the count of its normal arcs.\<close>

definition reserved_weight :: "norm_group_by \<Rightarrow> 'w WFST \<Rightarrow> ('w::linordered_field) \<Rightarrow> nat \<times> nat \<Rightarrow> 'w" where
  "reserved_weight meth M addc p =
     (\<Sum>q | q \<in> group_of meth M p \<and> \<not> isNormal (grp M q).
        if isTied (grp M q) then tie_weight meth M addc (grp M q) else wt M q + addc)"

definition normal_count :: "norm_group_by \<Rightarrow> 'w WFST \<Rightarrow> ('w::linordered_field) \<Rightarrow> nat \<times> nat \<Rightarrow> 'w" where
  "normal_count meth M addc p = (\<Sum>q | q \<in> group_of meth M p \<and> isNormal (grp M q). wt M q + addc)"

definition normalized_weight :: "norm_group_by \<Rightarrow> 'w WFST \<Rightarrow> ('w::linordered_field) \<Rightarrow> nat \<times> nat \<Rightarrow> 'w" where
  "normalized_weight meth M addc p =
     (if isTied (grp M p) then tie_weight meth M addc (grp M p)
      else if isLocked (grp M p) then wt M p + addc
      else if reserved_weight meth M addc p < 1 \<and> normal_count meth M addc p \<noteq> 0
      then (1 - reserved_weight meth M addc p) * (wt M p + addc) / normal_count meth M addc p
      else 0)"

lemma valid_pos_finite: "finite {p. valid_pos M p}"
proof (rule finite_subset)
  show "{p. valid_pos M p} \<subseteq> (SIGMA s:{..<numStates M}. {..<length (arcs (states M ! s))})"
    by (auto simp: valid_pos_def)
qed simp

lemma tied_weight_linear:
  "tied_weight (\<lambda>x. x) t n g = (if g < 1 then t * (1 - g) / n else 0)" for t :: "'w::linordered_field"
  by (auto simp: tied_weight_def)

lemma foldl_max_Max:
  fixes xs :: "('w::linordered_field) list"
  assumes "xs \<noteq> []" "\<forall>x \<in> set xs. 0 \<le> x"
  shows "foldl max 0 xs = Max (set xs)"
proof -
  obtain y ys where y: "xs = y # ys" using assms(1) by (cases xs) auto
  have "foldl max y ys = fold max ys y"
    by (simp add: foldl_conv_fold max.commute)
  moreover have "foldl max 0 xs = foldl max y ys" using assms(2) y by (simp add: max_def)
  moreover have "Max (set xs) = fold max ys y" unfolding y by (rule Max.set_eq_fold)
  ultimately show ?thesis by simp
qed

lemma concat_map_filter:
  "(\<And>g p. g \<in> set G \<Longrightarrow> p \<in> set g \<Longrightarrow> F g = h p) \<Longrightarrow>
   concat (map (\<lambda>g. map (\<lambda>_. F g) (filter P g)) G) = map h (filter P (concat G))"
proof (induction G)
  case (Cons g G)
  have "map (\<lambda>_. F g) (filter P g) = map h (filter P g)" using Cons.prems by simp
  then show ?case using Cons by simp
qed simp

lemma group_sums:
  assumes "distinct g" "set g = group_of meth M p"
  shows "(\<Sum>q\<leftarrow>filter P g. f q) = (\<Sum>q | q \<in> group_of meth M p \<and> P q. f q)"
  using assms by (simp add: sum_list_distinct_conv_sum_set)

lemma tie_weight_tables:
  assumes G: "distinct (concat G)" "set (concat G) = {p. valid_pos M p}"
    "\<And>g p. g \<in> set G \<Longrightarrow> p \<in> set g \<Longrightarrow> set g = group_of meth M p"
    and t: "tabs_hold tabs x (pass1_lists M addc G x)" and q: "q \<in> tie_arcs M x" "isTied x"
    and nn: "\<And>p. valid_pos M p \<Longrightarrow> 0 \<le> wt M p + addc"
  shows "tied_of (\<lambda>x. x) tabs x = tie_weight meth M addc x"
proof -
  let ?P = "\<lambda>p. isTied (grp M p) \<and> grp M p = x"
  let ?F = "filter ?P (concat G)"
  have dg: "distinct g" if "g \<in> set G" for g using G(1) that by (metis distinct_concat_iff)
  have F: "set ?F = tie_arcs M x" "distinct ?F"
  proof -
    show "set ?F = tie_arcs M x" unfolding set_filter G(2) using q(2) by (auto simp: tie_arcs_def)
  qed (simp add: G(1))
  have ls: "pass1_lists M addc G x =
      (map (\<lambda>p. wt M p + addc) ?F, map (free_count meth M addc) ?F, map (locked_count meth M addc) ?F)"
  proof -
    have "concat (map (\<lambda>g. map (\<lambda>p. wt M p + addc) (filter ?P g)) G) = map (\<lambda>p. wt M p + addc) ?F"
      by (induction G) simp_all
    moreover have "concat (map (\<lambda>g. map (\<lambda>_. \<Sum>p\<leftarrow>filter (\<lambda>p. \<not> isLocked (grp M p)) g. wt M p + addc) (filter ?P g)) G) =
        map (free_count meth M addc) ?F"
      by (rule concat_map_filter) (simp add: group_sums [OF dg G(3)] free_count_def)
    moreover have "concat (map (\<lambda>g. map (\<lambda>_. \<Sum>p\<leftarrow>filter (\<lambda>p. isLocked (grp M p)) g. wt M p + addc) (filter ?P g)) G) =
        map (locked_count meth M addc) ?F"
      by (rule concat_map_filter) (simp add: group_sums [OF dg G(3)] locked_count_def)
    ultimately show ?thesis by (simp add: pass1_lists_def tied_in_def)
  qed
  have ne: "?F \<noteq> []" using F(1) q(1) by (metis empty_iff list.set(1))
  have "0 \<le> locked_count meth M addc p" for p
    unfolding locked_count_def by (rule sum_nonneg) (use nn in \<open>auto simp: group_of_def\<close>)
  then have m: "foldl max 0 (map (locked_count meth M addc) ?F) = Max (locked_count meth M addc ` tie_arcs M x)"
    using foldl_max_Max [of "map (locked_count meth M addc) ?F"] ne F(1) by (simp del: filter_concat)
  have s: "(\<Sum>p\<leftarrow>?F. f p) = (\<Sum>p\<in>tie_arcs M x. f p)" for f :: "nat \<times> nat \<Rightarrow> 'a"
    using F by (simp add: sum_list_distinct_conv_sum_set del: filter_concat)
  obtain ta st mx where tb: "tabs = (ta, st, mx)" by (cases tabs)
  have "the (find_second uint_hash ta x) = (\<Sum>q\<in>tie_arcs M x. wt M q + addc)"
    "the (find_second uint_hash st x) = (\<Sum>q\<in>tie_arcs M x. free_count meth M addc q)"
    "the (find_second uint_hash mx x) = Max (locked_count meth M addc ` tie_arcs M x)"
    using t ne unfolding ls tb tabs_hold_def prod.case s m by (auto simp: table_val_def)
  then show ?thesis by (simp add: tied_of_def tb tied_weight_linear tie_weight_def Let_def)
qed

lemma group_weight_reference:
  assumes g: "distinct g" "set g = group_of meth M p" "p \<in> set g"
    and w: "\<And>q. q \<in> set g \<Longrightarrow> wt M1 q = wt M q + addc" "\<And>q. q \<in> set g \<Longrightarrow> grp M1 q = grp M q"
    and tw: "\<And>q. q \<in> set g \<Longrightarrow> isTied (grp M q) \<Longrightarrow> tw (grp M q) = tie_weight meth M addc (grp M q)"
  shows "group_weight (\<lambda>x. x) tw M1 g p = normalized_weight meth M addc p"
proof -
  have f: "filter (\<lambda>q. isNormal (grp M1 q)) g = filter (\<lambda>q. isNormal (grp M q)) g"
    "filter (\<lambda>q. \<not> isNormal (grp M1 q)) g = filter (\<lambda>q. \<not> isNormal (grp M q)) g"
    using w(2) by (auto intro: filter_cong)
  have m: "map (wt M1) (filter P g) = map (\<lambda>q. wt M q + addc) (filter P g)"
    "map (\<lambda>q. if isTied (grp M1 q) then tw (grp M1 q) else wt M1 q) (filter P g) =
     map (\<lambda>q. if isTied (grp M q) then tie_weight meth M addc (grp M q) else wt M q + addc) (filter P g)" for P
    using w tw by auto
  show ?thesis
    unfolding group_weight_def Let_def f m group_sums [OF g(1,2)] w(1) [OF g(3)] w(2) [OF g(3)]
      normalized_weight_def reserved_weight_def [symmetric] normal_count_def [symmetric]
    using tw [OF g(3)] by simp
qed

lemma pass1_shape: "shape (snd (pass1 addc g sm)) = shape (snd sm)"
proof -
  have "shape (snd (snd (add_and_sum addc g M))) = shape M" for M
    by (induction g rule: rev_induct) (simp_all add: add_and_sum_def Let_def case_prod_unfold)
  then show ?thesis by (simp add: pass1_def Let_def case_prod_unfold)
qed

lemma foldl_shape: "(\<And>M p. shape (f M p) = shape M) \<Longrightarrow> shape (foldl f M g) = shape M"
  by (induction g arbitrary: M) simp_all

lemma pass2_shape: "shape (snd (pass2 scale tabs g um)) = shape (snd um)"
proof -
  have "shape (snd (snd (assign_tied scale tabs g M))) = shape M" for M
    by (induction g rule: rev_induct) (simp_all add: assign_tied_def Let_def case_prod_unfold)
  moreover have "shape (assign_normal scale g nrm) = shape (snd (snd nrm))" for nrm
    by (simp add: assign_normal_def Let_def case_prod_unfold foldl_shape)
  ultimately show ?thesis by (simp add: pass2_def)
qed

lemma norm_iter_new_shape:
  assumes "shape M = shape M'" "0 < numStates M"
  shows "norm_iter_new meth M' = norm_iter_new meth M"
  using shapeD(2,3) [OF assms] by (simp add: norm_iter_new_def beginState_def empty_state_def ni_index_def)

lemma normalize_core:
  fixes M :: "('w::linordered_field) WFST"
  assumes M: "meth \<noteq> CONDITIONAL \<or> indexed_input M" "0 < numStates M"
    and nn: "\<And>p. valid_pos M p \<Longrightarrow> 0 \<le> wt M p + addc"
  shows "\<exists>tabs M1 M2.
    for_groups meth (pass1 addc) (norm_iter_new meth M) ((ht_new n, ht_new n, ht_new n), M) = Some (tabs, M1) \<and>
    for_groups meth (pass2 (\<lambda>x. x) tabs) (norm_iter_new meth M1) ((), M1) = Some ((), M2) \<and>
    shape M2 = shape M \<and> (\<forall>p. valid_pos M p \<longrightarrow> wt M2 p = normalized_weight meth M addc p)"
proof -
  let ?G = "all_groups meth M"
  let ?t = "(ht_new n, ht_new n, ht_new n) :: 'w group_table \<times> 'w group_table \<times> 'w group_table"
  note part = all_groups_partition [OF M]
  have dG: "distinct (concat ?G)" and vG: "\<forall>p \<in> set (concat ?G). valid_pos M p" using part(2,3) by auto
  have "\<forall>x. tabs_hold ?t x ([], [], [])"
    using ht_new_empty(1,2) by (simp add: tabs_hold_def table_val_def)
  then obtain tabs M1 where p1: "fold (pass1 addc) ?G (?t, M) = (tabs, M1)" "shape M1 = shape M"
    "\<forall>p. wt M1 p = wt M p + (if p \<in> set (concat ?G) then addc else 0)"
    "\<forall>x. tabs_hold tabs x (pass1_lists M addc ?G x)"
    using pass1_spec [OF dG vG] by blast
  have f1: "for_groups meth (pass1 addc) (norm_iter_new meth M) (?t, M) = Some (tabs, M1)"
    using for_groups_fold [OF M(1) part(1) _ refl, of "pass1 addc" ?t] pass1_shape [of addc] p1(1) by (simp add: all_groups_def)
  have v: "valid_pos M1 p = valid_pos M p" for p using shapeD(5) [OF p1(2)] .
  have w1: "wt M1 p = wt M p + addc" "grp M1 p = grp M p" if "valid_pos M p" for p
    using p1(3) [rule_format, of p] part(3) shape_group [OF p1(2)] v that by (simp_all del: set_concat)
  have G1: "\<forall>p \<in> set (concat ?G). valid_pos M1 p" using vG v by simp
  let ?M2 = "snd (fold (pass2 (\<lambda>x. x) tabs) ?G ((), M1))"
  have f2: "for_groups meth (pass2 (\<lambda>x. x) tabs) (norm_iter_new meth M1) ((), M1) = Some ((), ?M2)"
    using for_groups_fold [OF M(1) part(1) _ p1(2), of "pass2 (\<lambda>x. x) tabs" "()"] pass2_shape [of "\<lambda>x. x" tabs]
      norm_iter_new_shape [OF p1(2) [symmetric] M(2), of meth]
    by (simp add: all_groups_def prod_eq_iff)
  note p2 = pass2_spec [OF dG G1, of "\<lambda>x. x" tabs]
  have fw: "wt ?M2 p = normalized_weight meth M addc p" if p: "valid_pos M p" for p
  proof -
    obtain g where g: "List.find (\<lambda>g. p \<in> set g) ?G = Some g"
      using p part(3) by (cases "List.find (\<lambda>g. p \<in> set g) ?G") (auto simp: find_None_iff)
    then have gG: "g \<in> set ?G" "p \<in> set g" by (auto simp: find_Some_iff)
    have dg: "distinct g" using dG gG(1) by (metis distinct_concat_iff)
    have vg: "valid_pos M q" if "q \<in> set g" for q using vG gG(1) that by auto
    have "wt ?M2 p = group_weight (\<lambda>x. x) (tied_of (\<lambda>x. x) tabs) M1 g p"
      using p2 [THEN conjunct2, rule_format, of p] g by simp
    also have "\<dots> = normalized_weight meth M addc p"
    proof (rule group_weight_reference [OF dg part(4) [OF gG] gG(2)])
      show "wt M1 q = wt M q + addc" "grp M1 q = grp M q" if "q \<in> set g" for q using w1 vg that by auto
      show "tied_of (\<lambda>x. x) tabs (grp M q) = tie_weight meth M addc (grp M q)" if q: "q \<in> set g" "isTied (grp M q)" for q
      proof -
        have "q \<in> tie_arcs M (grp M q)" using vg [OF q(1)] by (simp add: tie_arcs_def)
        then show ?thesis using part(4) nn p1(4) q(2) by (intro tie_weight_tables [OF dG part(3)]) blast+
      qed
    qed
    finally show ?thesis .
  qed
  have "shape ?M2 = shape M" using p2 [THEN conjunct1] p1(2) by simp
  then show ?thesis using f1 f2 fw by blast
qed

definition same_arcs :: "'w WFST \<Rightarrow> 'w WFST \<Rightarrow> bool" where
  "same_arcs M N \<longleftrightarrow> (\<forall>p. valid_pos N p = valid_pos M p) \<and> (\<forall>p. valid_pos M p \<longrightarrow> arc_at N p = arc_at M p)"

lemma same_arcsD:
  assumes "same_arcs M N"
  shows "valid_pos N p = valid_pos M p" "valid_pos M p \<Longrightarrow> arc_at N p = arc_at M p"
  using assms unfolding same_arcs_def by blast+

lemma same_arcs_groups:
  assumes "same_arcs M N" "valid_pos M p"
  shows "group_of meth N p = group_of meth M p"
  using same_arcsD [OF assms(1)] assms(2) by (auto simp: group_of_def norm_key_def)

lemma same_arcs_weight:
  assumes "same_arcs M N" "valid_pos M p"
  shows "normalized_weight meth N addc p = normalized_weight meth M addc p"
proof -
  have v: "valid_pos M q" "valid_pos N q" "arc_at N q = arc_at M q" if "q \<in> group_of meth M r" for q r
    using same_arcsD [OF assms(1)] that by (simp_all add: group_of_def)
  have gs: "(\<Sum>q | q \<in> group_of meth N r \<and> P (arc_at N q). f (arc_at N q)) = (\<Sum>q | q \<in> group_of meth M r \<and> P (arc_at M q). f (arc_at M q))"
    if "valid_pos M r" for r P and f :: "'a FSTArc \<Rightarrow> 'a"
    unfolding same_arcs_groups [OF assms(1) that]
    by (intro sum.cong Collect_cong conj_cong refl) (simp_all add: v(3) [of _ r])
  have c: "free_count meth N addc r = free_count meth M addc r" "locked_count meth N addc r = locked_count meth M addc r"
    "normal_count meth N addc r = normal_count meth M addc r" if "valid_pos M r" for r
    using gs [OF that, where P = "\<lambda>a. \<not> isLocked (groupId a)" and f = "\<lambda>a. arc_weight a + addc"]
      gs [OF that, where P = "\<lambda>a. isLocked (groupId a)" and f = "\<lambda>a. arc_weight a + addc"]
      gs [OF that, where P = "\<lambda>a. isNormal (groupId a)" and f = "\<lambda>a. arc_weight a + addc"]
    by (simp_all add: free_count_def locked_count_def normal_count_def)
  have t: "tie_arcs N x = tie_arcs M x" for x using same_arcsD [OF assms(1)] by (auto simp: tie_arcs_def)
  have "locked_count meth N addc ` tie_arcs M x = locked_count meth M addc ` tie_arcs M x" for x
    using c by (intro image_cong) (auto simp: tie_arcs_def)
  moreover have "(\<Sum>q\<in>tie_arcs M x. wt N q + addc) = (\<Sum>q\<in>tie_arcs M x. wt M q + addc)" for x
    using same_arcsD [OF assms(1)] by (intro sum.cong) (auto simp: tie_arcs_def)
  moreover have "(\<Sum>q\<in>tie_arcs M x. free_count meth N addc q) = (\<Sum>q\<in>tie_arcs M x. free_count meth M addc q)" for x
    using c by (intro sum.cong) (auto simp: tie_arcs_def)
  ultimately have tw: "tie_weight meth N addc x = tie_weight meth M addc x" for x by (simp add: tie_weight_def Let_def t)
  have "reserved_weight meth N addc p = reserved_weight meth M addc p"
    using gs [OF assms(2), where P = "\<lambda>a. \<not> isNormal (groupId a)"
        and f = "\<lambda>a. if isTied (groupId a) then tie_weight meth M addc (groupId a) else arc_weight a + addc"]
    unfolding reserved_weight_def tw by simp
  moreover have "arc_at N p = arc_at M p" by (rule same_arcsD(2) [OF assms])
  ultimately show ?thesis using c [OF assms(2)] by (simp add: normalized_weight_def tw)
qed

lemma mapped_states_same_arcs:
  assumes "states N = map f (states M)" "\<And>s. arcs (f s) = arcs s"
  shows "same_arcs M N"
  using assms by (auto simp: same_arcs_def valid_pos_def arc_at_def)

lemma indexInput_props:
  assumes "\<forall>s \<in> set (states M). size_ok s" "indexed_by M = kInput \<longrightarrow> indexed_input M"
  shows "indexed_input (indexInput M)" "same_arcs M (indexInput M)" "numStates (indexInput M) = numStates M"
    "indexFlush (indexInput M) = indexFlush M"
proof -
  have i: "\<exists>ix. indexBy kInput (flush s) = (flush s)\<lparr>state_index := Some ix\<rparr> \<and> index_ok kInput (arcs s) ix" for s :: "'a State"
    using indexBy_ok [of "flush s" kInput] by (simp add: flush_def)
  have "size_ok (indexBy kInput (flush s)) \<and> (\<exists>ix. state_index (indexBy kInput (flush s)) = Some ix \<and>
      index_ok kInput (arcs (indexBy kInput (flush s))) ix)" if "size_ok s" for s :: "'a State"
    using i [of s] that by (auto simp: size_ok_def flush_def)
  then show "indexed_input (indexInput M)"
    using assms by (auto simp: indexInput_def wfst_index_def indexed_input_def)
  have a: "arcs (indexBy kInput (flush s)) = arcs s" "flush (indexBy kInput (flush s)) = flush s" for s :: "'a State"
    using i [of s] by (auto simp: flush_def)
  show "same_arcs M (indexInput M)"
  proof (cases "indexed_by M = kInput")
    case True
    then show ?thesis by (simp add: indexInput_def wfst_index_def same_arcs_def)
  next
    case False
    then show ?thesis by (intro mapped_states_same_arcs [where f = "\<lambda>s. indexBy kInput (flush s)"])
        (simp_all add: indexInput_def wfst_index_def a)
  qed
  show "numStates (indexInput M) = numStates M" by (simp add: indexInput_def wfst_index_def)
  show "indexFlush (indexInput M) = indexFlush M" by (simp add: indexInput_def wfst_index_def indexFlush_def a)
qed

lemma indexFlush_props: "same_arcs M (indexFlush M)" "shape (indexFlush M) = indexFlush (shape M)"
  by (rule mapped_states_same_arcs [where f = flush]) (simp_all add: indexFlush_def flush_def shape_def)

section \<open>Properties\<close>

definition normalizable :: "('w::linordered_field) NormalizeMethod \<Rightarrow> 'w WFST \<Rightarrow> bool" where
  "normalizable m M \<longleftrightarrow> norm_group m \<noteq> NONE \<and> norm_scale m = (\<lambda>x. x) \<and> 0 \<le> add_count m \<and> 0 < numStates M \<and>
     (\<forall>s \<in> set (states M). size_ok s \<and> (\<forall>a \<in> set (arcs s). 0 \<le> arc_weight a)) \<and>
     (indexed_by M = kInput \<longrightarrow> indexed_input M)"

lemma normalize_reference:
  assumes "normalizable m M"
  shows "\<exists>M'. normalize_with m M = Some M' \<and>
    shape M' = shape (if norm_group m = CONDITIONAL then indexFlush M else M) \<and>
    (\<forall>p. valid_pos M p \<longrightarrow> wt M' p = normalized_weight (norm_group m) M (add_count m) p)"
proof -
  let ?meth = "norm_group m"
  let ?M = "if ?meth = CONDITIONAL then indexInput M else M"
  have a: "\<forall>s \<in> set (states M). size_ok s" "indexed_by M = kInput \<longrightarrow> indexed_input M"
    using assms by (auto simp: normalizable_def)
  note ii = indexInput_props [OF a]
  have sa: "same_arcs M ?M" "numStates ?M = numStates M" using ii by (auto simp: same_arcs_def)
  have v: "valid_pos ?M p = valid_pos M p" for p by (rule same_arcsD(1) [OF sa(1)])
  have nn: "0 \<le> wt ?M p + add_count m" if "valid_pos ?M p" for p
  proof -
    have "arc_at ?M p = arc_at M p" using same_arcsD(2) [OF sa(1)] that v by blast
    moreover have "0 \<le> wt M p"
    proof -
      have "states M ! fst p \<in> set (states M)" "arc_at M p \<in> set (arcs (states M ! fst p))"
        using that unfolding v by (simp_all add: valid_pos_def arc_at_def)
      then show ?thesis using assms unfolding normalizable_def by blast
    qed
    ultimately show ?thesis using assms by (simp add: normalizable_def)
  qed
  obtain tabs M1 M2 where r:
    "for_groups ?meth (pass1 (add_count m)) (norm_iter_new ?meth ?M)
       ((ht_new DEFAULTHASHSIZE, ht_new DEFAULTHASHSIZE, ht_new DEFAULTHASHSIZE), ?M) = Some (tabs, M1)"
    "for_groups ?meth (pass2 (\<lambda>x. x) tabs) (norm_iter_new ?meth M1) ((), M1) = Some ((), M2)"
    "shape M2 = shape ?M" "\<forall>p. valid_pos ?M p \<longrightarrow> wt M2 p = normalized_weight ?meth ?M (add_count m) p"
    using normalize_core [of ?meth ?M "add_count m" DEFAULTHASHSIZE] ii(1) nn assms sa(2)
    by (auto simp: normalizable_def)
  let ?M' = "if ?meth = CONDITIONAL then indexFlush M2 else M2"
  have "normalize_with m M = Some ?M'"
    using r(1,2) assms by (simp add: normalize_with_def normalizable_def Let_def)
  moreover have "shape ?M' = shape (if ?meth = CONDITIONAL then indexFlush M else M)"
    using r(3) ii(4) by (simp add: indexFlush_props(2)) (metis indexFlush_props(2))
  moreover have "wt ?M' p = normalized_weight ?meth M (add_count m) p" if p: "valid_pos M p" for p
  proof -
    have "valid_pos M2 p" using shapeD(5) [OF r(3)] v p by simp
    then have "wt ?M' p = wt M2 p" using same_arcsD(2) [OF indexFlush_props(1) [of M2]] by simp
    then show ?thesis using r(4) v p same_arcs_weight [OF sa(1) p] by simp
  qed
  ultimately show ?thesis by blast
qed

lemma group_of_split:
  "sum f (group_of meth M p) =
     (\<Sum>q | q \<in> group_of meth M p \<and> \<not> isNormal (grp M q). f q) + (\<Sum>q | q \<in> group_of meth M p \<and> isNormal (grp M q). f q)"
proof -
  let ?A = "{q \<in> group_of meth M p. \<not> isNormal (grp M q)}" and ?B = "{q \<in> group_of meth M p. isNormal (grp M q)}"
  have "finite (group_of meth M p)" by (rule finite_subset [OF _ valid_pos_finite [of M]]) (auto simp: group_of_def)
  then have "sum f (?A \<union> ?B) = sum f ?A + sum f ?B" by (intro sum.union_disjoint) auto
  moreover have "?A \<union> ?B = group_of meth M p" by blast
  ultimately show ?thesis by simp
qed

text \<open>C11: \<open>normalize\<close> returns and gives every arc the weight the plan in its comments describes: a tied arc the
  count of its tie over the summed counts of the groups it occurs in, scaled to leave room for the largest locked sum
  beside it; a locked arc its own weight plus the added count; a normal arc its share of what is left. Arcs,
  destinations, labels and groups stay, and only an index made for the input side is dropped.\<close>

theorem WFST_normalize_weights:
  fixes M :: "('w::linordered_field) WFST"
  assumes "normalizable m M"
  shows "\<exists>M'. normalize_with m M = Some M' \<and>
    shape M' = shape (if norm_group m = CONDITIONAL then indexFlush M else M) \<and>
    (\<forall>p. valid_pos M p \<longrightarrow> arc_weight (arc_at M' p) = normalized_weight (norm_group m) M (add_count m) p)"
  by (rule normalize_reference [OF assms])

definition coin :: "rat WFST" where
  "coin = \<lparr>owner_alph = \<lambda>_. False, alph = \<lambda>_. None, named_states = False, stateNames = alph_empty, final = 0,
     states = [\<lparr>arcs = [\<lparr>arc_in = 2, arc_out = 2, arc_dest = 0, arc_weight = 3, groupId = no_group\<rparr>,
                        \<lparr>arc_in = 3, arc_out = 3, arc_dest = 0, arc_weight = 1, groupId = no_group\<rparr>],
                state_size = 2, state_index = None\<rparr>], indexed_by = kNone\<rparr>"

definition joint_method :: "rat NormalizeMethod" where
  "joint_method = parse_group CHR ''j'' method_default"

lemma coin_normalizable: "normalizable joint_method coin"
  by (auto simp: normalizable_def joint_method_def method_default_def parse_group_def coin_def size_ok_def)

lemma coin_group: "group_of JOINT coin (0, 0) = {(0, 0), (0, 1)}"
proof -
  have v: "valid_pos coin q \<longleftrightarrow> q = (0, 0) \<or> q = (0, 1)" for q
    by (cases q) (auto simp: valid_pos_def coin_def less_2_cases_iff)
  have "valid_pos coin q \<and> norm_key JOINT coin q = norm_key JOINT coin (0, 0) \<longleftrightarrow> q = (0, 0) \<or> q = (0, 1)" for q
    unfolding v by (auto simp: norm_key_def)
  then show ?thesis unfolding group_of_def by blast
qed

lemma coin_facts:
  "norm_group joint_method = JOINT" "add_count joint_method = 0" "valid_pos coin (0, 0)"
  "wt coin (0, 0) = 3" "wt coin (0, 1) = 1" "isNormal (grp coin (0, 0))" "isNormal (grp coin (0, 1))"
  "{q \<in> group_of JOINT coin (0, 0). isNormal (grp coin q)} = {(0, 0), (0, 1)}"
  "{q \<in> group_of JOINT coin (0, 0). \<not> isNormal (grp coin q)} = {}"
proof -
  show n: "isNormal (grp coin (0, 0))" "isNormal (grp coin (0, 1))" by (simp_all add: coin_def arc_at_def isNormal_def)
  show "{q \<in> group_of JOINT coin (0, 0). isNormal (grp coin q)} = {(0, 0), (0, 1)}"
    "{q \<in> group_of JOINT coin (0, 0). \<not> isNormal (grp coin q)} = {}"
    unfolding coin_group using n by blast+
qed (simp_all add: joint_method_def method_default_def parse_group_def coin_def arc_at_def valid_pos_def)

theorem WFST_normalize_weights_witness:
  "\<exists>M'. normalize_with joint_method coin = Some M' \<and> arc_weight (arc_at M' (0, 0)) = 3 / 4"
proof -
  have "normal_count JOINT coin 0 (0, 0) = 4" "reserved_weight JOINT coin 0 (0, 0) = 0"
    unfolding normal_count_def reserved_weight_def coin_facts by (simp_all add: coin_facts [simplified])
  moreover have "\<not> isTied (grp coin (0, 0))" "\<not> isLocked (grp coin (0, 0))"
    using coin_facts(6) group_kinds(2) by (auto simp: isTied_def)
  ultimately have "normalized_weight JOINT coin 0 (0, 0) = 3 / 4" by (simp add: normalized_weight_def coin_facts)
  then show ?thesis using WFST_normalize_weights [OF coin_normalizable] coin_facts(1-3) by auto
qed

text \<open>C8: after \<open>normalize\<close> the weights of each normalization group (the arcs of a state, or those of a state
  with the same input) sum to one, whenever the tied and locked arcs leave something and the group has a count to
  share; otherwise its normal arcs are zero. Normal arcs of a group keep the proportions of their counts, and the arcs
  of a tied group all get the same weight.\<close>

theorem WFST_normalize_sums_to_one:
  fixes M :: "('w::linordered_field) WFST"
  assumes "normalizable m M"
  shows "\<exists>M'. normalize_with m M = Some M' \<and>
    (\<forall>p. valid_pos M p \<longrightarrow>
      (let g = group_of (norm_group m) M p;
           count = (\<lambda>q. arc_weight (arc_at M q) + add_count m);
           reserved = (\<Sum>q | q \<in> g \<and> \<not> isNormal (groupId (arc_at M q)). arc_weight (arc_at M' q));
           total_count = (\<Sum>q | q \<in> g \<and> isNormal (groupId (arc_at M q)). count q)
       in (\<Sum>q\<in>g. arc_weight (arc_at M' q)) = (if reserved < 1 \<and> total_count \<noteq> 0 then 1 else reserved) \<and>
          (\<forall>q \<in> g. isNormal (groupId (arc_at M p)) \<and> isNormal (groupId (arc_at M q)) \<longrightarrow>
             arc_weight (arc_at M' p) * count q = arc_weight (arc_at M' q) * count p)) \<and>
      (\<forall>q. valid_pos M q \<and> isTied (groupId (arc_at M p)) \<and> groupId (arc_at M q) = groupId (arc_at M p) \<longrightarrow>
         arc_weight (arc_at M' q) = arc_weight (arc_at M' p)))"
proof -
  let ?me = "norm_group m" and ?c = "add_count m"
  obtain M' where r: "normalize_with m M = Some M'"
    and w: "\<And>p. valid_pos M p \<Longrightarrow> wt M' p = normalized_weight ?me M ?c p"
    using normalize_reference [OF assms] by blast
  have k: "isTied x \<Longrightarrow> \<not> isNormal x" "isLocked x \<Longrightarrow> \<not> isNormal x" "\<not> isTied x \<Longrightarrow> \<not> isLocked x \<Longrightarrow> isNormal x" for x
    using group_kinds by (auto simp: isTied_def)
  have gv: "valid_pos M q" "group_of ?me M q = group_of ?me M p" if "q \<in> group_of ?me M p" for p q
    using that by (auto simp: group_of_def)
  have res: "(\<Sum>q | q \<in> group_of ?me M p \<and> \<not> isNormal (grp M q). wt M' q) = reserved_weight ?me M ?c p" for p
    unfolding reserved_weight_def
  proof (rule sum.cong [OF refl])
    fix q assume "q \<in> {q \<in> group_of ?me M p. \<not> isNormal (grp M q)}"
    then have q: "q \<in> group_of ?me M p" "\<not> isNormal (grp M q)" by auto
    show "wt M' q = (if isTied (grp M q) then tie_weight ?me M ?c (grp M q) else wt M q + ?c)"
      using w [OF gv(1) [OF q(1)]] q(2) k by (auto simp: normalized_weight_def)
  qed
  let ?f = "\<lambda>p. if reserved_weight ?me M ?c p < 1 \<and> normal_count ?me M ?c p \<noteq> 0
    then (1 - reserved_weight ?me M ?c p) / normal_count ?me M ?c p else 0"
  have nw: "wt M' q = ?f p * (wt M q + ?c)" if "q \<in> group_of ?me M p" "isNormal (grp M q)" for p q
    using w [OF gv(1) [OF that(1)]] that(2) k gv(2) [OF that(1)]
    by (auto simp: normalized_weight_def reserved_weight_def normal_count_def)
  have "(\<Sum>q | q \<in> group_of ?me M p \<and> isNormal (grp M q). wt M' q) = ?f p * normal_count ?me M ?c p" for p
    unfolding normal_count_def [of _ _ _ p] sum_distrib_left
    by (intro sum.cong refl) (use nw [of _ p] in \<open>simp add: normal_count_def [of _ _ _ p]\<close>)
  then have s: "(\<Sum>q\<in>group_of ?me M p. wt M' q) =
      (if reserved_weight ?me M ?c p < 1 \<and> normal_count ?me M ?c p \<noteq> 0 then 1 else reserved_weight ?me M ?c p)" for p
    unfolding group_of_split res by auto
  have self: "p \<in> group_of ?me M p" if "valid_pos M p" for p using that by (simp add: group_of_def)
  have share: "wt M' p * (wt M q + ?c) = wt M' q * (wt M p + ?c)"
    if "valid_pos M p" "q \<in> group_of ?me M p" "isNormal (grp M p)" "isNormal (grp M q)" for p q
    unfolding nw [OF self [OF that(1)] that(3)] nw [OF that(2,4)] by simp
  have tie: "wt M' q = wt M' p" if "valid_pos M p" "valid_pos M q" "isTied (grp M p)" "grp M q = grp M p" for p q
    using that w by (simp add: normalized_weight_def)
  show ?thesis
    by (intro exI [of _ M'] conjI r, unfold Let_def res normal_count_def [symmetric]) (use s share tie in blast)
qed

theorem WFST_normalize_sums_to_one_witness:
  "\<exists>M'. normalize_with joint_method coin = Some M' \<and> arc_weight (arc_at M' (0, 0)) + arc_weight (arc_at M' (0, 1)) = 1"
proof -
  note th = WFST_normalize_sums_to_one [OF coin_normalizable, unfolded Let_def coin_facts(1,2)]
  from th obtain M' where r: "normalize_with joint_method coin = Some M'"
    and s: "(\<Sum>q\<in>group_of JOINT coin (0, 0). arc_weight (arc_at M' q)) =
      (if (\<Sum>q | q \<in> group_of JOINT coin (0, 0) \<and> \<not> isNormal (grp coin q). wt M' q) < 1 \<and>
          (\<Sum>q | q \<in> group_of JOINT coin (0, 0) \<and> isNormal (grp coin q). wt coin q + 0) \<noteq> 0
       then 1 else (\<Sum>q | q \<in> group_of JOINT coin (0, 0) \<and> \<not> isNormal (grp coin q). wt M' q))"
    using coin_facts(3) by blast
  have "(\<Sum>q\<in>{(0, 0), (0, 1)}. arc_weight (arc_at coin q) + 0) = 4" by (simp add: coin_facts [simplified])
  with s have "(\<Sum>q\<in>{(0, 0), (0, 1)}. arc_weight (arc_at M' q)) = 1" unfolding coin_facts(8,9) unfolding coin_group by simp
  then show ?thesis using r by simp
qed

end
