(* ===== verification/Heap2.thy ===== *)
theory Heap2
  imports Prelude
begin

text \<open>
  The packed binary heap of \<open>graehl/shared/2heap.h\<close>: a maximum heap for \<open>operator<\<close> in an array.  The templates
  work through iterators; here an array is any state \<open>s\<close> with a read \<open>rd s i\<close> and an assignment \<open>wr i x s\<close> to
  its position \<open>i\<close>, so that an element type whose assignment does more (\<open>DistToState\<close>) is an instance.  \<open>lt\<close> is
  \<open>operator<\<close>.  Positions of the tree count from 1 as in the code, positions of the array from 0.
\<close>

section \<open>Operations\<close>

text \<open>\<open>heap_add\<close>: \<open>n\<close> is \<open>heapEnd - heapStart\<close> and counts the new element.\<close>

function heap_add_loop ::
  "('s \<Rightarrow> nat \<Rightarrow> 'a) \<Rightarrow> (nat \<Rightarrow> 'a \<Rightarrow> 's \<Rightarrow> 's) \<Rightarrow> ('a \<Rightarrow> 'a \<Rightarrow> bool) \<Rightarrow> 'a \<Rightarrow> 's \<Rightarrow> nat \<Rightarrow> 's \<times> nat" where
  "heap_add_loop rd wr lt elt s pos =
     (let i = pos div 2
      in if i \<noteq> 0 \<and> lt (rd s (i - 1)) elt
         then heap_add_loop rd wr lt elt (wr (pos - 1) (rd s (i - 1)) s) i
         else (s, pos))"
  by auto
termination by (relation "measure (\<lambda>(rd, wr, lt, elt, s, pos). pos)") auto

declare heap_add_loop.simps [simp del]

definition heap_add ::
  "('s \<Rightarrow> nat \<Rightarrow> 'a) \<Rightarrow> (nat \<Rightarrow> 'a \<Rightarrow> 's \<Rightarrow> 's) \<Rightarrow> ('a \<Rightarrow> 'a \<Rightarrow> bool) \<Rightarrow> 's \<Rightarrow> nat \<Rightarrow> 'a \<Rightarrow> 's" where
  "heap_add rd wr lt s n elt =
     (let (s, pos) = heap_add_loop rd wr lt elt s n in wr (pos - 1) elt s)"

text \<open>The loop of \<open>heapify\<close>; \<open>child\<close> is never 0.\<close>

function heapify_loop ::
  "('s \<Rightarrow> nat \<Rightarrow> 'a) \<Rightarrow> (nat \<Rightarrow> 'a \<Rightarrow> 's \<Rightarrow> 's) \<Rightarrow> ('a \<Rightarrow> 'a \<Rightarrow> bool) \<Rightarrow> 'a \<Rightarrow> nat \<Rightarrow> 's \<Rightarrow> nat \<Rightarrow> nat
    \<Rightarrow> 's \<times> nat \<times> nat" where
  "heapify_loop rd wr lt temp heapSize s parent child =
     (if 0 < child \<and> child < heapSize
      then (let child = (if lt (rd s (child - 1)) (rd s child) then child + 1 else child)
            in if \<not> lt temp (rd s (child - 1)) then (s, parent, child)
               else heapify_loop rd wr lt temp heapSize (wr (parent - 1) (rd s (child - 1)) s) child (2 * child))
      else (s, parent, child))"
  by auto
termination
  by (relation "measure (\<lambda>(rd, wr, lt, temp, heapSize, s, parent, child). heapSize - child)") (auto split: if_splits)

declare heapify_loop.simps [simp del]

definition heapify ::
  "('s \<Rightarrow> nat \<Rightarrow> 'a) \<Rightarrow> (nat \<Rightarrow> 'a \<Rightarrow> 's \<Rightarrow> 's) \<Rightarrow> ('a \<Rightarrow> 'a \<Rightarrow> bool) \<Rightarrow> 's \<Rightarrow> nat \<Rightarrow> nat \<Rightarrow> 's" where
  "heapify rd wr lt s heapSize i =
     (let temp = rd s (i - 1);
          (s, parent, child) = heapify_loop rd wr lt temp heapSize s i (2 * i);
          (s, parent) = (if child = heapSize \<and> lt temp (rd s (child - 1))
                         then (wr (parent - 1) (rd s (child - 1)) s, child) else (s, parent))
      in wr (parent - 1) temp s)"

definition heapPop ::
  "('s \<Rightarrow> nat \<Rightarrow> 'a) \<Rightarrow> (nat \<Rightarrow> 'a \<Rightarrow> 's \<Rightarrow> 's) \<Rightarrow> ('a \<Rightarrow> 'a \<Rightarrow> bool) \<Rightarrow> 's \<Rightarrow> nat \<Rightarrow> 's" where
  "heapPop rd wr lt s n = (let n = n - 1 in heapify rd wr lt (wr 0 (rd s n) s) n 1)"

definition heapBuild ::
  "('s \<Rightarrow> nat \<Rightarrow> 'a) \<Rightarrow> (nat \<Rightarrow> 'a \<Rightarrow> 's \<Rightarrow> 's) \<Rightarrow> ('a \<Rightarrow> 'a \<Rightarrow> bool) \<Rightarrow> 's \<Rightarrow> nat \<Rightarrow> 's" where
  "heapBuild rd wr lt s n = fold (\<lambda>i s. heapify rd wr lt s n i) (rev [1..<Suc (n div 2)]) s"

text \<open>\<open>while (--size > 1)\<close>: for an empty range \<open>size\<close> wraps around and the code reads outside the array, here
  \<open>None\<close>.\<close>

fun heapVerify_loop :: "('s \<Rightarrow> nat \<Rightarrow> 'a) \<Rightarrow> ('a \<Rightarrow> 'a \<Rightarrow> bool) \<Rightarrow> 's \<Rightarrow> nat \<Rightarrow> bool" where
  "heapVerify_loop rd lt s 0 = True"
| "heapVerify_loop rd lt s (Suc n) =
     (if n > 1 then if lt (rd s (n div 2 - 1)) (rd s (n - 1)) then False else heapVerify_loop rd lt s n else True)"

definition heapVerify :: "('s \<Rightarrow> nat \<Rightarrow> 'a) \<Rightarrow> ('a \<Rightarrow> 'a \<Rightarrow> bool) \<Rightarrow> 's \<Rightarrow> nat \<Rightarrow> bool option" where
  "heapVerify rd lt s n = (if n = 0 then None else Some (heapVerify_loop rd lt s n))"

function heapAdjustUp_loop ::
  "('s \<Rightarrow> nat \<Rightarrow> 'a) \<Rightarrow> (nat \<Rightarrow> 'a \<Rightarrow> 's \<Rightarrow> 's) \<Rightarrow> ('a \<Rightarrow> 'a \<Rightarrow> bool) \<Rightarrow> 'a \<Rightarrow> 's \<Rightarrow> nat \<Rightarrow> 's \<times> nat" where
  "heapAdjustUp_loop rd wr lt temp s current =
     (if current > 1
      then (let parent = current div 2
            in if \<not> lt (rd s (parent - 1)) temp then (s, current)
               else heapAdjustUp_loop rd wr lt temp (wr (current - 1) (rd s (parent - 1)) s) parent)
      else (s, current))"
  by auto
termination by (relation "measure (\<lambda>(rd, wr, lt, temp, s, current). current)") auto

declare heapAdjustUp_loop.simps [simp del]

text \<open>\<open>element\<close> is the array position of the element that may have to move towards the root.\<close>

definition heapAdjustUp ::
  "('s \<Rightarrow> nat \<Rightarrow> 'a) \<Rightarrow> (nat \<Rightarrow> 'a \<Rightarrow> 's \<Rightarrow> 's) \<Rightarrow> ('a \<Rightarrow> 'a \<Rightarrow> bool) \<Rightarrow> 's \<Rightarrow> nat \<Rightarrow> 's" where
  "heapAdjustUp rd wr lt s element =
     (let temp = rd s element; (s, current) = heapAdjustUp_loop rd wr lt temp s (element + 1) in wr (current - 1) temp s)"

definition heapAdjustDown ::
  "('s \<Rightarrow> nat \<Rightarrow> 'a) \<Rightarrow> (nat \<Rightarrow> 'a \<Rightarrow> 's \<Rightarrow> 's) \<Rightarrow> ('a \<Rightarrow> 'a \<Rightarrow> bool) \<Rightarrow> 's \<Rightarrow> nat \<Rightarrow> nat \<Rightarrow> 's" where
  "heapAdjustDown rd wr lt s n element = heapify rd wr lt s n (element + 1)"

text \<open>\<open>std::swap\<close> and \<open>heapSort\<close>, whose loop counts \<open>i\<close> from \<open>heapSize\<close> down until it is 1: for an empty range
  it never is, and the code leaves the array (\<open>None\<close>).\<close>

definition swap_elements :: "('s \<Rightarrow> nat \<Rightarrow> 'a) \<Rightarrow> (nat \<Rightarrow> 'a \<Rightarrow> 's \<Rightarrow> 's) \<Rightarrow> nat \<Rightarrow> nat \<Rightarrow> 's \<Rightarrow> 's" where
  "swap_elements rd wr i j s = (let tmp = rd s i in wr j tmp (wr i (rd s j) s))"

definition heapSort ::
  "('s \<Rightarrow> nat \<Rightarrow> 'a) \<Rightarrow> (nat \<Rightarrow> 'a \<Rightarrow> 's \<Rightarrow> 's) \<Rightarrow> ('a \<Rightarrow> 'a \<Rightarrow> bool) \<Rightarrow> 's \<Rightarrow> nat \<Rightarrow> 's option" where
  "heapSort rd wr lt s n =
     (if n = 0 then None
      else Some (fold (\<lambda>i s. heapify rd wr lt (swap_elements rd wr 0 (i - 1) s) (i - 1) 1) (rev [2..<Suc n])
                   (heapBuild rd wr lt s n)))"

section \<open>Heap order with a hole\<close>

text \<open>\<open>e p\<close> is the element at tree position \<open>p\<close>.  \<open>heap_ok\<close>: no parent at or below \<open>lo\<close> is smaller than its child;
  \<open>down_ok\<close>: the same except between the hole \<open>h\<close> and its children; \<open>up_ok\<close>: except between \<open>h\<close> and its parent.\<close>

definition heap_ok :: "('a \<Rightarrow> 'a \<Rightarrow> bool) \<Rightarrow> (nat \<Rightarrow> 'a) \<Rightarrow> nat \<Rightarrow> nat \<Rightarrow> bool" where
  "heap_ok lt e n lo \<longleftrightarrow> (\<forall>p. p \<le> n \<and> lo \<le> p div 2 \<longrightarrow> \<not> lt (e (p div 2)) (e p))"

definition down_ok :: "('a \<Rightarrow> 'a \<Rightarrow> bool) \<Rightarrow> (nat \<Rightarrow> 'a) \<Rightarrow> nat \<Rightarrow> nat \<Rightarrow> nat \<Rightarrow> bool" where
  "down_ok lt e n lo h \<longleftrightarrow>
     (\<forall>p. p \<le> n \<and> lo \<le> p div 2 \<and> p div 2 \<noteq> h \<longrightarrow> \<not> lt (e (p div 2)) (e p)) \<and>
     (\<forall>p. p \<le> n \<and> p div 2 = h \<and> lo \<le> h div 2 \<longrightarrow> \<not> lt (e (h div 2)) (e p))"

definition up_ok :: "('a \<Rightarrow> 'a \<Rightarrow> bool) \<Rightarrow> (nat \<Rightarrow> 'a) \<Rightarrow> nat \<Rightarrow> nat \<Rightarrow> bool" where
  "up_ok lt e n h \<longleftrightarrow>
     (\<forall>p. p \<le> n \<and> 1 \<le> p div 2 \<and> p \<noteq> h \<longrightarrow> \<not> lt (e (p div 2)) (e p)) \<and>
     (\<forall>p. p \<le> n \<and> p div 2 = h \<and> 1 \<le> h div 2 \<longrightarrow> \<not> lt (e (h div 2)) (e p))"

lemma down_done:
  "down_ok lt e n lo h \<Longrightarrow> (\<And>p. p \<le> n \<Longrightarrow> p div 2 = h \<Longrightarrow> \<not> lt (e h) (e p)) \<Longrightarrow> heap_ok lt e n lo"
  unfolding down_ok_def heap_ok_def by metis

lemma up_done:
  "up_ok lt e n h \<Longrightarrow> (1 \<le> h div 2 \<Longrightarrow> \<not> lt (e (h div 2)) (e h)) \<Longrightarrow> heap_ok lt e n 1"
  unfolding up_ok_def heap_ok_def by metis

lemma sorted_wrt_take_first:
  assumes "1 \<le> n" "1 \<le> length q" "sorted_wrt P (drop 1 (take n q))"
    "\<forall>x \<in> set (take 1 q). \<forall>y \<in> set (drop 1 (take n q)). P x y"
  shows "sorted_wrt P (take n q)"
proof -
  obtain a r m where "q = a # r" "n = Suc m" using assms(1,2) by (cases q; cases n) auto
  then show ?thesis using assms(3,4) by simp
qed

text \<open>What the heap operations need of \<open>operator<\<close>: a strict weak order.\<close>

locale weak_order =
  fixes lt :: "'a \<Rightarrow> 'a \<Rightarrow> bool"
  assumes asym: "lt x y \<Longrightarrow> \<not> lt y x"
    and negtrans: "\<not> lt x y \<Longrightarrow> \<not> lt y z \<Longrightarrow> \<not> lt x z"
begin

lemma irrefl: "\<not> lt x x"
  using asym by blast

lemma heap_top: "heap_ok lt e n 1 \<Longrightarrow> 1 \<le> p \<Longrightarrow> p \<le> n \<Longrightarrow> \<not> lt (e 1) (e p)"
proof (induction p rule: less_induct)
  case (less p)
  show ?case
  proof (cases "p = 1")
    case True
    then show ?thesis using asym by blast
  next
    case False
    then have "1 \<le> p div 2" "p div 2 < p" using less.prems by auto
    then have "\<not> lt (e 1) (e (p div 2))" "\<not> lt (e (p div 2)) (e p)"
      using less by (auto simp: heap_ok_def)
    then show ?thesis by (rule negtrans)
  qed
qed

lemma down_step:
  assumes d: "down_ok lt e n lo h" and c: "c \<le> n" "c div 2 = h" "lo \<le> h" "1 \<le> lo" and up: "lt (e h) (e c)"
    and larger: "\<And>p. p \<le> n \<Longrightarrow> p div 2 = h \<Longrightarrow> \<not> lt (e c) (e p)"
  shows "down_ok lt (e(h := e c, c := e h)) n lo c"
  unfolding down_ok_def
proof (intro conjI allI impI)
  let ?e = "e(h := e c, c := e h)"
  have d1: "\<not> lt (e (p div 2)) (e p)" if "p \<le> n" "lo \<le> p div 2" "p div 2 \<noteq> h" for p
    using d that unfolding down_ok_def by blast
  have d2: "\<not> lt (e (h div 2)) (e c)" if "lo \<le> h div 2" using d c(1,2) that unfolding down_ok_def by blast
  have hc: "h < c" using c by linarith
  have below: "p div 2 < p" if "1 \<le> p div 2" for p :: nat using that by linarith
  fix p
  { assume p: "p \<le> n \<and> lo \<le> p div 2 \<and> p div 2 \<noteq> c"
    then have lp: "p div 2 < p" using below [of p] c(4) by linarith
    show "\<not> lt (?e (p div 2)) (?e p)"
    proof (cases "p div 2 = h")
      case True
      then have "p \<noteq> h" using lp by simp
      then show ?thesis using True hc larger [of p] p asym [OF up] by (cases "p = c") simp_all
    next
      case False
      then have "p \<noteq> c" using c(2) by blast
      then show ?thesis using False p d1 [of p] d2 by (cases "p = h") simp_all
    qed }
  { assume p: "p \<le> n \<and> p div 2 = c \<and> lo \<le> c div 2"
    then have "c < p" using below [of p] c hc by linarith
    moreover have "\<not> lt (e c) (e p)" using d1 [of p] p hc c(2,3) by simp
    ultimately show "\<not> lt (?e (c div 2)) (?e p)" using c(2) hc by simp }
qed

lemma up_step:
  assumes u: "up_ok lt e n h" and h: "1 < h" "h \<le> n" and up: "lt (e (h div 2)) (e h)"
  shows "up_ok lt (e(h := e (h div 2), h div 2 := e h)) n (h div 2)"
proof -
  define g where "g = h div 2"
  let ?e = "e(h := e g, g := e h)"
  have g: "1 \<le> g" "g < h" "g \<le> n" using h by (simp_all add: g_def)
  have u1: "\<not> lt (e (p div 2)) (e p)" if "p \<le> n" "1 \<le> p div 2" "p \<noteq> h" for p
    using u that unfolding up_ok_def by blast
  have u2: "\<not> lt (e g) (e p)" if "p \<le> n" "p div 2 = h" for p
    using u that g(1) unfolding up_ok_def g_def by blast
  have hg: "\<not> lt (e h) (e g)" using up asym unfolding g_def by blast
  have "\<not> lt (?e (p div 2)) (?e p)" if p: "p \<le> n" "1 \<le> p div 2" "p \<noteq> g" for p
  proof (cases "p = h")
    case True
    then show ?thesis using hg g asym by (cases "p div 2 = h") (auto simp: g_def)
  next
    case False
    have "\<not> lt (e h) (e p)" if "p div 2 = g" by (rule negtrans [OF hg]) (use u1 [OF p(1,2) False] that in simp)
    then show ?thesis using False p u1 [OF p(1,2) False] u2 [OF p(1)] g
      by (cases "p div 2 = g"; cases "p div 2 = h") simp_all
  qed
  moreover have "\<not> lt (?e (g div 2)) (?e p)" if p: "p \<le> n" "p div 2 = g" "1 \<le> g div 2" for p
  proof -
    have lg: "g div 2 < g" "g < p" using p by linarith+
    have gg: "\<not> lt (e (g div 2)) (e g)" using u1 [of g] p g by simp
    have "\<not> lt (e (g div 2)) (e p)" if "p \<noteq> h"
      by (rule negtrans [OF gg]) (use u1 [of p] p g that in simp)
    then show ?thesis using gg g lg by (cases "p = h") simp_all
  qed
  ultimately show ?thesis unfolding up_ok_def g_def [symmetric] by blast
qed

end

section \<open>Arrays\<close>

text \<open>The contract of an array: \<open>view\<close> is its list of elements; \<open>sync s I\<close> says that whatever else an assignment
  records is right for the positions \<open>I\<close>.  An assignment of \<open>x\<close> makes it right for its own position and may spoil it
  for other positions that hold \<open>x\<close>.\<close>

locale heap_array = weak_order lt for lt :: "'a \<Rightarrow> 'a \<Rightarrow> bool" +
  fixes rd :: "'s \<Rightarrow> nat \<Rightarrow> 'a" and wr :: "nat \<Rightarrow> 'a \<Rightarrow> 's \<Rightarrow> 's"
    and view :: "'s \<Rightarrow> 'a list" and sync :: "'s \<Rightarrow> nat set \<Rightarrow> bool"
  assumes rd: "i < length (view s) \<Longrightarrow> rd s i = view s ! i"
    and wr: "i < length (view s) \<Longrightarrow> view (wr i x s) = (view s)[i := x]"
    and sync_wr: "sync s I \<Longrightarrow> i < length (view s) \<Longrightarrow> sync (wr i x s) (insert i {j \<in> I. j \<noteq> i \<and> view s ! j \<noteq> x})"
    and sync_mono: "sync s I \<Longrightarrow> J \<subseteq> I \<Longrightarrow> sync s J"
begin

lemma sync_hole_moves:
  assumes "sync s ({..<n} - {h})" "distinct (take n ((view s)[h := x]))" "h < n" "c < n" "c \<noteq> h" "n \<le> length (view s)"
  shows "sync (wr h (view s ! c) s) ({..<n} - {c})"
proof (rule sync_mono [OF sync_wr [OF assms(1)]])
  let ?f = "take n ((view s)[h := x])"
  have "view s ! j \<noteq> view s ! c" if "j < n" "j \<noteq> c" "j \<noteq> h" for j
  proof -
    have "?f ! j \<noteq> ?f ! c" using assms that by (subst nth_eq_iff_index_eq) auto
    then show ?thesis using assms that by simp
  qed
  then show "{..<n} - {c} \<subseteq> insert h {j \<in> {..<n} - {h}. j \<noteq> h \<and> view s ! j \<noteq> view s ! c}" by auto
qed (use assms in simp)

lemma sync_hole_filled:
  assumes "sync s ({..<n} - {h})" "distinct (take n ((view s)[h := x]))" "h < n" "n \<le> length (view s)"
  shows "sync (wr h x s) {..<n}"
proof (rule sync_mono [OF sync_wr [OF assms(1)]])
  let ?f = "take n ((view s)[h := x])"
  have "view s ! j \<noteq> x" if "j < n" "j \<noteq> h" for j
  proof -
    have "?f ! j \<noteq> ?f ! h" using assms that by (subst nth_eq_iff_index_eq) auto
    then show ?thesis using assms that by simp
  qed
  then show "{..<n} \<subseteq> insert h {j \<in> {..<n} - {h}. j \<noteq> h \<and> view s ! j \<noteq> x}" by auto
qed (use assms in simp)

end

text \<open>The elements with \<open>x\<close> in the hole, by tree position; and what every operation on the first \<open>n\<close> elements keeps.\<close>

definition tree_of :: "'a list \<Rightarrow> nat \<Rightarrow> 'a" where
  "tree_of q p = (if p = 0 then undefined else q ! (p - 1))"

definition rearranged :: "nat \<Rightarrow> 'a list \<Rightarrow> 'a list \<Rightarrow> bool" where
  "rearranged n q q' \<longleftrightarrow> length q' = length q \<and> mset (take n q') = mset (take n q) \<and> drop n q' = drop n q"

lemma rearranged_refl [simp]: "rearranged n q q"
  by (simp add: rearranged_def)

lemma rearranged_trans [trans]: "rearranged n q r \<Longrightarrow> rearranged n r t \<Longrightarrow> rearranged n q t"
  by (simp add: rearranged_def)

lemma rearranged_swap:
  assumes "i < n" "j < n" "n \<le> length q"
  shows "rearranged n q (q[i := q ! j, j := q ! i])"
proof -
  have "take n (q[i := q ! j, j := q ! i]) = (take n q)[i := take n q ! j, j := take n q ! i]"
    using assms by (simp add: take_update_swap)
  also have "mset \<dots> = mset (take n q)" using assms by (intro mset_swap) simp_all
  finally show ?thesis using assms by (simp add: rearranged_def)
qed

lemma tree_of_swap:
  assumes "1 \<le> h" "1 \<le> c" "h \<le> length q" "c \<le> length q"
  shows "tree_of (q[h - 1 := q ! (c - 1), c - 1 := q ! (h - 1)]) = (tree_of q)(h := tree_of q c, c := tree_of q h)"
proof
  fix p
  show "tree_of (q[h - 1 := q ! (c - 1), c - 1 := q ! (h - 1)]) p = ((tree_of q)(h := tree_of q c, c := tree_of q h)) p"
  proof (cases "p = 0")
    case False
    then have "p - 1 = h - 1 \<longleftrightarrow> p = h" "p - 1 = c - 1 \<longleftrightarrow> p = c" using assms by auto
    then show ?thesis using assms False by (auto simp: tree_of_def nth_list_update)
  qed (use assms in \<open>simp add: tree_of_def\<close>)
qed

context heap_array
begin

text \<open>The last steps of \<open>heapify\<close>: the lone child at position \<open>heapSize\<close>, then the element into the hole.\<close>

lemma heapify_loop_spec:
  assumes "down_ok lt (tree_of ((view s)[h - 1 := temp])) n lo h" "1 \<le> lo" "lo \<le> h" "h \<le> n" "n \<le> length (view s)"
    and "heapify_loop rd wr lt temp n s h (2 * h) = (s', parent, child)"
    and "s'' = (if child = n \<and> lt temp (rd s' (child - 1)) then wr (parent - 1) (rd s' (child - 1)) s' else s')"
    and "parent' = (if child = n \<and> lt temp (rd s' (child - 1)) then child else parent)"
  shows "rearranged n ((view s)[h - 1 := temp]) (view (wr (parent' - 1) temp s'')) \<and>
    heap_ok lt (tree_of (view (wr (parent' - 1) temp s''))) n lo \<and>
    (distinct (take n ((view s)[h - 1 := temp])) \<and> sync s ({..<n} - {h - 1}) \<longrightarrow> sync (wr (parent' - 1) temp s'') {..<n})"
  using assms
proof (induction "n - h" arbitrary: s h s' parent child s'' parent' rule: less_induct)
  case less
  let ?f = "(view s)[h - 1 := temp]"
  have h: "1 \<le> h" "h - 1 < n" "h - 1 < length (view s)" using less.prems by auto
  have eh: "tree_of ?f h = temp" using h by (simp add: tree_of_def)
  have ec: "tree_of ?f c = rd s (c - 1)" if "h < c" "c \<le> n" for c
    using that h less.prems(5) by (auto simp: tree_of_def rd)
  have fill: "view (wr (h - 1) temp s) = ?f" using wr h by simp
  have stay: ?case if "parent' = h" "s'' = s" "\<And>p. p \<le> n \<Longrightarrow> p div 2 = h \<Longrightarrow> \<not> lt temp (tree_of ?f p)"
    using that down_done [OF less.prems(1)] eh fill sync_hole_filled [of s n "h - 1" temp] h less.prems(5) by simp
  have step: "rearranged n ?f ((view (wr (h - 1) (rd s (c - 1)) s))[c - 1 := temp])"
    "down_ok lt (tree_of ((view (wr (h - 1) (rd s (c - 1)) s))[c - 1 := temp])) n lo c"
    "distinct (take n ?f) \<and> sync s ({..<n} - {h - 1}) \<Longrightarrow> sync (wr (h - 1) (rd s (c - 1)) s) ({..<n} - {c - 1})"
    "length (view (wr (h - 1) (rd s (c - 1)) s)) = length (view s)"
    if c: "c \<le> n" "c div 2 = h" "lt temp (rd s (c - 1))" "\<And>p. p \<le> n \<Longrightarrow> p div 2 = h \<Longrightarrow> \<not> lt (tree_of ?f c) (tree_of ?f p)" for c
  proof -
    have hc: "h < c" using c(2) h(1) by linarith
    have sw: "(view (wr (h - 1) (rd s (c - 1)) s))[c - 1 := temp] = ?f[h - 1 := ?f ! (c - 1), c - 1 := ?f ! (h - 1)]"
      using wr rd h hc c(1) less.prems(5) by simp
    show "rearranged n ?f ((view (wr (h - 1) (rd s (c - 1)) s))[c - 1 := temp])"
      unfolding sw by (rule rearranged_swap) (use h hc c(1) less.prems(5) in auto)
    have t: "tree_of (?f[h - 1 := ?f ! (c - 1), c - 1 := ?f ! (h - 1)]) = (tree_of ?f)(h := tree_of ?f c, c := tree_of ?f h)"
      by (rule tree_of_swap) (use h hc c(1) less.prems(5) in auto)
    show "down_ok lt (tree_of ((view (wr (h - 1) (rd s (c - 1)) s))[c - 1 := temp])) n lo c"
      unfolding sw t
      by (rule down_step [OF less.prems(1) c(1,2) less.prems(3,2) _ c(4)]) (use c(3) eh ec [OF hc c(1)] in simp_all)
    show "distinct (take n ?f) \<and> sync s ({..<n} - {h - 1}) \<Longrightarrow> sync (wr (h - 1) (rd s (c - 1)) s) ({..<n} - {c - 1})"
      using sync_hole_moves [of s n "h - 1" temp "c - 1"] h hc c(1) less.prems(5) rd [of "c - 1" s] by auto
    show "length (view (wr (h - 1) (rd s (c - 1)) s)) = length (view s)" using wr h by simp
  qed
  have kids: "p = 2 * h \<or> p = 2 * h + 1" if "p div 2 = h" for p using that by linarith
  show ?case
  proof (cases "2 * h < n")
    case True
    define c where "c = (if lt (rd s (2 * h - 1)) (rd s (2 * h)) then 2 * h + 1 else 2 * h)"
    have c: "c \<le> n" "c div 2 = h" "h < c" using True h by (auto simp: c_def)
    have e2: "tree_of ?f (2 * h) = rd s (2 * h - 1)" "tree_of ?f (2 * h + 1) = rd s (2 * h)"
      using ec [of "2 * h"] ec [of "2 * h + 1"] True h by auto
    have larger: "\<not> lt (tree_of ?f c) (tree_of ?f p)" if "p \<le> n" "p div 2 = h" for p
      using kids [OF that(2)] e2 asym irrefl unfolding c_def by auto
    have loop: "heapify_loop rd wr lt temp n s h (2 * h) =
        (if \<not> lt temp (rd s (c - 1)) then (s, h, c) else heapify_loop rd wr lt temp n (wr (h - 1) (rd s (c - 1)) s) c (2 * c))"
      using True h by (subst heapify_loop.simps) (simp add: Let_def c_def)
    show ?thesis
    proof (cases "lt temp (rd s (c - 1))")
      case False
      then have "s' = s" "parent = h" "child = c" using less.prems(6) loop by auto
      then have "parent' = h" "s'' = s" using less.prems(7,8) False by auto
      then show ?thesis
      proof (rule stay)
        fix p assume "p \<le> n" "p div 2 = h"
        with False show "\<not> lt temp (tree_of ?f p)"
          using negtrans [of temp "tree_of ?f c" "tree_of ?f p"] larger ec [OF c(3,1)] by simp
      qed
    next
      case lt: True
      note st = step [OF c(1,2) lt larger]
      have "heapify_loop rd wr lt temp n (wr (h - 1) (rd s (c - 1)) s) c (2 * c) = (s', parent, child)"
        using less.prems(6) loop lt by simp
      moreover have "n - c < n - h" using c by simp
      moreover have "lo \<le> c" using less.prems(3) c(3) by simp
      moreover have "n \<le> length (view (wr (h - 1) (rd s (c - 1)) s))" using st(4) less.prems(5) by simp
      ultimately have IH: "rearranged n ((view (wr (h - 1) (rd s (c - 1)) s))[c - 1 := temp]) (view (wr (parent' - 1) temp s'')) \<and>
          heap_ok lt (tree_of (view (wr (parent' - 1) temp s''))) n lo \<and>
          (distinct (take n ((view (wr (h - 1) (rd s (c - 1)) s))[c - 1 := temp])) \<and>
           sync (wr (h - 1) (rd s (c - 1)) s) ({..<n} - {c - 1}) \<longrightarrow> sync (wr (parent' - 1) temp s'') {..<n})"
        using less.hyps [OF _ st(2) less.prems(2) _ c(1) _ _ less.prems(7,8)] by blast
      have "distinct (take n ((view (wr (h - 1) (rd s (c - 1)) s))[c - 1 := temp])) = distinct (take n ?f)"
        using st(1) mset_eq_imp_distinct_iff unfolding rearranged_def by blast
      with IH st(3) rearranged_trans [OF st(1)] show ?thesis by blast
    qed
  next
    case False
    then have r: "s' = s" "parent = h" "child = 2 * h"
      using less.prems(6) by (auto simp: heapify_loop.simps [of _ _ _ _ _ _ _ "2 * h"])
    show ?thesis
    proof (cases "child = n \<and> lt temp (rd s (child - 1))")
      case True
      then have n: "n = 2 * h" and c: "parent' = n" "s'' = wr (h - 1) (rd s (n - 1)) s" using r less.prems(7,8) by auto
      have only: "p = n" if "p \<le> n" "p div 2 = h" for p using kids [OF that(2)] that(1) n by auto
      have lt: "lt temp (rd s (n - 1))" using True by auto
      have "\<not> lt (tree_of ?f n) (tree_of ?f p)" if "p \<le> n" "p div 2 = h" for p
        using only [OF that] asym by blast
      note st = step [OF order_refl _ lt this]
      have n2: "n div 2 = h" using n by simp
      have v: "view (wr (n - 1) temp s'') = (view s'')[n - 1 := temp]" "n - 1 < n" "n \<le> length (view s'')"
      proof -
        have "length (view s'') = length (view s)" using st(4) [OF n2] c(2) by simp
        then show "n \<le> length (view s'')" "n - 1 < n" using less.prems(5) h(2) by simp_all
        then show "view (wr (n - 1) temp s'') = (view s'')[n - 1 := temp]" by (intro wr) linarith
      qed
      have "\<not> lt (tree_of ((view s'')[n - 1 := temp]) n) (tree_of ((view s'')[n - 1 := temp]) p)" if "p \<le> n" "p div 2 = n" for p
        using that h n by linarith
      then have "heap_ok lt (tree_of ((view s'')[n - 1 := temp])) n lo"
        using down_done [OF st(2)] n2 c(2) by blast
      moreover have "sync (wr (n - 1) temp s'') {..<n}" if "distinct (take n ?f) \<and> sync s ({..<n} - {h - 1})"
      proof -
        have "distinct (take n ((view s'')[n - 1 := temp]))"
          using that st(1) [OF n2] c(2) mset_eq_imp_distinct_iff unfolding rearranged_def by blast
        moreover have "sync s'' ({..<n} - {n - 1})" using st(3) [OF n2] that c(2) by simp
        ultimately show ?thesis using sync_hole_filled v(2,3) by blast
      qed
      moreover have "rearranged n ?f ((view s'')[n - 1 := temp])" using st(1) [OF n2] c(2) by simp
      ultimately show ?thesis unfolding c(1) v(1) by blast
    next
      case no: False
      then have "parent' = h" "s'' = s" using r less.prems(7,8) by auto
      then show ?thesis
      proof (rule stay)
        fix p assume p: "p \<le> n" "p div 2 = h"
        then have "p = n" "child = n" using kids [OF p(2)] False r by auto
        then show "\<not> lt temp (tree_of ?f p)" using no r ec [of n] h False p by auto
      qed
    qed
  qed
qed

lemma heapify_spec:
  assumes "1 \<le> i" "i \<le> n" "n \<le> length (view s)" "heap_ok lt (tree_of (view s)) n (Suc i)"
  shows "rearranged n (view s) (view (heapify rd wr lt s n i))" "heap_ok lt (tree_of (view (heapify rd wr lt s n i))) n i"
    "distinct (take n (view s)) \<Longrightarrow> sync s ({..<n} - {i - 1}) \<Longrightarrow> sync (heapify rd wr lt s n i) {..<n}"
proof -
  let ?t = "rd s (i - 1)"
  obtain s' parent child where l: "heapify_loop rd wr lt ?t n s i (2 * i) = (s', parent, child)" by (metis surj_pair)
  define s'' where "s'' = (if child = n \<and> lt ?t (rd s' (child - 1)) then wr (parent - 1) (rd s' (child - 1)) s' else s')"
  define parent' where "parent' = (if child = n \<and> lt ?t (rd s' (child - 1)) then child else parent)"
  have same: "(view s)[i - 1 := ?t] = view s" using assms rd [of "i - 1" s] by simp
  have "down_ok lt (tree_of (view s)) n i i"
    unfolding down_ok_def
  proof (intro conjI allI impI)
    fix p assume p: "p \<le> n \<and> i \<le> p div 2 \<and> p div 2 \<noteq> i"
    then show "\<not> lt (tree_of (view s) (p div 2)) (tree_of (view s) p)" using assms(4) by (simp add: heap_ok_def)
  next
    fix p assume "p \<le> n \<and> p div 2 = i \<and> i \<le> i div 2"
    then have False using assms(1) by linarith
    then show "\<not> lt (tree_of (view s) (i div 2)) (tree_of (view s) p)" by blast
  qed
  then have "down_ok lt (tree_of ((view s)[i - 1 := ?t])) n i i" by (simp only: same)
  note sp = heapify_loop_spec [OF this assms(1) order_refl assms(2,3) l s''_def parent'_def, unfolded same]
  have "heapify rd wr lt s n i = wr (parent' - 1) ?t s''"
    unfolding heapify_def Let_def l prod.case s''_def parent'_def
    by (cases "child = n \<and> lt (rd s (i - 1)) (rd s' (child - 1))") auto
  then show "rearranged n (view s) (view (heapify rd wr lt s n i))" "heap_ok lt (tree_of (view (heapify rd wr lt s n i))) n i"
    "distinct (take n (view s)) \<Longrightarrow> sync s ({..<n} - {i - 1}) \<Longrightarrow> sync (heapify rd wr lt s n i) {..<n}"
    using sp by simp_all
qed

lemma heap_ok_less: "heap_ok lt e n lo \<Longrightarrow> n' \<le> n \<Longrightarrow> lo \<le> lo' \<Longrightarrow> heap_ok lt e n' lo'"
  by (auto simp: heap_ok_def)

lemma heap_ok_leaves: "n < 2 * lo \<Longrightarrow> heap_ok lt e n lo"
  unfolding heap_ok_def by (intro allI impI) linarith

lemma heapBuild_spec:
  assumes "n \<le> length (view s)"
  shows "rearranged n (view s) (view (heapBuild rd wr lt s n)) \<and> heap_ok lt (tree_of (view (heapBuild rd wr lt s n))) n 1"
proof -
  have "rearranged n (view s) (view (fold (\<lambda>i s. heapify rd wr lt s n i) (rev [k..<Suc (n div 2)]) s)) \<and>
      heap_ok lt (tree_of (view (fold (\<lambda>i s. heapify rd wr lt s n i) (rev [k..<Suc (n div 2)]) s))) n k"
    if "1 \<le> k" "k \<le> Suc (n div 2)" for k
    using that
  proof (induction "Suc (n div 2) - k" arbitrary: k)
    case 0
    then have "k = Suc (n div 2)" by simp
    then show ?case by (simp add: heap_ok_leaves)
  next
    case (Suc d)
    then have k: "k < Suc (n div 2)" "k \<le> n" by auto
    let ?s = "fold (\<lambda>i s. heapify rd wr lt s n i) (rev [Suc k..<Suc (n div 2)]) s"
    have IH: "rearranged n (view s) (view ?s) \<and> heap_ok lt (tree_of (view ?s)) n (Suc k)"
      using Suc k by (intro Suc.hyps) auto
    then have "n \<le> length (view ?s)" using assms by (simp add: rearranged_def)
    note h = heapify_spec [OF Suc.prems(1) k(2) this conjunct2 [OF IH]]
    have f: "fold (\<lambda>i s. heapify rd wr lt s n i) (rev [k..<Suc (n div 2)]) s = heapify rd wr lt ?s n k"
      using k by (simp add: upt_conv_Cons del: upt_Suc)
    show ?case unfolding f using h(1,2) rearranged_trans conjunct1 [OF IH] by blast
  qed
  then show ?thesis unfolding heapBuild_def by simp
qed

text \<open>Pop: the first \<open>n - 1\<close> positions hold the rest, in heap order.\<close>

lemma heapPop_spec:
  assumes "1 \<le> n" "n \<le> length (view s)" "heap_ok lt (tree_of (view s)) n 1"
  shows "mset (take n (view s)) = add_mset (view s ! 0) (mset (take (n - 1) (view (heapPop rd wr lt s n))))"
    "heap_ok lt (tree_of (view (heapPop rd wr lt s n))) (n - 1) 1"
    "length (view (heapPop rd wr lt s n)) = length (view s)"
    "distinct (take n (view s)) \<Longrightarrow> sync s {..<n} \<Longrightarrow> sync (heapPop rd wr lt s n) {..<n - 1}"
proof -
  obtain m where n: "n = Suc m" using assms(1) by (cases n) auto
  let ?q = "view s" and ?s = "wr 0 (rd s m) s"
  have ne: "m < length ?q" "0 < length ?q" using assms(2) n by auto
  have v: "view ?s = ?q[0 := ?q ! m]" using wr rd ne by simp
  have pop: "heapPop rd wr lt s n = heapify rd wr lt ?s m 1" by (simp add: heapPop_def n Let_def)
  have "mset (take n ?q) = add_mset (?q ! 0) (mset (take (n - 1) (view (heapPop rd wr lt s n)))) \<and>
    heap_ok lt (tree_of (view (heapPop rd wr lt s n))) (n - 1) 1 \<and>
    length (view (heapPop rd wr lt s n)) = length ?q \<and>
    (distinct (take n ?q) \<and> sync s {..<n} \<longrightarrow> sync (heapPop rd wr lt s n) {..<n - 1})"
  proof (cases "m = 0")
    case True
    have r: "heapify rd wr lt ?s 0 1 = wr 0 (rd ?s 0) ?s"
      by (simp add: heapify_def heapify_loop.simps [of _ _ _ _ 0] Let_def)
    have "view (wr 0 (rd ?s 0) ?s) = ?q[0 := ?q ! m]" using wr [of 0 ?s] rd [of 0 ?s] v ne by simp
    moreover have "sync (heapify rd wr lt ?s m 1) {..<n - 1}" if "sync s {..<n}"
    proof -
      have "sync ?s {}" using sync_mono [OF sync_wr [OF that ne(2)]] by blast
      then have "sync (wr 0 (rd ?s 0) ?s) {}" using sync_mono [OF sync_wr, of ?s "{}" 0] v ne by simp
      then show ?thesis using True r n by simp
    qed
    ultimately show ?thesis using True n ne pop r
      by (simp add: heap_ok_leaves take_Suc_conv_app_nth)
  next
    case False
    then have m: "1 \<le> m" "m \<le> length (view ?s)" using v ne by auto
    have "heap_ok lt (tree_of ?q) m 2" using heap_ok_less [OF assms(3)] n by simp
    moreover have "heap_ok lt (tree_of ?q) m 2 = heap_ok lt (tree_of (view ?s)) m 2"
      unfolding heap_ok_def
    proof (intro iff_allI imp_cong refl)
      fix p assume "p \<le> m \<and> 2 \<le> p div 2"
      then have "p - 1 \<noteq> 0" "p div 2 - 1 \<noteq> 0" by auto
      then show "(\<not> lt (tree_of ?q (p div 2)) (tree_of ?q p)) = (\<not> lt (tree_of (view ?s) (p div 2)) (tree_of (view ?s) p))"
        by (simp add: tree_of_def v)
    qed
    ultimately have "heap_ok lt (tree_of (view ?s)) m (Suc 1)" by (simp add: numeral_2_eq_2)
    note h = heapify_spec [OF order_refl m this]
    have tk: "take m (view ?s) = (take m ?q)[0 := ?q ! m]" using v by (simp add: take_update_swap)
    have tn: "take n ?q = take m ?q @ [?q ! m]" using ne n by (simp add: take_Suc_conv_app_nth)
    have ms: "add_mset (?q ! 0) (mset (take m (view ?s))) = mset (take n ?q)"
    proof -
      have z: "0 < length (take m ?q)" "take m ?q ! 0 = ?q ! 0" using m(1) ne by auto
      then have "?q ! 0 \<in># mset (take m ?q)" by (metis nth_mem set_mset_mset)
      then show ?thesis unfolding tk tn mset_update [OF z(1)] z(2) by simp
    qed
    moreover have "sync (heapify rd wr lt ?s m 1) {..<m}" if d: "distinct (take n ?q)" "sync s {..<n}"
    proof (rule h(3))
      have "mset (?q ! 0 # take m (view ?s)) = mset (take n ?q)" using ms by simp
      then have "distinct (?q ! 0 # take m (view ?s))" using d(1) mset_eq_imp_distinct_iff by blast
      then show "distinct (take m (view ?s))" by simp
      show "sync ?s ({..<m} - {1 - 1})"
      proof (rule sync_mono [OF sync_wr [OF d(2) ne(2)]])
        have "?q ! j \<noteq> ?q ! m" if "j < m" for j
          using d(1) that ne by (simp add: tn) (metis in_set_conv_nth length_take min.absorb4 nth_take)
        then show "{..<m} - {1 - 1} \<subseteq> insert 0 {j \<in> {..<n}. j \<noteq> 0 \<and> ?q ! j \<noteq> rd s m}"
          using n rd [OF ne(1)] by auto
      qed
    qed
    ultimately show ?thesis using h(1,2) v n unfolding pop by (simp add: rearranged_def)
  qed
  then show "mset (take n (view s)) = add_mset (view s ! 0) (mset (take (n - 1) (view (heapPop rd wr lt s n))))"
    "heap_ok lt (tree_of (view (heapPop rd wr lt s n))) (n - 1) 1"
    "length (view (heapPop rd wr lt s n)) = length (view s)"
    "distinct (take n (view s)) \<Longrightarrow> sync s {..<n} \<Longrightarrow> sync (heapPop rd wr lt s n) {..<n - 1}" by auto
qed

lemma heapAdjustUp_loop_spec:
  assumes "up_ok lt (tree_of ((view s)[h - 1 := temp])) n h" "1 \<le> h" "h \<le> n" "n \<le> length (view s)"
    and "heapAdjustUp_loop rd wr lt temp s h = (s', current)"
  shows "rearranged n ((view s)[h - 1 := temp]) (view (wr (current - 1) temp s')) \<and>
    heap_ok lt (tree_of (view (wr (current - 1) temp s'))) n 1 \<and>
    (distinct (take n ((view s)[h - 1 := temp])) \<and> sync s ({..<n} - {h - 1}) \<longrightarrow> sync (wr (current - 1) temp s') {..<n})"
  using assms
proof (induction h arbitrary: s rule: less_induct)
  case (less h)
  let ?f = "(view s)[h - 1 := temp]" and ?g = "h div 2"
  have h: "h - 1 < n" "h - 1 < length (view s)" "?g < h" using less.prems by auto
  have eh: "tree_of ?f h = temp" using h less.prems(2) by (simp add: tree_of_def)
  have fill: "view (wr (h - 1) temp s) = ?f" using wr h by simp
  show ?case
  proof (cases "1 < h \<and> lt (rd s (?g - 1)) temp")
    case False
    then have r: "s' = s" "current = h"
      using less.prems(5) by (auto simp: heapAdjustUp_loop.simps [of _ _ _ _ _ h] Let_def split: if_splits)
    have "\<not> lt (tree_of ?f ?g) (tree_of ?f h)" if "1 \<le> ?g"
    proof -
      have "?g - 1 < length (view s)" "?g - 1 \<noteq> h - 1" "1 < h" using h that by auto
      moreover from this have "\<not> lt (rd s (?g - 1)) temp" using False by blast
      ultimately show ?thesis using rd [of "?g - 1" s] eh that by (simp add: tree_of_def)
    qed
    then have "heap_ok lt (tree_of ?f) n 1" by (rule up_done [OF less.prems(1)])
    then show ?thesis using r fill sync_hole_filled [of s n "h - 1" temp] h less.prems(4) by simp
  next
    case True
    have g: "1 \<le> ?g" "?g \<le> n" "?g - 1 \<noteq> h - 1" "?g - 1 < length (view s)" using True less.prems h by auto
    then have gn: "?g - 1 < n" by linarith
    let ?s = "wr (h - 1) (rd s (?g - 1)) s"
    have loop: "heapAdjustUp_loop rd wr lt temp ?s ?g = (s', current)"
      using less.prems(5) True by (simp add: heapAdjustUp_loop.simps [of _ _ _ _ _ h] Let_def)
    have v: "view ?s = (view s)[h - 1 := view s ! (?g - 1)]" using wr [OF h(2)] rd [OF g(4)] by simp
    have sw: "(view ?s)[?g - 1 := temp] = ?f[h - 1 := ?f ! (?g - 1), ?g - 1 := ?f ! (h - 1)]"
      using v g(3,4) h(2) by simp
    have re: "rearranged n ?f ((view ?s)[?g - 1 := temp])"
      unfolding sw by (rule rearranged_swap) (use h gn less.prems(4) in auto)
    have "tree_of (?f[h - 1 := ?f ! (?g - 1), ?g - 1 := ?f ! (h - 1)]) = (tree_of ?f)(h := tree_of ?f ?g, ?g := tree_of ?f h)"
      by (rule tree_of_swap) (use h g less.prems in auto)
    moreover have "tree_of ?f ?g = rd s (?g - 1)" using rd [OF g(4)] g(1,3) by (simp add: tree_of_def)
    ultimately have up: "up_ok lt (tree_of ((view ?s)[?g - 1 := temp])) n ?g"
      unfolding sw using up_step [OF less.prems(1) _ less.prems(3)] True eh by simp
    have len: "n \<le> length (view ?s)" using v less.prems(4) by simp
    note IH = less.IH [OF h(3) up g(1,2) len loop]
    have "distinct (take n ((view ?s)[?g - 1 := temp])) = distinct (take n ?f)"
      using re mset_eq_imp_distinct_iff unfolding rearranged_def by blast
    moreover have "sync ?s ({..<n} - {?g - 1})" if "distinct (take n ?f)" "sync s ({..<n} - {h - 1})"
      using sync_hole_moves [OF that(2,1) h(1) gn g(3) less.prems(4)] rd [OF g(4)] by simp
    ultimately show ?thesis using IH rearranged_trans [OF re] by blast
  qed
qed

lemma heapAdjustUp_spec:
  assumes "up_ok lt (tree_of (view s)) n (Suc i)" "i < n" "n \<le> length (view s)"
  shows "rearranged n (view s) (view (heapAdjustUp rd wr lt s i))" "heap_ok lt (tree_of (view (heapAdjustUp rd wr lt s i))) n 1"
    "distinct (take n (view s)) \<Longrightarrow> sync s {..<n} \<Longrightarrow> sync (heapAdjustUp rd wr lt s i) {..<n}"
proof -
  obtain s' c where l: "heapAdjustUp_loop rd wr lt (rd s i) s (Suc i) = (s', c)" by fastforce
  have same: "(view s)[Suc i - 1 := rd s i] = view s" using assms rd [of i s] by simp
  have e: "heapAdjustUp rd wr lt s i = wr (c - 1) (rd s i) s'" by (simp add: heapAdjustUp_def l Let_def)
  have "up_ok lt (tree_of ((view s)[Suc i - 1 := rd s i])) n (Suc i)" using assms(1) same by simp
  note sp = heapAdjustUp_loop_spec [OF this _ _ assms(3) l, unfolded same, folded e]
  show "rearranged n (view s) (view (heapAdjustUp rd wr lt s i))" "heap_ok lt (tree_of (view (heapAdjustUp rd wr lt s i))) n 1"
    using sp assms(2) by simp_all
  show "sync (heapAdjustUp rd wr lt s i) {..<n}" if "distinct (take n (view s))" "sync s {..<n}"
    using sp assms(2) that sync_mono [OF that(2), of "{..<n} - {i}"] by auto
qed

lemma heap_add_loop_up: "heap_add_loop rd wr lt elt s p = heapAdjustUp_loop rd wr lt elt s p"
proof (induction p arbitrary: s rule: less_induct)
  case (less p)
  have "p div 2 \<noteq> 0 \<longleftrightarrow> 1 < p" by linarith
  moreover have "p div 2 < p" if "1 < p" using that by simp
  ultimately show ?case using less
    by (subst heap_add_loop.simps, subst heapAdjustUp_loop.simps) (simp add: Let_def)
qed

lemma heap_add_spec:
  assumes "heap_ok lt (tree_of (view s)) (n - 1) 1" "1 \<le> n" "n \<le> length (view s)"
  shows "rearranged n ((view s)[n - 1 := elt]) (view (heap_add rd wr lt s n elt))"
    "heap_ok lt (tree_of (view (heap_add rd wr lt s n elt))) n 1"
proof -
  obtain s' c where l: "heapAdjustUp_loop rd wr lt elt s n = (s', c)" by fastforce
  have e: "heap_add rd wr lt s n elt = wr (c - 1) elt s'" by (simp add: heap_add_def heap_add_loop_up l)
  have "up_ok lt (tree_of ((view s)[n - 1 := elt])) n n"
    unfolding up_ok_def
  proof (intro conjI allI impI)
    fix p assume p: "p \<le> n \<and> 1 \<le> p div 2 \<and> p \<noteq> n"
    then have "p \<le> n - 1" by linarith
    then have "\<not> lt (tree_of (view s) (p div 2)) (tree_of (view s) p)" using assms(1) p by (simp add: heap_ok_def)
    moreover have "p - 1 \<noteq> n - 1" "p div 2 - 1 \<noteq> n - 1" "p \<noteq> 0" "p div 2 \<noteq> 0" using p by linarith+
    ultimately show "\<not> lt (tree_of ((view s)[n - 1 := elt]) (p div 2)) (tree_of ((view s)[n - 1 := elt]) p)"
      by (simp add: tree_of_def)
  next
    fix p assume "p \<le> n \<and> p div 2 = n \<and> 1 \<le> n div 2"
    then have False by linarith
    then show "\<not> lt (tree_of ((view s)[n - 1 := elt]) (n div 2)) (tree_of ((view s)[n - 1 := elt]) p)" by blast
  qed
  note sp = heapAdjustUp_loop_spec [OF this assms(2) order_refl assms(3) l, folded e]
  then show "rearranged n ((view s)[n - 1 := elt]) (view (heap_add rd wr lt s n elt))"
    "heap_ok lt (tree_of (view (heap_add rd wr lt s n elt))) n 1" by simp_all
qed

text \<open>One round of \<open>heapSort\<close>: the largest of the first \<open>Suc i\<close> elements goes to position \<open>i\<close>.\<close>

lemma heapSort_round:
  assumes "1 \<le> i" "Suc i \<le> length (view s)" "heap_ok lt (tree_of (view s)) (Suc i) 1"
  shows "rearranged (Suc i) (view s) (view (heapify rd wr lt (swap_elements rd wr 0 i s) i 1))"
    "heap_ok lt (tree_of (view (heapify rd wr lt (swap_elements rd wr 0 i s) i 1))) i 1"
    "view (heapify rd wr lt (swap_elements rd wr 0 i s) i 1) ! i = view s ! 0"
    "drop (Suc i) (view (heapify rd wr lt (swap_elements rd wr 0 i s) i 1)) = drop (Suc i) (view s)"
proof -
  let ?q = "view s" and ?s = "swap_elements rd wr 0 i s"
  have l: "0 < length ?q" "i < length ?q" using assms(2) by auto
  have v: "view ?s = ?q[0 := ?q ! i, i := ?q ! 0]" using l wr rd by (simp add: swap_elements_def Let_def)
  have "heap_ok lt (tree_of (view ?s)) i (Suc 1)"
    unfolding heap_ok_def
  proof (intro allI impI)
    fix p assume p: "p \<le> i \<and> Suc 1 \<le> p div 2"
    then have "p - 1 \<noteq> 0" "p - 1 \<noteq> i" "p div 2 - 1 \<noteq> 0" "p div 2 - 1 \<noteq> i" by linarith+
    moreover have "\<not> lt (tree_of ?q (p div 2)) (tree_of ?q p)" using assms(3) p by (simp add: heap_ok_def)
    ultimately show "\<not> lt (tree_of (view ?s) (p div 2)) (tree_of (view ?s) p)" by (simp add: tree_of_def v)
  qed
  moreover have li: "i \<le> length (view ?s)" using v l by simp
  ultimately have h: "rearranged i (view ?s) (view (heapify rd wr lt ?s i 1))" "heap_ok lt (tree_of (view (heapify rd wr lt ?s i 1))) i 1"
    using heapify_spec [of 1 i ?s] assms(1) by simp_all
  show "heap_ok lt (tree_of (view (heapify rd wr lt ?s i 1))) i 1" by (rule h(2))
  have dr: "drop i (view (heapify rd wr lt ?s i 1)) = drop i (view ?s)" "length (view (heapify rd wr lt ?s i 1)) = length (view ?s)"
    using h(1) by (simp_all add: rearranged_def)
  have "view (heapify rd wr lt ?s i 1) ! i = hd (drop i (view (heapify rd wr lt ?s i 1)))"
    by (rule hd_drop_conv_nth [symmetric]) (use dr v l in simp)
  also have "\<dots> = hd (drop i (view ?s))" by (simp only: dr(1))
  also have "\<dots> = ?q ! 0" using v l by (simp add: hd_drop_conv_nth)
  finally show "view (heapify rd wr lt ?s i 1) ! i = ?q ! 0" .
  have "drop (Suc i) (view (heapify rd wr lt ?s i 1)) = drop 1 (drop i (view (heapify rd wr lt ?s i 1)))" by simp
  also have "\<dots> = drop (Suc i) ?q" unfolding dr(1) v by (simp add: drop_update_cancel)
  finally show d: "drop (Suc i) (view (heapify rd wr lt ?s i 1)) = drop (Suc i) ?q" .
  have "mset (view (heapify rd wr lt ?s i 1)) = mset (view ?s)"
    using h(1) unfolding rearranged_def by (metis append_take_drop_id mset_append)
  also have "\<dots> = mset ?q" unfolding v using l by (intro mset_swap)
  finally have "mset (take (Suc i) (view (heapify rd wr lt ?s i 1))) + mset (drop (Suc i) ?q) = mset (take (Suc i) ?q) + mset (drop (Suc i) ?q)"
    unfolding d [symmetric] by (metis append_take_drop_id d mset_append)
  then show "rearranged (Suc i) ?q (view (heapify rd wr lt ?s i 1))" using d dr(2) v by (simp add: rearranged_def)
qed

lemma in_take: "x \<in> set (take k q) \<Longrightarrow> \<exists>i. i < k \<and> x = q ! i"
  by (auto simp: in_set_conv_nth)

lemma heapSort_spec:
  assumes "1 \<le> n" "n \<le> length (view s)"
  shows "\<exists>s'. heapSort rd wr lt s n = Some s' \<and> rearranged n (view s) (view s') \<and>
    sorted_wrt (\<lambda>x y. \<not> lt y x) (take n (view s'))"
proof -
  let ?b = "heapBuild rd wr lt s n"
  let ?S = "\<lambda>k. fold (\<lambda>i s. heapify rd wr lt (swap_elements rd wr 0 (i - 1) s) (i - 1) 1) (rev [Suc k..<Suc n]) ?b"
  note b = heapBuild_spec [OF assms(2)]
  have "rearranged n (view s) (view (?S k)) \<and> heap_ok lt (tree_of (view (?S k))) k 1 \<and>
      sorted_wrt (\<lambda>x y. \<not> lt y x) (drop k (take n (view (?S k)))) \<and>
      (\<forall>x \<in> set (take k (view (?S k))). \<forall>y \<in> set (drop k (take n (view (?S k)))). \<not> lt y x)"
    if "1 \<le> k" "k \<le> n" for k
    using that
  proof (induction "n - k" arbitrary: k)
    case 0
    then have "k = n" by simp
    then show ?case using b by simp
  next
    case (Suc d)
    let ?s = "?S (Suc k)"
    have k: "Suc k \<le> n" using Suc by simp
    have IH: "rearranged n (view s) (view ?s)" "heap_ok lt (tree_of (view ?s)) (Suc k) 1"
      "sorted_wrt (\<lambda>x y. \<not> lt y x) (drop (Suc k) (take n (view ?s)))"
      "\<forall>x \<in> set (take (Suc k) (view ?s)). \<forall>y \<in> set (drop (Suc k) (take n (view ?s))). \<not> lt y x"
      using Suc.hyps(1) [of "Suc k"] Suc.hyps(2) k by auto
    have len: "length (view ?s) = length (view s)" using IH(1) by (simp add: rearranged_def)
    then have lk: "Suc k \<le> length (view ?s)" using k assms(2) by simp
    note r = heapSort_round [OF Suc.prems(1) lk IH(2)]
    have S: "?S k = heapify rd wr lt (swap_elements rd wr 0 k ?s) k 1"
      using k by (subst upt_conv_Cons) (simp_all del: upt_Suc)
    let ?v = "view (?S k)"
    have l': "length ?v = length (view s)" using r(1) len unfolding S by (simp add: rearranged_def)
    have top: "\<not> lt (view ?s ! 0) x" if x: "x \<in> set (take (Suc k) (view ?s))" for x
    proof -
      obtain i where i: "i < Suc k" "x = view ?s ! i" using in_take [OF x] by blast
      show ?thesis using heap_top [OF IH(2), of "Suc i"] i by (simp add: tree_of_def)
    qed
    have re: "rearranged n (view s) ?v"
    proof -
      have "mset (take (Suc k) ?v) = mset (take (Suc k) (view ?s))" "drop (Suc k) ?v = drop (Suc k) (view ?s)"
        using r(1) unfolding S by (simp_all add: rearranged_def)
      then have "mset (take (Suc k) (take n ?v)) + mset (drop (Suc k) (take n ?v)) =
          mset (take (Suc k) (take n (view ?s))) + mset (drop (Suc k) (take n (view ?s)))"
        using k by (simp add: drop_take min_def)
      then have "mset (take n ?v) = mset (take n (view ?s))" by (metis append_take_drop_id mset_append)
      moreover have "drop n ?v = drop n (view ?s)"
        using arg_cong [OF \<open>drop (Suc k) ?v = drop (Suc k) (view ?s)\<close>, of "drop (n - Suc k)"] k by simp
      ultimately show ?thesis using IH(1) l' by (simp add: rearranged_def)
    qed
    have v0: "?v ! k = view ?s ! 0" using r(3) unfolding S .
    have dd: "drop (Suc k) (take n ?v) = drop (Suc k) (take n (view ?s))"
      using r(4) unfolding S by (simp add: drop_take)
    have dk: "drop k (take n ?v) = (view ?s ! 0) # drop (Suc k) (take n (view ?s))"
      using Cons_nth_drop_Suc [of k "take n ?v"] k l' assms(2) v0 dd by simp
    have ne: "view ?s ! 0 \<in> set (take (Suc k) (view ?s))" using lk by (auto simp: in_set_conv_nth intro!: exI [of _ 0])
    have tk: "set (take k ?v) \<subseteq> set (take (Suc k) (view ?s))"
    proof -
      have "mset (take (Suc k) ?v) = mset (take (Suc k) (view ?s))" using r(1) unfolding S by (simp add: rearranged_def)
      then have "set (take (Suc k) ?v) = set (take (Suc k) (view ?s))" by (rule mset_eq_setD)
      moreover have "set (take k ?v) \<subseteq> set (take (Suc k) ?v)" by (rule set_take_subset_set_take) simp
      ultimately show ?thesis by blast
    qed
    have "sorted_wrt (\<lambda>x y. \<not> lt y x) (drop k (take n ?v))" using dk IH(3,4) ne by simp
    moreover have "\<not> lt y x" if "x \<in> set (take k ?v)" "y \<in> set (drop k (take n ?v))" for x y
      using that dk tk top IH(4) by auto
    moreover have "heap_ok lt (tree_of ?v) k 1" using r(2) unfolding S .
    ultimately show ?case using re by blast
  qed
  from this [OF order_refl assms(1)] have S1: "rearranged n (view s) (view (?S 1))"
    "sorted_wrt (\<lambda>x y. \<not> lt y x) (drop 1 (take n (view (?S 1))))"
    "\<forall>x \<in> set (take 1 (view (?S 1))). \<forall>y \<in> set (drop 1 (take n (view (?S 1)))). \<not> lt y x" by blast+
  define q where "q = view (?S 1)"
  have q: "length q = length (view s)" using S1(1) unfolding q_def [symmetric] by (simp add: rearranged_def)
  have "1 \<le> length q" unfolding q by (rule le_trans [OF assms(1,2)])
  from sorted_wrt_take_first [OF assms(1) this S1(2,3) [folded q_def]]
  have "sorted_wrt (\<lambda>x y. \<not> lt y x) (take n q)" .
  then have "sorted_wrt (\<lambda>x y. \<not> lt y x) (take n (view (?S 1)))" unfolding q_def .
  moreover have "heapSort rd wr lt s n = Some (?S 1)" using assms(1) by (simp add: heapSort_def numeral_2_eq_2)
  ultimately show ?thesis using S1(1) by blast
qed

end

section \<open>Plain arrays\<close>

text \<open>A pointer range over elements with a key: \<open>operator<\<close> compares the keys.\<close>

definition by_key :: "('a \<Rightarrow> 'k::linorder) \<Rightarrow> 'a \<Rightarrow> 'a \<Rightarrow> bool" where
  "by_key key x y \<longleftrightarrow> key x < key y"

definition assign_at :: "nat \<Rightarrow> 'a \<Rightarrow> 'a list \<Rightarrow> 'a list" where
  "assign_at i x q = q[i := x]"

interpretation list_heap: heap_array "by_key key" "(!)" assign_at "\<lambda>q. q" "\<lambda>q I. True" for key :: "'a \<Rightarrow> 'k::linorder"
  by unfold_locales (auto simp: by_key_def assign_at_def)

section \<open>Properties\<close>

text \<open>C31: \<open>heapSort\<close> sorts every nonempty range by \<open>operator<\<close> and keeps its elements; for an empty range its loop
  misses its end.\<close>

theorem heapSort_sorts:
  fixes key :: "'a \<Rightarrow> 'k::linorder"
  shows "(xs \<noteq> [] \<longrightarrow> (\<exists>ys. heapSort (!) assign_at (by_key key) xs (length xs) = Some ys \<and>
      mset ys = mset xs \<and> sorted (map key ys))) \<and>
    heapSort (!) assign_at (by_key key) [] 0 = None"
proof -
  have "\<exists>ys. heapSort (!) assign_at (by_key key) xs (length xs) = Some ys \<and> mset ys = mset xs \<and> sorted (map key ys)"
    if ne: "xs \<noteq> []"
  proof -
    obtain ys where ys: "heapSort (!) assign_at (by_key key) xs (length xs) = Some ys"
      "rearranged (length xs) xs ys" "sorted_wrt (\<lambda>x y. \<not> by_key key y x) (take (length xs) ys)"
      using list_heap.heapSort_spec [of "length xs" xs key] ne by (auto simp: Suc_le_eq)
    have t: "take (length xs) ys = ys" using ys(2) by (simp add: rearranged_def)
    then have "mset ys = mset xs" using ys(2) by (simp add: rearranged_def)
    then show ?thesis using ys(1,3) t by (auto simp: sorted_map sorted_wrt_map by_key_def not_less)
  qed
  then show ?thesis by (simp add: heapSort_def)
qed

theorem heapSort_sorts_witness:
  "\<exists>ys. heapSort (!) assign_at (by_key (\<lambda>x. x)) [3, 1, 2::nat] 3 = Some ys \<and> mset ys = {#1, 2, 3#} \<and> sorted ys"
  using heapSort_sorts [of "[3, 1, 2::nat]" "\<lambda>x. x"] by (simp add: eval_nat_numeral add_mset_commute)

end
