(* ===== verification/ShortestPath.thy ===== *)
theory ShortestPath
  imports Graph Heap2
begin

text \<open>
  Single source shortest paths: \<open>shortestDistancesFrom\<close> and \<open>shortestPathTreeTo\<close> of
  \<open>graehl/shared/graph.cc\<close>, with the adjustable heap of \<open>DistToState\<close> (\<open>graph.h\<close>) over the operations
  of \<open>2heap.h\<close>.  A \<open>FLOAT_TYPE\<close> is a finite cost with exact arithmetic or \<open>HUGE_VAL\<close>; rounding, NaN and
  negative infinity are outside the model.
\<close>

section \<open>Costs\<close>

datatype 'c cost = Fin 'c | HUGE

instantiation cost :: (linorder) linorder
begin

fun less_eq_cost :: "'a cost \<Rightarrow> 'a cost \<Rightarrow> bool" where
  "less_eq_cost c HUGE = True"
| "less_eq_cost HUGE (Fin y) = False"
| "less_eq_cost (Fin x) (Fin y) = (x \<le> y)"

definition less_cost :: "'a cost \<Rightarrow> 'a cost \<Rightarrow> bool" where
  "less_cost c d = (c \<le> d \<and> \<not> d \<le> c)"

instance
proof
  fix x y z :: "'a cost"
  show "x \<le> y \<Longrightarrow> y \<le> z \<Longrightarrow> x \<le> z" by (cases x; cases y; cases z) auto
  show "x \<le> y \<Longrightarrow> y \<le> x \<Longrightarrow> x = y" "x \<le> y \<or> y \<le> x" by (cases x; cases y; auto)+
  show "x \<le> x" by (cases x) auto
qed (simp add: less_cost_def)

end

instantiation cost :: (linordered_ab_group_add) ordered_comm_monoid_add
begin

definition zero_cost :: "'a cost" where
  "zero_cost = Fin 0"

fun plus_cost :: "'a cost \<Rightarrow> 'a cost \<Rightarrow> 'a cost" where
  "plus_cost (Fin x) (Fin y) = Fin (x + y)"
| "plus_cost c HUGE = HUGE"
| "plus_cost HUGE c = HUGE"

instance
proof
  fix x y z :: "'a cost"
  show "x + y + z = x + (y + z)" by (cases x; cases y; cases z) (auto simp: algebra_simps)
  show "x + y = y + x" by (cases x; cases y) (auto simp: algebra_simps)
  show "0 + x = x" by (cases x) (auto simp: zero_cost_def)
  show "x \<le> y \<Longrightarrow> z + x \<le> z + y" by (cases x; cases y; cases z) auto
qed

end

lemma cost_HUGE [simp]: "c + HUGE = HUGE" "HUGE + c = HUGE" "\<not> HUGE < c" "HUGE \<le> c \<longleftrightarrow> c = HUGE" "0 \<noteq> HUGE" "HUGE \<noteq> 0"
  by (cases c; simp add: zero_cost_def less_cost_def)+

lemma cost_plus_HUGE_iff: "c + d = HUGE \<longleftrightarrow> c = HUGE \<or> d = HUGE"
  by (cases c; cases d) auto

section \<open>The queue\<close>

text \<open>\<open>queue\<close> is the array of \<open>DistToState::state\<close>; \<open>locs\<close> is \<open>stateLocations\<close>, each pointer into the queue as
  its index.  \<open>weights\<close> is kept apart, since the heap operations do not write it.\<close>

record dist_queue =
  queue :: "nat list"
  locs :: "nat list"

text \<open>\<open>operator<\<close> and \<open>DistToState::operator=\<close>.\<close>

definition dist_lt :: "'c::linorder cost list \<Rightarrow> nat \<Rightarrow> nat \<Rightarrow> bool" where
  "dist_lt weights lhs rhs \<longleftrightarrow> weights ! lhs > weights ! rhs"

definition rd_dist :: "dist_queue \<Rightarrow> nat \<Rightarrow> nat" where
  "rd_dist q i = queue q ! i"

definition assign_dist :: "nat \<Rightarrow> nat \<Rightarrow> dist_queue \<Rightarrow> dist_queue" where
  "assign_dist i rhs q = q\<lparr>queue := (queue q)[i := rhs], locs := (locs q)[rhs := i]\<rparr>"

text \<open>The set-up of the queue: the source first, then the other states in order.\<close>

definition init_slot :: "nat \<Rightarrow> nat \<Rightarrow> dist_queue \<Rightarrow> dist_queue" where
  "init_slot s i q =
     (let fillWith = (if i \<le> s then i - 1 else i)
      in q\<lparr>queue := (queue q)[i := fillWith], locs := (locs q)[fillWith := i]\<rparr>)"

definition init_queue :: "nat \<Rightarrow> nat \<Rightarrow> dist_queue" where
  "init_queue nStates s =
     (let q = fold (init_slot s) [1..<nStates] \<lparr>queue = replicate nStates 0, locs = replicate nStates 0\<rparr>
      in q\<lparr>queue := (queue q)[0 := s], locs := (locs q)[s := 0]\<rparr>)"

section \<open>The search\<close>

text \<open>\<open>taken\<close> is \<open>None\<close> for the null pointer; an entry is the arc pointed to.\<close>

definition relax ::
  "nat \<Rightarrow> ('c::linordered_ab_group_add cost, 'd) GraphArc
    \<Rightarrow> 'c cost list \<times> ('c cost, 'd) GraphArc option list option \<times> dist_queue
    \<Rightarrow> 'c cost list \<times> ('c cost, 'd) GraphArc option list option \<times> dist_queue" where
  "relax activeState a = (\<lambda>(weights, taken, q).
     (let targetState = dest a; candidate = weight a + weights ! activeState
      in if candidate < weights ! targetState
         then (let weights = weights[targetState := candidate];
                   taken = map_option (\<lambda>tk. tk[targetState := Some a]) taken
               in (weights, taken, heapAdjustUp rd_dist assign_dist (dist_lt weights) q (locs q ! targetState)))
         else (weights, taken, q)))"

text \<open>The loop \<open>for (;;)\<close>, by recursion on \<open>nUnknown\<close>.\<close>

primrec search ::
  "('c::linordered_ab_group_add cost, 'd) Graph \<Rightarrow> nat
    \<Rightarrow> 'c cost list \<times> ('c cost, 'd) GraphArc option list option \<times> dist_queue
    \<Rightarrow> 'c cost list \<times> ('c cost, 'd) GraphArc option list option \<times> dist_queue" where
  "search g 0 st = st"
| "search g (Suc nUnknown) st =
     (case st of (weights, taken, q) \<Rightarrow>
       (let activeState = queue q ! 0
        in if weights ! activeState = HUGE then st
           else search g nUnknown (fold (relax activeState) (g ! activeState)
                  (weights, taken, heapPop rd_dist assign_dist (dist_lt weights) q (Suc nUnknown)))))"

text \<open>With \<open>with_taken\<close> the caller passed an array for \<open>taken\<close>.  The result is \<open>dist\<close> and \<open>taken\<close>.\<close>

definition shortestDistancesFrom ::
  "('c::linordered_ab_group_add cost, 'd) Graph \<Rightarrow> nat \<Rightarrow> bool \<Rightarrow> 'c cost list \<times> ('c cost, 'd) GraphArc option list option" where
  "shortestDistancesFrom g s with_taken =
     (let taken = (if with_taken then Some (replicate (length g) None) else None);
          weights = (replicate (length g) HUGE)[s := 0];
          (weights, taken, q) = search g (length g) (weights, taken, init_queue (length g) s)
      in (weights, taken))"

definition arc_taken :: "('w, 'd) Graph \<Rightarrow> ('w, 'd) GraphArc option \<Rightarrow> ('w, 'd) GraphState" where
  "arc_taken g t =
     (case t of None \<Rightarrow> []
      | Some a \<Rightarrow> (case data a of Forward_arc i p \<Rightarrow> [g ! i ! p] | Data d \<Rightarrow> []))"

definition shortestPathTreeTo ::
  "('c::linordered_ab_group_add cost, 'd) Graph \<Rightarrow> nat \<Rightarrow> ('c cost, 'd) Graph \<times> 'c cost list" where
  "shortestPathTreeTo g d =
     (let rev_graph = reverseGraph g True;
          (dist, taken) = shortestDistancesFrom rev_graph d True
      in (map (\<lambda>i. arc_taken g (the taken ! i)) [0..<length g], dist))"

section \<open>The queue is a heap that knows its positions\<close>

definition sync_dist :: "nat \<Rightarrow> dist_queue \<Rightarrow> nat set \<Rightarrow> bool" where
  "sync_dist n q I \<longleftrightarrow> length (locs q) = n \<and> (\<forall>i \<in> I. queue q ! i < length (locs q) \<longrightarrow> locs q ! (queue q ! i) = i)"

interpretation dq: heap_array "dist_lt weights" rd_dist assign_dist queue "sync_dist n"
  for weights :: "'c::linorder cost list" and n
proof unfold_locales
  fix x y z :: nat and s :: dist_queue and i I J
  show "dist_lt weights x y \<Longrightarrow> \<not> dist_lt weights y x" by (simp add: dist_lt_def)
  show "\<not> dist_lt weights x y \<Longrightarrow> \<not> dist_lt weights y z \<Longrightarrow> \<not> dist_lt weights x z" by (simp add: dist_lt_def)
  show "i < length (queue s) \<Longrightarrow> rd_dist s i = queue s ! i" by (simp add: rd_dist_def)
  show "i < length (queue s) \<Longrightarrow> queue (assign_dist i x s) = (queue s)[i := x]" by (simp add: assign_dist_def)
  show "sync_dist n s I \<Longrightarrow> i < length (queue s) \<Longrightarrow>
      sync_dist n (assign_dist i x s) (insert i {j \<in> I. j \<noteq> i \<and> queue s ! j \<noteq> x})"
    by (auto simp: sync_dist_def assign_dist_def nth_list_update)
  show "sync_dist n s I \<Longrightarrow> J \<subseteq> I \<Longrightarrow> sync_dist n s J" by (auto simp: sync_dist_def)
qed

definition queue_ok :: "nat \<Rightarrow> 'c::linorder cost list \<Rightarrow> dist_queue \<Rightarrow> nat \<Rightarrow> nat set \<Rightarrow> bool" where
  "queue_ok n weights q k U \<longleftrightarrow>
     length (queue q) = n \<and> length weights = n \<and> k \<le> n \<and>
     distinct (take k (queue q)) \<and> set (take k (queue q)) = U \<and> U \<subseteq> {..<n} \<and>
     heap_ok (dist_lt weights) (tree_of (queue q)) k 1 \<and> sync_dist n q {..<k}"

lemma queue_okD:
  assumes "queue_ok n weights q k U"
  shows "length (queue q) = n" "length (locs q) = n" "length weights = n" "k \<le> n" "distinct (take k (queue q))"
    "set (take k (queue q)) = U" "U \<subseteq> {..<n}" "heap_ok (dist_lt weights) (tree_of (queue q)) k 1" "sync_dist n q {..<k}"
  using assms by (auto simp: queue_ok_def sync_dist_def)

lemma queue_ok_pop:
  assumes "queue_ok n weights q (Suc k) U"
  shows "queue_ok n weights (heapPop rd_dist assign_dist (dist_lt weights) q (Suc k)) k (U - {queue q ! 0})"
    "queue q ! 0 \<in> U" "\<forall>v \<in> U. weights ! (queue q ! 0) \<le> weights ! v"
proof -
  note ok = queue_okD [OF assms]
  let ?q = "heapPop rd_dist assign_dist (dist_lt weights) q (Suc k)"
  have len: "Suc k \<le> length (queue q)" using ok(1,4) by simp
  note pop = dq.heapPop_spec [OF _ len ok(8), simplified]
  have sy: "sync_dist n ?q {..<k}" using dq.heapPop_spec(4) [OF _ len ok(8) ok(5,9)] by simp
  have m: "mset (take (Suc k) (queue q)) = add_mset (queue q ! 0) (mset (take k (queue ?q)))" using pop(1) by simp
  then have U: "U = insert (queue q ! 0) (set (take k (queue ?q)))" using ok(6) by (metis set_mset_add_mset_insert set_mset_mset)
  have "distinct (take k (queue ?q)) \<and> queue q ! 0 \<notin> set (take k (queue ?q))"
    using ok(5) m by (metis distinct.simps(2) mset.simps(2) mset_eq_imp_distinct_iff)
  then show "queue_ok n weights ?q k (U - {queue q ! 0})"
    unfolding queue_ok_def using ok pop(2,3) sy U by auto
  show "queue q ! 0 \<in> U" using U by simp
  show "\<forall>v \<in> U. weights ! (queue q ! 0) \<le> weights ! v"
  proof
    fix v assume "v \<in> U"
    then obtain i where i: "i < Suc k" "v = queue q ! i" using ok(6) len by (metis in_set_conv_nth length_take min.absorb2 nth_take)
    have "\<not> dist_lt weights (tree_of (queue q) 1) (tree_of (queue q) (Suc i))"
      by (rule dq.heap_top [OF ok(8)]) (use i in simp_all)
    then show "weights ! (queue q ! 0) \<le> weights ! v" using i by (simp add: tree_of_def dist_lt_def)
  qed
qed

lemma queue_ok_lower:
  assumes "queue_ok n weights q k U" "v \<in> U" "c < weights ! v"
  shows "queue_ok n (weights[v := c]) (heapAdjustUp rd_dist assign_dist (dist_lt (weights[v := c])) q (locs q ! v)) k U"
proof -
  note ok = queue_okD [OF assms(1)]
  let ?w = "weights[v := c]"
  obtain i where i: "i < k" "v = queue q ! i" using assms(2) ok(1,4,6) by (metis in_set_conv_nth length_take min.absorb2 nth_take)
  have v: "v < n" using assms(2) ok(7) by auto
  have loc: "locs q ! v = i" using ok(2,9) i v by (simp add: sync_dist_def)
  have inj: "queue q ! j = v \<longleftrightarrow> j = i" if "j < k" for j
    using ok(1,4,5) i that by (metis distinct_conv_nth length_take min.absorb2 nth_take)
  have tv: "tree_of (queue q) p = v \<longleftrightarrow> p = Suc i" if "1 \<le> p" "p \<le> k" for p
    using inj [of "p - 1"] that by (auto simp: tree_of_def)
  have tn: "tree_of (queue q) p < n" if "1 \<le> p" "p \<le> k" for p
  proof -
    have "queue q ! (p - 1) \<in> set (take k (queue q))" using that ok(1,4) by (auto simp: in_set_conv_nth intro!: exI [of _ "p - 1"])
    then show ?thesis using ok(6,7) that by (auto simp: tree_of_def)
  qed
  have w: "?w ! u = (if u = v then c else weights ! u)" for u using v ok(3) by (simp add: nth_list_update)
  have old: "\<not> weights ! (tree_of (queue q) (p div 2)) > weights ! (tree_of (queue q) p)" if "p \<le> k" "1 \<le> p div 2" for p
    using ok(8) that by (auto simp: heap_ok_def dist_lt_def)
  have "up_ok (dist_lt ?w) (tree_of (queue q)) k (Suc i)"
    unfolding up_ok_def
  proof (intro conjI allI impI)
    fix p assume p: "p \<le> k \<and> 1 \<le> p div 2 \<and> p \<noteq> Suc i"
    then have "1 \<le> p" "p div 2 \<le> k" by linarith+
    then show "\<not> dist_lt ?w (tree_of (queue q) (p div 2)) (tree_of (queue q) p)"
      using old [of p] tv [of p] p assms(3) by (auto simp: dist_lt_def w)
  next
    fix p assume p: "p \<le> k \<and> p div 2 = Suc i \<and> 1 \<le> Suc i div 2"
    then have b: "1 \<le> p" "Suc i \<le> k" "p \<noteq> Suc i" "Suc i div 2 \<noteq> Suc i" "Suc i div 2 \<le> k" by linarith+
    have "weights ! (tree_of (queue q) (Suc i div 2)) \<le> weights ! (tree_of (queue q) (Suc i))"
      "weights ! (tree_of (queue q) (Suc i)) \<le> weights ! (tree_of (queue q) p)"
      using old [of p] old [of "Suc i"] p b by (simp_all add: not_less)
    then have "weights ! (tree_of (queue q) (Suc i div 2)) \<le> weights ! (tree_of (queue q) p)" by (rule order_trans)
    then show "\<not> dist_lt ?w (tree_of (queue q) (Suc i div 2)) (tree_of (queue q) p)"
      using tv [of p] tv [of "Suc i div 2"] p b by (simp add: dist_lt_def w not_less)
  qed
  note up = dq.heapAdjustUp_spec [OF this i(1)]
  have len: "k \<le> length (queue q)" using ok(1,4) by simp
  show ?thesis
    unfolding loc queue_ok_def
    using up(1) [OF len] up(2) [OF len] up(3) [OF len ok(5,9)] ok
    by (auto simp: rearranged_def dest: mset_eq_setD mset_eq_imp_distinct_iff)
qed

lemma init_slots:
  assumes "s < n" "1 \<le> k" "k \<le> n"
  defines "fw \<equiv> \<lambda>i. if i \<le> s then i - 1 else i"
  defines "q \<equiv> fold (init_slot s) [1..<k] \<lparr>queue = replicate n 0, locs = replicate n 0\<rparr>"
  shows "length (queue q) = n \<and> length (locs q) = n \<and>
    (\<forall>i. 1 \<le> i \<and> i < k \<longrightarrow> queue q ! i = fw i \<and> locs q ! fw i = i)"
  using assms(2,3) unfolding q_def
proof (induction k rule: dec_induct)
  case (step k)
  let ?q = "fold (init_slot s) [1..<k] \<lparr>queue = replicate n 0, locs = replicate n 0\<rparr>"
  have e: "fold (init_slot s) [1..<Suc k] \<lparr>queue = replicate n 0, locs = replicate n 0\<rparr> = init_slot s k ?q"
    using step.hyps by (simp add: fold_append)
  have IH: "length (queue ?q) = n" "length (locs ?q) = n"
    "\<And>i. 1 \<le> i \<Longrightarrow> i < k \<Longrightarrow> queue ?q ! i = fw i \<and> locs ?q ! fw i = i" using step by auto
  have k: "k < n" "fw k < n" using step.prems by (auto simp: fw_def)
  have inj: "fw i \<noteq> fw k" if "1 \<le> i" "i < k" for i using that by (auto simp: fw_def)
  have q: "init_slot s k ?q = ?q\<lparr>queue := (queue ?q)[k := fw k], locs := (locs ?q)[fw k := k]\<rparr>"
    by (simp add: init_slot_def fw_def Let_def)
  show ?case
    unfolding e q using IH k inj inj [symmetric] by (auto simp: less_Suc_eq)
qed simp

lemma init_queue_ok:
  assumes "s < n"
  shows "queue_ok n ((replicate n HUGE)[s := 0 :: 'c::linordered_ab_group_add cost]) (init_queue n s) n {..<n}"
proof -
  define fw where "fw = (\<lambda>i. if i \<le> s then i - 1 else i)"
  define q where "q = fold (init_slot s) [1..<n] \<lparr>queue = replicate n 0, locs = replicate n 0\<rparr>"
  define w where "w = (replicate n HUGE)[s := 0 :: 'c cost]"
  have q: "length (queue q) = n" "length (locs q) = n"
    "\<And>i. 1 \<le> i \<Longrightarrow> i < n \<Longrightarrow> queue q ! i = fw i \<and> locs q ! fw i = i"
    using init_slots [OF assms, of n] assms unfolding q_def fw_def by auto
  have Q: "init_queue n s = q\<lparr>queue := (queue q)[0 := s], locs := (locs q)[s := 0]\<rparr>"
    by (simp add: init_queue_def q_def Let_def)
  have el: "queue (init_queue n s) ! i = (if i = 0 then s else fw i)" if "i < n" for i
    using q that unfolding Q by (cases "i = 0") auto
  have fw: "fw i < n" "fw i \<noteq> s" if "1 \<le> i" "i < n" for i using that assms by (auto simp: fw_def)
  have dist: "distinct (queue (init_queue n s))"
    unfolding distinct_conv_nth
  proof (intro allI impI)
    fix i j assume ij: "i < length (queue (init_queue n s))" "j < length (queue (init_queue n s))" "i \<noteq> j"
    then have "i < n" "j < n" using q(1) by (simp_all add: Q)
    then show "queue (init_queue n s) ! i \<noteq> queue (init_queue n s) ! j"
      using ij(3) by (auto simp: el fw_def split: if_splits)
  qed
  have sub: "set (queue (init_queue n s)) \<subseteq> {..<n}"
  proof
    fix v assume "v \<in> set (queue (init_queue n s))"
    then obtain i where "i < n" "v = queue (init_queue n s) ! i" using q(1) by (auto simp: in_set_conv_nth Q)
    then show "v \<in> {..<n}" using el [of i] fw(1) [of i] assms by (cases "i = 0") auto
  qed
  have len: "length (queue (init_queue n s)) = n" using q(1) by (simp add: Q)
  have "set (queue (init_queue n s)) = {..<n}"
    by (rule card_subset_eq [OF finite_lessThan sub]) (simp add: distinct_card [OF dist] len)
  moreover have "heap_ok (dist_lt w) (tree_of (queue (init_queue n s))) n 1"
    unfolding heap_ok_def
  proof (intro allI impI)
    fix p assume p: "p \<le> n \<and> 1 \<le> p div 2"
    then have "2 \<le> p" "p - 1 < n" by linarith+
    then have "tree_of (queue (init_queue n s)) p = fw (p - 1)" "fw (p - 1) < n" "fw (p - 1) \<noteq> s"
      using el [of "p - 1"] fw [of "p - 1"] by (auto simp: tree_of_def)
    then show "\<not> dist_lt w (tree_of (queue (init_queue n s)) (p div 2)) (tree_of (queue (init_queue n s)) p)"
      by (simp add: dist_lt_def w_def not_less)
  qed
  moreover have "sync_dist n (init_queue n s) {..<n}"
    unfolding sync_dist_def
  proof (intro conjI ballI impI)
    show "length (locs (init_queue n s)) = n" using q(2) by (simp add: Q)
    fix i assume "i \<in> {..<n}"
    then have "i < n" by simp
    show "locs (init_queue n s) ! (queue (init_queue n s) ! i) = i"
    proof (cases "i = 0")
      case True
      then show ?thesis using \<open>i < n\<close> el assms q(2) by (simp add: Q)
    next
      case False
      then have "1 \<le> i" by simp
      then show ?thesis using el [OF \<open>i < n\<close>] q(3) [of i] fw [of i] \<open>i < n\<close> by (simp add: Q)
    qed
  qed
  ultimately show ?thesis using dist len unfolding queue_ok_def w_def by simp
qed

section \<open>Least costs\<close>

text \<open>\<open>walk_cost g s v c\<close>: some walk from \<open>s\<close> to \<open>v\<close> costs \<open>c\<close>.  \<open>tree_path tk D s v c\<close>: so does the walk that
  follows the arcs of \<open>tk\<close> back from \<open>v\<close>, through states of \<open>D\<close>.\<close>

inductive walk_cost :: "('w::comm_monoid_add, 'd) Graph \<Rightarrow> nat \<Rightarrow> nat \<Rightarrow> 'w \<Rightarrow> bool" for g s where
  start: "walk_cost g s s 0"
| step: "walk_cost g s u c \<Longrightarrow> u < length g \<Longrightarrow> a \<in> set (g ! u) \<Longrightarrow> walk_cost g s (dest a) (weight a + c)"

inductive tree_path :: "('w::comm_monoid_add, 'd) GraphArc option list \<Rightarrow> nat set \<Rightarrow> nat \<Rightarrow> nat \<Rightarrow> 'w \<Rightarrow> bool"
  for tk D s where
  start: "s \<in> D \<Longrightarrow> tree_path tk D s s 0"
| step: "tree_path tk D s (src a) c \<Longrightarrow> v \<in> D \<Longrightarrow> tk ! v = Some a \<Longrightarrow> tree_path tk D s v (weight a + c)"

lemma tree_path_mono:
  "tree_path tk D s v c \<Longrightarrow> D \<subseteq> E \<Longrightarrow> (\<And>u. u \<in> D \<Longrightarrow> tk' ! u = tk ! u) \<Longrightarrow> tree_path tk' E s v c"
  by (induction rule: tree_path.induct) (auto intro: tree_path.intros)

definition nonneg_arcs :: "('w::{ord, zero}, 'd) Graph \<Rightarrow> bool" where
  "nonneg_arcs g \<longleftrightarrow> (\<forall>s \<in> set g. \<forall>a \<in> set s. 0 \<le> weight a)"

text \<open>What the search maintains: \<open>U\<close> are the unknown states, \<open>A u\<close> the arcs of \<open>u\<close> tried so far.\<close>

definition dist_ok ::
  "('c::linordered_ab_group_add cost, 'd) Graph \<Rightarrow> nat \<Rightarrow> nat set \<Rightarrow> (nat \<Rightarrow> ('c cost, 'd) GraphArc set) \<Rightarrow> 'c cost list \<Rightarrow> bool" where
  "dist_ok g s U A w \<longleftrightarrow>
     w ! s = 0 \<and> (\<forall>v < length g. 0 \<le> w ! v \<and> (w ! v = HUGE \<or> walk_cost g s v (w ! v))) \<and>
     (\<forall>u < length g. u \<notin> U \<longrightarrow>
        w ! u \<noteq> HUGE \<and> (\<forall>v \<in> U. w ! u \<le> w ! v) \<and> (\<forall>a \<in> A u. w ! dest a \<le> weight a + w ! u))"

definition taken_ok ::
  "('c::linordered_ab_group_add cost, 'd) Graph \<Rightarrow> nat \<Rightarrow> nat set \<Rightarrow> 'c cost list \<Rightarrow> ('c cost, 'd) GraphArc option list \<Rightarrow> bool" where
  "taken_ok g s U w tk \<longleftrightarrow>
     length tk = length g \<and>
     (\<forall>v < length g. (tk ! v = None \<longleftrightarrow> v = s \<or> w ! v = HUGE) \<and> (v \<notin> U \<longrightarrow> tree_path tk ({..<length g} - U) s v (w ! v)) \<and>
        (\<forall>a. tk ! v = Some a \<longrightarrow>
           src a < length g \<and> src a \<notin> U \<and> a \<in> set (g ! src a) \<and> dest a = v \<and> w ! v = weight a + w ! src a))"

lemma taken_okD:
  assumes "taken_ok g s U w tk"
  shows "length tk = length g"
    "\<And>v. v < length g \<Longrightarrow> tk ! v = None \<longleftrightarrow> v = s \<or> w ! v = HUGE"
    "\<And>v. v < length g \<Longrightarrow> v \<notin> U \<Longrightarrow> tree_path tk ({..<length g} - U) s v (w ! v)"
    "\<And>v a. v < length g \<Longrightarrow> tk ! v = Some a \<Longrightarrow>
       src a < length g \<and> src a \<notin> U \<and> a \<in> set (g ! src a) \<and> dest a = v \<and> w ! v = weight a + w ! src a"
  using assms unfolding taken_ok_def by auto

lemma taken_okI:
  assumes "length tk = length g"
    "\<And>v. v < length g \<Longrightarrow> tk ! v = None \<longleftrightarrow> v = s \<or> w ! v = HUGE"
    "\<And>v. v < length g \<Longrightarrow> v \<notin> U \<Longrightarrow> tree_path tk ({..<length g} - U) s v (w ! v)"
    "\<And>v a. v < length g \<Longrightarrow> tk ! v = Some a \<Longrightarrow>
       src a < length g \<and> src a \<notin> U \<and> a \<in> set (g ! src a) \<and> dest a = v \<and> w ! v = weight a + w ! src a"
  shows "taken_ok g s U w tk"
  unfolding taken_ok_def using assms by simp

lemma relax_dist:
  assumes ok: "dist_ok g s U A w" and g: "graph_ok g" "nonneg_arcs g" and w: "length w = length g"
    and m: "m < length g" "m \<notin> U" "\<forall>u < length g. u \<notin> U \<longrightarrow> w ! u \<le> w ! m" and a: "a \<in> set (g ! m)"
    and A: "\<forall>u < length g. A u \<subseteq> set (g ! u)"
    and c: "c = weight a + w ! m"
  shows "dest a < length g" "c < w ! dest a \<Longrightarrow> dest a \<in> U \<and> dest a \<noteq> s"
    "c < w ! dest a \<Longrightarrow> dist_ok g s U (A(m := insert a (A m))) (w[dest a := c])"
    "\<not> c < w ! dest a \<Longrightarrow> dist_ok g s U (A(m := insert a (A m))) w"
proof -
  show t: "dest a < length g" using g(1) m(1) a by (auto simp: graph_ok_def)
  have na: "0 \<le> weight a" using g(2) m(1) a by (auto simp: nonneg_arcs_def)
  note ok' = ok [unfolded dist_ok_def]
  have cm: "w ! m \<le> c" unfolding c by (rule add_increasing [OF na order_refl])
  have pos: "0 \<le> c" by (rule order_trans [OF _ cm]) (use ok' m(1) in blast)
  { assume lt: "c < w ! dest a"
    show tU: "dest a \<in> U \<and> dest a \<noteq> s"
    proof
      show "dest a \<in> U"
      proof (rule ccontr)
        assume "dest a \<notin> U"
        then have "w ! dest a \<le> c" using m(3) t cm by (meson order_trans)
        then show False using lt by simp
      qed
      show "dest a \<noteq> s" using lt pos ok' by auto
    qed
    let ?w = "w[dest a := c]"
    have nth: "?w ! v = (if v = dest a then c else w ! v)" for v using t w by (simp add: nth_list_update)
    have wm: "w ! m \<noteq> HUGE" using ok' m by blast
    have walk: "walk_cost g s (dest a) c"
      unfolding c by (rule walk_cost.step) (use ok' m(1) wm a in blast)+
    show "dist_ok g s U (A(m := insert a (A m))) ?w"
      unfolding dist_ok_def
    proof (intro conjI allI impI)
      show "?w ! s = 0" using tU ok' by (simp add: nth)
      fix v assume v: "v < length g"
      show "0 \<le> ?w ! v" using pos ok' v by (simp add: nth)
      show "?w ! v = HUGE \<or> walk_cost g s v (?w ! v)" using walk ok' v by (auto simp: nth)
      assume vU: "v \<notin> U"
      then have vt: "v \<noteq> dest a" using tU by blast
      show "?w ! v \<noteq> HUGE" using vt ok' v vU by (simp add: nth)
      show "\<forall>u \<in> U. ?w ! v \<le> ?w ! u"
      proof
        fix u assume "u \<in> U"
        have "w ! v \<le> c" using m(3) v vU cm by (meson order_trans)
        moreover have "w ! v \<le> w ! u" using ok' v vU \<open>u \<in> U\<close> by blast
        ultimately show "?w ! v \<le> ?w ! u" using vt by (simp add: nth)
      qed
      show "\<forall>b \<in> (A(m := insert a (A m))) v. ?w ! dest b \<le> weight b + ?w ! v"
      proof
        fix b assume b: "b \<in> (A(m := insert a (A m))) v"
        show "?w ! dest b \<le> weight b + ?w ! v"
        proof (cases "b = a \<and> v = m")
          case True
          then show ?thesis using vt unfolding nth by (simp add: c)
        next
          case False
          then have "b \<in> A v" using b by (auto split: if_splits)
          then have "w ! dest b \<le> weight b + w ! v" using ok' v vU by blast
          then show ?thesis using vt lt by (auto simp: nth)
        qed
      qed
    qed }
  assume "\<not> c < w ! dest a"
  then show "dist_ok g s U (A(m := insert a (A m))) w" using ok unfolding dist_ok_def c by (simp add: not_less)
qed

lemma relax_taken:
  assumes "taken_ok g s U w tk" and w: "length w = length g" and "a \<in> set (g ! m)" "src a = m" "m < length g" "m \<notin> U"
    and t: "dest a < length g" "dest a \<in> U" "dest a \<noteq> s" "w ! m \<noteq> HUGE" "weight a + w ! m < w ! dest a"
  shows "taken_ok g s U (w[dest a := weight a + w ! m]) (tk[dest a := Some a])"
proof -
  let ?w = "w[dest a := weight a + w ! m]" and ?tk = "tk[dest a := Some a]"
  note ok = taken_okD [OF assms(1)]
  have nth: "?w ! v = (if v = dest a then weight a + w ! m else w ! v)" for v using t w by (simp add: nth_list_update)
  have ntk: "?tk ! v = (if v = dest a then Some a else tk ! v)" for v using t ok(1) by (simp add: nth_list_update)
  have fin: "weight a + w ! m \<noteq> HUGE" using t(5) by auto
  show ?thesis
    unfolding taken_ok_def
  proof (intro conjI allI impI)
    show "length ?tk = length g" using ok(1) by simp
    fix v assume v: "v < length g"
    show "?tk ! v = None \<longleftrightarrow> v = s \<or> ?w ! v = HUGE" using ok(2) [OF v] t(3) fin by (simp add: nth ntk)
    { assume vU: "v \<notin> U"
      then have "v \<noteq> dest a" using t(2) by blast
      moreover have "tree_path ?tk ({..<length g} - U) s v (w ! v)"
        by (rule tree_path_mono [OF ok(3) [OF v vU] order_refl]) (use t(2) ntk in auto)
      ultimately show "tree_path ?tk ({..<length g} - U) s v (?w ! v)" by (simp add: nth) }
    fix b assume b: "?tk ! v = Some b"
    have "src b < length g \<and> src b \<notin> U \<and> b \<in> set (g ! src b) \<and> dest b = v \<and>
        (if v = dest a then weight a + w ! m else w ! v) = weight b + w ! src b"
      using b ok(4) [OF v, of b] assms(3-6) by (auto simp: ntk split: if_splits)
    then show "src b < length g" "src b \<notin> U" "b \<in> set (g ! src b)" "dest b = v" "?w ! v = weight b + ?w ! src b"
      using t(2) by (auto simp: nth)
  qed
qed

text \<open>The invariant of the search: everything holds, and no unknown state is nearer than a known one.\<close>

definition search_ok ::
  "('c::linordered_ab_group_add cost, 'd) Graph \<Rightarrow> nat \<Rightarrow> nat set \<Rightarrow> nat \<Rightarrow> (nat \<Rightarrow> ('c cost, 'd) GraphArc set)
    \<Rightarrow> 'c cost list \<times> ('c cost, 'd) GraphArc option list option \<times> dist_queue \<Rightarrow> bool" where
  "search_ok g s U k A = (\<lambda>(w, tk, q).
     queue_ok (length g) w q k U \<and> dist_ok g s U A w \<and> (\<forall>t. tk = Some t \<longrightarrow> taken_ok g s U w t))"

lemma relax_search:
  assumes "search_ok g s U k A (w, tk, q)" and g: "graph_ok g" "nonneg_arcs g"
    and m: "m < length g" "m \<notin> U" "\<forall>u < length g. u \<notin> U \<longrightarrow> w ! u \<le> w ! m" and a: "a \<in> set (g ! m)"
    and A: "\<forall>u < length g. A u \<subseteq> set (g ! u)"
  shows "\<exists>w' tk' q'. relax m a (w, tk, q) = (w', tk', q') \<and> search_ok g s U k (A(m := insert a (A m))) (w', tk', q') \<and>
    (\<forall>u < length g. u \<notin> U \<longrightarrow> w' ! u = w ! u) \<and> (tk' = None \<longleftrightarrow> tk = None)"
proof -
  define c where "c = weight a + w ! m"
  have q: "queue_ok (length g) w q k U" and d: "dist_ok g s U A w" and t: "\<And>t. tk = Some t \<Longrightarrow> taken_ok g s U w t"
    using assms(1) by (auto simp: search_ok_def)
  have w: "length w = length g" by (rule queue_okD(3) [OF q])
  note r = relax_dist [OF d g w m a A c_def]
  show ?thesis
  proof (cases "c < w ! dest a")
    case True
    let ?w = "w[dest a := c]" and ?tk = "map_option (\<lambda>t. t[dest a := Some a]) tk"
    let ?q = "heapAdjustUp rd_dist assign_dist (dist_lt ?w) q (locs q ! dest a)"
    have e: "relax m a (w, tk, q) = (?w, ?tk, ?q)" using True by (simp add: relax_def Let_def c_def)
    have fin: "w ! m \<noteq> HUGE" using d m by (auto simp: dist_ok_def)
    have sa: "src a = m" using g(1) m(1) a by (auto simp: graph_ok_def)
    have "taken_ok g s U ?w t'" if "?tk = Some t'" for t'
      using that relax_taken [OF t w a sa m(1,2) r(1) _ _ fin] r(2) [OF True] True by (auto simp: c_def)
    moreover have "queue_ok (length g) ?w ?q k U" by (rule queue_ok_lower [OF q _ True]) (use r(2) True in blast)
    ultimately have "search_ok g s U k (A(m := insert a (A m))) (?w, ?tk, ?q)"
      using r(3) [OF True] by (simp add: search_ok_def)
    moreover have "\<forall>u < length g. u \<notin> U \<longrightarrow> ?w ! u = w ! u"
    proof (intro allI impI)
      fix u assume "u < length g" "u \<notin> U"
      then have "dest a \<noteq> u" using r(2) [OF True] by blast
      then show "?w ! u = w ! u" by simp
    qed
    ultimately show ?thesis unfolding e by simp
  next
    case False
    then have e: "relax m a (w, tk, q) = (w, tk, q)" by (simp add: relax_def Let_def c_def)
    have "search_ok g s U k (A(m := insert a (A m))) (w, tk, q)" using r(4) [OF False] q t by (simp add: search_ok_def)
    then show ?thesis unfolding e by simp
  qed
qed

lemma relax_all:
  assumes "search_ok g s U k A (w, tk, q)" and g: "graph_ok g" "nonneg_arcs g"
    and m: "m < length g" "m \<notin> U" "\<forall>u < length g. u \<notin> U \<longrightarrow> w ! u \<le> w ! m" and as: "set as \<subseteq> set (g ! m)"
    and A: "\<forall>u < length g. A u \<subseteq> set (g ! u)"
  shows "\<exists>w' tk' q'. fold (relax m) as (w, tk, q) = (w', tk', q') \<and> search_ok g s U k (A(m := A m \<union> set as)) (w', tk', q') \<and>
    (tk' = None \<longleftrightarrow> tk = None)"
  using assms(1) m(3) as A
proof (induction as arbitrary: w tk q A)
  case Nil
  then show ?case by simp
next
  case (Cons a as)
  have a: "a \<in> set (g ! m)" using Cons.prems(3) by simp
  obtain w' tk' q' where r: "relax m a (w, tk, q) = (w', tk', q')"
    "search_ok g s U k (A(m := insert a (A m))) (w', tk', q')" "\<forall>u < length g. u \<notin> U \<longrightarrow> w' ! u = w ! u"
    "tk' = None \<longleftrightarrow> tk = None"
    using relax_search [OF Cons.prems(1) g m(1,2) Cons.prems(2) a Cons.prems(4)] by blast
  have le: "\<forall>u < length g. u \<notin> U \<longrightarrow> w' ! u \<le> w' ! m" using r(3) Cons.prems(2) m by simp
  have A: "\<forall>u < length g. (A(m := insert a (A m))) u \<subseteq> set (g ! u)" using Cons.prems(4) a by simp
  have as: "set as \<subseteq> set (g ! m)" using Cons.prems(3) by simp
  obtain w'' tk'' q'' where f: "fold (relax m) as (w', tk', q') = (w'', tk'', q'')"
    "search_ok g s U k ((A(m := insert a (A m)))(m := (A(m := insert a (A m))) m \<union> set as)) (w'', tk'', q'')"
    "tk'' = None \<longleftrightarrow> tk' = None"
    using Cons.IH [OF r(2) le as A] by blast
  have eq: "(A(m := insert a (A m)))(m := (A(m := insert a (A m))) m \<union> set as) = A(m := A m \<union> set (a # as))" by auto
  have "fold (relax m) (a # as) (w, tk, q) = (w'', tk'', q'')" using r(1) f(1) by simp
  then show ?case using f(2) [unfolded eq] f(3) r(4) by blast
qed

lemma pop_search:
  assumes ok: "search_ok g s U (Suc k) (\<lambda>u. set (g ! u)) (w, tk, q)" and m: "m = queue q ! 0" "w ! m \<noteq> HUGE"
  shows "search_ok g s (U - {m}) k ((\<lambda>u. set (g ! u))(m := {}))
      (w, tk, heapPop rd_dist assign_dist (dist_lt w) q (Suc k))"
    "m < length g" "\<forall>u < length g. u \<notin> U - {m} \<longrightarrow> w ! u \<le> w ! m"
proof -
  have q: "queue_ok (length g) w q (Suc k) U" and d: "dist_ok g s U (\<lambda>u. set (g ! u)) w"
    and t: "\<And>t. tk = Some t \<Longrightarrow> taken_ok g s U w t"
    using ok by (auto simp: search_ok_def)
  note pop = queue_ok_pop [OF q, folded m(1)]
  show mg: "m < length g" using pop(2) queue_okD(7) [OF q] by auto
  show "\<forall>u < length g. u \<notin> U - {m} \<longrightarrow> w ! u \<le> w ! m" using d pop(2) by (auto simp: dist_ok_def)
  have "dist_ok g s (U - {m}) ((\<lambda>u. set (g ! u))(m := {})) w"
    unfolding dist_ok_def using d [unfolded dist_ok_def] pop(3) m(2) by auto
  moreover have "taken_ok g s (U - {m}) w t" if "tk = Some t" for t
  proof -
    note tk = taken_okD [OF t [OF that]]
    have mono: "tree_path t ({..<length g} - (U - {m})) s v c" if "tree_path t ({..<length g} - U) s v c" for v c
      by (rule tree_path_mono [OF that]) auto
    have "tree_path t ({..<length g} - (U - {m})) s m (w ! m)"
    proof (cases "t ! m")
      case None
      then have "m = s" using tk(2) [OF mg] m(2) by blast
      moreover have "w ! s = 0" using d by (simp add: dist_ok_def)
      ultimately show ?thesis using tree_path.start [of s "{..<length g} - (U - {m})" t] mg by simp
    next
      case (Some a)
      then have a: "src a < length g" "src a \<notin> U" "w ! m = weight a + w ! src a" using tk(4) [OF mg] by blast+
      have "tree_path t ({..<length g} - (U - {m})) s (src a) (w ! src a)" by (rule mono [OF tk(3) [OF a(1,2)]])
      then have "tree_path t ({..<length g} - (U - {m})) s m (weight a + w ! src a)"
        by (rule tree_path.step) (use mg Some in auto)
      then show ?thesis using a(3) by simp
    qed
    moreover note mono [OF tk(3)]
    ultimately have "tree_path t ({..<length g} - (U - {m})) s v (w ! v)" if "v < length g" "v \<notin> U - {m}" for v
      using that by (cases "v = m") simp_all
    then show ?thesis using tk(1,2,4) by (intro taken_okI) simp_all
  qed
  ultimately show "search_ok g s (U - {m}) k ((\<lambda>u. set (g ! u))(m := {}))
      (w, tk, heapPop rd_dist assign_dist (dist_lt w) q (Suc k))"
    using pop(1) by (simp add: search_ok_def)
qed

lemma search_spec:
  assumes "search_ok g s U k (\<lambda>u. set (g ! u)) (w, tk, q)" and g: "graph_ok g" "nonneg_arcs g"
  shows "\<exists>w' tk' q' U'. search g k (w, tk, q) = (w', tk', q') \<and> dist_ok g s U' (\<lambda>u. set (g ! u)) w' \<and> length w' = length g \<and>
    (\<forall>v \<in> U'. w' ! v = HUGE) \<and> (\<forall>t. tk' = Some t \<longrightarrow> taken_ok g s U' w' t) \<and> (tk' = None \<longleftrightarrow> tk = None)"
  using assms(1)
proof (induction k arbitrary: U w tk q)
  case 0
  then have q: "queue_ok (length g) w q 0 U" by (simp add: search_ok_def)
  then have "U = {}" using queue_okD(6) [OF q] by simp
  then show ?case using 0 queue_okD(3) [OF q] by (auto simp: search_ok_def)
next
  case (Suc k)
  let ?m = "queue q ! 0"
  have q: "queue_ok (length g) w q (Suc k) U" using Suc.prems by (simp add: search_ok_def)
  show ?case
  proof (cases "w ! ?m = HUGE")
    case True
    then have "search g (Suc k) (w, tk, q) = (w, tk, q)" by simp
    moreover have "\<forall>v \<in> U. w ! v = HUGE" using queue_ok_pop(3) [OF q] True by simp
    ultimately show ?thesis using Suc.prems queue_okD(3) [OF q] unfolding search_ok_def by blast
  next
    case False
    note pop = pop_search [OF Suc.prems refl False]
    let ?q = "heapPop rd_dist assign_dist (dist_lt w) q (Suc k)"
    have m: "?m \<notin> U - {?m}" by simp
    have A: "\<forall>u < length g. ((\<lambda>u. set (g ! u))(?m := {})) u \<subseteq> set (g ! u)" by simp
    obtain w' tk' q' where f: "fold (relax ?m) (g ! ?m) (w, tk, ?q) = (w', tk', q')"
      "search_ok g s (U - {?m}) k ((\<lambda>u. set (g ! u))(?m := ((\<lambda>u. set (g ! u))(?m := {})) ?m \<union> set (g ! ?m))) (w', tk', q')"
      "tk' = None \<longleftrightarrow> tk = None"
      using relax_all [OF pop(1) g pop(2) m pop(3) order_refl A] unfolding fun_upd_upd by blast
    have eq: "(\<lambda>u. set (g ! u))(?m := ((\<lambda>u. set (g ! u))(?m := {})) ?m \<union> set (g ! ?m)) = (\<lambda>u. set (g ! u))" by auto
    have "search g (Suc k) (w, tk, q) = search g k (w', tk', q')" using False by (simp add: f(1) Let_def)
    then show ?thesis using Suc.IH [OF f(2) [unfolded eq]] f(3) by auto
  qed
qed

lemma dist_least:
  assumes d: "dist_ok g s U (\<lambda>u. set (g ! u)) w" "\<forall>v \<in> U. w ! v = HUGE" and g: "graph_ok g"
  shows "walk_cost g s v c \<Longrightarrow> w ! v \<le> c"
proof (induction rule: walk_cost.induct)
  case start
  then show ?case using d(1) by (simp add: dist_ok_def)
next
  case (step u c a)
  show ?case
  proof (cases "u \<in> U")
    case True
    then have "c = HUGE" using step.IH d(2) by simp
    then show ?thesis by simp
  next
    case False
    then have "w ! dest a \<le> weight a + w ! u" using d(1) step.hyps by (auto simp: dist_ok_def)
    also have "\<dots> \<le> weight a + c" using step.IH by (rule add_left_mono)
    finally show ?thesis .
  qed
qed

lemma shortestDistancesFrom_spec:
  fixes g :: "('c::linordered_ab_group_add cost, 'd) Graph"
  assumes "graph_ok g" "nonneg_arcs g" "s < length g" "shortestDistancesFrom g s b = (w, tk)"
  shows "\<exists>U. dist_ok g s U (\<lambda>u. set (g ! u)) w \<and> (\<forall>v \<in> U. w ! v = HUGE) \<and> length w = length g \<and>
    (if b then \<exists>t :: ('c cost, 'd) GraphArc option list. tk = Some t \<and> taken_ok g s U w t else tk = None)"
proof -
  let ?w = "(replicate (length g) HUGE)[s := 0] :: 'c cost list"
  let ?tk = "if b then Some (replicate (length g) None) else None :: ('c cost, 'd) GraphArc option list option"
  have w: "?w ! v = (if v = s then 0 else HUGE)" if "v < length g" for v using that by (simp add: nth_list_update)
  have "dist_ok g s {..<length g} (\<lambda>u. set (g ! u)) ?w"
    unfolding dist_ok_def using w assms(3) by (auto intro: walk_cost.start)
  moreover have "taken_ok g s {..<length g} ?w (replicate (length g) None)"
    unfolding taken_ok_def using w by auto
  ultimately have "search_ok g s {..<length g} (length g) (\<lambda>u. set (g ! u)) (?w, ?tk, init_queue (length g) s)"
    using init_queue_ok [OF assms(3)] by (auto simp: search_ok_def)
  from search_spec [OF this assms(1,2)] obtain w' tk' q' U where
    r: "search g (length g) (?w, ?tk, init_queue (length g) s) = (w', tk', q')"
      "dist_ok g s U (\<lambda>u. set (g ! u)) w'" "length w' = length g" "\<forall>v \<in> U. w' ! v = HUGE"
      "\<forall>t. tk' = Some t \<longrightarrow> taken_ok g s U w' t" "tk' = None \<longleftrightarrow> ?tk = None"
    by (elim exE conjE) (rule that)
  have e: "w' = w" "tk' = tk" using assms(4) r(1) by (simp_all add: shortestDistancesFrom_def)
  have "if b then \<exists>t. tk = Some t \<and> taken_ok g s U w t else tk = None" using r(5,6) unfolding e by (cases b; cases tk) auto
  then show ?thesis using r(2-4) unfolding e by blast
qed

lemma reversed_nonneg:
  assumes "graph_ok g" "nonneg_arcs g"
  shows "nonneg_arcs (reverseGraph g fwd)"
  unfolding nonneg_arcs_def
proof (intro ballI)
  fix st a assume "st \<in> set (reverseGraph g fwd)" "a \<in> set st"
  then obtain v where "v < length g" "a \<in> set (reverseGraph g fwd ! v)"
    by (auto simp: in_set_conv_nth reverseGraph_nth(1) [OF assms(1)])
  then obtain i p where "i < length g" "p < length (g ! i)" "a = reversed_arc fwd (i, p, g ! i ! p)"
    using reverseGraph_nth(2) [OF assms(1), where fwd = fwd] by (auto simp: in_located_arcs)
  then have "g ! i \<in> set g" "g ! i ! p \<in> set (g ! i)" "weight a = weight (g ! i ! p)" by (simp_all add: reversed_arc_def)
  then show "0 \<le> weight a" using assms(2) by (simp add: nonneg_arcs_def)
qed

lemma reversed_member:
  assumes "graph_ok g" "v < length g" "a \<in> set (reverseGraph g True ! v)"
  shows "\<exists>i p. i < length g \<and> p < length (g ! i) \<and> data a = Forward_arc i p \<and> dest a = i \<and> src a = v \<and>
    dest (g ! i ! p) = v \<and> src (g ! i ! p) = i \<and> weight (g ! i ! p) = weight a"
proof -
  obtain i p where "i < length g" "p < length (g ! i)" "dest (g ! i ! p) = v" "a = reversed_arc True (i, p, g ! i ! p)"
    using assms(3) reverseGraph_nth(2) [OF assms(1,2), where fwd = True] by (auto simp: in_located_arcs)
  moreover have "src (g ! i ! p) = i" using assms(1) calculation by (simp add: graph_ok_def)
  ultimately show ?thesis by (auto simp: reversed_arc_def)
qed

lemma reversed_arc_of:
  assumes "graph_ok g" "u < length g" "a \<in> set (g ! u)"
  shows "\<exists>b \<in> set (reverseGraph g fwd ! dest a). dest b = u \<and> weight b = weight a"
proof -
  obtain p where p: "p < length (g ! u)" "g ! u ! p = a" using assms(3) by (auto simp: in_set_conv_nth)
  have "dest a < length g" "src a = u" using assms by (auto simp: graph_ok_def)
  then have "reversed_arc fwd (u, p, a) \<in> set (reverseGraph g fwd ! dest a)"
    using reverseGraph_nth(2) [OF assms(1), where fwd = fwd] p assms(2) by (auto simp: in_located_arcs)
  then show ?thesis by (rule rev_bexI) (simp add: reversed_arc_def \<open>src a = u\<close>)
qed

lemma walk_cost_front:
  "walk_cost g (dest a) v c \<Longrightarrow> u < length g \<Longrightarrow> a \<in> set (g ! u) \<Longrightarrow> walk_cost g u v (weight a + c)"
proof (induction rule: walk_cost.induct)
  case start
  then show ?case using walk_cost.step [OF walk_cost.start] by blast
next
  case (step x c b)
  from walk_cost.step [OF step.IH [OF step.prems] step.hyps(2,3)] show ?case by (simp add: ac_simps)
qed

lemma reversed_walk:
  assumes "graph_ok g" "d < length g" "v < length g"
  shows "walk_cost (reverseGraph g True) d v c \<longleftrightarrow> walk_cost g v d c"
proof
  show "walk_cost (reverseGraph g True) d v c \<Longrightarrow> walk_cost g v d c"
  proof (induction rule: walk_cost.induct)
    case (step u c a)
    then have u: "u < length g" by (simp add: reverseGraph_nth(1) [OF assms(1)])
    obtain i p where ip: "i < length g" "p < length (g ! i)" "dest a = i" "dest (g ! i ! p) = u" "weight (g ! i ! p) = weight a"
      using reversed_member [OF assms(1) u step.hyps(3)] by metis
    show ?case using walk_cost_front [of g "g ! i ! p" d c i] step.IH ip by simp
  qed (rule walk_cost.start)
  show "walk_cost g v d c \<Longrightarrow> walk_cost (reverseGraph g True) d v c"
  proof (induction rule: walk_cost.induct)
    case (step u c a)
    obtain b where b: "b \<in> set (reverseGraph g True ! dest a)" "dest b = u" "weight b = weight a"
      using reversed_arc_of [OF assms(1) step.hyps(2,3)] by blast
    have "dest a < length (reverseGraph g True)"
      using assms(1) step.hyps(2,3) by (auto simp: graph_ok_def reverseGraph_nth(1) [OF assms(1)])
    from walk_cost_front [OF _ this b(1)] show ?case using step.IH b(2,3) by simp
  qed (rule walk_cost.start)
qed

section \<open>Properties\<close>

text \<open>C32: \<open>shortestDistancesFrom\<close> on a graph without negative arcs: \<open>dist\<close> of a state is the cost of a cheapest
  walk to it, \<open>HUGE_VAL\<close> when there is none of finite cost; \<open>taken\<close> holds no arc exactly for the source and for
  those states, and following its arcs back from any other state is a walk from the source of that cost.\<close>

theorem shortestDistancesFrom_least:
  fixes g :: "('c::linordered_ab_group_add cost, 'd) Graph"
  assumes "graph_ok g" "nonneg_arcs g" "s < length g" "v < length g"
  shows "case shortestDistancesFrom g s with_taken of (best, taken) \<Rightarrow>
    (best ! v = HUGE \<or> walk_cost g s v (best ! v)) \<and> (\<forall>c. walk_cost g s v c \<longrightarrow> best ! v \<le> c) \<and>
    (if with_taken then (the taken ! v = None \<longleftrightarrow> v = s \<or> best ! v = HUGE) \<and>
        (best ! v \<noteq> HUGE \<longrightarrow> tree_path (the taken) {..<length g} s v (best ! v)) \<and>
        (\<forall>a. the taken ! v = Some a \<longrightarrow> a \<in> set (g ! src a) \<and> dest a = v)
     else taken = None)"
proof -
  obtain w tk where e: "shortestDistancesFrom g s with_taken = (w, tk)" by fastforce
  obtain U where r: "dist_ok g s U (\<lambda>u. set (g ! u)) w" "\<forall>v \<in> U. w ! v = HUGE"
    "if with_taken then \<exists>t. tk = Some t \<and> taken_ok g s U w t else tk = None"
    using shortestDistancesFrom_spec [OF assms(1-3) e] by blast
  have 1: "w ! v = HUGE \<or> walk_cost g s v (w ! v)" using r(1) assms(4) by (auto simp: dist_ok_def)
  have 2: "\<forall>c. walk_cost g s v c \<longrightarrow> w ! v \<le> c" using dist_least [OF r(1,2) assms(1)] by blast
  have 3: "(t ! v = None \<longleftrightarrow> v = s \<or> w ! v = HUGE) \<and> (w ! v \<noteq> HUGE \<longrightarrow> tree_path t {..<length g} s v (w ! v)) \<and>
      (\<forall>a. t ! v = Some a \<longrightarrow> a \<in> set (g ! src a) \<and> dest a = v)" if t: "taken_ok g s U w t" for t
  proof (intro conjI impI allI)
    note tk = taken_okD [OF t]
    show "t ! v = None \<longleftrightarrow> v = s \<or> w ! v = HUGE" by (rule tk(2) [OF assms(4)])
    show "tree_path t {..<length g} s v (w ! v)" if "w ! v \<noteq> HUGE"
      by (rule tree_path_mono [OF tk(3) [OF assms(4)]]) (use that r(2) in auto)
    fix a assume "t ! v = Some a"
    then show "a \<in> set (g ! src a)" "dest a = v" using tk(4) [OF assms(4)] by blast+
  qed
  show ?thesis using 1 2 3 r(3) unfolding e by (auto split: if_splits)
qed

definition cost_graph :: "(int cost, unit) Graph" where
  "cost_graph =
     [[\<lparr>src = 0, dest = 2, weight = Fin 7, data = Data ()\<rparr>, \<lparr>src = 0, dest = 1, weight = Fin 2, data = Data ()\<rparr>],
      [\<lparr>src = 1, dest = 2, weight = Fin 3, data = Data ()\<rparr>], [], []]"

lemma cost_graph_ok: "graph_ok cost_graph" "nonneg_arcs cost_graph" "length cost_graph = 4"
  by (auto simp: graph_ok_def nonneg_arcs_def cost_graph_def less_Suc_eq eval_nat_numeral zero_cost_def)

theorem shortestDistancesFrom_least_witness:
  "fst (shortestDistancesFrom cost_graph 0 False) = [Fin 0, Fin 2, Fin 5, HUGE] \<and>
   walk_cost cost_graph 0 2 (Fin 5) \<and> \<not> walk_cost cost_graph 0 2 (Fin 4)"
proof -
  have e: "shortestDistancesFrom cost_graph 0 False = ([Fin 0, Fin 2, Fin 5, HUGE], None)" by code_simp
  show ?thesis using shortestDistancesFrom_least [OF cost_graph_ok(1,2), of 0 2 False] unfolding e by (auto simp: cost_graph_ok(3))
qed

text \<open>What \<open>shortestPathTreeTo\<close> returns, with the \<open>taken\<close> array \<open>t\<close> that it makes the tree of.\<close>

definition tree_arc_ok ::
  "('c::linordered_ab_group_add cost, 'd) Graph \<Rightarrow> nat \<Rightarrow> ('c cost, 'd) Graph \<Rightarrow> 'c cost list \<Rightarrow> ('c cost, 'd) GraphArc option list \<Rightarrow> nat \<Rightarrow> bool" where
  "tree_arc_ok g d tree best t v \<longleftrightarrow>
     (if v = d \<or> best ! v = HUGE then tree ! v = []
      else \<exists>a \<in> set (g ! v). \<exists>b. tree ! v = [a] \<and> src a = v \<and> best ! v = weight a + best ! dest a \<and> t ! v = Some b \<and> src b = dest a)"

lemma shortestPathTreeTo_taken:
  fixes g :: "('c::linordered_ab_group_add cost, 'd) Graph"
  assumes "graph_ok g" "nonneg_arcs g" "d < length g"
  shows "\<exists>tree best t U. shortestPathTreeTo g d = (tree, best) \<and> length tree = length g \<and> length best = length g \<and>
    dist_ok (reverseGraph g True) d U (\<lambda>u. set (reverseGraph g True ! u)) best \<and> (\<forall>v \<in> U. best ! v = HUGE) \<and>
    taken_ok (reverseGraph g True) d U best t \<and>
    (\<forall>v < length g. tree_arc_ok g d tree best t v)"
proof -
  let ?r = "reverseGraph g True"
  have rl: "length ?r = length g" and rg: "graph_ok ?r" and rn: "nonneg_arcs ?r"
    using reverseGraph_nth(1) [OF assms(1)] reverseGraph_edge(1) [OF assms(1)] reversed_nonneg [OF assms(1,2)] by auto
  obtain w tk where e: "shortestDistancesFrom ?r d True = (w, tk)" by fastforce
  obtain U t where r: "dist_ok ?r d U (\<lambda>u. set (?r ! u)) w" "\<forall>v \<in> U. w ! v = HUGE" "tk = Some t" "taken_ok ?r d U w t" "length w = length g"
    using shortestDistancesFrom_spec [OF rg rn _ e] assms(3) rl by auto
  note tk = taken_okD [OF r(4), unfolded rl]
  let ?tree = "map (\<lambda>i. arc_taken g (t ! i)) [0..<length g]"
  have p: "shortestPathTreeTo g d = (?tree, w)" by (simp add: shortestPathTreeTo_def e r(3))
  have ta: "tree_arc_ok g d ?tree w t v"
    if v: "v < length g" for v
  proof (cases "t ! v")
    case None
    then show ?thesis using tk(2) [OF v] v by (simp add: arc_taken_def tree_arc_ok_def)
  next
    case (Some b)
    have b: "src b < length g" "b \<in> set (?r ! src b)" "dest b = v" "w ! v = weight b + w ! src b"
      using tk(4) [OF v Some] by blast+
    obtain i p where ip: "i < length g" "p < length (g ! i)" "data b = Forward_arc i p" "dest b = i"
      "dest (g ! i ! p) = src b" "src (g ! i ! p) = i" "weight (g ! i ! p) = weight b"
      using reversed_member [OF assms(1) b(1,2)] by metis
    have "g ! i ! p \<in> set (g ! v)" using ip(2,4) b(3) by auto
    moreover have "?tree ! v = [g ! i ! p]" using v Some ip(3) by (simp add: arc_taken_def)
    ultimately show ?thesis using tk(2) [OF v] Some ip b(3,4) unfolding tree_arc_ok_def by auto
  qed
  have "length ?tree = length g" by simp
  then show ?thesis using p r ta by blast
qed

text \<open>C33: \<open>shortestPathTreeTo\<close> on a graph without negative arcs gives for every state the cost of a cheapest walk
  to the target, and leaves each state that has one of finite cost, the target apart, exactly one arc, an arc of
  its own that begins such a walk; the other states keep none.\<close>

theorem shortestPathTreeTo_spec:
  fixes g :: "('c::linordered_ab_group_add cost, 'd) Graph"
  assumes "graph_ok g" "nonneg_arcs g" "d < length g" "v < length g"
  shows "case shortestPathTreeTo g d of (tree, best) \<Rightarrow>
    (best ! v = HUGE \<or> walk_cost g v d (best ! v)) \<and>
    (\<forall>c. walk_cost g v d c \<longrightarrow> best ! v \<le> c) \<and>
    (if v = d \<or> best ! v = HUGE then tree ! v = []
     else \<exists>a \<in> set (g ! v). tree ! v = [a] \<and> src a = v \<and> best ! v = weight a + best ! dest a)"
proof -
  obtain tree best t U where p: "shortestPathTreeTo g d = (tree, best)"
    and r: "dist_ok (reverseGraph g True) d U (\<lambda>u. set (reverseGraph g True ! u)) best" "\<forall>v \<in> U. best ! v = HUGE"
    and tr: "tree_arc_ok g d tree best t v"
    using shortestPathTreeTo_taken [OF assms(1-3)] assms(4) by blast
  have "best ! v = HUGE \<or> walk_cost (reverseGraph g True) d v (best ! v)"
    using r(1) assms(4) reverseGraph_nth(1) [OF assms(1)] by (auto simp: dist_ok_def)
  moreover have "\<forall>c. walk_cost (reverseGraph g True) d v c \<longrightarrow> best ! v \<le> c"
    using dist_least [OF r reverseGraph_edge(1) [OF assms(1)]] by blast
  ultimately show ?thesis using tr unfolding p by (auto simp: tree_arc_ok_def reversed_walk [OF assms(1,3,4)] split: if_splits)
qed

theorem shortestPathTreeTo_spec_witness:
  "fst (shortestPathTreeTo cost_graph 2) ! 0 = [\<lparr>src = 0, dest = 1, weight = Fin 2, data = Data ()\<rparr>] \<and>
   \<not> walk_cost cost_graph 0 2 (Fin 4)"
proof -
  have e: "shortestPathTreeTo cost_graph 2 =
    ([[\<lparr>src = 0, dest = 1, weight = Fin 2, data = Data ()\<rparr>],
      [\<lparr>src = 1, dest = 2, weight = Fin 3, data = Data ()\<rparr>], [], []], [Fin 5, Fin 3, Fin 0, HUGE])" by code_simp
  show ?thesis using shortestPathTreeTo_spec [OF cost_graph_ok(1,2), of 2 0] unfolding e by (auto simp: cost_graph_ok(3))
qed

end
