(* ===== verification/LogWeight.thy ===== *)
theory LogWeight
  imports Digits
begin

text \<open>
  Weights in the log domain: \<open>graehl/shared/weight.h\<close>, compiled as \<open>config.h\<close> configures it
  (\<open>WEIGHT_CORRECT_ZERO\<close>, \<open>GRAEHL_USE_LOG1P\<close>).  A \<open>Real\<close> is a real number, an infinity or NaN; arithmetic
  on the reals is exact, so rounding and overflow to infinity are outside the model, and so is the sign of a zero.
  \<open>single\<close> says that \<open>Real\<close> has four bytes.
\<close>

section \<open>Floating point values\<close>

datatype fl = Num real | PosInf | NegInf | NaN

fun fl_add :: "fl \<Rightarrow> fl \<Rightarrow> fl" where
  "fl_add (Num x) (Num y) = Num (x + y)"
| "fl_add NaN y = NaN"
| "fl_add x NaN = NaN"
| "fl_add PosInf NegInf = NaN"
| "fl_add NegInf PosInf = NaN"
| "fl_add PosInf y = PosInf"
| "fl_add x PosInf = PosInf"
| "fl_add NegInf y = NegInf"
| "fl_add x NegInf = NegInf"

fun fl_neg :: "fl \<Rightarrow> fl" where
  "fl_neg (Num x) = Num (- x)"
| "fl_neg PosInf = NegInf"
| "fl_neg NegInf = PosInf"
| "fl_neg NaN = NaN"

definition fl_sub :: "fl \<Rightarrow> fl \<Rightarrow> fl" where
  "fl_sub x y = fl_add x (fl_neg y)"

text \<open>An infinity with the sign of \<open>x\<close>; NaN for zero.\<close>

definition signed_inf :: "real \<Rightarrow> fl" where
  "signed_inf x = (if x > 0 then PosInf else if x < 0 then NegInf else NaN)"

fun fl_mult :: "fl \<Rightarrow> fl \<Rightarrow> fl" where
  "fl_mult (Num x) (Num y) = Num (x * y)"
| "fl_mult NaN y = NaN"
| "fl_mult x NaN = NaN"
| "fl_mult (Num x) PosInf = signed_inf x"
| "fl_mult (Num x) NegInf = signed_inf (- x)"
| "fl_mult PosInf (Num y) = signed_inf y"
| "fl_mult NegInf (Num y) = signed_inf (- y)"
| "fl_mult PosInf PosInf = PosInf"
| "fl_mult NegInf NegInf = PosInf"
| "fl_mult PosInf NegInf = NegInf"
| "fl_mult NegInf PosInf = NegInf"

fun fl_div :: "fl \<Rightarrow> fl \<Rightarrow> fl" where
  "fl_div (Num x) (Num y) = (if y = 0 then signed_inf x else Num (x / y))"
| "fl_div NaN y = NaN"
| "fl_div x NaN = NaN"
| "fl_div (Num x) y = Num 0"
| "fl_div PosInf (Num y) = (if y \<ge> 0 then PosInf else NegInf)"
| "fl_div NegInf (Num y) = (if y \<ge> 0 then NegInf else PosInf)"
| "fl_div x y = NaN"

fun fl_less :: "fl \<Rightarrow> fl \<Rightarrow> bool" where
  "fl_less (Num x) (Num y) = (x < y)"
| "fl_less NaN y = False"
| "fl_less x NaN = False"
| "fl_less NegInf y = (y \<noteq> NegInf)"
| "fl_less x PosInf = (x \<noteq> PosInf)"
| "fl_less x y = False"

definition fl_eq :: "fl \<Rightarrow> fl \<Rightarrow> bool" where
  "fl_eq x y \<longleftrightarrow> x = y \<and> x \<noteq> NaN"

definition fl_le :: "fl \<Rightarrow> fl \<Rightarrow> bool" where
  "fl_le x y \<longleftrightarrow> fl_less x y \<or> fl_eq x y"

fun fl_exp :: "fl \<Rightarrow> fl" where
  "fl_exp (Num x) = Num (exp x)"
| "fl_exp PosInf = PosInf"
| "fl_exp NegInf = Num 0"
| "fl_exp NaN = NaN"

fun fl_log :: "fl \<Rightarrow> fl" where
  "fl_log (Num x) = (if x > 0 then Num (ln x) else if x = 0 then NegInf else NaN)"
| "fl_log PosInf = PosInf"
| "fl_log NegInf = NaN"
| "fl_log NaN = NaN"

definition fl_log1p :: "fl \<Rightarrow> fl" where
  "fl_log1p x = fl_log (fl_add (Num 1) x)"

fun fl_abs :: "fl \<Rightarrow> fl" where
  "fl_abs (Num x) = Num \<bar>x\<bar>"
| "fl_abs NaN = NaN"
| "fl_abs x = PosInf"

section \<open>The weight\<close>

record logweight =
  lweight :: fl

abbreviation LW :: "fl \<Rightarrow> logweight" where
  "LW x \<equiv> \<lparr>lweight = x\<rparr>"

definition MUCH_BIGGER_LN :: "bool \<Rightarrow> real" where
  "MUCH_BIGGER_LN single = (if single then 16 else 36)"

definition UNDERFLOW_LN :: "bool \<Rightarrow> real" where
  "UNDERFLOW_LN single = (if single then 73 else 82)"

definition NEAR_LN_PROXIMITY :: real where
  "NEAR_LN_PROXIMITY = 2"

definition const_ln10 :: real where
  "const_ln10 = 230258509299404568402 / 100000000000000000000"

definition setZero :: logweight where "setZero = LW NegInf"
definition setOne :: logweight where "setOne = LW (Num 0)"
definition setInfinity :: logweight where "setInfinity = LW PosInf"
definition setLn :: "fl \<Rightarrow> logweight" where "setLn w = LW w"
definition setCost :: "fl \<Rightarrow> logweight" where "setCost f = LW (fl_neg f)"
definition setLog10 :: "fl \<Rightarrow> logweight" where "setLog10 w = LW (fl_mult w (Num const_ln10))"
definition setNegLog10 :: "fl \<Rightarrow> logweight" where "setNegLog10 w = LW (fl_mult w (Num (- const_ln10)))"

definition setReal :: "fl \<Rightarrow> logweight" where
  "setReal f = (if fl_less (Num 0) f then LW (fl_log f) else setZero)"

definition getReal :: "logweight \<Rightarrow> fl" where "getReal w = fl_exp (lweight w)"
definition getLn :: "logweight \<Rightarrow> fl" where "getLn w = lweight w"
definition getCost :: "logweight \<Rightarrow> fl" where "getCost w = fl_neg (lweight w)"
definition getLog :: "fl \<Rightarrow> logweight \<Rightarrow> fl" where "getLog base w = fl_div (lweight w) (fl_log base)"
definition getLog10 :: "logweight \<Rightarrow> fl" where "getLog10 w = fl_mult (Num (1 / const_ln10)) (lweight w)"
definition getNegLog10 :: "logweight \<Rightarrow> fl" where "getNegLog10 w = fl_mult (Num (- 1 / const_ln10)) (lweight w)"

definition isInfinity :: "logweight \<Rightarrow> bool" where "isInfinity w = fl_eq (lweight w) PosInf"
definition isPositive :: "logweight \<Rightarrow> bool" where "isPositive w = fl_less NegInf (lweight w)"
definition isZero :: "logweight \<Rightarrow> bool" where "isZero w = (\<not> isPositive w)"
definition isOne :: "logweight \<Rightarrow> bool" where "isOne w = fl_eq (lweight w) (Num 0)"

definition fitsInReal :: "bool \<Rightarrow> logweight \<Rightarrow> bool" where
  "fitsInReal single w \<longleftrightarrow> isZero w \<or>
     fl_less (getLn w) (Num (UNDERFLOW_LN single)) \<and> fl_less (Num (- UNDERFLOW_LN single)) (getLn w)"

definition isMuchLargerThan :: "bool \<Rightarrow> logweight \<Rightarrow> logweight \<Rightarrow> bool" where
  "isMuchLargerThan single w o' = fl_less (Num (MUCH_BIGGER_LN single)) (fl_sub (lweight w) (lweight o'))"

definition isNearAddOneLimit :: "bool \<Rightarrow> logweight \<Rightarrow> bool" where
  "isNearAddOneLimit single w = fl_less (Num (MUCH_BIGGER_LN single - NEAR_LN_PROXIMITY)) (lweight w)"

text \<open>The operators; \<open>_assign\<close> are the members that change their object.\<close>

definition lw_mult :: "logweight \<Rightarrow> logweight \<Rightarrow> logweight" where
  "lw_mult lhs rhs = LW (fl_add (lweight lhs) (lweight rhs))"

definition lw_div :: "logweight \<Rightarrow> logweight \<Rightarrow> logweight" where
  "lw_div lhs rhs = LW (fl_sub (lweight lhs) (lweight rhs))"

definition lw_mult_assign :: "logweight \<Rightarrow> logweight \<Rightarrow> logweight" where
  "lw_mult_assign a w = (if \<not> isZero a then a\<lparr>lweight := fl_add (lweight a) (lweight w)\<rparr> else a)"

definition lw_div_assign :: "logweight \<Rightarrow> logweight \<Rightarrow> logweight" where
  "lw_div_assign a w = (if \<not> isZero a then a\<lparr>lweight := fl_sub (lweight a) (lweight w)\<rparr> else a)"

definition lw_raisePower :: "logweight \<Rightarrow> fl \<Rightarrow> logweight" where
  "lw_raisePower a n = (if \<not> isZero a then a\<lparr>lweight := fl_mult (lweight a) n\<rparr> else a)"

definition takeRoot :: "logweight \<Rightarrow> fl \<Rightarrow> logweight" where
  "takeRoot a n = (if \<not> isZero a then a\<lparr>lweight := fl_div (lweight a) n\<rparr> else a)"

definition lw_root :: "logweight \<Rightarrow> fl \<Rightarrow> logweight" where
  "lw_root a n = (if isZero a then a else LW (fl_div (lweight a) n))"

definition lw_pow :: "logweight \<Rightarrow> fl \<Rightarrow> logweight" where
  "lw_pow a n = (if isZero a then a else LW (fl_mult (lweight a) n))"

definition lw_invert :: "logweight \<Rightarrow> logweight" where
  "lw_invert a = a\<lparr>lweight := fl_neg (lweight a)\<rparr>"

definition lw_cmp :: "logweight \<Rightarrow> logweight \<Rightarrow> int" where
  "lw_cmp a o' =
     (let diff = fl_sub (lweight o') (lweight a)
      in if fl_less diff (Num 0) then -1 else if diff = Num 0 then 0 else 1)"

definition lw_add :: "bool \<Rightarrow> logweight \<Rightarrow> logweight \<Rightarrow> logweight" where
  "lw_add single lhs rhs =
     (if isZero lhs then rhs
      else if isZero rhs then lhs
      else (let diff = fl_sub (lweight lhs) (lweight rhs)
            in if fl_less (Num (MUCH_BIGGER_LN single)) diff then lhs
               else if fl_less diff (Num (- MUCH_BIGGER_LN single)) then rhs
               else if fl_less diff (Num 0) then LW (fl_add (lweight rhs) (fl_log1p (fl_exp diff)))
               else LW (fl_add (lweight lhs) (fl_log1p (fl_exp (fl_neg diff))))))"

definition lw_sub :: "bool \<Rightarrow> logweight \<Rightarrow> logweight \<Rightarrow> logweight" where
  "lw_sub single lhs rhs =
     (if isZero rhs then lhs
      else (let rdiff = fl_sub (lweight rhs) (lweight lhs)
            in if fl_le (Num 0) rdiff then setZero
               else if fl_less rdiff (Num (- MUCH_BIGGER_LN single)) then lhs
               else LW (fl_add (lweight lhs) (fl_log1p (fl_neg (fl_exp rdiff))))))"

definition absdiff :: "bool \<Rightarrow> logweight \<Rightarrow> logweight \<Rightarrow> logweight" where
  "absdiff single lhs rhs =
     (if fl_less (lweight rhs) (lweight lhs) then lw_sub single lhs rhs else lw_sub single rhs lhs)"

definition lw_less :: "logweight \<Rightarrow> logweight \<Rightarrow> bool" where
  "lw_less lhs rhs = fl_less (lweight lhs) (lweight rhs)"

definition lw_le :: "logweight \<Rightarrow> logweight \<Rightarrow> bool" where
  "lw_le lhs rhs = fl_le (lweight lhs) (lweight rhs)"

definition lw_eq :: "logweight \<Rightarrow> logweight \<Rightarrow> bool" where
  "lw_eq lhs rhs = fl_eq (lweight lhs) (lweight rhs)"

definition relative_perplexity_ratio :: "logweight \<Rightarrow> logweight \<Rightarrow> logweight" where
  "relative_perplexity_ratio a o' = lw_root (lw_div a o') (fl_abs (lweight a))"

definition ppxper :: "logweight \<Rightarrow> fl \<Rightarrow> logweight" where
  "ppxper a n = lw_root a (fl_neg n)"

section \<open>Reading a weight\<close>

text \<open>The library's \<open>strtod\<close> on a terminated string: the number at its start, read exactly, and the rest of
  the string; the whole string and 0 when there is no number.  Hexadecimal numbers are not modelled.\<close>

definition isspace :: "char \<Rightarrow> bool" where
  "isspace c \<longleftrightarrow> c \<in> {CHR '' '', CHR 0x09, CHR 0x0A, CHR 0x0B, CHR 0x0C, CHR 0x0D}"

definition decimal_value :: "string \<Rightarrow> nat" where
  "decimal_value ds = foldl (\<lambda>n c. 10 * n + digit_val c) 0 ds"

fun read_sign :: "string \<Rightarrow> real \<times> string" where
  "read_sign (CHR ''-'' # s) = (- 1, s)"
| "read_sign (CHR ''+'' # s) = (1, s)"
| "read_sign s = (1, s)"

definition lower :: "char \<Rightarrow> char" where
  "lower c = (if 65 \<le> char_code c \<and> char_code c \<le> 90 then char_of (char_code c + 32) else c)"

definition read_exponent :: "real \<Rightarrow> string \<Rightarrow> real \<times> string" where
  "read_exponent x s =
     (if s \<noteq> [] \<and> lower (hd s) = CHR ''e''
      then (let (sg, t) = read_sign (tl s); ds = takeWhile digit_char t
            in if ds = [] then (x, s)
               else (if sg < 0 then x / 10 ^ decimal_value ds else x * 10 ^ decimal_value ds, dropWhile digit_char t))
      else (x, s))"

definition read_decimal :: "string \<Rightarrow> (real \<times> string) option" where
  "read_decimal s =
     (let whole = takeWhile digit_char s; r = dropWhile digit_char s;
          frac = (if r \<noteq> [] \<and> hd r = CHR ''.'' then takeWhile digit_char (tl r) else []);
          r = (if r \<noteq> [] \<and> hd r = CHR ''.'' then dropWhile digit_char (tl r) else r)
      in if whole = [] \<and> frac = [] then None
         else Some (read_exponent (decimal_value whole + decimal_value frac / 10 ^ length frac) r))"

definition strtod :: "string \<Rightarrow> fl \<times> string" where
  "strtod s =
     (let (sg, t) = read_sign (dropWhile isspace s); l = map lower t
      in if take 8 l = ''infinity'' then (signed_inf sg, drop 8 t)
         else if take 3 l = ''inf'' then (signed_inf sg, drop 3 t)
         else if take 3 l = ''nan'' then (NaN, drop 3 t)
         else case read_decimal t of Some (x, r) \<Rightarrow> (Num (sg * x), r) | None \<Rightarrow> (Num 0, s))"

text \<open>\<open>setStringPartial\<close> on \<open>[b, end)\<close> with a null character at \<open>end\<close>: the weight and the returned pointer as
  the rest of the string, \<open>None\<close> for the null pointer.\<close>

definition setStringPartial :: "logweight \<Rightarrow> string \<Rightarrow> logweight \<times> string option" where
  "setStringPartial w b =
     (if 1 < length b \<and> b ! 0 = CHR ''e'' \<and> b ! 1 = CHR ''^''
      then (let (d, e) = strtod (drop 2 b) in (setLn d, Some e))
      else if 2 < length b \<and> b ! 0 = CHR ''1'' \<and> b ! 1 = CHR ''0'' \<and> b ! 2 = CHR ''^''
      then (let (d, e) = strtod (drop 3 b) in (setLog10 d, Some e))
      else (let (d, e) = strtod b
            in if e \<noteq> [] \<and> hd e = CHR ''l''
               then (if take 2 e = ''ln'' then (setLn d, Some (drop 2 e))
                     else if take 3 e = ''log'' then (setLog10 d, Some (drop 3 e))
                     else (w, None))
               else (setReal d, Some e)))"

definition setString :: "logweight \<Rightarrow> string \<Rightarrow> logweight \<times> bool" where
  "setString w str = (let (w', e) = setStringPartial w str in (w', e = Some []))"

text \<open>\<open>setString\<close> accepts a suffix or a prefix without any number, and the empty string.\<close>

lemma setString_without_number:
  "setString w ''log'' = (setOne, True)" "setString w ''ln'' = (setOne, True)" "setString w ''e^'' = (setOne, True)"
  "setString w [] = (setZero, True)" "snd (setString w ''lo'') = False"
  by (simp_all add: setString_def setStringPartial_def strtod_def Let_def isspace_def lower_def read_decimal_def
      digit_char_def setLog10_def setOne_def setLn_def setReal_def)

lemma setString_examples:
  "setString w ''e^-3'' = (LW (Num (- 3)), True)" "setString w ''2.5ln'' = (LW (Num (5 / 2)), True)"
  "setString w ''1'' = (setOne, True)" "setString w ''0'' = (setZero, True)" "snd (setString w ''abc'') = False"
  by (simp_all add: setString_def setStringPartial_def strtod_def Let_def isspace_def lower_def read_decimal_def
      digit_char_def setLog10_def setOne_def setLn_def setReal_def read_exponent_def decimal_value_def setZero_def)

section \<open>What a weight stands for\<close>

text \<open>The nonnegative real of a weight that is neither infinite nor NaN.\<close>

definition represents :: "logweight \<Rightarrow> real \<Rightarrow> bool" where
  "represents w p \<longleftrightarrow> (w = LW NegInf \<and> p = 0) \<or> (\<exists>x. w = LW (Num x) \<and> p = exp x)"

lemma represents_cases:
  assumes "represents w p"
  obtains (zero) "w = LW NegInf" "p = 0" | (pos) x where "w = LW (Num x)" "p = exp x" "0 < p"
  using assms unfolding represents_def by auto

lemma represents_Num: "represents (LW (Num x)) p \<longleftrightarrow> p = exp x"
  by (auto simp: represents_def)

lemma represents_NegInf [simp]: "represents (LW NegInf) p \<longleftrightarrow> p = 0"
  by (auto simp: represents_def)

lemma represents_ge_0: "represents w p \<Longrightarrow> 0 \<le> p"
  by (auto simp: represents_def)

lemma positive_simps [simp]:
  "isPositive (LW (Num x))" "\<not> isPositive (LW NegInf)" "\<not> isZero (LW (Num x))" "isZero (LW NegInf)"
  by (simp_all add: isPositive_def isZero_def)

lemma fl_sub_Num [simp]: "fl_sub (Num x) (Num y) = Num (x - y)"
  by (simp add: fl_sub_def)

lemma isZero_iff: "represents w p \<Longrightarrow> isZero w \<longleftrightarrow> p = 0"
  by (auto elim!: represents_cases)

lemma log1p_exp: "fl_log1p (Num (exp d)) = Num (ln (1 + exp d))"
proof -
  have "0 < 1 + exp d" by (simp add: add_pos_pos)
  then show ?thesis by (simp add: fl_log1p_def)
qed

lemma log1p_neg_exp: "d < 0 \<Longrightarrow> fl_log1p (Num (- exp d)) = Num (ln (1 - exp d))"
  by (simp add: fl_log1p_def)

lemma exp_add_log1p: "exp (x + ln (1 + exp (y - x))) = exp x + exp (y::real)"
proof -
  have "exp (ln (1 + exp (y - x))) = 1 + exp (y - x)" by (rule exp_ln) (simp add: add_pos_pos)
  then show ?thesis by (simp add: exp_add distrib_left) (simp flip: exp_add)
qed

lemma exp_add_log1m: "y < x \<Longrightarrow> exp (x + ln (1 - exp (y - x))) = exp x - exp (y::real)"
proof -
  assume "y < x"
  then have "exp (ln (1 - exp (y - x))) = 1 - exp (y - x)" by (intro exp_ln) simp
  then show ?thesis by (simp add: exp_add right_diff_distrib) (simp flip: exp_add)
qed

lemma much_bigger_pos: "0 < MUCH_BIGGER_LN single"
  by (simp add: MUCH_BIGGER_LN_def)

lemma lw_add_Num:
  "lw_add single (LW (Num x)) (LW (Num y)) = LW (Num
     (if x - y > MUCH_BIGGER_LN single then x else if y - x > MUCH_BIGGER_LN single then y
      else ln (exp x + exp y)))"
proof -
  have 1: "x + ln (1 + exp (y - x)) = ln (exp x + exp y)" by (metis exp_add_log1p ln_exp)
  have 2: "y + ln (1 + exp (x - y)) = ln (exp x + exp y)" by (metis exp_add_log1p ln_exp add.commute)
  show ?thesis using much_bigger_pos [of single]
    by (auto simp: lw_add_def Let_def log1p_exp 1 2)
qed

lemma lw_sub_Num:
  "lw_sub single (LW (Num x)) (LW (Num y)) =
     (if x \<le> y then LW NegInf else if x - y > MUCH_BIGGER_LN single then LW (Num x) else LW (Num (ln (exp x - exp y))))"
proof -
  have "x + ln (1 - exp (y - x)) = ln (exp x - exp y)" if "y < x" by (metis exp_add_log1m [OF that] ln_exp)
  then show ?thesis
    by (auto simp: lw_sub_def Let_def log1p_neg_exp fl_le_def fl_eq_def setZero_def)
qed

section \<open>Properties\<close>

text \<open>C34: weights stand for nonnegative reals: for weights that stand for \<open>p\<close> and \<open>q\<close>, the product stands for
  \<open>p q\<close>, the quotient by a positive \<open>q\<close> for \<open>p / q\<close>, the comparisons compare \<open>p\<close> and \<open>q\<close>, \<open>setReal\<close>
  clamps negative numbers to zero, \<open>getReal\<close> gives the number back, and powers and roots of positive weights are
  powers and roots.\<close>

theorem logweight_refines_reals:
  assumes "represents a p" "represents b q"
  shows "represents (lw_mult a b) (p * q) \<and> represents (lw_mult_assign a b) (p * q) \<and>
    (q = 0 \<or> represents (lw_div a b) (p / q) \<and> represents (lw_div_assign a b) (p / q)) \<and>
    (lw_less a b \<longleftrightarrow> p < q) \<and> (lw_eq a b \<longleftrightarrow> p = q) \<and> (lw_le a b \<longleftrightarrow> p \<le> q) \<and>
    represents (setReal (Num r)) (max 0 r) \<and> getReal a = Num p \<and> (isZero a \<longleftrightarrow> p = 0) \<and> (isOne a \<longleftrightarrow> p = 1) \<and>
    represents (lw_pow a (Num n)) (p powr n) \<and> (n = 0 \<or> represents (lw_root a (Num n)) (p powr (1 / n)))"
proof -
  have "represents (setReal (Num r)) (max 0 r)"
    by (auto simp: setReal_def represents_Num setZero_def max_def)
  moreover have "represents (lw_pow a (Num n)) (p powr n)"
    using assms(1) by (rule represents_cases) (auto simp: lw_pow_def represents_Num powr_def mult.commute)
  moreover have "n = 0 \<or> represents (lw_root a (Num n)) (p powr (1 / n))"
    using assms(1) by (rule represents_cases) (auto simp: lw_root_def represents_Num powr_def)
  moreover have "represents (lw_mult a b) (p * q)" "represents (lw_mult_assign a b) (p * q)"
    using assms by (auto elim!: represents_cases simp: lw_mult_def lw_mult_assign_def represents_Num exp_add)
  moreover have "q = 0 \<or> represents (lw_div a b) (p / q) \<and> represents (lw_div_assign a b) (p / q)"
    using assms by (auto elim!: represents_cases simp: lw_div_def lw_div_assign_def represents_Num exp_diff fl_sub_def)
  moreover have "lw_less a b \<longleftrightarrow> p < q" "lw_eq a b \<longleftrightarrow> p = q" "lw_le a b \<longleftrightarrow> p \<le> q"
    using assms by (auto elim!: represents_cases simp: lw_less_def lw_eq_def lw_le_def fl_eq_def fl_le_def)
  moreover have "getReal a = Num p" "isZero a \<longleftrightarrow> p = 0" "isOne a \<longleftrightarrow> p = 1"
    using assms(1) by (auto elim!: represents_cases simp: getReal_def isOne_def fl_eq_def)
  ultimately show ?thesis by blast
qed

theorem logweight_refines_reals_witness:
  "represents (lw_mult (LW (Num 0)) (LW NegInf)) 0 \<and> represents (lw_pow (LW (Num 0)) (Num 3)) 1"
  using logweight_refines_reals [of "LW (Num 0)" 1 "LW NegInf" 0 0 3] by (simp add: represents_Num)

text \<open>C35: sums and differences of weights that stand for \<open>p\<close> and \<open>q\<close>: the sum is never too large and exact
  unless one of them is more than \<open>exp MUCH_BIGGER_LN\<close> times the other, when it loses less than one part in
  \<open>exp MUCH_BIGGER_LN\<close>; the difference is clamped at zero, exact under the same condition, and otherwise too
  large by at most \<open>p\<close> over \<open>exp MUCH_BIGGER_LN\<close>.\<close>

theorem logweight_add_sub_bounds:
  assumes "represents a p" "represents b q"
  shows "(\<exists>r. represents (lw_add single a b) r \<and> r \<le> p + q \<and> p + q \<le> r * (1 + exp (- MUCH_BIGGER_LN single)) \<and>
      (p \<le> q * exp (MUCH_BIGGER_LN single) \<and> q \<le> p * exp (MUCH_BIGGER_LN single) \<longrightarrow> r = p + q)) \<and>
    (\<exists>r. represents (lw_sub single a b) r \<and> max 0 (p - q) \<le> r \<and>
      r \<le> max 0 (p - q) + p * exp (- MUCH_BIGGER_LN single) \<and>
      (p \<le> q * exp (MUCH_BIGGER_LN single) \<longrightarrow> r = max 0 (p - q)))"
proof -
  let ?M = "MUCH_BIGGER_LN single"
  have grow: "r \<le> r * (1 + exp (- ?M))" if "0 \<le> r" for r :: real using that by (simp add: distrib_left)
  have far: "exp v \<le> exp u * exp (- ?M) \<and> \<not> exp u \<le> exp v * exp ?M" if "u - v > ?M" for u v :: real
    using that by (simp flip: exp_add)
  from assms(1) show ?thesis
  proof (cases rule: represents_cases)
    case zero
    have "0 \<le> q" using assms(2) by (rule represents_ge_0)
    then have "lw_add single a b = b" "represents (lw_sub single a b) 0"
      using assms(2) zero
      by (auto elim!: represents_cases simp: lw_add_def lw_sub_def fl_sub_def fl_le_def setZero_def)
    then show ?thesis using assms(2) zero grow [OF \<open>0 \<le> q\<close>] \<open>0 \<le> q\<close> by (intro conjI exI [of _ q] exI [of _ 0]) auto
  next
    case p: (pos x)
    from assms(2) show ?thesis
    proof (cases rule: represents_cases)
      case zero
      then have "lw_add single a b = a" "lw_sub single a b = a" using p by (simp_all add: lw_add_def lw_sub_def)
      then show ?thesis using assms(1) zero p(3) grow [of p] by (intro conjI exI [of _ p]) auto
    next
      case q: (pos y)
      have "\<exists>r. represents (lw_add single a b) r \<and> r \<le> p + q \<and> p + q \<le> r * (1 + exp (- ?M)) \<and>
          (p \<le> q * exp ?M \<and> q \<le> p * exp ?M \<longrightarrow> r = p + q)"
      proof (cases "x - y > ?M")
        case True
        then show ?thesis using p q far [OF True]
          by (intro exI [of _ p]) (simp add: lw_add_Num represents_Num distrib_left)
      next
        case F: False
        show ?thesis
        proof (cases "y - x > ?M")
          case True
          then show ?thesis using p q F far [OF True]
            by (intro exI [of _ q]) (simp add: lw_add_Num represents_Num distrib_left)
        next
          case False
          then show ?thesis using p q F grow [of "p + q"]
            by (intro exI [of _ "p + q"]) (simp add: lw_add_Num represents_Num add_pos_pos)
        qed
      qed
      moreover have "\<exists>r. represents (lw_sub single a b) r \<and> max 0 (p - q) \<le> r \<and>
          r \<le> max 0 (p - q) + p * exp (- ?M) \<and> (p \<le> q * exp ?M \<longrightarrow> r = max 0 (p - q))"
      proof (cases "x \<le> y")
        case True
        then show ?thesis using p q by (intro exI [of _ 0]) (simp add: lw_sub_Num)
      next
        case F: False
        show ?thesis
        proof (cases "x - y > ?M")
          case True
          then show ?thesis using p q F far [OF True]
            by (intro exI [of _ p]) (simp add: lw_sub_Num represents_Num)
        next
          case False
          then show ?thesis using p q F
            by (intro exI [of _ "p - q"]) (simp add: lw_sub_Num represents_Num)
        qed
      qed
      ultimately show ?thesis by blast
    qed
  qed
qed

theorem logweight_add_sub_bounds_witness:
  "\<exists>r. represents (lw_add False (LW (Num 0)) (LW (Num 0))) r \<and> r = 2"
proof -
  have "1 \<le> exp (MUCH_BIGGER_LN False)" using much_bigger_pos [of False] by simp
  then show ?thesis using logweight_add_sub_bounds [of "LW (Num 0)" 1 "LW (Num 0)" 1 False] by (auto simp: represents_Num)
qed

end
