(* ===== verification/Derivations.thy ===== *)
theory Derivations
  imports WfstOps
begin

text \<open>
  The derivations of one training pair: \<open>carmel/source/derivations.h\<close> (built with \<open>DERIVPRUNE\<close>).  A derivation
  state is an input position, a transducer state and an output position; \<open>derive\<close> explores them depth first and
  builds a graph whose arcs carry the number of a transducer arc, its position in the order of \<open>visit_arcs\<close>
  (\<open>all_arcs\<close>).  \<open>arcs_table\<close> points to the arcs of the transducer: the model passes the list of the arcs and
  keeps the counts in a list beside it.  The order and the reversed graph are recomputed where \<open>cache_backward\<close>
  would have stored them.  The recursion of \<open>derive\<close> has fuel: one more than the number of derivation states.
\<close>

section \<open>Derivation states\<close>

type_synonym deriv_state = "nat \<times> nat \<times> nat"

definition hash3 :: "32 word \<Rightarrow> 32 word \<Rightarrow> 32 word \<Rightarrow> 32 word" where
  "hash3 a b c =
     (let a = a - b; a = a - c; a = a XOR drop_bit 13 c;
          b = b - c; b = b - a; b = b XOR push_bit 8 a;
          c = c - a; c = c - b; c = c XOR drop_bit 13 b;
          a = a - b; a = a - c; a = a XOR drop_bit 12 c;
          b = b - c; b = b - a; b = b XOR push_bit 16 a;
          c = c - a; c = c - b; c = c XOR drop_bit 5 b;
          a = a - b; a = a - c; a = a XOR drop_bit 3 c;
          b = b - c; b = b - a; b = b XOR push_bit 10 a;
          c = c - a; c = c - b; c = c XOR drop_bit 15 b
      in c)"

definition deriv_hash :: "deriv_state \<Rightarrow> nat" where
  "deriv_hash d = (case d of (i, s, q) \<Rightarrow> unat (hash3 (of_nat i) (of_nat s) (of_nat q)))"

section \<open>The index of the arcs\<close>

text \<open>\<open>wfst_io_index\<close>: for every state a table from its labels to the numbers of the arcs that carry them.\<close>

definition io_index_arc ::
  "nat \<Rightarrow> 'w FSTArc \<Rightarrow> (nat \<times> nat, nat list) HashTable list \<times> nat
    \<Rightarrow> (nat \<times> nat, nat list) HashTable list \<times> nat" where
  "io_index_arc s a st =
     (case st of (tb, i) \<Rightarrow>
        (tb[s := ht_update iopair_hash [] (arc_in a, arc_out a) (\<lambda>l. l @ [i]) (tb ! s)], i + 1))"

definition wfst_io_index :: "'w WFST \<Rightarrow> (nat \<times> nat, nat list) HashTable list" where
  "wfst_io_index M =
     fst (fold (\<lambda>s. fold (io_index_arc s) (arcs (states M ! s))) [0..<numStates M]
            (replicate (numStates M) (ht_new DEFAULTHASHSIZE), 0))"

section \<open>Building the derivations\<close>

record 'w derivations =
  d_in :: "nat list"
  d_out :: "nat list"
  d_weight :: 'w
  id_of_state :: "(deriv_state, nat) HashTable"
  d_graph :: "('w, nat) Graph"
  d_remove :: "bool list"
  d_goal :: deriv_state
  d_fin :: nat
  no_goal :: bool

definition derivations_init :: "nat list \<Rightarrow> nat list \<Rightarrow> 'w \<Rightarrow> 'w derivations \<Rightarrow> 'w derivations" where
  "derivations_init xs ys w D =
     D\<lparr>d_in := xs, d_out := ys, d_weight := w, id_of_state := ht_clear (id_of_state D), d_graph := []\<rparr>"

definition add_deriv_arc :: "('w FSTArc) list \<Rightarrow> nat \<Rightarrow> nat \<Rightarrow> nat \<Rightarrow> 'w derivations \<Rightarrow> 'w derivations" where
  "add_deriv_arc atab source dst n D =
     D\<lparr>d_graph := (d_graph D)[source := \<lparr>src = source, dest = dst, weight = arc_weight (atab ! n), data = Data n\<rparr>
                                        # d_graph D ! source]\<rparr>"

definition add_arcs ::
  "(deriv_state \<Rightarrow> 'w derivations \<Rightarrow> nat \<times> 'w derivations) \<Rightarrow> 'w FSTArc list \<Rightarrow> nat \<Rightarrow> nat \<Rightarrow> nat \<Rightarrow> nat
    \<Rightarrow> (nat \<times> nat, nat list) HashTable \<Rightarrow> nat \<Rightarrow> 'w derivations \<Rightarrow> 'w derivations \<times> bool" where
  "add_arcs rec atab s_in s_out i_in i_out fs source D =
     (case find_second iopair_hash fs (s_in, s_out) of
        None \<Rightarrow> (D, False)
      | Some match \<Rightarrow>
          fold (\<lambda>n (D, reachgoal).
                  let (dst, D) = rec (i_in, arc_dest (atab ! n), i_out) D
                  in if \<not> d_remove D ! dst then (add_deriv_arc atab source dst n D, True) else (D, reachgoal))
            match (D, False))"

text \<open>The part of \<open>derive\<close> after a new state has been entered: \<open>rec\<close> is the recursive call, \<open>source\<close> the number
  of the new state.\<close>

definition derive_from ::
  "(deriv_state \<Rightarrow> 'w derivations \<Rightarrow> nat \<times> 'w derivations) \<Rightarrow> (nat \<times> nat, nat list) HashTable list \<Rightarrow> 'w FSTArc list
    \<Rightarrow> deriv_state \<Rightarrow> nat \<Rightarrow> 'w derivations \<Rightarrow> 'w derivations" where
  "derive_from rec io atab d source D =
     (case d of (i, s, q) \<Rightarrow>
       (let fs = io ! s; dead = (d \<noteq> d_goal D);
            (D, r) = add_arcs rec atab epsilon_index epsilon_index i q fs source D;
            dead = (dead \<and> \<not> r);
            useO = (q < length (d_out D)); useI = (i < length (d_in D));
            (D, dead) =
              (if useO
               then (let (D, r) = add_arcs rec atab epsilon_index (d_out D ! q) i (q + 1) fs source D in (D, dead \<and> \<not> r))
               else (D, dead));
            (D, dead) =
              (if useI
               then (let si = d_in D ! i; (D, r) = add_arcs rec atab si epsilon_index (i + 1) q fs source D;
                         dead = (dead \<and> \<not> r)
                     in if useO
                        then (let (D, r) = add_arcs rec atab si (d_out D ! q) (i + 1) (q + 1) fs source D
                              in (D, dead \<and> \<not> r))
                        else (D, dead))
               else (D, dead))
        in D\<lparr>d_remove := (d_remove D)[source := dead]\<rparr>))"

primrec derive ::
  "nat \<Rightarrow> (nat \<times> nat, nat list) HashTable list \<Rightarrow> 'w FSTArc list \<Rightarrow> deriv_state \<Rightarrow> 'w derivations
    \<Rightarrow> nat \<times> 'w derivations" where
  "derive 0 io atab d D = (0, D)"
| "derive (Suc fuel) io atab d D =
     (let source = length (d_graph D); (ids, v, inserted) = ht_insert deriv_hash d source (id_of_state D)
      in if \<not> inserted then (v, D\<lparr>id_of_state := ids\<rparr>)
         else (source, derive_from (derive fuel io atab) io atab d source
                      (D\<lparr>id_of_state := ids, d_graph := d_graph D @ [[]], d_remove := d_remove D @ [False]\<rparr>)))"

definition derivations_prune :: "'w derivations \<Rightarrow> 'w derivations" where
  "derivations_prune D =
     (if no_goal D then D
      else (let ttable = indices_after_removing (d_remove D);
                (g, new_size) = shuffle_removing (rewrite_GraphState ttable) (\<lambda>s. []) ttable (d_graph D)
            in D\<lparr>d_remove := [], d_fin := ia_map ttable ! d_fin D, d_graph := take new_size g\<rparr>))"

definition derive_fuel :: "'w WFST \<Rightarrow> 'w derivations \<Rightarrow> nat" where
  "derive_fuel M D = Suc (Suc (length (d_in D)) * numStates M * Suc (length (d_out D)))"

definition derivations_compute ::
  "'w WFST \<Rightarrow> (nat \<times> nat, nat list) HashTable list \<Rightarrow> 'w FSTArc list \<Rightarrow> bool \<Rightarrow> bool \<Rightarrow> 'w derivations
    \<Rightarrow> bool \<times> 'w derivations" where
  "derivations_compute M io atab drop_names prune D =
     (let D = D\<lparr>d_remove := [], d_goal := (length (d_in D), final M, length (d_out D))\<rparr>;
          (start, D) = derive (derive_fuel M D) io atab (0, 0, 0) D;
          pfin = find_second deriv_hash (id_of_state D) (d_goal D);
          D = (case pfin of Some f \<Rightarrow> D\<lparr>d_fin := f\<rparr> | None \<Rightarrow> D);
          D = D\<lparr>no_goal := (pfin = None)\<rparr>;
          D = (if prune then derivations_prune D else D);
          D = (if drop_names then D\<lparr>id_of_state := ht_clear (id_of_state D)\<rparr> else D)
      in if no_goal D then (False, D\<lparr>d_graph := []\<rparr>) else (True, D))"

section \<open>Forward and backward sums\<close>

definition weight_for :: "'w FSTArc list \<Rightarrow> ('w, nat) GraphArc \<Rightarrow> 'w" where
  "weight_for atab a = (case data a of Data n \<Rightarrow> arc_weight (atab ! n) | Forward_arc i p \<Rightarrow> undefined)"

definition arc_id :: "('w, nat) GraphArc \<Rightarrow> nat" where
  "arc_id a = (case data a of Data n \<Rightarrow> n | Forward_arc i p \<Rightarrow> undefined)"

definition make_order :: "'w derivations \<Rightarrow> nat list" where
  "make_order D = reverse_topo_order_from (d_graph D) 0"

definition compute_fb ::
  "'w::comm_semiring_1 FSTArc list \<Rightarrow> 'w derivations \<Rightarrow> 'w \<times> 'w list \<times> 'w list" where
  "compute_fb atab D =
     (let nst = length (d_graph D); reverse_order = make_order D;
          f = propagate_paths_in_order (d_graph D) (rev reverse_order) (weight_for atab) ((replicate nst 0)[0 := 1]);
          b = propagate_paths_in_order (reverseGraph (d_graph D) False) reverse_order (weight_for atab)
                ((replicate nst 0)[d_fin D := 1])
      in (f ! d_fin D, f, b))"

definition deriv_prob :: "'w::comm_semiring_1 FSTArc list \<Rightarrow> 'w derivations \<Rightarrow> 'w" where
  "deriv_prob atab D =
     propagate_paths_in_order (d_graph D) (rev (make_order D)) (weight_for atab)
       ((replicate (length (d_graph D)) 0)[0 := 1]) ! d_fin D"

text \<open>\<open>collect_counts\<close>: \<open>counts ! n\<close> is the member \<open>counts\<close> of the table's entry.  Where \<open>prob\<close> is zero the
  division gives zero, so nothing is added; in the code's log weights it gives NaN, which \<open>+=\<close> takes for a zero
  and does not add either (\<open>isZero\<close> in \<open>LogWeight\<close>).\<close>

definition collect_counts ::
  "'w::field FSTArc list \<Rightarrow> 'w derivations \<Rightarrow> 'w list \<Rightarrow> 'w \<times> 'w list" where
  "collect_counts atab D counts =
     (let (prob, f, b) = compute_fb atab D
      in (prob,
          fold (\<lambda>s. fold (\<lambda>a counts.
                  let arc_contrib = weight_for atab a * f ! src a * b ! dest a
                  in counts[arc_id a := counts ! arc_id a + arc_contrib * d_weight D / prob])
                (d_graph D ! s))
            [0..<length (d_graph D)] counts))"

text \<open>\<open>WFST::sumOfAllPaths\<close> of \<open>train.cc\<close>.\<close>

definition derivations_new :: "'w::zero derivations" where
  "derivations_new = \<lparr>d_in = [], d_out = [], d_weight = 0, id_of_state = ht_new DEFAULTHASHSIZE, d_graph = [],
     d_remove = [], d_goal = (0, 0, 0), d_fin = 0, no_goal = True\<rparr>"

definition sumOfAllPaths :: "'w::field WFST \<Rightarrow> nat list \<Rightarrow> nat list \<Rightarrow> 'w" where
  "sumOfAllPaths M inSeq outSeq =
     (let (ok, D) = derivations_compute M (wfst_io_index M) (all_arcs M) True True
                      (derivations_init inSeq outSeq 1 derivations_new)
      in if ok then deriv_prob (all_arcs M) D else 0)"

section \<open>The index finds the arcs\<close>

definition arc_offset :: "'w WFST \<Rightarrow> nat \<Rightarrow> nat" where
  "arc_offset M s = length (concat (map arcs (take s (states M))))"

definition arc_ids :: "'w WFST \<Rightarrow> nat \<Rightarrow> nat list" where
  "arc_ids M s = [arc_offset M s..<arc_offset M (Suc s)]"

lemma arc_offset_simps:
  "arc_offset M 0 = 0"
  "s < numStates M \<Longrightarrow> arc_offset M (Suc s) = arc_offset M s + length (arcs (states M ! s))"
  by (simp_all add: arc_offset_def take_Suc_conv_app_nth)

lemma arc_ids_enumerate:
  assumes "s < numStates M"
  shows "enumerate (arc_offset M s) (arcs (states M ! s)) = map (\<lambda>n. (n, all_arcs M ! n)) (arc_ids M s)"
proof -
  have "all_arcs M = concat (map arcs (take s (states M))) @ arcs (states M ! s) @ concat (map arcs (drop (Suc s) (states M)))"
    using assms unfolding all_arcs_def by (subst id_take_nth_drop [OF assms]) simp
  then have nth: "all_arcs M ! (arc_offset M s + j) = arcs (states M ! s) ! j" if "j < length (arcs (states M ! s))" for j
    using that by (simp add: arc_offset_def nth_append)
  show ?thesis
    by (rule nth_equalityI)
       (simp_all add: arc_ids_def arc_offset_simps(2) [OF assms] nth_enumerate_eq nth del: upt_Suc)
qed

lemma arc_ids_arcs:
  assumes "s < numStates M"
  shows "map ((!) (all_arcs M)) (arc_ids M s) = arcs (states M ! s)"
  using arg_cong [OF arc_ids_enumerate [OF assms], of "map snd"] by (simp add: comp_def)

lemma arc_ids_in: "s < numStates M \<Longrightarrow> n \<in> set (arc_ids M s) \<Longrightarrow> all_arcs M ! n \<in> set (arcs (states M ! s))"
  using arc_ids_arcs by (metis image_eqI list.set_map)

definition looked_up :: "(nat \<times> nat, nat list) HashTable \<Rightarrow> nat \<Rightarrow> nat \<Rightarrow> nat list" where
  "looked_up t x y = (case find_second iopair_hash t (x, y) of None \<Rightarrow> [] | Some l \<Rightarrow> l)"

lemma fold_io_index_arc:
  assumes "s < length tb" "ht_inv iopair_hash (tb ! s)" "fold (io_index_arc s) as (tb, i) = (tb', i')"
  shows "i' = i + length as \<and> length tb' = length tb \<and> (\<forall>t. t \<noteq> s \<longrightarrow> tb' ! t = tb ! t) \<and> ht_inv iopair_hash (tb' ! s) \<and>
    (\<forall>x y. looked_up (tb' ! s) x y =
       looked_up (tb ! s) x y @ map fst (filter (\<lambda>(n, a). arc_in a = x \<and> arc_out a = y) (enumerate i as)))"
  using assms
proof (induction as arbitrary: tb i)
  case (Cons a as)
  let ?t = "ht_update iopair_hash [] (arc_in a, arc_out a) (\<lambda>l. l @ [i]) (tb ! s)"
  have "io_index_arc s a (tb, i) = (tb[s := ?t], i + 1)" by (simp add: io_index_arc_def)
  then have f: "fold (io_index_arc s) as (tb[s := ?t], i + 1) = (tb', i')" using Cons.prems(3) by simp
  note up = ht_update_props [OF Cons.prems(2), of "[]" "(arc_in a, arc_out a)" "\<lambda>l. l @ [i]"]
  have l: "looked_up ?t x y = looked_up (tb ! s) x y @ (if arc_in a = x \<and> arc_out a = y then [i] else [])" for x y
    by (auto simp: looked_up_def up(2) split: option.split)
  from Cons.IH [OF _ _ f] Cons.prems(1) up(1) show ?case by (simp add: l)
qed simp

lemma wfst_io_index_spec:
  assumes s: "s < numStates M"
  shows "looked_up (wfst_io_index M ! s) x y =
    filter (\<lambda>n. arc_in (all_arcs M ! n) = x \<and> arc_out (all_arcs M ! n) = y) (arc_ids M s)"
proof -
  let ?start = "(replicate (numStates M) (ht_new DEFAULTHASHSIZE), 0)"
  let ?F = "\<lambda>k. fold (\<lambda>s. fold (io_index_arc s) (arcs (states M ! s))) [0..<k] ?start"
  let ?found = "\<lambda>s x y. map fst (filter (\<lambda>(n, a). arc_in a = x \<and> arc_out a = y)
      (enumerate (arc_offset M s) (arcs (states M ! s))))"
  have "snd (?F k) = arc_offset M k \<and> length (fst (?F k)) = numStates M \<and>
      (\<forall>t < numStates M. ht_inv iopair_hash (fst (?F k) ! t) \<and>
         (\<forall>x y. looked_up (fst (?F k) ! t) x y = (if t < k then ?found t x y else [])))" if "k \<le> numStates M" for k
    using that
  proof (induction k)
    case 0
    then show ?case by (simp add: arc_offset_simps looked_up_def)
  next
    case (Suc k)
    obtain tb i where F: "?F k = (tb, i)" by fastforce
    obtain tb' i' where f: "fold (io_index_arc k) (arcs (states M ! k)) (tb, i) = (tb', i')" by fastforce
    have F': "?F (Suc k) = (tb', i')" using F f by simp
    have IH: "i = arc_offset M k" "length tb = numStates M"
      "\<And>t. t < numStates M \<Longrightarrow> ht_inv iopair_hash (tb ! t)"
      "\<And>t x y. t < numStates M \<Longrightarrow> looked_up (tb ! t) x y = (if t < k then ?found t x y else [])"
      using Suc.IH Suc.prems unfolding F by auto
    have k: "k < numStates M" using Suc.prems by simp
    note st = fold_io_index_arc [OF _ IH(3) [OF k] f, unfolded IH(2), OF k]
    show ?case
    proof (intro conjI allI impI)
      show "snd (?F (Suc k)) = arc_offset M (Suc k)" unfolding F' using st IH(1) by (simp add: arc_offset_simps(2) [OF k])
      show "length (fst (?F (Suc k))) = numStates M" unfolding F' using st by simp
      fix t assume t: "t < numStates M"
      show "ht_inv iopair_hash (fst (?F (Suc k)) ! t)" unfolding F' using st IH(3) [OF t] by (cases "t = k") simp_all
      fix x y
      show "looked_up (fst (?F (Suc k)) ! t) x y = (if t < Suc k then ?found t x y else [])"
        unfolding F' using st IH(1) IH(4) [OF t] by (cases "t = k") (auto simp: less_Suc_eq)
    qed
  qed
  from this [OF order_refl] have "looked_up (wfst_io_index M ! s) x y = ?found s x y"
    using s by (simp add: wfst_io_index_def)
  then show ?thesis by (simp add: arc_ids_enumerate [OF s] filter_map comp_def)
qed


section \<open>The exploration as a fold over the moves\<close>

definition deriv_match :: "'w WFST \<Rightarrow> nat \<Rightarrow> nat \<Rightarrow> nat \<Rightarrow> nat list" where
  "deriv_match M s x y = filter (\<lambda>n. arc_in (all_arcs M ! n) = x \<and> arc_out (all_arcs M ! n) = y) (arc_ids M s)"

definition deriv_moves :: "'w WFST \<Rightarrow> nat list \<Rightarrow> nat list \<Rightarrow> deriv_state \<Rightarrow> (nat \<times> deriv_state) list" where
  "deriv_moves M xs ys d =
     (case d of (i, s, q) \<Rightarrow>
        (let go = (\<lambda>i' q'. map (\<lambda>n. (n, (i', arc_dest (all_arcs M ! n), q'))))
         in go i q (deriv_match M s 0 0) @
            (if q < length ys then go i (q + 1) (deriv_match M s 0 (ys ! q)) else []) @
            (if i < length xs
             then go (i + 1) q (deriv_match M s (xs ! i) 0) @
                  (if q < length ys then go (i + 1) (q + 1) (deriv_match M s (xs ! i) (ys ! q)) else [])
             else [])))"

definition deriv_step ::
  "(deriv_state \<Rightarrow> 'w derivations \<Rightarrow> nat \<times> 'w derivations) \<Rightarrow> 'w FSTArc list \<Rightarrow> nat \<Rightarrow> nat \<times> deriv_state
    \<Rightarrow> 'w derivations \<times> bool \<Rightarrow> 'w derivations \<times> bool" where
  "deriv_step rec atab source m Dr =
     (let (dst, D) = rec (snd m) (fst Dr)
      in if \<not> d_remove D ! dst then (add_deriv_arc atab source dst (fst m) D, True) else (D, snd Dr))"

lemma add_arcs_fold:
  "add_arcs rec atab x y i' q' fs source D =
     fold (deriv_step rec atab source) (map (\<lambda>n. (n, (i', arc_dest (atab ! n), q'))) (looked_up fs x y)) (D, False)"
proof -
  have "fold (\<lambda>n (D, reachgoal). let (dst, D) = rec (i', arc_dest (atab ! n), q') D
          in if \<not> d_remove D ! dst then (add_deriv_arc atab source dst n D, True) else (D, reachgoal)) ns Dr =
      fold (deriv_step rec atab source) (map (\<lambda>n. (n, (i', arc_dest (atab ! n), q'))) ns) Dr" for ns Dr
    by (induction ns arbitrary: Dr) (auto simp: deriv_step_def split: prod.split)
  then show ?thesis by (simp add: add_arcs_def looked_up_def split: option.split)
qed

lemma deriv_fold_flag:
  "fold (deriv_step rec atab source) ms (D, r) =
     (let (D', r') = fold (deriv_step rec atab source) ms (D, False) in (D', r \<or> r'))"
proof (induction ms arbitrary: D r)
  case (Cons m ms)
  obtain dst D' where e: "rec (snd m) D = (dst, D')" by fastforce
  show ?case
  proof (cases "d_remove D' ! dst")
    case True
    then show ?thesis using Cons.IH [of D' r] by (simp add: deriv_step_def e)
  next
    case False
    then have "deriv_step rec atab source m (D, r') = (add_deriv_arc atab source dst (fst m) D', True)" for r'
      by (simp add: deriv_step_def e)
    then show ?thesis using Cons.IH [of "add_deriv_arc atab source dst (fst m) D'" True] by (simp split: prod.split)
  qed
qed simp

text \<open>What \<open>derive\<close> never writes.\<close>

definition same_pair :: "'w derivations \<Rightarrow> 'w derivations \<Rightarrow> bool" where
  "same_pair D D' \<longleftrightarrow> d_in D' = d_in D \<and> d_out D' = d_out D \<and> d_goal D' = d_goal D \<and> d_weight D' = d_weight D"

lemma deriv_fold_same:
  assumes "\<And>d D. same_pair D (snd (rec d D))"
  shows "same_pair D (fst (fold (deriv_step rec atab source) ms (D, r)))"
proof (induction ms arbitrary: D r)
  case Nil
  then show ?case by (simp add: same_pair_def)
next
  case (Cons m ms)
  obtain D' r' where e: "deriv_step rec atab source m (D, r) = (D', r')" by fastforce
  have "same_pair D D'"
    using assms [of D "snd m"] e by (auto simp: deriv_step_def same_pair_def add_deriv_arc_def Let_def split: prod.splits if_splits)
  then show ?case using Cons.IH [of D' r'] by (simp add: e same_pair_def)
qed

lemma same_pairD:
  assumes "same_pair D D'"
  shows "d_in D' = d_in D" "d_out D' = d_out D" "d_goal D' = d_goal D" "d_weight D' = d_weight D"
  using assms by (simp_all add: same_pair_def)

lemma derive_from_fold:
  assumes rec: "\<And>d D. same_pair D (snd (rec d D))" and s: "s < numStates M" and D: "d_in D = xs" "d_out D = ys"
  shows "derive_from rec (wfst_io_index M) (all_arcs M) (i, s, q) source D =
    (let (D', r) = fold (deriv_step rec (all_arcs M) source) (deriv_moves M xs ys (i, s, q)) (D, False)
     in D'\<lparr>d_remove := (d_remove D')[source := (i, s, q) \<noteq> d_goal D \<and> \<not> r]\<rparr>)"
proof -
  let ?step = "deriv_step rec (all_arcs M) source"
  let ?go = "\<lambda>i' q'. map (\<lambda>n. (n, (i', arc_dest (all_arcs M ! n), q')))"
  have add: "add_arcs rec (all_arcs M) x y i' q' (wfst_io_index M ! s) source E =
      fold ?step (?go i' q' (deriv_match M s x y)) (E, False)" for x y i' q' E
    by (simp add: add_arcs_fold wfst_io_index_spec [OF s] deriv_match_def)
  have same: "same_pair E E'" if "fold ?step ms (E, r) = (E', r')" for ms E r E' r'
    using deriv_fold_same [where rec = rec and D = E and atab = "all_arcs M" and source = source and ms = ms and r = r, OF rec] unfolding that by simp
  have flag: "fold ?step ms (E, r) = (E', r \<or> r')" if "fold ?step ms (E, False) = (E', r')" for ms E r E' r'
    by (subst deriv_fold_flag) (simp add: that)
  obtain D1 r1 where 1: "fold ?step (?go i q (deriv_match M s 0 0)) (D, False) = (D1, r1)" by fastforce
  obtain D2 r2 where 2: "fold ?step (if q < length ys then ?go i (q + 1) (deriv_match M s 0 (ys ! q)) else []) (D1, False) =
      (D2, r2)" by fastforce
  obtain D3 r3 where 3: "fold ?step (if i < length xs then ?go (i + 1) q (deriv_match M s (xs ! i) 0) else []) (D2, False) =
      (D3, r3)" by fastforce
  obtain D4 r4 where 4: "fold ?step (if i < length xs \<and> q < length ys
      then ?go (i + 1) (q + 1) (deriv_match M s (xs ! i) (ys ! q)) else []) (D3, False) = (D4, r4)" by fastforce
  have f1: "d_in D1 = xs" "d_out D1 = ys" using same_pairD [OF same [OF 1]] D by simp_all
  have f2: "d_in D2 = xs" "d_out D2 = ys" using same_pairD [OF same [OF 2]] f1 by simp_all
  have f3: "d_in D3 = xs" "d_out D3 = ys" using same_pairD [OF same [OF 3]] f2 by simp_all
  have "deriv_moves M xs ys (i, s, q) =
      ?go i q (deriv_match M s 0 0) @ (if q < length ys then ?go i (q + 1) (deriv_match M s 0 (ys ! q)) else []) @
      (if i < length xs then ?go (i + 1) q (deriv_match M s (xs ! i) 0) else []) @
      (if i < length xs \<and> q < length ys then ?go (i + 1) (q + 1) (deriv_match M s (xs ! i) (ys ! q)) else [])"
    by (simp add: deriv_moves_def Let_def)
  then have R: "fold ?step (deriv_moves M xs ys (i, s, q)) (D, False) = (D4, ((r1 \<or> r2) \<or> r3) \<or> r4)"
    by (simp only: fold_append comp_apply 1 flag [OF 2] flag [OF 3] flag [OF 4])
  have 2: "(if q < length ys then (case fold ?step (?go i (q + 1) (deriv_match M s 0 (ys ! q))) (D1, False) of
      (E, r) \<Rightarrow> (E, dead \<and> \<not> r)) else (D1, dead)) = (D2, dead \<and> \<not> r2)" for dead
    using 2 by (cases "q < length ys") auto
  have 34: "(if i < length xs then
      (case fold ?step (?go (i + 1) q (deriv_match M s (xs ! i) 0)) (D2, False) of (E, r) \<Rightarrow>
        (if q < length ys then
           (case fold ?step (?go (i + 1) (q + 1) (deriv_match M s (xs ! i) (d_out E ! q))) (E, False) of (E, r') \<Rightarrow>
             (E, (dead \<and> \<not> r) \<and> \<not> r'))
         else (E, dead \<and> \<not> r))) else (D2, dead)) = (D4, (dead \<and> \<not> r3) \<and> \<not> r4)" for dead
    using 3 4 f3 by (cases "i < length xs"; cases "q < length ys") auto
  have "derive_from rec (wfst_io_index M) (all_arcs M) (i, s, q) source D =
      D4\<lparr>d_remove := (d_remove D4)[source := (((((i, s, q) \<noteq> d_goal D \<and> \<not> r1) \<and> \<not> r2) \<and> \<not> r3) \<and> \<not> r4)]\<rparr>"
    by (simp only: derive_from_def epsilon_index_def add Let_def prod.case 1 f1 2 f2 34)
  then show ?thesis unfolding R by simp
qed

lemma derive_from_same:
  assumes rec: "\<And>d D. same_pair D (snd (rec d D))"
  shows "same_pair D (derive_from rec io atab d source D)"
proof -
  have a: "same_pair E E'" if "add_arcs rec atab x y i q fs source E = (E', r)" for E x y i q fs E' r
    using deriv_fold_same [where rec = rec and D = E and atab = atab and source = source and
      ms = "map (\<lambda>n. (n, (i, arc_dest (atab ! n), q))) (looked_up fs x y)" and r = False, OF rec]
    unfolding that [unfolded add_arcs_fold] by simp
  obtain i s q where d: "d = (i, s, q)" by (cases d)
  obtain D1 r1 where 1: "add_arcs rec atab epsilon_index epsilon_index i q (io ! s) source D = (D1, r1)" by fastforce
  obtain D2 r2 where 2: "add_arcs rec atab epsilon_index (d_out D1 ! q) i (q + 1) (io ! s) source D1 = (D2, r2)" by fastforce
  obtain D3 r3 where 3: "add_arcs rec atab (d_in D1 ! i) epsilon_index (i + 1) q (io ! s) source D1 = (D3, r3)" by fastforce
  obtain D4 r4 where 4: "add_arcs rec atab (d_in D2 ! i) epsilon_index (i + 1) q (io ! s) source D2 = (D4, r4)" by fastforce
  obtain D5 r5 where 5: "add_arcs rec atab (d_in D2 ! i) (d_out D4 ! q) (i + 1) (q + 1) (io ! s) source D4 = (D5, r5)" by fastforce
  have "same_pair D D1" "same_pair D1 D2" "same_pair D1 D3" "same_pair D2 D4" "same_pair D4 D5"
    by (rule a [OF 1] a [OF 2] a [OF 3] a [OF 4] a [OF 5])+
  moreover from this have i: "d_in D1 = d_in D" "d_in D2 = d_in D" "d_out D4 = d_out D" by (simp_all add: same_pair_def)
  ultimately show ?thesis
    unfolding derive_from_def d prod.case Let_def 1 2
    by (cases "i < length (d_in D1)"; cases "q < length (d_out D1)") (simp_all add: 1 2 3 [unfolded i, simplified] 4 [unfolded i, simplified] 5 [unfolded i, simplified] same_pair_def)
qed

lemma derive_same: "same_pair D (snd (derive fuel io atab d D))"
proof (induction fuel arbitrary: d D)
  case 0
  then show ?case by (simp add: same_pair_def)
next
  case (Suc fuel)
  note f = derive_from_same [of "derive fuel io atab", OF Suc.IH]
  obtain ids v b where e: "ht_insert deriv_hash d (length (d_graph D)) (id_of_state D) = (ids, v, b)" by (metis prod_cases3)
  show ?case
    using f [of "D\<lparr>id_of_state := ids, d_graph := d_graph D @ [[]], d_remove := d_remove D @ [False]\<rparr>"]
    by (auto simp: e Let_def same_pair_def)
qed

lemma derive_present:
  "find_second deriv_hash (id_of_state D) d = Some k \<Longrightarrow> derive (Suc fuel) io atab d D = (k, D)"
  by (simp add: ht_insert_present)

lemma derive_absent:
  assumes "find_second deriv_hash (id_of_state D) (i, s, q) = None" and s: "s < numStates M" and D: "d_in D = xs" "d_out D = ys"
  defines "source \<equiv> length (d_graph D)"
  shows "derive (Suc fuel) (wfst_io_index M) (all_arcs M) (i, s, q) D =
    (let (D', r) = fold (deriv_step (derive fuel (wfst_io_index M) (all_arcs M)) (all_arcs M) source) (deriv_moves M xs ys (i, s, q))
           (D\<lparr>id_of_state := ht_add deriv_hash (i, s, q) source (id_of_state D), d_graph := d_graph D @ [[]],
              d_remove := d_remove D @ [False]\<rparr>, False)
     in (source, D'\<lparr>d_remove := (d_remove D')[source := (i, s, q) \<noteq> d_goal D \<and> \<not> r]\<rparr>))"
proof -
  let ?D = "D\<lparr>id_of_state := ht_add deriv_hash (i, s, q) source (id_of_state D), d_graph := d_graph D @ [[]],
              d_remove := d_remove D @ [False]\<rparr>"
  have "derive_from (derive fuel (wfst_io_index M) (all_arcs M)) (wfst_io_index M) (all_arcs M) (i, s, q) source ?D =
    (let (D', r) = fold (deriv_step (derive fuel (wfst_io_index M) (all_arcs M)) (all_arcs M) source)
         (deriv_moves M xs ys (i, s, q)) (?D, False)
     in D'\<lparr>d_remove := (d_remove D')[source := (i, s, q) \<noteq> d_goal ?D \<and> \<not> r]\<rparr>)"
    by (rule derive_from_fold [OF derive_same s]) (simp_all add: D)
  then show ?thesis
    by (simp add: ht_insert_absent [OF assms(1)] source_def [symmetric] Let_def split: prod.splits)
qed

section \<open>What the exploration builds\<close>

inductive derives_goal :: "'w WFST \<Rightarrow> nat list \<Rightarrow> nat list \<Rightarrow> deriv_state \<Rightarrow> bool" for M xs ys where
  goal: "derives_goal M xs ys (length xs, final M, length ys)"
| move: "(n, e) \<in> set (deriv_moves M xs ys d) \<Longrightarrow> derives_goal M xs ys e \<Longrightarrow> derives_goal M xs ys d"

definition deriv_states :: "'w WFST \<Rightarrow> nat list \<Rightarrow> nat list \<Rightarrow> deriv_state set" where
  "deriv_states M xs ys = {..length xs} \<times> {..<numStates M} \<times> {..length ys}"

lemma deriv_states_finite: "finite (deriv_states M xs ys)"
  by (simp add: deriv_states_def)

lemma deriv_states_card: "card (deriv_states M xs ys) = Suc (length xs) * numStates M * Suc (length ys)"
  by (simp add: deriv_states_def card_cartesian_product algebra_simps)

definition deriv_move :: "'w WFST \<Rightarrow> nat list \<Rightarrow> nat list \<Rightarrow> deriv_state \<Rightarrow> deriv_state \<Rightarrow> bool" where
  "deriv_move M xs ys d e \<longleftrightarrow> (\<exists>n. (n, e) \<in> set (deriv_moves M xs ys d))"

abbreviation explored :: "'w WFST \<Rightarrow> nat list \<Rightarrow> nat list \<Rightarrow> deriv_state \<Rightarrow> bool" where
  "explored M xs ys \<equiv> (deriv_move M xs ys)\<^sup>*\<^sup>* (0, 0, 0)"

lemma deriv_move_states:
  assumes ok: "wfst_ok M" and m: "deriv_move M xs ys d e" and d: "d \<in> deriv_states M xs ys"
  shows "e \<in> deriv_states M xs ys"
proof -
  obtain i s q where de: "d = (i, s, q)" by (cases d)
  have s: "s < numStates M" using d by (simp add: deriv_states_def de)
  have t: "arc_dest (all_arcs M ! n) < numStates M" if "n \<in> set (arc_ids M s)" for n
    using arc_ids_in [OF s that] ok s by (auto simp: wfst_ok_def)
  show ?thesis
    using m d t by (auto simp: deriv_move_def deriv_moves_def deriv_match_def Let_def de deriv_states_def split: if_splits)
qed

lemma explored_states:
  assumes ok: "wfst_ok M" and e: "explored M xs ys d"
  shows "d \<in> deriv_states M xs ys"
  using e
proof induction
  case base
  then show ?case using ok by (auto simp: deriv_states_def wfst_ok_def)
next
  case (step d e)
  then show ?case using deriv_move_states [OF ok] by blast
qed

text \<open>The arcs of graph state \<open>k\<close> for a list of moves: \<open>R j e\<close> says that graph state \<open>j\<close> stands for \<open>e\<close>; only
  moves that cannot lead to the goal are left out.  The weight stored in an arc does not matter: \<open>weight_for\<close> looks
  it up by the number of the transducer's arc.\<close>

inductive kept_moves ::
  "(deriv_state \<Rightarrow> bool) \<Rightarrow> (nat \<Rightarrow> deriv_state \<Rightarrow> bool) \<Rightarrow> nat \<Rightarrow> (nat \<times> deriv_state) list
    \<Rightarrow> ('w, nat) GraphArc list \<Rightarrow> bool" for useful R k where
  Nil: "kept_moves useful R k [] []"
| keep: "kept_moves useful R k ms as \<Longrightarrow> R j e \<Longrightarrow>
    kept_moves useful R k (ms @ [(n, e)]) (\<lparr>src = k, dest = j, weight = w, data = Data n\<rparr> # as)"
| drop: "kept_moves useful R k ms as \<Longrightarrow> \<not> useful e \<Longrightarrow> kept_moves useful R k (ms @ [(n, e)]) as"

lemma kept_moves_mono:
  "kept_moves useful R k ms as \<Longrightarrow> (\<And>j e. R j e \<Longrightarrow> R' j e) \<Longrightarrow> kept_moves useful R' k ms as"
  by (induction rule: kept_moves.induct) (auto intro: kept_moves.intros)

lemma kept_moves_none: "kept_moves useful R k ms as \<Longrightarrow> as = [] \<Longrightarrow> (n, e) \<in> set ms \<Longrightarrow> \<not> useful e"
  by (induction rule: kept_moves.induct) auto

lemma kept_moves_arcs:
  "kept_moves useful R k ms as \<Longrightarrow> a \<in> set as \<Longrightarrow> \<exists>n e. (n, e) \<in> set ms \<and> R (dest a) e \<and> src a = k \<and> data a = Data n"
proof (induction rule: kept_moves.induct)
  case (keep ms as j e n)
  show ?case
  proof (cases "a \<in> set as")
    case True
    then show ?thesis using keep.IH by fastforce
  next
    case False
    then have "src a = k \<and> dest a = j \<and> data a = Data n" using keep.prems by simp
    then show ?thesis using keep.hyps(2) by (intro exI [of _ n] exI [of _ e]) simp
  qed
next
  case (drop ms as e n)
  then show ?case by fastforce
qed simp

abbreviation numbered :: "'w derivations \<Rightarrow> nat \<Rightarrow> deriv_state \<Rightarrow> bool" where
  "numbered D j e \<equiv> find_second deriv_hash (id_of_state D) e = Some j"

definition deriv_inv :: "'w WFST \<Rightarrow> nat list \<Rightarrow> nat list \<Rightarrow> 'w derivations \<Rightarrow> bool" where
  "deriv_inv M xs ys D \<longleftrightarrow>
     d_in D = xs \<and> d_out D = ys \<and> d_goal D = (length xs, final M, length ys) \<and>
     ht_inv deriv_hash (id_of_state D) \<and> length (d_remove D) = length (d_graph D) \<and>
     (\<forall>k < length (d_graph D). \<exists>d. numbered D k d) \<and>
     (\<forall>k d. numbered D k d \<longrightarrow> k < length (d_graph D) \<and> explored M xs ys d) \<and>
     (\<forall>k d e. numbered D k d \<and> numbered D k e \<longrightarrow> d = e) \<and>
     (\<forall>k d. numbered D k d \<and> d_remove D ! k \<longrightarrow> \<not> derives_goal M xs ys d \<and> d_graph D ! k = [])"

text \<open>A finished state has its arcs.  \<open>deriv_grows rt D D'\<close>: what was in \<open>D\<close> is as it was, and the new
  states of \<open>D'\<close> are finished; those that are not marked can be reached from \<open>rt\<close>.\<close>

definition deriv_done :: "'w WFST \<Rightarrow> nat list \<Rightarrow> nat list \<Rightarrow> 'w derivations \<Rightarrow> nat \<Rightarrow> deriv_state \<Rightarrow> bool" where
  "deriv_done M xs ys D k d \<longleftrightarrow>
     kept_moves (derives_goal M xs ys) (numbered D) k (deriv_moves M xs ys d) (d_graph D ! k)"

definition deriv_grows ::
  "'w WFST \<Rightarrow> nat list \<Rightarrow> nat list \<Rightarrow> nat \<Rightarrow> 'w derivations \<Rightarrow> 'w derivations \<Rightarrow> bool" where
  "deriv_grows M xs ys rt D D' \<longleftrightarrow>
     length (d_graph D) \<le> length (d_graph D') \<and>
     (\<forall>k < length (d_graph D). d_graph D' ! k = d_graph D ! k \<and> d_remove D' ! k = d_remove D ! k) \<and>
     (\<forall>k d. numbered D k d \<longrightarrow> numbered D' k d) \<and>
     (\<forall>k d. numbered D' k d \<and> length (d_graph D) \<le> k \<longrightarrow>
        deriv_done M xs ys D' k d \<and> (d_remove D' ! k \<or> reach (d_graph D') rt k))"

lemma deriv_invD:
  assumes "deriv_inv M xs ys D"
  shows "d_in D = xs" "d_out D = ys" "d_goal D = (length xs, final M, length ys)" "ht_inv deriv_hash (id_of_state D)"
    "length (d_remove D) = length (d_graph D)"
    "\<And>k. k < length (d_graph D) \<Longrightarrow> \<exists>d. numbered D k d"
    "\<And>k d. numbered D k d \<Longrightarrow> k < length (d_graph D)" "\<And>k d. numbered D k d \<Longrightarrow> explored M xs ys d"
    "\<And>k d e. numbered D k d \<Longrightarrow> numbered D k e \<Longrightarrow> d = e"
    "\<And>k d. numbered D k d \<Longrightarrow> d_remove D ! k \<Longrightarrow> \<not> derives_goal M xs ys d"
    "\<And>k d. numbered D k d \<Longrightarrow> d_remove D ! k \<Longrightarrow> d_graph D ! k = []"
  using assms unfolding deriv_inv_def by blast+

lemma deriv_growsD:
  assumes "deriv_grows M xs ys rt D D'"
  shows "length (d_graph D) \<le> length (d_graph D')"
    "\<And>k. k < length (d_graph D) \<Longrightarrow> d_graph D' ! k = d_graph D ! k"
    "\<And>k. k < length (d_graph D) \<Longrightarrow> d_remove D' ! k = d_remove D ! k"
    "\<And>k d. numbered D k d \<Longrightarrow> numbered D' k d"
    "\<And>k d. numbered D' k d \<Longrightarrow> length (d_graph D) \<le> k \<Longrightarrow> deriv_done M xs ys D' k d"
    "\<And>k d. numbered D' k d \<Longrightarrow> length (d_graph D) \<le> k \<Longrightarrow> d_remove D' ! k \<or> reach (d_graph D') rt k"
  using assms unfolding deriv_grows_def by blast+

text \<open>While the moves of \<open>d\<close> are tried: \<open>B\<close> is what was there before \<open>d\<close> got the next number, \<open>ms\<close> the moves
  tried so far.\<close>

definition deriv_open ::
  "'w WFST \<Rightarrow> nat list \<Rightarrow> nat list \<Rightarrow> 'w derivations \<Rightarrow> deriv_state \<Rightarrow> (nat \<times> deriv_state) list \<Rightarrow> 'w derivations \<times> bool
    \<Rightarrow> bool" where
  "deriv_open M xs ys B d ms Dr \<longleftrightarrow>
     (let N = length (d_graph B); D = fst Dr
      in deriv_inv M xs ys D \<and> N < length (d_graph D) \<and> numbered D N d \<and> \<not> d_remove D ! N \<and>
         (\<forall>k < N. d_graph D ! k = d_graph B ! k \<and> d_remove D ! k = d_remove B ! k) \<and>
         (\<forall>k e. numbered B k e \<longrightarrow> numbered D k e) \<and>
         (\<forall>k e. numbered D k e \<and> N < k \<longrightarrow> deriv_done M xs ys D k e \<and> (d_remove D ! k \<or> reach (d_graph D) N k)) \<and>
         kept_moves (derives_goal M xs ys) (numbered D) N ms (d_graph D ! N) \<and>
         (snd Dr \<longleftrightarrow> d_graph D ! N \<noteq> []))"

lemma deriv_openD:
  assumes "deriv_open M xs ys B d ms (D, r)"
  shows "deriv_inv M xs ys D" "length (d_graph B) < length (d_graph D)" "numbered D (length (d_graph B)) d"
    "\<not> d_remove D ! length (d_graph B)"
    "\<And>k. k < length (d_graph B) \<Longrightarrow> d_graph D ! k = d_graph B ! k"
    "\<And>k. k < length (d_graph B) \<Longrightarrow> d_remove D ! k = d_remove B ! k"
    "\<And>k e. numbered B k e \<Longrightarrow> numbered D k e"
    "\<And>k e. numbered D k e \<Longrightarrow> length (d_graph B) < k \<Longrightarrow> deriv_done M xs ys D k e"
    "\<And>k e. numbered D k e \<Longrightarrow> length (d_graph B) < k \<Longrightarrow> d_remove D ! k \<or> reach (d_graph D) (length (d_graph B)) k"
    "kept_moves (derives_goal M xs ys) (numbered D) (length (d_graph B)) ms (d_graph D ! length (d_graph B))"
    "r \<longleftrightarrow> d_graph D ! length (d_graph B) \<noteq> []"
  using assms unfolding deriv_open_def Let_def fst_conv snd_conv by blast+

lemma reach_mono: "(\<And>u v. edge g u v \<Longrightarrow> edge g' u v) \<Longrightarrow> reach g u v \<Longrightarrow> reach g' u v"
  by (rule rtranclp_mono [THEN predicate2D, of "edge g"]) auto

lemma deriv_done_mono:
  assumes "deriv_done M xs ys D k d" "\<And>k d. numbered D k d \<Longrightarrow> numbered D' k d" "d_graph D' ! k = d_graph D ! k"
  shows "deriv_done M xs ys D' k d"
  using kept_moves_mono [OF assms(1) [unfolded deriv_done_def], of "numbered D'"] assms(2,3) by (simp add: deriv_done_def)

lemma edge_grows:
  assumes "deriv_grows M xs ys rt D D'" "edge (d_graph D) u v"
  shows "edge (d_graph D') u v"
  using assms(2) deriv_growsD(1,2) [OF assms(1)] by (auto simp: edge_def)

lemma deriv_open_step:
  assumes op: "deriv_open M xs ys B d ms (D, r)" and mv: "(n, e) \<in> set (deriv_moves M xs ys d)"
    and rec: "rec e D = (j, E)" "deriv_inv M xs ys E" "deriv_grows M xs ys j D E" "numbered E j e"
  shows "deriv_open M xs ys B d (ms @ [(n, e)]) (deriv_step rec (all_arcs M) (length (d_graph B)) (n, e) (D, r))"
proof -
  let ?N = "length (d_graph B)"
  note o = deriv_openD [OF op] and E = deriv_invD [OF rec(2)] and gr = deriv_growsD [OF rec(3)]
  have NE: "?N < length (d_graph E)" "d_graph E ! ?N = d_graph D ! ?N" "\<not> d_remove E ! ?N" "numbered E ?N d"
    using o(2,3,4) gr(1,4) gr(2,3) [OF o(2)] by simp_all
  have old: "d_graph E ! k = d_graph B ! k" "d_remove E ! k = d_remove B ! k" if "k < ?N" for k
    using that o(2,5,6) gr(2,3) by simp_all
  have km: "kept_moves (derives_goal M xs ys) (numbered E) ?N ms (d_graph E ! ?N)"
    unfolding NE(2) by (rule kept_moves_mono [OF o(10)]) (rule gr(4))
  have edges: "edge (d_graph D) u v \<Longrightarrow> edge (d_graph E) u v" for u v by (rule edge_grows [OF rec(3)])
  have dn: "deriv_done M xs ys E k f" and rr: "d_remove E ! k \<or> reach (d_graph E) ?N k \<or> reach (d_graph E) j k"
    if k: "numbered E k f" "?N < k" for k f
  proof -
    show "deriv_done M xs ys E k f"
    proof (cases "k < length (d_graph D)")
      case True
      then obtain f' where f': "numbered D k f'" using deriv_invD(6) [OF o(1)] by blast
      then have "f' = f" using E(9) [OF gr(4) k(1)] by blast
      then show ?thesis
        using deriv_done_mono [where D = D, OF o(8) [OF f' k(2)] gr(4) gr(2) [OF True]] by simp
    qed (use gr(5) [OF k(1)] in simp)
    show "d_remove E ! k \<or> reach (d_graph E) ?N k \<or> reach (d_graph E) j k"
    proof (cases "k < length (d_graph D)")
      case True
      then obtain f' where f': "numbered D k f'" using deriv_invD(6) [OF o(1)] by blast
      then show ?thesis
        using o(9) [OF f' k(2)] gr(3) [OF True] reach_mono [OF edges] by metis
    qed (use gr(6) [OF k(1)] in \<open>simp, blast\<close>)
  qed
  show ?thesis
  proof (cases "d_remove E ! j")
    case True
    have st: "deriv_step rec (all_arcs M) ?N (n, e) (D, r) = (E, r)" using True by (simp add: deriv_step_def rec(1))
    have nu: "\<not> derives_goal M xs ys e" and no: "d_graph E ! j = []" using E(10,11) [OF rec(4) True] by simp_all
    have "k = j" if "reach (d_graph E) j k" for k
      using that no by (cases rule: converse_rtranclpE) (auto simp: edge_def)
    then have "d_remove E ! k \<or> reach (d_graph E) ?N k" if "numbered E k f" "?N < k" for k f
      using rr [OF that] True by metis
    then have rest: "\<forall>k f. numbered E k f \<and> ?N < k \<longrightarrow> deriv_done M xs ys E k f \<and> (d_remove E ! k \<or> reach (d_graph E) ?N k)"
      using dn by blast
    have num: "\<forall>k f. numbered B k f \<longrightarrow> numbered E k f" using gr(4) [OF o(7)] by blast
    have "\<forall>k < ?N. d_graph E ! k = d_graph B ! k \<and> d_remove E ! k = d_remove B ! k" using old by blast
    moreover have "r \<longleftrightarrow> d_graph E ! ?N \<noteq> []" using o(11) NE(2) by simp
    ultimately show ?thesis
      unfolding st deriv_open_def Let_def fst_conv snd_conv
      by (intro conjI rec(2) NE(1,3,4) rest num kept_moves.drop [OF km nu]) simp_all
  next
    case False
    let ?a = "\<lparr>src = ?N, dest = j, weight = arc_weight (all_arcs M ! n), data = Data n\<rparr>"
    let ?F = "add_deriv_arc (all_arcs M) ?N j n E"
    have st: "deriv_step rec (all_arcs M) ?N (n, e) (D, r) = (?F, True)" using False by (simp add: deriv_step_def rec(1))
    have F: "id_of_state ?F = id_of_state E" "d_remove ?F = d_remove E" "length (d_graph ?F) = length (d_graph E)"
      "d_graph ?F ! ?N = ?a # d_graph E ! ?N" "\<And>k. k \<noteq> ?N \<Longrightarrow> d_graph ?F ! k = d_graph E ! k"
      using NE(1) by (simp_all add: add_deriv_arc_def)
    have sub: "edge (d_graph ?F) u v" if "edge (d_graph E) u v" for u v
      using that F(3,4) F(5) [of u] by (cases "u = ?N") (auto simp: edge_def)
    have "edge (d_graph ?F) ?N j" using F(3,4) NE(1) by (simp add: edge_def)
    then have rN: "reach (d_graph ?F) ?N k" if "reach (d_graph E) ?N k \<or> reach (d_graph E) j k" for k
      using that reach_mono [of "d_graph E" "d_graph ?F", OF sub] by (meson converse_rtranclp_into_rtranclp)
    have inv: "deriv_inv M xs ys ?F"
      unfolding deriv_inv_def F(1-3)
    proof (intro conjI allI impI)
      show "d_in ?F = xs" "d_out ?F = ys" "d_goal ?F = (length xs, final M, length ys)"
        using E(1-3) by (simp_all add: add_deriv_arc_def)
    next
      fix k f assume k: "numbered E k f \<and> d_remove E ! k"
      then have "k \<noteq> ?N" using NE(3) by metis
      then show "d_graph ?F ! k = []" using E(11) k F(5) by metis
    qed (use E in \<open>blast+\<close>)
    have d': "deriv_done M xs ys ?F k f" if "numbered E k f" "?N < k" for k f
      by (rule deriv_done_mono [where D = E, OF dn [OF that]]) (use that F(1,5) in simp_all)
    have km': "kept_moves (derives_goal M xs ys) (numbered E) ?N (ms @ [(n, e)]) (?a # d_graph E ! ?N)"
      by (rule kept_moves.keep [OF km]) (rule rec(4))
    have old': "d_graph ?F ! k = d_graph B ! k" if "k < ?N" for k using F(5) old(1) [OF that] that by simp
    have rr': "d_remove E ! k \<or> reach (d_graph ?F) ?N k" if "numbered E k f" "?N < k" for k f
      using rr [OF that] rN by blast
    show ?thesis
      unfolding st deriv_open_def Let_def fst_conv snd_conv F(1-4)
      by (intro conjI allI impI inv NE(1,3,4) old' old(2) km')
         (use o(7) gr(4) d' rr' in \<open>simp_all, blast+\<close>)
  qed
qed

definition unnumbered :: "'w WFST \<Rightarrow> nat list \<Rightarrow> nat list \<Rightarrow> 'w derivations \<Rightarrow> deriv_state set" where
  "unnumbered M xs ys D = {d \<in> deriv_states M xs ys. find_second deriv_hash (id_of_state D) d = None}"

lemma unnumbered_less:
  assumes "d \<in> unnumbered M xs ys B" "numbered D k d" "\<And>k e. numbered B k e \<Longrightarrow> numbered D k e"
  shows "card (unnumbered M xs ys D) < card (unnumbered M xs ys B)"
proof (rule psubset_card_mono)
  show "finite (unnumbered M xs ys B)"
    unfolding unnumbered_def by (rule finite_subset [OF _ deriv_states_finite [of M xs ys]]) blast
  have "unnumbered M xs ys D \<subseteq> unnumbered M xs ys B"
    using assms(3) by (auto simp: unnumbered_def) (metis not_Some_eq)
  moreover have "d \<notin> unnumbered M xs ys D" using assms(2) by (simp add: unnumbered_def)
  ultimately show "unnumbered M xs ys D \<subset> unnumbered M xs ys B" using assms(1) by blast
qed

text \<open>What a call of \<open>derive\<close> has to return.\<close>

definition derive_ok :: "'w WFST \<Rightarrow> nat list \<Rightarrow> nat list \<Rightarrow> 'w derivations \<Rightarrow> deriv_state \<Rightarrow> nat \<times> 'w derivations \<Rightarrow> bool" where
  "derive_ok M xs ys D d r \<longleftrightarrow>
     deriv_inv M xs ys (snd r) \<and> deriv_grows M xs ys (fst r) D (snd r) \<and> numbered (snd r) (fst r) d"

lemma deriv_open_fold:
  assumes rec: "\<And>e E. explored M xs ys e \<Longrightarrow> deriv_inv M xs ys E \<Longrightarrow> card (unnumbered M xs ys E) < fuel \<Longrightarrow>
      derive_ok M xs ys E e (rec e E)"
    and d: "explored M xs ys d" "d \<in> unnumbered M xs ys B" and fuel: "card (unnumbered M xs ys B) \<le> fuel"
    and op: "deriv_open M xs ys B d ms Dr" and sub: "set ms' \<subseteq> set (deriv_moves M xs ys d)"
  shows "deriv_open M xs ys B d (ms @ ms') (fold (deriv_step rec (all_arcs M) (length (d_graph B))) ms' Dr)"
  using op sub
proof (induction ms' arbitrary: ms Dr)
  case Nil
  then show ?case by simp
next
  case (Cons m ms')
  obtain n e where m: "m = (n, e)" by (cases m)
  obtain D r where Dr: "Dr = (D, r)" by fastforce
  note op = Cons.prems(1) [unfolded Dr]
  have mv: "(n, e) \<in> set (deriv_moves M xs ys d)" using Cons.prems(2) m by simp
  then have "explored M xs ys e" using d(1) by (meson deriv_move_def rtranclp.rtrancl_into_rtrancl)
  moreover have "card (unnumbered M xs ys D) < fuel"
    using unnumbered_less [OF d(2) deriv_openD(3,7) [OF op]] fuel by simp
  ultimately have ok: "derive_ok M xs ys D e (rec e D)" using rec deriv_openD(1) [OF op] by blast
  obtain j E where jE: "rec e D = (j, E)" by fastforce
  have "deriv_open M xs ys B d (ms @ [(n, e)]) (deriv_step rec (all_arcs M) (length (d_graph B)) (n, e) (D, r))"
    by (rule deriv_open_step [where rec = rec and j = j and E = E, OF op mv jE]) (use ok in \<open>simp_all add: derive_ok_def jE\<close>)
  from Cons.IH [OF this] Cons.prems(2) show ?case by (simp add: m Dr)
qed

lemma deriv_open_start:
  assumes inv: "deriv_inv M xs ys B" and d: "explored M xs ys d" "find_second deriv_hash (id_of_state B) d = None"
  shows "deriv_open M xs ys B d []
    (B\<lparr>id_of_state := ht_add deriv_hash d (length (d_graph B)) (id_of_state B), d_graph := d_graph B @ [[]],
       d_remove := d_remove B @ [False]\<rparr>, False)"
proof -
  note B = deriv_invD [OF inv]
  note ad = ht_add_props [OF B(4) d(2), of "length (d_graph B)"]
  let ?N = "length (d_graph B)"
  let ?D = "B\<lparr>id_of_state := ht_add deriv_hash d ?N (id_of_state B), d_graph := d_graph B @ [[]],
       d_remove := d_remove B @ [False]\<rparr>"
  have num: "numbered ?D k e \<longleftrightarrow> (if e = d then k = ?N else numbered B k e)" for k e by (auto simp: ad(3))
  have old: "k < ?N" if "numbered B k e" for k e using B(7) [OF that] .
  have inv': "deriv_inv M xs ys ?D"
    unfolding deriv_inv_def
  proof (intro conjI allI impI)
    show "ht_inv deriv_hash (id_of_state ?D)" using ad(1) by simp
    fix k assume "k < length (d_graph ?D)"
    then show "\<exists>e. numbered ?D k e"
    proof (cases "k = ?N")
      case True
      then have "numbered ?D k d" unfolding num by simp
      then show ?thesis ..
    next
      case False
      then obtain e where e: "numbered B k e" using B(6) [of k] \<open>k < length (d_graph ?D)\<close> by auto
      then have "numbered ?D k e" unfolding num using d(2) by auto
      then show ?thesis ..
    qed
  next
    fix k e assume "numbered ?D k e"
    then show "k < length (d_graph ?D)" "explored M xs ys e"
      unfolding num using old [where k = k and e = e] B(8) [where k = k and d = e] d(1) by (auto split: if_splits)
  next
    fix k e f assume "numbered ?D k e \<and> numbered ?D k f"
    then show "e = f" unfolding num using B(9) [where k = k and d = e and e = f] old [where k = k and e = e] old [where k = k and e = f] by (auto split: if_splits)
  next
    fix k e assume k: "numbered ?D k e \<and> d_remove ?D ! k"
    then have e: "e \<noteq> d" using B(5) unfolding num by (auto simp: nth_append)
    then have k': "numbered B k e" "d_remove B ! k" using k old [where k = k and e = e] B(5) unfolding num by (auto simp: nth_append)
    show "\<not> derives_goal M xs ys e" "d_graph ?D ! k = []"
      using B(10,11) [OF k'] old [OF k'(1)] by (simp_all add: nth_append)
  qed (use B in simp_all)
  have none: "\<not> (numbered ?D k e \<and> ?N < k)" for k e unfolding num using old [where k = k and e = e] by auto
  then have none: "\<forall>k e. numbered ?D k e \<and> ?N < k \<longrightarrow> P k e" for P by blast
  show ?thesis
    unfolding deriv_open_def Let_def fst_conv snd_conv
  proof (intro conjI inv' none)
    show "numbered ?D ?N d" unfolding num by simp
    show "\<forall>k e. numbered B k e \<longrightarrow> numbered ?D k e" unfolding num using d(2) by auto
  qed (use B(5) in \<open>simp_all add: nth_append kept_moves.Nil\<close>)
qed

lemma derive_spec:
  assumes ok: "wfst_ok M"
  shows "explored M xs ys d \<Longrightarrow> deriv_inv M xs ys D \<Longrightarrow> card (unnumbered M xs ys D) < fuel \<Longrightarrow>
    derive_ok M xs ys D d (derive fuel (wfst_io_index M) (all_arcs M) d D)"
proof (induction fuel arbitrary: d D)
  case (Suc fuel)
  note D = deriv_invD [OF Suc.prems(2)]
  have d: "d \<in> deriv_states M xs ys" by (rule explored_states [OF ok Suc.prems(1)])
  show ?case
  proof (cases "find_second deriv_hash (id_of_state D) d")
    case (Some k)
    have no: "\<not> (numbered D j e \<and> length (d_graph D) \<le> j)" for j e using D(7) [where k = j and d = e] by auto
    have "deriv_grows M xs ys k D D" unfolding deriv_grows_def using no by blast
    then show ?thesis using Some Suc.prems(2) by (simp only: derive_present [OF Some] derive_ok_def fst_conv snd_conv)
  next
    case None
    let ?N = "length (d_graph D)"
    let ?rec = "derive fuel (wfst_io_index M) (all_arcs M)"
    obtain i s q where de: "d = (i, s, q)" by (cases d)
    have s: "s < numStates M" using d by (simp add: deriv_states_def de)
    let ?D = "D\<lparr>id_of_state := ht_add deriv_hash d ?N (id_of_state D), d_graph := d_graph D @ [[]],
       d_remove := d_remove D @ [False]\<rparr>"
    obtain E r where E: "fold (deriv_step ?rec (all_arcs M) ?N) (deriv_moves M xs ys d) (?D, False) = (E, r)" by fastforce
    let ?F = "E\<lparr>d_remove := (d_remove E)[?N := d \<noteq> d_goal D \<and> \<not> r]\<rparr>"
    have e: "derive (Suc fuel) (wfst_io_index M) (all_arcs M) d D = (?N, ?F)"
      using E None unfolding de by (simp add: derive_absent [OF None [unfolded de] s D(1,2)] del: derive.simps)
    have un: "d \<in> unnumbered M xs ys D" using d None by (simp add: unnumbered_def)
    have "deriv_open M xs ys D d ([] @ deriv_moves M xs ys d)
        (fold (deriv_step ?rec (all_arcs M) ?N) (deriv_moves M xs ys d) (?D, False))"
      by (rule deriv_open_fold [OF Suc.IH Suc.prems(1) un Suc.prems(3) [unfolded less_Suc_eq_le]
            deriv_open_start [OF Suc.prems(2,1) None] order_refl])
    note o = deriv_openD [OF this [unfolded E append_Nil]]
    note Ei = deriv_invD [OF o(1)]
    have rm: "d_remove ?F ! k = (if k = ?N then d \<noteq> d_goal D \<and> \<not> r else d_remove E ! k)" for k
      using o(2) Ei(5) by (simp add: nth_list_update)
    have hopeless: "\<not> derives_goal M xs ys d \<and> d_graph E ! ?N = []" if "d \<noteq> d_goal D" "\<not> r"
    proof -
      have no: "d_graph E ! ?N = []" using o(11) that(2) by simp
      from kept_moves_none [OF o(10) no] have "\<not> derives_goal M xs ys e" if "(n, e) \<in> set (deriv_moves M xs ys d)" for n e
        using that by blast
      then have "\<not> derives_goal M xs ys d" using that(1) D(3) by (auto elim: derives_goal.cases)
      then show ?thesis using no by simp
    qed
    have inv: "deriv_inv M xs ys ?F"
      unfolding deriv_inv_def
    proof (intro conjI allI impI)
      fix k e assume "numbered ?F k e \<and> d_remove ?F ! k"
      then have k: "numbered E k e" "d_remove ?F ! k" by simp_all
      show "\<not> derives_goal M xs ys e" "d_graph ?F ! k = []"
        using k(2) hopeless Ei(9) [OF k(1)] Ei(10,11) [OF k(1)] o(3) unfolding rm by (auto split: if_splits)
    qed (use Ei in \<open>(simp; fail | (simp, blast))+\<close>)
    have "deriv_grows M xs ys ?N D ?F"
      unfolding deriv_grows_def
    proof (intro conjI allI impI)
      fix k assume k: "k < ?N"
      then show "d_graph ?F ! k = d_graph D ! k" "d_remove ?F ! k = d_remove D ! k" unfolding rm using o(5,6) by simp_all
    next
      fix k e assume "numbered ?F k e \<and> ?N \<le> k"
      then have k: "numbered E k e" "?N \<le> k" by simp_all
      show "deriv_done M xs ys ?F k e"
      proof (cases "k = ?N")
        case True
        then have "e = d" using Ei(9) k(1) o(3) by blast
        then show ?thesis using o(10) True by (simp add: deriv_done_def)
      qed (use o(8) [OF k(1)] k(2) in \<open>simp add: deriv_done_def\<close>)
      show "d_remove ?F ! k \<or> reach (d_graph ?F) ?N k"
        using o(9) [OF k(1)] k(2) unfolding rm by (cases "k = ?N") auto
    qed (use o(2,7) in simp_all)
    then show ?thesis unfolding e derive_ok_def fst_conv snd_conv using inv o(3) by simp
  qed
qed simp

text \<open>More fuel than states without a number makes no difference.\<close>

lemma deriv_fold_same_rec:
  assumes rec: "\<And>e E. explored M xs ys e \<Longrightarrow> deriv_inv M xs ys E \<Longrightarrow> card (unnumbered M xs ys E) < fuel \<Longrightarrow>
      derive_ok M xs ys E e (rec e E) \<and> rec' e E = rec e E"
    and d: "explored M xs ys d" "d \<in> unnumbered M xs ys B" and fuel: "card (unnumbered M xs ys B) \<le> fuel"
    and op: "deriv_open M xs ys B d ms Dr" and sub: "set ms' \<subseteq> set (deriv_moves M xs ys d)"
  shows "fold (deriv_step rec' (all_arcs M) (length (d_graph B))) ms' Dr =
    fold (deriv_step rec (all_arcs M) (length (d_graph B))) ms' Dr"
  using op sub
proof (induction ms' arbitrary: ms Dr)
  case (Cons m ms')
  obtain n e where m: "m = (n, e)" by (cases m)
  obtain D r where Dr: "Dr = (D, r)" by fastforce
  note op = Cons.prems(1) [unfolded Dr]
  have "explored M xs ys e" using d(1) Cons.prems(2) m by (meson deriv_move_def list.set_intros(1) rtranclp.rtrancl_into_rtrancl subsetD)
  moreover have "card (unnumbered M xs ys D) < fuel"
    using unnumbered_less [OF d(2) deriv_openD(3,7) [OF op]] fuel by simp
  ultimately have "rec' e D = rec e D" using rec deriv_openD(1) [OF op] by blast
  then have st: "deriv_step rec' (all_arcs M) (length (d_graph B)) m Dr = deriv_step rec (all_arcs M) (length (d_graph B)) m Dr"
    by (simp add: deriv_step_def m Dr)
  have "deriv_open M xs ys B d (ms @ [m]) (fold (deriv_step rec (all_arcs M) (length (d_graph B))) [m] Dr)"
    by (rule deriv_open_fold [OF _ d fuel Cons.prems(1)]) (use rec Cons.prems(2) in auto)
  from Cons.IH [OF this] Cons.prems(2) show ?case by (simp add: st)
qed simp

lemma derive_more_fuel:
  assumes ok: "wfst_ok M"
  shows "explored M xs ys d \<Longrightarrow> deriv_inv M xs ys D \<Longrightarrow> card (unnumbered M xs ys D) < fuel \<Longrightarrow>
    derive (fuel + extra) (wfst_io_index M) (all_arcs M) d D = derive fuel (wfst_io_index M) (all_arcs M) d D"
proof (induction fuel arbitrary: d D)
  case (Suc fuel)
  note D = deriv_invD [OF Suc.prems(2)]
  have d: "d \<in> deriv_states M xs ys" by (rule explored_states [OF ok Suc.prems(1)])
  show ?case
  proof (cases "find_second deriv_hash (id_of_state D) d")
    case (Some k)
    then show ?thesis by (simp only: add_Suc derive_present)
  next
    case None
    obtain i s q where de: "d = (i, s, q)" by (cases d)
    have s: "s < numStates M" using d by (simp add: deriv_states_def de)
    have un: "d \<in> unnumbered M xs ys D" using d None by (simp add: unnumbered_def)
    let ?rec = "derive fuel (wfst_io_index M) (all_arcs M)" and ?rec' = "derive (fuel + extra) (wfst_io_index M) (all_arcs M)"
    let ?N = "length (d_graph D)"
    let ?D = "D\<lparr>id_of_state := ht_add deriv_hash d ?N (id_of_state D), d_graph := d_graph D @ [[]], d_remove := d_remove D @ [False]\<rparr>"
    have eq: "fold (deriv_step ?rec' (all_arcs M) ?N) (deriv_moves M xs ys d) (?D, False) =
        fold (deriv_step ?rec (all_arcs M) ?N) (deriv_moves M xs ys d) (?D, False)"
      by (rule deriv_fold_same_rec [OF _ Suc.prems(1) un Suc.prems(3) [unfolded less_Suc_eq_le]
            deriv_open_start [OF Suc.prems(2,1) None] order_refl]) (intro conjI derive_spec [OF ok] Suc.IH; assumption)
    show ?thesis
      unfolding de add_Suc derive_absent [OF None [unfolded de] s D(1,2)] eq [unfolded de] ..
  qed
qed simp

section \<open>Pruning\<close>

lemma shuffle_loop_spec:
  assumes "length m = n" "length v = n" "to \<le> i" "i \<le> n" "\<And>j. j < n \<Longrightarrow> removing ia j \<longleftrightarrow> m ! j"
    "take to v = map rw (unmarked (take i v0) (take i m))" "drop i v = drop i v0" "length v0 = n"
    "to = length (unmarked (take i v0) (take i m))"
    "shuffle_loop rw rwdel ia [i..<n] to v = (v', to')"
  shows "take to' v' = map rw (unmarked v0 m) \<and> to' = length (unmarked v0 m)"
  using assms
proof (induction "n - i" arbitrary: i to v)
  case 0
  then show ?case by simp
next
  case (Suc d)
  then have i: "i < n" and d: "d = n - Suc i" by auto
  then have upt: "[i..<n] = i # [Suc i..<n]" by (simp add: upt_conv_Cons)
  have vi: "v ! i = v0 ! i" using Suc.prems(2,7,8) i by (metis hd_drop_conv_nth)
  have dS: "drop (Suc i) v = drop (Suc i) v0" using Suc.prems(7) by (metis drop_Suc tl_drop)
  note us = unmarked_take_Suc [of i v0 m]
  show ?case
  proof (cases "m ! i")
    case True
    show ?thesis
    proof (rule Suc.hyps(1) [OF d, of "v[i := rwdel (v ! i)]" to])
      show "shuffle_loop rw rwdel ia [Suc i..<n] to (v[i := rwdel (v ! i)]) = (v', to')"
        using Suc.prems(10) Suc.prems(5) [OF i] upt True by simp
      show "take to (v[i := rwdel (v ! i)]) = map rw (unmarked (take (Suc i) v0) (take (Suc i) m))"
        using Suc.prems(1,3,6,8) us True i by simp
    qed (use Suc.prems i dS us True in auto)
  next
    case False
    let ?w = "array_swap to i (v[i := rw (v ! i)])"
    have un: "unmarked (take (Suc i) v0) (take (Suc i) m) = unmarked (take i v0) (take i m) @ [v0 ! i]"
      using us Suc.prems i False by simp
    have tk: "take (Suc to) ?w = take to v @ [rw (v ! i)]"
      using Suc.prems(2,3) i by (simp add: array_swap_def take_Suc_conv_app_nth nth_list_update)
    show ?thesis
    proof (rule Suc.hyps(1) [OF d, of ?w "Suc to"])
      show "shuffle_loop rw rwdel ia [Suc i..<n] (Suc to) ?w = (v', to')"
        using Suc.prems(10) Suc.prems(5) [OF i] upt False by simp
      show "take (Suc to) ?w = map rw (unmarked (take (Suc i) v0) (take (Suc i) m))" using tk un Suc.prems(6) vi by simp
      show "Suc to = length (unmarked (take (Suc i) v0) (take (Suc i) m))" using un Suc.prems(9) by simp
      show "drop (Suc i) ?w = drop (Suc i) v0" using dS Suc.prems(3) by (simp add: array_swap_def)
    qed (use Suc.prems i in auto)
  qed
qed

lemma first_removed_spec:
  assumes "i + n = length m" "\<forall>j < i. \<not> m ! j" "\<And>j. j < length m \<Longrightarrow> removing ia j \<longleftrightarrow> m ! j"
  shows "first_removed ia n i \<le> length m \<and> (\<forall>j < first_removed ia n i. \<not> m ! j)"
  using assms
proof (induction n arbitrary: i)
  case (Suc n)
  have "keeping ia i \<longleftrightarrow> \<not> m ! i" using Suc.prems(1,3) by (simp add: removing_def keeping_def)
  then show ?case using Suc.IH [of "Suc i"] Suc.prems by (cases "m ! i") (auto simp: less_Suc_eq)
qed auto

lemma removing_map_table:
  "ia_map (indices_after_removing m) = index_table m"
proof -
  have "new_indices_keep_loop m False f = iarm_loop m f" for f
    by (induction m arbitrary: f) (auto simp: Let_def split: prod.split)
  then show ?thesis
    by (simp add: indices_after_removing_def ia_init_def new_indices_keep_def index_table_def
        indices_after_remove_marked_def split: prod.split)
qed

lemma shuffle_removing_spec:
  assumes len: "length v = length m" "length m < uint_minus1"
    and sh: "shuffle_removing rw rwdel (indices_after_removing m) v = (v', to')"
  shows "take to' v' = map rw (unmarked v m)"
proof -
  let ?ia = "indices_after_removing m"
  have l: "length (ia_map ?ia) = length m"
  proof (cases "m = []")
    case True
    then show ?thesis by (simp add: removing_map_table index_table_def indices_after_remove_marked_def)
  next
    case False
    then show ?thesis using index_table_spec(1) [of m m 0] by (simp add: removing_map_table)
  qed
  have rem: "removing ?ia j \<longleftrightarrow> m ! j" if "j < length m" for j
    using index_table_spec(4) [OF len(1) that len(2)] by (simp add: removing_def removing_map_table)
  let ?i = "first_removed ?ia (length m) 0"
  have fr: "?i \<le> length m" "\<forall>j < ?i. \<not> m ! j" using first_removed_spec [of 0 "length m" m ?ia] rem by auto
  have un: "unmarked (take ?i v) (take ?i m) = take ?i v" using fr len by (intro unmarked_none) auto
  have "shuffle_loop rw rwdel ?ia [?i..<length m] ?i (map rw (take ?i v) @ drop ?i v) = (v', to')"
    using sh by (simp add: shuffle_removing_def Let_def l)
  from shuffle_loop_spec [OF refl _ _ _ rem _ _ len(1) _ this, THEN conjunct1] show ?thesis using fr len un by simp
qed

section \<open>The derivation lattice\<close>

text \<open>What \<open>compute\<close> leaves in the graph: \<open>lab k\<close> is the derivation state that graph state \<open>k\<close> stands for.\<close>

definition deriv_lattice ::
  "'w WFST \<Rightarrow> nat list \<Rightarrow> nat list \<Rightarrow> ('w, nat) Graph \<Rightarrow> nat \<Rightarrow> (nat \<Rightarrow> deriv_state) \<Rightarrow> bool" where
  "deriv_lattice M xs ys g fin lab \<longleftrightarrow>
     0 < length g \<and> lab 0 = (0, 0, 0) \<and> fin < length g \<and> lab fin = (length xs, final M, length ys) \<and>
     inj_on lab {..<length g} \<and>
     (\<forall>k < length g. explored M xs ys (lab k) \<and>
        kept_moves (derives_goal M xs ys) (\<lambda>j e. j < length g \<and> lab j = e) k
          (deriv_moves M xs ys (lab k)) (g ! k) \<and>
        (reach g 0 k \<or> g ! k = []))"

lemma deriv_latticeD:
  assumes "deriv_lattice M xs ys g fin lab"
  shows "0 < length g" "lab 0 = (0, 0, 0)" "fin < length g" "lab fin = (length xs, final M, length ys)"
    "inj_on lab {..<length g}" "\<And>k. k < length g \<Longrightarrow> explored M xs ys (lab k)"
    "\<And>k. k < length g \<Longrightarrow> kept_moves (derives_goal M xs ys) (\<lambda>j e. j < length g \<and> lab j = e) k
          (deriv_moves M xs ys (lab k)) (g ! k)"
    "\<And>k. k < length g \<Longrightarrow> reach g 0 k \<or> g ! k = []"
  using assms unfolding deriv_lattice_def by blast+

lemma kept_moves_useful:
  "kept_moves useful R k ms as \<Longrightarrow> (n, e) \<in> set ms \<Longrightarrow> useful e \<Longrightarrow> \<exists>j. R j e"
  by (induction rule: kept_moves.induct) auto

lemma derives_goal_back: "deriv_move M xs ys d e \<Longrightarrow> derives_goal M xs ys e \<Longrightarrow> derives_goal M xs ys d"
  unfolding deriv_move_def using derives_goal.move by blast

lemma derives_goal_iff_explored: "derives_goal M xs ys d \<longleftrightarrow> (deriv_move M xs ys)\<^sup>*\<^sup>* d (length xs, final M, length ys)"
proof
  show "derives_goal M xs ys d \<Longrightarrow> (deriv_move M xs ys)\<^sup>*\<^sup>* d (length xs, final M, length ys)"
    by (induction rule: derives_goal.induct) (auto simp: deriv_move_def intro: converse_rtranclp_into_rtranclp)
  show "(deriv_move M xs ys)\<^sup>*\<^sup>* d (length xs, final M, length ys) \<Longrightarrow> derives_goal M xs ys d"
    by (induction rule: converse_rtranclp_induct) (auto intro: derives_goal.goal derives_goal_back)
qed

text \<open>The exploration from the start.\<close>

lemma derive_start:
  assumes ok: "wfst_ok M" and D: "d_graph D = []" "d_remove D = []" "d_in D = xs" "d_out D = ys"
    "d_goal D = (length xs, final M, length ys)" "ht_inv deriv_hash (id_of_state D)" "find_second deriv_hash (id_of_state D) = Map.empty"
    and E: "derive (derive_fuel M D) (wfst_io_index M) (all_arcs M) (0, 0, 0) D = (k, E)"
  shows "deriv_inv M xs ys E" "numbered E 0 (0, 0, 0)" "\<And>k d. numbered E k d \<Longrightarrow> deriv_done M xs ys E k d"
    "\<And>k d. numbered E k d \<Longrightarrow> d_remove E ! k \<or> reach (d_graph E) 0 k"
proof -
  have inv: "deriv_inv M xs ys D" using D by (simp add: deriv_inv_def)
  have "unnumbered M xs ys D \<subseteq> deriv_states M xs ys" by (auto simp: unnumbered_def)
  then have "card (unnumbered M xs ys D) < derive_fuel M D"
    using card_mono [OF deriv_states_finite] D(3,4) by (simp only: derive_fuel_def less_Suc_eq_le deriv_states_card [symmetric])
  from derive_spec [OF ok rtranclp.rtrancl_refl inv this] E
  have s: "deriv_inv M xs ys E" "deriv_grows M xs ys k D E" "numbered E k (0, 0, 0)" by (simp_all add: derive_ok_def)
  have "k = 0" using E D(7) by (simp add: derive_fuel_def ht_insert_absent D(1) Let_def split: prod.splits)
  then show "deriv_inv M xs ys E" "numbered E 0 (0, 0, 0)" "\<And>k d. numbered E k d \<Longrightarrow> deriv_done M xs ys E k d"
    "\<And>k d. numbered E k d \<Longrightarrow> d_remove E ! k \<or> reach (d_graph E) 0 k"
    using s deriv_growsD(5,6) [OF s(2)] D(1) by simp_all
qed

lemma derive_finds_goal:
  assumes "\<And>k d. numbered E k d \<Longrightarrow> deriv_done M xs ys E k d" "derives_goal M xs ys d" "numbered E k d"
  shows "\<exists>f. numbered E f (length xs, final M, length ys)"
  using assms(2,3)
proof (induction arbitrary: k rule: derives_goal.induct)
  case (move n e d)
  then show ?case using kept_moves_useful [OF assms(1) [OF move.prems, unfolded deriv_done_def] move.hyps(1,2)] by blast
qed blast

text \<open>Before pruning.\<close>

lemma deriv_inv_lattice:
  assumes inv: "deriv_inv M xs ys E" and start: "numbered E 0 (0, 0, 0)"
    and dn: "\<And>k d. numbered E k d \<Longrightarrow> deriv_done M xs ys E k d"
    and rr: "\<And>k d. numbered E k d \<Longrightarrow> d_remove E ! k \<or> reach (d_graph E) 0 k"
    and f: "numbered E f (length xs, final M, length ys)"
  shows "\<exists>lab. deriv_lattice M xs ys (d_graph E) f lab \<and> (\<forall>k < length (d_graph E). numbered E k (lab k))"
proof -
  note E = deriv_invD [OF inv]
  define lab where "lab k = (SOME d. numbered E k d)" for k
  have lab: "numbered E k (lab k)" if "k < length (d_graph E)" for k
    unfolding lab_def using someI_ex [OF E(6) [OF that]] .
  have eq: "lab k = d" if "numbered E k d" for k d using E(9) [OF lab that] E(7) [OF that] by blast
  have R: "k < length (d_graph E) \<and> lab k = d" if "numbered E k d" for k d using E(7) eq that by blast
  have "deriv_lattice M xs ys (d_graph E) f lab"
    unfolding deriv_lattice_def
  proof (intro conjI allI impI)
    show "0 < length (d_graph E)" "f < length (d_graph E)" using E(7) start f by blast+
    show "lab 0 = (0, 0, 0)" "lab f = (length xs, final M, length ys)" using eq start f by blast+
    show "inj_on lab {..<length (d_graph E)}"
      by (rule inj_onI) (metis lab lessThan_iff option.inject)
    fix k assume k: "k < length (d_graph E)"
    show "explored M xs ys (lab k)" using E(8) lab [OF k] .
    show "kept_moves (derives_goal M xs ys) (\<lambda>j e. j < length (d_graph E) \<and> lab j = e) k
          (deriv_moves M xs ys (lab k)) (d_graph E ! k)"
      by (rule kept_moves_mono [OF dn [OF lab [OF k], unfolded deriv_done_def]]) (rule R)
    show "reach (d_graph E) 0 k \<or> d_graph E ! k = []" using rr [OF lab [OF k]] E(11) [OF lab [OF k]] by blast
  qed
  then show ?thesis using lab by blast
qed

text \<open>Pruning keeps the lattice.\<close>

lemma unmarked_indices:
  assumes "j < length (unmarked v m)" "length v = length m"
  shows "\<exists>k < length m. \<not> m ! k \<and> index_table m ! k = j"
proof -
  let ?u = "unmarked [0..<length m] m"
  have l: "length (unmarked w m) = length (filter Not m)" if "length w = length m" for w :: "'c list"
    using that by (induction w m rule: list_induct2) auto
  have j: "j < length ?u" using assms l [of v] l [of "[0..<length m]"] by simp
  have d: "distinct ?u" unfolding unmarked_def by (rule distinct_map_filter) simp
  have "?u ! j \<in> set ?u" using j by simp
  then have k: "?u ! j < length m" "\<not> m ! (?u ! j)" by (auto simp: unmarked_def set_zip)
  note it = index_table_spec [of "[0..<length m]" m "?u ! j"]
  have "index_table m ! (?u ! j) < length ?u" "?u ! (index_table m ! (?u ! j)) = ?u ! j" using it k by simp_all
  then have "index_table m ! (?u ! j) = j" using j d by (simp add: nth_eq_iff_index_eq)
  then show ?thesis using k by blast
qed

lemma kept_moves_rewrite:
  assumes "kept_moves useful R k ms as" "\<And>j e. R j e \<Longrightarrow> j < n \<and> (m ! j \<longrightarrow> \<not> useful e)"
    "\<And>j e. R j e \<Longrightarrow> \<not> m ! j \<Longrightarrow> R' (ia_map t ! j) e" "\<And>j. j < n \<Longrightarrow> ia_map t ! j = REMOVED \<longleftrightarrow> m ! j"
  shows "kept_moves useful R' (ia_map t ! k) ms (rewrite_GraphState t as)"
  using assms
proof (induction rule: kept_moves.induct)
  case (keep ms as j e n')
  have j: "j < n" "m ! j \<Longrightarrow> \<not> useful e" using keep.prems(1) keep.hyps(2) by blast+
  have IH: "kept_moves useful R' (ia_map t ! k) ms (rewrite_GraphState t as)" using keep.IH keep.prems by blast
  show ?case
  proof (cases "m ! j")
    case True
    then show ?thesis
      using kept_moves.drop [OF IH j(2) [OF True]] keep.prems(3) [OF j(1)] by (simp add: rewrite_GraphState_def)
  next
    case False
    then show ?thesis
      using kept_moves.keep [OF IH keep.prems(2) [OF keep.hyps(2) False]] keep.prems(3) [OF j(1)]
      by (simp add: rewrite_GraphState_def)
  qed
next
  case (drop ms as e n')
  then show ?case using kept_moves.drop by blast
qed (simp add: rewrite_GraphState_def kept_moves.Nil)

lemma deriv_lattice_prune:
  assumes lat: "deriv_lattice M xs ys g f lab" and len: "length m = length g" "length g < uint_minus1"
    and keep: "\<not> m ! 0" "\<not> m ! f" and dead: "\<And>k. k < length g \<Longrightarrow> m ! k \<Longrightarrow> \<not> derives_goal M xs ys (lab k) \<and> g ! k = []"
  defines "g' \<equiv> map (rewrite_GraphState (indices_after_removing m)) (unmarked g m)"
  shows "\<exists>lab'. deriv_lattice M xs ys g' (index_table m ! f) lab'"
proof -
  let ?ia = "indices_after_removing m" and ?tab = "index_table m"
  let ?old = "\<lambda>j. SOME k. k < length g \<and> \<not> m ! k \<and> ?tab ! k = j"
  note L = deriv_latticeD [OF lat]
  have len': "length g = length m" using len(1) by simp
  note it = index_table_spec [OF len'] and t = removing_map_table [of m]
  have to: "?tab ! k < length g'" "g' ! (?tab ! k) = rewrite_GraphState ?ia (g ! k)" if "k < length g" "\<not> m ! k" for k
    using that it(2,3) [of k] len by (simp_all add: g'_def)
  have rem: "ia_map ?ia ! k = REMOVED \<longleftrightarrow> m ! k" if "k < length g" for k
    using it(4) [of k] len that by (simp add: t)
  have old: "\<exists>k < length g. \<not> m ! k \<and> ?tab ! k = j" if "j < length g'" for j
    using unmarked_indices [of j g m] that len by (simp add: g'_def)
  define lab' where "lab' j = lab (?old j)" for j
  have lab': "lab' (?tab ! k) = lab k" if k: "k < length g" "\<not> m ! k" for k
  proof -
    have "?old (?tab ! k) = k"
      by (rule some_equality) (use k index_table_inj [of _ m k] len in auto)
    then show ?thesis by (simp add: lab'_def)
  qed
  have out: "\<not> m ! u" if "edge g u v" for u v using that dead [of u] by (auto simp: edge_def)
  have edge': "edge g' (?tab ! u) (?tab ! v)" if e: "edge g u v" "\<not> m ! v" for u v
  proof -
    obtain a where a: "u < length g" "a \<in> set (g ! u)" "dest a = v" using e(1) by (auto simp: edge_def)
    have "v < length g" using kept_moves_arcs [OF L(7) [OF a(1)] a(2)] a(3) by blast
    then show ?thesis
      using to [OF a(1) out [OF e(1)]] a e(2) rem by (auto simp: edge_def rewrite_GraphState_def t)
  qed
  have reach': "\<not> m ! v \<Longrightarrow> reach g' 0 (?tab ! v)" if "reach g 0 v" for v
    using that
  proof induction
    case base
    then show ?case using index_table_0 [OF keep(1)] L(1) len by simp
  next
    case (step u v)
    then show ?case using out edge' by (meson rtranclp.rtrancl_into_rtrancl)
  qed
  have "deriv_lattice M xs ys g' (?tab ! f) lab'"
    unfolding deriv_lattice_def
  proof (intro conjI allI impI)
    show "0 < length g'" by (rule le_less_trans [OF le0 to(1) [OF L(1) keep(1)]])
    show "?tab ! f < length g'" by (rule to(1) [OF L(3) keep(2)])
    show "lab' 0 = (0, 0, 0)" using lab' [OF L(1) keep(1)] index_table_0 [OF keep(1)] L(1,2) len by simp
    show "lab' (?tab ! f) = (length xs, final M, length ys)" using lab' [OF L(3) keep(2)] L(4) by simp
    show "inj_on lab' {..<length g'}"
    proof (rule inj_onI)
      fix i j assume "i \<in> {..<length g'}" "j \<in> {..<length g'}" and e: "lab' i = lab' j"
      then obtain k l where k: "k < length g" "\<not> m ! k" "?tab ! k = i" and l: "l < length g" "\<not> m ! l" "?tab ! l = j"
        using old by (metis lessThan_iff)
      have "lab k = lab l" using e lab' [OF k(1,2)] lab' [OF l(1,2)] k(3) l(3) by simp
      then show "i = j" using L(5) k l by (metis inj_onD lessThan_iff)
    qed
    fix j assume "j < length g'"
    then obtain k where k: "k < length g" "\<not> m ! k" "?tab ! k = j" using old by blast
    show "explored M xs ys (lab' j)" using L(6) [OF k(1)] lab' [OF k(1,2)] k(3) by simp
    have "kept_moves (derives_goal M xs ys) (\<lambda>j e. j < length g' \<and> lab' j = e) (ia_map ?ia ! k)
        (deriv_moves M xs ys (lab k)) (rewrite_GraphState ?ia (g ! k))"
      by (rule kept_moves_rewrite [OF L(7) [OF k(1)], where n = "length g" and m = m])
         (use dead to(1) lab' rem in \<open>auto simp: t\<close>)
    then show "kept_moves (derives_goal M xs ys) (\<lambda>j e. j < length g' \<and> lab' j = e) j
        (deriv_moves M xs ys (lab' j)) (g' ! j)"
      using lab' [OF k(1,2)] to(2) [OF k(1,2)] k(3) by (simp add: t)
    show "reach g' 0 j \<or> g' ! j = []"
    proof (cases "g ! k = []")
      case True
      then show ?thesis using to(2) [OF k(1,2)] k(3) by (simp add: rewrite_GraphState_def)
    next
      case False
      then show ?thesis using L(8) [OF k(1)] reach' [OF _ k(2)] k(3) by blast
    qed
  qed
  then show ?thesis by blast
qed

definition deriv_fresh :: "nat list \<Rightarrow> nat list \<Rightarrow> 'w derivations \<Rightarrow> bool" where
  "deriv_fresh xs ys D \<longleftrightarrow> d_graph D = [] \<and> d_in D = xs \<and> d_out D = ys \<and> ht_inv deriv_hash (id_of_state D) \<and>
     find_second deriv_hash (id_of_state D) = Map.empty"

lemma derivations_compute_spec:
  assumes ok: "wfst_ok M" and fresh: "deriv_fresh xs ys D" and size: "card (deriv_states M xs ys) < uint_minus1"
    and c: "derivations_compute M (wfst_io_index M) (all_arcs M) drop_names pr D = (found, D')"
  shows "(found \<longleftrightarrow> derives_goal M xs ys (0, 0, 0)) \<and> d_weight D' = d_weight D \<and>
    (found \<longrightarrow> (\<exists>lab. deriv_lattice M xs ys (d_graph D') (d_fin D') lab))"
proof -
  let ?D = "D\<lparr>d_remove := [], d_goal := (length (d_in D), final M, length (d_out D))\<rparr>"
  let ?goal = "(length xs, final M, length ys)"
  obtain k E where E: "derive (derive_fuel M ?D) (wfst_io_index M) (all_arcs M) (0, 0, 0) ?D = (k, E)" by fastforce
  note fr = fresh [unfolded deriv_fresh_def]
  note st = derive_start [OF ok _ _ _ _ _ _ _ E, of xs ys] 
  have st: "deriv_inv M xs ys E" "numbered E 0 (0, 0, 0)" "\<And>k d. numbered E k d \<Longrightarrow> deriv_done M xs ys E k d"
    "\<And>k d. numbered E k d \<Longrightarrow> d_remove E ! k \<or> reach (d_graph E) 0 k"
    using st fr by simp_all
  note I = deriv_invD [OF st(1)]
  have w: "d_weight E = d_weight D"
    using derive_same [of ?D "derive_fuel M ?D" "wfst_io_index M" "all_arcs M" "(0, 0, 0)"] unfolding E by (simp add: same_pair_def)
  have goal: "derives_goal M xs ys (0, 0, 0)" if "numbered E f ?goal" for f
    using I(8) [OF that] by (simp add: derives_goal_iff_explored)
  define D1 where "D1 = (case find_second deriv_hash (id_of_state E) ?goal of Some f \<Rightarrow> E\<lparr>d_fin := f\<rparr> | None \<Rightarrow> E)"
  have gl: "d_goal E = ?goal" by (rule I(3))
  show ?thesis
  proof (cases "find_second deriv_hash (id_of_state E) ?goal")
    case None
    then have "\<not> derives_goal M xs ys (0, 0, 0)" using derive_finds_goal [OF st(3) _ st(2)] by auto
    moreover have "\<not> found \<and> d_weight D' = d_weight E"
      using c None by (auto simp: derivations_compute_def Let_def E gl derivations_prune_def split: if_splits)
    ultimately show ?thesis using w by simp
  next
    case (Some f)
    let ?F = "E\<lparr>d_fin := f, no_goal := False\<rparr>"
    let ?P = "if pr then derivations_prune ?F else ?F"
    have nP: "no_goal ?P = False" "d_weight ?P = d_weight D"
      by (simp_all add: derivations_prune_def Let_def w split: prod.split)
    have D': "found" "d_graph D' = d_graph ?P" "d_fin D' = d_fin ?P" "d_weight D' = d_weight D"
      using c Some nP by (auto simp: derivations_compute_def Let_def E gl simp del: if_split split: if_splits)
    have "\<exists>lab. deriv_lattice M xs ys (d_graph E) f lab \<and> (\<forall>k < length (d_graph E). numbered E k (lab k))"
      by (rule deriv_inv_lattice [OF st(1,2) _ _ Some]) (erule st(3), erule st(4))
    then obtain lab where lab: "deriv_lattice M xs ys (d_graph E) f lab" "\<And>k. k < length (d_graph E) \<Longrightarrow> numbered E k (lab k)" by blast
    have small: "length (d_graph E) < uint_minus1"
    proof -
      have "card (lab ` {..<length (d_graph E)}) = length (d_graph E)"
        using card_image [OF deriv_latticeD(5) [OF lab(1)]] by simp
      moreover have "lab ` {..<length (d_graph E)} \<subseteq> deriv_states M xs ys"
        using explored_states [OF ok deriv_latticeD(6) [OF lab(1)]] by blast
      ultimately show ?thesis using card_mono [OF deriv_states_finite, of _ M xs ys] size by (metis le_less_trans)
    qed
    have "\<exists>lab. deriv_lattice M xs ys (d_graph ?P) (d_fin ?P) lab"
    proof (cases pr)
      case False
      then show ?thesis using lab(1) by auto
    next
      case True
      obtain g' n where sh: "shuffle_removing (rewrite_GraphState (indices_after_removing (d_remove E))) (\<lambda>s. [])
          (indices_after_removing (d_remove E)) (d_graph E) = (g', n)" by fastforce
      have len: "length (d_graph E) = length (d_remove E)" using I(5) by simp
      note ts = shuffle_removing_spec [OF len small [unfolded len] sh]
      have pruned: "d_graph (derivations_prune ?F) = take n g'"
        "d_fin (derivations_prune ?F) = index_table (d_remove E) ! f"
        by (simp_all add: derivations_prune_def Let_def sh removing_map_table)
      have "\<not> d_remove E ! 0" "\<not> d_remove E ! f"
        using I(10) [OF st(2)] goal [OF Some] I(10) [OF Some] derives_goal.goal by blast+
      moreover have "\<not> derives_goal M xs ys (lab k) \<and> d_graph E ! k = []" if "k < length (d_graph E)" "d_remove E ! k" for k
        using I(10,11) [OF lab(2) [OF that(1)] that(2)] by blast
      ultimately show ?thesis
        using deriv_lattice_prune [OF lab(1) I(5) small] True unfolding pruned ts by (simp add: pruned ts)
    qed
    then show ?thesis using D' goal [OF Some] by simp
  qed
qed

section \<open>Properties\<close>

text \<open>C39: the exploration ends: from a fresh object the fuel given to \<open>derive\<close>, one more than the number of
  derivation states, is never used up (any larger fuel gives the same lattice).\<close>

theorem derive_terminates:
  assumes "wfst_ok M" "deriv_fresh xs ys D" "d_remove D = []" "d_goal D = (length xs, final M, length ys)"
  shows "derive (derive_fuel M D + extra) (wfst_io_index M) (all_arcs M) (0, 0, 0) D =
    derive (derive_fuel M D) (wfst_io_index M) (all_arcs M) (0, 0, 0) D"
proof (rule derive_more_fuel [OF assms(1) rtranclp.rtrancl_refl])
  have D: "d_graph D = []" "d_in D = xs" "d_out D = ys" "ht_inv deriv_hash (id_of_state D)"
    "find_second deriv_hash (id_of_state D) = Map.empty"
    using assms(2) by (simp_all add: deriv_fresh_def)
  show "deriv_inv M xs ys D" using D assms(3,4) by (simp add: deriv_inv_def)
  have "unnumbered M xs ys D \<subseteq> deriv_states M xs ys" by (auto simp: unnumbered_def)
  then show "card (unnumbered M xs ys D) < derive_fuel M D"
    using card_mono [OF deriv_states_finite] D by (simp only: derive_fuel_def less_Suc_eq_le deriv_states_card [symmetric])
qed

theorem derive_terminates_witness:
  "let D = (derivations_init [2] [3] 1 derivations_new)\<lparr>d_goal := (1, 3, 1)\<rparr>
   in derive 1000 (wfst_io_index example_wfst) (all_arcs example_wfst) (0, 0, 0) D =
      derive (derive_fuel example_wfst D) (wfst_io_index example_wfst) (all_arcs example_wfst) (0, 0, 0) D"
proof -
  let ?D = "(derivations_init [2] [3] 1 derivations_new)\<lparr>d_goal := (1, 3, 1)\<rparr> :: rat derivations"
  have f: "derive_fuel example_wfst ?D = 17"
    by (simp add: derive_fuel_def derivations_init_def example_wfst_def)
  have "deriv_fresh [2] [3] ?D" "d_remove ?D = []" "d_goal ?D = (length [2 :: nat], final example_wfst, length [3 :: nat])"
    by (simp_all add: deriv_fresh_def derivations_init_def derivations_new_def ht_clear_inv ht_clear_find example_wfst_def)
  from derive_terminates [OF example_wfst_ok this, of 983] show ?thesis by (simp only: f Let_def) simp
qed

end
