(* ===== verification/DerivCounts.thy ===== *)
theory DerivCounts
  imports Derivations
begin

text \<open>
  What the sums over a derivation lattice mean.  The reference is a list of the accepting paths of the
  transducer for a pair of sequences; \<open>sumOfAllPaths\<close> is the sum of the weights of these paths, and
  \<open>collect_counts\<close> adds to the count of every arc the expected number of its uses.
\<close>

section \<open>Accepting paths\<close>

definition consume :: "nat \<Rightarrow> nat list \<Rightarrow> nat list option" where
  "consume x zs = (if x = epsilon_index then Some zs
     else (case zs of [] \<Rightarrow> None | z # zs' \<Rightarrow> if z = x then Some zs' else None))"

text \<open>The paths of exactly \<open>k\<close> arcs from state \<open>s\<close> to the final state that read \<open>xs\<close> and write \<open>ys\<close>, as lists of
  arc numbers.\<close>

fun arc_paths :: "'w WFST \<Rightarrow> nat \<Rightarrow> nat \<Rightarrow> nat list \<Rightarrow> nat list \<Rightarrow> nat list list" where
  "arc_paths M 0 s xs ys = (if s = final M \<and> xs = [] \<and> ys = [] then [[]] else [])"
| "arc_paths M (Suc k) s xs ys =
     concat (map (\<lambda>n. let a = all_arcs M ! n
                      in (case (consume (arc_in a) xs, consume (arc_out a) ys) of
                            (Some xs', Some ys') \<Rightarrow> map ((#) n) (arc_paths M k (arc_dest a) xs' ys')
                          | _ \<Rightarrow> []))
               (arc_ids M s))"

definition arc_wt :: "'w WFST \<Rightarrow> nat \<Rightarrow> 'w" where
  "arc_wt M n = arc_weight (all_arcs M ! n)"

definition path_wt :: "'w::comm_semiring_1 WFST \<Rightarrow> nat list \<Rightarrow> 'w" where
  "path_wt M p = prod_list (map (arc_wt M) p)"

definition path_sum :: "'w::comm_semiring_1 WFST \<Rightarrow> nat \<Rightarrow> nat \<Rightarrow> nat list \<Rightarrow> nat list \<Rightarrow> 'w" where
  "path_sum M k s xs ys = (\<Sum>p\<leftarrow>arc_paths M k s xs ys. path_wt M p)"

definition use_sum :: "'w::comm_semiring_1 WFST \<Rightarrow> nat \<Rightarrow> nat \<Rightarrow> nat \<Rightarrow> nat list \<Rightarrow> nat list \<Rightarrow> 'w" where
  "use_sum M n k s xs ys = (\<Sum>p\<leftarrow>arc_paths M k s xs ys. of_nat (count_list p n) * path_wt M p)"

text \<open>The same over derivation states.\<close>

primrec move_paths :: "'w WFST \<Rightarrow> nat list \<Rightarrow> nat list \<Rightarrow> nat \<Rightarrow> deriv_state \<Rightarrow> nat list list" where
  "move_paths M xs ys 0 d = (if d = (length xs, final M, length ys) then [[]] else [])"
| "move_paths M xs ys (Suc k) d =
     concat (map (\<lambda>(n, e). map ((#) n) (move_paths M xs ys k e)) (deriv_moves M xs ys d))"

lemma move_paths_hopeless: "\<not> derives_goal M xs ys d \<Longrightarrow> move_paths M xs ys k d = []"
proof (induction k arbitrary: d)
  case 0
  then show ?case using derives_goal.goal by auto
next
  case (Suc k)
  have "move_paths M xs ys k e = []" if "(n, e) \<in> set (deriv_moves M xs ys d)" for n e
    using Suc derives_goal.move [OF that] by blast
  then show ?case by (auto simp: concat_eq_Nil_conv)
qed

lemma sum_list_concat_map: "(\<Sum>x\<leftarrow>concat (map h xs). F x) = (\<Sum>x\<leftarrow>xs. \<Sum>y\<leftarrow>h x. (F y :: 'w::monoid_add))"
  by (induction xs) auto

lemma sum_list_filter_if: "(\<Sum>x\<leftarrow>filter P xs. F x) = (\<Sum>x\<leftarrow>xs. if P x then F x else (0 :: 'w::monoid_add))"
  by (induction xs) auto

lemma consume_drop:
  assumes "0 \<notin> set zs" "i \<le> length zs"
  shows "consume x (drop i zs) = (if x = 0 then Some (drop i zs)
    else if i < length zs \<and> zs ! i = x then Some (drop (Suc i) zs) else None)"
  using assms by (cases "i < length zs") (auto simp: consume_def epsilon_index_def Cons_nth_drop_Suc [symmetric])

text \<open>The paths over derivation states are those over the transducer, in another order.\<close>

lemma move_paths_arc_paths:
  fixes F :: "nat list \<Rightarrow> 'w::comm_monoid_add"
  assumes ok: "wfst_ok M" and no: "0 \<notin> set xs" "0 \<notin> set ys"
  shows "(i, s, q) \<in> deriv_states M xs ys \<Longrightarrow>
    (\<Sum>p\<leftarrow>move_paths M xs ys k (i, s, q). F p) = (\<Sum>p\<leftarrow>arc_paths M k s (drop i xs) (drop q ys). F p)"
proof (induction k arbitrary: i s q F)
  case 0
  then show ?case by (auto simp: deriv_states_def)
next
  case (Suc k)
  have i: "i \<le> length xs" and q: "q \<le> length ys" and s: "s < numStates M" using Suc.prems by (auto simp: deriv_states_def)
  let ?a = "\<lambda>n. all_arcs M ! n"
  let ?G = "\<lambda>i' q' n. (\<Sum>p\<leftarrow>arc_paths M k (arc_dest (?a n)) (drop i' xs) (drop q' ys). F (n # p))"
  let ?go = "\<lambda>i' q' x y. (\<Sum>m\<leftarrow>map (\<lambda>n. (n, (i', arc_dest (?a n), q'))) (deriv_match M s x y).
      (\<Sum>p\<leftarrow>move_paths M xs ys k (snd m). F (fst m # p)))"
  have go: "?go i' q' x y = (\<Sum>n\<leftarrow>arc_ids M s. if arc_in (?a n) = x \<and> arc_out (?a n) = y then ?G i' q' n else 0)"
    if "i' \<le> length xs" "q' \<le> length ys" for i' q' x y
  proof -
    have "(\<Sum>p\<leftarrow>move_paths M xs ys k (i', arc_dest (?a n), q'). F (n # p)) = ?G i' q' n" if n: "n \<in> set (arc_ids M s)" for n
    proof (rule Suc.IH)
      have "arc_dest (?a n) < numStates M" using arc_ids_in [OF s n] ok s by (auto simp: wfst_ok_def)
      then show "(i', arc_dest (?a n), q') \<in> deriv_states M xs ys"
        using \<open>i' \<le> length xs\<close> \<open>q' \<le> length ys\<close> by (simp add: deriv_states_def)
    qed
    then have "map (\<lambda>n. \<Sum>p\<leftarrow>move_paths M xs ys k (i', arc_dest (?a n), q'). F (n # p)) (deriv_match M s x y) =
        map (?G i' q') (deriv_match M s x y)"
      by (intro map_cong refl) (simp add: deriv_match_def)
    moreover have "?go i' q' x y = (\<Sum>n\<leftarrow>deriv_match M s x y. \<Sum>p\<leftarrow>move_paths M xs ys k (i', arc_dest (?a n), q'). F (n # p))"
      by (simp add: comp_def)
    ultimately have "?go i' q' x y = (\<Sum>n\<leftarrow>deriv_match M s x y. ?G i' q' n)" by (simp only:)
    then show ?thesis by (simp add: deriv_match_def sum_list_filter_if)
  qed
  let ?c = "\<lambda>n. (if arc_in (?a n) = 0 \<and> arc_out (?a n) = 0 then ?G i q n else 0) +
      ((if q < length ys then (if arc_in (?a n) = 0 \<and> arc_out (?a n) = ys ! q then ?G i (Suc q) n else 0) else 0) +
       ((if i < length xs then (if arc_in (?a n) = xs ! i \<and> arc_out (?a n) = 0 then ?G (Suc i) q n else 0) else 0) +
        (if i < length xs \<and> q < length ys then
           (if arc_in (?a n) = xs ! i \<and> arc_out (?a n) = ys ! q then ?G (Suc i) (Suc q) n else 0) else 0)))"
  have "(\<Sum>p\<leftarrow>move_paths M xs ys (Suc k) (i, s, q). F p) =
      (\<Sum>m\<leftarrow>deriv_moves M xs ys (i, s, q). (\<Sum>p\<leftarrow>move_paths M xs ys k (snd m). F (fst m # p)))"
    by (simp add: sum_list_concat_map case_prod_unfold comp_def)
  also have "\<dots> = ?go i q 0 0 + ((if q < length ys then ?go i (Suc q) 0 (ys ! q) else 0) +
      ((if i < length xs then ?go (Suc i) q (xs ! i) 0 else 0) +
       (if i < length xs \<and> q < length ys then ?go (Suc i) (Suc q) (xs ! i) (ys ! q) else 0)))"
    by (simp add: deriv_moves_def Let_def)
  also have "\<dots> = (\<Sum>n\<leftarrow>arc_ids M s. ?c n)"
    by (simp add: go [OF i q] go [OF i Suc_leI] go [OF Suc_leI q] go [OF Suc_leI Suc_leI] sum_list_addf del: map_map)
  also have "\<dots> = (\<Sum>n\<leftarrow>arc_ids M s. (case (consume (arc_in (?a n)) (drop i xs), consume (arc_out (?a n)) (drop q ys)) of
      (Some xs', Some ys') \<Rightarrow> (\<Sum>p\<leftarrow>arc_paths M k (arc_dest (?a n)) xs' ys'. F (n # p)) | _ \<Rightarrow> 0))"
  proof -
    have "0 \<noteq> xs ! i" if "i < length xs" using that no(1) nth_mem by metis
    moreover have "0 \<noteq> ys ! q" if "q < length ys" using that no(2) nth_mem by metis
    ultimately have "?c n = (case (consume (arc_in (?a n)) (drop i xs), consume (arc_out (?a n)) (drop q ys)) of
      (Some xs', Some ys') \<Rightarrow> (\<Sum>p\<leftarrow>arc_paths M k (arc_dest (?a n)) xs' ys'. F (n # p)) | _ \<Rightarrow> 0)" for n
      unfolding consume_drop [OF no(1) i] consume_drop [OF no(2) q]
      by (cases "arc_in (?a n) = 0"; cases "arc_out (?a n) = 0") auto
    then show ?thesis by simp
  qed
  also have "\<dots> = (\<Sum>p\<leftarrow>arc_paths M (Suc k) s (drop i xs) (drop q ys). F p)"
    by (simp add: sum_list_concat_map Let_def) (intro arg_cong [where f = sum_list] map_cong refl, auto simp: comp_def split: option.split)
  finally show ?case .
qed

section \<open>Sums over a lattice\<close>

definition move_sum :: "'w::comm_semiring_1 WFST \<Rightarrow> nat list \<Rightarrow> nat list \<Rightarrow> nat \<Rightarrow> deriv_state \<Rightarrow> 'w" where
  "move_sum M xs ys k d = (\<Sum>p\<leftarrow>move_paths M xs ys k d. path_wt M p)"

definition move_uses :: "'w::comm_semiring_1 WFST \<Rightarrow> nat list \<Rightarrow> nat list \<Rightarrow> nat \<Rightarrow> nat \<Rightarrow> deriv_state \<Rightarrow> 'w" where
  "move_uses M xs ys n k d = (\<Sum>p\<leftarrow>move_paths M xs ys k d. of_nat (count_list p n) * path_wt M p)"

lemma move_sum_Suc:
  "move_sum M xs ys (Suc k) d = (\<Sum>(m, e)\<leftarrow>deriv_moves M xs ys d. arc_wt M m * move_sum M xs ys k e)"
  by (simp add: move_sum_def sum_list_concat_map case_prod_unfold comp_def path_wt_def sum_list_const_mult)

lemma move_uses_Suc:
  "move_uses M xs ys n (Suc k) d = (\<Sum>(m, e)\<leftarrow>deriv_moves M xs ys d.
     arc_wt M m * ((if m = n then move_sum M xs ys k e else 0) + move_uses M xs ys n k e))"
proof -
  have "(\<Sum>p\<leftarrow>ps. of_nat (count_list (m # p) n) * path_wt M (m # p)) =
      arc_wt M m * ((if m = n then \<Sum>p\<leftarrow>ps. path_wt M p else 0) + (\<Sum>p\<leftarrow>ps. of_nat (count_list p n) * path_wt M p))"
    for m ps by (induction ps) (auto simp: path_wt_def algebra_simps)
  then show ?thesis
    unfolding move_uses_def move_sum_def [abs_def] move_paths.simps
    by (simp add: sum_list_concat_map case_prod_unfold comp_def del: count_list.simps)
qed

lemma kept_sum:
  fixes F :: "nat \<Rightarrow> nat \<Rightarrow> 'w::comm_semiring_1"
  assumes "kept_moves useful R k ms as" "\<And>j e n. R j e \<Longrightarrow> F n j = G n e" "\<And>e n. \<not> useful e \<Longrightarrow> G n e = 0"
  shows "(\<Sum>a\<leftarrow>as. weight_for (all_arcs M) a * F (arc_id a) (dest a)) = (\<Sum>(n, e)\<leftarrow>ms. arc_wt M n * G n e)"
  using assms
  by (induction rule: kept_moves.induct) (simp_all add: weight_for_def arc_id_def arc_wt_def add.commute)

lemma lattice_graph_ok: "deriv_lattice M xs ys g fin lab \<Longrightarrow> graph_ok g"
  unfolding graph_ok_def using kept_moves_arcs [OF deriv_latticeD(7)] by (metis (no_types, lifting))

lemma lattice_sum:
  fixes F :: "nat \<Rightarrow> nat \<Rightarrow> 'w::comm_semiring_1"
  assumes lat: "deriv_lattice M xs ys g fin lab" and s: "s < length g"
    and F: "\<And>j n. j < length g \<Longrightarrow> F n j = G n (lab j)" and G: "\<And>e n. \<not> derives_goal M xs ys e \<Longrightarrow> G n e = 0"
  shows "(\<Sum>a\<leftarrow>g ! s. weight_for (all_arcs M) a * F (arc_id a) (dest a)) =
    (\<Sum>(n, e)\<leftarrow>deriv_moves M xs ys (lab s). arc_wt M n * G n e)"
  by (rule kept_sum [OF deriv_latticeD(7) [OF lat s]]) (use F G in auto)

lemma move_sum_hopeless: "\<not> derives_goal M xs ys d \<Longrightarrow> move_sum M xs ys k d = 0"
  by (simp add: move_sum_def move_paths_hopeless)

lemma move_uses_hopeless: "\<not> derives_goal M xs ys d \<Longrightarrow> move_uses M xs ys n k d = 0"
  by (simp add: move_uses_def move_paths_hopeless)

text \<open>Without a cycle of arcs that neither read nor write, the lattice has no cycle.\<close>

definition eps_step :: "'w WFST \<Rightarrow> nat \<Rightarrow> nat \<Rightarrow> bool" where
  "eps_step M p q \<longleftrightarrow> p < numStates M \<and>
     (\<exists>a \<in> set (arcs (states M ! p)). arc_in a = epsilon_index \<and> arc_out a = epsilon_index \<and> arc_dest a = q)"

lemma deriv_move_forward:
  assumes m: "deriv_move M xs ys (i, s, q) (i', s', q')" and s: "s < numStates M"
  shows "i + q < i' + q' \<or> (i + q = i' + q' \<and> eps_step M s s')"
proof -
  have "all_arcs M ! n \<in> set (arcs (states M ! s))" if "n \<in> set (arc_ids M s)" for n by (rule arc_ids_in [OF s that])
  then show ?thesis
    using m s by (auto simp: deriv_move_def deriv_moves_def deriv_match_def eps_step_def epsilon_index_def Let_def split: if_splits)
qed

lemma lattice_edge_move:
  assumes "deriv_lattice M xs ys g fin lab" "edge g u v"
  shows "deriv_move M xs ys (lab u) (lab v)"
  using assms kept_moves_arcs [OF deriv_latticeD(7) [OF assms(1)]] by (fastforce simp: edge_def deriv_move_def)

lemma lattice_acyclic:
  assumes ok: "wfst_ok M" and lat: "deriv_lattice M xs ys g fin lab" and eps: "\<not> (\<exists>s. (eps_step M)\<^sup>+\<^sup>+ s s)"
  shows "\<not> (edge g)\<^sup>+\<^sup>+ u u"
proof
  assume c: "(edge g)\<^sup>+\<^sup>+ u u"
  let ?pos = "\<lambda>d. fst d + snd (snd d)" and ?st = "\<lambda>d. fst (snd d)"
  have fwd: "?pos (lab u) < ?pos (lab v) \<or> (?pos (lab u) = ?pos (lab v) \<and> eps_step M (?st (lab u)) (?st (lab v)))"
    if e: "edge g u v" for u v
  proof -
    have "u < length g" using e by (simp add: edge_def)
    then have "lab u \<in> deriv_states M xs ys" using explored_states [OF ok] deriv_latticeD(6) [OF lat] by blast
    then have "?st (lab u) < numStates M" by (auto simp: deriv_states_def)
    then show ?thesis using deriv_move_forward [of M xs ys "fst (lab u)" "?st (lab u)" "snd (snd (lab u))"
      "fst (lab v)" "?st (lab v)" "snd (snd (lab v))"] lattice_edge_move [OF lat e] by simp
  qed
  have "?pos (lab u) < ?pos (lab v) \<or> (?pos (lab u) = ?pos (lab v) \<and> (eps_step M)\<^sup>+\<^sup>+ (?st (lab u)) (?st (lab v)))"
    if "(edge g)\<^sup>+\<^sup>+ u v" for v
    using that
  proof induction
    case (base v)
    then show ?case using fwd by blast
  next
    case (step v w)
    have "(eps_step M)\<^sup>+\<^sup>+ (?st (lab u)) (?st (lab w))"
      if "(eps_step M)\<^sup>+\<^sup>+ (?st (lab u)) (?st (lab v))" "eps_step M (?st (lab v)) (?st (lab w))"
      using that by (rule tranclp.trancl_into_trancl)
    then show ?case using fwd [OF step.hyps(2)] step.IH by linarith
  qed
  from this [OF c] eps show False by blast
qed

text \<open>The order in which \<open>make_order\<close> puts the states, and its reverse on the reversed graph.\<close>

lemma topo_sorted_split: "topo_sorted g us \<longleftrightarrow> (\<forall>vs u ws. us = vs @ u # ws \<longrightarrow> (\<forall>a \<in> set (g ! u). dest a \<in> set ws))"
proof (induction us)
  case (Cons x us)
  show ?case
  proof
    assume "topo_sorted g (x # us)"
    then show "\<forall>vs u ws. x # us = vs @ u # ws \<longrightarrow> (\<forall>a \<in> set (g ! u). dest a \<in> set ws)"
      using Cons.IH by (auto simp: Cons_eq_append_conv)
  next
    assume a: "\<forall>vs u ws. x # us = vs @ u # ws \<longrightarrow> (\<forall>a \<in> set (g ! u). dest a \<in> set ws)"
    have "topo_sorted g us" unfolding Cons.IH using a by (metis append_Cons)
    moreover have "\<forall>a \<in> set (g ! x). dest a \<in> set us" using a by (metis append_Nil)
    ultimately show "topo_sorted g (x # us)" by simp
  qed
qed simp

lemma topo_sorted_reverse:
  assumes ok: "graph_ok g" and us: "topo_sorted g us" "distinct us" "set us \<subseteq> {..<length g}"
    and closed: "\<And>u v. edge g u v \<Longrightarrow> v \<in> set us \<Longrightarrow> u \<in> set us"
  shows "topo_sorted (reverseGraph g fwd) (rev us)"
  unfolding topo_sorted_split
proof (intro allI impI ballI)
  fix vs v ws a assume e: "rev us = vs @ v # ws" and a: "a \<in> set (reverseGraph g fwd ! v)"
  have us': "us = rev ws @ v # rev vs" using arg_cong [OF e, of rev] by simp
  have v: "v \<in> set us" by (simp add: us')
  then have "v < length (reverseGraph g fwd)" using us(3) reverseGraph_nth(1) [OF ok] by auto
  then have "edge (reverseGraph g fwd) v (dest a)" using a by (auto simp: edge_def)
  then have ed: "edge g (dest a) v" by (simp add: reverseGraph_edge(2) [OF ok])
  have u: "dest a \<in> set us" by (rule closed [OF ed v])
  show "dest a \<in> set ws"
  proof (rule ccontr)
    assume "dest a \<notin> set ws"
    then have "dest a \<in> set (v # rev vs)" using u us' by auto
    then obtain ds es where "v # rev vs = ds @ dest a # es" by (meson split_list)
    then have "us = (rev ws @ ds) @ dest a # es" using us' by simp
    from topo_sorted_succ [OF us(1) [unfolded this]] ed have "v \<in> set es" by (auto simp: edge_def)
    moreover have "distinct (ds @ dest a # es)" using us(2) us' \<open>v # rev vs = ds @ dest a # es\<close> by simp
    ultimately show False using \<open>v # rev vs = ds @ dest a # es\<close> by (cases ds) auto
  qed
qed

lemma sum_list_enumerate_snd: "(\<Sum>x\<leftarrow>enumerate k xs. F (snd x)) = (\<Sum>l\<leftarrow>xs. F l)"
  by (induction xs arbitrary: k) simp_all

lemma reversed_step_weight:
  fixes getwt :: "('x, 'd) GraphArc \<Rightarrow> 'w::comm_semiring_1"
  assumes ok: "graph_ok g" and u: "u < length g" "v < length g"
    and dt: "\<And>a b. data a = data b \<Longrightarrow> getwt a = getwt b"
  shows "step_weight (reverseGraph g False) getwt u v = step_weight g getwt v u"
proof -
  let ?rv = "\<lambda>l. \<lparr>src = dest l, dest = src l, weight = weight l, data = data l\<rparr>"
  have h: "getwt (?rv l) = getwt l" for l by (rule dt) simp
  have "step_weight (reverseGraph g False) getwt u v =
      (\<Sum>x\<leftarrow>located_arcs g. if dest (snd (snd x)) = u \<and> src (snd (snd x)) = v then getwt (snd (snd x)) else 0)"
    unfolding step_weight_def reverseGraph_nth(2) [OF ok u(1)] filter_map comp_def map_map rev_filter [symmetric] filter_filter rev_map [symmetric] sum_list_rev
    by (simp add: sum_list_filter_if reversed_arc_def case_prod_unfold h conj_commute)
  also have "\<dots> = (\<Sum>i\<leftarrow>[0..<length g]. \<Sum>l\<leftarrow>g ! i. if dest l = u \<and> src l = v then getwt l else 0)"
    using sum_list_enumerate_snd [where k = 0 and F = "\<lambda>l. if dest l = u \<and> src l = v then getwt l else 0"]
    by (simp add: located_arcs_def sum_list_concat_map case_prod_unfold comp_def cong: if_cong)
  also have "\<dots> = (\<Sum>i\<leftarrow>[0..<length g]. if i = v then step_weight g getwt v u else 0)"
  proof (intro arg_cong [where f = sum_list] map_cong refl)
    fix i assume "i \<in> set [0..<length g]"
    then have "src l = i" if "l \<in> set (g ! i)" for l using that ok by (simp add: graph_ok_def)
    then have "(\<Sum>l\<leftarrow>g ! i. if dest l = u \<and> src l = v then getwt l else 0) =
        (\<Sum>l\<leftarrow>g ! i. if i = v then (if dest l = u then getwt l else 0) else 0)"
      by (intro arg_cong [where f = sum_list] map_cong refl) auto
    then show "(\<Sum>l\<leftarrow>g ! i. if dest l = u \<and> src l = v then getwt l else 0) = (if i = v then step_weight g getwt v u else 0)"
      by (simp add: step_weight_def sum_list_filter_if)
  qed
  also have "\<dots> = step_weight g getwt v u"
    using u(2) by (simp add: sum_list_distinct_conv_sum_set)
  finally show ?thesis .
qed

section \<open>Forward and backward values\<close>

definition lattice_order :: "('w, nat) Graph \<Rightarrow> nat list" where
  "lattice_order g = order_ts (topo_order_from g 0 (topo_new g))"

lemma lattice_order_spec:
  assumes ok: "wfst_ok M" and lat: "deriv_lattice M xs ys g fin lab" and eps: "\<not> (\<exists>s. (eps_step M)\<^sup>+\<^sup>+ s s)"
  shows "walk_order g (lattice_order g) 0" "length (lattice_order g) \<le> length g"
    "\<And>k. k < length g \<Longrightarrow> k \<notin> set (lattice_order g) \<Longrightarrow> g ! k = []"
proof -
  note go = lattice_graph_ok [OF lat] and L = deriv_latticeD [OF lat]
  have "\<not> cycle_from g 0" using lattice_acyclic [OF ok lat eps] by (auto simp: cycle_from_def)
  then have nb: "n_back_edges (topo_order_from g 0 (topo_new g)) = 0" using n_back_edges_iff_cycle [OF go L(1)] by simp
  show wo: "walk_order g (lattice_order g) 0" "length (lattice_order g) \<le> length g"
    unfolding lattice_order_def by (rule walk_order_topo [OF go L(1) nb])+
  have "k \<in> set (lattice_order g)" if "reach g 0 k" for k
    using that by induction (use walk_orderD(1,5) [OF wo(1)] topo_sorted_closed in blast)+
  then show "\<And>k. k < length g \<Longrightarrow> k \<notin> set (lattice_order g) \<Longrightarrow> g ! k = []" using L(8) by blast
qed

lemma sum_step_weight:
  assumes ok: "graph_ok g" and s: "s < length g"
  shows "(\<Sum>t < length g. step_weight g getwt s t * F t) = (\<Sum>a\<leftarrow>g ! s. getwt a * (F (dest a) :: 'w::comm_semiring_1))"
proof -
  have "(\<Sum>t < n. (\<Sum>a\<leftarrow>filter (\<lambda>a. dest a = t) as. getwt a) * F t) = (\<Sum>a\<leftarrow>as. getwt a * F (dest a))"
    if "\<forall>a \<in> set as. dest a < n" for as n
    using that
  proof (induction as)
    case (Cons a as)
    have "(\<Sum>t < n. (\<Sum>a\<leftarrow>filter (\<lambda>a. dest a = t) (a # as). getwt a) * F t) =
        (\<Sum>t < n. (if t = dest a then getwt a * F t else 0) + (\<Sum>a\<leftarrow>filter (\<lambda>a. dest a = t) as. getwt a) * F t)"
      by (intro sum.cong refl) (auto simp: distrib_right)
    then show ?case using Cons by (simp add: sum.distrib)
  qed simp
  then show ?thesis using ok s by (simp add: step_weight_def graph_ok_def)
qed

lemma sum_order:
  assumes "distinct us" "set us \<subseteq> {..<n :: nat}" "\<And>u. u < n \<Longrightarrow> u \<notin> set us \<Longrightarrow> F u = (0 :: 'w::comm_monoid_add)"
  shows "(\<Sum>u\<leftarrow>us. F u) = (\<Sum>u < n. F u)"
proof -
  have "(\<Sum>u\<leftarrow>us. F u) = (\<Sum>u \<in> set us. F u)" by (rule sum_list_distinct_conv_sum_set [OF assms(1)])
  also have "\<dots> = (\<Sum>u < n. F u)" by (rule sum.mono_neutral_left) (use assms in auto)
  finally show ?thesis .
qed

lemma step_weight_no_edge: "s < length g \<Longrightarrow> \<not> edge g s t \<Longrightarrow> step_weight g getwt s t = 0"
  by (auto simp: step_weight_def edge_def filter_empty_conv [THEN iffD2])

lemma lattice_forward:
  fixes getwt :: "('x, nat) GraphArc \<Rightarrow> 'w::comm_semiring_1"
  assumes wo: "walk_order g us 0" and out: "\<And>k. k < length g \<Longrightarrow> k \<notin> set us \<Longrightarrow> g ! k = []"
    and f: "f = propagate_paths_in_order g us getwt ((replicate (length g) 0)[0 := 1])" and t: "t < length g"
  shows "f ! t = (if t = 0 then 1 else 0) + (\<Sum>u < length g. f ! u * step_weight g getwt u t)"
proof -
  note w = walk_orderD [OF wo]
  have len: "length ((replicate (length g) 0)[0 := 1]) = length g" by simp
  note sp = propagate_spec [OF w(1-4) len, where getwt = getwt, folded f]
  have "f ! u * step_weight g getwt u t = 0" if "u < length g" "u \<notin> set us" for u
    using out [OF that] by (simp add: step_weight_def)
  with sum_order [OF w(2,4), of "\<lambda>u. f ! u * step_weight g getwt u t"] sp t show ?thesis
    by (auto simp: nth_list_update)
qed

lemma lattice_backward:
  fixes getwt :: "('x, nat) GraphArc \<Rightarrow> 'w::comm_semiring_1"
  assumes wo: "walk_order g us 0" and out: "\<And>k. k < length g \<Longrightarrow> k \<notin> set us \<Longrightarrow> g ! k = []"
    and b: "b = propagate_paths_in_order (reverseGraph g False) (rev us) getwt ((replicate (length g) 0)[fin := 1])"
    and dt: "\<And>a b. data a = data b \<Longrightarrow> getwt a = getwt b" and t: "t < length g" and fin: "fin < length g"
  shows "b ! t = (if t = fin then 1 else 0) + (\<Sum>a\<leftarrow>g ! t. getwt a * b ! dest a)"
proof -
  let ?rg = "reverseGraph g False"
  note w = walk_orderD [OF wo]
  have closed: "u \<in> set us" if "edge g u v" for u v using out [of u] that by (cases "u \<in> set us") (auto simp: edge_def)
  note rl = reverseGraph_nth(1) [OF w(3), of False]
  have srt: "topo_sorted ?rg (rev us)" by (rule topo_sorted_reverse [OF w(3,1,2,4)]) (rule closed)
  have len: "length ((replicate (length g) 0)[fin := 1]) = length ?rg" by (simp add: rl)
  have "distinct (rev us)" "set (rev us) \<subseteq> {..<length ?rg}" using w(2,4) rl by simp_all
  note sp = propagate_spec [OF srt this(1) reverseGraph_edge(1) [OF w(3)] this(2) len, where getwt = getwt, folded b]
  have rs: "step_weight ?rg getwt u t = step_weight g getwt t u" if "u < length g" for u
    by (rule reversed_step_weight [OF w(3) that t dt])
  have "b ! u * step_weight ?rg getwt u t = 0" if "u < length g" "u \<notin> set (rev us)" for u
    using step_weight_no_edge [OF t, of u getwt] topo_sorted_closed [OF w(1) closed] that rs by fastforce
  with sum_order [OF _ _ this, of "rev us"] w(2,4)
  have "(\<Sum>u\<leftarrow>rev us. b ! u * step_weight ?rg getwt u t) = (\<Sum>u < length g. b ! u * step_weight ?rg getwt u t)" by simp
  also have "\<dots> = (\<Sum>u < length g. step_weight g getwt t u * b ! u)" by (intro sum.cong refl) (simp add: rs mult.commute)
  also have "\<dots> = (\<Sum>a\<leftarrow>g ! t. getwt a * b ! dest a)" by (rule sum_step_weight [OF w(3) t])
  finally show ?thesis using sp t rl fin by (auto simp: nth_list_update)
qed

text \<open>The equation for values before a state has one solution, and pairs with the forward values.\<close>

lemma lattice_unique:
  fixes getwt :: "('x, nat) GraphArc \<Rightarrow> 'w::comm_semiring_1"
  assumes wo: "walk_order g us s" and out: "\<And>k. k < length g \<Longrightarrow> k \<notin> set us \<Longrightarrow> g ! k = []"
    and X: "\<And>t. t < length g \<Longrightarrow> X t = c t + (\<Sum>a\<leftarrow>g ! t. getwt a * X (dest a))"
    and Y: "\<And>t. t < length g \<Longrightarrow> Y t = c t + (\<Sum>a\<leftarrow>g ! t. getwt a * Y (dest a))" and t: "t < length g"
  shows "X t = Y t"
proof (cases "t \<in> set us")
  case False
  then show ?thesis using X Y out t by simp
next
  case True
  note w = walk_orderD [OF wo]
  have "\<forall>t \<in> set ws. X t = Y t" if "us = vs @ ws" for vs ws
    using that
  proof (induction ws arbitrary: vs)
    case (Cons u ws)
    then have IH: "\<forall>t \<in> set ws. X t = Y t" by simp
    have "u < length g" using w(4) Cons.prems by auto
    moreover have "map (\<lambda>a. getwt a * X (dest a)) (g ! u) = map (\<lambda>a. getwt a * Y (dest a)) (g ! u)"
      using IH topo_sorted_succ [OF w(1) [unfolded Cons.prems]] by (intro map_cong refl) auto
    ultimately have "X u = Y u" using X [of u] Y [of u] by (simp only:)
    then show ?case using IH by simp
  qed simp
  then show ?thesis using True by (metis append_Nil)
qed

lemma lattice_pairing:
  fixes getwt :: "('x, nat) GraphArc \<Rightarrow> 'w::comm_ring_1"
  assumes ok: "graph_ok g" and s: "0 < length g"
    and f: "\<And>t. t < length g \<Longrightarrow> f t = (if t = 0 then 1 else 0) + (\<Sum>u < length g. f u * step_weight g getwt u t)"
    and X: "\<And>t. t < length g \<Longrightarrow> X t = c t + (\<Sum>a\<leftarrow>g ! t. getwt a * X (dest a))"
  shows "(\<Sum>u < length g. f u * c u) = X 0"
proof -
  let ?n = "length g" and ?w = "step_weight g getwt"
  have "(\<Sum>u < ?n. f u * X u) = (\<Sum>u < ?n. f u * c u) + (\<Sum>u < ?n. \<Sum>t < ?n. f u * ?w u t * X t)"
  proof -
    have "f u * X u = f u * c u + (\<Sum>t < ?n. f u * ?w u t * X t)" if "u < ?n" for u
      unfolding X [OF that] sum_step_weight [OF ok that, symmetric] by (simp add: distrib_left sum_distrib_left mult.assoc)
    then show ?thesis by (simp add: sum.distrib)
  qed
  also have "(\<Sum>u < ?n. \<Sum>t < ?n. f u * ?w u t * X t) = (\<Sum>t < ?n. (\<Sum>u < ?n. f u * ?w u t) * X t)"
    by (subst sum.swap) (simp add: sum_distrib_right)
  also have "\<dots> = (\<Sum>t < ?n. f t * X t - (if t = 0 then X t else 0))"
  proof (intro sum.cong refl)
    fix t assume "t \<in> {..<?n}"
    then have "(\<Sum>u < ?n. f u * ?w u t) = f t - (if t = 0 then 1 else 0)" using f [of t] by simp
    then show "(\<Sum>u < ?n. f u * ?w u t) * X t = f t * X t - (if t = 0 then X t else 0)" by (simp add: left_diff_distrib)
  qed
  also have "\<dots> = (\<Sum>t < ?n. f t * X t) - X 0" using s by (simp add: sum_subtractf)
  finally show ?thesis by (simp add: algebra_simps)
qed

section \<open>The lattice holds all paths\<close>

lemma kept_moves_useful_arc:
  "kept_moves useful R k ms as \<Longrightarrow> (n, e) \<in> set ms \<Longrightarrow> useful e \<Longrightarrow> \<exists>a \<in> set as. R (dest a) e"
  by (induction rule: kept_moves.induct) auto

lemma move_paths_none:
  assumes lat: "deriv_lattice M xs ys g fin lab" and t: "t < length g"
    and dests: "\<And>a. a \<in> set (g ! t) \<Longrightarrow> move_paths M xs ys k (lab (dest a)) = []"
  shows "move_paths M xs ys (Suc k) (lab t) = []"
proof -
  have "move_paths M xs ys k e = []" if mv: "(n, e) \<in> set (deriv_moves M xs ys (lab t))" for n e
  proof (cases "derives_goal M xs ys e")
    case True
    then obtain a where "a \<in> set (g ! t)" "lab (dest a) = e"
      using kept_moves_useful_arc [OF deriv_latticeD(7) [OF lat t] mv] by blast
    then show ?thesis using dests by blast
  qed (rule move_paths_hopeless)
  then show ?thesis by (auto simp: concat_eq_Nil_conv)
qed

lemma move_paths_long:
  assumes wo: "walk_order g us 0" "length us \<le> length g" and out: "\<And>k. k < length g \<Longrightarrow> k \<notin> set us \<Longrightarrow> g ! k = []"
    and lat: "deriv_lattice M xs ys g fin lab" and t: "t < length g" and k: "length g \<le> k"
  shows "move_paths M xs ys k (lab t) = []"
proof -
  note w = walk_orderD [OF wo(1)]
  have "\<forall>t \<in> set ws. \<forall>k \<ge> length ws. move_paths M xs ys k (lab t) = []" if "us = vs @ ws" for vs ws
    using that
  proof (induction ws arbitrary: vs)
    case (Cons u ws)
    then have IH: "\<forall>t \<in> set ws. \<forall>k \<ge> length ws. move_paths M xs ys k (lab t) = []" by simp
    have u: "u < length g" using w(4) Cons.prems by auto
    have "move_paths M xs ys k (lab u) = []" if k: "length (u # ws) \<le> k" for k
    proof -
      obtain j where j: "k = Suc j" "length ws \<le> j" using k by (cases k) auto
      show ?thesis unfolding j(1)
        by (rule move_paths_none [OF lat u]) (use IH j(2) topo_sorted_succ [OF w(1) [unfolded Cons.prems]] in blast)
    qed
    then show ?case using IH by simp
  qed simp
  from this [of "[]" us] have "\<forall>t \<in> set us. \<forall>k \<ge> length us. move_paths M xs ys k (lab t) = []" by simp
  then show ?thesis
  proof (cases "t \<in> set us")
    case False
    obtain j where "k = Suc j" using k t by (cases k) auto
    then show ?thesis using move_paths_none [OF lat t, of j] out [OF t False] by simp
  qed (use wo(2) k in simp)
qed

lemma sum_shift: "(\<Sum>k \<le> N. F k) = F 0 + (\<Sum>k < N. (F (Suc k) :: 'w::comm_monoid_add))"
  by (simp add: lessThan_Suc_atMost [symmetric] sum.lessThan_Suc_shift del: sum.lessThan_Suc)

lemma sum_list_sum_swap: "(\<Sum>k \<in> A. \<Sum>a\<leftarrow>as. F k a) = (\<Sum>a\<leftarrow>as. \<Sum>k \<in> A. (F k a :: 'w::comm_monoid_add))"
  by (induction as) (simp_all add: sum.distrib)

lemma lattice_paths_value:
  fixes M :: "'w::comm_semiring_1 WFST" and n :: nat
  assumes lat: "deriv_lattice M xs ys g fin lab" and t: "t < length g"
    and long: "\<And>t. t < length g \<Longrightarrow> move_paths M xs ys N (lab t) = []"
  defines "P \<equiv> \<lambda>t. \<Sum>k \<le> N. move_sum M xs ys k (lab t)" and "V \<equiv> \<lambda>t. \<Sum>k \<le> N. move_uses M xs ys n k (lab t)"
  shows "P t = (if t = fin then 1 else 0) + (\<Sum>a\<leftarrow>g ! t. weight_for (all_arcs M) a * P (dest a))"
    "V t = (\<Sum>a\<leftarrow>g ! t. if arc_id a = n then weight_for (all_arcs M) a * P (dest a) else 0) +
       (\<Sum>a\<leftarrow>g ! t. weight_for (all_arcs M) a * V (dest a))"
proof -
  note L = deriv_latticeD [OF lat]
  let ?w = "weight_for (all_arcs M)"
  have dests: "dest a < length g" if "a \<in> set (g ! t)" for a using lattice_graph_ok [OF lat] t that by (simp add: graph_ok_def)
  have top: "(\<Sum>k < N. move_sum M xs ys k (lab u)) = P u" "(\<Sum>k < N. move_uses M xs ys n k (lab u)) = V u"
    if "u < length g" for u
    using long [OF that] by (simp_all add: P_def V_def lessThan_Suc_atMost [symmetric] move_sum_def move_uses_def)
  have base: "move_sum M xs ys 0 (lab t) = (if t = fin then 1 else 0)" "move_uses M xs ys n 0 (lab t) = 0"
  proof -
    have "lab t = (length xs, final M, length ys) \<longleftrightarrow> t = fin" using L(3,4,5) t by (metis inj_onD lessThan_iff)
    then show "move_sum M xs ys 0 (lab t) = (if t = fin then 1 else 0)" "move_uses M xs ys n 0 (lab t) = 0"
      by (simp_all add: move_sum_def move_uses_def path_wt_def)
  qed
  have S: "move_sum M xs ys (Suc k) (lab t) = (\<Sum>a\<leftarrow>g ! t. ?w a * move_sum M xs ys k (lab (dest a)))" for k
    unfolding move_sum_Suc by (rule lattice_sum [OF lat t, symmetric]) (simp_all add: move_sum_hopeless)
  have U: "move_uses M xs ys n (Suc k) (lab t) = (\<Sum>a\<leftarrow>g ! t. ?w a *
      ((if arc_id a = n then move_sum M xs ys k (lab (dest a)) else 0) + move_uses M xs ys n k (lab (dest a))))" for k
    unfolding move_uses_Suc
    by (rule lattice_sum [OF lat t, symmetric, where F = "\<lambda>m j. (if m = n then move_sum M xs ys k (lab j) else 0) +
          move_uses M xs ys n k (lab j)"]) (simp_all add: move_sum_hopeless move_uses_hopeless)
  have "P t = (if t = fin then 1 else 0) + (\<Sum>a\<leftarrow>g ! t. \<Sum>k < N. ?w a * move_sum M xs ys k (lab (dest a)))"
    by (simp add: P_def sum_shift base S sum_list_sum_swap)
  also have "map (\<lambda>a. \<Sum>k < N. ?w a * move_sum M xs ys k (lab (dest a))) (g ! t) = map (\<lambda>a. ?w a * P (dest a)) (g ! t)"
    by (intro map_cong refl) (simp add: sum_distrib_left [symmetric] top dests)
  finally show "P t = (if t = fin then 1 else 0) + (\<Sum>a\<leftarrow>g ! t. ?w a * P (dest a))" .
  have "V t = (\<Sum>a\<leftarrow>g ! t. \<Sum>k < N. ?w a *
      ((if arc_id a = n then move_sum M xs ys k (lab (dest a)) else 0) + move_uses M xs ys n k (lab (dest a))))"
    by (simp add: V_def sum_shift base U sum_list_sum_swap)
  also have "map (\<lambda>a. \<Sum>k < N. ?w a *
      ((if arc_id a = n then move_sum M xs ys k (lab (dest a)) else 0) + move_uses M xs ys n k (lab (dest a)))) (g ! t) =
      map (\<lambda>a. (if arc_id a = n then ?w a * P (dest a) else 0) + ?w a * V (dest a)) (g ! t)"
    by (intro map_cong refl) (simp add: sum_distrib_left [symmetric] sum.distrib top dests distrib_left)
  finally show "V t = (\<Sum>a\<leftarrow>g ! t. if arc_id a = n then ?w a * P (dest a) else 0) + (\<Sum>a\<leftarrow>g ! t. ?w a * V (dest a))"
    by (simp add: sum_list_addf)
qed

lemma weight_for_data: "data a = data b \<Longrightarrow> weight_for atab a = weight_for atab b"
  by (simp add: weight_for_def)

text \<open>The three results of \<open>compute_fb\<close> on a lattice.\<close>

lemma lattice_fb:
  fixes M :: "'w::comm_ring_1 WFST"
  assumes ok: "wfst_ok M" and eps: "\<not> (\<exists>s. (eps_step M)\<^sup>+\<^sup>+ s s)"
    and lat: "deriv_lattice M xs ys (d_graph D) (d_fin D) lab" and N: "length (d_graph D) \<le> N"
    and fb: "compute_fb (all_arcs M) D = (prob, f, b)"
  defines "P \<equiv> \<lambda>t. \<Sum>k \<le> N. move_sum M xs ys k (lab t)"
  shows "deriv_prob (all_arcs M) D = P 0" "prob = P 0" "\<And>t. t < length (d_graph D) \<Longrightarrow> b ! t = P t"
    "(\<Sum>s < length (d_graph D). f ! s * (\<Sum>a\<leftarrow>d_graph D ! s. if arc_id a = n then weight_for (all_arcs M) a * b ! dest a else 0)) =
      (\<Sum>k \<le> N. move_uses M xs ys n k (lab 0))"
proof -
  let ?g = "d_graph D" and ?w = "weight_for (all_arcs M)" and ?us = "lattice_order (d_graph D)"
  let ?V = "\<lambda>t. \<Sum>k \<le> N. move_uses M xs ys n k (lab t)"
  note L = deriv_latticeD [OF lat] and go = lattice_graph_ok [OF lat] and lo = lattice_order_spec [OF ok lat eps]
  have ord: "rev (make_order D) = ?us" "make_order D = rev ?us"
    by (simp_all add: make_order_def reverse_topo_order_from_def lattice_order_def)
  have f: "f = propagate_paths_in_order ?g ?us ?w ((replicate (length ?g) 0)[0 := 1])"
    and b: "b = propagate_paths_in_order (reverseGraph ?g False) (rev ?us) ?w ((replicate (length ?g) 0)[d_fin D := 1])"
    and p: "prob = f ! d_fin D"
    using fb by (auto simp: compute_fb_def Let_def ord)
  have long: "move_paths M xs ys N (lab t) = []" if "t < length ?g" for t
    by (rule move_paths_long [OF lo lat that N])
  have val1: "P t = (if t = d_fin D then 1 else 0) + (\<Sum>a\<leftarrow>?g ! t. ?w a * P (dest a))" if "t < length ?g" for t
    unfolding P_def by (rule lattice_paths_value(1) [OF lat that long])
  have val2: "?V t = (\<Sum>a\<leftarrow>?g ! t. if arc_id a = n then ?w a * P (dest a) else 0) + (\<Sum>a\<leftarrow>?g ! t. ?w a * ?V (dest a))"
    if "t < length ?g" for t
    unfolding P_def by (rule lattice_paths_value(2) [OF lat that long])
  note fe = lattice_forward [OF lo(1,3) f]
  have be: "b ! t = (if t = d_fin D then 1 else 0) + (\<Sum>a\<leftarrow>?g ! t. ?w a * b ! dest a)" if "t < length ?g" for t
    by (rule lattice_backward [OF lo(1,3) b weight_for_data that L(3)])
  show bP: "b ! t = P t" if "t < length ?g" for t
    by (rule lattice_unique [where X = "(!) b" and Y = P and c = "\<lambda>t. if t = d_fin D then 1 else 0" and getwt = ?w,
          OF lo(1,3) be val1 that])
  have "(\<Sum>u < length ?g. f ! u * (if u = d_fin D then 1 else 0)) = P 0"
    by (rule lattice_pairing [where f = "\<lambda>u. f ! u", OF go L(1) fe val1])
  then have "f ! d_fin D = P 0" using L(3) by (simp add: if_distrib [of "(*) _"] cong: if_cong)
  then show "prob = P 0" "deriv_prob (all_arcs M) D = P 0" by (simp_all add: p deriv_prob_def ord f)
  have "(\<Sum>s < length ?g. f ! s * (\<Sum>a\<leftarrow>?g ! s. if arc_id a = n then ?w a * P (dest a) else 0)) = ?V 0"
    by (rule lattice_pairing [where f = "\<lambda>u. f ! u" and X = ?V, OF go L(1) fe val2])
  moreover have "(\<Sum>a\<leftarrow>?g ! s. if arc_id a = n then ?w a * b ! dest a else 0) =
      (\<Sum>a\<leftarrow>?g ! s. if arc_id a = n then ?w a * P (dest a) else 0)" if s: "s < length ?g" for s
    by (intro arg_cong [where f = sum_list] map_cong refl) (use s go bP in \<open>simp add: graph_ok_def\<close>)
  ultimately show "(\<Sum>s < length ?g. f ! s * (\<Sum>a\<leftarrow>?g ! s. if arc_id a = n then ?w a * b ! dest a else 0)) = ?V 0"
    by simp
qed

section \<open>Counting\<close>

lemma fold_add_at:
  "length (fold (\<lambda>a c. c[h a := c ! h a + v a]) as counts) = length counts \<and>
   (n < length counts \<longrightarrow> fold (\<lambda>a c. c[h a := c ! h a + v a]) as counts ! n =
      counts ! n + (\<Sum>a\<leftarrow>as. if h a = n then v a else (0 :: 'w::comm_monoid_add)))"
proof (induction as arbitrary: counts)
  case (Cons a as)
  from Cons [of "counts[h a := counts ! h a + v a]"] show ?case by (auto simp: nth_list_update add.assoc)
qed simp

lemma collect_counts_at:
  fixes atab :: "('w::field) FSTArc list"
  assumes fb: "compute_fb atab D = (prob, f, b)" and src: "\<And>s a. s < length (d_graph D) \<Longrightarrow> a \<in> set (d_graph D ! s) \<Longrightarrow> src a = s"
  shows "fst (collect_counts atab D counts) = prob" "length (snd (collect_counts atab D counts)) = length counts"
    "n < length counts \<Longrightarrow> snd (collect_counts atab D counts) ! n = counts ! n +
      (\<Sum>s < length (d_graph D). f ! s * (\<Sum>a\<leftarrow>d_graph D ! s. if arc_id a = n then weight_for atab a * b ! dest a else 0))
        * d_weight D / prob"
proof -
  let ?v = "\<lambda>a. weight_for atab a * f ! src a * b ! dest a * d_weight D / prob"
  let ?as = "concat (map ((!) (d_graph D)) [0..<length (d_graph D)])"
  have c: "collect_counts atab D counts = (prob, fold (\<lambda>a c. c[arc_id a := c ! arc_id a + ?v a]) ?as counts)"
    by (simp add: collect_counts_def fb Let_def fold_concat_map)
  note at = fold_add_at [where h = arc_id and v = ?v and as = ?as and counts = counts and n = n]
  show "fst (collect_counts atab D counts) = prob" "length (snd (collect_counts atab D counts)) = length counts"
    using at by (simp_all add: c)
  have "(\<Sum>a\<leftarrow>d_graph D ! s. if arc_id a = n then ?v a else 0) =
      f ! s * (\<Sum>a\<leftarrow>d_graph D ! s. if arc_id a = n then weight_for atab a * b ! dest a else 0) * d_weight D / prob"
    if s: "s < length (d_graph D)" for s
  proof -
    have "map (\<lambda>a. if arc_id a = n then ?v a else 0) (d_graph D ! s) =
        map (\<lambda>a. f ! s * (d_weight D / prob) * (if arc_id a = n then weight_for atab a * b ! dest a else 0)) (d_graph D ! s)"
      by (intro map_cong refl) (simp add: src [OF s])
    then show ?thesis by (simp only: sum_list_const_mult) simp
  qed
  then have "(\<Sum>a\<leftarrow>?as. if arc_id a = n then ?v a else 0) =
      (\<Sum>s < length (d_graph D). f ! s * (\<Sum>a\<leftarrow>d_graph D ! s. if arc_id a = n then weight_for atab a * b ! dest a else 0) * d_weight D / prob)"
    by (simp add: sum_list_concat_map sum_list_distinct_conv_sum_set atLeast0LessThan)
  then show "n < length counts \<Longrightarrow> snd (collect_counts atab D counts) ! n = counts ! n +
      (\<Sum>s < length (d_graph D). f ! s * (\<Sum>a\<leftarrow>d_graph D ! s. if arc_id a = n then weight_for atab a * b ! dest a else 0))
        * d_weight D / prob"
    using at by (simp add: c sum_distrib_right sum_divide_distrib)
qed

lemma lattice_size:
  assumes "wfst_ok M" "deriv_lattice M xs ys g fin lab"
  shows "length g \<le> card (deriv_states M xs ys)"
proof -
  note L = deriv_latticeD [OF assms(2)]
  have "card (lab ` {..<length g}) = length g" using card_image [OF L(5)] by simp
  moreover have "lab ` {..<length g} \<subseteq> deriv_states M xs ys" using explored_states [OF assms(1) L(6)] by blast
  ultimately show ?thesis using card_mono [OF deriv_states_finite, of _ M xs ys] by metis
qed

lemma start_state: "wfst_ok M \<Longrightarrow> (0, 0, 0) \<in> deriv_states M xs ys"
  using explored_states by blast

lemma start_paths:
  fixes M :: "'w::comm_semiring_1 WFST"
  assumes "wfst_ok M" "0 \<notin> set xs" "0 \<notin> set ys"
  shows "move_sum M xs ys k (0, 0, 0) = (\<Sum>p\<leftarrow>arc_paths M k 0 xs ys. path_wt M p)"
    "move_uses M xs ys n k (0, 0, 0) = (\<Sum>p\<leftarrow>arc_paths M k 0 xs ys. of_nat (count_list p n) * path_wt M p)"
  using move_paths_arc_paths [OF assms start_state [OF assms(1)], where k = k and F = "path_wt M"]
    move_paths_arc_paths [OF assms start_state [OF assms(1)], where k = k and F = "\<lambda>p. of_nat (count_list p n) * path_wt M p"]
  by (simp_all add: move_sum_def move_uses_def)

lemma derives_goal_paths: "derives_goal M xs ys d \<longleftrightarrow> (\<exists>k. move_paths M xs ys k d \<noteq> [])"
proof
  show "derives_goal M xs ys d \<Longrightarrow> \<exists>k. move_paths M xs ys k d \<noteq> []"
  proof (induction rule: derives_goal.induct)
    case goal
    show ?case by (rule exI [of _ 0]) simp
  next
    case (move n e d)
    then obtain k where "move_paths M xs ys k e \<noteq> []" by blast
    then have "move_paths M xs ys (Suc k) d \<noteq> []" using move.hyps(1) by (force simp: concat_eq_Nil_conv)
    then show ?case by blast
  qed
  show "\<exists>k. move_paths M xs ys k d \<noteq> [] \<Longrightarrow> derives_goal M xs ys d" using move_paths_hopeless by blast
qed

lemma start_derives_goal:
  assumes "wfst_ok M" "0 \<notin> set xs" "0 \<notin> set ys"
  shows "derives_goal M xs ys (0, 0, 0) \<longleftrightarrow> (\<exists>k. arc_paths M k 0 xs ys \<noteq> [])"
proof -
  have "length (move_paths M xs ys k (0, 0, 0)) = length (arc_paths M k 0 xs ys)" for k
    using move_paths_arc_paths [OF assms start_state [OF assms(1)], where k = k and F = "\<lambda>_. 1 :: nat"]
    by (simp add: sum_list_triv)
  then show ?thesis unfolding derives_goal_paths by (metis length_0_conv)
qed

lemma derivations_init_fresh: "deriv_fresh xs ys (derivations_init xs ys w derivations_new)"
  by (simp add: deriv_fresh_def derivations_init_def derivations_new_def ht_clear_inv ht_clear_find)

section \<open>Properties\<close>

lemma sumOfAllPaths_value:
  fixes M :: "'w::field WFST"
  assumes ok: "wfst_ok M" and eps: "\<not> (\<exists>s. (eps_step M)\<^sup>+\<^sup>+ s s)" and no: "0 \<notin> set xs" "0 \<notin> set ys"
    and size: "card (deriv_states M xs ys) < uint_minus1" and N: "card (deriv_states M xs ys) \<le> N"
  shows "sumOfAllPaths M xs ys = (\<Sum>k \<le> N. \<Sum>p\<leftarrow>arc_paths M k 0 xs ys. path_wt M p)"
proof -
  obtain found D where c: "derivations_compute M (wfst_io_index M) (all_arcs M) True True
      (derivations_init xs ys 1 derivations_new) = (found, D)" by fastforce
  note sp = derivations_compute_spec [OF ok derivations_init_fresh size c]
  note st = start_paths [OF ok no]
  show ?thesis
  proof (cases found)
    case True
    then obtain lab where lat: "deriv_lattice M xs ys (d_graph D) (d_fin D) lab" using sp by blast
    have N': "length (d_graph D) \<le> N" using lattice_size [OF ok lat] N by simp
    obtain prob f b where fb: "compute_fb (all_arcs M) D = (prob, f, b)" by (metis prod_cases3)
    have "sumOfAllPaths M xs ys = deriv_prob (all_arcs M) D" using c True by (simp add: sumOfAllPaths_def)
    then show ?thesis
      using lattice_fb(1) [OF ok eps lat N' fb] deriv_latticeD(2) [OF lat] by (simp add: st)
  next
    case False
    then have "move_sum M xs ys k (0, 0, 0) = 0" for k using sp move_sum_hopeless by blast
    then show ?thesis using c False by (simp add: sumOfAllPaths_def st [symmetric])
  qed
qed

text \<open>C36: \<open>WFST::sumOfAllPaths\<close> (the forward sum over the pruned derivation lattice) is the sum, over all
  accepting paths that read the input and write the output sequence, of the product of the arc weights.  The
  transducer may have arcs that read or write nothing, but no cycle of arcs that do neither; path lengths
  up to the number of derivation states are enough.\<close>

theorem sumOfAllPaths_sums_paths:
  fixes M :: "'w::field WFST"
  assumes "wfst_ok M" "\<not> (\<exists>s. (eps_step M)\<^sup>+\<^sup>+ s s)" "0 \<notin> set xs" "0 \<notin> set ys"
    and "Suc (length xs) * numStates M * Suc (length ys) < uint_minus1" "Suc (length xs) * numStates M * Suc (length ys) \<le> N"
  shows "sumOfAllPaths M xs ys = (\<Sum>k \<le> N. \<Sum>p\<leftarrow>arc_paths M k 0 xs ys. \<Prod>n\<leftarrow>p. arc_weight (all_arcs M ! n))"
  using sumOfAllPaths_value [OF assms(1-4), of N] assms(5,6)
  by (simp only: deriv_states_card path_wt_def arc_wt_def [abs_def])

text \<open>A transducer with two ways to map the symbol 1 to 2, one of them by an arc that writes nothing and one that
  reads nothing.\<close>

definition deriv_example :: "rat WFST" where
  "deriv_example = \<lparr>owner_alph = \<lambda>_. False, alph = \<lambda>_. None, named_states = False, stateNames = alph_empty, final = 1,
     states = [fold addArc [mk_arc 3 4 1 (1/2), mk_arc 3 0 2 (1/4)] state_new, state_new,
       fold addArc [mk_arc 0 4 1 (1/3)] state_new],
     indexed_by = kNone\<rparr>"

lemma deriv_example_arcs:
  "numStates deriv_example = 3" "final deriv_example = 1"
  "all_arcs deriv_example = [mk_arc 3 0 2 (1/4), mk_arc 3 4 1 (1/2), mk_arc 0 4 1 (1/3)]"
  "arc_ids deriv_example 0 = [0, 1]" "arc_ids deriv_example (Suc 0) = []" "arc_ids deriv_example 2 = [2]"
  by (simp_all add: deriv_example_def all_arcs_def arc_ids_def arc_offset_def addArc_def state_new_def upt_rec numeral_eq_Suc)

lemma deriv_example_ok: "wfst_ok deriv_example" "\<not> (\<exists>s. (eps_step deriv_example)\<^sup>+\<^sup>+ s s)"
proof -
  show "wfst_ok deriv_example"
    by (simp add: wfst_ok_def deriv_example_def addArc_def state_new_def mk_arc_def size_ok_def uint_minus1_def no_holes_def)
  have "\<not> eps_step deriv_example p q" for p q
    by (cases p; cases "p - 1") (auto simp: eps_step_def deriv_example_def epsilon_index_def addArc_def state_new_def mk_arc_def nth_Cons')
  then show "\<not> (\<exists>s. (eps_step deriv_example)\<^sup>+\<^sup>+ s s)" by (metis tranclpD)
qed

lemma deriv_example_paths:
  "arc_paths deriv_example k 0 [3] [4] = (if k = 1 then [[1]] else if k = 2 then [[0, 2]] else [])"
proof -
  have z: "arc_paths deriv_example k (Suc 0) [] [] = (if k = 0 then [[]] else [])" for k
    by (cases k) (simp_all add: deriv_example_arcs)
  have e: "arc_paths deriv_example k 2 [] [4] = (if k = Suc 0 then [[2]] else [])" for k
    by (cases k) (simp_all add: deriv_example_arcs consume_def epsilon_index_def mk_arc_def z)
  show ?thesis
    by (cases k) (auto simp: deriv_example_arcs consume_def epsilon_index_def mk_arc_def z e)
qed

lemma deriv_example_sum:
  "(\<Sum>k \<le> 12. \<Sum>p\<leftarrow>arc_paths deriv_example k 0 [3] [4]. G p) = G [1] + (G [0, 2] :: rat)"
  by (simp only: deriv_example_paths) (simp add: numeral_eq_Suc)

theorem sumOfAllPaths_sums_paths_witness: "sumOfAllPaths deriv_example [3] [4] = 7/12"
  using sumOfAllPaths_sums_paths [OF deriv_example_ok, of "[3]" "[4]" 12]
  by (simp only: deriv_example_sum) (simp add: deriv_example_arcs mk_arc_def uint_minus1_def)

text \<open>C38: \<open>derivations::compute\<close> succeeds exactly when some accepting path reads the input and writes the
  output sequence, pruned or not and whatever cycles the transducer has; otherwise the graph is emptied.\<close>

theorem derivations_compute_finds_paths:
  assumes "wfst_ok M" "0 \<notin> set xs" "0 \<notin> set ys" "Suc (length xs) * numStates M * Suc (length ys) < uint_minus1"
    and "derivations_compute M (wfst_io_index M) (all_arcs M) drop_names pr (derivations_init xs ys w derivations_new) = (found, D)"
  shows "(found \<longleftrightarrow> (\<exists>k. arc_paths M k 0 xs ys \<noteq> [])) \<and> (d_graph D = [] \<longleftrightarrow> \<not> found)"
proof -
  note sp = derivations_compute_spec [OF assms(1) derivations_init_fresh _ assms(5), unfolded deriv_states_card, OF assms(4)]
  have "d_graph D = []" if "\<not> found"
    using assms(5) that by (auto simp: derivations_compute_def Let_def split: prod.splits if_splits)
  moreover have "d_graph D \<noteq> []" if "found" using sp that deriv_latticeD(1) by blast
  ultimately show ?thesis using sp start_derives_goal [OF assms(1-3)] by blast
qed

theorem derivations_compute_finds_paths_witness:
  "\<not> fst (derivations_compute deriv_example (wfst_io_index deriv_example) (all_arcs deriv_example) False True
     (derivations_init [4] [4] 1 derivations_new))"
proof -
  have "arc_paths deriv_example k 0 [4] [4] = []" for k
    by (cases k) (simp_all add: consume_def epsilon_index_def Let_def deriv_example_arcs mk_arc_def)
  moreover obtain found D where c: "derivations_compute deriv_example (wfst_io_index deriv_example) (all_arcs deriv_example)
      False True (derivations_init [4] [4] 1 derivations_new) = (found, D)" by fastforce
  ultimately show ?thesis
    using derivations_compute_finds_paths [OF deriv_example_ok(1) _ _ _ c] by (simp add: deriv_example_arcs uint_minus1_def)
qed

lemma collect_counts_lattice:
  fixes M :: "'w::field WFST"
  assumes ok: "wfst_ok M" "\<not> (\<exists>s. (eps_step M)\<^sup>+\<^sup>+ s s)" and no: "0 \<notin> set xs" "0 \<notin> set ys"
    and N: "Suc (length xs) * numStates M * Suc (length ys) \<le> N"
    and lat: "deriv_lattice M xs ys (d_graph D) (d_fin D) lab"
    and c: "collect_counts (all_arcs M) D counts = (prob', counts')"
  defines "prob \<equiv> \<Sum>k \<le> N. \<Sum>p\<leftarrow>arc_paths M k 0 xs ys. path_wt M p"
  shows "prob' = prob" "length counts' = length counts" "n < length counts \<Longrightarrow> counts' ! n = counts ! n +
    d_weight D * (\<Sum>k \<le> N. \<Sum>p\<leftarrow>arc_paths M k 0 xs ys. of_nat (count_list p n) * path_wt M p) / prob"
proof -
  have N: "length (d_graph D) \<le> N" using lattice_size [OF ok(1) lat] N unfolding deriv_states_card by linarith
  obtain p f b where fb: "compute_fb (all_arcs M) D = (p, f, b)" by (metis prod_cases3)
  have "src a = s" if "s < length (d_graph D)" "a \<in> set (d_graph D ! s)" for s a
    using lattice_graph_ok [OF lat] that by (simp add: graph_ok_def)
  note cc = collect_counts_at [OF fb this]
  note lf = lattice_fb [OF ok lat N fb]
  show "prob' = prob" "length counts' = length counts"
    using cc(1,2) [where counts = counts] lf(2) deriv_latticeD(2) [OF lat] by (simp_all add: c prob_def start_paths [OF ok(1) no])
  show "counts' ! n = counts ! n +
    d_weight D * (\<Sum>k \<le> N. \<Sum>p\<leftarrow>arc_paths M k 0 xs ys. of_nat (count_list p n) * path_wt M p) / prob"
    if n: "n < length counts"
    using cc(3) [OF _ _ n] lf(2) lf(4) [of n] deriv_latticeD(2) [OF lat]
    by (simp add: c prob_def start_paths [OF ok(1) no] mult.commute)
qed

text \<open>C37: \<open>collect_counts\<close> returns the sum of the weights of all accepting paths of the pair, and adds to the count
  of each arc the pair's weight times the expected number of uses of the arc on such a path.\<close>

theorem collect_counts_expected_uses:
  fixes M :: "'w::field WFST"
  assumes "wfst_ok M" "\<not> (\<exists>s. (eps_step M)\<^sup>+\<^sup>+ s s)" "0 \<notin> set xs" "0 \<notin> set ys"
    and "Suc (length xs) * numStates M * Suc (length ys) < uint_minus1" "Suc (length xs) * numStates M * Suc (length ys) \<le> N"
    and "derivations_compute M (wfst_io_index M) (all_arcs M) drop_names pr (derivations_init xs ys w derivations_new) = (True, D)"
    and "n < length counts"
  shows "let prob = (\<Sum>k \<le> N. \<Sum>p\<leftarrow>arc_paths M k 0 xs ys. \<Prod>m\<leftarrow>p. arc_weight (all_arcs M ! m));
             (prob', counts') = collect_counts (all_arcs M) D counts
         in prob' = prob \<and> length counts' = length counts \<and>
            counts' ! n = counts ! n +
              w * (\<Sum>k \<le> N. \<Sum>p\<leftarrow>arc_paths M k 0 xs ys. of_nat (count_list p n) * (\<Prod>m\<leftarrow>p. arc_weight (all_arcs M ! m))) / prob"
proof -
  obtain prob' counts' where c: "collect_counts (all_arcs M) D counts = (prob', counts')" by fastforce
  have "card (deriv_states M xs ys) < uint_minus1" using assms(5) by (simp only: deriv_states_card)
  note sp = derivations_compute_spec [OF assms(1) derivations_init_fresh this assms(7)]
  then obtain lab where lat: "deriv_lattice M xs ys (d_graph D) (d_fin D) lab" and w: "d_weight D = w"
    by (auto simp: derivations_init_def)
  have "path_wt M p = (\<Prod>m\<leftarrow>p. arc_weight (all_arcs M ! m))" for p by (simp add: path_wt_def arc_wt_def [abs_def])
  with collect_counts_lattice [OF assms(1-4,6) lat c] assms(8) show ?thesis by (simp add: c w)
qed

theorem collect_counts_expected_uses_witness:
  "let D = snd (derivations_compute deriv_example (wfst_io_index deriv_example) (all_arcs deriv_example) False True
             (derivations_init [3] [4] 3 derivations_new))
   in fst (collect_counts (all_arcs deriv_example) D [0, 0, 0]) = 7/12 \<and>
      snd (collect_counts (all_arcs deriv_example) D [0, 0, 0]) ! 2 = 3/7"
proof -
  obtain found D where c: "derivations_compute deriv_example (wfst_io_index deriv_example) (all_arcs deriv_example) False True
      (derivations_init [3] [4] 3 derivations_new) = (found, D)" by fastforce
  have "arc_paths deriv_example 1 0 [3] [4] \<noteq> []"
    by (simp only: deriv_example_paths) simp
  then have "derives_goal deriv_example [3] [4] (0, 0, 0)"
    using start_derives_goal [OF deriv_example_ok(1), of "[3]" "[4]"] by fastforce
  moreover have "card (deriv_states deriv_example [3] [4]) < uint_minus1"
    by (simp add: deriv_states_card deriv_example_arcs uint_minus1_def)
  ultimately have found using derivations_compute_spec [OF deriv_example_ok(1) derivations_init_fresh _ c] by blast
  with c have c: "derivations_compute deriv_example (wfst_io_index deriv_example) (all_arcs deriv_example) False True
      (derivations_init [3] [4] 3 derivations_new) = (True, D)" by simp
  show ?thesis
    using collect_counts_expected_uses [OF deriv_example_ok _ _ _ _ c, of 12 2 "[0, 0, 0]"]
    by (simp only: deriv_example_sum Let_def case_prod_unfold c snd_conv) (simp add: deriv_example_arcs mk_arc_def uint_minus1_def)
qed

end
