(* ===== verification/Training.thy ===== *)
theory Training
  imports DerivCounts Normalize Cascade
begin

text \<open>
  Training: the corpus and the table of arcs of \<open>carmel/src/train.h\<close>, the cached derivations of
  \<open>carmel/src/cached_derivs.h\<close>, and \<open>for_arcs\<close>, \<open>matrix_io_index\<close> and \<open>forward_backward\<close> of
  \<open>carmel/src/train.cc\<close>.  Weights are reals, \<open>Weight::pow\<close> is \<open>powr\<close>.  An \<open>arcs_table\<close> points to the arcs of
  the transducer in the order of \<open>visit_arcs\<close>: the model keeps the entries in a list beside the transducer and
  visits both together.  Log output is left out.
\<close>

section \<open>The corpus\<close>

text \<open>The arrays \<open>let\<close> and \<open>rLet\<close> of a \<open>symSeq\<close> are the list and its reverse.\<close>

record IOSymSeq =
  seq_i :: "nat list"
  seq_o :: "nat list"
  seq_weight :: real

record training_corpus =
  maxIn :: nat
  maxOut :: nat
  examples :: "IOSymSeq list"
  n_pairs :: nat
  totalEmpiricalWeight :: real
  n_input :: real
  n_output :: real
  w_input :: real
  w_output :: real

definition corpus_clear_counts :: "training_corpus \<Rightarrow> training_corpus" where
  "corpus_clear_counts c =
     c\<lparr>maxIn := 0, maxOut := 0, n_input := 0, n_output := 0, w_input := 0, w_output := 0, totalEmpiricalWeight := 0,
       n_pairs := 0\<rparr>"

definition corpus_clear :: "training_corpus \<Rightarrow> training_corpus" where
  "corpus_clear c = corpus_clear_counts (c\<lparr>examples := []\<rparr>)"

definition corpus_new :: training_corpus where
  "corpus_new = corpus_clear \<lparr>maxIn = 0, maxOut = 0, examples = [], n_pairs = 0, totalEmpiricalWeight = 0, n_input = 0,
     n_output = 0, w_input = 0, w_output = 0\<rparr>"

definition corpus_count1 :: "IOSymSeq \<Rightarrow> training_corpus \<Rightarrow> training_corpus" where
  "corpus_count1 n c =
     (let wgt = seq_weight n; i = length (seq_i n); u = length (seq_o n)
      in c\<lparr>n_input := n_input c + real i, n_output := n_output c + real u,
           w_input := w_input c + wgt * real i, w_output := w_output c + wgt * real u,
           maxIn := (if maxIn c < i then i else maxIn c), maxOut := (if maxOut c < u then u else maxOut c),
           totalEmpiricalWeight := totalEmpiricalWeight c + wgt, n_pairs := n_pairs c + 1\<rparr>)"

definition corpus_count :: "training_corpus \<Rightarrow> training_corpus" where
  "corpus_count c = fold corpus_count1 (examples c) (corpus_clear_counts c)"

definition corpus_add :: "nat list \<Rightarrow> nat list \<Rightarrow> real \<Rightarrow> training_corpus \<Rightarrow> training_corpus" where
  "corpus_add inSeq outSeq wgt c =
     (let e = \<lparr>seq_i = inSeq, seq_o = outSeq, seq_weight = wgt\<rparr>
      in corpus_count1 e (c\<lparr>examples := e # examples c\<rparr>))"

definition finish_adding :: "training_corpus \<Rightarrow> training_corpus" where
  "finish_adding c = c\<lparr>examples := rev (examples c)\<rparr>"

definition corpus_set_null :: "training_corpus \<Rightarrow> training_corpus" where
  "corpus_set_null c = corpus_add [] [] 1 (corpus_clear c)"

section \<open>The table of arcs\<close>

record arc_counts =
  ac_scratch :: real
  ac_em_weight :: real
  ac_best_weight :: real
  ac_counts :: real
  ac_prior_counts :: real
  ac_src :: nat

definition arcs_table :: "real WFST \<Rightarrow> bool \<Rightarrow> real \<Rightarrow> arc_counts list" where
  "arcs_table M per_arc_prior global_prior =
     snd (wfst_visit_arcs (\<lambda>s a tb.
            (a, tb @ [\<lparr>ac_scratch = 0, ac_em_weight = 0, ac_best_weight = 0, ac_counts = 0,
                       ac_prior_counts = (if per_arc_prior then global_prior + arc_weight a else global_prior),
                       ac_src = s\<rparr>])) M [])"

type_synonym arc_entry = "real FSTArc \<times> arc_counts"

text \<open>\<open>arcs.visit(f)\<close>\<close>

definition arcs_visit :: "(arc_entry \<Rightarrow> arc_entry) \<Rightarrow> real WFST \<times> arc_counts list \<Rightarrow> real WFST \<times> arc_counts list" where
  "arcs_visit f mt =
     (let (M, done, rest) = wfst_visit_arcs (\<lambda>s a (done, rest).
            let (a, c) = f (a, hd rest) in (a, done @ [c], tl rest)) (fst mt) ([], snd mt)
      in (M, done))"

definition set_wt :: "real \<Rightarrow> arc_entry \<Rightarrow> arc_entry" where
  "set_wt w e = ((fst e)\<lparr>arc_weight := w\<rparr>, snd e)"

definition save_counts :: "arc_entry \<Rightarrow> arc_entry" where
  "save_counts e = (fst e, (snd e)\<lparr>ac_em_weight := arc_weight (fst e)\<rparr>)"

definition save_best_counts :: "arc_entry \<Rightarrow> arc_entry" where
  "save_best_counts e = (fst e, (snd e)\<lparr>ac_best_weight := ac_em_weight (snd e)\<rparr>)"

definition prep_new_weights :: "real \<Rightarrow> arc_entry \<Rightarrow> arc_entry" where
  "prep_new_weights scale_prior e =
     (if \<not> isLocked (groupId (fst e))
      then set_wt (ac_counts (snd e) + ac_prior_counts (snd e) * scale_prior)
             (fst e, (snd e)\<lparr>ac_scratch := arc_weight (fst e)\<rparr>)
      else e)"

definition overrelax :: "real \<Rightarrow> arc_entry \<Rightarrow> arc_entry" where
  "overrelax delta_scale e =
     (let e = (fst e, (snd e)\<lparr>ac_em_weight := arc_weight (fst e)\<rparr>); scratch = ac_scratch (snd e)
      in if delta_scale > 1 \<and> \<not> isLocked (groupId (fst e)) \<and> scratch > 0
         then set_wt (scratch * (ac_em_weight (snd e) / scratch) powr delta_scale) e else e)"

definition max_change_arc :: "arc_entry \<Rightarrow> real \<Rightarrow> real" where
  "max_change_arc e m =
     (if \<not> isLocked (groupId (fst e))
      then (let change = \<bar>arc_weight (fst e) - ac_scratch (snd e)\<bar> in if change > m then change else m)
      else m)"

definition max_change :: "real WFST \<times> arc_counts list \<Rightarrow> real" where
  "max_change mt = fold max_change_arc (zip (all_arcs (fst mt)) (snd mt)) 0"

definition save_best_entry :: "arc_entry \<Rightarrow> arc_entry" where
  "save_best_entry e = (fst e, (snd e)\<lparr>ac_best_weight := arc_weight (fst e)\<rparr>)"

definition swap_em_scaled :: "arc_entry \<Rightarrow> arc_entry" where
  "swap_em_scaled e = set_wt (ac_em_weight (snd e)) (fst e, (snd e)\<lparr>ac_em_weight := arc_weight (fst e)\<rparr>)"

definition keep_em_weight :: "arc_entry \<Rightarrow> arc_entry" where
  "keep_em_weight e = set_wt (ac_em_weight (snd e)) e"

definition use_best_weight :: "arc_entry \<Rightarrow> arc_entry" where
  "use_best_weight e = set_wt (ac_best_weight (snd e)) e"

definition clear_count :: "arc_entry \<Rightarrow> arc_entry" where
  "clear_count e = (fst e, (snd e)\<lparr>ac_counts := 0\<rparr>)"

definition clear_scratch :: "arc_entry \<Rightarrow> arc_entry" where
  "clear_scratch e = (fst e, (snd e)\<lparr>ac_scratch := 0\<rparr>)"

definition add_weighted_scratch :: "real \<Rightarrow> arc_entry \<Rightarrow> arc_entry" where
  "add_weighted_scratch w e =
     (if ac_scratch (snd e) \<noteq> 0
      then (fst e, (snd e)\<lparr>ac_counts := ac_counts (snd e) + w * ac_scratch (snd e)\<rparr>) else e)"

section \<open>Cached derivations\<close>

datatype cache_level_t = cache_nothing | cache_forward | cache_forward_backward | cache_disk | matrix_fb

record deriv_cache_opts =
  do_prune :: bool
  cache_level :: cache_level_t

definition opts_cache :: "deriv_cache_opts \<Rightarrow> bool" where
  "opts_cache copt \<longleftrightarrow> cache_level copt \<noteq> cache_nothing \<and> cache_level copt \<noteq> matrix_fb"

definition opts_use_matrix :: "deriv_cache_opts \<Rightarrow> bool" where
  "opts_use_matrix copt \<longleftrightarrow> cache_level copt = matrix_fb"

definition example_derivations :: "real WFST \<Rightarrow> bool \<Rightarrow> IOSymSeq \<Rightarrow> bool \<times> real derivations" where
  "example_derivations M prune e =
     derivations_compute M (wfst_io_index M) (all_arcs M) True prune
       (derivations_init (seq_i e) (seq_o e) (seq_weight e) derivations_new)"

definition cache_derivations :: "real WFST \<Rightarrow> bool \<Rightarrow> training_corpus \<Rightarrow> real derivations list \<times> training_corpus" where
  "cache_derivations M prune corpus =
     fold (\<lambda>e (derivs, corpus).
             let corpus = corpus_clear_counts corpus; (ok, D) = example_derivations M prune e
             in if ok then (derivs @ [D], corpus_count1 e corpus) else (derivs, corpus))
       (examples corpus) ([], corpus)"

text \<open>\<open>foreach_deriv\<close> without a cache erases the examples that have no derivation on the first pass.\<close>

primrec foreach_example ::
  "real WFST \<Rightarrow> bool \<Rightarrow> bool \<Rightarrow> (real derivations \<Rightarrow> 's \<Rightarrow> 's) \<Rightarrow> IOSymSeq list \<Rightarrow> 's \<Rightarrow> IOSymSeq list \<times> 's" where
  "foreach_example M prune fst_pass f [] st = ([], st)"
| "foreach_example M prune fst_pass f (e # es) st =
     (let (ok, D) = example_derivations M prune e
      in if \<not> ok \<and> fst_pass \<and> prune then foreach_example M prune fst_pass f es st
         else (let (es', st') = foreach_example M prune fst_pass f es (if ok then f D st else st) in (e # es', st')))"

definition foreach_deriv ::
  "real WFST \<Rightarrow> bool \<Rightarrow> bool \<Rightarrow> real derivations list option \<Rightarrow> (real derivations \<Rightarrow> 's \<Rightarrow> 's) \<Rightarrow> training_corpus \<Rightarrow> 's
    \<Rightarrow> training_corpus \<times> 's" where
  "foreach_deriv M prune fst_pass cached f corpus st =
     (case cached of
        Some derivs \<Rightarrow> (corpus, fold f derivs st)
      | None \<Rightarrow>
          (let (ex, st) = foreach_example M prune fst_pass f (examples corpus) st; corpus = corpus\<lparr>examples := ex\<rparr>
           in (if fst_pass then corpus_count corpus else corpus, st)))"

text \<open>\<open>forward_backward::operator()\<close> on one pair: the unweighted and the weighted probability of the corpus and
  the counts.\<close>

definition estimate_pair ::
  "real FSTArc list \<Rightarrow> real derivations \<Rightarrow> real \<times> real \<times> real list \<Rightarrow> real \<times> real \<times> real list" where
  "estimate_pair atab D acc =
     (case acc of (unweighted, weighted, cs) \<Rightarrow>
        (let (prob, cs) = collect_counts atab D cs in (unweighted * prob, weighted * prob powr d_weight D, cs)))"

section \<open>The full matrix\<close>

type_synonym matrix = "nat \<Rightarrow> nat \<Rightarrow> nat \<Rightarrow> real"

type_synonym DWPair = "nat \<times> nat"

type_synonym matrix_index = "(nat \<times> nat, DWPair list) HashTable list"

definition set_cell :: "nat \<Rightarrow> nat \<Rightarrow> nat \<Rightarrow> real \<Rightarrow> matrix \<Rightarrow> matrix" where
  "set_cell i u s v w = w(i := (w i)(u := (w i u)(s := v)))"

definition index_push :: "nat \<Rightarrow> nat \<times> nat \<Rightarrow> DWPair \<Rightarrow> matrix_index \<Rightarrow> matrix_index" where
  "index_push s io dw tb = tb[s := ht_update iopair_hash [] io (\<lambda>l. l @ [dw]) (tb ! s)]"

text \<open>\<open>matrix_io_index::populate\<close>\<close>

definition matrix_populate :: "real WFST \<Rightarrow> arc_counts list \<Rightarrow> bool \<Rightarrow> matrix_index \<times> matrix_index" where
  "matrix_populate M tab include_backward =
     fold (\<lambda>n (forward, backward).
             let a = all_arcs M ! n; io = (arc_in a, arc_out a); s = ac_src (tab ! n); d = arc_dest a
             in (index_push s io (d, n) forward, if include_backward then index_push d io (s, n) backward else backward))
       [0..<length tab]
       (replicate (numStates M) (ht_new DEFAULTHASHSIZE), replicate (numStates M) (ht_new DEFAULTHASHSIZE))"

definition matrix_reverse_io :: "nat \<Rightarrow> nat \<Rightarrow> matrix \<Rightarrow> matrix" where
  "matrix_reverse_io max_i max_o w =
     (let w = fold (\<lambda>i w. w(i := w (max_i - i), max_i - i := w i)) [0..<Suc (max_i div 2)] w
      in fold (\<lambda>i. fold (\<lambda>u w. w(i := (w i)(u := w i (max_o - u), max_o - u := w i u))) [0..<Suc (max_o div 2)])
           [0..<Suc max_i] w)"

text \<open>\<open>find_second\<close> returns a null pointer when there is no entry, and the loops over \<open>fio\<close> are skipped.\<close>

definition found_io :: "matrix_index \<Rightarrow> nat \<Rightarrow> nat \<times> nat \<Rightarrow> DWPair list" where
  "found_io io s IO = (case find_second iopair_hash (io ! s) IO of None \<Rightarrow> [] | Some fio \<Rightarrow> fio)"

definition matrix_forward_prop ::
  "real FSTArc list \<Rightarrow> DWPair list \<Rightarrow> nat \<Rightarrow> nat \<Rightarrow> nat \<Rightarrow> nat \<Rightarrow> nat \<Rightarrow> matrix \<Rightarrow> matrix" where
  "matrix_forward_prop atab fio s i u d_i d_o m =
     fold (\<lambda>(d, n) m. set_cell (i + d_i) (u + d_o) d (m (i + d_i) (u + d_o) d + m i u s * arc_weight (atab ! n)) m) fio m"

definition matrix_compute_state ::
  "real FSTArc list \<Rightarrow> nat list \<Rightarrow> nat list \<Rightarrow> matrix_index \<Rightarrow> nat \<Rightarrow> nat \<Rightarrow> nat \<Rightarrow> matrix \<Rightarrow> matrix" where
  "matrix_compute_state atab inLet outLet io i u s w =
     (if w i u s = 0 then w
      else (let w = (if u < length outLet
                     then (let w = matrix_forward_prop atab (found_io io s (0, outLet ! u)) s i u 0 1 w
                           in if i < length inLet
                              then matrix_forward_prop atab (found_io io s (inLet ! i, outLet ! u)) s i u 1 1 w else w)
                     else w)
            in if i < length inLet then matrix_forward_prop atab (found_io io s (inLet ! i, 0)) s i u 1 0 w else w))"

definition matrix_compute ::
  "real FSTArc list \<Rightarrow> nat \<Rightarrow> nat list \<Rightarrow> nat list \<Rightarrow> nat \<Rightarrow> matrix_index \<Rightarrow> nat list \<Rightarrow> matrix \<Rightarrow> matrix" where
  "matrix_compute atab n_st inLet outLet start io eTopo w =
     (let nIn = length inLet; nOut = length outLet;
          w = (\<lambda>i u s. if i \<le> nIn \<and> u \<le> nOut \<and> s < n_st then 0 else w i u s);
          w = set_cell 0 0 start 1 w
      in fold (\<lambda>i. fold (\<lambda>u w.
            let w = fold (\<lambda>s. matrix_forward_prop atab (found_io io s (0, 0)) s i u 0 0) eTopo w
            in fold (matrix_compute_state atab inLet outLet io i u) [0..<n_st] w)
           [0..<Suc nOut]) [0..<Suc nIn] w)"

text \<open>\<open>matrix_count\<close> adds to the scratch of the arcs: \<open>sc ! n\<close> is that of arc \<open>n\<close>.\<close>

definition matrix_count ::
  "real FSTArc list \<Rightarrow> matrix \<Rightarrow> matrix \<Rightarrow> DWPair list \<Rightarrow> nat \<Rightarrow> nat \<Rightarrow> nat \<Rightarrow> nat \<Rightarrow> nat \<Rightarrow> real list \<Rightarrow> real list" where
  "matrix_count atab f b fio s i u d_i d_o sc =
     fold (\<lambda>(d, n) sc. sc[n := sc ! n + f i u s * arc_weight (atab ! n) * b (i + d_i) (u + d_o) d]) fio sc"

text \<open>The state of the matrix variant: the indices, the orders of the epsilon arcs and the two matrices.\<close>

record matrix_fb_state =
  mio_forward :: matrix_index
  mio_backward :: matrix_index
  e_forward_topo :: "nat list"
  e_backward_topo :: "nat list"
  mx_f :: matrix
  mx_b :: matrix

definition e_topo_populate :: "real WFST \<Rightarrow> nat list \<times> nat list" where
  "e_topo_populate M =
     (let eGraph = makeEGraph (\<lambda>w. w) M; revEGraph = reverseGraph eGraph True
      in (order_ts (topo_order eGraph False (topo_new eGraph)), order_ts (topo_order revEGraph False (topo_new revEGraph))))"

definition matrix_new :: "real WFST \<Rightarrow> arc_counts list \<Rightarrow> matrix_fb_state" where
  "matrix_new M tab =
     (let (fw, bw) = matrix_populate M tab True; (ef, eb) = e_topo_populate M
      in \<lparr>mio_forward = fw, mio_backward = bw, e_forward_topo = ef, e_backward_topo = eb,
          mx_f = (\<lambda>_ _ _. 0), mx_b = (\<lambda>_ _ _. 0)\<rparr>)"

definition matrix_fb_pair :: "real WFST \<Rightarrow> IOSymSeq \<Rightarrow> matrix_fb_state \<Rightarrow> matrix_fb_state" where
  "matrix_fb_pair M e x =
     (let f = matrix_compute (all_arcs M) (numStates M) (seq_i e) (seq_o e) 0 (mio_forward x) (e_forward_topo x) (mx_f x);
          b = matrix_compute (all_arcs M) (numStates M) (rev (seq_i e)) (rev (seq_o e)) (final M) (mio_backward x)
                (e_backward_topo x) (mx_b x)
      in x\<lparr>mx_f := f, mx_b := matrix_reverse_io (length (seq_i e)) (length (seq_o e)) b\<rparr>)"

definition matrix_counts_at ::
  "real FSTArc list \<Rightarrow> IOSymSeq \<Rightarrow> matrix_fb_state \<Rightarrow> nat \<Rightarrow> nat \<Rightarrow> nat \<Rightarrow> real list \<Rightarrow> real list" where
  "matrix_counts_at atab e x i u s sc =
     (let fs = found_io (mio_forward x) s; count = matrix_count atab (mx_f x) (mx_b x);
          xs = seq_i e; ys = seq_o e;
          sc = (if i < length xs
                then (let sc = (if u < length ys then count (fs (xs ! i, ys ! u)) s i u 1 1 sc else sc)
                      in count (fs (xs ! i, 0)) s i u 1 0 sc)
                else sc);
          sc = (if u < length ys then count (fs (0, ys ! u)) s i u 0 1 sc else sc)
      in count (fs (0, 0)) s i u 0 0 sc)"

definition matrix_scratch :: "real WFST \<Rightarrow> IOSymSeq \<Rightarrow> matrix_fb_state \<Rightarrow> real list \<Rightarrow> real list" where
  "matrix_scratch M e x sc =
     fold (\<lambda>i. fold (\<lambda>u. fold (matrix_counts_at (all_arcs M) e x i u) [0..<numStates M])
       [0..<Suc (length (seq_o e))]) [0..<Suc (length (seq_i e))] sc"

text \<open>\<open>estimate_matrix\<close>, one example after the other: the examples kept, \<open>ret\<close>, \<open>unweighted_corpus_prob\<close>, the table and the
  matrices.  \<open>remove_bad_training\<close> is always true.\<close>

definition put_scratch :: "real list \<Rightarrow> arc_counts list \<Rightarrow> arc_counts list" where
  "put_scratch sc tab = map (\<lambda>(c, v). c\<lparr>ac_scratch := v\<rparr>) (zip tab sc)"

primrec estimate_matrix ::
  "real WFST \<Rightarrow> IOSymSeq list \<Rightarrow> real \<times> real \<times> arc_counts list \<times> matrix_fb_state
    \<Rightarrow> IOSymSeq list \<times> real \<times> real \<times> arc_counts list \<times> matrix_fb_state" where
  "estimate_matrix M [] st = ([], st)"
| "estimate_matrix M (e # es) st =
     (let (ret, unweighted, tab, x) = st; x = matrix_fb_pair M e x;
          fin = mx_f x (length (seq_i e)) (length (seq_o e)) (final M);
          ret = ret * fin powr seq_weight e; unweighted = unweighted * fin
      in if \<not> fin > 0 then estimate_matrix M es (ret, unweighted, tab, x)
         else (let (M', tab) = arcs_visit clear_scratch (M, tab);
                   tab = put_scratch (matrix_scratch M e x (map ac_scratch tab)) tab;
                   (M', tab) = arcs_visit (add_weighted_scratch (seq_weight e / fin)) (M, tab);
                   (es', st') = estimate_matrix M es (ret, unweighted, tab, x)
               in (e # es', st')))"

section \<open>Estimation and maximization\<close>

record forward_backward =
  fb_x :: "real WFST"
  fb_cascade :: "real cascade_parameters"
  fb_cas :: "real WFST list"
  fb_arcs :: "arc_counts list"
  fb_copt :: deriv_cache_opts
  fb_corpus :: training_corpus
  fb_derivs :: "real derivations list option"
  fb_first :: bool
  fb_matrix :: matrix_fb_state

definition forward_backward_new ::
  "real WFST \<Rightarrow> real cascade_parameters \<Rightarrow> real WFST list \<Rightarrow> bool \<Rightarrow> real \<Rightarrow> deriv_cache_opts \<Rightarrow> training_corpus
    \<Rightarrow> forward_backward" where
  "forward_backward_new M c cas per_arc_prior global_prior copt corpus =
     (let (ds, corpus) = (if opts_cache copt
                          then (let (ds, corpus) = cache_derivations M (do_prune copt) corpus in (Some ds, corpus))
                          else (None, corpus));
          tab = arcs_table M per_arc_prior global_prior
      in \<lparr>fb_x = M, fb_cascade = c, fb_cas = cas, fb_arcs = tab, fb_copt = copt, fb_corpus = corpus, fb_derivs = ds,
          fb_first = True, fb_matrix = matrix_new M tab\<rparr>)"

text \<open>\<open>estimate\<close>: the weighted and the unweighted probability of the corpus; \<open>None\<close> where
  \<open>throw_if_no_derivation\<close> throws.\<close>

definition estimate :: "forward_backward \<Rightarrow> (real \<times> real \<times> forward_backward) option" where
  "estimate fb =
     (let M = fb_x fb; tab = snd (arcs_visit clear_count (M, fb_arcs fb));
          (weighted, unweighted, fb) =
            (if opts_use_matrix (fb_copt fb)
             then (let (es, ret, unweighted, tab, x) = estimate_matrix M (examples (fb_corpus fb)) (1, 1, tab, fb_matrix fb)
                   in (ret, unweighted, fb\<lparr>fb_corpus := (fb_corpus fb)\<lparr>examples := es\<rparr>, fb_arcs := tab, fb_matrix := x\<rparr>))
             else (let (corpus, unweighted, weighted, cs) =
                         foreach_deriv M (do_prune (fb_copt fb)) (fb_first fb) (fb_derivs fb) (estimate_pair (all_arcs M))
                           (fb_corpus fb) (1, 1, map ac_counts tab)
                   in (weighted, unweighted,
                       fb\<lparr>fb_corpus := corpus, fb_first := False,
                          fb_arcs := map (\<lambda>(c, v). c\<lparr>ac_counts := v\<rparr>) (zip tab cs)\<rparr>)))
      in if examples (fb_corpus fb) = [] then None else Some (weighted, unweighted, fb))"

text \<open>The transducers of a cascade; a trivial one has the transducer trained as its only member.\<close>

definition members :: "forward_backward \<Rightarrow> real WFST list" where
  "members fb = (if trivial (fb_cascade fb) then [fb_x fb] else fb_cas fb)"

definition put_members :: "real WFST list \<Rightarrow> forward_backward \<Rightarrow> forward_backward" where
  "put_members Ms fb = (if trivial (fb_cascade fb) then fb\<lparr>fb_x := hd Ms\<rparr> else fb\<lparr>fb_cas := Ms\<rparr>)"

primrec normalize_members :: "real NormalizeMethod list \<Rightarrow> real WFST list \<Rightarrow> real WFST list option" where
  "normalize_members methods [] = Some []"
| "normalize_members methods (M # Ms) =
     (case normalize_with (hd methods) M of
        None \<Rightarrow> None
      | Some M' \<Rightarrow> (case normalize_members (tl methods) Ms of None \<Rightarrow> None | Some Ms' \<Rightarrow> Some (M' # Ms')))"

text \<open>\<open>save_none\<close> and \<open>load_none\<close>: an empty list stands for a member that is not saved.\<close>

definition save_none :: "real NormalizeMethod list \<Rightarrow> real WFST list \<Rightarrow> real list list" where
  "save_none methods Ms = map (\<lambda>(m, M). if norm_group m = NONE then save_weights M [] else []) (zip methods Ms)"

definition load_none :: "real NormalizeMethod list \<Rightarrow> real list list \<Rightarrow> real WFST list \<Rightarrow> real WFST list" where
  "load_none methods svs Ms =
     map (\<lambda>(m, sv, M). if norm_group m = NONE then fst (restore_weights sv M) else M) (zip methods (zip svs Ms))"

definition use_counts :: "real NormalizeMethod list \<Rightarrow> forward_backward \<Rightarrow> forward_backward option" where
  "use_counts methods fb =
     (let fb = (if trivial (fb_cascade fb) then fb
                else fb\<lparr>fb_cas := distribute_counts (fb_cascade fb) (fb_x fb) (fb_cas fb)\<rparr>)
      in map_option (\<lambda>Ms. put_members Ms fb) (normalize_members methods (members fb)))"

definition update_composed :: "forward_backward \<Rightarrow> forward_backward" where
  "update_composed fb =
     (let (c, M) = cascade_update (fb_cas fb) (fb_cascade fb, fb_x fb) in fb\<lparr>fb_cascade := c, fb_x := M\<rparr>)"

definition use_counts_final :: "real NormalizeMethod list \<Rightarrow> forward_backward \<Rightarrow> forward_backward option" where
  "use_counts_final methods fb =
     (if trivial (fb_cascade fb) then Some fb
      else (let svs = save_none methods (members fb)
            in map_option (\<lambda>fb. update_composed (put_members (load_none methods svs (members fb)) fb)) (use_counts methods fb)))"

definition fb_visit :: "(arc_entry \<Rightarrow> arc_entry) \<Rightarrow> forward_backward \<Rightarrow> forward_backward" where
  "fb_visit f fb = (let (M, tab) = arcs_visit f (fb_x fb, fb_arcs fb) in fb\<lparr>fb_x := M, fb_arcs := tab\<rparr>)"

text \<open>\<open>maximize\<close>; \<open>None\<close> never occurs (\<open>normalize\<close> ends), see \<open>WFST_normalize_weights\<close>.\<close>

definition maximize :: "real NormalizeMethod list \<Rightarrow> real \<Rightarrow> forward_backward \<Rightarrow> (real \<times> forward_backward) option" where
  "maximize methods delta_scale fb =
     (let svs = save_none methods (members fb); fb = fb_visit (prep_new_weights 1) fb
      in case use_counts methods fb of
           None \<Rightarrow> None
         | Some fb \<Rightarrow>
             (let fb = put_members (load_none methods svs (members fb)) fb
              in if trivial (fb_cascade fb)
                 then (let fb = fb_visit (overrelax delta_scale) fb
                       in case (if delta_scale > 1 then normalize_with (hd methods) (fb_x fb) else Some (fb_x fb)) of
                            None \<Rightarrow> None
                          | Some M \<Rightarrow> (let fb = fb\<lparr>fb_x := M\<rparr> in Some (max_change (fb_x fb, fb_arcs fb), fb)))
                 else Some (10, fb)))"

section \<open>Visiting the transducer and the table together\<close>

definition rebuilt :: "'w WFST \<Rightarrow> 'w WFST \<Rightarrow> bool" where
  "rebuilt M M' \<longleftrightarrow> (\<exists>ss. M' = M\<lparr>states := ss\<rparr> \<and>
     list_all2 (\<lambda>s s'. \<exists>as. s' = s\<lparr>arcs := as\<rparr> \<and> length as = length (arcs s)) (states M) ss)"

lemma accum_table_arcs:
  "length cs = length as \<Longrightarrow>
    accum (\<lambda>a (dn, rest). let (a', c) = f (a, hd rest) in (a', dn @ [c], tl rest)) as (dn, cs @ rest) =
      (map (fst \<circ> f) (zip as cs), dn @ map (snd \<circ> f) (zip as cs), rest)"
  by (induction cs as arbitrary: dn rule: list_induct2) (simp_all add: case_prod_unfold Let_def)

lemma accum_table_states:
  fixes f :: "'w FSTArc \<times> 'c \<Rightarrow> 'w FSTArc \<times> 'c"
  defines "v \<equiv> \<lambda>(i :: nat) a (dn, rest). let (a', c) = f (a, hd rest) in (a', dn @ [c], tl rest)"
  shows "length cs = length (concat (map arcs ss)) \<Longrightarrow>
    \<exists>ss'. accum (visit_state v) (enumerate n ss) (dn, cs @ rest) =
        (ss', dn @ map (snd \<circ> f) (zip (concat (map arcs ss)) cs), rest) \<and>
      concat (map arcs ss') = map (fst \<circ> f) (zip (concat (map arcs ss)) cs) \<and>
      list_all2 (\<lambda>s s'. \<exists>as. s' = s\<lparr>arcs := as\<rparr> \<and> length as = length (arcs s)) ss ss'"
proof (induction ss arbitrary: n dn cs)
  case Nil
  then show ?case by simp
next
  case (Cons s ss)
  define c1 where "c1 = take (length (arcs s)) cs"
  define c2 where "c2 = drop (length (arcs s)) cs"
  have cs: "cs = c1 @ c2" "length c1 = length (arcs s)" "length c2 = length (concat (map arcs ss))"
    using Cons.prems by (simp_all add: c1_def c2_def)
  note a = accum_table_arcs [OF cs(2), of f dn "c2 @ rest"]
  obtain ss' where ss': "accum (visit_state v) (enumerate (Suc n) ss) (dn @ map (snd \<circ> f) (zip (arcs s) c1), c2 @ rest) =
        (ss', (dn @ map (snd \<circ> f) (zip (arcs s) c1)) @ map (snd \<circ> f) (zip (concat (map arcs ss)) c2), rest)"
      "concat (map arcs ss') = map (fst \<circ> f) (zip (concat (map arcs ss)) c2)"
      "list_all2 (\<lambda>s s'. \<exists>as. s' = s\<lparr>arcs := as\<rparr> \<and> length as = length (arcs s)) ss ss'"
    using Cons.IH [OF cs(3), of "Suc n" "dn @ map (snd \<circ> f) (zip (arcs s) c1)"] by blast
  let ?s = "s\<lparr>arcs := map (fst \<circ> f) (zip (arcs s) c1)\<rparr>"
  have v: "visit_state v (n, s) (dn, c1 @ (c2 @ rest)) = (?s, dn @ map (snd \<circ> f) (zip (arcs s) c1), c2 @ rest)"
    unfolding visit_state_def visit_arcs_accum v_def fst_conv snd_conv a ..
  have "accum (visit_state v) (enumerate n (s # ss)) (dn, cs @ rest) =
      (?s # ss', dn @ map (snd \<circ> f) (zip (concat (map arcs (s # ss))) cs), rest)"
    using v ss'(1) by (simp add: cs(1,2) zip_append)
  moreover have "concat (map arcs (?s # ss')) = map (fst \<circ> f) (zip (concat (map arcs (s # ss))) cs)"
    using ss'(2) by (simp add: cs(1,2) zip_append)
  moreover have "list_all2 (\<lambda>s s'. \<exists>as. s' = s\<lparr>arcs := as\<rparr> \<and> length as = length (arcs s)) (s # ss) (?s # ss')"
    using ss'(3) cs(2) by auto
  ultimately show ?case by blast
qed

lemma arcs_visit_spec:
  assumes "length tab = length (all_arcs M)" "arcs_visit f (M, tab) = (M', tab')"
  shows "tab' = map (snd \<circ> f) (zip (all_arcs M) tab)" "all_arcs M' = map (fst \<circ> f) (zip (all_arcs M) tab)" "rebuilt M M'"
proof -
  let ?v = "\<lambda>(i :: nat) a (dn, rest). let (a', c) = f (a, hd rest) in (a', dn @ [c], tl rest)"
  obtain ss' where ss': "accum (visit_state ?v) (enumerate 0 (states M)) ([], tab @ []) =
      (ss', [] @ map (snd \<circ> f) (zip (concat (map arcs (states M))) tab), [])"
      "concat (map arcs ss') = map (fst \<circ> f) (zip (concat (map arcs (states M))) tab)"
      "list_all2 (\<lambda>s s'. \<exists>as. s' = s\<lparr>arcs := as\<rparr> \<and> length as = length (arcs s)) (states M) ss'"
    using accum_table_states [where cs = tab and ss = "states M" and n = 0 and dn = "[]" and rest = "[]" and f = f,
        OF assms(1) [unfolded all_arcs_def]] by blast
  have "wfst_visit_arcs ?v M ([], tab) = (M\<lparr>states := ss'\<rparr>, map (snd \<circ> f) (zip (all_arcs M) tab), [])"
    using ss'(1) by (simp add: wfst_visit_arcs_accum all_arcs_def)
  then have "arcs_visit f (M, tab) = (M\<lparr>states := ss'\<rparr>, map (snd \<circ> f) (zip (all_arcs M) tab))"
    by (simp add: arcs_visit_def)
  with assms(2) have e: "M' = M\<lparr>states := ss'\<rparr>" "tab' = map (snd \<circ> f) (zip (all_arcs M) tab)" by simp_all
  show "tab' = map (snd \<circ> f) (zip (all_arcs M) tab)" by (rule e(2))
  show "all_arcs M' = map (fst \<circ> f) (zip (all_arcs M) tab)" using ss'(2) by (simp add: e(1) all_arcs_def)
  show "rebuilt M M'" using ss'(3) e(1) by (auto simp: rebuilt_def)
qed

lemma rebuilt_lengths:
  assumes "rebuilt M M'"
  shows "numStates M' = numStates M" "s < numStates M \<Longrightarrow> length (arcs (states M' ! s)) = length (arcs (states M ! s))"
    "final M' = final M" "map (length \<circ> arcs) (states M') = map (length \<circ> arcs) (states M)"
proof -
  obtain ss where ss: "M' = M\<lparr>states := ss\<rparr>"
    "list_all2 (\<lambda>s s'. \<exists>as. s' = s\<lparr>arcs := as\<rparr> \<and> length as = length (arcs s)) (states M) ss"
    using assms by (auto simp: rebuilt_def)
  show n: "numStates M' = numStates M" "final M' = final M" using ss list_all2_lengthD [OF ss(2)] by simp_all
  show l: "s < numStates M \<Longrightarrow> length (arcs (states M' ! s)) = length (arcs (states M ! s))" for s
    using list_all2_nthD [OF ss(2), of s] ss(1) by auto
  show "map (length \<circ> arcs) (states M') = map (length \<circ> arcs) (states M)"
    by (rule nth_equalityI) (use n l in simp_all)
qed

text \<open>Tables whose entries know the state of their arc.\<close>

definition table_ok :: "real WFST \<Rightarrow> arc_counts list \<Rightarrow> bool" where
  "table_ok M tab \<longleftrightarrow> length tab = length (all_arcs M) \<and> (\<forall>s < numStates M. \<forall>n \<in> set (arc_ids M s). ac_src (tab ! n) = s)"

lemma arc_offset_lengths: "arc_offset M s = sum_list (take s (map (length \<circ> arcs) (states M)))"
  by (simp add: arc_offset_def length_concat take_map)

lemma rebuilt_arc_ids: "rebuilt M M' \<Longrightarrow> arc_ids M' s = arc_ids M s"
  by (simp only: arc_ids_def arc_offset_lengths rebuilt_lengths(4) [of M M'])

lemma arc_offset_end: "arc_offset M (numStates M) = length (all_arcs M)"
  by (simp add: arc_offset_def all_arcs_def)

lemma arc_offset_mono: "s \<le> t \<Longrightarrow> arc_offset M s \<le> arc_offset M t"
proof -
  assume "s \<le> t"
  then obtain d where "t = s + d" using le_Suc_ex by blast
  then show ?thesis by (simp add: arc_offset_def take_add)
qed

lemma arc_ids_cover: "n < length (all_arcs M) \<Longrightarrow> \<exists>s < numStates M. n \<in> set (arc_ids M s)"
proof -
  assume n: "n < length (all_arcs M)"
  have "\<exists>s < k. n \<in> set (arc_ids M s)" if "n < arc_offset M k" for k
    using that
  proof (induction k)
    case 0
    then show ?case by (simp add: arc_offset_simps)
  next
    case (Suc k)
    then show ?case by (cases "n < arc_offset M k") (force simp: arc_ids_def less_Suc_eq)+
  qed
  from this [of "numStates M"] n show ?thesis by (simp add: arc_offset_end)
qed

lemma arc_ids_disjoint: "n \<in> set (arc_ids M s) \<Longrightarrow> n \<in> set (arc_ids M t) \<Longrightarrow> s = t"
proof -
  have "\<not> s < t" if "n \<in> set (arc_ids M s)" "n \<in> set (arc_ids M t)" for s t
    using that arc_offset_mono [of "Suc s" t M] by (auto simp: arc_ids_def)
  then show "n \<in> set (arc_ids M s) \<Longrightarrow> n \<in> set (arc_ids M t) \<Longrightarrow> s = t" by (metis nat_neq_iff)
qed

lemma arc_ids_bound: "s < numStates M \<Longrightarrow> n \<in> set (arc_ids M s) \<Longrightarrow> n < length (all_arcs M)"
  using arc_offset_mono [of "Suc s" "numStates M" M] by (auto simp: arc_ids_def arc_offset_end)

lemma arcs_table_ok: "table_ok M (arcs_table M pp gp)"
proof -
  let ?c = "\<lambda>s a. \<lparr>ac_scratch = 0, ac_em_weight = 0, ac_best_weight = 0, ac_counts = 0,
                   ac_prior_counts = (if pp then gp + arc_weight a else gp), ac_src = s\<rparr>"
  let ?v = "\<lambda>s a tb. (a, tb @ [?c s a])"
  have a: "accum (?v s) as tb = (as, tb @ map (?c s) as)" for s as tb
    by (induction as arbitrary: tb) simp_all
  have "snd (accum (visit_state ?v) (enumerate k ss) tb) =
      tb @ concat (map (\<lambda>(s, st). map (?c s) (arcs st)) (enumerate k ss))" for k ss tb
    by (induction ss arbitrary: k tb) (simp_all add: Let_def case_prod_unfold visit_state_def visit_arcs_accum a)
  then have t: "arcs_table M pp gp = concat (map (\<lambda>(s, st). map (?c s) (arcs st)) (enumerate 0 (states M)))"
    by (simp add: arcs_table_def wfst_visit_arcs_accum)
  have len: "length (concat (map (\<lambda>(s, st). map (?c s) (arcs st)) (enumerate k ss))) = length (concat (map arcs ss))" for k ss
    by (induction ss arbitrary: k) simp_all
  have "ac_src (arcs_table M pp gp ! n) = s" if s: "s < numStates M" and n: "n \<in> set (arc_ids M s)" for s n
  proof -
    let ?st = "states M"
    have e: "enumerate 0 ?st = enumerate 0 (take s ?st) @ (s, ?st ! s) # enumerate (Suc s) (drop (Suc s) ?st)"
      using s by (metis add_0 enumerate_append_eq enumerate_simps(2) id_take_nth_drop length_take min.absorb4)
    have l: "length (concat (map (\<lambda>(s, st). map (?c s) (arcs st)) (enumerate 0 (take s ?st)))) = arc_offset M s"
      by (simp only: len) (simp add: arc_offset_def)
    obtain j where j: "n = arc_offset M s + j" "j < length (arcs (?st ! s))"
      using n arc_offset_simps(2) [OF s] by (auto simp: arc_ids_def le_iff_add)
    show ?thesis unfolding t e by (simp add: nth_append l j)
  qed
  then show ?thesis by (simp add: table_ok_def t len all_arcs_def)
qed

end
