(* ===== verification/TrainMatrix.thy ===== *)
theory TrainMatrix
  imports Training
begin

text \<open>
  The full-matrix forward and backward sums of \<open>estimate_matrix\<close> give the same counts as the derivation
  lattice.  A matrix cell is a derivation state; the matrix is filled by pushing the value of a cell along the
  transducer arcs that fit the pair there.
\<close>

section \<open>Pushing values\<close>

definition cell :: "matrix \<Rightarrow> deriv_state \<Rightarrow> real" where
  "cell m d = (case d of (i, s, u) \<Rightarrow> m i u s)"

definition put_cell :: "deriv_state \<Rightarrow> real \<Rightarrow> matrix \<Rightarrow> matrix" where
  "put_cell d v m = (case d of (i, s, u) \<Rightarrow> set_cell i u s v m)"

lemma cell_put: "cell (put_cell d v m) e = (if e = d then v else cell m e)"
  by (cases d; cases e) (auto simp: cell_def put_cell_def set_cell_def)

lemma put_cell_same: "put_cell d (cell m d) m = m"
  by (cases d) (simp add: cell_def put_cell_def set_cell_def)

definition push :: "deriv_state \<times> (deriv_state \<times> real) list \<Rightarrow> matrix \<Rightarrow> matrix" where
  "push x m = fold (\<lambda>(v, w) m. put_cell v (cell m v + cell m (fst x) * w) m) (snd x) m"

fun push_ok :: "(deriv_state \<times> (deriv_state \<times> real) list) list \<Rightarrow> bool" where
  "push_ok [] \<longleftrightarrow> True"
| "push_ok (x # xs) \<longleftrightarrow> (\<forall>y \<in> set (x # xs). fst x \<notin> fst ` set (snd y)) \<and> push_ok xs"

lemma push_ok_append:
  "push_ok (xs @ ys) \<longleftrightarrow> push_ok xs \<and> push_ok ys \<and> (\<forall>x \<in> set xs. \<forall>y \<in> set ys. fst x \<notin> fst ` set (snd y))"
  by (induction xs) auto

lemma push_ok_concat:
  assumes "\<And>k. k \<in> set ks \<Longrightarrow> push_ok (blk k)"
    and "sorted_wrt (\<lambda>k k'. \<forall>x \<in> set (blk k). \<forall>y \<in> set (blk k'). fst x \<notin> fst ` set (snd y)) ks"
  shows "push_ok (concat (map blk ks))"
  using assms by (induction ks) (auto simp: push_ok_append)

definition pushed :: "(deriv_state \<times> real) list \<Rightarrow> deriv_state \<Rightarrow> real" where
  "pushed as t = (\<Sum>(v, w)\<leftarrow>as. if v = t then w else 0)"

lemma pushed_none: "t \<notin> fst ` set as \<Longrightarrow> pushed as t = 0"
  by (induction as) (auto simp: pushed_def)

lemma push_value:
  assumes "fst x \<notin> fst ` set (snd x)"
  shows "cell (push x m) t = cell m t + cell m (fst x) * pushed (snd x) t"
proof -
  have "cell (fold (\<lambda>(v, w) m. put_cell v (cell m v + cell m u * w) m) as m) t = cell m t + cell m u * pushed as t"
    if "u \<notin> fst ` set as" for u as m
    using that
  proof (induction as arbitrary: m)
    case (Cons a as)
    obtain v w where a: "a = (v, w)" by fastforce
    have "cell (put_cell v (cell m v + cell m u * w) m) u = cell m u" using Cons.prems a by (auto simp: cell_put)
    then show ?case using Cons a by (auto simp: cell_put pushed_def algebra_simps)
  qed (simp add: pushed_def)
  then show ?thesis using assms by (simp add: push_def)
qed

lemma push_zero: "cell m (fst x) = 0 \<Longrightarrow> push x m = m"
proof -
  have "fold (\<lambda>(v, w) m. put_cell v (cell m v + cell m u * w) m) as m = m" if "cell m u = 0" for u as m
    using that by (induction as) (auto simp: put_cell_same)
  then show "cell m (fst x) = 0 \<Longrightarrow> push x m = m" by (simp add: push_def)
qed

lemma push_steps:
  assumes "push_ok xs"
  shows "cell (fold push xs m) t = cell m t + (\<Sum>x\<leftarrow>xs. cell (fold push xs m) (fst x) * pushed (snd x) t)"
  using assms
proof (induction xs arbitrary: m t)
  case (Cons x xs)
  let ?r = "fold push xs (push x m)"
  have own: "fst x \<notin> fst ` set (snd x)" and later: "\<forall>y \<in> set xs. fst x \<notin> fst ` set (snd y)" using Cons.prems by auto
  have IH: "cell ?r u = cell (push x m) u + (\<Sum>y\<leftarrow>xs. cell ?r (fst y) * pushed (snd y) u)" for u
    by (rule Cons.IH) (use Cons.prems in simp)
  have "(\<Sum>y\<leftarrow>xs. cell ?r (fst y) * pushed (snd y) (fst x)) = 0"
    using later by (simp add: pushed_none sum_list_0 cong: map_cong)
  then have "cell ?r (fst x) = cell m (fst x)" using IH [of "fst x"] push_value [OF own] pushed_none [OF own] by simp
  then show ?case using IH [of t] push_value [OF own] by simp
qed simp

lemma push_append: "push (u, as @ bs) m = push (u, bs) (push (u, as) m)"
  by (simp add: push_def)

section \<open>The moves of a machine\<close>

text \<open>For the index \<open>E\<close> (from a state and a pair of symbols to the targets) the cells that a cell is pushed to:
  first along arcs that neither read nor write, then along the others, in the order of the code.\<close>

type_synonym lookup = "nat \<Rightarrow> nat \<times> nat \<Rightarrow> DWPair list"

definition along :: "real FSTArc list \<Rightarrow> DWPair list \<Rightarrow> nat \<Rightarrow> nat \<Rightarrow> (deriv_state \<times> real) list" where
  "along atab fio i u = map (\<lambda>(d, n). ((i, d, u), arc_weight (atab ! n))) fio"

definition eps_moves :: "real FSTArc list \<Rightarrow> lookup \<Rightarrow> deriv_state \<Rightarrow> deriv_state \<times> (deriv_state \<times> real) list" where
  "eps_moves atab E d = (d, case d of (i, s, u) \<Rightarrow> along atab (E s (0, 0)) i u)"

definition sym_moves ::
  "real FSTArc list \<Rightarrow> lookup \<Rightarrow> nat list \<Rightarrow> nat list \<Rightarrow> deriv_state \<Rightarrow> deriv_state \<times> (deriv_state \<times> real) list" where
  "sym_moves atab E xs ys d = (d, case d of (i, s, u) \<Rightarrow>
     (if u < length ys then along atab (E s (0, ys ! u)) i (u + 1) @
        (if i < length xs then along atab (E s (xs ! i, ys ! u)) (i + 1) (u + 1) else []) else []) @
     (if i < length xs then along atab (E s (xs ! i, 0)) (i + 1) u else []))"

lemma forward_prop_push:
  "matrix_forward_prop atab fio s i u di do m = push ((i, s, u), along atab fio (i + di) (u + do)) m"
  unfolding matrix_forward_prop_def push_def along_def fold_map fst_conv snd_conv
  by (intro fold_cong refl) (auto simp: cell_def put_cell_def)

lemma compute_state_push:
  "matrix_compute_state atab inLet outLet io i u s m = push (sym_moves atab (found_io io) inLet outLet (i, s, u)) m"
proof (cases "m i u s = 0")
  case True
  then show ?thesis using push_zero [of m "sym_moves atab (found_io io) inLet outLet (i, s, u)"]
    by (simp add: matrix_compute_state_def sym_moves_def cell_def)
next
  case False
  then show ?thesis
    by (simp add: matrix_compute_state_def sym_moves_def forward_prop_push push_append Let_def) (simp add: push_def)
qed

definition matrix_steps ::
  "real FSTArc list \<Rightarrow> lookup \<Rightarrow> nat \<Rightarrow> nat list \<Rightarrow> nat list \<Rightarrow> nat list
    \<Rightarrow> (deriv_state \<times> (deriv_state \<times> real) list) list" where
  "matrix_steps atab E n_st xs ys eTopo =
     concat (map (\<lambda>(i, u). map (\<lambda>s. eps_moves atab E (i, s, u)) eTopo @
                           map (\<lambda>s. sym_moves atab E xs ys (i, s, u)) [0..<n_st])
       (concat (map (\<lambda>i. map (\<lambda>u. (i, u)) [0..<Suc (length ys)]) [0..<Suc (length xs)])))"

definition matrix_start :: "nat \<Rightarrow> nat list \<Rightarrow> nat list \<Rightarrow> nat \<Rightarrow> matrix \<Rightarrow> matrix" where
  "matrix_start n_st xs ys start w =
     set_cell 0 0 start 1 (\<lambda>i u s. if i \<le> length xs \<and> u \<le> length ys \<and> s < n_st then 0 else w i u s)"

lemma matrix_compute_steps:
  "matrix_compute atab n_st xs ys start io eTopo w =
     fold push (matrix_steps atab (found_io io) n_st xs ys eTopo) (matrix_start n_st xs ys start w)"
proof -
  have e: "matrix_forward_prop atab (found_io io s (0, 0)) s i u 0 0 = push (eps_moves atab (found_io io) (i, s, u))" for s i u
    by (rule ext) (simp add: forward_prop_push eps_moves_def)
  have c: "matrix_compute_state atab xs ys io i u = (\<lambda>s. push (sym_moves atab (found_io io) xs ys (i, s, u)))" for i u
    by (rule ext, rule ext, rule compute_state_push)
  have "fold push (matrix_steps atab (found_io io) n_st xs ys eTopo) m =
      fold (\<lambda>i. fold (\<lambda>u w. fold (\<lambda>s. push (sym_moves atab (found_io io) xs ys (i, s, u))) [0..<n_st]
          (fold (\<lambda>s. push (eps_moves atab (found_io io) (i, s, u))) eTopo w))
         [0..<Suc (length ys)]) [0..<Suc (length xs)] m" for m
    by (simp only: matrix_steps_def fold_concat_map fold_map comp_def prod.case fold_append)
  then show ?thesis by (simp only: matrix_compute_def Let_def e c matrix_start_def)
qed

section \<open>The equation of the filled matrix\<close>

text \<open>\<open>Q n s s'\<close>: arc \<open>n\<close> leads from state \<open>s\<close> to \<open>s'\<close> in the machine the index stands for.\<close>

definition lookup_ok :: "real FSTArc list \<Rightarrow> nat \<Rightarrow> lookup \<Rightarrow> (nat \<Rightarrow> nat \<Rightarrow> nat \<Rightarrow> bool) \<Rightarrow> bool" where
  "lookup_ok atab n_st E Q \<longleftrightarrow>
     (\<forall>s < n_st. \<forall>x y. distinct (map snd (E s (x, y))) \<and>
        set (E s (x, y)) = {(d, n). n < length atab \<and> Q n s d \<and> arc_in (atab ! n) = x \<and> arc_out (atab ! n) = y}) \<and>
     (\<forall>n < length atab. \<forall>s s'. Q n s s' \<longrightarrow> s' < n_st)"

definition order_ok :: "lookup \<Rightarrow> nat \<Rightarrow> nat list \<Rightarrow> bool" where
  "order_ok E n_st us \<longleftrightarrow> distinct us \<and> set us \<subseteq> {..<n_st} \<and> (\<forall>s < n_st. s \<notin> set us \<longrightarrow> E s (0, 0) = []) \<and>
     (\<forall>vs s ws. us = vs @ s # ws \<longrightarrow> (\<forall>x \<in> set (E s (0, 0)). fst x \<notin> set (vs @ [s])))"

definition reads :: "nat list \<Rightarrow> nat \<Rightarrow> nat \<Rightarrow> nat \<Rightarrow> bool" where
  "reads zs x i i' \<longleftrightarrow> (x = 0 \<and> i' = i) \<or> (i < length zs \<and> x = zs ! i \<and> i' = Suc i)"

definition arc_fits ::
  "real FSTArc list \<Rightarrow> (nat \<Rightarrow> nat \<Rightarrow> nat \<Rightarrow> bool) \<Rightarrow> nat list \<Rightarrow> nat list \<Rightarrow> nat \<Rightarrow> deriv_state \<Rightarrow> deriv_state \<Rightarrow> bool" where
  "arc_fits atab Q xs ys n d e \<longleftrightarrow>
     (case (d, e) of ((i, s, u), (i', s', u')) \<Rightarrow>
        Q n s s' \<and> reads xs (arc_in (atab ! n)) i i' \<and> reads ys (arc_out (atab ! n)) u u')"

definition step_sum ::
  "real FSTArc list \<Rightarrow> (nat \<Rightarrow> nat \<Rightarrow> nat \<Rightarrow> bool) \<Rightarrow> nat list \<Rightarrow> nat list \<Rightarrow> deriv_state \<Rightarrow> deriv_state \<Rightarrow> real" where
  "step_sum atab Q xs ys d e = (\<Sum>n < length atab. if arc_fits atab Q xs ys n d e then arc_weight (atab ! n) else 0)"

lemma pushed_along:
  assumes ok: "lookup_ok atab n_st E Q" and s: "s < n_st"
  shows "pushed (along atab (E s (x, y)) a b) (i', s', u') =
    (\<Sum>n < length atab. if a = i' \<and> b = u' \<and> Q n s s' \<and> arc_in (atab ! n) = x \<and> arc_out (atab ! n) = y
       then arc_weight (atab ! n) else 0)"
proof -
  have d: "distinct (map snd (E s (x, y)))"
    and S: "set (E s (x, y)) = {(d, n). n < length atab \<and> Q n s d \<and> arc_in (atab ! n) = x \<and> arc_out (atab ! n) = y}"
    using ok s by (auto simp: lookup_ok_def)
  let ?h = "\<lambda>p. if fst p = s' \<and> a = i' \<and> b = u' then arc_weight (atab ! snd p) else 0"
  have "pushed (along atab (E s (x, y)) a b) (i', s', u') = (\<Sum>p\<leftarrow>E s (x, y). ?h p)"
    unfolding pushed_def along_def by (simp add: comp_def case_prod_unfold) (rule arg_cong [where f = sum_list], auto)
  also have "\<dots> = (\<Sum>p \<in> set (E s (x, y)). ?h p)"
    by (rule sum_list_distinct_conv_sum_set) (use d in \<open>simp add: distinct_map\<close>)
  also have "\<dots> = (\<Sum>p \<in> (\<lambda>n. (s', n)) ` {n. n < length atab \<and> Q n s s' \<and> arc_in (atab ! n) = x \<and> arc_out (atab ! n) = y}. ?h p)"
    by (rule sum.mono_neutral_right [OF finite_set]) (auto simp: S)
  also have "\<dots> = (\<Sum>n | n < length atab \<and> Q n s s' \<and> arc_in (atab ! n) = x \<and> arc_out (atab ! n) = y.
      if a = i' \<and> b = u' then arc_weight (atab ! n) else 0)"
    by (subst sum.reindex) (simp_all add: inj_on_def comp_def cong: if_cong)
  also have "\<dots> = (\<Sum>n < length atab. if Q n s s' \<and> arc_in (atab ! n) = x \<and> arc_out (atab ! n) = y
      then (if a = i' \<and> b = u' then arc_weight (atab ! n) else 0) else 0)"
    by (subst sum.inter_filter [symmetric]) (auto intro: sum.cong)
  also have "\<dots> = (\<Sum>n < length atab. if a = i' \<and> b = u' \<and> Q n s s' \<and> arc_in (atab ! n) = x \<and> arc_out (atab ! n) = y
       then arc_weight (atab ! n) else 0)"
    by (intro sum.cong refl) auto
  finally show ?thesis .
qed

lemma pushed_append: "pushed (as @ bs) t = pushed as t + pushed bs t"
  by (simp add: pushed_def)

lemma pushed_moves:
  assumes ok: "lookup_ok atab n_st E Q" and s: "s < n_st"
  shows "pushed (snd (eps_moves atab E (i, s, u))) t + pushed (snd (sym_moves atab E xs ys (i, s, u))) t =
    step_sum atab Q xs ys (i, s, u) t"
proof -
  obtain i' s' u' where t: "t = (i', s', u')" by (cases t)
  note pa = pushed_along [OF ok s, of _ _ _ _ i' s' u']
  have nil: "pushed [] t = 0" by (simp add: pushed_def)
  have "pushed (snd (eps_moves atab E (i, s, u))) t + pushed (snd (sym_moves atab E xs ys (i, s, u))) t =
     (\<Sum>n < length atab.
       (if i = i' \<and> u = u' \<and> Q n s s' \<and> arc_in (atab ! n) = 0 \<and> arc_out (atab ! n) = 0 then arc_weight (atab ! n) else 0) +
       (if u < length ys \<and> i = i' \<and> u + 1 = u' \<and> Q n s s' \<and> arc_in (atab ! n) = 0 \<and> arc_out (atab ! n) = ys ! u
        then arc_weight (atab ! n) else 0) +
       (if u < length ys \<and> i < length xs \<and> i + 1 = i' \<and> u + 1 = u' \<and> Q n s s' \<and> arc_in (atab ! n) = xs ! i \<and>
          arc_out (atab ! n) = ys ! u then arc_weight (atab ! n) else 0) +
       (if i < length xs \<and> i + 1 = i' \<and> u = u' \<and> Q n s s' \<and> arc_in (atab ! n) = xs ! i \<and> arc_out (atab ! n) = 0
        then arc_weight (atab ! n) else 0))"
    unfolding t by (simp add: eps_moves_def sym_moves_def pushed_append pa nil [unfolded t] sum.distrib)
  also have "\<dots> = step_sum atab Q xs ys (i, s, u) t"
    unfolding step_sum_def t by (intro sum.cong refl) (auto simp: arc_fits_def reads_def)
  finally show ?thesis .
qed

lemma along_targets: "fst ` set (along atab fio a b) = (\<lambda>(d, n). (a, d, b)) ` set fio"
  by (force simp: along_def image_iff)

lemma in_along: "((a', d, b'), w) \<in> set (along atab fio a b) \<Longrightarrow> a' = a \<and> b' = b"
  by (auto simp: along_def)

lemma sorted_pairs:
  assumes "sorted_wrt (<) (is :: nat list)" "sorted_wrt (<) (us :: nat list)"
  shows "sorted_wrt (\<lambda>(i, u) (i', u'). i < i' \<or> (i = i' \<and> u < u')) (concat (map (\<lambda>i. map (\<lambda>u. (i, u)) us) is))"
  using assms(1)
proof (induction "is")
  case (Cons i "is")
  have "sorted_wrt (\<lambda>(i, u) (i', u'). i < i' \<or> (i = i' \<and> u < u')) (map (\<lambda>u. (i, u)) us)"
    using assms(2) by (simp add: sorted_wrt_map)
  then show ?case using Cons by (auto simp: sorted_wrt_append)
qed simp

lemma matrix_steps_ok:
  assumes ord: "order_ok E n_st us"
  shows "push_ok (matrix_steps atab E n_st xs ys us)"
  unfolding matrix_steps_def
proof (rule push_ok_concat)
  let ?blk = "\<lambda>(i, u). map (\<lambda>s. eps_moves atab E (i, s, u)) us @ map (\<lambda>s. sym_moves atab E xs ys (i, s, u)) [0..<n_st]"
  have eps: "push_ok (map (\<lambda>s. eps_moves atab E (i, s, u)) ws)" if "us = vs @ ws" for i u vs ws
    using that
  proof (induction ws arbitrary: vs)
    case (Cons s ws)
    have "(i, s, u) \<notin> fst ` set (snd (eps_moves atab E (i, s', u)))" if s': "s' \<in> set (s # ws)" for s'
    proof -
      obtain as bs where ws: "s # ws = as @ s' # bs" using split_list [OF s'] by blast
      then have "us = (vs @ as) @ s' # bs" "s \<in> set ((vs @ as) @ [s'])" using Cons.prems by (cases as, auto)+
      then have "\<forall>x \<in> set (E s' (0, 0)). fst x \<noteq> s" using ord unfolding order_ok_def by metis
      then show ?thesis by (auto simp: eps_moves_def along_targets)
    qed
    then show ?case using Cons.IH [of "vs @ [s]"] Cons.prems by (auto simp: eps_moves_def)
  qed simp
  have sym: "(i, s, u) \<notin> fst ` set (snd (sym_moves atab E xs ys (i, s', u)))" for i u s s'
    by (auto simp: sym_moves_def split: if_splits dest!: in_along)
  have "push_ok (map (\<lambda>s. sym_moves atab E xs ys (i, s, u)) ss)" for i u ss
    using sym by (induction ss) (auto simp: sym_moves_def)
  then show "push_ok (?blk k)" for k
    using eps [of "[]" us] sym by (cases k) (auto simp: push_ok_append eps_moves_def sym_moves_def)
  have src: "\<exists>s. fst x = (i, s, u)" if "x \<in> set (?blk (i, u))" for x i u
    using that by (auto simp: eps_moves_def sym_moves_def)
  have tgt: "i \<le> i' \<and> u \<le> u'" if "y \<in> set (?blk (i, u))" "(i', s', u') \<in> fst ` set (snd y)" for y i u i' s' u'
    using that by (auto simp: eps_moves_def sym_moves_def split: if_splits dest!: in_along)
  show "sorted_wrt (\<lambda>k k'. \<forall>x \<in> set (?blk k). \<forall>y \<in> set (?blk k'). fst x \<notin> fst ` set (snd y))
      (concat (map (\<lambda>i. map (\<lambda>u. (i, u)) [0..<Suc (length ys)]) [0..<Suc (length xs)]))"
  proof (rule sorted_wrt_mono_rel [where P = "\<lambda>(i, u) (i', u'). i < i' \<or> (i = i' \<and> u < (u' :: nat))"])
    fix k k' :: "nat \<times> nat" assume lt: "(case k of (i, u) \<Rightarrow> \<lambda>(i', u'). i < i' \<or> (i = i' \<and> u < u')) k'"
    show "\<forall>x \<in> set (?blk k). \<forall>y \<in> set (?blk k'). fst x \<notin> fst ` set (snd y)"
    proof (intro ballI notI)
      fix x y assume x: "x \<in> set (?blk k)" and y: "y \<in> set (?blk k')" and m: "fst x \<in> fst ` set (snd y)"
      obtain i u i' u' where k: "k = (i, u)" "k' = (i', u')" by (cases k; cases k')
      obtain s where "fst x = (i, s, u)" using src x unfolding k by blast
      then have "i' \<le> i \<and> u' \<le> u" using tgt [of y i' u'] y m unfolding k by metis
      then show False using lt k by auto
    qed
  next
    show "sorted_wrt (\<lambda>(i, u) (i', u'). i < i' \<or> (i = i' \<and> u < u'))
        (concat (map (\<lambda>i. map (\<lambda>u. (i, u)) [0..<Suc (length ys)]) [0..<Suc (length xs)]))"
      by (rule sorted_pairs) (rule sorted_wrt_upt)+
  qed
qed

definition cells :: "nat \<Rightarrow> nat list \<Rightarrow> nat list \<Rightarrow> deriv_state set" where
  "cells n_st xs ys = {..length xs} \<times> {..<n_st} \<times> {..length ys}"

lemma cells_finite [simp]: "finite (cells n_st xs ys)"
  by (simp add: cells_def)

lemma cells_deriv_states: "cells (numStates M) xs ys = deriv_states M xs ys"
  by (simp add: cells_def deriv_states_def)

lemma sum_cells: "(\<Sum>d \<in> cells n_st xs ys. h d) = (\<Sum>i \<le> length xs. \<Sum>u \<le> length ys. \<Sum>s < n_st. (h (i, s, u) :: real))"
proof -
  have "(\<Sum>d \<in> cells n_st xs ys. h d) = (\<Sum>i \<le> length xs. \<Sum>s < n_st. \<Sum>u \<le> length ys. h (i, s, u))"
    by (simp add: cells_def sum.cartesian_product case_prod_unfold)
  then show ?thesis by (simp add: sum.swap [of _ "{..<n_st}"])
qed

lemma sum_list_upt: "(\<Sum>x\<leftarrow>[0..<n]. h x) = (\<Sum>x < n. (h x :: real))"
  by (simp add: sum_list_distinct_conv_sum_set atLeast0LessThan)

lemma sum_steps:
  assumes ord: "order_ok E n_st us"
  shows "(\<Sum>x\<leftarrow>matrix_steps atab E n_st xs ys us. cell r (fst x) * pushed (snd x) t) =
    (\<Sum>d \<in> cells n_st xs ys. cell r d * (pushed (snd (eps_moves atab E d)) t + pushed (snd (sym_moves atab E xs ys d)) t))"
proof -
  have u: "distinct us" "set us \<subseteq> {..<n_st}" using ord by (auto simp: order_ok_def)
  have "pushed (snd (eps_moves atab E (i, s, u))) t = 0" if "s < n_st" "s \<notin> set us" for i s u
    using ord that by (auto simp: order_ok_def eps_moves_def along_def pushed_def)
  then have e: "(\<Sum>s\<leftarrow>us. cell r (i, s, u) * pushed (snd (eps_moves atab E (i, s, u))) t) =
      (\<Sum>s < n_st. cell r (i, s, u) * pushed (snd (eps_moves atab E (i, s, u))) t)" for i u
    by (intro sum_order [OF u]) simp
  have f: "fst (eps_moves atab E d) = d" "fst (sym_moves atab E xs ys d) = d" for d by (simp_all add: eps_moves_def sym_moves_def)
  show ?thesis
    unfolding sum_cells
    by (simp add: matrix_steps_def sum_list_concat_map sum_list_upt f e distrib_left sum.distrib lessThan_Suc_atMost comp_def
        del: upt_Suc sum.lessThan_Suc)
qed

lemma matrix_equation:
  fixes w :: matrix
  assumes ok: "lookup_ok atab n_st (found_io io) Q" and ord: "order_ok (found_io io) n_st us" and start: "start < n_st"
    and t: "t \<in> cells n_st xs ys"
  defines "r \<equiv> matrix_compute atab n_st xs ys start io us w"
  shows "cell r t = (if t = (0, start, 0) then 1 else 0) + (\<Sum>d \<in> cells n_st xs ys. cell r d * step_sum atab Q xs ys d t)"
proof -
  have "cell (matrix_start n_st xs ys start w) t = (if t = (0, start, 0) then 1 else 0)"
  proof -
    let ?m = "\<lambda>i u s. if i \<le> length xs \<and> u \<le> length ys \<and> s < n_st then 0 else w i u s"
    have "matrix_start n_st xs ys start w = put_cell (0, start, 0) 1 ?m" by (simp add: matrix_start_def put_cell_def)
    moreover have "cell ?m t = 0" using t by (cases t) (simp add: cell_def cells_def)
    ultimately show ?thesis by (simp add: cell_put)
  qed
  moreover have "cell r d * (pushed (snd (eps_moves atab (found_io io) d)) t + pushed (snd (sym_moves atab (found_io io) xs ys d)) t) =
      cell r d * step_sum atab Q xs ys d t" if "d \<in> cells n_st xs ys" for d
    using pushed_moves [OF ok] that by (cases d) (simp add: cells_def)
  then have "(\<Sum>d \<in> cells n_st xs ys. cell r d * (pushed (snd (eps_moves atab (found_io io) d)) t +
      pushed (snd (sym_moves atab (found_io io) xs ys d)) t)) = (\<Sum>d \<in> cells n_st xs ys. cell r d * step_sum atab Q xs ys d t)"
    by (intro sum.cong refl)
  ultimately show ?thesis
    using push_steps [OF matrix_steps_ok [OF ord, where atab = atab and xs = xs and ys = ys], of "matrix_start n_st xs ys start w" t] sum_steps [OF ord, where r = r and atab = atab and xs = xs and ys = ys and t = t]
    by (simp add: r_def matrix_compute_steps)
qed

section \<open>Solutions of the equations\<close>

lemma equation_unique:
  assumes "finite S" and rank: "\<And>d e. d \<in> S \<Longrightarrow> e \<in> S \<Longrightarrow> W d e \<noteq> (0 :: real) \<Longrightarrow> rank e < (rank d :: nat)"
    and X: "\<And>t. t \<in> S \<Longrightarrow> X t = c t + (\<Sum>e \<in> S. W t e * X e)" and Y: "\<And>t. t \<in> S \<Longrightarrow> Y t = c t + (\<Sum>e \<in> S. W t e * Y e)"
    and t: "t \<in> S"
  shows "X t = Y t"
  using t
proof (induction "rank t" arbitrary: t rule: less_induct)
  case less
  have "W t e * X e = W t e * Y e" if "e \<in> S" for e
  proof (cases "W t e = 0")
    case False
    then show ?thesis using less.hyps [OF rank [OF less.prems that False] that] by simp
  qed simp
  then have "(\<Sum>e \<in> S. W t e * X e) = (\<Sum>e \<in> S. W t e * Y e)" by (intro sum.cong refl) simp
  then show ?case using X [OF less.prems] Y [OF less.prems] by simp
qed

lemma equation_pairing:
  assumes "finite S" "start \<in> S"
    and F: "\<And>t. t \<in> S \<Longrightarrow> F t = (if t = start then 1 else 0) + (\<Sum>d \<in> S. F d * (W d t :: real))"
    and X: "\<And>t. t \<in> S \<Longrightarrow> X t = c t + (\<Sum>e \<in> S. W t e * X e)"
  shows "(\<Sum>t \<in> S. F t * c t) = X start"
proof -
  have "(\<Sum>t \<in> S. F t * X t) = (\<Sum>t \<in> S. F t * c t + (\<Sum>e \<in> S. F t * W t e * X e))"
  proof (rule sum.cong [OF refl])
    fix t assume "t \<in> S"
    then show "F t * X t = F t * c t + (\<Sum>e \<in> S. F t * W t e * X e)"
      using arg_cong [OF X, of t "(*) (F t)"] by (simp add: distrib_left sum_distrib_left mult.assoc)
  qed
  also have "\<dots> = (\<Sum>t \<in> S. F t * c t) + (\<Sum>e \<in> S. (\<Sum>t \<in> S. F t * W t e) * X e)"
    by (simp only: sum.distrib sum_distrib_right) (simp only: sum.swap [of "\<lambda>t e. F t * W t e * X e"])
  also have "(\<Sum>e \<in> S. (\<Sum>t \<in> S. F t * W t e) * X e) = (\<Sum>e \<in> S. F e * X e - (if e = start then X e else 0))"
  proof (intro sum.cong refl)
    fix e assume "e \<in> S"
    then have "(\<Sum>t \<in> S. F t * W t e) = F e - (if e = start then 1 else 0)" using F [of e] by linarith
    then show "(\<Sum>t \<in> S. F t * W t e) * X e = F e * X e - (if e = start then X e else 0)" by (simp add: left_diff_distrib)
  qed
  also have "\<dots> = (\<Sum>e \<in> S. F e * X e) - X start" using assms(1,2) by (simp add: sum_subtractf)
  finally show ?thesis by simp
qed

section \<open>Ranks of derivation states\<close>

definition deriv_rank :: "'w WFST \<Rightarrow> nat list \<Rightarrow> nat list \<Rightarrow> deriv_state \<Rightarrow> nat" where
  "deriv_rank M xs ys d = card {e \<in> deriv_states M xs ys. (deriv_move M xs ys)\<^sup>+\<^sup>+ d e}"

lemma deriv_acyclic:
  assumes ok: "wfst_ok M" and eps: "\<not> (\<exists>s. (eps_step M)\<^sup>+\<^sup>+ s s)" and d: "d \<in> deriv_states M xs ys"
  shows "\<not> (deriv_move M xs ys)\<^sup>+\<^sup>+ d d"
proof
  assume c: "(deriv_move M xs ys)\<^sup>+\<^sup>+ d d"
  let ?pos = "\<lambda>d. fst d + snd (snd d)" and ?st = "\<lambda>d. fst (snd d)"
  have "e \<in> deriv_states M xs ys \<and>
      (?pos d < ?pos e \<or> (?pos d = ?pos e \<and> (eps_step M)\<^sup>+\<^sup>+ (?st d) (?st e)))"
    if "(deriv_move M xs ys)\<^sup>+\<^sup>+ d e" for e
    using that
  proof induction
    case (base e)
    have "?st d < numStates M" using d by (auto simp: deriv_states_def)
    then show ?case
      using deriv_move_forward [of M xs ys "fst d" "?st d" "snd (snd d)" "fst e" "?st e" "snd (snd e)"] base
        deriv_move_states [OF ok base d] by auto
  next
    case (step e f)
    have e: "e \<in> deriv_states M xs ys" using step.IH by blast
    then have "?st e < numStates M" by (auto simp: deriv_states_def)
    then have fwd: "?pos e < ?pos f \<or> (?pos e = ?pos f \<and> eps_step M (?st e) (?st f))"
      using deriv_move_forward [of M xs ys "fst e" "?st e" "snd (snd e)" "fst f" "?st f" "snd (snd f)"] step.hyps(2) by simp
    have "(eps_step M)\<^sup>+\<^sup>+ (?st d) (?st f)" if "(eps_step M)\<^sup>+\<^sup>+ (?st d) (?st e)" "eps_step M (?st e) (?st f)"
      using that by (rule tranclp.trancl_into_trancl)
    moreover have "f \<in> deriv_states M xs ys" by (rule deriv_move_states [OF ok step.hyps(2) e])
    ultimately show ?case using fwd step.IH by linarith
  qed
  from this [OF c] eps show False by blast
qed

lemma deriv_rank_less:
  assumes "wfst_ok M" "\<not> (\<exists>s. (eps_step M)\<^sup>+\<^sup>+ s s)" "d \<in> deriv_states M xs ys" "deriv_move M xs ys d e"
  shows "deriv_rank M xs ys e < deriv_rank M xs ys d"
proof -
  have e: "e \<in> deriv_states M xs ys" by (rule deriv_move_states [OF assms(1,4,3)])
  have "(deriv_move M xs ys)\<^sup>+\<^sup>+ d f" if "(deriv_move M xs ys)\<^sup>+\<^sup>+ e f" for f
    by (rule tranclp_into_tranclp2 [OF assms(4) that])
  moreover have "\<not> (deriv_move M xs ys)\<^sup>+\<^sup>+ e e" by (rule deriv_acyclic [OF assms(1,2) e])
  ultimately have "{f \<in> deriv_states M xs ys. (deriv_move M xs ys)\<^sup>+\<^sup>+ e f} \<subset>
      {f \<in> deriv_states M xs ys. (deriv_move M xs ys)\<^sup>+\<^sup>+ d f}" using e assms(4) by blast
  then show ?thesis unfolding deriv_rank_def by (rule psubset_card_mono [rotated]) (simp add: deriv_states_finite)
qed

lemma deriv_rank_bound:
  assumes "wfst_ok M" "\<not> (\<exists>s. (eps_step M)\<^sup>+\<^sup>+ s s)" "d \<in> deriv_states M xs ys"
  shows "deriv_rank M xs ys d < card (deriv_states M xs ys)"
proof -
  have "{e \<in> deriv_states M xs ys. (deriv_move M xs ys)\<^sup>+\<^sup>+ d e} \<subset> deriv_states M xs ys"
    using deriv_acyclic [OF assms] assms(3) by blast
  then show ?thesis unfolding deriv_rank_def by (rule psubset_card_mono [OF deriv_states_finite])
qed

lemma move_paths_rank:
  assumes ok: "wfst_ok M" "\<not> (\<exists>s. (eps_step M)\<^sup>+\<^sup>+ s s)"
  shows "d \<in> deriv_states M xs ys \<Longrightarrow> deriv_rank M xs ys d < k \<Longrightarrow> move_paths M xs ys k d = []"
proof (induction k arbitrary: d)
  case (Suc k)
  have "move_paths M xs ys k e = []" if "(n, e) \<in> set (deriv_moves M xs ys d)" for n e
  proof -
    have m: "deriv_move M xs ys d e" using that by (auto simp: deriv_move_def)
    show ?thesis
      using Suc.IH [OF deriv_move_states [OF ok(1) m Suc.prems(1)]] deriv_rank_less [OF ok Suc.prems(1) m] Suc.prems(2) by simp
  qed
  then show ?case by (auto simp: concat_eq_Nil_conv)
qed simp

section \<open>The indices of the forward and the backward machine\<close>

lemma push_index:
  fixes io :: "nat \<Rightarrow> nat \<times> nat" and dw :: "nat \<Rightarrow> DWPair"
  assumes "\<And>n. n \<in> set ns \<Longrightarrow> st n < length tb" "\<forall>s < length tb. ht_inv iopair_hash (tb ! s)"
  defines "tb' \<equiv> fold (\<lambda>n. index_push (st n) (io n) (dw n)) ns tb"
  shows "length tb' = length tb \<and> (\<forall>s < length tb. ht_inv iopair_hash (tb' ! s) \<and>
    (\<forall>x. found_io tb' s x = found_io tb s x @ map dw (filter (\<lambda>n. st n = s \<and> io n = x) ns)))"
  using assms(1,2) unfolding tb'_def
proof (induction ns arbitrary: tb)
  case (Cons n ns)
  let ?t = "index_push (st n) (io n) (dw n) tb"
  have sn: "st n < length tb" using Cons.prems(1) by simp
  note up = ht_update_props [OF Cons.prems(2) [rule_format, OF sn], of "[]" "io n" "\<lambda>l. l @ [dw n]"]
  have len: "length ?t = length tb" by (simp add: index_push_def)
  have inv: "ht_inv iopair_hash (?t ! s)" if "s < length tb" for s
    using that up(1) Cons.prems(2) by (cases "s = st n") (simp_all add: index_push_def)
  have f: "found_io ?t s x = found_io tb s x @ (if st n = s \<and> io n = x then [dw n] else [])" if "s < length tb" for s x
    using that up(2) by (cases "s = st n") (auto simp: index_push_def found_io_def split: option.split)
  have "\<And>k. k \<in> set ns \<Longrightarrow> st k < length ?t" "\<forall>s < length ?t. ht_inv iopair_hash (?t ! s)"
    using Cons.prems(1) inv len by simp_all
  from Cons.IH [OF this] show ?case by (simp add: len f)
qed simp

definition forward_arc :: "real WFST \<Rightarrow> nat \<Rightarrow> nat \<Rightarrow> nat \<Rightarrow> bool" where
  "forward_arc M n s s' \<longleftrightarrow> s < numStates M \<and> n \<in> set (arc_ids M s) \<and> arc_dest (all_arcs M ! n) = s'"

definition backward_arc :: "real WFST \<Rightarrow> nat \<Rightarrow> nat \<Rightarrow> nat \<Rightarrow> bool" where
  "backward_arc M n s s' \<longleftrightarrow> forward_arc M n s' s"

lemma arc_dest_bound: "wfst_ok M \<Longrightarrow> n < length (all_arcs M) \<Longrightarrow> arc_dest (all_arcs M ! n) < numStates M"
  using arc_ids_cover [of n M] arc_ids_in [of _ M n] unfolding wfst_ok_def by (metis nth_mem)

lemma forward_arc_src:
  assumes "table_ok M tab" "n < length (all_arcs M)" "s < numStates M"
  shows "n \<in> set (arc_ids M s) \<longleftrightarrow> ac_src (tab ! n) = s"
  using assms arc_ids_cover [OF assms(2)] arc_ids_disjoint by (fastforce simp: table_ok_def)

lemma matrix_populate_lookup:
  assumes ok: "wfst_ok M" and tab: "table_ok M tab" and p: "matrix_populate M tab True = (fw, bw)"
  shows "lookup_ok (all_arcs M) (numStates M) (found_io fw) (forward_arc M)"
    "lookup_ok (all_arcs M) (numStates M) (found_io bw) (backward_arc M)"
proof -
  let ?N = "length (all_arcs M)" and ?S = "numStates M"
  let ?a = "\<lambda>n. all_arcs M ! n" and ?st = "\<lambda>n. ac_src (tab ! n)"
  let ?io = "\<lambda>n. (arc_in (?a n), arc_out (?a n))" and ?d = "\<lambda>n. arc_dest (?a n)"
  let ?t0 = "replicate ?S (ht_new DEFAULTHASHSIZE) :: matrix_index"
  have len: "length tab = ?N" using tab by (simp add: table_ok_def)
  have "fold (\<lambda>n (forward, backward).
             let a = all_arcs M ! n; io = (arc_in a, arc_out a); s = ac_src (tab ! n); d = arc_dest a
             in (index_push s io (d, n) forward, if True then index_push d io (s, n) backward else backward)) ns (f, b) =
      (fold (\<lambda>n. index_push (?st n) (?io n) (?d n, n)) ns f, fold (\<lambda>n. index_push (?d n) (?io n) (?st n, n)) ns b)" for ns f b
    by (induction ns arbitrary: f b) (simp_all add: Let_def)
  then have fb: "fw = fold (\<lambda>n. index_push (?st n) (?io n) (?d n, n)) [0..<?N] ?t0"
    "bw = fold (\<lambda>n. index_push (?d n) (?io n) (?st n, n)) [0..<?N] ?t0"
    using p by (simp_all add: matrix_populate_def len)
  have st: "?st n < ?S" if "n < ?N" for n
    using arc_ids_cover [OF that] tab by (auto simp: table_ok_def)
  have d: "?d n < ?S" if "n < ?N" for n by (rule arc_dest_bound [OF ok that])
  have t0: "\<forall>s < length ?t0. ht_inv iopair_hash (?t0 ! s)" by simp
  have e0: "found_io ?t0 s x = []" if "s < ?S" for s x using that by (simp add: found_io_def)
  have ff: "found_io fw s x = map (\<lambda>n. (?d n, n)) (filter (\<lambda>n. ?st n = s \<and> ?io n = x) [0..<?N])" if "s < ?S" for s x
    using push_index [where st = ?st and io = ?io and dw = "\<lambda>n. (?d n, n)" and ns = "[0..<?N]", OF _ t0] st that e0 by (cases x) (simp add: fb(1))
  have fb': "found_io bw s x = map (\<lambda>n. (?st n, n)) (filter (\<lambda>n. ?d n = s \<and> ?io n = x) [0..<?N])" if "s < ?S" for s x
    using push_index [where st = ?d and io = ?io and dw = "\<lambda>n. (?st n, n)" and ns = "[0..<?N]", OF _ t0] d that e0 by (cases x) (simp add: fb(2))
  have src: "forward_arc M n s s' \<longleftrightarrow> s < ?S \<and> ?st n = s \<and> ?d n = s'" if "n < ?N" for n s s'
    using forward_arc_src [OF tab that] by (auto simp: forward_arc_def)
  show "lookup_ok (all_arcs M) ?S (found_io fw) (forward_arc M)"
    unfolding lookup_ok_def
  proof (intro conjI allI impI)
    fix s x y assume s: "s < ?S"
    show "distinct (map snd (found_io fw s (x, y)))" using s by (simp add: ff comp_def)
    show "set (found_io fw s (x, y)) = {(d, n). n < ?N \<and> forward_arc M n s d \<and> arc_in (?a n) = x \<and> arc_out (?a n) = y}"
      using s src by (auto simp: ff)
  qed (use src d in auto)
  show "lookup_ok (all_arcs M) ?S (found_io bw) (backward_arc M)"
    unfolding lookup_ok_def backward_arc_def
  proof (intro conjI allI impI)
    fix s x y assume s: "s < ?S"
    show "distinct (map snd (found_io bw s (x, y)))" using s by (simp add: fb' comp_def)
    show "set (found_io bw s (x, y)) = {(d, n). n < ?N \<and> forward_arc M n d s \<and> arc_in (?a n) = x \<and> arc_out (?a n) = y}"
      using s src st by (auto simp: fb')
  qed (auto simp: forward_arc_def)
qed

section \<open>The order of the epsilon arcs\<close>

lemma topo_order_crucial:
  assumes ok: "graph_ok g" and nc: "\<And>s. \<not> cycle_from g s"
  defines "us \<equiv> order_ts (topo_order g False (topo_new g))"
  shows "topo_sorted g us" "distinct us" "set us \<subseteq> {..<length g}" "s < length g \<Longrightarrow> g ! s \<noteq> [] \<Longrightarrow> s \<in> set us"
proof -
  let ?idle = "\<lambda>t. \<forall>u < length g. begun t ! u \<longrightarrow> done_ts t ! u"
  let ?step = "\<lambda>i t. if g ! i \<noteq> [] then topo_order_from g i t else t"
  have step: "topo_inv g (topo_order_from g i t) \<and> ?idle (topo_order_from g i t) \<and> n_back_edges (topo_order_from g i t) = 0 \<and>
      topo_le (length g) t (topo_order_from g i t) \<and> done_ts (topo_order_from g i t) ! i"
    if t: "topo_inv g t" "?idle t" "n_back_edges t = 0" and i: "i < length g" for i t
  proof -
    have u: "unset (begun t) < Suc (length g)"
      using t(1) by (simp add: topo_inv_def unset_def) (metis le_imp_less_Suc length_filter_le)
    have ip: "in_progress_reach g t i" using t(2) by (auto simp: in_progress_reach_def)
    note sp = order_from_spec [OF ok t(1) i u ip, folded topo_order_from_def]
    have z: "n_back_edges (topo_order_from g i t) = 0"
      using sp nc t(2) i t(3) by (metis gr0I)
    have "?idle (topo_order_from g i t)" using sp t(2) unfolding topo_le_def by blast
    then show ?thesis using sp z by blast
  qed
  have fold: "topo_inv g (fold ?step is t) \<and> n_back_edges (fold ?step is t) = 0 \<and>
      topo_le (length g) t (fold ?step is t) \<and> (\<forall>i \<in> set is. g ! i \<noteq> [] \<longrightarrow> done_ts (fold ?step is t) ! i)"
    if "topo_inv g t" "?idle t" "n_back_edges t = 0" "set is \<subseteq> {..<length g}" for "is" t
    using that
  proof (induction "is" arbitrary: t)
    case Nil
    then show ?case by (simp add: topo_le_refl)
  next
    case (Cons i "is")
    have i: "i < length g" using Cons.prems(4) by simp
    have s: "topo_inv g (?step i t) \<and> ?idle (?step i t) \<and> n_back_edges (?step i t) = 0 \<and>
        topo_le (length g) t (?step i t) \<and> (g ! i \<noteq> [] \<longrightarrow> done_ts (?step i t) ! i)"
      using step [OF Cons.prems(1-3) i] Cons.prems by (simp add: topo_le_refl)
    have sub: "set is \<subseteq> {..<length g}" using Cons.prems(4) by simp
    have IH: "topo_inv g (fold ?step is (?step i t)) \<and> n_back_edges (fold ?step is (?step i t)) = 0 \<and>
      topo_le (length g) (?step i t) (fold ?step is (?step i t)) \<and>
      (\<forall>j \<in> set is. g ! j \<noteq> [] \<longrightarrow> done_ts (fold ?step is (?step i t)) ! j)"
      by (rule Cons.IH) (use s sub in blast)+
    have "done_ts (fold ?step is (?step i t)) ! i" if "g ! i \<noteq> []"
      using IH s that i unfolding topo_le_def by blast
    moreover have "topo_le (length g) t (fold ?step is (?step i t))" using IH s topo_le_trans by blast
    ultimately show ?case using IH unfolding fold_Cons comp_apply list.set by blast
  qed
  have new: "?idle (topo_new g)" "n_back_edges (topo_new g) = 0" by (simp_all add: topo_new_def)
  have sub: "set [0..<length g] \<subseteq> {..<length g}" by auto
  note f = fold [OF topo_new_inv(1) new sub]
  have e: "us = order_ts (fold ?step [0..<length g] (topo_new g))" by (simp add: us_def topo_order_def)
  show "topo_sorted g us" "distinct us" "set us \<subseteq> {..<length g}" using f unfolding e topo_inv_def by auto
  show "s < length g \<Longrightarrow> g ! s \<noteq> [] \<Longrightarrow> s \<in> set us" using f unfolding e topo_inv_def by auto
qed

lemma topo_order_ok:
  assumes g: "graph_ok g" "\<And>s. \<not> cycle_from g s" and E: "\<And>s d. s < length g \<Longrightarrow> d \<in> fst ` set (E s (0, 0)) \<longleftrightarrow> edge g s d"
  shows "order_ok E (length g) (order_ts (topo_order g False (topo_new g)))"
proof -
  note t = topo_order_crucial [OF g]
  have "E s (0, 0) = []" if s: "s < length g" and ne: "s \<notin> set (order_ts (topo_order g False (topo_new g)))" for s
  proof -
    have "g ! s = []" using t(4) [OF s] ne by blast
    then have none: "d \<notin> fst ` set (E s (0, 0))" for d using E [OF s, of d] by (simp add: edge_def)
    show ?thesis
    proof (cases "E s (0, 0)")
      case (Cons x xs)
      then show ?thesis using none [of "fst x"] by simp
    qed
  qed
  moreover have "fst x \<notin> set (vs @ [s])"
    if us: "order_ts (topo_order g False (topo_new g)) = vs @ s # ws" and x: "x \<in> set (E s (0, 0))" for vs s ws x
  proof -
    have s: "s < length g" using t(3) us by auto
    have "edge g s (fst x)" using E [OF s, of "fst x"] x by simp
    then obtain a where a: "a \<in> set (g ! s)" "dest a = fst x" unfolding edge_def by blast
    have "\<forall>a \<in> set (g ! s). dest a \<in> set ws" using t(1) us unfolding topo_sorted_split by blast
    then have "fst x \<in> set ws" using a by metis
    then show ?thesis using t(2) unfolding us by auto
  qed
  ultimately show ?thesis using t(2,3) unfolding order_ok_def by blast
qed

lemma makeEGraph_edge:
  fixes M :: "'a WFST" and cost :: "'a \<Rightarrow> 'b"
  shows
  "length (makeEGraph cost M) = numStates M" "edge (makeEGraph cost M) p q \<longleftrightarrow> eps_step M p q"
  "wfst_ok M \<Longrightarrow> graph_ok (makeEGraph cost M)"
proof -
  show len: "length (makeEGraph cost M) = numStates M" by (simp add: makeEGraph_def)
  let ?G = "\<lambda>i (p, l :: 'a FSTArc). \<lparr>src = i, dest = arc_dest l, weight = cost (arc_weight l), data = Data (i, p)\<rparr>"
  let ?eps = "\<lambda>l :: 'a FSTArc. arc_in l = 0 \<and> arc_out l = 0"
  have flt: "fold (\<lambda>(p, l) gs. if ?eps l then gs_add (?G i (p, l)) gs else gs) xs gs = fold (\<lambda>x. gs_add (?G i x)) (filter (?eps \<circ> snd) xs) gs"
    for i and xs :: "(nat \<times> 'a FSTArc) list" and gs :: "('b, nat \<times> nat) GraphArc list"
    by (induction xs arbitrary: gs) auto
  have nth: "makeEGraph cost M ! i = rev (map (?G i) (filter (?eps \<circ> snd) (enumerate 0 (arcs (states M ! i)))))"
    if "i < numStates M" for i
  proof -
    have "makeEGraph cost M ! i = fold (\<lambda>(p, l) gs. if ?eps l then gs_add (?G i (p, l)) gs else gs) (enumerate 0 (arcs (states M ! i))) []"
      using that by (simp add: makeEGraph_def case_prod_unfold cong: if_cong)
    then show ?thesis unfolding flt by (simp only: fold_gs_add append_Nil2)
  qed
  have set: "set (makeEGraph cost M ! i) = ?G i ` {x \<in> set (enumerate 0 (arcs (states M ! i))). ?eps (snd x)}"
    if "i < numStates M" for i
    unfolding nth [OF that] set_rev set_map set_filter comp_def ..
  have snd: "snd ` set (enumerate 0 (arcs (states M ! i))) = set (arcs (states M ! i))" for i
    by (metis list.set_map map_snd_enumerate)
  have src: "src (?G i x) = i" and dest: "dest (?G i x) = arc_dest (snd x)" for i x by (simp_all add: case_prod_unfold)
  show "edge (makeEGraph cost M) p q \<longleftrightarrow> eps_step M p q"
  proof (cases "p < numStates M")
    case True
    have "(\<exists>a \<in> set (makeEGraph cost M ! p). dest a = q) \<longleftrightarrow>
        (\<exists>x \<in> set (enumerate 0 (arcs (states M ! p))). ?eps (snd x) \<and> arc_dest (snd x) = q)"
      unfolding set [OF True] bex_simps dest mem_Collect_eq by (simp only: Bex_def mem_Collect_eq conj_assoc)
    also have "\<dots> \<longleftrightarrow> (\<exists>l \<in> set (arcs (states M ! p)). ?eps l \<and> arc_dest l = q)"
      unfolding snd [symmetric] bex_simps ..
    finally show ?thesis using True by (simp add: edge_def eps_step_def len epsilon_index_def)
  qed (simp add: edge_def eps_step_def len)
  show "graph_ok (makeEGraph cost M)" if ok: "wfst_ok M"
    unfolding graph_ok_def len
  proof (intro allI impI ballI)
    fix i a assume i: "i < numStates M" and a: "a \<in> set (makeEGraph cost M ! i)"
    obtain x where x: "x \<in> set (enumerate 0 (arcs (states M ! i)))" "a = ?G i x" using a unfolding set [OF i] by blast
    have "states M ! i \<in> set (states M)" using i by simp
    moreover have "snd x \<in> set (arcs (states M ! i))" using x(1) snd by blast
    ultimately show "src a = i \<and> dest a < numStates M" using ok unfolding x(2) src dest wfst_ok_def by blast
  qed
qed

section \<open>The moves of the lattice and of the matrix\<close>

lemma in_deriv_moves:
  assumes s: "s < numStates M"
  shows "(n, e) \<in> set (deriv_moves M xs ys (i, s, u)) \<longleftrightarrow>
    n < length (all_arcs M) \<and> arc_fits (all_arcs M) (forward_arc M) xs ys n (i, s, u) e"
proof -
  obtain i' s' u' where e: "e = (i', s', u')" by (cases e)
  have n: "n \<in> set (arc_ids M s) \<Longrightarrow> n < length (all_arcs M)" by (rule arc_ids_bound [OF s])
  show ?thesis
    unfolding e deriv_moves_def arc_fits_def forward_arc_def reads_def deriv_match_def Let_def prod.case
    using s n by (auto split: if_splits)
qed

lemma distinct_deriv_moves: "distinct (deriv_moves M xs ys d)"
proof -
  obtain i s u where d: "d = (i, s, u)" by (cases d)
  have m: "distinct (deriv_match M s x y)" for x y by (simp add: deriv_match_def arc_ids_def)
  have g: "distinct (map (\<lambda>n. (n, (a, arc_dest (all_arcs M ! n), b))) (deriv_match M s x y))" for a b x y
    using m [of x y] by (simp add: distinct_map inj_on_def)
  show ?thesis unfolding d deriv_moves_def Let_def prod.case by (auto simp: g)
qed

lemma deriv_move_fits:
  assumes ok: "wfst_ok M" and d: "d \<in> deriv_states M xs ys"
    and f: "n < length (all_arcs M)" "arc_fits (all_arcs M) (forward_arc M) xs ys n d e"
  shows "deriv_move M xs ys d e" "e \<in> deriv_states M xs ys"
proof -
  have "fst (snd d) < numStates M" using d by (auto simp: deriv_states_def)
  then show m: "deriv_move M xs ys d e"
    using in_deriv_moves [of "fst (snd d)" M n e xs ys "fst d" "snd (snd d)"] f by (auto simp: deriv_move_def)
  show "e \<in> deriv_states M xs ys" by (rule deriv_move_states [OF ok m d])
qed

lemma moves_sum:
  fixes G :: "nat \<Rightarrow> deriv_state \<Rightarrow> real"
  assumes ok: "wfst_ok M" and d: "d \<in> deriv_states M xs ys"
  shows "(\<Sum>(n, e)\<leftarrow>deriv_moves M xs ys d. G n e) =
    (\<Sum>e \<in> deriv_states M xs ys. \<Sum>n < length (all_arcs M).
       if arc_fits (all_arcs M) (forward_arc M) xs ys n d e then G n e else 0)"
proof -
  let ?N = "length (all_arcs M)" and ?S = "deriv_states M xs ys"
  let ?fits = "\<lambda>n. arc_fits (all_arcs M) (forward_arc M) xs ys n d"
  have s: "fst (snd d) < numStates M" using d by (auto simp: deriv_states_def)
  have mem: "(n, e) \<in> set (deriv_moves M xs ys d) \<longleftrightarrow> n < ?N \<and> ?fits n e" for n e
    using in_deriv_moves [OF s, of n e xs ys "fst d" "snd (snd d)"] by simp
  have "(\<Sum>(n, e)\<leftarrow>deriv_moves M xs ys d. G n e) = (\<Sum>p \<in> set (deriv_moves M xs ys d). G (fst p) (snd p))"
    by (simp add: sum_list_distinct_conv_sum_set distinct_deriv_moves case_prod_unfold)
  also have "\<dots> = (\<Sum>p \<in> {..<?N} \<times> ?S. if ?fits (fst p) (snd p) then G (fst p) (snd p) else 0)"
  proof (rule sum.mono_neutral_cong_left)
    show "set (deriv_moves M xs ys d) \<subseteq> {..<?N} \<times> ?S"
    proof
      fix p assume "p \<in> set (deriv_moves M xs ys d)"
      then have "fst p < ?N" "?fits (fst p) (snd p)" using mem [of "fst p" "snd p"] by simp_all
      then show "p \<in> {..<?N} \<times> ?S" using deriv_move_fits(2) [OF ok d] by (simp add: mem_Times_iff)
    qed
    show "\<forall>p \<in> {..<?N} \<times> ?S - set (deriv_moves M xs ys d). (if ?fits (fst p) (snd p) then G (fst p) (snd p) else 0) = 0"
      using mem by auto
  qed (use mem in \<open>auto simp: deriv_states_finite\<close>)
  also have "\<dots> = (\<Sum>n < ?N. \<Sum>e \<in> ?S. if ?fits n e then G n e else 0)"
    by (simp add: sum.cartesian_product case_prod_unfold)
  also have "\<dots> = (\<Sum>e \<in> ?S. \<Sum>n < ?N. if ?fits n e then G n e else 0)" by (rule sum.swap)
  finally show ?thesis .
qed

text \<open>The sums over the paths from a state to the goal satisfy the equations of the moves.\<close>

lemma path_equations:
  fixes M :: "real WFST"
  assumes ok: "wfst_ok M" "\<not> (\<exists>s. (eps_step M)\<^sup>+\<^sup>+ s s)" and d: "d \<in> deriv_states M xs ys"
    and K: "card (deriv_states M xs ys) \<le> K"
  defines "X \<equiv> \<lambda>d. \<Sum>k \<le> K. move_sum M xs ys k d" and "V \<equiv> \<lambda>n d. \<Sum>k \<le> K. move_uses M xs ys n k d"
    and "W \<equiv> step_sum (all_arcs M) (forward_arc M) xs ys"
  shows "X d = (if d = (length xs, final M, length ys) then 1 else 0) + (\<Sum>e \<in> deriv_states M xs ys. W d e * X e)"
    "n < length (all_arcs M) \<Longrightarrow>
      V n d = (\<Sum>e \<in> deriv_states M xs ys. if arc_fits (all_arcs M) (forward_arc M) xs ys n d e then arc_wt M n * X e else 0) +
        (\<Sum>e \<in> deriv_states M xs ys. W d e * V n e)"
proof -
  let ?S = "deriv_states M xs ys" and ?N = "length (all_arcs M)"
  let ?fits = "arc_fits (all_arcs M) (forward_arc M) xs ys"
  have none: "move_paths M xs ys K e = []" if "(m, e) \<in> set (deriv_moves M xs ys d)" for m e
  proof -
    have "e \<in> ?S" using that deriv_move_states [OF ok(1) _ d, of e] by (auto simp: deriv_move_def)
    then show ?thesis using move_paths_rank [OF ok] deriv_rank_bound [OF ok] K by (meson order_less_le_trans)
  qed
  have cut: "(\<Sum>k < K. move_sum M xs ys k e) = X e" "(\<Sum>k < K. move_uses M xs ys n k e) = V n e"
    if "(m, e) \<in> set (deriv_moves M xs ys d)" for m e n
    using none [OF that] by (simp_all add: X_def V_def lessThan_Suc_atMost [symmetric] move_sum_def move_uses_def del: lessThan_Suc_atMost)
  have W: "W d e = (\<Sum>m < ?N. if ?fits m d e then arc_wt M m else 0)" for e
    by (simp add: W_def step_sum_def arc_wt_def cong: if_cong)
  have "X d = move_sum M xs ys 0 d + (\<Sum>k < K. \<Sum>(m, e)\<leftarrow>deriv_moves M xs ys d. arc_wt M m * move_sum M xs ys k e)"
    by (simp add: X_def sum_shift move_sum_Suc)
  also have "(\<Sum>k < K. \<Sum>(m, e)\<leftarrow>deriv_moves M xs ys d. arc_wt M m * move_sum M xs ys k e) =
      (\<Sum>(m, e)\<leftarrow>deriv_moves M xs ys d. arc_wt M m * X e)"
    unfolding sum_list_sum_swap by (rule arg_cong [where f = sum_list], rule map_cong [OF refl]) (auto simp: sum_distrib_left [symmetric] cut)
  also have "\<dots> = (\<Sum>e \<in> ?S. W d e * X e)"
    unfolding moves_sum [OF ok(1) d] by (intro sum.cong refl) (auto simp: W sum_distrib_right intro!: sum.cong)
  finally show "X d = (if d = (length xs, final M, length ys) then 1 else 0) + (\<Sum>e \<in> ?S. W d e * X e)"
    by (simp add: move_sum_def path_wt_def)
  show "V n d = (\<Sum>e \<in> ?S. if ?fits n d e then arc_wt M n * X e else 0) + (\<Sum>e \<in> ?S. W d e * V n e)" if n: "n < ?N"
  proof -
    let ?h = "\<lambda>m e. if ?fits m d e then arc_wt M m * ((if m = n then X e else 0) + V n e) else 0"
    have "V n d = (\<Sum>k < K. \<Sum>(m, e)\<leftarrow>deriv_moves M xs ys d.
        arc_wt M m * ((if m = n then move_sum M xs ys k e else 0) + move_uses M xs ys n k e))"
      by (simp add: V_def sum_shift move_uses_Suc) (simp add: move_uses_def)
    also have "\<dots> = (\<Sum>(m, e)\<leftarrow>deriv_moves M xs ys d. arc_wt M m * ((if m = n then X e else 0) + V n e))"
      unfolding sum_list_sum_swap
      by (rule arg_cong [where f = sum_list], rule map_cong [OF refl])
        (auto simp: sum_distrib_left [symmetric] sum.distrib cut)
    also have "\<dots> = (\<Sum>e \<in> ?S. \<Sum>m < ?N. ?h m e)" by (rule moves_sum [OF ok(1) d])
    also have "\<dots> = (\<Sum>e \<in> ?S. (if ?fits n d e then arc_wt M n * X e else 0) + W d e * V n e)"
    proof (intro sum.cong refl)
      fix e
      have "(\<Sum>m < ?N. ?h m e) = (\<Sum>m < ?N. (if m = n then (if ?fits n d e then arc_wt M n * X e else 0) else 0) +
          (if ?fits m d e then arc_wt M m else 0) * V n e)"
        by (intro sum.cong refl) (auto simp: distrib_left)
      then show "(\<Sum>m < ?N. ?h m e) = (if ?fits n d e then arc_wt M n * X e else 0) + W d e * V n e"
        using n by (simp add: sum.distrib W sum_distrib_right)
    qed
    finally show ?thesis by (simp add: sum.distrib)
  qed
qed

section \<open>The backward matrix\<close>

lemma fold_swap_rev:
  fixes h :: "nat \<Rightarrow> 'a"
  shows "fold (\<lambda>i w. w(i := w (m - i), m - i := w i)) [0..<Suc (m div 2)] h = (\<lambda>j. if j \<le> m then h (m - j) else h j)"
proof -
  have "k \<le> Suc (m div 2) \<Longrightarrow> fold (\<lambda>i w. w(i := w (m - i), m - i := w i)) [0..<k] h =
      (\<lambda>j. if j \<le> m \<and> (j < k \<or> m - j < k) then h (m - j) else h j)" for k
  proof (induction k)
    case (Suc k)
    then show ?case by (intro ext) (auto simp: fun_upd_def)
  qed simp
  from this [of "Suc (m div 2)"] show ?thesis by (simp del: upt_Suc) (intro ext, auto)
qed

lemma fold_pointwise:
  assumes "\<And>i w. F i w = w(i := G (w i))" "distinct is"
  shows "fold F is w = (\<lambda>i. if i \<in> set is then G (w i) else w i)"
  using assms(2) by (induction "is" arbitrary: w) (auto simp: assms(1))

lemma matrix_reverse_io_rotates:
  "matrix_reverse_io m_i m_o w i u s = (if i \<le> m_i \<and> u \<le> m_o then w (m_i - i) (m_o - u) s
     else if i \<le> m_i then w (m_i - i) u s else w i u s)"
proof -
  have inner: "fold (\<lambda>u w. w(i := (w i)(u := w i (m_o - u), m_o - u := w i u))) us v =
      v(i := fold (\<lambda>u r. r(u := r (m_o - u), m_o - u := r u)) us (v i))" for us i and v :: matrix
    by (induction us arbitrary: v) auto
  have "fold (\<lambda>i. fold (\<lambda>u w. w(i := (w i)(u := w i (m_o - u), m_o - u := w i u))) [0..<Suc (m_o div 2)]) [0..<Suc m_i] v =
      (\<lambda>i. if i \<in> set [0..<Suc m_i] then (\<lambda>u. if u \<le> m_o then v i (m_o - u) else v i u) else v i)" for v :: matrix
    by (rule fold_pointwise) (simp_all only: inner fold_swap_rev distinct_upt)
  then show ?thesis by (simp add: matrix_reverse_io_def fold_swap_rev Let_def del: upt_Suc)
qed

definition turned :: "nat list \<Rightarrow> nat list \<Rightarrow> deriv_state \<Rightarrow> deriv_state" where
  "turned xs ys d = (case d of (i, s, u) \<Rightarrow> (length xs - i, s, length ys - u))"

lemma turned_cells: "bij_betw (turned xs ys) (cells n_st xs ys) (cells n_st xs ys)"
  by (rule bij_betw_byWitness [where f' = "turned xs ys"]) (auto simp: turned_def cells_def)

lemma reads_rev:
  assumes "i \<le> length zs" "i' \<le> length zs"
  shows "reads (rev zs) x (length zs - i') (length zs - i) \<longleftrightarrow> reads zs x i i'"
proof -
  have "rev zs ! (length zs - i') = zs ! i" if "i' = Suc i" using assms that by (simp add: rev_nth)
  then show ?thesis unfolding reads_def using assms by (cases "i' = Suc i") auto
qed

lemma arc_fits_turned:
  assumes "d \<in> cells n_st xs ys" "e \<in> cells n_st xs ys"
  shows "arc_fits atab (backward_arc M) (rev xs) (rev ys) n (turned xs ys e) (turned xs ys d) \<longleftrightarrow>
    arc_fits atab (forward_arc M) xs ys n d e"
  using assms by (cases d; cases e) (simp add: arc_fits_def turned_def cells_def backward_arc_def reads_rev)

lemma backward_value:
  fixes w :: matrix
  assumes ok: "lookup_ok atab n_st (found_io io) (backward_arc M)" and ord: "order_ok (found_io io) n_st us"
    and fin: "fin < n_st" and t: "t \<in> cells n_st xs ys"
  defines "B \<equiv> cell (matrix_reverse_io (length xs) (length ys) (matrix_compute atab n_st (rev xs) (rev ys) fin io us w))"
  shows "B t = (if t = (length xs, fin, length ys) then 1 else 0) +
    (\<Sum>e \<in> cells n_st xs ys. step_sum atab (forward_arc M) xs ys t e * B e)"
proof -
  let ?S = "cells n_st xs ys" and ?f = "turned xs ys"
  let ?b = "matrix_compute atab n_st (rev xs) (rev ys) fin io us w"
  have S: "cells n_st (rev xs) (rev ys) = ?S" by (simp add: cells_def)
  have ft: "?f d \<in> ?S" "?f (?f d) = d" if "d \<in> ?S" for d using that by (cases d; simp add: turned_def cells_def)+
  have B: "B d = cell ?b (?f d)" if "d \<in> ?S" for d
    using that by (cases d) (simp add: B_def cell_def matrix_reverse_io_rotates turned_def cells_def)
  have step: "step_sum atab (backward_arc M) (rev xs) (rev ys) (?f e) (?f t) = step_sum atab (forward_arc M) xs ys t e"
    if "e \<in> ?S" for e
    unfolding step_sum_def arc_fits_turned [OF t that] ..
  have "B t = (if ?f t = (0, fin, 0) then 1 else 0) +
      (\<Sum>d \<in> ?S. cell ?b d * step_sum atab (backward_arc M) (rev xs) (rev ys) d (?f t))"
    using matrix_equation [OF ok ord fin, of "?f t" "rev xs" "rev ys" w] ft(1) [OF t] by (simp only: S B [OF t])
  also have "(\<Sum>d \<in> ?S. cell ?b d * step_sum atab (backward_arc M) (rev xs) (rev ys) d (?f t)) =
      (\<Sum>e \<in> ?S. cell ?b (?f e) * step_sum atab (backward_arc M) (rev xs) (rev ys) (?f e) (?f t))"
    by (rule sum.reindex_bij_betw [OF turned_cells, symmetric])
  also have "\<dots> = (\<Sum>e \<in> ?S. step_sum atab (forward_arc M) xs ys t e * B e)"
    by (intro sum.cong refl) (simp add: step B mult.commute)
  also have "?f t = (0, fin, 0) \<longleftrightarrow> t = (length xs, fin, length ys)"
    using t by (cases t) (auto simp: turned_def cells_def)
  finally show ?thesis .
qed

section \<open>The counts of the matrix\<close>

text \<open>All arcs but one with weight zero, so that the equations of the moves count the uses of that arc.\<close>

definition only_arc :: "real FSTArc list \<Rightarrow> nat \<Rightarrow> real FSTArc list" where
  "only_arc atab n = map (\<lambda>m. (atab ! m)\<lparr>arc_weight := (if m = n then arc_weight (atab ! m) else 0)\<rparr>) [0..<length atab]"

lemma only_arc_simps:
  "length (only_arc atab n) = length atab"
  "m < length atab \<Longrightarrow> only_arc atab n ! m = (atab ! m)\<lparr>arc_weight := (if m = n then arc_weight (atab ! m) else 0)\<rparr>"
  by (simp_all add: only_arc_def)

lemma only_arc_lookup: "lookup_ok (only_arc atab n) n_st E Q \<longleftrightarrow> lookup_ok atab n_st E Q"
proof -
  have "{(d, m). m < length atab \<and> Q m s d \<and> arc_in (only_arc atab n ! m) = x \<and> arc_out (only_arc atab n ! m) = y} =
      {(d, m). m < length atab \<and> Q m s d \<and> arc_in (atab ! m) = x \<and> arc_out (atab ! m) = y}" for s x y
    by (auto simp: only_arc_simps)
  then show ?thesis by (simp add: lookup_ok_def only_arc_simps(1))
qed

lemma only_arc_step:
  assumes "n < length atab"
  shows "step_sum (only_arc atab n) Q xs ys d e = (if arc_fits atab Q xs ys n d e then arc_weight (atab ! n) else 0)"
proof -
  have "step_sum (only_arc atab n) Q xs ys d e =
      (\<Sum>m < length atab. if m = n then (if arc_fits atab Q xs ys n d e then arc_weight (atab ! n) else 0) else 0)"
    unfolding step_sum_def only_arc_simps(1) by (intro sum.cong refl) (auto simp: only_arc_simps arc_fits_def)
  then show ?thesis using assms by simp
qed

definition received :: "matrix \<Rightarrow> (deriv_state \<times> real) list \<Rightarrow> real" where
  "received b as = (\<Sum>(v, w)\<leftarrow>as. w * cell b v)"

lemma received_append: "received b (as @ bs) = received b as + received b bs"
  by (simp add: received_def)

lemma received_pushed:
  assumes "finite S" "fst ` set as \<subseteq> S"
  shows "received b as = (\<Sum>e \<in> S. cell b e * pushed as e)"
  using assms(2)
proof (induction as)
  case (Cons a as)
  obtain v w where a: "a = (v, w)" by (cases a)
  have "(\<Sum>e \<in> S. cell b e * pushed (a # as) e) = (\<Sum>e \<in> S. (if v = e then cell b e * w else 0) + cell b e * pushed as e)"
    by (intro sum.cong refl) (auto simp: a pushed_def distrib_left)
  then show ?case using Cons assms(1) by (simp add: a received_def sum.distrib mult.commute)
qed (simp_all add: received_def pushed_def)

lemma matrix_count_at:
  assumes fio: "\<forall>p \<in> set fio. snd p < length atab" and n: "n < length sc"
  shows "length (matrix_count atab f b fio s i u di do sc) = length sc"
    "matrix_count atab f b fio s i u di do sc ! n =
       sc ! n + f i u s * received b (along (only_arc atab n) fio (i + di) (u + do))"
proof -
  let ?v = "\<lambda>p. f i u s * arc_weight (atab ! snd p) * b (i + di) (u + do) (fst p)"
  have c: "matrix_count atab f b fio s i u di do sc = fold (\<lambda>p sc. sc[snd p := sc ! snd p + ?v p]) fio sc"
    by (simp add: matrix_count_def case_prod_unfold)
  show "length (matrix_count atab f b fio s i u di do sc) = length sc"
    unfolding c using fold_add_at [of snd ?v fio sc n] by blast
  have "(\<Sum>p\<leftarrow>fio. if snd p = n then ?v p else 0) = f i u s * received b (along (only_arc atab n) fio (i + di) (u + do))"
    using fio by (induction fio) (auto simp: received_def along_def cell_def only_arc_simps algebra_simps)
  then show "matrix_count atab f b fio s i u di do sc ! n =
       sc ! n + f i u s * received b (along (only_arc atab n) fio (i + di) (u + do))"
    unfolding c using fold_add_at [of snd ?v fio sc n] n by simp
qed

lemma matrix_counts_at_value:
  assumes ok: "lookup_ok atab n_st (found_io (mio_forward x)) Q" and s: "s < n_st" and n: "n < length sc"
    and sc': "sc' = matrix_counts_at atab e x i u s sc"
  shows "length sc' = length sc"
    "sc' ! n = sc ! n + mx_f x i u s *
       (received (mx_b x) (snd (eps_moves (only_arc atab n) (found_io (mio_forward x)) (i, s, u))) +
        received (mx_b x) (snd (sym_moves (only_arc atab n) (found_io (mio_forward x)) (seq_i e) (seq_o e) (i, s, u))))"
proof -
  have "\<forall>p \<in> set (found_io (mio_forward x) s io). snd p < length atab" for io
    using ok s unfolding lookup_ok_def by (cases io) auto
  note c = matrix_count_at [OF this]
  have nil: "received b [] = 0" for b by (simp add: received_def)
  show "length sc' = length sc" using n unfolding sc' matrix_counts_at_def Let_def by (auto simp: c)
  show "sc' ! n = sc ! n + mx_f x i u s *
       (received (mx_b x) (snd (eps_moves (only_arc atab n) (found_io (mio_forward x)) (i, s, u))) +
        received (mx_b x) (snd (sym_moves (only_arc atab n) (found_io (mio_forward x)) (seq_i e) (seq_o e) (i, s, u))))"
    using n unfolding sc' matrix_counts_at_def Let_def
    by (cases "i < length (seq_i e)"; cases "u < length (seq_o e)")
      (simp_all add: c eps_moves_def sym_moves_def received_append nil algebra_simps)
qed

lemma fold_adds:
  assumes "\<And>x sc. x \<in> set xs \<Longrightarrow> length sc = L \<Longrightarrow> length (F x sc) = L \<and> F x sc ! n = sc ! n + (h x :: real)" "length sc = L"
  shows "length (fold F xs sc) = L \<and> fold F xs sc ! n = sc ! n + (\<Sum>x\<leftarrow>xs. h x)"
  using assms by (induction xs arbitrary: sc) auto

lemma matrix_scratch_value:
  fixes e :: IOSymSeq
  assumes ok: "lookup_ok (all_arcs M) (numStates M) (found_io (mio_forward x)) (forward_arc M)"
    and n: "n < length (all_arcs M)" and len: "length sc = length (all_arcs M)"
  defines "S \<equiv> cells (numStates M) (seq_i e) (seq_o e)"
  shows "length (matrix_scratch M e x sc) = length (all_arcs M)"
    "matrix_scratch M e x sc ! n = sc ! n + (\<Sum>d \<in> S. cell (mx_f x) d *
       (\<Sum>t \<in> S. if arc_fits (all_arcs M) (forward_arc M) (seq_i e) (seq_o e) n d t then arc_wt M n * cell (mx_b x) t else 0))"
proof -
  let ?atab = "all_arcs M" and ?E = "found_io (mio_forward x)" and ?xs = "seq_i e" and ?ys = "seq_o e"
  let ?g = "\<lambda>d. received (mx_b x) (snd (eps_moves (only_arc ?atab n) ?E d)) + received (mx_b x) (snd (sym_moves (only_arc ?atab n) ?E ?xs ?ys d))"
  have ok': "lookup_ok (only_arc ?atab n) (numStates M) ?E (forward_arc M)" using ok by (simp only: only_arc_lookup)
  have tgt: "fst ` set (snd (eps_moves (only_arc ?atab n) ?E d)) \<subseteq> S" "fst ` set (snd (sym_moves (only_arc ?atab n) ?E ?xs ?ys d)) \<subseteq> S"
    if d: "d \<in> S" for d
  proof -
    obtain i s u where isu: "d = (i, s, u)" "i \<le> length ?xs" "s < numStates M" "u \<le> length ?ys" using d by (cases d) (auto simp: S_def cells_def)
    have "fst p < numStates M" if "p \<in> set (?E s io)" for p io
      using ok isu(3) that unfolding lookup_ok_def by (cases io) fastforce
    then show "fst ` set (snd (eps_moves (only_arc ?atab n) ?E d)) \<subseteq> S" "fst ` set (snd (sym_moves (only_arc ?atab n) ?E ?xs ?ys d)) \<subseteq> S"
      using isu by (auto simp: eps_moves_def sym_moves_def S_def cells_def along_def split: if_splits)
  qed
  have g: "?g d = (\<Sum>t \<in> S. if arc_fits ?atab (forward_arc M) ?xs ?ys n d t then arc_wt M n * cell (mx_b x) t else 0)" if d: "d \<in> S" for d
  proof -
    obtain i s u where isu: "d = (i, s, u)" "s < numStates M" using d by (cases d) (auto simp: S_def cells_def)
    have "?g d = (\<Sum>t \<in> S. cell (mx_b x) t * (pushed (snd (eps_moves (only_arc ?atab n) ?E d)) t + pushed (snd (sym_moves (only_arc ?atab n) ?E ?xs ?ys d)) t))"
      using received_pushed [OF _ tgt(1) [OF d]] received_pushed [OF _ tgt(2) [OF d]] by (simp add: S_def sum.distrib distrib_left)
    also have "\<dots> = (\<Sum>t \<in> S. cell (mx_b x) t * step_sum (only_arc ?atab n) (forward_arc M) ?xs ?ys d t)"
      unfolding isu(1) pushed_moves [OF ok' isu(2)] ..
    also have "\<dots> = (\<Sum>t \<in> S. if arc_fits ?atab (forward_arc M) ?xs ?ys n d t then arc_wt M n * cell (mx_b x) t else 0)"
      unfolding only_arc_step [OF n] by (intro sum.cong refl) (simp add: arc_wt_def)
    finally show ?thesis .
  qed
  let ?F = "\<lambda>d. case d of (i, s, u) \<Rightarrow> matrix_counts_at ?atab e x i u s"
  have at: "length (?F d v) = length ?atab \<and> ?F d v ! n = v ! n + cell (mx_f x) d * ?g d" if "d \<in> S" "length v = length ?atab" for d v
    using matrix_counts_at_value [OF ok, of "fst (snd d)" n v _ e "fst d" "snd (snd d)"] that n
    by (cases d) (auto simp: S_def cells_def cell_def)
  let ?ds = "concat (map (\<lambda>i. concat (map (\<lambda>u. map (\<lambda>s. (i, s, u)) [0..<numStates M]) [0..<Suc (length ?ys)])) [0..<Suc (length ?xs)])"
  have flat: "matrix_scratch M e x sc = fold ?F ?ds sc"
  proof -
    have c: "fold G (concat (map h as)) = fold (\<lambda>a. fold G (h a)) as" for G :: "deriv_state \<Rightarrow> real list \<Rightarrow> real list" and h and as :: "nat list"
      by (rule ext) (simp add: fold_concat_map)
    show ?thesis unfolding matrix_scratch_def c fold_map comp_def prod.case ..
  qed
  have ds: "set ?ds \<subseteq> S" by (auto simp: S_def cells_def)
  have f: "length (fold ?F ?ds sc) = length ?atab \<and> fold ?F ?ds sc ! n = sc ! n + (\<Sum>d\<leftarrow>?ds. cell (mx_f x) d * ?g d)"
    by (rule fold_adds [OF at [OF subsetD [OF ds]] len])
  show "length (matrix_scratch M e x sc) = length ?atab" using f flat by simp
  have "(\<Sum>d\<leftarrow>?ds. cell (mx_f x) d * ?g d) = (\<Sum>d \<in> S. cell (mx_f x) d * ?g d)"
    unfolding S_def sum_cells
    by (simp add: sum_list_concat_map sum_list_upt lessThan_Suc_atMost comp_def del: upt_Suc sum.lessThan_Suc)
  also have "\<dots> = (\<Sum>d \<in> S. cell (mx_f x) d *
       (\<Sum>t \<in> S. if arc_fits ?atab (forward_arc M) ?xs ?ys n d t then arc_wt M n * cell (mx_b x) t else 0))"
    by (intro sum.cong refl) (simp only: g)
  finally show "matrix_scratch M e x sc ! n = sc ! n + (\<Sum>d \<in> S. cell (mx_f x) d *
       (\<Sum>t \<in> S. if arc_fits ?atab (forward_arc M) ?xs ?ys n d t then arc_wt M n * cell (mx_b x) t else 0))"
    using f flat by simp
qed

text \<open>The state of the matrix variant after \<open>matrix_new\<close>, whatever the contents of the matrices.\<close>

definition matrix_ok :: "real WFST \<Rightarrow> matrix_fb_state \<Rightarrow> bool" where
  "matrix_ok M x \<longleftrightarrow>
     lookup_ok (all_arcs M) (numStates M) (found_io (mio_forward x)) (forward_arc M) \<and>
     lookup_ok (all_arcs M) (numStates M) (found_io (mio_backward x)) (backward_arc M) \<and>
     order_ok (found_io (mio_forward x)) (numStates M) (e_forward_topo x) \<and>
     order_ok (found_io (mio_backward x)) (numStates M) (e_backward_topo x)"

lemma lookup_eps:
  assumes "lookup_ok (all_arcs M) (numStates M) E Q" "s < numStates M"
  shows "d \<in> fst ` set (E s (0, 0)) \<longleftrightarrow>
    (\<exists>n < length (all_arcs M). Q n s d \<and> arc_in (all_arcs M ! n) = 0 \<and> arc_out (all_arcs M ! n) = 0)"
proof -
  have "set (E s (0, 0)) = {(d, n). n < length (all_arcs M) \<and> Q n s d \<and> arc_in (all_arcs M ! n) = 0 \<and> arc_out (all_arcs M ! n) = 0}"
    using assms unfolding lookup_ok_def by blast
  then show ?thesis by force
qed

lemma forward_eps:
  assumes "s < numStates M"
  shows "(\<exists>n < length (all_arcs M). forward_arc M n s d \<and> arc_in (all_arcs M ! n) = 0 \<and> arc_out (all_arcs M ! n) = 0) \<longleftrightarrow> eps_step M s d"
proof -
  have "set (arcs (states M ! s)) = (\<lambda>n. all_arcs M ! n) ` set (arc_ids M s)" using arc_ids_arcs [OF assms] by (metis set_map)
  then show ?thesis using assms arc_ids_bound [OF assms] by (auto simp: forward_arc_def eps_step_def epsilon_index_def)
qed

lemma matrix_new_ok:
  assumes ok: "wfst_ok M" and eps: "\<not> (\<exists>s. (eps_step M)\<^sup>+\<^sup>+ s s)" and tab: "table_ok M tab"
  shows "matrix_ok M (matrix_new M tab)"
proof -
  obtain fw bw where p: "matrix_populate M tab True = (fw, bw)" by fastforce
  note l = matrix_populate_lookup [OF ok tab p]
  let ?g = "makeEGraph (\<lambda>w. w) M" and ?r = "reverseGraph (makeEGraph (\<lambda>w. w) M) True"
  note me = makeEGraph_edge [where M = M and cost = "\<lambda>w. w"] and rg = reverseGraph_edge [OF me(3) [OF ok], where fwd = True]
  have e: "edge ?g = eps_step M" "edge ?r = (eps_step M)\<inverse>\<inverse>" by (rule ext, rule ext, simp add: me rg)+
  have len: "length ?r = numStates M" using reverseGraph_nth(1) [OF me(3) [OF ok], of True] me(1) by simp
  have nf: "\<not> cycle_from ?g s" for s using eps by (simp add: cycle_from_def e)
  have nb: "\<not> cycle_from ?r s" for s using eps by (simp add: cycle_from_def e tranclp_converse)
  have bk: "eps_step M d s \<longleftrightarrow> (\<exists>n < length (all_arcs M). backward_arc M n s d \<and> arc_in (all_arcs M ! n) = 0 \<and> arc_out (all_arcs M ! n) = 0)"
    if "s < numStates M" for s d
  proof (cases "d < numStates M")
    case True
    then show ?thesis using forward_eps [OF True, of s] by (simp add: backward_arc_def)
  qed (auto simp: eps_step_def backward_arc_def forward_arc_def)
  have "order_ok (found_io fw) (numStates M) (order_ts (topo_order ?g False (topo_new ?g)))"
    using topo_order_ok [OF me(3) [OF ok] nf, of "found_io fw"] lookup_eps [OF l(1)] forward_eps by (simp add: me(1) e(1))
  moreover have "order_ok (found_io bw) (numStates M) (order_ts (topo_order ?r False (topo_new ?r)))"
    using topo_order_ok [OF rg(1) nb, of "found_io bw"] lookup_eps [OF l(2)] bk by (simp add: len e(2))
  ultimately show ?thesis using l by (simp add: matrix_ok_def matrix_new_def p e_topo_populate_def Let_def)
qed

end
