(* ===== verification/Estimate.thy ===== *)
theory Estimate
  imports TrainMatrix
begin

text \<open>
  What \<open>forward_backward::estimate\<close> computes, whichever way the derivations are kept: the probability of every
  training pair and the expected number of uses of every arc, by sums over paths.
\<close>

section \<open>The reference\<close>

definition pair_prob :: "real WFST \<Rightarrow> nat \<Rightarrow> IOSymSeq \<Rightarrow> real" where
  "pair_prob M N e = (\<Sum>k \<le> N. \<Sum>p\<leftarrow>arc_paths M k 0 (seq_i e) (seq_o e). path_wt M p)"

definition pair_uses :: "real WFST \<Rightarrow> nat \<Rightarrow> IOSymSeq \<Rightarrow> nat \<Rightarrow> real" where
  "pair_uses M N e n = (\<Sum>k \<le> N. \<Sum>p\<leftarrow>arc_paths M k 0 (seq_i e) (seq_o e). real (count_list p n) * path_wt M p)"

definition expected_uses :: "real WFST \<Rightarrow> nat \<Rightarrow> IOSymSeq list \<Rightarrow> nat \<Rightarrow> real" where
  "expected_uses M N es n = (\<Sum>e\<leftarrow>es. seq_weight e * pair_uses M N e n / pair_prob M N e)"

text \<open>Pairs without epsilon whose derivation states can be numbered; \<open>N\<close> bounds the length of their paths.\<close>

definition pair_ok :: "real WFST \<Rightarrow> nat \<Rightarrow> IOSymSeq \<Rightarrow> bool" where
  "pair_ok M N e \<longleftrightarrow> 0 \<notin> set (seq_i e) \<and> 0 \<notin> set (seq_o e) \<and>
     Suc (length (seq_i e)) * numStates M * Suc (length (seq_o e)) < uint_minus1 \<and>
     Suc (length (seq_i e)) * numStates M * Suc (length (seq_o e)) \<le> N"

section \<open>The full matrix\<close>

lemma matrix_pair:
  assumes ok: "wfst_ok M" "\<not> (\<exists>s. (eps_step M)\<^sup>+\<^sup>+ s s)" and mx: "matrix_ok M x" and e: "pair_ok M N e"
  defines "x' \<equiv> matrix_fb_pair M e x"
  shows "matrix_ok M x'" "mx_f x' (length (seq_i e)) (length (seq_o e)) (final M) = pair_prob M N e"
    "mx_b x' 0 0 0 = pair_prob M N e"
    "n < length (all_arcs M) \<Longrightarrow> length sc = length (all_arcs M) \<Longrightarrow>
      matrix_scratch M e x' sc ! n = sc ! n + pair_uses M N e n"
proof -
  let ?xs = "seq_i e" and ?ys = "seq_o e" and ?atab = "all_arcs M"
  let ?S = "deriv_states M ?xs ?ys" and ?W = "step_sum ?atab (forward_arc M) ?xs ?ys"
  let ?goal = "(length ?xs, final M, length ?ys)"
  let ?X = "\<lambda>d. \<Sum>k \<le> N. move_sum M ?xs ?ys k d" and ?V = "\<lambda>n d. \<Sum>k \<le> N. move_uses M ?xs ?ys n k d"
  have no: "0 \<notin> set ?xs" "0 \<notin> set ?ys" and K: "card ?S \<le> N" using e unfolding pair_ok_def deriv_states_card by blast+
  have bnd: "final M < numStates M" "0 < numStates M" using ok(1) by (auto simp: wfst_ok_def)
  have S: "cells (numStates M) ?xs ?ys = ?S" by (rule cells_deriv_states)
  have goal: "?goal \<in> ?S" using bnd by (simp add: deriv_states_def)
  note start = start_state [OF ok(1)] and eq = path_equations [OF ok _ K]
  have mxD: "lookup_ok ?atab (numStates M) (found_io (mio_forward x)) (forward_arc M)"
    "lookup_ok ?atab (numStates M) (found_io (mio_backward x)) (backward_arc M)"
    "order_ok (found_io (mio_forward x)) (numStates M) (e_forward_topo x)"
    "order_ok (found_io (mio_backward x)) (numStates M) (e_backward_topo x)" using mx by (simp_all add: matrix_ok_def)
  let ?F = "cell (mx_f x')" and ?B = "cell (mx_b x')"
  have F: "?F t = (if t = (0, 0, 0) then 1 else 0) + (\<Sum>d \<in> ?S. ?F d * ?W d t)" if "t \<in> ?S" for t
    using matrix_equation [OF mxD(1,3) bnd(2) that [folded S], of "mx_f x"] by (simp add: S x'_def matrix_fb_pair_def)
  have Beq: "?B t = (if t = ?goal then 1 else 0) + (\<Sum>d \<in> ?S. ?W t d * ?B d)" if "t \<in> ?S" for t
    using backward_value [OF mxD(2,4) bnd(1) that [folded S], of "mx_b x"] by (simp add: S x'_def matrix_fb_pair_def)
  have rank: "deriv_rank M ?xs ?ys t < deriv_rank M ?xs ?ys d" if dS: "d \<in> ?S" and W: "?W d t \<noteq> 0" for d t
  proof -
    obtain n where "n < length ?atab" "arc_fits ?atab (forward_arc M) ?xs ?ys n d t"
      using W by (auto simp: step_sum_def elim!: sum.not_neutral_contains_not_neutral split: if_splits)
    then show ?thesis using deriv_rank_less [OF ok dS] deriv_move_fits(1) [OF ok(1) dS] by blast
  qed
  have BX: "?B t = ?X t" if "t \<in> ?S" for t
    by (rule equation_unique [where S = ?S and W = ?W and rank = "deriv_rank M ?xs ?ys" and c = "\<lambda>t. if t = ?goal then 1 else 0",
        OF deriv_states_finite rank Beq eq(1) that])
  have X0: "?X (0, 0, 0) = pair_prob M N e" "?V n (0, 0, 0) = pair_uses M N e n" for n
    by (simp_all add: start_paths [OF ok(1) no] pair_prob_def pair_uses_def)
  show "matrix_ok M x'" using mx by (simp add: matrix_ok_def x'_def matrix_fb_pair_def Let_def)
  show "mx_b x' 0 0 0 = pair_prob M N e" using BX [OF start] X0 by (simp add: cell_def)
  have "(\<Sum>t \<in> ?S. ?F t * (if t = ?goal then 1 else 0)) = ?X (0, 0, 0)"
    by (rule equation_pairing [OF deriv_states_finite start F eq(1)])
  moreover have "(\<Sum>t \<in> ?S. ?F t * (if t = ?goal then 1 else 0)) = (\<Sum>t \<in> ?S. if t = ?goal then ?F t else 0)"
    by (intro sum.cong refl) simp
  moreover have "\<dots> = ?F ?goal" using goal by (simp only: sum.delta [OF deriv_states_finite] if_True)
  ultimately show "mx_f x' (length ?xs) (length ?ys) (final M) = pair_prob M N e" using X0 by (simp add: cell_def)
  show "matrix_scratch M e x' sc ! n = sc ! n + pair_uses M N e n" if n: "n < length ?atab" "length sc = length ?atab"
  proof -
    have "mio_forward x' = mio_forward x" by (simp add: x'_def matrix_fb_pair_def Let_def)
    then have "matrix_scratch M e x' sc ! n = sc ! n + (\<Sum>d \<in> ?S. ?F d *
        (\<Sum>t \<in> ?S. if arc_fits ?atab (forward_arc M) ?xs ?ys n d t then arc_wt M n * ?B t else 0))"
      using matrix_scratch_value(2) [of M x' n sc e] mxD(1) n by (simp add: S)
    also have "(\<Sum>d \<in> ?S. ?F d * (\<Sum>t \<in> ?S. if arc_fits ?atab (forward_arc M) ?xs ?ys n d t then arc_wt M n * ?B t else 0)) =
        (\<Sum>d \<in> ?S. ?F d * (\<Sum>t \<in> ?S. if arc_fits ?atab (forward_arc M) ?xs ?ys n d t then arc_wt M n * ?X t else 0))"
      by (intro sum.cong refl arg_cong2 [where f = "(*)"]) (simp add: BX)
    also have "\<dots> = ?V n (0, 0, 0)"
      by (rule equation_pairing [OF deriv_states_finite start F eq(2) [OF _ n(1)]])
    finally show ?thesis by (simp add: X0)
  qed
qed

lemma arcs_visit_table:
  assumes "length tab = length (all_arcs M)"
  shows "snd (arcs_visit f (M, tab)) = map (snd \<circ> f) (zip (all_arcs M) tab)"
  using arcs_visit_spec(1) [OF assms, of f "fst (arcs_visit f (M, tab))" "snd (arcs_visit f (M, tab))"] by simp

lemma fold_length: "(\<And>x sc. length (F x sc) = length sc) \<Longrightarrow> length (fold F xs sc) = length sc"
  by (induction xs arbitrary: sc) simp_all

lemma matrix_scratch_length: "length (matrix_scratch M e x sc) = length sc"
proof -
  have "length (matrix_count atab f b fio s i u di do sc) = length sc" for atab f b fio s i u di do sc
    unfolding matrix_count_def by (rule fold_length) (simp add: case_prod_unfold)
  then have "length (matrix_counts_at atab e x i u s sc) = length sc" for atab i u s sc
    by (simp add: matrix_counts_at_def Let_def)
  then show ?thesis unfolding matrix_scratch_def by (intro fold_length)
qed

lemma matrix_example_counts:
  fixes w :: real
  assumes ok: "wfst_ok M" "\<not> (\<exists>s. (eps_step M)\<^sup>+\<^sup>+ s s)" "matrix_ok M x" "pair_ok M N e"
    and tab: "length tab = length (all_arcs M)"
  defines "tab1 \<equiv> snd (arcs_visit clear_scratch (M, tab))"
  defines "tab2 \<equiv> put_scratch (matrix_scratch M e (matrix_fb_pair M e x) (map ac_scratch tab1)) tab1"
  defines "tab3 \<equiv> snd (arcs_visit (add_weighted_scratch w) (M, tab2))"
  shows "length tab3 = length (all_arcs M)"
    "n < length (all_arcs M) \<Longrightarrow> ac_counts (tab3 ! n) = ac_counts (tab ! n) + w * pair_uses M N e n \<and>
      ac_prior_counts (tab3 ! n) = ac_prior_counts (tab ! n) \<and> ac_best_weight (tab3 ! n) = ac_best_weight (tab ! n)"
proof -
  let ?sc = "matrix_scratch M e (matrix_fb_pair M e x) (map ac_scratch tab1)"
  have t1: "tab1 = map (snd \<circ> clear_scratch) (zip (all_arcs M) tab)" unfolding tab1_def by (rule arcs_visit_table [OF tab])
  have l1: "length tab1 = length (all_arcs M)" using tab by (simp add: t1)
  note mp = matrix_pair [OF ok]
  have lsc: "length ?sc = length (all_arcs M)" by (simp add: matrix_scratch_length l1)
  have l2: "length tab2 = length (all_arcs M)" using l1 lsc by (simp add: tab2_def put_scratch_def)
  have t3: "tab3 = map (snd \<circ> add_weighted_scratch w) (zip (all_arcs M) tab2)" unfolding tab3_def by (rule arcs_visit_table [OF l2])
  show "length tab3 = length (all_arcs M)" using l2 by (simp add: t3)
  assume n: "n < length (all_arcs M)"
  have "ac_scratch (tab1 ! n) = 0" "ac_counts (tab1 ! n) = ac_counts (tab ! n)" "ac_prior_counts (tab1 ! n) = ac_prior_counts (tab ! n) \<and> ac_best_weight (tab1 ! n) = ac_best_weight (tab ! n)"
    using n tab by (simp_all add: t1 clear_scratch_def)
  moreover have "?sc ! n = map ac_scratch tab1 ! n + pair_uses M N e n" by (rule mp(4) [OF n]) (simp add: l1)
  ultimately have "ac_scratch (tab2 ! n) = pair_uses M N e n" "ac_counts (tab2 ! n) = ac_counts (tab ! n)"
    "ac_prior_counts (tab2 ! n) = ac_prior_counts (tab ! n) \<and> ac_best_weight (tab2 ! n) = ac_best_weight (tab ! n)"
    using n l1 lsc by (simp_all add: tab2_def put_scratch_def)
  then show "ac_counts (tab3 ! n) = ac_counts (tab ! n) + w * pair_uses M N e n \<and> ac_prior_counts (tab3 ! n) = ac_prior_counts (tab ! n) \<and> ac_best_weight (tab3 ! n) = ac_best_weight (tab ! n)"
    using n l2 by (simp add: t3 add_weighted_scratch_def)
qed

definition prob_product :: "real WFST \<Rightarrow> nat \<Rightarrow> IOSymSeq list \<Rightarrow> real" where
  "prob_product M N es = (\<Prod>e\<leftarrow>es. pair_prob M N e)"

definition weighted_product :: "real WFST \<Rightarrow> nat \<Rightarrow> IOSymSeq list \<Rightarrow> real" where
  "weighted_product M N es = (\<Prod>e\<leftarrow>es. pair_prob M N e powr seq_weight e)"

lemma product_simps:
  "prob_product M N [] = 1" "prob_product M N (e # es) = pair_prob M N e * prob_product M N es"
  "weighted_product M N [] = 1" "weighted_product M N (e # es) = pair_prob M N e powr seq_weight e * weighted_product M N es"
  "expected_uses M N [] n = 0"
  "expected_uses M N (e # es) n = seq_weight e * pair_uses M N e n / pair_prob M N e + expected_uses M N es n"
  by (simp_all add: prob_product_def weighted_product_def expected_uses_def)

lemma estimate_matrix_value:
  assumes ok: "wfst_ok M" "\<not> (\<exists>s. (eps_step M)\<^sup>+\<^sup>+ s s)" and mx: "matrix_ok M x" and es: "\<forall>e \<in> set es. pair_ok M N e"
    and tab: "length tab = length (all_arcs M)" and r: "estimate_matrix M es (ret, unweighted, tab, x) = (es', ret', unweighted', tab', x')"
  shows "es' = filter (\<lambda>e. 0 < pair_prob M N e) es \<and> ret' = ret * weighted_product M N es \<and>
    unweighted' = unweighted * prob_product M N es \<and> length tab' = length (all_arcs M) \<and>
    (\<forall>n < length (all_arcs M). ac_counts (tab' ! n) = ac_counts (tab ! n) + expected_uses M N es' n \<and>
      ac_prior_counts (tab' ! n) = ac_prior_counts (tab ! n) \<and> ac_best_weight (tab' ! n) = ac_best_weight (tab ! n)) \<and> matrix_ok M x'"
  using mx es tab r
proof (induction es arbitrary: es' ret unweighted tab x)
  case Nil
  then show ?case by (simp add: product_simps)
next
  case (Cons e es)
  let ?x = "matrix_fb_pair M e x"
  have e: "pair_ok M N e" using Cons.prems(2) by simp
  note mp = matrix_pair [OF ok Cons.prems(1) e]
  show ?case
  proof (cases "0 < pair_prob M N e")
    case False
    have "estimate_matrix M es (ret * pair_prob M N e powr seq_weight e, unweighted * pair_prob M N e, tab, ?x) = (es', ret', unweighted', tab', x')"
      using Cons.prems(4) False by (simp add: mp(2) Let_def)
    from Cons.IH [OF mp(1) _ Cons.prems(3) this] Cons.prems(2) False show ?thesis by (simp add: product_simps)
  next
    case True
    define tab1 where "tab1 = snd (arcs_visit clear_scratch (M, tab))"
    define tab2 where "tab2 = put_scratch (matrix_scratch M e ?x (map ac_scratch tab1)) tab1"
    define tab3 where "tab3 = snd (arcs_visit (add_weighted_scratch (seq_weight e / pair_prob M N e)) (M, tab2))"
    note mc = matrix_example_counts [OF ok Cons.prems(1) e Cons.prems(3), where w = "seq_weight e / pair_prob M N e", folded tab1_def, folded tab2_def, folded tab3_def]
    obtain es1 where r: "estimate_matrix M es (ret * pair_prob M N e powr seq_weight e, unweighted * pair_prob M N e, tab3, ?x) =
        (es1, ret', unweighted', tab', x')" "es' = e # es1"
      using Cons.prems(4) True unfolding estimate_matrix.simps Let_def mp(2) prod.case
      by (simp add: case_prod_unfold tab3_def tab2_def tab1_def) (metis prod.collapse)
    from Cons.IH [OF mp(1) _ mc(1) r(1)] Cons.prems(2) True mc(2) show ?thesis by (simp add: product_simps r(2) add.assoc)
  qed
qed

section \<open>The derivation lattices\<close>

definition pair_lattice :: "real WFST \<Rightarrow> IOSymSeq \<Rightarrow> real derivations \<Rightarrow> bool" where
  "pair_lattice M e D \<longleftrightarrow> d_weight D = seq_weight e \<and> (\<exists>lab. deriv_lattice M (seq_i e) (seq_o e) (d_graph D) (d_fin D) lab)"

lemma example_derivations_lattice:
  assumes ok: "wfst_ok M" and e: "pair_ok M N e" and p: "pair_prob M N e \<noteq> 0"
  shows "fst (example_derivations M prune e)" "pair_lattice M e (snd (example_derivations M prune e))"
proof -
  have no: "0 \<notin> set (seq_i e)" "0 \<notin> set (seq_o e)" and size: "card (deriv_states M (seq_i e) (seq_o e)) < uint_minus1"
    using e unfolding pair_ok_def deriv_states_card by blast+
  have "\<exists>k. arc_paths M k 0 (seq_i e) (seq_o e) \<noteq> []"
    by (rule ccontr) (use p in \<open>simp add: pair_prob_def\<close>)
  then have "derives_goal M (seq_i e) (seq_o e) (0, 0, 0)" by (simp add: start_derives_goal [OF ok no])
  moreover obtain found D where c: "example_derivations M prune e = (found, D)" by fastforce
  note sp = derivations_compute_spec [OF ok derivations_init_fresh size c [unfolded example_derivations_def]]
  ultimately show "fst (example_derivations M prune e)" "pair_lattice M e (snd (example_derivations M prune e))"
    using sp by (auto simp: c pair_lattice_def derivations_init_def)
qed

lemma estimate_pair_value:
  assumes ok: "wfst_ok M" "\<not> (\<exists>s. (eps_step M)\<^sup>+\<^sup>+ s s)" and e: "pair_ok M N e" and D: "pair_lattice M e D"
    and r: "estimate_pair (all_arcs M) D (unweighted, weighted, cs) = (unweighted', weighted', cs')"
  shows "unweighted' = unweighted * pair_prob M N e" "weighted' = weighted * pair_prob M N e powr seq_weight e"
    "length cs' = length cs" "n < length cs \<Longrightarrow> cs' ! n = cs ! n + seq_weight e * pair_uses M N e n / pair_prob M N e"
proof -
  obtain p cs1 where c: "collect_counts (all_arcs M) D cs = (p, cs1)" by fastforce
  obtain lab where lat: "deriv_lattice M (seq_i e) (seq_o e) (d_graph D) (d_fin D) lab" and w: "d_weight D = seq_weight e"
    using D by (auto simp: pair_lattice_def)
  have sz: "0 \<notin> set (seq_i e)" "0 \<notin> set (seq_o e)"
    "Suc (length (seq_i e)) * numStates M * Suc (length (seq_o e)) \<le> N" using e unfolding pair_ok_def by blast+
  note v = collect_counts_lattice [OF ok sz lat c, folded pair_prob_def pair_uses_def]
  have r': "unweighted' = unweighted * p" "weighted' = weighted * p powr d_weight D" "cs' = cs1"
    using r by (simp_all add: estimate_pair_def c)
  show "unweighted' = unweighted * pair_prob M N e" "weighted' = weighted * pair_prob M N e powr seq_weight e"
    "length cs' = length cs" "n < length cs \<Longrightarrow> cs' ! n = cs ! n + seq_weight e * pair_uses M N e n / pair_prob M N e"
    unfolding r' v(1,2) w using v(3) w by (simp_all add: pair_uses_def)
qed

lemma fold_estimate_pairs:
  assumes ok: "wfst_ok M" "\<not> (\<exists>s. (eps_step M)\<^sup>+\<^sup>+ s s)" and es: "\<forall>e \<in> set es. pair_ok M N e"
    and ds: "list_all2 (pair_lattice M) es ds"
    and r: "fold (estimate_pair (all_arcs M)) ds (unweighted, weighted, cs) = (unweighted', weighted', cs')"
  shows "unweighted' = unweighted * prob_product M N es \<and> weighted' = weighted * weighted_product M N es \<and> length cs' = length cs \<and>
    (\<forall>n < length cs. cs' ! n = cs ! n + expected_uses M N es n)"
  using ds es r
proof (induction arbitrary: unweighted weighted cs rule: list_all2_induct)
  case (Cons e es D ds)
  have e: "pair_ok M N e" using Cons.prems(1) by simp
  obtain u1 w1 c1 where p: "estimate_pair (all_arcs M) D (unweighted, weighted, cs) = (u1, w1, c1)" by (metis prod_cases3)
  note v = estimate_pair_value [OF ok e Cons.hyps(1) p]
  from Cons.IH [of u1 w1 c1] Cons.prems show ?case by (simp add: p v product_simps)
qed (simp add: product_simps)

lemma foreach_example_found:
  "\<forall>e \<in> set es. fst (example_derivations M prune e) \<Longrightarrow>
    foreach_example M prune fst_pass f es st = (es, fold f (map (\<lambda>e. snd (example_derivations M prune e)) es) st)"
  by (induction es arbitrary: st) (simp_all add: case_prod_unfold)

lemma cache_derivations_found:
  assumes "\<forall>e \<in> set (examples corpus). fst (example_derivations M prune e)"
  shows "fst (cache_derivations M prune corpus) = map (\<lambda>e. snd (example_derivations M prune e)) (examples corpus)"
    "examples (snd (cache_derivations M prune corpus)) = examples corpus"
proof -
  let ?F = "\<lambda>e (derivs, corpus).
      let corpus = corpus_clear_counts corpus; (ok, D) = example_derivations M prune e
      in if ok then (derivs @ [D], corpus_count1 e corpus) else (derivs, corpus)"
  have "fst (fold ?F es (ds, c)) = ds @ map (\<lambda>e. snd (example_derivations M prune e)) es \<and>
      examples (snd (fold ?F es (ds, c))) = examples c" if "\<forall>e \<in> set es. fst (example_derivations M prune e)" for es ds c
    using that by (induction es arbitrary: ds c) (simp_all add: Let_def case_prod_unfold corpus_count1_def corpus_clear_counts_def)
  from this [OF assms, of "[]" corpus]
  show "fst (cache_derivations M prune corpus) = map (\<lambda>e. snd (example_derivations M prune e)) (examples corpus)"
    "examples (snd (cache_derivations M prune corpus)) = examples corpus" by (simp_all add: cache_derivations_def)
qed

lemma corpus_count_examples: "examples (corpus_count c) = examples c"
proof -
  have "examples (fold corpus_count1 es c) = examples c" for es c
    by (induction es arbitrary: c) (simp_all add: corpus_count1_def Let_def)
  then show ?thesis by (simp add: corpus_count_def corpus_clear_counts_def)
qed

section \<open>The estimation step\<close>

definition estimable :: "nat \<Rightarrow> forward_backward \<Rightarrow> bool" where
  "estimable N fb \<longleftrightarrow> wfst_ok (fb_x fb) \<and> \<not> (\<exists>s. (eps_step (fb_x fb))\<^sup>+\<^sup>+ s s) \<and>
     length (fb_arcs fb) = length (all_arcs (fb_x fb)) \<and> examples (fb_corpus fb) \<noteq> [] \<and>
     (\<forall>e \<in> set (examples (fb_corpus fb)). pair_ok (fb_x fb) N e \<and> 0 < pair_prob (fb_x fb) N e) \<and>
     (if opts_use_matrix (fb_copt fb) then matrix_ok (fb_x fb) (fb_matrix fb)
      else (\<forall>ds. fb_derivs fb = Some ds \<longrightarrow> list_all2 (pair_lattice (fb_x fb)) (examples (fb_corpus fb)) ds))"

text \<open>The total weight of the examples that the perplexity is per.\<close>

definition counted_total :: "forward_backward \<Rightarrow> real" where
  "counted_total fb =
     (if opts_use_matrix (fb_copt fb) \<or> fb_derivs fb \<noteq> None \<or> \<not> fb_first fb then totalEmpiricalWeight (fb_corpus fb)
      else (\<Sum>e\<leftarrow>examples (fb_corpus fb). seq_weight e))"

lemma corpus_count_total: "totalEmpiricalWeight (corpus_count c) = (\<Sum>e\<leftarrow>examples c. seq_weight e)"
proof -
  have "totalEmpiricalWeight (fold corpus_count1 es c) = totalEmpiricalWeight c + (\<Sum>e\<leftarrow>es. seq_weight e)" for es c
    by (induction es arbitrary: c) (simp_all add: corpus_count1_def Let_def)
  then show ?thesis by (simp add: corpus_count_def corpus_clear_counts_def)
qed

lemma estimate_value:
  assumes "estimable N fb"
  shows "\<exists>fb'. estimate fb = Some (weighted_product (fb_x fb) N (examples (fb_corpus fb)),
      prob_product (fb_x fb) N (examples (fb_corpus fb)), fb') \<and>
    fb_x fb' = fb_x fb \<and> fb_cascade fb' = fb_cascade fb \<and> fb_cas fb' = fb_cas fb \<and> fb_copt fb' = fb_copt fb \<and>
    fb_derivs fb' = fb_derivs fb \<and> examples (fb_corpus fb') = examples (fb_corpus fb) \<and>
    totalEmpiricalWeight (fb_corpus fb') = counted_total fb \<and> counted_total fb' = counted_total fb \<and>
    length (fb_arcs fb') = length (all_arcs (fb_x fb)) \<and>
    (\<forall>n < length (all_arcs (fb_x fb)). ac_counts (fb_arcs fb' ! n) = expected_uses (fb_x fb) N (examples (fb_corpus fb)) n \<and>
      ac_prior_counts (fb_arcs fb' ! n) = ac_prior_counts (fb_arcs fb ! n) \<and> ac_best_weight (fb_arcs fb' ! n) = ac_best_weight (fb_arcs fb ! n)) \<and> estimable N fb'"
proof -
  let ?M = "fb_x fb" and ?es = "examples (fb_corpus fb)" and ?prune = "do_prune (fb_copt fb)"
  have ok: "wfst_ok ?M" "\<not> (\<exists>s. (eps_step ?M)\<^sup>+\<^sup>+ s s)" and tab: "length (fb_arcs fb) = length (all_arcs ?M)" and ne: "?es \<noteq> []"
    and es: "\<forall>e \<in> set ?es. pair_ok ?M N e" "\<forall>e \<in> set ?es. 0 < pair_prob ?M N e"
    using assms unfolding estimable_def by blast+
  define tab0 where "tab0 = snd (arcs_visit clear_count (?M, fb_arcs fb))"
  have t0: "tab0 = map (snd \<circ> clear_count) (zip (all_arcs ?M) (fb_arcs fb))" unfolding tab0_def by (rule arcs_visit_table [OF tab])
  have l0: "length tab0 = length (all_arcs ?M)" and c0: "n < length (all_arcs ?M) \<Longrightarrow> ac_counts (tab0 ! n) = 0 \<and> ac_prior_counts (tab0 ! n) = ac_prior_counts (fb_arcs fb ! n) \<and> ac_best_weight (tab0 ! n) = ac_best_weight (fb_arcs fb ! n)" for n
    using tab by (simp_all add: t0 clear_count_def)
  show ?thesis
  proof (cases "opts_use_matrix (fb_copt fb)")
    case True
    then have mx: "matrix_ok ?M (fb_matrix fb)" using assms by (simp add: estimable_def)
    obtain es' ret unw tab' x' where r: "estimate_matrix ?M ?es (1, 1, tab0, fb_matrix fb) = (es', ret, unw, tab', x')"
      by (metis prod_cases5)
    note v = estimate_matrix_value [OF ok mx es(1) l0 r]
    have "es' = ?es" using v es(2) by (simp add: filter_id_conv)
    with v ne True assms show ?thesis by (simp add: estimate_def Let_def tab0_def [symmetric] r c0 estimable_def counted_total_def)
  next
    case False
    define ds where "ds = (case fb_derivs fb of Some ds \<Rightarrow> ds | None \<Rightarrow> map (\<lambda>e. snd (example_derivations ?M ?prune e)) ?es)"
    have found: "\<forall>e \<in> set ?es. fst (example_derivations ?M ?prune e)" "\<forall>e \<in> set ?es. pair_lattice ?M e (snd (example_derivations ?M ?prune e))"
      using es example_derivations_lattice [OF ok(1)] by fastforce+
    have ds: "list_all2 (pair_lattice ?M) ?es ds"
    proof (cases "fb_derivs fb")
      case None
      then show ?thesis using found(2) by (simp add: ds_def list_all2_conv_all_nth)
    next
      case (Some d)
      then show ?thesis using assms False by (simp add: estimable_def ds_def)
    qed
    obtain u w cs where f: "fold (estimate_pair (all_arcs ?M)) ds (1, 1, map ac_counts tab0) = (u, w, cs)" by (metis prod_cases3)
    note v = fold_estimate_pairs [OF ok es(1) ds f]
    obtain corpus where fd: "foreach_deriv ?M ?prune (fb_first fb) (fb_derivs fb) (estimate_pair (all_arcs ?M)) (fb_corpus fb) (1, 1, map ac_counts tab0) =
        (corpus, u, w, cs)" and c: "examples corpus = ?es" and tw: "totalEmpiricalWeight corpus = counted_total fb"
    proof (cases "fb_derivs fb")
      case None
      then show ?thesis
        using that [of "if fb_first fb then corpus_count (fb_corpus fb\<lparr>examples := ?es\<rparr>) else fb_corpus fb\<lparr>examples := ?es\<rparr>"] found(1) f
        by (simp add: foreach_deriv_def foreach_example_found corpus_count_examples corpus_count_total ds_def counted_total_def False)
    next
      case (Some d)
      then show ?thesis using that f by (simp add: foreach_deriv_def ds_def counted_total_def)
    qed
    have "u = prob_product ?M N ?es" "w = weighted_product ?M N ?es" "length cs = length tab0"
      "\<And>n. n < length tab0 \<Longrightarrow> cs ! n = expected_uses ?M N ?es n" using v c0 l0 by simp_all
    then show ?thesis using False ne c l0 c0 assms tw by (simp add: estimate_def Let_def tab0_def [symmetric] fd estimable_def counted_total_def)
  qed
qed

lemma forward_backward_new_estimable:
  fixes c :: "real cascade_parameters" and cas :: "real WFST list" and pp :: bool and gp :: real and copt :: deriv_cache_opts
  assumes ok: "wfst_ok M" "\<not> (\<exists>s. (eps_step M)\<^sup>+\<^sup>+ s s)" and ne: "examples corpus \<noteq> []"
    and es: "\<forall>e \<in> set (examples corpus). pair_ok M N e \<and> 0 < pair_prob M N e"
  defines "fb \<equiv> forward_backward_new M c cas pp gp copt corpus"
  shows "estimable N fb" "fb_x fb = M" "fb_copt fb = copt" "fb_cascade fb = c" "fb_cas fb = cas" "fb_arcs fb = arcs_table M pp gp"
    "examples (fb_corpus fb) = examples corpus"
proof -
  have found: "\<forall>e \<in> set (examples corpus). fst (example_derivations M (do_prune copt) e)"
    and lat: "\<forall>e \<in> set (examples corpus). pair_lattice M e (snd (example_derivations M (do_prune copt) e))"
    using es example_derivations_lattice [OF ok(1)] by fastforce+
  note cd = cache_derivations_found [OF found]
  have len: "length (arcs_table M pp gp) = length (all_arcs M)" using arcs_table_ok by (simp add: table_ok_def)
  show x: "fb_x fb = M" "fb_copt fb = copt" "fb_cascade fb = c" "fb_cas fb = cas" "fb_arcs fb = arcs_table M pp gp"
    "examples (fb_corpus fb) = examples corpus"
    by (simp_all add: fb_def forward_backward_new_def Let_def case_prod_unfold cd)
  have "fb_matrix fb = matrix_new M (arcs_table M pp gp)" by (simp add: fb_def forward_backward_new_def Let_def case_prod_unfold)
  then have "matrix_ok M (fb_matrix fb)" using matrix_new_ok [OF ok arcs_table_ok] by simp
  moreover have "fb_derivs fb = Some ds \<Longrightarrow> list_all2 (pair_lattice M) (examples corpus) ds" for ds
    using lat by (auto simp: list_all2_conv_all_nth fb_def forward_backward_new_def Let_def case_prod_unfold cd split: if_splits)
  ultimately show "estimable N fb" using ok ne es by (simp add: estimable_def x len)
qed

section \<open>Properties\<close>

text \<open>C2: the expectation step.  However the derivations are kept (recomputed, cached in memory or on disk, or the
  full matrix), \<open>estimate\<close> returns the product of the probabilities of the training pairs, weighted and unweighted,
  and leaves in the table the expected number of uses of each arc, where the probability of a pair is the sum of
  the weights of its accepting paths.\<close>

theorem estimate_expected_uses:
  assumes "wfst_ok M" "\<not> (\<exists>s. (eps_step M)\<^sup>+\<^sup>+ s s)" "examples corpus \<noteq> []"
    and "\<forall>e \<in> set (examples corpus). pair_ok M N e \<and> 0 < pair_prob M N e"
  shows "\<exists>fb. estimate (forward_backward_new M c cas pp gp copt corpus) =
      Some (\<Prod>e\<leftarrow>examples corpus. pair_prob M N e powr seq_weight e, \<Prod>e\<leftarrow>examples corpus. pair_prob M N e, fb) \<and>
    (\<forall>n < length (all_arcs M). ac_counts (fb_arcs fb ! n) =
      (\<Sum>e\<leftarrow>examples corpus. seq_weight e * pair_uses M N e n / pair_prob M N e))"
  using estimate_value [OF forward_backward_new_estimable(1) [OF assms], of c cas pp gp copt]
  by (auto simp: forward_backward_new_estimable [OF assms] weighted_product_def prob_product_def expected_uses_def)

text \<open>Two arcs from the start to the final state: one writes 4, the other 5.\<close>

definition two_arcs :: "real WFST" where
  "two_arcs = \<lparr>owner_alph = \<lambda>_. False, alph = \<lambda>_. None, named_states = False, stateNames = alph_empty, final = 1,
     states = [fold addArc [mk_arc 3 4 1 (1/2), mk_arc 3 5 1 (1/2)] state_new, state_new], indexed_by = kNone\<rparr>"

definition two_arcs_corpus :: training_corpus where
  "two_arcs_corpus = finish_adding (corpus_add [3] [4] 2 corpus_new)"

lemma two_arcs_simps:
  "numStates two_arcs = 2" "final two_arcs = 1" "all_arcs two_arcs = [mk_arc 3 5 1 (1/2), mk_arc 3 4 1 (1/2)]"
  "arc_ids two_arcs 0 = [0, 1]" "arc_ids two_arcs (Suc 0) = []"
  "examples two_arcs_corpus = [\<lparr>seq_i = [3], seq_o = [4], seq_weight = 2\<rparr>]"
  by (simp_all add: two_arcs_def two_arcs_corpus_def finish_adding_def corpus_add_def corpus_new_def corpus_clear_def
      corpus_clear_counts_def corpus_count1_def Let_def all_arcs_def arc_ids_def arc_offset_def addArc_def state_new_def
      upt_rec numeral_eq_Suc)

lemma two_arcs_ok: "wfst_ok two_arcs" "\<not> (\<exists>s. (eps_step two_arcs)\<^sup>+\<^sup>+ s s)"
proof -
  show "wfst_ok two_arcs"
    by (simp add: wfst_ok_def two_arcs_def addArc_def state_new_def mk_arc_def size_ok_def uint_minus1_def no_holes_def)
  have "\<not> eps_step two_arcs p q" for p q
    by (cases p; cases "p - 1") (auto simp: eps_step_def two_arcs_def epsilon_index_def addArc_def state_new_def mk_arc_def nth_Cons')
  then show "\<not> (\<exists>s. (eps_step two_arcs)\<^sup>+\<^sup>+ s s)" by (metis tranclpD)
qed

lemma two_arcs_paths: "arc_paths two_arcs k 0 [3] [4] = (if k = 1 then [[1]] else [])"
proof -
  have z: "arc_paths two_arcs k (Suc 0) [] [] = (if k = 0 then [[]] else [])" for k
    by (cases k) (simp_all add: two_arcs_simps)
  show ?thesis by (cases k) (auto simp: two_arcs_simps consume_def epsilon_index_def mk_arc_def z)
qed

lemma two_arcs_pair:
  defines "e \<equiv> \<lparr>seq_i = [3], seq_o = [4], seq_weight = 2\<rparr>"
  shows "pair_ok two_arcs 8 e" "pair_prob two_arcs 8 e = 1/2" "pair_uses two_arcs 8 e 1 = 1/2"
proof -
  have s: "(\<Sum>k \<le> 8. \<Sum>p\<leftarrow>arc_paths two_arcs k 0 [3] [4]. G p) = (G [1] :: real)" for G
    by (simp only: two_arcs_paths) (simp add: numeral_eq_Suc)
  show "pair_ok two_arcs 8 e" by (simp add: pair_ok_def e_def two_arcs_simps uint_minus1_def)
  show "pair_prob two_arcs 8 e = 1/2" "pair_uses two_arcs 8 e 1 = 1/2"
    unfolding pair_prob_def pair_uses_def e_def IOSymSeq.simps s
    by (simp_all add: path_wt_def arc_wt_def two_arcs_simps mk_arc_def)
qed

theorem estimate_expected_uses_witness:
  "\<exists>fb. estimate (forward_backward_new two_arcs (cascade_new False) [] False 0
      \<lparr>do_prune = True, cache_level = matrix_fb\<rparr> two_arcs_corpus) = Some (1/4, 1/2, fb) \<and> ac_counts (fb_arcs fb ! 1) = 2"
proof -
  have es: "\<forall>e \<in> set (examples two_arcs_corpus). pair_ok two_arcs 8 e \<and> 0 < pair_prob two_arcs 8 e"
    "examples two_arcs_corpus \<noteq> []"
    by (simp_all add: two_arcs_simps(6) two_arcs_pair)
  obtain fb where fb: "estimate (forward_backward_new two_arcs (cascade_new False) [] False 0
      \<lparr>do_prune = True, cache_level = matrix_fb\<rparr> two_arcs_corpus) =
      Some (\<Prod>e\<leftarrow>examples two_arcs_corpus. pair_prob two_arcs 8 e powr seq_weight e,
        \<Prod>e\<leftarrow>examples two_arcs_corpus. pair_prob two_arcs 8 e, fb)"
    "\<forall>n < length (all_arcs two_arcs). ac_counts (fb_arcs fb ! n) =
      (\<Sum>e\<leftarrow>examples two_arcs_corpus. seq_weight e * pair_uses two_arcs 8 e n / pair_prob two_arcs 8 e)"
    using estimate_expected_uses [OF two_arcs_ok es(2,1)] by blast
  have "ac_counts (fb_arcs fb ! 1) = 2" using fb(2) [rule_format, of 1] by (simp add: two_arcs_simps two_arcs_pair two_arcs_pair(3) [unfolded One_nat_def])
  then show ?thesis using fb(1) by (simp add: two_arcs_simps(6) two_arcs_pair power2_eq_square)
qed

end
