(* ===== verification/EmGain.thy ===== *)
theory EmGain
  imports Estimate
begin

text \<open>
  Why an iteration of expectation and maximization does not lower the probability of the corpus: the gain of a pair
  is at least its expected uses times the logarithms of the weight changes, and normalizing the expected uses
  makes the sum of these over each normalization group nonnegative.
\<close>

section \<open>The gain of a normalization group\<close>

text \<open>Positions \<open>A\<close> in groups given by \<open>key\<close>, old weights \<open>w\<close>, counts \<open>c\<close>, new weights \<open>v\<close>.\<close>

definition group_reserved :: "'p set \<Rightarrow> ('p \<Rightarrow> 'k) \<Rightarrow> ('p \<Rightarrow> bool) \<Rightarrow> ('p \<Rightarrow> real) \<Rightarrow> 'k \<Rightarrow> real" where
  "group_reserved A key normal w k = (\<Sum>q | q \<in> A \<and> key q = k \<and> \<not> normal q. w q)"

definition group_count :: "'p set \<Rightarrow> ('p \<Rightarrow> 'k) \<Rightarrow> ('p \<Rightarrow> bool) \<Rightarrow> ('p \<Rightarrow> real) \<Rightarrow> 'k \<Rightarrow> real" where
  "group_count A key normal c k = (\<Sum>q | q \<in> A \<and> key q = k \<and> normal q. c q)"

definition reestimated ::
  "'p set \<Rightarrow> ('p \<Rightarrow> 'k) \<Rightarrow> ('p \<Rightarrow> bool) \<Rightarrow> ('p \<Rightarrow> real) \<Rightarrow> ('p \<Rightarrow> real) \<Rightarrow> 'p \<Rightarrow> real" where
  "reestimated A key normal w c p =
     (if \<not> normal p then w p
      else if group_reserved A key normal w (key p) < 1 \<and> group_count A key normal c (key p) \<noteq> 0
      then (1 - group_reserved A key normal w (key p)) * c p / group_count A key normal c (key p) else 0)"

lemma group_split:
  assumes "finite A"
  shows "(\<Sum>q | q \<in> A \<and> key q = k. f q) =
    (\<Sum>q | q \<in> A \<and> key q = k \<and> \<not> normal q. f q) + (\<Sum>q | q \<in> A \<and> key q = k \<and> normal q. (f q :: real))"
proof -
  have "{q. q \<in> A \<and> key q = k} = {q. q \<in> A \<and> key q = k \<and> \<not> normal q} \<union> {q. q \<in> A \<and> key q = k \<and> normal q}" by auto
  then show ?thesis using assms by (simp add: sum.union_disjoint disjoint_iff)
qed

lemma reestimated_weights:
  fixes normal :: "'p \<Rightarrow> bool"
  assumes fin: "finite A" and nn': "\<forall>p \<in> A. 0 \<le> w p \<and> 0 \<le> c p \<and> (0 < c p \<longrightarrow> 0 < w p)"
    and one': "\<forall>p \<in> A. (\<Sum>q | q \<in> A \<and> key q = key p. w q) \<le> 1" and p: "p \<in> A"
  defines "v \<equiv> reestimated A key normal w c"
  shows "0 \<le> v p" "0 < c p \<Longrightarrow> 0 < v p" "(\<Sum>q | q \<in> A \<and> key q = key p. v q) \<le> 1"
    "0 < c p \<Longrightarrow> normal p \<Longrightarrow> group_reserved A key normal w (key p) < 1 \<and> 0 < group_count A key normal c (key p)"
proof -
  have nn: "p \<in> A \<Longrightarrow> 0 \<le> w p" "p \<in> A \<Longrightarrow> 0 \<le> c p" "p \<in> A \<Longrightarrow> 0 < c p \<Longrightarrow> 0 < w p"
    and one: "p \<in> A \<Longrightarrow> (\<Sum>q | q \<in> A \<and> key q = key p. w q) \<le> 1" for p using nn' one' by blast+
  let ?R = "group_reserved A key normal w (key p)" and ?C = "group_count A key normal c (key p)"
  have C: "0 \<le> ?C" unfolding group_count_def by (rule sum_nonneg) (simp add: nn)
  have T: "0 \<le> (\<Sum>q | q \<in> A \<and> key q = key p \<and> normal q. w q)" by (rule sum_nonneg) (simp add: nn)
  note sp = group_split [OF fin, where key = key and k = "key p" and f = w and normal = normal]
  show pos: "?R < 1 \<and> 0 < ?C" if "0 < c p" "normal p"
  proof -
    have "w p \<le> (\<Sum>q | q \<in> A \<and> key q = key p \<and> normal q. w q)" "c p \<le> ?C"
      unfolding group_count_def by (rule member_le_sum; use fin p that nn in force)+
    then show ?thesis using one [OF p] sp nn(3) [OF p that(1)] that unfolding group_reserved_def by linarith
  qed
  show "0 \<le> v p" using nn(1,2) [OF p] C by (simp add: v_def reestimated_def)
  show "0 < v p" if "0 < c p" using pos [OF that] that nn(3) [OF p that] by (cases "normal p") (simp_all add: v_def reestimated_def)
  have "v q = w q" if "\<not> normal q" for q using that by (simp add: v_def reestimated_def)
  then have r: "(\<Sum>q | q \<in> A \<and> key q = key p \<and> \<not> normal q. v q) = ?R"
    unfolding group_reserved_def by (intro sum.cong) auto
  have n: "(\<Sum>q | q \<in> A \<and> key q = key p \<and> normal q. v q) = (if ?R < 1 \<and> ?C \<noteq> 0 then 1 - ?R else 0)"
  proof -
    have "(\<Sum>q | q \<in> A \<and> key q = key p \<and> normal q. v q) =
        (\<Sum>q | q \<in> A \<and> key q = key p \<and> normal q. if ?R < 1 \<and> ?C \<noteq> 0 then (1 - ?R) / ?C * c q else 0)"
      by (intro sum.cong) (auto simp: v_def reestimated_def)
    also have "\<dots> = (if ?R < 1 \<and> ?C \<noteq> 0 then (1 - ?R) / ?C * ?C else 0)"
    proof (cases "?R < 1 \<and> ?C \<noteq> 0")
      case True
      have "(\<Sum>q | q \<in> A \<and> key q = key p \<and> normal q. (1 - ?R) / ?C * c q) = (1 - ?R) / ?C * ?C"
        unfolding sum_distrib_left [symmetric] group_count_def ..
      then show ?thesis using True by simp
    qed auto
    finally show ?thesis by (simp split: if_splits)
  qed
  have "?R \<le> 1" using one [OF p] sp T unfolding group_reserved_def by linarith
  then show "(\<Sum>q | q \<in> A \<and> key q = key p. v q) \<le> 1" unfolding group_split [OF fin, where key = key and k = "key p" and f = v and normal = normal] r n by simp
qed

lemma reestimated_gain:
  assumes fin: "finite A" and nn': "\<forall>p \<in> A. 0 \<le> w p \<and> 0 \<le> c p \<and> (0 < c p \<longrightarrow> 0 < w p)"
    and one': "\<forall>p \<in> A. (\<Sum>q | q \<in> A \<and> key q = key p. w q) \<le> 1"
  shows "0 \<le> (\<Sum>p \<in> A. c p * ln (reestimated A key normal w c p / w p))"
proof -
  have nn: "p \<in> A \<Longrightarrow> 0 \<le> w p" "p \<in> A \<Longrightarrow> 0 \<le> c p" "p \<in> A \<Longrightarrow> 0 < c p \<Longrightarrow> 0 < w p"
    and one: "p \<in> A \<Longrightarrow> (\<Sum>q | q \<in> A \<and> key q = key p. w q) \<le> 1" for p using nn' one' by blast+
  let ?v = "reestimated A key normal w c" and ?R = "group_reserved A key normal w" and ?C = "group_count A key normal c"
  let ?h = "\<lambda>p. if normal p \<and> 0 < ?C (key p) \<and> ?R (key p) < 1 then c p - w p * (?C (key p) / (1 - ?R (key p))) else 0"
  note rw = reestimated_weights [where A = A and key = key and normal = normal and w = w and c = c, OF fin nn' one']
  have low: "?h p \<le> c p * ln (?v p / w p)" if p: "p \<in> A" for p
  proof (cases "0 < c p \<and> normal p")
    case False
    then have "c p = 0 \<or> \<not> normal p" using nn(2) [OF p] by linarith
    then show ?thesis
    proof
      assume "c p = 0"
      then show ?thesis using nn(1) [OF p] by simp
    next
      assume "\<not> normal p"
      then show ?thesis by (cases "w p = 0") (simp_all add: reestimated_def)
    qed
  next
    case True
    have pos: "?R (key p) < 1" "0 < ?C (key p)" using rw(4) [OF p] True by blast+
    have v: "?v p = (1 - ?R (key p)) * c p / ?C (key p)" using pos True by (simp add: reestimated_def)
    have vp: "0 < ?v p" "0 < w p" using rw(2) [OF p] nn(3) [OF p] True by blast+
    have "ln (w p / ?v p) \<le> w p / ?v p - 1" by (rule ln_le_minus_one) (use vp in simp)
    then have "1 - w p / ?v p \<le> ln (?v p / w p)" using vp by (simp add: ln_div)
    then have "c p * (1 - w p / ?v p) \<le> c p * ln (?v p / w p)" using True by simp
    moreover have "c p * (1 - w p / ?v p) = c p - w p * (?C (key p) / (1 - ?R (key p)))" using True pos by (simp add: v field_simps)
    ultimately show ?thesis using True pos by simp
  qed
  have "0 \<le> (\<Sum>p | p \<in> A \<and> key p = k. ?h p)" if k: "k \<in> key ` A" for k
  proof (cases "0 < ?C k \<and> ?R k < 1")
    case False
    then show ?thesis by (intro sum_nonneg) auto
  next
    case True
    obtain p where p: "p \<in> A" "k = key p" using k by blast
    have "(\<Sum>p | p \<in> A \<and> key p = k. ?h p) = (\<Sum>p | p \<in> A \<and> key p = k \<and> normal p. c p - w p * (?C k / (1 - ?R k)))"
      using True by (subst group_split [OF fin, where normal = normal]) simp
    also have "\<dots> = ?C k - (\<Sum>p | p \<in> A \<and> key p = k \<and> normal p. w p) * (?C k / (1 - ?R k))"
      unfolding sum_subtractf sum_distrib_right by (simp only: group_count_def)
    finally have e: "(\<Sum>p | p \<in> A \<and> key p = k. ?h p) = \<dots>" .
    have "(\<Sum>p | p \<in> A \<and> key p = k \<and> normal p. w p) \<le> 1 - ?R k"
      using one [OF p(1)] group_split [OF fin, where key = key and k = k and f = w and normal = normal] unfolding group_reserved_def p(2) by linarith
    then have "(\<Sum>p | p \<in> A \<and> key p = k \<and> normal p. w p) * (?C k / (1 - ?R k)) \<le> (1 - ?R k) * (?C k / (1 - ?R k))"
      using True by (intro mult_right_mono) simp_all
    then show ?thesis using True e by simp
  qed
  then have "0 \<le> (\<Sum>k \<in> key ` A. \<Sum>p | p \<in> A \<and> key p = k. ?h p)" by (rule sum_nonneg)
  also have "\<dots> = (\<Sum>p \<in> A. ?h p)" by (rule sum.group) (use fin in auto)
  also have "\<dots> \<le> (\<Sum>p \<in> A. c p * ln (?v p / w p))" by (rule sum_mono) (rule low)
  finally show ?thesis .
qed

section \<open>The gain of a pair\<close>

definition path_product :: "(nat \<Rightarrow> real) \<Rightarrow> nat list \<Rightarrow> real" where
  "path_product w p = (\<Prod>n\<leftarrow>p. w n)"

lemma path_product_nonneg: "\<forall>n \<in> set p. 0 \<le> w n \<Longrightarrow> 0 \<le> path_product w p"
  unfolding path_product_def by (induction p) auto

lemma path_product_pos:
  assumes "\<forall>n \<in> set p. 0 \<le> w n"
  shows "0 < path_product w p \<longleftrightarrow> (\<forall>n \<in> set p. 0 < w n)"
  using assms
proof (induction p)
  case (Cons n p)
  have "0 \<le> path_product w p" by (rule path_product_nonneg) (use Cons.prems in simp)
  then show ?case using Cons by (auto simp: path_product_def zero_less_mult_iff)
qed (simp add: path_product_def)

lemma path_product_ln:
  "\<forall>n \<in> set p. 0 < w n \<and> 0 < v n \<Longrightarrow> ln (path_product v p / path_product w p) = (\<Sum>n\<leftarrow>p. ln (v n / w n))"
proof (induction p)
  case (Cons n p)
  have "0 < path_product v p" "0 < path_product w p" using Cons.prems by (simp_all add: path_product_pos less_imp_le)
  moreover have "path_product v (n # p) / path_product w (n # p) = (v n / w n) * (path_product v p / path_product w p)"
    by (simp add: path_product_def)
  moreover have "ln (v n / w n * (path_product v p / path_product w p)) = ln (v n / w n) + ln (path_product v p / path_product w p)"
    using Cons.prems calculation(1,2) by (intro ln_mult_pos) simp_all
  ultimately have "ln (path_product v (n # p) / path_product w (n # p)) = ln (v n / w n) + ln (path_product v p / path_product w p)"
    by (simp only:)
  then show ?case using Cons by simp
qed (simp add: path_product_def)

lemma uses_sum: "set (p :: nat list) \<subseteq> {..<L} \<Longrightarrow> (\<Sum>n\<leftarrow>p. f n) = (\<Sum>n < L. real (count_list p n) * f n)"
proof (induction p)
  case (Cons m p)
  have "(\<Sum>n < L. real (count_list (m # p) n) * f n) = (\<Sum>n < L. (if n = m then f n else 0) + real (count_list p n) * f n)"
    by (intro sum.cong refl) (simp add: distrib_right)
  moreover have "(\<Sum>n < L. if n = m then f n else 0) = f m"
    by (subst sum.delta) (use Cons.prems in auto)
  ultimately show ?case using Cons by (simp add: sum.distrib)
qed simp

lemma path_gain:
  fixes w v :: "nat \<Rightarrow> real"
  assumes pos: "0 < P" "0 < Q" and nn: "\<forall>n \<in> set p. 0 \<le> w n \<and> 0 \<le> v n"
    and keep: "0 < path_product w p \<Longrightarrow> \<forall>n \<in> set p. 0 < v n"
  shows "path_product w p * (\<Sum>n\<leftarrow>p. ln (v n / w n)) \<le> path_product v p * P / Q + path_product w p * (ln (Q / P) - 1)"
proof (cases "0 < path_product w p")
  case False
  then have "path_product w p = 0" using path_product_nonneg [of p w] nn by fastforce
  moreover have "0 \<le> path_product v p" by (rule path_product_nonneg) (use nn in blast)
  ultimately show ?thesis using pos by simp
next
  case True
  have wp: "\<forall>n \<in> set p. 0 < w n" and vp: "\<forall>n \<in> set p. 0 < v n"
    using True path_product_pos [of p w] nn keep by blast+
  let ?x = "path_product v p / path_product w p * (P / Q)"
  have v: "0 < path_product v p" using path_product_pos [of p v] vp by (simp add: less_imp_le)
  have "ln ?x \<le> ?x - 1" by (rule ln_le_minus_one) (use True v pos in simp)
  moreover have "ln ?x = ln (path_product v p / path_product w p) - ln (Q / P)"
    using True v pos by (simp add: ln_mult ln_div)
  ultimately have "(\<Sum>n\<leftarrow>p. ln (v n / w n)) \<le> ?x + (ln (Q / P) - 1)"
    using path_product_ln [of p w v] wp vp by simp
  then have "path_product w p * (\<Sum>n\<leftarrow>p. ln (v n / w n)) \<le> path_product w p * (?x + (ln (Q / P) - 1))"
    using True by simp
  also have "\<dots> = path_product v p * P / Q + path_product w p * (ln (Q / P) - 1)" using True by (simp add: distrib_left)
  finally show ?thesis .
qed

lemma paths_gain:
  fixes w v :: "nat \<Rightarrow> real"
  assumes ps: "\<forall>p \<in> set ps. set p \<subseteq> {..<L}" and nn: "\<forall>n < L. 0 \<le> w n \<and> 0 \<le> v n"
    and P0: "0 < (\<Sum>p\<leftarrow>ps. path_product w p)" and keep: "\<forall>p \<in> set ps. 0 < path_product w p \<longrightarrow> (\<forall>n \<in> set p. 0 < v n)"
  defines "P \<equiv> \<Sum>p\<leftarrow>ps. path_product w p" and "Q \<equiv> \<Sum>p\<leftarrow>ps. path_product v p"
  shows "0 < Q" "(\<Sum>n < L. (\<Sum>p\<leftarrow>ps. real (count_list p n) * path_product w p) * ln (v n / w n)) \<le> P * ln (Q / P)"
proof -
  have P: "0 < P" using P0 by (simp add: P_def)
  have nnp: "\<forall>n \<in> set p. 0 \<le> w n \<and> 0 \<le> v n" if "p \<in> set ps" for p using nn ps that by blast
  show Q: "0 < Q"
  proof -
    have "\<exists>p \<in> set ps. 0 < path_product w p"
    proof (rule ccontr)
      assume "\<not> ?thesis"
      then have "P \<le> (\<Sum>p\<leftarrow>ps. 0)" unfolding P_def by (intro sum_list_mono) (simp add: not_less)
      then show False using P by simp
    qed
    then obtain p where p: "p \<in> set ps" "0 < path_product w p" by blast
    have "0 < path_product v p" using path_product_pos [of p v] nnp [OF p(1)] keep p by blast
    also have "path_product v p \<le> (\<Sum>p\<leftarrow>ps. path_product v p)"
      by (rule member_le_sum_list) (use p path_product_nonneg nnp in auto)
    finally show ?thesis by (simp add: Q_def)
  qed
  have "(\<Sum>n < L. (\<Sum>p\<leftarrow>ps. real (count_list p n) * path_product w p) * ln (v n / w n)) =
      (\<Sum>p\<leftarrow>ps. \<Sum>n < L. real (count_list p n) * path_product w p * ln (v n / w n))"
    by (simp add: sum_list_mult_const [symmetric] sum_list_sum_swap)
  also have "\<dots> = (\<Sum>p\<leftarrow>ps. path_product w p * (\<Sum>n\<leftarrow>p. ln (v n / w n)))"
  proof (rule arg_cong [where f = sum_list], rule map_cong [OF refl])
    fix p assume "p \<in> set ps"
    then have "(\<Sum>n\<leftarrow>p. ln (v n / w n)) = (\<Sum>n < L. real (count_list p n) * ln (v n / w n))"
      using ps uses_sum [of p L "\<lambda>n. ln (v n / w n)"] by blast
    then show "(\<Sum>n < L. real (count_list p n) * path_product w p * ln (v n / w n)) = path_product w p * (\<Sum>n\<leftarrow>p. ln (v n / w n))"
      by (simp add: sum_distrib_left mult.assoc mult.left_commute)
  qed
  also have "\<dots> \<le> (\<Sum>p\<leftarrow>ps. path_product v p * P / Q + path_product w p * (ln (Q / P) - 1))"
  proof (rule sum_list_mono)
    fix p assume p: "p \<in> set ps"
    show "path_product w p * (\<Sum>n\<leftarrow>p. ln (v n / w n)) \<le> path_product v p * P / Q + path_product w p * (ln (Q / P) - 1)"
      by (rule path_gain [OF P Q]) (use p keep nnp in blast)+
  qed
  also have "\<dots> = Q * P / Q + P * (ln (Q / P) - 1)"
    unfolding sum_list_addf sum_list_mult_const times_divide_eq_right [symmetric] P_def Q_def by simp
  also have "\<dots> = P * ln (Q / P)" using Q by (simp add: right_diff_distrib)
  finally show "(\<Sum>n < L. (\<Sum>p\<leftarrow>ps. real (count_list p n) * path_product w p) * ln (v n / w n)) \<le> P * ln (Q / P)" .
qed

section \<open>Machines that differ in their weights\<close>

definition mute :: "'w FSTArc \<Rightarrow> ('w::zero) FSTArc" where
  "mute a = a\<lparr>arc_weight := 0\<rparr>"

definition same_build :: "('w::zero) WFST \<Rightarrow> 'w WFST \<Rightarrow> bool" where
  "same_build M M' \<longleftrightarrow> final M' = final M \<and> named_states M' = named_states M \<and> stateNames M' = stateNames M \<and>
     list_all2 (\<lambda>s s'. state_size s' = state_size s \<and> map mute (arcs s') = map mute (arcs s)) (states M) (states M')"

lemma mute_eq:
  "mute a = mute b \<longleftrightarrow> arc_in a = arc_in b \<and> arc_out a = arc_out b \<and> arc_dest a = arc_dest b \<and> groupId a = groupId b"
  by (cases a; cases b) (simp add: mute_def)

lemma same_build_refl: "same_build M M"
  by (simp add: same_build_def list_all2_refl)

lemma same_build_trans: "same_build M M' \<Longrightarrow> same_build M' M'' \<Longrightarrow> same_build M M''"
  by (simp add: same_build_def list_all2_conv_all_nth)

lemma same_buildD:
  assumes "same_build M M'"
  shows "numStates M' = numStates M" "final M' = final M" "map (length \<circ> arcs) (states M') = map (length \<circ> arcs) (states M)"
    "arc_offset M' s = arc_offset M s" "arc_ids M' s = arc_ids M s" "length (all_arcs M') = length (all_arcs M)"
    "n < length (all_arcs M) \<Longrightarrow> arc_in (all_arcs M' ! n) = arc_in (all_arcs M ! n) \<and> arc_out (all_arcs M' ! n) = arc_out (all_arcs M ! n) \<and>
      arc_dest (all_arcs M' ! n) = arc_dest (all_arcs M ! n) \<and> groupId (all_arcs M' ! n) = groupId (all_arcs M ! n)"
    "s < numStates M \<Longrightarrow> state_size (states M' ! s) = state_size (states M ! s) \<and> map mute (arcs (states M' ! s)) = map mute (arcs (states M ! s))"
proof -
  have l: "list_all2 (\<lambda>s s'. state_size s' = state_size s \<and> map mute (arcs s') = map mute (arcs s)) (states M) (states M')"
    using assms by (simp add: same_build_def)
  show n: "numStates M' = numStates M" using list_all2_lengthD [OF l] by simp
  show "final M' = final M" using assms by (simp add: same_build_def)
  show st: "s < numStates M \<Longrightarrow> state_size (states M' ! s) = state_size (states M ! s) \<and> map mute (arcs (states M' ! s)) = map mute (arcs (states M ! s))" for s
    using list_all2_nthD [OF l] by blast
  have "length (arcs (states M' ! s)) = length (arcs (states M ! s))" if "s < numStates M" for s
    using st [OF that] map_eq_imp_length_eq by blast
  then show ln: "map (length \<circ> arcs) (states M') = map (length \<circ> arcs) (states M)"
    by (intro nth_equalityI) (simp_all add: n)
  show "arc_offset M' s = arc_offset M s" "arc_ids M' s = arc_ids M s" by (simp_all only: arc_ids_def arc_offset_lengths ln)
  have "concat (map (map mute \<circ> arcs) (states M')) = concat (map (map mute \<circ> arcs) (states M))"
    by (rule arg_cong [where f = concat], rule nth_equalityI) (use n st in simp_all)
  then have m: "map mute (all_arcs M') = map mute (all_arcs M)" by (simp add: all_arcs_def map_concat comp_def)
  then show len: "length (all_arcs M') = length (all_arcs M)" by (rule map_eq_imp_length_eq)
  show "arc_in (all_arcs M' ! n) = arc_in (all_arcs M ! n) \<and> arc_out (all_arcs M' ! n) = arc_out (all_arcs M ! n) \<and>
      arc_dest (all_arcs M' ! n) = arc_dest (all_arcs M ! n) \<and> groupId (all_arcs M' ! n) = groupId (all_arcs M ! n)" if "n < length (all_arcs M)"
    using arg_cong [OF m, of "\<lambda>xs. xs ! n"] that len by (simp add: mute_eq)
qed

lemma same_build_arcs:
  assumes "same_build M M'" "s < numStates M"
  shows "length (arcs (states M' ! s)) = length (arcs (states M ! s))"
    "i < length (arcs (states M ! s)) \<Longrightarrow> mute (arcs (states M' ! s) ! i) = mute (arcs (states M ! s) ! i)"
proof -
  have m: "map mute (arcs (states M' ! s)) = map mute (arcs (states M ! s))" using same_buildD(8) [OF assms] by blast
  show l: "length (arcs (states M' ! s)) = length (arcs (states M ! s))" by (rule map_eq_imp_length_eq [OF m])
  show "mute (arcs (states M' ! s) ! i) = mute (arcs (states M ! s) ! i)" if "i < length (arcs (states M ! s))"
    using arg_cong [OF m, of "\<lambda>xs. xs ! i"] that l by simp
qed

lemma same_build_ok:
  assumes b: "same_build M M'" and ok: "wfst_ok M"
  shows "wfst_ok M'" "eps_step M' = eps_step M"
proof -
  note D = same_buildD [OF b] and A = same_build_arcs [OF b]
  have "size_ok (states M' ! s) \<and> (\<forall>i < length (arcs (states M' ! s)). arc_dest (arcs (states M' ! s) ! i) < numStates M')"
    if s: "s < numStates M" for s
  proof -
    have "states M ! s \<in> set (states M)" using s by simp
    then have "size_ok (states M ! s)" "\<forall>a \<in> set (arcs (states M ! s)). arc_dest a < numStates M" using ok unfolding wfst_ok_def by blast+
    then show ?thesis using D(1) D(8) [of s] A [OF s] s by (simp add: size_ok_def mute_eq)
  qed
  then show "wfst_ok M'"
    using ok b D(1) unfolding wfst_ok_def same_build_def by (simp add: all_set_conv_all_nth)
  show "eps_step M' = eps_step M"
  proof (rule ext, rule ext)
    fix p q
    have e: "eps_step N p q \<longleftrightarrow> p < numStates N \<and> (\<exists>i < length (arcs (states N ! p)). let a = arcs (states N ! p) ! i
        in arc_in a = epsilon_index \<and> arc_out a = epsilon_index \<and> arc_dest a = q)" for N :: "'a WFST"
      unfolding eps_step_def set_conv_nth Let_def by blast
    show "eps_step M' p q = eps_step M p q"
      unfolding e D(1) using A [of p] by (auto simp: mute_eq Let_def)
  qed
qed

lemma arc_ids_any: "n \<in> set (arc_ids M s) \<Longrightarrow> n < length (all_arcs M)"
proof (cases "s < numStates M")
  case False
  then have "arc_offset M (Suc s) = arc_offset M s" by (simp add: arc_offset_def)
  then show "n \<in> set (arc_ids M s) \<Longrightarrow> n < length (all_arcs M)" by (simp add: arc_ids_def)
qed (use arc_ids_bound in blast)

lemma same_build_paths:
  assumes b: "same_build M M'"
  shows "arc_paths M' k s xs ys = arc_paths M k s xs ys"
proof (induction k arbitrary: s xs ys)
  case 0
  show ?case using same_buildD(2) [OF b] by simp
next
  case (Suc k)
  show ?case
    unfolding arc_paths.simps same_buildD(5) [OF b] Let_def
    by (intro arg_cong [where f = concat] map_cong refl) (simp add: same_buildD(7) [OF b arc_ids_any] Suc.IH split: option.split)
qed

lemma same_build_moves:
  assumes b: "same_build M M'"
  shows "deriv_moves M' = deriv_moves M" "forward_arc M' n s s' \<longleftrightarrow> n < length (all_arcs M) \<and> forward_arc M n s s'"
proof -
  note D = same_buildD [OF b]
  have m: "deriv_match M' s x y = deriv_match M s x y" for s x y
    unfolding deriv_match_def D(5) by (intro filter_cong refl) (simp add: D(7) [OF arc_ids_any])
  have e: "map (\<lambda>n. (n, (a, arc_dest (all_arcs M' ! n), c))) (deriv_match M s x y) = map (\<lambda>n. (n, (a, arc_dest (all_arcs M ! n), c))) (deriv_match M s x y)"
    for a c s x y by (intro map_cong refl) (auto simp: deriv_match_def D(7) [OF arc_ids_any])
  show "deriv_moves M' = deriv_moves M"
  proof (intro ext)
    fix xs ys d
    show "deriv_moves M' xs ys d = deriv_moves M xs ys d" unfolding deriv_moves_def Let_def m by (cases d) (simp only: prod.case e)
  qed
  show "forward_arc M' n s s' \<longleftrightarrow> n < length (all_arcs M) \<and> forward_arc M n s s'"
    using arc_ids_any [of n M s] by (auto simp: forward_arc_def D(1,5) D(7))
qed

lemma same_build_lattice:
  assumes b: "same_build M M'"
  shows "pair_lattice M' e D = pair_lattice M e D"
proof -
  have mv: "deriv_move M' xs ys = deriv_move M xs ys" for xs ys by (intro ext) (simp add: deriv_move_def same_build_moves(1) [OF b])
  have g: "derives_goal M' xs ys = derives_goal M xs ys" for xs ys
    by (intro ext) (simp add: derives_goal_iff_explored mv same_buildD(2) [OF b])
  show ?thesis unfolding pair_lattice_def deriv_lattice_def same_build_moves(1) [OF b] mv g same_buildD(2) [OF b] ..
qed

lemma same_build_matrix:
  assumes b: "same_build M M'" and x: "matrix_ok M x"
  shows "matrix_ok M' x"
proof -
  note D = same_buildD [OF b]
  have E: "{(d, n). n < length (all_arcs M') \<and> forward_arc M' n s d \<and> arc_in (all_arcs M' ! n) = x \<and> arc_out (all_arcs M' ! n) = y} =
      {(d, n). n < length (all_arcs M) \<and> forward_arc M n s d \<and> arc_in (all_arcs M ! n) = x \<and> arc_out (all_arcs M ! n) = y}"
    "{(d, n). n < length (all_arcs M') \<and> backward_arc M' n s d \<and> arc_in (all_arcs M' ! n) = x \<and> arc_out (all_arcs M' ! n) = y} =
      {(d, n). n < length (all_arcs M) \<and> backward_arc M n s d \<and> arc_in (all_arcs M ! n) = x \<and> arc_out (all_arcs M ! n) = y}" for s x y
    using D(6,7) same_build_moves(2) [OF b] by (auto simp: backward_arc_def)
  show ?thesis
    using x D(1,6) same_build_moves(2) [OF b] unfolding matrix_ok_def lookup_ok_def E by (simp add: backward_arc_def)
qed

section \<open>The gain of the corpus\<close>

lemma arc_paths_range: "p \<in> set (arc_paths M k s xs ys) \<Longrightarrow> set p \<subseteq> {..<length (all_arcs M)}"
proof (induction k arbitrary: p s xs ys)
  case (Suc k)
  then show ?case using arc_ids_any [of _ M s] by (auto simp: Let_def split: option.splits) (use Suc.IH in blast)
qed (simp split: if_splits)

definition pair_paths :: "real WFST \<Rightarrow> nat \<Rightarrow> IOSymSeq \<Rightarrow> nat list list" where
  "pair_paths M N e = concat (map (\<lambda>k. arc_paths M k 0 (seq_i e) (seq_o e)) [0..<Suc N])"

lemma pair_sums:
  "pair_prob M N e = (\<Sum>p\<leftarrow>pair_paths M N e. path_product (arc_wt M) p)"
  "pair_uses M N e n = (\<Sum>p\<leftarrow>pair_paths M N e. real (count_list p n) * path_product (arc_wt M) p)"
proof -
  have s: "(\<Sum>k \<le> N. \<Sum>p\<leftarrow>arc_paths M k 0 (seq_i e) (seq_o e). F p) = (\<Sum>p\<leftarrow>pair_paths M N e. F p)" for F :: "nat list \<Rightarrow> real"
    unfolding pair_paths_def by (simp add: sum_list_concat_map sum_list_upt lessThan_Suc_atMost comp_def del: upt_Suc sum.lessThan_Suc)
  have "path_wt M = path_product (arc_wt M)" by (rule ext) (simp add: path_wt_def path_product_def)
  then show "pair_prob M N e = (\<Sum>p\<leftarrow>pair_paths M N e. path_product (arc_wt M) p)"
    "pair_uses M N e n = (\<Sum>p\<leftarrow>pair_paths M N e. real (count_list p n) * path_product (arc_wt M) p)"
    unfolding pair_prob_def pair_uses_def s by simp_all
qed

definition weights_nonneg :: "real WFST \<Rightarrow> bool" where
  "weights_nonneg M \<longleftrightarrow> (\<forall>n < length (all_arcs M). 0 \<le> arc_wt M n)"

lemma pair_paths_range: "p \<in> set (pair_paths M N e) \<Longrightarrow> set p \<subseteq> {..<length (all_arcs M)}"
  unfolding pair_paths_def using arc_paths_range by fastforce

lemma used_arc_counts:
  assumes nn: "weights_nonneg M" and es: "\<forall>e \<in> set es. 0 < pair_prob M N e \<and> 0 < seq_weight e"
  shows "0 \<le> expected_uses M N es n"
    "e \<in> set es \<Longrightarrow> p \<in> set (pair_paths M N e) \<Longrightarrow> 0 < path_product (arc_wt M) p \<Longrightarrow> n \<in> set p \<Longrightarrow> 0 < expected_uses M N es n"
    "0 < expected_uses M N es n \<Longrightarrow> 0 < arc_wt M n"
proof -
  have pp: "0 \<le> path_product (arc_wt M) p" if "p \<in> set (pair_paths M N e)" for p e
    by (rule path_product_nonneg) (use nn pair_paths_range [OF that] in \<open>auto simp: weights_nonneg_def\<close>)
  have tm: "0 \<le> seq_weight e * pair_uses M N e n / pair_prob M N e" if "e \<in> set es" for e
  proof -
    have "0 \<le> pair_uses M N e n" unfolding pair_sums by (rule sum_list_nonneg) (auto simp: pp)
    then show ?thesis using es that by (simp add: less_imp_le)
  qed
  then show "0 \<le> expected_uses M N es n" unfolding expected_uses_def by (intro sum_list_nonneg) auto
  show "0 < expected_uses M N es n"
    if "e \<in> set es" "p \<in> set (pair_paths M N e)" "0 < path_product (arc_wt M) p" "n \<in> set p"
  proof -
    have "0 < real (count_list p n) * path_product (arc_wt M) p" using that(3,4) by (metis count_list_0_iff mult_pos_pos neq0_conv of_nat_0_less_iff)
    also have "\<dots> \<le> pair_uses M N e n"
      unfolding pair_sums(2) by (rule member_le_sum_list) (use that(2) pp in auto)
    finally have "0 < seq_weight e * pair_uses M N e n / pair_prob M N e" using es that(1) by simp
    also have "\<dots> \<le> expected_uses M N es n"
      unfolding expected_uses_def by (rule member_le_sum_list) (use that(1) tm in auto)
    finally show ?thesis .
  qed
  show "0 < arc_wt M n" if "0 < expected_uses M N es n"
  proof (rule ccontr)
    assume w: "\<not> 0 < arc_wt M n"
    have "real (count_list p n) * path_product (arc_wt M) p = 0" if p: "p \<in> set (pair_paths M N e)" for p e
    proof (cases "n \<in> set p")
      case True
      have "\<forall>n \<in> set p. 0 \<le> arc_wt M n" using nn pair_paths_range [OF p] by (auto simp: weights_nonneg_def)
      then have "\<not> 0 < path_product (arc_wt M) p" using path_product_pos w True by blast
      then show ?thesis using pp [OF p] by simp
    qed simp
    then have "map (\<lambda>p. real (count_list p n) * path_product (arc_wt M) p) (pair_paths M N e) = map (\<lambda>p. 0) (pair_paths M N e)" for e
      by (intro map_cong refl)
    then have "pair_uses M N e n = 0" for e unfolding pair_sums by (simp only: sum_list_0)
    then show False using that by (simp add: expected_uses_def)
  qed
qed

lemma corpus_gain:
  assumes b: "same_build M M'" and nn: "weights_nonneg M" "weights_nonneg M'"
    and es: "\<forall>e \<in> set es. 0 < pair_prob M N e \<and> 0 < seq_weight e"
    and keep: "\<forall>n < length (all_arcs M). 0 < expected_uses M N es n \<longrightarrow> 0 < arc_wt M' n"
    and gain: "0 \<le> (\<Sum>n < length (all_arcs M). expected_uses M N es n * ln (arc_wt M' n / arc_wt M n))"
  shows "\<forall>e \<in> set es. 0 < pair_prob M' N e" "weighted_product M N es \<le> weighted_product M' N es"
proof -
  let ?L = "length (all_arcs M)" and ?l = "\<lambda>n. ln (arc_wt M' n / arc_wt M n)"
  have paths: "pair_paths M' N e = pair_paths M N e" for e unfolding pair_paths_def same_build_paths [OF b] ..
  have one: "0 < pair_prob M' N e \<and> (\<Sum>n < ?L. pair_uses M N e n * ?l n) \<le> pair_prob M N e * ln (pair_prob M' N e / pair_prob M N e)"
    if e: "e \<in> set es" for e
  proof -
    have k: "\<forall>p \<in> set (pair_paths M N e). 0 < path_product (arc_wt M) p \<longrightarrow> (\<forall>n \<in> set p. 0 < arc_wt M' n)"
      using used_arc_counts(2) [OF nn(1) es e] keep pair_paths_range [of _ M N e] by blast
    have w: "\<forall>n < ?L. 0 \<le> arc_wt M n \<and> 0 \<le> arc_wt M' n" using nn same_buildD(6) [OF b] by (auto simp: weights_nonneg_def)
    have r: "\<forall>p \<in> set (pair_paths M N e). set p \<subseteq> {..<?L}" using pair_paths_range by blast
    have P: "0 < (\<Sum>p\<leftarrow>pair_paths M N e. path_product (arc_wt M) p)" using es e by (simp add: pair_sums)
    show ?thesis using paths_gain [OF r w P k] by (simp add: pair_sums paths)
  qed
  then show pos: "\<forall>e \<in> set es. 0 < pair_prob M' N e" by blast
  have "(\<Sum>n < ?L. expected_uses M N es n * ?l n) = (\<Sum>e\<leftarrow>es. seq_weight e / pair_prob M N e * (\<Sum>n < ?L. pair_uses M N e n * ?l n))"
  proof -
    have "(\<Sum>n < ?L. expected_uses M N es n * ?l n) = (\<Sum>n < ?L. \<Sum>e\<leftarrow>es. seq_weight e * pair_uses M N e n / pair_prob M N e * ?l n)"
      unfolding expected_uses_def sum_list_mult_const ..
    also have "\<dots> = (\<Sum>e\<leftarrow>es. \<Sum>n < ?L. seq_weight e * pair_uses M N e n / pair_prob M N e * ?l n)" by (rule sum_list_sum_swap)
    also have "\<dots> = (\<Sum>e\<leftarrow>es. seq_weight e / pair_prob M N e * (\<Sum>n < ?L. pair_uses M N e n * ?l n))"
      by (rule arg_cong [where f = sum_list], rule map_cong [OF refl]) (simp add: sum_distrib_left mult.assoc)
    finally show ?thesis .
  qed
  also have "\<dots> \<le> (\<Sum>e\<leftarrow>es. seq_weight e * ln (pair_prob M' N e / pair_prob M N e))"
  proof (rule sum_list_mono)
    fix e assume e: "e \<in> set es"
    have p: "0 < pair_prob M N e" "0 < seq_weight e" using es e by auto
    have "seq_weight e / pair_prob M N e * (\<Sum>n < ?L. pair_uses M N e n * ?l n) \<le>
        seq_weight e / pair_prob M N e * (pair_prob M N e * ln (pair_prob M' N e / pair_prob M N e))"
      by (rule mult_left_mono) (use one [OF e] p in auto)
    then show "seq_weight e / pair_prob M N e * (\<Sum>n < ?L. pair_uses M N e n * ?l n) \<le> seq_weight e * ln (pair_prob M' N e / pair_prob M N e)"
      using p by simp
  qed
  finally have sum: "0 \<le> (\<Sum>e\<leftarrow>es. seq_weight e * ln (pair_prob M' N e / pair_prob M N e))" using gain by simp
  have "weighted_product M' N es = weighted_product M N es * exp (\<Sum>e\<leftarrow>es. seq_weight e * ln (pair_prob M' N e / pair_prob M N e))"
    using es pos
  proof (induction es)
    case (Cons e es)
    have "0 < pair_prob M N e" "0 < pair_prob M' N e" using Cons.prems by simp_all
    then have "pair_prob M' N e powr seq_weight e = pair_prob M N e powr seq_weight e * exp (seq_weight e * ln (pair_prob M' N e / pair_prob M N e))"
      by (simp add: powr_def exp_add [symmetric] ln_div right_diff_distrib)
    then show ?case using Cons by (simp add: product_simps exp_add)
  qed (simp add: product_simps)
  moreover have "0 \<le> weighted_product M N es" by (induction es) (simp_all add: product_simps)
  ultimately show "weighted_product M N es \<le> weighted_product M' N es" using sum by (simp add: mult_le_cancel_left1)
qed

end
