(* ===== verification/EM.thy ===== *)
theory EM
  imports EmGain
begin

text \<open>
  One iteration of \<open>estimate\<close> and \<open>maximize\<close> for a transducer that is not a composition, without priors, tied arcs or
  overrelaxation: it keeps its preconditions and never lowers the weighted probability of the corpus.
\<close>

section \<open>Arcs by position and by number\<close>

definition arc_num :: "'w WFST \<Rightarrow> nat \<times> nat \<Rightarrow> nat" where
  "arc_num M p = arc_offset M (fst p) + snd p"

lemma arc_num_arc:
  assumes "valid_pos M p"
  shows "arc_num M p < length (all_arcs M)" "all_arcs M ! arc_num M p = arc_at M p"
proof -
  obtain s i where p: "p = (s, i)" by fastforce
  have s: "s < numStates M" "i < length (arcs (states M ! s))" using assms by (auto simp: valid_pos_def p)
  have n: "arc_ids M s ! i = arc_num M p" "i < length (arc_ids M s)"
    using s arc_offset_simps(2) [OF s(1)] by (simp_all add: arc_ids_def arc_num_def p)
  show "arc_num M p < length (all_arcs M)" using arc_ids_bound [OF s(1)] n nth_mem by metis
  show "all_arcs M ! arc_num M p = arc_at M p"
    using arg_cong [OF arc_ids_arcs [OF s(1)], of "\<lambda>xs. xs ! i"] n by (simp add: arc_at_def p)
qed

lemma arc_num_bij: "bij_betw (arc_num M) {p. valid_pos M p} {..<length (all_arcs M)}"
proof (rule bij_betwI')
  fix p q assume "p \<in> {p. valid_pos M p}" "q \<in> {p. valid_pos M p}"
  then have v: "valid_pos M p" "valid_pos M q" by simp_all
  have ids: "arc_num M p \<in> set (arc_ids M (fst p))" if "valid_pos M p" for p
    using that arc_offset_simps(2) [of "fst p" M] by (auto simp: valid_pos_def arc_ids_def arc_num_def)
  show "(arc_num M p = arc_num M q) = (p = q)"
  proof
    assume e: "arc_num M p = arc_num M q"
    then have "fst p = fst q" using ids [OF v(1)] ids [OF v(2)] arc_ids_disjoint by metis
    then show "p = q" using e by (simp add: arc_num_def prod_eq_iff)
  qed simp
next
  fix p assume "p \<in> {p. valid_pos M p}"
  then show "arc_num M p \<in> {..<length (all_arcs M)}" using arc_num_arc(1) by simp
next
  fix n assume "n \<in> {..<length (all_arcs M)}"
  then obtain s where s: "s < numStates M" "n \<in> set (arc_ids M s)" using arc_ids_cover by blast
  then have "valid_pos M (s, n - arc_offset M s)" "arc_num M (s, n - arc_offset M s) = n"
    using arc_offset_simps(2) [OF s(1)] by (auto simp: valid_pos_def arc_ids_def arc_num_def)
  then show "\<exists>p \<in> {p. valid_pos M p}. n = arc_num M p" by force
qed

lemma arc_num_sum: "(\<Sum>n < length (all_arcs M). h n) = (\<Sum>p | valid_pos M p. h (arc_num M p))"
  by (rule sum.reindex_bij_betw [OF arc_num_bij, symmetric])

lemma same_build_pos:
  assumes b: "same_build M M'"
  shows "valid_pos M' p = valid_pos M p" "arc_num M' p = arc_num M p"
    "valid_pos M p \<Longrightarrow> norm_key meth M' p = norm_key meth M p" "valid_pos M p \<Longrightarrow> groupId (arc_at M' p) = groupId (arc_at M p)"
    "valid_pos M p \<Longrightarrow> group_of meth M' p = group_of meth M p"
proof -
  show v: "valid_pos M' p = valid_pos M p" for p
    using same_buildD(1) [OF b] same_build_arcs(1) [OF b, of "fst p"] by (auto simp: valid_pos_def)
  show "arc_num M' p = arc_num M p" by (simp add: arc_num_def same_buildD(4) [OF b])
  have m: "mute (arc_at M' p) = mute (arc_at M p)" if "valid_pos M p" for p
    using same_build_arcs(2) [OF b] that by (simp add: valid_pos_def arc_at_def)
  show k: "norm_key meth M' p = norm_key meth M p" "groupId (arc_at M' p) = groupId (arc_at M p)" if "valid_pos M p" for p
    using m [OF that] by (simp_all add: norm_key_def mute_eq)
  show "group_of meth M' p = group_of meth M p" if "valid_pos M p"
    using k v that by (auto simp: group_of_def)
qed

lemma shape_build:
  assumes "shape M' = shape M \<or> shape M' = shape (indexFlush M)"
  shows "same_build M M'" "indexed_by M' = indexed_by M \<or> indexed_by M' = kNone"
proof -
  define M1 where "M1 = (if shape M' = shape M then M else indexFlush M)"
  have s: "shape M' = shape M1" using assms by (auto simp: M1_def)
  have f: "final M1 = final M" "named_states M1 = named_states M" "stateNames M1 = stateNames M" "numStates M1 = numStates M"
    "s < numStates M \<Longrightarrow> state_size (states M1 ! s) = state_size (states M ! s) \<and> arcs (states M1 ! s) = arcs (states M ! s)"
    "indexed_by M1 = indexed_by M \<or> indexed_by M1 = kNone" for s
    by (simp_all add: M1_def indexFlush_def flush_def)
  have r: "final M' = final M1" "named_states M' = named_states M1" "stateNames M' = stateNames M1" "indexed_by M' = indexed_by M1"
    using arg_cong [OF s, of final] arg_cong [OF s, of named_states] arg_cong [OF s, of stateNames] arg_cong [OF s, of indexed_by]
    by (simp_all add: shape_def)
  note sh = shapeD [OF s]
  have "map mute (arcs (states M' ! t)) = map mute (arcs (states M1 ! t))" if t: "t < numStates M'" for t
  proof (rule nth_equalityI)
    show "length (map mute (arcs (states M' ! t))) = length (map mute (arcs (states M1 ! t)))" using sh(4) [OF t] by simp
    fix i assume "i < length (map mute (arcs (states M' ! t)))"
    then have "valid_pos M' (t, i)" using t by (simp add: valid_pos_def)
    from sh(6) [OF this] show "map mute (arcs (states M' ! t)) ! i = map mute (arcs (states M1 ! t)) ! i"
      using \<open>i < _\<close> sh(4) [OF t] by (simp add: arc_at_def mute_def)
  qed
  then show "same_build M M'" using r f sh(1,2) by (simp add: same_build_def list_all2_conv_all_nth)
  show "indexed_by M' = indexed_by M \<or> indexed_by M' = kNone" using r(4) f(6) by simp
qed

lemma rebuilt_build:
  assumes "rebuilt M M'" "map mute (all_arcs M') = map mute (all_arcs M)"
  shows "same_build M M'" "indexed_by M' = indexed_by M"
proof -
  obtain ss where M': "M' = M\<lparr>states := ss\<rparr>"
    and ss: "list_all2 (\<lambda>s s'. \<exists>as. s' = s\<lparr>arcs := as\<rparr> \<and> length as = length (arcs s)) (states M) ss"
    using assms(1) by (auto simp: rebuilt_def)
  have n: "length ss = length (states M)" using list_all2_lengthD [OF ss] by simp
  have st: "state_size (ss ! s) = state_size (states M ! s)" "length (arcs (ss ! s)) = length (arcs (states M ! s))" if "s < numStates M" for s
    using list_all2_nthD [OF ss that] by auto
  have "concat (map (map mute \<circ> arcs) ss) = concat (map (map mute \<circ> arcs) (states M))"
    using assms(2) by (simp add: M' all_arcs_def map_concat comp_def)
  moreover have "length x = length y" if "(x, y) \<in> set (zip (map (map mute \<circ> arcs) ss) (map (map mute \<circ> arcs) (states M)))" for x y
    using that st n by (auto simp: in_set_zip)
  ultimately have "map (map mute \<circ> arcs) ss = map (map mute \<circ> arcs) (states M)"
    using concat_eq_concat_iff [of "map (map mute \<circ> arcs) ss" "map (map mute \<circ> arcs) (states M)"] n by (simp add: case_prod_unfold)
  from arg_cong [OF this, of "\<lambda>xs. xs ! s" for s] have "map mute (arcs (ss ! s)) = map mute (arcs (states M ! s))" if "s < numStates M" for s
    using that n by (metis comp_apply nth_map)
  then show "same_build M M'" using st n by (simp add: M' same_build_def list_all2_conv_all_nth)
  show "indexed_by M' = indexed_by M" by (simp add: M')
qed

section \<open>What an iteration requires\<close>

definition em_ready :: "nat \<Rightarrow> real NormalizeMethod \<Rightarrow> forward_backward \<Rightarrow> bool" where
  "em_ready N m fb \<longleftrightarrow> estimable N fb \<and> trivial (fb_cascade fb) \<and>
     norm_group m \<noteq> NONE \<and> norm_scale m = (\<lambda>x. x) \<and> add_count m = 0 \<and> indexed_by (fb_x fb) \<noteq> kInput \<and>
     weights_nonneg (fb_x fb) \<and> (\<forall>a \<in> set (all_arcs (fb_x fb)). \<not> isTied (groupId a)) \<and>
     (\<forall>n < length (all_arcs (fb_x fb)). ac_prior_counts (fb_arcs fb ! n) = 0) \<and>
     (\<forall>e \<in> set (examples (fb_corpus fb)). 0 < seq_weight e) \<and>
     (\<forall>p. valid_pos (fb_x fb) p \<longrightarrow> (\<Sum>q \<in> group_of (norm_group m) (fb_x fb) p. wt (fb_x fb) q) \<le> 1)"

text \<open>The weights that \<open>maximize\<close> computes.\<close>

definition em_weight_of :: "nat \<Rightarrow> norm_group_by \<Rightarrow> real WFST \<Rightarrow> IOSymSeq list \<Rightarrow> nat \<times> nat \<Rightarrow> real" where
  "em_weight_of N meth M es =
     reestimated {p. valid_pos M p} (norm_key meth M) (\<lambda>p. isNormal (groupId (arc_at M p))) (wt M)
       (\<lambda>p. expected_uses M N es (arc_num M p))"

lemma fb_visit_spec:
  assumes "length (fb_arcs fb) = length (all_arcs (fb_x fb))"
  shows "fb_arcs (fb_visit f fb) = map (snd \<circ> f) (zip (all_arcs (fb_x fb)) (fb_arcs fb))"
    "all_arcs (fb_x (fb_visit f fb)) = map (fst \<circ> f) (zip (all_arcs (fb_x fb)) (fb_arcs fb))"
    "rebuilt (fb_x fb) (fb_x (fb_visit f fb))"
    "fb_visit f fb = fb\<lparr>fb_x := fb_x (fb_visit f fb), fb_arcs := fb_arcs (fb_visit f fb)\<rparr>"
proof -
  obtain M tab where v: "arcs_visit f (fb_x fb, fb_arcs fb) = (M, tab)" by fastforce
  note sp = arcs_visit_spec [OF assms v]
  have e: "fb_visit f fb = fb\<lparr>fb_x := M, fb_arcs := tab\<rparr>" by (simp add: fb_visit_def v)
  show "fb_arcs (fb_visit f fb) = map (snd \<circ> f) (zip (all_arcs (fb_x fb)) (fb_arcs fb))"
    "all_arcs (fb_x (fb_visit f fb)) = map (fst \<circ> f) (zip (all_arcs (fb_x fb)) (fb_arcs fb))"
    "rebuilt (fb_x fb) (fb_x (fb_visit f fb))"
    "fb_visit f fb = fb\<lparr>fb_x := fb_x (fb_visit f fb), fb_arcs := fb_arcs (fb_visit f fb)\<rparr>"
    using sp by (simp_all add: e)
qed

lemma maximize_trivial:
  assumes "trivial (fb_cascade fb)" "norm_group m \<noteq> NONE" "normalize_with m (fb_x (fb_visit (prep_new_weights 1) fb)) = Some M2"
  defines "fb2 \<equiv> fb_visit (overrelax 1) ((fb_visit (prep_new_weights 1) fb)\<lparr>fb_x := M2\<rparr>)"
  shows "maximize [m] 1 fb = Some (max_change (fb_x fb2, fb_arcs fb2), fb2)"
proof -
  have t: "fb_cascade (fb_visit f g) = fb_cascade g" for f g by (simp add: fb_visit_def case_prod_unfold Let_def)
  show ?thesis
    using assms(1-3) by (simp add: maximize_def use_counts_def members_def put_members_def save_none_def load_none_def t Let_def fb2_def)
qed

lemma same_shape_weights:
  assumes "same_build M M'" "valid_pos M p"
  shows "arc_wt M' (arc_num M p) = wt M' p"
proof -
  have v: "valid_pos M' p" "arc_num M' p = arc_num M p" using same_build_pos [OF assms(1)] assms(2) by simp_all
  show ?thesis using arc_num_arc(2) [OF v(1)] v(2) by (simp add: arc_wt_def)
qed

lemma em_prepared:
  assumes r: "em_ready N m fb" and c: "\<And>n. n < length (all_arcs (fb_x fb)) \<Longrightarrow> ac_counts (fb_arcs fb ! n) = expected_uses (fb_x fb) N es n"
    and es: "es = examples (fb_corpus fb)"
  defines "M \<equiv> fb_x fb" and "M1 \<equiv> fb_x (fb_visit (prep_new_weights 1) fb)"
  shows "same_build M M1" "indexed_by M1 = indexed_by M"
    "valid_pos M p \<Longrightarrow> wt M1 p = (if isNormal (groupId (arc_at M p)) then expected_uses M N es (arc_num M p) else wt M p)"
    "valid_pos M p \<Longrightarrow> 0 \<le> wt M1 p" "normalizable m M1"
proof -
  have est: "estimable N fb" and nn: "weights_nonneg M" and nt: "\<forall>a \<in> set (all_arcs M). \<not> isTied (groupId a)"
    and pr: "\<forall>n < length (all_arcs M). ac_prior_counts (fb_arcs fb ! n) = 0" and sw: "\<forall>e \<in> set es. 0 < seq_weight e"
    and meth: "norm_group m \<noteq> NONE" "norm_scale m = (\<lambda>x. x)" "add_count m = 0" and ix: "indexed_by M \<noteq> kInput"
    using r unfolding em_ready_def M_def es by blast+
  have len: "length (fb_arcs fb) = length (all_arcs M)" and ok: "wfst_ok M" and pos: "\<forall>e \<in> set es. 0 < pair_prob M N e"
    using est unfolding estimable_def M_def es by blast+
  note v = fb_visit_spec [OF len [unfolded M_def], of "prep_new_weights 1", folded M_def, folded M1_def]
  have k: "isNormal (groupId a) \<longleftrightarrow> \<not> isLocked (groupId a)" if "a \<in> set (all_arcs M)" for a
    using nt that group_kinds by blast
  have l1: "length (all_arcs M1) = length (all_arcs M)" using v(2) len by simp
  have w: "arc_weight (all_arcs M1 ! n) = (if isNormal (groupId (all_arcs M ! n)) then expected_uses M N es n else arc_weight (all_arcs M ! n))"
    if n: "n < length (all_arcs M)" for n
    using n len k [OF nth_mem [OF n]] c pr by (simp add: v(2) prep_new_weights_def set_wt_def M_def)
  have "map mute (all_arcs M1) = map mute (all_arcs M)"
    by (rule nth_equalityI) (use len in \<open>auto simp: v(2) prep_new_weights_def set_wt_def mute_def\<close>)
  then show b: "same_build M M1" "indexed_by M1 = indexed_by M" using rebuilt_build [OF v(3)] by blast+
  show wp: "wt M1 p = (if isNormal (groupId (arc_at M p)) then expected_uses M N es (arc_num M p) else wt M p)"
    if p: "valid_pos M p" for p
    using w [OF arc_num_arc(1) [OF p]] same_shape_weights [OF b(1) p] arc_num_arc(2) [OF p] by (simp add: arc_wt_def split: if_splits)
  have c0: "0 \<le> expected_uses M N es n" for n using used_arc_counts(1) [OF nn] pos sw by blast
  show wnn: "0 \<le> wt M1 p" if p: "valid_pos M p" for p
    using wp [OF p] c0 nn arc_num_arc [OF p] by (auto simp: weights_nonneg_def arc_wt_def)
  have ok1: "wfst_ok M1" by (rule same_build_ok(1) [OF b(1) ok])
  have "0 \<le> arc_weight a" if s: "s \<in> set (states M1)" and a: "a \<in> set (arcs s)" for s a
  proof -
    obtain t i where ti: "t < numStates M1" "s = states M1 ! t" "i < length (arcs s)" "a = arcs s ! i"
      using s a by (metis in_set_conv_nth)
    then have "valid_pos M1 (t, i)" "arc_at M1 (t, i) = a" by (simp_all add: valid_pos_def arc_at_def)
    then show ?thesis using wnn [of "(t, i)"] same_build_pos(1) [OF b(1)] by simp
  qed
  then show "normalizable m M1" using ok1 meth ix b(2) unfolding normalizable_def wfst_ok_def by auto
qed

text \<open>The groups of the normalization are those of \<open>reestimated\<close>.\<close>

lemma normalized_reestimated:
  assumes b: "same_build M M1" and nt: "\<forall>a \<in> set (all_arcs M). \<not> isTied (groupId a)" and p: "valid_pos M p"
    and w: "\<And>q. valid_pos M q \<Longrightarrow> wt M1 q = (if isNormal (groupId (arc_at M q)) then c q else wt M q)"
  shows "normalized_weight meth M1 0 p =
    reestimated {p. valid_pos M p} (norm_key meth M) (\<lambda>p. isNormal (groupId (arc_at M p))) (wt M) c p"
proof -
  note bp = same_build_pos [OF b]
  let ?A = "{p. valid_pos M p}" and ?key = "norm_key meth M" and ?nrm = "\<lambda>p. isNormal (groupId (arc_at M p))"
  have nt': "\<not> isTied (groupId (arc_at M q))" if "valid_pos M q" for q
  proof -
    have "arc_at M q \<in> set (all_arcs M)" using nth_mem [OF arc_num_arc(1) [OF that]] arc_num_arc(2) [OF that] by simp
    then show ?thesis using nt by blast
  qed
  have g: "group_of meth M1 p = {q. q \<in> ?A \<and> ?key q = ?key p}" using bp(5) [OF p] by (simp add: group_of_def)
  have R: "reserved_weight meth M1 0 p = group_reserved ?A ?key ?nrm (wt M) (?key p)"
    unfolding reserved_weight_def group_reserved_def g
    by (rule sum.cong) (auto simp: bp(4) w nt')
  have C: "normal_count meth M1 0 p = group_count ?A ?key ?nrm c (?key p)"
    unfolding normal_count_def group_count_def g
    by (rule sum.cong) (auto simp: bp(4) w)
  have k: "isLocked (groupId (arc_at M p)) \<longleftrightarrow> \<not> ?nrm p" using nt' [OF p] group_kinds by blast
  show ?thesis
    unfolding normalized_weight_def reestimated_def R C using w [OF p] nt' [OF p] k by (simp add: bp(4) [OF p])
qed

lemma em_new_weights:
  assumes r: "em_ready N m fb" and b: "same_build (fb_x fb) M3"
    and w: "\<And>p. valid_pos (fb_x fb) p \<Longrightarrow> wt M3 p = em_weight_of N (norm_group m) (fb_x fb) (examples (fb_corpus fb)) p"
  defines "M \<equiv> fb_x fb" and "es \<equiv> examples (fb_corpus fb)"
  shows "weights_nonneg M3" "valid_pos M p \<Longrightarrow> (\<Sum>q \<in> group_of (norm_group m) M3 p. wt M3 q) \<le> 1"
    "\<forall>e \<in> set es. 0 < pair_prob M3 N e" "weighted_product M N es \<le> weighted_product M3 N es"
proof -
  let ?A = "{p. valid_pos M p}" and ?key = "norm_key (norm_group m) M" and ?c = "\<lambda>p. expected_uses M N es (arc_num M p)"
  have nn: "weights_nonneg M" and es: "\<forall>e \<in> set es. 0 < pair_prob M N e \<and> 0 < seq_weight e"
    and one: "\<And>p. valid_pos M p \<Longrightarrow> (\<Sum>q \<in> group_of (norm_group m) M p. wt M q) \<le> 1"
    using r unfolding em_ready_def estimable_def M_def es_def by blast+
  note bp = same_build_pos [OF b [folded M_def]] and u = used_arc_counts [OF nn es]
  have wm: "arc_wt M (arc_num M p) = wt M p" if "valid_pos M p" for p using arc_num_arc(2) [OF that] by (simp add: arc_wt_def)
  have w3: "arc_wt M3 (arc_num M p) = wt M3 p" if "valid_pos M p" for p by (rule same_shape_weights [OF b [folded M_def] that])
  have h: "\<forall>p \<in> ?A. 0 \<le> wt M p \<and> 0 \<le> ?c p \<and> (0 < ?c p \<longrightarrow> 0 < wt M p)"
    using u(1,3) wm nn arc_num_arc(1) by (fastforce simp: weights_nonneg_def)
  have s: "\<forall>p \<in> ?A. (\<Sum>q | q \<in> ?A \<and> ?key q = ?key p. wt M q) \<le> 1" using one by (simp add: group_of_def)
  note rw = reestimated_weights [OF valid_pos_finite h s, where normal = "\<lambda>p. isNormal (groupId (arc_at M p))"]
  have v: "wt M3 p = reestimated ?A ?key (\<lambda>p. isNormal (groupId (arc_at M p))) (wt M) ?c p" if "valid_pos M p" for p
    using w [of p] that by (simp add: em_weight_of_def M_def es_def)
  have onto: "\<exists>p. valid_pos M p \<and> n = arc_num M p" if "n < length (all_arcs M)" for n
  proof -
    have "n \<in> arc_num M ` {p. valid_pos M p}" using that bij_betw_imp_surj_on [OF arc_num_bij [of M]] by simp
    then show ?thesis by blast
  qed
  show n3: "weights_nonneg M3"
    unfolding weights_nonneg_def same_buildD(6) [OF b, folded M_def]
  proof (intro allI impI)
    fix n assume "n < length (all_arcs M)"
    then obtain p where "valid_pos M p" "n = arc_num M p" using onto by blast
    then show "0 \<le> arc_wt M3 n" using rw(1) [of p] by (simp add: w3 v)
  qed
  show "(\<Sum>q \<in> group_of (norm_group m) M3 p. wt M3 q) \<le> 1" if p: "valid_pos M p"
  proof -
    have "(\<Sum>q \<in> group_of (norm_group m) M3 p. wt M3 q) =
        (\<Sum>q | q \<in> ?A \<and> ?key q = ?key p. reestimated ?A ?key (\<lambda>p. isNormal (groupId (arc_at M p))) (wt M) ?c q)"
      unfolding bp(5) [OF p] by (rule sum.cong) (auto simp: group_of_def v)
    then show ?thesis using rw(3) [of p] p by simp
  qed
  have keep: "\<forall>n < length (all_arcs M). 0 < expected_uses M N es n \<longrightarrow> 0 < arc_wt M3 n"
  proof (intro allI impI)
    fix n assume "n < length (all_arcs M)" "0 < expected_uses M N es n"
    moreover then obtain p where "valid_pos M p" "n = arc_num M p" using onto by blast
    ultimately show "0 < arc_wt M3 n" using rw(2) [of p] by (simp add: w3 v)
  qed
  have "0 \<le> (\<Sum>p \<in> ?A. ?c p * ln (reestimated ?A ?key (\<lambda>p. isNormal (groupId (arc_at M p))) (wt M) ?c p / wt M p))"
    by (rule reestimated_gain [OF valid_pos_finite h s])
  also have "\<dots> = (\<Sum>n < length (all_arcs M). expected_uses M N es n * ln (arc_wt M3 n / arc_wt M n))"
    unfolding arc_num_sum by (rule sum.cong) (simp_all add: w3 wm v)
  finally have gain: "0 \<le> \<dots>" .
  note cg = corpus_gain [OF b [folded M_def] nn n3 es keep gain]
  show "\<forall>e \<in> set es. 0 < pair_prob M3 N e" "weighted_product M N es \<le> weighted_product M3 N es" by (rule cg)+
qed

lemma em_maximize:
  assumes r: "em_ready N m fb" and c: "\<And>n. n < length (all_arcs (fb_x fb)) \<Longrightarrow> ac_counts (fb_arcs fb ! n) = expected_uses (fb_x fb) N es n"
    and es: "es = examples (fb_corpus fb)"
  shows "\<exists>ch fb2. maximize [m] 1 fb = Some (ch, fb2) \<and> em_ready N m fb2 \<and> examples (fb_corpus fb2) = es \<and>
    same_build (fb_x fb) (fb_x fb2) \<and> (\<forall>p. valid_pos (fb_x fb) p \<longrightarrow> wt (fb_x fb2) p = em_weight_of N (norm_group m) (fb_x fb) es p) \<and>
    weighted_product (fb_x fb) N es \<le> weighted_product (fb_x fb2) N es \<and> counted_total fb2 = counted_total fb \<and>
    (\<forall>n < length (all_arcs (fb_x fb)). ac_best_weight (fb_arcs fb2 ! n) = ac_best_weight (fb_arcs fb ! n))"
proof -
  let ?M = "fb_x fb" and ?fb1 = "fb_visit (prep_new_weights 1) fb"
  have est: "estimable N fb" and tr: "trivial (fb_cascade fb)" and nt: "\<forall>a \<in> set (all_arcs ?M). \<not> isTied (groupId a)"
    and pr: "\<forall>n < length (all_arcs ?M). ac_prior_counts (fb_arcs fb ! n) = 0" and sw: "\<forall>e \<in> set es. 0 < seq_weight e"
    and meth: "norm_group m \<noteq> NONE" "norm_scale m = (\<lambda>x. x)" "add_count m = 0" and ix: "indexed_by ?M \<noteq> kInput"
    using r unfolding em_ready_def es by blast+
  have len: "length (fb_arcs fb) = length (all_arcs ?M)" using est by (simp add: estimable_def)
  note ep = em_prepared [OF r c es]
  note v1 = fb_visit_spec [OF len, of "prep_new_weights 1"]
  obtain M2 where nm: "normalize_with m (fb_x ?fb1) = Some M2"
    and sh: "shape M2 = shape (if norm_group m = CONDITIONAL then indexFlush (fb_x ?fb1) else fb_x ?fb1)"
    and w2: "\<And>p. valid_pos (fb_x ?fb1) p \<Longrightarrow> wt M2 p = normalized_weight (norm_group m) (fb_x ?fb1) 0 p"
    using normalize_reference [OF ep(5)] meth(3) by auto
  have b2: "same_build (fb_x ?fb1) M2" "indexed_by M2 = indexed_by (fb_x ?fb1) \<or> indexed_by M2 = kNone"
    using shape_build [of M2 "fb_x ?fb1"] sh by (simp_all split: if_splits)
  have bM2: "same_build ?M M2" by (rule same_build_trans [OF ep(1) b2(1)])
  let ?g = "?fb1\<lparr>fb_x := M2\<rparr>"
  define fb2 where "fb2 = fb_visit (overrelax 1) ?g"
  have l1: "length (fb_arcs ?fb1) = length (all_arcs ?M)" using v1(1) len by simp
  have lg: "length (fb_arcs ?g) = length (all_arcs (fb_x ?g))" using l1 same_buildD(6) [OF bM2] by simp
  note v2 = fb_visit_spec [OF lg, of "overrelax 1", folded fb2_def]
  have a3: "all_arcs (fb_x fb2) = all_arcs M2"
    by (rule nth_equalityI) (use lg in \<open>simp_all add: v2(2) overrelax_def Let_def\<close>)
  have b3: "same_build M2 (fb_x fb2)" "indexed_by (fb_x fb2) = indexed_by M2" using rebuilt_build [OF v2(3)] a3 by simp_all
  have b: "same_build ?M (fb_x fb2)" by (rule same_build_trans [OF bM2 b3(1)])
  have mx: "maximize [m] 1 fb = Some (max_change (fb_x fb2, fb_arcs fb2), fb2)"
    using maximize_trivial [OF tr meth(1) nm] by (simp add: fb2_def)
  have rest: "fb_cascade fb2 = fb_cascade fb" "fb_copt fb2 = fb_copt fb" "fb_corpus fb2 = fb_corpus fb" "fb_derivs fb2 = fb_derivs fb"
    "fb_matrix fb2 = fb_matrix fb" "fb_first fb2 = fb_first fb"
    by (simp_all add: fb2_def fb_visit_def case_prod_unfold Let_def)
  have w3: "wt (fb_x fb2) p = em_weight_of N (norm_group m) ?M es p" if p: "valid_pos ?M p" for p
  proof -
    have v: "valid_pos (fb_x ?fb1) p" "valid_pos M2 p" using same_build_pos(1) [OF ep(1)] same_build_pos(1) [OF bM2] p by simp_all
    have "wt (fb_x fb2) p = wt M2 p"
      using same_shape_weights [OF b p] same_shape_weights [OF bM2 p] by (simp add: arc_wt_def a3)
    also have "\<dots> = normalized_weight (norm_group m) (fb_x ?fb1) 0 p" by (rule w2 [OF v(1)])
    also have "\<dots> = em_weight_of N (norm_group m) ?M es p"
      unfolding em_weight_of_def by (rule normalized_reestimated [OF ep(1) nt p ep(3)])
    finally show ?thesis .
  qed
  note nw = em_new_weights [OF r b w3 [unfolded es]]
  have l2: "length (fb_arcs fb2) = length (all_arcs (fb_x fb2))" using v2(1) lg by (simp add: a3)
  have p2: "ac_prior_counts (fb_arcs fb2 ! n) = 0" "ac_best_weight (fb_arcs fb2 ! n) = ac_best_weight (fb_arcs fb ! n)" if n: "n < length (all_arcs ?M)" for n
  proof -
    have "ac_prior_counts (fb_arcs ?fb1 ! n) = 0" "ac_best_weight (fb_arcs ?fb1 ! n) = ac_best_weight (fb_arcs fb ! n)"
      using n len pr by (simp_all add: v1(1) prep_new_weights_def set_wt_def)
    then show "ac_prior_counts (fb_arcs fb2 ! n) = 0" "ac_best_weight (fb_arcs fb2 ! n) = ac_best_weight (fb_arcs fb ! n)"
      using n l1 lg by (simp_all add: v2(1) overrelax_def set_wt_def Let_def)
  qed
  have "\<not> isTied (groupId a)" if a: "a \<in> set (all_arcs (fb_x fb2))" for a
  proof -
    obtain n where "n < length (all_arcs ?M)" "a = all_arcs (fb_x fb2) ! n" using a unfolding in_set_conv_nth same_buildD(6) [OF b] by blast
    then show ?thesis using same_buildD(7) [OF b, of n] nt by simp
  qed
  moreover have "estimable N fb2"
  proof -
    have "wfst_ok ?M" "\<not> (\<exists>s. (eps_step ?M)\<^sup>+\<^sup>+ s s)" using est by (simp_all add: estimable_def)
    then have "wfst_ok (fb_x fb2)" "\<not> (\<exists>s. (eps_step (fb_x fb2))\<^sup>+\<^sup>+ s s)" using same_build_ok [OF b] by simp_all
    moreover have "pair_ok (fb_x fb2) N e = pair_ok ?M N e" for e by (simp add: pair_ok_def same_buildD(1) [OF b])
    moreover have "\<forall>e \<in> set es. pair_ok ?M N e" "es \<noteq> []" using est by (simp_all add: estimable_def es)
    moreover have "if opts_use_matrix (fb_copt fb) then matrix_ok (fb_x fb2) (fb_matrix fb)
        else \<forall>ds. fb_derivs fb = Some ds \<longrightarrow> list_all2 (pair_lattice (fb_x fb2)) es ds"
    proof -
      have "pair_lattice (fb_x fb2) = pair_lattice ?M" by (rule ext, rule ext) (rule same_build_lattice [OF b])
      then show ?thesis using est same_build_matrix [OF b] unfolding estimable_def es by (simp split: if_splits)
    qed
    ultimately show ?thesis using l2 nw(3) unfolding estimable_def rest es by blast
  qed
  ultimately have "em_ready N m fb2"
  proof -
    assume a: "\<And>a. a \<in> set (all_arcs (fb_x fb2)) \<Longrightarrow> \<not> isTied (groupId a)" "estimable N fb2"
    have "indexed_by (fb_x fb2) \<noteq> kInput" using b3(2) b2(2) ep(2) ix by auto
    moreover have "\<forall>p. valid_pos (fb_x fb2) p \<longrightarrow> (\<Sum>q \<in> group_of (norm_group m) (fb_x fb2) p. wt (fb_x fb2) q) \<le> 1"
      using nw(2) same_build_pos(1) [OF b] by simp
    moreover have "\<forall>n < length (all_arcs (fb_x fb2)). ac_prior_counts (fb_arcs fb2 ! n) = 0" using p2 same_buildD(6) [OF b] by simp
    ultimately show ?thesis using a meth tr sw nw(1) unfolding em_ready_def rest es by blast
  qed
  moreover have "counted_total fb2 = counted_total fb" by (simp add: counted_total_def rest)
  ultimately show ?thesis using mx rest(3) b w3 nw(4) p2(2) by (auto simp: es)
qed

end
