(* ===== verification/TrainLoop.thy ===== *)
theory TrainLoop
  imports EM LogWeight
begin

text \<open>
  The training loop: \<open>WFST::train\<close> of \<open>carmel/src/train.cc\<close>, \<open>random_restart_acceptor\<close> and \<open>train_opts\<close> of
  \<open>carmel/src/fst.h\<close>, \<open>randomize\<close> and \<open>random_restart\<close> of \<open>carmel/src/cascade.h\<close>.  The weights of arcs are reals;
  perplexities, which may be infinite, are the log-domain weights of \<open>LogWeight\<close>.  \<open>rnd\<close> is the sequence of numbers
  that \<open>random_pos_fraction\<close> returns.  \<open>train\<close> is \<open>None\<close> where the code throws or does not return.
\<close>

section \<open>Options\<close>

record random_restart_acceptor =
  best_start :: logweight
  tolerance :: logweight
  final_tolerance :: logweight
  ra_N :: real

definition acceptor_default :: random_restart_acceptor where
  "acceptor_default = \<lparr>best_start = setZero, tolerance = setInfinity, final_tolerance = setInfinity, ra_N = 0\<rparr>"

definition acceptor_new :: "real \<Rightarrow> logweight \<Rightarrow> logweight \<Rightarrow> random_restart_acceptor" where
  "acceptor_new final_at_N tol final_tol =
     (let t = (if isZero tol then setInfinity else tol)
      in \<lparr>best_start = setZero, tolerance = t, final_tolerance = (if isZero final_tol then t else final_tol), ra_N = final_at_N\<rparr>)"

text \<open>\<open>i - 1\<close> is unsigned.\<close>

definition likelihood_ratio :: "random_restart_acceptor \<Rightarrow> nat \<Rightarrow> logweight" where
  "likelihood_ratio r i =
     (if real i \<ge> ra_N r then final_tolerance r
      else if isInfinity (tolerance r) then tolerance r
      else lw_mult (tolerance r)
             (lw_pow (lw_div (final_tolerance r) (tolerance r))
               (fl_div (Num (real ((i + uint_minus1) mod (uint_minus1 + 1)))) (Num (ra_N r - 1)))))"

definition accept :: "logweight \<Rightarrow> nat \<Rightarrow> random_restart_acceptor \<Rightarrow> bool \<times> random_restart_acceptor" where
  "accept this_start restart_i r =
     (let lr = likelihood_ratio r restart_i
      in if restart_i = 0 then (True, r\<lparr>best_start := this_start\<rparr>)
         else (let ppr = relative_perplexity_ratio this_start (best_start r) in (lw_less ppr lr, r)))"

record train_opts =
  opts_derivs :: deriv_cache_opts
  max_iter :: nat
  learning_rate_growth_factor :: real
  ran_restarts :: int
  opts_ra :: random_restart_acceptor

definition train_defaults :: train_opts where
  "train_defaults = \<lparr>opts_derivs = \<lparr>do_prune = True, cache_level = cache_nothing\<rparr>, max_iter = 500,
     learning_rate_growth_factor = 1, ran_restarts = 0, opts_ra = acceptor_default\<rparr>"

definition MAX_LEARNING_RATE_EXP :: real where "MAX_LEARNING_RATE_EXP = 20"

section \<open>Random weights\<close>

definition randomSet :: "(nat \<Rightarrow> real) \<Rightarrow> real WFST \<Rightarrow> nat \<Rightarrow> real WFST \<times> nat" where
  "randomSet rnd M n = changeEachParameter (\<lambda>w n. (rnd n, n + 1)) n M"

definition randomScale :: "(nat \<Rightarrow> real) \<Rightarrow> real WFST \<Rightarrow> nat \<Rightarrow> real WFST \<times> nat" where
  "randomScale rnd M n = changeEachParameter (\<lambda>w n. (w * rnd n, n + 1)) n M"

text \<open>\<open>cascade_parameters::randomize\<close>\<close>

primrec randomize ::
  "(nat \<Rightarrow> real) \<Rightarrow> real NormalizeMethod list \<Rightarrow> real WFST list \<Rightarrow> nat \<Rightarrow> real WFST list \<times> nat" where
  "randomize rnd methods [] n = ([], n)"
| "randomize rnd methods (M # Ms) n =
     (let (M, n) = (if norm_group (hd methods) \<noteq> NONE then randomSet rnd M n else (M, n));
          (Ms, n) = randomize rnd (tl methods) Ms n
      in (M # Ms, n))"

definition random_restart ::
  "(nat \<Rightarrow> real) \<Rightarrow> real NormalizeMethod list \<Rightarrow> forward_backward \<Rightarrow> nat \<Rightarrow> (forward_backward \<times> nat) option" where
  "random_restart rnd methods fb n =
     (let (Ms, n) = randomize rnd methods (members fb) n
      in map_option (\<lambda>Ms. (put_members Ms fb, n)) (normalize_members methods Ms))"

section \<open>The loop\<close>

definition save_best :: "forward_backward \<Rightarrow> forward_backward" where
  "save_best fb = fb_visit (if trivial (fb_cascade fb) then save_best_entry else save_best_counts) fb"

definition load_best :: "forward_backward \<Rightarrow> forward_backward" where
  "load_best fb = fb_visit use_best_weight fb"

definition perplexity :: "real \<Rightarrow> real \<Rightarrow> logweight" where
  "perplexity p n = ppxper (setReal (Num p)) (Num n)"

record train_state =
  ts_fb :: forward_backward
  train_iter :: nat
  lastChange :: real
  lastPerplexity :: logweight
  learning_rate :: real
  last_was_reset :: bool
  bestPerplexity :: logweight
  have_good_weights :: bool
  ts_ra :: random_restart_acceptor
  ts_draws :: nat

datatype step_result = Break train_state | Again train_state

record train_params =
  tp_methods :: "real NormalizeMethod list"
  converge_arc_delta :: real
  converge_perplexity_ratio :: logweight
  tp_max_iter :: nat
  growth_factor :: real

text \<open>\<open>maximize\<close> and the test of the change of the weights at the end of an iteration.\<close>

definition step_maximize :: "train_params \<Rightarrow> logweight \<Rightarrow> train_state \<Rightarrow> step_result option" where
  "step_maximize tp newPerplexity st =
     (case maximize (tp_methods tp) (learning_rate st) (ts_fb st) of
        None \<Rightarrow> None
      | Some (change, fb) \<Rightarrow>
          (let st = st\<lparr>ts_fb := fb, lastChange := change\<rparr>
           in if change \<le> converge_arc_delta tp \<and> have_good_weights st then Some (Break st)
              else Some (Again (st\<lparr>lastPerplexity := newPerplexity\<rparr>))))"

definition step_converge :: "train_params \<Rightarrow> logweight \<Rightarrow> logweight \<Rightarrow> train_state \<Rightarrow> step_result option" where
  "step_converge tp newPerplexity pp_ratio_scaled st =
     (if \<not> last_was_reset st
      then if lw_le (converge_perplexity_ratio tp) pp_ratio_scaled
           then if learning_rate st > 1
                then Some (Again (st\<lparr>learning_rate := 1, ts_fb := fb_visit keep_em_weight (ts_fb st), last_was_reset := True\<rparr>))
                else if have_good_weights st then Some (Break st)
                else step_maximize tp newPerplexity st
           else step_maximize tp newPerplexity
                  (if learning_rate st < MAX_LEARNING_RATE_EXP
                   then st\<lparr>learning_rate := learning_rate st * growth_factor tp\<rparr> else st)
      else step_maximize tp newPerplexity (st\<lparr>last_was_reset := False\<rparr>))"

definition train_step :: "train_params \<Rightarrow> nat \<Rightarrow> train_state \<Rightarrow> step_result option" where
  "train_step tp restart_no st =
     (let first_time = train_iter st = 0; using_cascade = (\<not> trivial (fb_cascade (ts_fb st)));
          cascade_counts = (using_cascade \<and> \<not> first_time);
          fb = (if cascade_counts then fb_visit save_counts (ts_fb st) else ts_fb st);
          st = st\<lparr>train_iter := (train_iter st + 1) mod (uint_minus1 + 1), ts_fb := update_composed fb\<rparr>
      in if tp_max_iter tp \<noteq> uint_minus1 \<and> train_iter st > tp_max_iter tp \<and> have_good_weights st then Some (Break st)
         else case estimate (ts_fb st) of
                None \<Rightarrow> None
              | Some (p, corpus_p, fb) \<Rightarrow>
                  (let newPerplexity = perplexity p (totalEmpiricalWeight (fb_corpus fb));
                       st = (if lw_less newPerplexity (bestPerplexity st) \<and> (\<not> using_cascade \<or> cascade_counts)
                             then st\<lparr>bestPerplexity := newPerplexity, have_good_weights := True, ts_fb := save_best fb\<rparr>
                             else st\<lparr>ts_fb := fb\<rparr>)
                   in if first_time
                      then (let (ok, r) = accept newPerplexity restart_no (ts_ra st); st = st\<lparr>ts_ra := r\<rparr>
                            in if \<not> ok then Some (Break st) else step_converge tp newPerplexity setZero st)
                      else step_converge tp newPerplexity (relative_perplexity_ratio newPerplexity (lastPerplexity st)) st))"

partial_function (option) train_iterations :: "train_params \<Rightarrow> nat \<Rightarrow> train_state \<Rightarrow> train_state option" where
  "train_iterations tp restart_no st =
     (case train_step tp restart_no st of
        None \<Rightarrow> None
      | Some r \<Rightarrow> (case r of Break st \<Rightarrow> Some st | Again st \<Rightarrow> train_iterations tp restart_no st))"

definition start_iterations :: "train_state \<Rightarrow> train_state" where
  "start_iterations st = st\<lparr>train_iter := 0, lastChange := 10, lastPerplexity := setInfinity, learning_rate := 1,
     last_was_reset := False\<rparr>"

text \<open>The loop over the restarts, by the number of restarts left.\<close>

primrec train_restarts :: "(nat \<Rightarrow> real) \<Rightarrow> train_params \<Rightarrow> nat \<Rightarrow> nat \<Rightarrow> train_state \<Rightarrow> train_state option" where
  "train_restarts rnd tp 0 restart_no st = train_iterations tp restart_no (start_iterations st)"
| "train_restarts rnd tp (Suc left) restart_no st =
     (case train_iterations tp restart_no (start_iterations st) of
        None \<Rightarrow> None
      | Some st \<Rightarrow>
          (case random_restart rnd (tp_methods tp) (ts_fb st) (ts_draws st) of
             None \<Rightarrow> None
           | Some (fb, n) \<Rightarrow> train_restarts rnd tp left ((restart_no + 1) mod (uint_minus1 + 1)) (st\<lparr>ts_fb := fb, ts_draws := n\<rparr>)))"

section \<open>Training\<close>

text \<open>\<open>cascade.normalize(methods)\<close>, and \<open>WFST::train\<close> after the transducers have been normalized.\<close>

definition cascade_normalize ::
  "real NormalizeMethod list \<Rightarrow> real cascade_parameters \<Rightarrow> real WFST \<times> real WFST list \<Rightarrow> (real WFST \<times> real WFST list) option" where
  "cascade_normalize methods c t =
     (if trivial c then map_option (\<lambda>Ms. (hd Ms, snd t)) (normalize_members methods [fst t])
      else map_option (\<lambda>Ms. (fst t, Ms)) (normalize_members methods (snd t)))"

definition train_many ::
  "(nat \<Rightarrow> real) \<Rightarrow> real NormalizeMethod list \<Rightarrow> real \<Rightarrow> logweight \<Rightarrow> train_opts \<Rightarrow> forward_backward
    \<Rightarrow> (logweight \<times> forward_backward) option" where
  "train_many rnd methods arc_delta ppx_ratio opts fb =
     (let tp = \<lparr>tp_methods = methods, converge_arc_delta = arc_delta, converge_perplexity_ratio = ppx_ratio,
                tp_max_iter = max_iter opts,
                growth_factor = (if \<not> trivial (fb_cascade fb) then 1 else learning_rate_growth_factor opts)\<rparr>;
          st = \<lparr>ts_fb = fb, train_iter = 0, lastChange = 10, lastPerplexity = setInfinity, learning_rate = 1,
                last_was_reset = False, bestPerplexity = setInfinity, have_good_weights = False, ts_ra = opts_ra opts,
                ts_draws = 0\<rparr>
      in case train_restarts rnd tp (nat (ran_restarts opts mod (int uint_minus1 + 1))) 0 st of
           None \<Rightarrow> None
         | Some st \<Rightarrow> map_option (\<lambda>fb. (bestPerplexity st, fb)) (use_counts_final methods (load_best (ts_fb st))))"

definition train_once :: "real NormalizeMethod list \<Rightarrow> train_opts \<Rightarrow> forward_backward \<Rightarrow> (logweight \<times> forward_backward) option" where
  "train_once methods opts fb =
     (case estimate (update_composed fb) of
        None \<Rightarrow> None
      | Some (p, corpus_p, fb) \<Rightarrow>
          (let ppx = perplexity p (totalEmpiricalWeight (fb_corpus fb))
           in if max_iter opts = 0
              then (let fb = fb_visit (prep_new_weights 1) fb
                    in Some (ppx, if trivial (fb_cascade fb) then fb
                                  else fb\<lparr>fb_cas := distribute_counts (fb_cascade fb) (fb_x fb) (fb_cas fb)\<rparr>))
              else (case maximize methods 1 fb of
                      None \<Rightarrow> None
                    | Some (change, fb) \<Rightarrow> map_option (\<lambda>fb. (ppx, fb)) (use_counts_final methods fb))))"

definition train ::
  "(nat \<Rightarrow> real) \<Rightarrow> real cascade_parameters \<Rightarrow> real WFST \<times> real WFST list \<Rightarrow> training_corpus \<Rightarrow> real NormalizeMethod list
    \<Rightarrow> bool \<Rightarrow> real \<Rightarrow> real \<Rightarrow> logweight \<Rightarrow> train_opts \<Rightarrow> (logweight \<times> forward_backward) option" where
  "train rnd c t corpus methods weight_is_prior_count smoothFloor arc_delta ppx_ratio opts =
     (case cascade_normalize methods c t of
        None \<Rightarrow> None
      | Some (M, cas) \<Rightarrow>
          (let fb = forward_backward_new M c cas weight_is_prior_count smoothFloor (opts_derivs opts) corpus
           in if max_iter opts = uint_minus1
              then map_option (\<lambda>(p, corpus_p, fb). (perplexity p (totalEmpiricalWeight (fb_corpus fb)), fb)) (estimate fb)
              else if max_iter opts = 0 \<or> (max_iter opts = 1 \<and> ran_restarts opts = 0) then train_once methods opts fb
              else train_many rnd methods arc_delta ppx_ratio opts fb))"

text \<open>The overload without a cascade.\<close>

definition train_single ::
  "(nat \<Rightarrow> real) \<Rightarrow> real WFST \<Rightarrow> training_corpus \<Rightarrow> real NormalizeMethod list \<Rightarrow> bool \<Rightarrow> real \<Rightarrow> real \<Rightarrow> logweight \<Rightarrow> train_opts
    \<Rightarrow> (logweight \<times> forward_backward) option" where
  "train_single rnd M corpus methods = train rnd (cascade_new False) (M, []) corpus methods"

section \<open>Perplexity\<close>

lemma perplexity_pos: "0 < p \<Longrightarrow> 0 < n \<Longrightarrow> perplexity p n = LW (Num (- ln p / n))"
  by (simp add: perplexity_def ppxper_def setReal_def lw_root_def)

lemma perplexity_finite: "0 < p \<Longrightarrow> 0 < n \<Longrightarrow> lw_less (perplexity p n) setInfinity"
  by (simp add: perplexity_pos lw_less_def setInfinity_def)

lemma perplexity_less: "0 < p \<Longrightarrow> 0 < q \<Longrightarrow> 0 < n \<Longrightarrow> lw_less (perplexity p n) (perplexity q n) \<longleftrightarrow> q < p"
  by (simp add: perplexity_pos lw_less_def divide_less_cancel)

lemma weighted_product_pos: "\<forall>e \<in> set es. 0 < pair_prob M N e \<Longrightarrow> 0 < weighted_product M N es"
  by (induction es) (simp_all add: weighted_product_def)

section \<open>The transducer and the table of arcs\<close>

lemma rebuilt_same:
  assumes r: "rebuilt M M'" and a: "all_arcs M' = all_arcs M"
  shows "M' = M"
proof -
  obtain ss where M': "M' = M\<lparr>states := ss\<rparr>"
    and ss: "list_all2 (\<lambda>s s'. \<exists>as. s' = s\<lparr>arcs := as\<rparr> \<and> length as = length (arcs s)) (states M) ss"
    using r by (auto simp: rebuilt_def)
  have n: "length ss = length (states M)" using list_all2_lengthD [OF ss] by simp
  have "length x = length y" if "(x, y) \<in> set (zip (map arcs ss) (map arcs (states M)))" for x y
    using that rebuilt_lengths(2) [OF r] n by (auto simp: in_set_zip M')
  then have e: "map arcs ss = map arcs (states M)"
    using concat_eq_concat_iff [of "map arcs ss" "map arcs (states M)"] a n by (simp add: M' all_arcs_def case_prod_unfold)
  have "ss = states M"
  proof (rule nth_equalityI)
    fix i assume i: "i < length ss"
    obtain as where as: "ss ! i = (states M ! i)\<lparr>arcs := as\<rparr>" using list_all2_nthD [OF ss] i n by auto
    have "arcs (ss ! i) = arcs (states M ! i)" using arg_cong [OF e, of "\<lambda>xs. xs ! i"] i n by simp
    then show "ss ! i = states M ! i" using as by simp
  qed (use n in simp)
  then show ?thesis by (simp add: M')
qed

lemma fb_visit_table:
  assumes len: "length (fb_arcs fb) = length (all_arcs (fb_x fb))" and f: "\<And>a c. fst (f (a, c)) = a"
  shows "fb_visit f fb = fb\<lparr>fb_arcs := map (snd \<circ> f) (zip (all_arcs (fb_x fb)) (fb_arcs fb))\<rparr>"
proof -
  note v = fb_visit_spec [OF len, of f]
  have "all_arcs (fb_x (fb_visit f fb)) = all_arcs (fb_x fb)"
    by (rule nth_equalityI) (use len f in \<open>simp_all add: v(2)\<close>)
  with v(3) have "fb_x (fb_visit f fb) = fb_x fb" by (rule rebuilt_same)
  then show ?thesis by (subst v(4)) (simp add: v(1))
qed

lemma weighted_product_arcs:
  assumes b: "same_build M0 A" "same_build M0 B"
    and w: "\<And>n. n < length (all_arcs M0) \<Longrightarrow> arc_wt A n = arc_wt B n"
  shows "weighted_product A N es = weighted_product B N es"
proof -
  have "all_arcs A = all_arcs B"
  proof (rule nth_equalityI)
    show "length (all_arcs A) = length (all_arcs B)" using same_buildD(6) [OF b(1)] same_buildD(6) [OF b(2)] by simp
    fix n assume "n < length (all_arcs A)"
    then have n: "n < length (all_arcs M0)" using same_buildD(6) [OF b(1)] by simp
    show "all_arcs A ! n = all_arcs B ! n"
      by (rule FSTArc.equality) (use same_buildD(7) [OF b(1) n] same_buildD(7) [OF b(2) n] w [OF n] in \<open>simp_all add: arc_wt_def\<close>)
  qed
  then have "path_wt A = path_wt B" by (simp add: path_wt_def [abs_def] arc_wt_def [abs_def])
  then have "pair_prob A N = pair_prob B N"
    by (simp add: pair_prob_def [abs_def] same_build_paths [OF b(1)] same_build_paths [OF b(2)])
  then show ?thesis by (simp add: weighted_product_def)
qed

lemma em_ready_table:
  assumes r: "em_ready N m fb" and l: "length tab = length (fb_arcs fb)"
    and p: "\<And>n. n < length (all_arcs (fb_x fb)) \<Longrightarrow> ac_prior_counts (tab ! n) = ac_prior_counts (fb_arcs fb ! n)"
  shows "em_ready N m (fb\<lparr>fb_arcs := tab\<rparr>)"
proof -
  have "estimable N (fb\<lparr>fb_arcs := tab\<rparr>)" using r l by (simp add: em_ready_def estimable_def)
  then show ?thesis using r p by (simp add: em_ready_def)
qed

section \<open>The loop without restarts\<close>

text \<open>The best weights in the table are those of some transducer whose perplexity is recorded, and it is not worse than the
  first.\<close>

definition holds_best :: "nat \<Rightarrow> real WFST \<Rightarrow> IOSymSeq list \<Rightarrow> real \<Rightarrow> train_state \<Rightarrow> bool" where
  "holds_best N M0 es total_weight st \<longleftrightarrow> (\<exists>Mb. same_build M0 Mb \<and>
     (\<forall>n < length (all_arcs M0). ac_best_weight (fb_arcs (ts_fb st) ! n) = arc_wt Mb n) \<and>
     bestPerplexity st = perplexity (weighted_product Mb N es) total_weight \<and>
     weighted_product M0 N es \<le> weighted_product Mb N es)"

definition loop_ready :: "nat \<Rightarrow> real NormalizeMethod \<Rightarrow> real WFST \<Rightarrow> IOSymSeq list \<Rightarrow> real \<Rightarrow> train_state \<Rightarrow> bool" where
  "loop_ready N m M0 es total_weight st \<longleftrightarrow> em_ready N m (ts_fb st) \<and> same_build M0 (fb_x (ts_fb st)) \<and>
     examples (fb_corpus (ts_fb st)) = es \<and> counted_total (ts_fb st) = total_weight \<and>
     weighted_product M0 N es \<le> weighted_product (fb_x (ts_fb st)) N es"

definition loop_inv :: "nat \<Rightarrow> real NormalizeMethod \<Rightarrow> real WFST \<Rightarrow> IOSymSeq list \<Rightarrow> real \<Rightarrow> train_state \<Rightarrow> bool" where
  "loop_inv N m M0 es total_weight st \<longleftrightarrow> loop_ready N m M0 es total_weight st \<and> learning_rate st = 1 \<and> \<not> last_was_reset st \<and>
     (if train_iter st = 0 then bestPerplexity st = setInfinity else have_good_weights st \<and> holds_best N M0 es total_weight st)"

text \<open>What an iteration finds after \<open>estimate\<close> and \<open>save_best\<close>.\<close>

definition estimated :: "nat \<Rightarrow> real NormalizeMethod \<Rightarrow> real WFST \<Rightarrow> IOSymSeq list \<Rightarrow> real \<Rightarrow> train_state \<Rightarrow> bool" where
  "estimated N m M0 es total_weight st \<longleftrightarrow> loop_ready N m M0 es total_weight st \<and> learning_rate st = 1 \<and> \<not> last_was_reset st \<and>
     have_good_weights st \<and> holds_best N M0 es total_weight st \<and>
     (\<forall>n < length (all_arcs M0). ac_counts (fb_arcs (ts_fb st) ! n) = expected_uses (fb_x (ts_fb st)) N es n)"

lemma step_maximize_result:
  assumes e: "estimated N m M0 es n st" and meth: "tp_methods tp = [m]"
  shows "\<exists>st'. step_maximize tp ppx st = Some (Break st') \<and> loop_ready N m M0 es n st' \<and> holds_best N M0 es n st' \<or>
    step_maximize tp ppx st = Some (Again st') \<and> loop_ready N m M0 es n st' \<and> holds_best N M0 es n st' \<and>
      learning_rate st' = 1 \<and> \<not> last_was_reset st' \<and> have_good_weights st' \<and> train_iter st' = train_iter st"
proof -
  let ?fb = "ts_fb st"
  have r: "em_ready N m ?fb" and b: "same_build M0 (fb_x ?fb)" and es: "es = examples (fb_corpus ?fb)" and n: "counted_total ?fb = n"
    and w: "weighted_product M0 N es \<le> weighted_product (fb_x ?fb) N es" and l: "learning_rate st = 1" "\<not> last_was_reset st"
    and g: "have_good_weights st" and hb: "holds_best N M0 es n st"
    and c: "\<And>k. k < length (all_arcs (fb_x ?fb)) \<Longrightarrow> ac_counts (fb_arcs ?fb ! k) = expected_uses (fb_x ?fb) N es k"
    using e same_buildD(6) [of M0 "fb_x ?fb"] by (auto simp: estimated_def loop_ready_def)
  obtain ch fb2 where mx: "maximize [m] 1 ?fb = Some (ch, fb2)" and f2: "em_ready N m fb2" "examples (fb_corpus fb2) = es"
      "same_build (fb_x ?fb) (fb_x fb2)" "weighted_product (fb_x ?fb) N es \<le> weighted_product (fb_x fb2) N es"
      "counted_total fb2 = counted_total ?fb"
      "\<forall>k < length (all_arcs (fb_x ?fb)). ac_best_weight (fb_arcs fb2 ! k) = ac_best_weight (fb_arcs ?fb ! k)"
    using em_maximize [OF r c es] by auto
  have "holds_best N M0 es n st2 \<and> loop_ready N m M0 es n st2" if "ts_fb st2 = fb2" "bestPerplexity st2 = bestPerplexity st" for st2
    using hb f2 w n same_build_trans [OF b f2(3)] same_buildD(6) [OF b] that unfolding holds_best_def loop_ready_def by auto
  then show ?thesis using g l mx meth by (auto simp: step_maximize_def Let_def)
qed

lemma step_converge_result:
  assumes e: "estimated N m M0 es n st" and tp: "tp_methods tp = [m]" "growth_factor tp = 1"
  shows "\<exists>st'. step_converge tp ppx ratio st = Some (Break st') \<and> loop_ready N m M0 es n st' \<and> holds_best N M0 es n st' \<or>
    step_converge tp ppx ratio st = Some (Again st') \<and> loop_ready N m M0 es n st' \<and> holds_best N M0 es n st' \<and>
      learning_rate st' = 1 \<and> \<not> last_was_reset st' \<and> have_good_weights st' \<and> train_iter st' = train_iter st"
proof -
  have l: "learning_rate st = 1" "\<not> last_was_reset st" "have_good_weights st" "loop_ready N m M0 es n st" "holds_best N M0 es n st"
    using e by (auto simp: estimated_def)
  have s: "(if learning_rate st < MAX_LEARNING_RATE_EXP then st\<lparr>learning_rate := learning_rate st * growth_factor tp\<rparr> else st) = st"
    by (rule train_state.equality) (simp_all add: l(1) tp(2))
  show ?thesis
  proof (cases "lw_le (converge_perplexity_ratio tp) ratio")
    case True
    then show ?thesis using l by (auto simp: step_converge_def)
  next
    case False
    then have "step_converge tp ppx ratio st = step_maximize tp ppx st" using l(2) by (simp add: step_converge_def s)
    then show ?thesis using step_maximize_result [OF e tp(1)] by presburger
  qed
qed

lemma update_composed_trivial: "trivial (fb_cascade fb) \<Longrightarrow> update_composed fb = fb"
  by (simp add: update_composed_def cascade_update_def)

text \<open>\<open>save_best\<close> where the perplexity is the best so far; otherwise the best of before stays.\<close>

definition keep_best :: "logweight \<Rightarrow> forward_backward \<Rightarrow> train_state \<Rightarrow> train_state" where
  "keep_best ppx fb st =
     (if lw_less ppx (bestPerplexity st)
      then st\<lparr>bestPerplexity := ppx, have_good_weights := True, ts_fb := save_best fb\<rparr> else st\<lparr>ts_fb := fb\<rparr>)"

lemma keep_best_estimated:
  assumes inv: "loop_inv N m M0 es n st" and n: "0 < n"
    and r: "em_ready N m fb" and b: "same_build M0 (fb_x fb)" and ex: "examples (fb_corpus fb) = es" and ct: "counted_total fb = n"
    and w: "weighted_product M0 N es \<le> weighted_product (fb_x fb) N es"
    and c: "\<And>k. k < length (all_arcs (fb_x fb)) \<Longrightarrow> ac_counts (fb_arcs fb ! k) = expected_uses (fb_x fb) N es k \<and>
      ac_best_weight (fb_arcs fb ! k) = ac_best_weight (fb_arcs (ts_fb st) ! k)"
    and p0: "0 < weighted_product M0 N es"
    and st1: "bestPerplexity st1 = bestPerplexity st" "have_good_weights st1 = have_good_weights st" "learning_rate st1 = 1"
      "\<not> last_was_reset st1" and i: "train_iter st = 0 \<longrightarrow> bestPerplexity st = setInfinity"
  defines "ppx \<equiv> perplexity (weighted_product (fb_x fb) N es) n"
  shows "estimated N m M0 es n (keep_best ppx fb st1)"
proof -
  let ?A = "all_arcs (fb_x fb)" and ?fb2 = "save_best fb"
  have len: "length (fb_arcs fb) = length ?A" and tr: "trivial (fb_cascade fb)" using r by (simp_all add: em_ready_def estimable_def)
  have wp: "0 < weighted_product (fb_x fb) N es" using p0 w by simp
  have l0: "length (all_arcs M0) = length ?A" using same_buildD(6) [OF b] by simp
  show ?thesis
  proof (cases "lw_less ppx (bestPerplexity st)")
    case True
    define tab where "tab = map (snd \<circ> save_best_entry) (zip ?A (fb_arcs fb))"
    have sb: "?fb2 = fb\<lparr>fb_arcs := tab\<rparr>"
      using fb_visit_table [OF len, of save_best_entry] tr by (simp add: save_best_def save_best_entry_def tab_def)
    have t: "length tab = length (fb_arcs fb)" "ac_prior_counts (tab ! k) = ac_prior_counts (fb_arcs fb ! k)"
        "ac_counts (tab ! k) = ac_counts (fb_arcs fb ! k)" "ac_best_weight (tab ! k) = arc_wt (fb_x fb) k" if "k < length ?A" for k
      using that len by (simp_all add: tab_def save_best_entry_def arc_wt_def)
    have lt: "length tab = length (fb_arcs fb)" using len by (simp add: tab_def)
    have r2: "em_ready N m ?fb2" unfolding sb by (rule em_ready_table [OF r lt t(2)])
    have hb: "holds_best N M0 es n (keep_best ppx fb st1)"
      unfolding holds_best_def by (rule exI [where x = "fb_x fb"]) (use True st1(1) b w t(4) l0 in \<open>simp add: keep_best_def sb ppx_def\<close>)
    have lr: "loop_ready N m M0 es n (keep_best ppx fb st1)"
      using True st1(1) r2 b ex ct w by (auto simp: loop_ready_def keep_best_def sb counted_total_def)
    show ?thesis using True st1 hb lr c t(3) l0 by (simp add: estimated_def keep_best_def sb)
  next
    case False
    have "lw_less ppx setInfinity" unfolding ppx_def by (rule perplexity_finite [OF wp n])
    then have "train_iter st \<noteq> 0" using False i by auto
    then have g: "have_good_weights st" "holds_best N M0 es n st" using inv by (simp_all add: loop_inv_def)
    have "holds_best N M0 es n (keep_best ppx fb st1)"
      using g(2) False st1(1) c l0 unfolding holds_best_def keep_best_def by auto
    moreover have "loop_ready N m M0 es n (keep_best ppx fb st1)"
      using False st1(1) r b ex ct w by (simp add: loop_ready_def keep_best_def)
    ultimately show ?thesis using False st1 g(1) c l0 by (simp add: estimated_def keep_best_def)
  qed
qed

lemma train_step_result:
  assumes inv: "loop_inv N m M0 es n st" and tp: "tp_methods tp = [m]" "growth_factor tp = 1" "tp_max_iter tp = k"
    and k: "0 < k" "k < uint_minus1" "train_iter st \<le> k" and n: "0 < n" and p0: "0 < weighted_product M0 N es"
  shows "\<exists>st'. train_step tp 0 st = Some (Break st') \<and> loop_ready N m M0 es n st' \<and> holds_best N M0 es n st' \<or>
    train_step tp 0 st = Some (Again st') \<and> loop_inv N m M0 es n st' \<and> train_iter st' = Suc (train_iter st) \<and> train_iter st < k"
proof -
  let ?fb = "ts_fb st" and ?j = "train_iter st"
  have r: "em_ready N m ?fb" and b: "same_build M0 (fb_x ?fb)" and es: "examples (fb_corpus ?fb) = es" and ct: "counted_total ?fb = n"
    and w: "weighted_product M0 N es \<le> weighted_product (fb_x ?fb) N es" and l: "learning_rate st = 1" "\<not> last_was_reset st"
    and i: "?j = 0 \<longrightarrow> bestPerplexity st = setInfinity" "?j \<noteq> 0 \<longrightarrow> have_good_weights st \<and> holds_best N M0 es n st"
    using inv by (auto simp: loop_inv_def loop_ready_def split: if_splits)
  have tr: "trivial (fb_cascade ?fb)" and est: "estimable N ?fb" using r by (simp_all add: em_ready_def)
  define st0 where "st0 = st\<lparr>train_iter := Suc ?j, ts_fb := ?fb\<rparr>"
  have j: "(?j + 1) mod (uint_minus1 + 1) = Suc ?j" using k by simp
  show ?thesis
  proof (cases "?j = k")
    case True
    then have "train_step tp 0 st = Some (Break st0)"
      using i(2) k tr tp(3) unfolding train_step_def Let_def j by (simp add: update_composed_trivial st0_def)
    moreover have "loop_ready N m M0 es n st0 \<and> holds_best N M0 es n st0"
      using inv i(2) True k(1) by (simp add: loop_inv_def loop_ready_def holds_best_def st0_def)
    ultimately show ?thesis by blast
  next
    case False
    then have jk: "?j < k" using k(3) by simp
    obtain u fb1 where e: "estimate ?fb = Some (weighted_product (fb_x ?fb) N es, u, fb1)" and f1: "fb_x fb1 = fb_x ?fb"
        "fb_cascade fb1 = fb_cascade ?fb" "examples (fb_corpus fb1) = es" "totalEmpiricalWeight (fb_corpus fb1) = n" "counted_total fb1 = n"
        "estimable N fb1" and c: "\<And>k. k < length (all_arcs (fb_x ?fb)) \<Longrightarrow> ac_counts (fb_arcs fb1 ! k) = expected_uses (fb_x ?fb) N es k \<and>
          ac_prior_counts (fb_arcs fb1 ! k) = ac_prior_counts (fb_arcs ?fb ! k) \<and> ac_best_weight (fb_arcs fb1 ! k) = ac_best_weight (fb_arcs ?fb ! k)"
      using estimate_value [OF est] es ct by auto
    have r1: "em_ready N m fb1" using r f1 c es by (simp add: em_ready_def)
    define ppx where "ppx = perplexity (weighted_product (fb_x ?fb) N es) n"
    define r2 where "r2 = (if ?j = 0 then snd (accept ppx 0 (ts_ra st)) else ts_ra st)"
    define ratio where "ratio = (if ?j = 0 then setZero else relative_perplexity_ratio ppx (lastPerplexity st))"
    define st2 where "st2 = (keep_best ppx fb1 st0)\<lparr>ts_ra := r2\<rparr>"
    have kb: "train_iter (keep_best ppx fb1 st0) = Suc ?j" "ts_ra (keep_best ppx fb1 st0) = ts_ra st"
        "lastPerplexity (keep_best ppx fb1 st0) = lastPerplexity st" by (simp_all add: keep_best_def st0_def)
    have ac: "fst (accept ppx 0 (ts_ra st))" by (simp add: accept_def Let_def)
    have st2: "st2 = keep_best ppx fb1 st0" if "?j \<noteq> 0"
      unfolding st2_def by (rule train_state.equality) (use that kb(2) in \<open>simp_all add: r2_def\<close>)
    have "train_step tp 0 st = step_converge tp ppx ratio st2"
    proof -
      have "train_step tp 0 st = (if ?j = 0 then step_converge tp ppx setZero st2
          else step_converge tp ppx (relative_perplexity_ratio ppx (lastPerplexity (keep_best ppx fb1 st0))) (keep_best ppx fb1 st0))"
        using jk e tr tp(3) k ac unfolding train_step_def Let_def j
        by (simp add: update_composed_trivial st0_def f1(4) ppx_def [symmetric] st2_def r2_def keep_best_def case_prod_unfold)
      then show ?thesis using st2 kb by (simp add: ratio_def)
    qed
    moreover have "estimated N m M0 es n (keep_best ppx fb1 st0)"
      unfolding ppx_def f1(1) [symmetric]
      by (rule keep_best_estimated [OF inv n r1]) (use b f1 c w p0 i(1) l in \<open>simp_all add: st0_def\<close>)
    then have "estimated N m M0 es n st2"
      by (simp add: st2_def estimated_def loop_ready_def holds_best_def)
    from step_converge_result [OF this tp(1,2), of ppx ratio] obtain st' where
      "step_converge tp ppx ratio st2 = Some (Break st') \<and> loop_ready N m M0 es n st' \<and> holds_best N M0 es n st' \<or>
       step_converge tp ppx ratio st2 = Some (Again st') \<and> loop_ready N m M0 es n st' \<and> holds_best N M0 es n st' \<and>
        learning_rate st' = 1 \<and> \<not> last_was_reset st' \<and> have_good_weights st' \<and> train_iter st' = train_iter st2" by blast
    ultimately show ?thesis using jk kb(1) by (intro exI [where x = st']) (auto simp: loop_inv_def st2_def)
  qed
qed

lemma train_iterations_result:
  assumes tp: "tp_methods tp = [m]" "growth_factor tp = 1" "tp_max_iter tp = k"
    and k: "0 < k" "k < uint_minus1" and n: "0 < n" and p0: "0 < weighted_product M0 N es"
  shows "loop_inv N m M0 es n st \<Longrightarrow> train_iter st \<le> k \<Longrightarrow>
    \<exists>st'. train_iterations tp 0 st = Some st' \<and> loop_ready N m M0 es n st' \<and> holds_best N M0 es n st'"
proof (induction "k - train_iter st" arbitrary: st rule: less_induct)
  case less
  from train_step_result [OF less.prems(1) tp k less.prems(2) n p0] obtain st' where
    "train_step tp 0 st = Some (Break st') \<and> loop_ready N m M0 es n st' \<and> holds_best N M0 es n st' \<or>
     train_step tp 0 st = Some (Again st') \<and> loop_inv N m M0 es n st' \<and> train_iter st' = Suc (train_iter st) \<and> train_iter st < k" by blast
  then show ?case
  proof
    assume "train_step tp 0 st = Some (Break st') \<and> loop_ready N m M0 es n st' \<and> holds_best N M0 es n st'"
    then show ?thesis by (subst train_iterations.simps) simp
  next
    assume a: "train_step tp 0 st = Some (Again st') \<and> loop_inv N m M0 es n st' \<and> train_iter st' = Suc (train_iter st) \<and> train_iter st < k"
    then have "k - train_iter st' < k - train_iter st" "train_iter st' \<le> k" by (metis diff_less_mono2 lessI, simp)
    from less.hyps [OF this(1) _ this(2)] a show ?thesis by (subst train_iterations.simps) simp
  qed
qed

section \<open>Properties\<close>

definition trainable :: "nat \<Rightarrow> real NormalizeMethod \<Rightarrow> real WFST \<Rightarrow> training_corpus \<Rightarrow> bool" where
  "trainable N m M corpus \<longleftrightarrow> wfst_ok M \<and> \<not> (\<exists>s. (eps_step M)\<^sup>+\<^sup>+ s s) \<and> examples corpus \<noteq> [] \<and>
     (\<forall>e \<in> set (examples corpus). pair_ok M N e \<and> 0 < pair_prob M N e \<and> 0 < seq_weight e) \<and>
     norm_group m \<noteq> NONE \<and> norm_scale m = (\<lambda>x. x) \<and> add_count m = 0 \<and> indexed_by M \<noteq> kInput \<and>
     weights_nonneg M \<and> (\<forall>a \<in> set (all_arcs M). \<not> isTied (groupId a)) \<and>
     (\<forall>p. valid_pos M p \<longrightarrow> (\<Sum>q \<in> group_of (norm_group m) M p. wt M q) \<le> 1)"

text \<open>The weight that the perplexity is per: with cached derivations, that of the last example only.\<close>

definition ppx_weight :: "deriv_cache_opts \<Rightarrow> training_corpus \<Rightarrow> real" where
  "ppx_weight copt corpus =
     (if opts_cache copt then seq_weight (last (examples corpus))
      else if opts_use_matrix copt then totalEmpiricalWeight corpus else (\<Sum>e\<leftarrow>examples corpus. seq_weight e))"

lemma cache_derivations_total:
  assumes "\<forall>e \<in> set (examples corpus). fst (example_derivations M prune e)" "examples corpus \<noteq> []"
  shows "totalEmpiricalWeight (snd (cache_derivations M prune corpus)) = seq_weight (last (examples corpus))"
proof -
  let ?F = "\<lambda>e (derivs, corpus).
      let corpus = corpus_clear_counts corpus; (ok, D) = example_derivations M prune e
      in if ok then (derivs @ [D], corpus_count1 e corpus) else (derivs, corpus)"
  have "totalEmpiricalWeight (snd (fold ?F es (ds, c))) = seq_weight (last es)"
    if "\<forall>e \<in> set es. fst (example_derivations M prune e)" "es \<noteq> []" for es ds c
    using that(2,1)
  proof (induction es arbitrary: ds c rule: rev_nonempty_induct)
    case (single e)
    then show ?case by (simp add: Let_def case_prod_unfold corpus_count1_def corpus_clear_counts_def)
  next
    case (snoc e es)
    then show ?case by (simp add: Let_def case_prod_unfold corpus_count1_def corpus_clear_counts_def)
  qed
  from this [OF assms] show ?thesis by (simp add: cache_derivations_def)
qed

lemma arcs_table_prior: "a \<in> set (arcs_table M False g) \<Longrightarrow> ac_prior_counts a = g"
proof -
  let ?c = "\<lambda>s. \<lparr>ac_scratch = 0, ac_em_weight = 0, ac_best_weight = 0, ac_counts = 0, ac_prior_counts = g, ac_src = s\<rparr>"
  let ?v = "\<lambda>s a tb. (a, tb @ [?c s])"
  have a: "accum (?v s) as tb = (as, tb @ map (\<lambda>_. ?c s) as)" for s as tb
    by (induction as arbitrary: tb) simp_all
  have "\<forall>a \<in> set (snd (accum (visit_state ?v) ss tb)). ac_prior_counts a = g" if "\<forall>a \<in> set tb. ac_prior_counts a = g" for ss tb
    using that
  proof (induction ss arbitrary: tb)
    case (Cons s ss)
    have "\<forall>a \<in> set (tb @ map (\<lambda>_. ?c (fst s)) (arcs (snd s))). ac_prior_counts a = g" using Cons.prems by auto
    from Cons.IH [OF this] show ?case by (simp add: Let_def case_prod_unfold visit_state_def visit_arcs_accum a)
  qed simp
  from this [of "[]" "enumerate 0 (states M)"] show "a \<in> set (arcs_table M False g) \<Longrightarrow> ac_prior_counts a = g"
    by (simp add: arcs_table_def wfst_visit_arcs_accum)
qed

lemma trainable_ready:
  fixes copt :: deriv_cache_opts and cas :: "real WFST list"
  assumes "trainable N m M corpus" "trivial c" "0 < totalEmpiricalWeight corpus"
  defines "fb \<equiv> forward_backward_new M c cas False 0 copt corpus"
  shows "em_ready N m fb" "counted_total fb = ppx_weight copt corpus" "0 < ppx_weight copt corpus"
    "fb_x fb = M" "fb_cascade fb = c" "examples (fb_corpus fb) = examples corpus"
proof -
  let ?es = "examples corpus"
  have ok: "wfst_ok M" "\<not> (\<exists>s. (eps_step M)\<^sup>+\<^sup>+ s s)" and ne: "?es \<noteq> []" and es: "\<forall>e \<in> set ?es. pair_ok M N e \<and> 0 < pair_prob M N e"
    and sw: "\<forall>e \<in> set ?es. 0 < seq_weight e"
    using assms(1) unfolding trainable_def by blast+
  note fe = forward_backward_new_estimable [OF ok ne es, of c cas False 0 copt, folded fb_def]
  show x: "fb_x fb = M" "fb_cascade fb = c" "examples (fb_corpus fb) = ?es" by (rule fe)+
  have "\<forall>a \<in> set (arcs_table M False 0). ac_prior_counts a = 0" by (simp add: arcs_table_prior)
  then have "\<forall>n < length (all_arcs M). ac_prior_counts (fb_arcs fb ! n) = 0"
    using fe(1) by (auto simp: fe(2,6) estimable_def)
  then show "em_ready N m fb" using fe(1) assms(1,2) x by (simp add: em_ready_def trainable_def)
  have found: "\<forall>e \<in> set ?es. fst (example_derivations M (do_prune copt) e)"
    using es example_derivations_lattice(1) [OF ok(1)] by fastforce
  show "counted_total fb = ppx_weight copt corpus"
    using cache_derivations_total [OF found ne] x(3)
    by (auto simp: counted_total_def ppx_weight_def fb_def forward_backward_new_def Let_def case_prod_unfold opts_cache_def opts_use_matrix_def)
  have "0 < (\<Sum>e\<leftarrow>es. seq_weight e)" if "\<forall>e \<in> set es. 0 < seq_weight e" "es \<noteq> []" for es
    using that(2,1) by (induction es rule: list_nonempty_induct) (auto simp: add_pos_pos)
  from this [OF sw ne] show "0 < ppx_weight copt corpus" using assms(3) sw ne by (simp add: ppx_weight_def)
qed

lemma load_best_result:
  assumes r: "loop_ready N m M0 es n st" and hb: "holds_best N M0 es n st"
  defines "fb \<equiv> load_best (ts_fb st)"
  shows "same_build M0 (fb_x fb)" "bestPerplexity st = perplexity (weighted_product (fb_x fb) N es) n"
    "weighted_product M0 N es \<le> weighted_product (fb_x fb) N es" "trivial (fb_cascade fb)"
proof -
  let ?M = "fb_x (ts_fb st)"
  have er: "em_ready N m (ts_fb st)" and b: "same_build M0 ?M" using r by (auto simp: loop_ready_def)
  then have len: "length (fb_arcs (ts_fb st)) = length (all_arcs ?M)" by (simp add: em_ready_def estimable_def)
  note v = fb_visit_spec [OF len, of use_best_weight, folded load_best_def, folded fb_def]
  show "trivial (fb_cascade fb)"
    using er by (simp add: fb_def load_best_def fb_visit_def case_prod_unfold Let_def em_ready_def)
  have "map mute (all_arcs (fb_x fb)) = map mute (all_arcs ?M)"
    by (rule nth_equalityI) (use len in \<open>simp_all add: v(2) use_best_weight_def set_wt_def mute_def\<close>)
  then show b2: "same_build M0 (fb_x fb)" using same_build_trans [OF b rebuilt_build(1) [OF v(3)]] by simp
  obtain Mb where Mb: "same_build M0 Mb" "\<forall>k < length (all_arcs M0). ac_best_weight (fb_arcs (ts_fb st) ! k) = arc_wt Mb k"
      "bestPerplexity st = perplexity (weighted_product Mb N es) n" "weighted_product M0 N es \<le> weighted_product Mb N es"
    using hb by (auto simp: holds_best_def)
  have "arc_wt (fb_x fb) k = arc_wt Mb k" if "k < length (all_arcs M0)" for k
  proof -
    have "arc_wt (fb_x fb) k = ac_best_weight (fb_arcs (ts_fb st) ! k)"
      using that len same_buildD(6) [OF b] by (simp add: arc_wt_def v(2) use_best_weight_def set_wt_def)
    then show ?thesis using Mb(2) that by simp
  qed
  from weighted_product_arcs [OF b2 Mb(1) this]
  show "bestPerplexity st = perplexity (weighted_product (fb_x fb) N es) n"
    "weighted_product M0 N es \<le> weighted_product (fb_x fb) N es" using Mb(3,4) by simp_all
qed

text \<open>C1: training a transducer on a corpus that it can derive always returns, after at most \<open>max_iter + 1\<close> iterations: it leaves
  the transducer with the weights whose perplexity it reports, and the weighted probability of the corpus is at
  least that of the normalized transducer that it started from.  (Without restarts, overrelaxation, priors and tied arcs.)\<close>

theorem train_returns_best:
  assumes "normalize_with m M = Some M0" "trainable N m M0 corpus" "0 < totalEmpiricalWeight corpus"
    and "2 \<le> max_iter opts" "max_iter opts < uint_minus1" "ran_restarts opts = 0" "learning_rate_growth_factor opts = 1"
  shows "\<exists>fb. train_single rnd M corpus [m] False 0 arc_delta ppx_ratio opts =
      Some (perplexity (weighted_product (fb_x fb) N (examples corpus)) (ppx_weight (opts_derivs opts) corpus), fb) \<and>
    same_build M0 (fb_x fb) \<and> weighted_product M0 N (examples corpus) \<le> weighted_product (fb_x fb) N (examples corpus)"
proof -
  let ?es = "examples corpus" and ?n = "ppx_weight (opts_derivs opts) corpus" and ?c = "cascade_new False :: real cascade_parameters"
  define fb0 where "fb0 = forward_backward_new M0 ?c [] False 0 (opts_derivs opts) corpus"
  have tr: "trivial ?c" by (simp add: cascade_new_def)
  note R = trainable_ready(1,2,4-6) [OF assms(2) tr assms(3), where cas = "[]" and copt = "opts_derivs opts", folded fb0_def]
  note n0 = trainable_ready(3) [OF assms(2) tr assms(3)]
  have p0: "0 < weighted_product M0 N ?es" using assms(2) by (intro weighted_product_pos) (simp add: trainable_def)
  define tp where "tp = \<lparr>tp_methods = [m], converge_arc_delta = arc_delta, converge_perplexity_ratio = ppx_ratio,
    tp_max_iter = max_iter opts, growth_factor = 1\<rparr>"
  define st where "st = start_iterations \<lparr>ts_fb = fb0, train_iter = 0, lastChange = 10, lastPerplexity = setInfinity, learning_rate = 1,
    last_was_reset = False, bestPerplexity = setInfinity, have_good_weights = False, ts_ra = opts_ra opts, ts_draws = 0\<rparr>"
  have "loop_inv N m M0 ?es ?n st"
    using R by (simp add: loop_inv_def loop_ready_def st_def start_iterations_def same_build_refl)
  moreover have "tp_methods tp = [m]" "growth_factor tp = 1" "tp_max_iter tp = max_iter opts" "train_iter st \<le> max_iter opts"
    by (simp_all add: tp_def st_def start_iterations_def)
  ultimately obtain st' where st': "train_iterations tp 0 st = Some st'" "loop_ready N m M0 ?es ?n st'" "holds_best N M0 ?es ?n st'"
    using train_iterations_result [of tp m "max_iter opts" ?n M0 N ?es st] assms(4,5) n0 p0 by auto
  note L = load_best_result [OF st'(2,3)]
  have "train_many rnd [m] arc_delta ppx_ratio opts fb0 = Some (bestPerplexity st', load_best (ts_fb st'))"
    using st'(1) L(4) tr assms(6,7) unfolding train_many_def Let_def R(4)
    by (simp add: tp_def [symmetric] st_def [symmetric] use_counts_final_def)
  then have "train_single rnd M corpus [m] False 0 arc_delta ppx_ratio opts = Some (bestPerplexity st', load_best (ts_fb st'))"
    using assms(1,4,5) tr by (simp add: train_single_def train_def cascade_normalize_def fb0_def [symmetric] Let_def)
  then show ?thesis using L(1-3) by (intro exI [where x = "load_best (ts_fb st')"]) simp
qed

text \<open>C3: an iteration of expectation and maximization keeps what it needs (a transducer with the same arcs, nonnegative weights and
  groups that sum to at most one) and does not lower the weighted probability of the corpus.\<close>

theorem em_iteration_monotone:
  assumes "em_ready N m fb"
  shows "\<exists>p u fb1 change fb2 p' u' fb3. estimate fb = Some (p, u, fb1) \<and> maximize [m] 1 fb1 = Some (change, fb2) \<and>
    same_build (fb_x fb) (fb_x fb2) \<and> em_ready N m fb2 \<and> estimate fb2 = Some (p', u', fb3) \<and> 0 < p \<and> p \<le> p'"
proof -
  let ?es = "examples (fb_corpus fb)"
  have est: "estimable N fb" using assms by (simp add: em_ready_def)
  obtain u fb1 where e: "estimate fb = Some (weighted_product (fb_x fb) N ?es, u, fb1)" and f1: "fb_x fb1 = fb_x fb"
      "fb_cascade fb1 = fb_cascade fb" "examples (fb_corpus fb1) = ?es" "estimable N fb1"
      and c: "\<And>k. k < length (all_arcs (fb_x fb)) \<Longrightarrow> ac_counts (fb_arcs fb1 ! k) = expected_uses (fb_x fb) N ?es k \<and>
        ac_prior_counts (fb_arcs fb1 ! k) = ac_prior_counts (fb_arcs fb ! k)"
    using estimate_value [OF est] by auto
  have r1: "em_ready N m fb1" using assms f1 c by (simp add: em_ready_def)
  have c': "ac_counts (fb_arcs fb1 ! k) = expected_uses (fb_x fb1) N ?es k" if "k < length (all_arcs (fb_x fb1))" for k
    using that c unfolding f1(1) by blast
  obtain ch fb2 where m: "maximize [m] 1 fb1 = Some (ch, fb2)" "em_ready N m fb2" "examples (fb_corpus fb2) = ?es"
      "same_build (fb_x fb) (fb_x fb2)" "weighted_product (fb_x fb) N ?es \<le> weighted_product (fb_x fb2) N ?es"
    using em_maximize [OF r1 c' f1(3) [symmetric]] unfolding f1(1) by blast
  have "estimable N fb2" using m(2) by (simp add: em_ready_def)
  then obtain u' fb3 where "estimate fb2 = Some (weighted_product (fb_x fb2) N ?es, u', fb3)" using estimate_value m(3) by fastforce
  moreover have "0 < weighted_product (fb_x fb) N ?es" using est by (intro weighted_product_pos) (simp add: estimable_def)
  ultimately show ?thesis using e m by blast
qed

definition joint_real :: "real NormalizeMethod" where
  "joint_real = parse_group CHR ''j'' method_default"

lemma two_arcs_positions:
  "valid_pos two_arcs q \<longleftrightarrow> q = (0, 0) \<or> q = (0, 1)" "group_of JOINT two_arcs (0, i) = {(0, 0), (0, 1)}"
  "wt two_arcs (0, 0) = 1/2" "wt two_arcs (0, 1) = 1/2" "wt two_arcs (0, Suc 0) = 1/2"
proof -
  show v: "valid_pos two_arcs q \<longleftrightarrow> q = (0, 0) \<or> q = (0, 1)" for q
    by (cases q) (auto simp: valid_pos_def two_arcs_def addArc_def state_new_def nth_Cons' numeral_eq_Suc less_Suc_eq)
  have "valid_pos two_arcs q \<and> norm_key JOINT two_arcs q = norm_key JOINT two_arcs (0, i) \<longleftrightarrow> q = (0, 0) \<or> q = (0, 1)" for q
    unfolding v by (auto simp: norm_key_def)
  then show "group_of JOINT two_arcs (0, i) = {(0, 0), (0, 1)}" unfolding group_of_def by blast
qed (simp_all add: arc_at_def two_arcs_def addArc_def state_new_def mk_arc_def)

lemma two_arcs_groups: "isNormal (grp two_arcs (0, 0))" "isNormal (grp two_arcs (0, Suc 0))"
  by (simp_all add: arc_at_def two_arcs_def addArc_def state_new_def mk_arc_def isNormal_def)

lemma two_arcs_trainable: "trainable 8 joint_real two_arcs two_arcs_corpus" "totalEmpiricalWeight two_arcs_corpus = 2"
proof -
  have "\<forall>a \<in> set (all_arcs two_arcs). \<not> isTied (groupId a)"
    using two_arcs_groups group_kinds by (simp add: two_arcs_simps(3)) (simp add: mk_arc_def isTied_def isNormal_def)
  moreover have "weights_nonneg two_arcs"
    by (simp add: weights_nonneg_def arc_wt_def two_arcs_simps(3) mk_arc_def less_2_cases_iff numeral_eq_Suc less_Suc_eq)
  moreover have "(\<Sum>q \<in> group_of JOINT two_arcs p. wt two_arcs q) \<le> 1" if "valid_pos two_arcs p" for p
    using that two_arcs_positions(1) [of p] by (auto simp: two_arcs_positions(2-5))
  ultimately show "trainable 8 joint_real two_arcs two_arcs_corpus"
    using two_arcs_ok two_arcs_pair by (simp add: trainable_def two_arcs_simps(6) joint_real_def parse_group_def method_default_def)
      (simp add: two_arcs_def)
  show "totalEmpiricalWeight two_arcs_corpus = 2"
    by (simp add: two_arcs_corpus_def finish_adding_def corpus_add_def corpus_new_def corpus_clear_def
      corpus_clear_counts_def corpus_count1_def Let_def)
qed

theorem em_iteration_monotone_witness:
  "\<exists>p u fb1 change fb2 p' u' fb3. estimate (forward_backward_new two_arcs (cascade_new False) [] False 0
      \<lparr>do_prune = True, cache_level = cache_nothing\<rparr> two_arcs_corpus) = Some (p, u, fb1) \<and>
    maximize [joint_real] 1 fb1 = Some (change, fb2) \<and> estimate fb2 = Some (p', u', fb3) \<and> 0 < p \<and> p \<le> p'"
proof -
  have t: "trivial (cascade_new False)" "0 < totalEmpiricalWeight two_arcs_corpus" by (simp_all add: cascade_new_def two_arcs_trainable(2))
  show ?thesis using em_iteration_monotone [OF trainable_ready(1) [OF two_arcs_trainable(1) t]] by blast
qed

lemma shape_weights:
  fixes A B :: "real WFST"
  assumes s: "shape A = shape B" and w: "\<And>p. valid_pos B p \<Longrightarrow> wt A p = wt B p"
  shows "A = B"
proof -
  note D = shapeD [OF s]
  have "states A = states B"
  proof (rule nth_equalityI)
    fix i assume i: "i < length (states A)"
    have "arcs (states A ! i) = arcs (states B ! i)"
    proof (rule nth_equalityI)
      fix k assume k: "k < length (arcs (states A ! i))"
      then have v: "valid_pos A (i, k)" using i by (simp add: valid_pos_def)
      have "mute (arc_at A (i, k)) = mute (arc_at B (i, k))" using D(6) [OF v] by (simp add: mute_def)
      then have "arc_at A (i, k) = arc_at B (i, k)"
        using w [of "(i, k)"] v D(5) by (intro FSTArc.equality) (simp_all add: mute_eq)
      then show "arcs (states A ! i) ! k = arcs (states B ! i) ! k" by (simp add: arc_at_def)
    qed (use D(4) [OF i] in simp)
    then show "states A ! i = states B ! i" using D(2,3) [OF i] by (intro State.equality) simp_all
  qed (rule D(1))
  moreover have r: "A\<lparr>states := []\<rparr> = B\<lparr>states := []\<rparr>" using arg_cong [OF s, of "\<lambda>M. M\<lparr>states := []\<rparr>"] by (simp add: shape_def)
  note fields = arg_cong [OF r, of owner_alph] arg_cong [OF r, of alph] arg_cong [OF r, of named_states]
    arg_cong [OF r, of stateNames] arg_cong [OF r, of final] arg_cong [OF r, of indexed_by]
  ultimately show ?thesis by (intro WFST.equality) (use fields in simp_all)
qed

lemma two_arcs_normalized: "normalize_with joint_real two_arcs = Some two_arcs"
proof -
  have j: "norm_group joint_real = JOINT" "add_count joint_real = 0" by (simp_all add: joint_real_def parse_group_def method_default_def)
  have "normalizable joint_real two_arcs"
    using two_arcs_trainable(1) two_arcs_ok(1) by (auto simp: normalizable_def trainable_def wfst_ok_def two_arcs_def addArc_def state_new_def mk_arc_def)
  from normalize_reference [OF this] obtain M where M: "normalize_with joint_real two_arcs = Some M" "shape M = shape two_arcs"
      "\<And>p. valid_pos two_arcs p \<Longrightarrow> wt M p = normalized_weight JOINT two_arcs 0 p" by (auto simp: j)
  have normal: "\<forall>q \<in> {(0, 0), (0, 1)}. isNormal (grp two_arcs q)" using two_arcs_groups by simp
  have g: "{q \<in> group_of JOINT two_arcs (0, i). isNormal (grp two_arcs q)} = {(0, 0), (0, 1)}"
      "{q \<in> group_of JOINT two_arcs (0, i). \<not> isNormal (grp two_arcs q)} = {}" for i
    unfolding two_arcs_positions(2) using normal by blast+
  have half: "wt two_arcs q = 1/2" if "q = (0, 0) \<or> q = (0, 1)" for q using that two_arcs_positions(3,4) by auto
  have c: "reserved_weight JOINT two_arcs 0 (0, i) = 0" "normal_count JOINT two_arcs 0 (0, i) = 1" for i
    unfolding reserved_weight_def normal_count_def g by (simp_all add: half)
  have "normalized_weight JOINT two_arcs 0 p = wt two_arcs p" if v: "valid_pos two_arcs p" for p
  proof -
    obtain i where p: "p = (0, i)" "isNormal (grp two_arcs p)" using v normal unfolding two_arcs_positions(1) by blast
    then have "\<not> isTied (grp two_arcs p)" "\<not> isLocked (grp two_arcs p)" using group_kinds by (auto simp: isTied_def)
    moreover have "reserved_weight JOINT two_arcs 0 p = 0" "normal_count JOINT two_arcs 0 p = 1" unfolding p(1) by (rule c)+
    ultimately show ?thesis by (simp add: normalized_weight_def)
  qed
  then have "M = two_arcs" using M(3) by (intro shape_weights [OF M(2)]) metis
  then show ?thesis using M(1) by simp
qed

theorem train_returns_best_witness:
  "\<exists>fb. train_single (\<lambda>_. 1) two_arcs two_arcs_corpus [joint_real] False 0 0 setOne (train_defaults\<lparr>max_iter := 3\<rparr>) =
      Some (perplexity (weighted_product (fb_x fb) 8 (examples two_arcs_corpus)) 2, fb) \<and>
    1/4 \<le> weighted_product (fb_x fb) 8 (examples two_arcs_corpus)"
proof -
  have t: "0 < totalEmpiricalWeight two_arcs_corpus" by (simp add: two_arcs_trainable(2))
  have w: "weighted_product two_arcs 8 (examples two_arcs_corpus) = 1/4"
    by (simp add: weighted_product_def two_arcs_simps(6) two_arcs_pair power2_eq_square)
  have p: "ppx_weight (opts_derivs (train_defaults\<lparr>max_iter := 3\<rparr>)) two_arcs_corpus = 2"
    by (simp add: ppx_weight_def train_defaults_def opts_cache_def opts_use_matrix_def two_arcs_simps(6))
  show ?thesis
    using train_returns_best [OF two_arcs_normalized two_arcs_trainable(1) t, of "train_defaults\<lparr>max_iter := 3\<rparr>" "\<lambda>_. 1" 0 setOne]
    unfolding w p by (auto simp: train_defaults_def uint_minus1_def)
qed

end
