(* ===== verification/Istream.thy ===== *)
theory Istream
  imports LogWeight
begin

text \<open>
  Reading text: \<open>getString\<close> and \<open>writeQuoted\<close> of \<open>carmel/src/wfstio.cc\<close>, \<open>skip_comment\<close> of
  \<open>graehl/shared/genio.h\<close>, and \<open>read\<close> of a weight in \<open>graehl/shared/weight.h\<close>.  An input
  stream is the text that is left, \<open>None\<close> once its failure bit is set; \<open>unget\<close> always follows the character it puts back.
  A text holds no null characters: a symbol is a C string, which one would cut short.
\<close>

section \<open>Streams\<close>

type_synonym istr = "string option"

abbreviation (input) skip_ws :: "string \<Rightarrow> string" where
  "skip_ws \<equiv> dropWhile isspace"

abbreviation newline :: char where "newline \<equiv> CHR 0x0A"

text \<open>\<open>in >> c\<close> for a character.\<close>

definition in_char :: "istr \<Rightarrow> (char \<times> istr) option" where
  "in_char s = Option.bind s (\<lambda>t. case skip_ws t of [] \<Rightarrow> None | c # r \<Rightarrow> Some (c, Some r))"

text \<open>\<open>in >> c; in.unget()\<close>\<close>

definition peek_char :: "istr \<Rightarrow> (char \<times> istr) option" where
  "peek_char s = Option.bind s (\<lambda>t. case skip_ws t of [] \<Rightarrow> None | c # r \<Rightarrow> Some (c, Some (c # r)))"

text \<open>\<open>in >> n\<close> for an unsigned number without a sign; too large a number sets the failure bit.\<close>

definition in_unsigned :: "istr \<Rightarrow> (nat \<times> istr) option" where
  "in_unsigned s = Option.bind s (\<lambda>t.
     let ds = takeWhile digit_char (skip_ws t); r = dropWhile digit_char (skip_ws t)
     in if ds = [] \<or> decimal_value ds > uint_minus1 then None else Some (decimal_value ds, Some r))"

text \<open>\<open>in >> f\<close> for a floating point number: an exponent without digits sets the failure bit.\<close>

definition in_double :: "istr \<Rightarrow> (real \<times> istr) option" where
  "in_double s = Option.bind s (\<lambda>t.
     let (sg, u) = read_sign (skip_ws t); whole = takeWhile digit_char u; r = dropWhile digit_char u;
         frac = (if r \<noteq> [] \<and> hd r = CHR ''.'' then takeWhile digit_char (tl r) else []);
         r = (if r \<noteq> [] \<and> hd r = CHR ''.'' then dropWhile digit_char (tl r) else r);
         (x, r') = read_exponent (decimal_value whole + decimal_value frac / 10 ^ length frac) r
     in if whole = [] \<and> frac = [] \<or> r' = r \<and> r \<noteq> [] \<and> lower (hd r) = CHR ''e'' then None else Some (sg * x, Some r'))"

text \<open>\<open>skip_comment\<close>: a comment that is not ended by a newline leaves an empty stream.\<close>

function skip_comment_text :: "string \<Rightarrow> istr" where
  "skip_comment_text t =
     (case skip_ws t of
        [] \<Rightarrow> None
      | c # r \<Rightarrow>
          if c = CHR ''%''
          then (case dropWhile (\<lambda>c. c \<noteq> newline) r of [] \<Rightarrow> Some [] | n # r' \<Rightarrow> skip_comment_text r')
          else Some (c # r))"
  by pat_completeness auto
termination
proof (relation "measure length")
  fix t c r and n :: char and r'
  assume a: "skip_ws t = c # r" "dropWhile (\<lambda>c. c \<noteq> newline) r = n # r'"
  have "length (skip_ws t) \<le> length t" "length (dropWhile (\<lambda>c. c \<noteq> newline) r) \<le> length r" by (simp_all add: length_dropWhile_le)
  with a show "(r', t) \<in> measure length" by simp
qed simp

declare skip_comment_text.simps [simp del]

definition skip_comment :: "istr \<Rightarrow> istr" where
  "skip_comment s = Option.bind s skip_comment_text"

section \<open>Symbols\<close>

text \<open>\<open>getString\<close> with its buffer of 4096 characters.  \<open>no_string\<close>: it returns a null pointer.  A quoted or starred symbol that does
  not end within the buffer is returned cut short, with one last character that was never written: what that character is, and
  so which symbol is read, is not determined, and the model stops there (\<open>unwritten_char\<close>).\<close>

datatype string_error = no_string | unwritten_char

definition bufend :: nat where "bufend = 4094"

definition map_sum2 :: "('a \<Rightarrow> 'b) \<Rightarrow> 'e + 'a \<Rightarrow> 'e + 'b" where
  "map_sum2 f x = (case x of Inl e \<Rightarrow> Inl e | Inr y \<Rightarrow> Inr (f y))"

primrec quoted_rest :: "string \<Rightarrow> nat \<Rightarrow> bool \<Rightarrow> string_error + (string \<times> istr)" where
  "quoted_rest [] k l = Inl (if bufend \<le> k then unwritten_char else no_string)"
| "quoted_rest (c # r) k l =
     (if bufend \<le> k then Inl unwritten_char
      else if c = CHR 0x22 \<and> \<not> l then Inr ([c], Some r)
      else map_sum2 (apfst ((#) c)) (quoted_rest r (Suc k) (c = CHR 0x5C \<and> \<not> l)))"

primrec starred_rest :: "string \<Rightarrow> nat \<Rightarrow> string_error + (string \<times> istr)" where
  "starred_rest [] k = Inl (if bufend \<le> k then unwritten_char else no_string)"
| "starred_rest (c # r) k =
     (if bufend \<le> k then Inl unwritten_char
      else if c = CHR ''*'' then Inr ([c], Some r)
      else map_sum2 (apfst ((#) (lower c))) (starred_rest r (Suc k)))"

primrec plain_rest :: "string \<Rightarrow> nat \<Rightarrow> string_error + (string \<times> istr)" where
  "plain_rest [] k = Inr ([], None)"
| "plain_rest (c # r) k =
     (if bufend \<le> k then Inl no_string
      else if c = newline \<or> c = CHR 0x09 \<or> c = CHR '' '' then Inr ([], Some r)
      else if c = CHR ''!'' \<or> c = CHR '')'' then Inr ([], Some (c # r))
      else map_sum2 (apfst ((#) c)) (plain_rest r (Suc k)))"

definition strip_cr :: "string \<Rightarrow> string" where
  "strip_cr t = (if t \<noteq> [] \<and> last t = CHR 0x0D then butlast t else t)"

definition getString :: "istr \<Rightarrow> string_error + (string \<times> istr)" where
  "getString s =
     (case in_char s of
        None \<Rightarrow> Inl no_string
      | Some (c, s) \<Rightarrow>
          (let r = the s
           in if c = CHR 0x22 then map_sum2 (apfst ((#) c)) (quoted_rest r 1 False)
              else if c = CHR ''*'' then map_sum2 (apfst ((#) c)) (starred_rest r 1)
              else if c = CHR ''('' \<or> c = CHR '')'' then Inl no_string
              else map_sum2 (apfst (\<lambda>t. strip_cr (c # t))) (plain_rest r 1)))"

definition escape_char :: "char \<Rightarrow> string" where
  "escape_char c = (if c = CHR 0x5C then [c, c] else if c = CHR 0x22 then [CHR 0x5C, c] else [c])"

definition writeQuoted :: "string \<Rightarrow> string" where
  "writeQuoted s = CHR 0x22 # concat (map escape_char s) @ [CHR 0x22]"

section \<open>Weights\<close>

text \<open>\<open>logweight::read\<close>.  After \<open>10^\<close> and a number it does not return: the rest of the function
  overwrites the weight.\<close>

definition read_suffix :: "real \<Rightarrow> string \<Rightarrow> (logweight \<times> istr) option" where
  "read_suffix f r =
     (if r \<noteq> [] \<and> hd r = CHR ''l''
      then (if take 2 r = ''ln'' then Some (setLn (Num f), Some (drop 2 r))
            else if take 3 r = ''log'' then Some (setLog10 (Num f), Some (drop 3 r))
            else None)
      else Some (setReal (Num f), Some r))"

definition more_input :: "istr \<Rightarrow> bool" where
  "more_input s \<longleftrightarrow> s \<noteq> None \<and> s \<noteq> Some []"

definition lw_read :: "istr \<Rightarrow> (logweight \<times> istr) option" where
  "lw_read s =
     (case peek_char s of
        None \<Rightarrow> None
      | Some (c, s) \<Rightarrow>
          if c = CHR ''e''
          then (if take 2 (the s) = ''e^''
                then (case in_double (Some (drop 2 (the s))) of
                        None \<Rightarrow> None
                      | Some (f, s) \<Rightarrow> if more_input s then Some (setLn (Num f), s) else None)
                else None)
          else (case in_double s of
                  None \<Rightarrow> None
                | Some (f, s) \<Rightarrow>
                    if f = 10
                    then (case peek_char s of
                            None \<Rightarrow> None
                          | Some (c, s) \<Rightarrow>
                              if c = CHR ''^''
                              then (case in_double (Some (tl (the s))) of
                                      None \<Rightarrow> None
                                    | Some (f, s) \<Rightarrow> if more_input s then read_suffix f (the s) else None)
                              else Some (setReal (Num f), s))
                    else read_suffix f (the s)))"

section \<open>What is consumed\<close>

definition istr_len :: "istr \<Rightarrow> nat" where
  "istr_len s = (case s of None \<Rightarrow> 0 | Some t \<Rightarrow> length t)"

lemma istr_len_simps [simp]: "istr_len None = 0" "istr_len (Some t) = length t"
  by (simp_all add: istr_len_def)

lemma map_sum2_simps [simp]:
  "map_sum2 f (Inl e) = Inl e" "map_sum2 f (Inr y) = Inr (f y)"
  "map_sum2 f x = Inr z \<longleftrightarrow> (\<exists>y. x = Inr y \<and> z = f y)"
  by (auto simp: map_sum2_def split: sum.splits)

lemma skip_ws_length: "length (skip_ws t) \<le> length t"
  by (rule length_dropWhile_le)

lemma in_char_less: "in_char s = Some (c, s') \<Longrightarrow> istr_len s' < istr_len s"
proof (cases s)
  case (Some t)
  then show "in_char s = Some (c, s') \<Longrightarrow> istr_len s' < istr_len s"
    using skip_ws_length [of t] by (auto simp: in_char_def split: list.splits)
qed (simp add: in_char_def)

lemma peek_char_le: "peek_char s = Some (c, s') \<Longrightarrow> istr_len s' \<le> istr_len s \<and> (\<exists>r. s' = Some (c # r))"
  by (cases s) (auto simp: peek_char_def split: list.splits dest!: arg_cong [where f = length] intro: order.trans [OF _ skip_ws_length])

lemma quoted_rest_le: "quoted_rest t k l = Inr (u, s) \<Longrightarrow> istr_len s \<le> length t"
  by (induction t arbitrary: k l u) (fastforce split: if_splits)+

lemma starred_rest_le: "starred_rest t k = Inr (u, s) \<Longrightarrow> istr_len s \<le> length t"
  by (induction t arbitrary: k u) (fastforce split: if_splits)+

lemma plain_rest_le: "plain_rest t k = Inr (u, s) \<Longrightarrow> istr_len s \<le> length t"
  by (induction t arbitrary: k u) (fastforce split: if_splits)+

lemma getString_less: "getString s = Inr (t, s') \<Longrightarrow> istr_len s' < istr_len s"
proof -
  assume g: "getString s = Inr (t, s')"
  then obtain c s1 where c: "in_char s = Some (c, s1)" by (auto simp: getString_def split: option.splits)
  then have "istr_len s' \<le> length (the s1)"
    using g by (auto simp: getString_def Let_def split: if_splits dest: quoted_rest_le starred_rest_le plain_rest_le)
  moreover have "istr_len s1 = length (the s1)" using c by (cases s) (auto simp: in_char_def split: list.splits)
  ultimately show ?thesis using in_char_less [OF c] by simp
qed

lemma read_exponent_le: "length (snd (read_exponent x r)) \<le> length r"
proof -
  have "length (dropWhile digit_char (snd (read_sign (tl r)))) \<le> length r"
  proof -
    have "length (snd (read_sign u)) \<le> length u" for u by (cases u rule: read_sign.cases) simp_all
    from this [of "tl r"] show ?thesis using length_dropWhile_le [of digit_char "snd (read_sign (tl r))"] by simp
  qed
  then show ?thesis by (auto simp: read_exponent_def Let_def case_prod_unfold)
qed

lemma in_double_le: "in_double s = Some (f, s') \<Longrightarrow> istr_len s' \<le> istr_len s \<and> s' \<noteq> None"
proof (cases s)
  case (Some t)
  assume d: "in_double s = Some (f, s')"
  define u where "u = snd (read_sign (skip_ws t))"
  define r where "r = dropWhile digit_char u"
  define r2 where "r2 = (if r \<noteq> [] \<and> hd r = CHR ''.'' then dropWhile digit_char (tl r) else r)"
  have "length u \<le> length t"
  proof -
    have "length (snd (read_sign v)) \<le> length v" for v by (cases v rule: read_sign.cases) simp_all
    then show ?thesis using skip_ws_length [of t] order.trans by (auto simp: u_def)
  qed
  moreover have "length r \<le> length u" by (simp add: r_def length_dropWhile_le)
  moreover have "length r2 \<le> length r" using length_dropWhile_le [of digit_char "tl r"] by (auto simp: r2_def)
  moreover obtain x where "s' = Some (snd (read_exponent x r2))"
    using d by (auto simp: Some in_double_def Let_def case_prod_unfold u_def r_def r2_def split: if_splits)
  moreover have "length (snd (read_exponent x r2)) \<le> length r2" by (rule read_exponent_le)
  ultimately show ?thesis by (simp add: Some)
qed (simp add: in_double_def)

lemma in_unsigned_le: "in_unsigned s = Some (n, s') \<Longrightarrow> istr_len s' \<le> istr_len s"
proof (cases s)
  case (Some t)
  have "length (dropWhile digit_char (skip_ws t)) \<le> length t" by (meson length_dropWhile_le order.trans)
  then show "in_unsigned s = Some (n, s') \<Longrightarrow> istr_len s' \<le> istr_len s"
    by (auto simp: Some in_unsigned_def Let_def split: if_splits)
qed (simp add: in_unsigned_def)

lemma read_suffix_le: "read_suffix f r = Some (w, s') \<Longrightarrow> istr_len s' \<le> length r"
  by (auto simp: read_suffix_def split: if_splits)

lemma lw_read_le: "lw_read s = Some (w, s') \<Longrightarrow> istr_len s' \<le> istr_len s"
proof -
  assume r: "lw_read s = Some (w, s')"
  then obtain c s1 where p: "peek_char s = Some (c, s1)" by (auto simp: lw_read_def split: option.splits)
  note p' = peek_char_le [OF p]
  have "istr_len s' \<le> istr_len s1"
  proof (cases "c = CHR ''e''")
    case True
    then obtain f where "in_double (Some (drop 2 (the s1))) = Some (f, s')"
      using r p by (auto simp: lw_read_def split: option.splits if_splits)
    then show ?thesis using in_double_le p' by fastforce
  next
    case False
    then obtain f s2 where d: "in_double s1 = Some (f, s2)" using r p by (auto simp: lw_read_def split: option.splits)
    note d' = in_double_le [OF d]
    show ?thesis
    proof (cases "f = 10")
      case True
      then obtain c2 s3 where p3: "peek_char s2 = Some (c2, s3)"
        using r p d \<open>c \<noteq> _\<close> by (auto simp: lw_read_def split: option.splits)
      note q = peek_char_le [OF p3]
      show ?thesis
      proof (cases "c2 = CHR ''^''")
        case c2: True
        then obtain f2 s4 where d4: "in_double (Some (tl (the s3))) = Some (f2, s4)" "read_suffix f2 (the s4) = Some (w, s')"
          using r p d \<open>c \<noteq> _\<close> True p3 by (auto simp: lw_read_def split: option.splits if_splits)
        have "istr_len s' \<le> istr_len s4" using read_suffix_le [OF d4(2)] in_double_le [OF d4(1)] by auto
        then show ?thesis using in_double_le [OF d4(1)] q d' by auto
      next
        case False
        then show ?thesis using r p d \<open>c \<noteq> _\<close> True p3 q d' by (auto simp: lw_read_def)
      qed
    next
      case False
      then have "read_suffix f (the s2) = Some (w, s')" using r p d \<open>c \<noteq> _\<close> by (auto simp: lw_read_def)
      from read_suffix_le [OF this] show ?thesis using d' by auto
    qed
  qed
  then show ?thesis using p' by simp
qed

section \<open>Quoted symbols\<close>

lemma quoted_rest_written:
  "length (concat (map escape_char s)) + k < bufend \<Longrightarrow>
    quoted_rest (concat (map escape_char s) @ CHR 0x22 # r) k False =
      Inr (concat (map escape_char s) @ [CHR 0x22], Some r)"
proof (induction s arbitrary: k)
  case (Cons a s)
  consider "a = CHR 0x5C" | "a = CHR 0x22" | "a \<noteq> CHR 0x5C" "a \<noteq> CHR 0x22" by blast
  then show ?case
    using Cons.prems Cons.IH [of "Suc (Suc k)"] Cons.IH [of "Suc k"] by cases (simp_all add: escape_char_def)
qed simp

lemma getString_writeQuoted:
  assumes "length (writeQuoted s) \<le> bufend"
  shows "getString (Some (writeQuoted s @ r)) = Inr (writeQuoted s, Some r)"
proof -
  have "\<not> isspace CHR 0x22" by (simp add: isspace_def)
  moreover have "length (concat (map escape_char s)) + 1 < bufend"
    using assms by (simp add: writeQuoted_def)
  ultimately show ?thesis
    using quoted_rest_written [of s 1 r] by (simp add: getString_def in_char_def writeQuoted_def)
qed

section \<open>Symbols that are read back\<close>

definition plain_text :: "string \<Rightarrow> bool" where
  "plain_text t \<longleftrightarrow> t \<noteq> [] \<and> length t < bufend \<and> \<not> isspace (hd t) \<and> hd t \<notin> {CHR 0x22, CHR ''*'', CHR ''('', CHR '')'', CHR ''!''} \<and>
     (\<forall>c \<in> set (tl t). c \<notin> {newline, CHR 0x09, CHR '' '', CHR ''!'', CHR '')''}) \<and> last t \<noteq> CHR 0x0D"

definition symbol_text :: "string \<Rightarrow> bool" where
  "symbol_text t \<longleftrightarrow> plain_text t \<or>
     t \<noteq> [] \<and> (hd t = CHR 0x22 \<and> quoted_rest (tl t) 1 False = Inr (tl t, Some []) \<or>
              hd t = CHR ''*'' \<and> starred_rest (tl t) 1 = Inr (tl t, Some []))"

definition ends_symbol :: "char \<Rightarrow> bool" where
  "ends_symbol c \<longleftrightarrow> c = newline \<or> c = CHR '' '' \<or> c = CHR ''!'' \<or> c = CHR '')''"

lemma quoted_rest_append: "quoted_rest u k l = Inr (v, Some []) \<Longrightarrow> quoted_rest (u @ r) k l = Inr (v, Some r)"
  by (induction u arbitrary: k l v) (fastforce split: if_splits)+

lemma starred_rest_append: "starred_rest u k = Inr (v, Some []) \<Longrightarrow> starred_rest (u @ r) k = Inr (v, Some r)"
  by (induction u arbitrary: k v) (fastforce split: if_splits)+

lemma plain_rest_append:
  assumes "\<forall>c \<in> set u. c \<notin> {newline, CHR 0x09, CHR '' '', CHR ''!'', CHR '')''}" "length u + k < bufend" "ends_symbol c"
  shows "\<exists>s. plain_rest (u @ c # r) k = Inr (u, Some s) \<and> skip_ws s = skip_ws (c # r)"
  using assms
proof (induction u arbitrary: k)
  case Nil
  then show ?case by (auto simp: ends_symbol_def isspace_def)
next
  case (Cons a u)
  from Cons.IH [of "Suc k"] Cons.prems show ?case by auto
qed

lemma skip_ws_append: "list_all isspace w \<Longrightarrow> skip_ws (w @ s) = skip_ws s"
  by (induction w) simp_all

lemma in_char_same: "skip_ws s = skip_ws t \<Longrightarrow> in_char (Some s) = in_char (Some t)"
  by (simp add: in_char_def)

lemma peek_char_same: "skip_ws s = skip_ws t \<Longrightarrow> peek_char (Some s) = peek_char (Some t)"
  by (simp add: peek_char_def)

lemma getString_same: "skip_ws s = skip_ws t \<Longrightarrow> getString (Some s) = getString (Some t)"
  by (simp add: getString_def in_char_same [of s t])

lemma getString_symbol:
  assumes t: "symbol_text t" and c: "ends_symbol c" and s: "skip_ws s = t @ c # r"
  shows "\<exists>s'. getString (Some s) = Inr (t, Some s') \<and> skip_ws s' = skip_ws (c # r)"
proof -
  obtain a u where au: "t = a # u" using t by (cases t) (auto simp: symbol_text_def plain_text_def)
  have i: "in_char (Some s) = Some (a, Some (u @ c # r))" by (simp add: in_char_def s au)
  show ?thesis
  proof (cases "plain_text t")
    case False
    then show ?thesis
      using t au i quoted_rest_append [of u 1 False u "c # r"] starred_rest_append [of u 1 u "c # r"]
      by (auto simp: symbol_text_def getString_def)
  next
    case True
    then obtain s' where p: "plain_rest (u @ c # r) 1 = Inr (u, Some s')" "skip_ws s' = skip_ws (c # r)"
      using plain_rest_append [of u 1 c r] c au by (auto simp: plain_text_def)
    moreover have "strip_cr (a # u) = a # u" using True au by (simp add: plain_text_def strip_cr_def)
    ultimately show ?thesis using True au i by (auto simp: getString_def plain_text_def)
  qed
qed

lemma symbol_text_hd: "symbol_text t \<Longrightarrow> t \<noteq> [] \<and> \<not> isspace (hd t) \<and> hd t \<notin> {CHR ''('', CHR '')'', CHR ''!''}"
  by (auto simp: symbol_text_def plain_text_def isspace_def)

lemma symbol_text_quoted: "length (writeQuoted s) \<le> bufend \<Longrightarrow> symbol_text (writeQuoted s)"
  using quoted_rest_written [of s 1 "[]"] by (simp add: symbol_text_def writeQuoted_def)

lemma digits_plain: "list_all digit_char ds \<Longrightarrow> ds \<noteq> [] \<Longrightarrow> length ds < bufend \<Longrightarrow> plain_text ds"
proof -
  have d: "digit_char c \<Longrightarrow> \<not> isspace c \<and> c \<notin> {CHR 0x22, CHR ''*'', CHR ''('', CHR '')'', CHR ''!'', newline, CHR 0x09, CHR '' '', CHR 0x0D}" for c
    by (auto simp: digit_char_def isspace_def)
  show "list_all digit_char ds \<Longrightarrow> ds \<noteq> [] \<Longrightarrow> length ds < bufend \<Longrightarrow> plain_text ds"
    using d by (cases ds) (auto simp: plain_text_def list_all_iff)
qed

text \<open>A weight whose text is read back as that weight, alone and before the end of an arc.\<close>

definition weight_text :: "logweight \<Rightarrow> string \<Rightarrow> bool" where
  "weight_text w t \<longleftrightarrow> plain_text t \<and> setString setZero t = (w, True) \<and>
     (\<forall>c r. c = CHR '')'' \<or> c = CHR ''!'' \<longrightarrow> lw_read (Some (t @ c # r)) = Some (w, Some (c # r)))"

lemma lw_read_same: "skip_ws s = skip_ws t \<Longrightarrow> lw_read (Some s) = lw_read (Some t)"
  by (simp add: lw_read_def peek_char_same [of s t])

end
