(* ===== verification/WeightText.thy ===== *)
theory WeightText
  imports Istream
begin

text \<open>
  The text of a weight: \<open>print\<close> of \<open>graehl/shared/weight.h\<close> over the standard library's \<open><<\<close> for floating point
  numbers, and the proof that \<open>read\<close> and \<open>setString\<close> read the printed number back.
\<close>

section \<open>Decimal digits\<close>

text \<open>The last \<open>k\<close> decimal digits of a number, and all of its digits.\<close>

primrec dec_digits :: "nat \<Rightarrow> nat \<Rightarrow> string" where
  "dec_digits 0 n = []"
| "dec_digits (Suc k) n = dec_digits k (n div 10) @ [digit_to_char (n mod 10)]"

fun nat_digits :: "nat \<Rightarrow> string" where
  "nat_digits n = (if n < 10 then [] else nat_digits (n div 10)) @ [digit_to_char (n mod 10)]"

declare nat_digits.simps [simp del]

lemma decimal_value_Nil [simp]: "decimal_value [] = 0"
  by (simp add: decimal_value_def)

lemma decimal_value_snoc [simp]: "decimal_value (ds @ [c]) = 10 * decimal_value ds + digit_val c"
  by (simp add: decimal_value_def)

lemma decimal_value_append: "decimal_value (xs @ ys) = decimal_value xs * 10 ^ length ys + decimal_value ys"
proof (induction ys rule: rev_induct)
  case (snoc c ys)
  have "decimal_value (xs @ ys @ [c]) = decimal_value ((xs @ ys) @ [c])" by simp
  then show ?case using snoc by (simp only: decimal_value_snoc) (simp add: algebra_simps)
qed simp

lemma decimal_value_zeros [simp]: "decimal_value (replicate k CHR ''0'') = 0"
proof (induction k)
  case (Suc k)
  have "replicate (Suc k) CHR ''0'' = replicate k CHR ''0'' @ [CHR ''0'']" by (simp add: replicate_append_same)
  then show ?case using Suc by (simp only: decimal_value_snoc) simp
qed simp

lemma dec_digits_spec:
  "length (dec_digits k n) = k" "list_all digit_char (dec_digits k n)" "decimal_value (dec_digits k n) = n mod 10 ^ k"
proof -
  show "length (dec_digits k n) = k" by (induction k arbitrary: n) simp_all
  show "list_all digit_char (dec_digits k n)" by (induction k arbitrary: n) simp_all
  show "decimal_value (dec_digits k n) = n mod 10 ^ k"
  proof (induction k arbitrary: n)
    case (Suc k)
    have "n mod (10 * 10 ^ k) = 10 * (n div 10 mod 10 ^ k) + n mod 10" by (rule mod_mult2_eq)
    then show ?case using Suc by (simp)
  qed simp
qed

lemma nat_digits_spec: "list_all digit_char (nat_digits n)" "nat_digits n \<noteq> []" "decimal_value (nat_digits n) = n"
proof -
  show "list_all digit_char (nat_digits n)"
    by (induction n rule: nat_digits.induct) (subst nat_digits.simps, simp)
  show "nat_digits n \<noteq> []" by (subst nat_digits.simps) simp
  show "decimal_value (nat_digits n) = n"
    by (induction n rule: nat_digits.induct) (subst nat_digits.simps, simp)
qed

lemma digit_zero [simp]: "digit_char CHR ''0''"
  by (simp add: digit_char_def)

section \<open>Printing a floating point number\<close>

text \<open>\<open>os << x\<close> at a precision of \<open>p\<close> digits: \<open>x\<close> is rounded to \<open>p\<close> decimal digits, a tie to the even
  one; \<open>sci p x\<close> is the number these digits make and the exponent of the first one.\<close>

definition round_half_even :: "real \<Rightarrow> int" where
  "round_half_even x = (let k = \<lfloor>x\<rfloor>; f = x - of_int k in if f > 1 / 2 \<or> f = 1 / 2 \<and> odd k then k + 1 else k)"

definition sci :: "nat \<Rightarrow> real \<Rightarrow> nat \<times> int" where
  "sci p x = (let e = \<lfloor>log 10 x\<rfloor>; n = nat (round_half_even (x * 10 powi (int p - 1 - e)))
    in if n = 10 ^ p then (10 ^ (p - 1), e + 1) else (n, e))"

text \<open>Fixed notation for exponents from -4 up to the precision, else scientific; zeros at the end of the
  fraction are not printed.\<close>

definition strip_zeros :: "string \<Rightarrow> string" where
  "strip_zeros ds = rev (dropWhile (\<lambda>c. c = CHR ''0'') (rev ds))"

definition point_text :: "string \<Rightarrow> string" where
  "point_text ds = (if strip_zeros ds = [] then [] else CHR ''.'' # strip_zeros ds)"

definition exponent_text :: "int \<Rightarrow> string" where
  "exponent_text e = CHR ''e'' # (if e < 0 then CHR ''-'' else CHR ''+'') #
     (if \<bar>e\<bar> < 10 then ''0'' else []) @ nat_digits (nat \<bar>e\<bar>)"

definition digits_text :: "nat \<Rightarrow> nat \<Rightarrow> int \<Rightarrow> string" where
  "digits_text p n e =
     (let ds = dec_digits p n
      in if - 4 \<le> e \<and> e < int p
         then (if 0 \<le> e then take (nat (e + 1)) ds @ point_text (drop (nat (e + 1)) ds)
               else ''0'' @ point_text (replicate (nat (- e - 1)) CHR ''0'' @ ds))
         else take 1 ds @ point_text (drop 1 ds) @ exponent_text e)"

fun out_double :: "nat \<Rightarrow> fl \<Rightarrow> string" where
  "out_double p (Num x) =
     (if x = 0 then ''0''
      else (if x < 0 then ''-'' else []) @ (let (n, e) = sci p \<bar>x\<bar> in digits_text p n e))"
| "out_double p PosInf = ''inf''"
| "out_double p NegInf = ''-inf''"
| "out_double p NaN = ''nan''"

text \<open>The number that is printed.\<close>

definition rounded :: "nat \<Rightarrow> real \<Rightarrow> real" where
  "rounded p x = (if x = 0 then 0 else let (n, e) = sci p \<bar>x\<bar> in sgn x * real n * 10 powi (e + 1 - int p))"

lemma round_half_even_close: "\<bar>of_int (round_half_even x) - x\<bar> \<le> 1 / 2"
proof -
  have "of_int \<lfloor>x\<rfloor> \<le> x" "x < of_int \<lfloor>x\<rfloor> + 1" by linarith+
  then show ?thesis
    unfolding round_half_even_def Let_def abs_le_iff by (simp split: if_split) linarith
qed

lemma round_half_even_mono_int: "of_int a \<le> x \<Longrightarrow> a \<le> round_half_even x" "x < of_int b \<Longrightarrow> round_half_even x \<le> b"
proof -
  show "of_int a \<le> x \<Longrightarrow> a \<le> round_half_even x"
    using le_floor_iff [of a x] by (auto simp: round_half_even_def Let_def)
  assume "x < of_int b"
  then have "\<lfloor>x\<rfloor> < b" by (simp add: floor_less_iff)
  then show "round_half_even x \<le> b" unfolding round_half_even_def Let_def by auto
qed

lemma log10_floor: "0 < x \<Longrightarrow> 10 powi \<lfloor>log 10 x\<rfloor> \<le> x \<and> x < 10 powi (\<lfloor>log 10 x\<rfloor> + 1)"
proof -
  assume x: "0 < x"
  have "10 powr real_of_int \<lfloor>log 10 x\<rfloor> \<le> x" using x by (simp add: powr_le_iff)
  moreover have "x < 10 powr real_of_int (\<lfloor>log 10 x\<rfloor> + 1)" using x by (simp add: less_powr_iff)
  moreover have "10 powr real_of_int k = 10 powi k" for k by (simp add: powr_real_of_int')
  ultimately show ?thesis by metis
qed

lemma sci_spec:
  assumes x: "0 < x" and p: "0 < p" and s: "sci p x = (n, e)"
  shows "n < 10 ^ p" "10 ^ (p - 1) \<le> n" "\<bar>real n * 10 powi (e + 1 - int p) - x\<bar> \<le> x * 10 powi (1 - int p) / 2"
proof -
  define e0 where "e0 = \<lfloor>log 10 x\<rfloor>"
  define k where "k = int p - 1 - e0"
  define y where "y = x * 10 powi k"
  define m where "m = round_half_even y"
  have l: "10 powi e0 \<le> x" "x < 10 powi (e0 + 1)" using log10_floor [OF x] by (simp_all add: e0_def)
  have t: "(10 :: real) powi a * 10 powi b = 10 powi (a + b)" for a b by (simp add: power_int_add)
  have pw: "(10 :: real) powi (int q) = of_int (10 ^ q)" for q by simp
  have "10 powi (e0 + k) \<le> y" using l(1) by (simp add: y_def t [symmetric])
  moreover have "e0 + k = int (p - 1)" using p by (simp add: k_def)
  ultimately have lo: "of_int (10 ^ (p - 1)) \<le> y" using pw by metis
  have "y < 10 powi (e0 + 1 + k)" using l(2) by (simp add: y_def t [symmetric])
  moreover have "e0 + 1 + k = int p" by (simp add: k_def)
  ultimately have hi: "y < of_int (10 ^ p)" using pw by metis
  have m: "10 ^ (p - 1) \<le> m" "m \<le> 10 ^ p" using round_half_even_mono_int [where x = y] lo hi by (simp_all add: m_def)
  have m0: "0 \<le> m" using m(1) by (smt (verit) zero_le_power)
  have c: "\<bar>of_int m - y\<bar> \<le> 1 / 2" using round_half_even_close by (simp add: m_def)
  have close: "\<bar>of_int m * 10 powi (- k) - x\<bar> \<le> x * 10 powi (1 - int p) / 2"
  proof -
    have "of_int m * 10 powi (- k) - x = (of_int m - y) * 10 powi (- k)"
      by (simp add: y_def left_diff_distrib mult.assoc t)
    then have "\<bar>of_int m * 10 powi (- k) - x\<bar> = \<bar>of_int m - y\<bar> * 10 powi (- k)" by (simp add: abs_mult)
    also have "\<dots> \<le> 1 / 2 * 10 powi (- k)" using c by (intro mult_right_mono) simp_all
    also have "\<dots> = 10 powi e0 * 10 powi (1 - int p) / 2" by (simp add: t) (simp add: k_def algebra_simps)
    also have "\<dots> \<le> x * 10 powi (1 - int p) / 2" using l(1) by simp
    finally show ?thesis .
  qed
  have s': "sci p x = (if nat m = 10 ^ p then (10 ^ (p - 1), e0 + 1) else (nat m, e0))"
    by (simp add: sci_def Let_def m_def y_def k_def e0_def)
  have ten: "10 * (10 :: real) ^ (p - 1) = 10 ^ p" using p by (cases p) simp_all
  consider "m = 10 ^ p" "n = 10 ^ (p - 1)" "e = e0 + 1" | "m < 10 ^ p" "n = nat m" "e = e0"
    using s s' m m0 by (auto split: if_splits simp: nat_eq_iff)
  then have "n < 10 ^ p \<and> 10 ^ (p - 1) \<le> n \<and> \<bar>real n * 10 powi (e + 1 - int p) - x\<bar> \<le> x * 10 powi (1 - int p) / 2"
  proof cases
    case 1
    have "(10 :: real) powi (e + 1 - int p) = 10 * 10 powi (- k)"
      using t [of 1 "- k"] 1 by (simp add: k_def algebra_simps)
    then have "real n * 10 powi (e + 1 - int p) = of_int m * 10 powi (- k)"
      using 1 ten by (simp add: algebra_simps)
    then show ?thesis using close 1 p by simp
  next
    case 2
    have "e + 1 - int p = - k" "real n = of_int m" using 2 m0 by (simp_all add: k_def)
    then have "\<bar>real n * 10 powi (e + 1 - int p) - x\<bar> \<le> x * 10 powi (1 - int p) / 2" using close by metis
    then show ?thesis using 2 m m0 by (simp add: nat_less_iff le_nat_iff)
  qed
  then show "n < 10 ^ p" "10 ^ (p - 1) \<le> n" "\<bar>real n * 10 powi (e + 1 - int p) - x\<bar> \<le> x * 10 powi (1 - int p) / 2"
    by blast+
qed

section \<open>Reading the printed number\<close>

text \<open>What may follow the number of a weight.\<close>

definition ends_number :: "string \<Rightarrow> bool" where
  "ends_number r \<longleftrightarrow> r = [] \<or> hd r \<in> {CHR '')'', CHR ''!'', CHR ''l''}"

lemma ends_numberD:
  "ends_number r \<Longrightarrow> r \<noteq> [] \<Longrightarrow>
    \<not> digit_char (hd r) \<and> hd r \<noteq> CHR ''.'' \<and> lower (hd r) \<noteq> CHR ''e'' \<and> hd r \<noteq> CHR ''^''"
  by (auto simp: ends_number_def digit_char_def lower_def)

lemma takeWhile_stop:
  assumes "list_all digit_char ds" "r = [] \<or> \<not> digit_char (hd r)"
  shows "takeWhile digit_char (ds @ r) = ds" "dropWhile digit_char (ds @ r) = r"
proof -
  have "takeWhile digit_char r = [] \<and> dropWhile digit_char r = r" using assms(2) by (cases r) auto
  then show "takeWhile digit_char (ds @ r) = ds" "dropWhile digit_char (ds @ r) = r"
    using assms(1) by (induction ds) auto
qed

lemma read_exponent_none: "ends_number r \<Longrightarrow> read_exponent x r = (x, r)"
  using ends_numberD by (auto simp: read_exponent_def)

lemma ten_powi:
  assumes "0 \<le> k"
  shows "(10 :: real) powi k = 10 ^ nat k" "x / 10 ^ nat k = x * (10 :: real) powi (- k)"
proof -
  obtain m where "k = int m" using assms by (rule nonneg_int_cases)
  then show "(10 :: real) powi k = 10 ^ nat k" "x / 10 ^ nat k = x * (10 :: real) powi (- k)"
    by (simp_all add: power_int_minus divide_inverse)
qed

lemma read_exponent_text:
  assumes "ends_number r"
  shows "read_exponent x (exponent_text e @ r) = (x * 10 powi e, r)"
proof -
  define ds where "ds = (if \<bar>e\<bar> < 10 then ''0'' else []) @ nat_digits (nat \<bar>e\<bar>)"
  have d: "list_all digit_char ds" "ds \<noteq> []" "decimal_value ds = nat \<bar>e\<bar>"
    using nat_digits_spec [of "nat \<bar>e\<bar>"] decimal_value_append [of "''0''"] by (auto simp: ds_def decimal_value_def)
  have t: "takeWhile digit_char (ds @ r) = ds" "dropWhile digit_char (ds @ r) = r"
    using takeWhile_stop [OF d(1)] ends_numberD [OF assms] by blast+
  have e: "exponent_text e @ r = CHR ''e'' # (if e < 0 then CHR ''-'' else CHR ''+'') # ds @ r"
    by (simp add: exponent_text_def ds_def)
  have v: "(if e < 0 then x / 10 ^ nat \<bar>e\<bar> else x * 10 ^ nat \<bar>e\<bar>) = x * 10 powi e"
    using ten_powi(1) [of "\<bar>e\<bar>"] ten_powi(2) [of "\<bar>e\<bar>" x] by (cases "e < 0") simp_all
  have "read_sign ((if e < 0 then CHR ''-'' else CHR ''+'') # ds @ r) = (if e < 0 then - 1 else 1, ds @ r)" by simp
  moreover have "lower CHR ''e'' = CHR ''e''" by (simp add: lower_def)
  ultimately have "read_exponent x (exponent_text e @ r) =
      (if e < 0 then x / 10 ^ decimal_value ds else x * 10 ^ decimal_value ds, r)"
    using d(2) unfolding read_exponent_def e list.sel by (simp only: t Let_def prod.case) simp
  then show ?thesis unfolding d(3) v .
qed

lemma strip_zeros_append: "\<exists>k. ds = strip_zeros ds @ replicate k CHR ''0''"
proof -
  let ?z = "\<lambda>c. c = CHR ''0''"
  have "ds = rev (dropWhile ?z (rev ds)) @ rev (takeWhile ?z (rev ds))"
    unfolding rev_append [symmetric] takeWhile_dropWhile_id by simp
  moreover have "takeWhile ?z (rev ds) = replicate (length (takeWhile ?z (rev ds))) CHR ''0''"
    by (intro replicate_eqI) (auto dest: set_takeWhileD)
  ultimately show ?thesis by (metis rev_replicate strip_zeros_def)
qed

lemma strip_zeros_value:
  "real (decimal_value (strip_zeros ds)) / 10 ^ length (strip_zeros ds) = real (decimal_value ds) / 10 ^ length ds"
proof -
  obtain k where k: "ds = strip_zeros ds @ replicate k CHR ''0''" using strip_zeros_append by blast
  have "decimal_value ds = decimal_value (strip_zeros ds) * 10 ^ k" "length ds = length (strip_zeros ds) + k"
    using arg_cong [OF k, of decimal_value] arg_cong [OF k, of length] by (simp_all add: decimal_value_append)
  then show ?thesis by (simp add: power_add)
qed

lemma strip_zeros_digits: "list_all digit_char ds \<Longrightarrow> list_all digit_char (strip_zeros ds)"
  using strip_zeros_append [of ds] by (metis list_all_append)

lemma read_decimal_parts:
  assumes d: "list_all digit_char whole" "whole \<noteq> []" "list_all digit_char fr"
    and r: "r = [] \<or> \<not> digit_char (hd r) \<and> hd r \<noteq> CHR ''.''"
  shows "read_decimal (whole @ point_text fr @ r) =
    Some (read_exponent (decimal_value whole + decimal_value fr / 10 ^ length fr) r)"
proof (cases "strip_zeros fr = []")
  case True
  then have "real (decimal_value fr) / 10 ^ length fr = 0" using strip_zeros_value [of fr] by simp
  moreover have "takeWhile digit_char (whole @ r) = whole" "dropWhile digit_char (whole @ r) = r"
    using takeWhile_stop [OF d(1)] r by blast+
  ultimately show ?thesis using d(2) r True by (auto simp: read_decimal_def point_text_def)
next
  case False
  let ?f = "strip_zeros fr"
  have "takeWhile digit_char (whole @ CHR ''.'' # ?f @ r) = whole" "dropWhile digit_char (whole @ CHR ''.'' # ?f @ r) = CHR ''.'' # ?f @ r"
    using takeWhile_stop [OF d(1), of "CHR ''.'' # ?f @ r"] by (simp_all add: digit_char_def)
  moreover have "takeWhile digit_char (?f @ r) = ?f" "dropWhile digit_char (?f @ r) = r"
    using takeWhile_stop [OF strip_zeros_digits [OF d(3)]] r by blast+
  ultimately show ?thesis using d(2) False strip_zeros_value [of fr] by (simp add: read_decimal_def point_text_def Let_def)
qed

lemma digits_value_parts:
  "real (decimal_value xs) + decimal_value ys / 10 ^ length ys = decimal_value (xs @ ys) / 10 ^ length ys"
  by (simp add: decimal_value_append field_simps)

lemma read_decimal_digits:
  assumes n: "n < 10 ^ p" "0 < p" and r: "ends_number r"
  shows "read_decimal (digits_text p n e @ r) = Some (real n * 10 powi (e + 1 - int p), r)"
proof -
  define ds where "ds = dec_digits p n"
  have ds: "length ds = p" "list_all digit_char ds" "decimal_value ds = n"
    using dec_digits_spec [of p n] n(1) by (simp_all add: ds_def)
  have part: "list_all digit_char (take k ds)" "list_all digit_char (drop k ds)" for k
    using ds(2) by (auto simp: list_all_iff dest: in_set_takeD in_set_dropD)
  have r0: "r = [] \<or> \<not> digit_char (hd r) \<and> hd r \<noteq> CHR ''.''" using ends_numberD [OF r] by blast
  consider "0 \<le> e" "e < int p" | "- 4 \<le> e" "e < 0" | "\<not> (- 4 \<le> e \<and> e < int p)" by linarith
  then show ?thesis
  proof cases
    case 1
    let ?k = "nat (e + 1)"
    have k: "length (drop ?k ds) = p - ?k" "take ?k ds \<noteq> []" "int (p - ?k) = int p - (e + 1)" using 1 ds(1) n(2) by auto
    have "real n / 10 ^ (p - ?k) = real n * 10 powi (- int (p - ?k))" by (simp add: power_int_minus divide_inverse)
    also have "- int (p - ?k) = e + 1 - int p" using k(3) by simp
    finally have "real n / 10 ^ (p - ?k) = real n * 10 powi (e + 1 - int p)" .
    then show ?thesis
      using 1 read_decimal_parts [OF part(1) k(2) part(2) r0] digits_value_parts [of "take ?k ds" "drop ?k ds"]
        read_exponent_none [OF r] ds(3) k(1)
      by (simp add: digits_text_def Let_def ds_def [symmetric])
  next
    case 2
    let ?z = "replicate (nat (- e - 1)) CHR ''0'' @ ds"
    have z: "list_all digit_char ?z" "decimal_value ?z = n" "length ?z = nat (int p - e - 1)"
      using ds 2 by (auto simp: decimal_value_append list_all_iff)
    have v: "real n / 10 ^ nat (int p - e - 1) = real n * 10 powi (e + 1 - int p)"
      using ten_powi(2) [of "int p - e - 1" "real n"] 2 by (simp add: algebra_simps)
    have "read_decimal (''0'' @ point_text ?z @ r) = Some (real n / 10 ^ nat (int p - e - 1), r)"
      using read_decimal_parts [of "''0''" ?z r, OF _ _ z(1) r0] unfolding read_exponent_none [OF r] z(2,3)
      by (simp add: decimal_value_def [of "''0''"] del: append_Cons)
    then have "read_decimal (''0'' @ point_text ?z @ r) = Some (real n * 10 powi (e + 1 - int p), r)" unfolding v .
    then show ?thesis using 2 by (simp add: digits_text_def Let_def ds_def [symmetric])
  next
    case 3
    have k: "length (drop 1 ds) = p - 1" "take 1 ds \<noteq> []" using ds(1) n(2) by (cases ds; auto)+
    have re: "exponent_text e @ r = [] \<or> \<not> digit_char (hd (exponent_text e @ r)) \<and> hd (exponent_text e @ r) \<noteq> CHR ''.''"
      by (simp add: exponent_text_def digit_char_def)
    have "real n / 10 ^ (p - 1) * 10 powi e = real n * (10 powi (1 - int p) * 10 powi e)"
    proof -
      have "(10 :: real) powi (1 - int p) = inverse (10 ^ (p - 1))"
        using n(2) ten_powi(2) [of "int p - 1" 1] by (simp add: nat_diff_distrib divide_inverse)
      then show ?thesis by (simp add: divide_inverse)
    qed
    also have "\<dots> = real n * 10 powi (e + 1 - int p)" by (simp add: power_int_add [symmetric] algebra_simps)
    finally have v: "real n / 10 ^ (p - 1) * 10 powi e = real n * 10 powi (e + 1 - int p)" .
    have t: "digits_text p n e = take 1 ds @ point_text (drop 1 ds) @ exponent_text e"
      using 3 unfolding digits_text_def Let_def ds_def [symmetric] by (simp only: if_False)
    show ?thesis unfolding t v [symmetric]
      using read_decimal_parts [OF part(1) k(2) part(2) re] digits_value_parts [of "take 1 ds" "drop 1 ds"]
        read_exponent_text [OF r] ds(3) k(1)
      by simp
  qed
qed

lemma digits_text_hd: "0 < p \<Longrightarrow> \<exists>c t. digits_text p n e = c # t \<and> digit_char c"
proof -
  assume p: "0 < p"
  have d: "list_all digit_char (dec_digits p n)" "length (dec_digits p n) = p" by (simp_all add: dec_digits_spec)
  then obtain c t where c: "dec_digits p n = c # t" "digit_char c" using p by (cases "dec_digits p n") auto
  have "take (nat (e + 1)) (c # t) = c # take (nat e) t" if "0 \<le> e" using that by (simp add: nat_add_distrib)
  then show ?thesis using c by (auto simp: digits_text_def Let_def)
qed

definition number_char :: "char \<Rightarrow> bool" where
  "number_char c \<longleftrightarrow> digit_char c \<or> c \<in> {CHR ''.'', CHR ''e'', CHR ''+'', CHR ''-''}"

lemma number_chars: "number_char CHR ''0''" "number_char CHR ''-''" "number_char CHR ''.''"
  by (simp_all add: number_char_def)

lemma digits_text_chars: "set (digits_text p n e) \<subseteq> Collect number_char"
proof -
  let ?ds = "dec_digits p n"
  have d: "set ?ds \<subseteq> Collect number_char" using dec_digits_spec(2) [of p n] by (auto simp: list_all_iff number_char_def)
  have "set (strip_zeros ds) \<subseteq> set ds" for ds by (auto simp: strip_zeros_def dest: set_dropWhileD)
  then have pt: "set (point_text ds) \<subseteq> insert CHR ''.'' (set ds)" for ds by (auto simp: point_text_def)
  have e: "set (exponent_text e) \<subseteq> Collect number_char"
    using nat_digits_spec(1) [of "nat \<bar>e\<bar>"] by (auto simp: exponent_text_def number_char_def list_all_iff)
  have t: "set (take k ?ds) \<subseteq> Collect number_char" "set (drop k ?ds) \<subseteq> Collect number_char" for k
    using d set_take_subset [of k ?ds] set_drop_subset [of k ?ds] by blast+
  have p: "set (point_text (drop k ?ds)) \<subseteq> Collect number_char" for k
    using pt [of "drop k ?ds"] t(2) [of k] number_chars(3) by blast
  have "set (replicate k CHR ''0'' @ ?ds) \<subseteq> Collect number_char" for k using d number_chars(1) by auto
  then have z: "set (point_text (replicate k CHR ''0'' @ ?ds)) \<subseteq> Collect number_char" for k
    using pt [of "replicate k CHR ''0'' @ ?ds"] number_chars(3) by blast
  show ?thesis
    unfolding digits_text_def Let_def
    by (simp only: set_append Un_subset_iff t p e z if_True if_False split: if_split) (simp add: number_chars)
qed

text \<open>\<open>in >> f\<close> and \<open>strtod\<close> both read the number that was printed, and stop where its text stops.\<close>

lemma out_double_hd:
  assumes "0 < p"
  shows "\<exists>c t. out_double p (Num x) = c # t \<and> (digit_char c \<or> c = CHR ''-'')"
proof (cases "x = 0")
  case False
  obtain n e where s: "sci p \<bar>x\<bar> = (n, e)" by fastforce
  obtain c t where "digits_text p n e = c # t" "digit_char c" using digits_text_hd [OF assms] by blast
  then show ?thesis using False s by (cases "x < 0") simp_all
qed simp

lemma out_double_chars: "set (out_double p (Num x)) \<subseteq> Collect number_char"
proof (cases "x = 0")
  case False
  obtain n e where "sci p \<bar>x\<bar> = (n, e)" by fastforce
  then show ?thesis using False digits_text_chars [of p n e] number_chars(2) by (cases "x < 0") simp_all
qed (simp add: number_chars)

lemma in_double_decimal:
  assumes "skip_ws t = t" "read_sign t = (sg, u)" "read_decimal u = Some (x, r)" "ends_number r"
  shows "in_double (Some t) = Some (sg * x, Some r)"
proof -
  define r2 where "r2 = (let r = dropWhile digit_char u in if r \<noteq> [] \<and> hd r = CHR ''.'' then dropWhile digit_char (tl r) else r)"
  define f2 where "f2 = (let r = dropWhile digit_char u in if r \<noteq> [] \<and> hd r = CHR ''.'' then takeWhile digit_char (tl r) else [])"
  define v where "v = real (decimal_value (takeWhile digit_char u)) + decimal_value f2 / 10 ^ length f2"
  have "read_decimal u = (if takeWhile digit_char u = [] \<and> f2 = [] then None else Some (read_exponent v r2))"
    unfolding read_decimal_def Let_def f2_def r2_def v_def by (rule refl)
  then have d: "\<not> (takeWhile digit_char u = [] \<and> f2 = [])" "read_exponent v r2 = (x, r)"
    using assms(3) by (simp_all split: if_splits)
  have "in_double (Some t) = (case read_exponent v r2 of (x, r') \<Rightarrow>
      if takeWhile digit_char u = [] \<and> f2 = [] \<or> r' = r2 \<and> r2 \<noteq> [] \<and> lower (hd r2) = CHR ''e'' then None else Some (sg * x, Some r'))"
    unfolding in_double_def Let_def f2_def r2_def v_def Option.bind.simps assms(1,2) prod.case by (rule refl)
  then show ?thesis using d ends_numberD [OF assms(4)] by auto
qed

lemma out_double_parts:
  assumes p: "0 < p" and r: "ends_number r"
  shows "\<exists>sg u y. read_sign (out_double p (Num x) @ r) = (sg, u) \<and> u \<noteq> [] \<and> digit_char (hd u) \<and>
    read_decimal u = Some (y, r) \<and> sg * y = rounded p x"
proof (cases "x = 0")
  case True
  have r0: "r = [] \<or> \<not> digit_char (hd r) \<and> hd r \<noteq> CHR ''.''" using ends_numberD [OF r] by blast
  have "read_decimal (''0'' @ point_text [] @ r) = Some (0, r)"
    using read_decimal_parts [of "''0''" "[]" r, OF _ _ _ r0] read_exponent_none [OF r]
    by (simp add: decimal_value_def [of "''0''"])
  then show ?thesis using True by (intro exI [of _ 1] exI [of _ "CHR ''0'' # r"] exI [of _ 0]) (simp add: rounded_def point_text_def strip_zeros_def)
next
  case False
  obtain n e where s: "sci p \<bar>x\<bar> = (n, e)" by fastforce
  let ?u = "digits_text p n e @ r"
  have n: "n < 10 ^ p" using sci_spec(1) [OF _ p s] False by simp
  obtain c t where c: "digits_text p n e = c # t" "digit_char c" using digits_text_hd [OF p] by blast
  then have "c \<noteq> CHR ''-''" "c \<noteq> CHR ''+''" by (auto simp: digit_char_def)
  then have "read_sign ?u = (1, ?u)" using c(1) by (cases "(c # t) @ r" rule: read_sign.cases) auto
  then have "read_sign (out_double p (Num x) @ r) = (sgn x, ?u)"
    using False s by (auto simp: sgn_if)
  moreover have "sgn x * (real n * 10 powi (e + 1 - int p)) = rounded p x"
    using False s by (simp add: rounded_def)
  moreover have "?u \<noteq> []" "digit_char (hd ?u)" using c by simp_all
  ultimately show ?thesis using read_decimal_digits [OF n p r, of e] by blast
qed

lemma out_double_read:
  assumes p: "0 < p" and r: "ends_number r"
  shows "in_double (Some (out_double p (Num x) @ r)) = Some (rounded p x, Some r)"
    "strtod (out_double p (Num x) @ r) = (Num (rounded p x), r)"
proof -
  obtain sg u y where u: "read_sign (out_double p (Num x) @ r) = (sg, u)" "u \<noteq> []" "digit_char (hd u)"
      "read_decimal u = Some (y, r)" "sg * y = rounded p x" using out_double_parts [OF assms] by blast
  obtain c t where c: "out_double p (Num x) = c # t" "digit_char c \<or> c = CHR ''-''" using out_double_hd [OF p] by blast
  then have "\<not> isspace c" by (auto simp: digit_char_def isspace_def)
  then have w: "skip_ws (out_double p (Num x) @ r) = out_double p (Num x) @ r" using c(1) by simp
  show "in_double (Some (out_double p (Num x) @ r)) = Some (rounded p x, Some r)"
    using in_double_decimal [OF w u(1,4) r] u(5) by simp
  have "lower (hd u) = hd u" "hd u \<noteq> CHR ''i''" "hd u \<noteq> CHR ''n''" using u(3) by (auto simp: lower_def digit_char_def)
  then have "take 8 (map lower u) \<noteq> ''infinity''" "take 3 (map lower u) \<noteq> ''inf''" "take 3 (map lower u) \<noteq> ''nan''"
    using u(2) by (cases u; auto)+
  then show "strtod (out_double p (Num x) @ r) = (Num (rounded p x), r)"
    using u(4,5) by (simp add: strtod_def w u(1) del: out_double.simps)
qed

declare out_double.simps(1) [simp del]

section \<open>Printing a weight\<close>

text \<open>The format of a stream: the base for weights printed as logarithms, when to print them so, and whether the
  numbers have four bytes.\<close>

datatype log_base = EXP | LN | LOG10
datatype log_threshold = ALWAYS_LOG | SOMETIMES_LOG | NEVER_LOG

record weight_format =
  wf_single :: bool
  wf_base :: log_base
  wf_thresh :: log_threshold

definition lw_precision :: "weight_format \<Rightarrow> nat" where
  "lw_precision fmt = (if wf_single fmt then 7 else 15)"

definition prints_real :: "weight_format \<Rightarrow> logweight \<Rightarrow> bool" where
  "prints_real fmt w \<longleftrightarrow> wf_thresh fmt = SOMETIMES_LOG \<and> fitsInReal (wf_single fmt) w \<or> wf_thresh fmt = NEVER_LOG"

definition lw_print :: "weight_format \<Rightarrow> logweight \<Rightarrow> string" where
  "lw_print fmt w =
     (let put = out_double (lw_precision fmt)
      in if isZero w then ''0''
         else if prints_real fmt w then put (getReal w)
         else if wf_base fmt = LN then put (getLn w) @ ''ln''
         else if wf_base fmt = LOG10 then put (getLog10 w) @ ''log''
         else ''e^'' @ put (getLn w))"

text \<open>The weight that is read back: the printed number, rounded to the precision, in the scale it was
  printed in.\<close>

fun fl_round :: "nat \<Rightarrow> fl \<Rightarrow> fl" where
  "fl_round p (Num x) = Num (rounded p x)"
| "fl_round p x = x"

definition reread :: "weight_format \<Rightarrow> logweight \<Rightarrow> logweight" where
  "reread fmt w =
     (let p = lw_precision fmt
      in if isZero w then setZero
         else if prints_real fmt w then setReal (fl_round p (getReal w))
         else if wf_base fmt = LOG10 then setLog10 (fl_round p (getLog10 w))
         else setLn (fl_round p (getLn w)))"

text \<open>The weights whose text is read back: zero and the finite ones, but not one that is printed as \<open>10ln\<close> or
  \<open>10log\<close>, which \<open>read\<close> takes for the real 10 and stops before the suffix. The text has to fit the buffer for
  a symbol.\<close>

definition weight_printable :: "weight_format \<Rightarrow> logweight \<Rightarrow> bool" where
  "weight_printable fmt w \<longleftrightarrow> isZero w \<or> (\<exists>x. lweight w = Num x) \<and> length (lw_print fmt w) < bufend \<and>
     \<not> (\<not> prints_real fmt w \<and>
        (wf_base fmt = LN \<and> fl_round (lw_precision fmt) (getLn w) = Num 10 \<or>
         wf_base fmt = LOG10 \<and> fl_round (lw_precision fmt) (getLog10 w) = Num 10))"

lemma rounded_close:
  assumes "0 < p"
  shows "\<bar>rounded p x - x\<bar> \<le> \<bar>x\<bar> * 10 powi (1 - int p) / 2"
proof (cases "x = 0")
  case False
  obtain n e where s: "sci p \<bar>x\<bar> = (n, e)" by fastforce
  define y where "y = real n * 10 powi (e + 1 - int p)"
  have "\<bar>y - \<bar>x\<bar>\<bar> \<le> \<bar>x\<bar> * 10 powi (1 - int p) / 2" unfolding y_def using sci_spec(3) [OF _ assms s] False by simp
  moreover have "rounded p x = sgn x * y" using False s by (simp add: rounded_def y_def)
  moreover have "\<bar>sgn x * y - x\<bar> = \<bar>y - \<bar>x\<bar>\<bar>" using False by (auto simp: sgn_if abs_if)
  ultimately show ?thesis by simp
qed (simp add: rounded_def)

lemma lw_precision_pos: "0 < lw_precision fmt"
  by (simp add: lw_precision_def)

lemma number_char_plain:
  "number_char c \<Longrightarrow> \<not> isspace c \<and> c \<noteq> CHR ''^'' \<and> c \<notin> {CHR 0x22, CHR ''*'', CHR ''('', CHR '')'', CHR ''!'', newline, CHR 0x09, CHR '' '', CHR 0x0D}"
  by (auto simp: number_char_def digit_char_def isspace_def)

text \<open>The suffix of a printed number.\<close>

definition suffix_value :: "string \<Rightarrow> real \<Rightarrow> logweight" where
  "suffix_value sfx f = (if sfx = ''ln'' then setLn (Num f) else if sfx = ''log'' then setLog10 (Num f) else setReal (Num f))"

lemma plain_suffix:
  assumes "0 < p" "sfx \<in> {[], ''ln'', ''log''}" "length (out_double p (Num x) @ sfx) < bufend"
  shows "plain_text (out_double p (Num x) @ sfx)"
proof -
  let ?t = "out_double p (Num x) @ sfx"
  obtain c t where c: "out_double p (Num x) = c # t" using out_double_hd [OF assms(1)] by blast
  have n: "\<forall>a \<in> set (c # t). number_char a" using out_double_chars [of p x] c by auto
  then have h: "\<not> isspace c" "c \<notin> {CHR 0x22, CHR ''*'', CHR ''('', CHR '')'', CHR ''!''}" using number_char_plain [of c] by auto
  have s: "\<forall>a \<in> set sfx. \<not> isspace a \<and> a \<notin> {newline, CHR 0x09, CHR '' '', CHR ''!'', CHR '')'', CHR 0x0D}"
    using assms(2) by (auto simp: isspace_def)
  have "a \<notin> {newline, CHR 0x09, CHR '' '', CHR ''!'', CHR '')'', CHR 0x0D}" if "a \<in> set (c # t)" for a
    using n number_char_plain [of a] that by blast
  then have a: "\<forall>a \<in> set ?t. a \<notin> {newline, CHR 0x09, CHR '' '', CHR ''!'', CHR '')'', CHR 0x0D}"
    using s unfolding c set_append by blast
  have "last ?t \<in> set ?t" using c by (intro last_in_set) simp
  then have "last ?t \<noteq> CHR 0x0D" using a by blast
  moreover have "\<forall>a \<in> set (tl ?t). a \<notin> {newline, CHR 0x09, CHR '' '', CHR ''!'', CHR '')''}"
    using a c by auto
  ultimately show ?thesis using assms(3) h c by (simp add: plain_text_def)
qed

lemma setString_suffix:
  assumes p: "0 < p" and s: "sfx \<in> {[], ''ln'', ''log''}"
  shows "setString w (out_double p (Num x) @ sfx) = (suffix_value sfx (rounded p x), True)"
proof -
  let ?t = "out_double p (Num x) @ sfx"
  obtain c t where c: "out_double p (Num x) = c # t" "digit_char c \<or> c = CHR ''-''" using out_double_hd [OF p] by blast
  have "CHR ''^'' \<notin> set (out_double p (Num x))" "CHR ''^'' \<notin> set sfx"
    using out_double_chars [of p x] number_char_plain s by auto
  then have n: "CHR ''^'' \<notin> set ?t" by simp
  have "?t ! k \<noteq> CHR ''^''" if "k < length ?t" for k using nth_mem [OF that] n by metis
  then have np: "\<not> (1 < length ?t \<and> ?t ! 0 = CHR ''e'' \<and> ?t ! 1 = CHR ''^'')"
      "\<not> (2 < length ?t \<and> ?t ! 0 = CHR ''1'' \<and> ?t ! 1 = CHR ''0'' \<and> ?t ! 2 = CHR ''^'')" by blast+
  have "ends_number sfx" using s by (auto simp: ends_number_def)
  note st = out_double_read(2) [OF p this]
  have "setStringPartial w ?t = (suffix_value sfx (rounded p x), Some [])"
    unfolding setStringPartial_def if_not_P [OF np(1)] if_not_P [OF np(2)] st Let_def prod.case
    using s by (auto simp: suffix_value_def)
  then show ?thesis by (simp add: setString_def)
qed

lemma lw_read_suffix:
  assumes p: "0 < p" and s: "sfx \<in> {[], ''ln'', ''log''}" and ten: "sfx \<noteq> [] \<Longrightarrow> rounded p x \<noteq> 10"
    and c: "c = CHR '')'' \<or> c = CHR ''!''"
  shows "lw_read (Some ((out_double p (Num x) @ sfx) @ c # r)) = Some (suffix_value sfx (rounded p x), Some (c # r))"
proof -
  let ?t = "out_double p (Num x)"
  obtain d t where d: "?t = d # t" "digit_char d \<or> d = CHR ''-''" using out_double_hd [OF p] by blast
  have "\<not> isspace d" "d \<noteq> CHR ''e''" using d(2) by (auto simp: digit_char_def isspace_def)
  then have pk: "peek_char (Some (?t @ sfx @ c # r)) = Some (d, Some (?t @ sfx @ c # r))" by (simp add: peek_char_def d(1))
  have "ends_number (sfx @ c # r)" using s c by (auto simp: ends_number_def)
  note rd = out_double_read(1) [OF p this, of x]
  have c': "\<not> isspace c" "c \<noteq> CHR ''^''" "c \<noteq> CHR ''l''" using c by (auto simp: isspace_def)
  show ?thesis
  proof (cases "rounded p x = 10")
    case True
    then have "sfx = []" using ten by blast
    then show ?thesis using pk rd True c' \<open>d \<noteq> _\<close> by (simp add: lw_read_def suffix_value_def peek_char_def)
  next
    case False
    then show ?thesis using pk rd c' s \<open>d \<noteq> _\<close> by (auto simp: lw_read_def suffix_value_def read_suffix_def)
  qed
qed

lemma weight_text_suffix:
  assumes "0 < p" "sfx \<in> {[], ''ln'', ''log''}" "sfx \<noteq> [] \<Longrightarrow> rounded p x \<noteq> 10" "length (out_double p (Num x) @ sfx) < bufend"
  shows "weight_text (suffix_value sfx (rounded p x)) (out_double p (Num x) @ sfx)"
  unfolding weight_text_def
  using plain_suffix [OF assms(1,2,4)] setString_suffix [OF assms(1,2)] lw_read_suffix [OF assms(1-3)] by blast

lemma weight_text_exp:
  assumes p: "0 < p" and len: "length (''e^'' @ out_double p (Num x)) < bufend"
  shows "weight_text (setLn (Num (rounded p x))) (''e^'' @ out_double p (Num x))"
proof -
  let ?t = "out_double p (Num x)"
  have "plain_text (?t @ [])" using plain_suffix [OF p, of "[]" x] len by simp
  then have t: "?t \<noteq> []" "\<forall>c \<in> set (tl ?t). c \<notin> {newline, CHR 0x09, CHR '' '', CHR ''!'', CHR '')''}" "last ?t \<noteq> CHR 0x0D"
      "\<not> isspace (hd ?t)" "hd ?t \<notin> {CHR ''!'', CHR '')''}" by (auto simp: plain_text_def)
  have "\<forall>c \<in> set ?t. c \<notin> {newline, CHR 0x09, CHR '' '', CHR ''!'', CHR '')''}"
    using t by (cases ?t) (auto simp: isspace_def)
  then have "plain_text (''e^'' @ ?t)" using t(1,3) len by (simp add: plain_text_def isspace_def)
  moreover have "setString setZero (''e^'' @ ?t) = (setLn (Num (rounded p x)), True)"
    using out_double_read(2) [OF p, of "[]" x] t(1) by (simp add: setString_def setStringPartial_def ends_number_def)
  moreover have "lw_read (Some ((''e^'' @ ?t) @ c # r)) = Some (setLn (Num (rounded p x)), Some (c # r))"
    if "c = CHR '')'' \<or> c = CHR ''!''" for c r
  proof -
    have "in_double (Some (?t @ c # r)) = Some (rounded p x, Some (c # r))"
      using that by (intro out_double_read(1) [OF p]) (auto simp: ends_number_def)
    then show ?thesis by (simp add: lw_read_def peek_char_def isspace_def more_input_def)
  qed
  ultimately show ?thesis by (simp add: weight_text_def)
qed

lemma zero_text: "weight_text setZero ''0''"
  using weight_text_suffix [of 1 "[]" 0] by (simp add: out_double.simps(1) suffix_value_def rounded_def setReal_def bufend_def)

lemma weight_printable_text:
  assumes "weight_printable fmt w"
  shows "weight_text (reread fmt w) (lw_print fmt w)"
proof (cases "isZero w")
  case True
  then show ?thesis by (simp add: reread_def lw_print_def zero_text)
next
  case False
  let ?p = "lw_precision fmt"
  note p = lw_precision_pos [of fmt]
  obtain x where x: "lweight w = Num x" and len: "length (lw_print fmt w) < bufend" using assms False by (auto simp: weight_printable_def)
  have g: "getReal w = Num (exp x)" "getLn w = Num x" "getLog10 w = Num (1 / const_ln10 * x)"
    by (simp_all add: getReal_def getLn_def getLog10_def x)
  consider "prints_real fmt w" | "\<not> prints_real fmt w" "wf_base fmt = LN" | "\<not> prints_real fmt w" "wf_base fmt = LOG10"
    | "\<not> prints_real fmt w" "wf_base fmt = EXP" by (cases "wf_base fmt") auto
  then show ?thesis
  proof cases
    case 1
    then show ?thesis using weight_text_suffix [OF p, of "[]" "exp x"] len False
      by (simp add: reread_def lw_print_def g suffix_value_def)
  next
    case 2
    then have "rounded ?p x \<noteq> 10" using assms False by (simp add: weight_printable_def g)
    then show ?thesis using weight_text_suffix [OF p, of "''ln''" x] len False 2
      by (simp add: reread_def lw_print_def g suffix_value_def)
  next
    case 3
    then have "rounded ?p (1 / const_ln10 * x) \<noteq> 10" using assms False by (simp add: weight_printable_def g)
    then show ?thesis using weight_text_suffix [OF p, of "''log''" "1 / const_ln10 * x"] len False 3
      by (simp add: reread_def lw_print_def g suffix_value_def)
  next
    case 4
    then show ?thesis using weight_text_exp [OF p, of x] len False
      by (simp add: reread_def lw_print_def g)
  qed
qed

text \<open>How close the weight that is read back is: the printed number keeps all but a relative error of half a
  unit in the last digit; one is read back exactly.\<close>

definition weight_close :: "weight_format \<Rightarrow> logweight \<Rightarrow> logweight \<Rightarrow> bool" where
  "weight_close fmt w w' \<longleftrightarrow>
     (if isZero w then w' = setZero
      else (\<exists>x y. w = LW (Num x) \<and> w' = LW (Num y) \<and>
        (if prints_real fmt w then \<bar>exp y - exp x\<bar> \<le> exp x * 10 powi (1 - int (lw_precision fmt)) / 2
         else \<bar>y - x\<bar> \<le> \<bar>x\<bar> * 10 powi (1 - int (lw_precision fmt)) / 2)))"

lemma reread_close:
  assumes "weight_printable fmt w"
  shows "weight_close fmt w (reread fmt w)"
proof (cases "isZero w")
  case True
  then show ?thesis by (simp add: weight_close_def reread_def)
next
  case False
  let ?p = "lw_precision fmt" and ?u = "10 powi (1 - int (lw_precision fmt)) / 2 :: real"
  note p = lw_precision_pos [of fmt]
  obtain x where "lweight w = Num x" using assms False by (auto simp: weight_printable_def)
  then have x: "w = LW (Num x)" by (cases w) simp
  have "1 / 10 ^ nat (int ?p - 1) \<le> (1 :: real)" by simp
  then have u: "?u \<le> 1 / 2" using ten_powi(2) [of "int ?p - 1" 1] p by simp
  consider "prints_real fmt w" | "\<not> prints_real fmt w" "wf_base fmt = LOG10" | "\<not> prints_real fmt w" "wf_base fmt \<noteq> LOG10" by blast
  then show ?thesis
  proof cases
    case 1
    define r where "r = rounded ?p (exp x)"
    have r: "\<bar>r - exp x\<bar> \<le> exp x * ?u" using rounded_close [OF p, of "exp x"] by (simp add: r_def)
    also have "\<dots> \<le> exp x * (1 / 2)" using u by (intro mult_left_mono) simp_all
    finally have "\<bar>r - exp x\<bar> \<le> exp x * (1 / 2)" .
    moreover have "exp x - r \<le> \<bar>r - exp x\<bar>" by simp
    ultimately have pos: "0 < r" using exp_gt_zero [of x] by linarith
    then have "reread fmt w = LW (Num (ln r))" using 1 False by (simp add: reread_def x getReal_def r_def [symmetric] setReal_def)
    then show ?thesis using 1 False r pos by (auto simp: weight_close_def x)
  next
    case 2
    define c where "c = 1 / const_ln10"
    have c: "0 < c" "c * const_ln10 = 1" by (simp_all add: c_def const_ln10_def)
    define r where "r = rounded ?p (c * x)"
    have "\<bar>r * const_ln10 - x\<bar> = \<bar>r - c * x\<bar> * const_ln10"
    proof -
      have "r * const_ln10 - x = (r - c * x) * const_ln10" using c(2) by (simp add: algebra_simps)
      moreover have "\<bar>const_ln10\<bar> = const_ln10" by (simp add: const_ln10_def)
      ultimately show ?thesis by (simp add: abs_mult)
    qed
    also have "\<dots> \<le> (\<bar>c * x\<bar> * ?u) * const_ln10"
      using rounded_close [OF p, of "c * x"] by (intro mult_right_mono) (simp_all add: r_def const_ln10_def)
    also have "\<dots> = \<bar>x\<bar> * ?u * (c * const_ln10)" using c(1) by (simp add: abs_mult)
    finally have r: "\<bar>r * const_ln10 - x\<bar> \<le> \<bar>x\<bar> * ?u" using c(2) by simp
    have "reread fmt w = LW (Num (r * const_ln10))"
      using 2 False by (simp add: reread_def x getLog10_def setLog10_def r_def c_def)
    then show ?thesis using 2 False r by (simp add: weight_close_def x)
  next
    case 3
    then show ?thesis using False rounded_close [OF p, of x] by (simp add: weight_close_def reread_def x getLn_def setLn_def)
  qed
qed

lemma sci_one: "0 < p \<Longrightarrow> sci p 1 = (10 ^ (p - 1), 0)"
proof -
  assume p: "0 < p"
  have "(10 :: real) powi (int p - 1) = of_int (10 ^ (p - 1))" using ten_powi(1) [of "int p - 1"] p by (simp add: nat_diff_distrib)
  then have "round_half_even (10 powi (int p - 1)) = 10 ^ (p - 1)" by (simp add: round_half_even_def)
  moreover have "(10 :: nat) ^ (p - 1) \<noteq> 10 ^ p" using p by (cases p) simp_all
  ultimately show ?thesis by (simp add: sci_def nat_power_eq)
qed

lemma reread_one: "reread fmt setOne = setOne"
proof -
  let ?p = "lw_precision fmt"
  note p = lw_precision_pos [of fmt]
  have "(10 :: real) ^ (?p - 1) * 10 powi (1 - int ?p) = 1"
    using ten_powi(2) [of "int ?p - 1" "10 ^ (?p - 1)"] p by (simp add: nat_diff_distrib)
  then have "rounded ?p 1 = 1" using sci_one [OF p] by (simp add: rounded_def)
  moreover have "rounded ?p 0 = 0" by (simp add: rounded_def)
  ultimately show ?thesis
    by (simp add: Let_def reread_def setOne_def getReal_def getLn_def getLog10_def setReal_def setLn_def setLog10_def)
qed

end
