(* ===== verification/WfstIO.thy ===== *)
theory WfstIO
  imports WeightText Compose
begin

text \<open>
  Reading and writing transducers as text: \<open>carmel/src/wfstio.cc\<close>, with \<open>arc_adder\<close> of
  \<open>carmel/src/state.h\<close>.  The alphabets of a transducer are objects in the heap, as in \<open>Wfst\<close>.  Warnings and the
  error context that are printed are left out.
\<close>

section \<open>The reader\<close>

text \<open>\<open>Invalid\<close>: the label \<open>INVALID\<close> of the code.  \<open>Unwritten\<close>: a symbol with an unwritten character, see \<open>getString\<close>.\<close>

datatype read_error = Invalid | Unwritten

type_synonym mach = "logweight WFST \<times> alph_heap"

text \<open>\<open>arc_adder\<close>: an iterator behind the last arc added to a state is the number of arcs added.\<close>

record reader =
  rd_mach :: mach
  rd_added :: "nat \<Rightarrow> nat"

type_synonym 'a reading = "(read_error \<times> reader) + 'a"

definition arc_adder_add :: "nat \<Rightarrow> logweight FSTArc \<Rightarrow> reader \<Rightarrow> reader" where
  "arc_adder_add i arc rd =
     (let (M, h) = rd_mach rd; k = rd_added rd i; s = states M ! i;
          s' = s\<lparr>arcs := take k (arcs s) @ arc # drop k (arcs s), state_size := state_size s + 1\<rparr>
      in rd\<lparr>rd_mach := (M\<lparr>states := (states M)[i := s']\<rparr>, h), rd_added := (rd_added rd)(i := k + 1)\<rparr>)"

text \<open>\<open>alphabet(dir).indexOf(sym)\<close>\<close>

definition label_index :: "LabelType \<Rightarrow> string \<Rightarrow> reader \<Rightarrow> reader \<times> nat" where
  "label_index dir buf rd =
     (let (M, h) = rd_mach rd; p = the (alph M dir); (a, i) = indexOf buf (the (h ! p))
      in (rd\<lparr>rd_mach := (M, h[p := Some a])\<rparr>, i))"

text \<open>The library's \<open>strtol\<close> in base 10: the number and the rest of the text.\<close>

definition strtol :: "string \<Rightarrow> int \<times> string" where
  "strtol s =
     (let t = skip_ws s; neg = (t \<noteq> [] \<and> hd t = CHR ''-''); u = (if t \<noteq> [] \<and> (hd t = CHR ''-'' \<or> hd t = CHR ''+'') then tl t else t);
          ds = takeWhile digit_char u; v = (if neg then - int (decimal_value ds) else int (decimal_value ds))
      in if ds = [] then (0, s) else (max (- (2 ^ 63)) (min (2 ^ 63 - 1) v), dropWhile digit_char u))"

definition resize_up_for_index :: "nat \<Rightarrow> 'w State list \<Rightarrow> 'w State list" where
  "resize_up_for_index i ss = ss @ replicate (Suc i - length ss) state_new"

definition getStateIndex :: "string \<Rightarrow> reader \<Rightarrow> reader \<times> nat" where
  "getStateIndex buf rd =
     (let (M, h) = rd_mach rd
      in if \<not> named_states M
         then (let (v, e) = strtol buf; st = nat (v mod 2 ^ 32)
               in if buf \<noteq> [] \<and> e \<noteq> [] then (rd, uint_minus1)
                  else (rd\<lparr>rd_mach := (M\<lparr>states := resize_up_for_index st (states M)\<rparr>, h)\<rparr>, st))
         else (let (nm, st) = indexOf buf (stateNames M); M = M\<lparr>stateNames := nm\<rparr>
               in (rd\<lparr>rd_mach := (if st \<ge> numStates M then M\<lparr>states := states M @ [state_new]\<rparr> else M, h)\<rparr>, st)))"

text \<open>The macros \<open>REQUIRE\<close>, \<open>GETC\<close>, \<open>PEEKC\<close>.\<close>

definition require :: "reader \<Rightarrow> 'a option \<Rightarrow> 'a reading" where
  "require rd x = (case x of None \<Rightarrow> Inl (Invalid, rd) | Some y \<Rightarrow> Inr y)"

definition require_char :: "char \<Rightarrow> reader \<Rightarrow> istr \<Rightarrow> istr reading" where
  "require_char c rd s =
     bind_error (require rd (in_char s)) (\<lambda>(d, s). if d = c then Inr s else Inl (Invalid, rd))"

definition require_string :: "reader \<Rightarrow> istr \<Rightarrow> (string \<times> istr) reading" where
  "require_string rd s =
     (case getString s of
        Inl no_string \<Rightarrow> Inl (Invalid, rd)
      | Inl unwritten_char \<Rightarrow> Inl (Unwritten, rd)
      | Inr r \<Rightarrow> Inr r)"

definition end_iow :: "char \<Rightarrow> bool" where
  "end_iow c \<longleftrightarrow> c = CHR '')'' \<or> c = CHR ''!''"

text \<open>The labels and the weight of an arc; \<open>c\<close> is the next character.\<close>

definition read_iow :: "reader \<Rightarrow> char \<Rightarrow> istr \<Rightarrow> (reader \<times> nat \<times> nat \<times> logweight \<times> istr) reading" where
  "read_iow rd c s =
     (if end_iow c then Inr (rd, epsilon_index, epsilon_index, setOne, s)
      else bind_error (require_string rd s) (\<lambda>(buf, s).
           bind_error (require rd (peek_char s)) (\<lambda>(c, s).
             if end_iow c
             then (let (w, ok) = setString setZero buf
                   in if ok then Inr (rd, epsilon_index, epsilon_index, w, s)
                      else (let (rd, inL) = label_index kInput buf rd; (rd, outL) = label_index kOutput buf rd
                            in Inr (rd, inL, outL, setOne, s)))
             else (let (rd, inL) = label_index kInput buf rd
                   in bind_error (require_string rd s) (\<lambda>(buf2, s).
                      bind_error (require rd (peek_char s)) (\<lambda>(c, s).
                        if end_iow c
                        then (let (w, ok) = setString setZero buf2
                              in if ok then (let (rd, outL) = label_index kOutput buf rd in Inr (rd, inL, outL, w, s))
                                 else (let (rd, outL) = label_index kOutput buf2 rd in Inr (rd, inL, outL, setOne, s)))
                        else (let (rd, outL) = label_index kOutput buf2 rd
                              in bind_error (require rd (lw_read s)) (\<lambda>(w, s).
                                 bind_error (require rd (peek_char s)) (\<lambda>(c, s).
                                   if end_iow c then Inr (rd, inL, outL, w, s) else Inl (Invalid, rd)))))))))) "

text \<open>The group of an arc.\<close>

definition read_group :: "reader \<Rightarrow> logweight FSTArc \<Rightarrow> istr \<Rightarrow> (logweight FSTArc \<times> istr) reading" where
  "read_group rd a s =
     bind_error (require rd (peek_char s)) (\<lambda>(c, s').
       if c = CHR ''!''
       then bind_error (require rd (peek_char (Some (tl (the s'))))) (\<lambda>(c, s).
              if digit_char c
              then bind_error (require rd (in_unsigned s)) (\<lambda>(g, s). Inr (setGroup g a, s))
              else Inr (setLocked a, s))
       else Inr (a, s'))"

text \<open>One arc of the loop over the arcs to \<open>dest\<close>: whether it is in parentheses and may be followed by others, the reader
  and the rest of the input.\<close>

definition read_arc :: "nat \<Rightarrow> nat \<Rightarrow> reader \<Rightarrow> istr \<Rightarrow> (bool \<times> reader \<times> istr) reading" where
  "read_arc src_state dest_state rd s =
     bind_error (require rd (peek_char s)) (\<lambda>(c, s).
     let iowparen = (c = CHR ''('')
     in bind_error (if iowparen then require rd (peek_char (Some (tl (the s)))) else Inr (c, s)) (\<lambda>(c, s).
        bind_error (read_iow rd c s) (\<lambda>(rd, inL, outL, w, s).
        bind_error (read_group rd (mk_arc inL outL dest_state w) s) (\<lambda>(a, s).
          Inr (iowparen, arc_adder_add src_state a rd, s)))))"

text \<open>The three loops; \<open>None\<close> would be a loop that does not end.\<close>

partial_function (option) read_arcs :: "nat \<Rightarrow> nat \<Rightarrow> reader \<Rightarrow> istr \<Rightarrow> (reader \<times> istr) reading option" where
  "read_arcs src_state dest_state rd s =
     (case read_arc src_state dest_state rd s of
        Inl e \<Rightarrow> Some (Inl e)
      | Inr (iowparen, rd, s) \<Rightarrow>
          if \<not> iowparen then Some (Inr (rd, s))
          else case bind_error (require_char CHR '')'' rd s) (\<lambda>s. require rd (peek_char s)) of
                 Inl e \<Rightarrow> Some (Inl e)
               | Inr (c, s) \<Rightarrow> if c = CHR '')'' then Some (Inr (rd, s)) else read_arcs src_state dest_state rd s)"

text \<open>The state that the arcs go to.\<close>

definition read_dest :: "reader \<Rightarrow> istr \<Rightarrow> (reader \<times> nat \<times> istr) reading" where
  "read_dest rd s =
     bind_error (require_string rd s) (\<lambda>(buf, s).
       let (rd, st) = getStateIndex buf rd in if st = uint_minus1 then Inl (Invalid, rd) else Inr (rd, st, s))"

partial_function (option) read_dests :: "nat \<Rightarrow> reader \<Rightarrow> istr \<Rightarrow> (reader \<times> istr) reading option" where
  "read_dests src_state rd s =
     (case require rd (peek_char s) of
        Inl e \<Rightarrow> Some (Inl e)
      | Inr (c, s) \<Rightarrow>
          if c = CHR '')'' then Some (Inr (rd, s))
          else case read_dest rd (if c = CHR ''('' then Some (tl (the s)) else s) of
                 Inl e \<Rightarrow> Some (Inl e)
               | Inr (rd, dest_state, s) \<Rightarrow>
                   (case read_arcs src_state dest_state rd s of
                      None \<Rightarrow> None
                    | Some r \<Rightarrow>
                        (case r of
                           Inl e \<Rightarrow> Some (Inl e)
                         | Inr (rd, s) \<Rightarrow>
                             if c \<noteq> CHR ''('' then Some (Inr (rd, s))
                             else case require_char CHR '')'' rd s of
                                    Inl e \<Rightarrow> Some (Inl e)
                                  | Inr s \<Rightarrow> read_dests src_state rd s)))"

text \<open>The start of a line: the parenthesis and the state that the arcs leave.\<close>

definition read_source :: "reader \<Rightarrow> char \<Rightarrow> istr \<Rightarrow> (reader \<times> nat \<times> istr) reading" where
  "read_source rd c s = (let s = skip_comment s in if c \<noteq> CHR ''('' then Inl (Invalid, rd) else read_dest rd s)"

partial_function (option) read_lines :: "reader \<Rightarrow> istr \<Rightarrow> reader reading option" where
  "read_lines rd s =
     (case in_char s of
        None \<Rightarrow> Some (Inr rd)
      | Some (c, s) \<Rightarrow>
          (case read_source rd c s of
             Inl e \<Rightarrow> Some (Inl e)
           | Inr (rd, src_state, s) \<Rightarrow>
               (case read_dests src_state rd s of
                  None \<Rightarrow> None
                | Some r \<Rightarrow>
                    (case bind_error r (\<lambda>(rd, s). bind_error (require_char CHR '')'' rd s) (\<lambda>s. Inr (rd, s))) of
                       Inl e \<Rightarrow> Some (Inl e)
                     | Inr (rd, s) \<Rightarrow> read_lines rd s))))"

text \<open>The name of the final state, and the test for it at the end.\<close>

definition start_reading :: "bool \<Rightarrow> mach \<Rightarrow> istr \<Rightarrow> (string \<times> reader \<times> istr) reading" where
  "start_reading alwaysNamed mh s =
     (let (M, h) = mh; rd = \<lparr>rd_mach = (M\<lparr>named_states := True\<rparr>, h), rd_added = (\<lambda>_. 0)\<rparr>
      in bind_error (require_string rd (skip_comment s)) (\<lambda>(buf, s).
           let named = (alwaysNamed \<or> \<not> list_all digit_char buf); rd = rd\<lparr>rd_mach := (M\<lparr>named_states := named\<rparr>, h)\<rparr>
           in if named then Inr (buf, rd, s)
              else (let (rd, f) = getStateIndex buf rd; (M, h) = rd_mach rd
                    in Inr (buf, rd\<lparr>rd_mach := (M\<lparr>final := f\<rparr>, h)\<rparr>, s))))"

definition end_reading :: "string \<Rightarrow> reader \<Rightarrow> mach reading" where
  "end_reading finalName rd =
     (let (M, h) = rd_mach rd
      in if \<not> named_states M then (if final M < wfst_size M then Inr (M, h) else Inl (Invalid, rd))
         else case alph_find (stateNames M) finalName of
                None \<Rightarrow> Inl (Invalid, rd)
              | Some f \<Rightarrow> Inr (M\<lparr>final := f\<rparr>, h))"

text \<open>\<open>readLegible\<close>: on \<open>Invalid\<close> the transducer is cleared and the function returns false.\<close>

definition readLegible :: "bool \<Rightarrow> string \<Rightarrow> mach \<Rightarrow> (bool \<times> mach) reading option" where
  "readLegible alwaysNamed text mh =
     (let r = (case start_reading alwaysNamed mh (Some text) of
                 Inl e \<Rightarrow> Some (Inl e)
               | Inr (finalName, rd, s) \<Rightarrow> map_option (\<lambda>r. bind_error r (end_reading finalName)) (read_lines rd s))
      in map_option (\<lambda>r. case r of
                Inr mh \<Rightarrow> Inr (True, mh)
              | Inl (Invalid, rd) \<Rightarrow> Inr (False, wfst_clear (rd_mach rd))
              | Inl (Unwritten, rd) \<Rightarrow> Inl (Unwritten, rd)) r)"

text \<open>\<open>init\<close>, and the constructor that reads a transducer.\<close>

definition wfst_init :: "alph_heap \<Rightarrow> mach" where
  "wfst_init h =
     initAlphabet kOutput (initAlphabet kInput
       (\<lparr>owner_alph = \<lambda>_. False, alph = \<lambda>_. None, named_states = False, stateNames = alph_empty,
         final = 0, states = [], indexed_by = kNone\<rparr>, h))"

definition wfst_of_text :: "bool \<Rightarrow> string \<Rightarrow> alph_heap \<Rightarrow> mach reading option" where
  "wfst_of_text alwaysNamed text h =
     map_option (\<lambda>r. bind_error r (\<lambda>(ok, M, h). Inr (if ok then M else M\<lparr>final := invalid_state\<rparr>, h)))
       (readLegible alwaysNamed text (wfst_init h))"

text \<open>The constructor for a line of symbols: a chain of arcs.  A symbol that starts with a digit makes it invalid.\<close>

partial_function (option) read_chain :: "istr \<Rightarrow> reader \<Rightarrow> reader reading option" where
  "read_chain line rd =
     (case getString line of
        Inl e \<Rightarrow> Some (if e = no_string then Inr rd else Inl (Unwritten, rd))
      | Inr (t, line) \<Rightarrow>
          if digit_char (hd t) then Some (Inl (Invalid, rd))
          else (let (rd, i) = label_index kInput t rd; (rd, u) = label_index kOutput t rd; (M, h) = rd_mach rd;
                    ss = states M @ [state_new]; f = final M;
                    M = M\<lparr>states := ss[f := addArc (mk_arc i u (f + 1) setOne) (ss ! f)], final := f + 1\<rparr>
                in read_chain line (rd\<lparr>rd_mach := (M, h)\<rparr>)))"

definition wfst_of_symbols :: "string \<Rightarrow> alph_heap \<Rightarrow> mach reading option" where
  "wfst_of_symbols line h =
     map_option (\<lambda>r. case r of
         Inr rd \<Rightarrow> (let (M, h) = rd_mach rd in Inr (M\<lparr>states := states M @ [state_new]\<rparr>, h))
       | Inl (Invalid, rd) \<Rightarrow> Inr (wfst_clear (rd_mach rd))
       | Inl (Unwritten, rd) \<Rightarrow> Inl (Unwritten, rd))
       (read_chain (Some line) \<lparr>rd_mach = wfst_init h, rd_added = (\<lambda>_. 0)\<rparr>)"

section \<open>The writer\<close>

text \<open>\<open>OUTARCWEIGHT\<close>; \<open>fmt\<close> is the weight format of the stream.\<close>

definition write_arc_weight :: "weight_format \<Rightarrow> bool \<Rightarrow> logweight FSTArc \<Rightarrow> string" where
  "write_arc_weight fmt brief a =
     (let g = groupId a
      in (if \<not> brief \<or> g \<noteq> no_group \<or> \<not> lw_eq (arc_weight a) setOne then '' '' @ lw_print fmt (arc_weight a) else []) @
         (if g \<noteq> no_group then ''!'' @ (if g > 0 then utoa (of_nat g :: 32 word) [] else []) else []))"

definition letter_text :: "mach \<Rightarrow> LabelType \<Rightarrow> nat \<Rightarrow> string" where
  "letter_text mh dir i = (case letter (fst mh) (snd mh) i dir of None \<Rightarrow> [] | Some t \<Rightarrow> t)"

definition write_arc :: "weight_format \<Rightarrow> bool \<Rightarrow> mach \<Rightarrow> logweight FSTArc \<Rightarrow> string" where
  "write_arc fmt brief mh a =
     (let inLet = letter_text mh kInput (arc_in a); outLet = letter_text mh kOutput (arc_out a)
      in '' ('' @ stateName (fst mh) (arc_dest a) @
         (if \<not> brief \<or> arc_in a \<noteq> 0 \<or> arc_out a \<noteq> 0
          then '' '' @ inLet @ (if \<not> brief \<or> inLet \<noteq> outLet then '' '' @ outLet else []) else []) @
         write_arc_weight fmt brief a @ '')'')"

definition write_state :: "weight_format \<Rightarrow> bool \<Rightarrow> bool \<Rightarrow> bool \<Rightarrow> mach \<Rightarrow> nat \<Rightarrow> string" where
  "write_state fmt brief onearc include_zero mh i =
     (let open_line = newline # ''('' @ stateName (fst mh) i;
          as = filter (\<lambda>a. include_zero \<or> isPositive (arc_weight a)) (arcs (states (fst mh) ! i))
      in if onearc then concat (map (\<lambda>a. open_line @ write_arc fmt brief mh a @ '')'') as)
         else open_line @ concat (map (write_arc fmt brief mh) as) @ '')'')"

definition writeLegible :: "weight_format \<Rightarrow> bool \<Rightarrow> bool \<Rightarrow> bool \<Rightarrow> mach \<Rightarrow> string" where
  "writeLegible fmt brief onearc include_zero mh =
     (if \<not> valid (fst mh) then []
      else stateName (fst mh) (final (fst mh)) @
           concat (map (write_state fmt brief onearc include_zero mh) [0..<numStates (fst mh)]) @ [newline])"

section \<open>Symbol sequences\<close>

text \<open>\<open>symbolList\<close>, with the alphabet that \<open>output\<close> names; \<open>None\<close> for a symbol with an unwritten character.\<close>

partial_function (option) symbolList :: "LabelType \<Rightarrow> istr \<Rightarrow> reader \<Rightarrow> (reader \<times> nat list) option" where
  "symbolList output line rd =
     (case getString line of
        Inl e \<Rightarrow> if e = no_string then Some (rd, []) else None
      | Inr (t, line) \<Rightarrow>
          (let (rd, i) = label_index output t rd
           in Option.bind (symbolList output line rd) (\<lambda>(rd, ns). Some (rd, i # ns))))"

definition isNonNegInt :: "string \<Rightarrow> bool" where
  "isNonNegInt p \<longleftrightarrow> p \<noteq> [] \<and> list_all digit_char p"

section \<open>The reader ends\<close>

lemma bind_error_Inr: "bind_error x f = Inr y \<longleftrightarrow> (\<exists>z. x = Inr z \<and> f z = Inr y)"
  by (cases x) simp_all

lemma require_Inr: "require rd x = Inr y \<longleftrightarrow> x = Some y"
  by (auto simp: require_def split: option.splits)

lemma require_string_Inr: "require_string rd s = Inr r \<longleftrightarrow> getString s = Inr r"
  by (auto simp: require_string_def split: sum.splits string_error.splits)

lemmas reading_simps = bind_error_Inr require_Inr require_string_Inr

lemma require_char_less: "require_char c rd s = Inr s' \<Longrightarrow> istr_len s' < istr_len s"
  by (auto simp: require_char_def reading_simps split: if_splits dest: in_char_less)

lemma read_iow_le:
  assumes r: "read_iow rd c s = Inr (rd', i, u, w, s')"
  shows "istr_len s' \<le> istr_len s"
proof (cases "end_iow c")
  case True
  then show ?thesis using r by (simp add: read_iow_def)
next
  case False
  obtain buf s1 c2 s2 where 1: "getString s = Inr (buf, s1)" "peek_char s1 = Some (c2, s2)"
    using r False by (auto simp: read_iow_def reading_simps)
  have l2: "istr_len s2 \<le> istr_len s" using getString_less [OF 1(1)] peek_char_le [OF 1(2)] by simp
  show ?thesis
  proof (cases "end_iow c2")
    case True
    then show ?thesis using r False 1 l2 by (auto simp: read_iow_def reading_simps Let_def case_prod_unfold split: if_splits)
  next
    case c2: False
    obtain buf2 s3 c3 s4 where 2: "getString s2 = Inr (buf2, s3)" "peek_char s3 = Some (c3, s4)"
      using r False 1 c2 by (auto simp: read_iow_def reading_simps Let_def case_prod_unfold)
    have l4: "istr_len s4 \<le> istr_len s2" using getString_less [OF 2(1)] peek_char_le [OF 2(2)] by simp
    show ?thesis
    proof (cases "end_iow c3")
      case True
      then show ?thesis
        using r False 1 c2 2 l2 l4 by (auto simp: read_iow_def reading_simps Let_def case_prod_unfold split: if_splits)
    next
      case c3: False
      obtain w' s5 c4 where 3: "lw_read s4 = Some (w', s5)" "peek_char s5 = Some (c4, s')"
        using r False 1 c2 2 c3 by (auto simp: read_iow_def reading_simps Let_def case_prod_unfold split: if_splits)
      show ?thesis using lw_read_le [OF 3(1)] peek_char_le [OF 3(2)] l2 l4 by simp
    qed
  qed
qed

lemma read_group_le: "read_group rd a s = Inr (a', s') \<Longrightarrow> istr_len s' \<le> istr_len s"
proof -
  assume r: "read_group rd a s = Inr (a', s')"
  then obtain c s1 where 1: "peek_char s = Some (c, s1)" by (auto simp: read_group_def reading_simps)
  note p1 = peek_char_le [OF 1]
  show ?thesis
  proof (cases "c = CHR ''!''")
    case True
    then obtain c2 s2 where 2: "peek_char (Some (tl (the s1))) = Some (c2, s2)"
      and "s' = s2 \<or> (\<exists>g. in_unsigned s2 = Some (g, s'))"
      using r 1 by (auto simp: read_group_def reading_simps split: if_splits)
    then have "istr_len s' \<le> istr_len s2" using in_unsigned_le by auto
    then show ?thesis using peek_char_le [OF 2] p1 by auto
  next
    case False
    then show ?thesis using r 1 p1 by (auto simp: read_group_def reading_simps)
  qed
qed

lemma read_arc_le: "read_arc src_state dest_state rd s = Inr (p, rd', s') \<Longrightarrow> istr_len s' \<le> istr_len s"
proof -
  assume r: "read_arc src_state dest_state rd s = Inr (p, rd', s')"
  then obtain c s1 where 1: "peek_char s = Some (c, s1)" by (auto simp: read_arc_def reading_simps)
  note p1 = peek_char_le [OF 1]
  obtain c2 s2 where 2: "(if c = CHR ''('' then require rd (peek_char (Some (tl (the s1)))) else Inr (c, s1)) = Inr (c2, s2)"
      and r2: "\<exists>rd2 i u w s3 a. read_iow rd c2 s2 = Inr (rd2, i, u, w, s3) \<and> read_group rd2 (mk_arc i u dest_state w) s3 = Inr (a, s')"
    using r 1 by (auto simp: read_arc_def reading_simps Let_def split: if_splits)
  have "istr_len s2 \<le> istr_len s1"
    using 2 p1 peek_char_le [of "Some (tl (the s1))" c2 s2] by (auto simp: reading_simps split: if_splits)
  then show ?thesis using r2 p1 read_iow_le read_group_le by (meson order.trans)
qed

lemma read_arcs_returns: "\<exists>r. read_arcs src_state dest_state rd s = Some r \<and> (\<forall>rd' s'. r = Inr (rd', s') \<longrightarrow> istr_len s' \<le> istr_len s)"
proof (induction "istr_len s" arbitrary: rd s rule: less_induct)
  case less
  show ?case
  proof (cases "read_arc src_state dest_state rd s")
    case (Inl e)
    then show ?thesis by (subst read_arcs.simps) simp
  next
    case (Inr y)
    obtain p rd1 s1 where a: "read_arc src_state dest_state rd s = Inr (p, rd1, s1)" using Inr by (metis prod_cases3)
    note l = read_arc_le [OF a]
    show ?thesis
    proof (cases "p")
      case False
      then show ?thesis using a l by (subst read_arcs.simps) simp
    next
      case True
      show ?thesis
      proof (cases "bind_error (require_char CHR '')'' rd1 s1) (\<lambda>s. require rd1 (peek_char s))")
        case (Inl e)
        then show ?thesis using a True by (subst read_arcs.simps) simp
      next
        case (Inr z)
        obtain c s2 where z: "z = (c, s2)" by fastforce
        then have s2: "istr_len s2 < istr_len s1"
          using Inr by (auto simp: reading_simps dest!: require_char_less peek_char_le)
        then have "istr_len s2 < istr_len s" using l by simp
        from less.hyps [OF this, of rd1] obtain r where "read_arcs src_state dest_state rd1 s2 = Some r"
          "\<forall>rd' s'. r = Inr (rd', s') \<longrightarrow> istr_len s' \<le> istr_len s2" by blast
        then show ?thesis using a True Inr z s2 l by (subst read_arcs.simps) (auto intro: order.trans [OF _ less_imp_le])
      qed
    qed
  qed
qed

lemma read_dest_less: "read_dest rd s = Inr (rd', st, s') \<Longrightarrow> istr_len s' < istr_len s"
  by (auto simp: read_dest_def reading_simps Let_def case_prod_unfold split: if_splits dest: getString_less)

lemma read_dests_returns: "\<exists>r. read_dests src_state rd s = Some r \<and> (\<forall>rd' s'. r = Inr (rd', s') \<longrightarrow> istr_len s' \<le> istr_len s)"
proof (induction "istr_len s" arbitrary: rd s rule: less_induct)
  case less
  show ?case
  proof (cases "require rd (peek_char s)")
    case (Inl e)
    then show ?thesis by (subst read_dests.simps) simp
  next
    case (Inr y)
    obtain c s1 where y: "y = (c, s1)" by fastforce
    have p: "istr_len s1 \<le> istr_len s" "\<exists>r. s1 = Some (c # r)" using Inr y peek_char_le by (auto simp: reading_simps)
    show ?thesis
    proof (cases "c = CHR '')''")
      case True
      then show ?thesis using Inr y p by (subst read_dests.simps) simp
    next
      case c: False
      let ?s = "if c = CHR ''('' then Some (tl (the s1)) else s1"
      have ls: "istr_len ?s \<le> istr_len s" using p by auto
      show ?thesis
      proof (cases "read_dest rd ?s")
        case (Inl e)
        then show ?thesis using Inr y c by (subst read_dests.simps) simp
      next
        case d: (Inr x)
        obtain rd1 st s2 where x: "x = (rd1, st, s2)" using prod_cases3 by blast
        have l2: "istr_len s2 < istr_len s" using read_dest_less d x ls by fastforce
        obtain ra where ra: "read_arcs src_state st rd1 s2 = Some ra" "\<forall>rd' s'. ra = Inr (rd', s') \<longrightarrow> istr_len s' \<le> istr_len s2"
          using read_arcs_returns by blast
        show ?thesis
        proof (cases ra)
          case (Inl e)
          then show ?thesis using Inr y c d x ra by (subst read_dests.simps) simp
        next
          case a: (Inr z)
          obtain rd2 s3 where z: "z = (rd2, s3)" by fastforce
          have l3: "istr_len s3 < istr_len s" using ra(2) a z l2 by fastforce
          show ?thesis
          proof (cases "c = CHR ''('' \<and> (\<exists>s4. require_char CHR '')'' rd2 s3 = Inr s4)")
            case False
            then show ?thesis
              using Inr y c d x ra(1) a z l3 by (subst read_dests.simps) (cases "require_char CHR '')'' rd2 s3"; auto)
          next
            case True
            then obtain s4 where s4: "require_char CHR '')'' rd2 s3 = Inr s4" by blast
            then have l4: "istr_len s4 < istr_len s" using l3 require_char_less by fastforce
            from less.hyps [OF this, of rd2] obtain r where "read_dests src_state rd2 s4 = Some r"
              "\<forall>rd' s'. r = Inr (rd', s') \<longrightarrow> istr_len s' \<le> istr_len s4" by blast
            then show ?thesis
              using Inr y c d x ra(1) a z True s4 l4 by (subst read_dests.simps) (auto intro: order.trans [OF _ less_imp_le])
          qed
        qed
      qed
    qed
  qed
qed

lemma skip_comment_le: "istr_len (skip_comment s) \<le> istr_len s"
proof -
  have "istr_len (skip_comment_text t) \<le> length t" for t
  proof (induction t rule: skip_comment_text.induct)
    case (1 t)
    show ?case
    proof (cases "skip_ws t")
      case Nil
      then show ?thesis by (subst skip_comment_text.simps) (simp only: list.case istr_len_simps le0)
    next
      case (Cons c r)
      have l: "Suc (length r) \<le> length t" using skip_ws_length [of t] Cons by simp
      show ?thesis
      proof (cases "c = CHR ''%'' \<and> dropWhile (\<lambda>c. c \<noteq> newline) r \<noteq> []")
        case False
        then show ?thesis using Cons l by (subst skip_comment_text.simps) (auto simp del: dropWhile_eq_Nil_conv)
      next
        case True
        then obtain n r' where d: "dropWhile (\<lambda>c. c \<noteq> newline) r = n # r'" by (cases "dropWhile (\<lambda>c. c \<noteq> newline) r") auto
        have "Suc (length r') \<le> length r" using length_dropWhile_le [of "\<lambda>c. c \<noteq> newline" r] d by simp
        moreover have "istr_len (skip_comment_text r') \<le> length r'" using "1.IH" [OF Cons _ d] True by simp
        ultimately show ?thesis using Cons True d l by (subst skip_comment_text.simps) simp
      qed
    qed
  qed
  then show ?thesis by (cases s) (simp_all add: skip_comment_def)
qed

lemma read_lines_returns: "\<exists>r. read_lines rd s = Some r"
proof (induction "istr_len s" arbitrary: rd s rule: less_induct)
  case less
  show ?case
  proof (cases "in_char s")
    case None
    then show ?thesis by (subst read_lines.simps) simp
  next
    case (Some y)
    obtain c s1 where y: "y = (c, s1)" by fastforce
    have l1: "istr_len s1 < istr_len s" using in_char_less Some y by simp
    show ?thesis
    proof (cases "read_source rd c s1")
      case (Inl e)
      then show ?thesis using Some y by (subst read_lines.simps) simp
    next
      case (Inr x)
      obtain rd1 st s2 where x: "x = (rd1, st, s2)" using prod_cases3 by blast
      have "istr_len s2 < istr_len (skip_comment s1)"
        using Inr x read_dest_less by (fastforce simp: read_source_def Let_def split: if_splits)
      then have l2: "istr_len s2 < istr_len s" using skip_comment_le [of s1] l1 by simp
      obtain ra where ra: "read_dests st rd1 s2 = Some ra" "\<forall>rd' s'. ra = Inr (rd', s') \<longrightarrow> istr_len s' \<le> istr_len s2"
        using read_dests_returns by blast
      show ?thesis
      proof (cases "bind_error ra (\<lambda>(rd, s). bind_error (require_char CHR '')'' rd s) (\<lambda>s. Inr (rd, s)))")
        case (Inl e)
        then show ?thesis using Some y Inr x ra(1) by (subst read_lines.simps) simp
      next
        case z: (Inr z)
        obtain rd2 s3 where z': "z = (rd2, s3)" by fastforce
        then obtain s4 where "ra = Inr (rd2, s4)" "require_char CHR '')'' rd2 s4 = Inr s3" using z by (auto simp: reading_simps)
        then have "istr_len s3 < istr_len s" using ra(2) l2 require_char_less by fastforce
        from less.hyps [OF this] show ?thesis using Some y Inr x ra(1) z z' by (subst read_lines.simps) simp
      qed
    qed
  qed
qed

section \<open>What is read is well formed\<close>

definition labels_count :: "LabelType \<Rightarrow> mach \<Rightarrow> nat" where
  "labels_count dir mh = length (names (the (snd mh ! the (alph (fst mh) dir))))"

definition alphs_ok :: "mach \<Rightarrow> bool" where
  "alphs_ok mh \<longleftrightarrow> (\<forall>dir \<in> {kInput, kOutput}. \<exists>p a. alph (fst mh) dir = Some p \<and> p < length (snd mh) \<and> snd mh ! p = Some a \<and>
     alph_ok a \<and> no_holes a \<and> names a \<noteq> [])"

definition arcs_ok :: "mach \<Rightarrow> bool" where
  "arcs_ok mh \<longleftrightarrow> (\<forall>s \<in> set (states (fst mh)). state_size s = length (arcs s) \<and>
     (\<forall>a \<in> set (arcs s). arc_dest a < numStates (fst mh) \<and> arc_in a < labels_count kInput mh \<and> arc_out a < labels_count kOutput mh))"

definition names_ok :: "mach \<Rightarrow> bool" where
  "names_ok mh \<longleftrightarrow> (named_states (fst mh) \<longrightarrow>
     alph_ok (stateNames (fst mh)) \<and> no_holes (stateNames (fst mh)) \<and> length (names (stateNames (fst mh))) = numStates (fst mh))"

definition mach_ok :: "mach \<Rightarrow> bool" where
  "mach_ok mh \<longleftrightarrow> alphs_ok mh \<and> arcs_ok mh \<and> names_ok mh"

text \<open>States and symbols are only added.\<close>

definition mach_grows :: "mach \<Rightarrow> mach \<Rightarrow> bool" where
  "mach_grows mh mh' \<longleftrightarrow> numStates (fst mh) \<le> numStates (fst mh') \<and> named_states (fst mh') = named_states (fst mh) \<and>
     final (fst mh') = final (fst mh) \<and> (\<forall>dir. labels_count dir mh \<le> labels_count dir mh')"

lemma mach_grows_refl [simp]: "mach_grows mh mh"
  by (simp add: mach_grows_def)

lemma mach_grows_trans: "mach_grows a b \<Longrightarrow> mach_grows b c \<Longrightarrow> mach_grows a c"
  by (auto simp: mach_grows_def intro: order.trans)

lemma mach_growsD:
  "mach_grows mh mh' \<Longrightarrow> i < numStates (fst mh) \<Longrightarrow> i < numStates (fst mh')"
  "mach_grows mh mh' \<Longrightarrow> i < labels_count dir mh \<Longrightarrow> i < labels_count dir mh'"
  by (auto simp: mach_grows_def intro: order.strict_trans2)

lemma getString_nonempty: "getString s = Inr (t, s') \<Longrightarrow> t \<noteq> []"
proof -
  assume g: "getString s = Inr (t, s')"
  then obtain c s1 where c: "in_char s = Some (c, s1)" by (auto simp: getString_def split: option.splits)
  then have "\<not> isspace c" by (cases s) (auto simp: in_char_def split: list.splits dest: dropWhile_eq_Cons_conv [THEN iffD1])
  then have "strip_cr (c # u) \<noteq> []" for u by (auto simp: strip_cr_def isspace_def)
  then show ?thesis using g c by (auto simp: getString_def Let_def split: if_splits)
qed

lemma label_index_ok:
  assumes ok: "mach_ok (rd_mach rd)" and d: "dir \<in> {kInput, kOutput}" and b: "buf \<noteq> []" and r: "label_index dir buf rd = (rd', i)"
  shows "mach_ok (rd_mach rd')" "mach_grows (rd_mach rd) (rd_mach rd')" "i < labels_count dir (rd_mach rd')"
proof -
  obtain M h where rd: "rd_mach rd = (M, h)" by fastforce
  obtain p a where p: "alph M dir = Some p" "p < length h" "h ! p = Some a" "alph_ok a" "no_holes a" "names a \<noteq> []"
    using ok d unfolding mach_ok_def alphs_ok_def rd by auto
  obtain a' j where ix: "indexOf buf a = (a', j)" by fastforce
  have rd': "rd' = rd\<lparr>rd_mach := (M, h[p := Some a'])\<rparr>" "i = j" using r ix p by (simp_all add: label_index_def rd Let_def)
  have a': "alph_ok a'" "no_holes a'" "names a' \<noteq> []" "length (names a) \<le> length (names a')" "j < length (names a')"
    using indexOf_cases [OF p(4) ix] p(4,5,6) b alph_ok_iff [OF p(4) b, of j] by (auto simp: no_holes_def)
  have lc: "labels_count e (M, h) \<le> labels_count e (M, h[p := Some a'])" for e
    using a'(4) p(2,3) by (cases "the (alph M e) = p") (simp_all add: labels_count_def)
  then show g: "mach_grows (rd_mach rd) (rd_mach rd')" by (simp add: rd rd' mach_grows_def)
  show "i < labels_count dir (rd_mach rd')" using a'(5) p(1,2) by (simp add: rd' labels_count_def)
  have "alphs_ok (M, h[p := Some a'])"
    unfolding alphs_ok_def
  proof
    fix e assume "e \<in> {kInput, kOutput}"
    then obtain q b where q: "alph M e = Some q" "q < length h" "h ! q = Some b" "alph_ok b" "no_holes b" "names b \<noteq> []"
      using ok unfolding mach_ok_def alphs_ok_def rd by auto
    then show "\<exists>p' b. alph (fst (M, h[p := Some a'])) e = Some p' \<and> p' < length (snd (M, h[p := Some a'])) \<and>
        snd (M, h[p := Some a']) ! p' = Some b \<and> alph_ok b \<and> no_holes b \<and> names b \<noteq> []"
      using a' by (cases "q = p") simp_all
  qed
  moreover have "arcs_ok (M, h[p := Some a'])"
    using ok lc [of kInput] lc [of kOutput] unfolding mach_ok_def arcs_ok_def rd by (fastforce intro: order.strict_trans2)
  ultimately show "mach_ok (rd_mach rd')" using ok by (simp add: mach_ok_def names_ok_def rd rd')
qed

lemma arcs_ok_more_states:
  assumes "arcs_ok (M, h)" "labels_count kInput (M', h) = labels_count kInput (M, h)" "labels_count kOutput (M', h) = labels_count kOutput (M, h)"
    "states M' = states M @ replicate k state_new"
  shows "arcs_ok (M', h)"
  using assms by (fastforce simp: arcs_ok_def state_new_def)

lemma getStateIndex_ok:
  assumes ok: "mach_ok (rd_mach rd)" and b: "buf \<noteq> []" and r: "getStateIndex buf rd = (rd', st)"
  shows "mach_ok (rd_mach rd')" "mach_grows (rd_mach rd) (rd_mach rd')" "st \<noteq> uint_minus1 \<Longrightarrow> st < numStates (fst (rd_mach rd'))"
proof -
  obtain M h where rd: "rd_mach rd = (M, h)" by fastforce
  have "mach_ok (rd_mach rd') \<and> mach_grows (rd_mach rd) (rd_mach rd') \<and> (st \<noteq> uint_minus1 \<longrightarrow> st < numStates (fst (rd_mach rd')))"
  proof (cases "named_states M")
    case False
    obtain v e where v: "strtol buf = (v, e)" by fastforce
    let ?st = "nat (v mod 2 ^ 32)" and ?M = "M\<lparr>states := resize_up_for_index (nat (v mod 2 ^ 32)) (states M)\<rparr>"
    show ?thesis
    proof (cases "e = []")
      case True
      then have e: "rd' = rd\<lparr>rd_mach := (?M, h)\<rparr>" "st = ?st" using r False v by (auto simp: getStateIndex_def rd Let_def)
      have "arcs_ok (?M, h)"
        by (rule arcs_ok_more_states [of M h]) (use ok in \<open>simp_all add: mach_ok_def rd labels_count_def resize_up_for_index_def\<close>)
      then show ?thesis
        using ok False by (auto simp: e rd mach_ok_def alphs_ok_def names_ok_def mach_grows_def labels_count_def resize_up_for_index_def)
    qed (use r False v b ok in \<open>simp add: getStateIndex_def rd\<close>)
  next
    case True
    have n: "alph_ok (stateNames M)" "no_holes (stateNames M)" "length (names (stateNames M)) = numStates M"
      using ok True by (simp_all add: mach_ok_def names_ok_def rd)
    obtain nm j where ix: "indexOf buf (stateNames M) = (nm, j)" by fastforce
    note c = indexOf_cases [OF n(1) ix]
    have j: "j < length (names nm)" "alph_ok nm" "no_holes nm"
      using c n alph_ok_iff [OF n(1) b, of j] b by (auto simp: no_holes_def)
    define M' where "M' = (if j \<ge> numStates M then M\<lparr>stateNames := nm, states := states M @ [state_new]\<rparr> else M\<lparr>stateNames := nm\<rparr>)"
    have e: "rd' = rd\<lparr>rd_mach := (M', h)\<rparr>" "st = j" using r True ix by (auto simp: getStateIndex_def rd Let_def M'_def)
    have l: "length (names nm) = numStates M'" using c n(3) alph_ok_iff [OF n(1) b, of j] by (auto simp: M'_def)
    have m: "named_states M' = named_states M" "final M' = final M" "stateNames M' = nm" "alph M' = alph M"
      "states M' = states M @ replicate (if j \<ge> numStates M then 1 else 0) state_new" by (simp_all add: M'_def)
    have "arcs_ok (M', h)"
      by (rule arcs_ok_more_states [OF _ _ _ m(5)]) (use ok in \<open>simp_all add: mach_ok_def rd labels_count_def m(4)\<close>)
    then show ?thesis
      using ok j l arg_cong [OF m(5), of length]
      by (auto simp: e rd mach_ok_def alphs_ok_def names_ok_def mach_grows_def labels_count_def m(1-4))
  qed
  then show "mach_ok (rd_mach rd')" "mach_grows (rd_mach rd) (rd_mach rd')" "st \<noteq> uint_minus1 \<Longrightarrow> st < numStates (fst (rd_mach rd'))"
    by blast+
qed

lemma arc_adder_add_ok:
  assumes ok: "mach_ok (rd_mach rd)" and i: "i < numStates (fst (rd_mach rd))" "arc_dest a < numStates (fst (rd_mach rd))"
    "arc_in a < labels_count kInput (rd_mach rd)" "arc_out a < labels_count kOutput (rd_mach rd)"
  shows "mach_ok (rd_mach (arc_adder_add i a rd))" "mach_grows (rd_mach rd) (rd_mach (arc_adder_add i a rd))"
proof -
  obtain M h where rd: "rd_mach rd = (M, h)" by fastforce
  define k where "k = rd_added rd i"
  define s where "s = states M ! i"
  define s' where "s' = s\<lparr>arcs := take k (arcs s) @ a # drop k (arcs s), state_size := state_size s + 1\<rparr>"
  have e: "rd_mach (arc_adder_add i a rd) = (M\<lparr>states := (states M)[i := s']\<rparr>, h)"
    by (simp add: arc_adder_add_def rd s'_def s_def k_def Let_def)
  have ok_s: "state_size t = length (arcs t) \<and> (\<forall>b \<in> set (arcs t). arc_dest b < numStates M \<and> arc_in b < labels_count kInput (M, h) \<and>
      arc_out b < labels_count kOutput (M, h))" if "t \<in> set (states M)" for t
    using ok that by (simp add: mach_ok_def arcs_ok_def rd)
  have "s \<in> set (states M)" using i(1) by (simp add: s_def rd)
  from ok_s [OF this] have "state_size s' = length (arcs s') \<and> (\<forall>b \<in> set (arcs s'). arc_dest b < numStates M \<and>
      arc_in b < labels_count kInput (M, h) \<and> arc_out b < labels_count kOutput (M, h))"
    using i(2-) by (auto simp: s'_def rd dest: in_set_takeD in_set_dropD)
  then have "arcs_ok (M\<lparr>states := (states M)[i := s']\<rparr>, h)"
    using ok_s set_update_subset_insert [of "states M" i s'] by (fastforce simp: arcs_ok_def labels_count_def)
  then show "mach_ok (rd_mach (arc_adder_add i a rd))" using ok by (simp add: e rd mach_ok_def alphs_ok_def names_ok_def)
  show "mach_grows (rd_mach rd) (rd_mach (arc_adder_add i a rd))" by (simp add: e rd mach_grows_def labels_count_def)
qed

lemma epsilon_label: "mach_ok mh \<Longrightarrow> dir \<in> {kInput, kOutput} \<Longrightarrow> epsilon_index < labels_count dir mh"
  by (auto simp: mach_ok_def alphs_ok_def labels_count_def epsilon_index_def)

lemma label_pair_ok:
  assumes ok: "mach_ok (rd_mach rd)" and b: "t \<noteq> []" "u \<noteq> []"
    and r: "label_index kInput t rd = (rd1, i)" "label_index kOutput u rd1 = (rd2, j)"
  shows "mach_ok (rd_mach rd2) \<and> mach_grows (rd_mach rd) (rd_mach rd2) \<and> i < labels_count kInput (rd_mach rd2) \<and> j < labels_count kOutput (rd_mach rd2)"
proof -
  have 1: "mach_ok (rd_mach rd1)" "mach_grows (rd_mach rd) (rd_mach rd1)" "i < labels_count kInput (rd_mach rd1)"
    using label_index_ok [OF ok _ b(1) r(1)] by simp_all
  have 2: "mach_ok (rd_mach rd2)" "mach_grows (rd_mach rd1) (rd_mach rd2)" "j < labels_count kOutput (rd_mach rd2)"
    using label_index_ok [OF 1(1) _ b(2) r(2)] by simp_all
  show ?thesis using 1 2 mach_grows_trans [OF 1(2) 2(2)] mach_growsD(2) [OF 2(2) 1(3)] by blast
qed

lemma read_iow_ok:
  assumes ok: "mach_ok (rd_mach rd)" and r: "read_iow rd c s = Inr (rd', i, u, w, s')"
  shows "mach_ok (rd_mach rd') \<and> mach_grows (rd_mach rd) (rd_mach rd') \<and> i < labels_count kInput (rd_mach rd') \<and> u < labels_count kOutput (rd_mach rd')"
proof -
  have eps: ?thesis if "rd' = rd" "i = epsilon_index" "u = epsilon_index" using that ok epsilon_label by simp
  show ?thesis
  proof (cases "end_iow c")
    case True
    then show ?thesis using r eps by (simp add: read_iow_def)
  next
    case False
    obtain buf s1 c2 s2 where 1: "getString s = Inr (buf, s1)" "peek_char s1 = Some (c2, s2)"
      using r False by (auto simp: read_iow_def reading_simps)
    obtain rd1 k where l1: "label_index kInput buf rd = (rd1, k)" by fastforce
    note b = getString_nonempty [OF 1(1)]
    note p1 = label_pair_ok [OF ok b b l1]
    show ?thesis
    proof (cases "end_iow c2")
      case True
      show ?thesis
      proof (cases "snd (setString setZero buf)")
        case True
        then show ?thesis using r False 1 \<open>end_iow c2\<close> eps by (auto simp: read_iow_def reading_simps Let_def case_prod_unfold)
      next
        case nw: False
        then have "label_index kOutput buf rd1 = (rd', u)" "i = k"
          using r False 1 \<open>end_iow c2\<close> l1 by (auto simp: read_iow_def reading_simps Let_def case_prod_unfold prod_eq_iff)
        then show ?thesis using p1 by simp
      qed
    next
      case c2: False
      obtain buf2 s3 c3 s4 where 2: "getString s2 = Inr (buf2, s3)" "peek_char s3 = Some (c3, s4)"
        using r False 1 c2 by (auto simp: read_iow_def reading_simps Let_def case_prod_unfold)
      note p2 = label_pair_ok [OF ok b getString_nonempty [OF 2(1)] l1]
      have "i = k \<and> (label_index kOutput buf rd1 = (rd', u) \<or> label_index kOutput buf2 rd1 = (rd', u))"
        using r False 1 c2 2 l1 by (auto simp: read_iow_def reading_simps Let_def case_prod_unfold prod_eq_iff split: if_splits)
      then show ?thesis using p1 p2 by blast
    qed
  qed
qed

lemma read_group_arc: "read_group rd a s = Inr (a', s') \<Longrightarrow> arc_dest a' = arc_dest a \<and> arc_in a' = arc_in a \<and> arc_out a' = arc_out a"
  by (auto simp: read_group_def reading_simps setGroup_def setLocked_def split: if_splits)

lemma read_arc_ok:
  assumes ok: "mach_ok (rd_mach rd)" and st: "src_state < numStates (fst (rd_mach rd))" "dest_state < numStates (fst (rd_mach rd))"
    and r: "read_arc src_state dest_state rd s = Inr (p, rd', s')"
  shows "mach_ok (rd_mach rd') \<and> mach_grows (rd_mach rd) (rd_mach rd')"
proof -
  obtain c s1 rd1 i u w s2 a where "read_iow rd c s1 = Inr (rd1, i, u, w, s2)" "read_group rd1 (mk_arc i u dest_state w) s2 = Inr (a, s')"
      "rd' = arc_adder_add src_state a rd1"
    using r by (auto simp: read_arc_def reading_simps Let_def)
  moreover from this have "arc_dest a = dest_state" "arc_in a = i" "arc_out a = u" using read_group_arc by (fastforce simp: mk_arc_def)+
  moreover note io = read_iow_ok [OF ok calculation(1)]
  moreover from io have g: "mach_grows (rd_mach rd) (rd_mach rd1)" by blast
  ultimately show ?thesis
    using arc_adder_add_ok [of rd1 src_state a] mach_growsD(1) [OF g st(1)] mach_growsD(1) [OF g st(2)] mach_grows_trans [OF g] by simp
qed

lemma read_arcs_ok:
  assumes "mach_ok (rd_mach rd)" "src_state < numStates (fst (rd_mach rd))" "dest_state < numStates (fst (rd_mach rd))"
    and "read_arcs src_state dest_state rd s = Some (Inr (rd', s'))"
  shows "mach_ok (rd_mach rd') \<and> mach_grows (rd_mach rd) (rd_mach rd')"
  using assms
proof (induction "istr_len s" arbitrary: rd s rule: less_induct)
  case less
  obtain p rd1 s1 where a: "read_arc src_state dest_state rd s = Inr (p, rd1, s1)"
    using less.prems(4) by (subst (asm) read_arcs.simps) (auto split: sum.splits)
  note ok1 = read_arc_ok [OF less.prems(1-3) a]
  show ?case
  proof (cases "p \<and> rd1 \<noteq> rd'")
    case False
    then show ?thesis using ok1 less.prems(4) a by (subst (asm) read_arcs.simps) (auto split: sum.splits if_splits)
  next
    case True
    show ?thesis
    proof (cases "\<exists>c s2. bind_error (require_char CHR '')'' rd1 s1) (\<lambda>s. require rd1 (peek_char s)) = Inr (c, s2) \<and> c \<noteq> CHR '')''")
      case False
      then show ?thesis using ok1 less.prems(4) a True by (subst (asm) read_arcs.simps) (auto split: sum.splits if_splits)
    next
      case go: True
      then obtain c s2 where s2: "bind_error (require_char CHR '')'' rd1 s1) (\<lambda>s. require rd1 (peek_char s)) = Inr (c, s2)" "c \<noteq> CHR '')''"
        by blast
      then have "istr_len s2 < istr_len s1" by (auto simp: reading_simps dest!: require_char_less peek_char_le)
      then have l: "istr_len s2 < istr_len s" using read_arc_le [OF a] by simp
      have "read_arcs src_state dest_state rd1 s2 = Some (Inr (rd', s'))"
        using less.prems(4) a True s2 by (subst (asm) read_arcs.simps) simp
      from less.hyps [OF l _ _ _ this] ok1 less.prems(2,3) show ?thesis using mach_growsD(1) mach_grows_trans by metis
    qed
  qed
qed

lemma read_dest_ok:
  assumes ok: "mach_ok (rd_mach rd)" and r: "read_dest rd s = Inr (rd', st, s')"
  shows "mach_ok (rd_mach rd') \<and> mach_grows (rd_mach rd) (rd_mach rd') \<and> st < numStates (fst (rd_mach rd'))"
proof -
  obtain buf where b: "getString s = Inr (buf, s')" "getStateIndex buf rd = (rd', st)" "st \<noteq> uint_minus1"
    using r by (auto simp: read_dest_def reading_simps Let_def case_prod_unfold prod_eq_iff split: if_splits)
  show ?thesis using getStateIndex_ok [OF ok getString_nonempty [OF b(1)] b(2)] b(3) by simp
qed

lemma read_dests_ok:
  assumes "mach_ok (rd_mach rd)" "src_state < numStates (fst (rd_mach rd))" "read_dests src_state rd s = Some (Inr (rd', s'))"
  shows "mach_ok (rd_mach rd') \<and> mach_grows (rd_mach rd) (rd_mach rd')"
  using assms
proof (induction "istr_len s" arbitrary: rd s rule: less_induct)
  case less
  obtain c s1 where p: "peek_char s = Some (c, s1)"
    using less.prems(3) by (subst (asm) read_dests.simps) (auto simp: require_def split: option.splits)
  note p' = peek_char_le [OF p]
  show ?case
  proof (cases "c = CHR '')''")
    case True
    then show ?thesis using less.prems(1,3) p by (subst (asm) read_dests.simps) (simp add: require_def)
  next
    case c: False
    let ?s = "if c = CHR ''('' then Some (tl (the s1)) else s1"
    obtain rd1 st s2 where d: "read_dest rd ?s = Inr (rd1, st, s2)"
      using less.prems(3) p c by (subst (asm) read_dests.simps) (auto simp: require_def split: sum.splits)
    note ok1 = read_dest_ok [OF less.prems(1) d]
    obtain rd2 s3 where a: "read_arcs src_state st rd1 s2 = Some (Inr (rd2, s3))"
      using less.prems(3) p c d by (subst (asm) read_dests.simps) (auto simp: require_def split: sum.splits option.splits)
    have src1: "src_state < numStates (fst (rd_mach rd1))" using ok1 less.prems(2) mach_growsD(1) by blast
    have ok2: "mach_ok (rd_mach rd2) \<and> mach_grows (rd_mach rd1) (rd_mach rd2)" using read_arcs_ok [OF _ src1 _ a] ok1 by blast
    have g2: "mach_grows (rd_mach rd) (rd_mach rd2)" using ok1 ok2 mach_grows_trans by blast
    show ?thesis
    proof (cases "c = CHR ''(''")
      case False
      then show ?thesis using less.prems(3) p c d a ok2 g2 by (subst (asm) read_dests.simps) (simp add: require_def)
    next
      case True
      obtain s4 where s4: "require_char CHR '')'' rd2 s3 = Inr s4"
        using less.prems(3) p c d a True by (subst (asm) read_dests.simps) (auto simp: require_def split: sum.splits)
      have "read_dests src_state rd2 s4 = Some (Inr (rd', s'))"
        using less.prems(3) p c d a True s4 by (subst (asm) read_dests.simps) (simp add: require_def)
      moreover have "istr_len s3 \<le> istr_len s2" using read_arcs_returns [of src_state st rd1 s2] a by simp
      then have "istr_len s4 < istr_len s" using require_char_less [OF s4] read_dest_less [OF d] p' by (auto split: if_splits)
      moreover have "src_state < numStates (fst (rd_mach rd2))" using src1 ok2 mach_growsD(1) by blast
      ultimately have "mach_ok (rd_mach rd') \<and> mach_grows (rd_mach rd2) (rd_mach rd')" using less.hyps ok2 by blast
      then show ?thesis using g2 mach_grows_trans by blast
    qed
  qed
qed

lemma read_lines_ok:
  assumes "mach_ok (rd_mach rd)" "read_lines rd s = Some (Inr rd')"
  shows "mach_ok (rd_mach rd') \<and> mach_grows (rd_mach rd) (rd_mach rd')"
  using assms
proof (induction "istr_len s" arbitrary: rd s rule: less_induct)
  case less
  show ?case
  proof (cases "in_char s")
    case None
    then show ?thesis using less.prems by (subst (asm) read_lines.simps) simp
  next
    case (Some y)
    obtain c s1 where y: "in_char s = Some (c, s1)" using Some by (cases y) simp
    obtain rd1 st s2 where so: "read_source rd c s1 = Inr (rd1, st, s2)"
      using less.prems(2) y by (subst (asm) read_lines.simps) (auto split: sum.splits)
    then have rdst: "read_dest rd (skip_comment s1) = Inr (rd1, st, s2)" by (simp add: read_source_def Let_def split: if_splits)
    note ok1 = read_dest_ok [OF less.prems(1) rdst]
    obtain ra where ra: "read_dests st rd1 s2 = Some ra" "\<forall>rd' s'. ra = Inr (rd', s') \<longrightarrow> istr_len s' \<le> istr_len s2"
      using read_dests_returns by blast
    obtain rd2 s3 s4 where d: "ra = Inr (rd2, s3)" "require_char CHR '')'' rd2 s3 = Inr s4" "read_lines rd2 s4 = Some (Inr rd')"
      using less.prems(2) y so ra(1)
      by (subst (asm) read_lines.simps) (cases ra; auto simp: bind_error_Inr split: sum.splits)
    have ok2: "mach_ok (rd_mach rd2) \<and> mach_grows (rd_mach rd1) (rd_mach rd2)"
      using read_dests_ok [of rd1 st s2 rd2 s3] ok1 ra(1) d(1) by simp
    have "istr_len s4 < istr_len s"
      using require_char_less [OF d(2)] ra(2) d(1) read_dest_less [OF rdst] skip_comment_le [of s1] in_char_less [OF y] by fastforce
    from less.hyps [OF this _ d(3)] ok1 ok2 show ?thesis using mach_grows_trans by blast
  qed
qed

lemma wfst_init_ok: "mach_ok (wfst_init h)" "states (fst (wfst_init h)) = []" "stateNames (fst (wfst_init h)) = alph_empty"
proof -
  let ?a = "alph_new2 EPSILON_SYMBOL WILDCARD_SYMBOL"
  have e: "alph_ok (alph_add_at EPSILON_SYMBOL alph_empty)" "alph_find (alph_add_at EPSILON_SYMBOL alph_empty) WILDCARD_SYMBOL = None"
    by (simp_all add: alph_add_at_ok alph_find_add_at EPSILON_SYMBOL_def WILDCARD_SYMBOL_def)
  have "alph_ok ?a" unfolding alph_new2_def by (rule alph_add_at_ok [OF e])
  moreover have "names ?a = [EPSILON_SYMBOL, WILDCARD_SYMBOL]" by (simp add: alph_new2_def)
  ultimately show "mach_ok (wfst_init h)"
    by (simp add: mach_ok_def alphs_ok_def arcs_ok_def names_ok_def wfst_init_def initAlphabet_def nth_append no_holes_def
        EPSILON_SYMBOL_def WILDCARD_SYMBOL_def)
qed (simp_all add: wfst_init_def initAlphabet_def)

lemma start_reading_ok:
  assumes r: "start_reading alwaysNamed (wfst_init h) s = Inr (buf, rd, s')"
  shows "mach_ok (rd_mach rd)" "buf \<noteq> []"
proof -
  obtain M h' where m: "wfst_init h = (M, h')" by fastforce
  have w: "mach_ok (M, h')" "states M = []" "stateNames M = alph_empty" using wfst_init_ok [of h] m by simp_all
  have n: "mach_ok (M\<lparr>named_states := b\<rparr>, h')" for b
    using w by (simp add: mach_ok_def alphs_ok_def arcs_ok_def names_ok_def no_holes_def labels_count_def)
  obtain s1 where g: "getString (skip_comment s) = Inr (buf, s1)"
    using r m by (auto simp: start_reading_def reading_simps Let_def case_prod_unfold split: if_splits)
  then show b: "buf \<noteq> []" by (rule getString_nonempty)
  show "mach_ok (rd_mach rd)"
  proof (cases "alwaysNamed \<or> \<not> list_all digit_char buf")
    case True
    then show ?thesis using r m n g by (auto simp: start_reading_def reading_simps)
  next
    case False
    define rd0 where "rd0 = \<lparr>rd_mach = (M\<lparr>named_states := False\<rparr>, h'), rd_added = (\<lambda>_. 0 :: nat)\<rparr>"
    obtain rd1 f where gs: "getStateIndex buf rd0 = (rd1, f)" by fastforce
    have ok1: "mach_ok (rd_mach rd1)" by (rule getStateIndex_ok(1) [OF _ b gs]) (simp add: rd0_def n)
    obtain M1 h1 where m1: "rd_mach rd1 = (M1, h1)" by fastforce
    have "rd_mach rd = (M1\<lparr>final := f\<rparr>, h1)"
      using r m g gs False m1 by (auto simp: start_reading_def reading_simps Let_def rd0_def)
    then show ?thesis using ok1 m1 by (simp add: mach_ok_def alphs_ok_def arcs_ok_def names_ok_def labels_count_def)
  qed
qed

text \<open>C9: the reader ends on every text.  It throws nothing away silently: unless it has met a symbol longer than its buffer, the
  constructor returns a transducer that is marked invalid or has its final state and the states and labels of
  all its arcs in range, and the right number of arcs in every state.\<close>

theorem readLegible_well_formed:
  "\<exists>r. wfst_of_text alwaysNamed text h = Some r \<and>
    (case r of Inl e \<Rightarrow> fst e = Unwritten
     | Inr mh \<Rightarrow> final (fst mh) = invalid_state \<or> (final (fst mh) < numStates (fst mh) \<and> arcs_ok mh))"
proof (cases "start_reading alwaysNamed (wfst_init h) (Some text)")
  case (Inl e)
  then show ?thesis
    by (cases e; cases "fst e") (auto simp: wfst_of_text_def readLegible_def case_prod_unfold)
next
  case (Inr y)
  obtain buf rd s where st: "start_reading alwaysNamed (wfst_init h) (Some text) = Inr (buf, rd, s)" using Inr by (metis prod_cases3)
  obtain r where r: "read_lines rd s = Some r" using read_lines_returns by blast
  show ?thesis
  proof (cases "bind_error r (end_reading buf)")
    case (Inl e)
    then show ?thesis
      using st r by (cases e; cases "fst e") (auto simp: wfst_of_text_def readLegible_def case_prod_unfold)
  next
    case (Inr mh)
    obtain rd' where rd': "r = Inr rd'" "end_reading buf rd' = Inr mh" using Inr by (auto simp: bind_error_Inr)
    have ok: "mach_ok (rd_mach rd')" using read_lines_ok [OF start_reading_ok(1) [OF st]] r rd'(1) by blast
    obtain M h' where m: "rd_mach rd' = (M, h')" by fastforce
    have "final (fst mh) < numStates (fst mh) \<and> arcs_ok mh"
    proof (cases "named_states M")
      case False
      then show ?thesis using rd'(2) m ok by (auto simp: end_reading_def wfst_size_def mach_ok_def split: if_splits)
    next
      case True
      then obtain f where f: "alph_find (stateNames M) buf = Some f" "mh = (M\<lparr>final := f\<rparr>, h')"
        using rd'(2) m by (auto simp: end_reading_def split: option.splits)
      have "f < length (names (stateNames M))" "length (names (stateNames M)) = numStates M"
        using ok True alph_ok_iff [OF _ start_reading_ok(2) [OF st], of "stateNames M" f] f(1) by (auto simp: mach_ok_def names_ok_def m)
      then show ?thesis using ok by (simp add: f(2) m mach_ok_def arcs_ok_def labels_count_def)
    qed
    then show ?thesis using st r rd' by (auto simp: wfst_of_text_def readLegible_def case_prod_unfold)
  qed
qed

end
