(* ===== verification/Legible.thy ===== *)
theory Legible
  imports WfstIO
begin

text \<open>
  \<open>readLegible\<close> reads back what \<open>writeLegible\<close> writes: first the text of one arc, then of a state, then of the transducer.
\<close>

section \<open>Numbers\<close>

lemma decimal_value_digits: "list_all digit_char ds \<Longrightarrow> decimal_value ds = digits_value ds"
proof -
  have "list_all digit_char ds \<Longrightarrow> foldl (\<lambda>n c. 10 * n + digit_val c) x ds = digits_from x ds" for x
    by (induction ds arbitrary: x) (simp_all add: algebra_simps)
  then show "list_all digit_char ds \<Longrightarrow> decimal_value ds = digits_value ds" by (simp add: decimal_value_def)
qed

lemma number_text:
  assumes "n \<le> uint_minus1"
  shows "list_all digit_char (utoa (of_nat n :: 32 word) [])" "decimal_value (utoa (of_nat n :: 32 word) []) = n"
    "utoa (of_nat n :: 32 word) [] \<noteq> []"
proof -
  obtain ds where ds: "utoa (of_nat n :: 32 word) [] = ds @ []" "list_all digit_char ds" "digits_value ds = unat (of_nat n :: 32 word)" "ds \<noteq> []"
    using utoa_value [of "of_nat n :: 32 word" "[]"] by auto
  have "unat (of_nat n :: 32 word) = n" using assms by (simp add: unat_of_nat uint_minus1_def take_bit_eq_mod)
  then show "list_all digit_char (utoa (of_nat n :: 32 word) [])" "decimal_value (utoa (of_nat n :: 32 word) []) = n"
    "utoa (of_nat n :: 32 word) [] \<noteq> []" using ds by (simp_all add: decimal_value_digits)
qed

lemma takeWhile_digits: "list_all digit_char ds \<Longrightarrow> \<not> digit_char c \<Longrightarrow> takeWhile digit_char (ds @ c # r) = ds \<and> dropWhile digit_char (ds @ c # r) = c # r"
  by (induction ds) simp_all

lemma strtol_number: "n \<le> uint_minus1 \<Longrightarrow> strtol (utoa (of_nat n :: 32 word) []) = (int n, [])"
proof -
  assume n: "n \<le> uint_minus1"
  let ?ds = "utoa (of_nat n :: 32 word) []"
  note t = number_text [OF n]
  obtain c cs where c: "?ds = c # cs" using t(3) by (cases ?ds) auto
  then have "digit_char c" using t(1) by simp
  then have nc: "\<not> isspace c" "c \<noteq> CHR ''-''" "c \<noteq> CHR ''+''" by (auto simp: digit_char_def isspace_def)
  have s: "skip_ws ?ds = ?ds" using c nc by simp
  have "takeWhile digit_char ?ds = ?ds" "dropWhile digit_char ?ds = []" using t(1) by (simp_all add: list_all_iff)
  moreover have "int n \<le> 2 ^ 63 - 1" using n by (simp add: uint_minus1_def)
  ultimately show ?thesis using s c nc t(2) unfolding strtol_def s Let_def by (simp add: min_def)
qed

lemma isspace_chars [simp]:
  "\<not> isspace CHR ''(''" "\<not> isspace CHR '')''" "\<not> isspace CHR ''!''" "isspace CHR '' ''" "isspace newline"
  by (simp_all add: isspace_def)

section \<open>The text of an arc\<close>

definition labels :: "string \<Rightarrow> string \<Rightarrow> reader \<Rightarrow> reader \<times> nat \<times> nat" where
  "labels t u rd = (let (rd, i) = label_index kInput t rd; (rd, k) = label_index kOutput u rd in (rd, i, k))"

definition labels_text :: "bool \<Rightarrow> mach \<Rightarrow> logweight FSTArc \<Rightarrow> string" where
  "labels_text brief mh a =
     (let inLet = letter_text mh kInput (arc_in a); outLet = letter_text mh kOutput (arc_out a)
      in if \<not> brief \<or> arc_in a \<noteq> 0 \<or> arc_out a \<noteq> 0
         then '' '' @ inLet @ (if \<not> brief \<or> inLet \<noteq> outLet then '' '' @ outLet else []) else [])"

definition weight_printed :: "bool \<Rightarrow> logweight FSTArc \<Rightarrow> bool" where
  "weight_printed brief a \<longleftrightarrow> \<not> brief \<or> groupId a \<noteq> no_group \<or> arc_weight a \<noteq> setOne"

definition group_text :: "nat \<Rightarrow> string" where
  "group_text g = (if g \<noteq> no_group then ''!'' @ (if g > 0 then utoa (of_nat g :: 32 word) [] else []) else [])"

lemma write_arc_parts:
  "write_arc fmt brief mh a = '' ('' @ stateName (fst mh) (arc_dest a) @ labels_text brief mh a @
     (if weight_printed brief a then '' '' @ lw_print fmt (arc_weight a) else []) @ group_text (groupId a) @ '')''"
proof -
  have "lw_eq w setOne \<longleftrightarrow> w = setOne" for w by (cases w) (auto simp: lw_eq_def setOne_def fl_eq_def)
  then show ?thesis by (auto simp: write_arc_def write_arc_weight_def labels_text_def weight_printed_def group_text_def Let_def)
qed

text \<open>What the text of an arc needs to be read back.  A symbol that can be read as a weight is taken for one where the weight is
  left out.\<close>

definition arc_printable :: "weight_format \<Rightarrow> bool \<Rightarrow> mach \<Rightarrow> logweight FSTArc \<Rightarrow> bool" where
  "arc_printable fmt brief mh a \<longleftrightarrow>
     symbol_text (letter_text mh kInput (arc_in a)) \<and> symbol_text (letter_text mh kOutput (arc_out a)) \<and>
     weight_printable fmt (arc_weight a) \<and> groupId a \<le> no_group \<and>
     (brief \<and> arc_in a = 0 \<and> arc_out a = 0 \<longrightarrow>
        letter_text mh kInput 0 = EPSILON_SYMBOL \<and> letter_text mh kOutput 0 = EPSILON_SYMBOL) \<and>
     (brief \<and> \<not> weight_printed brief a \<and> labels_text brief mh a \<noteq> [] \<longrightarrow>
        \<not> snd (setString setZero (letter_text mh kOutput (arc_out a))))"

definition eps_ok :: "mach \<Rightarrow> bool" where
  "eps_ok mh \<longleftrightarrow> (\<forall>dir \<in> {kInput, kOutput}. names (the (snd mh ! the (alph (fst mh) dir))) ! 0 = EPSILON_SYMBOL)"

lemma label_index_epsilon:
  assumes ok: "mach_ok (rd_mach rd)" "eps_ok (rd_mach rd)" and d: "dir \<in> {kInput, kOutput}"
  shows "label_index dir EPSILON_SYMBOL rd = (rd, 0)"
proof -
  obtain M h where rd: "rd_mach rd = (M, h)" by fastforce
  obtain p a where p: "alph M dir = Some p" "p < length h" "h ! p = Some a" "alph_ok a" "names a \<noteq> []"
    using ok(1) d unfolding mach_ok_def alphs_ok_def rd by auto
  have "names a ! 0 = EPSILON_SYMBOL" using ok(2) d p by (auto simp: eps_ok_def rd)
  then have f: "alph_find a EPSILON_SYMBOL = Some 0" using alph_ok_iff [OF p(4)] p(5) by (simp add: EPSILON_SYMBOL_def)
  obtain a' i where ix: "indexOf EPSILON_SYMBOL a = (a', i)" by fastforce
  then have "a' = a" "i = 0" using indexOf_cases [OF p(4) ix] f by auto
  moreover have "h[p := Some a] = h" using p(3) list_update_id by metis
  moreover have "rd\<lparr>rd_mach := (M, h)\<rparr> = rd" by (rule reader.equality) (simp_all add: rd)
  ultimately show ?thesis using p ix by (simp add: label_index_def rd)
qed

lemma labels_epsilon:
  "mach_ok (rd_mach rd) \<Longrightarrow> eps_ok (rd_mach rd) \<Longrightarrow> labels EPSILON_SYMBOL EPSILON_SYMBOL rd = (rd, 0, 0)"
  by (simp add: labels_def label_index_epsilon)

text \<open>Reading symbols from text: \<open>x\<close> starts with a character that ends the labels.\<close>

definition iow_end :: "string \<Rightarrow> bool" where
  "iow_end x \<longleftrightarrow> x \<noteq> [] \<and> end_iow (hd x)"

lemma iow_end_peek: "iow_end x \<Longrightarrow> peek_char (Some x) = Some (hd x, Some x) \<and> skip_ws x = x"
  by (cases x) (auto simp: iow_end_def peek_char_def end_iow_def isspace_def)

lemma peek_symbol: "symbol_text t \<Longrightarrow> skip_ws s = t @ r \<Longrightarrow> peek_char (Some s) = Some (hd t, Some (t @ r)) \<and> \<not> end_iow (hd t)"
  using symbol_text_hd [of t] by (cases t) (auto simp: peek_char_def end_iow_def)

lemma skip_ws_symbol: "symbol_text t \<Longrightarrow> skip_ws (t @ r) = t @ r \<and> skip_ws ('' '' @ t @ r) = t @ r"
  using symbol_text_hd [of t] by (cases t) (auto simp: isspace_def)

lemma get_symbol_end:
  assumes "symbol_text t" "iow_end x"
  shows "\<exists>s. getString (Some (t @ x)) = Inr (t, Some s) \<and> peek_char (Some s) = Some (hd x, Some x)"
proof -
  obtain c r where x: "x = c # r" "ends_symbol c" using assms(2) by (cases x) (auto simp: iow_end_def end_iow_def ends_symbol_def)
  have "skip_ws (t @ x) = t @ c # r" using skip_ws_symbol [OF assms(1)] x by simp
  from getString_symbol [OF assms(1) x(2) this] obtain s where s: "getString (Some (t @ x)) = Inr (t, Some s)" "skip_ws s = skip_ws x"
    using x by auto
  then show ?thesis using peek_char_same [OF s(2)] iow_end_peek [OF assms(2)] by auto
qed

lemma get_symbol_next:
  assumes "symbol_text t" "symbol_text u"
  shows "\<exists>s. getString (Some (t @ '' '' @ u @ x)) = Inr (t, Some s) \<and> peek_char (Some s) = Some (hd u, Some (u @ x)) \<and> \<not> end_iow (hd u)"
proof -
  have "skip_ws (t @ '' '' @ u @ x) = t @ CHR '' '' # (u @ x)" using skip_ws_symbol [OF assms(1), of "'' '' @ u @ x"] by simp
  from getString_symbol [OF assms(1) _ this] obtain s where
    s: "getString (Some (t @ '' '' @ u @ x)) = Inr (t, Some s)" "skip_ws s = skip_ws (CHR '' '' # (u @ x))" by (auto simp: ends_symbol_def)
  then have "skip_ws s = u @ x" using skip_ws_symbol [OF assms(2), of x] by simp
  from peek_symbol [OF assms(2) this] s(1) show ?thesis by auto
qed

lemma weight_symbol: "weight_text w t \<Longrightarrow> symbol_text t"
  by (simp add: weight_text_def symbol_text_def)

lemma read_iow_one:
  assumes "symbol_text t" "iow_end x"
  shows "read_iow rd (hd t) (Some (t @ x)) =
    (if snd (setString setZero t) then Inr (rd, epsilon_index, epsilon_index, fst (setString setZero t), Some x)
     else (let (rd, i, k) = labels t t rd in Inr (rd, i, k, setOne, Some x)))"
  using get_symbol_end [OF assms] symbol_text_hd [OF assms(1)] assms(2)
  by (auto simp: read_iow_def end_iow_def iow_end_def require_string_def require_def labels_def Let_def case_prod_unfold)

lemma read_iow_two:
  assumes "symbol_text t" "symbol_text u" "iow_end x"
  shows "read_iow rd (hd t) (Some (t @ '' '' @ u @ x)) =
    (if snd (setString setZero u) then (let (rd, i, k) = labels t t rd in Inr (rd, i, k, fst (setString setZero u), Some x))
     else (let (rd, i, k) = labels t u rd in Inr (rd, i, k, setOne, Some x)))"
proof -
  obtain s where s: "getString (Some (t @ '' '' @ u @ x)) = Inr (t, Some s)" "peek_char (Some s) = Some (hd u, Some (u @ x))" "\<not> end_iow (hd u)"
    using get_symbol_next [OF assms(1,2)] by blast
  show ?thesis
    using s get_symbol_end [OF assms(2,3)] symbol_text_hd [OF assms(1)] assms(3)
    by (auto simp: read_iow_def end_iow_def iow_end_def require_string_def require_def labels_def Let_def case_prod_unfold)
qed

lemma read_iow_three:
  assumes "symbol_text t" "symbol_text u" "weight_text w v" "iow_end x"
  shows "read_iow rd (hd t) (Some (t @ '' '' @ u @ '' '' @ v @ x)) = (let (rd, i, k) = labels t u rd in Inr (rd, i, k, w, Some x))"
proof -
  note v = weight_symbol [OF assms(3)]
  obtain s where s: "getString (Some (t @ '' '' @ u @ '' '' @ v @ x)) = Inr (t, Some s)"
      "peek_char (Some s) = Some (hd u, Some (u @ '' '' @ v @ x))" "\<not> end_iow (hd u)"
    using get_symbol_next [OF assms(1,2)] by blast
  obtain s2 where s2: "getString (Some (u @ '' '' @ v @ x)) = Inr (u, Some s2)" "peek_char (Some s2) = Some (hd v, Some (v @ x))" "\<not> end_iow (hd v)"
    using get_symbol_next [OF assms(2) v] by blast
  obtain c r where x: "x = c # r" "c = CHR '')'' \<or> c = CHR ''!''" using assms(4) by (cases x) (auto simp: iow_end_def end_iow_def)
  have "lw_read (Some (v @ x)) = Some (w, Some x)" using assms(3) x(2) unfolding weight_text_def x(1) by blast
  moreover have "\<not> end_iow (hd t)" using symbol_text_hd [OF assms(1)] by (simp add: end_iow_def)
  ultimately show ?thesis
    using s s2 iow_end_peek [OF assms(4)] assms(4)
    by (auto simp: read_iow_def iow_end_def require_string_def require_def labels_def Let_def case_prod_unfold)
qed

text \<open>The labels, the weight and the group of an arc.\<close>

definition tail_text :: "weight_format \<Rightarrow> bool \<Rightarrow> mach \<Rightarrow> logweight FSTArc \<Rightarrow> string" where
  "tail_text fmt brief mh a = labels_text brief mh a @
     (if weight_printed brief a then '' '' @ lw_print fmt (arc_weight a) else []) @ group_text (groupId a) @ '')''"

lemma group_end: "iow_end (group_text g @ '')'' @ r)"
  by (simp add: group_text_def iow_end_def end_iow_def)

lemma weight_not_printed: "\<not> weight_printed brief a \<Longrightarrow> brief \<and> groupId a = no_group \<and> arc_weight a = setOne"
  by (simp add: weight_printed_def)

lemma peek_char_end [simp]: "peek_char (Some (CHR '')'' # r)) = Some (CHR '')'', Some (CHR '')'' # r))"
  by (simp add: peek_char_def isspace_def)

lemma peek_char_bang [simp]: "peek_char (Some (CHR ''!'' # r)) = Some (CHR ''!'', Some (CHR ''!'' # r))"
  by (simp add: peek_char_def isspace_def)

lemma read_group_text:
  assumes "g \<le> no_group" "groupId a = no_group"
  shows "read_group rd a (Some (group_text g @ '')'' @ r)) = Inr (a\<lparr>groupId := g\<rparr>, Some ('')'' @ r))"
proof -
  consider "g = no_group" | "g = 0" | "g \<noteq> no_group" "0 < g" by blast
  then show ?thesis
  proof cases
    case 1
    then have "a\<lparr>groupId := g\<rparr> = a" using assms(2) by simp
    then show ?thesis using 1 by (simp add: read_group_def group_text_def require_def)
  next
    case 2
    then show ?thesis
      by (simp add: read_group_def group_text_def require_def no_group_def setLocked_def setGroup_def locked_group_def digit_char_def)
  next
    case 3
    have n: "g \<le> uint_minus1" using assms(1) by (simp add: no_group_def)
    let ?ds = "utoa (of_nat g :: 32 word) []"
    note t = number_text [OF n]
    obtain c cs where c: "?ds = c # cs" using t(3) by (cases ?ds) auto
    have d: "digit_char c" using t(1) c by simp
    then have s: "\<not> isspace c" by (auto simp: digit_char_def isspace_def)
    have td: "takeWhile digit_char (?ds @ CHR '')'' # r) = ?ds" "dropWhile digit_char (?ds @ CHR '')'' # r) = CHR '')'' # r"
      using takeWhile_digits [OF t(1), of "CHR '')''" r] by (simp_all add: digit_char_def)
    have "peek_char (Some (?ds @ CHR '')'' # r)) = Some (c, Some (?ds @ CHR '')'' # r))" using c s by (simp add: peek_char_def)
    moreover have "in_unsigned (Some (?ds @ CHR '')'' # r)) = Some (g, Some (CHR '')'' # r))"
    proof -
      have "skip_ws (?ds @ CHR '')'' # r) = ?ds @ CHR '')'' # r" using c s by simp
      then show ?thesis using t(2,3) td n by (simp add: in_unsigned_def)
    qed
    ultimately show ?thesis using 3 d by (simp add: read_group_def group_text_def require_def setGroup_def)
  qed
qed

lemma require_Some [simp]: "require rd (Some y) = Inr y"
  by (simp add: require_def)

lemma peek_tail:
  assumes "skip_ws s = t @ x" "symbol_text t"
  shows "peek_char (Some s) = Some (hd t, Some (t @ x)) \<and> hd t \<noteq> CHR ''('' "
  using peek_symbol [OF assms(2,1)] symbol_text_hd [OF assms(2)] by auto

text \<open>What the reader makes of the labels and the weight.\<close>

lemma read_iow_tail:
  assumes p: "arc_printable fmt brief mh a" and ok: "mach_ok (rd_mach rd)" "eps_ok (rd_mach rd)"
    and s: "skip_ws s = skip_ws (tail_text fmt brief mh a @ r)"
  shows "\<exists>c s1. peek_char (Some s) = Some (c, s1) \<and> c \<noteq> CHR ''('' \<and>
    read_iow rd c s1 = (let (rd, i, k) = labels (letter_text mh kInput (arc_in a)) (letter_text mh kOutput (arc_out a)) rd
      in Inr (rd, i, k, reread fmt (arc_weight a), Some (group_text (groupId a) @ '')'' @ r)))"
proof -
  define t where "t = letter_text mh kInput (arc_in a)"
  define u where "u = letter_text mh kOutput (arc_out a)"
  define w where "w = reread fmt (arc_weight a)"
  define v where "v = lw_print fmt (arc_weight a)"
  define x where "x = group_text (groupId a) @ '')'' @ r"
  define L where "L = (let (rd, i, k) = labels t u rd in Inr (rd, i, k, w, Some x) :: (reader \<times> nat \<times> nat \<times> logweight \<times> istr) reading)"
  have sy: "symbol_text t" "symbol_text u" "weight_text w v" "symbol_text v"
    using p weight_symbol weight_printable_text by (auto simp: arc_printable_def t_def u_def v_def w_def)
  have x: "iow_end x" unfolding x_def by (rule group_end)
  have sv: "setString setZero v = (w, True)" using sy(3) by (simp add: weight_text_def)
  let ?two = "\<not> brief \<or> t \<noteq> u" and ?W = "weight_printed brief a" and ?lab = "\<not> brief \<or> arc_in a \<noteq> 0 \<or> arc_out a \<noteq> 0"
  have tt: "tail_text fmt brief mh a @ r = (if ?lab then '' '' @ t @ (if ?two then '' '' @ u else []) else []) @ (if ?W then '' '' @ v else []) @ x"
    by (simp add: tail_text_def labels_text_def Let_def t_def u_def v_def w_def x_def)
  have go: "\<exists>c s1. peek_char (Some s) = Some (c, s1) \<and> c \<noteq> CHR ''('' \<and> read_iow rd c s1 = L"
    if "skip_ws s = z @ y" "symbol_text z" "read_iow rd (hd z) (Some (z @ y)) = L" for z y
    using peek_tail [OF that(1,2)] that(3) by auto
  have one: "w = setOne" if "\<not> ?W" using weight_not_printed [OF that] by (simp add: w_def reread_one)
  have nolab: "t = EPSILON_SYMBOL" "u = EPSILON_SYMBOL" if "\<not> ?lab"
    using that p by (auto simp: arc_printable_def t_def u_def)
  have eps: "L = Inr (rd, epsilon_index, epsilon_index, w, Some x)" if "\<not> ?lab"
    using labels_epsilon [OF ok] nolab [OF that] by (simp add: L_def epsilon_index_def)
  have "\<exists>c s1. peek_char (Some s) = Some (c, s1) \<and> c \<noteq> CHR ''('' \<and> read_iow rd c s1 = L"
  proof (cases ?lab)
    case False
    show ?thesis
    proof (cases ?W)
      case True
      have "read_iow rd (hd v) (Some (v @ x)) = L" using read_iow_one [OF sy(4) x] sv eps [OF False] by simp
      from go [OF _ sy(4) this] show ?thesis using s tt False True skip_ws_symbol [OF sy(4), of x] by simp
    next
      case w1: False
      have "skip_ws s = x" using s tt False w1 iow_end_peek [OF x] by simp
      then have "peek_char (Some s) = Some (hd x, Some x)" using iow_end_peek [OF x] peek_char_same [of s x] by simp
      moreover have "read_iow rd (hd x) (Some x) = L" using x eps [OF False] one [OF w1] by (simp add: read_iow_def iow_end_def)
      moreover have "hd x \<noteq> CHR ''(''" using x by (auto simp: iow_end_def end_iow_def)
      ultimately show ?thesis by blast
    qed
  next
    case lab: True
    have nw: "\<not> snd (setString setZero u)" if "\<not> ?W"
      using that p lab weight_not_printed [OF that] by (auto simp: arc_printable_def labels_text_def Let_def u_def)
    show ?thesis
    proof (cases ?two)
      case two: True
      show ?thesis
      proof (cases ?W)
        case True
        have "read_iow rd (hd t) (Some (t @ '' '' @ u @ '' '' @ v @ x)) = L" using read_iow_three [OF sy(1-3) x] by (simp add: L_def)
        from go [OF _ sy(1) this] show ?thesis using s tt lab two True skip_ws_symbol [OF sy(1)] by simp
      next
        case False
        have "read_iow rd (hd t) (Some (t @ '' '' @ u @ x)) = L" using read_iow_two [OF sy(1,2) x] nw [OF False] one [OF False] by (simp add: L_def)
        from go [OF _ sy(1) this] show ?thesis using s tt lab two False skip_ws_symbol [OF sy(1)] by simp
      qed
    next
      case same: False
      then have tu: "u = t" by simp
      show ?thesis
      proof (cases ?W)
        case True
        have "read_iow rd (hd t) (Some (t @ '' '' @ v @ x)) = L" using read_iow_two [OF sy(1,4) x] sv by (simp add: L_def tu)
        from go [OF _ sy(1) this] show ?thesis using s tt lab same True skip_ws_symbol [OF sy(1)] by simp
      next
        case False
        have "read_iow rd (hd t) (Some (t @ x)) = L" using read_iow_one [OF sy(1) x] nw [OF False] one [OF False] by (simp add: L_def tu)
        from go [OF _ sy(1) this] show ?thesis using s tt lab same False skip_ws_symbol [OF sy(1)] by simp
      qed
    qed
  qed
  then show ?thesis by (simp add: L_def t_def u_def w_def x_def)
qed

lemma read_arcs_tail:
  assumes p: "arc_printable fmt brief mh a" and ok: "mach_ok (rd_mach rd)" "eps_ok (rd_mach rd)"
    and s: "skip_ws s = skip_ws (tail_text fmt brief mh a @ r)"
    and l: "labels (letter_text mh kInput (arc_in a)) (letter_text mh kOutput (arc_out a)) rd = (rd', i, k)"
  shows "read_arcs src_state dest_state rd (Some s) =
    Some (Inr (arc_adder_add src_state \<lparr>arc_in = i, arc_out = k, arc_dest = dest_state, arc_weight = reread fmt (arc_weight a), groupId = groupId a\<rparr> rd',
      Some ('')'' @ r)))"
proof -
  obtain c s1 where c: "peek_char (Some s) = Some (c, s1)" "c \<noteq> CHR ''(''"
      "read_iow rd c s1 = Inr (rd', i, k, reread fmt (arc_weight a), Some (group_text (groupId a) @ '')'' @ r))"
    using read_iow_tail [OF p ok s] l by auto
  have "groupId a \<le> no_group" using p by (simp add: arc_printable_def)
  then have g: "read_group rd' (mk_arc i k dest_state (reread fmt (arc_weight a))) (Some (group_text (groupId a) @ '')'' @ r)) =
      Inr (\<lparr>arc_in = i, arc_out = k, arc_dest = dest_state, arc_weight = reread fmt (arc_weight a), groupId = groupId a\<rparr>, Some ('')'' @ r))"
    by (subst read_group_text) (simp_all add: mk_arc_def)
  show ?thesis using c g by (subst read_arcs.simps) (simp add: read_arc_def)
qed

section \<open>What the reader has read\<close>

type_synonym arc_words = "string \<times> string \<times> string \<times> logweight \<times> nat"

definition arc_text :: "mach \<Rightarrow> logweight FSTArc \<Rightarrow> arc_words" where
  "arc_text mh a = (stateName (fst mh) (arc_dest a), letter_text mh kInput (arc_in a), letter_text mh kOutput (arc_out a), arc_weight a, groupId a)"

text \<open>The arc that is read back: its weight is the printed one.\<close>

definition written_text :: "weight_format \<Rightarrow> mach \<Rightarrow> logweight FSTArc \<Rightarrow> arc_words" where
  "written_text fmt mh a = arc_text mh (a\<lparr>arc_weight := reread fmt (arc_weight a)\<rparr>)"

text \<open>The arcs of the states with a name.\<close>

definition content :: "mach \<Rightarrow> string \<Rightarrow> arc_words list" where
  "content mh nm = concat (map (\<lambda>j. if stateName (fst mh) j = nm then map (arc_text mh) (arcs (states (fst mh) ! j)) else []) [0..<numStates (fst mh)])"

text \<open>What reading does not change.\<close>

definition keeps :: "mach \<Rightarrow> mach \<Rightarrow> bool" where
  "keeps mh mh' \<longleftrightarrow> mach_grows mh mh' \<and> (\<forall>j < numStates (fst mh). stateName (fst mh') j = stateName (fst mh) j) \<and>
     (\<forall>dir \<in> {kInput, kOutput}. \<forall>j < labels_count dir mh. letter_text mh' dir j = letter_text mh dir j)"

definition names_set :: "bool \<Rightarrow> string set \<Rightarrow> bool" where
  "names_set b N \<longleftrightarrow> finite N \<and> card N \<le> uint_minus1 \<and> (\<forall>nm \<in> N. symbol_text nm \<and> hd nm \<noteq> CHR ''%'') \<and>
     (\<not> b \<longrightarrow> (\<exists>n \<le> uint_minus1. N = (\<lambda>i. utoa (of_nat i :: 32 word) []) ` {..<n}))"

definition reading_ok :: "bool \<Rightarrow> string set \<Rightarrow> reader \<Rightarrow> bool" where
  "reading_ok b N rd \<longleftrightarrow> mach_ok (rd_mach rd) \<and> eps_ok (rd_mach rd) \<and> named_states (fst (rd_mach rd)) = b \<and>
     (\<forall>j. rd_added rd j = (if j < numStates (fst (rd_mach rd)) then length (arcs (states (fst (rd_mach rd)) ! j)) else 0)) \<and>
     inj_on (stateName (fst (rd_mach rd))) {..<numStates (fst (rd_mach rd))} \<and>
     stateName (fst (rd_mach rd)) ` {..<numStates (fst (rd_mach rd))} \<subseteq> N"

lemma keeps_refl [simp]: "keeps mh mh"
  by (simp add: keeps_def)

lemma keepsD:
  assumes "keeps mh mh'"
  shows "mach_grows mh mh'"
    "j < numStates (fst mh) \<Longrightarrow> j < numStates (fst mh') \<and> stateName (fst mh') j = stateName (fst mh) j"
    "dir \<in> {kInput, kOutput} \<Longrightarrow> i < labels_count dir mh \<Longrightarrow> i < labels_count dir mh' \<and> letter_text mh' dir i = letter_text mh dir i"
proof -
  show g: "mach_grows mh mh'" using assms by (simp add: keeps_def)
  show "j < numStates (fst mh) \<Longrightarrow> j < numStates (fst mh') \<and> stateName (fst mh') j = stateName (fst mh) j"
    using assms mach_growsD(1) [OF g] by (simp add: keeps_def)
  show "dir \<in> {kInput, kOutput} \<Longrightarrow> i < labels_count dir mh \<Longrightarrow> i < labels_count dir mh' \<and> letter_text mh' dir i = letter_text mh dir i"
    using assms mach_growsD(2) [OF g] unfolding keeps_def by blast
qed

lemma keeps_trans: "keeps a b \<Longrightarrow> keeps b c \<Longrightarrow> keeps a c"
proof -
  assume k: "keeps a b" "keeps b c"
  have "stateName (fst c) j = stateName (fst a) j" if "j < numStates (fst a)" for j
    using keepsD(2) [OF k(1) that] keepsD(2) [OF k(2)] by simp
  moreover have "letter_text c dir j = letter_text a dir j" if "dir \<in> {kInput, kOutput}" "j < labels_count dir a" for dir j
    using keepsD(3) [OF k(1) that] keepsD(3) [OF k(2) that(1)] by simp
  moreover have "mach_grows a c" using mach_grows_trans keepsD(1) k by blast
  ultimately show ?thesis unfolding keeps_def by blast
qed

lemma keeps_arc_text:
  "keeps mh mh' \<Longrightarrow> arc_dest a < numStates (fst mh) \<Longrightarrow> arc_in a < labels_count kInput mh \<Longrightarrow> arc_out a < labels_count kOutput mh \<Longrightarrow>
    arc_text mh' a = arc_text mh a"
  by (simp add: keeps_def arc_text_def)

lemma keeps_arcs: "keeps mh mh' \<Longrightarrow> arcs_ok mh \<Longrightarrow> j < numStates (fst mh) \<Longrightarrow> map (arc_text mh') (arcs (states (fst mh) ! j)) = map (arc_text mh) (arcs (states (fst mh) ! j))"
  using keeps_arc_text by (fastforce simp: arcs_ok_def)

lemma content_keeps:
  assumes k: "keeps mh mh'" and ok: "arcs_ok mh" and s: "states (fst mh') = states (fst mh) @ replicate k state_new"
  shows "content mh' nm = content mh nm"
proof -
  have "map (\<lambda>j. if stateName (fst mh') j = nm then map (arc_text mh') (arcs (states (fst mh') ! j)) else []) [0..<numStates (fst mh)] =
      map (\<lambda>j. if stateName (fst mh) j = nm then map (arc_text mh) (arcs (states (fst mh) ! j)) else []) [0..<numStates (fst mh)]"
    using keepsD(2) [OF k] keeps_arcs [OF k ok] by (simp add: s nth_append)
  moreover have "concat (map (\<lambda>j. if stateName (fst mh') j = nm then map (arc_text mh') (arcs (states (fst mh') ! j)) else [])
      [numStates (fst mh)..<numStates (fst mh')]) = []"
    by (auto simp: s nth_append state_new_def)
  moreover have "[0..<numStates (fst mh')] = [0..<numStates (fst mh)] @ [numStates (fst mh)..<numStates (fst mh')]"
    using upt_add_eq_append [of 0 "numStates (fst mh)" k] by (simp add: s)
  ultimately show ?thesis by (simp only: content_def map_append concat_append append_Nil2)
qed

lemma letter_text_names:
  "mach_ok mh \<Longrightarrow> dir \<in> {kInput, kOutput} \<Longrightarrow> letter_text mh dir j = names (the (snd mh ! the (alph (fst mh) dir))) ! j"
  by (auto simp: mach_ok_def alphs_ok_def letter_text_def letter_def)

lemma eps_ok_letter: "mach_ok mh \<Longrightarrow> eps_ok mh \<longleftrightarrow> (\<forall>dir \<in> {kInput, kOutput}. letter_text mh dir 0 = EPSILON_SYMBOL)"
  by (auto simp: eps_ok_def letter_text_names)

lemma label_index_reads:
  assumes ok: "mach_ok (rd_mach rd)" and d: "dir \<in> {kInput, kOutput}" and b: "buf \<noteq> []" and r: "label_index dir buf rd = (rd', i)"
  shows "fst (rd_mach rd') = fst (rd_mach rd)" "rd_added rd' = rd_added rd" "keeps (rd_mach rd) (rd_mach rd')" "letter_text (rd_mach rd') dir i = buf"
proof -
  obtain M h where rd: "rd_mach rd = (M, h)" by fastforce
  obtain p a where p: "alph M dir = Some p" "p < length h" "h ! p = Some a" "alph_ok a"
    using ok d unfolding mach_ok_def alphs_ok_def rd by auto
  obtain a' j where ix: "indexOf buf a = (a', j)" by fastforce
  have rd': "rd' = rd\<lparr>rd_mach := (M, h[p := Some a'])\<rparr>" "i = j" using r ix p by (simp_all add: label_index_def rd Let_def)
  note ok' = label_index_ok [OF ok d b r]
  have a': "names a' ! j = buf" "\<And>k. k < length (names a) \<Longrightarrow> names a' ! k = names a ! k"
    using indexOf_cases [OF p(4) ix] alph_ok_iff [OF p(4) b, of j] by (auto simp: nth_append)
  show "fst (rd_mach rd') = fst (rd_mach rd)" "rd_added rd' = rd_added rd" by (simp_all add: rd rd')
  show "letter_text (rd_mach rd') dir i = buf" using letter_text_names [OF ok'(1) d] a'(1) p by (simp add: rd')
  have "letter_text (rd_mach rd') e k = letter_text (rd_mach rd) e k" if "e \<in> {kInput, kOutput}" "k < labels_count e (rd_mach rd)" for e k
    unfolding letter_text_names [OF ok'(1) that(1)] letter_text_names [OF ok that(1)]
    using that(2) a'(2) p by (cases "the (alph M e) = p") (simp_all add: rd rd' labels_count_def)
  then show "keeps (rd_mach rd) (rd_mach rd')" using ok'(2) by (simp add: keeps_def rd rd')
qed

lemma labels_read:
  assumes ok: "reading_ok b N rd" and tu: "t \<noteq> []" "u \<noteq> []" and r: "labels t u rd = (rd', i, k)"
  shows "reading_ok b N rd' \<and> keeps (rd_mach rd) (rd_mach rd') \<and> fst (rd_mach rd') = fst (rd_mach rd) \<and>
    i < labels_count kInput (rd_mach rd') \<and> k < labels_count kOutput (rd_mach rd') \<and>
    letter_text (rd_mach rd') kInput i = t \<and> letter_text (rd_mach rd') kOutput k = u \<and> (\<forall>nm. content (rd_mach rd') nm = content (rd_mach rd) nm)"
proof -
  have m: "mach_ok (rd_mach rd)" "eps_ok (rd_mach rd)" using ok by (simp_all add: reading_ok_def)
  obtain rd1 where 1: "label_index kInput t rd = (rd1, i)" "label_index kOutput u rd1 = (rd', k)"
    using r by (auto simp: labels_def Let_def case_prod_unfold prod_eq_iff)
  note a = label_index_ok [OF m(1) _ tu(1) 1(1)] label_index_reads [OF m(1) _ tu(1) 1(1)]
  have a': "mach_ok (rd_mach rd1)" "i < labels_count kInput (rd_mach rd1)" "keeps (rd_mach rd) (rd_mach rd1)"
    "fst (rd_mach rd1) = fst (rd_mach rd)" "rd_added rd1 = rd_added rd" "letter_text (rd_mach rd1) kInput i = t" using a by simp_all
  note b = label_index_ok [OF a'(1) _ tu(2) 1(2)] label_index_reads [OF a'(1) _ tu(2) 1(2)]
  have b': "mach_ok (rd_mach rd')" "k < labels_count kOutput (rd_mach rd')" "keeps (rd_mach rd1) (rd_mach rd')"
    "fst (rd_mach rd') = fst (rd_mach rd1)" "rd_added rd' = rd_added rd1" "letter_text (rd_mach rd') kOutput k = u" using b by simp_all
  have k: "keeps (rd_mach rd) (rd_mach rd')" by (rule keeps_trans [OF a'(3) b'(3)])
  have e: "eps_ok (rd_mach rd')"
    unfolding eps_ok_letter [OF b'(1)]
    using k m(2) epsilon_label [OF m(1)] by (simp add: eps_ok_letter [OF m(1)] keeps_def epsilon_index_def)
  have "content (rd_mach rd') nm = content (rd_mach rd) nm" for nm
    by (rule content_keeps [OF k, where k = 0]) (use m(1) a'(4) b'(4) in \<open>simp_all add: mach_ok_def\<close>)
  moreover have "i < labels_count kInput (rd_mach rd')" "letter_text (rd_mach rd') kInput i = t"
    using keepsD(3) [OF b'(3) _ a'(2)] a'(6) by simp_all
  ultimately show ?thesis using ok k e a'(4,5) b' by (simp add: reading_ok_def)
qed

lemma numeral_inj: "i \<le> uint_minus1 \<Longrightarrow> j \<le> uint_minus1 \<Longrightarrow> utoa (of_nat i :: 32 word) [] = utoa (of_nat j :: 32 word) [] \<Longrightarrow> i = j"
  using number_text(2) by metis

lemma getStateIndex_unnamed:
  assumes "\<not> named_states (fst (rd_mach rd))" "i \<le> uint_minus1"
  shows "getStateIndex (utoa (of_nat i :: 32 word) []) rd =
    (rd\<lparr>rd_mach := (fst (rd_mach rd)\<lparr>states := states (fst (rd_mach rd)) @ replicate (Suc i - numStates (fst (rd_mach rd))) state_new\<rparr>, snd (rd_mach rd))\<rparr>, i)"
proof -
  have "nat (int i mod 2 ^ 32) = i" using assms(2) by (simp add: uint_minus1_def)
  then show ?thesis
    using assms by (cases "rd_mach rd") (simp add: getStateIndex_def strtol_number resize_up_for_index_def)
qed

lemma getStateIndex_reads:
  assumes ok: "reading_ok b N rd" and n: "names_set b N" "nm \<in> N" and r: "getStateIndex nm rd = (rd', st)"
  shows "reading_ok b N rd' \<and> keeps (rd_mach rd) (rd_mach rd') \<and> (\<forall>x. content (rd_mach rd') x = content (rd_mach rd) x) \<and>
    st < numStates (fst (rd_mach rd')) \<and> stateName (fst (rd_mach rd')) st = nm \<and> st \<noteq> uint_minus1"
proof -
  obtain M h where rd: "rd_mach rd = (M, h)" by fastforce
  have o: "mach_ok (M, h)" "eps_ok (M, h)" "named_states M = b" "inj_on (stateName M) {..<numStates M}" "stateName M ` {..<numStates M} \<subseteq> N"
    "\<forall>j. rd_added rd j = (if j < numStates M then length (arcs (states M ! j)) else 0)"
    using ok by (simp_all add: reading_ok_def rd)
  have ne: "nm \<noteq> []" using n symbol_text_hd by (auto simp: names_set_def)
  have fin: "finite N" "card N \<le> uint_minus1" using n(1) by (simp_all add: names_set_def)
  have few: "numStates M \<le> card N" using card_mono [OF fin(1) o(5)] card_image [OF o(4)] by simp
  have "\<exists>k M'. rd' = rd\<lparr>rd_mach := (M', h)\<rparr> \<and> states M' = states M @ replicate k state_new \<and> alph M' = alph M \<and> st < numStates M' \<and>
      (\<forall>j < numStates M. stateName M' j = stateName M j) \<and> stateName M' st = nm \<and>
      inj_on (stateName M') {..<numStates M'} \<and> stateName M' ` {..<numStates M'} \<subseteq> N"
  proof (cases b)
    case False
    then obtain m where m: "m \<le> uint_minus1" "N = (\<lambda>i. utoa (of_nat i :: 32 word) []) ` {..<m}" using n(1) by (auto simp: names_set_def)
    have "inj_on (\<lambda>i. utoa (of_nat i :: 32 word) []) {..<m}" using numeral_inj m(1) by (auto simp: inj_on_def)
    then have "card N = m" using m(2) card_image by fastforce
    then have Mm: "numStates M \<le> m" using few by simp
    obtain i where i: "nm = utoa (of_nat i :: 32 word) []" "i < m" using m n(2) by auto
    define M' where "M' = M\<lparr>states := states M @ replicate (Suc i - numStates M) state_new\<rparr>"
    have "rd' = rd\<lparr>rd_mach := (M', h)\<rparr>" "st = i"
      using r getStateIndex_unnamed [of rd i] False o(3) i m(1) by (auto simp: rd M'_def)
    moreover have sn: "stateName M' j = utoa (of_nat j :: 32 word) []" "stateName M j = stateName M' j" for j
      using False o(3) by (simp_all add: stateName_def M'_def)
    moreover have sz: "numStates M' \<le> m" "i < numStates M'" using Mm i(2) by (simp_all add: M'_def)
    moreover have "inj_on (stateName M') {..<numStates M'}" using numeral_inj sz(1) m(1) by (auto simp: inj_on_def sn(1))
    moreover have "stateName M' ` {..<numStates M'} \<subseteq> N" using sz(1) m(2) by (auto simp: sn(1))
    ultimately show ?thesis using i(1) by (intro exI [of _ "Suc i - numStates M"] exI [of _ M']) (simp add: M'_def)
  next
    case True
    have nk: "alph_ok (stateNames M)" "length (names (stateNames M)) = numStates M" "no_holes (stateNames M)"
      using o(1,3) True by (simp_all add: mach_ok_def names_ok_def)
    obtain nn j where ix: "indexOf nm (stateNames M) = (nn, j)" by fastforce
    note c = indexOf_cases [OF nk(1) ix]
    define M' where "M' = (if j \<ge> numStates M then M\<lparr>stateNames := nn, states := states M @ [state_new]\<rparr> else M\<lparr>stateNames := nn\<rparr>)"
    have e: "rd' = rd\<lparr>rd_mach := (M', h)\<rparr>" "st = j" using r True o(3) ix by (auto simp: getStateIndex_def rd Let_def M'_def)
    have s': "states M' = states M @ replicate (if j \<ge> numStates M then 1 else 0) state_new" "alph M' = alph M" "stateNames M' = nn"
      "named_states M' = named_states M"
      by (simp_all add: M'_def)
    show ?thesis
    proof (cases "alph_find (stateNames M) nm")
      case (Some j')
      then have f: "alph_find (stateNames M) nm = Some j" "nn = stateNames M" using c by auto
      then have j: "nn = stateNames M" "j < numStates M" "names (stateNames M) ! j = nm"
        using alph_ok_iff [OF nk(1) ne, THEN iffD1, OF f(1)] nk(2) by simp_all
      have "M' = M" using j(1,2) by (simp add: M'_def)
      moreover have "stateName M j = nm" using j(3) True o(3) by (simp add: stateName_def)
      ultimately show ?thesis using e j(2) o(4,5) by (intro exI [of _ 0] exI [of _ M]) simp
    next
      case None
      then have j: "j = numStates M" "names nn = names (stateNames M) @ [nm]" "alph_ok nn" using c nk(2) by auto
      have sn: "stateName M' i = (if i < numStates M then stateName M i else nm)" if "i < numStates M'" for i
        using that s' j True o(3) nk(2) by (simp add: stateName_def nth_append)
      have new: "nm \<notin> stateName M ` {..<numStates M}"
        using None alph_ok_iff [OF nk(1) ne] True o(3) nk(2) by (auto simp: stateName_def)
      have sz: "numStates M' = Suc (numStates M)" using s'(1) j(1) by simp
      have "inj_on (stateName M') {..<numStates M'}"
        unfolding sz lessThan_Suc using sn sz new o(4) by (auto simp: inj_on_def image_iff)
      moreover have "stateName M' ` {..<numStates M'} \<subseteq> N" using sn o(5) n(2) by auto
      ultimately show ?thesis
        using e s' j sz sn by (intro exI [of _ "if j \<ge> numStates M then 1 else 0"] exI [of _ M']) simp
    qed
  qed
  then obtain k M' where p: "rd' = rd\<lparr>rd_mach := (M', h)\<rparr>" "states M' = states M @ replicate k state_new" "alph M' = alph M" "st < numStates M'"
      "\<forall>j < numStates M. stateName M' j = stateName M j" "stateName M' st = nm"
      "inj_on (stateName M') {..<numStates M'}" "stateName M' ` {..<numStates M'} \<subseteq> N" by blast
  note g = getStateIndex_ok [OF _ ne r]
  have g': "mach_ok (M', h)" "mach_grows (M, h) (M', h)" using g(1,2) o(1) by (simp_all add: rd p(1))
  have l: "letter_text (M', h) dir = letter_text (M, h) dir" for dir by (simp add: letter_text_def letter_def p(3) fun_eq_iff)
  have k: "keeps (M, h) (M', h)" using g'(2) p(5) l by (simp add: keeps_def)
  have "content (M', h) x = content (M, h) x" for x
    by (rule content_keeps [OF k, where k = k]) (use o(1) p(2) in \<open>simp_all add: mach_ok_def\<close>)
  moreover have "numStates M' \<le> card N" using card_mono [OF fin(1) p(8)] card_image [OF p(7)] by simp
  then have "st \<noteq> uint_minus1" using fin(2) p(4) by simp
  moreover have "eps_ok (M', h)" using o(2) l by (simp add: eps_ok_letter [OF g'(1)] eps_ok_letter [OF o(1)])
  moreover have "rd_added rd' j = (if j < numStates M' then length (arcs (states M' ! j)) else 0)" for j
    using o(6) by (simp add: p(1,2) nth_append state_new_def)
  moreover have "named_states M' = b" using g'(2) o(3) by (simp add: mach_grows_def)
  ultimately show ?thesis using g'(1) k p by (simp add: reading_ok_def rd)
qed

lemma concat_one: "i < n \<Longrightarrow> (\<And>j. j < n \<Longrightarrow> j \<noteq> i \<Longrightarrow> g j = []) \<Longrightarrow> concat (map g [0..<n]) = g i"
proof -
  assume i: "i < n" and g: "\<And>j. j < n \<Longrightarrow> j \<noteq> i \<Longrightarrow> g j = []"
  have "[0..<n] = [0..<i] @ i # [Suc i..<n]" using i upt_add_eq_append [of 0 i "n - i"] by (simp add: upt_conv_Cons)
  moreover have "concat (map g [0..<i]) = []" "concat (map g [Suc i..<n]) = []" using i g by auto
  ultimately show ?thesis by (simp only: map_append concat_append list.map concat.simps append_Nil append_Nil2)
qed

lemma content_state:
  assumes "inj_on (stateName (fst mh)) {..<numStates (fst mh)}" "i < numStates (fst mh)"
  shows "content mh (stateName (fst mh) i) = map (arc_text mh) (arcs (states (fst mh) ! i))"
  unfolding content_def using assms by (subst concat_one [of i]) (auto simp: inj_on_def)

lemma content_other: "nm \<notin> stateName (fst mh) ` {..<numStates (fst mh)} \<Longrightarrow> content mh nm = []"
  by (auto simp: content_def)

lemma arc_adder_add_reads:
  assumes ok: "reading_ok b N rd" and i: "i < numStates (fst (rd_mach rd))" "arc_dest a < numStates (fst (rd_mach rd))"
    "arc_in a < labels_count kInput (rd_mach rd)" "arc_out a < labels_count kOutput (rd_mach rd)"
  shows "reading_ok b N (arc_adder_add i a rd) \<and> keeps (rd_mach rd) (rd_mach (arc_adder_add i a rd)) \<and>
    (\<forall>nm. content (rd_mach (arc_adder_add i a rd)) nm = content (rd_mach rd) nm @ (if stateName (fst (rd_mach rd)) i = nm then [arc_text (rd_mach rd) a] else []))"
proof -
  obtain M h where rd: "rd_mach rd = (M, h)" by fastforce
  have o: "mach_ok (M, h)" "eps_ok (M, h)" "named_states M = b" "inj_on (stateName M) {..<numStates M}" "stateName M ` {..<numStates M} \<subseteq> N"
    "\<forall>j. rd_added rd j = (if j < numStates M then length (arcs (states M ! j)) else 0)"
    using ok by (simp_all add: reading_ok_def rd)
  have i': "i < numStates M" using i(1) by (simp add: rd)
  define s where "s = states M ! i"
  define s' where "s' = s\<lparr>arcs := arcs s @ [a], state_size := state_size s + 1\<rparr>"
  define M' where "M' = M\<lparr>states := (states M)[i := s']\<rparr>"
  have add: "rd_added rd i = length (arcs s)" using o(6) i' by (simp add: s_def)
  have rd': "rd_mach (arc_adder_add i a rd) = (M', h)" "rd_added (arc_adder_add i a rd) = (rd_added rd)(i := Suc (length (arcs s)))"
    using add by (simp_all add: arc_adder_add_def rd M'_def s'_def Let_def) (simp_all add: s_def)
  note g = arc_adder_add_ok [OF _ i]
  have g': "mach_ok (M', h)" "mach_grows (M, h) (M', h)" using g o(1) by (simp_all add: rd rd'(1))
  have l: "letter_text (M', h) dir = letter_text (M, h) dir" for dir by (simp add: letter_text_def letter_def M'_def fun_eq_iff)
  have sn: "stateName M' = stateName M" by (simp add: stateName_def M'_def fun_eq_iff)
  have at: "arc_text (M', h) = arc_text (M, h)" by (simp add: arc_text_def l sn fun_eq_iff)
  have k: "keeps (M, h) (M', h)" using g'(2) l sn by (simp add: keeps_def)
  have nS: "numStates M' = numStates M" by (simp add: M'_def)
  have c: "content (M', h) nm = content (M, h) nm @ (if stateName M i = nm then [arc_text (M, h) a] else [])" for nm
  proof (cases "nm \<in> stateName M ` {..<numStates M}")
    case False
    then show ?thesis using content_other [of nm "(M, h)"] content_other [of nm "(M', h)"] i' by (auto simp: sn nS)
  next
    case True
    then obtain j where j: "j < numStates M" "nm = stateName M j" by blast
    have "content (M', h) nm = map (arc_text (M, h)) (arcs (states M' ! j))" "content (M, h) nm = map (arc_text (M, h)) (arcs (states M ! j))"
      using content_state [of "(M', h)" j] content_state [of "(M, h)" j] o(4) j by (simp_all add: sn nS at)
    moreover have "stateName M i = nm \<longleftrightarrow> i = j" using o(4) i' j by (auto simp: inj_on_def)
    ultimately show ?thesis using i' by (cases "i = j") (simp_all add: M'_def s'_def s_def)
  qed
  have "eps_ok (M', h)" using o(2) l by (simp add: eps_ok_letter [OF g'(1)] eps_ok_letter [OF o(1)])
  moreover have "((rd_added rd)(i := Suc (length (arcs s)))) j = (if j < numStates M' then length (arcs (states M' ! j)) else 0)" for j
    using o(6) i' by (cases "i = j") (simp_all add: M'_def s'_def)
  ultimately show ?thesis using g'(1) k o(3-5) c by (simp add: reading_ok_def rd rd' sn nS) (simp add: M'_def)
qed

section \<open>The arcs of a state\<close>

definition state_names :: "mach \<Rightarrow> string set" where
  "state_names mh = stateName (fst mh) ` {..<numStates (fst mh)}"

lemma state_namesI: "i < numStates (fst mh) \<Longrightarrow> stateName (fst mh) i \<in> state_names mh"
  by (simp add: state_names_def)

lemma tail_text_hd: "\<exists>c x. tail_text fmt brief mh a = c # x \<and> ends_symbol c"
  by (auto simp: tail_text_def labels_text_def group_text_def ends_symbol_def Let_def)

lemma write_arc_tail: "write_arc fmt brief mh a = '' ('' @ stateName (fst mh) (arc_dest a) @ tail_text fmt brief mh a"
  by (simp add: write_arc_parts tail_text_def)

lemma read_dest_text:
  assumes ok: "reading_ok b N rd" and n: "names_set b N" "nm \<in> N" and c: "ends_symbol c"
  shows "\<exists>rd' st s. read_dest rd (Some (nm @ c # x)) = Inr (rd', st, Some s) \<and> skip_ws s = skip_ws (c # x) \<and>
    reading_ok b N rd' \<and> keeps (rd_mach rd) (rd_mach rd') \<and> (\<forall>x. content (rd_mach rd') x = content (rd_mach rd) x) \<and>
    st < numStates (fst (rd_mach rd')) \<and> stateName (fst (rd_mach rd')) st = nm"
proof -
  have sy: "symbol_text nm" using n by (simp add: names_set_def)
  have "skip_ws (nm @ c # x) = nm @ c # x" using skip_ws_symbol [OF sy] by simp
  from getString_symbol [OF sy c this] obtain s where s: "getString (Some (nm @ c # x)) = Inr (nm, Some s)" "skip_ws s = skip_ws (c # x)" by blast
  obtain rd' st where g: "getStateIndex nm rd = (rd', st)" by fastforce
  note p = getStateIndex_reads [OF ok n g]
  then have "read_dest rd (Some (nm @ c # x)) = Inr (rd', st, Some s)" using s(1) g by (simp add: read_dest_def require_string_def)
  then show ?thesis using s(2) p by blast
qed

lemma read_dests_text:
  assumes n: "names_set b N" and "list_all (\<lambda>a. arc_printable fmt brief mh a \<and> stateName (fst mh) (arc_dest a) \<in> N) as"
    and "reading_ok b N rd" "st < numStates (fst (rd_mach rd))"
    and "skip_ws s = skip_ws (concat (map (write_arc fmt brief mh) as) @ '')'' @ r)"
  shows "\<exists>rd'. read_dests st rd (Some s) = Some (Inr (rd', Some ('')'' @ r))) \<and> reading_ok b N rd' \<and> keeps (rd_mach rd) (rd_mach rd') \<and>
    (\<forall>nm. content (rd_mach rd') nm = content (rd_mach rd) nm @ (if stateName (fst (rd_mach rd)) st = nm then map (written_text fmt mh) as else [])) \<and>
    (\<lambda>a. stateName (fst mh) (arc_dest a)) ` set as \<subseteq> state_names (rd_mach rd')"
  using assms(2-)
proof (induction as arbitrary: rd s)
  case Nil
  then have "skip_ws s = CHR '')'' # r" by simp
  then have "peek_char (Some s) = Some (CHR '')'', Some ('')'' @ r))" by (simp add: peek_char_def)
  then show ?case using Nil by (intro exI [of _ rd]) (subst read_dests.simps, simp)
next
  case (Cons a as)
  define y where "y = concat (map (write_arc fmt brief mh) as) @ '')'' @ r"
  let ?t = "tail_text fmt brief mh a" and ?nm = "stateName (fst mh) (arc_dest a)"
  obtain c x where t: "?t = c # x" "ends_symbol c" using tail_text_hd by blast
  have "skip_ws s = CHR ''('' # ?nm @ ?t @ y"
    using Cons.prems(4) by (simp add: write_arc_tail [of _ _ _ a] y_def)
  then have p: "peek_char (Some s) = Some (CHR ''('', Some (CHR ''('' # ?nm @ ?t @ y))" by (simp add: peek_char_def)
  have a: "arc_printable fmt brief mh a" "?nm \<in> N" using Cons.prems(1) by simp_all
  obtain rd1 de s1 where d: "read_dest rd (Some (?nm @ ?t @ y)) = Inr (rd1, de, Some s1)" "skip_ws s1 = skip_ws (?t @ y)"
      "reading_ok b N rd1" "keeps (rd_mach rd) (rd_mach rd1)" "\<forall>x. content (rd_mach rd1) x = content (rd_mach rd) x"
      "de < numStates (fst (rd_mach rd1))" "stateName (fst (rd_mach rd1)) de = ?nm"
    using read_dest_text [OF Cons.prems(2) n a(2) t(2), of "x @ y"] t(1) by auto
  obtain rd2 i k where l: "labels (letter_text mh kInput (arc_in a)) (letter_text mh kOutput (arc_out a)) rd1 = (rd2, i, k)"
    by (metis prod_cases3)
  define a' where "a' = \<lparr>arc_in = i, arc_out = k, arc_dest = de, arc_weight = reread fmt (arc_weight a), groupId = groupId a\<rparr>"
  have m1: "mach_ok (rd_mach rd1)" "eps_ok (rd_mach rd1)" using d(3) by (simp_all add: reading_ok_def)
  have ra: "read_arcs st de rd1 (Some s1) = Some (Inr (arc_adder_add st a' rd2, Some ('')'' @ y)))"
    unfolding a'_def by (rule read_arcs_tail [OF a(1) m1 d(2) l])
  have "letter_text mh kInput (arc_in a) \<noteq> []" "letter_text mh kOutput (arc_out a) \<noteq> []"
    using a(1) symbol_text_hd by (auto simp: arc_printable_def)
  note lr = labels_read [OF d(3) this l]
  have st1: "st < numStates (fst (rd_mach rd1)) \<and> stateName (fst (rd_mach rd1)) st = stateName (fst (rd_mach rd)) st"
    using keepsD(2) [OF d(4) Cons.prems(3)] .
  have "st < numStates (fst (rd_mach rd2))" "arc_dest a' < numStates (fst (rd_mach rd2))"
    "arc_in a' < labels_count kInput (rd_mach rd2)" "arc_out a' < labels_count kOutput (rd_mach rd2)"
    using lr st1 d(6) by (simp_all add: a'_def)
  note ad = arc_adder_add_reads [OF lr [THEN conjunct1] this]
  define rd3 where "rd3 = arc_adder_add st a' rd2"
  have at: "arc_text (rd_mach rd2) a' = written_text fmt mh a"
    using lr d(7) by (simp add: written_text_def arc_text_def a'_def)
  have k3: "keeps (rd_mach rd) (rd_mach rd3)"
    using ad lr d(4) keeps_trans unfolding rd3_def by blast
  have c3: "content (rd_mach rd3) nm = content (rd_mach rd) nm @ (if stateName (fst (rd_mach rd)) st = nm then [written_text fmt mh a] else [])" for nm
    using ad lr d(5) st1 at by (simp add: rd3_def)
  have st3: "st < numStates (fst (rd_mach rd3)) \<and> stateName (fst (rd_mach rd3)) st = stateName (fst (rd_mach rd)) st"
    using keepsD(2) [OF k3 Cons.prems(3)] .
  have ok3: "reading_ok b N rd3" using ad by (simp add: rd3_def)
  obtain rd' where rd': "read_dests st rd3 (Some y) = Some (Inr (rd', Some ('')'' @ r)))" "reading_ok b N rd'" "keeps (rd_mach rd3) (rd_mach rd')"
      "\<forall>nm. content (rd_mach rd') nm = content (rd_mach rd3) nm @ (if stateName (fst (rd_mach rd3)) st = nm then map (written_text fmt mh) as else [])"
      "(\<lambda>a. stateName (fst mh) (arc_dest a)) ` set as \<subseteq> state_names (rd_mach rd')"
    using Cons.IH [of rd3 y] Cons.prems(1) ok3 st3 by (auto simp: y_def)
  have "require_char CHR '')'' rd3 (Some ('')'' @ y)) = Inr (Some y)" by (simp add: require_char_def in_char_def isspace_def)
  then have "read_dests st rd (Some s) = Some (Inr (rd', Some ('')'' @ r)))"
    using p d(1) ra rd'(1) by (subst read_dests.simps) (simp add: rd3_def)
  moreover have "keeps (rd_mach rd) (rd_mach rd')" by (rule keeps_trans [OF k3 rd'(3)])
  moreover have "?nm \<in> state_names (rd_mach rd')"
  proof -
    have "keeps (rd_mach rd1) (rd_mach rd3)" using ad lr keeps_trans unfolding rd3_def by blast
    then have k1: "keeps (rd_mach rd1) (rd_mach rd')" using keeps_trans rd'(3) by blast
    show ?thesis using keepsD(2) [OF k1 d(6)] d(7) state_namesI by metis
  qed
  ultimately show ?case using rd' c3 st3 by auto
qed

section \<open>The lines and the whole text\<close>

definition arcs_written :: "bool \<Rightarrow> mach \<Rightarrow> nat \<Rightarrow> logweight FSTArc list" where
  "arcs_written include_zero mh i = filter (\<lambda>a. include_zero \<or> isPositive (arc_weight a)) (arcs (states (fst mh) ! i))"

lemma getStateIndex_few:
  "named_states (fst (rd_mach rd)) \<Longrightarrow> getStateIndex nm rd = (rd', st) \<Longrightarrow> numStates (fst (rd_mach rd')) \<le> Suc (numStates (fst (rd_mach rd)))"
  by (cases "rd_mach rd") (auto simp: getStateIndex_def Let_def case_prod_unfold)

lemma read_dest_few:
  "named_states (fst (rd_mach rd)) \<Longrightarrow> read_dest rd s = Inr (rd', st, s') \<Longrightarrow> numStates (fst (rd_mach rd')) \<le> Suc (numStates (fst (rd_mach rd)))"
  using getStateIndex_few by (auto simp: read_dest_def reading_simps Let_def case_prod_unfold prod_eq_iff split: if_splits)

lemma skip_comment_none: "symbol_text nm \<Longrightarrow> hd nm \<noteq> CHR ''%'' \<Longrightarrow> skip_comment (Some (nm @ x)) = Some (nm @ x)"
proof -
  assume n: "symbol_text nm" "hd nm \<noteq> CHR ''%''"
  obtain c r where c: "nm = c # r" using symbol_text_hd [OF n(1)] by (cases nm) auto
  have "skip_ws (nm @ x) = c # r @ x" using skip_ws_symbol [OF n(1), of x] c by simp
  then show ?thesis using n(2) c by (simp add: skip_comment_def) (subst skip_comment_text.simps, simp)
qed

lemma arcs_text_hd: "\<exists>c x. concat (map (write_arc fmt brief mh) as) @ '')'' @ r = c # x \<and> ends_symbol c"
  by (cases as) (simp_all add: write_arc_tail ends_symbol_def)

text \<open>The lines that are written: a state and the arcs on its line.\<close>

definition write_line :: "weight_format \<Rightarrow> bool \<Rightarrow> mach \<Rightarrow> nat \<times> logweight FSTArc list \<Rightarrow> string" where
  "write_line fmt brief mh l =
     newline # ''('' @ stateName (fst mh) (fst l) @ concat (map (write_arc fmt brief mh) (snd l)) @ '')''"

definition lines_of :: "bool \<Rightarrow> bool \<Rightarrow> mach \<Rightarrow> nat \<Rightarrow> (nat \<times> logweight FSTArc list) list" where
  "lines_of onearc include_zero mh i =
     (let as = arcs_written include_zero mh i in if onearc then map (\<lambda>a. (i, [a])) as else [(i, as)])"

lemma write_state_lines:
  "write_state fmt brief onearc include_zero mh i = concat (map (write_line fmt brief mh) (lines_of onearc include_zero mh i))"
  by (simp add: write_state_def lines_of_def write_line_def arcs_written_def Let_def comp_def)

lemma write_states_lines:
  "concat (map (write_state fmt brief onearc include_zero mh) is) =
    concat (map (write_line fmt brief mh) (concat (map (lines_of onearc include_zero mh) is)))"
  by (induction "is") (simp_all add: write_state_lines)

lemma read_lines_text:
  assumes n: "names_set b N"
    and "\<forall>l \<in> set ls. stateName (fst mh) (fst l) \<in> N \<and>
      list_all (\<lambda>a. arc_printable fmt brief mh a \<and> stateName (fst mh) (arc_dest a) \<in> N) (snd l)"
    and "reading_ok b N rd" "skip_ws s = skip_ws (concat (map (write_line fmt brief mh) ls) @ [newline])"
  shows "\<exists>rd'. read_lines rd (Some s) = Some (Inr rd') \<and> reading_ok b N rd' \<and> keeps (rd_mach rd) (rd_mach rd') \<and>
    (\<forall>nm. content (rd_mach rd') nm = content (rd_mach rd) nm @
       concat (map (\<lambda>l. if stateName (fst mh) (fst l) = nm then map (written_text fmt mh) (snd l) else []) ls)) \<and>
    (\<forall>l \<in> set ls. stateName (fst mh) (fst l) \<in> state_names (rd_mach rd') \<and>
       (\<lambda>a. stateName (fst mh) (arc_dest a)) ` set (snd l) \<subseteq> state_names (rd_mach rd')) \<and>
    (b \<and> numStates (fst (rd_mach rd)) = 0 \<and> ls \<noteq> [] \<longrightarrow> stateName (fst (rd_mach rd')) 0 = stateName (fst mh) (fst (hd ls)))"
  using assms(2-)
proof (induction ls arbitrary: rd s)
  case Nil
  then have "skip_ws s = []" by simp
  then have "in_char (Some s) = None" by (simp only: in_char_def Option.bind.simps list.case)
  then show ?case using Nil by (intro exI [of _ rd]) (subst read_lines.simps, simp)
next
  case (Cons l ls)
  let ?nm = "stateName (fst mh) (fst l)" and ?as = "snd l"
  define rest where "rest = concat (map (write_line fmt brief mh) ls) @ [newline]"
  define y where "y = concat (map (write_arc fmt brief mh) ?as) @ '')'' @ rest"
  obtain c x where cx: "y = c # x" "ends_symbol c" using arcs_text_hd unfolding y_def by blast
  have nm: "?nm \<in> N" "symbol_text ?nm" "hd ?nm \<noteq> CHR ''%''" using Cons.prems(1) n by (auto simp: names_set_def)
  have as: "list_all (\<lambda>a. arc_printable fmt brief mh a \<and> stateName (fst mh) (arc_dest a) \<in> N) ?as"
    using Cons.prems(1) by simp
  have "skip_ws s = CHR ''('' # ?nm @ y"
    using Cons.prems(3) by (simp add: write_line_def [of _ _ _ l] y_def rest_def)
  then have p: "in_char (Some s) = Some (CHR ''('', Some (?nm @ y))" by (simp add: in_char_def)
  obtain rd1 st s1 where d: "read_dest rd (Some (?nm @ y)) = Inr (rd1, st, Some s1)" "skip_ws s1 = skip_ws y"
      "reading_ok b N rd1" "keeps (rd_mach rd) (rd_mach rd1)" "\<forall>x. content (rd_mach rd1) x = content (rd_mach rd) x"
      "st < numStates (fst (rd_mach rd1))" "stateName (fst (rd_mach rd1)) st = ?nm"
    using read_dest_text [OF Cons.prems(2) n nm(1) cx(2), of x] cx(1) by auto
  have so: "read_source rd CHR ''('' (Some (?nm @ y)) = Inr (rd1, st, Some s1)"
    using d(1) skip_comment_none [OF nm(2,3)] by (simp add: read_source_def)
  obtain rd2 where e: "read_dests st rd1 (Some s1) = Some (Inr (rd2, Some ('')'' @ rest)))" "reading_ok b N rd2" "keeps (rd_mach rd1) (rd_mach rd2)"
      "\<forall>nm. content (rd_mach rd2) nm = content (rd_mach rd1) nm @ (if stateName (fst (rd_mach rd1)) st = nm then map (written_text fmt mh) ?as else [])"
      "(\<lambda>a. stateName (fst mh) (arc_dest a)) ` set ?as \<subseteq> state_names (rd_mach rd2)"
    using read_dests_text [OF n as d(3,6), of s1 rest] d(2) by (auto simp: y_def)
  obtain rd' where f: "read_lines rd2 (Some rest) = Some (Inr rd')" "reading_ok b N rd'" "keeps (rd_mach rd2) (rd_mach rd')"
      "\<forall>nm. content (rd_mach rd') nm = content (rd_mach rd2) nm @
         concat (map (\<lambda>l. if stateName (fst mh) (fst l) = nm then map (written_text fmt mh) (snd l) else []) ls)"
      "\<forall>l \<in> set ls. stateName (fst mh) (fst l) \<in> state_names (rd_mach rd') \<and>
         (\<lambda>a. stateName (fst mh) (arc_dest a)) ` set (snd l) \<subseteq> state_names (rd_mach rd')"
    using Cons.IH [of rd2 rest] Cons.prems(1) e(2) by (auto simp: rest_def)
  have "require_char CHR '')'' rd2 (Some ('')'' @ rest)) = Inr (Some rest)" by (simp add: require_char_def in_char_def)
  then have rl: "read_lines rd (Some s) = Some (Inr rd')" using p so e(1) f(1) by (subst read_lines.simps) simp
  have k: "keeps (rd_mach rd1) (rd_mach rd')" by (rule keeps_trans [OF e(3) f(3)])
  have st: "st < numStates (fst (rd_mach rd'))" "stateName (fst (rd_mach rd')) st = ?nm" using keepsD(2) [OF k d(6)] d(7) by simp_all
  then have "?nm \<in> state_names (rd_mach rd')" using state_namesI [OF st(1)] by simp
  moreover have "stateName (fst (rd_mach rd')) 0 = ?nm" if "b" "numStates (fst (rd_mach rd)) = 0"
  proof -
    have "named_states (fst (rd_mach rd))" using Cons.prems(2) that(1) by (simp add: reading_ok_def)
    then have "st = 0" using read_dest_few [OF _ d(1)] that(2) d(6) by simp
    then show ?thesis using st(2) by simp
  qed
  moreover have "state_names (rd_mach rd2) \<subseteq> state_names (rd_mach rd')"
  proof
    fix nm assume "nm \<in> state_names (rd_mach rd2)"
    then obtain j where "j < numStates (fst (rd_mach rd2))" "nm = stateName (fst (rd_mach rd2)) j" by (auto simp: state_names_def)
    then show "nm \<in> state_names (rd_mach rd')" using keepsD(2) [OF f(3)] state_namesI by metis
  qed
  then have "(\<lambda>a. stateName (fst mh) (arc_dest a)) ` set ?as \<subseteq> state_names (rd_mach rd')" using e(5) by blast
  ultimately show ?case using rl f keeps_trans [OF d(4) k] d(5,7) e(4) by auto
qed

lemma reading_ok_start:
  "reading_ok b N \<lparr>rd_mach = ((fst (wfst_init h))\<lparr>named_states := b\<rparr>, snd (wfst_init h)), rd_added = (\<lambda>_. 0)\<rparr>"
proof -
  have "mach_ok ((fst (wfst_init h))\<lparr>named_states := b\<rparr>, snd (wfst_init h))"
    using wfst_init_ok [of h] by (simp add: mach_ok_def alphs_ok_def arcs_ok_def names_ok_def no_holes_def labels_count_def)
  moreover have "eps_ok ((fst (wfst_init h))\<lparr>named_states := b\<rparr>, snd (wfst_init h))"
    by (simp add: eps_ok_def wfst_init_def initAlphabet_def nth_append alph_new2_def)
  ultimately show ?thesis using wfst_init_ok(2) [of h] by (simp add: reading_ok_def)
qed

lemma start_reading_text:
  assumes n: "names_set b N" "nm \<in> N" and b: "b = (alwaysNamed \<or> \<not> list_all digit_char nm)"
  shows "\<exists>rd s. start_reading alwaysNamed (wfst_init h) (Some (nm @ newline # x)) = Inr (nm, rd, Some s) \<and> skip_ws s = skip_ws x \<and>
    reading_ok b N rd \<and> (\<forall>y. content (rd_mach rd) y = []) \<and>
    (if b then numStates (fst (rd_mach rd)) = 0
     else final (fst (rd_mach rd)) < numStates (fst (rd_mach rd)) \<and> stateName (fst (rd_mach rd)) (final (fst (rd_mach rd))) = nm)"
proof -
  define rd0 where "rd0 = \<lparr>rd_mach = ((fst (wfst_init h))\<lparr>named_states := b\<rparr>, snd (wfst_init h)), rd_added = (\<lambda>_. 0 :: nat)\<rparr>"
  have ok: "reading_ok b N rd0" unfolding rd0_def by (rule reading_ok_start)
  have z: "numStates (fst (rd_mach rd0)) = 0" by (simp add: rd0_def wfst_init_ok(2))
  then have c0: "content (rd_mach rd0) y = []" for y by (simp add: content_def)
  have sy: "symbol_text nm" "hd nm \<noteq> CHR ''%''" using n by (simp_all add: names_set_def)
  have "skip_ws (nm @ newline # x) = nm @ newline # x" using skip_ws_symbol [OF sy(1)] by simp
  from getString_symbol [OF sy(1) _ this] obtain s where
    s: "getString (Some (nm @ newline # x)) = Inr (nm, Some s)" "skip_ws s = skip_ws x" by (auto simp: ends_symbol_def)
  obtain M h' where w: "wfst_init h = (M, h')" by fastforce
  show ?thesis
  proof (cases b)
    case True
    then have "start_reading alwaysNamed (wfst_init h) (Some (nm @ newline # x)) = Inr (nm, rd0, Some s)"
      using s(1) skip_comment_none [OF sy, of "newline # x"] b by (auto simp: start_reading_def w require_string_def rd0_def)
    then show ?thesis using s(2) ok c0 z True by (intro exI [of _ rd0] exI [of _ s]) simp
  next
    case False
    obtain rd1 f where g: "getStateIndex nm rd0 = (rd1, f)" by fastforce
    note r = getStateIndex_reads [OF ok n g]
    obtain M1 h1 where m: "rd_mach rd1 = (M1, h1)" by fastforce
    define rd2 where "rd2 = rd1\<lparr>rd_mach := (M1\<lparr>final := f\<rparr>, h1)\<rparr>"
    have sn: "stateName (M1\<lparr>final := f\<rparr>) = stateName M1" by (simp add: stateName_def fun_eq_iff)
    have "start_reading alwaysNamed (wfst_init h) (Some (nm @ newline # x)) = Inr (nm, rd2, Some s)"
      using s(1) skip_comment_none [OF sy, of "newline # x"] b False g m
      by (auto simp: start_reading_def w require_string_def rd0_def rd2_def)
    moreover have "letter_text (M1\<lparr>final := f\<rparr>, h1) = letter_text (M1, h1)" by (simp add: letter_text_def letter_def fun_eq_iff)
    then have "arc_text (M1\<lparr>final := f\<rparr>, h1) = arc_text (M1, h1)" by (simp add: arc_text_def sn fun_eq_iff)
    then have "content (rd_mach rd2) = content (rd_mach rd1)" by (intro ext) (simp add: rd2_def m content_def sn cong: if_cong)
    then have "content (rd_mach rd2) y = []" for y using r c0 by simp
    moreover have "reading_ok b N rd2"
      using r by (simp add: reading_ok_def rd2_def m sn eps_ok_def mach_ok_def alphs_ok_def arcs_ok_def names_ok_def labels_count_def)
    ultimately show ?thesis using s(2) r False by (intro exI [of _ rd2] exI [of _ s]) (simp add: rd2_def m sn)
  qed
qed

lemma end_reading_text:
  assumes ok: "reading_ok b N rd" and nm: "nm \<noteq> []" "nm \<in> state_names (rd_mach rd)" and few: "numStates (fst (rd_mach rd)) \<le> uint_minus1"
    and f: "\<not> b \<Longrightarrow> final (fst (rd_mach rd)) < numStates (fst (rd_mach rd)) \<and> stateName (fst (rd_mach rd)) (final (fst (rd_mach rd))) = nm"
  shows "\<exists>f. end_reading nm rd = Inr ((fst (rd_mach rd))\<lparr>final := f\<rparr>, snd (rd_mach rd)) \<and> f < numStates (fst (rd_mach rd)) \<and>
    stateName (fst (rd_mach rd)) f = nm"
proof -
  obtain M h where m: "rd_mach rd = (M, h)" by fastforce
  have ok': "mach_ok (M, h)" "named_states M = b" using ok by (simp_all add: reading_ok_def m)
  show ?thesis
  proof (cases b)
    case True
    then have n: "alph_ok (stateNames M)" "length (names (stateNames M)) = numStates M" using ok' by (simp_all add: mach_ok_def names_ok_def)
    obtain f where "f < numStates M" "stateName M f = nm" using nm(2) by (auto simp: state_names_def m)
    then show ?thesis using alph_ok_iff [OF n(1) nm(1), of f] n(2) True ok'(2) by (auto simp: end_reading_def m stateName_def)
  next
    case False
    then have f': "final M < numStates M" "stateName M (final M) = nm" using f m by simp_all
    then have "wfst_size M = numStates M" using few m by (simp add: wfst_size_def valid_def invalid_state_def)
    then show ?thesis using False ok'(2) f' by (intro exI [of _ "final M"]) (simp add: end_reading_def m)
  qed
qed

section \<open>Round trip\<close>

text \<open>The names of the states are different symbols, and the arcs can be read back.\<close>

definition printable :: "weight_format \<Rightarrow> bool \<Rightarrow> mach \<Rightarrow> bool" where
  "printable fmt brief mh \<longleftrightarrow> final (fst mh) < numStates (fst mh) \<and> numStates (fst mh) \<le> uint_minus1 \<and>
     inj_on (stateName (fst mh)) {..<numStates (fst mh)} \<and> (\<forall>nm \<in> state_names mh. symbol_text nm \<and> hd nm \<noteq> CHR ''%'') \<and>
     (\<forall>s \<in> set (states (fst mh)). \<forall>a \<in> set (arcs s). arc_dest a < numStates (fst mh) \<and> arc_printable fmt brief mh a)"

definition same_states :: "weight_format \<Rightarrow> bool \<Rightarrow> mach \<Rightarrow> mach \<Rightarrow> bool" where
  "same_states fmt include_zero mh mh' \<longleftrightarrow> numStates (fst mh') = numStates (fst mh) \<and> final (fst mh') < numStates (fst mh') \<and>
     stateName (fst mh') (final (fst mh')) = stateName (fst mh) (final (fst mh)) \<and> stateName (fst mh') 0 = stateName (fst mh) 0 \<and>
     (\<forall>i < numStates (fst mh). \<exists>j < numStates (fst mh'). stateName (fst mh') j = stateName (fst mh) i \<and>
        map (arc_text mh') (arcs (states (fst mh') ! j)) = map (written_text fmt mh) (arcs_written include_zero mh i))"

lemma printable_names:
  assumes p: "printable fmt brief mh" and b: "b \<or> \<not> named_states (fst mh)"
  shows "names_set b (state_names mh)" "\<forall>i < numStates (fst mh). stateName (fst mh) i \<in> state_names mh \<and>
    list_all (\<lambda>a. arc_printable fmt brief mh a \<and> stateName (fst mh) (arc_dest a) \<in> state_names mh) (arcs (states (fst mh) ! i))"
proof -
  let ?n = "numStates (fst mh)"
  have "card (state_names mh) = ?n" using p card_image by (fastforce simp: printable_def state_names_def)
  moreover have "state_names mh = (\<lambda>i. utoa (of_nat i :: 32 word) []) ` {..<?n}" if "\<not> b"
    using b that by (simp add: state_names_def stateName_def)
  ultimately show "names_set b (state_names mh)" using p by (auto simp: names_set_def printable_def state_names_def)
  show "\<forall>i < ?n. stateName (fst mh) i \<in> state_names mh \<and>
    list_all (\<lambda>a. arc_printable fmt brief mh a \<and> stateName (fst mh) (arc_dest a) \<in> state_names mh) (arcs (states (fst mh) ! i))"
  proof (intro allI impI)
    fix i assume i: "i < ?n"
    then have "\<forall>a \<in> set (arcs (states (fst mh) ! i)). arc_dest a < ?n \<and> arc_printable fmt brief mh a"
      using p nth_mem [OF i] unfolding printable_def by blast
    then show "stateName (fst mh) i \<in> state_names mh \<and>
      list_all (\<lambda>a. arc_printable fmt brief mh a \<and> stateName (fst mh) (arc_dest a) \<in> state_names mh) (arcs (states (fst mh) ! i))"
      using i by (simp add: list_all_iff state_namesI)
  qed
qed

lemma read_same_states:
  assumes inj: "inj_on (stateName (fst mh)) {..<numStates (fst mh)}" and fin: "final (fst mh) < numStates (fst mh)"
    and ok: "reading_ok b (state_names mh) rd" and all: "state_names mh \<subseteq> state_names (rd_mach rd)"
    and c: "\<forall>nm. content (rd_mach rd) nm = concat (map (\<lambda>i. if stateName (fst mh) i = nm then map (written_text fmt mh) (arcs_written z mh i) else []) [0..<numStates (fst mh)])"
    and f: "f < numStates (fst (rd_mach rd))" "stateName (fst (rd_mach rd)) f = stateName (fst mh) (final (fst mh))"
    and first: "stateName (fst (rd_mach rd)) 0 = stateName (fst mh) 0"
  shows "same_states fmt z mh ((fst (rd_mach rd))\<lparr>final := f\<rparr>, snd (rd_mach rd))"
proof -
  obtain M h where m: "rd_mach rd = (M, h)" by fastforce
  have inj': "inj_on (stateName M) {..<numStates M}" and sub: "state_names (M, h) \<subseteq> state_names mh"
    using ok by (simp_all add: reading_ok_def m state_names_def)
  have "state_names (M, h) = state_names mh" using sub all m by auto
  then have n: "numStates M = numStates (fst mh)" using card_image [OF inj] card_image [OF inj'] by (simp add: state_names_def)
  have sn: "stateName (M\<lparr>final := f\<rparr>) = stateName M" by (simp add: stateName_def fun_eq_iff)
  have "letter_text (M\<lparr>final := f\<rparr>, h) = letter_text (M, h)" by (simp add: letter_text_def letter_def fun_eq_iff)
  then have at: "arc_text (M\<lparr>final := f\<rparr>, h) = arc_text (M, h)" by (simp add: arc_text_def sn fun_eq_iff)
  have "\<exists>j < numStates M. stateName M j = stateName (fst mh) i \<and>
      map (arc_text (M, h)) (arcs (states M ! j)) = map (written_text fmt mh) (arcs_written z mh i)" if i: "i < numStates (fst mh)" for i
  proof -
    have "stateName (fst mh) i \<in> state_names (M, h)" using subsetD [OF all state_namesI [OF i]] m by simp
    then obtain j where j: "j < numStates M" "stateName M j = stateName (fst mh) i" by (auto simp: state_names_def)
    have "content (M, h) (stateName (fst mh) i) = map (written_text fmt mh) (arcs_written z mh i)"
      using c m inj i by (simp, subst concat_one [OF i]) (auto simp: inj_on_def)
    then have "map (arc_text (M, h)) (arcs (states M ! j)) = map (written_text fmt mh) (arcs_written z mh i)"
      using content_state [of "(M, h)" j] inj' j by simp
    then show ?thesis using j by blast
  qed
  then show ?thesis using f first n by (simp add: same_states_def m sn at)
qed

text \<open>When each arc stands on a line of its own, a state without arcs has no line: the start has to have an arc, and
  every state has to be on some arc.\<close>

definition lines_cover :: "bool \<Rightarrow> bool \<Rightarrow> mach \<Rightarrow> bool" where
  "lines_cover onearc include_zero mh \<longleftrightarrow>
     (onearc \<longrightarrow> arcs_written include_zero mh 0 \<noteq> [] \<and>
        (\<forall>i < numStates (fst mh). arcs_written include_zero mh i \<noteq> [] \<or>
           (\<exists>j < numStates (fst mh). \<exists>a \<in> set (arcs_written include_zero mh j). arc_dest a = i)))"

abbreviation all_lines :: "bool \<Rightarrow> bool \<Rightarrow> mach \<Rightarrow> (nat \<times> logweight FSTArc list) list" where
  "all_lines onearc include_zero mh \<equiv> concat (map (lines_of onearc include_zero mh) [0..<numStates (fst mh)])"

lemma set_all_lines:
  "l \<in> set (all_lines onearc iz mh) \<longleftrightarrow>
    (\<exists>i < numStates (fst mh). if onearc then \<exists>a \<in> set (arcs_written iz mh i). l = (i, [a]) else l = (i, arcs_written iz mh i))"
  by (auto simp: lines_of_def Let_def)

lemma all_lines_content:
  "concat (map (\<lambda>l. if stateName (fst mh) (fst l) = nm then map (written_text fmt mh) (snd l) else []) (all_lines onearc iz mh)) =
    concat (map (\<lambda>i. if stateName (fst mh) i = nm then map (written_text fmt mh) (arcs_written iz mh i) else []) [0..<numStates (fst mh)])"
proof -
  have one: "concat (map (\<lambda>l. if stateName (fst mh) (fst l) = nm then map (written_text fmt mh) (snd l) else []) (lines_of onearc iz mh i)) =
      (if stateName (fst mh) i = nm then map (written_text fmt mh) (arcs_written iz mh i) else [])" for i
  proof (cases onearc)
    case True
    have "concat (map (\<lambda>a. if stateName (fst mh) i = nm then [written_text fmt mh a] else []) as) =
        (if stateName (fst mh) i = nm then map (written_text fmt mh) as else [])" for as
      by (induction as) auto
    then show ?thesis using True by (simp add: lines_of_def Let_def comp_def)
  qed (simp add: lines_of_def Let_def)
  have "concat (map (\<lambda>l. if stateName (fst mh) (fst l) = nm then map (written_text fmt mh) (snd l) else [])
        (concat (map (lines_of onearc iz mh) is))) =
      concat (map (\<lambda>i. if stateName (fst mh) i = nm then map (written_text fmt mh) (arcs_written iz mh i) else []) is)" for "is"
    by (induction "is") (simp_all add: one)
  then show ?thesis .
qed

lemma all_lines_names:
  assumes "\<forall>i < numStates (fst mh). stateName (fst mh) i \<in> N \<and>
      list_all (\<lambda>a. arc_printable fmt brief mh a \<and> stateName (fst mh) (arc_dest a) \<in> N) (arcs (states (fst mh) ! i))"
  shows "\<forall>l \<in> set (all_lines onearc iz mh). stateName (fst mh) (fst l) \<in> N \<and>
      list_all (\<lambda>a. arc_printable fmt brief mh a \<and> stateName (fst mh) (arc_dest a) \<in> N) (snd l)"
proof
  fix l assume "l \<in> set (all_lines onearc iz mh)"
  then obtain i where i: "i < numStates (fst mh)" "fst l = i" "set (snd l) \<subseteq> set (arcs (states (fst mh) ! i))"
    unfolding set_all_lines by (auto simp: arcs_written_def split: if_splits)
  then show "stateName (fst mh) (fst l) \<in> N \<and>
      list_all (\<lambda>a. arc_printable fmt brief mh a \<and> stateName (fst mh) (arc_dest a) \<in> N) (snd l)"
    using assms unfolding list_all_iff by blast
qed

lemma all_lines_cover:
  assumes "lines_cover onearc iz mh"
    and l: "\<forall>l \<in> set (all_lines onearc iz mh). stateName (fst mh) (fst l) \<in> S \<and>
      (\<lambda>a. stateName (fst mh) (arc_dest a)) ` set (snd l) \<subseteq> S"
  shows "state_names mh \<subseteq> S"
proof
  fix nm assume "nm \<in> state_names mh"
  then obtain i where i: "i < numStates (fst mh)" "nm = stateName (fst mh) i" by (auto simp: state_names_def)
  show "nm \<in> S"
  proof (cases "onearc \<and> arcs_written iz mh i = []")
    case True
    then obtain j a where j: "j < numStates (fst mh)" "a \<in> set (arcs_written iz mh j)" "arc_dest a = i"
      using assms(1) i(1) unfolding lines_cover_def by blast
    then have "(j, [a]) \<in> set (all_lines onearc iz mh)" using True unfolding set_all_lines by auto
    from bspec [OF l this] show ?thesis using j(3) i(2) by simp
  next
    case False
    have "\<exists>l \<in> set (all_lines onearc iz mh). fst l = i"
    proof (cases onearc)
      case True
      then obtain a where "a \<in> set (arcs_written iz mh i)" using False by (cases "arcs_written iz mh i") auto
      then have "(i, [a]) \<in> set (all_lines onearc iz mh)" using True i(1) unfolding set_all_lines by auto
      then show ?thesis by force
    next
      case False
      then have "(i, arcs_written iz mh i) \<in> set (all_lines onearc iz mh)" using i(1) unfolding set_all_lines by auto
      then show ?thesis by force
    qed
    then show ?thesis using l i(2) by blast
  qed
qed

lemma all_lines_first:
  assumes "lines_cover onearc iz mh" "0 < numStates (fst mh)"
  shows "all_lines onearc iz mh \<noteq> [] \<and> fst (hd (all_lines onearc iz mh)) = 0"
proof -
  have "[0..<numStates (fst mh)] = 0 # [Suc 0..<numStates (fst mh)]" using assms(2) by (rule upt_conv_Cons)
  moreover have "lines_of onearc iz mh 0 \<noteq> [] \<and> fst (hd (lines_of onearc iz mh 0)) = 0"
    using assms(1) by (cases "arcs_written iz mh 0") (auto simp: lines_cover_def lines_of_def Let_def)
  ultimately show ?thesis by simp
qed

text \<open>C4: \<open>readLegible\<close> reads back what \<open>writeLegible\<close> prints, in the brief and the full format, with the arcs of a
  state on one line or each arc on its own, and in each format for weights: the same number of states, the
  same start and final state, and for every state a state of that name with the arcs that were printed, in the same order, with the
  same symbols and groups. Each weight is the printed one rounded to the printed digits, close to the original. Printed one
  arc to a line, every state has to be on an arc and the start has to have one of its own.\<close>

theorem readLegible_writeLegible:
  assumes p: "printable fmt brief mh" and cover: "lines_cover onearc include_zero mh"
    and fin: "alwaysNamed \<or> \<not> named_states (fst mh) \<or> \<not> list_all digit_char (stateName (fst mh) (final (fst mh)))"
  shows "(\<exists>mh'. wfst_of_text alwaysNamed (writeLegible fmt brief onearc include_zero mh) h = Some (Inr mh') \<and>
      same_states fmt include_zero mh mh') \<and>
    (\<forall>s \<in> set (states (fst mh)). \<forall>a \<in> set (arcs s). weight_close fmt (arc_weight a) (reread fmt (arc_weight a)))"
proof -
  let ?N = "state_names mh" and ?nm = "stateName (fst mh) (final (fst mh))" and ?n = "numStates (fst mh)"
  define b where "b = (alwaysNamed \<or> \<not> list_all digit_char ?nm)"
  let ?ls = "all_lines onearc include_zero mh"
  define body where "body = concat (map (write_line fmt brief mh) ?ls) @ [newline]"
  have "b \<or> \<not> named_states (fst mh)" using fin by (auto simp: b_def)
  note n = printable_names [OF p this]
  have p': "final (fst mh) < ?n" "?n \<le> uint_minus1" "inj_on (stateName (fst mh)) {..<?n}" using p by (simp_all add: printable_def)
  have nm: "?nm \<in> ?N" using p'(1) by (simp add: state_names_def)
  have "0 < ?n" using p'(1) by linarith
  note first_line = all_lines_first [OF cover this]
  then obtain x where x: "body = newline # x" by (cases ?ls) (simp_all add: body_def write_line_def)
  have "writeLegible fmt brief onearc include_zero mh = ?nm @ body"
    using p'(1,2) by (simp only: writeLegible_def valid_def invalid_state_def body_def write_states_lines) simp
  then have written: "writeLegible fmt brief onearc include_zero mh = ?nm @ newline # x" using x by simp
  obtain rd s where s: "start_reading alwaysNamed (wfst_init h) (Some (?nm @ newline # x)) = Inr (?nm, rd, Some s)" "skip_ws s = skip_ws x"
      "reading_ok b ?N rd" "\<forall>y. content (rd_mach rd) y = []"
      "if b then numStates (fst (rd_mach rd)) = 0
       else final (fst (rd_mach rd)) < numStates (fst (rd_mach rd)) \<and> stateName (fst (rd_mach rd)) (final (fst (rd_mach rd))) = ?nm"
    using start_reading_text [OF n(1) nm b_def] by blast
  have "skip_ws s = skip_ws body" using s(2) x by simp
  from read_lines_text [OF n(1) all_lines_names [OF n(2)] s(3) this [unfolded body_def]] obtain rd' where r: "read_lines rd (Some s) = Some (Inr rd')" "reading_ok b ?N rd'"
      "keeps (rd_mach rd) (rd_mach rd')"
    and c: "\<forall>nm. content (rd_mach rd') nm = content (rd_mach rd) nm @
        concat (map (\<lambda>l. if stateName (fst mh) (fst l) = nm then map (written_text fmt mh) (snd l) else []) ?ls)"
    and all: "\<forall>l \<in> set ?ls. stateName (fst mh) (fst l) \<in> state_names (rd_mach rd') \<and>
       (\<lambda>a. stateName (fst mh) (arc_dest a)) ` set (snd l) \<subseteq> state_names (rd_mach rd')"
    and zero: "b \<and> numStates (fst (rd_mach rd)) = 0 \<and> ?ls \<noteq> [] \<longrightarrow> stateName (fst (rd_mach rd')) 0 = stateName (fst mh) (fst (hd ?ls))"
    by blast
  have all': "?N \<subseteq> state_names (rd_mach rd')" by (rule all_lines_cover [OF cover all])
  have c': "\<forall>nm. content (rd_mach rd') nm = concat (map (\<lambda>i. if stateName (fst mh) i = nm then map (written_text fmt mh) (arcs_written include_zero mh i) else []) [0..<?n])"
    using c s(4) by (simp only: append_Nil simp_thms all_lines_content)
  have first: "stateName (fst (rd_mach rd')) 0 = stateName (fst mh) 0"
  proof (cases b)
    case True
    then show ?thesis using zero s(5) first_line by simp
  next
    case False
    then show ?thesis using r(2) \<open>b \<or> _\<close> by (simp add: reading_ok_def stateName_def)
  qed
  have "inj_on (stateName (fst (rd_mach rd'))) {..<numStates (fst (rd_mach rd'))}" "state_names (rd_mach rd') \<subseteq> ?N"
    using r(2) by (simp_all add: reading_ok_def state_names_def)
  then have few: "numStates (fst (rd_mach rd')) \<le> uint_minus1"
    using card_mono [of ?N "state_names (rd_mach rd')"] n(1) card_image by (fastforce simp: names_set_def state_names_def)
  have "final (fst (rd_mach rd')) < numStates (fst (rd_mach rd')) \<and> stateName (fst (rd_mach rd')) (final (fst (rd_mach rd'))) = ?nm" if "\<not> b"
    using s(5) that keepsD(1,2) [OF r(3)] by (auto simp: mach_grows_def)
  with end_reading_text [OF r(2) _ _ few, of ?nm] obtain f where f: "end_reading ?nm rd' = Inr ((fst (rd_mach rd'))\<lparr>final := f\<rparr>, snd (rd_mach rd'))"
      "f < numStates (fst (rd_mach rd'))" "stateName (fst (rd_mach rd')) f = ?nm"
    using nm all' n(1) symbol_text_hd by (fastforce simp: names_set_def)
  have "same_states fmt include_zero mh ((fst (rd_mach rd'))\<lparr>final := f\<rparr>, snd (rd_mach rd'))"
    by (rule read_same_states [OF p'(3,1) r(2) all' c' f(2,3) first])
  moreover have "wfst_of_text alwaysNamed (writeLegible fmt brief onearc include_zero mh) h =
      Some (Inr ((fst (rd_mach rd'))\<lparr>final := f\<rparr>, snd (rd_mach rd')))"
    using s(1) r(1) f(1) by (simp add: wfst_of_text_def readLegible_def written case_prod_unfold)
  moreover have "\<forall>s \<in> set (states (fst mh)). \<forall>a \<in> set (arcs s). weight_close fmt (arc_weight a) (reread fmt (arc_weight a))"
    using p reread_close by (simp add: printable_def arc_printable_def)
  ultimately show ?thesis by blast
qed

definition half_weight :: logweight where "half_weight = setReal (Num (1 / 2))"

definition example_mach :: mach where
  "example_mach =
     (\<lparr>owner_alph = \<lambda>_. True, alph = [kInput \<mapsto> 0, kOutput \<mapsto> 0], named_states = True, stateNames = alph_empty\<lparr>names := [''s'', ''f'']\<rparr>, final = 1,
       states = [state_new\<lparr>arcs := [\<lparr>arc_in = 2, arc_out = 0, arc_dest = 1, arc_weight = half_weight, groupId = 3\<rparr>]\<rparr>,
                 state_new\<lparr>arcs := [\<lparr>arc_in = 0, arc_out = 0, arc_dest = 0, arc_weight = half_weight, groupId = no_group\<rparr>]\<rparr>], indexed_by = kNone\<rparr>,
      [Some (alph_empty\<lparr>names := [EPSILON_SYMBOL, WILDCARD_SYMBOL, ''a'']\<rparr>)])"

definition default_format :: weight_format where
  "default_format = \<lparr>wf_single = False, wf_base = EXP, wf_thresh = SOMETIMES_LOG\<rparr>"

lemma dec_digits_numeral: "dec_digits (numeral k) n = dec_digits (pred_numeral k) (n div 10) @ [digit_to_char (n mod 10)]"
  unfolding numeral_eq_Suc [of k] by (rule dec_digits.simps(2))

lemma digit_chars: "digit_to_char 0 = CHR ''0''" "digit_to_char 5 = CHR ''5''"
  by (code_simp, code_simp)

lemma sci_half: "sci 15 (1 / 2) = (500000000000000, - 1)"
proof -
  have l: "log 10 (1 / 2) < 0" "- 1 \<le> log 10 (1 / 2)" by (simp_all add: le_log_iff powr_minus)
  then have "\<lfloor>log 10 (1 / 2)\<rfloor> = - 1" by linarith
  moreover have "1 / 2 * 10 powi (int 15 - 1 - (- 1)) = (of_int 500000000000000 :: real)"
    by (simp add: ten_powi(1))
  moreover have "round_half_even (of_int 500000000000000) = 500000000000000" unfolding round_half_even_def Let_def floor_of_int by simp
  ultimately show ?thesis by (simp only: sci_def Let_def) simp
qed

lemma half_real: "prints_real default_format half_weight" "getReal half_weight = Num (1 / 2)" "lweight half_weight = Num (ln (1 / 2))"
proof -
  show h: "lweight half_weight = Num (ln (1 / 2))" by (simp add: half_weight_def setReal_def)
  then show "getReal half_weight = Num (1 / 2)" by (simp add: getReal_def)
  have "ln (2 :: real) < 2" "0 < ln (2 :: real)" using ln_less_self [of 2] by simp_all
  then have "- ln (2 :: real) < 82" "ln (2 :: real) < 82" by linarith+
  then show "prints_real default_format half_weight"
    by (simp add: prints_real_def default_format_def fitsInReal_def getLn_def h UNDERFLOW_LN_def ln_div)
qed

lemma half_text: "lw_print default_format half_weight = ''0.5''"
proof -
  have "out_double 15 (Num (1 / 2)) = digits_text 15 500000000000000 (- 1)" by (simp add: out_double.simps(1) sci_half)
  also have "\<dots> = ''0.5''"
    by (simp add: digits_text_def dec_digits_numeral point_text_def strip_zeros_def digit_chars)
  finally have "out_double 15 (Num (1 / 2)) = ''0.5''" .
  moreover have "\<not> isZero half_weight" by (simp add: isZero_def isPositive_def half_real(3))
  moreover have "lw_precision default_format = 15" by (simp add: lw_precision_def default_format_def)
  ultimately show ?thesis using half_real by (simp add: lw_print_def)
qed

lemma half_printable: "weight_printable default_format half_weight"
  using half_text half_real by (simp add: weight_printable_def bufend_def)

lemma example_printable: "printable default_format True example_mach"
proof -
  have sn: "stateName (fst example_mach) 0 = ''s''" "stateName (fst example_mach) (Suc 0) = ''f''"
    by (simp_all add: example_mach_def stateName_def)
  have "symbol_text ''s''" "symbol_text ''f''" "symbol_text ''a''" "symbol_text EPSILON_SYMBOL"
    by (simp_all add: symbol_text_def plain_text_def bufend_def isspace_def EPSILON_SYMBOL_def lower_def)
  moreover have "letter_text example_mach d i = [EPSILON_SYMBOL, WILDCARD_SYMBOL, ''a''] ! i" if "d \<in> {kInput, kOutput}" for d i
    using that by (auto simp: example_mach_def letter_text_def letter_def)
  moreover have "weight_printed True a" if "arc_weight a = half_weight" for a
    using that by (simp add: weight_printed_def half_weight_def setReal_def setOne_def)
  moreover have "state_names example_mach = {''s'', ''f''}" using sn by (auto simp: state_names_def example_mach_def lessThan_Suc stateName_def)
  moreover have "final (fst example_mach) = 1" "states (fst example_mach) =
      [state_new\<lparr>arcs := [\<lparr>arc_in = 2, arc_out = 0, arc_dest = 1, arc_weight = half_weight, groupId = 3\<rparr>]\<rparr>,
       state_new\<lparr>arcs := [\<lparr>arc_in = 0, arc_out = 0, arc_dest = 0, arc_weight = half_weight, groupId = no_group\<rparr>]\<rparr>]"
    by (simp_all add: example_mach_def)
  ultimately show ?thesis
    using half_printable sn unfolding printable_def
    by (simp add: arc_printable_def no_group_def uint_minus1_def inj_on_def lessThan_Suc state_new_def)
qed

theorem readLegible_writeLegible_witness:
  "printable default_format True example_mach \<and> lines_cover True True example_mach \<and>
   \<not> list_all digit_char (stateName (fst example_mach) (final (fst example_mach))) \<and>
   (\<exists>mh'. wfst_of_text False (writeLegible default_format True True True example_mach) [] = Some (Inr mh') \<and>
     same_states default_format True example_mach mh')"
proof -
  have "\<not> list_all digit_char (stateName (fst example_mach) (final (fst example_mach)))"
    by (simp add: example_mach_def stateName_def digit_char_def)
  moreover have cover: "lines_cover True True example_mach"
    by (simp add: lines_cover_def arcs_written_def example_mach_def state_new_def less_Suc_eq)
  ultimately show ?thesis
    using readLegible_writeLegible [OF example_printable cover, of False "[]"] example_printable by blast
qed

end
