(* ===== verification/Paths.thy ===== *)
theory Paths
  imports ShortestPath Wfst
begin

text \<open>
  Paths through a transducer: \<open>prunePaths\<close> and \<open>randomPaths\<close> of \<open>carmel/src/fst.cc\<close>, \<open>randomPath\<close> of
  \<open>carmel/src/fst.h\<close>.  The cost of a weight is its negated logarithm; costs are exact, as in
  \<open>ShortestPath\<close>.
\<close>

section \<open>Pruning\<close>

text \<open>\<open>prunePaths\<close>.  \<open>keep\<close> is the logarithm of \<open>keep_paths_within_ratio\<close>, \<open>None\<close> when it is infinite; a ratio of zero is
  outside the model.  \<open>sorter\<close> is \<open>std::sort\<close>, which may order equal elements in any way.\<close>

definition UNLIMITED :: nat where "UNLIMITED = uint_minus1"

definition lesscost :: "'c::linorder cost \<times> nat \<Rightarrow> 'c cost \<times> nat \<Rightarrow> bool" where
  "lesscost l r \<longleftrightarrow> fst l < fst r"

definition best_path_costs :: "'c::linordered_ab_group_add cost list \<Rightarrow> 'c cost list \<Rightarrow> ('c cost \<times> nat) list" where
  "best_path_costs for_dist rev_dist = map (\<lambda>i. (for_dist ! i + rev_dist ! i, i)) [0..<length for_dist]"

text \<open>The body of the loop over the allowed states.\<close>

definition prune_state ::
  "('w \<Rightarrow> 'c::linordered_ab_group_add cost) \<Rightarrow> 'c cost list \<Rightarrow> 'c cost list \<Rightarrow> 'c cost option \<Rightarrow> 'c cost \<times> nat \<Rightarrow>
   bool list \<times> 'w State list \<Rightarrow> bool list \<times> 'w State list" where
  "prune_state cost for_dist rev_dist worst_path cst rs =
     (let (best, st) = cst; (remove, ss) = rs
      in case worst_path of
           None \<Rightarrow> (remove[st := False], ss)
         | Some worst \<Rightarrow>
             if worst < best then (remove[st := True], ss)
             else (remove[st := False],
                   ss[st := erase_if (\<lambda>a. worst < cost (arc_weight a) + for_dist ! st + rev_dist ! arc_dest a) (ss ! st)]))"

definition prunePaths ::
  "('w \<Rightarrow> 'c::linordered_ab_group_add cost) \<Rightarrow> (('c cost \<times> nat) list \<Rightarrow> ('c cost \<times> nat) list) \<Rightarrow> nat \<Rightarrow> 'c option \<Rightarrow> 'w WFST \<Rightarrow> 'w WFST option" where
  "prunePaths cost sorter max_states keep M =
     (if max_states = UNLIMITED \<and> keep = None then Some M
      else (let n_states = numStates M; for_graph = makeGraph cost M; rev_graph = reverseGraph for_graph True;
                for_dist = fst (shortestDistancesFrom for_graph 0 False);
                rev_dist = fst (shortestDistancesFrom rev_graph (final M) False);
                best_path = for_dist ! final M; worst_path = map_option (\<lambda>d. best_path + Fin d) keep;
                best_path_cost = sorter (best_path_costs for_dist rev_dist);
                allowed = (if max_states = UNLIMITED \<or> max_states > n_states then n_states else max_states);
                (remove, ss) = fold (prune_state cost for_dist rev_dist worst_path) (take allowed best_path_cost)
                                 (replicate n_states False, states M);
                remove = fold (\<lambda>(_, st) r. r[st := True]) (drop allowed best_path_cost) remove
            in removeMarkedStates remove (M\<lparr>states := ss\<rparr>)))"

definition sorts :: "(('c::linorder cost \<times> nat) list \<Rightarrow> ('c cost \<times> nat) list) \<Rightarrow> bool" where
  "sorts sorter \<longleftrightarrow> (\<forall>xs. mset (sorter xs) = mset xs \<and> sorted_wrt (\<lambda>l r. \<not> lesscost r l) (sorter xs))"

section \<open>Paths and their costs\<close>

fun arc_path :: "'w WFST \<Rightarrow> nat \<Rightarrow> 'w FSTArc list \<Rightarrow> nat \<Rightarrow> bool" where
  "arc_path M p [] q \<longleftrightarrow> p = q"
| "arc_path M p (a # as) q \<longleftrightarrow> a \<in> set (state_arcs M p) \<and> arc_path M (arc_dest a) as q"

definition path_cost :: "('w \<Rightarrow> 'c::linordered_ab_group_add cost) \<Rightarrow> 'w FSTArc list \<Rightarrow> 'c cost" where
  "path_cost cost as = (\<Sum>a\<leftarrow>as. cost (arc_weight a))"

text \<open>What is on the arcs of a path, apart from its states.\<close>

definition path_words :: "'w FSTArc list \<Rightarrow> (nat \<times> nat \<times> 'w \<times> nat) list" where
  "path_words as = map (\<lambda>a. (arc_in a, arc_out a, arc_weight a, groupId a)) as"

lemma path_cost_simps [simp]: "path_cost cost [] = 0" "path_cost cost (a # as) = cost (arc_weight a) + path_cost cost as"
  "path_cost cost (as @ bs) = path_cost cost as + path_cost cost bs"
  by (simp_all add: path_cost_def)

lemma arc_path_append: "arc_path M p (as @ bs) q \<longleftrightarrow> (\<exists>r. arc_path M p as r \<and> arc_path M r bs q)"
  by (induction as arbitrary: p) auto

lemma makeGraph_arcs:
  "u < numStates M \<Longrightarrow> (\<exists>a \<in> set (makeGraph cost M ! u). dest a = q \<and> weight a = c) \<longleftrightarrow> (\<exists>a \<in> set (state_arcs M u). arc_dest a = q \<and> cost (arc_weight a) = c)"
proof -
  assume u: "u < numStates M"
  let ?h = "\<lambda>(p :: nat, l :: 'a FSTArc). \<lparr>src = u, dest = arc_dest l, weight = cost (arc_weight l), data = Data (u, p)\<rparr>"
  have "(\<lambda>a. (dest a, weight a)) ` set (makeGraph cost M ! u) = (\<lambda>a. (arc_dest a, cost (arc_weight a))) ` set (arcs (states M ! u))"
  proof -
    have "map (\<lambda>a. (dest a, weight a)) (makeGraph cost M ! u) = rev (map ((\<lambda>a. (arc_dest a, cost (arc_weight a))) \<circ> snd) (enumerate 0 (arcs (states M ! u))))"
      by (simp add: makeGraph_nth [OF u] rev_map case_prod_unfold comp_def)
    also have "\<dots> = rev (map (\<lambda>a. (arc_dest a, cost (arc_weight a))) (arcs (states M ! u)))" by (metis map_map map_snd_enumerate)
    finally show ?thesis by (metis set_map set_rev)
  qed
  then have "(q, c) \<in> (\<lambda>a. (dest a, weight a)) ` set (makeGraph cost M ! u) \<longleftrightarrow> (q, c) \<in> (\<lambda>a. (arc_dest a, cost (arc_weight a))) ` set (arcs (states M ! u))"
    by simp
  then show ?thesis using u by (auto simp: state_arcs_def image_iff)
qed

lemma makeGraph_arcD:
  assumes "u < numStates M" "a \<in> set (makeGraph cost M ! u)"
  shows "\<exists>b. b \<in> set (state_arcs M u) \<and> arc_dest b = dest a \<and> cost (arc_weight b) = weight a"
  using makeGraph_arcs [OF assms(1), THEN iffD1, of cost "dest a" "weight a"] assms(2) by blast

lemma walk_cost_path:
  assumes M: "wfst_ok M" and p: "p < numStates M"
  shows "walk_cost (makeGraph cost M) p q c \<longleftrightarrow> (\<exists>as. arc_path M p as q \<and> path_cost cost as = c)"
proof
  show "walk_cost (makeGraph cost M) p q c \<Longrightarrow> \<exists>as. arc_path M p as q \<and> path_cost cost as = c"
  proof (induction rule: walk_cost.induct)
    case start
    show ?case by (intro exI [of _ "[]"]) simp
  next
    case (step u c a)
    obtain as where as: "arc_path M p as u" "path_cost cost as = c" using step.IH by blast
    have "u < numStates M" using step.hyps(2) by (simp add: makeGraph_edge)
    then obtain b where "b \<in> set (state_arcs M u)" "arc_dest b = dest a" "cost (arc_weight b) = weight a"
      using makeGraph_arcD [OF _ step.hyps(3)] by blast
    then show ?case using as by (intro exI [of _ "as @ [b]"]) (auto simp: arc_path_append add.commute)
  qed
  have "arc_path M p as q \<Longrightarrow> p < numStates M \<Longrightarrow> walk_cost (makeGraph cost M) p q (path_cost cost as)" for as
  proof (induction as arbitrary: p)
    case Nil
    then show ?case by (simp add: walk_cost.start)
  next
    case (Cons b as)
    obtain a where a: "a \<in> set (makeGraph cost M ! p)" "dest a = arc_dest b" "weight a = cost (arc_weight b)"
      using makeGraph_arcs [OF Cons.prems(2), THEN iffD2, of "arc_dest b" cost "cost (arc_weight b)"] Cons.prems(1) by auto
    have "arc_dest b < numStates M"
      using M Cons.prems by (auto simp: wfst_ok_def state_arcs_def)
    then have "walk_cost (makeGraph cost M) (dest a) q (path_cost cost as)" using Cons a(2) by simp
    from walk_cost_front [OF this _ a(1)] show ?case using Cons.prems(2) a(3) by (simp add: makeGraph_edge)
  qed
  then show "\<exists>as. arc_path M p as q \<and> path_cost cost as = c \<Longrightarrow> walk_cost (makeGraph cost M) p q c" using p by blast
qed

definition nonneg_costs :: "('w \<Rightarrow> 'c::linordered_ab_group_add cost) \<Rightarrow> 'w WFST \<Rightarrow> bool" where
  "nonneg_costs cost M \<longleftrightarrow> (\<forall>s \<in> set (states M). \<forall>a \<in> set (arcs s). 0 \<le> cost (arc_weight a))"

text \<open>\<open>d\<close> holds the least costs of the paths of the family \<open>P\<close>.\<close>

definition least_costs :: "('w \<Rightarrow> 'c::linordered_ab_group_add cost) \<Rightarrow> nat \<Rightarrow> (nat \<Rightarrow> 'w FSTArc list \<Rightarrow> bool) \<Rightarrow> 'c cost list \<Rightarrow> bool" where
  "least_costs cost n P d \<longleftrightarrow> length d = n \<and> (\<forall>v < n. (d ! v = HUGE \<or> (\<exists>as. P v as \<and> path_cost cost as = d ! v)) \<and> (\<forall>as. P v as \<longrightarrow> d ! v \<le> path_cost cost as))"

lemma least_costsD:
  assumes "least_costs cost n P d" "v < n"
  shows "d ! v \<noteq> HUGE \<Longrightarrow> \<exists>as. P v as \<and> path_cost cost as = d ! v" "P v as \<Longrightarrow> d ! v \<le> path_cost cost as"
  using assms by (auto simp: least_costs_def)

lemma distances_least:
  fixes cost :: "'w \<Rightarrow> 'c::linordered_ab_group_add cost"
  assumes M: "wfst_ok M" and nn: "nonneg_costs cost M"
  shows "least_costs cost (numStates M) (\<lambda>v as. arc_path M 0 as v) (fst (shortestDistancesFrom (makeGraph cost M) 0 False))"
    "least_costs cost (numStates M) (\<lambda>v as. arc_path M v as (final M))
      (fst (shortestDistancesFrom (reverseGraph (makeGraph cost M) True) (final M) False))"
proof -
  let ?g = "makeGraph cost M" and ?n = "numStates M"
  have g: "graph_ok ?g" and len: "length ?g = ?n" using makeGraph_ok [OF M] by (simp_all add: makeGraph_edge)
  have fin: "final M < ?n" "0 < ?n" using M by (auto simp: wfst_ok_def)
  have gn: "nonneg_arcs ?g"
    unfolding nonneg_arcs_def
  proof (intro ballI)
    fix st a assume "st \<in> set ?g" "a \<in> set st"
    then obtain u where u: "u < ?n" "a \<in> set (?g ! u)" by (auto simp: in_set_conv_nth len)
    then obtain b where b: "b \<in> set (state_arcs M u)" "cost (arc_weight b) = weight a" using makeGraph_arcD by blast
    then have "b \<in> set (arcs (states M ! u))" using u(1) by (simp add: state_arcs_def)
    then have "0 \<le> cost (arc_weight b)" using nn nth_mem [OF u(1)] unfolding nonneg_costs_def by blast
    then show "0 \<le> weight a" by (simp add: b(2))
  qed
  let ?r = "reverseGraph ?g True"
  have r: "graph_ok ?r" "length ?r = ?n" "nonneg_arcs ?r"
    using reverseGraph_edge(1) [OF g] reverseGraph_nth(1) [OF g] reversed_nonneg [OF g gn] len by simp_all
  have dist: "length (fst (shortestDistancesFrom h s False)) = length h \<and>
      (\<forall>v < length h. (fst (shortestDistancesFrom h s False) ! v = HUGE \<or> walk_cost h s v (fst (shortestDistancesFrom h s False) ! v)) \<and>
        (\<forall>c. walk_cost h s v c \<longrightarrow> fst (shortestDistancesFrom h s False) ! v \<le> c))"
    if "graph_ok h" "nonneg_arcs h" "s < length h" for h :: "('c cost, nat \<times> nat) Graph" and s
  proof -
    obtain w tk where e: "shortestDistancesFrom h s False = (w, tk)" by fastforce
    from shortestDistancesFrom_spec [OF that e] obtain U where
      d: "dist_ok h s U (\<lambda>u. set (h ! u)) w" "\<forall>v \<in> U. w ! v = HUGE" "length w = length h" by blast
    have "\<forall>v < length h. w ! v = HUGE \<or> walk_cost h s v (w ! v)" using d(1) by (simp add: dist_ok_def)
    then show ?thesis using dist_least [OF d(1,2) that(1)] d(3) by (simp add: e)
  qed
  show "least_costs cost ?n (\<lambda>v as. arc_path M 0 as v) (fst (shortestDistancesFrom ?g 0 False))"
    using dist [OF g gn, of 0] fin(2) walk_cost_path [OF M fin(2)] unfolding len least_costs_def by blast
  have "walk_cost ?r (final M) v c \<longleftrightarrow> (\<exists>as. arc_path M v as (final M) \<and> path_cost cost as = c)" if "v < ?n" for v c
    using reversed_walk [OF g] walk_cost_path [OF M that] fin(1) that by (simp add: len)
  then show "least_costs cost ?n (\<lambda>v as. arc_path M v as (final M)) (fst (shortestDistancesFrom ?r (final M) False))"
    using dist [OF r(1,3), of "final M"] fin(1) unfolding r(2) least_costs_def by blast
qed

text \<open>The loop over the states.\<close>

lemma prune_fold:
  assumes "distinct (map snd xs)" "\<forall>x \<in> set xs. snd x < n" "length r = n" "length ss = n"
    and "fold (prune_state cost f v (Some worst)) xs (r, ss) = (r', ss')"
  shows "length r' = n \<and> length ss' = n \<and>
    (\<forall>(c, st) \<in> set xs. r' ! st = (worst < c) \<and>
       ss' ! st = (if worst < c then ss ! st else erase_if (\<lambda>a. worst < cost (arc_weight a) + f ! st + v ! arc_dest a) (ss ! st))) \<and>
    (\<forall>i. i \<notin> snd ` set xs \<longrightarrow> r' ! i = r ! i \<and> ss' ! i = ss ! i)"
  using assms
proof (induction xs arbitrary: r ss)
  case (Cons x xs)
  obtain c st where x: "x = (c, st)" by fastforce
  obtain r1 ss1 where 1: "prune_state cost f v (Some worst) x (r, ss) = (r1, ss1)" by fastforce
  have st: "st < n" "st \<notin> snd ` set xs" using Cons.prems(1,2) by (auto simp: x image_iff)
  have p1: "length r1 = n" "length ss1 = n" "r1 ! st = (worst < c)"
    "ss1 ! st = (if worst < c then ss ! st else erase_if (\<lambda>a. worst < cost (arc_weight a) + f ! st + v ! arc_dest a) (ss ! st))"
    "i \<noteq> st \<Longrightarrow> r1 ! i = r ! i \<and> ss1 ! i = ss ! i" for i
    using 1 st(1) Cons.prems(3,4) by (auto simp: prune_state_def x split: if_splits)
  have "fold (prune_state cost f v (Some worst)) xs (r1, ss1) = (r', ss')" using Cons.prems(5) 1 by simp
  from Cons.IH [OF _ _ p1(1,2) this] Cons.prems(1,2) have ih: "length r' = n \<and> length ss' = n \<and>
    (\<forall>(c, st) \<in> set xs. r' ! st = (worst < c) \<and>
       ss' ! st = (if worst < c then ss1 ! st else erase_if (\<lambda>a. worst < cost (arc_weight a) + f ! st + v ! arc_dest a) (ss1 ! st))) \<and>
    (\<forall>i. i \<notin> snd ` set xs \<longrightarrow> r' ! i = r1 ! i \<and> ss' ! i = ss1 ! i)" by auto
  have "y \<in> set xs \<Longrightarrow> snd y \<noteq> st" for y using st(2) by auto
  then have old: "ss1 ! s = ss ! s" if "(c', s) \<in> set xs" for c' s using p1(5) [of s] that by fastforce
  show ?case
  proof (intro conjI)
    show "length r' = n" "length ss' = n" using ih by blast+
    show "\<forall>i. i \<notin> snd ` set (x # xs) \<longrightarrow> r' ! i = r ! i \<and> ss' ! i = ss ! i" using ih p1(5) x by simp
    have "r' ! st = r1 ! st" "ss' ! st = ss1 ! st" using ih st(2) by blast+
    then show "\<forall>(c, st) \<in> set (x # xs). r' ! st = (worst < c) \<and>
       ss' ! st = (if worst < c then ss ! st else erase_if (\<lambda>a. worst < cost (arc_weight a) + f ! st + v ! arc_dest a) (ss ! st))"
      using ih old p1(3,4) by (fastforce simp: x)
  qed
qed simp

section \<open>What pruning keeps\<close>

text \<open>\<open>M'\<close> holds the unmarked states of \<open>M\<close> under new numbers with those of their arcs to unmarked states that \<open>K\<close> keeps.\<close>

definition part_of :: "'w WFST \<Rightarrow> bool list \<Rightarrow> (nat \<Rightarrow> 'w FSTArc \<Rightarrow> bool) \<Rightarrow> 'w WFST \<Rightarrow> bool" where
  "part_of M marked K M' \<longleftrightarrow> length marked = numStates M \<and> (\<forall>p < numStates M. \<forall>a \<in> set (state_arcs M p). arc_dest a < numStates M) \<and>
     (\<forall>p < numStates M. \<not> marked ! p \<longrightarrow> state_arcs M' (index_table marked ! p) =
        map (\<lambda>a. a\<lparr>arc_dest := index_table marked ! arc_dest a\<rparr>) (filter (\<lambda>a. K p a \<and> \<not> marked ! arc_dest a) (state_arcs M p)))"

fun kept_path :: "bool list \<Rightarrow> (nat \<Rightarrow> 'w FSTArc \<Rightarrow> bool) \<Rightarrow> nat \<Rightarrow> 'w FSTArc list \<Rightarrow> bool" where
  "kept_path marked K p [] \<longleftrightarrow> \<not> marked ! p"
| "kept_path marked K p (a # as) \<longleftrightarrow> \<not> marked ! p \<and> K p a \<and> kept_path marked K (arc_dest a) as"

lemma kept_path_hd: "kept_path marked K p as \<Longrightarrow> \<not> marked ! p"
  by (cases as) simp_all

lemma part_of_path:
  assumes M: "part_of M marked K M'"
  shows "arc_path M p as q \<Longrightarrow> p < numStates M \<Longrightarrow> kept_path marked K p as \<Longrightarrow>
    \<exists>as'. arc_path M' (index_table marked ! p) as' (index_table marked ! q) \<and> path_words as' = path_words as"
proof (induction as arbitrary: p)
  case Nil
  then show ?case by (intro exI [of _ "[]"]) simp
next
  case (Cons a as)
  have a: "a \<in> set (state_arcs M p)" "\<not> marked ! p" "K p a" "\<not> marked ! arc_dest a"
    using Cons.prems kept_path_hd by auto
  have "arc_dest a < numStates M" using M Cons.prems(2) a(1) by (auto simp: part_of_def)
  then obtain as' where as': "arc_path M' (index_table marked ! arc_dest a) as' (index_table marked ! q)" "path_words as' = path_words as"
    using Cons.IH [of "arc_dest a"] Cons.prems by auto
  have "a\<lparr>arc_dest := index_table marked ! arc_dest a\<rparr> \<in> set (state_arcs M' (index_table marked ! p))"
    using M Cons.prems(2) a by (auto simp: part_of_def)
  then show ?case
    using as' by (intro exI [of _ "a\<lparr>arc_dest := index_table marked ! arc_dest a\<rparr> # as'"]) (simp add: path_words_def)
qed

lemma part_of_path_back:
  assumes M: "part_of M marked K M'"
  shows "arc_path M' (index_table marked ! p) as' r \<Longrightarrow> p < numStates M \<Longrightarrow> \<not> marked ! p \<Longrightarrow>
    \<exists>as q. arc_path M p as q \<and> q < numStates M \<and> \<not> marked ! q \<and> r = index_table marked ! q \<and> path_words as = path_words as' \<and> kept_path marked K p as"
proof (induction as' arbitrary: p)
  case Nil
  then show ?case by (intro exI [of _ "[]"] exI [of _ p]) simp
next
  case (Cons b as')
  have "b \<in> set (state_arcs M' (index_table marked ! p))" using Cons.prems(1) by simp
  then obtain a where a: "a \<in> set (state_arcs M p)" "K p a" "\<not> marked ! arc_dest a" "b = a\<lparr>arc_dest := index_table marked ! arc_dest a\<rparr>"
    using M Cons.prems(2,3) by (auto simp: part_of_def)
  have d: "arc_dest a < numStates M" using M Cons.prems(2) a(1) by (auto simp: part_of_def)
  have "arc_path M' (index_table marked ! arc_dest a) as' r" using Cons.prems(1) a(4) by simp
  from Cons.IH [OF this d a(3)] obtain as q where "arc_path M (arc_dest a) as q" "q < numStates M" "\<not> marked ! q" "r = index_table marked ! q"
      "path_words as = path_words as'" "kept_path marked K (arc_dest a) as" by blast
  then show ?case using a Cons.prems(3) by (intro exI [of _ "a # as"] exI [of _ q]) (simp add: path_words_def)
qed

lemma cost_add_mono: "(a :: 'c::linordered_ab_group_add cost) \<le> b \<Longrightarrow> c \<le> d \<Longrightarrow> a + c \<le> b + d"
  by (rule add_mono)

lemma cost_le_plus: "0 \<le> d \<Longrightarrow> (c :: 'c::linordered_ab_group_add cost) \<le> c + Fin d"
  by (cases c) auto

text \<open>The accepting paths within \<open>d\<close> of every other.\<close>

definition near_best :: "('w \<Rightarrow> 'c::linordered_ab_group_add cost) \<Rightarrow> 'c \<Rightarrow> 'w WFST \<Rightarrow> 'w FSTArc list \<Rightarrow> bool" where
  "near_best cost d M as \<longleftrightarrow> arc_path M 0 as (final M) \<and> (\<forall>bs. arc_path M 0 bs (final M) \<longrightarrow> path_cost cost as \<le> path_cost cost bs + Fin d)"

lemma near_best_worst:
  assumes f: "least_costs cost (numStates M) (\<lambda>v as. arc_path M 0 as v) f" and fin: "final M < numStates M"
  shows "near_best cost d M as \<longleftrightarrow> arc_path M 0 as (final M) \<and> path_cost cost as \<le> f ! final M + Fin d"
proof
  assume n: "near_best cost d M as"
  show "arc_path M 0 as (final M) \<and> path_cost cost as \<le> f ! final M + Fin d"
  proof (cases "f ! final M = HUGE")
    case False
    then show ?thesis using n least_costsD(1) [OF f fin] unfolding near_best_def by metis
  qed (use n in \<open>simp add: near_best_def\<close>)
next
  assume a: "arc_path M 0 as (final M) \<and> path_cost cost as \<le> f ! final M + Fin d"
  have "f ! final M + Fin d \<le> path_cost cost bs + Fin d" if "arc_path M 0 bs (final M)" for bs
    by (rule add_right_mono) (rule least_costsD(2) [OF f fin that])
  then show "near_best cost d M as" using a unfolding near_best_def by (blast intro: order.trans)
qed

text \<open>States and arcs that \<open>prunePaths\<close> keeps, from the least costs.\<close>

definition good_state :: "'c::linordered_ab_group_add cost list \<Rightarrow> 'c cost list \<Rightarrow> 'c cost \<Rightarrow> nat \<Rightarrow> bool" where
  "good_state f r worst p \<longleftrightarrow> \<not> worst < f ! p + r ! p"

definition good_arc :: "('w \<Rightarrow> 'c::linordered_ab_group_add cost) \<Rightarrow> 'c cost list \<Rightarrow> 'c cost list \<Rightarrow> 'c cost \<Rightarrow> nat \<Rightarrow> 'w FSTArc \<Rightarrow> bool" where
  "good_arc cost f r worst p a \<longleftrightarrow> \<not> worst < cost (arc_weight a) + f ! p + r ! arc_dest a"

lemma good_path_kept:
  assumes M: "wfst_ok M" and f: "least_costs cost (numStates M) (\<lambda>v as. arc_path M 0 as v) f"
    and r: "least_costs cost (numStates M) (\<lambda>v as. arc_path M v as (final M)) r"
    and m: "\<And>p. p < numStates M \<Longrightarrow> marked ! p \<longleftrightarrow> \<not> good_state f r worst p"
  shows "arc_path M 0 xs p \<Longrightarrow> arc_path M p as (final M) \<Longrightarrow> p < numStates M \<Longrightarrow> path_cost cost (xs @ as) \<le> worst \<Longrightarrow>
    kept_path marked (good_arc cost f r worst) p as"
proof (induction as arbitrary: xs p)
  case Nil
  have "f ! p + r ! p \<le> path_cost cost xs + path_cost cost []"
    using least_costsD(2) [OF f Nil.prems(3,1)] least_costsD(2) [OF r Nil.prems(3,2)] by (rule cost_add_mono)
  then have "f ! p + r ! p \<le> worst" using Nil.prems(4) by simp
  then show ?case using m [OF Nil.prems(3)] by (simp add: good_state_def)
next
  case (Cons a as)
  have "f ! p + r ! p \<le> path_cost cost xs + path_cost cost (a # as)"
    using least_costsD(2) [OF f Cons.prems(3,1)] least_costsD(2) [OF r Cons.prems(3,2)] by (rule cost_add_mono)
  then have 1: "f ! p + r ! p \<le> worst" using Cons.prems(4) by (metis order.trans path_cost_simps(3))
  have a: "a \<in> set (state_arcs M p)" "arc_path M (arc_dest a) as (final M)" using Cons.prems(2) by simp_all
  then have d: "arc_dest a < numStates M" using M Cons.prems(3) by (auto simp: wfst_ok_def state_arcs_def)
  have "f ! p + r ! arc_dest a \<le> path_cost cost xs + path_cost cost as"
    using least_costsD(2) [OF f Cons.prems(3,1)] least_costsD(2) [OF r d a(2)] by (rule cost_add_mono)
  then have "cost (arc_weight a) + (f ! p + r ! arc_dest a) \<le> cost (arc_weight a) + (path_cost cost xs + path_cost cost as)"
    by (rule add_left_mono)
  then have 2: "cost (arc_weight a) + f ! p + r ! arc_dest a \<le> worst"
    using Cons.prems(4) by (simp add: ac_simps)
  have "kept_path marked (good_arc cost f r worst) (arc_dest a) as"
    using Cons.IH [of "xs @ [a]" "arc_dest a"] Cons.prems(1,4) a d by (auto simp: arc_path_append)
  then show ?case using m [OF Cons.prems(3)] leD [OF 1] leD [OF 2] by (simp add: good_state_def good_arc_def [of cost f r worst p a])
qed

lemma prunePaths_part:
  fixes cost :: "'w \<Rightarrow> 'c::linordered_ab_group_add cost"
  assumes M: "wfst_ok M" and nn: "nonneg_costs cost M" and lim: "numStates M \<le> max_states" and srt: "sorts sorter"
    and f: "f = fst (shortestDistancesFrom (makeGraph cost M) 0 False)"
    and r: "r = fst (shortestDistancesFrom (reverseGraph (makeGraph cost M) True) (final M) False)"
    and w: "worst = f ! final M + Fin d" and good: "good_state f r worst (final M)"
  shows "\<exists>M' marked. prunePaths cost sorter max_states (Some d) M = Some M' \<and> part_of M marked (good_arc cost f r worst) M' \<and>
    final M' = index_table marked ! final M \<and> (\<forall>p < numStates M. marked ! p \<longleftrightarrow> \<not> good_state f r worst p)"
proof -
  let ?n = "numStates M"
  have n: "length f = ?n" using distances_least(1) [OF M nn] f by (simp add: least_costs_def)
  have fin: "final M < ?n" "?n < uint_minus1" using M by (simp_all add: wfst_ok_def)
  define costs where "costs = best_path_costs f r"
  define order where "order = sorter costs"
  have cs: "set costs = {(f ! i + r ! i, i) |i. i < ?n}" "map snd costs = [0..<?n]"
    by (auto simp: costs_def best_path_costs_def n comp_def)
  have mo: "mset order = mset costs" using srt by (simp add: sorts_def order_def)
  then have so: "set order = set costs" "length order = ?n"
    using mset_eq_setD mset_eq_length cs(2) by (metis, metis length_map length_upt minus_nat.diff_0)
  have "mset (map snd order) = mset [0..<?n]" using mo cs(2) by (metis mset_map)
  then have ds: "distinct (map snd order)" by (metis distinct_upt mset_eq_imp_distinct_iff)
  obtain marked ss where fl: "fold (prune_state cost f r (Some worst)) order (replicate ?n False, states M) = (marked, ss)" by fastforce
  have "\<forall>x \<in> set order. snd x < ?n" by (auto simp: so cs(1))
  from prune_fold [OF ds this _ _ fl] have pf: "length marked = ?n" "length ss = ?n"
    "\<forall>(c, st) \<in> set order. marked ! st = (worst < c) \<and>
       ss ! st = (if worst < c then states M ! st else erase_if (\<lambda>a. worst < cost (arc_weight a) + f ! st + r ! arc_dest a) (states M ! st))"
    by simp_all
  have p: "marked ! p \<longleftrightarrow> \<not> good_state f r worst p"
    "ss ! p = (if marked ! p then states M ! p else erase_if (\<lambda>a. worst < cost (arc_weight a) + f ! p + r ! arc_dest a) (states M ! p))"
    if "p < ?n" for p
  proof -
    have "(f ! p + r ! p, p) \<in> set order" using that by (auto simp: so cs(1))
    then show "marked ! p \<longleftrightarrow> \<not> good_state f r worst p"
      "ss ! p = (if marked ! p then states M ! p else erase_if (\<lambda>a. worst < cost (arc_weight a) + f ! p + r ! arc_dest a) (states M ! p))"
      using pf(3) by (auto simp: good_state_def)
  qed
  define M1 where "M1 = M\<lparr>states := ss\<rparr>"
  have so1: "size_ok (ss ! p) \<and> set (arcs (ss ! p)) \<subseteq> set (arcs (states M ! p))" if "p < ?n" for p
  proof -
    have "size_ok (states M ! p)" using M that by (simp add: wfst_ok_def)
    moreover from this have "size_ok (erase_if Q (states M ! p))" for Q by (simp add: automata_simps)
    moreover have "set (arcs (erase_if Q (states M ! p))) \<subseteq> set (arcs (states M ! p))" for Q by (auto simp: erase_if_def)
    ultimately show ?thesis using p(2) [OF that] by (cases "marked ! p") simp_all
  qed
  have "size_ok s \<and> (\<forall>a \<in> set (arcs s). arc_dest a < ?n)" if s: "s \<in> set ss" for s
  proof -
    obtain i where i: "i < ?n" "s = ss ! i" using s unfolding in_set_conv_nth pf(2) by blast
    then show ?thesis using so1 [OF i(1)] M nth_mem [OF i(1)] unfolding wfst_ok_def by blast
  qed
  then have M1: "wfst_ok M1" using M pf(2) by (simp add: wfst_ok_def M1_def)
  have "length marked = numStates M1" using pf(1,2) by (simp add: M1_def)
  from removeMarkedStates_spec [OF M1 this] obtain M' where M': "removeMarkedStates marked M1 = Some M'"
      "final M' = (if marked ! final M then invalid_state else index_table marked ! final M)"
      "\<forall>p < numStates M1. \<not> marked ! p \<longrightarrow> state_arcs M' (index_table marked ! p) =
         map (\<lambda>a. a\<lparr>arc_dest := index_table marked ! arc_dest a\<rparr>) (filter (\<lambda>a. \<not> marked ! arc_dest a) (state_arcs M1 p))"
    by (auto simp: M1_def)
  have "prunePaths cost sorter max_states (Some d) M = Some M'"
  proof -
    have al: "(if max_states = UNLIMITED \<or> max_states > ?n then ?n else max_states) = ?n" using lim by simp
    show ?thesis
      unfolding prunePaths_def Let_def f [symmetric] r [symmetric] al
      using fl M'(1) so(2) by (simp add: order_def [symmetric] costs_def [symmetric] w [symmetric] M1_def)
  qed
  moreover have "part_of M marked (good_arc cost f r worst) M'"
    unfolding part_of_def
  proof (intro conjI allI impI ballI)
    show "length marked = ?n" by (rule pf(1))
    show "arc_dest a < ?n" if "p < ?n" "a \<in> set (state_arcs M p)" for p a
      using M that by (auto simp: wfst_ok_def state_arcs_def)
    fix q assume q: "q < ?n" "\<not> marked ! q"
    have "filter (\<lambda>a. \<not> marked ! arc_dest a) (state_arcs M1 q) =
        filter (\<lambda>a. good_arc cost f r worst q a \<and> \<not> marked ! arc_dest a) (state_arcs M q)"
      using q p(2) [OF q(1)] pf(2) by (simp add: state_arcs_def M1_def erase_if_def good_arc_def conj_commute)
    then show "state_arcs M' (index_table marked ! q) = map (\<lambda>a. a\<lparr>arc_dest := index_table marked ! arc_dest a\<rparr>)
        (filter (\<lambda>a. good_arc cost f r worst q a \<and> \<not> marked ! arc_dest a) (state_arcs M q))"
      using M'(3) q pf(2) by (simp add: M1_def)
  qed
  moreover have "final M' = index_table marked ! final M" using M'(2) p(1) [OF fin(1)] good by simp
  ultimately show ?thesis using p(1) by blast
qed

lemma good_arc_near_best:
  fixes cost :: "'w \<Rightarrow> 'c::linordered_ab_group_add cost"
  assumes M: "wfst_ok M" and f: "least_costs cost (numStates M) (\<lambda>v as. arc_path M 0 as v) f"
    and r: "least_costs cost (numStates M) (\<lambda>v as. arc_path M v as (final M)) r" and w: "worst = f ! final M + Fin d"
    and a: "p < numStates M" "a \<in> set (state_arcs M p)" "good_arc cost f r worst p a" "worst \<noteq> HUGE"
  shows "\<exists>bs. a \<in> set bs \<and> near_best cost d M bs"
proof -
  have d: "arc_dest a < numStates M" "final M < numStates M" using M a(1,2) by (auto simp: wfst_ok_def state_arcs_def)
  have le: "cost (arc_weight a) + f ! p + r ! arc_dest a \<le> worst" using a(3) by (simp add: good_arc_def)
  then have "f ! p \<noteq> HUGE" "r ! arc_dest a \<noteq> HUGE" using a(4) by auto
  then obtain xs ys where "arc_path M 0 xs p" "path_cost cost xs = f ! p" "arc_path M (arc_dest a) ys (final M)" "path_cost cost ys = r ! arc_dest a"
    using least_costsD(1) [OF f a(1)] least_costsD(1) [OF r d(1)] by blast
  then have "arc_path M 0 (xs @ a # ys) (final M) \<and> path_cost cost (xs @ a # ys) \<le> worst"
    using a(2) le by (auto simp: arc_path_append ac_simps)
  then show ?thesis using near_best_worst [OF f d(2)] w by (intro exI [of _ "xs @ a # ys"]) simp
qed

lemma kept_path_arcs: "kept_path marked K p as \<Longrightarrow> arc_path M p as q \<Longrightarrow> a \<in> set as \<Longrightarrow> \<exists>u. a \<in> set (state_arcs M u) \<and> K u a"
  by (induction as arbitrary: p) auto

text \<open>C10: \<open>prunePaths\<close> with a ratio and room for all states, on a transducer with weights of at most one: every accepting path that is
  within the ratio of all others is left, and each path that is left was there before, made of arcs of paths within the ratio.\<close>

theorem prunePaths_keeps_near_best:
  fixes cost :: "'w \<Rightarrow> 'c::linordered_ab_group_add cost"
  assumes M: "wfst_ok M" and nn: "nonneg_costs cost M" and d: "0 \<le> d" and lim: "numStates M \<le> max_states" and srt: "sorts sorter"
  shows "\<exists>M'. prunePaths cost sorter max_states (Some d) M = Some M' \<and>
    (\<forall>as. near_best cost d M as \<longrightarrow> (\<exists>as'. arc_path M' 0 as' (final M') \<and> path_words as' = path_words as)) \<and>
    (\<forall>as'. arc_path M' 0 as' (final M') \<longrightarrow> (\<exists>as. arc_path M 0 as (final M) \<and> path_words as = path_words as' \<and>
       (\<forall>a \<in> set as. \<exists>bs. a \<in> set bs \<and> near_best cost d M bs)))"
proof -
  define f where "f = fst (shortestDistancesFrom (makeGraph cost M) 0 False)"
  define r where "r = fst (shortestDistancesFrom (reverseGraph (makeGraph cost M) True) (final M) False)"
  define worst where "worst = f ! final M + Fin d"
  note lf = distances_least(1) [OF M nn, folded f_def] and lr = distances_least(2) [OF M nn, folded r_def]
  have fin: "final M < numStates M" "0 < numStates M" using M by (auto simp: wfst_ok_def)
  have small: "f ! final M \<le> worst" unfolding worst_def by (rule cost_le_plus [OF d])
  have "f ! final M + r ! final M \<le> f ! final M + path_cost cost []"
    by (rule add_left_mono) (rule least_costsD(2) [OF lr fin(1)], simp)
  then have gf: "good_state f r worst (final M)" using small by (simp add: good_state_def)
  have g0: "good_state f r worst 0"
  proof (cases "f ! final M = HUGE")
    case True
    then show ?thesis by (simp add: good_state_def worst_def)
  next
    case False
    then obtain as where as: "arc_path M 0 as (final M)" "path_cost cost as = f ! final M" using least_costsD(1) [OF lf fin(1)] by blast
    have "f ! 0 + r ! 0 \<le> path_cost cost [] + path_cost cost as"
      by (rule cost_add_mono [OF least_costsD(2) [OF lf fin(2)] least_costsD(2) [OF lr fin(2)]]) (simp_all add: as)
    then show ?thesis using small as(2) by (auto simp: good_state_def)
  qed
  obtain M' marked where P: "prunePaths cost sorter max_states (Some d) M = Some M'" "part_of M marked (good_arc cost f r worst) M'"
      "final M' = index_table marked ! final M" "\<forall>p < numStates M. marked ! p \<longleftrightarrow> \<not> good_state f r worst p"
    using prunePaths_part [OF M nn lim srt f_def r_def worst_def gf] by blast
  have len: "length marked = numStates M" using P(2) by (simp add: part_of_def)
  have t0: "index_table marked ! 0 = 0" using index_table_0 [of marked] P(4) g0 fin(2) len by simp
  have "\<exists>as'. arc_path M' 0 as' (final M') \<and> path_words as' = path_words as" if n: "near_best cost d M as" for as
  proof -
    have as: "arc_path M 0 as (final M)" "path_cost cost as \<le> worst" using n near_best_worst [OF lf fin(1)] by (simp_all add: worst_def)
    have "kept_path marked (good_arc cost f r worst) 0 as"
      by (rule good_path_kept [OF M lf lr, where xs = "[]"]) (use P(4) as fin(2) in simp_all)
    from part_of_path [OF P(2) as(1) fin(2) this] show ?thesis by (simp add: t0 P(3))
  qed
  moreover have "\<exists>as. arc_path M 0 as (final M) \<and> path_words as = path_words as' \<and> (\<forall>a \<in> set as. \<exists>bs. a \<in> set bs \<and> near_best cost d M bs)"
    if a': "arc_path M' 0 as' (final M')" for as'
  proof -
    have "\<not> marked ! 0" using P(4) g0 fin(2) by simp
    moreover have "arc_path M' (index_table marked ! 0) as' (final M')" using a' by (simp add: t0)
    ultimately obtain as q where
      as: "arc_path M 0 as q" "q < numStates M" "\<not> marked ! q" "final M' = index_table marked ! q" "path_words as = path_words as'"
        "kept_path marked (good_arc cost f r worst) 0 as" using part_of_path_back [OF P(2) _ fin(2)] by blast
    have "q = final M" using index_table_inj [of q marked "final M"] as(2-4) P(3,4) gf fin(1) len by auto
    then have ap: "arc_path M 0 as (final M)" using as(1) by simp
    have "\<exists>bs. a \<in> set bs \<and> near_best cost d M bs" if a: "a \<in> set as" for a
    proof (cases "worst = HUGE")
      case True
      then show ?thesis using near_best_worst [OF lf fin(1), of d as] ap a by (auto simp: worst_def)
    next
      case False
      obtain u where u: "a \<in> set (state_arcs M u)" "good_arc cost f r worst u a" using kept_path_arcs [OF as(6) ap a] by blast
      have un: "u < numStates M" using u(1) by (auto simp: state_arcs_def split: if_splits)
      show ?thesis by (rule good_arc_near_best [OF M lf lr worst_def un u False])
    qed
    then show ?thesis using ap as(5) by blast
  qed
  ultimately show ?thesis using P(1) by blast
qed

definition prune_mach :: "int cost WFST" where
  "prune_mach =
     \<lparr>owner_alph = \<lambda>_. False, alph = \<lambda>_. None, named_states = False, stateNames = alph_empty, final = 2,
       states = [addArc (mk_arc 1 1 2 (Fin 7)) (addArc (mk_arc 2 2 1 (Fin 2)) state_new), addArc (mk_arc 3 3 2 (Fin 3)) state_new, state_new],
       indexed_by = kNone\<rparr>"

lemma prune_mach_ok: "wfst_ok prune_mach" "nonneg_costs (\<lambda>w. w) prune_mach" "numStates prune_mach \<le> 5"
  by (simp_all add: wfst_ok_def prune_mach_def nonneg_costs_def addArc_def mk_arc_def state_new_def size_ok_def uint_minus1_def no_holes_def zero_cost_def)

lemma sorts_sort_key: "sorts (sort_key fst :: ('c::linorder cost \<times> nat) list \<Rightarrow> _)"
proof -
  have "sorted_wrt (\<lambda>l r. fst l \<le> fst r) (sort_key fst xs)" for xs :: "('c::linorder cost \<times> nat) list"
    using sorted_sort_key [of fst xs] by (simp add: sorted_map)
  then show ?thesis unfolding sorts_def lesscost_def by (simp add: not_less)
qed

theorem prunePaths_keeps_near_best_witness:
  "wfst_ok prune_mach \<and> nonneg_costs (\<lambda>w. w) prune_mach \<and>
   (\<exists>M'. prunePaths (\<lambda>w. w) (sort_key fst) 5 (Some (1 :: int)) prune_mach = Some M' \<and>
      (\<forall>as. near_best (\<lambda>w. w) 1 prune_mach as \<longrightarrow> (\<exists>as'. arc_path M' 0 as' (final M') \<and> path_words as' = path_words as)))"
  using prunePaths_keeps_near_best [OF prune_mach_ok(1,2) _ prune_mach_ok(3) sorts_sort_key, of 1] prune_mach_ok(1,2) by auto

section \<open>Random paths\<close>

text \<open>\<open>rnd k\<close> is the \<open>k\<close>-th random number that is drawn.  \<open>Inl\<close>: the exception that no arc was chosen.  \<open>None\<close>: the loop
  does not end.\<close>

record 'w PathArc =
  path_in :: nat
  path_out :: nat
  path_weight :: 'w
  path_dest :: nat

datatype path_error = no_random_arc

definition setPathArc :: "'w FSTArc \<Rightarrow> 'w PathArc" where
  "setPathArc a = \<lparr>path_in = arc_in a, path_out = arc_out a, path_weight = arc_weight a, path_dest = arc_dest a\<rparr>"

fun choose_arc :: "'w::{linorder, plus} \<Rightarrow> 'w \<Rightarrow> 'w FSTArc list \<Rightarrow> 'w FSTArc option" where
  "choose_arc which_arc arcsum [] = None"
| "choose_arc which_arc arcsum (a # as) =
     (if which_arc \<le> arcsum + arc_weight a then Some a else choose_arc which_arc (arcsum + arc_weight a) as)"

partial_function (option) randomPath ::
  "'w::linordered_semidom WFST \<Rightarrow> nat \<Rightarrow> (nat \<Rightarrow> 'w) \<Rightarrow> nat \<Rightarrow> nat \<Rightarrow> nat \<Rightarrow> (path_error + 'w PathArc list \<times> bool \<times> nat) option" where
  "randomPath M max_len rnd s len k =
     (if s = final M then Some (Inr ([], True, k))
      else if len > max_len \<or> arcs (states M ! s) = [] then Some (Inr ([], False, k))
      else (case choose_arc ((\<Sum>a\<leftarrow>arcs (states M ! s). arc_weight a) * rnd k) 0 (arcs (states M ! s)) of
              None \<Rightarrow> Some (Inl no_random_arc)
            | Some a \<Rightarrow>
                Option.bind (randomPath M max_len rnd (arc_dest a) ((len + 2) mod 2 ^ 32) (k + 1))
                  (\<lambda>r. Some (case r of Inl e \<Rightarrow> Inl e | Inr (ps, ok, k) \<Rightarrow> Inr (setPathArc a # ps, ok, k)))))"

text \<open>\<open>randomPaths\<close>: the last path found comes first.\<close>

partial_function (option) randomPaths ::
  "'w::linordered_semidom WFST \<Rightarrow> nat \<Rightarrow> (nat \<Rightarrow> 'w) \<Rightarrow> nat \<Rightarrow> nat \<Rightarrow> (path_error + 'w PathArc list list) option" where
  "randomPaths M max_len rnd n k =
     (if n = 0 then Some (Inr [])
      else (case randomPath M max_len rnd 0 0 k of
              None \<Rightarrow> None
            | Some r \<Rightarrow> (case r of Inl e \<Rightarrow> Some (Inl e)
                         | Inr (ps, ok, k) \<Rightarrow>
                             if ok then Option.bind (randomPaths M max_len rnd (n - 1) k)
                                         (\<lambda>r. Some (case r of Inl e \<Rightarrow> Inl e | Inr pss \<Rightarrow> Inr (pss @ [ps])))
                             else randomPaths M max_len rnd n k)))"

lemma choose_arc_some:
  fixes acc :: "'w::linordered_semidom"
  shows "choose_arc w acc as = Some a \<Longrightarrow> a \<in> set as"
    "w \<le> acc + (\<Sum>a\<leftarrow>as. arc_weight a) \<Longrightarrow> as \<noteq> [] \<Longrightarrow> choose_arc w acc as \<noteq> None"
proof -
  show "choose_arc w acc as = Some a \<Longrightarrow> a \<in> set as" by (induction as arbitrary: acc) (auto split: if_splits)
  show "w \<le> acc + (\<Sum>a\<leftarrow>as. arc_weight a) \<Longrightarrow> as \<noteq> [] \<Longrightarrow> choose_arc w acc as \<noteq> None"
  proof (induction as arbitrary: acc)
    case (Cons b as)
    then show ?case by (cases "as = []") (auto simp: add.assoc)
  qed simp
qed

lemma random_step:
  fixes M :: "'w::linordered_semidom WFST"
  assumes M: "\<forall>st \<in> set (states M). \<forall>a \<in> set (arcs st). 0 \<le> arc_weight a" and r: "r \<le> 1"
    and s: "s < numStates M" "arcs (states M ! s) \<noteq> []"
  shows "\<exists>a. choose_arc ((\<Sum>a\<leftarrow>arcs (states M ! s). arc_weight a) * r) 0 (arcs (states M ! s)) = Some a \<and> a \<in> set (state_arcs M s)"
proof -
  let ?as = "arcs (states M ! s)"
  have "states M ! s \<in> set (states M)" using s(1) by simp
  then have "0 \<le> (\<Sum>a\<leftarrow>?as. arc_weight a)" using M by (intro sum_list_nonneg) auto
  then have "(\<Sum>a\<leftarrow>?as. arc_weight a) * r \<le> 0 + (\<Sum>a\<leftarrow>?as. arc_weight a)" using r by (simp add: mult_left_le)
  from choose_arc_some(2) [OF this s(2)] obtain a where
    "choose_arc ((\<Sum>a\<leftarrow>?as. arc_weight a) * r) 0 ?as = Some a" by blast
  then show ?thesis using choose_arc_some(1) s(1) by (fastforce simp: state_arcs_def)
qed

text \<open>C40: with weights that are not negative and random numbers up to one, \<open>randomPath\<close> with a bound returns and does not throw.  Its
  arcs make a path from the start, to the final state when it returns true; the path has at most one arc more than half the bound.\<close>

theorem randomPath_returns:
  fixes M :: "'w::linordered_semidom WFST"
  assumes M: "wfst_ok M" "\<forall>st \<in> set (states M). \<forall>a \<in> set (arcs st). 0 \<le> arc_weight a" and r: "\<And>k. rnd k \<le> 1" and l: "max_len < uint_minus1 - 2"
  shows "\<exists>as q ok k'. randomPath M max_len rnd 0 0 k = Some (Inr (map setPathArc as, ok, k')) \<and> arc_path M 0 as q \<and>
    (ok \<longleftrightarrow> q = final M) \<and> 2 * length as \<le> max_len + 2 \<and> k' = k + length as"
proof -
  have "\<exists>as q ok k'. randomPath M max_len rnd s len k = Some (Inr (map setPathArc as, ok, k')) \<and> arc_path M s as q \<and>
      (ok \<longleftrightarrow> q = final M) \<and> len + 2 * length as \<le> max_len + 2 \<and> k' = k + length as"
    if "s < numStates M" "len \<le> max_len + 2" for s len k
    using that
  proof (induction "max_len + 3 - len" arbitrary: s len k rule: less_induct)
    case less
    consider "s = final M" | "s \<noteq> final M" "len > max_len \<or> arcs (states M ! s) = []" | "s \<noteq> final M" "len \<le> max_len" "arcs (states M ! s) \<noteq> []"
      by linarith
    then show ?case
    proof cases
      case 1
      then show ?thesis using less.prems 
        by (intro exI [of _ "[]"], intro exI [of _ s], intro exI [of _ True], intro exI [of _ k]) (subst randomPath.simps, simp)
    next
      case 2
      then show ?thesis using less.prems 
        by (intro exI [of _ "[]"], intro exI [of _ s], intro exI [of _ False], intro exI [of _ k]) (subst randomPath.simps, simp)
    next
      case 3
      obtain a where a: "choose_arc ((\<Sum>a\<leftarrow>arcs (states M ! s). arc_weight a) * rnd k) 0 (arcs (states M ! s)) = Some a" "a \<in> set (state_arcs M s)"
        using random_step [OF M(2) r less.prems(1) 3(3)] by blast
      have d: "arc_dest a < numStates M" using M(1) a(2) less.prems(1) by (auto simp: wfst_ok_def state_arcs_def)
      have len: "(len + 2) mod 2 ^ 32 = len + 2" using 3(2) l by (simp add: uint_minus1_def)
      have less_len: "max_len + 3 - (len + 2) < max_len + 3 - len" using 3(2) by simp
      obtain as q ok k' where ih: "randomPath M max_len rnd (arc_dest a) (len + 2) (k + 1) = Some (Inr (map setPathArc as, ok, k'))"
          "arc_path M (arc_dest a) as q" "ok \<longleftrightarrow> q = final M" "len + 2 + 2 * length as \<le> max_len + 2" "k' = k + 1 + length as"
        using less.hyps [of "len + 2" "arc_dest a" "k + 1", OF less_len d] 3(2) by auto
      have "randomPath M max_len rnd s len k = Some (Inr (map setPathArc (a # as), ok, k'))"
        using 3 a(1) ih(1) len by (subst randomPath.simps) simp
      moreover have "arc_path M s (a # as) q" using a(2) ih(2) by simp
      ultimately show ?thesis using ih(3-5) 
        by (intro exI [of _ "a # as"], intro exI [of _ q], intro exI [of _ ok], intro exI [of _ k']) simp
    qed
  qed
  moreover have "0 < numStates M" using M(1) by (auto simp: wfst_ok_def)
  ultimately show ?thesis by fastforce
qed

definition loop_mach :: "nat WFST" where
  "loop_mach =
     \<lparr>owner_alph = \<lambda>_. False, alph = \<lambda>_. None, named_states = False, stateNames = alph_empty, final = 1,
       states = [addArc (mk_arc 1 1 0 1) (addArc (mk_arc 2 2 1 1) state_new), state_new], indexed_by = kNone\<rparr>"

theorem randomPath_returns_witness:
  "wfst_ok loop_mach \<and> (\<exists>as q ok k'. randomPath loop_mach 7 (\<lambda>_. 1) 0 0 0 = Some (Inr (map setPathArc as, ok, k')) \<and> arc_path loop_mach 0 as q \<and>
    (ok \<longleftrightarrow> q = final loop_mach) \<and> 2 * length as \<le> 7 + 2 \<and> k' = 0 + length as)"
proof -
  have "wfst_ok loop_mach" "\<forall>st \<in> set (states loop_mach). \<forall>a \<in> set (arcs st). 0 \<le> arc_weight a"
    by (simp_all add: wfst_ok_def loop_mach_def addArc_def mk_arc_def state_new_def size_ok_def uint_minus1_def no_holes_def)
  from randomPath_returns [OF this, of "\<lambda>_. 1" 7 0] this show ?thesis by (simp add: uint_minus1_def)
qed

end
