(* ===== verification/Spec2Isabelle.thy ===== *)
theory Spec2Isabelle
  imports HashTab Indices Digits Alphabet FstState Graph Wfst WfstOps Cascade Compose Normalize Heap2 ShortestPath LogWeight Derivations DerivCounts
    Training TrainMatrix Estimate EmGain EM TrainLoop Legible Paths
begin

text \<open>
  A verification library for carmel, a toolkit for weighted finite-state transducers: the sources under
  \<open>src/carmel/src\<close> and the parts of \<open>src/graehl/shared\<close> that they rest on.

  \<^bold>\<open>The program.\<close>  A transducer (\<open>WFST\<close>, \<open>fst.h\<close>) is an array of states (\<open>state.h\<close>) with lists of arcs
  (\<open>arc.h\<close>), symbols numbered by two alphabets (\<open>strhash.h\<close>) that several transducers may share, and optional
  state names.  It is read from and written to text (\<open>wfstio.cc\<close>), composed with another (\<open>compose.cc\<close>), where
  a cascade (\<open>cascade.h\<close>) may remember for every composed arc the chain of arcs it was made from, reduced, pruned and
  normalized (\<open>fst.cc\<close>).  Training (\<open>train.cc\<close>) builds for every pair of the corpus the lattice of its derivations
  (\<open>derivations.h\<close>), collects expected counts by forward and backward sums, normalizes them, and repeats, with random
  restarts.  Below lie hash tables (\<open>2hash.h\<close>), heaps (\<open>2heap.h\<close>), graph algorithms (\<open>graph.cc\<close>) and weights kept as
  logarithms (\<open>weight.h\<close>).

  \<^bold>\<open>Theories.\<close>
  \<^item> \<open>Prelude\<close>: collections of facts, C++ unsigned integers, lemmas on lists.
  \<^item> \<open>HashTab\<close>: \<open>2hash.h\<close> and \<open>hash_functions.hpp\<close>.  The table is an array of chains; lookup, insertion, removal, growth
    and iteration are those of a finite map, stated as the interpretation of a locale of maps that the other theories use.
  \<^item> \<open>Indices\<close>: \<open>indices_after.hpp\<close> and \<open>array.hpp\<close>, removing marked positions of arrays and renumbering the rest.
  \<^item> \<open>Digits\<close>: \<open>itoa.hpp\<close> and \<open>atoi_fast.hpp\<close> on words of any length: values, overflow and the round trip.
  \<^item> \<open>Alphabet\<close>: \<open>strhash.h\<close> and \<open>stringkey.h\<close>, symbols and their numbers, the pool of shared strings.
  \<^item> \<open>FstState\<close>: \<open>arc.h\<close> and \<open>state.h\<close>, one state with its arcs, its index and its reduction.
  \<^item> \<open>Graph\<close>: \<open>graph.h\<close> and \<open>graph.cc\<close>, depth first search, topological order, reversal, sums over walks.
  \<^item> \<open>Heap2\<close>: \<open>2heap.h\<close>, the packed heap over any array with a write operation; \<open>heapSort\<close> sorts.
  \<^item> \<open>ShortestPath\<close>: \<open>shortestDistancesFrom\<close> and \<open>shortestPathTreeTo\<close> on the heap that tracks positions.
  \<^item> \<open>LogWeight\<close>: \<open>weight.h\<close>, weights as logarithms with infinities and NaN; it refines the nonnegative reals.
  \<^item> \<open>Wfst\<close>, \<open>WfstOps\<close>: \<open>fst.h\<close> and \<open>fst.cc\<close>, the transducer and its operations; \<open>reduce\<close> keeps exactly the
    states on a path from start to end and the weight of every sequence of labels, \<open>consolidateArcs\<close> merges arcs in each of its modes.
  \<^item> \<open>Paths\<close>: \<open>prunePaths\<close> and the random paths of \<open>fst.cc\<close> and \<open>fst.h\<close>.
  \<^item> \<open>Istream\<close>, \<open>WeightText\<close>, \<open>WfstIO\<close>, \<open>Legible\<close>: \<open>wfstio.cc\<close> with the comments of \<open>genio.h\<close> and the text of weights
    (\<open>weight.h\<close>), over the standard library's decimal text of floating point numbers.  Input streams are the text that is left;
    reading ends on every text, what it returns is well formed, and what was written is read back, in every format.
  \<^item> \<open>Cascade\<close>: \<open>cascade.h\<close>, chains of parameters behind the arcs of a composition, and the distribution of counts.
  \<^item> \<open>Compose\<close>: \<open>compose.h\<close> and \<open>compose.cc\<close>, composition with the filter for epsilons: the result's relation is the
    composition of the operands' relations, each pair of paths is counted once, and chains carry the weights.
  \<^item> \<open>Normalize\<close>: \<open>NormalizeMethod\<close>, the iterator of normalization groups and \<open>WFST::normalize\<close>.
  \<^item> \<open>Derivations\<close>, \<open>DerivCounts\<close>: \<open>derivations.h\<close>, the lattice of one training pair, its pruning and its sums; they are
    the sums over the accepting paths of the pair.
  \<^item> \<open>Training\<close>, \<open>TrainMatrix\<close>, \<open>Estimate\<close>: the corpus (\<open>train.h\<close>), the table of arcs, \<open>cached_derivs.h\<close> and the
    estimation of \<open>train.cc\<close>, over lattices made anew or kept, or over the full matrix; all give the expected uses of the arcs.
  \<^item> \<open>EmGain\<close>, \<open>EM\<close>: one iteration of estimation and maximization does not lower the probability of the corpus.
  \<^item> \<open>TrainLoop\<close>: \<open>WFST::train\<close> with its iterations and restarts; it leaves the best weights it has met.

  \<^bold>\<open>State.\<close>  A heap of alphabets stands for the alphabet objects, so that sharing is visible; pointers into arrays and lists
  are positions; exceptions, failed assertions that the code relies on and calls outside an operation's domain are \<open>None\<close>
  or the left of a sum, as each theory says.  State numbers, symbols and groups are natural numbers with the wrap-around
  of \<open>unsigned\<close> where the code can meet it; \<open>~0\<close> is \<open>uint_minus1\<close>.

  \<^bold>\<open>Bounds and fuel.\<close>  Composition explores at most \<open>3 |A| |B| + 1\<close> trios of states and filter (\<open>compose_fuel\<close>), a lattice at
  most \<open>(|i| + 1) |Q| (|o| + 1)\<close> derivation states (\<open>derive_fuel\<close>); the lemmas show that the exploration is done within
  them.  Loops that the code does not bound are partial functions with values in \<open>option\<close> or have fuel that the lemmas show to be enough: reading, the iterations of
  training (which end by their limit), random paths (which end by their bound on the length).  The text buffer ends at
  \<open>bufend\<close>.

  \<^bold>\<open>Numbers.\<close>  Real numbers are exact.  Weights are elements of an ordered field or semiring where only the algebra matters,
  and \<open>logweight\<close> where the code's treatment of zero, infinity and far apart weights does.

  \<^bold>\<open>Not modelled.\<close>  The command line of \<open>carmel.cc\<close>, which parses options and calls the operations above; the Gibbs sampler
  (\<open>gibbs.cc\<close>, \<open>gibbs.hpp\<close>); the k best paths of \<open>kbest.h\<close>; \<open>WFST::generate\<close>, the permutation lattice, the GraphViz
  output and the OpenFst conversion; serialization of derivations to disk; logs, warnings and reports; the
  separate programs \<open>forest-em\<close>, \<open>gextract\<close>, \<open>sblm\<close>, \<open>clm\<close>, \<open>cipher\<close>, \<open>balance\<close> and the scripts of \<open>util\<close>; the rest of
  \<open>graehl/shared\<close>, a library of which carmel uses the parts above.  Floating point rounding is not modelled.
\<close>

end
